(* ===== verification/Prelude.thy ===== *)
theory Prelude
  imports Main "HOL-Library.Word"
begin

text \<open>
  The vocabulary every component shares: the faults a C program can run into, the result type
  of an operation that may fault, and a few generic facts on lists.  A fault is a value: the
  model of a function that dereferences a null or a freed pointer, or whose \<open>assert\<close>
  fails, returns \<open>Inl\<close> of it, and nothing after the faulting statement happens.
\<close>

section \<open>Faults and results\<close>

datatype fault =
    AssertFail      \<comment> \<open>a C \<open>assert\<close> whose condition is false\<close>
  | NullDeref       \<comment> \<open>a member access through a null pointer\<close>
  | DanglingPtr     \<comment> \<open>a member access through a pointer whose object was freed\<close>
  | BadIndex        \<comment> \<open>an array access out of the bounds of the array\<close>
  | Diverges        \<comment> \<open>a loop that never ends\<close>
  | DivByZero       \<comment> \<open>a division or remainder by zero\<close>

type_synonym 'a result = "fault + 'a"

definition rbind :: "'a result \<Rightarrow> ('a \<Rightarrow> 'b result) \<Rightarrow> 'b result" where
  "rbind r f = (case r of Inl e \<Rightarrow> Inl e | Inr x \<Rightarrow> f x)"

lemma rbind_Inl [simp]: "rbind (Inl e) f = Inl e"
  by (simp add: rbind_def)

lemma rbind_Inr [simp]: "rbind (Inr x) f = f x"
  by (simp add: rbind_def)

lemma rbind_eq_Inr: "rbind r f = Inr y \<longleftrightarrow> (\<exists>x. r = Inr x \<and> f x = Inr y)"
  by (cases r) auto

lemma rbind_eq_Inl: "rbind r f = Inl e \<longleftrightarrow> r = Inl e \<or> (\<exists>x. r = Inr x \<and> f x = Inl e)"
  by (cases r) auto

section \<open>Machine integers of the C program\<close>

type_synonym uint = "32 word"
type_synonym cint = "32 word"
type_synonym usec = "64 word"   \<comment> \<open>\<open>TimerDuration\<close> of bios.h\<close>

section \<open>Generic lemmas\<close>

lemma last_append_Cons [simp]: "last (xs @ y # ys) = last (y # ys)"
  by simp

lemma butlast_last_cases: "xs \<noteq> [] \<Longrightarrow> \<exists>ys y. xs = ys @ [y]"
  by (metis append_butlast_last_id)

lemma set_remove1_distinct: "distinct xs \<Longrightarrow> set (remove1 x xs) = set xs - {x}"
  by (rule set_remove1_eq)

lemma remove1_middle: "x \<notin> set xs \<Longrightarrow> remove1 x (xs @ x # ys) = xs @ ys"
  by (simp add: remove1_append)

lemma card_Suc_le_finite: "finite A \<Longrightarrow> x \<notin> A \<Longrightarrow> card (insert x A) = Suc (card A)"
  by simp

end
