(* ===== verification/RList.thy ===== *)
theory RList
  imports Prelude
begin

text \<open>
  The resource lists of src/util.h: circular doubly-linked lists whose every operation is one
  splice.  A list node is an address of type \<open>'n\<close>; the heap gives every address its
  \<open>prev\<close>, \<open>next\<close> and key field, so that the intrusive nodes embedded in the kernel's
  control blocks become constructors of one address type.  \<open>isring h x xs\<close> says that
  \<open>x\<close> and the nodes \<open>xs\<close> form one ring in that order; a list is the ring of its
  sentinel.
\<close>

section \<open>Nodes and splicing\<close>

record ('n, 'k) rlheap =
  prv :: "'n \<Rightarrow> 'n"
  nxt :: "'n \<Rightarrow> 'n"
  obj :: "'n \<Rightarrow> 'k"

definition rlnode_new :: "'n \<Rightarrow> ('n, 'k) rlheap \<Rightarrow> ('n, 'k) rlheap" where
  "rlnode_new p h = h\<lparr>nxt := (nxt h)(p := p), prv := (prv h)(p := p)\<rparr>"

definition rlnode_init :: "'n \<Rightarrow> 'k \<Rightarrow> ('n, 'k) rlheap \<Rightarrow> ('n, 'k) rlheap" where
  "rlnode_init p ptr h = (let h1 = rlnode_new p h in h1\<lparr>obj := (obj h1)(p := ptr)\<rparr>)"

text \<open>Swapping the same pointer field of the nodes \<open>p\<close> and \<open>q\<close>.\<close>

definition rlnode_swap :: "'n \<Rightarrow> 'n \<Rightarrow> ('n \<Rightarrow> 'n) \<Rightarrow> ('n \<Rightarrow> 'n)" where
  "rlnode_swap p q f = (let temp = f p; f1 = f(p := f q) in f1(q := temp))"

definition rl_splice :: "'n \<Rightarrow> 'n \<Rightarrow> ('n, 'k) rlheap \<Rightarrow> ('n, 'k) rlheap" where
  "rl_splice a b h =
     (let h1 = h\<lparr>prv := rlnode_swap (nxt h a) (nxt h b) (prv h)\<rparr>
      in h1\<lparr>nxt := rlnode_swap a b (nxt h1)\<rparr>)"

definition rlist_remove :: "'n \<Rightarrow> ('n, 'k) rlheap \<Rightarrow> ('n, 'k) rlheap" where
  "rlist_remove a h = rl_splice a (prv h a) h"

definition is_rlist_empty :: "'n \<Rightarrow> ('n, 'k) rlheap \<Rightarrow> bool" where
  "is_rlist_empty a h \<longleftrightarrow> a = nxt h a"

definition rlist_push_front :: "'n \<Rightarrow> 'n \<Rightarrow> ('n, 'k) rlheap \<Rightarrow> ('n, 'k) rlheap" where
  "rlist_push_front list node h = rl_splice list node h"

definition rlist_push_back :: "'n \<Rightarrow> 'n \<Rightarrow> ('n, 'k) rlheap \<Rightarrow> ('n, 'k) rlheap" where
  "rlist_push_back list node h = rl_splice (prv h list) node h"

definition rlist_pop_front :: "'n \<Rightarrow> ('n, 'k) rlheap \<Rightarrow> 'n \<times> ('n, 'k) rlheap" where
  "rlist_pop_front list h = (nxt h list, rl_splice list (nxt h list) h)"

definition rlist_pop_back :: "'n \<Rightarrow> ('n, 'k) rlheap \<Rightarrow> 'n \<times> ('n, 'k) rlheap" where
  "rlist_pop_back list h = (prv h list, rl_splice list (prv h list) h)"

definition rlist_append :: "'n \<Rightarrow> 'n \<Rightarrow> ('n, 'k) rlheap \<Rightarrow> ('n, 'k) rlheap" where
  "rlist_append ldest lsrc h = rlist_remove lsrc (rlist_push_back ldest lsrc h)"

definition rlist_prepend :: "'n \<Rightarrow> 'n \<Rightarrow> ('n, 'k) rlheap \<Rightarrow> ('n, 'k) rlheap" where
  "rlist_prepend ldest lsrc h = rlist_remove lsrc (rlist_push_front ldest lsrc h)"

section \<open>Loops over a list\<close>

text \<open>
  On a ring that is damaged these loops may run for ever, so they are partial functions: the
  value \<open>None\<close> is the loop that does not end.  The counter of \<open>rlist_len\<close> is an
  \<open>unsigned int\<close>.
\<close>

partial_function (option) rlist_len_loop ::
  "('n, 'k) rlheap \<Rightarrow> 'n \<Rightarrow> 'n \<Rightarrow> uint \<Rightarrow> uint option" where
  "rlist_len_loop h list p count =
     (if p \<noteq> list then rlist_len_loop h list (nxt h p) (count + 1) else Some count)"

definition rlist_len :: "'n \<Rightarrow> ('n, 'k) rlheap \<Rightarrow> uint option" where
  "rlist_len list h = rlist_len_loop h list (nxt h list) 0"

partial_function (option) rlist_equal_loop ::
  "('n, 'k) rlheap \<Rightarrow> 'n \<Rightarrow> 'n \<Rightarrow> 'n \<Rightarrow> 'n \<Rightarrow> bool option" where
  "rlist_equal_loop h l1 l2 i1 i2 =
     (if i1 \<noteq> l1
      then (if i2 = l2 \<or> obj h i1 \<noteq> obj h i2 then Some False
            else rlist_equal_loop h l1 l2 (nxt h i1) (nxt h i2))
      else Some (i2 = l2))"

definition rlist_equal :: "'n \<Rightarrow> 'n \<Rightarrow> ('n, 'k) rlheap \<Rightarrow> bool option" where
  "rlist_equal l1 l2 h = rlist_equal_loop h l1 l2 (nxt h l1) (nxt h l2)"

partial_function (option) rlist_reverse_loop ::
  "'n \<Rightarrow> 'n \<Rightarrow> ('n, 'k) rlheap \<Rightarrow> ('n, 'k) rlheap option" where
  "rlist_reverse_loop l p h =
     (let h1 = h\<lparr>prv := (prv h)(p := nxt h p), nxt := (nxt h)(p := prv h p)\<rparr>;
          p1 = nxt h1 p
      in if p1 \<noteq> l then rlist_reverse_loop l p1 h1 else Some h1)"

definition rlist_reverse :: "'n \<Rightarrow> ('n, 'k) rlheap \<Rightarrow> ('n, 'k) rlheap option" where
  "rlist_reverse l h = rlist_reverse_loop l l h"

text \<open>\<open>None\<close> inside the result is the null pointer the caller passes as \<open>fail\<close>.\<close>

partial_function (option) rlist_find_loop ::
  "('n, 'k) rlheap \<Rightarrow> 'n \<Rightarrow> 'k \<Rightarrow> 'n option \<Rightarrow> 'n \<Rightarrow> 'n option option" where
  "rlist_find_loop h list ky fail i =
     (if i \<noteq> list
      then (if obj h i = ky then Some (Some i) else rlist_find_loop h list ky fail (nxt h i))
      else Some fail)"

definition rlist_find :: "'n \<Rightarrow> 'k \<Rightarrow> 'n option \<Rightarrow> ('n, 'k) rlheap \<Rightarrow> 'n option option" where
  "rlist_find list ky fail h = rlist_find_loop h list ky fail (nxt h list)"

partial_function (option) rlist_select_loop ::
  "'n \<Rightarrow> 'n \<Rightarrow> ('n \<Rightarrow> bool) \<Rightarrow> 'n \<Rightarrow> ('n, 'k) rlheap \<Rightarrow> ('n, 'k) rlheap option" where
  "rlist_select_loop lsrc ldest pred i h =
     (if nxt h i \<noteq> lsrc
      then (if pred (nxt h i)
            then (let p = nxt h i; h1 = rlist_push_back ldest p (rlist_remove p h)
                  in rlist_select_loop lsrc ldest pred i h1)
            else rlist_select_loop lsrc ldest pred (nxt h i) h)
      else Some h)"

definition rlist_select ::
  "'n \<Rightarrow> 'n \<Rightarrow> ('n \<Rightarrow> bool) \<Rightarrow> ('n, 'k) rlheap \<Rightarrow> ('n, 'k) rlheap option" where
  "rlist_select lsrc ldest pred h = rlist_select_loop lsrc ldest pred lsrc h"

section \<open>Rings\<close>

fun dseg :: "('n, 'k) rlheap \<Rightarrow> 'n \<Rightarrow> 'n list \<Rightarrow> 'n \<Rightarrow> bool" where
  "dseg h x [] y \<longleftrightarrow> nxt h x = y \<and> prv h y = x"
| "dseg h x (z # zs) y \<longleftrightarrow> nxt h x = z \<and> prv h z = x \<and> dseg h z zs y"

definition isring :: "('n, 'k) rlheap \<Rightarrow> 'n \<Rightarrow> 'n list \<Rightarrow> bool" where
  "isring h x xs \<longleftrightarrow> dseg h x xs x \<and> distinct (x # xs)"


lemma dseg_append [simp]:
  "dseg h x (xs @ z # zs) y \<longleftrightarrow> dseg h x xs z \<and> dseg h z zs y"
  by (induction xs arbitrary: x) auto

lemma dseg_snoc: "dseg h x xs y \<Longrightarrow> nxt h y = z \<Longrightarrow> prv h z = y \<Longrightarrow> dseg h x (xs @ [y]) z"
  by simp

lemma dseg_nxt: "dseg h x xs y \<Longrightarrow> nxt h x = hd (xs @ [y])"
  by (cases xs) auto

lemma dseg_prv: "dseg h x xs y \<Longrightarrow> prv h y = last (x # xs)"
  by (induction xs arbitrary: x) auto

lemma dseg_prv_nxt: "dseg h x xs y \<Longrightarrow> prv h (nxt h x) = x"
  by (cases xs) auto

lemma dseg_nxt_prv: "dseg h x xs y \<Longrightarrow> nxt h (prv h y) = y"
  by (induction xs arbitrary: x) auto

text \<open>The segment reads \<open>next\<close> of its nodes but the last, \<open>prev\<close> of all but the first.\<close>

lemma dseg_cong:
  assumes "\<And>p. p \<in> set (x # xs) \<Longrightarrow> nxt h' p = nxt h p"
    and "\<And>p. p \<in> set (xs @ [y]) \<Longrightarrow> prv h' p = prv h p"
  shows "dseg h' x xs y \<longleftrightarrow> dseg h x xs y"
  using assms by (induction xs arbitrary: x) auto

lemma isring_rotate: "isring h x (xs @ y # ys) \<longleftrightarrow> isring h y (ys @ x # xs)"
  by (auto simp: isring_def)

lemma isring_Nil: "isring h x [] \<longleftrightarrow> nxt h x = x \<and> prv h x = x"
  by (auto simp: isring_def)

lemma isring_distinct: "isring h x xs \<Longrightarrow> distinct (x # xs)"
  by (simp add: isring_def)

lemma isring_nxt: "isring h x xs \<Longrightarrow> nxt h x = hd (xs @ [x])"
  by (auto simp: isring_def dest: dseg_nxt)

lemma isring_prv: "isring h x xs \<Longrightarrow> prv h x = last (x # xs)"
  by (auto simp: isring_def dest: dseg_prv)

lemma isring_cong:
  assumes "\<And>p. p \<in> set (x # xs) \<Longrightarrow> nxt h' p = nxt h p \<and> prv h' p = prv h p"
  shows "isring h' x xs \<longleftrightarrow> isring h x xs"
proof -
  have "dseg h' x xs x \<longleftrightarrow> dseg h x xs x"
    by (rule dseg_cong) (use assms in auto)
  then show ?thesis by (simp add: isring_def)
qed

text \<open>A ring may be read from any of its nodes.\<close>

lemma isring_at:
  assumes "isring h x xs" and "y \<in> set (x # xs)"
  obtains ys where "isring h y ys" and "set (y # ys) = set (x # xs)"
proof (cases "y = x")
  case True
  then show ?thesis using assms(1) by (auto intro: that)
next
  case False
  with assms(2) obtain as bs where xs: "xs = as @ y # bs"
    by (metis set_ConsD split_list)
  with assms(1) have "isring h y (bs @ x # as)"
    by (simp add: isring_rotate)
  moreover have "set (y # bs @ x # as) = set (x # xs)"
    using xs by auto
  ultimately show ?thesis by (rule that)
qed

text \<open>Two rings read from the same node hold the same nodes in the same order.\<close>

lemma dseg_unique:
  assumes "dseg h x xs y" and "dseg h x ys y" and "y \<notin> set xs" and "y \<notin> set ys"
  shows "xs = ys"
  using assms
proof (induction xs arbitrary: x ys)
  case Nil
  then show ?case by (cases ys) auto
next
  case (Cons z zs)
  then show ?case by (cases ys) auto
qed

lemma isring_unique: "isring h x xs \<Longrightarrow> isring h x ys \<Longrightarrow> xs = ys"
  by (auto simp: isring_def intro: dseg_unique)

text \<open>Hence two rings are disjoint as soon as the first node of one is not in the other.\<close>

lemma isring_disjoint:
  assumes "isring h x xs" and "isring h y ys" and "x \<notin> set (y # ys)"
  shows "set (x # xs) \<inter> set (y # ys) = {}"
proof (rule ccontr)
  assume "\<not> ?thesis"
  then obtain z where z: "z \<in> set (x # xs)" "z \<in> set (y # ys)"
    by blast
  obtain us where us: "isring h z us" "set (z # us) = set (x # xs)"
    using assms(1) z(1) by (rule isring_at)
  obtain vs where vs: "isring h z vs" "set (z # vs) = set (y # ys)"
    using assms(2) z(2) by (rule isring_at)
  have "us = vs" using us(1) vs(1) by (rule isring_unique)
  with us(2) vs(2) have "set (x # xs) = set (y # ys)" by simp
  with assms(3) show False by (metis list.set_intros(1))
qed

section \<open>What a splice does to the rings\<close>

lemma nxt_splice [simp]: "nxt (rl_splice a b h) = (nxt h)(a := nxt h b, b := nxt h a)"
  by (simp add: rl_splice_def rlnode_swap_def Let_def)

lemma prv_splice [simp]:
  "prv (rl_splice a b h) =
     (prv h)(nxt h a := prv h (nxt h b), nxt h b := prv h (nxt h a))"
  by (simp add: rl_splice_def rlnode_swap_def Let_def)

lemma obj_splice [simp]: "obj (rl_splice a b h) = obj h"
  by (simp add: rl_splice_def Let_def)

text \<open>Splicing a node with itself changes nothing.\<close>

lemma splice_same: "rl_splice a a h = h"
  by (simp add: rl_splice_def rlnode_swap_def Let_def)

text \<open>A ring whose nodes are not spliced and not next to a spliced node is untouched.\<close>

lemma splice_frame:
  assumes "isring h z zs"
    and "{a, b, nxt h a, nxt h b} \<inter> set (z # zs) = {}"
  shows "isring (rl_splice a b h) z zs"
proof -
  have "isring (rl_splice a b h) z zs \<longleftrightarrow> isring h z zs"
    by (rule isring_cong) (use assms(2) in auto)
  with assms(1) show ?thesis by simp
qed

lemma splice_chain:
  assumes a: "nxt h' a = hd (ys @ [b])" "prv h' (hd (ys @ [b])) = a"
    and seg: "dseg h b' ys b" and dist: "distinct (ys @ [b])"
    and nx: "\<And>p. p \<in> set ys \<Longrightarrow> nxt h' p = nxt h p"
    and pv: "\<And>p. p \<in> set (ys @ [b]) \<Longrightarrow> p \<noteq> hd (ys @ [b]) \<Longrightarrow> prv h' p = prv h p"
  shows "dseg h' a ys b"
proof (cases ys)
  case Nil
  with a show ?thesis by simp
next
  case (Cons z zs)
  have "dseg h z zs b" using seg Cons by simp
  moreover have "dseg h' z zs b \<longleftrightarrow> dseg h z zs b"
    by (rule dseg_cong) (use nx pv dist Cons in auto)
  ultimately show ?thesis using a Cons by simp
qed

text \<open>\<open>[a, x...] [b, y...]  ==>  [a, y..., b, x...]\<close>: splicing two rings joins them.\<close>

lemma splice_join:
  assumes ra: "isring h a xs" and rb: "isring h b ys"
    and dj: "set (a # xs) \<inter> set (b # ys) = {}"
  shows "isring (rl_splice a b h) a (ys @ b # xs)"
proof -
  have sa: "dseg h a xs a" and sb: "dseg h b ys b"
    and da: "distinct (a # xs)" and db: "distinct (b # ys)"
    using ra rb by (auto simp: isring_def)
  have na: "nxt h a = hd (xs @ [a])" and nb: "nxt h b = hd (ys @ [b])"
    using sa sb by (auto dest: dseg_nxt)
  have pa: "prv h (nxt h a) = a" and pb: "prv h (nxt h b) = b"
    using sa sb by (auto dest: dseg_prv_nxt)
  have ina: "hd (xs @ [a]) \<in> set (a # xs)" and inb: "hd (ys @ [b]) \<in> set (b # ys)"
    by (cases xs; simp) (cases ys; simp)
  have ne: "hd (xs @ [a]) \<noteq> hd (ys @ [b])" using ina inb dj by auto
  have 1: "dseg (rl_splice a b h) a ys b"
    by (rule splice_chain [OF _ _ sb])
      (use db dj na nb pa pb ina ne in \<open>auto\<close>)
  have 2: "dseg (rl_splice a b h) b xs a"
    by (rule splice_chain [OF _ _ sa])
      (use da dj na nb pa pb inb ne in \<open>auto\<close>)
  show ?thesis
    using 1 2 da db dj by (auto simp: isring_def)
qed

text \<open>\<open>[a, x..., b, y...]  ==>  [a, y...] [b, x...]\<close>: splicing within a ring splits it.\<close>

lemma splice_split:
  assumes r: "isring h a (xs @ b # ys)"
  shows "isring (rl_splice a b h) a ys" and "isring (rl_splice a b h) b xs"
proof -
  have sa: "dseg h a xs b" and sb: "dseg h b ys a" and d: "distinct (a # xs @ b # ys)"
    using r by (auto simp: isring_def)
  have na: "nxt h a = hd (xs @ [b])" and nb: "nxt h b = hd (ys @ [a])"
    using sa sb by (auto dest: dseg_nxt)
  have pa: "prv h (nxt h a) = a" and pb: "prv h (nxt h b) = b"
    using sa sb by (auto dest: dseg_prv_nxt)
  have ina: "hd (xs @ [b]) \<in> set (b # xs)" and inb: "hd (ys @ [a]) \<in> set (a # ys)"
    by (cases xs; simp) (cases ys; simp)
  have ne: "hd (xs @ [b]) \<noteq> hd (ys @ [a])" using ina inb d by auto
  have 1: "dseg (rl_splice a b h) a ys a"
    by (rule splice_chain [OF _ _ sb]) (use d na nb pa pb ina ne in \<open>auto\<close>)
  have 2: "dseg (rl_splice a b h) b xs b"
    by (rule splice_chain [OF _ _ sa]) (use d na nb pa pb inb ne in \<open>auto\<close>)
  show "isring (rl_splice a b h) a ys" and "isring (rl_splice a b h) b xs"
    using 1 2 d by (auto simp: isring_def)
qed


section \<open>The list operations on rings\<close>

lemma isring_nxt_in: "isring h x xs \<Longrightarrow> nxt h x \<in> set (x # xs)"
  by (cases xs) (auto dest: isring_nxt)

lemma isring_prv_in: "isring h x xs \<Longrightarrow> prv h x \<in> set (x # xs)"
  using isring_prv [of h x xs] by (metis last_in_set list.distinct(1))

lemma isring_closed:
  assumes "isring h x xs" and "y \<in> set (x # xs)"
  shows "nxt h y \<in> set (x # xs)" and "prv h y \<in> set (x # xs)"
proof -
  obtain ys where "isring h y ys" "set (y # ys) = set (x # xs)"
    using assms by (rule isring_at)
  then show "nxt h y \<in> set (x # xs)" and "prv h y \<in> set (x # xs)"
    using isring_nxt_in [of h y ys] isring_prv_in [of h y ys] by auto
qed

text \<open>A splice keeps every ring that holds neither of the two nodes.\<close>

lemma splice_keeps:
  assumes "isring h z zs" and "isring h a xs" and "isring h b ys"
    and "a \<notin> set (z # zs)" and "b \<notin> set (z # zs)"
  shows "isring (rl_splice a b h) z zs"
proof (rule splice_frame [OF assms(1)])
  have "set (a # xs) \<inter> set (z # zs) = {}" and "set (b # ys) \<inter> set (z # zs) = {}"
    using isring_disjoint [OF assms(2) assms(1) assms(4)]
      isring_disjoint [OF assms(3) assms(1) assms(5)] by simp_all
  then show "{a, b, nxt h a, nxt h b} \<inter> set (z # zs) = {}"
    using isring_nxt_in [OF assms(2)] isring_nxt_in [OF assms(3)] by auto
qed

lemma is_rlist_empty_iff: "isring h l xs \<Longrightarrow> is_rlist_empty l h \<longleftrightarrow> xs = []"
  by (cases xs) (auto simp: is_rlist_empty_def isring_def)

lemma push_front_list:
  assumes "isring h l xs" and "isring h n ns" and "n \<notin> set (l # xs)"
  shows "isring (rlist_push_front l n h) l (ns @ n # xs)"
  unfolding rlist_push_front_def
proof (rule splice_join [OF assms(1,2)])
  show "set (l # xs) \<inter> set (n # ns) = {}"
    using isring_disjoint [OF assms(2,1,3)] by blast
qed

lemma push_back_list:
  assumes l: "isring h l xs" and n: "isring h n ns" and new: "n \<notin> set (l # xs)"
  shows "isring (rlist_push_back l n h) l (xs @ ns @ [n])"
proof (cases xs rule: rev_cases)
  case Nil
  then show ?thesis
    using push_front_list [OF l n new] isring_prv [OF l]
    by (simp add: rlist_push_back_def rlist_push_front_def)
next
  case (snoc ys a)
  have prv: "prv h l = a" using isring_prv [OF l] snoc by simp
  have ra: "isring h a (l # ys)" using l snoc isring_rotate [of h l ys a "[]"] by simp
  have "isring (rl_splice a n h) a (ns @ n # l # ys)"
    by (rule splice_join [OF ra n]) (use isring_disjoint [OF n l new] snoc in auto)
  then show ?thesis
    using isring_rotate [of "rl_splice a n h" a "ns @ [n]" l ys] prv snoc
    by (simp add: rlist_push_back_def)
qed

lemma push_keeps:
  assumes "isring h z zs" and "isring h l xs" and "isring h n ns"
    and "l \<notin> set (z # zs)" and "n \<notin> set (z # zs)"
  shows "isring (rlist_push_front l n h) z zs" and "isring (rlist_push_back l n h) z zs"
proof -
  show "isring (rlist_push_front l n h) z zs"
    unfolding rlist_push_front_def by (rule splice_keeps [OF assms])
  obtain ys where a: "isring h (prv h l) ys" "set (prv h l # ys) = set (l # xs)"
    using assms(2) isring_prv_in [OF assms(2)] by (rule isring_at)
  have "prv h l \<notin> set (z # zs)"
    using isring_disjoint [OF assms(2,1,4)] isring_prv_in [OF assms(2)] by blast
  then show "isring (rlist_push_back l n h) z zs"
    unfolding rlist_push_back_def by (rule splice_keeps [OF assms(1) a(1) assms(3) _ assms(5)])
qed

lemma pop_front_list:
  assumes "isring h l (x # xs)"
  shows "fst (rlist_pop_front l h) = x"
    and "isring (snd (rlist_pop_front l h)) l xs" and "isring (snd (rlist_pop_front l h)) x []"
proof -
  have "nxt h l = x" using assms by (auto simp: isring_def)
  then show "fst (rlist_pop_front l h) = x"
    and "isring (snd (rlist_pop_front l h)) l xs" and "isring (snd (rlist_pop_front l h)) x []"
    using splice_split [of h l "[]" x xs] assms by (simp_all add: rlist_pop_front_def)
qed

lemma pop_front_empty: "isring h l [] \<Longrightarrow> rlist_pop_front l h = (l, h)"
  by (simp add: rlist_pop_front_def isring_Nil splice_same)

lemma pop_front_keeps:
  assumes "isring h z zs" and "isring h l xs" and "l \<notin> set (z # zs)"
  shows "isring (snd (rlist_pop_front l h)) z zs"
proof -
  obtain ys where a: "isring h (nxt h l) ys" "set (nxt h l # ys) = set (l # xs)"
    using assms(2) isring_nxt_in [OF assms(2)] by (rule isring_at)
  have "nxt h l \<notin> set (z # zs)"
    using isring_disjoint [OF assms(2,1,3)] isring_nxt_in [OF assms(2)] by blast
  then show ?thesis
    unfolding rlist_pop_front_def snd_conv
    by (rule splice_keeps [OF assms(1,2) a(1) assms(3)])
qed

text \<open>
  \<open>rlist_pop_back\<close> splices the sentinel with its last node.  That cuts the ring at the
  sentinel: the last node comes back as the head of a ring that still holds all the other
  nodes, and the list is left empty.
\<close>

lemma pop_back_list:
  assumes "isring h l (xs @ [x])"
  shows "fst (rlist_pop_back l h) = x"
    and "isring (snd (rlist_pop_back l h)) l []" and "isring (snd (rlist_pop_back l h)) x xs"
  using splice_split [of h l xs x "[]"] assms isring_prv [OF assms]
  by (simp_all add: rlist_pop_back_def)

lemma remove_list:
  assumes "isring h l (xs @ n # ys)"
  shows "isring (rlist_remove n h) l (xs @ ys)" and "isring (rlist_remove n h) n []"
proof -
  have r: "isring h n (ys @ l # xs)" using assms by (simp add: isring_rotate)
  show "isring (rlist_remove n h) n []"
  proof (cases xs rule: rev_cases)
    case Nil
    then show ?thesis
      using r isring_prv [OF r] splice_split(1) [of h n ys l "[]"] by (simp add: rlist_remove_def)
  next
    case (snoc zs p)
    then show ?thesis
      using r isring_prv [OF r] splice_split(1) [of h n "ys @ l # zs" p "[]"]
      by (simp add: rlist_remove_def)
  qed
  show "isring (rlist_remove n h) l (xs @ ys)"
  proof (cases xs rule: rev_cases)
    case Nil
    then show ?thesis
      using r isring_prv [OF r] splice_split(2) [of h n ys l "[]"] by (simp add: rlist_remove_def)
  next
    case (snoc zs p)
    have "isring (rlist_remove n h) p (ys @ l # zs)"
      using r isring_prv [OF r] splice_split(2) [of h n "ys @ l # zs" p "[]"] snoc
      by (simp add: rlist_remove_def)
    then show ?thesis using snoc isring_rotate [of "rlist_remove n h" p ys l zs] by simp
  qed
qed

lemma remove_list1:
  assumes "isring h l xs" and "n \<in> set xs"
  shows "isring (rlist_remove n h) l (remove1 n xs)" and "isring (rlist_remove n h) n []"
proof -
  obtain as bs where xs: "xs = as @ n # bs" "n \<notin> set as"
    using split_list_first [OF assms(2)] by blast
  then show "isring (rlist_remove n h) l (remove1 n xs)" and "isring (rlist_remove n h) n []"
    using remove_list [of h l as n bs] assms(1) by (simp_all add: remove1_append)
qed

lemma remove_singleton: "isring h n [] \<Longrightarrow> rlist_remove n h = h"
  by (simp add: rlist_remove_def isring_Nil splice_same)

lemma remove_keeps:
  assumes "isring h z zs" and "isring h n ns" and "n \<notin> set (z # zs)"
  shows "isring (rlist_remove n h) z zs"
proof -
  obtain ys where a: "isring h (prv h n) ys" "set (prv h n # ys) = set (n # ns)"
    using assms(2) isring_prv_in [OF assms(2)] by (rule isring_at)
  have "prv h n \<notin> set (z # zs)"
    using isring_disjoint [OF assms(2,1,3)] isring_prv_in [OF assms(2)] by blast
  then show ?thesis
    unfolding rlist_remove_def by (rule splice_keeps [OF assms(1,2) a(1) assms(3)])
qed

lemma init_list: "isring (rlnode_init n k h) n []"
  by (simp add: isring_Nil rlnode_init_def rlnode_new_def Let_def)

lemma init_keeps: "isring h z zs \<Longrightarrow> n \<notin> set (z # zs) \<Longrightarrow> isring (rlnode_init n k h) z zs"
  by (subst isring_cong [of z zs "rlnode_init n k h" h])
    (auto simp: rlnode_init_def rlnode_new_def Let_def)

lemma append_list:
  assumes d: "isring h ld xs" and s: "isring h ls ys" and ne: "ls \<notin> set (ld # xs)"
  shows "isring (rlist_append ld ls h) ld (xs @ ys)" and "isring (rlist_append ld ls h) ls []"
  using push_back_list [OF d s ne] remove_list [of "rlist_push_back ld ls h" ld "xs @ ys" ls "[]"]
  by (simp_all add: rlist_append_def)

lemma prepend_list:
  assumes d: "isring h ld xs" and s: "isring h ls ys" and ne: "ls \<notin> set (ld # xs)"
  shows "isring (rlist_prepend ld ls h) ld (ys @ xs)" and "isring (rlist_prepend ld ls h) ls []"
  using push_front_list [OF d s ne] remove_list [of "rlist_push_front ld ls h" ld ys ls xs]
  by (simp_all add: rlist_prepend_def)

text \<open>Splicing a lone node after the predecessor of \<open>n\<close> inserts it before \<open>n\<close>.\<close>

lemma insert_before_list:
  assumes l: "isring h l (xs @ ys)" and m: "isring h m []" and new: "m \<notin> set (l # xs @ ys)"
    and n: "n = hd (ys @ [l])"
  shows "isring (rl_splice (prv h n) m h) l (xs @ m # ys)"
proof -
  have prv: "prv h n = last (l # xs)"
  proof (cases ys)
    case Nil
    with n isring_prv [OF l] show ?thesis by simp
  next
    case (Cons y zs)
    with l have "isring h y (zs @ l # xs)" by (simp add: isring_rotate)
    with n Cons isring_prv show ?thesis by fastforce
  qed
  show ?thesis
  proof (cases xs rule: rev_cases)
    case Nil
    with prv l m new splice_join [of h l ys m "[]"] show ?thesis by simp
  next
    case (snoc us a)
    have "isring h a (ys @ l # us)" using l snoc isring_rotate [of h l us a ys] by simp
    then have "isring (rl_splice a m h) a (m # ys @ l # us)"
      using splice_join [of h a "ys @ l # us" m "[]"] m new snoc by auto
    with prv snoc isring_rotate [of "rl_splice a m h" a "m # ys" l us] show ?thesis by simp
  qed
qed

lemma insert_before_keeps:
  assumes "isring h z zs" and "isring h l xs" and "isring h m []"
    and "l \<notin> set (z # zs)" and "m \<notin> set (z # zs)" and "n \<in> set (l # xs)"
  shows "isring (rl_splice (prv h n) m h) z zs"
proof -
  have p: "prv h n \<in> set (l # xs)" using isring_closed [OF assms(2,6)] by simp
  obtain ys where a: "isring h (prv h n) ys" using assms(2) p by (rule isring_at)
  have "prv h n \<notin> set (z # zs)" using isring_disjoint [OF assms(2,1,4)] p by blast
  then show ?thesis by (rule splice_keeps [OF assms(1) a assms(3) _ assms(5)])
qed

text \<open>Keys are never touched by the list operations.\<close>

lemma obj_ops [simp]:
  "obj (rlist_push_front l n h) = obj h" "obj (rlist_push_back l n h) = obj h"
  "obj (snd (rlist_pop_front l h)) = obj h" "obj (snd (rlist_pop_back l h)) = obj h"
  "obj (rlist_remove n h) = obj h" "obj (rlist_append l n h) = obj h"
  "obj (rlnode_init n k h) = (obj h)(n := k)"
  by (simp_all add: rlist_push_front_def rlist_push_back_def rlist_pop_front_def
      rlist_pop_back_def rlist_remove_def rlist_append_def rlnode_init_def rlnode_new_def Let_def)

end
