(* ===== verification/RList_Loops.thy ===== *)
theory RList_Loops
  imports RList
begin

text \<open>
  The loops of src/util.h over a resource list (length, search, comparison, reversal,
  selection) end on every ring and compute what the abstract list says; and the interface
  \<open>resource_list\<close> under which the kernel uses the lists, with the facts on whole sequences
  of operations that follow from its laws.
\<close>

section \<open>Length, search and comparison\<close>

lemma len_loop: "dseg h x xs l \<Longrightarrow> l \<notin> set xs \<Longrightarrow>
    rlist_len_loop h l (nxt h x) c = Some (c + of_nat (length xs))"
proof (induction xs arbitrary: x c)
  case Nil
  then show ?case by (simp add: rlist_len_loop.simps)
next
  case (Cons z zs)
  then have "rlist_len_loop h l (nxt h z) (c + 1) = Some (c + 1 + of_nat (length zs))"
    by simp
  moreover have "z \<noteq> l" and "nxt h x = z" using Cons.prems by auto
  ultimately show ?case
    by (simp add: rlist_len_loop.simps [of h l z] ac_simps)
qed

lemma rlist_len_ring: "isring h l xs \<Longrightarrow> rlist_len l h = Some (of_nat (length xs))"
  using len_loop [of h l xs l 0] by (simp add: rlist_len_def isring_def)

lemma find_loop: "dseg h x xs l \<Longrightarrow> l \<notin> set xs \<Longrightarrow>
    rlist_find_loop h l k fail (nxt h x) =
      Some (case List.find (\<lambda>n. obj h n = k) xs of Some n \<Rightarrow> Some n | None \<Rightarrow> fail)"
proof (induction xs arbitrary: x)
  case Nil
  then show ?case by (simp add: rlist_find_loop.simps)
next
  case (Cons z zs)
  then show ?case by (auto simp: rlist_find_loop.simps [of h l k fail z])
qed

lemma rlist_find_ring: "isring h l xs \<Longrightarrow>
    rlist_find l k fail h =
      Some (case List.find (\<lambda>n. obj h n = k) xs of Some n \<Rightarrow> Some n | None \<Rightarrow> fail)"
  using find_loop [of h l xs l] by (simp add: rlist_find_def isring_def)

lemma equal_loop:
  assumes "dseg h x xs l1" and "dseg h y ys l2" and "l1 \<notin> set xs" and "l2 \<notin> set ys"
  shows "rlist_equal_loop h l1 l2 (nxt h x) (nxt h y) =
    Some (map (obj h) xs = map (obj h) ys)"
  using assms
proof (induction xs arbitrary: x y ys)
  case Nil
  then show ?case by (cases ys) (auto simp: rlist_equal_loop.simps)
next
  case (Cons z zs)
  show ?case
  proof (cases ys)
    case Nil
    with Cons.prems show ?thesis by (auto simp: rlist_equal_loop.simps)
  next
    case (Cons w ws)
    have "rlist_equal_loop h l1 l2 (nxt h z) (nxt h w) =
        Some (map (obj h) zs = map (obj h) ws)"
      by (rule Cons.IH) (use Cons.prems \<open>ys = w # ws\<close> in auto)
    with Cons.prems \<open>ys = w # ws\<close> show ?thesis
      by (auto simp: rlist_equal_loop.simps [of h l1 l2 z w])
  qed
qed

lemma rlist_equal_ring:
  "isring h l1 xs \<Longrightarrow> isring h l2 ys \<Longrightarrow>
    rlist_equal l1 l2 h = Some (map (obj h) xs = map (obj h) ys)"
  using equal_loop [of h l1 xs l1 l2 ys l2] by (simp add: rlist_equal_def isring_def)

section \<open>Reversal\<close>

text \<open>
  After its swap, a node's \<open>next\<close> is its old \<open>prev\<close>, so the loop walks the ring
  backwards.  \<open>pseg h p ps l\<close>: following \<open>prev\<close> from \<open>p\<close> visits \<open>ps\<close> and
  reaches \<open>l\<close>.
\<close>

fun pseg :: "('n, 'k) rlheap \<Rightarrow> 'n \<Rightarrow> 'n list \<Rightarrow> 'n \<Rightarrow> bool" where
  "pseg h p [] l \<longleftrightarrow> prv h p = l"
| "pseg h p (q # qs) l \<longleftrightarrow> prv h p = q \<and> pseg h q qs l"

lemma dseg_pseg: "dseg h x xs y \<Longrightarrow> pseg h y (rev xs) x"
proof (induction xs arbitrary: y rule: rev_induct)
  case Nil
  then show ?case by simp
next
  case (snoc z zs)
  then show ?case by simp
qed

lemma pseg_cong:
  "(\<And>q. q \<in> set (p # ps) \<Longrightarrow> prv h' q = prv h q) \<Longrightarrow> pseg h' p ps l = pseg h p ps l"
  by (induction ps arbitrary: p) auto

lemma reverse_loop:
  assumes "pseg h p ps l" and "distinct (p # ps)" and "l \<notin> set ps"
  shows "\<exists>h'. rlist_reverse_loop l p h = Some h' \<and>
    (\<forall>q. nxt h' q = (if q \<in> set (p # ps) then prv h q else nxt h q)) \<and>
    (\<forall>q. prv h' q = (if q \<in> set (p # ps) then nxt h q else prv h q))"
  using assms
proof (induction ps arbitrary: p h)
  case Nil
  then show ?case by (simp add: rlist_reverse_loop.simps Let_def)
next
  case (Cons q qs)
  let ?h1 = "h\<lparr>prv := (prv h)(p := nxt h p), nxt := (nxt h)(p := prv h p)\<rparr>"
  have "pseg ?h1 q qs l \<longleftrightarrow> pseg h q qs l"
    by (rule pseg_cong) (use Cons.prems in auto)
  with Cons.prems have "pseg ?h1 q qs l" "distinct (q # qs)" "l \<notin> set qs"
    by auto
  from Cons.IH [OF this] obtain h' where h': "rlist_reverse_loop l q ?h1 = Some h'"
    "\<forall>r. nxt h' r = (if r \<in> set (q # qs) then prv ?h1 r else nxt ?h1 r)"
    "\<forall>r. prv h' r = (if r \<in> set (q # qs) then nxt ?h1 r else prv ?h1 r)"
    by blast
  have "q \<noteq> l" and "prv h p = q" using Cons.prems by auto
  then have "rlist_reverse_loop l p h = Some h'"
    using h'(1) by (simp add: rlist_reverse_loop.simps [of l p h] Let_def)
  with h'(2,3) Cons.prems(2) show ?case by auto
qed

lemma dseg_swapped:
  assumes "dseg h x xs y"
    and "\<And>p. p \<in> set (x # xs @ [y]) \<Longrightarrow> nxt h' p = prv h p \<and> prv h' p = nxt h p"
  shows "dseg h' y (rev xs) x"
  using assms
proof (induction xs arbitrary: x)
  case Nil
  then show ?case by simp
next
  case (Cons z zs)
  then have "dseg h' y (rev zs) z" by simp
  then show ?case using Cons.prems by (auto intro: dseg_snoc)
qed

lemma rlist_reverse_ring:
  assumes "isring h l xs"
  obtains h' where "rlist_reverse l h = Some h'" and "isring h' l (rev xs)"
    and "\<And>z zs. isring h z zs \<Longrightarrow> l \<notin> set (z # zs) \<Longrightarrow> isring h' z zs"
proof -
  have d: "dseg h l xs l" "distinct (l # xs)" using assms by (auto simp: isring_def)
  have "pseg h l (rev xs) l" using d(1) by (rule dseg_pseg)
  then obtain h' where h': "rlist_reverse_loop l l h = Some h'"
    "\<forall>q. nxt h' q = (if q \<in> set (l # rev xs) then prv h q else nxt h q)"
    "\<forall>q. prv h' q = (if q \<in> set (l # rev xs) then nxt h q else prv h q)"
    using reverse_loop [of h l "rev xs" l] d(2) by auto
  have "dseg h' l (rev xs) l"
    by (rule dseg_swapped [OF d(1)]) (use h' in auto)
  then have r: "isring h' l (rev xs)" using d(2) by (auto simp: isring_def)
  have keep: "isring h' z zs" if z: "isring h z zs" "l \<notin> set (z # zs)" for z zs
  proof -
    have "set (l # xs) \<inter> set (z # zs) = {}"
      using assms z by (rule isring_disjoint)
    then have "isring h' z zs \<longleftrightarrow> isring h z zs"
      by (intro isring_cong) (use h'(2,3) in auto)
    with z(1) show ?thesis by simp
  qed
  show ?thesis
    using that [of h'] h'(1) r keep by (simp add: rlist_reverse_def)
qed

section \<open>Selection\<close>

text \<open>
  The nodes \<open>pre\<close> have been kept, the nodes \<open>rest\<close> are still to be looked at; the loop
  stands at the last kept node.
\<close>

lemma select_loop:
  assumes "isring h ls (pre @ rest)" and "isring h ld ys" and "ld \<notin> set (ls # pre @ rest)"
  shows "\<exists>h'. rlist_select_loop ls ld pred (last (ls # pre)) h = Some h' \<and>
    isring h' ls (pre @ filter (\<lambda>n. \<not> pred n) rest) \<and> isring h' ld (ys @ filter pred rest)"
  using assms
proof (induction rest arbitrary: pre ys h)
  case Nil
  have "nxt h (last (ls # pre)) = ls"
  proof (cases pre rule: rev_cases)
    case (snoc us u)
    with Nil(1) have "isring h u (ls # us)" using isring_rotate [of h ls us u "[]"] by simp
    with snoc show ?thesis by (simp add: isring_def)
  qed (use Nil(1) in \<open>simp add: isring_Nil\<close>)
  with Nil show ?case by (simp add: rlist_select_loop.simps)
next
  case (Cons z zs)
  have nz: "nxt h (last (ls # pre)) = z"
  proof (cases pre rule: rev_cases)
    case (snoc us u)
    with Cons.prems(1) have "isring h u (z # zs @ ls # us)"
      using isring_rotate [of h ls us u "z # zs"] by simp
    with snoc show ?thesis by (simp add: isring_def)
  qed (use Cons.prems(1) in \<open>simp add: isring_def\<close>)
  have zl: "z \<noteq> ls" using Cons.prems(1) by (auto simp: isring_def)
  show ?case
  proof (cases "pred z")
    case True
    let ?h0 = "rlist_remove z h" and ?h1 = "rlist_push_back ld z (rlist_remove z h)"
    have r0: "isring ?h0 ls (pre @ zs)" "isring ?h0 z []"
      using remove_list [OF Cons.prems(1)] by simp_all
    have zd: "z \<notin> set (ld # ys)"
      using isring_disjoint [OF Cons.prems(2) Cons.prems(1) Cons.prems(3)] by auto
    have rz: "isring h z (zs @ ls # pre)" using Cons.prems(1) by (simp add: isring_rotate)
    have d0: "isring ?h0 ld ys"
      by (rule remove_keeps [OF Cons.prems(2) rz zd])
    have d1: "isring ?h1 ld (ys @ [z])" using push_back_list [OF d0 r0(2) zd] by simp
    have "z \<notin> set (ls # pre @ zs)" using Cons.prems(1) by (auto simp: isring_def)
    then have r1: "isring ?h1 ls (pre @ zs)"
      using push_keeps(2) [OF r0(1) d0 r0(2)] Cons.prems(3) by auto
    have "ld \<notin> set (ls # pre @ zs)" using Cons.prems(3) by simp
    from Cons.IH [OF r1 d1 this] obtain h' where
      "rlist_select_loop ls ld pred (last (ls # pre)) ?h1 = Some h'"
      "isring h' ls (pre @ filter (\<lambda>n. \<not> pred n) zs)" "isring h' ld (ys @ [z] @ filter pred zs)"
      by auto
    moreover have "rlist_select_loop ls ld pred (last (ls # pre)) h =
        rlist_select_loop ls ld pred (last (ls # pre)) ?h1"
      using nz zl True
      by (subst rlist_select_loop.simps) (simp add: Let_def)
    ultimately show ?thesis using True by (intro exI [of _ h']) simp
  next
    case False
    from Cons.IH [of h "pre @ [z]" ys] Cons.prems obtain h' where
      "rlist_select_loop ls ld pred z h = Some h'"
      "isring h' ls (pre @ z # filter (\<lambda>n. \<not> pred n) zs)" "isring h' ld (ys @ filter pred zs)"
      by auto
    moreover have "rlist_select_loop ls ld pred (last (ls # pre)) h =
        rlist_select_loop ls ld pred z h"
      using nz zl False by (subst rlist_select_loop.simps) simp
    ultimately show ?thesis using False by (intro exI [of _ h']) simp
  qed
qed

lemma rlist_select_ring:
  assumes "isring h ls xs" and "isring h ld ys" and "ld \<notin> set (ls # xs)"
  obtains h' where "rlist_select ls ld pred h = Some h'"
    and "isring h' ls (filter (\<lambda>n. \<not> pred n) xs)" and "isring h' ld (ys @ filter pred xs)"
  using select_loop [of h ls "[]" xs ld ys pred] assms that by (auto simp: rlist_select_def)


section \<open>The interface the kernel uses\<close>

text \<open>
  A client of the lists relies on these laws only: each operation changes the list it names as
  the corresponding operation on sequences does, a node that was taken out is again alone, and
  every list that has neither of the two nodes is untouched.
\<close>

locale resource_list =
  fixes lst :: "'h \<Rightarrow> 'n \<Rightarrow> 'n list \<Rightarrow> bool"
    and push_front :: "'n \<Rightarrow> 'n \<Rightarrow> 'h \<Rightarrow> 'h"
    and push_back :: "'n \<Rightarrow> 'n \<Rightarrow> 'h \<Rightarrow> 'h"
    and pop_front :: "'n \<Rightarrow> 'h \<Rightarrow> 'n \<times> 'h"
    and remove :: "'n \<Rightarrow> 'h \<Rightarrow> 'h"
  assumes lst_distinct: "lst h l xs \<Longrightarrow> distinct (l # xs)"
    and lst_apart: "lst h l xs \<Longrightarrow> lst h z zs \<Longrightarrow> l \<notin> set (z # zs) \<Longrightarrow>
      set (l # xs) \<inter> set (z # zs) = {}"
    and push_front_law: "lst h l xs \<Longrightarrow> lst h n [] \<Longrightarrow> n \<notin> set (l # xs) \<Longrightarrow>
      lst (push_front l n h) l (n # xs)"
    and push_back_law: "lst h l xs \<Longrightarrow> lst h n [] \<Longrightarrow> n \<notin> set (l # xs) \<Longrightarrow>
      lst (push_back l n h) l (xs @ [n])"
    and pop_law: "lst h l (x # xs) \<Longrightarrow> fst (pop_front l h) = x \<and>
      lst (snd (pop_front l h)) l xs \<and> lst (snd (pop_front l h)) x []"
    and pop_empty_law: "lst h l [] \<Longrightarrow> pop_front l h = (l, h)"
    and remove_law: "lst h l xs \<Longrightarrow> n \<in> set xs \<Longrightarrow>
      lst (remove n h) l (remove1 n xs) \<and> lst (remove n h) n []"
    and push_keeps_law: "lst h z zs \<Longrightarrow> lst h l xs \<Longrightarrow> lst h n [] \<Longrightarrow>
      l \<notin> set (z # zs) \<Longrightarrow> n \<notin> set (z # zs) \<Longrightarrow>
      lst (push_front l n h) z zs \<and> lst (push_back l n h) z zs"
    and pop_keeps_law: "lst h z zs \<Longrightarrow> lst h l xs \<Longrightarrow> l \<notin> set (z # zs) \<Longrightarrow>
      lst (snd (pop_front l h)) z zs"
    and remove_keeps_law: "lst h z zs \<Longrightarrow> lst h l xs \<Longrightarrow> n \<in> set xs \<Longrightarrow>
      l \<notin> set (z # zs) \<Longrightarrow> lst (remove n h) z zs"
begin

text \<open>Pushing a batch of nodes at the back queues them in order (FIFO).\<close>

lemma push_back_batch:
  assumes "lst h l xs" and "\<forall>n \<in> set ns. lst h n []" and "distinct ns"
    and "set ns \<inter> set (l # xs) = {}"
  shows "lst (fold (push_back l) ns h) l (xs @ ns)"
  using assms
proof (induction ns arbitrary: h xs)
  case Nil
  then show ?case by simp
next
  case (Cons n ns)
  have h1: "lst (push_back l n h) l (xs @ [n])"
    using Cons.prems by (intro push_back_law) auto
  have "lst (push_back l n h) m []" if "m \<in> set ns" for m
    using Cons.prems that by (intro push_keeps_law [THEN conjunct2, of h m "[]" l xs n]) auto
  then have "lst (fold (push_back l) ns (push_back l n h)) l ((xs @ [n]) @ ns)"
    using Cons.prems h1 by (intro Cons.IH) auto
  then show ?case by simp
qed

text \<open>Pushing at the front and popping gives the node back and restores the list (LIFO).\<close>

lemma pop_push_front:
  assumes "lst h l xs" and "lst h n []" and "n \<notin> set (l # xs)"
  shows "fst (pop_front l (push_front l n h)) = n"
    and "lst (snd (pop_front l (push_front l n h))) l xs"
  using pop_law [OF push_front_law [OF assms]] by simp_all

text \<open>On an empty list, what is pushed at the back is the next node out.\<close>

lemma pop_push_back_empty:
  assumes "lst h l []" and "lst h n []" and "n \<noteq> l"
  shows "fst (pop_front l (push_back l n h)) = n"
    and "lst (snd (pop_front l (push_back l n h))) l []"
  using pop_law [of "push_back l n h" l n "[]"] push_back_law [of h l "[]" n] assms by simp_all

text \<open>Removing what was pushed restores the list.\<close>

lemma remove_push_back:
  assumes "lst h l xs" and "lst h n []" and "n \<notin> set (l # xs)"
  shows "lst (remove n (push_back l n h)) l xs" and "lst (remove n (push_back l n h)) n []"
proof -
  have "remove1 n (xs @ [n]) = xs" using assms(3) by (simp add: remove1_append)
  then show "lst (remove n (push_back l n h)) l xs" and "lst (remove n (push_back l n h)) n []"
    using remove_law [OF push_back_law [OF assms], of n] by simp_all
qed

end

interpretation rl: resource_list isring rlist_push_front rlist_push_back rlist_pop_front rlist_remove
proof (unfold_locales, goal_cases)
  case (1 h l xs) then show ?case by (rule isring_distinct)
next
  case (2 h l xs z zs) then show ?case by (rule isring_disjoint)
next
  case (3 h l xs n) then show ?case using push_front_list [of h l xs n "[]"] by simp
next
  case (4 h l xs n) then show ?case using push_back_list [of h l xs n "[]"] by simp
next
  case (5 h l x xs) then show ?case by (simp add: pop_front_list)
next
  case (6 h l) then show ?case by (rule pop_front_empty)
next
  case (7 h l xs n) then show ?case by (simp add: remove_list1)
next
  case (8 h z zs l xs n) then show ?case by (simp add: push_keeps)
next
  case (9 h z zs l xs) then show ?case by (rule pop_front_keeps)
next
  case (10 h z zs l xs n)
  have "set (l # xs) \<inter> set (z # zs) = {}" using 10(2,1,4) by (rule isring_disjoint)
  moreover obtain ns where "isring h n ns" using 10(2,3) by (metis isring_at list.set_intros(2))
  ultimately show ?case using 10(1,3) by (intro remove_keeps) auto
qed

end
