(* ===== verification/RList_Props.thy ===== *)
theory RList_Props
  imports RList_Loops
begin

text \<open>
  What the resource lists of src/util.h do, as properties of the functions on the node heap,
  each with an example on nodes that are numbers.
\<close>

section \<open>Example heaps\<close>

definition nat_heap :: "(nat, nat) rlheap" where
  "nat_heap = \<lparr>prv = id, nxt = id, obj = id\<rparr>"

lemma nat_heap_ring [simp]: "isring nat_heap n []"
  by (simp add: isring_Nil nat_heap_def)

text \<open>The list with sentinel 0 and the nodes \<open>ns\<close>, built by pushing at the back.\<close>

definition nat_list :: "nat list \<Rightarrow> (nat, nat) rlheap" where
  "nat_list ns = fold (rlist_push_back 0) ns nat_heap"

lemma nat_list_ring: "distinct (0 # ns) \<Longrightarrow> isring (nat_list ns) 0 ns"
  using rl.push_back_batch [of nat_heap 0 "[]" ns] by (simp add: nat_list_def)

lemma nat_list_other: "distinct (0 # ns) \<Longrightarrow> z \<notin> set (0 # ns) \<Longrightarrow> isring (nat_list ns) z []"
proof (induction ns arbitrary: z rule: rev_induct)
  case (snoc n ns)
  have r: "isring (nat_list ns) 0 ns" using snoc.prems by (intro nat_list_ring) auto
  have "isring (nat_list ns) n []" and "isring (nat_list ns) z []" using snoc by auto
  with r snoc.prems show ?case
    using rl.push_keeps_law [of "nat_list ns" z "[]" 0 ns n] by (auto simp: nat_list_def)
qed (simp add: nat_list_def)

section \<open>Lists\<close>

text \<open>
  Splicing two nodes of different rings joins the rings, and splicing two nodes of one ring
  splits it, as the documentation of the resource lists draws it.
\<close>

theorem splice_joins_and_splits:
  shows "(isring h a xs \<and> isring h b ys \<and> set (a # xs) \<inter> set (b # ys) = {} \<longrightarrow>
      isring (rl_splice a b h) a (ys @ b # xs)) \<and>
    (isring h a (xs @ b # ys) \<longrightarrow>
      isring (rl_splice a b h) a ys \<and> isring (rl_splice a b h) b xs)"
  using splice_join [of h a xs b ys] splice_split [of h a xs b ys] by simp

theorem splice_joins_and_splits_witness:
  "isring (rl_splice 0 4 (nat_list [1, 2, 3])) 0 [4, 1, 2, 3] \<and>
   isring (rl_splice 0 2 (nat_list [1, 2, 3])) 0 [3] \<and>
   isring (rl_splice 0 2 (nat_list [1, 2, 3])) 2 [1]"
proof -
  have "isring (nat_list [1, 2, 3]) 0 [1, 2, 3]" "isring (nat_list [1, 2, 3]) 4 []"
    by (rule nat_list_ring nat_list_other; simp)+
  then show ?thesis
    using splice_joins_and_splits [of "nat_list [1, 2, 3]" 0 "[1, 2, 3]" 4 "[]"]
      splice_joins_and_splits [of "nat_list [1, 2, 3]" 0 "[1]" 2 "[3]"] by simp
qed

text \<open>
  C35: The list operations implement the operations on sequences: pushing a lone node at either
  end, popping the front (an empty list returns its sentinel and is left as it is), removing a
  node, which is alone afterwards, and the test for emptiness.
\<close>

theorem list_operations_refine_sequences:
  assumes "isring h l xs" and "isring h n []" and "n \<notin> set (l # xs)"
  shows "isring (rlist_push_front l n h) l (n # xs) \<and> isring (rlist_push_back l n h) l (xs @ [n]) \<and>
    (is_rlist_empty l h \<longleftrightarrow> xs = []) \<and>
    (case xs of [] \<Rightarrow> rlist_pop_front l h = (l, h)
     | y # ys \<Rightarrow> fst (rlist_pop_front l h) = y \<and> isring (snd (rlist_pop_front l h)) l ys \<and>
         isring (snd (rlist_pop_front l h)) y []) \<and>
    (\<forall>y \<in> set xs. isring (rlist_remove y h) l (remove1 y xs) \<and> isring (rlist_remove y h) y [])"
  using rl.push_front_law [OF assms] rl.push_back_law [OF assms] rl.remove_law [OF assms(1)]
    rl.pop_law [of h l] rl.pop_empty_law [of h l] assms(1)
  by (auto simp: is_rlist_empty_iff split: list.split)

theorem list_operations_refine_sequences_witness:
  "isring (rlist_push_back 0 9 (nat_list [5, 7])) 0 [5, 7, 9] \<and>
   fst (rlist_pop_front 0 (nat_list [5, 7])) = 5 \<and>
   isring (rlist_remove 7 (nat_list [5, 7])) 0 [5]"
proof -
  have "isring (nat_list [5, 7]) 0 [5, 7]" "isring (nat_list [5, 7]) 9 []"
    by (rule nat_list_ring nat_list_other; simp)+
  from list_operations_refine_sequences [OF this] show ?thesis by simp
qed

text \<open>
  Reversal ends on every list and reverses the order of its nodes; no other list changes.
\<close>

theorem reverse_reverses:
  assumes "isring h l xs"
  shows "\<exists>h'. rlist_reverse l h = Some h' \<and> isring h' l (rev xs) \<and>
    (\<forall>z zs. isring h z zs \<longrightarrow> l \<notin> set (z # zs) \<longrightarrow> isring h' z zs)"
  by (rule rlist_reverse_ring [OF assms]) blast

theorem reverse_reverses_witness:
  "\<exists>h'. rlist_reverse 0 (nat_list [1, 2, 3]) = Some h' \<and> isring h' 0 [3, 2, 1]"
  using reverse_reverses [of "nat_list [1, 2, 3]" 0 "[1, 2, 3]"] nat_list_ring [of "[1, 2, 3]"] by auto

text \<open>
  \<open>rlist_select\<close> ends and moves exactly the nodes that satisfy the predicate to the end
  of the destination; both lists keep their order.
\<close>

theorem select_partitions:
  assumes "isring h ls xs" and "isring h ld ys" and "ld \<notin> set (ls # xs)"
  shows "\<exists>h'. rlist_select ls ld pred h = Some h' \<and>
    isring h' ls (filter (\<lambda>n. \<not> pred n) xs) \<and> isring h' ld (ys @ filter pred xs)"
  by (rule rlist_select_ring [OF assms, of pred]) blast

theorem select_partitions_witness:
  "\<exists>h'. rlist_select 0 9 even (nat_list [1, 2, 3, 4]) = Some h' \<and>
    isring h' 0 [1, 3] \<and> isring h' 9 [2, 4]"
proof -
  have "isring (nat_list [1, 2, 3, 4]) 0 [1, 2, 3, 4]" "isring (nat_list [1, 2, 3, 4]) 9 []"
    by (rule nat_list_ring nat_list_other; simp)+
  from select_partitions [OF this, of even] show ?thesis by simp
qed

text \<open>
  The read-only loops end on every list: the length is that of the sequence modulo the
  width of the counter, \<open>rlist_find\<close> returns the first node with the key or the given
  default, and \<open>rlist_equal\<close> compares the keys.
\<close>

theorem list_loops_compute:
  assumes "isring h l xs" and "isring h m ys"
  shows "rlist_len l h = Some (of_nat (length xs)) \<and>
    rlist_find l ky fail h =
      Some (case List.find (\<lambda>n. obj h n = ky) xs of Some n \<Rightarrow> Some n | None \<Rightarrow> fail) \<and>
    rlist_equal l m h = Some (map (obj h) xs = map (obj h) ys)"
  using rlist_len_ring [OF assms(1)] rlist_find_ring [OF assms(1)] rlist_equal_ring [OF assms]
  by simp

theorem list_loops_compute_witness:
  "rlist_len 0 (nat_list [5, 7]) = Some 2 \<and> rlist_equal 0 0 (nat_list [5, 7]) = Some True"
  using list_loops_compute [of "nat_list [5, 7]" 0 "[5, 7]" 0 "[5, 7]"] nat_list_ring [of "[5, 7]"]
  by simp

text \<open>
  \<open>rlist_append\<close> and \<open>rlist_prepend\<close> move all nodes of the source to one end of
  the destination, and leave the source empty.
\<close>

theorem append_moves_all:
  assumes "isring h ld xs" and "isring h ls ys" and "ls \<notin> set (ld # xs)"
  shows "isring (rlist_append ld ls h) ld (xs @ ys) \<and> isring (rlist_append ld ls h) ls [] \<and>
    isring (rlist_prepend ld ls h) ld (ys @ xs) \<and> isring (rlist_prepend ld ls h) ls []"
  using append_list [OF assms] prepend_list [OF assms] by simp

theorem append_moves_all_witness:
  "isring (rlist_append 9 0 (nat_list [5, 7])) 9 [5, 7] \<and> isring (rlist_append 9 0 (nat_list [5, 7])) 0 []"
proof -
  have "isring (nat_list [5, 7]) 9 []" "isring (nat_list [5, 7]) 0 [5, 7]"
    by (rule nat_list_ring nat_list_other; simp)+
  from append_moves_all [OF this] show ?thesis by simp
qed

text \<open>
  \<open>rlist_pop_back\<close> does not remove the tail only: it returns the last node, but that
  node is the head of a ring of all the other nodes, and the list is left empty.
\<close>

theorem pop_back_empties_the_list:
  assumes "isring h l (xs @ [x])"
  shows "fst (rlist_pop_back l h) = x \<and> isring (snd (rlist_pop_back l h)) l [] \<and>
    isring (snd (rlist_pop_back l h)) x xs"
  using pop_back_list [OF assms] by simp

theorem pop_back_empties_the_list_witness:
  "fst (rlist_pop_back 0 (nat_list [1, 2, 3])) = 3 \<and> is_rlist_empty 0 (snd (rlist_pop_back 0 (nat_list [1, 2, 3])))"
  using pop_back_empties_the_list [of "nat_list [1, 2, 3]" 0 "[1, 2]" 3] nat_list_ring [of "[1, 2, 3]"]
  by (simp add: is_rlist_empty_iff [of _ 0 "[]"])

end
