(* ===== verification/Kernel_State.thy ===== *)
theory Kernel_State
  imports RList_Loops
begin

text \<open>
  The data of the kernel: the constants and structures of src/tinyos.h, src/bios.h and the
  src/kernel headers, and one record for the kernel's global variables.  Pointers into static
  tables (\<open>PT\<close>, \<open>FT\<close>, \<open>cctx\<close>) are their indices; a pointer to a heap object is an
  address of the map that stores the live objects of its type, so a freed object is one the
  map no longer has.  The list nodes embedded in the structures are the constructors of the
  type \<open>node\<close>.
\<close>

section \<open>Constants\<close>

definition MAX_PROC :: nat where "MAX_PROC = 65536"
definition MAX_FILEID :: nat where "MAX_FILEID = 16"
definition MAX_FILES :: nat where "MAX_FILES = MAX_PROC"
definition MAX_CORES :: nat where "MAX_CORES = 32"
definition MAX_TERMINALS :: nat where "MAX_TERMINALS = 4"
definition NOPROC :: int where "NOPROC = -1"
definition NOFILE :: int where "NOFILE = -1"
definition NO_TIMEOUT :: usec where "NO_TIMEOUT = -1"
definition QUANTUM :: usec where "QUANTUM = 10000"
definition SCHED_MAX_LEVEL :: int where "SCHED_MAX_LEVEL = 3"
definition SCHED_MAX_SCHEDULED :: int where "SCHED_MAX_SCHEDULED = 3"

section \<open>Addresses\<close>

text \<open>A TCB is a heap object or the idle thread that is a member of a core's CCB.\<close>

datatype tref = IdleT nat | HeapT nat

type_synonym pref = nat    \<comment> \<open>a PCB: its index in \<open>PT\<close>, that is its pid\<close>
type_synonym fref = nat    \<comment> \<open>an FCB: its index in \<open>FT\<close>\<close>
type_synonym ptref = nat   \<comment> \<open>the address of a PTCB\<close>
type_synonym ptr = "nat option"  \<comment> \<open>a \<open>void*\<close> into memory; \<open>None\<close> is the null pointer\<close>

datatype node =
    SchedQ int            \<comment> \<open>\<open>SCHED[i]\<close>\<close>
  | TimeoutList           \<comment> \<open>\<open>TIMEOUT_LIST\<close>\<close>
  | SchedNode tref        \<comment> \<open>\<open>tcb->sched_node\<close>\<close>
  | HaltedList            \<comment> \<open>\<open>halted_list\<close> of bios.c\<close>
  | HaltedNode nat        \<comment> \<open>\<open>CORE[c].halted_node\<close>\<close>
  | CvNode tref           \<comment> \<open>the \<open>node\<close> of the waiter on the stack of a thread in \<open>cv_wait\<close>\<close>
  | ThreadList pref       \<comment> \<open>\<open>pcb->thread_list\<close>\<close>
  | ThreadNode ptref      \<comment> \<open>\<open>ptcb->thread_list_node\<close>\<close>
  | ChildrenList pref     \<comment> \<open>\<open>pcb->children_list\<close>\<close>
  | ChildrenNode pref     \<comment> \<open>\<open>pcb->children_node\<close>\<close>
  | ExitedList pref       \<comment> \<open>\<open>pcb->exited_list\<close>\<close>
  | ExitedNode pref       \<comment> \<open>\<open>pcb->exited_node\<close>\<close>
  | FcbFreelist           \<comment> \<open>\<open>FCB_freelist\<close>\<close>
  | FcbNode fref          \<comment> \<open>\<open>fcb->freelist_node\<close>\<close>

text \<open>The union that is the key of a list node; an address of any of the kernel's types.\<close>

datatype key =
    ONull
  | OTcb tref
  | OPtcb ptref
  | OPcb pref
  | OFcb fref
  | OCore nat
  | OWaiter tref
  | ONode node

datatype cvref =
    ExitCv ptref          \<comment> \<open>\<open>ptcb->exit_cv\<close>\<close>
  | ChildExit pref        \<comment> \<open>\<open>pcb->child_exit\<close>\<close>
  | RxReady nat           \<comment> \<open>\<open>serial_dcb[i].rx_ready\<close>\<close>
  | KernelSemCv           \<comment> \<open>\<open>kernel_sem_cv\<close>\<close>
  | UserCv nat            \<comment> \<open>a condition variable of a program\<close>

section \<open>Threads and cores\<close>

datatype Thread_state = INIT | READY | RUNNING | STOPPED | EXITED

datatype Thread_phase = CTX_CLEAN | CTX_DIRTY

datatype Thread_type = IDLE_THREAD | NORMAL_THREAD

datatype SCHED_CAUSE = SCHED_QUANTUM | SCHED_IO | SCHED_MUTEX | SCHED_PIPE | SCHED_POLL
  | SCHED_IDLE | SCHED_USER

datatype thread_func = start_main_thread_func | start_thread_func

type_synonym task = "nat option"   \<comment> \<open>the address of a \<open>Task\<close>; \<open>None\<close> is the null pointer\<close>

record tcb =
  owner_pcb :: pref
  tptcb :: "ptref option"
  priority :: int
  ttype :: Thread_type
  tstate :: Thread_state
  tphase :: Thread_phase
  tfunc :: thread_func
  wakeup_time :: usec
  its :: usec
  rts :: usec
  curr_cause :: SCHED_CAUSE
  last_cause :: SCHED_CAUSE

record ptcb =
  ptcb_tcb :: "tref option"
  detached :: bool
  exited :: bool
  ref_count :: uint
  texitval :: int
  ttask :: task
  targl :: int
  targs :: ptr

record ccb =
  current_thread :: tref
  previous_thread :: tref
  preemption :: bool

record cv_waiter =
  wthread :: tref
  signalled :: bool
  removed :: bool

section \<open>Processes, streams and devices\<close>

datatype pid_state = FREE | ALIVE | ZOMBIE

record PCB =
  pstate :: pid_state
  parent :: "pref option"
  exitval :: int
  thread_count :: uint
  main_task :: task
  argl :: int
  args :: ptr
  FIDT :: "nat \<Rightarrow> fref option"

datatype file_ops = nulldev_fops | serial_fops | stdio_ops

datatype stream_obj = NullObj | SerialObj nat

record FCB =
  refcount :: uint
  streamobj :: stream_obj
  streamfunc :: "file_ops option"

datatype Device_type = DEV_NULL | DEV_SERIAL | DEV_MAX

record DCB =
  devnum :: uint
  dev_fops :: file_ops

section \<open>The virtual machine\<close>

datatype Interrupt = ICI | ALARM | SERIAL_RX_READY | SERIAL_TX_READY

datatype handler = yield_handler | ici_handler | serial_rx_handler | serial_tx_handler

record core =
  halted :: bool
  int_disabled :: bool
  intvec :: "Interrupt \<Rightarrow> handler option"
  intpending :: "Interrupt \<Rightarrow> bool"
  irq_count :: uint
  irq_raised :: "Interrupt \<Rightarrow> uint"
  irq_delivered :: "Interrupt \<Rightarrow> uint"
  timer :: "usec \<times> usec"  \<comment> \<open>what is left of the core's POSIX timer: \<open>tv_sec\<close>, \<open>tv_nsec\<close>\<close>

section \<open>The kernel's global variables\<close>

record kernel =
  rl :: "(node, key) rlheap"             \<comment> \<open>every list node\<close>
  tcbs :: "tref \<rightharpoonup> tcb"                  \<comment> \<open>the live TCBs\<close>
  ptcbs :: "ptref \<rightharpoonup> ptcb"               \<comment> \<open>the live PTCBs\<close>
  cctx :: "nat \<Rightarrow> ccb"
  scheduled :: cint
  active_threads :: uint
  saved_preempt :: "tref \<Rightarrow> bool"        \<comment> \<open>the local \<open>preempt\<close> of a thread inside \<open>yield\<close>\<close>
  condvars :: "cvref \<Rightarrow> tref option"      \<comment> \<open>\<open>cv->waitset\<close>: the thread whose waiter it is\<close>
  waiters :: "tref \<rightharpoonup> cv_waiter"          \<comment> \<open>the waiters on the stacks of waiting threads\<close>
  kernel_sem :: int
  PT :: "pref \<Rightarrow> PCB"
  pcb_freelist :: "pref option"
  process_count :: uint
  FT :: "fref \<Rightarrow> FCB"
  devtable :: "Device_type \<Rightarrow> DCB"
  mem :: "nat \<rightharpoonup> 8 word list"             \<comment> \<open>allocated byte blocks\<close>
  cores :: "nat \<Rightarrow> core"
  ncores :: nat
  nterm :: uint
  system_clock :: usec                   \<comment> \<open>in milliseconds\<close>

text \<open>
  The kernel's static storage when the program starts: everything is zero except
  \<open>kernel_sem\<close>, and the list nodes, which hold whatever pointers \<open>h\<close> says.
\<close>

definition static_kernel :: "(node, key) rlheap \<Rightarrow> kernel" where
  "static_kernel h =
     \<lparr>rl = h, tcbs = Map.empty, ptcbs = Map.empty,
      cctx = (\<lambda>c. \<lparr>current_thread = IdleT c, previous_thread = IdleT c, preemption = False\<rparr>),
      scheduled = 0, active_threads = 0, saved_preempt = (\<lambda>_. False),
      condvars = (\<lambda>_. None), waiters = Map.empty, kernel_sem = 1,
      PT = (\<lambda>_. \<lparr>pstate = FREE, parent = None, exitval = 0, thread_count = 0, main_task = None,
                 argl = 0, args = None, FIDT = (\<lambda>_. None)\<rparr>),
      pcb_freelist = None, process_count = 0,
      FT = (\<lambda>_. \<lparr>refcount = 0, streamobj = NullObj, streamfunc = None\<rparr>),
      devtable = (\<lambda>_. \<lparr>devnum = 0, dev_fops = nulldev_fops\<rparr>), mem = Map.empty,
      cores = (\<lambda>_. \<lparr>halted = False, int_disabled = False, intvec = (\<lambda>_. None),
                    intpending = (\<lambda>_. False), irq_count = 0, irq_raised = (\<lambda>_. 0), irq_delivered = (\<lambda>_. 0),
                    timer = (0, 0)\<rparr>),
      ncores = 0, nterm = 0, system_clock = 0\<rparr>"

section \<open>Access to the objects\<close>

definition get_tcb :: "tref \<Rightarrow> kernel \<Rightarrow> tcb result" where
  "get_tcb t s = (case tcbs s t of None \<Rightarrow> Inl DanglingPtr | Some x \<Rightarrow> Inr x)"

definition set_tcb :: "tref \<Rightarrow> tcb \<Rightarrow> kernel \<Rightarrow> kernel" where
  "set_tcb t x s = s\<lparr>tcbs := (tcbs s)(t \<mapsto> x)\<rparr>"

definition get_ptcb :: "ptref \<Rightarrow> kernel \<Rightarrow> ptcb result" where
  "get_ptcb p s = (case ptcbs s p of None \<Rightarrow> Inl DanglingPtr | Some x \<Rightarrow> Inr x)"

definition set_ptcb :: "ptref \<Rightarrow> ptcb \<Rightarrow> kernel \<Rightarrow> kernel" where
  "set_ptcb p x s = s\<lparr>ptcbs := (ptcbs s)(p \<mapsto> x)\<rparr>"

definition set_PCB :: "pref \<Rightarrow> PCB \<Rightarrow> kernel \<Rightarrow> kernel" where
  "set_PCB p x s = s\<lparr>PT := (PT s)(p := x)\<rparr>"

definition set_FCB :: "fref \<Rightarrow> FCB \<Rightarrow> kernel \<Rightarrow> kernel" where
  "set_FCB f x s = s\<lparr>FT := (FT s)(f := x)\<rparr>"

definition set_core :: "nat \<Rightarrow> core \<Rightarrow> kernel \<Rightarrow> kernel" where
  "set_core c x s = s\<lparr>cores := (cores s)(c := x)\<rparr>"

definition set_ccb :: "nat \<Rightarrow> ccb \<Rightarrow> kernel \<Rightarrow> kernel" where
  "set_ccb c x s = s\<lparr>cctx := (cctx s)(c := x)\<rparr>"

text \<open>The macros \<open>CURTHREAD\<close> and \<open>CURPROC\<close> on core \<open>c\<close>.\<close>

definition CURTHREAD :: "nat \<Rightarrow> kernel \<Rightarrow> tref" where
  "CURTHREAD c s = current_thread (cctx s c)"

definition CURPROC :: "nat \<Rightarrow> kernel \<Rightarrow> pref result" where
  "CURPROC c s = rbind (get_tcb (CURTHREAD c s) s) (\<lambda>x. Inr (owner_pcb x))"

lemma get_tcb_Some [simp]: "tcbs s t = Some x \<Longrightarrow> get_tcb t s = Inr x"
  by (simp add: get_tcb_def)

lemma get_tcb_eq_Inr: "get_tcb t s = Inr x \<longleftrightarrow> tcbs s t = Some x"
  by (simp add: get_tcb_def split: option.splits)

lemma get_ptcb_Some [simp]: "ptcbs s p = Some x \<Longrightarrow> get_ptcb p s = Inr x"
  by (simp add: get_ptcb_def)

lemma get_ptcb_eq_Inr: "get_ptcb p s = Inr x \<longleftrightarrow> ptcbs s p = Some x"
  by (simp add: get_ptcb_def split: option.splits)

end
