(* ===== verification/Bios.thy ===== *)
theory Bios
  imports Kernel_State
begin

text \<open>
  The virtual machine of src/bios.c as far as the kernel's state depends on it: the halted
  cores and their list, the per-core interrupt state, the per-core timer and the clock.  The
  POSIX timer is the pair of fields of its \<open>itimerspec\<close>.  The signal that tells a core
  thread of an interrupt and the condition variable that wakes a halted core's thread are the
  host's; their effect on the state (\<open>intpending\<close>, \<open>halted\<close>) is modelled.
\<close>

section \<open>Starting the virtual machine\<close>

text \<open>
  \<open>vm_boot\<close> up to the point where the cores run; \<open>clk\<close> is the host's coarse time.  A
  failed \<open>CHECK_CONDITION\<close> aborts the program.
\<close>

definition vm_boot_core :: "nat \<Rightarrow> kernel \<Rightarrow> kernel" where
  "vm_boot_core c s =
     (set_core c ((cores s c)\<lparr>halted := False, irq_count := 0, irq_delivered := (\<lambda>_. 0), irq_raised := (\<lambda>_. 0)\<rparr>) s)
       \<lparr>rl := rlnode_init (HaltedNode c) (OCore c) (rl s)\<rparr>"

text \<open>What the thread of a core does in \<open>bootfunc_wrapper\<close> before it runs the boot function.\<close>

definition bootfunc_init :: "nat \<Rightarrow> kernel \<Rightarrow> kernel" where
  "bootfunc_init c s =
     set_core c ((cores s c)\<lparr>intvec := (\<lambda>_. None), intpending := (\<lambda>_. False), int_disabled := False\<rparr>) s"

definition vm_boot :: "nat \<Rightarrow> uint \<Rightarrow> usec \<Rightarrow> kernel \<Rightarrow> kernel result" where
  "vm_boot n serialno clk s =
     (if \<not> (n > 0 \<and> n \<le> MAX_CORES) then Inl AssertFail
      else if ncores s \<noteq> 0 then Inl AssertFail
      else if \<not> unat serialno \<le> MAX_TERMINALS then Inl AssertFail
      else Inr (fold vm_boot_core [0..<n]
                 (s\<lparr>system_clock := clk, rl := rlnode_init HaltedList ONull (rl s), ncores := n\<rparr>)))"

section \<open>Halting and restarting cores\<close>

text \<open>What \<open>cpu_core_halt\<close> does before its thread waits for \<open>halted\<close> to become 0.\<close>

definition cpu_core_halt :: "nat \<Rightarrow> kernel \<Rightarrow> kernel result" where
  "cpu_core_halt c s =
     (if int_disabled (cores s c) then Inl AssertFail
      else Inr ((set_core c ((cores s c)\<lparr>halted := True\<rparr>) s)
                \<lparr>rl := rlist_push_front HaltedList (HaltedNode c) (rl s)\<rparr>))"

definition core_restart :: "nat \<Rightarrow> kernel \<Rightarrow> kernel" where
  "core_restart c s =
     (if halted (cores s c)
      then (set_core c ((cores s c)\<lparr>halted := False\<rparr>) s)
             \<lparr>rl := rlist_remove (HaltedNode c) (rl s)\<rparr>
      else s)"

definition cpu_core_restart :: "nat \<Rightarrow> kernel \<Rightarrow> kernel" where
  "cpu_core_restart c s = core_restart c s"

definition cpu_core_restart_one :: "kernel \<Rightarrow> kernel result" where
  "cpu_core_restart_one s =
     (if \<not> is_rlist_empty HaltedList (rl s)
      then (let (n, h) = rlist_pop_front HaltedList (rl s)
            in case obj h n of OCore c \<Rightarrow> Inr (core_restart c (s\<lparr>rl := h\<rparr>))
               | _ \<Rightarrow> Inl DanglingPtr)
      else Inr s)"

definition cpu_core_restart_all :: "kernel \<Rightarrow> kernel" where
  "cpu_core_restart_all s = fold core_restart [0..<ncores s] s"

section \<open>Interrupts\<close>

definition cpu_interrupt_handler :: "nat \<Rightarrow> Interrupt \<Rightarrow> handler option \<Rightarrow> kernel \<Rightarrow> kernel" where
  "cpu_interrupt_handler c i hnd s =
     set_core c ((cores s c)\<lparr>intvec := (intvec (cores s c))(i := hnd)\<rparr>) s"

definition raise_interrupt :: "nat \<Rightarrow> Interrupt \<Rightarrow> kernel \<Rightarrow> kernel" where
  "raise_interrupt c i s =
     (let k = cores s c;
          s1 = set_core c (k\<lparr>intpending := (intpending k)(i := True),
                            irq_raised := (irq_raised k)(i := irq_raised k i + 1)\<rparr>) s
      in cpu_core_restart c s1)"

definition cpu_disable_interrupts :: "nat \<Rightarrow> kernel \<Rightarrow> kernel" where
  "cpu_disable_interrupts c s =
     (if \<not> int_disabled (cores s c)
      then set_core c ((cores s c)\<lparr>int_disabled := True\<rparr>) s else s)"

text \<open>
  The loop of \<open>dispatch_interrupts\<close>: pending interrupts are delivered in the order of the
  enumeration, as long as interrupts stay enabled.  \<open>run\<close> executes a handler.
\<close>

fun dispatch_loop ::
  "(handler \<Rightarrow> kernel \<Rightarrow> kernel result) \<Rightarrow> nat \<Rightarrow> Interrupt list \<Rightarrow> kernel \<Rightarrow> kernel result" where
  "dispatch_loop run c [] s = Inr s"
| "dispatch_loop run c (i # is) s =
     (if int_disabled (cores s c) then Inr s
      else if intpending (cores s c) i
      then (let k = cores s c;
                s1 = set_core c (k\<lparr>intpending := (intpending k)(i := False),
                                  irq_delivered := (irq_delivered k)(i := irq_delivered k i + 1)\<rparr>) s
            in rbind (case intvec (cores s1 c) i of None \<Rightarrow> Inr s1 | Some h \<Rightarrow> run h s1)
                 (dispatch_loop run c is))
      else dispatch_loop run c is s)"

definition dispatch_interrupts ::
  "(handler \<Rightarrow> kernel \<Rightarrow> kernel result) \<Rightarrow> nat \<Rightarrow> kernel \<Rightarrow> kernel result" where
  "dispatch_interrupts run c s =
     dispatch_loop run c [ICI, ALARM, SERIAL_RX_READY, SERIAL_TX_READY] s"

definition cpu_enable_interrupts ::
  "(handler \<Rightarrow> kernel \<Rightarrow> kernel result) \<Rightarrow> nat \<Rightarrow> kernel \<Rightarrow> kernel result" where
  "cpu_enable_interrupts run c s =
     (if int_disabled (cores s c)
      then dispatch_interrupts run c (set_core c ((cores s c)\<lparr>int_disabled := False\<rparr>) s)
      else Inr s)"

text \<open>The handler of the signal that tells a core's thread of its interrupts.\<close>

definition sigusr1_handler ::
  "(handler \<Rightarrow> kernel \<Rightarrow> kernel result) \<Rightarrow> nat \<Rightarrow> kernel \<Rightarrow> kernel result" where
  "sigusr1_handler run c s =
     (let s1 = set_core c ((cores s c)\<lparr>irq_count := irq_count (cores s c) + 1\<rparr>) s
      in if int_disabled (cores s1 c) then Inr s1 else dispatch_interrupts run c s1)"

section \<open>Timers and the clock\<close>

text \<open>The previous setting is returned as \<open>timer_settime\<close> reports it.\<close>

definition bios_set_timer :: "nat \<Rightarrow> usec \<Rightarrow> kernel \<Rightarrow> usec \<times> kernel" where
  "bios_set_timer c u s =
     (let sec = u div 1000000; nsec = (u mod 1000000) * 1000;
          k = cores s c; (osec, onsec) = timer k
      in (1000000 * osec + onsec div 1000,
          set_core c (k\<lparr>timer := (sec, nsec), intpending := (intpending k)(ALARM := False)\<rparr>) s))"

definition bios_cancel_timer :: "nat \<Rightarrow> kernel \<Rightarrow> usec \<times> kernel" where
  "bios_cancel_timer c s = bios_set_timer c 0 s"

definition bios_clock :: "kernel \<Rightarrow> usec" where
  "bios_clock s = system_clock s * 1000"

definition bios_serial_ports :: "kernel \<Rightarrow> uint" where
  "bios_serial_ports s = nterm s"

section \<open>Preemption control (src/kernel_cc.c)\<close>

text \<open>
  Turning preemption on enables the core's interrupts, which runs the handlers of the pending
  ones; turning it off disables them first.  Both return the old setting.
\<close>

definition set_core_preemption ::
  "(handler \<Rightarrow> kernel \<Rightarrow> kernel result) \<Rightarrow> nat \<Rightarrow> bool \<Rightarrow> kernel \<Rightarrow> (bool \<times> kernel) result" where
  "set_core_preemption run c preempt s =
     (if preempt
      then (let old = preemption (cctx s c);
                s1 = set_ccb c ((cctx s c)\<lparr>preemption := preempt\<rparr>) s
            in rbind (cpu_enable_interrupts run c s1) (\<lambda>s2. Inr (old, s2)))
      else (let s1 = cpu_disable_interrupts c s;
                old = preemption (cctx s1 c)
            in Inr (old, set_ccb c ((cctx s1 c)\<lparr>preemption := preempt\<rparr>) s1)))"

definition get_core_preemption :: "nat \<Rightarrow> kernel \<Rightarrow> bool" where
  "get_core_preemption c s = preemption (cctx s c)"

end
