(* ===== verification/Bios_Props.thy ===== *)
theory Bios_Props
  imports Bios
begin

text \<open>
  Properties of the virtual machine: the timer, the delivery of interrupts, and the control of
  preemption.
\<close>

section \<open>The timer\<close>

lemma timer_split:
  fixes u :: usec
  shows "1000000 * (u div 1000000) + (u mod 1000000) * 1000 div 1000 = u"
proof -
  let ?n = "unat u"
  have b: "?n < 2 ^ 64" using unsigned_less [of u] by simp
  have m: "unat (u mod 1000000) = ?n mod 1000000" by (simp add: unat_mod)
  have "unat ((u mod 1000000) * 1000) = ?n mod 1000000 * 1000"
    by (subst unat_mult_lem [THEN iffD1]) (use m in \<open>auto intro: le_less_trans [of _ "999999 * 1000"]\<close>)
  then have "unat ((u mod 1000000) * 1000 div 1000) = ?n mod 1000000" by (simp add: unat_div)
  then have 1: "(u mod 1000000) * 1000 div 1000 = u mod 1000000" using m by (simp add: word_unat_eq_iff)
  show ?thesis unfolding 1 by (metis mult_div_mod_eq)
qed

text \<open>
  Setting the core's timer and cancelling it right away returns the duration that was set,
  for every 64-bit duration, and leaves the timer disarmed with no alarm pending.
\<close>

theorem timer_round_trip:
  "let s1 = snd (bios_set_timer c u s); (left, s2) = bios_cancel_timer c s1
   in left = u \<and> timer (cores s2 c) = (0, 0) \<and> \<not> intpending (cores s2 c) ALARM"
  by (simp add: bios_cancel_timer_def bios_set_timer_def set_core_def Let_def prod.case_eq_if timer_split)

section \<open>Delivery of interrupts\<close>

definition all_interrupts :: "Interrupt list" where
  "all_interrupts = [ICI, ALARM, SERIAL_RX_READY, SERIAL_TX_READY]"

lemma all_interrupts: "set all_interrupts = UNIV" "distinct all_interrupts"
proof -
  have "i \<in> set all_interrupts" for i by (cases i) (simp_all add: all_interrupts_def)
  then show "set all_interrupts = UNIV" by auto
qed (simp add: all_interrupts_def)

text \<open>A handler that lets the machine as it is, but for what it does to the rest of the state.\<close>

definition quiet :: "(handler \<Rightarrow> kernel \<Rightarrow> kernel result) \<Rightarrow> bool" where
  "quiet run \<longleftrightarrow> (\<forall>h s. \<exists>s'. run h s = Inr s' \<and> cores s' = cores s)"

text \<open>The interrupts \<open>S\<close> were delivered to core \<open>k\<close> if they were pending.\<close>

definition delivered :: "Interrupt set \<Rightarrow> core \<Rightarrow> core" where
  "delivered S k = k\<lparr>intpending := (\<lambda>i. i \<notin> S \<and> intpending k i),
     irq_delivered := (\<lambda>i. irq_delivered k i + (if i \<in> S \<and> intpending k i then 1 else 0))\<rparr>"

lemma delivered_empty: "delivered {} k = k"
  by (simp add: delivered_def)

lemma delivered_insert:
  assumes "i \<notin> S"
  shows "delivered (insert i S) k = delivered S (if intpending k i
    then k\<lparr>intpending := (intpending k)(i := False),
           irq_delivered := (irq_delivered k)(i := irq_delivered k i + 1)\<rparr> else k)"
  using assms by (auto simp: delivered_def fun_eq_iff intro!: core.equality)

lemma dispatch_loop_cores:
  assumes q: "quiet run"
  shows "distinct ints \<Longrightarrow> \<not> int_disabled (cores s c) \<Longrightarrow> \<exists>s'. dispatch_loop run c ints s = Inr s' \<and>
    cores s' = (cores s)(c := delivered (set ints) (cores s c))"
proof (induction ints arbitrary: s)
  case Nil
  then show ?case by (simp add: delivered_empty)
next
  case (Cons i ints)
  then have i: "i \<notin> set ints" "distinct ints" by auto
  note di = delivered_insert [OF i(1), of "cores s c"]
  show ?case
  proof (cases "intpending (cores s c) i")
    case False
    with Cons.IH [OF i(2) Cons.prems(2)] Cons.prems(2) di show ?thesis by auto
  next
    case True
    let ?k = "(cores s c)\<lparr>intpending := (intpending (cores s c))(i := False),
      irq_delivered := (irq_delivered (cores s c))(i := irq_delivered (cores s c) i + 1)\<rparr>"
    let ?s1 = "set_core c ?k s"
    obtain s2 where s2: "(case intvec (cores ?s1 c) i of None \<Rightarrow> Inr ?s1 | Some h \<Rightarrow> run h ?s1) = Inr s2"
      "cores s2 = (cores s)(c := ?k)"
    proof (cases "intvec (cores ?s1 c) i")
      case None
      then show ?thesis by (intro that [of ?s1]) (simp_all add: set_core_def)
    next
      case (Some h)
      obtain s2 where "run h ?s1 = Inr s2" "cores s2 = cores ?s1" using q unfolding quiet_def by blast
      with Some show ?thesis by (intro that [of s2]) (simp_all add: set_core_def)
    qed
    have "\<not> int_disabled (cores s2 c)" using Cons.prems s2 by simp
    from Cons.IH [OF i(2) this] obtain s' where s': "dispatch_loop run c ints s2 = Inr s'"
      "cores s' = (cores s2)(c := delivered (set ints) (cores s2 c))" by blast
    have "dispatch_loop run c (i # ints) s = Inr s'"
      using True Cons.prems(2) s2(1) s'(1) by (simp add: Let_def)
    moreover have "cores s' = (cores s)(c := delivered (set (i # ints)) (cores s c))"
      using s'(2) s2(2) di True by simp
    ultimately show ?thesis by blast
  qed
qed

text \<open>
  Enabling the interrupts of a core delivers every pending interrupt once and leaves none
  pending, if the handlers do not themselves change the interrupt state; with the interrupts
  disabled, \<open>dispatch_interrupts\<close> delivers nothing.
\<close>

theorem dispatch_delivers_all_pending:
  assumes "quiet run"
  shows "(int_disabled (cores s c) \<longrightarrow> dispatch_interrupts run c s = Inr s) \<and>
    (int_disabled (cores s c) \<longrightarrow> (\<exists>s'. cpu_enable_interrupts run c s = Inr s' \<and>
      \<not> int_disabled (cores s' c) \<and> (\<forall>i. \<not> intpending (cores s' c) i \<and>
       irq_delivered (cores s' c) i = irq_delivered (cores s c) i + (if intpending (cores s c) i then 1 else 0))))"
proof -
  let ?s1 = "set_core c ((cores s c)\<lparr>int_disabled := False\<rparr>) s"
  have "\<exists>s'. dispatch_interrupts run c ?s1 = Inr s' \<and> \<not> int_disabled (cores s' c) \<and>
      (\<forall>i. \<not> intpending (cores s' c) i \<and>
       irq_delivered (cores s' c) i = irq_delivered (cores s c) i + (if intpending (cores s c) i then 1 else 0))"
    using dispatch_loop_cores [OF assms all_interrupts(2), of ?s1 c] all_interrupts(1)
    unfolding dispatch_interrupts_def all_interrupts_def [symmetric]
    by (auto simp: set_core_def delivered_def)
  then show ?thesis
    by (simp add: cpu_enable_interrupts_def dispatch_interrupts_def)
qed

theorem dispatch_delivers_all_pending_witness:
  "\<exists>s'. cpu_enable_interrupts (\<lambda>h s. Inr s) 0 (raise_interrupt 0 ALARM (cpu_disable_interrupts 0
      (static_kernel \<lparr>prv = id, nxt = id, obj = (\<lambda>_. ONull)\<rparr>))) = Inr s' \<and>
    irq_delivered (cores s' 0) ALARM = 1"
proof -
  have q: "quiet (\<lambda>h s. Inr s)" by (simp add: quiet_def)
  show ?thesis
    using dispatch_delivers_all_pending [OF q, where c = 0 and s = "raise_interrupt 0 ALARM
        (cpu_disable_interrupts 0 (static_kernel \<lparr>prv = id, nxt = id, obj = (\<lambda>_. ONull)\<rparr>))"]
    by (auto simp: raise_interrupt_def cpu_disable_interrupts_def static_kernel_def set_core_def
        cpu_core_restart_def core_restart_def)
qed

text \<open>
  An interrupt that is raised is pending, and its core is not halted afterwards.
\<close>

theorem raised_interrupt_wakes_core:
  "intpending (cores (raise_interrupt c i s) c) i \<and> \<not> halted (cores (raise_interrupt c i s) c)"
  by (simp add: raise_interrupt_def cpu_core_restart_def core_restart_def set_core_def Let_def)

end
