(* ===== verification/Bios_Pic.thy ===== *)
theory Bios_Pic
  imports Bios
begin

text \<open>
  The serial devices and the interrupt controller of src/bios.c: the reads and writes of a
  device, the terminals, one turn of the loop of \<open>PIC_daemon\<close> and the run of the virtual machine
  from \<open>vm_boot\<close> to its end.  What the host answers (\<open>read\<close>, \<open>write\<close>, \<open>poll\<close>, \<open>select\<close>,
  \<open>clock_gettime\<close>) is an argument.
\<close>

section \<open>Devices and terminals\<close>

datatype io_direction = IODIR_RX | IODIR_TX

type_synonym coarse_clock = "64 word"

record io_device =
  fd :: int
  iodir :: io_direction
  int_core :: nat           \<comment> \<open>the index of the core in \<open>CORE\<close>\<close>
  ready :: bool
  last_int :: coarse_clock

record terminal =
  con :: io_device
  kbd :: io_device

definition SERIAL_TIMEOUT :: coarse_clock where "SERIAL_TIMEOUT = 300"

text \<open>
  The state of the virtual machine beside the kernel's: the static variables of bios.c that the
  interrupt controller uses.  \<open>usr1\<close> says that a \<open>SIGUSR1\<close> is pending for its thread; being a
  standard signal it does not queue.
\<close>

record machine =
  kern :: kernel
  TERM_table :: "nat \<Rightarrow> terminal"
  PIC_active :: bool
  usr1 :: bool
  PIC_loops :: "64 word"
  PIC_usr1_drained :: "64 word"
  PIC_usr1_queued :: "64 word"

datatype devref = Con nat | Kbd nat

fun dev :: "devref \<Rightarrow> machine \<Rightarrow> io_device" where
  "dev (Con i) m = con (TERM_table m i)"
| "dev (Kbd i) m = kbd (TERM_table m i)"

fun set_dev :: "devref \<Rightarrow> io_device \<Rightarrow> machine \<Rightarrow> machine" where
  "set_dev (Con i) d m = m\<lparr>TERM_table := (TERM_table m)(i := (TERM_table m i)\<lparr>con := d\<rparr>)\<rparr>"
| "set_dev (Kbd i) d m = m\<lparr>TERM_table := (TERM_table m)(i := (TERM_table m i)\<lparr>kbd := d\<rparr>)\<rparr>"

definition interrupt_pic_thread :: "machine \<Rightarrow> machine" where
  "interrupt_pic_thread m = m\<lparr>usr1 := True, PIC_usr1_queued := PIC_usr1_queued m + 1\<rparr>"

text \<open>
  The time of day in milliseconds, from the seconds and nanoseconds of \<open>clock_gettime\<close>.
\<close>

definition get_coarse_time :: "64 word \<Rightarrow> 64 word \<Rightarrow> coarse_clock" where
  "get_coarse_time sec nsec = nsec div 1000000 + sec * 1000"

text \<open>
  The events that \<open>poll\<close> reports for a descriptor (that bytes can be read, that bytes can be
  written) say whether it is ready for the direction.
\<close>

type_synonym revents = "bool \<times> bool"

definition io_ready :: "io_direction \<Rightarrow> revents \<Rightarrow> bool" where
  "io_ready dir ev = (if dir = IODIR_RX then fst ev else snd ev)"

definition io_device_init :: "devref \<Rightarrow> int \<Rightarrow> io_direction \<Rightarrow> revents \<Rightarrow> machine \<Rightarrow> machine" where
  "io_device_init d f dir ev m =
     set_dev d \<lparr>fd = f, iodir = dir, int_core = 0, ready = io_ready dir ev, last_int = system_clock (kern m)\<rparr> m"

text \<open>
  The host's answer to a \<open>read\<close> or \<open>write\<close> of one byte: its return code with the byte read,
  or the error.
\<close>

datatype errno = EINTR | EAGAIN | EWOULDBLOCK | EPIPE | OtherErr

datatype host_answer = Rc nat "8 word" | Err errno

text \<open>An interrupted call is repeated; the result is the first other answer.\<close>

fun retry :: "host_answer list \<Rightarrow> host_answer option" where
  "retry [] = None"
| "retry (a # as) = (if a = Err EINTR then retry as else Some a)"

text \<open>The end of a transfer that moved no byte.\<close>

definition device_failed :: "devref \<Rightarrow> machine \<Rightarrow> machine" where
  "device_failed d m =
     (if ready (dev d m) then interrupt_pic_thread (set_dev d ((dev d m)\<lparr>ready := False\<rparr>) m) else m)"

definition io_device_read ::
  "devref \<Rightarrow> host_answer list \<Rightarrow> machine \<Rightarrow> (8 word option \<times> machine) result" where
  "io_device_read d answers m =
     (if iodir (dev d m) \<noteq> IODIR_RX then Inl AssertFail
      else case retry answers of
             None \<Rightarrow> Inl Diverges
           | Some (Rc n b) \<Rightarrow>
               if n = 1 then Inr (Some b, m)
               else if n = 0 then Inr (None, device_failed d m)
               else Inl AssertFail
           | Some (Err e) \<Rightarrow>
               if e = EAGAIN \<or> e = EWOULDBLOCK then Inr (None, device_failed d m) else Inl AssertFail)"

definition io_device_write ::
  "devref \<Rightarrow> host_answer list \<Rightarrow> machine \<Rightarrow> (bool \<times> machine) result" where
  "io_device_write d answers m =
     (if iodir (dev d m) \<noteq> IODIR_TX then Inl AssertFail
      else case retry answers of
             None \<Rightarrow> Inl Diverges
           | Some (Rc n b) \<Rightarrow> if n = 1 then Inr (True, m) else Inl AssertFail
           | Some (Err e) \<Rightarrow>
               if e = EAGAIN \<or> e = EWOULDBLOCK \<or> e = EPIPE then Inr (False, device_failed d m)
               else Inl AssertFail)"

definition bios_read_serial :: "nat \<Rightarrow> host_answer list \<Rightarrow> machine \<Rightarrow> (8 word option \<times> machine) result" where
  "bios_read_serial serial answers m = io_device_read (Kbd serial) answers m"

definition bios_write_serial :: "nat \<Rightarrow> host_answer list \<Rightarrow> machine \<Rightarrow> (bool \<times> machine) result" where
  "bios_write_serial serial answers m = io_device_write (Con serial) answers m"

definition bios_serial_interrupt_core :: "nat \<Rightarrow> Interrupt \<Rightarrow> nat \<Rightarrow> machine \<Rightarrow> machine result" where
  "bios_serial_interrupt_core serial intno coreid m =
     (if \<not> serial < unat (nterm (kern m)) then Inl AssertFail
      else if \<not> (intno = SERIAL_RX_READY \<or> intno = SERIAL_TX_READY) then Inl AssertFail
      else if \<not> coreid < ncores (kern m) then Inl AssertFail
      else if intno = SERIAL_RX_READY
      then Inr (set_dev (Kbd serial) ((dev (Kbd serial) m)\<lparr>int_core := coreid\<rparr>) m)
      else Inr (set_dev (Con serial) ((dev (Con serial) m)\<lparr>int_core := coreid\<rparr>) m))"

text \<open>
  The pipes of a terminal: the host opens the console and the keyboard, each with its
  descriptor (\<open>-1\<close> when it fails) and with the events that are there at the start.
\<close>

definition terminal_init :: "nat \<Rightarrow> int \<times> revents \<Rightarrow> int \<times> revents \<Rightarrow> machine \<Rightarrow> int \<times> machine" where
  "terminal_init no c k m =
     (if fst c = -1 then (-1, m)
      else let m1 = io_device_init (Con no) (fst c) IODIR_TX (snd c) m
           in if fst k = -1 then (-1, m1)
              else (0, io_device_init (Kbd no) (fst k) IODIR_RX (snd k) m1))"

definition open_terminal :: "nat \<Rightarrow> int \<times> revents \<Rightarrow> int \<times> revents \<Rightarrow> machine \<Rightarrow> machine result" where
  "open_terminal no c k m =
     (let (rc, m1) = terminal_init no c k m in if rc = -1 then Inl AssertFail else Inr m1)"

text \<open>
  The two descriptors are closed with the answers of the host to each \<open>close\<close>; after a failure
  of the first the second stays open.
\<close>

definition terminal_destroy :: "host_answer list \<Rightarrow> host_answer list \<Rightarrow> int result" where
  "terminal_destroy c k =
     (case retry c of
        None \<Rightarrow> Inl Diverges
      | Some (Err e) \<Rightarrow> Inr (-1)
      | Some (Rc n b) \<Rightarrow>
          (case retry k of None \<Rightarrow> Inl Diverges | Some (Err e) \<Rightarrow> Inr (-1) | Some (Rc n b) \<Rightarrow> Inr 0))"

definition close_terminal :: "host_answer list \<times> host_answer list \<Rightarrow> unit result" where
  "close_terminal a = rbind (terminal_destroy (fst a) (snd a)) (\<lambda>rc. if rc = -1 then Inl AssertFail else Inr ())"

section \<open>The interrupt controller\<close>

text \<open>Adding a descriptor to a set keeps the bound of the set.\<close>

definition fdset_add :: "int \<Rightarrow> int set \<times> int \<Rightarrow> int set \<times> int" where
  "fdset_add f r = (insert f (fst r), if f \<ge> snd r then f + 1 else snd r)"

text \<open>
  What the host does in one turn of the loop: which terminals' keyboards are hung up, whether
  \<open>select\<close> fails, which descriptors it finds ready, the time, and the timers that expired,
  each with the core it belongs to.
\<close>

record poll_result =
  hangup :: "nat \<Rightarrow> bool"
  failed :: bool
  can_read :: "int \<Rightarrow> bool"
  can_write :: "int \<Rightarrow> bool"
  time_now :: coarse_clock
  expired :: "nat list"

definition check_terminal :: "poll_result \<Rightarrow> nat \<Rightarrow> bool" where
  "check_terminal p i = (\<not> hangup p i)"

text \<open>
  The sets of the terminals' descriptors that \<open>select\<close> waits for, and the bound of both.  The two
  descriptors for signals, which are always in the first set, are the fields \<open>expired\<close> and \<open>usr1\<close>.
\<close>

fun request_terminal :: "poll_result \<Rightarrow> machine \<Rightarrow> nat \<Rightarrow> int set \<times> int set \<times> int \<Rightarrow> int set \<times> int set \<times> int" where
  "request_terminal p m i (rs, ws, n) =
     (if \<not> check_terminal p i then (rs, ws, n)
      else let (rs1, n1) = (if \<not> ready (kbd (TERM_table m i)) then fdset_add (fd (kbd (TERM_table m i))) (rs, n) else (rs, n));
               (ws1, n2) = (if \<not> ready (con (TERM_table m i)) then fdset_add (fd (con (TERM_table m i))) (ws, n1) else (ws, n1))
           in (rs1, ws1, n2))"

definition pic_request :: "poll_result \<Rightarrow> machine \<Rightarrow> int set \<times> int set \<times> int" where
  "pic_request p m = fold (request_terminal p m) [0..<unat (nterm (kern m))] ({}, {}, 0)"

definition raise_on :: "nat \<Rightarrow> Interrupt \<Rightarrow> machine \<Rightarrow> machine" where
  "raise_on c i m = m\<lparr>kern := raise_interrupt c i (kern m)\<rparr>"

definition pic_drain_sigusr1 :: "machine \<Rightarrow> machine" where
  "pic_drain_sigusr1 m =
     (if usr1 m then m\<lparr>usr1 := False, PIC_usr1_drained := PIC_usr1_drained m + 1\<rparr> else m)"

text \<open>A device that is ready, or that was silent for too long, interrupts its core.\<close>

definition serve_device :: "devref \<Rightarrow> Interrupt \<Rightarrow> int set \<Rightarrow> machine \<Rightarrow> machine" where
  "serve_device d i fds m =
     (if fd (dev d m) \<in> fds \<or> system_clock (kern m) - last_int (dev d m) > SERIAL_TIMEOUT
      then raise_on (int_core (dev d m)) i
             (set_dev d ((dev d m)\<lparr>ready := True, last_int := system_clock (kern m)\<rparr>) m)
      else m)"

definition serve_terminal :: "int set \<Rightarrow> int set \<Rightarrow> nat \<Rightarrow> machine \<Rightarrow> machine" where
  "serve_terminal rs ws i m =
     serve_device (Kbd i) SERIAL_RX_READY rs (serve_device (Con i) SERIAL_TX_READY ws m)"

text \<open>One turn of the loop.\<close>

definition pic_turn :: "poll_result \<Rightarrow> machine \<Rightarrow> machine" where
  "pic_turn p m =
     (let (rs, ws, maxfd) = pic_request p m;
          rs1 = {f \<in> rs. can_read p f}; ws1 = {f \<in> ws. can_write p f};
          m1 = m\<lparr>kern := (kern m)\<lparr>system_clock := time_now p\<rparr>\<rparr>
      in if failed p then m1
         else let m2 = m1\<lparr>PIC_loops := PIC_loops m1 + 1\<rparr>;
                  m3 = fold (\<lambda>c. raise_on c ALARM) (expired p) m2;
                  m4 = pic_drain_sigusr1 m3
              in fold (serve_terminal rs1 ws1) [0..<unat (nterm (kern m4))] m4)"

section \<open>The run of the virtual machine\<close>

text \<open>
  The thread of a core after the boot function has returned: no interrupt is handled any more,
  and when every core is there, core 0 stops the interrupt controller.
\<close>

definition bootfunc_end :: "nat \<Rightarrow> machine \<Rightarrow> machine" where
  "bootfunc_end c m =
     m\<lparr>kern := set_core c ((cores (kern m) c)\<lparr>intvec := (\<lambda>_. None)\<rparr>) (kern m)\<rparr>"

definition stop_pic :: "nat \<Rightarrow> machine \<Rightarrow> machine" where
  "stop_pic c m = (if c = 0 then interrupt_pic_thread (m\<lparr>PIC_active := False\<rparr>) else m)"

text \<open>The terminals are opened in order; the first failure aborts.\<close>

fun open_terminals :: "nat list \<Rightarrow> (nat \<Rightarrow> (int \<times> revents) \<times> int \<times> revents) \<Rightarrow> machine \<Rightarrow> machine result" where
  "open_terminals [] host m = Inr m"
| "open_terminals (i # is) host m =
     rbind (open_terminal i (fst (host i)) (snd (host i)) m) (open_terminals is host)"

fun close_terminals :: "nat list \<Rightarrow> (nat \<Rightarrow> host_answer list \<times> host_answer list) \<Rightarrow> unit result" where
  "close_terminals [] closed = Inr ()"
| "close_terminals (i # is) closed = rbind (close_terminal (closed i)) (\<lambda>_. close_terminals is closed)"

text \<open>
  The loop of \<open>PIC_daemon\<close>: each entry of the list is a turn of the loop and what the cores do
  until the next one.  The result is \<open>None\<close> if the machine still runs at the end of the list.
\<close>

fun pic_loop :: "(poll_result \<times> (machine \<Rightarrow> machine)) list \<Rightarrow> machine \<Rightarrow> machine option" where
  "pic_loop run m =
     (if \<not> PIC_active m then Some m
      else case run of [] \<Rightarrow> None | (p, act) # rest \<Rightarrow> pic_loop rest (act (pic_turn p m)))"

definition PIC_daemon ::
  "uint \<Rightarrow> (nat \<Rightarrow> (int \<times> revents) \<times> int \<times> revents) \<Rightarrow> (nat \<Rightarrow> host_answer list \<times> host_answer list) \<Rightarrow>
   (poll_result \<times> (machine \<Rightarrow> machine)) list \<Rightarrow> machine \<Rightarrow> machine option result" where
  "PIC_daemon serialno host closed run m =
     rbind (open_terminals [0..<unat serialno] host (m\<lparr>kern := (kern m)\<lparr>nterm := serialno\<rparr>\<rparr>)) (\<lambda>m1.
     case pic_loop run m1 of
       None \<Rightarrow> Inr None
     | Some m2 \<Rightarrow>
         let m3 = pic_drain_sigusr1 m2
         in rbind (close_terminals [0..<unat (nterm (kern m3))] closed) (\<lambda>_.
              Inr (Some (m3\<lparr>kern := (kern m3)\<lparr>nterm := 0\<rparr>\<rparr>))))"

text \<open>
  \<open>vm_boot\<close> from its call to its return: the threads of the cores start, the interrupt controller
  runs until core 0 stops it, and at the end there are no cores again.
\<close>

definition vm_run ::
  "nat \<Rightarrow> uint \<Rightarrow> 64 word \<times> 64 word \<Rightarrow> (nat \<Rightarrow> (int \<times> revents) \<times> int \<times> revents) \<Rightarrow>
   (nat \<Rightarrow> host_answer list \<times> host_answer list) \<Rightarrow> (poll_result \<times> (machine \<Rightarrow> machine)) list \<Rightarrow>
   machine \<Rightarrow> machine option result" where
  "vm_run n serialno now host closed run m =
     rbind (vm_boot n serialno (get_coarse_time (fst now) (snd now)) (kern m)) (\<lambda>s.
     rbind (PIC_daemon serialno host closed run
              (m\<lparr>kern := fold bootfunc_init [0..<n] s, PIC_active := True, PIC_loops := 0,
                 PIC_usr1_queued := 0, PIC_usr1_drained := 0\<rparr>)) (\<lambda>r.
     case r of
       None \<Rightarrow> Inr None
     | Some m1 \<Rightarrow> Inr (Some (m1\<lparr>kern := (kern m1)\<lparr>ncores := 0\<rparr>\<rparr>))))"

end
