(* ===== verification/Bios_Pic_Props.thy ===== *)
theory Bios_Pic_Props
  imports Bios_Pic
begin

text \<open>
  What one turn of the interrupt controller does, and the promise of bios.h to a caller whose
  transfer failed: an interrupt when the device is ready.
\<close>

section \<open>Raising\<close>

lemma raise_on_simps [simp]:
  "TERM_table (raise_on c i m) = TERM_table m"
  "dev d (raise_on c i m) = dev d m"
  "nterm (kern (raise_on c i m)) = nterm (kern m)"
  "system_clock (kern (raise_on c i m)) = system_clock (kern m)"
  "intpending (cores (kern (raise_on c i m)) k) x \<longleftrightarrow> intpending (cores (kern m) k) x \<or> k = c \<and> x = i"
  "halted (cores (kern (raise_on c i m)) k) \<longleftrightarrow> halted (cores (kern m) k) \<and> k \<noteq> c"
  by (cases d; auto simp: raise_on_def raise_interrupt_def cpu_core_restart_def core_restart_def set_core_def Let_def)+

lemma set_dev_simps [simp]:
  "kern (set_dev d x m) = kern m"
  "dev e (set_dev d x m) = (if e = d then x else dev e m)"
  by (cases d; cases e; simp)+

lemma serve_device_simps:
  "nterm (kern (serve_device d i fds m)) = nterm (kern m)"
  "system_clock (kern (serve_device d i fds m)) = system_clock (kern m)"
  by (simp_all add: serve_device_def)

text \<open>The device has something to report: its descriptor is ready, or it was silent too long.\<close>

definition due :: "int set \<Rightarrow> coarse_clock \<Rightarrow> io_device \<Rightarrow> bool" where
  "due fds t d \<longleftrightarrow> fd d \<in> fds \<or> t - last_int d > SERIAL_TIMEOUT"

lemma serve_device_dev:
  "dev e (serve_device d i fds m) =
     (if e = d \<and> due fds (system_clock (kern m)) (dev d m)
      then (dev d m)\<lparr>ready := True, last_int := system_clock (kern m)\<rparr> else dev e m)"
  by (simp add: serve_device_def due_def)

lemma serve_device_raises:
  "intpending (cores (kern (serve_device d i fds m)) k) x \<longleftrightarrow> intpending (cores (kern m) k) x \<or>
     due fds (system_clock (kern m)) (dev d m) \<and> k = int_core (dev d m) \<and> x = i"
  "halted (cores (kern (serve_device d i fds m)) k) \<longleftrightarrow> halted (cores (kern m) k) \<and>
     \<not> (due fds (system_clock (kern m)) (dev d m) \<and> k = int_core (dev d m))"
  by (auto simp: serve_device_def due_def)

text \<open>The devices of the terminals \<open>is\<close>, each with the interrupt it raises and the descriptors it may be in.\<close>

fun dev_int :: "devref \<Rightarrow> Interrupt" where
  "dev_int (Con i) = SERIAL_TX_READY"
| "dev_int (Kbd i) = SERIAL_RX_READY"

fun dev_no :: "devref \<Rightarrow> nat" where
  "dev_no (Con i) = i"
| "dev_no (Kbd i) = i"

fun dev_fds :: "int set \<Rightarrow> int set \<Rightarrow> devref \<Rightarrow> int set" where
  "dev_fds rs ws (Con i) = ws"
| "dev_fds rs ws (Kbd i) = rs"

definition reports :: "int set \<Rightarrow> int set \<Rightarrow> machine \<Rightarrow> devref \<Rightarrow> bool" where
  "reports rs ws m d \<longleftrightarrow> due (dev_fds rs ws d) (system_clock (kern m)) (dev d m)"

lemma serve_terminal_effect:
  "dev e (serve_terminal rs ws i m) =
     (if dev_no e = i \<and> reports rs ws m e
      then (dev e m)\<lparr>ready := True, last_int := system_clock (kern m)\<rparr> else dev e m)"
  "nterm (kern (serve_terminal rs ws i m)) = nterm (kern m)"
  "system_clock (kern (serve_terminal rs ws i m)) = system_clock (kern m)"
  "intpending (cores (kern (serve_terminal rs ws i m)) k) x \<longleftrightarrow> intpending (cores (kern m) k) x \<or>
     (\<exists>d. dev_no d = i \<and> reports rs ws m d \<and> k = int_core (dev d m) \<and> x = dev_int d)"
  "halted (cores (kern (serve_terminal rs ws i m)) k) \<longleftrightarrow> halted (cores (kern m) k) \<and>
     \<not> (\<exists>d. dev_no d = i \<and> reports rs ws m d \<and> k = int_core (dev d m))"
proof -
  have ex: "(\<exists>d. dev_no d = i \<and> P d) \<longleftrightarrow> P (Con i) \<or> P (Kbd i)" for P
    by (metis dev_no.elims dev_no.simps)
  show "dev e (serve_terminal rs ws i m) =
     (if dev_no e = i \<and> reports rs ws m e
      then (dev e m)\<lparr>ready := True, last_int := system_clock (kern m)\<rparr> else dev e m)"
    by (cases e) (auto simp: serve_terminal_def serve_device_dev serve_device_simps reports_def simp del: dev.simps)
  show "nterm (kern (serve_terminal rs ws i m)) = nterm (kern m)"
    "system_clock (kern (serve_terminal rs ws i m)) = system_clock (kern m)"
    by (simp_all add: serve_terminal_def serve_device_simps)
  show "intpending (cores (kern (serve_terminal rs ws i m)) k) x \<longleftrightarrow> intpending (cores (kern m) k) x \<or>
     (\<exists>d. dev_no d = i \<and> reports rs ws m d \<and> k = int_core (dev d m) \<and> x = dev_int d)"
    unfolding ex by (auto simp: serve_terminal_def serve_device_dev serve_device_simps serve_device_raises reports_def simp del: dev.simps)
  show "halted (cores (kern (serve_terminal rs ws i m)) k) \<longleftrightarrow> halted (cores (kern m) k) \<and>
     \<not> (\<exists>d. dev_no d = i \<and> reports rs ws m d \<and> k = int_core (dev d m))"
    unfolding ex by (auto simp: serve_terminal_def serve_device_dev serve_device_simps serve_device_raises reports_def simp del: dev.simps)
qed

lemma serve_terminals_effect:
  assumes "distinct is"
  shows "dev e (fold (serve_terminal rs ws) is m) =
     (if dev_no e \<in> set is \<and> reports rs ws m e
      then (dev e m)\<lparr>ready := True, last_int := system_clock (kern m)\<rparr> else dev e m) \<and>
   system_clock (kern (fold (serve_terminal rs ws) is m)) = system_clock (kern m) \<and>
   (intpending (cores (kern (fold (serve_terminal rs ws) is m)) k) x \<longleftrightarrow> intpending (cores (kern m) k) x \<or>
     (\<exists>d. dev_no d \<in> set is \<and> reports rs ws m d \<and> k = int_core (dev d m) \<and> x = dev_int d)) \<and>
   (halted (cores (kern (fold (serve_terminal rs ws) is m)) k) \<longleftrightarrow> halted (cores (kern m) k) \<and>
     \<not> (\<exists>d. dev_no d \<in> set is \<and> reports rs ws m d \<and> k = int_core (dev d m)))"
  using assms
proof (induction "is" arbitrary: m)
  case Nil
  then show ?case by simp
next
  case (Cons i "is")
  let ?m = "serve_terminal rs ws i m"
  have i: "i \<notin> set is" "distinct is" using Cons.prems by auto
  have o: "dev d ?m = dev d m" "reports rs ws ?m d = reports rs ws m d" if "dev_no d \<in> set is" for d
    using that i by (auto simp: serve_terminal_effect reports_def)
  have ex: "(\<exists>d. dev_no d \<in> set is \<and> reports rs ws ?m d \<and> P (int_core (dev d ?m)) d) \<longleftrightarrow>
      (\<exists>d. dev_no d \<in> set is \<and> reports rs ws m d \<and> P (int_core (dev d m)) d)" for P
    using o by metis
  note IH = Cons.IH [OF i(2), of ?m]
  have "dev e (fold (serve_terminal rs ws) (i # is) m) =
     (if dev_no e \<in> set (i # is) \<and> reports rs ws m e
      then (dev e m)\<lparr>ready := True, last_int := system_clock (kern m)\<rparr> else dev e m)"
    using IH o [of e] i by (auto simp: serve_terminal_effect)
  moreover have "intpending (cores (kern (fold (serve_terminal rs ws) (i # is) m)) k) x \<longleftrightarrow> intpending (cores (kern m) k) x \<or>
     (\<exists>d. dev_no d \<in> set (i # is) \<and> reports rs ws m d \<and> k = int_core (dev d m) \<and> x = dev_int d)"
    using IH ex [of "\<lambda>c d. k = c \<and> x = dev_int d"] by (auto simp: serve_terminal_effect(4))
  moreover have "halted (cores (kern (fold (serve_terminal rs ws) (i # is) m)) k) \<longleftrightarrow> halted (cores (kern m) k) \<and>
     \<not> (\<exists>d. dev_no d \<in> set (i # is) \<and> reports rs ws m d \<and> k = int_core (dev d m))"
    using IH ex [of "\<lambda>c d. k = c"] by (auto simp: serve_terminal_effect(5))
  moreover have "system_clock (kern (fold (serve_terminal rs ws) (i # is) m)) = system_clock (kern m)"
    using IH by (simp add: serve_terminal_effect(3))
  ultimately show ?case by blast
qed

section \<open>The request\<close>

lemma request_fold:
  "fold (request_terminal p m) is (rs, ws, n) = (rs1, ws1, n1) \<Longrightarrow>
   rs1 = rs \<union> {fd (kbd (TERM_table m i)) | i. i \<in> set is \<and> \<not> hangup p i \<and> \<not> ready (kbd (TERM_table m i))} \<and>
   ws1 = ws \<union> {fd (con (TERM_table m i)) | i. i \<in> set is \<and> \<not> hangup p i \<and> \<not> ready (con (TERM_table m i))} \<and>
   ((\<forall>f \<in> rs \<union> ws. f < n) \<longrightarrow> (\<forall>f \<in> rs1 \<union> ws1. f < n1))"
proof (induction "is" arbitrary: rs ws n)
  case Nil
  then show ?case by simp
next
  case (Cons i "is")
  obtain rs2 ws2 n2 where r: "request_terminal p m i (rs, ws, n) = (rs2, ws2, n2)" by (metis prod_cases3)
  then have f: "fold (request_terminal p m) is (rs2, ws2, n2) = (rs1, ws1, n1)" using Cons.prems by simp
  note d = r [symmetric, simplified, unfolded fdset_add_def check_terminal_def Let_def prod.case_eq_if]
  have "rs2 = rs \<union> (if \<not> hangup p i \<and> \<not> ready (kbd (TERM_table m i)) then {fd (kbd (TERM_table m i))} else {})"
    "ws2 = ws \<union> (if \<not> hangup p i \<and> \<not> ready (con (TERM_table m i)) then {fd (con (TERM_table m i))} else {})"
    "n \<le> n2" "\<forall>f \<in> rs2 \<union> ws2. f < n2 \<or> f \<in> rs \<union> ws"
    using d by (auto split: if_splits)
  note c = this
  have "(\<forall>f \<in> rs \<union> ws. f < n) \<longrightarrow> (\<forall>f \<in> rs2 \<union> ws2. f < n2)"
    using c(3,4) by (meson less_le_trans)
  with Cons.IH [OF f] have "(\<forall>f \<in> rs \<union> ws. f < n) \<longrightarrow> (\<forall>f \<in> rs1 \<union> ws1. f < n1)" by blast
  moreover have "rs1 = rs \<union> {fd (kbd (TERM_table m j)) | j. j \<in> set (i # is) \<and> \<not> hangup p j \<and> \<not> ready (kbd (TERM_table m j))}"
    using conjunct1 [OF Cons.IH [OF f]] c(1) by auto
  moreover have "ws1 = ws \<union> {fd (con (TERM_table m j)) | j. j \<in> set (i # is) \<and> \<not> hangup p j \<and> \<not> ready (con (TERM_table m j))}"
    using conjunct1 [OF conjunct2 [OF Cons.IH [OF f]]] c(2) by auto
  ultimately show ?case by blast
qed

lemma pic_request_sets:
  assumes "pic_request p m = (rs, ws, n)"
  shows "rs = {fd (kbd (TERM_table m i)) | i. i < unat (nterm (kern m)) \<and> \<not> hangup p i \<and> \<not> ready (kbd (TERM_table m i))}"
    and "ws = {fd (con (TERM_table m i)) | i. i < unat (nterm (kern m)) \<and> \<not> hangup p i \<and> \<not> ready (con (TERM_table m i))}"
    and "f \<in> rs \<union> ws \<Longrightarrow> f < n"
  using request_fold [OF assms [unfolded pic_request_def]] by auto

section \<open>One turn\<close>

lemma raise_alarms:
  "dev d (fold (\<lambda>c. raise_on c ALARM) cs m) = dev d m \<and>
   nterm (kern (fold (\<lambda>c. raise_on c ALARM) cs m)) = nterm (kern m) \<and>
   system_clock (kern (fold (\<lambda>c. raise_on c ALARM) cs m)) = system_clock (kern m) \<and>
   (intpending (cores (kern (fold (\<lambda>c. raise_on c ALARM) cs m)) k) x \<longleftrightarrow>
      intpending (cores (kern m) k) x \<or> x = ALARM \<and> k \<in> set cs) \<and>
   (halted (cores (kern (fold (\<lambda>c. raise_on c ALARM) cs m)) k) \<longleftrightarrow> halted (cores (kern m) k) \<and> k \<notin> set cs)"
  by (induction cs arbitrary: m) auto

text \<open>Device \<open>d\<close> reports in the turn \<open>p\<close>.\<close>

definition turn_reports :: "poll_result \<Rightarrow> machine \<Rightarrow> devref \<Rightarrow> bool" where
  "turn_reports p m d \<longleftrightarrow> dev_no d < unat (nterm (kern m)) \<and>
     (case pic_request p m of (rs, ws, n) \<Rightarrow>
        due (dev_fds {f \<in> rs. can_read p f} {f \<in> ws. can_write p f} d) (time_now p) (dev d m))"

lemma pic_turn_effect:
  assumes "\<not> failed p"
  shows "dev d (pic_turn p m) =
      (if turn_reports p m d then (dev d m)\<lparr>ready := True, last_int := time_now p\<rparr> else dev d m)"
    and "system_clock (kern (pic_turn p m)) = time_now p"
    and "intpending (cores (kern (pic_turn p m)) k) x \<longleftrightarrow> intpending (cores (kern m) k) x \<or>
      x = ALARM \<and> k \<in> set (expired p) \<or>
      (\<exists>d. turn_reports p m d \<and> k = int_core (dev d m) \<and> x = dev_int d)"
    and "halted (cores (kern (pic_turn p m)) k) \<longleftrightarrow> halted (cores (kern m) k) \<and> k \<notin> set (expired p) \<and>
      \<not> (\<exists>d. turn_reports p m d \<and> k = int_core (dev d m))"
proof -
  obtain rs ws n where r: "pic_request p m = (rs, ws, n)" by (metis prod_cases3)
  define m2 where "m2 = (m\<lparr>kern := (kern m)\<lparr>system_clock := time_now p\<rparr>\<rparr>)\<lparr>PIC_loops := PIC_loops m + 1\<rparr>"
  define m4 where "m4 = pic_drain_sigusr1 (fold (\<lambda>c. raise_on c ALARM) (expired p) m2)"
  have t: "pic_turn p m = fold (serve_terminal {f \<in> rs. can_read p f} {f \<in> ws. can_write p f}) [0..<unat (nterm (kern m4))] m4"
    using assms by (simp add: pic_turn_def r Let_def m4_def m2_def)
  have dr: "dev e (pic_drain_sigusr1 u) = dev e u" "kern (pic_drain_sigusr1 u) = kern u" for e u
    by (cases e; simp add: pic_drain_sigusr1_def)+
  have m2: "dev e m2 = dev e m" for e by (cases e) (simp_all add: m2_def)
  have "dev e m4 = dev e m \<and> nterm (kern m4) = nterm (kern m) \<and> system_clock (kern m4) = time_now p \<and>
      (intpending (cores (kern m4) c) y \<longleftrightarrow> intpending (cores (kern m) c) y \<or> y = ALARM \<and> c \<in> set (expired p)) \<and>
      (halted (cores (kern m4) c) \<longleftrightarrow> halted (cores (kern m) c) \<and> c \<notin> set (expired p))" for e c y
    using raise_alarms [of e "expired p" m2 c y] by (simp add: m4_def dr m2) (simp add: m2_def)
  then have m4: "dev e m4 = dev e m" "nterm (kern m4) = nterm (kern m)" "system_clock (kern m4) = time_now p"
      "intpending (cores (kern m4) c) y \<longleftrightarrow> intpending (cores (kern m) c) y \<or> y = ALARM \<and> c \<in> set (expired p)"
      "halted (cores (kern m4) c) \<longleftrightarrow> halted (cores (kern m) c) \<and> c \<notin> set (expired p)" for e c y
    by blast+
  have rp: "dev_no e \<in> set [0..<unat (nterm (kern m4))] \<and>
      reports {f \<in> rs. can_read p f} {f \<in> ws. can_write p f} m4 e \<longleftrightarrow> turn_reports p m e" for e
    by (simp add: reports_def turn_reports_def r m4 conj_commute)
  note e = serve_terminals_effect [of "[0..<unat (nterm (kern m4))]" d "{f \<in> rs. can_read p f}" "{f \<in> ws. can_write p f}" m4 k x,
      OF distinct_upt, folded t]
  show "dev d (pic_turn p m) =
      (if turn_reports p m d then (dev d m)\<lparr>ready := True, last_int := time_now p\<rparr> else dev d m)"
    using e rp [of d] by (simp add: m4)
  show "system_clock (kern (pic_turn p m)) = time_now p" using e by (simp add: m4)
  have ex: "(\<exists>d. dev_no d \<in> set [0..<unat (nterm (kern m4))] \<and>
      reports {f \<in> rs. can_read p f} {f \<in> ws. can_write p f} m4 d \<and> Q (dev d m4) d) \<longleftrightarrow>
      (\<exists>d. turn_reports p m d \<and> Q (dev d m) d)" for Q
    using rp m4(1) by metis
  show "intpending (cores (kern (pic_turn p m)) k) x \<longleftrightarrow> intpending (cores (kern m) k) x \<or>
      x = ALARM \<and> k \<in> set (expired p) \<or>
      (\<exists>d. turn_reports p m d \<and> k = int_core (dev d m) \<and> x = dev_int d)"
    using e ex [of "\<lambda>v d. k = int_core v \<and> x = dev_int d"] by (simp add: m4(4))
  show "halted (cores (kern (pic_turn p m)) k) \<longleftrightarrow> halted (cores (kern m) k) \<and> k \<notin> set (expired p) \<and>
      \<not> (\<exists>d. turn_reports p m d \<and> k = int_core (dev d m))"
    using conjunct2 [OF conjunct2 [OF conjunct2 [OF e]]] ex [of "\<lambda>v d. k = int_core v"] unfolding m4(5) by blast
qed

text \<open>
  One turn of the interrupt controller in which \<open>select\<close> does not fail raises exactly the
  interrupts that are due: \<open>ALARM\<close> to the cores whose timer expired, and \<open>SERIAL_RX_READY\<close> and
  \<open>SERIAL_TX_READY\<close> to the core assigned to each device that was waited for and is ready, or that
  was silent for more than \<open>SERIAL_TIMEOUT\<close>.  Such a device is ready afterwards and its core is not
  halted, and no device's last interrupt is older than the timeout.
\<close>

theorem pic_turn_raises_what_is_due:
  assumes "\<not> failed p"
  shows "(\<forall>c x. intpending (cores (kern (pic_turn p m)) c) x \<longleftrightarrow> intpending (cores (kern m) c) x \<or>
      x = ALARM \<and> c \<in> set (expired p) \<or>
      (\<exists>d. turn_reports p m d \<and> c = int_core (dev d m) \<and> x = dev_int d)) \<and>
    (\<forall>d. turn_reports p m d \<longrightarrow> ready (dev d (pic_turn p m)) \<and>
      \<not> halted (cores (kern (pic_turn p m)) (int_core (dev d m)))) \<and>
    (\<forall>d. dev_no d < unat (nterm (kern m)) \<longrightarrow>
      system_clock (kern (pic_turn p m)) - last_int (dev d (pic_turn p m)) \<le> SERIAL_TIMEOUT)"
proof -
  note e = pic_turn_effect [OF assms, where m = m]
  have "system_clock (kern (pic_turn p m)) - last_int (dev d (pic_turn p m)) \<le> SERIAL_TIMEOUT"
    if n: "dev_no d < unat (nterm (kern m))" for d
  proof (cases "turn_reports p m d")
    case True
    then show ?thesis by (simp add: e(1,2))
  next
    case False
    then have "\<not> time_now p - last_int (dev d m) > SERIAL_TIMEOUT"
      using n by (auto simp: turn_reports_def due_def split: prod.splits)
    then show ?thesis using False by (simp add: e(1,2))
  qed
  then show ?thesis using e(3,4) by (auto simp: e(1))
qed

text \<open>A machine with one terminal, its keyboard not ready and its interrupts assigned to core 1.\<close>

definition one_terminal :: machine where
  "one_terminal = \<lparr>kern = (static_kernel \<lparr>prv = id, nxt = id, obj = (\<lambda>_. ONull)\<rparr>)\<lparr>nterm := 1, ncores := 2\<rparr>,
     TERM_table = (\<lambda>_. \<lparr>con = \<lparr>fd = 5, iodir = IODIR_TX, int_core = 0, ready = True, last_int = 0\<rparr>,
                   kbd = \<lparr>fd = 6, iodir = IODIR_RX, int_core = 1, ready = True, last_int = 0\<rparr>\<rparr>),
     PIC_active = True, usr1 = False, PIC_loops = 0, PIC_usr1_drained = 0, PIC_usr1_queued = 0\<rparr>"

definition quiet_turn :: poll_result where
  "quiet_turn = \<lparr>hangup = (\<lambda>_. False), failed = False, can_read = (\<lambda>f. f = 6), can_write = (\<lambda>_. False),
     time_now = 100, expired = [1]\<rparr>"

theorem pic_turn_raises_what_is_due_witness:
  "intpending (cores (kern (pic_turn quiet_turn one_terminal)) 1) ALARM"
proof -
  have "\<not> failed quiet_turn" by (simp add: quiet_turn_def)
  from pic_turn_raises_what_is_due [OF this, of one_terminal] show ?thesis by (simp add: quiet_turn_def)
qed

section \<open>A failed transfer\<close>

lemma device_failed_dev:
  "dev d (device_failed d m) = (dev d m)\<lparr>ready := False\<rparr>"
  "kern (device_failed d m) = kern m"
  by (cases d; simp add: device_failed_def interrupt_pic_thread_def)+

lemma turn_serves:
  assumes "\<not> failed p" and "\<not> hangup p (dev_no d)" and "dev_no d < unat (nterm (kern m))" and "\<not> ready (dev d m)"
    and "case d of Con i \<Rightarrow> can_write p (fd (dev d m)) | Kbd i \<Rightarrow> can_read p (fd (dev d m))"
  shows "intpending (cores (kern (pic_turn p m)) (int_core (dev d m))) (dev_int d) \<and>
    \<not> halted (cores (kern (pic_turn p m)) (int_core (dev d m))) \<and> ready (dev d (pic_turn p m))"
proof -
  obtain rs ws n where r: "pic_request p m = (rs, ws, n)" by (metis prod_cases3)
  have "fd (dev d m) \<in> dev_fds {f \<in> rs. can_read p f} {f \<in> ws. can_write p f} d"
    using pic_request_sets [OF r] assms(2-5) by (cases d) auto
  then have "turn_reports p m d" using assms(3) by (simp add: turn_reports_def r due_def)
  then show ?thesis using pic_turn_effect [OF assms(1), where m = m] by auto
qed

text \<open>
  C37: A transfer that moves no byte is answered by an interrupt: when \<open>bios_read_serial\<close> or
  \<open>bios_write_serial\<close> returns 0 on a terminal that is connected, the next turn of the interrupt
  controller in which the host finds the device ready raises \<open>SERIAL_RX_READY\<close> or
  \<open>SERIAL_TX_READY\<close> to the core that the device's interrupts are assigned to, wakes that core if
  it is halted and marks the device ready.
\<close>

theorem failed_transfer_is_answered:
  assumes "i < unat (nterm (kern m))" and "\<not> hangup p i" and "\<not> failed p"
  shows "(\<forall>answers m1. bios_read_serial i answers m = Inr (None, m1) \<longrightarrow> can_read p (fd (dev (Kbd i) m)) \<longrightarrow>
      intpending (cores (kern (pic_turn p m1)) (int_core (dev (Kbd i) m))) SERIAL_RX_READY \<and>
      \<not> halted (cores (kern (pic_turn p m1)) (int_core (dev (Kbd i) m))) \<and> ready (dev (Kbd i) (pic_turn p m1))) \<and>
    (\<forall>answers m1. bios_write_serial i answers m = Inr (False, m1) \<longrightarrow> can_write p (fd (dev (Con i) m)) \<longrightarrow>
      intpending (cores (kern (pic_turn p m1)) (int_core (dev (Con i) m))) SERIAL_TX_READY \<and>
      \<not> halted (cores (kern (pic_turn p m1)) (int_core (dev (Con i) m))) \<and> ready (dev (Con i) (pic_turn p m1)))"
proof -
  note t = turn_serves [OF assms(3), where d = "Kbd i" and m = "device_failed (Kbd i) m", unfolded device_failed_dev]
    and u = turn_serves [OF assms(3), where d = "Con i" and m = "device_failed (Con i) m", unfolded device_failed_dev]
  show ?thesis
  proof (intro conjI allI impI)
    fix answers m1
    assume "bios_read_serial i answers m = Inr (None, m1)" and c: "can_read p (fd (dev (Kbd i) m))"
    then have m1: "m1 = device_failed (Kbd i) m"
      by (auto simp: bios_read_serial_def io_device_read_def split: if_splits option.splits host_answer.splits)
    have "intpending (cores (kern (pic_turn p m1)) (int_core (dev (Kbd i) m))) SERIAL_RX_READY \<and>
      \<not> halted (cores (kern (pic_turn p m1)) (int_core (dev (Kbd i) m))) \<and> ready (dev (Kbd i) (pic_turn p m1))"
      using t c assms(1,2) unfolding m1 by (simp del: dev.simps)
    then show "intpending (cores (kern (pic_turn p m1)) (int_core (dev (Kbd i) m))) SERIAL_RX_READY"
      "\<not> halted (cores (kern (pic_turn p m1)) (int_core (dev (Kbd i) m)))" "ready (dev (Kbd i) (pic_turn p m1))"
      by blast+
  next
    fix answers m1
    assume "bios_write_serial i answers m = Inr (False, m1)" and c: "can_write p (fd (dev (Con i) m))"
    then have m1: "m1 = device_failed (Con i) m"
      by (auto simp: bios_write_serial_def io_device_write_def split: if_splits option.splits host_answer.splits)
    have "intpending (cores (kern (pic_turn p m1)) (int_core (dev (Con i) m))) SERIAL_TX_READY \<and>
      \<not> halted (cores (kern (pic_turn p m1)) (int_core (dev (Con i) m))) \<and> ready (dev (Con i) (pic_turn p m1))"
      using u c assms(1,2) unfolding m1 by (simp del: dev.simps)
    then show "intpending (cores (kern (pic_turn p m1)) (int_core (dev (Con i) m))) SERIAL_TX_READY"
      "\<not> halted (cores (kern (pic_turn p m1)) (int_core (dev (Con i) m)))" "ready (dev (Con i) (pic_turn p m1))"
      by blast+
  qed
qed

theorem failed_transfer_is_answered_witness:
  "\<exists>m1. bios_read_serial 0 [Err EINTR, Err EAGAIN] one_terminal = Inr (None, m1) \<and>
     intpending (cores (kern (pic_turn quiet_turn m1)) 1) SERIAL_RX_READY"
proof -
  have b: "bios_read_serial 0 [Err EINTR, Err EAGAIN] one_terminal = Inr (None, device_failed (Kbd 0) one_terminal)"
    by (simp add: bios_read_serial_def io_device_read_def one_terminal_def)
  have h: "0 < unat (nterm (kern one_terminal))" "\<not> hangup quiet_turn 0" "\<not> failed quiet_turn"
    "can_read quiet_turn (fd (dev (Kbd 0) one_terminal))" "int_core (dev (Kbd 0) one_terminal) = 1"
    by (simp_all add: one_terminal_def quiet_turn_def)
  from failed_transfer_is_answered [OF h(1-3)] b h(4,5) show ?thesis by metis
qed

section \<open>The directions of the devices\<close>

text \<open>
  The console of a terminal is only written and its keyboard only read.  Opening the terminals
  makes it so, and a turn of the controller and the transfers keep it; the assertions of
  \<open>io_device_read\<close> and \<open>io_device_write\<close> about the direction hold, and a transfer aborts only
  on an answer of the host that they exclude.
\<close>

fun dev_dir :: "devref \<Rightarrow> io_direction" where
  "dev_dir (Con i) = IODIR_TX"
| "dev_dir (Kbd i) = IODIR_RX"

definition wired :: "nat \<Rightarrow> machine \<Rightarrow> bool" where
  "wired n m \<longleftrightarrow> (\<forall>d. dev_no d < n \<longrightarrow> iodir (dev d m) = dev_dir d)"

lemma wiredI: "(\<And>d. dev_no d < n \<Longrightarrow> iodir (dev d m) = dev_dir d) \<Longrightarrow> wired n m"
  and wiredD: "wired n m \<Longrightarrow> dev_no d < n \<Longrightarrow> iodir (dev d m) = dev_dir d"
  by (simp_all add: wired_def)

lemma open_terminal_wires:
  assumes "open_terminal i c k m = Inr m1"
  shows "iodir (dev d m1) = (if dev_no d = i then dev_dir d else iodir (dev d m))" and "kern m1 = kern m"
  using assms
  by (cases d; auto simp: open_terminal_def terminal_init_def io_device_init_def Let_def split: if_splits)+

lemma open_terminals_wire:
  "open_terminals is host m = Inr m1 \<Longrightarrow>
   iodir (dev d m1) = (if dev_no d \<in> set is then dev_dir d else iodir (dev d m)) \<and> kern m1 = kern m"
proof (induction "is" arbitrary: m)
  case Nil
  then show ?case by simp
next
  case (Cons i "is")
  from Cons.prems obtain m2 where m2: "open_terminal i (fst (host i)) (snd (host i)) m = Inr m2" "open_terminals is host m2 = Inr m1"
    by (auto simp: rbind_eq_Inr)
  show ?case using Cons.IH [OF m2(2)] open_terminal_wires [OF m2(1)] by auto
qed

lemma pic_turn_wired:
  assumes "wired n m" shows "wired n (pic_turn p m)"
proof (cases "failed p")
  case True
  then have "TERM_table (pic_turn p m) = TERM_table m" by (simp add: pic_turn_def Let_def split: prod.splits)
  then have "dev d (pic_turn p m) = dev d m" for d by (cases d) simp_all
  then show ?thesis using assms by (simp add: wired_def)
next
  case False
  then show ?thesis using assms by (simp add: wired_def pic_turn_effect(1))
qed

lemma pic_loop_wired:
  assumes "pic_loop run m = Some m1" and "\<And>p act u. (p, act) \<in> set run \<Longrightarrow> wired n u \<Longrightarrow> wired n (act u)" and "wired n m"
  shows "wired n m1"
  using assms
proof (induction run arbitrary: m)
  case Nil
  then show ?case by (simp split: if_splits)
next
  case (Cons r run)
  obtain p act where r: "r = (p, act)" by (cases r)
  have w: "wired n (act (pic_turn p m))" using Cons.prems(2) [of p act] pic_turn_wired [OF Cons.prems(3)] r by simp
  show ?case
  proof (cases "PIC_active m")
    case True
    then have "pic_loop run (act (pic_turn p m)) = Some m1" using Cons.prems(1) r by simp
    then show ?thesis by (rule Cons.IH) (use Cons.prems(2) w in auto)
  next
    case False
    then show ?thesis using Cons.prems(1,3) by simp
  qed
qed

lemma device_failed_wired:
  assumes "wired n m" shows "wired n (device_failed e m)"
proof (rule wiredI)
  fix d assume "dev_no d < n"
  moreover have "iodir (dev d (device_failed e m)) = iodir (dev d m)"
    by (cases e; cases d) (auto simp: device_failed_def interrupt_pic_thread_def)
  ultimately show "iodir (dev d (device_failed e m)) = dev_dir d" using wiredD [OF assms] by simp
qed

lemma transfers_wired:
  assumes "wired n m" and "i < n"
  shows "bios_read_serial i answers m = Inl AssertFail \<longleftrightarrow>
      (\<exists>k b. retry answers = Some (Rc k b) \<and> 1 < k) \<or> (\<exists>e. retry answers = Some (Err e) \<and> e \<notin> {EAGAIN, EWOULDBLOCK})"
    and "bios_write_serial i answers m = Inl AssertFail \<longleftrightarrow>
      (\<exists>k b. retry answers = Some (Rc k b) \<and> k \<noteq> 1) \<or> (\<exists>e. retry answers = Some (Err e) \<and> e \<notin> {EAGAIN, EWOULDBLOCK, EPIPE})"
    and "bios_read_serial i answers m = Inr (r, m1) \<Longrightarrow> wired n m1"
    and "bios_write_serial i answers m = Inr (w, m1) \<Longrightarrow> wired n m1"
proof -
  have d: "iodir (dev (Kbd i) m) = IODIR_RX" "iodir (dev (Con i) m) = IODIR_TX"
    using wiredD [OF assms(1), of "Kbd i"] wiredD [OF assms(1), of "Con i"] assms(2) by simp_all
  show "bios_read_serial i answers m = Inl AssertFail \<longleftrightarrow>
      (\<exists>k b. retry answers = Some (Rc k b) \<and> 1 < k) \<or> (\<exists>e. retry answers = Some (Err e) \<and> e \<notin> {EAGAIN, EWOULDBLOCK})"
    using d by (auto simp: bios_read_serial_def io_device_read_def simp del: dev.simps split: option.splits host_answer.splits)
  show "bios_write_serial i answers m = Inl AssertFail \<longleftrightarrow>
      (\<exists>k b. retry answers = Some (Rc k b) \<and> k \<noteq> 1) \<or> (\<exists>e. retry answers = Some (Err e) \<and> e \<notin> {EAGAIN, EWOULDBLOCK, EPIPE})"
    using d by (auto simp: bios_write_serial_def io_device_write_def simp del: dev.simps split: option.splits host_answer.splits)
  show "bios_read_serial i answers m = Inr (r, m1) \<Longrightarrow> wired n m1" "bios_write_serial i answers m = Inr (w, m1) \<Longrightarrow> wired n m1"
    using assms(1) by (auto intro: device_failed_wired simp: bios_read_serial_def bios_write_serial_def io_device_read_def io_device_write_def
        simp del: dev.simps split: option.splits host_answer.splits if_splits)
qed

end
