(* ===== verification/Sched.thy ===== *)
theory Sched
  imports Bios
begin

text \<open>
  The scheduler of src/kernel_sched.c.  Every operation that runs under
  \<open>sched_spinlock\<close> is one function on the kernel state; the lock's acquisition and release
  delimit it.  \<open>yield\<close> is cut where the context switch is: \<open>yield_switch\<close> is the
  part the old thread executes, \<open>gain\<close> the part the thread that owns the core next
  executes when it comes back from its own \<open>cpu_swap_context\<close> (or starts).  Interrupts that
  are pending when preemption is switched on again are delivered as steps of their own, so
  switching preemption on only sets the flags here.
\<close>

section \<open>Preemption flags\<close>

definition preempt_off :: "nat \<Rightarrow> kernel \<Rightarrow> bool \<times> kernel" where
  "preempt_off c s =
     (let s1 = cpu_disable_interrupts c s
      in (preemption (cctx s1 c), set_ccb c ((cctx s1 c)\<lparr>preemption := False\<rparr>) s1))"

definition preempt_on :: "nat \<Rightarrow> kernel \<Rightarrow> kernel" where
  "preempt_on c s =
     (let s1 = set_ccb c ((cctx s c)\<lparr>preemption := True\<rparr>) s
      in set_core c ((cores s1 c)\<lparr>int_disabled := False\<rparr>) s1)"

section \<open>Creating and releasing threads\<close>

text \<open>
  \<open>a\<close> is the address \<open>aligned_alloc\<close> returns.  The field \<open>ptcb\<close> is not set by
  \<open>spawn_thread\<close>; it is the null pointer until the caller stores it.  A new thread
  starts in \<open>thread_start\<close>, which calls \<open>gain(1)\<close>.
\<close>

definition new_tcb :: "pref \<Rightarrow> thread_func \<Rightarrow> tcb" where
  "new_tcb pcb func =
     \<lparr>owner_pcb = pcb, tptcb = None, priority = 0, ttype = NORMAL_THREAD, tstate = INIT,
      tphase = CTX_CLEAN, tfunc = func, wakeup_time = NO_TIMEOUT, its = QUANTUM, rts = QUANTUM,
      curr_cause = SCHED_IDLE, last_cause = SCHED_IDLE\<rparr>"

definition spawn_thread :: "nat \<Rightarrow> pref \<Rightarrow> thread_func \<Rightarrow> kernel \<Rightarrow> tref \<times> kernel" where
  "spawn_thread a pcb func s =
     (let t = HeapT a;
          s1 = set_tcb t (new_tcb pcb func) s;
          s2 = s1\<lparr>rl := rlnode_init (SchedNode t) (OTcb t) (rl s1),
                  saved_preempt := (saved_preempt s1)(t := True)\<rparr>
      in (t, s2\<lparr>active_threads := active_threads s2 + 1\<rparr>))"

definition release_TCB :: "tref \<Rightarrow> kernel \<Rightarrow> kernel" where
  "release_TCB t s =
     s\<lparr>tcbs := (tcbs s)(t := None), active_threads := active_threads s - 1\<rparr>"

section \<open>The queues\<close>

text \<open>The node before which a thread that wakes up at \<open>wt\<close> is inserted.\<close>

partial_function (option) timeout_pos :: "kernel \<Rightarrow> usec \<Rightarrow> node \<Rightarrow> node result option" where
  "timeout_pos s wt n =
     (if n \<noteq> TimeoutList
      then (case obj (rl s) n of
              OTcb u \<Rightarrow> (case tcbs s u of
                   None \<Rightarrow> Some (Inl DanglingPtr)
                 | Some y \<Rightarrow> if wt < wakeup_time y then Some (Inr n)
                             else timeout_pos s wt (nxt (rl s) n))
            | _ \<Rightarrow> Some (Inl NullDeref))
      else Some (Inr n))"

text \<open>A loop that does not end is the fault \<open>Diverges\<close>.\<close>

definition of_loop :: "'a result option \<Rightarrow> 'a result" where
  "of_loop r = (case r of None \<Rightarrow> Inl Diverges | Some x \<Rightarrow> x)"

definition sched_register_timeout :: "tref \<Rightarrow> usec \<Rightarrow> kernel \<Rightarrow> kernel result" where
  "sched_register_timeout t timeout s =
     (if timeout \<noteq> NO_TIMEOUT
      then (let curtime = bios_clock s; wt = curtime + timeout
            in rbind (get_tcb t s) (\<lambda>x.
               let s1 = set_tcb t (x\<lparr>wakeup_time := wt\<rparr>) s
               in rbind (of_loop (timeout_pos s1 wt (nxt (rl s1) TimeoutList))) (\<lambda>n.
                  Inr (s1\<lparr>rl := rl_splice (prv (rl s1) n) (SchedNode t) (rl s1)\<rparr>))))
      else Inr s)"

definition sched_queue_add :: "tref \<Rightarrow> kernel \<Rightarrow> kernel result" where
  "sched_queue_add t s =
     rbind (get_tcb t s) (\<lambda>x.
       cpu_core_restart_one
         (s\<lparr>rl := rlist_push_back (SchedQ (priority x)) (SchedNode t) (rl s)\<rparr>))"

definition sched_make_ready :: "tref \<Rightarrow> kernel \<Rightarrow> kernel result" where
  "sched_make_ready t s =
     rbind (get_tcb t s) (\<lambda>x.
     if \<not> (tstate x = STOPPED \<or> tstate x = INIT) then Inl AssertFail
     else rbind
       (if wakeup_time x \<noteq> NO_TIMEOUT
        then (if nxt (rl s) (SchedNode t) \<noteq> SchedNode t \<and> tstate x = STOPPED
              then Inr (set_tcb t (x\<lparr>wakeup_time := NO_TIMEOUT\<rparr>)
                         (s\<lparr>rl := rlist_remove (SchedNode t) (rl s)\<rparr>))
              else Inl AssertFail)
        else Inr s) (\<lambda>s1.
     rbind (get_tcb t s1) (\<lambda>x1.
     let s2 = set_tcb t (x1\<lparr>tstate := READY\<rparr>) s1
     in if tphase x1 = CTX_CLEAN then sched_queue_add t s2 else Inr s2)))"

partial_function (option) wakeup_expired_loop :: "usec \<Rightarrow> kernel \<Rightarrow> kernel result option" where
  "wakeup_expired_loop curtime s =
     (if \<not> is_rlist_empty TimeoutList (rl s)
      then (case obj (rl s) (nxt (rl s) TimeoutList) of
              OTcb t \<Rightarrow> (case tcbs s t of
                   None \<Rightarrow> Some (Inl DanglingPtr)
                 | Some x \<Rightarrow>
                     if wakeup_time x > curtime then Some (Inr s)
                     else (case sched_make_ready t s of
                             Inl e \<Rightarrow> Some (Inl e)
                           | Inr s1 \<Rightarrow> wakeup_expired_loop curtime s1))
            | _ \<Rightarrow> Some (Inl NullDeref))
      else Some (Inr s))"

definition sched_wakeup_expired_timeouts :: "kernel \<Rightarrow> kernel result" where
  "sched_wakeup_expired_timeouts s = of_loop (wakeup_expired_loop (bios_clock s) s)"

text \<open>
  The loop of \<open>sched_queue_select\<close> over the levels: the node it leaves in \<open>sel\<close>.
\<close>

fun select_level :: "int list \<Rightarrow> kernel \<Rightarrow> node \<times> kernel" where
  "select_level [] s = (SchedQ 0, s)"
| "select_level (i # is) s =
     (if sint (scheduled s) \<le> SCHED_MAX_SCHEDULED
      then (if \<not> is_rlist_empty (SchedQ i) (rl s)
            then (let (n, h) = rlist_pop_front (SchedQ i) (rl s) in (n, s\<lparr>rl := h\<rparr>))
            else select_level is s)
      else (if \<not> is_rlist_empty (SchedQ (i mod 4)) (rl s)
            then (let (n, h) = rlist_pop_front (SchedQ (i mod 4)) (rl s)
                  in (n, s\<lparr>rl := h, scheduled := 0\<rparr>))
            else select_level is s))"

definition sched_queue_select :: "nat \<Rightarrow> tref \<Rightarrow> kernel \<Rightarrow> (tref \<times> kernel) result" where
  "sched_queue_select c current s =
     (let (sel, s1) = select_level [0..SCHED_MAX_LEVEL - 1] s
      in rbind (case obj (rl s1) sel of
                  OTcb t \<Rightarrow> Inr t
                | _ \<Rightarrow> rbind (get_tcb current s1) (\<lambda>x.
                        Inr (if tstate x = READY then current else IdleT c))) (\<lambda>next_thread.
         rbind (get_tcb next_thread s1) (\<lambda>y.
         Inr (next_thread, set_tcb next_thread (y\<lparr>its := QUANTUM\<rparr>) s1))))"

section \<open>Waking up and sleeping\<close>

definition wakeup :: "nat \<Rightarrow> tref \<Rightarrow> kernel \<Rightarrow> (bool \<times> kernel) result" where
  "wakeup c t s =
     (let (oldpre, s1) = preempt_off c s
      in rbind (get_tcb t s1) (\<lambda>x.
         rbind (if tstate x = STOPPED \<or> tstate x = INIT
                then rbind (sched_make_ready t s1) (\<lambda>s2. Inr (True, s2))
                else Inr (False, s1)) (\<lambda>(ret, s2).
         Inr (ret, if oldpre then preempt_on c s2 else s2))))"

text \<open>
  \<open>sleep_releasing\<close> up to its call of \<open>yield\<close>; the mutex it releases guards the data
  of the caller's step.  The call of \<open>yield\<close> is the thread's next step, and the preemption
  status it restores at the end is the caller's: it is the first component of the result.
\<close>

definition sleep_mark ::
  "nat \<Rightarrow> Thread_state \<Rightarrow> usec \<Rightarrow> kernel \<Rightarrow> (bool \<times> kernel) result" where
  "sleep_mark c st timeout s =
     (if \<not> (st = STOPPED \<or> st = EXITED) then Inl AssertFail
      else (let t = CURTHREAD c s; (preempt, s1) = preempt_off c s
            in rbind (get_tcb t s1) (\<lambda>x.
               let s2 = set_tcb t (x\<lparr>tstate := st\<rparr>) s1
               in rbind (if st \<noteq> EXITED then sched_register_timeout t timeout s2 else Inr s2)
                    (\<lambda>s3. Inr (preempt, s3)))))"

section \<open>Giving up and gaining the core\<close>

text \<open>The three tests of \<open>yield\<close> that move a thread between the priority levels.\<close>

definition yield_priority :: "SCHED_CAUSE \<Rightarrow> int \<Rightarrow> int" where
  "yield_priority cause p0 =
     (let p1 = (if cause = SCHED_QUANTUM \<and> p0 < SCHED_MAX_LEVEL - 1 then p0 + 1 else p0);
          p2 = (if cause = SCHED_IO \<and> p1 > 0 then p1 - 1 else p1)
      in if cause = SCHED_MUTEX \<and> p2 < SCHED_MAX_LEVEL - 1 then p2 + 1 else p2)"

definition yield_switch :: "nat \<Rightarrow> SCHED_CAUSE \<Rightarrow> kernel \<Rightarrow> kernel result" where
  "yield_switch c cause s =
     (let (remaining, s1) = bios_cancel_timer c s;
          (preempt, s2) = preempt_off c s1;
          current = CURTHREAD c s2
      in rbind (get_tcb current s2) (\<lambda>x.
         let x1 = (if tstate x = RUNNING then x\<lparr>tstate := READY\<rparr> else x);
             x2 = x1\<lparr>rts := remaining, last_cause := curr_cause x1, curr_cause := cause\<rparr>;
             x3 = x2\<lparr>priority := yield_priority cause (priority x2)\<rparr>
         in rbind (sched_wakeup_expired_timeouts (set_tcb current x3 s2)) (\<lambda>s3.
            rbind (sched_queue_select c current s3) (\<lambda>(next_thread, s4).
            let s5 = s4\<lparr>scheduled := scheduled s4 + 1\<rparr>;
                s6 = set_ccb c ((cctx s5 c)\<lparr>previous_thread := current\<rparr>) s5;
                s7 = (if current \<noteq> next_thread
                      then set_ccb c ((cctx s6 c)\<lparr>current_thread := next_thread\<rparr>) s6 else s6)
            in Inr (s7\<lparr>saved_preempt := (saved_preempt s7)(current := preempt)\<rparr>)))))"

definition gain :: "nat \<Rightarrow> bool \<Rightarrow> kernel \<Rightarrow> kernel result" where
  "gain c preempt s =
     (let current = CURTHREAD c s
      in rbind (get_tcb current s) (\<lambda>x.
         let s1 = set_tcb current (x\<lparr>tstate := RUNNING, tphase := CTX_DIRTY, rts := its x\<rparr>) s;
             prev = previous_thread (cctx s1 c)
         in rbind
              (if current \<noteq> prev
               then rbind (get_tcb prev s1) (\<lambda>y.
                    let s2 = set_tcb prev (y\<lparr>tphase := CTX_CLEAN\<rparr>) s1
                    in if tstate y = READY
                       then (if ttype y \<noteq> IDLE_THREAD then sched_queue_add prev s2 else Inr s2)
                       else if tstate y = EXITED then Inr (release_TCB prev s2)
                       else if tstate y = STOPPED then Inr s2
                       else Inl AssertFail)
               else Inr s1) (\<lambda>s3.
            let s4 = (if preempt then preempt_on c s3 else s3)
            in rbind (get_tcb current s4) (\<lambda>z.
               Inr (snd (bios_set_timer c (rts z) s4))))))"

section \<open>Starting the scheduler\<close>

text \<open>
  The loop of \<open>initialize_scheduler\<close> runs to \<open>i <= SCHED_MAX_LEVEL\<close>, but
  \<open>SCHED\<close> has \<open>SCHED_MAX_LEVEL\<close> elements: its last iteration stores out of bounds.
\<close>

fun init_levels :: "int list \<Rightarrow> kernel \<Rightarrow> kernel result" where
  "init_levels [] s = Inr s"
| "init_levels (i # is) s =
     (if 0 \<le> i \<and> i < SCHED_MAX_LEVEL
      then init_levels is (s\<lparr>rl := rlnode_init (SchedQ i) ONull (rl s)\<rparr>)
      else Inl BadIndex)"

definition initialize_scheduler :: "kernel \<Rightarrow> kernel result" where
  "initialize_scheduler s =
     rbind (init_levels [0..SCHED_MAX_LEVEL] s) (\<lambda>s1.
       Inr (s1\<lparr>rl := rlnode_init TimeoutList ONull (rl s1)\<rparr>))"

text \<open>What \<open>run_scheduler\<close> does on a core before it enters the idle thread.\<close>

definition run_scheduler_init :: "nat \<Rightarrow> kernel \<Rightarrow> kernel" where
  "run_scheduler_init c s =
     (let t = IdleT c;
          s1 = set_ccb c ((cctx s c)\<lparr>current_thread := t\<rparr>) s;
          x = \<lparr>owner_pcb = 0, tptcb = None, priority = 0, ttype = IDLE_THREAD, tstate = RUNNING,
               tphase = CTX_DIRTY, tfunc = start_thread_func, wakeup_time = NO_TIMEOUT,
               its = QUANTUM, rts = QUANTUM, curr_cause = SCHED_IDLE, last_cause = SCHED_IDLE\<rparr>;
          s2 = (set_tcb t x s1)\<lparr>rl := rlnode_init (SchedNode t) (OTcb t) (rl s1)\<rparr>;
          s3 = cpu_interrupt_handler c ALARM (Some yield_handler) s2;
          s4 = cpu_interrupt_handler c ICI (Some ici_handler) s3
      in preempt_on c s4)"

end
