(* ===== verification/Sched_Lists.thy ===== *)
theory Sched_Lists
  imports Sched
begin

text \<open>
  The scheduler's lists as sequences.  \<open>sched_abs s L hs\<close> says that the rings of the heap
  hold the threads \<open>L l\<close> at every sentinel \<open>l\<close> of the scheduler (the three queues and
  the timeout list) and the halted cores \<open>hs\<close>.  Each operation of the scheduler is shown to
  do to \<open>L\<close> and to the TCBs what its specification on sequences does, and to leave every
  other list of the kernel alone.
\<close>

section \<open>The abstraction\<close>

definition sched_sentinels :: "node set" where
  "sched_sentinels = {SchedQ 0, SchedQ 1, SchedQ 2, TimeoutList}"

definition queued :: "(node \<Rightarrow> tref list) \<Rightarrow> tref \<Rightarrow> bool" where
  "queued L t \<longleftrightarrow> (\<exists>l \<in> sched_sentinels. t \<in> set (L l))"

definition sched_abs :: "kernel \<Rightarrow> (node \<Rightarrow> tref list) \<Rightarrow> nat list \<Rightarrow> bool" where
  "sched_abs s L hs \<longleftrightarrow>
     (\<forall>l \<in> sched_sentinels. isring (rl s) l (map SchedNode (L l))) \<and>
     (\<forall>t \<in> dom (tcbs s). \<not> queued L t \<longrightarrow> isring (rl s) (SchedNode t) []) \<and>
     isring (rl s) HaltedList (map HaltedNode hs) \<and>
     (\<forall>c. halted (cores s c) \<longleftrightarrow> c \<in> set hs) \<and>
     (\<forall>i. SchedQ i \<in> sched_sentinels \<longrightarrow> obj (rl s) (SchedQ i) = ONull) \<and>
     (\<forall>t \<in> dom (tcbs s). obj (rl s) (SchedNode t) = OTcb t) \<and>
     (\<forall>l \<in> sched_sentinels. set (L l) \<subseteq> dom (tcbs s)) \<and>
     set hs \<subseteq> {..<ncores s} \<and>
     (\<forall>c < ncores s. obj (rl s) (HaltedNode c) = OCore c) \<and>
     (\<forall>c < ncores s. c \<notin> set hs \<longrightarrow> isring (rl s) (HaltedNode c) [])"

fun sched_node :: "node \<Rightarrow> bool" where
  "sched_node (SchedQ i) = True"
| "sched_node TimeoutList = True"
| "sched_node (SchedNode t) = True"
| "sched_node HaltedList = True"
| "sched_node (HaltedNode c) = True"
| "sched_node _ = False"

text \<open>Every list that has no node of the scheduler, and every key, stays as it is.\<close>

definition same_lists :: "kernel \<Rightarrow> kernel \<Rightarrow> bool" where
  "same_lists s s' \<longleftrightarrow> obj (rl s') = obj (rl s) \<and>
     (\<forall>z zs. isring (rl s) z zs \<longrightarrow> (\<forall>n \<in> set (z # zs). \<not> sched_node n) \<longrightarrow>
        isring (rl s') z zs)"

lemma same_lists_refl [simp]: "same_lists s s"
  by (simp add: same_lists_def)

lemma same_lists_trans: "same_lists s s' \<Longrightarrow> same_lists s' s'' \<Longrightarrow> same_lists s s''"
  by (simp add: same_lists_def)

lemma same_lists_rl: "rl s1 = rl s2 \<Longrightarrow> same_lists s s1 = same_lists s s2"
  by (simp add: same_lists_def)

lemma same_listsI:
  assumes "obj h = obj (rl s)"
    and "\<And>z zs. isring (rl s) z zs \<Longrightarrow> (\<And>n. n \<in> set (z # zs) \<Longrightarrow> \<not> sched_node n) \<Longrightarrow>
      isring h z zs"
  shows "same_lists s (s\<lparr>rl := h\<rparr>)"
  using assms by (auto simp: same_lists_def)

lemma sentinel_cases:
  assumes "l \<in> sched_sentinels"
  obtains (queue) i where "l = SchedQ i" "0 \<le> i" "i < SCHED_MAX_LEVEL" | (timeout) "l = TimeoutList"
  using assms by (auto simp: sched_sentinels_def SCHED_MAX_LEVEL_def)

lemma sentinel_SchedQ [simp]: "SchedQ i \<in> sched_sentinels \<longleftrightarrow> 0 \<le> i \<and> i < SCHED_MAX_LEVEL"
  by (auto simp: sched_sentinels_def SCHED_MAX_LEVEL_def)

lemma sentinel_simps [simp]:
  "TimeoutList \<in> sched_sentinels" "SchedNode t \<notin> sched_sentinels"
  "HaltedList \<notin> sched_sentinels" "HaltedNode c \<notin> sched_sentinels"
  by (auto simp: sched_sentinels_def)

lemma sentinel_sched_node [simp]: "l \<in> sched_sentinels \<Longrightarrow> sched_node l"
  by (auto elim: sentinel_cases)

lemma sentinel_not_node: "l \<in> sched_sentinels \<Longrightarrow> l \<notin> SchedNode ` A"
    "l \<in> sched_sentinels \<Longrightarrow> l \<notin> HaltedNode ` B" "l \<in> sched_sentinels \<Longrightarrow> l \<noteq> HaltedList"
    "l \<in> sched_sentinels \<Longrightarrow> l \<noteq> SchedNode t"
  by auto

lemma sched_absD:
  assumes "sched_abs s L hs"
  shows "\<And>l. l \<in> sched_sentinels \<Longrightarrow> isring (rl s) l (map SchedNode (L l))"
    and "\<And>t x. tcbs s t = Some x \<Longrightarrow> \<not> queued L t \<Longrightarrow> isring (rl s) (SchedNode t) []"
    and "isring (rl s) HaltedList (map HaltedNode hs)"
    and "\<And>t x. tcbs s t = Some x \<Longrightarrow> obj (rl s) (SchedNode t) = OTcb t"
    and "\<And>l t. l \<in> sched_sentinels \<Longrightarrow> t \<in> set (L l) \<Longrightarrow> \<exists>x. tcbs s t = Some x"
    and "\<And>i. 0 \<le> i \<Longrightarrow> i < SCHED_MAX_LEVEL \<Longrightarrow> obj (rl s) (SchedQ i) = ONull"
    and "\<And>c. halted (cores s c) \<longleftrightarrow> c \<in> set hs"
    and "\<And>c. c \<in> set hs \<Longrightarrow> c < ncores s \<and> obj (rl s) (HaltedNode c) = OCore c"
    and "\<And>c. c < ncores s \<Longrightarrow> obj (rl s) (HaltedNode c) = OCore c"
    and "\<And>c. c < ncores s \<Longrightarrow> c \<notin> set hs \<Longrightarrow> isring (rl s) (HaltedNode c) []"
  using assms by (auto simp: sched_abs_def)

text \<open>A thread is on one list at most, and once.\<close>

lemma sched_abs_distinct:
  assumes "sched_abs s L hs" and "l \<in> sched_sentinels"
  shows "distinct (L l)"
  using isring_distinct [OF sched_absD(1) [OF assms]] by (simp add: distinct_map)

lemma sched_abs_unique:
  assumes a: "sched_abs s L hs" and l: "l \<in> sched_sentinels" and m: "m \<in> sched_sentinels"
    and t: "t \<in> set (L l)" "t \<in> set (L m)"
  shows "l = m"
proof (rule ccontr)
  assume "l \<noteq> m"
  then have "l \<notin> set (m # map SchedNode (L m))" using l by (auto simp: sentinel_not_node)
  then have "set (l # map SchedNode (L l)) \<inter> set (m # map SchedNode (L m)) = {}"
    using sched_absD(1) [OF a] l m by (intro rl.lst_apart) auto
  with t show False by auto
qed

text \<open>The node of a thread that is on a list is not a ring of its own.\<close>

lemma on_list_not_alone:
  assumes a: "sched_abs s L hs" and l: "l \<in> sched_sentinels" and t: "t \<in> set (L l)"
  shows "nxt (rl s) (SchedNode t) \<noteq> SchedNode t"
proof
  assume self: "nxt (rl s) (SchedNode t) = SchedNode t"
  have "SchedNode t \<in> set (l # map SchedNode (L l))" using t by simp
  with sched_absD(1) [OF a l] obtain ys where y: "isring (rl s) (SchedNode t) ys"
    "set (SchedNode t # ys) = set (l # map SchedNode (L l))"
    by (rule isring_at)
  have "ys \<noteq> []" using y(2) l by (auto simp: sentinel_not_node)
  with y(1) self show False by (cases ys) (auto simp: isring_def)
qed

text \<open>The abstraction looks at the nodes, the set of live threads and the halted flags only.\<close>

lemma sched_abs_cong:
  assumes "rl s' = rl s" and "dom (tcbs s') = dom (tcbs s)" and "ncores s' = ncores s"
    and "\<And>c. halted (cores s' c) = halted (cores s c)"
  shows "sched_abs s' L hs = sched_abs s L hs"
  using assms by (simp add: sched_abs_def)

lemma sched_abs_set_tcb [simp]:
  "tcbs s t \<noteq> None \<Longrightarrow> sched_abs (set_tcb t x s) L hs = sched_abs s L hs"
  by (rule sched_abs_cong) (auto simp: set_tcb_def)

lemma set_tcb_simps [simp]:
  "rl (set_tcb t x s) = rl s" "tcbs (set_tcb t x s) = (tcbs s)(t \<mapsto> x)"
  "cores (set_tcb t x s) = cores s" "cctx (set_tcb t x s) = cctx s"
  "scheduled (set_tcb t x s) = scheduled s" "system_clock (set_tcb t x s) = system_clock s"
  "saved_preempt (set_tcb t x s) = saved_preempt s"
  "active_threads (set_tcb t x s) = active_threads s" "ncores (set_tcb t x s) = ncores s"
  by (simp_all add: set_tcb_def)

section \<open>Elementary moves\<close>

text \<open>
  Each move of a thread node changes one sequence.  The other sentinels, the lone nodes and
  the halted cores stay apart from it by their constructors.
\<close>

lemma sched_abs_update:
  assumes a: "sched_abs s L hs" and l: "l \<in> sched_sentinels" and o: "obj h = obj (rl s)"
    and new: "isring h l (map SchedNode ts)" and live: "set ts \<subseteq> dom (tcbs s)"
    and keep: "\<And>z zs. isring (rl s) z zs \<Longrightarrow> l \<notin> set (z # zs) \<Longrightarrow> SchedNode t \<notin> set (z # zs) \<Longrightarrow>
      isring h z zs"
    and others: "\<And>m. m \<in> sched_sentinels \<Longrightarrow> m \<noteq> l \<Longrightarrow> t \<notin> set (L m)"
    and set: "insert t (set ts) = insert t (set (L l))"
    and lone: "t \<notin> set ts \<Longrightarrow> isring h (SchedNode t) []"
  shows "sched_abs (s\<lparr>rl := h\<rparr>) (L(l := ts)) hs"
proof -
  have 1: "isring h m (map SchedNode ((L(l := ts)) m))" if m: "m \<in> sched_sentinels" for m
  proof (cases "m = l")
    case False
    with m l others have "isring h m (map SchedNode (L m))"
      by (intro keep sched_absD(1) [OF a]) (auto simp: sentinel_not_node)
    with False show ?thesis by simp
  qed (simp add: new)
  have 2: "isring h (SchedNode u) []" if u: "tcbs s u = Some x" "\<not> queued (L(l := ts)) u" for u x
  proof (cases "u = t")
    case True
    with u l lone show ?thesis by (auto simp: queued_def)
  next
    case False
    with u set l have "\<not> queued L u" by (auto simp: queued_def split: if_splits)
    with u(1) False l show ?thesis
      by (intro keep sched_absD(2) [OF a]) (auto simp: sentinel_not_node)
  qed
  have 3: "isring h HaltedList (map HaltedNode hs)"
    using l by (intro keep sched_absD(3) [OF a]) (auto simp: sentinel_not_node)
  have 4: "isring h (HaltedNode c) []" if "c < ncores s" "c \<notin> set hs" for c
    using l that by (intro keep sched_absD(10) [OF a]) (auto simp: sentinel_not_node)
  show ?thesis
    using a 1 2 3 4 o live by (auto simp: sched_abs_def)
qed

lemma move_same_lists:
  assumes l: "l \<in> sched_sentinels" and o: "obj h = obj (rl s)"
    and keep: "\<And>z zs. isring (rl s) z zs \<Longrightarrow> l \<notin> set (z # zs) \<Longrightarrow> SchedNode t \<notin> set (z # zs) \<Longrightarrow>
      isring h z zs"
  shows "same_lists s (s\<lparr>rl := h\<rparr>)"
proof (rule same_listsI [OF o])
  fix z zs
  assume r: "isring (rl s) z zs" and n: "\<And>n. n \<in> set (z # zs) \<Longrightarrow> \<not> sched_node n"
  have "l \<notin> set (z # zs)" and "SchedNode t \<notin> set (z # zs)"
    using n l sentinel_sched_node by (blast, fastforce)
  with r show "isring h z zs" by (rule keep)
qed

lemma push_back_abs:
  assumes a: "sched_abs s L hs" and l: "l \<in> sched_sentinels" and t: "tcbs s t = Some x"
    and n: "\<not> queued L t"
  shows "sched_abs (s\<lparr>rl := rlist_push_back l (SchedNode t) (rl s)\<rparr>) (L(l := L l @ [t])) hs"
    and "same_lists s (s\<lparr>rl := rlist_push_back l (SchedNode t) (rl s)\<rparr>)"
proof -
  note r = sched_absD(1) [OF a l] and tn = sched_absD(2) [OF a t n]
  have new: "SchedNode t \<notin> set (l # map SchedNode (L l))"
    using n l by (auto simp: queued_def sentinel_not_node)
  have keep: "isring (rlist_push_back l (SchedNode t) (rl s)) z zs"
    if "isring (rl s) z zs" "l \<notin> set (z # zs)" "SchedNode t \<notin> set (z # zs)" for z zs
    using rl.push_keeps_law [OF that(1) r tn that(2,3)] by simp
  show "sched_abs (s\<lparr>rl := rlist_push_back l (SchedNode t) (rl s)\<rparr>) (L(l := L l @ [t])) hs"
    by (rule sched_abs_update [where t = t, OF a l _ _ _ keep])
      (use rl.push_back_law [OF r tn new] t n l sched_absD(5) [OF a l] in
        \<open>auto simp: queued_def dom_def\<close>)
  show "same_lists s (s\<lparr>rl := rlist_push_back l (SchedNode t) (rl s)\<rparr>)"
    by (rule move_same_lists [OF l _ keep]) simp_all
qed

lemma pop_front_abs:
  assumes a: "sched_abs s L hs" and l: "l \<in> sched_sentinels" and L: "L l = t # ts"
  shows "fst (rlist_pop_front l (rl s)) = SchedNode t"
    and "sched_abs (s\<lparr>rl := snd (rlist_pop_front l (rl s))\<rparr>) (L(l := ts)) hs"
    and "same_lists s (s\<lparr>rl := snd (rlist_pop_front l (rl s))\<rparr>)"
proof -
  note r0 = sched_absD(1) [OF a l]
  then have r: "isring (rl s) l (SchedNode t # map SchedNode ts)" using L by simp
  note p = rl.pop_law [OF r]
  show "fst (rlist_pop_front l (rl s)) = SchedNode t" using p by simp
  have keep: "isring (snd (rlist_pop_front l (rl s))) z zs"
    if "isring (rl s) z zs" "l \<notin> set (z # zs)" "SchedNode t \<notin> set (z # zs)" for z zs
    using rl.pop_keeps_law [OF that(1) r that(2)] .
  show "sched_abs (s\<lparr>rl := snd (rlist_pop_front l (rl s))\<rparr>) (L(l := ts)) hs"
    by (rule sched_abs_update [where t = t, OF a l _ _ _ keep])
      (use p L l sched_absD(5) [OF a l] sched_abs_unique [OF a l] in auto)
  show "same_lists s (s\<lparr>rl := snd (rlist_pop_front l (rl s))\<rparr>)"
    by (rule move_same_lists [OF l _ keep]) simp_all
qed

lemma remove_abs:
  assumes a: "sched_abs s L hs" and l: "l \<in> sched_sentinels" and t: "t \<in> set (L l)"
  shows "sched_abs (s\<lparr>rl := rlist_remove (SchedNode t) (rl s)\<rparr>) (L(l := remove1 t (L l))) hs"
    and "same_lists s (s\<lparr>rl := rlist_remove (SchedNode t) (rl s)\<rparr>)"
proof -
  note r = sched_absD(1) [OF a l]
  have tn: "SchedNode t \<in> set (map SchedNode (L l))" using t by simp
  note p = rl.remove_law [OF r tn]
  have inj: "remove1 (SchedNode t) (map SchedNode us) = map SchedNode (remove1 t us)" for us
    by (induction us) auto
  have keep: "isring (rlist_remove (SchedNode t) (rl s)) z zs"
    if "isring (rl s) z zs" "l \<notin> set (z # zs)" "SchedNode t \<notin> set (z # zs)" for z zs
    using rl.remove_keeps_law [OF that(1) r tn that(2)] .
  show "sched_abs (s\<lparr>rl := rlist_remove (SchedNode t) (rl s)\<rparr>) (L(l := remove1 t (L l))) hs"
    by (rule sched_abs_update [where t = t, OF a l _ _ _ keep])
      (use p inj t l sched_absD(5) [OF a l] sched_abs_unique [OF a l] sched_abs_distinct [OF a l] in
        \<open>auto simp: dest: notin_set_remove1\<close>)
  show "same_lists s (s\<lparr>rl := rlist_remove (SchedNode t) (rl s)\<rparr>)"
    by (rule move_same_lists [OF l _ keep]) simp_all
qed

lemma insert_before_abs:
  assumes a: "sched_abs s L hs" and l: "l \<in> sched_sentinels" and t: "tcbs s t = Some x"
    and n: "\<not> queued L t" and L: "L l = us @ vs" and m: "m = hd (map SchedNode vs @ [l])"
  shows "sched_abs (s\<lparr>rl := rl_splice (prv (rl s) m) (SchedNode t) (rl s)\<rparr>) (L(l := us @ t # vs)) hs"
    and "same_lists s (s\<lparr>rl := rl_splice (prv (rl s) m) (SchedNode t) (rl s)\<rparr>)"
proof -
  note r0 = sched_absD(1) [OF a l] and tn = sched_absD(2) [OF a t n]
  have r: "isring (rl s) l (map SchedNode us @ map SchedNode vs)" using r0 L by simp
  have new: "SchedNode t \<notin> set (l # map SchedNode us @ map SchedNode vs)"
    using n l L by (auto simp: queued_def sentinel_not_node)
  have mm: "m \<in> set (l # map SchedNode us @ map SchedNode vs)" using m by (cases vs) auto
  have keep: "isring (rl_splice (prv (rl s) m) (SchedNode t) (rl s)) z zs"
    if "isring (rl s) z zs" "l \<notin> set (z # zs)" "SchedNode t \<notin> set (z # zs)" for z zs
    using insert_before_keeps [OF that(1) r tn that(2,3) mm] .
  show "sched_abs (s\<lparr>rl := rl_splice (prv (rl s) m) (SchedNode t) (rl s)\<rparr>) (L(l := us @ t # vs)) hs"
    by (rule sched_abs_update [where t = t, OF a l _ _ _ keep])
      (use insert_before_list [OF r tn new m] t n l L sched_absD(5) [OF a l] in
        \<open>auto simp: queued_def dom_def\<close>)
  show "same_lists s (s\<lparr>rl := rl_splice (prv (rl s) m) (SchedNode t) (rl s)\<rparr>)"
    by (rule move_same_lists [OF l _ keep]) simp_all
qed


lemma sched_abs_halted_update:
  assumes a: "sched_abs s L hs" and o: "obj h = obj (rl s)"
    and new: "isring h HaltedList (map HaltedNode hs')" and sub: "set hs' \<subseteq> {..<ncores s}"
    and hal: "\<And>c. halted (cs c) \<longleftrightarrow> c \<in> set hs'"
    and lone: "\<And>c. c < ncores s \<Longrightarrow> c \<notin> set hs' \<Longrightarrow> isring h (HaltedNode c) []"
    and keep: "\<And>z zs. isring (rl s) z zs \<Longrightarrow> (\<And>n. n \<in> set (z # zs) \<Longrightarrow> n \<noteq> HaltedList \<and> n \<notin> range HaltedNode) \<Longrightarrow>
      isring h z zs"
  shows "sched_abs (s\<lparr>rl := h, cores := cs\<rparr>) L hs'"
proof -
  have 1: "isring h m (map SchedNode (L m))" if "m \<in> sched_sentinels" for m
    using that by (intro keep sched_absD(1) [OF a]) (auto simp: sentinel_not_node elim: sentinel_cases)
  have 2: "isring h (SchedNode u) []" if "tcbs s u = Some x" "\<not> queued L u" for u x
    using that by (intro keep sched_absD(2) [OF a]) auto
  show ?thesis
    using a 1 2 new o sub hal lone by (auto simp: sched_abs_def)
qed

lemma same_lists_cores [simp]: "same_lists s (s\<lparr>rl := h, cores := cs\<rparr>) = same_lists s (s\<lparr>rl := h\<rparr>)"
  by (rule same_lists_rl) simp

text \<open>\<open>cpu_core_restart_one\<close> restarts the core that halted last, if any.\<close>

lemma restart_one_abs:
  assumes a: "sched_abs s L hs"
  obtains s' where "cpu_core_restart_one s = Inr s'" and "sched_abs s' L (tl hs)"
    and "same_lists s s'" and "s' = s\<lparr>rl := rl s', cores := cores s'\<rparr>"
    and "\<And>c. cores s' c = (if hs \<noteq> [] \<and> c = hd hs then (cores s c)\<lparr>halted := False\<rparr> else cores s c)"
proof (cases hs)
  case Nil
  with sched_absD(3) [OF a] have "is_rlist_empty HaltedList (rl s)"
    by (simp add: is_rlist_empty_iff)
  then have "cpu_core_restart_one s = Inr s" by (simp add: cpu_core_restart_one_def)
  with a Nil that [of s] show ?thesis by simp
next
  case (Cons c cs)
  note r0 = sched_absD(3) [OF a]
  then have r: "isring (rl s) HaltedList (HaltedNode c # map HaltedNode cs)" using Cons by simp
  let ?h = "snd (rlist_pop_front HaltedList (rl s))"
  let ?cs = "(cores s)(c := (cores s c)\<lparr>halted := False\<rparr>)"
  let ?s' = "s\<lparr>rl := ?h, cores := ?cs\<rparr>"
  note p = rl.pop_law [OF r]
  have "\<not> is_rlist_empty HaltedList (rl s)" using r by (simp add: is_rlist_empty_iff)
  moreover have "obj ?h (HaltedNode c) = OCore c" using sched_absD(8) [OF a, of c] Cons by simp
  moreover have "halted (cores s c)" using sched_absD(7) [OF a, of c] Cons by simp
  ultimately have eq: "cpu_core_restart_one s = Inr ?s'"
    using p remove_singleton [of ?h "HaltedNode c"]
    by (simp add: cpu_core_restart_one_def core_restart_def set_core_def prod.case_eq_if Let_def)
  have keep: "isring ?h z zs" if "isring (rl s) z zs" "HaltedList \<notin> set (z # zs)" for z zs
    using rl.pop_keeps_law [OF that(1) r that(2)] .
  have lone: "isring ?h (HaltedNode e) []" if "e < ncores s" "e \<notin> set cs" for e
    using that p keep [OF sched_absD(10) [OF a, of e]] Cons by (cases "e = c") auto
  have d: "c \<notin> set cs" using isring_distinct [OF r] by auto
  have ab: "sched_abs ?s' L cs"
  proof (rule sched_abs_halted_update [OF a _ _ _ _ lone keep])
    show "halted (?cs e) \<longleftrightarrow> e \<in> set cs" for e
      using sched_absD(7) [OF a, of e] Cons d by auto
  qed (use p Cons sched_absD(8) [OF a] in auto)
  have "same_lists s ?s'"
    unfolding same_lists_cores by (rule same_listsI) (use keep in fastforce)+
  with eq ab Cons show ?thesis by (intro that [of ?s']) auto
qed

section \<open>The scheduler's operations on the sequences\<close>

lemma queue_add_abs:
  assumes a: "sched_abs s L hs" and t: "tcbs s t = Some x" and n: "\<not> queued L t"
    and p: "0 \<le> priority x" "priority x < SCHED_MAX_LEVEL"
  obtains s' where "sched_queue_add t s = Inr s'"
    and "sched_abs s' (L(SchedQ (priority x) := L (SchedQ (priority x)) @ [t])) (tl hs)"
    and "same_lists s s'" and "s' = s\<lparr>rl := rl s', cores := cores s'\<rparr>"
proof -
  let ?l = "SchedQ (priority x)" and ?s1 = "s\<lparr>rl := rlist_push_back (SchedQ (priority x)) (SchedNode t) (rl s)\<rparr>"
  have l: "?l \<in> sched_sentinels" using p by simp
  note b = push_back_abs [OF a l t n]
  obtain s' where s': "cpu_core_restart_one ?s1 = Inr s'"
    "sched_abs s' (L(?l := L ?l @ [t])) (tl hs)" "same_lists ?s1 s'"
    "s' = ?s1\<lparr>rl := rl s', cores := cores s'\<rparr>"
    by (rule restart_one_abs [OF b(1)])
  have "sched_queue_add t s = Inr s'" using t s'(1) by (simp add: sched_queue_add_def)
  moreover have "s' = s\<lparr>rl := rl s', cores := cores s'\<rparr>" using s'(4) by simp
  ultimately show ?thesis
    using s'(2) same_lists_trans [OF b(2) s'(3)] by (intro that)
qed

text \<open>
  What making a thread ready does to the sequences: it leaves the timeout list, and joins the
  queue of its priority if its context is clean.
\<close>

definition ready_lists :: "tref \<Rightarrow> tcb \<Rightarrow> (node \<Rightarrow> tref list) \<Rightarrow> (node \<Rightarrow> tref list)" where
  "ready_lists t x L =
     (let L1 = L(TimeoutList := remove1 t (L TimeoutList))
      in if tphase x = CTX_CLEAN
         then L1(SchedQ (priority x) := L1 (SchedQ (priority x)) @ [t]) else L1)"

text \<open>When a thread may be made ready: it is blocked, and waits at most for its timeout.\<close>

definition blocked_ok :: "(node \<Rightarrow> tref list) \<Rightarrow> tref \<Rightarrow> tcb \<Rightarrow> bool" where
  "blocked_ok L t x \<longleftrightarrow> (tstate x = STOPPED \<or> tstate x = INIT) \<and>
     0 \<le> priority x \<and> priority x < SCHED_MAX_LEVEL \<and>
     (\<forall>i. SchedQ i \<in> sched_sentinels \<longrightarrow> t \<notin> set (L (SchedQ i))) \<and>
     (t \<in> set (L TimeoutList) \<longleftrightarrow> wakeup_time x \<noteq> NO_TIMEOUT) \<and>
     (wakeup_time x \<noteq> NO_TIMEOUT \<longrightarrow> tstate x = STOPPED)"

lemma make_ready_abs:
  assumes a: "sched_abs s L hs" and t: "tcbs s t = Some x" and ok: "blocked_ok L t x"
  obtains s' where "sched_make_ready t s = Inr s'"
    and "sched_abs s' (ready_lists t x L) (if tphase x = CTX_CLEAN then tl hs else hs)"
    and "same_lists s s'"
    and "s' = s\<lparr>rl := rl s', cores := cores s',
            tcbs := (tcbs s)(t \<mapsto> x\<lparr>wakeup_time := NO_TIMEOUT, tstate := READY\<rparr>)\<rparr>"
proof -
  let ?L1 = "L(TimeoutList := remove1 t (L TimeoutList))"
  let ?x1 = "x\<lparr>wakeup_time := NO_TIMEOUT\<rparr>" and ?x2 = "x\<lparr>wakeup_time := NO_TIMEOUT, tstate := READY\<rparr>"
  let ?s1 = "if wakeup_time x \<noteq> NO_TIMEOUT
    then set_tcb t ?x1 (s\<lparr>rl := rlist_remove (SchedNode t) (rl s)\<rparr>) else s"
  have st: "tstate x = STOPPED \<or> tstate x = INIT" using ok by (simp add: blocked_ok_def)
  have r1: "sched_abs ?s1 ?L1 hs \<and> same_lists s ?s1"
  proof (cases "wakeup_time x = NO_TIMEOUT")
    case True
    then have "?L1 = L" using ok by (auto simp: blocked_ok_def remove1_idem)
    with a True show ?thesis by simp
  next
    case False
    then have "t \<in> set (L TimeoutList)" using ok by (simp add: blocked_ok_def)
    from remove_abs [OF a _ this] False t show ?thesis
      by (auto simp: same_lists_def)
  qed
  have nx: "nxt (rl s) (SchedNode t) \<noteq> SchedNode t" if "wakeup_time x \<noteq> NO_TIMEOUT"
    using on_list_not_alone [OF a, of TimeoutList t] ok that by (simp add: blocked_ok_def)
  have x1: "wakeup_time x = NO_TIMEOUT \<Longrightarrow> ?x1 = x" by auto
  have s1t: "tcbs ?s1 t = Some ?x1"
    using t by auto
  have s1: "?s1 = s\<lparr>rl := rl ?s1, tcbs := (tcbs s)(t \<mapsto> ?x1)\<rparr>"
    using t x1 by (auto simp: set_tcb_def fun_upd_idem)
  have step: "sched_make_ready t s =
      (if tphase x = CTX_CLEAN then sched_queue_add t (set_tcb t ?x2 ?s1) else Inr (set_tcb t ?x2 ?s1))"
  proof (cases "wakeup_time x = NO_TIMEOUT")
    case True
    have "tcbs s t = Some ?x1" using t x1 [OF True] by simp
    with st True show ?thesis by (auto simp: sched_make_ready_def Let_def)
  next
    case False
    with nx ok have "nxt (rl s) (SchedNode t) \<noteq> SchedNode t \<and> tstate x = STOPPED"
      by (simp add: blocked_ok_def)
    with t False show ?thesis by (simp add: sched_make_ready_def Let_def)
  qed
  let ?s2 = "set_tcb t ?x2 ?s1"
  have s2: "?s2 = s\<lparr>rl := rl ?s1, tcbs := (tcbs s)(t \<mapsto> ?x2)\<rparr>"
    by (subst s1) (simp add: set_tcb_def)
  have a2: "sched_abs ?s2 ?L1 hs" using r1 s1t by (auto simp del: set_tcb_simps)
  have l2: "same_lists s ?s2" using r1 by (simp add: same_lists_def)
  show ?thesis
  proof (cases "tphase x = CTX_CLEAN")
    case False
    with step a2 l2 s2 show ?thesis
      by (intro that [of ?s2]) (simp_all add: ready_lists_def Let_def)
  next
    case True
    have n: "\<not> queued ?L1 t"
      using ok sched_abs_distinct [OF a, of TimeoutList]
      by (auto simp: queued_def blocked_ok_def elim!: sentinel_cases)
    have "0 \<le> priority ?x2" "priority ?x2 < SCHED_MAX_LEVEL"
      using ok by (simp_all add: blocked_ok_def)
    from queue_add_abs [OF a2 _ n this] obtain s' where s': "sched_queue_add t ?s2 = Inr s'"
      "sched_abs s' (?L1(SchedQ (priority x) := ?L1 (SchedQ (priority x)) @ [t])) (tl hs)"
      "same_lists ?s2 s'" "s' = ?s2\<lparr>rl := rl s', cores := cores s'\<rparr>"
      by auto
    have "s' = s\<lparr>rl := rl s', cores := cores s', tcbs := (tcbs s)(t \<mapsto> ?x2)\<rparr>"
      by (rule trans [OF s'(4)]) (subst s2, simp)
    with True step s' same_lists_trans [OF l2 s'(3)] show ?thesis
      by (intro that [of s']) (simp_all add: ready_lists_def Let_def)
  qed
qed

end
