(* ===== verification/Sched_Ops.thy ===== *)
theory Sched_Ops
  imports Sched_Lists
begin

text \<open>
  The scheduler's operations on the sequences, continued: the expiry of timeouts, the
  registration of a timeout and the selection of the next thread.
\<close>

section \<open>Expired timeouts\<close>

abbreviation mk_ready :: "tcb \<Rightarrow> tcb" where
  "mk_ready x \<equiv> x\<lparr>wakeup_time := NO_TIMEOUT, tstate := READY\<rparr>"

text \<open>The threads whose time has come: the front of the timeout list.\<close>

definition expired :: "kernel \<Rightarrow> usec \<Rightarrow> tref list \<Rightarrow> tref list" where
  "expired s now ts = takeWhile (\<lambda>t. wakeup_time (the (tcbs s t)) \<le> now) ts"

definition expire_lists :: "kernel \<Rightarrow> tref list \<Rightarrow> (node \<Rightarrow> tref list) \<Rightarrow> (node \<Rightarrow> tref list)" where
  "expire_lists s ts L = fold (\<lambda>t. ready_lists t (the (tcbs s t))) ts L"

lemma ready_lists_TimeoutList [simp]:
  "ready_lists t x L TimeoutList = remove1 t (L TimeoutList)"
  by (simp add: ready_lists_def Let_def)

lemma ready_lists_SchedQ:
  "ready_lists t x L (SchedQ i) =
     L (SchedQ i) @ (if tphase x = CTX_CLEAN \<and> priority x = i then [t] else [])"
  by (auto simp: ready_lists_def Let_def)

lemma blocked_ok_other:
  assumes "blocked_ok L u y" and "u \<noteq> t"
  shows "blocked_ok (ready_lists t x L) u y"
  using assms by (auto simp: blocked_ok_def ready_lists_SchedQ in_set_remove1)

text \<open>One turn of the loop, and how the expired threads of the rest relate to those of the whole.\<close>

lemma wakeup_expired_unfold:
  assumes a: "sched_abs s L hs" and L: "L TimeoutList = t # ts" and x: "tcbs s t = Some x"
  shows "wakeup_expired_loop now s =
    (if wakeup_time x > now then Some (Inr s)
     else case sched_make_ready t s of Inl e \<Rightarrow> Some (Inl e)
          | Inr s1 \<Rightarrow> wakeup_expired_loop now s1)"
proof -
  have r: "isring (rl s) TimeoutList (SchedNode t # map SchedNode ts)"
    using sched_absD(1) [OF a, of TimeoutList] L by simp
  then have "\<not> is_rlist_empty TimeoutList (rl s)" "nxt (rl s) TimeoutList = SchedNode t"
    by (simp_all add: is_rlist_empty_iff) (simp add: isring_def)
  with x sched_absD(4) [OF a x] show ?thesis
    by (subst wakeup_expired_loop.simps) simp
qed

lemma expired_step:
  assumes tc: "tcbs s1 = (tcbs s)(t \<mapsto> mk_ready x)" and x: "tcbs s t = Some x"
    and now: "wakeup_time x \<le> now" and new: "t \<notin> set ts"
  shows "expired s1 now ts = expired s now ts"
    and "expired s now (t # ts) = t # expired s now ts"
    and "expire_lists s1 (expired s now ts) (ready_lists t x L) =
      expire_lists s (expired s now (t # ts)) L"
    and "(\<lambda>u. if u \<in> set (expired s now ts) then map_option mk_ready (tcbs s1 u) else tcbs s1 u) =
      (\<lambda>u. if u \<in> set (expired s now (t # ts)) then map_option mk_ready (tcbs s u) else tcbs s u)"
proof -
  have same: "tcbs s1 u = tcbs s u" if "u \<in> set ts" for u using that new tc by auto
  then show "expired s1 now ts = expired s now ts"
    unfolding expired_def by (intro takeWhile_cong) auto
  show e: "expired s now (t # ts) = t # expired s now ts" using now x by (simp add: expired_def)
  have sub: "set (expired s now ts) \<subseteq> set ts"
    by (auto simp: expired_def dest: set_takeWhileD)
  then have "expire_lists s1 (expired s now ts) (ready_lists t x L) =
      expire_lists s (expired s now ts) (ready_lists t x L)"
    unfolding expire_lists_def using same by (intro fold_cong) auto
  then show "expire_lists s1 (expired s now ts) (ready_lists t x L) =
      expire_lists s (expired s now (t # ts)) L"
    using e x by (simp add: expire_lists_def)
  show "(\<lambda>u. if u \<in> set (expired s now ts) then map_option mk_ready (tcbs s1 u) else tcbs s1 u) =
      (\<lambda>u. if u \<in> set (expired s now (t # ts)) then map_option mk_ready (tcbs s u) else tcbs s u)"
    using new sub x tc e by (auto simp: fun_eq_iff)
qed

lemma wakeup_expired_loop_abs:
  assumes "sched_abs s L hs" and "L TimeoutList = ts"
    and "\<And>t x. t \<in> set ts \<Longrightarrow> tcbs s t = Some x \<Longrightarrow> blocked_ok L t x"
  shows "\<exists>s' hs'. wakeup_expired_loop now s = Some (Inr s') \<and>
    sched_abs s' (expire_lists s (expired s now ts) L) hs' \<and> same_lists s s' \<and>
    s' = s\<lparr>rl := rl s', cores := cores s',
           tcbs := (\<lambda>t. if t \<in> set (expired s now ts) then map_option mk_ready (tcbs s t)
                        else tcbs s t)\<rparr>"
  using assms
proof (induction ts arbitrary: s L hs)
  case Nil
  then have "is_rlist_empty TimeoutList (rl s)"
    using sched_absD(1) [OF Nil(1), of TimeoutList] by (simp add: is_rlist_empty_iff)
  then have "wakeup_expired_loop now s = Some (Inr s)" by (simp add: wakeup_expired_loop.simps)
  with Nil show ?case by (auto simp: expired_def expire_lists_def)
next
  case (Cons t ts)
  have new: "t \<notin> set ts"
    using sched_abs_distinct [OF Cons.prems(1), of TimeoutList] Cons.prems(2) by auto
  obtain x where x: "tcbs s t = Some x"
    using sched_absD(5) [OF Cons.prems(1), of TimeoutList t] Cons.prems(2) by auto
  note unfold = wakeup_expired_unfold [OF Cons.prems(1,2) x]
  show ?case
  proof (cases "wakeup_time x \<le> now")
    case False
    then have "expired s now (t # ts) = []" using x by (simp add: expired_def)
    with unfold False Cons.prems(1) show ?thesis by (auto simp: expire_lists_def)
  next
    case True
    have ok: "blocked_ok L t x" using Cons.prems(3) x by simp
    obtain s1 hs1 where s1: "sched_make_ready t s = Inr s1"
      "sched_abs s1 (ready_lists t x L) hs1" "same_lists s s1"
      "s1 = s\<lparr>rl := rl s1, cores := cores s1, tcbs := (tcbs s)(t \<mapsto> mk_ready x)\<rparr>"
      by (rule make_ready_abs [OF Cons.prems(1) x ok])
    have tc: "tcbs s1 = (tcbs s)(t \<mapsto> mk_ready x)" by (subst s1(4)) simp
    have "ready_lists t x L TimeoutList = ts" using Cons.prems(2) by simp
    moreover have "blocked_ok (ready_lists t x L) u y" if "u \<in> set ts" "tcbs s1 u = Some y" for u y
      using that new tc Cons.prems(3) by (intro blocked_ok_other) (auto split: if_splits)
    ultimately obtain s' hs' where s': "wakeup_expired_loop now s1 = Some (Inr s')"
      "sched_abs s' (expire_lists s1 (expired s1 now ts) (ready_lists t x L)) hs'"
      "same_lists s1 s'"
      "s' = s1\<lparr>rl := rl s', cores := cores s',
         tcbs := (\<lambda>t. if t \<in> set (expired s1 now ts) then map_option mk_ready (tcbs s1 t)
                      else tcbs s1 t)\<rparr>"
      using Cons.IH [OF s1(2)] by blast
    note st = expired_step [OF tc x True new]
    have "s' = s\<lparr>rl := rl s', cores := cores s',
        tcbs := (\<lambda>u. if u \<in> set (expired s now (t # ts)) then map_option mk_ready (tcbs s u)
                     else tcbs s u)\<rparr>"
      by (rule trans [OF s'(4)], subst s1(4)) (use st(1,4) in simp)
    moreover have "wakeup_expired_loop now s = Some (Inr s')"
      using unfold True s1(1) s'(1) by simp
    ultimately show ?thesis
      using s'(2) st(1,3) same_lists_trans [OF s1(3) s'(3)] by auto
  qed
qed

lemma wakeup_expired_abs:
  assumes "sched_abs s L hs"
    and "\<And>t x. t \<in> set (L TimeoutList) \<Longrightarrow> tcbs s t = Some x \<Longrightarrow> blocked_ok L t x"
  obtains s' hs' where "sched_wakeup_expired_timeouts s = Inr s'"
    and "sched_abs s' (expire_lists s (expired s (bios_clock s) (L TimeoutList)) L) hs'"
    and "same_lists s s'"
    and "s' = s\<lparr>rl := rl s', cores := cores s',
           tcbs := (\<lambda>t. if t \<in> set (expired s (bios_clock s) (L TimeoutList))
                        then map_option mk_ready (tcbs s t) else tcbs s t)\<rparr>"
proof -
  from wakeup_expired_loop_abs [OF assms(1) refl assms(2), of "bios_clock s"]
  obtain s' hs' where s': "wakeup_expired_loop (bios_clock s) s = Some (Inr s')"
    "sched_abs s' (expire_lists s (expired s (bios_clock s) (L TimeoutList)) L) hs'"
    "same_lists s s'"
    "s' = s\<lparr>rl := rl s', cores := cores s',
           tcbs := (\<lambda>t. if t \<in> set (expired s (bios_clock s) (L TimeoutList))
                        then map_option mk_ready (tcbs s t) else tcbs s t)\<rparr>"
    by blast
  have "sched_wakeup_expired_timeouts s = Inr s'"
    using s'(1) by (simp add: sched_wakeup_expired_timeouts_def of_loop_def)
  then show ?thesis using s'(2-4) by (rule that)
qed

text \<open>What the expiry does to the sequences.\<close>

lemma expire_lists_TimeoutList:
  "L TimeoutList = ts \<Longrightarrow> distinct ts \<Longrightarrow>
    expire_lists s (expired s now ts) L TimeoutList =
      dropWhile (\<lambda>t. wakeup_time (the (tcbs s t)) \<le> now) ts"
proof (induction ts arbitrary: L)
  case Nil
  then show ?case by (simp add: expired_def expire_lists_def)
next
  case (Cons t ts)
  let ?L = "ready_lists t (the (tcbs s t)) L"
  have "?L TimeoutList = ts" using Cons.prems by simp
  with Cons.IH [of ?L] Cons.prems show ?case by (simp add: expired_def expire_lists_def)
qed

lemma expire_lists_SchedQ:
  "expire_lists s ts L (SchedQ i) = L (SchedQ i) @
     filter (\<lambda>t. tphase (the (tcbs s t)) = CTX_CLEAN \<and> priority (the (tcbs s t)) = i) ts"
  by (induction ts arbitrary: L) (auto simp: expire_lists_def ready_lists_SchedQ)

section \<open>Registering a timeout\<close>

text \<open>Where a thread that wakes up at \<open>wt\<close> goes: after those that wake up no later.\<close>

lemma timeout_pos_ring:
  assumes "dseg (rl s) n (map SchedNode ts) TimeoutList"
    and "\<And>t. t \<in> set ts \<Longrightarrow> tcbs s t \<noteq> None \<and> obj (rl s) (SchedNode t) = OTcb t"
  shows "timeout_pos s wt (nxt (rl s) n) = Some (Inr (hd (map SchedNode
    (dropWhile (\<lambda>t. wakeup_time (the (tcbs s t)) \<le> wt) ts) @ [TimeoutList])))"
  using assms
proof (induction ts arbitrary: n)
  case Nil
  then show ?case by (simp add: timeout_pos.simps)
next
  case (Cons t ts)
  then obtain y where y: "tcbs s t = Some y" by fastforce
  have "nxt (rl s) n = SchedNode t" and "obj (rl s) (SchedNode t) = OTcb t"
    using Cons.prems by auto
  then have "timeout_pos s wt (nxt (rl s) n) =
      (if wt < wakeup_time y then Some (Inr (SchedNode t))
       else timeout_pos s wt (nxt (rl s) (SchedNode t)))"
    using y by (subst timeout_pos.simps) simp
  with Cons y show ?case by auto
qed

definition timeout_insert :: "kernel \<Rightarrow> tref \<Rightarrow> usec \<Rightarrow> tref list \<Rightarrow> tref list" where
  "timeout_insert s t wt ts =
     takeWhile (\<lambda>u. wakeup_time (the (tcbs s u)) \<le> wt) ts @
     t # dropWhile (\<lambda>u. wakeup_time (the (tcbs s u)) \<le> wt) ts"

lemma register_timeout_abs:
  assumes a: "sched_abs s L hs" and t: "tcbs s t = Some x" and n: "\<not> queued L t"
    and to: "timeout \<noteq> NO_TIMEOUT"
  obtains s' where "sched_register_timeout t timeout s = Inr s'"
    and "sched_abs s' (L(TimeoutList :=
      timeout_insert s t (bios_clock s + timeout) (L TimeoutList))) hs"
    and "same_lists s s'"
    and "s' = s\<lparr>rl := rl s',
      tcbs := (tcbs s)(t \<mapsto> x\<lparr>wakeup_time := bios_clock s + timeout\<rparr>)\<rparr>"
proof -
  let ?wt = "bios_clock s + timeout"
  let ?s1 = "set_tcb t (x\<lparr>wakeup_time := ?wt\<rparr>) s"
  let ?P = "\<lambda>u. wakeup_time (the (tcbs s u)) \<le> ?wt" and ?ts = "L TimeoutList"
  let ?m = "hd (map SchedNode (dropWhile ?P ?ts) @ [TimeoutList])"
  let ?s' = "?s1\<lparr>rl := rl_splice (prv (rl s) ?m) (SchedNode t) (rl s)\<rparr>"
  have a1: "sched_abs ?s1 L hs" using a t by simp
  have nt: "t \<notin> set ?ts" using n by (auto simp: queued_def)
  have live: "tcbs ?s1 u \<noteq> None \<and> obj (rl ?s1) (SchedNode u) = OTcb u" if u: "u \<in> set ?ts" for u
  proof -
    obtain y where "tcbs ?s1 u = Some y"
      using sched_absD(5) [OF a1 sentinel_simps(1) u] by auto
    with sched_absD(4) [OF a1 this] show ?thesis by simp
  qed
  have "dseg (rl s) TimeoutList (map SchedNode ?ts) TimeoutList"
    using sched_absD(1) [OF a, of TimeoutList] by (simp add: isring_def)
  then have "timeout_pos ?s1 ?wt (nxt (rl ?s1) TimeoutList) = Some (Inr (hd (map SchedNode
      (dropWhile (\<lambda>u. wakeup_time (the (tcbs ?s1 u)) \<le> ?wt) ?ts) @ [TimeoutList])))"
    by (intro timeout_pos_ring live) simp_all
  moreover have "dropWhile (\<lambda>u. wakeup_time (the (tcbs ?s1 u)) \<le> ?wt) ?ts = dropWhile ?P ?ts"
    using nt by (intro dropWhile_cong) auto
  ultimately have eq: "sched_register_timeout t timeout s = Inr ?s'"
    using to t by (simp add: sched_register_timeout_def of_loop_def Let_def)
  have L: "?ts = takeWhile ?P ?ts @ dropWhile ?P ?ts" by simp
  note ins = insert_before_abs [OF a1 _ _ n L refl, of "x\<lparr>wakeup_time := ?wt\<rparr>"]
  have "same_lists s ?s'" using ins(2) by (simp add: same_lists_def)
  moreover have "sched_abs ?s' (L(TimeoutList := timeout_insert s t ?wt ?ts)) hs"
    using ins(1) by (simp add: timeout_insert_def)
  ultimately show ?thesis
    using eq by (intro that [of ?s']) (simp_all add: set_tcb_def)
qed

section \<open>Selecting the next thread\<close>

text \<open>
  The specification: the front of the highest non-empty level, else the current thread if it
  is still ready, else the idle thread of the core.
\<close>

definition next_level :: "(node \<Rightarrow> tref list) \<Rightarrow> int option" where
  "next_level L = List.find (\<lambda>i. L (SchedQ i) \<noteq> []) [0, 1, 2]"

definition next_thread_spec :: "nat \<Rightarrow> tref \<Rightarrow> tcb \<Rightarrow> (node \<Rightarrow> tref list) \<Rightarrow> tref" where
  "next_thread_spec c current x L =
     (case next_level L of
        Some i \<Rightarrow> hd (L (SchedQ i))
      | None \<Rightarrow> if tstate x = READY then current else IdleT c)"

definition select_lists :: "(node \<Rightarrow> tref list) \<Rightarrow> (node \<Rightarrow> tref list)" where
  "select_lists L = (case next_level L of
     Some i \<Rightarrow> L(SchedQ i := tl (L (SchedQ i))) | None \<Rightarrow> L)"

lemma select_level_abs:
  assumes a: "sched_abs s L hs" and lv: "set lv \<subseteq> {0, 1, 2}"
  shows "\<exists>sel s'. select_level lv s = (sel, s') \<and>
    (case List.find (\<lambda>i. L (SchedQ i) \<noteq> []) lv of
       Some i \<Rightarrow> sel = SchedNode (hd (L (SchedQ i))) \<and>
         sched_abs s' (L(SchedQ i := tl (L (SchedQ i)))) hs
     | None \<Rightarrow> sel = SchedQ 0 \<and> s' = s) \<and>
    same_lists s s' \<and> s' = s\<lparr>rl := rl s', scheduled := scheduled s'\<rparr>"
  using lv
proof (induction lv)
  case Nil
  then show ?case by simp
next
  case (Cons i lv)
  then have i: "SchedQ i \<in> sched_sentinels" "i mod 4 = i"
    by (auto simp: SCHED_MAX_LEVEL_def)
  note r = sched_absD(1) [OF a i(1)]
  show ?case
  proof (cases "L (SchedQ i)")
    case Nil
    with r have "is_rlist_empty (SchedQ i) (rl s)" by (simp add: is_rlist_empty_iff)
    with Nil i(2) Cons show ?thesis by simp
  next
    case (Cons t ts)
    with r have "\<not> is_rlist_empty (SchedQ i) (rl s)" by (simp add: is_rlist_empty_iff)
    moreover note p = pop_front_abs [OF a i(1) Cons]
    moreover have "sched_abs (s\<lparr>rl := h, scheduled := 0\<rparr>) K hs = sched_abs (s\<lparr>rl := h\<rparr>) K hs" for h K
      by (rule sched_abs_cong) simp_all
    moreover have "same_lists s (s\<lparr>rl := h, scheduled := 0\<rparr>) = same_lists s (s\<lparr>rl := h\<rparr>)" for h
      by (rule same_lists_rl) simp
    ultimately show ?thesis using Cons i(2)
      by (auto simp: prod.case_eq_if Let_def)
  qed
qed


lemma upto_levels: "[0..SCHED_MAX_LEVEL - 1] = [0, 1, 2]"
  by (simp add: SCHED_MAX_LEVEL_def upto.simps)

lemma next_level_Some:
  "next_level L = Some i \<Longrightarrow> SchedQ i \<in> sched_sentinels \<and> L (SchedQ i) \<noteq> []"
  by (auto simp: next_level_def SCHED_MAX_LEVEL_def split: if_splits)

lemma next_level_None:
  "next_level L = None \<longleftrightarrow> (\<forall>i. SchedQ i \<in> sched_sentinels \<longrightarrow> L (SchedQ i) = [])"
  by (auto simp: next_level_def sched_sentinels_def split: if_splits)

lemma queue_select_abs:
  assumes a: "sched_abs s L hs" and x: "tcbs s current = Some x" and idle: "tcbs s (IdleT c) \<noteq> None"
    and n: "n = next_thread_spec c current x L"
  obtains s' y where "sched_queue_select c current s = Inr (n, s')"
    and "sched_abs s' (select_lists L) hs" and "same_lists s s'" and "tcbs s n = Some y"
    and "s' = s\<lparr>rl := rl s', scheduled := scheduled s', tcbs := (tcbs s)(n \<mapsto> y\<lparr>its := QUANTUM\<rparr>)\<rparr>"
proof -
  obtain sel s1 where s1: "select_level [0, 1, 2] s = (sel, s1)"
    "(case next_level L of
       Some i \<Rightarrow> sel = SchedNode (hd (L (SchedQ i))) \<and>
         sched_abs s1 (L(SchedQ i := tl (L (SchedQ i)))) hs
     | None \<Rightarrow> sel = SchedQ 0 \<and> s1 = s)"
    "same_lists s s1" "s1 = s\<lparr>rl := rl s1, scheduled := scheduled s1\<rparr>"
    using select_level_abs [OF a, of "[0, 1, 2]"] by (auto simp: next_level_def simp del: List.find.simps)
  have tc: "tcbs s1 = tcbs s" by (subst s1(4)) simp
  have o: "obj (rl s1) = obj (rl s)" using s1(3) by (simp add: same_lists_def)
  have pick: "(case obj (rl s1) sel of OTcb t \<Rightarrow> Inr t
      | _ \<Rightarrow> rbind (get_tcb current s1) (\<lambda>x. Inr (if tstate x = READY then current else IdleT c)))
      = Inr n \<and> tcbs s n \<noteq> None \<and> sched_abs s1 (select_lists L) hs"
  proof (cases "next_level L")
    case None
    then have "sel = SchedQ 0" "s1 = s" using s1(2) by simp_all
    with None x idle n a sched_absD(6) [OF a, of 0] show ?thesis
      by (auto simp: next_thread_spec_def select_lists_def SCHED_MAX_LEVEL_def)
  next
    case (Some i)
    then have i: "SchedQ i \<in> sched_sentinels" "hd (L (SchedQ i)) \<in> set (L (SchedQ i))"
      using next_level_Some by auto
    obtain y where "tcbs s (hd (L (SchedQ i))) = Some y" using sched_absD(5) [OF a i] by auto
    with Some s1(2) n o sched_absD(4) [OF a this] show ?thesis
      by (auto simp: next_thread_spec_def select_lists_def)
  qed
  then obtain y where y: "tcbs s n = Some y" by blast
  let ?s' = "set_tcb n (y\<lparr>its := QUANTUM\<rparr>) s1"
  have "sched_queue_select c current s = Inr (n, ?s')"
    unfolding sched_queue_select_def upto_levels s1(1)
    using conjunct1 [OF pick] y tc by (simp del: select_level.simps)
  moreover have "sched_abs ?s' (select_lists L) hs" using pick y tc by simp
  moreover have "same_lists s ?s'" using s1(3) by (simp add: same_lists_def)
  moreover have "?s' = s\<lparr>rl := rl ?s', scheduled := scheduled ?s',
      tcbs := (tcbs s)(n \<mapsto> y\<lparr>its := QUANTUM\<rparr>)\<rparr>"
    by (subst (1) s1(4)) (simp add: set_tcb_def)
  ultimately show ?thesis using y by (intro that)
qed

end
