(* ===== verification/Sched_Inv.thy ===== *)
theory Sched_Inv
  imports Sched_Ops
begin

text \<open>
  The scheduler on many cores.  A configuration is the kernel state with the point every core
  has reached: executing its current thread, inside \<open>sleep_releasing\<close> before the call of
  \<open>yield\<close>, or between the context switch and \<open>gain\<close>.  The steps of the cores
  interleave.  The invariant relates the state and phase of every TCB to the cores and the
  queues; the invariant stated in kernel_sched.h is one of its consequences.
\<close>

section \<open>Configurations\<close>

datatype cpc =
    Running                  \<comment> \<open>the current thread executes\<close>
  | Sleeping SCHED_CAUSE     \<comment> \<open>in \<open>sleep_releasing\<close>, about to yield\<close>
  | Switching                \<comment> \<open>the context was switched, \<open>gain\<close> is still to run\<close>

type_synonym conf = "(nat \<Rightarrow> cpc) \<times> kernel"

text \<open>Thread \<open>t\<close> has its context in use by core \<open>c\<close>: it must not be switched to.\<close>

definition dirty_on :: "(nat \<Rightarrow> cpc) \<Rightarrow> kernel \<Rightarrow> nat \<Rightarrow> tref \<Rightarrow> bool" where
  "dirty_on pc s c t \<longleftrightarrow> c < ncores s \<and>
     (if pc c = Switching then previous_thread (cctx s c) = t else current_thread (cctx s c) = t)"

text \<open>Core \<open>c\<close> has chosen \<open>t\<close> and not yet executed its \<open>gain\<close>.\<close>

definition incoming :: "(nat \<Rightarrow> cpc) \<Rightarrow> kernel \<Rightarrow> nat \<Rightarrow> tref \<Rightarrow> bool" where
  "incoming pc s c t \<longleftrightarrow> c < ncores s \<and> pc c = Switching \<and> current_thread (cctx s c) = t \<and>
     previous_thread (cctx s c) \<noteq> t"

definition on_core :: "(nat \<Rightarrow> cpc) \<Rightarrow> kernel \<Rightarrow> nat \<Rightarrow> tref \<Rightarrow> bool" where
  "on_core pc s c t \<longleftrightarrow> dirty_on pc s c t \<or> incoming pc s c t"

section \<open>The invariant\<close>

text \<open>What the fields of one TCB say about where its thread is.\<close>

definition idle_ok :: "(nat \<Rightarrow> cpc) \<Rightarrow> kernel \<Rightarrow> tref \<Rightarrow> tcb \<Rightarrow> bool" where
  "idle_ok pc s t x \<longleftrightarrow>
     (ttype x = IDLE_THREAD \<longleftrightarrow> (\<exists>c. t = IdleT c)) \<and>
     (\<forall>c. t = IdleT c \<longrightarrow> c < ncores s \<and> tstate x \<in> {READY, RUNNING} \<and>
        (\<forall>d. on_core pc s d t \<longrightarrow> d = c))"

definition phase_ok :: "(nat \<Rightarrow> cpc) \<Rightarrow> kernel \<Rightarrow> tref \<Rightarrow> tcb \<Rightarrow> bool" where
  "phase_ok pc s t x \<longleftrightarrow>
     (tphase x = CTX_DIRTY \<longleftrightarrow> (\<exists>c. dirty_on pc s c t)) \<and>
     (tstate x = INIT \<longrightarrow> tphase x = CTX_CLEAN) \<and>
     (tstate x = EXITED \<longrightarrow> tphase x = CTX_DIRTY)"

definition state_ok :: "(nat \<Rightarrow> cpc) \<Rightarrow> kernel \<Rightarrow> tref \<Rightarrow> tcb \<Rightarrow> bool" where
  "state_ok pc s t x \<longleftrightarrow>
     (tstate x = RUNNING \<longleftrightarrow> (\<exists>c. dirty_on pc s c t \<and> pc c = Running)) \<and>
     (\<forall>c. c < ncores s \<and> pc c = Switching \<and> current_thread (cctx s c) = t \<longrightarrow> tstate x = READY)"

definition queue_ok ::
  "(nat \<Rightarrow> cpc) \<Rightarrow> kernel \<Rightarrow> (node \<Rightarrow> tref list) \<Rightarrow> tref \<Rightarrow> tcb \<Rightarrow> bool" where
  "queue_ok pc s L t x \<longleftrightarrow>
     0 \<le> priority x \<and> priority x < SCHED_MAX_LEVEL \<and>
     (\<forall>i. SchedQ i \<in> sched_sentinels \<longrightarrow>
        (t \<in> set (L (SchedQ i)) \<longleftrightarrow> ttype x = NORMAL_THREAD \<and> tstate x = READY \<and>
           tphase x = CTX_CLEAN \<and> priority x = i \<and> \<not> (\<exists>c. incoming pc s c t)))"

definition timeout_ok :: "(node \<Rightarrow> tref list) \<Rightarrow> tref \<Rightarrow> tcb \<Rightarrow> bool" where
  "timeout_ok L t x \<longleftrightarrow>
     (t \<in> set (L TimeoutList) \<longleftrightarrow> wakeup_time x \<noteq> NO_TIMEOUT) \<and>
     (wakeup_time x \<noteq> NO_TIMEOUT \<longrightarrow> tstate x = STOPPED)"

definition thread_ok ::
  "(nat \<Rightarrow> cpc) \<Rightarrow> kernel \<Rightarrow> (node \<Rightarrow> tref list) \<Rightarrow> tref \<Rightarrow> tcb \<Rightarrow> bool" where
  "thread_ok pc s L t x \<longleftrightarrow>
     idle_ok pc s t x \<and> phase_ok pc s t x \<and> state_ok pc s t x \<and> queue_ok pc s L t x \<and>
     timeout_ok L t x"

definition wakeup_times :: "kernel \<Rightarrow> (node \<Rightarrow> tref list) \<Rightarrow> usec list" where
  "wakeup_times s L = map (\<lambda>t. wakeup_time (the (tcbs s t))) (L TimeoutList)"

definition sched_inv ::
  "(nat \<Rightarrow> cpc) \<Rightarrow> kernel \<Rightarrow> (node \<Rightarrow> tref list) \<Rightarrow> nat list \<Rightarrow> bool" where
  "sched_inv pc s L hs \<longleftrightarrow>
     sched_abs s L hs \<and>
     (\<forall>t x. tcbs s t = Some x \<longrightarrow> thread_ok pc s L t x) \<and>
     (\<forall>c t. on_core pc s c t \<longrightarrow> tcbs s t \<noteq> None) \<and>
     (\<forall>c d t. on_core pc s c t \<longrightarrow> on_core pc s d t \<longrightarrow> c = d) \<and>
     (\<forall>c < ncores s. tcbs s (IdleT c) \<noteq> None) \<and>
     sorted (wakeup_times s L) \<and>
     finite (dom (tcbs s)) \<and>
     active_threads s = of_nat (card {a. tcbs s (HeapT a) \<noteq> None})"

definition sched_safe :: "conf \<Rightarrow> bool" where
  "sched_safe cf \<longleftrightarrow> (\<exists>L hs. sched_inv (fst cf) (snd cf) L hs)"

section \<open>What the operations of the scheduler leave alone\<close>

definition sched_frame :: "kernel \<Rightarrow> kernel \<Rightarrow> bool" where
  "sched_frame s s' \<longleftrightarrow> same_lists s s' \<and> ptcbs s' = ptcbs s \<and> condvars s' = condvars s \<and>
     waiters s' = waiters s \<and> kernel_sem s' = kernel_sem s \<and> PT s' = PT s \<and>
     pcb_freelist s' = pcb_freelist s \<and> process_count s' = process_count s \<and> FT s' = FT s \<and>
     devtable s' = devtable s \<and> mem s' = mem s \<and> ncores s' = ncores s \<and> nterm s' = nterm s \<and>
     system_clock s' = system_clock s"

lemma sched_frame_refl [simp]: "sched_frame s s"
  by (simp add: sched_frame_def)

lemma sched_frame_trans: "sched_frame s s' \<Longrightarrow> sched_frame s' s'' \<Longrightarrow> sched_frame s s''"
  by (auto simp: sched_frame_def intro: same_lists_trans)

text \<open>
  A step of the scheduler keeps every thread with its process, but for threads that have exited;
  it makes no thread exit.
\<close>

definition same_thread :: "tcb \<Rightarrow> tcb \<Rightarrow> bool" where
  "same_thread x y \<longleftrightarrow> owner_pcb y = owner_pcb x \<and> tptcb y = tptcb x \<and> ttype y = ttype x \<and> tfunc y = tfunc x"

definition thread_kept :: "tcb \<Rightarrow> tcb option \<Rightarrow> bool" where
  "thread_kept x r = (case r of None \<Rightarrow> tstate x = EXITED
     | Some y \<Rightarrow> same_thread x y \<and> (tstate y = EXITED \<longleftrightarrow> tstate x = EXITED))"

definition threads_kept :: "kernel \<Rightarrow> kernel \<Rightarrow> bool" where
  "threads_kept s s' \<longleftrightarrow>
     (\<forall>t. case tcbs s t of None \<Rightarrow> tcbs s' t = None | Some x \<Rightarrow> thread_kept x (tcbs s' t))"

lemma same_thread_refl [simp]: "same_thread x x"
  by (simp add: same_thread_def)

lemma threads_keptI:
  assumes "\<And>t. tcbs s t = None \<Longrightarrow> tcbs s' t = None"
    and "\<And>t x. tcbs s t = Some x \<Longrightarrow> thread_kept x (tcbs s' t)"
  shows "threads_kept s s'"
  using assms by (simp add: threads_kept_def split: option.split)

lemma threads_keptD:
  assumes "threads_kept s s'" and "tcbs s t = Some x" and "tstate x \<noteq> EXITED"
  obtains y where "tcbs s' t = Some y" and "same_thread x y" and "tstate y \<noteq> EXITED"
proof -
  have "thread_kept x (tcbs s' t)" using assms(1) [unfolded threads_kept_def, rule_format, of t] assms(2) by simp
  with assms(3) that show ?thesis by (auto simp: thread_kept_def split: option.splits)
qed

lemma threads_kept_refl: "tcbs s' = tcbs s \<Longrightarrow> threads_kept s s'"
  by (rule threads_keptI) (simp_all add: thread_kept_def)

lemma threads_kept_trans:
  assumes 1: "threads_kept s s'" and 2: "threads_kept s' s''"
  shows "threads_kept s s''"
proof (rule threads_keptI)
  fix t
  note a = 1 [unfolded threads_kept_def, rule_format, of t] 2 [unfolded threads_kept_def, rule_format, of t]
  show "tcbs s t = None \<Longrightarrow> tcbs s'' t = None" using a by simp
  show "thread_kept x (tcbs s'' t)" if "tcbs s t = Some x" for x
    using a that by (auto simp: thread_kept_def same_thread_def split: option.splits)
qed

lemma threads_kept_upd:
  assumes "tcbs s' = (tcbs s)(t \<mapsto> y)" and "tcbs s t = Some x" and "thread_kept x (Some y)"
  shows "threads_kept s s'"
  by (rule threads_keptI) (use assms in \<open>auto simp: thread_kept_def\<close>)

section \<open>Making a thread ready keeps the invariant\<close>

lemma sched_inv_abs: "sched_inv pc s L hs \<Longrightarrow> sched_abs s L hs"
  by (simp add: sched_inv_def)

lemma sched_inv_thread: "sched_inv pc s L hs \<Longrightarrow> tcbs s t = Some x \<Longrightarrow> thread_ok pc s L t x"
  by (simp add: sched_inv_def)

lemma sched_inv_live: "sched_inv pc s L hs \<Longrightarrow> on_core pc s c t \<Longrightarrow> \<exists>x. tcbs s t = Some x"
  by (simp add: sched_inv_def)

lemma thread_okD:
  assumes "thread_ok pc s L t x"
  shows "idle_ok pc s t x" and "phase_ok pc s t x" and "state_ok pc s t x"
    and "queue_ok pc s L t x" and "timeout_ok L t x"
  using assms by (simp_all add: thread_ok_def)

lemma idle_okD:
  assumes "idle_ok pc s t x"
  shows "ttype x = IDLE_THREAD \<longleftrightarrow> (\<exists>c. t = IdleT c)"
    and "t = IdleT c \<Longrightarrow> c < ncores s" and "t = IdleT c \<Longrightarrow> tstate x \<in> {READY, RUNNING}"
    and "t = IdleT c \<Longrightarrow> on_core pc s d t \<Longrightarrow> d = c"
  using assms unfolding idle_ok_def by blast+

lemma queue_okD:
  assumes "queue_ok pc s L t x"
  shows "0 \<le> priority x" and "priority x < SCHED_MAX_LEVEL"
    and "SchedQ i \<in> sched_sentinels \<Longrightarrow>
        t \<in> set (L (SchedQ i)) \<longleftrightarrow> ttype x = NORMAL_THREAD \<and> tstate x = READY \<and>
           tphase x = CTX_CLEAN \<and> priority x = i \<and> \<not> (\<exists>c. incoming pc s c t)"
  using assms unfolding queue_ok_def by blast+

lemma inv_blocked_ok:
  assumes "sched_inv pc s L hs" and "tcbs s t = Some x" and "tstate x = STOPPED \<or> tstate x = INIT"
  shows "blocked_ok L t x"
proof -
  note t = thread_okD [OF sched_inv_thread [OF assms(1,2)]] and q = queue_okD [OF t(4)]
  have "tstate x \<noteq> READY" using assms(3) by auto
  with t(5) q show ?thesis
    using assms(3) by (auto simp: blocked_ok_def timeout_ok_def)
qed

text \<open>The predicates on cores depend on the CCBs and the number of cores only.\<close>

lemma core_preds_cong:
  assumes "cctx s' = cctx s" and "ncores s' = ncores s"
  shows "dirty_on pc s' = dirty_on pc s" and "incoming pc s' = incoming pc s"
    and "on_core pc s' = on_core pc s"
  using assms by (auto simp: fun_eq_iff dirty_on_def incoming_def on_core_def)

lemma thread_ok_cong:
  assumes "cctx s' = cctx s" and "ncores s' = ncores s"
    and "\<And>l. l \<in> sched_sentinels \<Longrightarrow> t \<in> set (L' l) \<longleftrightarrow> t \<in> set (L l)"
  shows "thread_ok pc s' L' t x = thread_ok pc s L t x"
  using assms(3) core_preds_cong [OF assms(1,2), of pc] assms(1,2)
  by (simp add: thread_ok_def idle_ok_def phase_ok_def state_ok_def queue_ok_def timeout_ok_def)

lemma sorted_map_remove1: "sorted (map f xs) \<Longrightarrow> sorted (map f (remove1 x xs))"
  by (induction xs) (auto dest: notin_set_remove1)

lemma blocked_thread:
  assumes tx: "thread_ok pc s L t x" and st: "tstate x = STOPPED \<or> tstate x = INIT"
  shows "t \<noteq> IdleT c" and "ttype x = NORMAL_THREAD" and "\<not> incoming pc s c t"
    and "dirty_on pc s c t \<Longrightarrow> pc c \<noteq> Running"
    and "SchedQ i \<in> sched_sentinels \<Longrightarrow> t \<notin> set (L (SchedQ i))"
    and "c < ncores s \<Longrightarrow> pc c = Switching \<Longrightarrow> current_thread (cctx s c) \<noteq> t"
proof -
  note t = thread_okD [OF tx] and q = queue_okD [OF t(4)] and i = idle_okD [OF t(1)]
  have r: "tstate x \<noteq> READY" "tstate x \<noteq> RUNNING" using st by auto
  show idle: "t \<noteq> IdleT c" for c using i(3) r by blast
  show "ttype x = NORMAL_THREAD" using i(1) idle by (cases "ttype x") auto
  show cur: "c < ncores s \<Longrightarrow> pc c = Switching \<Longrightarrow> current_thread (cctx s c) \<noteq> t"
    using t(3) r unfolding state_ok_def by blast
  then show "\<not> incoming pc s c t" by (auto simp: incoming_def)
  show "dirty_on pc s c t \<Longrightarrow> pc c \<noteq> Running" using t(3) r unfolding state_ok_def by blast
  show "SchedQ i \<in> sched_sentinels \<Longrightarrow> t \<notin> set (L (SchedQ i))" using q(3) r by blast
qed

lemma blocked_thread_ok:
  assumes tx: "thread_ok pc s L t x" and st: "tstate x = STOPPED \<or> tstate x = INIT"
    and d: "distinct (L TimeoutList)"
  shows "thread_ok pc s (ready_lists t x L) t (mk_ready x)"
proof -
  note b = blocked_thread [OF tx st]
  have q: "t \<in> set (ready_lists t x L (SchedQ i)) \<longleftrightarrow> tphase x = CTX_CLEAN \<and> priority x = i"
    if "SchedQ i \<in> sched_sentinels" for i
    using b(5) [OF that] by (simp add: ready_lists_SchedQ)
  have tl: "t \<notin> set (ready_lists t x L TimeoutList)" using d by simp
  note t = thread_okD [OF tx]
  have "idle_ok pc s t (mk_ready x)"
    using b(1) t(1) by (simp add: idle_ok_def)
  moreover have "phase_ok pc s t (mk_ready x)" using t(2) by (simp add: phase_ok_def)
  moreover have "state_ok pc s t (mk_ready x)" using b(4) by (auto simp: state_ok_def)
  moreover have "queue_ok pc s (ready_lists t x L) t (mk_ready x)"
    using q b(2,3) queue_okD(1,2) [OF t(4)] by (auto simp: queue_ok_def)
  moreover have "timeout_ok (ready_lists t x L) t (mk_ready x)"
    using tl by (simp add: timeout_ok_def)
  ultimately show ?thesis by (simp add: thread_ok_def)
qed

text \<open>Reading the fields off an update equation.\<close>

lemma sched_frame_upd:
  assumes "s' = s\<lparr>rl := h, cores := cs, tcbs := T\<rparr>" and "same_lists s s'"
  shows "tcbs s' = T" and "cctx s' = cctx s" and "ncores s' = ncores s"
    and "active_threads s' = active_threads s" and "saved_preempt s' = saved_preempt s"
    and "sched_frame s s'"
  using assms by (simp_all add: sched_frame_def)

lemma make_ready_inv:
  assumes inv: "sched_inv pc s L hs" and x: "tcbs s t = Some x"
    and st: "tstate x = STOPPED \<or> tstate x = INIT"
  obtains s' hs' where "sched_make_ready t s = Inr s'"
    and "sched_inv pc s' (ready_lists t x L) hs'" and "sched_frame s s'" and "cctx s' = cctx s"
    and "tcbs s' = (tcbs s)(t \<mapsto> mk_ready x)" and "saved_preempt s' = saved_preempt s"
proof -
  note ok = inv_blocked_ok [OF inv x st]
  obtain s' hs' where s': "sched_make_ready t s = Inr s'"
    "sched_abs s' (ready_lists t x L) hs'" "same_lists s s'"
    "s' = s\<lparr>rl := rl s', cores := cores s', tcbs := (tcbs s)(t \<mapsto> mk_ready x)\<rparr>"
    by (rule make_ready_abs [OF sched_inv_abs [OF inv] x ok])
  note f = sched_frame_upd [OF s'(4,3)]
  have d: "distinct (L TimeoutList)" using sched_abs_distinct [OF sched_inv_abs [OF inv]] by simp
  note tx = sched_inv_thread [OF inv x]
  have this_ok: "thread_ok pc s' (ready_lists t x L) t (mk_ready x)"
    using blocked_thread_ok [OF tx st d] thread_ok_cong [OF f(2,3)] by blast
  have other_ok: "thread_ok pc s' (ready_lists t x L) u y" if "u \<noteq> t" "tcbs s u = Some y" for u y
  proof -
    have "u \<in> set (ready_lists t x L l) \<longleftrightarrow> u \<in> set (L l)" if "l \<in> sched_sentinels" for l
      using that \<open>u \<noteq> t\<close> by (auto simp: ready_lists_SchedQ elim!: sentinel_cases split: if_splits)
    then show ?thesis
      using thread_ok_cong [OF f(2,3)] sched_inv_thread [OF inv that(2)] by blast
  qed
  have eq: "wakeup_times s' (ready_lists t x L) =
      map (\<lambda>u. wakeup_time (the (tcbs s u))) (remove1 t (L TimeoutList))"
    using d f(1) by (auto simp: wakeup_times_def)
  have w: "sorted (wakeup_times s' (ready_lists t x L))"
    unfolding eq by (rule sorted_map_remove1) (use inv in \<open>simp add: sched_inv_def wakeup_times_def\<close>)
  have "{a. tcbs s' (HeapT a) \<noteq> None} = {a. tcbs s (HeapT a) \<noteq> None}" using f(1) x by auto
  then have "sched_inv pc s' (ready_lists t x L) hs'"
    using inv s'(2) this_ok other_ok f core_preds_cong [OF f(2,3), of pc] w
    by (auto simp: sched_inv_def)
  then show ?thesis using s'(1) f by (intro that)
qed


text \<open>So does making ready every thread whose timeout has expired.\<close>

lemma wakeup_expired_loop_inv:
  assumes "sched_inv pc s L hs"
  shows "\<exists>s' L' hs'. wakeup_expired_loop now s = Some (Inr s') \<and> sched_inv pc s' L' hs' \<and>
    sched_frame s s' \<and> cctx s' = cctx s \<and> saved_preempt s' = saved_preempt s \<and>
    (\<forall>t x. tcbs s t = Some x \<longrightarrow> tcbs s' t = Some x \<or> tstate x = STOPPED \<and> tcbs s' t = Some (mk_ready x)) \<and>
    (\<forall>t. tcbs s t = None \<longrightarrow> tcbs s' t = None)"
  using assms
proof (induction "length (L TimeoutList)" arbitrary: s L hs)
  case 0
  then have "is_rlist_empty TimeoutList (rl s)"
    using sched_absD(1) [OF sched_inv_abs [OF 0(2)], of TimeoutList] by (simp add: is_rlist_empty_iff)
  then have "wakeup_expired_loop now s = Some (Inr s)" by (simp add: wakeup_expired_loop.simps)
  with 0 show ?case by (intro exI [of _ s] exI [of _ L] exI [of _ hs]) simp
next
  case (Suc k)
  note a = sched_inv_abs [OF Suc.prems]
  obtain t ts where tl: "L TimeoutList = t # ts" using Suc.hyps(2) by (cases "L TimeoutList") auto
  obtain x where x: "tcbs s t = Some x" using sched_absD(5) [OF a, of TimeoutList t] tl by auto
  have st: "tstate x = STOPPED"
    using thread_okD(5) [OF sched_inv_thread [OF Suc.prems x]] tl by (simp add: timeout_ok_def)
  show ?case
  proof (cases "wakeup_time x > now")
    case True
    then have "wakeup_expired_loop now s = Some (Inr s)"
      using wakeup_expired_unfold [OF a tl x] by simp
    with Suc.prems show ?thesis by (intro exI [of _ s] exI [of _ L] exI [of _ hs]) simp
  next
    case False
    obtain s1 hs1 where s1: "sched_make_ready t s = Inr s1"
      "sched_inv pc s1 (ready_lists t x L) hs1" "sched_frame s s1" "cctx s1 = cctx s"
      "tcbs s1 = (tcbs s)(t \<mapsto> mk_ready x)" "saved_preempt s1 = saved_preempt s"
      using st by (auto intro: make_ready_inv [OF Suc.prems x])
    have "k = length (ready_lists t x L TimeoutList)" using Suc.hyps(2) tl by simp
    from Suc.hyps(1) [OF this s1(2)] obtain s' L' hs' where s':
      "wakeup_expired_loop now s1 = Some (Inr s')" "sched_inv pc s' L' hs'" "sched_frame s1 s'"
      "cctx s' = cctx s1" "saved_preempt s' = saved_preempt s1"
      "\<forall>t x. tcbs s1 t = Some x \<longrightarrow> tcbs s' t = Some x \<or>
          tstate x = STOPPED \<and> tcbs s' t = Some (mk_ready x)" "\<forall>t. tcbs s1 t = None \<longrightarrow> tcbs s' t = None"
      by blast
    have "wakeup_expired_loop now s = Some (Inr s')"
      using wakeup_expired_unfold [OF a tl x] False s1(1) s'(1) by simp
    moreover have "tcbs s' u = Some y \<or> tstate y = STOPPED \<and> tcbs s' u = Some (mk_ready y)"
      if "tcbs s u = Some y" for u y
    proof (cases "u = t")
      case True
      with s1(5) have "tcbs s1 t = Some (mk_ready x)" by simp
      with s'(6) have "tcbs s' t = Some (mk_ready x)" by fastforce
      with True that x st show ?thesis by simp
    qed (use s'(6) s1(5) that in auto)
    moreover have "\<forall>t. tcbs s t = None \<longrightarrow> tcbs s' t = None" using s'(7) s1(5) x by (metis fun_upd_apply option.distinct(1))
    ultimately show ?thesis
      using s' s1 sched_frame_trans by (intro exI [of _ s'] exI [of _ L'] exI [of _ hs']) auto
  qed
qed

section \<open>Changes that do not matter to the invariant\<close>

lemma sched_inv_cong:
  assumes "rl s' = rl s" and "tcbs s' = tcbs s" and "ncores s' = ncores s"
    and "active_threads s' = active_threads s"
    and "\<And>c. halted (cores s' c) = halted (cores s c)"
    and "\<And>c. current_thread (cctx s' c) = current_thread (cctx s c)"
    and "\<And>c. previous_thread (cctx s' c) = previous_thread (cctx s c)"
  shows "sched_inv pc s' L hs = sched_inv pc s L hs"
proof -
  have p: "dirty_on pc s' = dirty_on pc s" "incoming pc s' = incoming pc s"
    "on_core pc s' = on_core pc s"
    using assms by (auto simp: fun_eq_iff dirty_on_def incoming_def on_core_def)
  have "thread_ok pc s' L t x = thread_ok pc s L t x" for t x
    using p assms by (simp add: thread_ok_def idle_ok_def phase_ok_def state_ok_def queue_ok_def)
  moreover have "sched_abs s' L hs = sched_abs s L hs" using assms by (intro sched_abs_cong) auto
  ultimately show ?thesis
    using assms p by (simp add: sched_inv_def wakeup_times_def)
qed

text \<open>Halting and restarting cores changes the abstraction only.\<close>

lemma sched_inv_halted:
  assumes inv: "sched_inv pc s L hs" and a: "sched_abs s' L hs'" and f: "cctx s' = cctx s"
    "ncores s' = ncores s" "tcbs s' = tcbs s" "active_threads s' = active_threads s"
  shows "sched_inv pc s' L hs'"
proof -
  have "thread_ok pc s' L t x = thread_ok pc s L t x" for t x by (rule thread_ok_cong) (simp_all add: f)
  then show ?thesis
    using inv a unfolding sched_inv_def core_preds_cong [OF f(1,2), of pc] f wakeup_times_def by simp
qed

lemma preempt_off_simps [simp]:
  "rl (snd (preempt_off c s)) = rl s" "tcbs (snd (preempt_off c s)) = tcbs s"
  "ncores (snd (preempt_off c s)) = ncores s"
  "active_threads (snd (preempt_off c s)) = active_threads s"
  "halted (cores (snd (preempt_off c s)) d) = halted (cores s d)"
  "current_thread (cctx (snd (preempt_off c s)) d) = current_thread (cctx s d)"
  "previous_thread (cctx (snd (preempt_off c s)) d) = previous_thread (cctx s d)"
  "saved_preempt (snd (preempt_off c s)) = saved_preempt s"
  "system_clock (snd (preempt_off c s)) = system_clock s"
  by (simp_all add: preempt_off_def cpu_disable_interrupts_def set_core_def set_ccb_def Let_def)

lemma preempt_on_simps [simp]:
  "rl (preempt_on c s) = rl s" "tcbs (preempt_on c s) = tcbs s"
  "ncores (preempt_on c s) = ncores s"
  "active_threads (preempt_on c s) = active_threads s"
  "halted (cores (preempt_on c s) d) = halted (cores s d)"
  "current_thread (cctx (preempt_on c s) d) = current_thread (cctx s d)"
  "previous_thread (cctx (preempt_on c s) d) = previous_thread (cctx s d)"
  "saved_preempt (preempt_on c s) = saved_preempt s"
  "system_clock (preempt_on c s) = system_clock s"
  by (simp_all add: preempt_on_def set_core_def set_ccb_def Let_def)

lemma set_timer_simps [simp]:
  "rl (snd (bios_set_timer c u s)) = rl s" "tcbs (snd (bios_set_timer c u s)) = tcbs s"
  "ncores (snd (bios_set_timer c u s)) = ncores s" "cctx (snd (bios_set_timer c u s)) = cctx s"
  "active_threads (snd (bios_set_timer c u s)) = active_threads s"
  "halted (cores (snd (bios_set_timer c u s)) d) = halted (cores s d)"
  "saved_preempt (snd (bios_set_timer c u s)) = saved_preempt s"
  "system_clock (snd (bios_set_timer c u s)) = system_clock s"
  by (simp_all add: bios_set_timer_def set_core_def Let_def prod.case_eq_if)

lemma flags_inv [simp]:
  "sched_inv pc (snd (preempt_off c s)) L hs = sched_inv pc s L hs"
  "sched_inv pc (preempt_on c s) L hs = sched_inv pc s L hs"
  "sched_inv pc (snd (bios_set_timer c u s)) L hs = sched_inv pc s L hs"
  by (rule sched_inv_cong; simp)+

lemma flags_frame [simp]:
  "sched_frame s (snd (preempt_off c s))" "sched_frame s (preempt_on c s)"
  "sched_frame s (snd (bios_set_timer c u s))"
  by (simp_all add: sched_frame_def same_lists_def preempt_off_def preempt_on_def bios_set_timer_def
      cpu_disable_interrupts_def set_core_def set_ccb_def Let_def prod.case_eq_if)

end
