(* ===== verification/Sched_Switch.thy ===== *)
theory Sched_Switch
  imports Sched_Inv
begin

text \<open>
  The phases of a context switch, each of which keeps the scheduler's invariant: the current
  thread stops running, its timeout is registered, the next thread is chosen, and the next
  thread gains the core and disposes of the previous one.
\<close>

section \<open>The current thread stops running\<close>

lemma sched_inv_excl: "sched_inv pc s L hs \<Longrightarrow> on_core pc s c t \<Longrightarrow> on_core pc s d t \<Longrightarrow> c = d"
  unfolding sched_inv_def by blast

lemma on_core_dirty: "dirty_on pc s c t \<Longrightarrow> on_core pc s c t"
  by (simp add: on_core_def)

lemma on_core_incoming: "incoming pc s c t \<Longrightarrow> on_core pc s c t"
  by (simp add: on_core_def)

text \<open>As long as a core is not switching, it makes no difference why.\<close>

lemma core_preds_pc:
  assumes "pc c \<noteq> Switching" and "p \<noteq> Switching"
  shows "dirty_on (pc(c := p)) s = dirty_on pc s" and "incoming (pc(c := p)) s = incoming pc s"
    and "on_core (pc(c := p)) s = on_core pc s"
  using assms by (auto simp: fun_eq_iff dirty_on_def incoming_def on_core_def)

lemma dirty_not_queued:
  assumes inv: "sched_inv pc s L hs" and x: "tcbs s t = Some x" and d: "dirty_on pc s c t"
    and w: "wakeup_time x = NO_TIMEOUT"
  shows "\<not> queued L t"
proof -
  note ok = thread_okD [OF sched_inv_thread [OF inv x]]
  have "tphase x = CTX_DIRTY" using ok(2) d by (auto simp: phase_ok_def)
  then have "SchedQ i \<in> sched_sentinels \<Longrightarrow> t \<notin> set (L (SchedQ i))" for i
    using queue_okD(3) [OF ok(4), of i] by auto
  moreover have "t \<notin> set (L TimeoutList)" using ok(5) w by (simp add: timeout_ok_def)
  ultimately show ?thesis by (auto simp: queued_def elim: sentinel_cases)
qed

text \<open>Rewriting one TCB keeps the invariant if the new TCB fits and the wake-up time is kept.\<close>

lemma sched_inv_set_tcb:
  assumes inv: "sched_inv pc s L hs" and x: "tcbs s t = Some x"
    and pc: "dirty_on pc' s = dirty_on pc s" "incoming pc' s = incoming pc s"
    and tok: "thread_ok pc' s L t x'" and w: "wakeup_time x' = wakeup_time x"
    and other: "\<And>u y. u \<noteq> t \<Longrightarrow> tcbs s u = Some y \<Longrightarrow> thread_ok pc' s L u y"
  shows "sched_inv pc' (set_tcb t x' s) L hs"
proof -
  have on: "on_core pc' s = on_core pc s" using pc by (auto simp: fun_eq_iff on_core_def)
  have c: "dirty_on pc' (set_tcb t x' s) = dirty_on pc s"
    "incoming pc' (set_tcb t x' s) = incoming pc s" "on_core pc' (set_tcb t x' s) = on_core pc s"
    using core_preds_cong [of "set_tcb t x' s" s pc'] pc on by simp_all
  have "thread_ok pc' (set_tcb t x' s) L u y = thread_ok pc' s L u y" for u y
    by (rule thread_ok_cong) simp_all
  moreover have "sched_abs (set_tcb t x' s) L hs" using sched_inv_abs [OF inv] x by simp
  moreover have "wakeup_times (set_tcb t x' s) L = wakeup_times s L"
    using x w by (auto simp: wakeup_times_def)
  moreover have "{a. tcbs (set_tcb t x' s) (HeapT a) \<noteq> None} = {a. tcbs s (HeapT a) \<noteq> None}"
    using x by auto
  ultimately show ?thesis
    using inv tok other c by (auto simp: sched_inv_def)
qed

lemma leave_running_inv:
  assumes inv: "sched_inv pc s L hs" and c: "c < ncores s" "pc c = Running"
    and t: "t = current_thread (cctx s c)" and x: "tcbs s t = Some x"
    and x': "ttype x' = ttype x" "tphase x' = tphase x" "wakeup_time x' = wakeup_time x"
    and p: "0 \<le> priority x'" "priority x' < SCHED_MAX_LEVEL"
    and st: "tstate x' \<in> {READY, STOPPED, EXITED}" "ttype x = IDLE_THREAD \<Longrightarrow> tstate x' = READY"
  shows "sched_inv (pc(c := Sleeping cause)) (set_tcb t x' s) L hs"
proof -
  let ?pc = "pc(c := Sleeping cause)"
  note cp = core_preds_pc [of pc c "Sleeping cause" s]
  have cp': "dirty_on ?pc s = dirty_on pc s" "incoming ?pc s = incoming pc s"
    "on_core ?pc s = on_core pc s" using cp c by simp_all
  have d: "dirty_on pc s c t" using c t by (simp add: dirty_on_def)
  have only: "on_core pc s e t \<Longrightarrow> e = c" for e
    using sched_inv_excl [OF inv on_core_dirty [OF d]] by blast
  have sw: "pc e = Switching \<Longrightarrow> e < ncores s \<Longrightarrow> current_thread (cctx s e) \<noteq> t" for e
    using only [of e] c by (auto simp: on_core_def dirty_on_def incoming_def)
  note ok = thread_okD [OF sched_inv_thread [OF inv x]]
  have run: "tstate x = RUNNING" using ok(3) d c by (auto simp: state_ok_def)
  then have w: "wakeup_time x = NO_TIMEOUT" using ok(5) by (auto simp: timeout_ok_def)
  have dirty: "tphase x = CTX_DIRTY" using ok(2) d by (auto simp: phase_ok_def)
  have "idle_ok ?pc s t x'"
    using ok(1) st x'(1) cp' unfolding idle_ok_def by auto
  moreover have "phase_ok ?pc s t x'" using ok(2) st dirty x' cp' by (auto simp: phase_ok_def)
  moreover have "state_ok ?pc s t x'"
  proof -
    have "\<not> (\<exists>e. dirty_on pc s e t \<and> ?pc e = Running)"
      using only on_core_dirty by fastforce
    moreover have "tstate x' \<noteq> RUNNING" using st by auto
    moreover have "\<not> (e < ncores s \<and> ?pc e = Switching \<and> current_thread (cctx s e) = t)" for e
      using sw [of e] by (auto split: if_splits)
    ultimately show ?thesis unfolding state_ok_def cp' by blast
  qed
  moreover have "queue_ok ?pc s L t x'"
    using dirty_not_queued [OF inv x d w] dirty x' p by (auto simp: queue_ok_def queued_def)
  moreover have "timeout_ok L t x'" using ok(5) w x' by (simp add: timeout_ok_def)
  ultimately have "thread_ok ?pc s L t x'" by (simp add: thread_ok_def)
  moreover have "thread_ok ?pc s L u y" if "u \<noteq> t" "tcbs s u = Some y" for u y
  proof -
    have "\<not> dirty_on pc s c u" using that t c by (auto simp: dirty_on_def)
    then show ?thesis
      using sched_inv_thread [OF inv that(2)] cp' c
      by (auto simp: thread_ok_def idle_ok_def phase_ok_def state_ok_def queue_ok_def)
  qed
  ultimately show ?thesis
    by (intro sched_inv_set_tcb [OF inv x cp'(1,2) _ x'(3)])
qed

text \<open>The scheduling data of a thread that holds a core may change freely.\<close>

lemma modify_dirty_inv:
  assumes inv: "sched_inv pc s L hs" and x: "tcbs s t = Some x" and d: "dirty_on pc s c t"
    and x': "ttype x' = ttype x" "tphase x' = tphase x" "wakeup_time x' = wakeup_time x"
      "tstate x' = tstate x"
    and p: "0 \<le> priority x'" "priority x' < SCHED_MAX_LEVEL"
  shows "sched_inv pc (set_tcb t x' s) L hs"
proof (rule sched_inv_set_tcb [OF inv x refl refl _ x'(3)])
  note ok = thread_okD [OF sched_inv_thread [OF inv x]]
  have dirty: "tphase x = CTX_DIRTY" using ok(2) d by (auto simp: phase_ok_def)
  then have "SchedQ i \<in> sched_sentinels \<Longrightarrow> t \<notin> set (L (SchedQ i))" for i
    using queue_okD(3) [OF ok(4), of i] by auto
  then have "queue_ok pc s L t x'" using dirty x' p by (auto simp: queue_ok_def)
  with ok show "thread_ok pc s L t x'"
    unfolding thread_ok_def idle_ok_def phase_ok_def state_ok_def timeout_ok_def x' by blast
qed (rule sched_inv_thread [OF inv])

section \<open>Registering a timeout\<close>

lemma sorted_timeout_insert:
  assumes "sorted (map f ts)" and "\<And>u. u \<in> set ts \<Longrightarrow> g u = f u" and "g t = w"
  shows "sorted (map g (takeWhile (\<lambda>u. f u \<le> w) ts @ t # dropWhile (\<lambda>u. f u \<le> w) ts))"
  using assms
proof (induction ts)
  case Nil
  then show ?case by simp
next
  case (Cons v ts)
  let ?r = "takeWhile (\<lambda>u. f u \<le> w) ts @ t # dropWhile (\<lambda>u. f u \<le> w) ts"
  from Cons have ih: "sorted (map g ?r)" by simp
  have eq: "map g ts = map f ts" using Cons.prems(2) by simp
  have v: "\<forall>y \<in> set ts. f v \<le> f y" "sorted (map f ts)" "g v = f v" using Cons.prems by auto
  show ?case
  proof (cases "f v \<le> w")
    case True
    have "set ?r = insert t (set ts)"
      by (metis (no_types) Un_insert_right list.simps(15) set_append takeWhile_dropWhile_id)
    then have "\<forall>y \<in> set ?r. g v \<le> g y" using v True Cons.prems(2,3) by auto
    with ih True show ?thesis by auto
  next
    case False
    have "sorted (map g (v # ts))" unfolding list.map eq using v by simp
    moreover have "\<forall>y \<in> set (map g (v # ts)). g t \<le> y"
      unfolding list.map eq using v False Cons.prems(3) by fastforce
    ultimately show ?thesis using False by (simp del: sorted_wrt_map)
  qed
qed

lemma register_timeout_inv:
  assumes inv: "sched_inv pc s L hs" and x: "tcbs s t = Some x" and st: "tstate x = STOPPED"
    and n: "\<not> queued L t" and to: "timeout \<noteq> NO_TIMEOUT" "bios_clock s + timeout \<noteq> NO_TIMEOUT"
  obtains s' L' where "sched_register_timeout t timeout s = Inr s'" and "sched_inv pc s' L' hs"
    and "sched_frame s s'" and "cctx s' = cctx s" and "saved_preempt s' = saved_preempt s"
    and "tcbs s' = (tcbs s)(t \<mapsto> x\<lparr>wakeup_time := bios_clock s + timeout\<rparr>)"
proof -
  let ?wt = "bios_clock s + timeout" and ?TL = "L TimeoutList"
  let ?x' = "x\<lparr>wakeup_time := ?wt\<rparr>" and ?L' = "L(TimeoutList := timeout_insert s t (bios_clock s + timeout) (L TimeoutList))"
  obtain s' where s': "sched_register_timeout t timeout s = Inr s'" "sched_abs s' ?L' hs"
    "same_lists s s'" "s' = s\<lparr>rl := rl s', tcbs := (tcbs s)(t \<mapsto> ?x')\<rparr>"
    by (rule register_timeout_abs [OF sched_inv_abs [OF inv] x n to(1)])
  have "s' = s\<lparr>rl := rl s', cores := cores s, tcbs := (tcbs s)(t \<mapsto> ?x')\<rparr>"
    by (rule trans [OF s'(4)]) simp
  note f = sched_frame_upd [OF this s'(3)]
  have mem: "set (timeout_insert s t ?wt ?TL) = insert t (set ?TL)"
    unfolding timeout_insert_def
    by (metis (no_types) Un_insert_right list.simps(15) set_append takeWhile_dropWhile_id)
  have nt: "t \<notin> set ?TL" using n by (auto simp: queued_def)
  have other: "thread_ok pc s' ?L' u y" if "u \<noteq> t" "tcbs s u = Some y" for u y
    using thread_ok_cong [OF f(2,3), of u ?L' L pc y] sched_inv_thread [OF inv that(2)] mem that(1)
    by auto
  note ok = thread_okD [OF sched_inv_thread [OF inv x]]
  have "thread_ok pc s ?L' t ?x'"
    using ok st to(2) mem
    by (auto simp: thread_ok_def idle_ok_def phase_ok_def state_ok_def queue_ok_def timeout_ok_def)
  then have this_ok: "thread_ok pc s' ?L' t ?x'" using thread_ok_cong [OF f(2,3)] by blast
  have "sorted (wakeup_times s' ?L')"
    unfolding wakeup_times_def fun_upd_same timeout_insert_def
    by (rule sorted_timeout_insert) (use inv nt f(1) in \<open>auto simp: sched_inv_def wakeup_times_def\<close>)
  moreover have "{a. tcbs s' (HeapT a) \<noteq> None} = {a. tcbs s (HeapT a) \<noteq> None}" using f(1) x by auto
  ultimately have "sched_inv pc s' ?L' hs"
    using inv s'(2) this_ok other f core_preds_cong [OF f(2,3), of pc]
    by (auto simp: sched_inv_def)
  with s'(1) f show ?thesis by (intro that)
qed

section \<open>Choosing the next thread\<close>

text \<open>The thread that \<open>sched_queue_select\<close> returns may be switched to.\<close>

lemma next_thread_ok:
  assumes inv: "sched_inv pc s L hs" and c: "c < ncores s" "pc c = Sleeping z"
    and cur: "cur = current_thread (cctx s c)" and x: "tcbs s cur = Some x"
    and n: "n = next_thread_spec c cur x L" and y: "tcbs s n = Some y"
  shows "tstate y = READY" and "n \<noteq> cur \<Longrightarrow> \<not> on_core pc s d n"
    and "n = IdleT e \<Longrightarrow> n \<noteq> cur \<Longrightarrow> e = c"
    and "next_level L = Some i \<Longrightarrow> ttype y = NORMAL_THREAD \<and> tphase y = CTX_CLEAN \<and> priority y = i"
    and "next_level L = None \<Longrightarrow> n = cur \<or> ttype y = IDLE_THREAD"
proof -
  note ok = thread_okD [OF sched_inv_thread [OF inv y]]
  have d: "dirty_on pc s c cur" using c cur by (simp add: dirty_on_def)
  have Q: "tstate y = READY \<and> ttype y = NORMAL_THREAD \<and> tphase y = CTX_CLEAN \<and> priority y = i \<and>
      (\<forall>d. \<not> on_core pc s d n)" if i: "next_level L = Some i" for i
  proof -
    from next_level_Some [OF i] have m: "SchedQ i \<in> sched_sentinels" "n \<in> set (L (SchedQ i))"
      using n i by (auto simp: next_thread_spec_def)
    from queue_okD(3) [OF ok(4) m(1)] m(2) have q: "ttype y = NORMAL_THREAD" "tstate y = READY"
      "tphase y = CTX_CLEAN" "priority y = i" "\<And>c. \<not> incoming pc s c n" by blast+
    have "\<not> dirty_on pc s d n" for d using ok(2) q(3) unfolding phase_ok_def by auto
    with q show ?thesis by (simp add: on_core_def)
  qed
  have I: "tstate y = READY \<and> ttype y = IDLE_THREAD \<and> (n \<noteq> cur \<longrightarrow> (\<forall>d. \<not> on_core pc s d n))"
    if i: "n = IdleT c"
  proof -
    have only: "on_core pc s d n \<Longrightarrow> d = c" for d using idle_okD(4) [OF ok(1) i] .
    have "\<not> dirty_on pc s d n \<or> pc d \<noteq> Running" for d
      using only [of d] on_core_dirty c by fastforce
    then have "tstate y \<noteq> RUNNING" using ok(3) unfolding state_ok_def by blast
    moreover have "on_core pc s c n \<Longrightarrow> n = cur"
      using c cur by (auto simp: on_core_def dirty_on_def incoming_def)
    ultimately show ?thesis using idle_okD(1,3) [OF ok(1)] i only by blast
  qed
  have N: "n = cur \<and> tstate y = READY \<or> n = IdleT c" if "next_level L = None"
    using that n x y by (auto simp: next_thread_spec_def split: if_splits)
  show "tstate y = READY" using Q I N by (cases "next_level L") blast+
  show "n \<noteq> cur \<Longrightarrow> \<not> on_core pc s d n" using Q I N by (cases "next_level L") blast+
  show "n = IdleT e \<Longrightarrow> n \<noteq> cur \<Longrightarrow> e = c"
  proof (cases "next_level L")
    case (Some i)
    assume "n = IdleT e"
    then have "ttype y = IDLE_THREAD" using idle_okD(1) [OF ok(1)] by blast
    with Q [OF Some] show "e = c" by simp
  qed (use N in auto)
  show "next_level L = Some i \<Longrightarrow> ttype y = NORMAL_THREAD \<and> tphase y = CTX_CLEAN \<and> priority y = i"
    using Q by blast
  show "next_level L = None \<Longrightarrow> n = cur \<or> ttype y = IDLE_THREAD" using N I by blast
qed

lemma select_lists_mem:
  assumes d: "\<And>l. l \<in> sched_sentinels \<Longrightarrow> distinct (L l)" and l: "l \<in> sched_sentinels"
    and n: "n = next_thread_spec c cur x L"
  shows "u \<in> set (select_lists L l) \<longleftrightarrow>
    u \<in> set (L l) \<and> \<not> (u = n \<and> (\<exists>i. next_level L = Some i \<and> l = SchedQ i))"
proof (cases "next_level L")
  case (Some i)
  note s = next_level_Some [OF Some]
  obtain v vs where v: "L (SchedQ i) = v # vs" using s by (cases "L (SchedQ i)") auto
  with d [of "SchedQ i"] s have "v \<notin> set vs" by auto
  with Some n v show ?thesis by (auto simp: select_lists_def next_thread_spec_def)
qed (simp add: select_lists_def)

lemma select_lists_TimeoutList [simp]: "select_lists L TimeoutList = L TimeoutList"
  by (simp add: select_lists_def split: option.split)

text \<open>What the switch of core \<open>c\<close> to thread \<open>n\<close> does to the CCBs.\<close>

definition switched :: "nat \<Rightarrow> tref \<Rightarrow> kernel \<Rightarrow> kernel \<Rightarrow> bool" where
  "switched c n s s' \<longleftrightarrow> ncores s' = ncores s \<and>
     (\<forall>d. current_thread (cctx s' d) = (if d = c then n else current_thread (cctx s d))) \<and>
     (\<forall>d. previous_thread (cctx s' d) =
        (if d = c then current_thread (cctx s c) else previous_thread (cctx s d)))"

lemma switchedD:
  assumes "switched c n s s'"
  shows "ncores s' = ncores s"
    and "current_thread (cctx s' d) = (if d = c then n else current_thread (cctx s d))"
    and "previous_thread (cctx s' d) =
        (if d = c then current_thread (cctx s c) else previous_thread (cctx s d))"
  using assms by (simp_all add: switched_def)

lemma switch_core_preds:
  assumes c: "c < ncores s" "pc c = Sleeping z" and cur: "cur = current_thread (cctx s c)"
    and s': "switched c n s s'"
  shows "dirty_on (pc(c := Switching)) s' d t = dirty_on pc s d t"
    and "incoming (pc(c := Switching)) s' d t = (incoming pc s d t \<or> d = c \<and> t = n \<and> n \<noteq> cur)"
    and "on_core (pc(c := Switching)) s' d t = (on_core pc s d t \<or> d = c \<and> t = n \<and> n \<noteq> cur)"
proof -
  show 1: "dirty_on (pc(c := Switching)) s' d t = dirty_on pc s d t"
    by (cases "d = c") (use c in \<open>simp_all add: dirty_on_def switchedD [OF s']\<close>)
  show 2: "incoming (pc(c := Switching)) s' d t = (incoming pc s d t \<or> d = c \<and> t = n \<and> n \<noteq> cur)"
    by (cases "d = c") (use c cur in \<open>auto simp: incoming_def switchedD [OF s']\<close>)
  show "on_core (pc(c := Switching)) s' d t = (on_core pc s d t \<or> d = c \<and> t = n \<and> n \<noteq> cur)"
    unfolding on_core_def 1 2 by blast
qed

lemma switch_inv:
  assumes inv: "sched_inv pc s L hs" and c: "c < ncores s" "pc c = Sleeping z"
    and cur: "cur = current_thread (cctx s c)" and x: "tcbs s cur = Some x"
    and n: "n = next_thread_spec c cur x L" and y: "tcbs s n = Some y"
    and s': "switched c n s s'"
    and t': "tcbs s' = (tcbs s)(n \<mapsto> y\<lparr>its := q\<rparr>)" and act: "active_threads s' = active_threads s"
    and abs: "sched_abs s' (select_lists L) hs"
  shows "sched_inv (pc(c := Switching)) s' (select_lists L) hs"
proof -
  let ?pc = "pc(c := Switching)" and ?L = "select_lists L"
  note cp = switch_core_preds [where pc = pc, OF c cur s']
  note nc = switchedD(1) [OF s']
  note nx = next_thread_ok [OF inv c cur x n y]
  note mem = select_lists_mem [OF sched_abs_distinct [OF sched_inv_abs [OF inv]] _ n]
  have ok: "thread_ok ?pc s' ?L u w'" if w: "tcbs s u = Some w"
    and w': "w' = w \<or> w' = w\<lparr>its := q\<rparr>" for u w w'
  proof -
    note t = thread_okD [OF sched_inv_thread [OF inv w]]
    have f: "ttype w' = ttype w" "tphase w' = tphase w" "tstate w' = tstate w"
      "priority w' = priority w" "wakeup_time w' = wakeup_time w" using w' by auto
    have ready: "u = n \<Longrightarrow> tstate w = READY" using nx(1) w y by simp
    have "idle_ok ?pc s' u w'"
      using t(1) nx(3) unfolding idle_ok_def f cp nc by blast
    moreover have "phase_ok ?pc s' u w'" using t(2) unfolding phase_ok_def f cp .
    moreover have "state_ok ?pc s' u w'"
    proof -
      have "?pc d = Running \<longleftrightarrow> pc d = Running" for d using c by simp
      moreover have "tstate w = READY"
        if "d < ncores s" "?pc d = Switching" "current_thread (cctx s' d) = u" for d
        using that t(3) ready unfolding state_ok_def switchedD(2) [OF s'] by (cases "d = c") auto
      ultimately show ?thesis using t(3) unfolding state_ok_def f cp nc by blast
    qed
    moreover have "queue_ok ?pc s' ?L u w'"
    proof (cases "u = n")
      case False
      then show ?thesis using t(4) mem unfolding queue_ok_def f cp by blast
    next
      case True
      with w y have wy: "w = y" by simp
      have dirty: "n = cur \<Longrightarrow> tphase y = CTX_DIRTY"
        using t(2) True wy c cur unfolding phase_ok_def dirty_on_def by auto
      show ?thesis
      proof (cases "next_level L")
        case (Some i)
        then have "n \<noteq> cur" using nx(4) dirty by auto
        with Some nx(4) [OF Some] True wy t(4) mem show ?thesis
          unfolding queue_ok_def f cp by blast
      next
        case None
        then have "n = cur \<and> tphase y \<noteq> CTX_CLEAN \<or> ttype y \<noteq> NORMAL_THREAD"
          using nx(5) dirty by auto
        with None True wy t(4) mem show ?thesis unfolding queue_ok_def f cp by blast
      qed
    qed
    moreover have "timeout_ok ?L u w'" using t(5) unfolding timeout_ok_def f by simp
    ultimately show ?thesis by (simp add: thread_ok_def)
  qed
  have "thread_ok ?pc s' ?L u w" if "tcbs s' u = Some w" for u w
    using that t' y ok by (auto split: if_splits)
  moreover have "\<forall>d u. on_core ?pc s' d u \<longrightarrow> tcbs s' u \<noteq> None"
    using inv y t' unfolding sched_inv_def cp by auto
  moreover have "\<forall>d e u. on_core ?pc s' d u \<longrightarrow> on_core ?pc s' e u \<longrightarrow> d = e"
    using sched_inv_excl [OF inv] nx(2) unfolding cp by blast
  moreover have "wakeup_times s' ?L = wakeup_times s L"
    using t' y by (auto simp: wakeup_times_def)
  moreover have "{a. tcbs s' (HeapT a) \<noteq> None} = {a. tcbs s (HeapT a) \<noteq> None}"
    and "dom (tcbs s') = dom (tcbs s)" using t' y by auto
  moreover have "\<forall>c < ncores s'. tcbs s' (IdleT c) \<noteq> None" using inv t' nc
    by (auto simp: sched_inv_def)
  ultimately show ?thesis
    using inv act abs by (simp add: sched_inv_def)
qed

end
