(* ===== verification/Sched_Gain.thy ===== *)
theory Sched_Gain
  imports Sched_Switch
begin

text \<open>
  The second half of a context switch: \<open>gain\<close> keeps the scheduler's invariant and meets
  none of its faults.  The thread that gains the core becomes \<open>RUNNING\<close>, and the one that
  lost it goes to the queue of its level, stays blocked, or is freed.
\<close>

section \<open>Taking over the core\<close>

text \<open>
  The thread \<open>y\<close> that has lost its core: freed if it has exited, and otherwise left with a
  clean context, in the queue of its level if it is a normal thread that is ready.
\<close>

definition disposed :: "tcb \<Rightarrow> tcb option \<Rightarrow> bool" where
  "disposed y py \<longleftrightarrow> (tstate y = EXITED \<and> py = None) \<or>
     (tstate y \<in> {READY, STOPPED} \<and> py = Some (y\<lparr>tphase := CTX_CLEAN\<rparr>))"

definition gained_lists ::
  "tref \<Rightarrow> tref \<Rightarrow> tcb \<Rightarrow> (node \<Rightarrow> tref list) \<Rightarrow> (node \<Rightarrow> tref list)" where
  "gained_lists cur prev y L =
     (if cur \<noteq> prev \<and> tstate y = READY \<and> ttype y = NORMAL_THREAD
      then L(SchedQ (priority y) := L (SchedQ (priority y)) @ [prev]) else L)"

lemma gained_lists_TimeoutList [simp]: "gained_lists cur prev y L TimeoutList = L TimeoutList"
  by (simp add: gained_lists_def)

lemma gained_lists_mem:
  "u \<in> set (gained_lists cur prev y L (SchedQ i)) \<longleftrightarrow> u \<in> set (L (SchedQ i)) \<or>
     u = prev \<and> cur \<noteq> prev \<and> tstate y = READY \<and> ttype y = NORMAL_THREAD \<and> priority y = i"
  by (auto simp: gained_lists_def)

text \<open>The two threads of a switch that is under way.\<close>

lemma switching_threads:
  assumes inv: "sched_inv pc s L hs" and c: "c < ncores s" "pc c = Switching"
    and cur: "cur = current_thread (cctx s c)" and prev: "prev = previous_thread (cctx s c)"
  obtains x y where "tcbs s cur = Some x" and "tcbs s prev = Some y" and "tstate x = READY"
    and "wakeup_time x = NO_TIMEOUT" and "dirty_on pc s c prev" and "on_core pc s c cur"
    and "tphase y = CTX_DIRTY" and "tstate y \<in> {READY, STOPPED, EXITED}"
    and "\<And>i. SchedQ i \<in> sched_sentinels \<Longrightarrow> cur \<notin> set (L (SchedQ i)) \<and> prev \<notin> set (L (SchedQ i))"
    and "ttype y = IDLE_THREAD \<Longrightarrow> tstate y = READY"
    and "tstate y \<noteq> STOPPED \<Longrightarrow> wakeup_time y = NO_TIMEOUT"
proof -
  have d: "dirty_on pc s c prev" using c prev by (simp add: dirty_on_def)
  have on: "on_core pc s c cur" using c prev cur by (auto simp: on_core_def dirty_on_def incoming_def)
  obtain x where x: "tcbs s cur = Some x" using sched_inv_live [OF inv on] ..
  obtain y where y: "tcbs s prev = Some y" using sched_inv_live [OF inv on_core_dirty [OF d]] ..
  note okx = thread_okD [OF sched_inv_thread [OF inv x]] and oky = thread_okD [OF sched_inv_thread [OF inv y]]
  have r: "tstate x = READY" using okx(3) c cur unfolding state_ok_def by blast
  have dy: "tphase y = CTX_DIRTY" using oky(2) d unfolding phase_ok_def by blast
  have "\<not> (dirty_on pc s e prev \<and> pc e = Running)" for e
    using sched_inv_excl [OF inv on_core_dirty [OF d] on_core_dirty [of pc s e prev]] c by auto
  then have "tstate y \<noteq> RUNNING" using oky(3) unfolding state_ok_def by blast
  moreover have "tstate y \<noteq> INIT" using oky(2) dy unfolding phase_ok_def by auto
  ultimately have st: "tstate y \<in> {READY, STOPPED, EXITED}" by (cases "tstate y") auto
  have np: "prev \<notin> set (L (SchedQ i))" if "SchedQ i \<in> sched_sentinels" for i
    using queue_okD(3) [OF oky(4) that] dy by auto
  have nc: "cur \<notin> set (L (SchedQ i))" if "SchedQ i \<in> sched_sentinels" for i
  proof (cases "cur = prev")
    case False
    then have "incoming pc s c cur" using c cur prev by (simp add: incoming_def)
    with queue_okD(3) [OF okx(4) that] show ?thesis by blast
  qed (use np that in simp)
  have "ttype y = IDLE_THREAD \<Longrightarrow> tstate y = READY" using idle_okD(1,3) [OF oky(1)] st by auto
  moreover have "wakeup_time x = NO_TIMEOUT" using okx(5) r unfolding timeout_ok_def by auto
  moreover have "tstate y \<noteq> STOPPED \<Longrightarrow> wakeup_time y = NO_TIMEOUT"
    using oky(5) unfolding timeout_ok_def by auto
  ultimately show ?thesis using np nc by (intro that [OF x y r _ d on dy st]) simp_all
qed

lemma card_release:
  assumes "finite (dom f)" and "f (HeapT a) \<noteq> None"
  shows "(of_nat (card {b. (f(HeapT a := None)) (HeapT b) \<noteq> None}) :: uint) =
    of_nat (card {b. f (HeapT b) \<noteq> None}) - 1"
proof -
  let ?A = "{b. f (HeapT b) \<noteq> None}"
  have "HeapT ` ?A \<subseteq> dom f" by auto
  then have "finite (HeapT ` ?A)" using assms(1) by (rule finite_subset)
  then have fin: "finite ?A" by (rule finite_imageD) (simp add: inj_on_def)
  have "{b. (f(HeapT a := None)) (HeapT b) \<noteq> None} = ?A - {a}" by auto
  moreover have "card ?A = Suc (card (?A - {a}))" by (rule card.remove [OF fin]) (use assms(2) in simp)
  ultimately show ?thesis by simp
qed

text \<open>
  What \<open>gain\<close> does to the state, for the thread \<open>x\<close> that gains core \<open>c\<close> from
  \<open>y\<close>; \<open>py\<close> is what is left of the latter.
\<close>

definition gained ::
  "nat \<Rightarrow> tcb \<Rightarrow> tcb \<Rightarrow> tcb option \<Rightarrow> kernel \<Rightarrow> kernel \<Rightarrow> bool" where
  "gained c x y py s s' \<longleftrightarrow>
     (let cur = current_thread (cctx s c); prev = previous_thread (cctx s c) in
      ncores s' = ncores s \<and>
      (\<forall>d. current_thread (cctx s' d) = current_thread (cctx s d) \<and>
           previous_thread (cctx s' d) = previous_thread (cctx s d)) \<and>
      tcbs s cur = Some x \<and> tcbs s prev = Some y \<and>
      tcbs s' = (tcbs s)(prev := py, cur \<mapsto> x\<lparr>tstate := RUNNING, tphase := CTX_DIRTY, rts := its x\<rparr>) \<and>
      (cur \<noteq> prev \<longrightarrow> disposed y py) \<and>
      active_threads s' = active_threads s - (if cur \<noteq> prev \<and> py = None then 1 else 0))"

lemma gainedD:
  assumes "gained c x y py s s'" and "cur = current_thread (cctx s c)" and "prev = previous_thread (cctx s c)"
  shows "ncores s' = ncores s" and "current_thread (cctx s' d) = current_thread (cctx s d)"
    and "previous_thread (cctx s' d) = previous_thread (cctx s d)"
    and "tcbs s cur = Some x" and "tcbs s prev = Some y"
    and "tcbs s' = (tcbs s)(prev := py, cur \<mapsto> x\<lparr>tstate := RUNNING, tphase := CTX_DIRTY, rts := its x\<rparr>)"
    and "cur \<noteq> prev \<Longrightarrow> disposed y py"
    and "active_threads s' = active_threads s - (if cur \<noteq> prev \<and> py = None then 1 else 0)"
  using assms(1) unfolding gained_def Let_def assms(2,3) by blast+

lemma gain_core_preds:
  assumes c: "c < ncores s" "pc c = Switching" and cur: "cur = current_thread (cctx s c)"
    and g: "gained c x y py s s'"
  shows "dirty_on (pc(c := Running)) s' d t = (if d = c then t = cur else dirty_on pc s d t)"
    and "incoming (pc(c := Running)) s' d t = (d \<noteq> c \<and> incoming pc s d t)"
    and "on_core (pc(c := Running)) s' d t = (if d = c then t = cur else on_core pc s d t)"
  using c cur by (auto simp: dirty_on_def incoming_def on_core_def gainedD(1-3) [OF g])

text \<open>No other core has a hand on either thread, and none is newly taken.\<close>

lemma gain_only:
  assumes inv: "sched_inv pc s L hs" and c: "c < ncores s" "pc c = Switching"
    and cur: "cur = current_thread (cctx s c)" and prev: "prev = previous_thread (cctx s c)"
    and g: "gained c x y py s s'"
  shows "on_core pc s d cur \<Longrightarrow> d = c" and "on_core pc s d prev \<Longrightarrow> d = c"
    and "on_core (pc(c := Running)) s' d u \<Longrightarrow> on_core pc s d u"
proof -
  have on: "on_core pc s c cur" "on_core pc s c prev"
    using c prev cur by (auto simp: on_core_def dirty_on_def incoming_def)
  then show "on_core pc s d cur \<Longrightarrow> d = c" and "on_core pc s d prev \<Longrightarrow> d = c"
    using sched_inv_excl [OF inv] by blast+
  show "on_core (pc(c := Running)) s' d u \<Longrightarrow> on_core pc s d u"
    using on gain_core_preds(3) [where pc = pc, OF c cur g] by (auto split: if_splits)
qed

lemma gained_current_ok:
  assumes inv: "sched_inv pc s L hs" and c: "c < ncores s" "pc c = Switching"
    and cur: "cur = current_thread (cctx s c)" and prev: "prev = previous_thread (cctx s c)"
    and g: "gained c x y py s s'"
  shows "thread_ok (pc(c := Running)) s' (gained_lists cur prev y L) cur
    (x\<lparr>tstate := RUNNING, tphase := CTX_DIRTY, rts := its x\<rparr>)" (is "thread_ok ?pc s' ?L cur ?x'")
proof -
  note cp = gain_core_preds [where pc = pc, OF c cur g] and only = gain_only [OF inv c cur prev g]
  note gd = gainedD [OF g cur prev]
  obtain w: "tstate x = READY" "wakeup_time x = NO_TIMEOUT"
    and nq: "\<And>i. SchedQ i \<in> sched_sentinels \<Longrightarrow> cur \<notin> set (L (SchedQ i)) \<and> prev \<notin> set (L (SchedQ i))"
    by (rule switching_threads [OF inv c cur prev]) (use gd(4) in auto)
  note t = thread_okD [OF sched_inv_thread [OF inv gd(4)]]
  have "idle_ok ?pc s' cur ?x'" using t(1) only(3) unfolding idle_ok_def gd(1) by auto
  moreover have "phase_ok ?pc s' cur ?x'" unfolding phase_ok_def cp by auto
  moreover have "state_ok ?pc s' cur ?x'"
    unfolding state_ok_def cp gd(1,2) using cur only(1)
    by (auto simp: on_core_def incoming_def dirty_on_def)
  moreover have "queue_ok ?pc s' ?L cur ?x'"
    using t(4) nq unfolding queue_ok_def gained_lists_mem by auto
  moreover have "timeout_ok ?L cur ?x'" using t(5) w unfolding timeout_ok_def by simp
  ultimately show ?thesis by (simp add: thread_ok_def)
qed

lemma gained_previous_ok:
  assumes inv: "sched_inv pc s L hs" and c: "c < ncores s" "pc c = Switching"
    and cur: "cur = current_thread (cctx s c)" and prev: "prev = previous_thread (cctx s c)"
    and g: "gained c x y py s s'" and ne: "cur \<noteq> prev" and z: "py = Some z"
  shows "thread_ok (pc(c := Running)) s' (gained_lists cur prev y L) prev z" (is "thread_ok ?pc s' ?L prev z")
proof -
  note cp = gain_core_preds [where pc = pc, OF c cur g] and only = gain_only [OF inv c cur prev g]
  note gd = gainedD [OF g cur prev]
  obtain nq: "\<And>i. SchedQ i \<in> sched_sentinels \<Longrightarrow> cur \<notin> set (L (SchedQ i)) \<and> prev \<notin> set (L (SchedQ i))"
    by (rule switching_threads [OF inv c cur prev]) auto
  from gd(7) [OF ne] z have z: "z = y\<lparr>tphase := CTX_CLEAN\<rparr>" and st: "tstate y \<in> {READY, STOPPED}"
    by (auto simp: disposed_def)
  note t = thread_okD [OF sched_inv_thread [OF inv gd(5)]]
  have nd: "\<not> dirty_on ?pc s' d prev" "\<not> incoming ?pc s' d prev" for d
    using only(2) [of d] ne unfolding cp by (auto simp: on_core_def)
  have "idle_ok ?pc s' prev z" using t(1) only(3) unfolding idle_ok_def gd(1) z by auto
  moreover have "phase_ok ?pc s' prev z" using nd st unfolding phase_ok_def z by auto
  moreover have "state_ok ?pc s' prev z"
  proof -
    have "tstate z = READY" if "d < ncores s" "?pc d = Switching" "current_thread (cctx s d) = prev" for d
      using t(3) that z unfolding state_ok_def by (cases "d = c") auto
    moreover have "tstate z \<noteq> RUNNING" using st z by auto
    ultimately show ?thesis using nd(1) unfolding state_ok_def gd(1,2) by blast
  qed
  moreover have "queue_ok ?pc s' ?L prev z"
    using t(4) nq nd(2) ne unfolding queue_ok_def gained_lists_mem z by auto
  moreover have "timeout_ok ?L prev z" using t(5) unfolding timeout_ok_def z by simp
  ultimately show ?thesis by (simp add: thread_ok_def)
qed

lemma gained_other_ok:
  assumes inv: "sched_inv pc s L hs" and c: "c < ncores s" "pc c = Switching"
    and cur: "cur = current_thread (cctx s c)" and prev: "prev = previous_thread (cctx s c)"
    and g: "gained c x y py s s'" and ne: "u \<noteq> cur" "u \<noteq> prev" and z: "tcbs s u = Some z"
  shows "thread_ok (pc(c := Running)) s' (gained_lists cur prev y L) u z" (is "thread_ok ?pc s' ?L u z")
proof -
  note cp = gain_core_preds [where pc = pc, OF c cur g] and gd = gainedD [OF g cur prev]
  note t = thread_okD [OF sched_inv_thread [OF inv z]]
  have nc: "\<not> dirty_on pc s c u" "\<not> incoming pc s c u"
    using ne c cur prev by (auto simp: dirty_on_def incoming_def)
  then have eq: "dirty_on ?pc s' d u = dirty_on pc s d u" "incoming ?pc s' d u = incoming pc s d u"
    "on_core ?pc s' d u = on_core pc s d u" for d
    using ne unfolding cp by (auto simp: on_core_def)
  have pcs: "?pc d = Running \<and> dirty_on pc s d u \<longleftrightarrow> pc d = Running \<and> dirty_on pc s d u" for d
    using nc by auto
  have "idle_ok ?pc s' u z" using t(1) unfolding idle_ok_def eq gd(1) .
  moreover have "phase_ok ?pc s' u z" using t(2) unfolding phase_ok_def eq .
  moreover have "state_ok ?pc s' u z"
  proof -
    have "tstate z = READY" if "d < ncores s" "?pc d = Switching" "current_thread (cctx s d) = u" for d
      using t(3) that unfolding state_ok_def by (cases "d = c") auto
    then show ?thesis using t(3) pcs unfolding state_ok_def eq gd(1,2) by blast
  qed
  moreover have "queue_ok ?pc s' ?L u z"
    using t(4) ne unfolding queue_ok_def gained_lists_mem eq by blast
  moreover have "timeout_ok ?L u z" using t(5) unfolding timeout_ok_def by simp
  ultimately show ?thesis by (simp add: thread_ok_def)
qed

text \<open>A thread that is released has exited, so it is a thread of the heap and waits for nothing.\<close>

lemma gained_released:
  assumes inv: "sched_inv pc s L hs" and g: "gained c x y py s s'"
    and cur: "cur = current_thread (cctx s c)" and prev: "prev = previous_thread (cctx s c)"
    and ne: "cur \<noteq> prev" "py = None"
  shows "tstate y = EXITED" and "\<exists>a. prev = HeapT a"
proof -
  note gd = gainedD [OF g cur prev]
  show "tstate y = EXITED" using gd(7) ne by (auto simp: disposed_def)
  then show "\<exists>a. prev = HeapT a"
    using idle_okD(3) [OF thread_okD(1) [OF sched_inv_thread [OF inv gd(5)]]] by (cases prev) auto
qed

lemma gained_wakeup_times:
  assumes inv: "sched_inv pc s L hs" and g: "gained c x y py s s'"
  shows "wakeup_times s' (gained_lists cur prev y L) = wakeup_times s L"
proof -
  note gd = gainedD [OF g refl refl]
  let ?cur = "current_thread (cctx s c)" and ?prev = "previous_thread (cctx s c)"
  have "wakeup_time (the (tcbs s' u)) = wakeup_time (the (tcbs s u))" if "u \<in> set (L TimeoutList)" for u
  proof (cases "u = ?prev \<and> u \<noteq> ?cur")
    case True
    then have "tstate y = STOPPED"
      using that thread_okD(5) [OF sched_inv_thread [OF inv gd(5)]] by (auto simp: timeout_ok_def)
    with gd(5,7) True show ?thesis by (auto simp: gd(6) disposed_def)
  qed (use gd(4) in \<open>auto simp: gd(6)\<close>)
  then show ?thesis by (simp add: wakeup_times_def)
qed

lemma gained_active_threads:
  assumes inv: "sched_inv pc s L hs" and g: "gained c x y py s s'"
  shows "active_threads s' = of_nat (card {a. tcbs s' (HeapT a) \<noteq> None})"
proof -
  note gd = gainedD [OF g refl refl]
  let ?cur = "current_thread (cctx s c)" and ?prev = "previous_thread (cctx s c)"
  have old: "finite (dom (tcbs s))" "active_threads s = of_nat (card {a. tcbs s (HeapT a) \<noteq> None})"
    using inv by (simp_all add: sched_inv_def)
  show ?thesis
  proof (cases "?cur \<noteq> ?prev \<and> py = None")
    case True
    then obtain a where a: "?prev = HeapT a" using gained_released(2) [OF inv g refl refl] by blast
    have "tcbs s' (HeapT b) \<noteq> None \<longleftrightarrow> ((tcbs s)(HeapT a := None)) (HeapT b) \<noteq> None" for b
      using True a gd(4) unfolding gd(6) by (cases "HeapT b = ?cur") auto
    then have "{b. tcbs s' (HeapT b) \<noteq> None} = {b. ((tcbs s)(HeapT a := None)) (HeapT b) \<noteq> None}"
      by simp
    moreover have "tcbs s (HeapT a) \<noteq> None" using gd(5) a by simp
    moreover have "active_threads s' = active_threads s - 1" using gd(8) True by simp
    ultimately show ?thesis using card_release [OF old(1)] old(2) by simp
  next
    case False
    then have "tcbs s' u \<noteq> None \<longleftrightarrow> tcbs s u \<noteq> None" for u
      using gd(4,5) unfolding gd(6) by (cases "u = ?cur"; cases "u = ?prev") auto
    moreover have "active_threads s' = active_threads s" using gd(8) False by simp
    ultimately show ?thesis using old(2) by simp
  qed
qed

lemma gained_inv:
  assumes inv: "sched_inv pc s L hs" and c: "c < ncores s" "pc c = Switching"
    and cur: "cur = current_thread (cctx s c)" and prev: "prev = previous_thread (cctx s c)"
    and g: "gained c x y py s s'" and abs: "sched_abs s' (gained_lists cur prev y L) hs'"
  shows "sched_inv (pc(c := Running)) s' (gained_lists cur prev y L) hs'"
proof -
  note gd = gainedD [OF g cur prev] and only = gain_only [OF inv c cur prev g]
  have "thread_ok (pc(c := Running)) s' (gained_lists cur prev y L) u z" if z: "tcbs s' u = Some z" for u z
    using z gained_current_ok [OF inv c cur prev g] gained_previous_ok [OF inv c cur prev g]
      gained_other_ok [OF inv c cur prev g]
    unfolding gd(6) by (auto split: if_splits)
  moreover have "tcbs s' u \<noteq> None" if on: "on_core (pc(c := Running)) s' d u" for d u
  proof (cases "u = prev \<and> u \<noteq> cur")
    case True
    with only(2) [OF only(3) [OF on [unfolded True [THEN conjunct1]]]] on
    show ?thesis unfolding gain_core_preds [where pc = pc, OF c cur g] by simp
  qed (use sched_inv_live [OF inv only(3) [OF on]] in \<open>auto simp: gd(6)\<close>)
  moreover have "\<forall>d e u. on_core (pc(c := Running)) s' d u \<longrightarrow> on_core (pc(c := Running)) s' e u \<longrightarrow> d = e"
    using sched_inv_excl [OF inv] only(3) by blast
  moreover have "tcbs s' (IdleT d) \<noteq> None" if "d < ncores s" for d
  proof -
    have "tcbs s (IdleT d) \<noteq> None" using inv that by (simp add: sched_inv_def)
    with gained_released(2) [OF inv g cur prev] show ?thesis unfolding gd(6) by auto
  qed
  moreover have "finite (dom (tcbs s'))" "sorted (wakeup_times s L)"
    using inv unfolding gd(6) by (simp_all add: sched_inv_def)
  ultimately show ?thesis
    using abs gd(1) gained_wakeup_times [OF inv g] gained_active_threads [OF inv g]
    unfolding sched_inv_def by simp
qed

section \<open>The function \<open>gain\<close>\<close>

lemma release_abs:
  assumes a: "sched_abs s L hs" and n: "\<not> queued L t"
  shows "sched_abs (release_TCB t s) L hs"
proof -
  have "set (L l) \<subseteq> dom (tcbs s) - {t}" if "l \<in> sched_sentinels" for l
    using a n that by (auto simp: sched_abs_def queued_def)
  with a show ?thesis by (simp add: sched_abs_def release_TCB_def)
qed

text \<open>What is done with the thread that lost the core.\<close>

definition dispose :: "tref \<Rightarrow> tcb \<Rightarrow> kernel \<Rightarrow> kernel result" where
  "dispose prev y s1 =
     (let s2 = set_tcb prev (y\<lparr>tphase := CTX_CLEAN\<rparr>) s1
      in if tstate y = READY
         then (if ttype y \<noteq> IDLE_THREAD then sched_queue_add prev s2 else Inr s2)
         else if tstate y = EXITED then Inr (release_TCB prev s2)
         else if tstate y = STOPPED then Inr s2
         else Inl AssertFail)"

lemma dispose_abs:
  assumes a: "sched_abs s L hs" and y: "tcbs s prev = Some y"
    and st: "tstate y \<in> {READY, STOPPED, EXITED}" and ne: "cur \<noteq> prev"
    and nq: "\<And>i. SchedQ i \<in> sched_sentinels \<Longrightarrow> prev \<notin> set (L (SchedQ i))"
    and to: "tstate y \<noteq> STOPPED \<Longrightarrow> prev \<notin> set (L TimeoutList)"
    and p: "0 \<le> priority y" "priority y < SCHED_MAX_LEVEL"
  obtains s' hs' py where "dispose prev y s = Inr s'" and "disposed y py"
    and "sched_abs s' (gained_lists cur prev y L) hs'" and "tcbs s' = (tcbs s)(prev := py)"
    and "cctx s' = cctx s" and "active_threads s' = active_threads s - (if py = None then 1 else 0)"
    and "sched_frame s s'" and "saved_preempt s' = saved_preempt s"
proof -
  let ?y = "y\<lparr>tphase := CTX_CLEAN\<rparr>"
  let ?s2 = "set_tcb prev ?y s"
  have a2: "sched_abs ?s2 L hs" using a y by simp
  have f2: "sched_frame s ?s2" by (simp add: sched_frame_def same_lists_def set_tcb_def)
  have unq: "tstate y \<noteq> STOPPED \<Longrightarrow> \<not> queued L prev"
    using nq to by (auto simp: queued_def elim!: sentinel_cases)
  consider (add) "tstate y = READY" "ttype y = NORMAL_THREAD" | (exit) "tstate y = EXITED"
    | (keep) "tstate y = STOPPED \<or> tstate y = READY \<and> ttype y = IDLE_THREAD"
    using st by (cases "ttype y") auto
  then show ?thesis
  proof cases
    case add
    have "tcbs ?s2 prev = Some ?y" "\<not> queued L prev" using unq add by auto
    then obtain s' where s': "sched_queue_add prev ?s2 = Inr s'"
      "sched_abs s' (L(SchedQ (priority ?y) := L (SchedQ (priority ?y)) @ [prev])) (tl hs)"
      "same_lists ?s2 s'" "s' = ?s2\<lparr>rl := rl s', cores := cores s'\<rparr>"
      by (rule queue_add_abs [OF a2]) (use p in simp_all)
    have "s' = ?s2\<lparr>rl := rl s', cores := cores s', tcbs := tcbs ?s2\<rparr>" by (rule trans [OF s'(4)]) simp
    note f = sched_frame_upd [OF this s'(3)]
    show ?thesis
      by (rule that [of s' "Some ?y" "tl hs"])
        (use s'(1,2) f add ne sched_frame_trans [OF f2 f(6)] in
          \<open>simp_all add: dispose_def disposed_def gained_lists_def\<close>)
  next
    case exit
    have "sched_abs (release_TCB prev ?s2) L hs" by (rule release_abs [OF a2]) (use unq exit in simp)
    moreover have "sched_frame s (release_TCB prev ?s2)"
      by (simp add: sched_frame_def same_lists_def set_tcb_def release_TCB_def)
    ultimately show ?thesis
      by (intro that [of "release_TCB prev ?s2" None hs])
        (use exit in \<open>simp_all add: dispose_def disposed_def gained_lists_def release_TCB_def\<close>)
  next
    case keep
    then show ?thesis
      by (intro that [of ?s2 "Some ?y" hs])
        (use a2 f2 in \<open>auto simp: dispose_def disposed_def gained_lists_def\<close>)
  qed
qed

lemma gain_unfold:
  assumes x: "tcbs s (current_thread (cctx s c)) = Some x"
    and y: "tcbs s (previous_thread (cctx s c)) = Some y"
    and s1: "s1 = set_tcb (current_thread (cctx s c)) (x\<lparr>tstate := RUNNING, tphase := CTX_DIRTY, rts := its x\<rparr>) s"
    and s3: "(if current_thread (cctx s c) \<noteq> previous_thread (cctx s c)
        then dispose (previous_thread (cctx s c)) y s1 else Inr s1) = Inr s3"
    and z: "tcbs s3 (current_thread (cctx s c)) = Some (x\<lparr>tstate := RUNNING, tphase := CTX_DIRTY, rts := its x\<rparr>)"
  shows "gain c preempt s = Inr (snd (bios_set_timer c (its x) (if preempt then preempt_on c s3 else s3)))"
proof (cases "current_thread (cctx s c) = previous_thread (cctx s c)")
  case True
  with s3 have "s3 = s1" by simp
  with True x y z s1 show ?thesis by (cases preempt) (simp_all add: gain_def CURTHREAD_def)
next
  case False
  have "gain c preempt s = rbind (dispose (previous_thread (cctx s c)) y s1) (\<lambda>s3.
      rbind (get_tcb (current_thread (cctx s c)) (if preempt then preempt_on c s3 else s3)) (\<lambda>z.
      Inr (snd (bios_set_timer c (rts z) (if preempt then preempt_on c s3 else s3)))))"
    unfolding s1 using False x y by (simp add: gain_def CURTHREAD_def dispose_def Let_def)
  moreover have "dispose (previous_thread (cctx s c)) y s1 = Inr s3" using s3 False by simp
  ultimately show ?thesis using z by simp
qed

lemma gain_inv:
  assumes inv: "sched_inv pc s L hs" and c: "c < ncores s" "pc c = Switching"
  obtains s' L' hs' where "gain c preempt s = Inr s'" and "sched_inv (pc(c := Running)) s' L' hs'"
    and "sched_frame s s'" and "threads_kept s s'" and "\<forall>d. current_thread (cctx s' d) = current_thread (cctx s d)"
proof -
  let ?cur = "current_thread (cctx s c)" and ?prev = "previous_thread (cctx s c)"
  obtain x y where x: "tcbs s ?cur = Some x" and y: "tcbs s ?prev = Some y" and st: "tstate y \<in> {READY, STOPPED, EXITED}"
    and nq: "\<And>i. SchedQ i \<in> sched_sentinels \<Longrightarrow> ?cur \<notin> set (L (SchedQ i)) \<and> ?prev \<notin> set (L (SchedQ i))"
    and wy: "tstate y \<noteq> STOPPED \<Longrightarrow> wakeup_time y = NO_TIMEOUT"
    by (rule switching_threads [OF inv c refl refl]) blast
  let ?x' = "x\<lparr>tstate := RUNNING, tphase := CTX_DIRTY, rts := its x\<rparr>"
  let ?s1 = "set_tcb ?cur ?x' s"
  note ok = thread_okD [OF sched_inv_thread [OF inv y]]
  have a1: "sched_abs ?s1 L hs" using sched_inv_abs [OF inv] x by simp
  have f1: "sched_frame s ?s1" by (simp add: sched_frame_def same_lists_def set_tcb_def)
  have "\<exists>s3 py hs'. (if ?cur \<noteq> ?prev then dispose ?prev y ?s1 else Inr ?s1) = Inr s3 \<and>
      gained c x y py s s3 \<and> sched_abs s3 (gained_lists ?cur ?prev y L) hs' \<and> sched_frame s s3"
  proof (cases "?cur = ?prev")
    case True
    with x y a1 f1 show ?thesis
      by (intro exI [of _ ?s1] exI [of _ "Some y"] exI [of _ hs])
        (simp add: gained_def gained_lists_def Let_def set_tcb_def)
  next
    case False
    have y1: "tcbs ?s1 ?prev = Some y" using y False by simp
    have to: "tstate y \<noteq> STOPPED \<Longrightarrow> ?prev \<notin> set (L TimeoutList)"
      using ok(5) wy by (auto simp: timeout_ok_def)
    obtain s3 hs' py where s3: "dispose ?prev y ?s1 = Inr s3" "disposed y py"
      "sched_abs s3 (gained_lists ?cur ?prev y L) hs'" "tcbs s3 = (tcbs ?s1)(?prev := py)"
      "cctx s3 = cctx ?s1" "active_threads s3 = active_threads ?s1 - (if py = None then 1 else 0)"
      "sched_frame ?s1 s3"
      by (rule dispose_abs [OF a1 y1 st False]) (use nq to queue_okD(1,2) [OF ok(4)] in auto)
    have "tcbs s3 = (tcbs s)(?prev := py, ?cur \<mapsto> ?x')"
      unfolding s3(4) using False by (simp add: fun_upd_twist)
    moreover have "ncores s3 = ncores s" using sched_frame_trans [OF f1 s3(7)] by (simp add: sched_frame_def)
    ultimately have "gained c x y py s s3"
      unfolding gained_def Let_def using x y s3(2,5,6) False by simp
    with s3(1,3) False sched_frame_trans [OF f1 s3(7)] show ?thesis by auto
  qed
  then obtain s3 py hs' where s3: "(if ?cur \<noteq> ?prev then dispose ?prev y ?s1 else Inr ?s1) = Inr s3"
    "gained c x y py s s3" "sched_abs s3 (gained_lists ?cur ?prev y L) hs'" "sched_frame s s3" by blast
  have "tcbs s3 ?cur = Some ?x'" using gainedD(6) [OF s3(2) refl refl] by simp
  from gain_unfold [OF x y refl s3(1) this]
  have g: "gain c preempt s = Inr (snd (bios_set_timer c (its x) (if preempt then preempt_on c s3 else s3)))" .
  have "sched_inv (pc(c := Running)) s3 (gained_lists ?cur ?prev y L) hs'"
    by (rule gained_inv [OF inv c refl refl s3(2,3)])
  then have "sched_inv (pc(c := Running)) (snd (bios_set_timer c (its x)
      (if preempt then preempt_on c s3 else s3))) (gained_lists ?cur ?prev y L) hs'"
    by (cases preempt) simp_all
  moreover have "sched_frame s3 (if preempt then preempt_on c s3 else s3)" by simp
  from sched_frame_trans [OF sched_frame_trans [OF s3(4) this] flags_frame(3)]
  have "sched_frame s (snd (bios_set_timer c (its x) (if preempt then preempt_on c s3 else s3)))" .
  moreover have "threads_kept s s3"
  proof (rule threads_keptI)
    fix t
    note g3 = gainedD(6,7) [OF s3(2) refl refl]
    have xr: "tstate x = READY" using thread_okD(3) [OF sched_inv_thread [OF inv x]] c unfolding state_ok_def by blast
    show "tcbs s t = None \<Longrightarrow> tcbs s3 t = None" using x y by (auto simp: g3(1))
    show "thread_kept z (tcbs s3 t)" if "tcbs s t = Some z" for z
      using that x y xr g3(2) by (auto simp: g3(1) thread_kept_def same_thread_def disposed_def split: option.splits if_splits)
  qed
  then have "threads_kept s (snd (bios_set_timer c (its x) (if preempt then preempt_on c s3 else s3)))"
    by (rule threads_kept_trans) (rule threads_kept_refl, simp)
  moreover have "current_thread (cctx s3 d) = current_thread (cctx s d)" for d
    by (rule gainedD(2) [OF s3(2) refl refl])
  ultimately show ?thesis by (intro that [OF g]) simp_all
qed

end
