(* ===== verification/Sched_Steps.thy ===== *)
theory Sched_Steps
  imports Sched_Gain
begin

text \<open>
  The steps of the scheduler keep its invariant and meet no fault: \<open>yield\<close>, \<open>wakeup\<close>,
  the marking of a thread that goes to sleep, the creation of a thread, and what the virtual
  machine does to the halted cores.
\<close>

section \<open>Yielding\<close>

lemma yield_priority_range:
  "0 \<le> p \<Longrightarrow> p < SCHED_MAX_LEVEL \<Longrightarrow> 0 \<le> yield_priority cause p \<and> yield_priority cause p < SCHED_MAX_LEVEL"
  by (auto simp: yield_priority_def SCHED_MAX_LEVEL_def Let_def)

definition yielded :: "usec \<Rightarrow> SCHED_CAUSE \<Rightarrow> tcb \<Rightarrow> tcb" where
  "yielded remaining cause x =
     x\<lparr>tstate := (if tstate x = RUNNING then READY else tstate x), rts := remaining,
       last_cause := curr_cause x, curr_cause := cause, priority := yield_priority cause (priority x)\<rparr>"

lemma yielded_simps [simp]:
  "ttype (yielded r cause x) = ttype x" "tphase (yielded r cause x) = tphase x"
  "wakeup_time (yielded r cause x) = wakeup_time x"
  "priority (yielded r cause x) = yield_priority cause (priority x)"
  "tstate (yielded r cause x) = (if tstate x = RUNNING then READY else tstate x)"
  by (simp_all add: yielded_def)

text \<open>Why a core is about to yield does not matter to the invariant.\<close>

lemma sleeping_cause_inv:
  assumes inv: "sched_inv pc s L hs" and c: "pc c \<noteq> Running" "pc c \<noteq> Switching"
  shows "sched_inv (pc(c := Sleeping cause)) s L hs"
proof -
  let ?pc = "pc(c := Sleeping cause)"
  have cp: "dirty_on ?pc s = dirty_on pc s" "incoming ?pc s = incoming pc s" "on_core ?pc s = on_core pc s"
    using core_preds_pc [of pc c "Sleeping cause" s] c by simp_all
  have pcs: "?pc d = Running \<longleftrightarrow> pc d = Running" "?pc d = Switching \<longleftrightarrow> pc d = Switching" for d
    using c by auto
  have "thread_ok ?pc s L t x = thread_ok pc s L t x" for t x
    unfolding thread_ok_def idle_ok_def phase_ok_def state_ok_def queue_ok_def cp pcs ..
  then show ?thesis using inv unfolding sched_inv_def cp by simp
qed

text \<open>Once it has recorded the yield in its TCB, the core is in the phase before the switch.\<close>

lemma yielded_inv:
  assumes inv: "sched_inv pc s L hs" and c: "c < ncores s" "pc c \<noteq> Switching"
    and x: "tcbs s (current_thread (cctx s c)) = Some x"
  shows "sched_inv (pc(c := Sleeping cause)) (set_tcb (current_thread (cctx s c)) (yielded r cause x) s) L hs"
proof -
  let ?t = "current_thread (cctx s c)"
  have d: "dirty_on pc s c ?t" using c by (simp add: dirty_on_def)
  note ok = thread_okD [OF sched_inv_thread [OF inv x]]
  note p = yield_priority_range [OF queue_okD(1,2) [OF ok(4)]]
  show ?thesis
  proof (cases "pc c = Running")
    case True
    then have "tstate x = RUNNING" using ok(3) d unfolding state_ok_def by blast
    with True p show ?thesis by (intro leave_running_inv [OF inv c(1) True refl x]) simp_all
  next
    case False
    have "\<not> (dirty_on pc s e ?t \<and> pc e = Running)" for e
      using sched_inv_excl [OF inv on_core_dirty [OF d] on_core_dirty [of pc s e ?t]] False by auto
    then have nr: "tstate x \<noteq> RUNNING" using ok(3) unfolding state_ok_def by blast
    have "sched_inv pc (set_tcb ?t (yielded r cause x) s) L hs"
      by (rule modify_dirty_inv [OF inv x d]) (use nr p in simp_all)
    then show ?thesis by (rule sleeping_cause_inv) (use False c in auto)
  qed
qed

lemma expire_inv:
  assumes "sched_inv pc s L hs"
  obtains s' L' hs' where "sched_wakeup_expired_timeouts s = Inr s'" and "sched_inv pc s' L' hs'"
    and "sched_frame s s'" and "cctx s' = cctx s" and "saved_preempt s' = saved_preempt s"
    and "\<And>t x. tcbs s t = Some x \<Longrightarrow> tcbs s' t = Some x \<or> tstate x = STOPPED \<and> tcbs s' t = Some (mk_ready x)"
    and "threads_kept s s'"
proof -
  obtain s' L' hs' where s': "wakeup_expired_loop (bios_clock s) s = Some (Inr s')" "sched_inv pc s' L' hs'"
    "sched_frame s s'" "cctx s' = cctx s" "saved_preempt s' = saved_preempt s"
    "\<forall>t x. tcbs s t = Some x \<longrightarrow> tcbs s' t = Some x \<or> tstate x = STOPPED \<and> tcbs s' t = Some (mk_ready x)"
    "\<forall>t. tcbs s t = None \<longrightarrow> tcbs s' t = None"
    using wakeup_expired_loop_inv [OF assms, of "bios_clock s"] by blast
  have "threads_kept s s'"
    by (rule threads_keptI) (use s'(6,7) in \<open>fastforce simp: thread_kept_def same_thread_def\<close>)+
  with s' show ?thesis by (intro that [of s' L' hs']) (auto simp: sched_wakeup_expired_timeouts_def of_loop_def)
qed

lemma select_switch_inv:
  assumes inv: "sched_inv pc s L hs" and c: "c < ncores s" "pc c = Sleeping z"
    and cur: "cur = current_thread (cctx s c)"
  obtains n s4 where "sched_queue_select c cur s = Inr (n, s4)" and "sched_frame s s4"
    and "cctx s4 = cctx s" and "threads_kept s s4"
    and "\<forall>i. 0 \<le> i \<and> i < SCHED_MAX_LEVEL \<and> L (SchedQ i) \<noteq> [] \<longrightarrow>
      (\<exists>j. 0 \<le> j \<and> j < SCHED_MAX_LEVEL \<and> n \<in> set (L (SchedQ j)))"
    and "\<And>s'. rl s' = rl s4 \<Longrightarrow> tcbs s' = tcbs s4 \<Longrightarrow> ncores s' = ncores s4 \<Longrightarrow> cores s' = cores s4 \<Longrightarrow>
      active_threads s' = active_threads s4 \<Longrightarrow> switched c n s s' \<Longrightarrow>
      sched_inv (pc(c := Switching)) s' (select_lists L) hs"
proof -
  have "on_core pc s c cur" using c cur by (simp add: on_core_def dirty_on_def)
  then obtain x where x: "tcbs s cur = Some x" using sched_inv_live [OF inv] by blast
  have idle: "tcbs s (IdleT c) \<noteq> None" using inv c by (simp add: sched_inv_def)
  obtain s4 y where q: "sched_queue_select c cur s = Inr (next_thread_spec c cur x L, s4)"
    "sched_abs s4 (select_lists L) hs" "same_lists s s4" "tcbs s (next_thread_spec c cur x L) = Some y"
    "s4 = s\<lparr>rl := rl s4, scheduled := scheduled s4,
            tcbs := (tcbs s)(next_thread_spec c cur x L \<mapsto> y\<lparr>its := QUANTUM\<rparr>)\<rparr>"
    by (rule queue_select_abs [OF sched_inv_abs [OF inv] x idle refl])
  have f: "tcbs s4 = (tcbs s)(next_thread_spec c cur x L \<mapsto> y\<lparr>its := QUANTUM\<rparr>)" "cctx s4 = cctx s"
    "ncores s4 = ncores s" "active_threads s4 = active_threads s"
    by (subst q(5), simp)+
  have fr: "sched_frame s s4"
    unfolding sched_frame_def by (intro conjI, rule q(3)) (subst q(5), simp)+
  have "sched_inv (pc(c := Switching)) s' (select_lists L) hs"
    if s': "rl s' = rl s4" "tcbs s' = tcbs s4" "ncores s' = ncores s4" "cores s' = cores s4"
      "active_threads s' = active_threads s4" "switched c (next_thread_spec c cur x L) s s'" for s'
  proof (rule switch_inv [OF inv c cur x refl q(4) s'(6)])
    show "sched_abs s' (select_lists L) hs" using q(2) sched_abs_cong [of s' s4] s' by simp
  qed (use s' f in simp_all)
  moreover have "threads_kept s s4"
    by (rule threads_kept_upd [OF f(1) q(4)]) (simp add: thread_kept_def same_thread_def)
  moreover have "\<exists>j. 0 \<le> j \<and> j < SCHED_MAX_LEVEL \<and> next_thread_spec c cur x L \<in> set (L (SchedQ j))"
    if i: "0 \<le> i" "i < SCHED_MAX_LEVEL" "L (SchedQ i) \<noteq> []" for i
  proof -
    have "i \<in> set [0, 1, 2]" using i by (auto simp: SCHED_MAX_LEVEL_def)
    then have "next_level L \<noteq> None" using i(3) unfolding next_level_def find_None_iff by blast
    then obtain j where j: "next_level L = Some j" by blast
    then have "L (SchedQ j) \<noteq> []" "j \<in> set [0, 1, 2]" unfolding next_level_def find_Some_iff by (auto simp del: set_simps)
    with j show ?thesis by (intro exI [of _ j]) (auto simp: next_thread_spec_def SCHED_MAX_LEVEL_def)
  qed
  ultimately show ?thesis by (intro that [OF q(1) fr f(2)]) auto
qed

lemma yield_switch_inv:
  assumes inv: "sched_inv pc s L hs" and c: "c < ncores s" "pc c \<noteq> Switching"
  obtains s' L' hs' where "yield_switch c cause s = Inr s'" and "sched_inv (pc(c := Switching)) s' L' hs'"
    and "sched_frame s s'" and "previous_thread (cctx s' c) = current_thread (cctx s c)"
    and "threads_kept s s'"
    and "\<forall>t x. tcbs s t = Some x \<and> ttype x = NORMAL_THREAD \<and> tstate x = READY \<and> tphase x = CTX_CLEAN \<and>
      (\<forall>d. \<not> incoming pc s d t) \<longrightarrow>
      (\<exists>y. tcbs s' (current_thread (cctx s' c)) = Some y \<and> ttype y = NORMAL_THREAD)"
proof -
  obtain r s1 where s1: "bios_cancel_timer c s = (r, s1)" by fastforce
  obtain p s2 where s2: "preempt_off c s1 = (p, s2)" by fastforce
  have e1: "s1 = snd (bios_set_timer c 0 s)" using s1 by (simp add: bios_cancel_timer_def)
  have e2: "s2 = snd (preempt_off c s1)" using s2 by simp
  have inv2: "sched_inv pc s2 L hs" using inv by (simp add: e1 e2)
  have fr2: "sched_frame s s2" unfolding e2 e1 by (rule sched_frame_trans [OF flags_frame(3,1)])
  let ?cur = "current_thread (cctx s2 c)"
  have c2: "c < ncores s2" using c by (simp add: e1 e2)
  have "on_core pc s2 c ?cur" using c c2 by (simp add: on_core_def dirty_on_def)
  then obtain x where x: "tcbs s2 ?cur = Some x" using sched_inv_live [OF inv2] by blast
  let ?s3 = "set_tcb ?cur (yielded r cause x) s2" and ?pc = "pc(c := Sleeping cause)"
  have inv3: "sched_inv ?pc ?s3 L hs" by (rule yielded_inv [OF inv2 c2 c(2) x])
  have fr3: "sched_frame s2 ?s3" by (simp add: sched_frame_def same_lists_def set_tcb_def)
  have k3: "threads_kept s ?s3"
    by (rule threads_kept_upd [of _ _ ?cur "yielded r cause x" x])
      (use x in \<open>auto simp: e1 e2 set_tcb_def thread_kept_def same_thread_def yielded_def\<close>)
  obtain s4 L4 hs4 where s4: "sched_wakeup_expired_timeouts ?s3 = Inr s4" "sched_inv ?pc s4 L4 hs4"
    "sched_frame ?s3 s4" "cctx s4 = cctx ?s3" "threads_kept ?s3 s4"
    "\<And>t x. tcbs ?s3 t = Some x \<Longrightarrow> tcbs s4 t = Some x \<or> tstate x = STOPPED \<and> tcbs s4 t = Some (mk_ready x)"
    by (rule expire_inv [OF inv3]) blast
  have c4: "c < ncores s4" using c2 s4(3) by (simp add: sched_frame_def)
  have cur4: "?cur = current_thread (cctx s4 c)" using s4(4) by simp
  obtain n s5 where s5: "sched_queue_select c ?cur s4 = Inr (n, s5)" "sched_frame s4 s5"
    "cctx s5 = cctx s4" "threads_kept s4 s5"
    "\<forall>i. 0 \<le> i \<and> i < SCHED_MAX_LEVEL \<and> L4 (SchedQ i) \<noteq> [] \<longrightarrow>
      (\<exists>j. 0 \<le> j \<and> j < SCHED_MAX_LEVEL \<and> n \<in> set (L4 (SchedQ j)))"
    and next_inv: "\<And>s'. rl s' = rl s5 \<Longrightarrow> tcbs s' = tcbs s5 \<Longrightarrow> ncores s' = ncores s5 \<Longrightarrow> cores s' = cores s5 \<Longrightarrow>
      active_threads s' = active_threads s5 \<Longrightarrow> switched c n s4 s' \<Longrightarrow>
      sched_inv (?pc(c := Switching)) s' (select_lists L4) hs4"
    by (rule select_switch_inv [OF s4(2) c4 _ cur4]) auto
  define s6 where "s6 = s5\<lparr>scheduled := scheduled s5 + 1\<rparr>"
  define s7 where "s7 = set_ccb c ((cctx s6 c)\<lparr>previous_thread := ?cur\<rparr>) s6"
  define s8 where "s8 = (if ?cur \<noteq> n then set_ccb c ((cctx s7 c)\<lparr>current_thread := n\<rparr>) s7 else s7)"
  define s9 where "s9 = s8\<lparr>saved_preempt := (saved_preempt s8)(?cur := p)\<rparr>"
  have x3: "(let x1 = (if tstate x = RUNNING then x\<lparr>tstate := READY\<rparr> else x);
             x2 = x1\<lparr>rts := r, last_cause := curr_cause x1, curr_cause := cause\<rparr>
         in x2\<lparr>priority := yield_priority cause (priority x2)\<rparr>) = yielded r cause x"
    by (simp add: yielded_def Let_def)
  have y: "yield_switch c cause s = Inr s9"
    unfolding yield_switch_def s1 s2 Let_def prod.case CURTHREAD_def get_tcb_Some [OF x] rbind_Inr
    by (simp only: x3 [unfolded Let_def] s4(1) s5(1) rbind_Inr prod.case s6_def s7_def s8_def s9_def)
  have sw: "switched c n s4 s9"
    using cur4 s5(2) unfolding switched_def
    by (simp add: s6_def s7_def s8_def s9_def set_ccb_def s5(3) sched_frame_def)
  have "sched_inv (pc(c := Switching)) s9 (select_lists L4) hs4"
    using next_inv [OF _ _ _ _ _ sw] by (simp add: s6_def s7_def s8_def s9_def set_ccb_def)
  moreover have "sched_frame s5 s9"
    by (simp add: s6_def s7_def s8_def s9_def set_ccb_def sched_frame_def same_lists_def)
  then have "sched_frame s s9"
    using fr2 fr3 s4(3) s5(2) by (blast intro: sched_frame_trans)
  moreover have "previous_thread (cctx s9 c) = current_thread (cctx s c)"
    using switchedD(3) [OF sw, of c] cur4 by (simp add: e1 e2)
  moreover have "threads_kept s5 s9"
    by (rule threads_kept_refl) (simp add: s6_def s7_def s8_def s9_def set_ccb_def)
  then have k9: "threads_kept s4 s9" using s5(4) by (blast intro: threads_kept_trans)
  then have "threads_kept s s9" using k3 s4(5) by (blast intro: threads_kept_trans)
  moreover have "\<exists>y. tcbs s9 (current_thread (cctx s9 c)) = Some y \<and> ttype y = NORMAL_THREAD"
    if t: "tcbs s t = Some u" "ttype u = NORMAL_THREAD" "tstate u = READY" "tphase u = CTX_CLEAN"
      "\<forall>d. \<not> incoming pc s d t" for t u
  proof -
    have cur: "tphase x = CTX_DIRTY"
      using thread_okD(2) [OF sched_inv_thread [OF inv2 x]] c c2 unfolding phase_ok_def by (auto simp: dirty_on_def)
    have x0: "tcbs s ?cur = Some x" using x by (simp add: e1 e2)
    with t cur have "t \<noteq> ?cur" by auto
    then have "tcbs ?s3 t = Some u" using t(1) by (simp add: e1 e2)
    from s4(6) [OF this] t(3) have u4: "tcbs s4 t = Some u" by simp
    have "\<not> incoming ?pc s4 d t" for d
      using t(5) c(2) s4(3) unfolding incoming_def s4(4) by (auto simp: e1 e2 sched_frame_def split: if_splits)
    then have m: "t \<in> set (L4 (SchedQ (priority u)))"
      using queue_okD [OF thread_okD(4) [OF sched_inv_thread [OF s4(2) u4]]] t by simp
    have p: "0 \<le> priority u" "priority u < SCHED_MAX_LEVEL"
      using queue_okD(1,2) [OF thread_okD(4) [OF sched_inv_thread [OF s4(2) u4]]] by simp_all
    have "L4 (SchedQ (priority u)) \<noteq> []" using m by (metis list.set(1) empty_iff)
    with p s5(5) obtain j where j: "0 \<le> j" "j < SCHED_MAX_LEVEL" "n \<in> set (L4 (SchedQ j))" by blast
    then have lj: "SchedQ j \<in> sched_sentinels" by simp
    from sched_absD(5) [OF sched_inv_abs [OF s4(2)] lj j(3)] obtain z where z: "tcbs s4 n = Some z" by blast
    then have zn: "ttype z = NORMAL_THREAD" "tstate z = READY"
      using queue_okD(3) [OF thread_okD(4) [OF sched_inv_thread [OF s4(2) z]] lj] j(3) by simp_all
    obtain y where "tcbs s9 n = Some y" "same_thread z y" by (rule threads_keptD [OF k9 z]) (simp add: zn)
    moreover have "current_thread (cctx s9 c) = n"
      by (simp add: s9_def s8_def s7_def s6_def set_ccb_def s5(3) s4(4))
    ultimately show ?thesis using zn(1) by (simp add: same_thread_def)
  qed
  ultimately show ?thesis by (intro that [OF y]) blast+
qed

section \<open>Waking up and going to sleep\<close>

lemma wakeup_inv:
  assumes inv: "sched_inv pc s L hs" and x: "tcbs s t = Some x"
  obtains r s' L' hs' where "wakeup c t s = Inr (r, s')" and "sched_inv pc s' L' hs'"
    and "sched_frame s s'" and "r \<longleftrightarrow> tstate x = STOPPED \<or> tstate x = INIT"
    and "tcbs s' = (tcbs s)(t \<mapsto> if r then mk_ready x else x)" and "threads_kept s s'"
    and "\<forall>d. current_thread (cctx s' d) = current_thread (cctx s d)"
proof -
  obtain p s1 where s1: "preempt_off c s = (p, s1)" by fastforce
  then have e1: "s1 = snd (preempt_off c s)" by simp
  have inv1: "sched_inv pc s1 L hs" "tcbs s1 = tcbs s" "sched_frame s s1" using inv by (simp_all add: e1)
  let ?B = "tstate x = STOPPED \<or> tstate x = INIT"
  have "\<exists>s2 L' hs'. (if ?B then rbind (sched_make_ready t s1) (\<lambda>s2. Inr (True, s2)) else Inr (False, s1))
      = Inr (?B, s2) \<and> sched_inv pc s2 L' hs' \<and> sched_frame s1 s2 \<and>
      tcbs s2 = (tcbs s)(t \<mapsto> if ?B then mk_ready x else x) \<and> cctx s2 = cctx s1"
  proof (cases ?B)
    case True
    have x1: "tcbs s1 t = Some x" using x inv1 by simp
    obtain s2 hs' where "sched_make_ready t s1 = Inr s2" "sched_inv pc s2 (ready_lists t x L) hs'"
      "sched_frame s1 s2" "tcbs s2 = (tcbs s1)(t \<mapsto> mk_ready x)" "cctx s2 = cctx s1"
      by (rule make_ready_inv [OF inv1(1) x1 True])
    with True inv1(2) show ?thesis by auto
  next
    case False
    with inv1 x show ?thesis by auto
  qed
  then obtain s2 L' hs' where s2: "(if ?B then rbind (sched_make_ready t s1) (\<lambda>s2. Inr (True, s2))
      else Inr (False, s1)) = Inr (?B, s2)" "sched_inv pc s2 L' hs'" "sched_frame s1 s2"
    "tcbs s2 = (tcbs s)(t \<mapsto> if ?B then mk_ready x else x)" "cctx s2 = cctx s1" by blast
  have w: "wakeup c t s = Inr (?B, if p then preempt_on c s2 else s2)"
    using x inv1(2) s2(1) by (simp add: wakeup_def s1)
  have "sched_frame s2 (if p then preempt_on c s2 else s2)" by simp
  note fr = sched_frame_trans [OF sched_frame_trans [OF inv1(3) s2(3)] this]
  let ?s' = "if p then preempt_on c s2 else s2"
  have tc: "tcbs ?s' = (tcbs s)(t \<mapsto> if ?B then mk_ready x else x)" using s2(4) by simp
  have "threads_kept s ?s'"
    by (rule threads_kept_upd [OF tc x]) (auto simp: thread_kept_def same_thread_def)
  moreover have "current_thread (cctx ?s' d) = current_thread (cctx s d)" for d using s2(5) by (simp add: e1)
  ultimately show ?thesis using that [OF w _ fr refl tc] s2(2) by simp
qed

lemma sleep_mark_inv:
  assumes inv: "sched_inv pc s L hs" and c: "c < ncores s" "pc c = Running"
    and x: "tcbs s (current_thread (cctx s c)) = Some x" and n: "ttype x = NORMAL_THREAD"
    and st: "st = STOPPED \<or> st = EXITED"
    and to: "timeout \<noteq> NO_TIMEOUT \<Longrightarrow> bios_clock s + timeout \<noteq> NO_TIMEOUT"
  obtains p s' L' hs' where "sleep_mark c st timeout s = Inr (p, s')"
    and "sched_inv (pc(c := Sleeping cause)) s' L' hs'" and "sched_frame s s'"
    and "\<forall>u. u \<noteq> current_thread (cctx s c) \<longrightarrow> tcbs s' u = tcbs s u"
    and "\<exists>y. tcbs s' (current_thread (cctx s c)) = Some y \<and> same_thread x y \<and> tstate y = st"
    and "\<forall>d. current_thread (cctx s' d) = current_thread (cctx s d)"
proof -
  obtain p s1 where s1: "preempt_off c s = (p, s1)" by fastforce
  then have e1: "s1 = snd (preempt_off c s)" by simp
  have inv1: "sched_inv pc s1 L hs" "tcbs s1 = tcbs s" "sched_frame s s1" "ncores s1 = ncores s"
    "current_thread (cctx s1 c) = current_thread (cctx s c)" "bios_clock s1 = bios_clock s"
    using inv by (simp_all add: e1 bios_clock_def)
  let ?t = "current_thread (cctx s c)" and ?pc = "pc(c := Sleeping cause)"
  let ?x = "x\<lparr>tstate := st\<rparr>"
  let ?s2 = "set_tcb ?t ?x s1"
  have x1: "tcbs s1 ?t = Some x" using x inv1 by simp
  note ok = thread_okD [OF sched_inv_thread [OF inv1(1) x1]]
  have c1: "c < ncores s1" using c inv1 by simp
  have d: "dirty_on pc s1 c ?t" using c1 c(2) inv1(5) by (simp add: dirty_on_def)
  have run: "tstate x = RUNNING" using ok(3) d c unfolding state_ok_def by blast
  have w: "wakeup_time x = NO_TIMEOUT" using ok(5) run by (auto simp: timeout_ok_def)
  have nq: "\<not> queued L ?t" by (rule dirty_not_queued [OF inv1(1) x1 d w])
  have inv2: "sched_inv ?pc ?s2 L hs"
    by (rule leave_running_inv [OF inv1(1) c1 c(2) inv1(5) [symmetric] x1])
      (use queue_okD(1,2) [OF ok(4)] st n in auto)
  have fr2: "sched_frame s1 ?s2" by (simp add: sched_frame_def same_lists_def set_tcb_def)
  have eq: "sleep_mark c st timeout s =
      rbind (if st \<noteq> EXITED then sched_register_timeout ?t timeout ?s2 else Inr ?s2) (\<lambda>s3. Inr (p, s3))"
    using st x1 by (auto simp: sleep_mark_def s1 CURTHREAD_def Let_def)
  show ?thesis
  proof (cases "st = STOPPED \<and> timeout \<noteq> NO_TIMEOUT")
    case True
    have x2: "tcbs ?s2 ?t = Some ?x" and st2: "tstate ?x = STOPPED" using True by simp_all
    have to2: "bios_clock ?s2 + timeout \<noteq> NO_TIMEOUT" using to True inv1(6) by (simp add: bios_clock_def)
    obtain s3 L3 where s3: "sched_register_timeout ?t timeout ?s2 = Inr s3" "sched_inv ?pc s3 L3 hs"
      "sched_frame ?s2 s3" "tcbs s3 = (tcbs ?s2)(?t \<mapsto> ?x\<lparr>wakeup_time := bios_clock ?s2 + timeout\<rparr>)"
      "cctx s3 = cctx ?s2"
      by (rule register_timeout_inv [OF inv2 x2 st2 nq conjunct2 [OF True] to2])
    have "sleep_mark c st timeout s = Inr (p, s3)" unfolding eq using True s3(1) by simp
    moreover have "sched_frame s s3" using inv1(3) fr2 s3(3) by (blast intro: sched_frame_trans)
    ultimately show ?thesis
      by (rule that [OF _ s3(2)]) (use s3(4,5) True inv1(2) in \<open>simp_all add: set_tcb_def same_thread_def e1\<close>)
  next
    case False
    then have "sleep_mark c st timeout s = Inr (p, ?s2)"
      unfolding eq using st by (auto simp: sched_register_timeout_def)
    moreover have "sched_frame s ?s2" using inv1(3) fr2 by (blast intro: sched_frame_trans)
    ultimately show ?thesis
      by (rule that [OF _ inv2]) (use inv1(2) in \<open>simp_all add: set_tcb_def same_thread_def e1\<close>)
  qed
qed

end
