(* ===== verification/Sched_System.thy ===== *)
theory Sched_System
  imports Sched_Steps
begin

text \<open>
  The scheduler as a system: the creation of threads, the halting and restarting of cores, the
  relation of all steps on all cores, and the invariant of every reachable configuration.
\<close>

section \<open>Creating a thread\<close>

lemma spawn_thread_eq:
  "spawn_thread a p f s = (HeapT a, s\<lparr>tcbs := (tcbs s)(HeapT a \<mapsto> new_tcb p f),
      rl := rlnode_init (SchedNode (HeapT a)) (OTcb (HeapT a)) (rl s),
      saved_preempt := (saved_preempt s)(HeapT a := True), active_threads := active_threads s + 1\<rparr>)"
  by (simp add: spawn_thread_def set_tcb_def Let_def)

lemma spawn_abs:
  assumes a: "sched_abs s L hs" and new: "tcbs s t = None"
    and s': "rl s' = rlnode_init (SchedNode t) (OTcb t) (rl s)" "tcbs s' = (tcbs s)(t \<mapsto> x)"
      "cores s' = cores s" "ncores s' = ncores s"
  shows "sched_abs s' L hs"
proof -
  let ?h = "rlnode_init (SchedNode t) (OTcb t) (rl s)"
  note keep = init_keeps [where n = "SchedNode t" and k = "OTcb t" and h = "rl s"]
  have nq: "t \<notin> set (L l)" if "l \<in> sched_sentinels" for l using sched_absD(5) [OF a that, of t] new by auto
  have "isring ?h l (map SchedNode (L l))" if l: "l \<in> sched_sentinels" for l
    by (rule keep [OF sched_absD(1) [OF a l]]) (use nq [OF l] l in \<open>auto simp: sentinel_not_node\<close>)
  moreover have "isring ?h (SchedNode u) []" if u: "tcbs s' u \<noteq> None" "\<not> queued L u" for u
  proof (cases "u = t")
    case True
    then show ?thesis by (simp add: init_list)
  next
    case False
    with u s'(2) obtain y where "tcbs s u = Some y" by auto
    with False show ?thesis by (intro keep sched_absD(2) [OF a _ u(2)]) auto
  qed
  moreover have "isring ?h HaltedList (map HaltedNode hs)"
    by (rule keep [OF sched_absD(3) [OF a]]) auto
  moreover have "isring ?h (HaltedNode c) []" if "c < ncores s" "c \<notin> set hs" for c
    by (rule keep [OF sched_absD(10) [OF a that]]) simp
  ultimately show ?thesis
    using a s' by (auto simp: sched_abs_def dom_def)
qed

lemma spawn_inv:
  assumes inv: "sched_inv pc s L hs" and new: "tcbs s (HeapT a) = None"
  shows "sched_inv pc (snd (spawn_thread a p f s)) L hs"
proof -
  let ?t = "HeapT a" and ?x = "new_tcb p f"
  define s' where "s' = snd (spawn_thread a p f s)"
  have f: "rl s' = rlnode_init (SchedNode ?t) (OTcb ?t) (rl s)" "tcbs s' = (tcbs s)(?t \<mapsto> ?x)"
    "cores s' = cores s" "ncores s' = ncores s" "cctx s' = cctx s"
    "active_threads s' = active_threads s + 1"
    by (simp_all add: s'_def spawn_thread_eq)
  note cp = core_preds_cong [OF f(5,4), of pc]
  have ab: "sched_abs s' L hs" by (rule spawn_abs [OF sched_inv_abs [OF inv] new f(1-4)])
  have off: "\<not> on_core pc s c ?t" for c using sched_inv_live [OF inv] new by fastforce
  then have noc: "\<not> dirty_on pc s c ?t" "\<not> incoming pc s c ?t" for c by (auto simp: on_core_def)
  have nq: "?t \<notin> set (L l)" if "l \<in> sched_sentinels" for l
    using sched_absD(5) [OF sched_inv_abs [OF inv] that, of ?t] new by auto
  have cur: "current_thread (cctx s c) \<noteq> ?t" if "c < ncores s" "pc c = Switching" for c
    using noc(2) [of c] noc(1) [of c] that by (auto simp: incoming_def dirty_on_def)
  have same: "thread_ok pc s' L u y = thread_ok pc s L u y" for u y
    by (rule thread_ok_cong) (simp_all add: f)
  have "thread_ok pc s L ?t ?x"
    using noc nq cur by (auto simp: thread_ok_def idle_ok_def phase_ok_def state_ok_def queue_ok_def
        timeout_ok_def new_tcb_def SCHED_MAX_LEVEL_def)
  then have "thread_ok pc s' L u y" if "tcbs s' u = Some y" for u y
    using that sched_inv_thread [OF inv] unfolding same f(2) by (auto split: if_splits)
  moreover have "wakeup_times s' L = wakeup_times s L"
    using nq [of TimeoutList] by (auto simp: wakeup_times_def f(2))
  moreover have "active_threads s' = of_nat (card {b. tcbs s' (HeapT b) \<noteq> None})"
  proof -
    have fin: "finite (dom (tcbs s))" and act: "active_threads s = of_nat (card {b. tcbs s (HeapT b) \<noteq> None})"
      using inv by (simp_all add: sched_inv_def)
    let ?A = "{b. tcbs s (HeapT b) \<noteq> None}"
    have "HeapT ` ?A \<subseteq> dom (tcbs s)" by auto
    then have "finite (HeapT ` ?A)" using fin by (rule finite_subset)
    then have "finite ?A" by (rule finite_imageD) (simp add: inj_on_def)
    moreover have "{b. tcbs s' (HeapT b) \<noteq> None} = insert a ?A" by (auto simp: f(2))
    ultimately show ?thesis using act new f(6) by simp
  qed
  moreover have "tcbs s' u \<noteq> None" if "tcbs s u \<noteq> None" for u using that by (simp add: f(2))
  ultimately show ?thesis
    using inv ab unfolding s'_def [symmetric] sched_inv_def cp f(4) by (auto simp: f(2))
qed

section \<open>Halting and restarting cores\<close>

lemma halt_inv:
  assumes inv: "sched_inv pc s L hs" and c: "c < ncores s" and h: "\<not> halted (cores s c)"
    and s': "cpu_core_halt c s = Inr s'"
  shows "sched_inv pc s' L (c # hs)"
proof -
  let ?h = "rlist_push_front HaltedList (HaltedNode c) (rl s)"
  let ?cs = "(cores s)(c := (cores s c)\<lparr>halted := True\<rparr>)"
  note a = sched_inv_abs [OF inv]
  have s': "s' = s\<lparr>rl := ?h, cores := ?cs\<rparr>"
    using s' by (cases "int_disabled (cores s c)") (auto simp: cpu_core_halt_def set_core_def)
  have nc: "c \<notin> set hs" using sched_absD(7) [OF a] h by simp
  note r = sched_absD(3) [OF a] and n = sched_absD(10) [OF a c nc]
  have new: "HaltedNode c \<notin> set (HaltedList # map HaltedNode hs)" using nc by auto
  note keep = rl.push_keeps_law [OF _ r n, THEN conjunct1]
  have "sched_abs (s\<lparr>rl := ?h, cores := ?cs\<rparr>) L (c # hs)"
  proof (rule sched_abs_halted_update [OF a])
    show "isring ?h HaltedList (map HaltedNode (c # hs))" using rl.push_front_law [OF r n new] by simp
    show "halted (?cs d) \<longleftrightarrow> d \<in> set (c # hs)" for d using sched_absD(7) [OF a, of d] by auto
    show "isring ?h (HaltedNode d) []" if "d < ncores s" "d \<notin> set (c # hs)" for d
      using that by (intro keep sched_absD(10) [OF a]) auto
    show "isring ?h z zs" if "isring (rl s) z zs"
      "\<And>n. n \<in> set (z # zs) \<Longrightarrow> n \<noteq> HaltedList \<and> n \<notin> range HaltedNode" for z zs
      using that(2) by (intro keep that(1)) blast+
  qed (use c sched_absD(8) [OF a] in auto)
  then have a': "sched_abs s' L (c # hs)" by (simp add: s')
  have f: "cctx s' = cctx s" "ncores s' = ncores s" "tcbs s' = tcbs s" "active_threads s' = active_threads s"
    by (simp_all add: s')
  show ?thesis by (rule sched_inv_halted [OF inv a' f])
qed

lemma restart_inv:
  assumes inv: "sched_inv pc s L hs" and c: "c < ncores s"
  shows "sched_inv pc (core_restart c s) L (remove1 c hs)"
proof (cases "halted (cores s c)")
  case False
  then have "c \<notin> set hs" using sched_absD(7) [OF sched_inv_abs [OF inv]] by simp
  with False inv show ?thesis by (simp add: core_restart_def remove1_idem)
next
  case True
  let ?h = "rlist_remove (HaltedNode c) (rl s)" and ?cs = "(cores s)(c := (cores s c)\<lparr>halted := False\<rparr>)"
  note a = sched_inv_abs [OF inv]
  have hc: "c \<in> set hs" using sched_absD(7) [OF a] True by simp
  note r = sched_absD(3) [OF a]
  have d: "distinct hs" using isring_distinct [OF r] by (simp add: distinct_map)
  have mem: "HaltedNode c \<in> set (map HaltedNode hs)" using hc by simp
  have inj: "remove1 (HaltedNode c) (map HaltedNode xs) = map HaltedNode (remove1 c xs)" for xs
    by (induction xs) auto
  note p = rl.remove_law [OF r mem] and keep = rl.remove_keeps_law [OF _ r mem]
  have "sched_abs (s\<lparr>rl := ?h, cores := ?cs\<rparr>) L (remove1 c hs)"
  proof (rule sched_abs_halted_update [OF a])
    show "isring ?h HaltedList (map HaltedNode (remove1 c hs))" using p inj by simp
    show "halted (?cs e) \<longleftrightarrow> e \<in> set (remove1 c hs)" for e
      using sched_absD(7) [OF a, of e] d by auto
    show "isring ?h (HaltedNode e) []" if "e < ncores s" "e \<notin> set (remove1 c hs)" for e
      by (cases "e = c") (use that d p in \<open>auto intro: keep sched_absD(10) [OF a]\<close>)
    show "isring ?h z zs" if "isring (rl s) z zs"
      "\<And>n. n \<in> set (z # zs) \<Longrightarrow> n \<noteq> HaltedList \<and> n \<notin> range HaltedNode" for z zs
      using that(2) by (intro keep that(1)) blast
    show "set (remove1 c hs) \<subseteq> {..<ncores s}"
      using sched_absD(8) [OF a] by (auto dest: notin_set_remove1)
  qed simp
  moreover have "core_restart c s = s\<lparr>rl := ?h, cores := ?cs\<rparr>"
    using True by (simp add: core_restart_def set_core_def)
  ultimately show ?thesis by (intro sched_inv_halted [OF inv]) simp_all
qed

lemma raise_interrupt_inv:
  assumes inv: "sched_inv pc s L hs" and c: "c < ncores s"
  shows "sched_inv pc (raise_interrupt c i s) L (remove1 c hs)"
proof -
  let ?s1 = "set_core c ((cores s c)\<lparr>intpending := (intpending (cores s c))(i := True),
      irq_raised := (irq_raised (cores s c))(i := irq_raised (cores s c) i + 1)\<rparr>) s"
  have "sched_inv pc ?s1 L hs"
    using inv by (subst sched_inv_cong [where s = s]) (simp_all add: set_core_def)
  from restart_inv [OF this, of c] c show ?thesis
    by (simp add: raise_interrupt_def cpu_core_restart_def Let_def set_core_def)
qed

end
