(* ===== verification/Sched_Reach.thy ===== *)
theory Sched_Reach
  imports Sched_System
begin

text \<open>
  The relation of all steps of the scheduler on all cores, its start, and the invariant of
  every configuration that can be reached.
\<close>

section \<open>The start\<close>

text \<open>
  The machine is started, the scheduler's lists are initialised (\<open>initialize_scheduler\<close>
  without the iteration that is out of bounds), and every core enters its idle thread.
\<close>

definition sched_boot :: "nat \<Rightarrow> uint \<Rightarrow> usec \<Rightarrow> kernel \<Rightarrow> kernel result" where
  "sched_boot n serialno clk s =
     rbind (vm_boot n serialno clk s) (\<lambda>s1.
     rbind (init_levels [0..SCHED_MAX_LEVEL - 1] (fold bootfunc_init [0..<n] s1)) (\<lambda>s2.
     Inr (fold run_scheduler_init [0..<n] (s2\<lparr>rl := rlnode_init TimeoutList ONull (rl s2)\<rparr>))))"

definition idle_tcb :: tcb where
  "idle_tcb = \<lparr>owner_pcb = 0, tptcb = None, priority = 0, ttype = IDLE_THREAD, tstate = RUNNING,
     tphase = CTX_DIRTY, tfunc = start_thread_func, wakeup_time = NO_TIMEOUT,
     its = QUANTUM, rts = QUANTUM, curr_cause = SCHED_IDLE, last_cause = SCHED_IDLE\<rparr>"

text \<open>Every node the scheduler uses is a ring of its own, and the first \<open>k\<close> cores are up.\<close>

definition booted :: "nat \<Rightarrow> nat \<Rightarrow> kernel \<Rightarrow> bool" where
  "booted n k s \<longleftrightarrow>
     (\<forall>l \<in> sched_sentinels \<union> {HaltedList} \<union> HaltedNode ` {..<n} \<union> SchedNode ` IdleT ` {..<k}.
        isring (rl s) l []) \<and>
     (\<forall>i. SchedQ i \<in> sched_sentinels \<longrightarrow> obj (rl s) (SchedQ i) = ONull) \<and>
     (\<forall>c < n. obj (rl s) (HaltedNode c) = OCore c) \<and>
     (\<forall>c < k. obj (rl s) (SchedNode (IdleT c)) = OTcb (IdleT c)) \<and>
     (\<forall>c < k. current_thread (cctx s c) = IdleT c) \<and>
     (\<forall>c. \<not> halted (cores s c)) \<and> ncores s = n \<and> active_threads s = 0 \<and>
     tcbs s = (\<lambda>t. if t \<in> IdleT ` {..<k} then Some idle_tcb else None)"

lemma fold_vm_boot_core:
  assumes "isring (rl s) HaltedList []" and "\<And>c. \<not> halted (cores s c)"
  shows "let s' = fold vm_boot_core [0..<n] s in
    isring (rl s') HaltedList [] \<and> (\<forall>c < n. isring (rl s') (HaltedNode c) [] \<and>
      obj (rl s') (HaltedNode c) = OCore c) \<and> (\<forall>c. \<not> halted (cores s' c)) \<and> ncores s' = ncores s \<and>
    active_threads s' = active_threads s \<and> tcbs s' = tcbs s"
proof (induction n)
  case 0
  then show ?case using assms by simp
next
  case (Suc n)
  then show ?case
    by (auto simp: Let_def vm_boot_core_def set_core_def init_list less_Suc_eq intro: init_keeps)
qed

lemma fold_bootfunc_init:
  "let s' = fold bootfunc_init cs s in rl s' = rl s \<and> tcbs s' = tcbs s \<and> ncores s' = ncores s \<and>
    active_threads s' = active_threads s \<and> (\<forall>c. halted (cores s' c) = halted (cores s c))"
  by (induction cs arbitrary: s) (auto simp: Let_def bootfunc_init_def set_core_def)

lemma run_scheduler_init_fields:
  "rl (run_scheduler_init c s) = rlnode_init (SchedNode (IdleT c)) (OTcb (IdleT c)) (rl s)"
  "tcbs (run_scheduler_init c s) = (tcbs s)(IdleT c \<mapsto> idle_tcb)"
  "ncores (run_scheduler_init c s) = ncores s"
  "active_threads (run_scheduler_init c s) = active_threads s"
  "halted (cores (run_scheduler_init c s) d) = halted (cores s d)"
  "current_thread (cctx (run_scheduler_init c s) d) = (if d = c then IdleT c else current_thread (cctx s d))"
  by (simp_all add: run_scheduler_init_def Let_def set_ccb_def set_tcb_def cpu_interrupt_handler_def
      set_core_def idle_tcb_def)

lemma booted_step:
  assumes b: "booted n k s" shows "booted n (Suc k) (run_scheduler_init k s)"
proof -
  have "isring (rl (run_scheduler_init k s)) l []"
    if l: "l \<in> sched_sentinels \<union> {HaltedList} \<union> HaltedNode ` {..<n} \<union> SchedNode ` IdleT ` {..<Suc k}" for l
  proof (cases "l = SchedNode (IdleT k)")
    case False
    then have "isring (rl s) l []" using l b by (auto simp: booted_def less_Suc_eq)
    with False show ?thesis by (simp add: run_scheduler_init_fields init_keeps)
  qed (simp add: run_scheduler_init_fields init_list)
  moreover have "tcbs (run_scheduler_init k s) = (\<lambda>t. if t \<in> IdleT ` {..<Suc k} then Some idle_tcb else None)"
    using b by (auto simp: booted_def run_scheduler_init_fields fun_eq_iff less_Suc_eq)
  ultimately show ?thesis
    using b by (auto simp: booted_def run_scheduler_init_fields less_Suc_eq)
qed

lemma booted_all: "booted n 0 s \<Longrightarrow> booted n k (fold run_scheduler_init [0..<k] s)"
  by (induction k) (simp_all add: booted_step)

lemma booted_inv:
  assumes b: "booted n n s"
  shows "sched_inv (\<lambda>_. Running) s (\<lambda>_. []) []"
proof -
  have t: "tcbs s u = Some x \<longleftrightarrow> (\<exists>c < n. u = IdleT c \<and> x = idle_tcb)" for u x
    using b by (auto simp: booted_def)
  have cur: "current_thread (cctx s c) = IdleT c" if "c < n" for c using b that by (simp add: booted_def)
  have nc: "ncores s = n" using b by (simp add: booted_def)
  have d: "dirty_on (\<lambda>_. Running) s c u \<longleftrightarrow> c < n \<and> u = IdleT c"
    and i: "\<not> incoming (\<lambda>_. Running) s c u" for c u
    using cur nc by (auto simp: dirty_on_def incoming_def)
  have "sched_abs s (\<lambda>_. []) []"
    using b by (auto simp: sched_abs_def booted_def queued_def dom_def split: if_splits)
  moreover have "thread_ok (\<lambda>_. Running) s (\<lambda>_. []) u x" if "tcbs s u = Some x" for u x
    using that unfolding t thread_ok_def idle_ok_def phase_ok_def state_ok_def queue_ok_def timeout_ok_def on_core_def
    by (auto simp: d i nc idle_tcb_def SCHED_MAX_LEVEL_def)
  moreover have "{a. tcbs s (HeapT a) \<noteq> None} = {}" using b by (auto simp: booted_def)
  moreover have "active_threads s = 0" using b by (simp add: booted_def)
  moreover have "dom (tcbs s) = IdleT ` {..<n}" using b by (auto simp: booted_def dom_def)
  ultimately show ?thesis
    unfolding sched_inv_def on_core_def using t by (simp add: d i nc wakeup_times_def)
qed

lemma sched_boot_inv:
  assumes n: "0 < n" "n \<le> MAX_CORES" "unat serialno \<le> MAX_TERMINALS"
  obtains s where "sched_boot n serialno clk (static_kernel h) = Inr s" and "ncores s = n"
    and "sched_inv (\<lambda>_. Running) s (\<lambda>_. []) []"
proof -
  let ?s0 = "(static_kernel h)\<lparr>system_clock := clk, rl := rlnode_init HaltedList ONull (rl (static_kernel h)), ncores := n\<rparr>"
  define s1' where "s1' = fold vm_boot_core [0..<n] ?s0"
  define s1 where "s1 = fold bootfunc_init [0..<n] s1'"
  have v: "vm_boot n serialno clk (static_kernel h) = Inr s1'"
    using n by (simp add: vm_boot_def s1'_def static_kernel_def)
  have 1: "isring (rl s1) HaltedList [] \<and> (\<forall>c < n. isring (rl s1) (HaltedNode c) [] \<and>
      obj (rl s1) (HaltedNode c) = OCore c) \<and> (\<forall>c. \<not> halted (cores s1 c)) \<and> ncores s1 = n \<and>
    active_threads s1 = 0 \<and> tcbs s1 = Map.empty"
    using fold_vm_boot_core [of ?s0 n] fold_bootfunc_init [of "[0..<n]" s1']
    unfolding s1_def [symmetric] s1'_def [symmetric] Let_def
    by (simp add: init_list static_kernel_def)
  define s2 where "s2 = s1\<lparr>rl := rlnode_init (SchedQ 2) ONull (rlnode_init (SchedQ 1) ONull (rlnode_init (SchedQ 0) ONull (rl s1)))\<rparr>"
  have i: "init_levels [0..SCHED_MAX_LEVEL - 1] s1 = Inr s2"
    unfolding upto_levels by (simp add: s2_def SCHED_MAX_LEVEL_def)
  let ?s3 = "s2\<lparr>rl := rlnode_init TimeoutList ONull (rl s2)\<rparr>"
  have "booted n 0 ?s3"
    using 1 unfolding booted_def s2_def
    by (auto simp: sched_sentinels_def SCHED_MAX_LEVEL_def init_list init_keeps)
  then have b: "booted n n (fold run_scheduler_init [0..<n] ?s3)" by (rule booted_all)
  show ?thesis
    by (rule that [OF _ _ booted_inv [OF b]]) (use b in \<open>simp_all add: sched_boot_def v s1_def [symmetric] i booted_def\<close>)
qed

section \<open>The steps\<close>

definition awake :: "nat \<Rightarrow> kernel \<Rightarrow> bool" where
  "awake c s \<longleftrightarrow> c < ncores s \<and> \<not> halted (cores s c)"

text \<open>
  A running core may yield (in particular from the handler of \<open>ALARM\<close>), put its thread to
  sleep or exit it, wake any live thread, create a thread, switch preemption on or off, or
  halt if it is idle.  Interrupts are raised and time passes at any moment.  A timeout may not
  overflow the clock to the value that stands for no timeout, and idle threads never sleep.
\<close>

inductive sched_step :: "conf \<Rightarrow> conf \<Rightarrow> bool" where
  step_yield: "awake c s \<Longrightarrow> pc c = Running \<Longrightarrow> yield_switch c cause s = Inr s' \<Longrightarrow>
    sched_step (pc, s) (pc(c := Switching), s')"
| step_sleep: "awake c s \<Longrightarrow> pc c = Running \<Longrightarrow> tcbs s (CURTHREAD c s) = Some x \<Longrightarrow>
    ttype x = NORMAL_THREAD \<Longrightarrow> timeout = NO_TIMEOUT \<or> bios_clock s + timeout \<noteq> NO_TIMEOUT \<Longrightarrow>
    sleep_mark c st timeout s = Inr (p, s') \<Longrightarrow> sched_step (pc, s) (pc(c := Sleeping cause), s')"
| step_sleep_yield: "awake c s \<Longrightarrow> pc c = Sleeping cause \<Longrightarrow> yield_switch c cause s = Inr s' \<Longrightarrow>
    sched_step (pc, s) (pc(c := Switching), s')"
| step_gain: "awake c s \<Longrightarrow> pc c = Switching \<Longrightarrow> gain c (saved_preempt s (CURTHREAD c s)) s = Inr s' \<Longrightarrow>
    sched_step (pc, s) (pc(c := Running), s')"
| step_wakeup: "awake c s \<Longrightarrow> pc c = Running \<Longrightarrow> wakeup c t s = Inr (r, s') \<Longrightarrow>
    sched_step (pc, s) (pc, s')"
| step_spawn: "awake c s \<Longrightarrow> pc c = Running \<Longrightarrow> tcbs s (HeapT a) = None \<Longrightarrow>
    sched_step (pc, s) (pc, snd (spawn_thread a p f s))"
| step_preempt_on: "awake c s \<Longrightarrow> pc c = Running \<Longrightarrow> sched_step (pc, s) (pc, preempt_on c s)"
| step_preempt_off: "awake c s \<Longrightarrow> pc c = Running \<Longrightarrow> sched_step (pc, s) (pc, snd (preempt_off c s))"
| step_halt: "awake c s \<Longrightarrow> pc c = Running \<Longrightarrow> CURTHREAD c s = IdleT c \<Longrightarrow>
    cpu_core_halt c s = Inr s' \<Longrightarrow> sched_step (pc, s) (pc, s')"
| step_interrupt: "c < ncores s \<Longrightarrow> sched_step (pc, s) (pc, raise_interrupt c i s)"
| step_clock: "system_clock s \<le> k \<Longrightarrow> sched_step (pc, s) (pc, s\<lparr>system_clock := k\<rparr>)"

inductive_cases sched_stepE: "sched_step (pc, s) cf"

lemma step_safe:
  assumes "sched_step cf cf'" and "sched_safe cf"
  shows "sched_safe cf'"
  using assms
proof (induction rule: sched_step.induct)
  case (step_yield c s pc cause s')
  then obtain L hs where i: "sched_inv pc s L hs" and c: "c < ncores s" "pc c \<noteq> Switching"
    by (auto simp: sched_safe_def awake_def)
  obtain s'' L' hs' where "yield_switch c cause s = Inr s''" "sched_inv (pc(c := Switching)) s'' L' hs'"
    by (rule yield_switch_inv [OF i c])
  with step_yield show ?case by (auto simp: sched_safe_def)
next
  case (step_sleep_yield c s pc cause s')
  then obtain L hs where i: "sched_inv pc s L hs" and c: "c < ncores s" "pc c \<noteq> Switching"
    by (auto simp: sched_safe_def awake_def)
  obtain s'' L' hs' where "yield_switch c cause s = Inr s''" "sched_inv (pc(c := Switching)) s'' L' hs'"
    by (rule yield_switch_inv [OF i c])
  with step_sleep_yield show ?case by (auto simp: sched_safe_def)
next
  case (step_sleep c s pc x timeout st p s' cause)
  then obtain L hs where i: "sched_inv pc s L hs" and c: "c < ncores s"
    by (auto simp: sched_safe_def awake_def)
  have st: "st = STOPPED \<or> st = EXITED"
    using step_sleep.hyps(6) by (auto simp: sleep_mark_def split: if_splits)
  obtain p' s'' L' hs' where "sleep_mark c st timeout s = Inr (p', s'')"
    "sched_inv (pc(c := Sleeping cause)) s'' L' hs'"
    by (rule sleep_mark_inv [OF i c step_sleep.hyps(2) step_sleep.hyps(3) [unfolded CURTHREAD_def]
          step_sleep.hyps(4) st]) (use step_sleep.hyps(5) in auto)
  with step_sleep.hyps(6) show ?case by (auto simp: sched_safe_def)
next
  case (step_gain c s pc s')
  then obtain L hs where i: "sched_inv pc s L hs" and c: "c < ncores s"
    by (auto simp: sched_safe_def awake_def)
  obtain s'' L' hs' where "gain c (saved_preempt s (CURTHREAD c s)) s = Inr s''"
    "sched_inv (pc(c := Running)) s'' L' hs'"
    by (rule gain_inv [OF i c step_gain.hyps(2)])
  with step_gain.hyps(3) show ?case by (auto simp: sched_safe_def)
next
  case (step_wakeup c s pc t r s')
  then obtain L hs where i: "sched_inv pc s L hs" by (auto simp: sched_safe_def)
  obtain x where x: "tcbs s t = Some x"
    using step_wakeup.hyps(3) by (auto simp: wakeup_def rbind_eq_Inr get_tcb_eq_Inr prod.case_eq_if Let_def)
  obtain r' s'' L' hs' where "wakeup c t s = Inr (r', s'')" "sched_inv pc s'' L' hs'"
    by (rule wakeup_inv [OF i x])
  with step_wakeup.hyps(3) show ?case by (auto simp: sched_safe_def)
next
  case (step_halt c s pc s')
  then show ?case using halt_inv by (fastforce simp: sched_safe_def awake_def)
next
  case (step_clock s k pc)
  have "sched_inv pc (s\<lparr>system_clock := k\<rparr>) L hs = sched_inv pc s L hs" for L hs
    by (rule sched_inv_cong) simp_all
  with step_clock show ?case by (simp add: sched_safe_def)
qed (auto simp: sched_safe_def awake_def intro: spawn_inv raise_interrupt_inv)

section \<open>Reachable configurations\<close>

inductive sched_reachable :: "conf \<Rightarrow> bool" where
  boot: "sched_boot n serialno clk (static_kernel h) = Inr s \<Longrightarrow> sched_reachable (\<lambda>_. Running, s)"
| step: "sched_reachable cf \<Longrightarrow> sched_step cf cf' \<Longrightarrow> sched_reachable cf'"

lemma reachable_safe: "sched_reachable cf \<Longrightarrow> sched_safe cf"
proof (induction rule: sched_reachable.induct)
  case (boot n serialno clk h s)
  then have n: "0 < n" "n \<le> MAX_CORES" "unat serialno \<le> MAX_TERMINALS"
    by (auto simp: sched_boot_def vm_boot_def rbind_eq_Inr split: if_splits)
  obtain s' where "sched_boot n serialno clk (static_kernel h) = Inr s'"
    "sched_inv (\<lambda>_. Running) s' (\<lambda>_. []) []"
    by (rule sched_boot_inv [OF n])
  with boot show ?case by (auto simp: sched_safe_def)
qed (rule step_safe)

lemma reachable_inv:
  assumes "sched_reachable (pc, s)" obtains L hs where "sched_inv pc s L hs"
  using reachable_safe [OF assms] by (auto simp: sched_safe_def)

end
