(* ===== verification/Sched_Props.thy ===== *)
theory Sched_Props
  imports Sched_Reach
begin

text \<open>
  What the scheduler guarantees in every configuration that can be reached from the start, and
  the behaviour of its operations, stated on the kernel's data structures.
\<close>

section \<open>Runs for the examples\<close>

text \<open>A machine of \<open>k\<close> cores on which a thread was created and made ready.\<close>

definition zero_heap :: "(node, key) rlheap" where
  "zero_heap = \<lparr>prv = id, nxt = id, obj = (\<lambda>_. ONull)\<rparr>"

lemma tcbs_run_scheduler_init: "tcbs (fold run_scheduler_init cs s) (HeapT a) = tcbs s (HeapT a)"
  by (induction cs arbitrary: s) (simp_all add: run_scheduler_init_fields)

lemma tcbs_vm_boot: "vm_boot n serialno clk s = Inr s' \<Longrightarrow> tcbs s' = tcbs s"
proof -
  have "tcbs (fold vm_boot_core cs s) = tcbs s" for cs and s :: kernel
    by (induction cs arbitrary: s) (simp_all add: vm_boot_core_def set_core_def Let_def)
  then show "vm_boot n serialno clk s = Inr s' \<Longrightarrow> tcbs s' = tcbs s" by (auto simp: vm_boot_def split: if_splits)
qed

lemma run_boot_on:
  assumes "0 < k" and "k \<le> MAX_CORES"
  obtains s where "sched_reachable (\<lambda>_. Running, s)" and "ncores s = k" and "\<forall>c < k. awake c s"
    and "tcbs s (HeapT 0) = None" and "sched_inv (\<lambda>_. Running) s (\<lambda>_. []) []"
proof -
  obtain s where s: "sched_boot k 0 0 (static_kernel zero_heap) = Inr s" "ncores s = k"
    "sched_inv (\<lambda>_. Running) s (\<lambda>_. []) []"
    by (rule sched_boot_inv [of k 0 0 zero_heap]) (use assms in \<open>simp_all add: MAX_TERMINALS_def\<close>)
  obtain s1 s2 where v: "vm_boot k 0 0 (static_kernel zero_heap) = Inr s1"
    and l: "init_levels [0..SCHED_MAX_LEVEL - 1] (fold bootfunc_init [0..<k] s1) = Inr s2"
    and e: "s = fold run_scheduler_init [0..<k] (s2\<lparr>rl := rlnode_init TimeoutList ONull (rl s2)\<rparr>)"
    using s(1) by (auto simp: sched_boot_def rbind_eq_Inr)
  have "tcbs s2 = tcbs (fold bootfunc_init [0..<k] s1)"
    using l unfolding upto_levels by (auto simp: rbind_eq_Inr SCHED_MAX_LEVEL_def split: if_splits)
  also have "\<dots> = tcbs s1" using fold_bootfunc_init [of "[0..<k]" s1] by (simp add: Let_def)
  finally have "tcbs s (HeapT 0) = None"
    using tcbs_vm_boot [OF v] by (simp add: e tcbs_run_scheduler_init static_kernel_def)
  moreover have "awake c s" if "c < k" for c
    using s(2) sched_absD(7) [OF sched_inv_abs [OF s(3)], of c] that by (simp add: awake_def)
  ultimately show ?thesis using that s sched_reachable.boot by blast
qed

lemma run_boot:
  obtains s where "sched_reachable (\<lambda>_. Running, s)" and "ncores s = 1" and "awake 0 s"
    and "tcbs s (HeapT 0) = None" and "sched_inv (\<lambda>_. Running) s (\<lambda>_. []) []"
  by (rule run_boot_on [of 1]) (simp_all add: MAX_CORES_def)

lemma run_ready_on:
  assumes k: "0 < k" "k \<le> MAX_CORES"
  obtains s x where "sched_reachable (\<lambda>_. Running, s)" and "ncores s = k"
    and "tcbs s (HeapT 0) = Some x" and "ttype x = NORMAL_THREAD" and "tstate x = READY"
    and "tphase x = CTX_CLEAN" and "priority x = 0" and "wakeup_time x = NO_TIMEOUT"
proof -
  obtain s where s: "sched_reachable (\<lambda>_. Running, s)" "ncores s = k" "\<forall>c < k. awake c s"
    "tcbs s (HeapT 0) = None" "sched_inv (\<lambda>_. Running) s (\<lambda>_. []) []" by (rule run_boot_on [OF k])
  define s1 where "s1 = snd (spawn_thread 0 0 start_thread_func s)"
  have 1: "sched_reachable (\<lambda>_. Running, s1)" unfolding s1_def
    by (rule sched_reachable.step [OF s(1) step_spawn [of 0]]) (use s(3,4) k in simp_all)
  have i1: "sched_inv (\<lambda>_. Running) s1 (\<lambda>_. []) []" unfolding s1_def by (rule spawn_inv [OF s(5,4)])
  have f1: "awake 0 s1" "ncores s1 = k" "tcbs s1 (HeapT 0) = Some (new_tcb 0 start_thread_func)"
    using s(2,3) k by (simp_all add: s1_def spawn_thread_eq awake_def)
  obtain r s2 L hs where s2: "wakeup 0 (HeapT 0) s1 = Inr (r, s2)" "sched_inv (\<lambda>_. Running) s2 L hs"
    "sched_frame s1 s2" "r \<longleftrightarrow> tstate (new_tcb 0 start_thread_func) = STOPPED \<or>
        tstate (new_tcb 0 start_thread_func) = INIT"
    "tcbs s2 = (tcbs s1)(HeapT 0 \<mapsto> if r then mk_ready (new_tcb 0 start_thread_func) else new_tcb 0 start_thread_func)"
    by (rule wakeup_inv [OF i1 f1(3), of 0])
  have 2: "sched_reachable (\<lambda>_. Running, s2)"
    by (rule sched_reachable.step [OF 1 step_wakeup [OF f1(1) _ s2(1)]]) simp
  have n2: "ncores s2 = k" using s2(3) f1(2) by (simp add: sched_frame_def)
  have "tcbs s2 (HeapT 0) = Some (mk_ready (new_tcb 0 start_thread_func))"
    using s2(4,5) by (simp add: new_tcb_def)
  then show ?thesis by (rule that [OF 2 n2]) (simp_all add: new_tcb_def)
qed

lemma run_ready:
  obtains s x where "sched_reachable (\<lambda>_. Running, s)" and "ncores s = 1"
    and "tcbs s (HeapT 0) = Some x" and "ttype x = NORMAL_THREAD" and "tstate x = READY"
    and "tphase x = CTX_CLEAN" and "priority x = 0" and "wakeup_time x = NO_TIMEOUT"
  by (rule run_ready_on [of 1]) (simp_all add: MAX_CORES_def)

section \<open>The scheduler never faults\<close>

text \<open>
  C17: In every reachable configuration no operation of the scheduler fails an assertion,
  follows a dangling pointer or loops: a core that executes or goes to sleep can yield, a core
  that has switched contexts can complete the switch, and any live thread can be woken up.
\<close>

theorem sched_never_faults:
  assumes "sched_reachable (pc, s)" and "c < ncores s"
  shows "(pc c \<noteq> Switching \<longrightarrow> (\<exists>s'. yield_switch c cause s = Inr s')) \<and>
    (pc c = Switching \<longrightarrow> (\<exists>s'. gain c preempt s = Inr s')) \<and>
    (tcbs s t \<noteq> None \<longrightarrow> (\<exists>r s'. wakeup c t s = Inr (r, s')))"
proof -
  obtain L hs where i: "sched_inv pc s L hs" by (rule reachable_inv [OF assms(1)])
  have "\<exists>s'. yield_switch c cause s = Inr s'" if "pc c \<noteq> Switching"
    by (rule yield_switch_inv [OF i assms(2) that, of cause]) blast
  moreover have "\<exists>s'. gain c preempt s = Inr s'" if "pc c = Switching"
    by (rule gain_inv [OF i assms(2) that, of preempt]) blast
  moreover have "\<exists>r s'. wakeup c t s = Inr (r, s')" if "tcbs s t = Some x" for x
    by (rule wakeup_inv [OF i that, of c]) blast
  ultimately show ?thesis by blast
qed

theorem sched_never_faults_witness:
  "\<exists>s. ncores s = 1 \<and> (\<exists>s'. yield_switch 0 SCHED_QUANTUM s = Inr s') \<and>
    (\<exists>r s'. wakeup 0 (HeapT 0) s = Inr (r, s'))"
proof -
  obtain s x where s: "sched_reachable (\<lambda>_. Running, s)" "ncores s = 1" "tcbs s (HeapT 0) = Some x"
    by (rule run_ready)
  with sched_never_faults [OF s(1), of 0 SCHED_QUANTUM True "HeapT 0"] show ?thesis by auto
qed

section \<open>Threads, cores and queues\<close>

text \<open>
  C18: A ring of the run queue holds exactly the normal threads that are ready at its level and
  whose context is clean, except those a core has already chosen and is about to run; so no
  ready thread is ever lost, and no thread is queued twice.
\<close>

theorem run_queue_membership:
  assumes "sched_reachable (pc, s)" and "0 \<le> i" and "i < SCHED_MAX_LEVEL"
  shows "\<exists>ts. isring (rl s) (SchedQ i) (map SchedNode ts) \<and> distinct ts \<and>
    (\<forall>t. t \<in> set ts \<longleftrightarrow> (\<exists>x. tcbs s t = Some x \<and> ttype x = NORMAL_THREAD \<and> tstate x = READY \<and>
        tphase x = CTX_CLEAN \<and> priority x = i \<and> \<not> (\<exists>c. incoming pc s c t)))"
proof -
  obtain L hs where i: "sched_inv pc s L hs" by (rule reachable_inv [OF assms(1)])
  have l: "SchedQ i \<in> sched_sentinels" using assms(2,3) by simp
  note a = sched_inv_abs [OF i]
  have "t \<in> set (L (SchedQ i)) \<longleftrightarrow> (\<exists>x. tcbs s t = Some x \<and> ttype x = NORMAL_THREAD \<and> tstate x = READY \<and>
      tphase x = CTX_CLEAN \<and> priority x = i \<and> \<not> (\<exists>c. incoming pc s c t))" for t
    using sched_absD(5) [OF a l, of t]
      queue_okD(3) [OF thread_okD(4) [OF sched_inv_thread [OF i]] l] by blast
  then show ?thesis using sched_absD(1) [OF a l] sched_abs_distinct [OF a l] by blast
qed

theorem run_queue_membership_witness:
  "\<exists>(s :: kernel) ts. isring (rl s) (SchedQ 0) (map SchedNode ts) \<and> HeapT 0 \<in> set ts"
proof -
  obtain s x where s: "sched_reachable (\<lambda>_. Running, s)" "tcbs s (HeapT 0) = Some x"
    "ttype x = NORMAL_THREAD" "tstate x = READY" "tphase x = CTX_CLEAN" "priority x = 0"
    by (rule run_ready)
  have "\<not> incoming (\<lambda>_. Running) s c t" for c t by (simp add: incoming_def)
  with s(2-6) have m: "\<exists>x. tcbs s (HeapT 0) = Some x \<and> ttype x = NORMAL_THREAD \<and> tstate x = READY \<and>
      tphase x = CTX_CLEAN \<and> priority x = 0 \<and> \<not> (\<exists>c. incoming (\<lambda>_. Running) s c (HeapT 0))" by blast
  have "0 < SCHED_MAX_LEVEL" by (simp add: SCHED_MAX_LEVEL_def)
  from run_queue_membership [OF s(1) order_refl this] m show ?thesis by blast
qed

text \<open>
  A thread is current on one core at most, and it is \<open>RUNNING\<close> exactly when it is the
  current thread of a core that is executing it.
\<close>

theorem current_threads_distinct:
  assumes "sched_reachable (pc, s)" and "c < ncores s" and "d < ncores s"
  shows "(current_thread (cctx s c) = current_thread (cctx s d) \<longrightarrow> c = d) \<and>
    (\<exists>x. tcbs s (current_thread (cctx s c)) = Some x \<and> (tstate x = RUNNING \<longleftrightarrow> pc c = Running))"
proof -
  obtain L hs where i: "sched_inv pc s L hs" by (rule reachable_inv [OF assms(1)])
  have on: "on_core pc s e (current_thread (cctx s e))" if "e < ncores s" for e
    using that by (auto simp: on_core_def dirty_on_def incoming_def)
  obtain x where x: "tcbs s (current_thread (cctx s c)) = Some x"
    using sched_inv_live [OF i on [OF assms(2)]] ..
  have "tstate x = RUNNING \<longleftrightarrow> pc c = Running"
  proof
    assume "tstate x = RUNNING"
    then obtain e where e: "dirty_on pc s e (current_thread (cctx s c))" "pc e = Running"
      using thread_okD(3) [OF sched_inv_thread [OF i x]] unfolding state_ok_def by blast
    with sched_inv_excl [OF i on_core_dirty [OF e(1)] on [OF assms(2)]] show "pc c = Running" by simp
  next
    assume r: "pc c = Running"
    then have "dirty_on pc s c (current_thread (cctx s c))" using assms(2) by (simp add: dirty_on_def)
    with r show "tstate x = RUNNING"
      using thread_okD(3) [OF sched_inv_thread [OF i x]] unfolding state_ok_def by blast
  qed
  with x on [OF assms(2)] on [OF assms(3)] show ?thesis using sched_inv_excl [OF i] by metis
qed

theorem current_threads_distinct_witness:
  "\<exists>(s :: kernel) x. ncores s = 1 \<and> tcbs s (current_thread (cctx s 0)) = Some x \<and> tstate x = RUNNING"
proof -
  obtain s x where s: "sched_reachable (\<lambda>_. Running, s)" "ncores s = 1" by (rule run_ready)
  with current_threads_distinct [OF s(1), of 0 0] show ?thesis by (intro exI [of _ s]) auto
qed

text \<open>
  No ready thread is lost: a normal thread that is ready is linked into the run queue of its
  priority, or it is the thread a core has chosen, or the thread that is leaving a core.
\<close>

theorem ready_not_lost:
  assumes "sched_reachable (pc, s)" and "tcbs s t = Some x"
    and "ttype x = NORMAL_THREAD" and "tstate x = READY"
  shows "(\<exists>ns. isring (rl s) (SchedQ (priority x)) ns \<and> SchedNode t \<in> set ns) \<or>
    (\<exists>c < ncores s. current_thread (cctx s c) = t \<or> pc c = Switching \<and> previous_thread (cctx s c) = t)"
proof -
  obtain L hs where i: "sched_inv pc s L hs" by (rule reachable_inv [OF assms(1)])
  note ok = thread_okD [OF sched_inv_thread [OF i assms(2)]]
  have l: "SchedQ (priority x) \<in> sched_sentinels" using queue_okD(1,2) [OF ok(4)] by simp
  show ?thesis
  proof (cases "t \<in> set (L (SchedQ (priority x)))")
    case True
    then show ?thesis using sched_absD(1) [OF sched_inv_abs [OF i] l] by force
  next
    case False
    then consider "tphase x = CTX_DIRTY" | c where "incoming pc s c t"
      using queue_okD(3) [OF ok(4) l] assms(3,4) by (cases "tphase x") auto
    then obtain c where "on_core pc s c t"
      using ok(2) unfolding phase_ok_def on_core_def by blast
    then show ?thesis by (auto simp: on_core_def dirty_on_def incoming_def split: if_splits)
  qed
qed

theorem ready_not_lost_witness:
  "\<exists>s :: kernel. (\<exists>ns. isring (rl s) (SchedQ 0) ns \<and> SchedNode (HeapT 0) \<in> set ns) \<or>
     current_thread (cctx s 0) = HeapT 0"
proof -
  obtain s x where s: "sched_reachable (\<lambda>_. Running, s)" "ncores s = 1" "tcbs s (HeapT 0) = Some x"
    "ttype x = NORMAL_THREAD" "tstate x = READY" "priority x = 0"
    by (rule run_ready)
  from ready_not_lost [OF s(1,3-5)] s(2,6) show ?thesis by (intro exI [of _ s]) auto
qed

text \<open>
  C19: A core only switches to a thread that no other core is using: the thread that \<open>yield\<close>
  chooses is the yielding thread itself, or its context is clean; and it is not the current
  thread of any other core, nor the thread that another core, which has switched and not yet
  completed \<open>gain\<close>, is leaving.
\<close>

theorem yield_switches_to_clean_context:
  assumes "sched_reachable (pc, s)" and "c < ncores s" and "pc c \<noteq> Switching"
    and "yield_switch c cause s = Inr s'"
  shows "\<exists>n. current_thread (cctx s' c) = n \<and>
    (n = current_thread (cctx s c) \<or> (\<exists>y. tcbs s' n = Some y \<and> tphase y = CTX_CLEAN)) \<and>
    (\<forall>d. d < ncores s \<longrightarrow> d \<noteq> c \<longrightarrow> current_thread (cctx s' d) \<noteq> n \<and>
       (pc d = Switching \<longrightarrow> previous_thread (cctx s' d) \<noteq> n))"
proof -
  obtain L hs where i: "sched_inv pc s L hs" by (rule reachable_inv [OF assms(1)])
  let ?pc = "pc(c := Switching)"
  obtain s'' L' hs' where y: "yield_switch c cause s = Inr s''" "sched_inv ?pc s'' L' hs'"
    "sched_frame s s''" "previous_thread (cctx s'' c) = current_thread (cctx s c)"
    by (rule yield_switch_inv [OF i assms(2,3)])
  with assms(4) have i': "sched_inv ?pc s' L' hs'" and n: "ncores s' = ncores s"
    and prev: "previous_thread (cctx s' c) = current_thread (cctx s c)"
    by (simp_all add: sched_frame_def)
  let ?n = "current_thread (cctx s' c)"
  have cur: "on_core ?pc s' d (current_thread (cctx s' d))"
    and pre: "?pc d = Switching \<Longrightarrow> on_core ?pc s' d (previous_thread (cctx s' d))" if "d < ncores s" for d
    using that n by (auto simp: on_core_def dirty_on_def incoming_def)
  have alone: "d = c" if "on_core ?pc s' d ?n" for d
    using sched_inv_excl [OF i' that cur [OF assms(2)]] .
  have "\<exists>y. tcbs s' ?n = Some y \<and> tphase y = CTX_CLEAN" if ne: "?n \<noteq> current_thread (cctx s c)"
  proof -
    have "\<not> dirty_on ?pc s' d ?n" for d
      using alone [of d] ne prev by (cases "d = c") (auto simp: dirty_on_def on_core_def)
    moreover obtain y where y: "tcbs s' ?n = Some y"
      using sched_inv_live [OF i' cur [OF assms(2)]] ..
    ultimately have "tphase y \<noteq> CTX_DIRTY"
      using thread_okD(2) [OF sched_inv_thread [OF i' y]] unfolding phase_ok_def by blast
    with y show ?thesis by (cases "tphase y") auto
  qed
  moreover have "current_thread (cctx s' d) \<noteq> ?n \<and> (pc d = Switching \<longrightarrow> previous_thread (cctx s' d) \<noteq> ?n)"
    if "d < ncores s" "d \<noteq> c" for d
    using cur [OF that(1)] pre [OF that(1)] alone [of d] that(2) by auto
  ultimately show ?thesis by blast
qed

theorem yield_switches_to_clean_context_witness:
  "\<exists>s s'. ncores s = 1 \<and> tcbs s (HeapT 0) \<noteq> None \<and> yield_switch 0 SCHED_IDLE s = Inr s' \<and>
    (current_thread (cctx s' 0) = current_thread (cctx s 0) \<or>
     (\<exists>y. tcbs s' (current_thread (cctx s' 0)) = Some y \<and> tphase y = CTX_CLEAN))"
proof -
  obtain s x where s: "sched_reachable (\<lambda>_. Running, s)" "ncores s = 1" "tcbs s (HeapT 0) = Some x" by (rule run_ready)
  obtain L hs where i: "sched_inv (\<lambda>_. Running) s L hs" by (rule reachable_inv [OF s(1)])
  obtain s' where y: "yield_switch 0 SCHED_IDLE s = Inr s'"
    by (rule yield_switch_inv [OF i, of 0 SCHED_IDLE]) (use s(2) in auto)
  from yield_switches_to_clean_context [OF s(1) _ _ y] s(2,3) y show ?thesis by force
qed

section \<open>Timeouts\<close>

text \<open>
  C21: The timeout list is a ring of exactly the threads that have a wake-up time, all of them
  stopped, in the order of their wake-up times.
\<close>

theorem timeout_list_sorted:
  assumes "sched_reachable (pc, s)"
  shows "\<exists>ts. isring (rl s) TimeoutList (map SchedNode ts) \<and>
    sorted (map (\<lambda>t. wakeup_time (the (tcbs s t))) ts) \<and>
    set ts = {t. \<exists>x. tcbs s t = Some x \<and> wakeup_time x \<noteq> NO_TIMEOUT} \<and>
    (\<forall>t \<in> set ts. tstate (the (tcbs s t)) = STOPPED)"
proof -
  obtain L hs where i: "sched_inv pc s L hs" by (rule reachable_inv [OF assms])
  note a = sched_inv_abs [OF i]
  have to: "t \<in> set (L TimeoutList) \<longleftrightarrow> wakeup_time x \<noteq> NO_TIMEOUT"
    "wakeup_time x \<noteq> NO_TIMEOUT \<Longrightarrow> tstate x = STOPPED" if "tcbs s t = Some x" for t x
    using thread_okD(5) [OF sched_inv_thread [OF i that]] by (auto simp: timeout_ok_def)
  have live: "\<exists>x. tcbs s t = Some x" if "t \<in> set (L TimeoutList)" for t
    using sched_absD(5) [OF a sentinel_simps(1) that] .
  have "set (L TimeoutList) = {t. \<exists>x. tcbs s t = Some x \<and> wakeup_time x \<noteq> NO_TIMEOUT}"
    using to(1) live by blast
  moreover have "\<forall>t \<in> set (L TimeoutList). tstate (the (tcbs s t)) = STOPPED"
    using to live by fastforce
  moreover have "sorted (map (\<lambda>t. wakeup_time (the (tcbs s t))) (L TimeoutList))"
    using i by (simp add: sched_inv_def wakeup_times_def)
  moreover have "isring (rl s) TimeoutList (map SchedNode (L TimeoutList))"
    using sched_absD(1) [OF a, of TimeoutList] by simp
  ultimately show ?thesis by blast
qed

theorem timeout_list_sorted_witness:
  "\<exists>(s :: kernel) ts. isring (rl s) TimeoutList (map SchedNode ts) \<and> HeapT 0 \<notin> set ts \<and>
     tcbs s (HeapT 0) \<noteq> None"
proof -
  obtain s x where s: "sched_reachable (\<lambda>_. Running, s)" "tcbs s (HeapT 0) = Some x"
    "wakeup_time x = NO_TIMEOUT" by (rule run_ready)
  with timeout_list_sorted [OF s(1)] show ?thesis by (intro exI [of _ s]) auto
qed

lemma set_takeWhile_sorted:
  "sorted (map f ts) \<Longrightarrow> set (takeWhile (\<lambda>u. f u \<le> w) ts) = {u \<in> set ts. f u \<le> w}"
  by (induction ts) auto

text \<open>
  Expiring the timeouts always ends, and makes ready exactly the threads whose wake-up time
  has been reached; every other thread keeps its TCB.
\<close>

theorem expiry_wakes_the_expired:
  assumes "sched_reachable (pc, s)"
  shows "\<exists>s'. sched_wakeup_expired_timeouts s = Inr s' \<and> (\<forall>t x. tcbs s t = Some x \<longrightarrow>
    tcbs s' t = Some (if wakeup_time x \<noteq> NO_TIMEOUT \<and> wakeup_time x \<le> bios_clock s
      then x\<lparr>wakeup_time := NO_TIMEOUT, tstate := READY\<rparr> else x))"
proof -
  obtain L hs where i: "sched_inv pc s L hs" by (rule reachable_inv [OF assms])
  have to: "t \<in> set (L TimeoutList) \<longleftrightarrow> wakeup_time x \<noteq> NO_TIMEOUT"
    "wakeup_time x \<noteq> NO_TIMEOUT \<Longrightarrow> tstate x = STOPPED" if "tcbs s t = Some x" for t x
    using thread_okD(5) [OF sched_inv_thread [OF i that]] by (auto simp: timeout_ok_def)
  have ok: "blocked_ok L t x" if "t \<in> set (L TimeoutList)" "tcbs s t = Some x" for t x
    using to [OF that(2)] that by (intro inv_blocked_ok [OF i]) auto
  have "sorted (map (\<lambda>t. wakeup_time (the (tcbs s t))) (L TimeoutList))"
    using i by (simp add: sched_inv_def wakeup_times_def)
  note e = set_takeWhile_sorted [OF this, of "bios_clock s", folded expired_def]
  obtain s' hs' where s': "sched_wakeup_expired_timeouts s = Inr s'"
    "s' = s\<lparr>rl := rl s', cores := cores s',
           tcbs := (\<lambda>t. if t \<in> set (expired s (bios_clock s) (L TimeoutList))
                        then map_option mk_ready (tcbs s t) else tcbs s t)\<rparr>"
    by (rule wakeup_expired_abs [OF sched_inv_abs [OF i] ok]) blast+
  have tc: "tcbs s' = (\<lambda>t. if t \<in> set (expired s (bios_clock s) (L TimeoutList))
      then map_option mk_ready (tcbs s t) else tcbs s t)" by (subst s'(2)) simp
  have "tcbs s' t = Some (if wakeup_time x \<noteq> NO_TIMEOUT \<and> wakeup_time x \<le> bios_clock s then mk_ready x else x)"
    if "tcbs s t = Some x" for t x
    unfolding tc e using that to(1) [OF that] by simp
  with s'(1) show ?thesis by blast
qed

theorem expiry_wakes_the_expired_witness:
  "\<exists>s s' x. tcbs s (HeapT 0) = Some x \<and> sched_wakeup_expired_timeouts s = Inr s' \<and> tcbs s' (HeapT 0) = Some x"
proof -
  obtain s x where s: "sched_reachable (\<lambda>_. Running, s)" "tcbs s (HeapT 0) = Some x"
    "wakeup_time x = NO_TIMEOUT" by (rule run_ready)
  obtain s' where "sched_wakeup_expired_timeouts s = Inr s'" "tcbs s' (HeapT 0) = Some x"
    using expiry_wakes_the_expired [OF s(1)] s(2,3) by auto
  with s(2) show ?thesis by blast
qed

section \<open>Selection and priorities\<close>

text \<open>
  C22: The next thread is the front of the highest non-empty level; if all levels are empty it
  is the current thread if that is still ready, and the core's idle thread otherwise.  The
  chosen thread leaves its queue and nothing else moves.
\<close>

theorem queue_select_highest_level:
  assumes "sched_abs s L hs" and "tcbs s current = Some x" and "tcbs s (IdleT c) \<noteq> None"
  shows "\<exists>s'. sched_queue_select c current s = Inr (next_thread_spec c current x L, s') \<and>
    sched_abs s' (select_lists L) hs"
  by (rule queue_select_abs [OF assms refl]) blast

theorem queue_select_highest_level_witness:
  "\<exists>s s'. sched_queue_select 0 (IdleT 0) s = Inr (HeapT 0, s')"
proof -
  obtain s where s: "ncores s = 1" "tcbs s (HeapT 0) = None" "sched_inv (\<lambda>_. Running) s (\<lambda>_. []) []"
    by (rule run_boot)
  let ?x = "new_tcb 0 start_thread_func"
  define s1 where "s1 = snd (spawn_thread 0 0 start_thread_func s)"
  have i1: "sched_inv (\<lambda>_. Running) s1 (\<lambda>_. []) []" unfolding s1_def by (rule spawn_inv [OF s(3,2)])
  have x1: "tcbs s1 (HeapT 0) = Some ?x" "ncores s1 = 1" using s by (simp_all add: s1_def spawn_thread_eq)
  obtain s2 hs where s2: "sched_inv (\<lambda>_. Running) s2 (ready_lists (HeapT 0) ?x (\<lambda>_. [])) hs"
    "sched_frame s1 s2"
    by (rule make_ready_inv [OF i1 x1(1)]) (simp_all add: new_tcb_def)
  have l: "ready_lists (HeapT 0) ?x (\<lambda>_. []) (SchedQ 0) = [HeapT 0]"
    by (simp add: ready_lists_SchedQ new_tcb_def)
  have "ncores s2 = 1" using s2(2) x1(2) by (simp add: sched_frame_def)
  with s2(1) obtain y where y: "tcbs s2 (IdleT 0) = Some y" by (auto simp: sched_inv_def)
  have "next_thread_spec 0 (IdleT 0) y (ready_lists (HeapT 0) ?x (\<lambda>_. [])) = HeapT 0"
    using l by (simp add: next_thread_spec_def next_level_def)
  with queue_select_highest_level [OF sched_inv_abs [OF s2(1)] y, of 0] y show ?thesis by auto
qed

lemma select_level_scheduled:
  "set lv \<subseteq> {0, 1, 2} \<Longrightarrow>
    fst (select_level lv (s\<lparr>scheduled := k\<rparr>)) = fst (select_level lv s) \<and>
    (snd (select_level lv (s\<lparr>scheduled := k\<rparr>)))\<lparr>scheduled := 0\<rparr> = (snd (select_level lv s))\<lparr>scheduled := 0\<rparr>"
proof (induction lv)
  case (Cons i lv)
  then have "i mod 4 = i" by auto
  with Cons show ?case by (simp add: prod.case_eq_if Let_def)
qed simp

lemma map_rbind_same:
  assumes "\<And>t y. F (t, G t y) = F (t, H t y)"
  shows "map_sum id F (rbind r (\<lambda>t. rbind (q t) (\<lambda>y. Inr (t, G t y)))) =
    map_sum id F (rbind r (\<lambda>t. rbind (q t) (\<lambda>y. Inr (t, H t y))))"
  using assms by (cases r) (auto simp: rbind_def split: sum.split)

text \<open>
  C23: The counter \<open>scheduled\<close> has no influence: whatever its value, the same thread is
  chosen and the same state results, up to the counter itself.  The index \<open>i%4\<close> that is
  meant to change the order of the levels is \<open>i\<close> for every level.
\<close>

theorem scheduled_counter_has_no_effect:
  "map_sum id (\<lambda>(t, s'). (t, s'\<lparr>scheduled := 0\<rparr>)) (sched_queue_select c current (s\<lparr>scheduled := k\<rparr>)) =
   map_sum id (\<lambda>(t, s'). (t, s'\<lparr>scheduled := 0\<rparr>)) (sched_queue_select c current s)"
proof -
  obtain n1 s1 where 1: "select_level [0, 1, 2] (s\<lparr>scheduled := k\<rparr>) = (n1, s1)" by fastforce
  obtain n2 s2 where 2: "select_level [0, 1, 2] s = (n2, s2)" by fastforce
  have e: "n1 = n2" "s1\<lparr>scheduled := 0\<rparr> = s2\<lparr>scheduled := 0\<rparr>"
    using select_level_scheduled [where lv = "[0, 1, 2]" and s = s and k = k] 1 2 by (simp_all del: select_level.simps)
  have f: "rl s1 = rl s2" "tcbs s1 = tcbs s2"
    using arg_cong [OF e(2), of rl] arg_cong [OF e(2), of tcbs] by simp_all
  have g: "get_tcb t s1 = get_tcb t s2" for t by (simp add: get_tcb_def f)
  have st: "(set_tcb t y s1)\<lparr>scheduled := 0\<rparr> = (set_tcb t y s2)\<lparr>scheduled := 0\<rparr>" for t y
  proof -
    have "(set_tcb t y s1)\<lparr>scheduled := 0\<rparr> = set_tcb t y (s1\<lparr>scheduled := 0\<rparr>)"
      "(set_tcb t y s2)\<lparr>scheduled := 0\<rparr> = set_tcb t y (s2\<lparr>scheduled := 0\<rparr>)"
      by (simp_all add: set_tcb_def)
    then show ?thesis using e(2) by simp
  qed
  show ?thesis
    unfolding sched_queue_select_def upto_levels 1 2 Let_def prod.case e(1) f(1) g
    by (rule map_rbind_same) (simp add: st)
qed

text \<open>
  The priority of a thread stays within the levels, falls by one level when the thread
  used up its quantum or waits for a mutex, rises by one when it waits for I/O, and otherwise
  stays.
\<close>

theorem yield_priority_levels:
  assumes "0 \<le> p" and "p < SCHED_MAX_LEVEL"
  shows "yield_priority cause p =
    (if cause = SCHED_QUANTUM \<or> cause = SCHED_MUTEX then min (p + 1) (SCHED_MAX_LEVEL - 1)
     else if cause = SCHED_IO then max (p - 1) 0 else p) \<and>
    0 \<le> yield_priority cause p \<and> yield_priority cause p < SCHED_MAX_LEVEL"
  using assms by (auto simp: yield_priority_def SCHED_MAX_LEVEL_def Let_def)

theorem yield_priority_levels_witness:
  "yield_priority SCHED_QUANTUM 2 = 2 \<and> yield_priority SCHED_IO 2 = 1"
  using yield_priority_levels [of 2 SCHED_QUANTUM] yield_priority_levels [of 2 SCHED_IO]
  by (simp add: SCHED_MAX_LEVEL_def)

section \<open>Waking up and counting threads\<close>

text \<open>
  \<open>wakeup\<close> answers whether the thread was stopped or new; if so the thread is ready and
  has no timeout any more, and otherwise no TCB changes.
\<close>

theorem wakeup_effect:
  assumes "sched_reachable (pc, s)" and "tcbs s t = Some x"
  shows "\<exists>s'. wakeup c t s = Inr (tstate x = STOPPED \<or> tstate x = INIT, s') \<and>
    tcbs s' = (tcbs s)(t \<mapsto> if tstate x = STOPPED \<or> tstate x = INIT
      then x\<lparr>wakeup_time := NO_TIMEOUT, tstate := READY\<rparr> else x)"
proof -
  obtain L hs where i: "sched_inv pc s L hs" by (rule reachable_inv [OF assms(1)])
  show ?thesis by (rule wakeup_inv [OF i assms(2), of c]) simp
qed

theorem wakeup_effect_witness: "\<exists>s s'. wakeup 0 (HeapT 0) s = Inr (False, s')"
proof -
  obtain s x where s: "sched_reachable (\<lambda>_. Running, s)" "tcbs s (HeapT 0) = Some x" "tstate x = READY"
    by (rule run_ready)
  from wakeup_effect [OF s(1,2), of 0] s(3) show ?thesis by auto
qed

text \<open>\<open>active_threads\<close> counts the live threads of the heap, modulo the width of \<open>uint\<close>.\<close>

theorem active_threads_counts:
  assumes "sched_reachable (pc, s)"
  shows "active_threads s = of_nat (card {a. tcbs s (HeapT a) \<noteq> None})"
  using reachable_inv [OF assms] by (metis sched_inv_def)

theorem active_threads_counts_witness: "\<exists>s :: kernel. active_threads s = of_nat (card {a. tcbs s (HeapT a) \<noteq> None})"
  using run_ready active_threads_counts by metis

text \<open>
  \<open>initialize_scheduler\<close> stores out of the bounds of \<open>SCHED\<close> in the last iteration
  of its loop, in every state.
\<close>

theorem initialize_scheduler_out_of_bounds: "initialize_scheduler s = Inl BadIndex"
proof -
  have "[0..SCHED_MAX_LEVEL] = [0, 1, 2, 3]" by (simp add: SCHED_MAX_LEVEL_def upto.simps)
  then show ?thesis by (simp add: initialize_scheduler_def SCHED_MAX_LEVEL_def)
qed

end
