(* ===== verification/Frames.thy ===== *)
theory Frames
  imports Sched_Reach
begin

text \<open>
  How the components of the kernel stay out of each other's way.  The list nodes of the
  components are disjoint, and an operation on lists keeps every ring that has none of its
  nodes.  So the scheduler keeps the lists of the other components, and they keep the
  scheduler's invariant.
\<close>

section \<open>Operations that keep a class of nodes\<close>

definition keeps_on :: "('n \<Rightarrow> bool) \<Rightarrow> ('n, 'k) rlheap \<Rightarrow> ('n, 'k) rlheap \<Rightarrow> bool" where
  "keeps_on N h h' \<longleftrightarrow> (\<forall>n. N n \<longrightarrow> obj h' n = obj h n) \<and>
     (\<forall>z zs. (\<forall>n \<in> set (z # zs). N n) \<longrightarrow> isring h z zs \<longrightarrow> isring h' z zs)"

lemma keeps_on_refl [simp]: "keeps_on N h h"
  by (simp add: keeps_on_def)

lemma keeps_on_trans: "keeps_on N h h' \<Longrightarrow> keeps_on N h' h'' \<Longrightarrow> keeps_on N h h''"
  by (simp add: keeps_on_def)

lemma keeps_on_sub: "keeps_on N h h' \<Longrightarrow> (\<And>n. M n \<Longrightarrow> N n) \<Longrightarrow> keeps_on M h h'"
  by (auto simp: keeps_on_def)

lemma keeps_onD:
  assumes "keeps_on N h h'"
  shows "N n \<Longrightarrow> obj h' n = obj h n"
    and "isring h z zs \<Longrightarrow> N z \<Longrightarrow> (\<And>n. n \<in> set zs \<Longrightarrow> N n) \<Longrightarrow> isring h' z zs"
  using assms by (auto simp: keeps_on_def)

lemma keeps_on_push_front:
  assumes "isring h l xs" and "isring h n ns" and "\<not> N l" and "\<not> N n"
  shows "keeps_on N h (rlist_push_front l n h)"
  using push_keeps(1) [OF _ assms(1,2)] assms(3,4) unfolding keeps_on_def obj_ops by blast

lemma keeps_on_push_back:
  assumes "isring h l xs" and "isring h n ns" and "\<not> N l" and "\<not> N n"
  shows "keeps_on N h (rlist_push_back l n h)"
  using push_keeps(2) [OF _ assms(1,2)] assms(3,4) unfolding keeps_on_def obj_ops by blast

lemma keeps_on_pop:
  assumes "isring h l xs" and "\<not> N l"
  shows "keeps_on N h (snd (rlist_pop_front l h))"
  using pop_front_keeps [OF _ assms(1)] assms(2) unfolding keeps_on_def obj_ops by blast

lemma keeps_on_remove:
  assumes "isring h n ns" and "\<not> N n"
  shows "keeps_on N h (rlist_remove n h)"
  using remove_keeps [OF _ assms(1)] assms(2) unfolding keeps_on_def obj_ops by blast

lemma keeps_on_remove_from:
  assumes "isring h l xs" and "n \<in> set (l # xs)" and "\<not> N n"
  shows "keeps_on N h (rlist_remove n h)"
proof -
  obtain ys where "isring h n ys" using assms(1,2) by (rule isring_at)
  then show ?thesis using assms(3) by (rule keeps_on_remove)
qed

lemma keeps_on_init: "\<not> N n \<Longrightarrow> keeps_on N h (rlnode_init n k h)"
  unfolding keeps_on_def by (auto intro!: init_keeps)

lemma keeps_on_append:
  assumes "isring h d xs" and "isring h l ys" and "l \<notin> set (d # xs)" and "\<not> N d" and "\<not> N l"
  shows "keeps_on N h (rlist_append d l h)"
proof -
  have "isring (rlist_push_back d l h) d (xs @ ys @ [l])" by (rule push_back_list [OF assms(1-3)])
  then have "keeps_on N (rlist_push_back d l h) (rlist_append d l h)"
    unfolding rlist_append_def by (rule keeps_on_remove_from) (use assms(5) in simp_all)
  with keeps_on_push_back [OF assms(1,2,4,5)] show ?thesis by (rule keeps_on_trans)
qed

section \<open>The scheduler and the other components\<close>

lemma same_lists_keeps: "same_lists s s' \<Longrightarrow> keeps_on (\<lambda>n. \<not> sched_node n) (rl s) (rl s')"
  by (auto simp: same_lists_def keeps_on_def)

lemma sched_inv_other:
  assumes inv: "sched_inv pc s L hs" and k: "keeps_on sched_node (rl s) (rl s')"
    and f: "tcbs s' = tcbs s" "ncores s' = ncores s" "cctx s' = cctx s" "cores s' = cores s"
      "active_threads s' = active_threads s"
  shows "sched_inv pc s' L hs"
proof -
  note a = sched_inv_abs [OF inv] and r = keeps_onD(2) [OF k] and o = keeps_onD(1) [OF k]
  have "isring (rl s') l (map SchedNode (L l))" if "l \<in> sched_sentinels" for l
    by (rule r [OF sched_absD(1) [OF a that]]) (use that in auto)
  moreover have "isring (rl s') (SchedNode t) []" if "tcbs s t = Some x" "\<not> queued L t" for t x
    by (rule r [OF sched_absD(2) [OF a that]]) auto
  moreover have "isring (rl s') HaltedList (map HaltedNode hs)"
    by (rule r [OF sched_absD(3) [OF a]]) auto
  moreover have "isring (rl s') (HaltedNode c) []" if "c < ncores s" "c \<notin> set hs" for c
    by (rule r [OF sched_absD(10) [OF a that]]) auto
  ultimately have "sched_abs s' L hs"
    using a unfolding sched_abs_def f by (auto simp: o)
  then show ?thesis using inv f by (intro sched_inv_halted [OF inv]) auto
qed

text \<open>The components' view of a step of the scheduler: nothing of theirs has changed.\<close>

definition other_frame :: "kernel \<Rightarrow> kernel \<Rightarrow> bool" where
  "other_frame s s' \<longleftrightarrow> keeps_on (\<lambda>n. \<not> sched_node n) (rl s) (rl s') \<and> ptcbs s' = ptcbs s \<and>
     condvars s' = condvars s \<and> waiters s' = waiters s \<and> kernel_sem s' = kernel_sem s \<and>
     PT s' = PT s \<and> pcb_freelist s' = pcb_freelist s \<and> process_count s' = process_count s \<and>
     FT s' = FT s \<and> devtable s' = devtable s \<and> mem s' = mem s \<and> ncores s' = ncores s \<and>
     nterm s' = nterm s"

lemma sched_frame_other: "sched_frame s s' \<Longrightarrow> other_frame s s'"
  by (auto simp: sched_frame_def other_frame_def intro: same_lists_keeps)

lemma other_frame_refl [simp]: "other_frame s s"
  by (simp add: other_frame_def)

lemma other_frame_trans: "other_frame s s' \<Longrightarrow> other_frame s' s'' \<Longrightarrow> other_frame s s''"
  by (auto simp: other_frame_def intro: keeps_on_trans)

text \<open>A live thread that has not exited stays a thread of its process.\<close>

definition live_threads_kept :: "kernel \<Rightarrow> kernel \<Rightarrow> bool" where
  "live_threads_kept s s' \<longleftrightarrow> (\<forall>t x. tcbs s t = Some x \<longrightarrow> tstate x \<noteq> EXITED \<longrightarrow>
     (\<exists>y. tcbs s' t = Some y \<and> same_thread x y))"

lemma threads_kept_live: "threads_kept s s' \<Longrightarrow> live_threads_kept s s'"
  unfolding live_threads_kept_def by (blast elim: threads_keptD)

lemma halt_frame:
  assumes inv: "sched_inv pc s L hs" and c: "c < ncores s" "\<not> halted (cores s c)"
    and s': "cpu_core_halt c s = Inr s'"
  shows "other_frame s s' \<and> tcbs s' = tcbs s"
proof -
  note a = sched_inv_abs [OF inv]
  have "c \<notin> set hs" using sched_absD(7) [OF a, of c] c(2) by simp
  from sched_absD(10) [OF a c(1) this] sched_absD(3) [OF a]
  have "keeps_on (\<lambda>n. \<not> sched_node n) (rl s) (rlist_push_front HaltedList (HaltedNode c) (rl s))"
    by (intro keeps_on_push_front) auto
  then show ?thesis using s'
    by (auto simp: cpu_core_halt_def other_frame_def set_core_def Let_def split: if_splits)
qed

lemma raise_interrupt_frame:
  assumes inv: "sched_inv pc s L hs" and c: "c < ncores s"
  shows "other_frame s (raise_interrupt c i s) \<and> tcbs (raise_interrupt c i s) = tcbs s"
proof -
  note a = sched_inv_abs [OF inv]
  show ?thesis
  proof (cases "halted (cores s c)")
    case True
    then have "HaltedNode c \<in> set (HaltedList # map HaltedNode hs)" using sched_absD(7) [OF a, of c] by simp
    from keeps_on_remove_from [OF sched_absD(3) [OF a] this]
    have "keeps_on (\<lambda>n. \<not> sched_node n) (rl s) (rlist_remove (HaltedNode c) (rl s))" by simp
    with True show ?thesis
      by (simp add: raise_interrupt_def cpu_core_restart_def core_restart_def other_frame_def set_core_def Let_def)
  next
    case False
    then show ?thesis
      by (simp add: raise_interrupt_def cpu_core_restart_def core_restart_def other_frame_def set_core_def Let_def)
  qed
qed

lemma spawn_frame:
  "other_frame s (snd (spawn_thread a p f s))"
  by (simp add: spawn_thread_eq other_frame_def keeps_on_init)

lemma sched_step_frame:
  assumes "sched_step (pc, s) (pc', s')" and inv: "sched_inv pc s L hs"
  shows "other_frame s s' \<and> live_threads_kept s s'"
  using assms(1)
proof (cases rule: sched_step.cases)
  case (step_yield c cause)
  then have c: "c < ncores s" "pc c \<noteq> Switching" by (auto simp: awake_def)
  obtain s'' L' hs' where "yield_switch c cause s = Inr s''" "sched_frame s s''" "threads_kept s s''"
    by (rule yield_switch_inv [OF inv c])
  with step_yield show ?thesis by (simp add: sched_frame_other threads_kept_live)
next
  case (step_sleep_yield c cause)
  then have c: "c < ncores s" "pc c \<noteq> Switching" by (auto simp: awake_def)
  obtain s'' L' hs' where "yield_switch c cause s = Inr s''" "sched_frame s s''" "threads_kept s s''"
    by (rule yield_switch_inv [OF inv c])
  with step_sleep_yield show ?thesis by (simp add: sched_frame_other threads_kept_live)
next
  case (step_sleep c x timeout st p cause)
  then have c: "c < ncores s" by (simp add: awake_def)
  have st: "st = STOPPED \<or> st = EXITED" using step_sleep(7) by (auto simp: sleep_mark_def split: if_splits)
  obtain p' s'' L' hs' where s'': "sleep_mark c st timeout s = Inr (p', s'')" "sched_frame s s''"
    "\<forall>u. u \<noteq> current_thread (cctx s c) \<longrightarrow> tcbs s'' u = tcbs s u"
    "\<exists>y. tcbs s'' (current_thread (cctx s c)) = Some y \<and> same_thread x y \<and> tstate y = st"
    by (rule sleep_mark_inv [OF inv c step_sleep(3) step_sleep(4) [unfolded CURTHREAD_def] step_sleep(5) st])
      (use step_sleep(6) in auto)
  have "live_threads_kept s s''"
    unfolding live_threads_kept_def
  proof (intro allI impI)
    fix t z assume z: "tcbs s t = Some z"
    show "\<exists>y. tcbs s'' t = Some y \<and> same_thread z y"
      using s''(3,4) z step_sleep(4) by (cases "t = current_thread (cctx s c)") (auto simp: CURTHREAD_def)
  qed
  with s'' step_sleep(7) show ?thesis by (simp add: sched_frame_other)
next
  case (step_gain c)
  then have c: "c < ncores s" by (simp add: awake_def)
  obtain s'' L' hs' where "gain c (saved_preempt s (CURTHREAD c s)) s = Inr s''" "sched_frame s s''" "threads_kept s s''"
    by (rule gain_inv [OF inv c step_gain(3)])
  with step_gain show ?thesis by (simp add: sched_frame_other threads_kept_live)
next
  case (step_wakeup c t r)
  obtain x where x: "tcbs s t = Some x"
    using step_wakeup by (auto simp: wakeup_def rbind_eq_Inr get_tcb_eq_Inr prod.case_eq_if Let_def)
  obtain r' s'' L' hs' where "wakeup c t s = Inr (r', s'')" "sched_frame s s''" "threads_kept s s''"
    by (rule wakeup_inv [OF inv x])
  with step_wakeup show ?thesis by (simp add: sched_frame_other threads_kept_live)
next
  case (step_spawn c a p f)
  have "live_threads_kept s (snd (spawn_thread a p f s))"
    using step_spawn by (auto simp: spawn_thread_eq live_threads_kept_def)
  with step_spawn spawn_frame show ?thesis by simp
next
  case (step_halt c)
  then show ?thesis using halt_frame [OF inv, of c s']
    by (auto simp: awake_def intro: threads_kept_live threads_kept_refl)
next
  case (step_interrupt c i)
  then show ?thesis using raise_interrupt_frame [OF inv, of c i]
    by (auto intro: threads_kept_live threads_kept_refl)
next
  case (step_clock k)
  then show ?thesis by (simp add: other_frame_def threads_kept_live [OF threads_kept_refl])
qed (simp_all add: sched_frame_other threads_kept_live [OF threads_kept_refl])

end
