(* ===== verification/Cond.thy ===== *)
theory Cond
  imports Frames
begin

text \<open>
  The mutexes, condition variables and the kernel lock of src/kernel_cc.c, and the handler of
  src/kernel_dev.c that wakes the readers of the serial devices.  What a thread does while it
  holds the lock of a wait set is one step.  A wait is cut where the thread sleeps:
  \<open>cv_wait_begin\<close> ends in the middle of \<open>sleep_releasing\<close>, \<open>cv_wait_end\<close> is what the
  thread does when it runs again.
\<close>

section \<open>The mutex\<close>

text \<open>
  \<open>Mutex_Lock\<close> as a machine: a thread is about to test and set the lock, or spins with the
  value of \<open>spin\<close>, or has the lock.  The result of a step says if the thread yields.
\<close>

definition MUTEX_SPINS :: int where "MUTEX_SPINS = 1000"

datatype mutex_pc = TestAndSet | Spin int | Locked

definition Mutex_Lock_step :: "bool \<Rightarrow> mutex_pc \<Rightarrow> bool \<Rightarrow> mutex_pc \<times> bool \<times> bool" where
  "Mutex_Lock_step preempt p lock =
     (case p of
        TestAndSet \<Rightarrow> (if lock then Spin MUTEX_SPINS else Locked, True, False)
      | Spin spin \<Rightarrow>
          if lock
          then (if spin > 0 then (Spin (spin - 1), lock, False)
                else (Spin MUTEX_SPINS, lock, preempt))
          else (TestAndSet, lock, False)
      | Locked \<Rightarrow> (Locked, lock, False))"

definition Mutex_Unlock :: "bool \<Rightarrow> bool" where
  "Mutex_Unlock lock = False"

section \<open>Condition variables\<close>

definition get_waiter :: "tref \<Rightarrow> kernel \<Rightarrow> cv_waiter result" where
  "get_waiter w s = (case waiters s w of None \<Rightarrow> Inl DanglingPtr | Some x \<Rightarrow> Inr x)"

definition set_waiter :: "tref \<Rightarrow> cv_waiter \<Rightarrow> kernel \<Rightarrow> kernel" where
  "set_waiter w x s = s\<lparr>waiters := (waiters s)(w \<mapsto> x)\<rparr>"

definition remove_from_ring :: "cvref \<Rightarrow> tref \<Rightarrow> kernel \<Rightarrow> kernel result" where
  "remove_from_ring cv w s =
     rbind (if condvars s cv = Some w
            then (case obj (rl s) (nxt (rl s) (CvNode w)) of
                    OWaiter nextw \<Rightarrow>
                      Inr (s\<lparr>condvars := (condvars s)(cv := if nextw = w then None else Some nextw)\<rparr>)
                  | _ \<Rightarrow> Inl NullDeref)
            else Inr s) (\<lambda>s1.
     Inr (s1\<lparr>rl := rlist_remove (CvNode w) (rl s1)\<rparr>))"

text \<open>\<open>cv_wait\<close> up to the call of \<open>sleep_releasing\<close>.\<close>

definition cv_enqueue :: "nat \<Rightarrow> cvref \<Rightarrow> kernel \<Rightarrow> kernel" where
  "cv_enqueue c cv s =
     (let t = CURTHREAD c s;
          s1 = set_waiter t \<lparr>wthread = t, signalled = False, removed = False\<rparr> s;
          s2 = s1\<lparr>rl := rlnode_init (CvNode t) (OWaiter t) (rl s1)\<rparr>
      in case condvars s2 cv of
           Some wset \<Rightarrow> s2\<lparr>rl := rlist_push_back (CvNode wset) (CvNode t) (rl s2)\<rparr>
         | None \<Rightarrow> s2\<lparr>condvars := (condvars s2)(cv := Some t)\<rparr>)"

definition cv_wait_begin :: "nat \<Rightarrow> cvref \<Rightarrow> usec \<Rightarrow> kernel \<Rightarrow> (bool \<times> kernel) result" where
  "cv_wait_begin c cv timeout s = sleep_mark c STOPPED timeout (cv_enqueue c cv s)"

text \<open>The rest of \<open>cv_wait\<close>; the waiter is a local variable, which goes out of scope at the end.\<close>

definition cv_wait_end :: "nat \<Rightarrow> cvref \<Rightarrow> kernel \<Rightarrow> (bool \<times> kernel) result" where
  "cv_wait_end c cv s =
     (let t = CURTHREAD c s
      in rbind (get_waiter t s) (\<lambda>w.
         rbind (if \<not> removed w
                then (if signalled w then Inl AssertFail else remove_from_ring cv t s)
                else Inr s) (\<lambda>s1.
         Inr (signalled w, s1\<lparr>waiters := (waiters s1)(t := None)\<rparr>))))"

partial_function (option) cv_signal :: "nat \<Rightarrow> cvref \<Rightarrow> kernel \<Rightarrow> kernel result option" where
  "cv_signal c cv s =
     (case condvars s cv of
        None \<Rightarrow> Some (Inr s)
      | Some waiter \<Rightarrow>
          (case rbind (remove_from_ring cv waiter s) (\<lambda>s1.
                rbind (get_waiter waiter s1) (\<lambda>x.
                wakeup c (wthread x) (set_waiter waiter (x\<lparr>removed := True\<rparr>) s1))) of
             Inl e \<Rightarrow> Some (Inl e)
           | Inr (woken, s2) \<Rightarrow>
               if woken
               then Some (rbind (get_waiter waiter s2) (\<lambda>x.
                      Inr (set_waiter waiter (x\<lparr>signalled := True\<rparr>) s2)))
               else cv_signal c cv s2))"

definition Cond_Signal :: "nat \<Rightarrow> cvref \<Rightarrow> kernel \<Rightarrow> kernel result" where
  "Cond_Signal c cv s = of_loop (cv_signal c cv s)"

partial_function (option) broadcast_loop :: "nat \<Rightarrow> cvref \<Rightarrow> kernel \<Rightarrow> kernel result option" where
  "broadcast_loop c cv s =
     (if condvars s cv \<noteq> None
      then (case Cond_Signal c cv s of
              Inl e \<Rightarrow> Some (Inl e)
            | Inr s1 \<Rightarrow> broadcast_loop c cv s1)
      else Some (Inr s))"

definition Cond_Broadcast :: "nat \<Rightarrow> cvref \<Rightarrow> kernel \<Rightarrow> kernel result" where
  "Cond_Broadcast c cv s = of_loop (broadcast_loop c cv s)"

text \<open>The timeout of \<open>Cond_TimedWait\<close> is in milliseconds; both are unsigned 64-bit numbers.\<close>

definition Cond_Wait_begin :: "nat \<Rightarrow> cvref \<Rightarrow> kernel \<Rightarrow> (bool \<times> kernel) result" where
  "Cond_Wait_begin c cv s = cv_wait_begin c cv NO_TIMEOUT s"

definition Cond_TimedWait_begin :: "nat \<Rightarrow> cvref \<Rightarrow> 64 word \<Rightarrow> kernel \<Rightarrow> (bool \<times> kernel) result" where
  "Cond_TimedWait_begin c cv timeout s = cv_wait_begin c cv (timeout * 1000) s"

section \<open>The kernel lock\<close>

text \<open>
  Every step runs with \<open>kernel_mutex\<close>.  \<open>kernel_lock_step\<close> is one evaluation of the loop
  condition and what follows: the thread has the kernel, or it waits for the semaphore.
\<close>

definition kernel_lock_step :: "nat \<Rightarrow> kernel \<Rightarrow> (bool \<times> kernel) result" where
  "kernel_lock_step c s =
     (if kernel_sem s \<le> 0
      then rbind (Cond_Wait_begin c KernelSemCv s) (\<lambda>(p, s1). Inr (False, s1))
      else Inr (True, s\<lparr>kernel_sem := kernel_sem s - 1\<rparr>))"

text \<open>The next iteration, when the wait for the semaphore ends.\<close>

definition kernel_lock_resume :: "nat \<Rightarrow> kernel \<Rightarrow> (bool \<times> kernel) result" where
  "kernel_lock_resume c s =
     rbind (cv_wait_end c KernelSemCv s) (\<lambda>(r, s1). kernel_lock_step c s1)"

definition kernel_unlock :: "nat \<Rightarrow> kernel \<Rightarrow> kernel result" where
  "kernel_unlock c s = Cond_Signal c KernelSemCv (s\<lparr>kernel_sem := kernel_sem s + 1\<rparr>)"

text \<open>
  \<open>kernel_wait_wchan\<close> up to its sleep; afterwards it ends the wait on \<open>cv\<close> and goes on with
  \<open>kernel_lock_step\<close>.
\<close>

definition kernel_wait_begin :: "nat \<Rightarrow> cvref \<Rightarrow> usec \<Rightarrow> kernel \<Rightarrow> (bool \<times> kernel) result" where
  "kernel_wait_begin c cv timeout s =
     rbind (kernel_unlock c s) (\<lambda>s1. cv_wait_begin c cv timeout s1)"

definition kernel_signal :: "nat \<Rightarrow> cvref \<Rightarrow> kernel \<Rightarrow> kernel result" where
  "kernel_signal c cv s = Cond_Signal c cv s"

definition kernel_broadcast :: "nat \<Rightarrow> cvref \<Rightarrow> kernel \<Rightarrow> kernel result" where
  "kernel_broadcast c cv s = Cond_Broadcast c cv s"

definition kernel_sleep :: "nat \<Rightarrow> Thread_state \<Rightarrow> kernel \<Rightarrow> (bool \<times> kernel) result" where
  "kernel_sleep c newstate s =
     rbind (kernel_unlock c s) (\<lambda>s1. sleep_mark c newstate NO_TIMEOUT s1)"

section \<open>The interrupt of the serial devices\<close>

fun serial_rx_loop :: "nat \<Rightarrow> nat list \<Rightarrow> kernel \<Rightarrow> kernel result" where
  "serial_rx_loop c [] s = Inr s"
| "serial_rx_loop c (i # is) s =
     rbind (Cond_Broadcast c (RxReady i) s) (\<lambda>s1. serial_rx_loop c is s1)"

definition serial_rx_handler_body :: "nat \<Rightarrow> kernel \<Rightarrow> kernel result" where
  "serial_rx_handler_body c s =
     (let (pre, s1) = preempt_off c s
      in rbind (serial_rx_loop c [0..<unat (bios_serial_ports s1)] s1) (\<lambda>s2.
         Inr (if pre then preempt_on c s2 else s2)))"

end
