(* ===== verification/Cond_Inv.thy ===== *)
theory Cond_Inv
  imports Cond
begin

text \<open>
  Condition variables as queues.  \<open>cv_inv W R s\<close> says that the wait set of every condition
  variable is the ring of the waiters \<open>R cv\<close>, the first of them at its head, and that
  \<open>W\<close> gives every thread that is inside \<open>cv_wait\<close> its condition variable.  The operations do
  to \<open>R\<close> what a queue does.
\<close>

section \<open>The invariant\<close>

definition waitset_head :: "tref list \<Rightarrow> tref option" where
  "waitset_head ws = (case ws of [] \<Rightarrow> None | w # _ \<Rightarrow> Some w)"

definition cv_ring :: "kernel \<Rightarrow> tref list \<Rightarrow> bool" where
  "cv_ring s ws \<longleftrightarrow> (case ws of [] \<Rightarrow> True | w # us \<Rightarrow> isring (rl s) (CvNode w) (map CvNode us))"

definition waiter_ok :: "(tref \<Rightarrow> cvref option) \<Rightarrow> (cvref \<Rightarrow> tref list) \<Rightarrow> kernel \<Rightarrow> tref \<Rightarrow> cv_waiter \<Rightarrow> bool" where
  "waiter_ok W R s w x \<longleftrightarrow> wthread x = w \<and> obj (rl s) (CvNode w) = OWaiter w \<and>
     (\<exists>y. tcbs s w = Some y \<and> tstate y \<noteq> EXITED) \<and>
     (if removed x then isring (rl s) (CvNode w) [] else \<not> signalled x) \<and>
     (\<forall>cv. w \<in> set (R cv) \<longleftrightarrow> \<not> removed x \<and> W w = Some cv)"

definition cv_inv :: "(tref \<Rightarrow> cvref option) \<Rightarrow> (cvref \<Rightarrow> tref list) \<Rightarrow> kernel \<Rightarrow> bool" where
  "cv_inv W R s \<longleftrightarrow> (\<forall>cv. condvars s cv = waitset_head (R cv) \<and> cv_ring s (R cv)) \<and>
     (\<forall>w. W w = None \<longleftrightarrow> waiters s w = None) \<and>
     (\<forall>w x. waiters s w = Some x \<longrightarrow> waiter_ok W R s w x) \<and>
     (\<forall>cv w. w \<in> set (R cv) \<longrightarrow> waiters s w \<noteq> None)"

lemma cv_invD:
  assumes "cv_inv W R s"
  shows "condvars s cv = waitset_head (R cv)" and "cv_ring s (R cv)"
    and "W w = None \<longleftrightarrow> waiters s w = None"
    and "waiters s w = Some x \<Longrightarrow> waiter_ok W R s w x"
    and "w \<in> set (R cv) \<Longrightarrow> \<exists>x. waiters s w = Some x"
  using assms by (auto simp: cv_inv_def)

lemma waiter_okD:
  assumes "waiter_ok W R s w x"
  shows "wthread x = w" and "obj (rl s) (CvNode w) = OWaiter w"
    and "\<exists>y. tcbs s w = Some y \<and> tstate y \<noteq> EXITED"
    and "removed x \<Longrightarrow> isring (rl s) (CvNode w) []" and "\<not> removed x \<Longrightarrow> \<not> signalled x"
    and "w \<in> set (R cv) \<longleftrightarrow> \<not> removed x \<and> W w = Some cv"
  using assms by (auto simp: waiter_ok_def split: if_splits)

text \<open>A thread that waits is in one wait set, once.\<close>

lemma cv_inv_member:
  assumes "cv_inv W R s" and "w \<in> set (R cv)"
  obtains x where "waiters s w = Some x" and "wthread x = w" and "\<not> removed x" and "\<not> signalled x"
    and "W w = Some cv" and "\<forall>cv'. w \<in> set (R cv') \<longrightarrow> cv' = cv"
proof -
  obtain x where x: "waiters s w = Some x" using cv_invD(5) [OF assms] by blast
  note ok = cv_invD(4) [OF assms(1) x]
  have m: "\<not> removed x" "W w = Some cv" using waiter_okD(6) [OF ok, of cv] assms(2) by auto
  from that [OF x waiter_okD(1) [OF ok] m(1) waiter_okD(5) [OF ok m(1)] m(2)] waiter_okD(6) [OF ok] m
  show ?thesis by auto
qed

lemma cv_ring_distinct: "cv_ring s ws \<Longrightarrow> distinct ws"
  by (cases ws) (auto simp: cv_ring_def distinct_map dest: isring_distinct)

fun cv_node :: "node \<Rightarrow> bool" where
  "cv_node (CvNode w) = True"
| "cv_node _ = False"

section \<open>Steps of other components\<close>

definition waiting_alive :: "kernel \<Rightarrow> bool" where
  "waiting_alive s \<longleftrightarrow> (\<forall>w. waiters s w \<noteq> None \<longrightarrow> (\<exists>y. tcbs s w = Some y \<and> tstate y \<noteq> EXITED))"

lemma cv_inv_alive: "cv_inv W R s \<Longrightarrow> waiting_alive s"
  using cv_invD(4) waiter_okD(3) by (fastforce simp: waiting_alive_def)

lemma cv_inv_frame:
  assumes inv: "cv_inv W R s" and k: "keeps_on cv_node (rl s) (rl s')"
    and f: "condvars s' = condvars s" "waiters s' = waiters s" and a: "waiting_alive s'"
  shows "cv_inv W R s'"
proof -
  note d = cv_invD [OF inv]
  have r: "cv_ring s' ws" if "cv_ring s ws" for ws
  proof (cases ws)
    case (Cons u us)
    with that have "isring (rl s) (CvNode u) (map CvNode us)" by (simp add: cv_ring_def)
    then have "isring (rl s') (CvNode u) (map CvNode us)" by (rule keeps_onD(2) [OF k]) auto
    with Cons show ?thesis by (simp add: cv_ring_def)
  qed (simp add: cv_ring_def)
  have "waiter_ok W R s' w x" if x: "waiters s w = Some x" for w x
  proof -
    note ok = d(4) [OF x]
    have "\<exists>y. tcbs s' w = Some y \<and> tstate y \<noteq> EXITED" using a x f(2) by (simp add: waiting_alive_def)
    moreover have "removed x \<Longrightarrow> isring (rl s') (CvNode w) []"
      using waiter_okD(4) [OF ok] by (intro keeps_onD(2) [OF k]) simp_all
    moreover have "obj (rl s') (CvNode w) = OWaiter w"
      using keeps_onD(1) [OF k, of "CvNode w"] waiter_okD(2) [OF ok] by simp
    ultimately show ?thesis using ok by (simp add: waiter_ok_def)
  qed
  then show ?thesis using d r f by (simp add: cv_inv_def)
qed

lemma other_frame_cv: "other_frame s s' \<Longrightarrow> keeps_on cv_node (rl s) (rl s')"
proof -
  have "\<not> sched_node n" if "cv_node n" for n using that by (cases n) simp_all
  then show "other_frame s s' \<Longrightarrow> keeps_on cv_node (rl s) (rl s')"
    by (auto simp: other_frame_def intro: keeps_on_sub)
qed

text \<open>What the operations on condition variables leave alone.\<close>

definition plain_node :: "node \<Rightarrow> bool" where
  "plain_node n \<longleftrightarrow> \<not> sched_node n \<and> \<not> cv_node n"

definition cv_frame :: "kernel \<Rightarrow> kernel \<Rightarrow> bool" where
  "cv_frame s s' \<longleftrightarrow> keeps_on plain_node (rl s) (rl s') \<and> ptcbs s' = ptcbs s \<and>
     kernel_sem s' = kernel_sem s \<and> PT s' = PT s \<and> pcb_freelist s' = pcb_freelist s \<and>
     process_count s' = process_count s \<and> FT s' = FT s \<and> devtable s' = devtable s \<and>
     mem s' = mem s \<and> ncores s' = ncores s \<and> nterm s' = nterm s \<and> system_clock s' = system_clock s \<and>
     (\<forall>d. current_thread (cctx s' d) = current_thread (cctx s d))"

lemma cv_frame_refl [simp]: "cv_frame s s"
  by (simp add: cv_frame_def)

lemma cv_frame_trans: "cv_frame s s' \<Longrightarrow> cv_frame s' s'' \<Longrightarrow> cv_frame s s''"
  by (auto simp: cv_frame_def intro: keeps_on_trans)

lemma sched_frame_cv_frame:
  assumes "sched_frame s s'" and "\<And>d. current_thread (cctx s' d) = current_thread (cctx s d)"
  shows "cv_frame s s'"
proof -
  have "system_clock s' = system_clock s" using assms(1) by (simp add: sched_frame_def)
  then show ?thesis using sched_frame_other [OF assms(1)] assms(2)
    by (auto simp: other_frame_def cv_frame_def plain_node_def intro: keeps_on_sub)
qed

section \<open>Joining and leaving a wait set\<close>

lemma cv_ring_at:
  assumes "cv_ring s ws" and "w \<in> set ws"
  obtains us where "isring (rl s) (CvNode w) (map CvNode us)" and "set (w # us) = set ws"
proof -
  obtain as bs where ws: "ws = as @ w # bs" using split_list [OF assms(2)] by blast
  show ?thesis
  proof (cases as)
    case Nil
    with ws assms(1) show ?thesis by (intro that [of bs]) (simp_all add: cv_ring_def)
  next
    case (Cons a as')
    with ws assms(1) have "isring (rl s) (CvNode a) (map CvNode as' @ CvNode w # map CvNode bs)"
      by (simp add: cv_ring_def)
    then have "isring (rl s) (CvNode w) (map CvNode (bs @ a # as'))" by (simp add: isring_rotate)
    with Cons ws show ?thesis by (intro that [of "bs @ a # as'"]) auto
  qed
qed

lemma map_CvNode_remove1: "map CvNode (remove1 w ws) = remove1 (CvNode w) (map CvNode ws)"
  by (induction ws) auto

lemma cv_ring_remove:
  assumes r: "cv_ring s ws" and w: "w \<in> set ws"
  shows "cv_ring (s\<lparr>rl := rlist_remove (CvNode w) (rl s)\<rparr>) (remove1 w ws)"
    and "isring (rlist_remove (CvNode w) (rl s)) (CvNode w) []"
proof -
  obtain v vs where ws: "ws = v # vs" using w by (cases ws) auto
  have v: "isring (rl s) (CvNode v) (map CvNode vs)" using r ws by (simp add: cv_ring_def)
  have "cv_ring (s\<lparr>rl := rlist_remove (CvNode w) (rl s)\<rparr>) (remove1 w ws) \<and>
      isring (rlist_remove (CvNode w) (rl s)) (CvNode w) []"
  proof (cases "w = v")
    case False
    then have "CvNode w \<in> set (map CvNode vs)" using w ws by simp
    from remove_list1 [OF v this] False show ?thesis
      unfolding ws by (simp add: cv_ring_def map_CvNode_remove1)
  next
    case True
    show ?thesis
    proof (cases vs)
      case Nil
      with v True show ?thesis unfolding ws by (simp add: cv_ring_def remove_singleton)
    next
      case (Cons u us)
      have "isring (rl s) (CvNode u) (map CvNode us @ [CvNode v])"
        using v Cons isring_rotate [of "rl s" "CvNode v" "[]" "CvNode u" "map CvNode us"] by simp
      from remove_list [OF this] True show ?thesis unfolding ws Cons by (simp add: cv_ring_def)
    qed
  qed
  then show "cv_ring (s\<lparr>rl := rlist_remove (CvNode w) (rl s)\<rparr>) (remove1 w ws)"
    and "isring (rlist_remove (CvNode w) (rl s)) (CvNode w) []" by blast+
qed

text \<open>The rings of the other wait sets stay.\<close>

lemma cv_ring_keep:
  assumes "cv_ring s us" and "isring (rl s) (CvNode w) ns" and "w \<notin> set us"
  shows "cv_ring (s\<lparr>rl := rlist_remove (CvNode w) (rl s)\<rparr>) us"
proof (cases us)
  case (Cons u vs)
  have "isring (rlist_remove (CvNode w) (rl s)) (CvNode u) (map CvNode vs)"
    by (rule remove_keeps [OF _ assms(2)]) (use assms(1,3) Cons in \<open>auto simp: cv_ring_def\<close>)
  with Cons show ?thesis by (simp add: cv_ring_def)
qed (simp add: cv_ring_def)

lemma remove_from_ring_eq:
  assumes inv: "cv_inv W R s" and w: "w \<in> set (R cv)"
  shows "remove_from_ring cv w s = Inr (s\<lparr>rl := rlist_remove (CvNode w) (rl s),
    condvars := (condvars s)(cv := waitset_head (remove1 w (R cv)))\<rparr>)"
proof -
  note d = cv_invD [OF inv]
  obtain v vs where R: "R cv = v # vs" using w by (cases "R cv") auto
  have v: "isring (rl s) (CvNode v) (map CvNode vs)" using d(2) [of cv] R by (simp add: cv_ring_def)
  have c: "condvars s cv = Some v" using d(1) R by (simp add: waitset_head_def)
  show ?thesis
  proof (cases "w = v")
    case False
    have "(condvars s)(cv := Some v) = condvars s" using c by (auto simp: fun_eq_iff)
    with False c R show ?thesis by (simp add: remove_from_ring_def waitset_head_def)
  next
    case True
    have "nxt (rl s) (CvNode v) = CvNode (hd (vs @ [v]))"
      using isring_nxt [OF v] by (cases vs) simp_all
    moreover have "hd (vs @ [v]) \<in> set (R cv)" using R by (cases vs) auto
    then have "obj (rl s) (CvNode (hd (vs @ [v]))) = OWaiter (hd (vs @ [v]))"
      using d(4,5) waiter_okD(2) by blast
    moreover have "distinct (R cv)" using cv_ring_distinct [OF d(2)] .
    then have "(if hd (vs @ [v]) = v then None else Some (hd (vs @ [v]))) = waitset_head vs"
      using R by (cases vs) (auto simp: waitset_head_def)
    ultimately show ?thesis using True c R by (simp add: remove_from_ring_def)
  qed
qed

text \<open>
  A waiter that has left its wait set keeps its entry, marked as removed, or goes out of scope.
\<close>

lemma leave_inv:
  assumes inv: "cv_inv W R s" and w: "w \<in> set (R cv)"
    and r: "\<forall>x. r = Some x \<longrightarrow> wthread x = w \<and> removed x" and W': "W' = (if r = None then W(w := None) else W)"
  shows "cv_inv W' (R(cv := remove1 w (R cv))) (s\<lparr>rl := rlist_remove (CvNode w) (rl s),
    condvars := (condvars s)(cv := waitset_head (remove1 w (R cv))), waiters := (waiters s)(w := r)\<rparr>)"
    (is "cv_inv W' ?R ?s")
proof -
  note d = cv_invD [OF inv]
  obtain x0 where x0: "waiters s w = Some x0" "W w = Some cv" "\<forall>cv'. w \<in> set (R cv') \<longrightarrow> cv' = cv"
    by (rule cv_inv_member [OF inv w])
  obtain us where us: "isring (rl s) (CvNode w) (map CvNode us)" by (rule cv_ring_at [OF d(2) w])
  have dist: "distinct (R cv)" using cv_ring_distinct [OF d(2)] .
  have "cv_ring ?s (?R cv')" for cv'
  proof (cases "cv' = cv")
    case True
    then show ?thesis using cv_ring_remove(1) [OF d(2) w] by (cases "remove1 w (R cv)") (simp_all add: cv_ring_def)
  next
    case False
    then have "w \<notin> set (R cv')" using x0(3) by blast
    from cv_ring_keep [OF d(2) us this] False show ?thesis by (cases "R cv'") (simp_all add: cv_ring_def)
  qed
  moreover have "waiter_ok W' ?R ?s u x" if u: "waiters ?s u = Some x" for u x
  proof (cases "u = w")
    case True
    then have x: "wthread x = w" "removed x" "W' = W" using u r W' by auto
    have "w \<notin> set (?R cv')" for cv' using x0(3) dist by (auto split: if_splits)
    then show ?thesis
      using x True cv_ring_remove(2) [OF d(2) w] waiter_okD(2,3) [OF d(4) [OF x0(1)]]
      by (simp add: waiter_ok_def)
  next
    case False
    then have ux: "waiters s u = Some x" using u by simp
    note ok = d(4) [OF ux]
    have "isring (rlist_remove (CvNode w) (rl s)) (CvNode u) []" if "removed x"
      by (rule remove_keeps [OF waiter_okD(4) [OF ok that] us]) (use False in simp)
    moreover have "u \<in> set (?R cv') \<longleftrightarrow> u \<in> set (R cv')" for cv' using False by simp
    moreover have "W' u = W u" using W' False by simp
    ultimately show ?thesis using ok by (auto simp: waiter_ok_def)
  qed
  moreover have "waiters ?s u \<noteq> None" if "u \<in> set (?R cv')" for u cv'
  proof (cases "u = w")
    case True
    then show ?thesis using that x0(3) dist by (auto split: if_splits)
  next
    case False
    then show ?thesis using that d(5) [of u cv'] by (auto split: if_splits)
  qed
  moreover have "W' u = None \<longleftrightarrow> waiters ?s u = None" for u
    using W' d(3) [of u] x0(1,2) by (cases "r = None") auto
  ultimately show ?thesis unfolding cv_inv_def using d(1) by simp
qed

end
