(* ===== verification/Cond_Signal.thy ===== *)
theory Cond_Signal
  imports Cond_Inv
begin

text \<open>
  The operations on condition variables, under the invariants of the scheduler and of the wait
  sets: none of them meets a fault, a wait joins its wait set at the end, a signal wakes the
  first waiter that is still asleep, a broadcast wakes all of them.
\<close>

section \<open>The signal of one waiter\<close>

definition asleep :: "kernel \<Rightarrow> tref \<Rightarrow> bool" where
  "asleep s w \<longleftrightarrow> (\<exists>x. tcbs s w = Some x \<and> tstate x \<in> {STOPPED, INIT})"

text \<open>The waiters a signal finds, the woken one first.\<close>

definition wake_rest :: "kernel \<Rightarrow> tref list \<Rightarrow> tref list" where
  "wake_rest s ws = dropWhile (\<lambda>w. \<not> asleep s w) ws"

lemma wake_rest_Cons: "wake_rest s (w # ws) = (if asleep s w then w # ws else wake_rest s ws)"
  by (simp add: wake_rest_def)

lemma wake_rest_Nil [simp]: "wake_rest s [] = []"
  by (simp add: wake_rest_def)

definition woken_tcbs :: "tref list \<Rightarrow> kernel \<Rightarrow> tref \<rightharpoonup> tcb" where
  "woken_tcbs ws s = (case ws of [] \<Rightarrow> tcbs s | w # _ \<Rightarrow> (tcbs s)(w := map_option mk_ready (tcbs s w)))"

definition signals_to :: "kernel \<Rightarrow> kernel \<Rightarrow> (tref \<Rightarrow> bool) \<Rightarrow> bool" where
  "signals_to s s' P \<longleftrightarrow> (\<forall>t. case waiters s t of None \<Rightarrow> waiters s' t = None
     | Some x \<Rightarrow> \<exists>y. waiters s' t = Some y \<and> (signalled y \<longleftrightarrow> signalled x \<or> P t))"

lemma signals_toI:
  assumes "\<And>t. waiters s t = None \<Longrightarrow> waiters s' t = None"
    and "\<And>t x. waiters s t = Some x \<Longrightarrow> \<exists>y. waiters s' t = Some y \<and> (signalled y \<longleftrightarrow> signalled x \<or> P t)"
  shows "signals_to s s' P"
  using assms by (simp add: signals_to_def split: option.split)

lemma signals_toD:
  assumes "signals_to s s' P"
  shows "waiters s t = None \<Longrightarrow> waiters s' t = None"
    and "waiters s t = Some x \<Longrightarrow> \<exists>y. waiters s' t = Some y \<and> (signalled y \<longleftrightarrow> signalled x \<or> P t)"
  using assms [unfolded signals_to_def, rule_format, of t] by auto

lemma signals_to_trans:
  assumes 1: "signals_to s s' P" and 2: "signals_to s' s'' Q"
  shows "signals_to s s'' (\<lambda>t. P t \<or> Q t)"
proof (rule signals_toI)
  fix t x assume "waiters s t = Some x"
  from signals_toD(2) [OF 1 this] obtain y where y: "waiters s' t = Some y"
    "signalled y \<longleftrightarrow> signalled x \<or> P t" by blast
  from signals_toD(2) [OF 2 y(1)] y(2)
  show "\<exists>y. waiters s'' t = Some y \<and> (signalled y \<longleftrightarrow> signalled x \<or> P t \<or> Q t)" by auto
qed (use signals_toD(1) [OF 1] signals_toD(1) [OF 2] in auto)

text \<open>
  One round of the loop: the head of the wait set is taken out and marked, and its thread is
  woken if it is asleep.
\<close>

lemma signal_round:
  assumes sched: "sched_inv pc s L hs" and inv: "cv_inv W R s" and R: "R cv = w # ws"
  obtains s1 x s2 L2 hs2 where "remove_from_ring cv w s = Inr s1" and "get_waiter w s1 = Inr x"
    and "wakeup c (wthread x) (set_waiter w (x\<lparr>removed := True\<rparr>) s1) = Inr (asleep s w, s2)"
    and "sched_inv pc s2 L2 hs2" and "cv_inv W (R(cv := ws)) s2" and "cv_frame s s2"
    and "tcbs s2 = (if asleep s w then (tcbs s)(w := map_option mk_ready (tcbs s w)) else tcbs s)"
    and "waiters s2 = (waiters s)(w \<mapsto> x\<lparr>removed := True\<rparr>)" and "waiters s w = Some x"
    and "threads_kept s s2"
proof -
  have w: "w \<in> set (R cv)" using R by simp
  obtain x where x: "waiters s w = Some x" "wthread x = w" "\<not> removed x" by (rule cv_inv_member [OF inv w])
  let ?h = "rlist_remove (CvNode w) (rl s)"
  define s1 where "s1 = s\<lparr>rl := ?h, condvars := (condvars s)(cv := waitset_head (remove1 w (R cv)))\<rparr>"
  have r: "remove_from_ring cv w s = Inr s1" unfolding s1_def by (rule remove_from_ring_eq [OF inv w])
  have g: "get_waiter w s1 = Inr x" using x(1) by (simp add: get_waiter_def s1_def)
  let ?s1 = "set_waiter w (x\<lparr>removed := True\<rparr>) s1"
  have "cv_inv W (R(cv := remove1 w (R cv))) (s\<lparr>rl := ?h,
      condvars := (condvars s)(cv := waitset_head (remove1 w (R cv))), waiters := (waiters s)(w \<mapsto> x\<lparr>removed := True\<rparr>)\<rparr>)"
    by (rule leave_inv [OF inv w]) (use x in auto)
  then have cv1: "cv_inv W (R(cv := ws)) ?s1" using R by (simp add: set_waiter_def s1_def)
  obtain us where us: "isring (rl s) (CvNode w) (map CvNode us)" by (rule cv_ring_at [OF cv_invD(2) [OF inv] w])
  have k: "keeps_on sched_node (rl s) (rl ?s1)" "keeps_on plain_node (rl s) (rl ?s1)"
    using keeps_on_remove [OF us] by (simp_all add: set_waiter_def s1_def plain_node_def)
  have sched1: "sched_inv pc ?s1 L hs"
    by (rule sched_inv_other [OF sched k(1)]) (simp_all add: set_waiter_def s1_def)
  have fr1: "cv_frame s ?s1" using k(2) by (simp add: cv_frame_def set_waiter_def s1_def)
  obtain y where y: "tcbs s w = Some y" "tstate y \<noteq> EXITED"
    using waiter_okD(3) [OF cv_invD(4) [OF inv x(1)]] by blast
  have y1: "tcbs ?s1 w = Some y" using y by (simp add: set_waiter_def s1_def)
  obtain b s2 L2 hs2 where s2: "wakeup c w ?s1 = Inr (b, s2)" "sched_inv pc s2 L2 hs2" "sched_frame ?s1 s2"
    "b \<longleftrightarrow> tstate y = STOPPED \<or> tstate y = INIT" "tcbs s2 = (tcbs ?s1)(w \<mapsto> if b then mk_ready y else y)"
    "threads_kept ?s1 s2" "\<forall>d. current_thread (cctx s2 d) = current_thread (cctx ?s1 d)"
    by (rule wakeup_inv [OF sched1 y1])
  have b: "b = asleep s w" using s2(4) y(1) by (simp add: asleep_def)
  have f: "condvars s2 = condvars ?s1" "waiters s2 = waiters ?s1" using s2(3) by (simp_all add: sched_frame_def)
  have t2: "tcbs s2 = (tcbs s)(w \<mapsto> if b then mk_ready y else y)" using s2(5) by (simp add: set_waiter_def s1_def)
  have "cv_inv W (R(cv := ws)) s2"
  proof (rule cv_inv_frame [OF cv1 other_frame_cv [OF sched_frame_other [OF s2(3)]] f])
    show "waiting_alive s2"
      using cv_inv_alive [OF cv1] y(2) unfolding waiting_alive_def f t2 by (auto simp: set_waiter_def s1_def)
  qed
  moreover have "cv_frame s s2"
    by (rule cv_frame_trans [OF fr1 sched_frame_cv_frame [OF s2(3)]]) (use s2(7) in simp)
  moreover have "tcbs s2 = (if asleep s w then (tcbs s)(w := map_option mk_ready (tcbs s w)) else tcbs s)"
    using t2 b y(1) by (auto simp: fun_eq_iff)
  moreover have "waiters s2 = (waiters s)(w \<mapsto> x\<lparr>removed := True\<rparr>)" using f by (simp add: set_waiter_def s1_def)
  moreover have "wakeup c (wthread x) ?s1 = Inr (asleep s w, s2)" using s2(1) b x(2) by simp
  moreover have "threads_kept s s2"
    by (rule threads_kept_trans [OF threads_kept_refl s2(6)]) (simp add: set_waiter_def s1_def)
  ultimately show ?thesis using that [OF r g] s2(2) x(1) by blast
qed

text \<open>Setting the flag of a waiter that was woken is not seen by anyone else.\<close>

lemma mark_signalled:
  assumes inv: "cv_inv W R s" and x: "waiters s w = Some x" "removed x"
  shows "cv_inv W R (set_waiter w (x\<lparr>signalled := True\<rparr>) s)" (is "cv_inv W R ?s")
proof -
  note d = cv_invD [OF inv]
  have r: "cv_ring ?s ws = cv_ring s ws" for ws
    by (simp add: cv_ring_def set_waiter_def split: list.split)
  have "waiter_ok W R ?s u z" if "waiters ?s u = Some z" for u z
  proof (cases "u = w")
    case True
    then have "z = x\<lparr>signalled := True\<rparr>" using that by (simp add: set_waiter_def)
    with True d(4) [OF x(1)] x(2) show ?thesis by (simp add: waiter_ok_def set_waiter_def)
  next
    case False
    then show ?thesis using d(4) [of u z] that by (simp add: waiter_ok_def set_waiter_def)
  qed
  moreover have "condvars ?s = condvars s" "\<And>u. waiters ?s u = None \<longleftrightarrow> waiters s u = None"
    using x(1) by (simp_all add: set_waiter_def)
  ultimately show ?thesis using d(1,2,3,5) unfolding cv_inv_def r by auto
qed

section \<open>The loop of \<open>cv_signal\<close>\<close>

lemma woken_tcbs_skip: "tcbs s2 = tcbs s \<Longrightarrow> woken_tcbs ws s2 = woken_tcbs ws s"
  by (simp add: woken_tcbs_def split: list.split)

lemma wake_rest_cong: "tcbs s2 = tcbs s \<Longrightarrow> wake_rest s2 ws = wake_rest s ws"
  by (simp add: wake_rest_def asleep_def)

lemma cv_signal_inv:
  assumes "sched_inv pc s L hs" and "cv_inv W R s"
  shows "\<exists>s' L' hs'. cv_signal c cv s = Some (Inr s') \<and> sched_inv pc s' L' hs' \<and>
    cv_inv W (R(cv := tl (wake_rest s (R cv)))) s' \<and> cv_frame s s' \<and>
    tcbs s' = woken_tcbs (wake_rest s (R cv)) s \<and> threads_kept s s' \<and>
    signals_to s s' (\<lambda>t. wake_rest s (R cv) \<noteq> [] \<and> t = hd (wake_rest s (R cv)))"
  using assms
proof (induction "length (R cv)" arbitrary: s L hs R)
  case 0
  then have "condvars s cv = None" using cv_invD(1) [OF 0(3), of cv] by (simp add: waitset_head_def)
  then have "cv_signal c cv s = Some (Inr s)" by (simp add: cv_signal.simps)
  moreover have "R(cv := []) = R" using 0(1) by (auto simp: fun_eq_iff)
  ultimately show ?case using 0
    by (intro exI [of _ s] exI [of _ L] exI [of _ hs])
      (auto simp: woken_tcbs_def intro: threads_kept_refl signals_toI)
next
  case (Suc k)
  then obtain w ws where R: "R cv = w # ws" by (cases "R cv") auto
  have cv: "condvars s cv = Some w" using cv_invD(1) [OF Suc(4), of cv] R by (simp add: waitset_head_def)
  obtain s1 x s2 L2 hs2 where s2: "remove_from_ring cv w s = Inr s1" "get_waiter w s1 = Inr x"
    "wakeup c (wthread x) (set_waiter w (x\<lparr>removed := True\<rparr>) s1) = Inr (asleep s w, s2)"
    "sched_inv pc s2 L2 hs2" "cv_inv W (R(cv := ws)) s2" "cv_frame s s2"
    "tcbs s2 = (if asleep s w then (tcbs s)(w := map_option mk_ready (tcbs s w)) else tcbs s)"
    "waiters s2 = (waiters s)(w \<mapsto> x\<lparr>removed := True\<rparr>)" "waiters s w = Some x" "threads_kept s s2"
    by (rule signal_round [OF Suc(3,4) R])
  show ?case
  proof (cases "asleep s w")
    case True
    let ?s' = "set_waiter w (x\<lparr>removed := True, signalled := True\<rparr>) s2"
    have e: "cv_signal c cv s = Some (Inr ?s')"
      using cv s2(1-3,8) True by (simp add: cv_signal.simps get_waiter_def)
    have "cv_inv W (R(cv := ws)) ?s'"
      using mark_signalled [OF s2(5), of w "x\<lparr>removed := True\<rparr>"] s2(8) by simp
    moreover have "sched_inv pc ?s' L2 hs2" by (rule sched_inv_other [OF s2(4)]) (simp_all add: set_waiter_def)
    moreover have "cv_frame s ?s'" using s2(6) by (simp add: cv_frame_def set_waiter_def)
    moreover have "signals_to s ?s' (\<lambda>t. t = w)"
      by (rule signals_toI) (use s2(8,9) in \<open>auto simp: set_waiter_def\<close>)
    moreover have "threads_kept s ?s'"
      by (rule threads_kept_trans [OF s2(10) threads_kept_refl]) (simp add: set_waiter_def)
    ultimately show ?thesis using e R True s2(7)
      by (intro exI [of _ ?s'] exI [of _ L2] exI [of _ hs2])
        (simp add: wake_rest_Cons woken_tcbs_def set_waiter_def)
  next
    case False
    have k: "k = length ((R(cv := ws)) cv)" using Suc(2) R by simp
    have t2: "tcbs s2 = tcbs s" using s2(7) False by simp
    obtain s' L' hs' where s': "cv_signal c cv s2 = Some (Inr s')" "sched_inv pc s' L' hs'"
      "cv_inv W ((R(cv := ws))(cv := tl (wake_rest s2 ws))) s'" "cv_frame s2 s'"
      "tcbs s' = woken_tcbs (wake_rest s2 ws) s2" "threads_kept s2 s'"
      "signals_to s2 s' (\<lambda>t. wake_rest s2 ws \<noteq> [] \<and> t = hd (wake_rest s2 ws))"
      using Suc(1) [OF k s2(4,5)] by auto
    have e: "cv_signal c cv s = Some (Inr s')"
      using cv s2(1-3) False s'(1) by (simp add: cv_signal.simps [of c cv s])
    have "signals_to s s2 (\<lambda>_. False)" by (rule signals_toI) (use s2(8,9) in auto)
    from signals_to_trans [OF this s'(7)] show ?thesis
      using e s' R False s2(6,10)
      by (intro exI [of _ s'] exI [of _ L'] exI [of _ hs'])
        (auto simp: wake_rest_Cons wake_rest_cong [OF t2] woken_tcbs_skip [OF t2]
          intro: cv_frame_trans threads_kept_trans)
  qed
qed

lemma Cond_Signal_inv:
  assumes "sched_inv pc s L hs" and "cv_inv W R s"
  obtains s' L' hs' where "Cond_Signal c cv s = Inr s'" and "sched_inv pc s' L' hs'"
    and "cv_inv W (R(cv := tl (wake_rest s (R cv)))) s'" and "cv_frame s s'"
    and "tcbs s' = woken_tcbs (wake_rest s (R cv)) s" and "threads_kept s s'"
    and "signals_to s s' (\<lambda>t. wake_rest s (R cv) \<noteq> [] \<and> t = hd (wake_rest s (R cv)))"
  using cv_signal_inv [OF assms, of c cv] that by (auto simp: Cond_Signal_def of_loop_def)

section \<open>Broadcast\<close>

text \<open>Waking all the waiters.\<close>

definition all_woken :: "tref list \<Rightarrow> kernel \<Rightarrow> tref \<rightharpoonup> tcb" where
  "all_woken ws s = (\<lambda>t. if t \<in> set ws \<and> asleep s t then map_option mk_ready (tcbs s t) else tcbs s t)"

lemma wake_rest_append:
  "wake_rest s ws = w # us \<Longrightarrow> \<exists>vs. ws = vs @ w # us \<and> (\<forall>v \<in> set vs. \<not> asleep s v) \<and> asleep s w"
proof (induction ws)
  case (Cons v vs)
  show ?case
  proof (cases "asleep s v")
    case True
    with Cons.prems show ?thesis by (auto simp: wake_rest_Cons)
  next
    case False
    with Cons.prems have "wake_rest s vs = w # us" by (simp add: wake_rest_Cons)
    with Cons.IH False obtain zs where "vs = zs @ w # us" "\<forall>z \<in> set zs. \<not> asleep s z" "asleep s w" by blast
    with False show ?thesis by (intro exI [of _ "v # zs"]) simp
  qed
qed simp

lemma wake_rest_none: "wake_rest s ws = [] \<Longrightarrow> w \<in> set ws \<Longrightarrow> \<not> asleep s w"
  by (induction ws) (auto simp: wake_rest_Cons split: if_splits)

lemma all_woken_step:
  assumes d: "distinct ws" and t: "tcbs s1 = woken_tcbs (wake_rest s ws) s"
  shows "all_woken (tl (wake_rest s ws)) s1 = all_woken ws s"
    and "(\<lambda>t. (wake_rest s ws \<noteq> [] \<and> t = hd (wake_rest s ws)) \<or> t \<in> set (tl (wake_rest s ws)) \<and> asleep s1 t) =
      (\<lambda>t. t \<in> set ws \<and> asleep s t)"
proof -
  have "all_woken (tl (wake_rest s ws)) s1 = all_woken ws s \<and>
    (\<lambda>t. (wake_rest s ws \<noteq> [] \<and> t = hd (wake_rest s ws)) \<or> t \<in> set (tl (wake_rest s ws)) \<and> asleep s1 t) =
      (\<lambda>t. t \<in> set ws \<and> asleep s t)"
  proof (cases "wake_rest s ws")
    case Nil
    then have "\<forall>w \<in> set ws. \<not> asleep s w" using wake_rest_none by blast
    with Nil t show ?thesis by (auto simp: all_woken_def woken_tcbs_def fun_eq_iff)
  next
    case (Cons w us)
    then obtain vs where vs: "ws = vs @ w # us" "\<forall>v \<in> set vs. \<not> asleep s v" "asleep s w"
      using wake_rest_append by blast
    have t1: "tcbs s1 u = (if u = w then map_option mk_ready (tcbs s w) else tcbs s u)" for u
      using t Cons by (simp add: woken_tcbs_def)
    then have a1: "asleep s1 u = (u \<noteq> w \<and> asleep s u)" for u by (auto simp: asleep_def)
    show ?thesis
      using d vs Cons by (auto simp: all_woken_def fun_eq_iff t1 a1)
  qed
  then show "all_woken (tl (wake_rest s ws)) s1 = all_woken ws s"
    and "(\<lambda>t. (wake_rest s ws \<noteq> [] \<and> t = hd (wake_rest s ws)) \<or> t \<in> set (tl (wake_rest s ws)) \<and> asleep s1 t) =
      (\<lambda>t. t \<in> set ws \<and> asleep s t)" by blast+
qed

lemma length_wake_rest: "length (wake_rest s ws) \<le> length ws"
  by (induction ws) (auto simp: wake_rest_Cons)

lemma broadcast_loop_inv:
  assumes "sched_inv pc s L hs" and "cv_inv W R s"
  shows "\<exists>s' L' hs'. broadcast_loop c cv s = Some (Inr s') \<and> sched_inv pc s' L' hs' \<and>
    cv_inv W (R(cv := [])) s' \<and> cv_frame s s' \<and> tcbs s' = all_woken (R cv) s \<and> threads_kept s s' \<and>
    signals_to s s' (\<lambda>t. t \<in> set (R cv) \<and> asleep s t)"
  using assms
proof (induction "length (R cv)" arbitrary: s L hs R rule: less_induct)
  case less
  show ?case
  proof (cases "R cv")
    case Nil
    then have "condvars s cv = None" using cv_invD(1) [OF less(3), of cv] by (simp add: waitset_head_def)
    then have "broadcast_loop c cv s = Some (Inr s)" by (simp add: broadcast_loop.simps)
    moreover have "R(cv := []) = R" using Nil by (auto simp: fun_eq_iff)
    ultimately show ?thesis using less(2,3) Nil
      by (intro exI [of _ s] exI [of _ L] exI [of _ hs])
        (auto simp: all_woken_def intro: threads_kept_refl signals_toI)
  next
    case (Cons w ws)
    have cv: "condvars s cv \<noteq> None" using cv_invD(1) [OF less(3), of cv] Cons by (simp add: waitset_head_def)
    let ?ws = "wake_rest s (R cv)"
    obtain s1 L1 hs1 where s1: "Cond_Signal c cv s = Inr s1" "sched_inv pc s1 L1 hs1"
      "cv_inv W (R(cv := tl ?ws)) s1" "cv_frame s s1" "tcbs s1 = woken_tcbs ?ws s" "threads_kept s s1"
      "signals_to s s1 (\<lambda>t. ?ws \<noteq> [] \<and> t = hd ?ws)"
      by (rule Cond_Signal_inv [OF less(2,3)])
    have "length ((R(cv := tl ?ws)) cv) < length (R cv)"
      using length_wake_rest [of s "R cv"] Cons by (cases "?ws") auto
    from less(1) [OF this s1(2,3)] obtain s' L' hs' where s': "broadcast_loop c cv s1 = Some (Inr s')"
      "sched_inv pc s' L' hs'" "cv_inv W (R(cv := [])) s'" "cv_frame s1 s'"
      "tcbs s' = all_woken (tl ?ws) s1" "threads_kept s1 s'"
      "signals_to s1 s' (\<lambda>t. t \<in> set (tl ?ws) \<and> asleep s1 t)" by auto
    note step = all_woken_step [OF cv_ring_distinct [OF cv_invD(2) [OF less(3)]] s1(5)]
    have "broadcast_loop c cv s = Some (Inr s')"
      using cv s1(1) s'(1) by (simp add: broadcast_loop.simps [of c cv s])
    moreover have "signals_to s s' (\<lambda>t. t \<in> set (R cv) \<and> asleep s t)"
      using signals_to_trans [OF s1(7) s'(7)] unfolding step(2) .
    moreover have "tcbs s' = all_woken (R cv) s" using s'(5) unfolding step(1) .
    ultimately show ?thesis using s' s1
      by (intro exI [of _ s'] exI [of _ L'] exI [of _ hs'])
        (auto intro: cv_frame_trans threads_kept_trans)
  qed
qed

lemma Cond_Broadcast_inv:
  assumes "sched_inv pc s L hs" and "cv_inv W R s"
  obtains s' L' hs' where "Cond_Broadcast c cv s = Inr s'" and "sched_inv pc s' L' hs'"
    and "cv_inv W (R(cv := [])) s'" and "cv_frame s s'" and "tcbs s' = all_woken (R cv) s"
    and "threads_kept s s'" and "signals_to s s' (\<lambda>t. t \<in> set (R cv) \<and> asleep s t)"
  using broadcast_loop_inv [OF assms, of c cv] that by (auto simp: Cond_Broadcast_def of_loop_def)

end
