(* ===== verification/Cond_System.thy ===== *)
theory Cond_System
  imports Cond_Signal
begin

text \<open>
  Waiting, the kernel lock, and all steps of the condition variables and of the kernel lock
  interleaved with the scheduler on all cores.
\<close>

section \<open>Beginning and ending a wait\<close>

lemma enqueue_inv:
  assumes inv: "cv_inv W R s" and t: "t = CURTHREAD c s" and n: "waiters s t = None"
    and x: "tcbs s t = Some x" "tstate x \<noteq> EXITED"
  shows "cv_inv (W(t \<mapsto> cv)) (R(cv := R cv @ [t])) (cv_enqueue c cv s)"
    and "keeps_on (\<lambda>n. \<not> cv_node n) (rl s) (rl (cv_enqueue c cv s))"
    and "cv_enqueue c cv s = s\<lparr>rl := rl (cv_enqueue c cv s), condvars := condvars (cv_enqueue c cv s),
      waiters := (waiters s)(t \<mapsto> \<lparr>wthread = t, signalled = False, removed = False\<rparr>)\<rparr>"
proof -
  note d = cv_invD [OF inv]
  let ?x = "\<lparr>wthread = t, signalled = False, removed = False\<rparr>"
  let ?h0 = "rlnode_init (CvNode t) (OWaiter t) (rl s)"
  define s' where "s' = cv_enqueue c cv s"
  have tR: "t \<notin> set (R cv')" for cv' using d(5) [of t cv'] n by auto
  have k0: "isring ?h0 z zs" if "isring (rl s) z zs" "CvNode t \<notin> set (z # zs)" for z zs
    by (rule init_keeps [OF that])
  have lone: "isring ?h0 (CvNode t) []" by (rule init_list)
  have r0: "cv_ring (s\<lparr>rl := ?h0\<rparr>) (R cv')" for cv'
  proof (cases "R cv'")
    case (Cons u us)
    then have u: "isring (rl s) (CvNode u) (map CvNode us)" using d(2) [of cv'] by (simp add: cv_ring_def)
    have "CvNode t \<notin> set (CvNode u # map CvNode us)" using tR [of cv'] Cons by auto
    from k0 [OF u this] Cons show ?thesis by (simp add: cv_ring_def)
  qed (simp add: cv_ring_def)
  have s': "condvars s' = (condvars s)(cv := waitset_head (R cv @ [t]))"
    "rl s' = (case R cv of [] \<Rightarrow> ?h0 | w # _ \<Rightarrow> rlist_push_back (CvNode w) (CvNode t) ?h0)"
    "s' = s\<lparr>rl := rl s', condvars := condvars s', waiters := (waiters s)(t \<mapsto> ?x)\<rparr>"
    using d(1) [of cv] t unfolding s'_def
    by (cases "R cv"; simp add: cv_enqueue_def set_waiter_def Let_def waitset_head_def fun_eq_iff)+
  have f: "waiters s' = (waiters s)(t \<mapsto> ?x)" "tcbs s' = tcbs s" by (subst s'(3), simp)+
  show "cv_enqueue c cv s = s\<lparr>rl := rl (cv_enqueue c cv s), condvars := condvars (cv_enqueue c cv s),
      waiters := (waiters s)(t \<mapsto> ?x)\<rparr>" using s'(3) unfolding s'_def .
  have keep: "isring (rl s') z zs" if z: "isring ?h0 z zs" "CvNode t \<notin> set (z # zs)"
    "\<forall>w \<in> set (R cv). CvNode w \<notin> set (z # zs)" for z zs
  proof (cases "R cv")
    case Nil
    then show ?thesis using z s'(2) by simp
  next
    case (Cons w ws)
    then have "isring ?h0 (CvNode w) (map CvNode ws)" using r0 [of cv] by (simp add: cv_ring_def)
    from rl.push_keeps_law [OF z(1) this lone] z(2,3) Cons s'(2) show ?thesis by simp
  qed
  show "keeps_on (\<lambda>n. \<not> cv_node n) (rl s) (rl (cv_enqueue c cv s))"
    unfolding s'_def [symmetric] keeps_on_def
  proof (intro conjI allI impI)
    show "obj (rl s') n = obj (rl s) n" if "\<not> cv_node n" for n
      using that s'(2) by (cases "R cv") auto
    show "isring (rl s') z zs" if "\<forall>n \<in> set (z # zs). \<not> cv_node n" "isring (rl s) z zs" for z zs
    proof -
      have "CvNode u \<notin> set (z # zs)" for u using that(1) by auto
      with k0 [OF that(2)] keep show ?thesis by blast
    qed
  qed
  have o: "obj (rl s') = (obj (rl s))(CvNode t := OWaiter t)" using s'(2) by (cases "R cv") simp_all
  have ring: "cv_ring s' ((R(cv := R cv @ [t])) cv')" for cv'
  proof (cases "cv' = cv")
    case True
    show ?thesis
    proof (cases "R cv")
      case Nil
      then show ?thesis using True lone s'(2) by (simp add: cv_ring_def)
    next
      case (Cons w ws)
      then have "isring ?h0 (CvNode w) (map CvNode ws)" using r0 [of cv] by (simp add: cv_ring_def)
      from rl.push_back_law [OF this lone] tR [of cv] Cons have
        "isring (rlist_push_back (CvNode w) (CvNode t) ?h0) (CvNode w) (map CvNode ws @ [CvNode t])" by auto
      with True Cons s'(2) show ?thesis by (simp add: cv_ring_def)
    qed
  next
    case False
    show ?thesis
    proof (cases "R cv'")
      case (Cons u us)
      have "CvNode w \<notin> set (CvNode u # map CvNode us)" if w: "w \<in> set (R cv)" for w
      proof -
        obtain z where "W w = Some cv" "\<forall>cv'. w \<in> set (R cv') \<longrightarrow> cv' = cv" by (rule cv_inv_member [OF inv w])
        with False have "w \<notin> set (R cv')" by blast
        with Cons show ?thesis by auto
      qed
      moreover have "isring ?h0 (CvNode u) (map CvNode us)" using r0 [of cv'] Cons by (simp add: cv_ring_def)
      moreover have "CvNode t \<notin> set (CvNode u # map CvNode us)" using tR [of cv'] Cons by auto
      ultimately show ?thesis using False Cons keep by (simp add: cv_ring_def)
    qed (use False in \<open>simp add: cv_ring_def\<close>)
  qed
  have "waiter_ok (W(t \<mapsto> cv)) (R(cv := R cv @ [t])) s' w z" if z: "waiters s' w = Some z" for w z
  proof (cases "w = t")
    case True
    then have "z = ?x" using z f by simp
    then show ?thesis using True x f(2) o tR by (auto simp: waiter_ok_def)
  next
    case False
    then have wz: "waiters s w = Some z" using z f by simp
    note ok = d(4) [OF wz]
    have "isring (rl s') (CvNode w) []" if "removed z"
    proof (rule keep [OF k0 [OF waiter_okD(4) [OF ok that]]])
      show "\<forall>u \<in> set (R cv). CvNode u \<notin> set [CvNode w]" using waiter_okD(6) [OF ok, of cv] that by auto
    qed (use False in auto)
    with ok False show ?thesis by (auto simp: waiter_ok_def f(2) o)
  qed
  moreover have "(W(t \<mapsto> cv)) w = None \<longleftrightarrow> waiters s' w = None" for w using d(3) [of w] f(1) by simp
  moreover have "waiters s' w \<noteq> None" if "w \<in> set ((R(cv := R cv @ [t])) cv')" for w cv'
    using that d(5) [of w cv'] f(1) by (auto split: if_splits)
  moreover have "condvars s' cv' = waitset_head ((R(cv := R cv @ [t])) cv')" for cv' using s'(1) d(1) by simp
  ultimately show "cv_inv (W(t \<mapsto> cv)) (R(cv := R cv @ [t])) (cv_enqueue c cv s)"
    unfolding s'_def [symmetric] cv_inv_def using ring by simp
qed

lemma not_cv_keeps: "keeps_on (\<lambda>n. \<not> cv_node n) h h' \<Longrightarrow> keeps_on sched_node h h' \<and> keeps_on plain_node h h'"
proof -
  have "\<not> cv_node n" if "sched_node n" for n using that by (cases n) simp_all
  then show "keeps_on (\<lambda>n. \<not> cv_node n) h h' \<Longrightarrow> ?thesis"
    by (auto simp: plain_node_def intro: keeps_on_sub)
qed

text \<open>The current thread of a core, as the scheduler's invariant knows it.\<close>

lemma current_running:
  assumes inv: "sched_inv pc s L hs" and c: "c < ncores s" "pc c = Running"
  obtains x where "tcbs s (CURTHREAD c s) = Some x" and "tstate x = RUNNING"
proof -
  have d: "dirty_on pc s c (CURTHREAD c s)" using c by (simp add: dirty_on_def CURTHREAD_def)
  then obtain x where x: "tcbs s (CURTHREAD c s) = Some x"
    using sched_inv_live [OF inv] by (auto simp: on_core_def)
  from thread_okD(3) [OF sched_inv_thread [OF inv x]] d c have "tstate x = RUNNING"
    unfolding state_ok_def by blast
  with x show ?thesis by (rule that)
qed

lemma wait_begin_inv:
  assumes sched: "sched_inv pc s L hs" and inv: "cv_inv W R s" and c: "c < ncores s" "pc c = Running"
    and t: "t = CURTHREAD c s" and n: "waiters s t = None"
    and x: "tcbs s t = Some x" "ttype x = NORMAL_THREAD"
    and to: "timeout \<noteq> NO_TIMEOUT \<Longrightarrow> bios_clock s + timeout \<noteq> NO_TIMEOUT"
  obtains p s' L' hs' where "cv_wait_begin c cv timeout s = Inr (p, s')"
    and "sched_inv (pc(c := Sleeping cause)) s' L' hs'"
    and "cv_inv (W(t \<mapsto> cv)) (R(cv := R cv @ [t])) s'" and "cv_frame s s'"
    and "\<forall>u. u \<noteq> t \<longrightarrow> tcbs s' u = tcbs s u" and "\<exists>y. tcbs s' t = Some y \<and> same_thread x y \<and> tstate y = STOPPED"
    and "waiters s' = (waiters s)(t \<mapsto> \<lparr>wthread = t, signalled = False, removed = False\<rparr>)"
proof -
  let ?s = "cv_enqueue c cv s"
  obtain x' where "tcbs s t = Some x'" "tstate x' = RUNNING" unfolding t by (rule current_running [OF sched c])
  with x have st: "tstate x \<noteq> EXITED" by simp
  note e = enqueue_inv [OF inv t n x(1) st, of cv]
  note k = not_cv_keeps [OF e(2)]
  have f: "tcbs ?s = tcbs s" "ncores ?s = ncores s" "cctx ?s = cctx s" "cores ?s = cores s"
    "active_threads ?s = active_threads s" "system_clock ?s = system_clock s"
    "waiters ?s = (waiters s)(t \<mapsto> \<lparr>wthread = t, signalled = False, removed = False\<rparr>)"
    by (subst e(3), simp)+
  have sched1: "sched_inv pc ?s L hs" by (rule sched_inv_other [OF sched]) (use k f in simp_all)
  have fr1: "cv_frame s ?s" unfolding cv_frame_def using k by (subst e(3), simp)+
  have t': "current_thread (cctx ?s c) = t" using t f(3) by (simp add: CURTHREAD_def)
  obtain p s' L' hs' where s': "sleep_mark c STOPPED timeout ?s = Inr (p, s')"
    "sched_inv (pc(c := Sleeping cause)) s' L' hs'" "sched_frame ?s s'"
    "\<forall>u. u \<noteq> current_thread (cctx ?s c) \<longrightarrow> tcbs s' u = tcbs ?s u"
    "\<exists>y. tcbs s' (current_thread (cctx ?s c)) = Some y \<and> same_thread x y \<and> tstate y = STOPPED"
    "\<forall>d. current_thread (cctx s' d) = current_thread (cctx ?s d)"
    by (rule sleep_mark_inv [OF sched1, of c x STOPPED timeout cause])
      (use c f t' x to in \<open>simp_all add: bios_clock_def\<close>)
  have g: "condvars s' = condvars ?s" "waiters s' = waiters ?s" using s'(3) by (simp_all add: sched_frame_def)
  have "cv_inv (W(t \<mapsto> cv)) (R(cv := R cv @ [t])) s'"
  proof (rule cv_inv_frame [OF e(1) other_frame_cv [OF sched_frame_other [OF s'(3)]] g])
    show "waiting_alive s'"
      unfolding waiting_alive_def
    proof (intro allI impI)
      fix w assume w: "waiters s' w \<noteq> None"
      show "\<exists>y. tcbs s' w = Some y \<and> tstate y \<noteq> EXITED"
      proof (cases "w = t")
        case True
        then show ?thesis using s'(5) t' by auto
      next
        case False
        then show ?thesis using w s'(4) t' g(2) cv_inv_alive [OF e(1)] by (simp add: waiting_alive_def)
      qed
    qed
  qed
  moreover have "cv_frame s s'"
    by (rule cv_frame_trans [OF fr1 sched_frame_cv_frame [OF s'(3)]]) (use s'(6) in simp)
  ultimately show ?thesis
    using that [of p s'] s' t' f g by (simp add: cv_wait_begin_def)
qed

lemma wait_end_inv:
  assumes sched: "sched_inv pc s L hs" and inv: "cv_inv W R s" and t: "t = CURTHREAD c s" and w: "W t = Some cv"
  obtains x s' where "waiters s t = Some x" and "cv_wait_end c cv s = Inr (signalled x, s')"
    and "sched_inv pc s' L hs" and "cv_inv (W(t := None)) (R(cv := remove1 t (R cv))) s'" and "cv_frame s s'"
    and "tcbs s' = tcbs s" and "cctx s' = cctx s" and "waiters s' = (waiters s)(t := None)"
    and "cores s' = cores s" and "system_clock s' = system_clock s"
proof -
  note d = cv_invD [OF inv]
  obtain x where x: "waiters s t = Some x" using d(3) [of t] w by auto
  note ok = d(4) [OF x]
  show ?thesis
  proof (cases "removed x")
    case False
    then have tR: "t \<in> set (R cv)" using waiter_okD(6) [OF ok, of cv] w by simp
    let ?s' = "s\<lparr>rl := rlist_remove (CvNode t) (rl s),
      condvars := (condvars s)(cv := waitset_head (remove1 t (R cv))), waiters := (waiters s)(t := None)\<rparr>"
    obtain us where us: "isring (rl s) (CvNode t) (map CvNode us)" by (rule cv_ring_at [OF d(2) tR])
    have k: "keeps_on sched_node (rl s) (rl ?s')" "keeps_on plain_node (rl s) (rl ?s')"
      using keeps_on_remove [OF us] by (simp_all add: plain_node_def)
    have "cv_wait_end c cv s = Inr (signalled x, ?s')"
      using x t False waiter_okD(5) [OF ok False] remove_from_ring_eq [OF inv tR]
      by (simp add: cv_wait_end_def get_waiter_def Let_def)
    then show ?thesis
    proof (rule that [OF x])
      show "sched_inv pc ?s' L hs" by (rule sched_inv_other [OF sched k(1)]) simp_all
      show "cv_inv (W(t := None)) (R(cv := remove1 t (R cv))) ?s'" by (rule leave_inv [OF inv tR]) simp_all
      show "cv_frame s ?s'" using k(2) by (simp add: cv_frame_def)
    qed simp_all
  next
    case True
    then have tR: "t \<notin> set (R cv')" for cv' using waiter_okD(6) [OF ok, of cv'] by simp
    then have R': "R(cv := remove1 t (R cv)) = R" by (simp add: remove1_idem fun_eq_iff)
    let ?s' = "s\<lparr>waiters := (waiters s)(t := None)\<rparr>"
    have r: "cv_ring ?s' ws = cv_ring s ws" for ws by (simp add: cv_ring_def split: list.split)
    have "waiter_ok (W(t := None)) R ?s' u z" if "waiters ?s' u = Some z" for u z
      using that d(4) [of u z] by (auto simp: waiter_ok_def split: if_splits)
    moreover have "waiters ?s' u \<noteq> None" if "u \<in> set (R cv')" for u cv'
      using that d(5) [of u cv'] tR [of cv'] by auto
    ultimately have "cv_inv (W(t := None)) R ?s'"
      unfolding cv_inv_def r using d(1-3) by simp
    moreover have "cv_wait_end c cv s = Inr (signalled x, ?s')"
      using x t True by (simp add: cv_wait_end_def get_waiter_def)
    moreover have "sched_inv pc ?s' L hs" by (rule sched_inv_other [OF sched]) simp_all
    ultimately show ?thesis using R' by (intro that [OF x, of ?s']) (simp_all add: cv_frame_def)
  qed
qed

end
