(* ===== verification/Cond_Reach.thy ===== *)
theory Cond_Reach
  imports Cond_System
begin

text \<open>
  Threads that wait, signal, broadcast and enter and leave the kernel, on all cores, between
  the steps of the scheduler.  A configuration has the points of the cores, the condition
  variable every thread inside \<open>cv_wait\<close> waits on, the threads that hold the kernel lock, and
  the state.
\<close>

type_synonym cc_conf = "(nat \<Rightarrow> cpc) \<times> (tref \<Rightarrow> cvref option) \<times> tref set \<times> kernel"

section \<open>The invariant\<close>

text \<open>A thread that sleeps inside \<open>cv_wait\<close> is in a wait set, where a signal will find it.\<close>

definition sleepers_listed :: "(cvref \<Rightarrow> tref list) \<Rightarrow> kernel \<Rightarrow> bool" where
  "sleepers_listed R s \<longleftrightarrow> (\<forall>w. waiters s w \<noteq> None \<longrightarrow> asleep s w \<longrightarrow> (\<exists>cv. w \<in> set (R cv)))"

lemma sleepers_listedD:
  assumes "sleepers_listed R s" and "waiters s w \<noteq> None" and "asleep s w"
  obtains cv where "w \<in> set (R cv)"
  using assms by (auto simp: sleepers_listed_def)

text \<open>While the kernel is free, one of the threads that wait for it is awake.\<close>

definition sem_progress :: "(tref \<Rightarrow> cvref option) \<Rightarrow> kernel \<Rightarrow> bool" where
  "sem_progress W s \<longleftrightarrow> (0 < kernel_sem s \<longrightarrow> (\<exists>w. W w = Some KernelSemCv) \<longrightarrow>
     (\<exists>w. W w = Some KernelSemCv \<and> \<not> asleep s w))"

definition lock_inv :: "(tref \<Rightarrow> cvref option) \<Rightarrow> tref set \<Rightarrow> kernel \<Rightarrow> bool" where
  "lock_inv W H s \<longleftrightarrow> finite H \<and> 0 \<le> kernel_sem s \<and> kernel_sem s + int (card H) = 1 \<and>
     (\<forall>t \<in> H. W t \<noteq> Some KernelSemCv)"

definition cc_ok :: "(nat \<Rightarrow> cpc) \<Rightarrow> (tref \<Rightarrow> cvref option) \<Rightarrow> (cvref \<Rightarrow> tref list) \<Rightarrow> kernel \<Rightarrow> bool" where
  "cc_ok pc W R s \<longleftrightarrow> (\<exists>L hs. sched_inv pc s L hs) \<and> cv_inv W R s \<and> sleepers_listed R s"

definition cc_inv :: "cc_conf \<Rightarrow> bool" where
  "cc_inv cf \<longleftrightarrow> (case cf of (pc, W, H, s) \<Rightarrow> (\<exists>R. cc_ok pc W R s) \<and> sem_progress W s \<and> lock_inv W H s)"

lemma cc_okD:
  assumes "cc_ok pc W R s"
  shows "\<exists>L hs. sched_inv pc s L hs" and "cv_inv W R s" and "sleepers_listed R s"
  using assms by (simp_all add: cc_ok_def)

lemma sem_progress_mono:
  assumes "sem_progress W s" and "kernel_sem s' = kernel_sem s" and "\<And>w. asleep s' w \<Longrightarrow> W w \<noteq> None \<Longrightarrow> asleep s w"
  shows "sem_progress W s'"
  using assms unfolding sem_progress_def by (metis option.distinct(1))

lemma lock_inv_cong: "lock_inv W H s \<Longrightarrow> kernel_sem s' = kernel_sem s \<Longrightarrow> lock_inv W H s'"
  by (simp add: lock_inv_def)

section \<open>What the operations do to the invariant\<close>

lemma asleep_woken:
  assumes "tcbs s' = woken_tcbs ws s"
  shows "asleep s' w \<longleftrightarrow> asleep s w \<and> \<not> (ws \<noteq> [] \<and> w = hd ws)"
  using assms by (cases ws) (auto simp: woken_tcbs_def asleep_def)

lemma signals_waiters: "signals_to s s' P \<Longrightarrow> waiters s' t = None \<longleftrightarrow> waiters s t = None"
  using signals_toD [of s s' P t] by (cases "waiters s t") auto

lemma signal_ok:
  assumes ok: "cc_ok pc W R s"
  obtains s' where "Cond_Signal c cv s = Inr s'" and "cc_ok pc W (R(cv := tl (wake_rest s (R cv)))) s'"
    and "cv_frame s s'" and "tcbs s' = woken_tcbs (wake_rest s (R cv)) s" and "threads_kept s s'"
    and "signals_to s s' (\<lambda>t. wake_rest s (R cv) \<noteq> [] \<and> t = hd (wake_rest s (R cv)))"
    and "\<forall>w. asleep s' w \<longrightarrow> asleep s w" and "\<forall>w. \<not> asleep s w \<longrightarrow> tcbs s' w = tcbs s w"
proof -
  obtain L hs where sched: "sched_inv pc s L hs" using cc_okD(1) [OF ok] by blast
  let ?ws = "wake_rest s (R cv)"
  obtain s' L' hs' where s': "Cond_Signal c cv s = Inr s'" "sched_inv pc s' L' hs'"
    "cv_inv W (R(cv := tl ?ws)) s'" "cv_frame s s'" "tcbs s' = woken_tcbs ?ws s" "threads_kept s s'"
    "signals_to s s' (\<lambda>t. ?ws \<noteq> [] \<and> t = hd ?ws)"
    by (rule Cond_Signal_inv [OF sched cc_okD(2) [OF ok]])
  note a = asleep_woken [OF s'(5)]
  have "\<exists>cv'. w \<in> set ((R(cv := tl ?ws)) cv')" if w: "waiters s' w \<noteq> None" "asleep s' w" for w
  proof -
    have aw: "asleep s w" "\<not> (?ws \<noteq> [] \<and> w = hd ?ws)" using a w(2) by auto
    have "waiters s w \<noteq> None" using w(1) signals_waiters [OF s'(7), of w] by simp
    with cc_okD(3) [OF ok] obtain cv' where cv': "w \<in> set (R cv')" using aw(1) by (rule sleepers_listedD)
    show ?thesis
    proof (cases "cv' = cv")
      case True
      obtain vs where "R cv = vs @ ?ws" "\<forall>v \<in> set vs. \<not> asleep s v"
        unfolding wake_rest_def using takeWhile_dropWhile_id set_takeWhileD by metis
      with cv' True aw have "w \<in> set ?ws" by (metis UnE set_append)
      with aw(2) have "w \<in> set (tl ?ws)" by (cases ?ws) auto
      then show ?thesis by (intro exI [of _ cv]) simp
    next
      case False
      with cv' show ?thesis by (intro exI [of _ cv']) simp
    qed
  qed
  then have "cc_ok pc W (R(cv := tl ?ws)) s'"
    using s'(2,3) unfolding cc_ok_def sleepers_listed_def by blast
  moreover have "tcbs s' w = tcbs s w" if "\<not> asleep s w" for w
    using s'(5) that wake_rest_append [of s "R cv"] by (cases ?ws) (auto simp: woken_tcbs_def)
  ultimately show ?thesis using that s' a by blast
qed

lemma broadcast_ok:
  assumes ok: "cc_ok pc W R s"
  obtains s' where "Cond_Broadcast c cv s = Inr s'" and "cc_ok pc W (R(cv := [])) s'"
    and "cv_frame s s'" and "tcbs s' = all_woken (R cv) s" and "threads_kept s s'"
    and "signals_to s s' (\<lambda>t. t \<in> set (R cv) \<and> asleep s t)"
    and "\<forall>w. asleep s' w \<longleftrightarrow> asleep s w \<and> w \<notin> set (R cv)" and "\<forall>w. \<not> asleep s w \<longrightarrow> tcbs s' w = tcbs s w"
proof -
  obtain L hs where sched: "sched_inv pc s L hs" using cc_okD(1) [OF ok] by blast
  obtain s' L' hs' where s': "Cond_Broadcast c cv s = Inr s'" "sched_inv pc s' L' hs'"
    "cv_inv W (R(cv := [])) s'" "cv_frame s s'" "tcbs s' = all_woken (R cv) s" "threads_kept s s'"
    "signals_to s s' (\<lambda>t. t \<in> set (R cv) \<and> asleep s t)"
    by (rule Cond_Broadcast_inv [OF sched cc_okD(2) [OF ok]])
  have a: "asleep s' w \<longleftrightarrow> asleep s w \<and> w \<notin> set (R cv)" for w
    unfolding asleep_def [of s'] s'(5) by (auto simp: all_woken_def asleep_def)
  have "sleepers_listed (R(cv := [])) s'"
    unfolding sleepers_listed_def
  proof (intro allI impI)
    fix w assume w: "waiters s' w \<noteq> None" "asleep s' w"
    have sw: "waiters s w \<noteq> None" "asleep s w" using w signals_waiters [OF s'(7), of w] a by simp_all
    obtain cv' where "w \<in> set (R cv')" using cc_okD(3) [OF ok] sw by (rule sleepers_listedD)
    with a w(2) show "\<exists>cv'. w \<in> set ((R(cv := [])) cv')" by (intro exI [of _ cv']) auto
  qed
  then have "cc_ok pc W (R(cv := [])) s'" using s'(2,3) unfolding cc_ok_def by blast
  with that s' a show ?thesis by (auto simp: all_woken_def)
qed

lemma cc_ok_sem: "cc_ok pc W R s \<Longrightarrow> cc_ok pc W R (s\<lparr>kernel_sem := n\<rparr>)"
proof -
  assume ok: "cc_ok pc W R s"
  let ?s = "s\<lparr>kernel_sem := n\<rparr>"
  obtain L hs where "sched_inv pc s L hs" using cc_okD(1) [OF ok] by blast
  then have "sched_inv pc ?s L hs" by (rule sched_inv_other) simp_all
  moreover have "cv_inv W R ?s"
    by (rule cv_inv_frame [OF cc_okD(2) [OF ok]]) (use cv_inv_alive [OF cc_okD(2) [OF ok]] in \<open>simp_all add: waiting_alive_def\<close>)
  ultimately show ?thesis using cc_okD(3) [OF ok] by (auto simp: cc_ok_def sleepers_listed_def asleep_def)
qed

lemma unlock_ok:
  assumes ok: "cc_ok pc W R s"
  obtains s' R' where "kernel_unlock c s = Inr s'" and "cc_ok pc W R' s'" and "sem_progress W s'"
    and "cv_frame (s\<lparr>kernel_sem := kernel_sem s + 1\<rparr>) s'" and "kernel_sem s' = kernel_sem s + 1"
    and "\<forall>w. asleep s' w \<longrightarrow> asleep s w" and "\<forall>w. \<not> asleep s w \<longrightarrow> tcbs s' w = tcbs s w"
    and "\<forall>w. waiters s' w = None \<longleftrightarrow> waiters s w = None" and "threads_kept s s'"
proof -
  let ?s = "s\<lparr>kernel_sem := kernel_sem s + 1\<rparr>"
  let ?ws = "wake_rest ?s (R KernelSemCv)"
  have a: "asleep ?s w = asleep s w" for w by (simp add: asleep_def)
  obtain s' where s': "Cond_Signal c KernelSemCv ?s = Inr s'" "cc_ok pc W (R(KernelSemCv := tl ?ws)) s'"
    "cv_frame ?s s'" "tcbs s' = woken_tcbs ?ws ?s" "threads_kept ?s s'"
    "signals_to ?s s' (\<lambda>t. ?ws \<noteq> [] \<and> t = hd ?ws)" "\<forall>w. asleep s' w \<longrightarrow> asleep ?s w"
    "\<forall>w. \<not> asleep ?s w \<longrightarrow> tcbs s' w = tcbs ?s w"
    by (rule signal_ok [OF cc_ok_sem [OF ok]])
  have "sem_progress W s'"
    unfolding sem_progress_def
  proof (intro impI)
    assume "\<exists>w. W w = Some KernelSemCv"
    then obtain w where w: "W w = Some KernelSemCv" by blast
    show "\<exists>w. W w = Some KernelSemCv \<and> \<not> asleep s' w"
    proof (cases "asleep s' w")
      case False
      with w show ?thesis by blast
    next
      case True
      then have sw: "asleep s w" using s'(7) a by blast
      have "waiters s w \<noteq> None" using cv_invD(3) [OF cc_okD(2) [OF ok], of w] w by simp
      with cc_okD(3) [OF ok] obtain cv where cv: "w \<in> set (R cv)" using sw by (rule sleepers_listedD)
      then obtain z where "W w = Some cv" by (rule cv_inv_member [OF cc_okD(2) [OF ok]])
      with w cv have wR: "w \<in> set (R KernelSemCv)" by simp
      have ne: "?ws \<noteq> []" using wake_rest_none [OF _ wR, of ?s] sw a by blast
      then obtain v vs where v: "?ws = v # vs" by (cases ?ws) auto
      then have vR: "v \<in> set (R KernelSemCv)" using wake_rest_append by fastforce
      then obtain z where "W v = Some KernelSemCv" by (rule cv_inv_member [OF cc_okD(2) [OF ok]])
      moreover have "\<not> asleep s' v" using asleep_woken [OF s'(4), of v] v by simp
      ultimately show ?thesis by blast
    qed
  qed
  moreover have "kernel_sem s' = kernel_sem s + 1" using s'(3) by (simp add: cv_frame_def)
  moreover have "threads_kept s s'" by (rule threads_kept_trans [OF threads_kept_refl s'(5)]) simp
  moreover have "waiters s' w = None \<longleftrightarrow> waiters s w = None" for w using signals_waiters [OF s'(6), of w] by simp
  ultimately show ?thesis using that [of s'] s' a by (simp add: kernel_unlock_def)
qed

lemma wait_begin_ok:
  assumes ok: "cc_ok pc W R s" and c: "c < ncores s" "pc c = Running"
    and t: "t = CURTHREAD c s" and n: "waiters s t = None"
    and x: "tcbs s t = Some x" "ttype x = NORMAL_THREAD"
    and to: "timeout \<noteq> NO_TIMEOUT \<Longrightarrow> bios_clock s + timeout \<noteq> NO_TIMEOUT"
  obtains p s' where "cv_wait_begin c cv timeout s = Inr (p, s')"
    and "cc_ok (pc(c := Sleeping cause)) (W(t \<mapsto> cv)) (R(cv := R cv @ [t])) s'" and "cv_frame s s'"
    and "\<forall>u. u \<noteq> t \<longrightarrow> tcbs s' u = tcbs s u" and "W t = None"
proof -
  obtain L hs where sched: "sched_inv pc s L hs" using cc_okD(1) [OF ok] by blast
  obtain p s' L' hs' where s': "cv_wait_begin c cv timeout s = Inr (p, s')"
    "sched_inv (pc(c := Sleeping cause)) s' L' hs'" "cv_inv (W(t \<mapsto> cv)) (R(cv := R cv @ [t])) s'"
    "cv_frame s s'" "\<forall>u. u \<noteq> t \<longrightarrow> tcbs s' u = tcbs s u"
    "waiters s' = (waiters s)(t \<mapsto> \<lparr>wthread = t, signalled = False, removed = False\<rparr>)"
    by (rule wait_begin_inv [OF sched cc_okD(2) [OF ok] c t n x to])
  have "sleepers_listed (R(cv := R cv @ [t])) s'"
    unfolding sleepers_listed_def
  proof (intro allI impI)
    fix w assume w: "waiters s' w \<noteq> None" "asleep s' w"
    show "\<exists>cv'. w \<in> set ((R(cv := R cv @ [t])) cv')"
    proof (cases "w = t")
      case True
      then show ?thesis by (intro exI [of _ cv]) simp
    next
      case False
      then have "waiters s w \<noteq> None" "asleep s w" using w s'(5,6) by (auto simp: asleep_def)
      with cc_okD(3) [OF ok] obtain cv' where "w \<in> set (R cv')" by (rule sleepers_listedD)
      then show ?thesis by (intro exI [of _ cv']) auto
    qed
  qed
  then have "cc_ok (pc(c := Sleeping cause)) (W(t \<mapsto> cv)) (R(cv := R cv @ [t])) s'"
    using s'(2,3) unfolding cc_ok_def by blast
  moreover have "W t = None" using cv_invD(3) [OF cc_okD(2) [OF ok], of t] n by simp
  ultimately show ?thesis using that [OF s'(1)] s'(4,5) by blast
qed

lemma wait_end_ok:
  assumes ok: "cc_ok pc W R s" and t: "t = CURTHREAD c s" and w: "W t = Some cv"
  obtains x s' where "waiters s t = Some x" and "cv_wait_end c cv s = Inr (signalled x, s')"
    and "cc_ok pc (W(t := None)) (R(cv := remove1 t (R cv))) s'" and "cv_frame s s'" and "tcbs s' = tcbs s"
    and "cctx s' = cctx s" and "waiters s' = (waiters s)(t := None)" and "system_clock s' = system_clock s"
proof -
  obtain L hs where sched: "sched_inv pc s L hs" using cc_okD(1) [OF ok] by blast
  obtain x s' where s': "waiters s t = Some x" "cv_wait_end c cv s = Inr (signalled x, s')"
    "sched_inv pc s' L hs" "cv_inv (W(t := None)) (R(cv := remove1 t (R cv))) s'" "cv_frame s s'"
    "tcbs s' = tcbs s" "cctx s' = cctx s" "waiters s' = (waiters s)(t := None)" "system_clock s' = system_clock s"
    by (rule wait_end_inv [OF sched cc_okD(2) [OF ok] t w])
  have "sleepers_listed (R(cv := remove1 t (R cv))) s'"
    unfolding sleepers_listed_def
  proof (intro allI impI)
    fix u assume u: "waiters s' u \<noteq> None" "asleep s' u"
    then have su: "u \<noteq> t" "waiters s u \<noteq> None" "asleep s u" using s'(6,8) by (auto simp: asleep_def split: if_splits)
    obtain cv' where "u \<in> set (R cv')" using cc_okD(3) [OF ok] su(2,3) by (rule sleepers_listedD)
    with su(1) show "\<exists>cv'. u \<in> set ((R(cv := remove1 t (R cv))) cv')" by (intro exI [of _ cv']) auto
  qed
  then have "cc_ok pc (W(t := None)) (R(cv := remove1 t (R cv))) s'" using s'(3,4) unfolding cc_ok_def by blast
  then show ?thesis using that [OF s'(1,2)] s' by blast
qed

section \<open>The steps\<close>

text \<open>
  A step of the scheduler may not put a thread that is inside \<open>cv_wait\<close> to sleep again or make
  it exit: \<open>cv_wait\<close> does neither after its sleep.  Only threads with a process of their own
  wait, and as for the scheduler a timeout may not reach the value that stands for none.
\<close>

definition cv_quiet :: "kernel \<Rightarrow> kernel \<Rightarrow> bool" where
  "cv_quiet s s' \<longleftrightarrow> (\<forall>w. waiters s w \<noteq> None \<longrightarrow>
     (\<exists>y. tcbs s' w = Some y \<and> tstate y \<noteq> EXITED) \<and> (asleep s' w \<longrightarrow> asleep s w))"

definition may_wait :: "nat \<Rightarrow> usec \<Rightarrow> kernel \<Rightarrow> bool" where
  "may_wait c timeout s \<longleftrightarrow> waiters s (CURTHREAD c s) = None \<and>
     (\<exists>x. tcbs s (CURTHREAD c s) = Some x \<and> ttype x = NORMAL_THREAD) \<and>
     (timeout = NO_TIMEOUT \<or> bios_clock s + timeout \<noteq> NO_TIMEOUT)"

inductive cc_step :: "cc_conf \<Rightarrow> cc_conf \<Rightarrow> bool" where
  cc_sched: "sched_step (pc, s) (pc', s') \<Longrightarrow> cv_quiet s s' \<Longrightarrow> cc_step (pc, W, H, s) (pc', W, H, s')"
| cc_wait: "awake c s \<Longrightarrow> pc c = Running \<Longrightarrow> may_wait c timeout s \<Longrightarrow> cv \<noteq> KernelSemCv \<Longrightarrow>
    cv_wait_begin c cv timeout s = Inr (p, s') \<Longrightarrow>
    cc_step (pc, W, H, s) (pc(c := Sleeping cause), W(CURTHREAD c s \<mapsto> cv), H, s')"
| cc_wait_end: "awake c s \<Longrightarrow> pc c = Running \<Longrightarrow> W (CURTHREAD c s) = Some cv \<Longrightarrow> cv \<noteq> KernelSemCv \<Longrightarrow>
    cv_wait_end c cv s = Inr (r, s') \<Longrightarrow> cc_step (pc, W, H, s) (pc, W(CURTHREAD c s := None), H, s')"
| cc_signal: "awake c s \<Longrightarrow> pc c = Running \<Longrightarrow> Cond_Signal c cv s = Inr s' \<Longrightarrow>
    cc_step (pc, W, H, s) (pc, W, H, s')"
| cc_broadcast: "awake c s \<Longrightarrow> pc c = Running \<Longrightarrow> Cond_Broadcast c cv s = Inr s' \<Longrightarrow>
    cc_step (pc, W, H, s) (pc, W, H, s')"
| cc_lock: "awake c s \<Longrightarrow> pc c = Running \<Longrightarrow> CURTHREAD c s \<notin> H \<Longrightarrow> waiters s (CURTHREAD c s) = None \<Longrightarrow>
    kernel_lock_step c s = Inr (True, s') \<Longrightarrow> cc_step (pc, W, H, s) (pc, W, insert (CURTHREAD c s) H, s')"
| cc_lock_wait: "awake c s \<Longrightarrow> pc c = Running \<Longrightarrow> CURTHREAD c s \<notin> H \<Longrightarrow> may_wait c NO_TIMEOUT s \<Longrightarrow>
    kernel_lock_step c s = Inr (False, s') \<Longrightarrow>
    cc_step (pc, W, H, s) (pc(c := Sleeping SCHED_USER), W(CURTHREAD c s \<mapsto> KernelSemCv), H, s')"
| cc_resume: "awake c s \<Longrightarrow> pc c = Running \<Longrightarrow> W (CURTHREAD c s) = Some KernelSemCv \<Longrightarrow>
    kernel_lock_resume c s = Inr (True, s') \<Longrightarrow>
    cc_step (pc, W, H, s) (pc, W(CURTHREAD c s := None), insert (CURTHREAD c s) H, s')"
| cc_resume_wait: "awake c s \<Longrightarrow> pc c = Running \<Longrightarrow> W (CURTHREAD c s) = Some KernelSemCv \<Longrightarrow>
    tcbs s (CURTHREAD c s) = Some x \<Longrightarrow> ttype x = NORMAL_THREAD \<Longrightarrow>
    kernel_lock_resume c s = Inr (False, s') \<Longrightarrow> cc_step (pc, W, H, s) (pc(c := Sleeping SCHED_USER), W, H, s')"
| cc_unlock: "awake c s \<Longrightarrow> pc c = Running \<Longrightarrow> CURTHREAD c s \<in> H \<Longrightarrow> kernel_unlock c s = Inr s' \<Longrightarrow>
    cc_step (pc, W, H, s) (pc, W, H - {CURTHREAD c s}, s')"
| cc_kernel_wait: "awake c s \<Longrightarrow> pc c = Running \<Longrightarrow> CURTHREAD c s \<in> H \<Longrightarrow> may_wait c timeout s \<Longrightarrow>
    cv \<noteq> KernelSemCv \<Longrightarrow> kernel_wait_begin c cv timeout s = Inr (p, s') \<Longrightarrow>
    cc_step (pc, W, H, s) (pc(c := Sleeping cause), W(CURTHREAD c s \<mapsto> cv), H - {CURTHREAD c s}, s')"

inductive cc_reachable :: "cc_conf \<Rightarrow> bool" where
  cc_start: "sched_reachable (pc, s) \<Longrightarrow> cc_reachable (pc, Map.empty, {}, s)"
| cc_next: "cc_reachable cf \<Longrightarrow> cc_step cf cf' \<Longrightarrow> cc_reachable cf'"

section \<open>The invariant is kept\<close>

text \<open>At the start nobody waits, and the steps of the scheduler do not change that.\<close>

definition cc_fresh :: "kernel \<Rightarrow> bool" where
  "cc_fresh s \<longleftrightarrow> condvars s = (\<lambda>_. None) \<and> waiters s = Map.empty \<and> kernel_sem s = 1"

lemma cc_fresh_init_levels: "init_levels is s = Inr s' \<Longrightarrow> cc_fresh s \<Longrightarrow> cc_fresh s'"
  by (induction "is" arbitrary: s) (auto simp: cc_fresh_def split: if_splits)

lemma cc_fresh_fold:
  "cc_fresh s \<Longrightarrow> cc_fresh (fold vm_boot_core cs s)" "cc_fresh s \<Longrightarrow> cc_fresh (fold bootfunc_init cs s)"
  "cc_fresh s \<Longrightarrow> cc_fresh (fold run_scheduler_init cs s)"
proof -
  have "cc_fresh (vm_boot_core c s)" "cc_fresh (bootfunc_init c s)" "cc_fresh (run_scheduler_init c s)"
    if "cc_fresh s" for c s
    using that by (simp_all add: cc_fresh_def vm_boot_core_def bootfunc_init_def run_scheduler_init_def
        set_core_def set_ccb_def set_tcb_def cpu_interrupt_handler_def preempt_on_def Let_def)
  then show "cc_fresh s \<Longrightarrow> cc_fresh (fold vm_boot_core cs s)" "cc_fresh s \<Longrightarrow> cc_fresh (fold bootfunc_init cs s)"
    "cc_fresh s \<Longrightarrow> cc_fresh (fold run_scheduler_init cs s)"
    by (induction cs arbitrary: s) simp_all
qed

lemma cc_fresh_boot:
  assumes "sched_boot n serialno clk (static_kernel h) = Inr s"
  shows "cc_fresh s"
proof -
  obtain s1 s2 where s1: "vm_boot n serialno clk (static_kernel h) = Inr s1"
    and s2: "init_levels [0..SCHED_MAX_LEVEL - 1] (fold bootfunc_init [0..<n] s1) = Inr s2"
    and s: "s = fold run_scheduler_init [0..<n] (s2\<lparr>rl := rlnode_init TimeoutList ONull (rl s2)\<rparr>)"
    using assms by (auto simp: sched_boot_def rbind_eq_Inr)
  have "cc_fresh ((static_kernel h)\<lparr>system_clock := clk, rl := rlnode_init HaltedList ONull (rl (static_kernel h)), ncores := n\<rparr>)"
    by (simp add: cc_fresh_def static_kernel_def)
  then have "cc_fresh s1" using s1 by (auto simp: vm_boot_def cc_fresh_fold(1) split: if_splits)
  then have "cc_fresh s2" by (intro cc_fresh_init_levels [OF s2] cc_fresh_fold(2))
  then show ?thesis unfolding s by (intro cc_fresh_fold(3)) (simp add: cc_fresh_def)
qed

lemma cc_fresh_reachable:
  assumes "sched_reachable (pc, s)" shows "cc_fresh s"
proof -
  have "sched_reachable cf \<Longrightarrow> cc_fresh (snd cf)" for cf
  proof (induction rule: sched_reachable.induct)
    case (boot n serialno clk h s)
    then show ?case by (simp add: cc_fresh_boot)
  next
    case (step cf cf')
    obtain pc s pc' s' where e: "cf = (pc, s)" "cf' = (pc', s')" by fastforce
    obtain L hs where "sched_inv pc s L hs" using step.hyps(1) unfolding e by (rule reachable_inv)
    from sched_step_frame [OF step.hyps(2) [unfolded e] this] step.IH
    show ?case by (simp add: e cc_fresh_def other_frame_def)
  qed
  from this [OF assms] show ?thesis by simp
qed

lemma cc_start_inv:
  assumes "sched_reachable (pc, s)"
  shows "cc_inv (pc, Map.empty, {}, s)"
proof -
  have assms: "sched_reachable (pc, s)" "condvars s = (\<lambda>_. None)" "waiters s = Map.empty" "kernel_sem s = 1"
    using assms cc_fresh_reachable [OF assms] by (simp_all add: cc_fresh_def)
  obtain L hs where "sched_inv pc s L hs" by (rule reachable_inv [OF assms(1)])
  moreover have "cv_inv Map.empty (\<lambda>_. []) s"
    using assms by (simp add: cv_inv_def waitset_head_def cv_ring_def)
  ultimately have "cc_ok pc Map.empty (\<lambda>_. []) s" using assms(3) by (auto simp: cc_ok_def sleepers_listed_def)
  then show ?thesis using assms(4) by (auto simp: cc_inv_def sem_progress_def lock_inv_def)
qed

lemma sched_ok:
  assumes ok: "cc_ok pc W R s" and st: "sched_step (pc, s) (pc', s')" and q: "cv_quiet s s'"
  shows "cc_ok pc' W R s'" and "kernel_sem s' = kernel_sem s"
    and "\<And>w. W w \<noteq> None \<Longrightarrow> asleep s' w \<Longrightarrow> asleep s w"
proof -
  obtain L hs where sched: "sched_inv pc s L hs" using cc_okD(1) [OF ok] by blast
  then have "sched_safe (pc, s)" by (auto simp: sched_safe_def)
  from step_safe [OF st this] obtain L' hs' where sched': "sched_inv pc' s' L' hs'" by (auto simp: sched_safe_def)
  have fr: "other_frame s s'" using sched_step_frame [OF st sched] by simp
  then have f: "condvars s' = condvars s" "waiters s' = waiters s" "kernel_sem s' = kernel_sem s"
    by (simp_all add: other_frame_def)
  have "cv_inv W R s'"
    by (rule cv_inv_frame [OF cc_okD(2) [OF ok] other_frame_cv [OF fr] f(1,2)])
      (use q f(2) in \<open>simp add: cv_quiet_def waiting_alive_def\<close>)
  moreover have sl: "asleep s w" if "waiters s w \<noteq> None" "asleep s' w" for w
    using q that by (simp add: cv_quiet_def)
  then have "sleepers_listed R s'" using cc_okD(3) [OF ok] f(2) by (simp add: sleepers_listed_def)
  ultimately show "cc_ok pc' W R s'" using sched' by (auto simp: cc_ok_def)
  show "kernel_sem s' = kernel_sem s" by (rule f(3))
  show "asleep s w" if "W w \<noteq> None" "asleep s' w" for w
    using sl that cv_invD(3) [OF cc_okD(2) [OF ok], of w] by simp
qed

lemma frame_sem: "cv_frame s s' \<Longrightarrow> kernel_sem s' = kernel_sem s"
  by (simp add: cv_frame_def)

lemma frame_core:
  assumes "cv_frame s s'"
  shows "ncores s' = ncores s" and "CURTHREAD c s' = CURTHREAD c s"
  using assms by (simp_all add: cv_frame_def CURTHREAD_def)

text \<open>The clock does not move during the operations.\<close>

lemma lock_step_take:
  assumes "kernel_lock_step c s = Inr (True, s')"
  shows "0 < kernel_sem s" and "s' = s\<lparr>kernel_sem := kernel_sem s - 1\<rparr>"
  using assms by (auto simp: kernel_lock_step_def rbind_eq_Inr split: if_splits)

lemma lock_step_wait:
  assumes "kernel_lock_step c s = Inr (False, s')"
  obtains p where "kernel_sem s \<le> 0" and "cv_wait_begin c KernelSemCv NO_TIMEOUT s = Inr (p, s')"
  using assms by (auto simp: kernel_lock_step_def Cond_Wait_begin_def rbind_eq_Inr split: if_splits)

lemma lock_inv_take:
  assumes l: "lock_inv W H s" and "0 < kernel_sem s" and t: "t \<notin> H"
    and W: "W' t \<noteq> Some KernelSemCv" "\<forall>u. u \<noteq> t \<longrightarrow> W' u = W u"
  shows "lock_inv W' (insert t H) (s\<lparr>kernel_sem := kernel_sem s - 1\<rparr>)"
  using assms by (auto simp: lock_inv_def)

lemma sem_progress_none: "kernel_sem s \<le> 0 \<Longrightarrow> sem_progress W s"
  by (simp add: sem_progress_def)

lemma lock_le_1: "lock_inv W H s \<Longrightarrow> kernel_sem s \<le> 1"
  by (simp add: lock_inv_def)

lemma lock_inv_drop:
  assumes l: "lock_inv W H s" and t: "t \<in> H" and k: "kernel_sem s' = kernel_sem s + 1"
    and W: "\<forall>u. u \<noteq> t \<longrightarrow> W' u = W u"
  shows "lock_inv W' (H - {t}) s'"
proof -
  have f: "finite H" using l by (simp add: lock_inv_def)
  have "card H = Suc (card (H - {t}))" by (rule card.remove [OF f t])
  then show ?thesis using l k W by (auto simp: lock_inv_def)
qed

end
