(* ===== verification/Cond_Safe.thy ===== *)
theory Cond_Safe
  imports Cond_Reach "HOL-Library.Sublist"
begin

text \<open>
  Every step of the condition variables and of the kernel lock keeps the invariant; and the history
  of a run, which says since when every thread waits and if a signal woke it.
\<close>

lemma may_waitD:
  assumes "may_wait c timeout s"
  obtains x where "waiters s (CURTHREAD c s) = None" and "tcbs s (CURTHREAD c s) = Some x"
    and "ttype x = NORMAL_THREAD" and "timeout \<noteq> NO_TIMEOUT \<longrightarrow> bios_clock s + timeout \<noteq> NO_TIMEOUT"
  using assms by (auto simp: may_wait_def)

lemma wait_step_inv:
  assumes ok: "cc_ok pc W R s" and c: "c < ncores s" "pc c = Running" and m: "may_wait c timeout s"
    and b: "cv_wait_begin c cv timeout s = Inr (p, s')"
  shows "\<exists>R'. cc_ok (pc(c := Sleeping cause)) (W(CURTHREAD c s \<mapsto> cv)) R' s'" and "cv_frame s s'"
    and "W (CURTHREAD c s) = None" and "\<forall>u. u \<noteq> CURTHREAD c s \<longrightarrow> tcbs s' u = tcbs s u"
proof -
  obtain x where x: "waiters s (CURTHREAD c s) = None" "tcbs s (CURTHREAD c s) = Some x"
    "ttype x = NORMAL_THREAD" "timeout \<noteq> NO_TIMEOUT \<longrightarrow> bios_clock s + timeout \<noteq> NO_TIMEOUT"
    by (rule may_waitD [OF m])
  obtain p' s'' where s'': "cv_wait_begin c cv timeout s = Inr (p', s'')"
    "cc_ok (pc(c := Sleeping cause)) (W(CURTHREAD c s \<mapsto> cv)) (R(cv := R cv @ [CURTHREAD c s])) s''"
    "cv_frame s s''" "\<forall>u. u \<noteq> CURTHREAD c s \<longrightarrow> tcbs s'' u = tcbs s u" "W (CURTHREAD c s) = None"
    by (rule wait_begin_ok [OF ok c refl x(1-3)]) (use x(4) in auto)
  with b have e: "s'' = s'" by simp
  show "\<exists>R'. cc_ok (pc(c := Sleeping cause)) (W(CURTHREAD c s \<mapsto> cv)) R' s'" using s''(2) unfolding e by blast
  show "cv_frame s s'" "W (CURTHREAD c s) = None" "\<forall>u. u \<noteq> CURTHREAD c s \<longrightarrow> tcbs s' u = tcbs s u"
    using s''(3-5) unfolding e by blast+
qed

text \<open>A new waiter on another variable does not disturb the waiters for the kernel.\<close>

lemma sem_progress_wait:
  assumes p: "sem_progress W s" and t: "W t = None" and cv: "cv \<noteq> KernelSemCv"
    and k: "kernel_sem s' = kernel_sem s" and tc: "\<forall>u. u \<noteq> t \<longrightarrow> tcbs s' u = tcbs s u"
  shows "sem_progress (W(t \<mapsto> cv)) s'"
proof -
  have e: "(W(t \<mapsto> cv)) u = Some KernelSemCv \<longleftrightarrow> u \<noteq> t \<and> W u = Some KernelSemCv" for u using cv by simp
  have a: "u \<noteq> t \<Longrightarrow> asleep s' u = asleep s u" for u using tc by (simp add: asleep_def)
  have "W u = Some KernelSemCv \<Longrightarrow> u \<noteq> t" for u using t by auto
  with p k a show ?thesis unfolding sem_progress_def e by metis
qed

lemma lock_inv_wait:
  assumes "lock_inv W H s" and "kernel_sem s' = kernel_sem s" and "cv = KernelSemCv \<Longrightarrow> t \<notin> H"
  shows "lock_inv (W(t \<mapsto> cv)) H s'"
  using assms by (auto simp: lock_inv_def)

lemma cc_wait_case:
  assumes inv: "cc_inv (pc, W, H, s)" and c: "c < ncores s" "pc c = Running" and m: "may_wait c timeout s"
    and b: "cv_wait_begin c cv timeout s = Inr (p, s')"
    and cv: "cv \<noteq> KernelSemCv \<or> kernel_sem s \<le> 0 \<and> CURTHREAD c s \<notin> H"
  shows "cc_inv (pc(c := Sleeping cause), W(CURTHREAD c s \<mapsto> cv), H, s')"
proof -
  obtain R where ok: "cc_ok pc W R s" and p: "sem_progress W s" and l: "lock_inv W H s"
    using inv by (auto simp: cc_inv_def)
  note w = wait_step_inv [OF ok c m b]
  have k: "kernel_sem s' = kernel_sem s" using frame_sem [OF w(2)] .
  have "sem_progress (W(CURTHREAD c s \<mapsto> cv)) s'"
  proof (cases "cv = KernelSemCv")
    case True
    with cv k show ?thesis by (intro sem_progress_none) simp
  next
    case False
    from sem_progress_wait [OF p w(3) False k w(4)] show ?thesis .
  qed
  moreover have "lock_inv (W(CURTHREAD c s \<mapsto> cv)) H s'" using lock_inv_wait [OF l k] cv by auto
  ultimately show ?thesis using w(1) [of cause] by (simp add: cc_inv_def)
qed

lemma cc_wait_end_case:
  assumes inv: "cc_inv (pc, W, H, s)" and w: "W (CURTHREAD c s) = Some cv"
    and e: "cv_wait_end c cv s = Inr (r, s')"
  shows "\<exists>R'. cc_ok pc (W(CURTHREAD c s := None)) R' s'" and "cv_frame s s'" and "tcbs s' = tcbs s"
    and "cctx s' = cctx s" and "waiters s' = (waiters s)(CURTHREAD c s := None)"
    and "system_clock s' = system_clock s"
    and "cv \<noteq> KernelSemCv \<Longrightarrow> cc_inv (pc, W(CURTHREAD c s := None), H, s')"
proof -
  obtain R where ok: "cc_ok pc W R s" and p: "sem_progress W s" and l: "lock_inv W H s"
    using inv by (auto simp: cc_inv_def)
  obtain x s'' where "waiters s (CURTHREAD c s) = Some x" and s'': "cv_wait_end c cv s = Inr (signalled x, s'')"
    "cc_ok pc (W(CURTHREAD c s := None)) (R(cv := remove1 (CURTHREAD c s) (R cv))) s''" "cv_frame s s''"
    "tcbs s'' = tcbs s" "cctx s'' = cctx s" "waiters s'' = (waiters s)(CURTHREAD c s := None)"
    "system_clock s'' = system_clock s"
    by (rule wait_end_ok [OF ok refl w])
  have eq: "s'' = s'" using s''(1) e by simp
  show ok': "\<exists>R'. cc_ok pc (W(CURTHREAD c s := None)) R' s'" using s''(2) unfolding eq by blast
  show "cv_frame s s'" "tcbs s' = tcbs s" "cctx s' = cctx s"
    "waiters s' = (waiters s)(CURTHREAD c s := None)" "system_clock s' = system_clock s"
    using s''(3-7) unfolding eq by blast+
  show "cc_inv (pc, W(CURTHREAD c s := None), H, s')" if cv: "cv \<noteq> KernelSemCv"
  proof -
    have k: "kernel_sem s' = kernel_sem s" using frame_sem s''(3) eq by blast
    have a: "asleep s' u = asleep s u" for u using s''(4) eq by (simp add: asleep_def)
    have W: "(W(CURTHREAD c s := None)) u = Some KernelSemCv \<longleftrightarrow> W u = Some KernelSemCv" for u
      using w cv by auto
    have "sem_progress (W(CURTHREAD c s := None)) s'" using p unfolding sem_progress_def W k a .
    moreover have "lock_inv (W(CURTHREAD c s := None)) H s'" using l k by (auto simp: lock_inv_def)
    ultimately show ?thesis using ok' by (simp add: cc_inv_def)
  qed
qed

lemma cc_unlock_case:
  assumes inv: "cc_inv (pc, W, H, s)" and t: "CURTHREAD c s \<in> H" and u: "kernel_unlock c s = Inr s'"
  shows "cc_inv (pc, W, H - {CURTHREAD c s}, s')"
proof -
  obtain R where ok: "cc_ok pc W R s" and l: "lock_inv W H s" using inv by (auto simp: cc_inv_def)
  obtain s'' R' where s'': "kernel_unlock c s = Inr s''" "cc_ok pc W R' s''" "sem_progress W s''"
    "kernel_sem s'' = kernel_sem s + 1" by (rule unlock_ok [OF ok])
  with u have "cc_ok pc W R' s'" "sem_progress W s'" "kernel_sem s' = kernel_sem s + 1" by simp_all
  with lock_inv_drop [OF l t, of s' W] show ?thesis by (auto simp: cc_inv_def)
qed

text \<open>After the unlocking half of \<open>kernel_wait\<close> the thread still runs and may wait.\<close>

lemma unlock_may_wait:
  assumes ok: "cc_ok pc W R s" and c: "c < ncores s" "pc c = Running" and m: "may_wait c timeout s"
    and u: "kernel_unlock c s = Inr s1"
  shows "may_wait c timeout s1" and "CURTHREAD c s1 = CURTHREAD c s" and "ncores s1 = ncores s"
proof -
  obtain L hs where sched: "sched_inv pc s L hs" using cc_okD(1) [OF ok] by blast
  obtain x where x: "tcbs s (CURTHREAD c s) = Some x" "tstate x = RUNNING" by (rule current_running [OF sched c])
  then have na: "\<not> asleep s (CURTHREAD c s)" by (simp add: asleep_def)
  obtain s'' R' where s'': "kernel_unlock c s = Inr s''"
    "cv_frame (s\<lparr>kernel_sem := kernel_sem s + 1\<rparr>) s''" "\<forall>w. \<not> asleep s w \<longrightarrow> tcbs s'' w = tcbs s w"
    "\<forall>w. waiters s'' w = None \<longleftrightarrow> waiters s w = None" by (rule unlock_ok [OF ok])
  then have e: "s'' = s1" using u by simp
  have clk: "system_clock s1 = system_clock s" using s''(2) e by (simp add: cv_frame_def)
  note f = frame_core [OF s''(2) [unfolded e]]
  show cur: "CURTHREAD c s1 = CURTHREAD c s" "ncores s1 = ncores s" using f by (simp_all add: CURTHREAD_def)
  show "may_wait c timeout s1"
    using m s''(3,4) na unfolding may_wait_def cur e by (simp add: bios_clock_def clk)
qed

lemma cc_kernel_wait_case:
  assumes inv: "cc_inv (pc, W, H, s)" and c: "c < ncores s" "pc c = Running" and t: "CURTHREAD c s \<in> H"
    and m: "may_wait c timeout s" and cv: "cv \<noteq> KernelSemCv"
    and b: "kernel_wait_begin c cv timeout s = Inr (p, s')"
  shows "cc_inv (pc(c := Sleeping cause), W(CURTHREAD c s \<mapsto> cv), H - {CURTHREAD c s}, s')"
proof -
  obtain R where ok: "cc_ok pc W R s" using inv by (auto simp: cc_inv_def)
  obtain s1 where u: "kernel_unlock c s = Inr s1" and b1: "cv_wait_begin c cv timeout s1 = Inr (p, s')"
    using b by (auto simp: kernel_wait_begin_def rbind_eq_Inr)
  note w = unlock_may_wait [OF ok c m u]
  have "cc_inv (pc(c := Sleeping cause), W(CURTHREAD c s1 \<mapsto> cv), H - {CURTHREAD c s}, s')"
    by (rule cc_wait_case [OF cc_unlock_case [OF inv t u] _ c(2) w(1) b1]) (use c(1) w(3) cv in simp_all)
  then show ?thesis unfolding w(2) .
qed

lemma cc_take_case:
  assumes ok: "cc_ok pc W R s" and l: "lock_inv W H s" and t: "t \<notin> H" "W t \<noteq> Some KernelSemCv"
    and b: "kernel_lock_step c s = Inr (True, s')"
  shows "cc_inv (pc, W, insert t H, s')"
proof -
  note k = lock_step_take [OF b]
  have "kernel_sem s' = 0" using k lock_le_1 [OF l] by simp
  then have "sem_progress W s'" by (intro sem_progress_none) simp
  moreover have "lock_inv W (insert t H) s'" unfolding k(2) by (rule lock_inv_take [OF l k(1)]) (use t in simp_all)
  moreover have "cc_ok pc W R s'" unfolding k(2) by (rule cc_ok_sem [OF ok])
  ultimately show ?thesis by (auto simp: cc_inv_def)
qed

lemma cc_resume_case:
  assumes inv: "cc_inv (pc, W, H, s)" and c: "c < ncores s" "pc c = Running"
    and w: "W (CURTHREAD c s) = Some KernelSemCv" and b: "kernel_lock_resume c s = Inr (r, s')"
    and x: "tcbs s (CURTHREAD c s) = Some x" "ttype x = NORMAL_THREAD \<or> r"
  shows "if r then cc_inv (pc, W(CURTHREAD c s := None), insert (CURTHREAD c s) H, s')
    else cc_inv (pc(c := Sleeping SCHED_USER), W, H, s')"
proof -
  let ?t = "CURTHREAD c s"
  obtain q s1 where e: "cv_wait_end c KernelSemCv s = Inr (q, s1)" and b1: "kernel_lock_step c s1 = Inr (r, s')"
    using b by (auto simp: kernel_lock_resume_def rbind_eq_Inr)
  note d = cc_wait_end_case [OF inv w e]
  obtain R1 where ok1: "cc_ok pc (W(?t := None)) R1 s1" using d(1) by blast
  have l: "lock_inv W H s" using inv by (simp add: cc_inv_def)
  have tH: "?t \<notin> H" using l w by (auto simp: lock_inv_def)
  have k: "kernel_sem s1 = kernel_sem s" using frame_sem [OF d(2)] .
  have l1: "lock_inv (W(?t := None)) H s1" using l k by (auto simp: lock_inv_def)
  note f = frame_core [OF d(2)]
  show ?thesis
  proof (cases r)
    case True
    then have b1': "kernel_lock_step c s1 = Inr (True, s')" using b1 by simp
    with True cc_take_case [OF ok1 l1 tH _ b1'] show ?thesis by simp
  next
    case False
    with b1 obtain p where p: "kernel_sem s1 \<le> 0" "cv_wait_begin c KernelSemCv NO_TIMEOUT s1 = Inr (p, s')"
      by (auto elim: lock_step_wait)
    have m: "may_wait c NO_TIMEOUT s1"
      using x False d(3,5) by (simp add: may_wait_def f)
    have inv1: "cc_inv (pc, W(?t := None), H, s1)"
      using ok1 l1 sem_progress_none [OF p(1)] by (auto simp: cc_inv_def)
    have "cc_inv (pc(c := Sleeping SCHED_USER), (W(?t := None))(CURTHREAD c s1 \<mapsto> KernelSemCv), H, s')"
      by (rule cc_wait_case [OF inv1 _ c(2) m p(2)]) (use c(1) f p(1) tH in simp_all)
    moreover have "(W(?t := None))(?t \<mapsto> KernelSemCv) = W" using w by (auto simp: fun_eq_iff)
    ultimately show ?thesis using False f by simp
  qed
qed

lemma cc_step_inv: "cc_step cf cf' \<Longrightarrow> cc_inv cf \<Longrightarrow> cc_inv cf'"
proof (induction rule: cc_step.induct)
  case (cc_sched pc s pc' s' W H)
  then obtain R where ok: "cc_ok pc W R s" and p: "sem_progress W s" and l: "lock_inv W H s"
    by (auto simp: cc_inv_def)
  note k = sched_ok [OF ok cc_sched.hyps]
  have "sem_progress W s'" by (rule sem_progress_mono [OF p k(2)]) (use k(3) in blast)
  with k(1) lock_inv_cong [OF l k(2)] show ?case by (auto simp: cc_inv_def)
next
  case (cc_wait c s pc timeout cv p s' W H cause)
  then show ?case by (intro cc_wait_case) (auto simp: awake_def)
next
  case (cc_wait_end c s pc W cv r s' H)
  then show ?case using cc_wait_end_case(7) by blast
next
  case (cc_signal c s pc cv s' W H)
  then obtain R where ok: "cc_ok pc W R s" and p: "sem_progress W s" and l: "lock_inv W H s"
    by (auto simp: cc_inv_def)
  obtain s'' where s'': "Cond_Signal c cv s = Inr s''" "cc_ok pc W (R(cv := tl (wake_rest s (R cv)))) s''"
    "cv_frame s s''" "\<forall>w. asleep s'' w \<longrightarrow> asleep s w" by (rule signal_ok [OF ok])
  then have e: "s'' = s'" using cc_signal.hyps(3) by simp
  note k = frame_sem [OF s''(3)]
  have "sem_progress W s''" by (rule sem_progress_mono [OF p k]) (use s''(4) in blast)
  with s''(2) lock_inv_cong [OF l k] show ?case unfolding e by (auto simp: cc_inv_def)
next
  case (cc_broadcast c s pc cv s' W H)
  then obtain R where ok: "cc_ok pc W R s" and p: "sem_progress W s" and l: "lock_inv W H s"
    by (auto simp: cc_inv_def)
  obtain s'' where s'': "Cond_Broadcast c cv s = Inr s''" "cc_ok pc W (R(cv := [])) s''" "cv_frame s s''"
    "\<forall>w. asleep s'' w \<longleftrightarrow> asleep s w \<and> w \<notin> set (R cv)" by (rule broadcast_ok [OF ok])
  then have e: "s'' = s'" using cc_broadcast.hyps(3) by simp
  note k = frame_sem [OF s''(3)]
  have "sem_progress W s''" by (rule sem_progress_mono [OF p k]) (use s''(4) in blast)
  with s''(2) lock_inv_cong [OF l k] show ?case unfolding e by (auto simp: cc_inv_def)
next
  case (cc_lock c s pc H s' W)
  then obtain R where ok: "cc_ok pc W R s" and l: "lock_inv W H s" by (auto simp: cc_inv_def)
  have "W (CURTHREAD c s) = None"
    using cv_invD(3) [OF cc_okD(2) [OF ok], of "CURTHREAD c s"] cc_lock.hyps(4) by simp
  then show ?case by (intro cc_take_case [OF ok l cc_lock.hyps(3) _ cc_lock.hyps(5)]) simp
next
  case (cc_lock_wait c s pc H s' W)
  from cc_lock_wait.hyps(5) obtain p where p: "kernel_sem s \<le> 0"
    "cv_wait_begin c KernelSemCv NO_TIMEOUT s = Inr (p, s')" by (rule lock_step_wait)
  show ?case
    by (rule cc_wait_case [OF cc_lock_wait.prems _ cc_lock_wait.hyps(2,4) p(2)])
      (use cc_lock_wait.hyps(1,3) p(1) in \<open>simp_all add: awake_def\<close>)
next
  case (cc_resume c s pc W s' H)
  have c: "c < ncores s" using cc_resume.hyps(1) by (simp add: awake_def)
  obtain R L hs where i: "sched_inv pc s L hs" using cc_resume.prems by (auto simp: cc_inv_def cc_ok_def)
  obtain x where "tcbs s (CURTHREAD c s) = Some x" by (rule current_running [OF i c cc_resume.hyps(2)])
  from cc_resume_case [OF cc_resume.prems c cc_resume.hyps(2-4) this] show ?case by simp
next
  case (cc_resume_wait c s pc W x s' H)
  have c: "c < ncores s" using cc_resume_wait.hyps(1) by (simp add: awake_def)
  from cc_resume_case [OF cc_resume_wait.prems c cc_resume_wait.hyps(2,3,6,4)] cc_resume_wait.hyps(5)
  show ?case by simp
next
  case (cc_unlock c s pc H s' W)
  then show ?case using cc_unlock_case by blast
next
  case (cc_kernel_wait c s pc H timeout cv p s' W cause)
  then show ?case by (intro cc_kernel_wait_case) (auto simp: awake_def)
qed

lemma cc_reachable_inv: "cc_reachable cf \<Longrightarrow> cc_inv cf"
  by (induction rule: cc_reachable.induct) (auto intro: cc_start_inv cc_step_inv)


section \<open>The history of the waits\<close>

text \<open>
  A thread begins a wait in the step in which its core goes from executing it into
  \<open>sleep_releasing\<close> and in which it is inside \<open>cv_wait\<close> afterwards.
\<close>

definition begins_wait :: "cc_conf \<Rightarrow> cc_conf \<Rightarrow> tref \<Rightarrow> bool" where
  "begins_wait cf cf' t \<longleftrightarrow> (case (cf, cf') of ((pc, W, H, s), (pc', W', H', s')) \<Rightarrow>
     W' t \<noteq> None \<and> (\<exists>c cause. t = CURTHREAD c s \<and> pc c = Running \<and> pc' c = Sleeping cause))"

text \<open>The steps in which a thread calls \<open>Cond_Signal\<close> or \<open>Cond_Broadcast\<close>.\<close>

inductive signal_step :: "cc_conf \<Rightarrow> cc_conf \<Rightarrow> bool" where
  sg_signal: "Cond_Signal c cv s = Inr s' \<Longrightarrow> signal_step (pc, W, H, s) (pc, W, H, s')"
| sg_broadcast: "Cond_Broadcast c cv s = Inr s' \<Longrightarrow> signal_step (pc, W, H, s) (pc, W, H, s')"
| sg_unlock: "kernel_unlock c s = Inr s' \<Longrightarrow> signal_step (pc, W, H, s) (pc, W, H - {CURTHREAD c s}, s')"
| sg_kernel_wait: "awake c s \<Longrightarrow> pc c = Running \<Longrightarrow> may_wait c timeout s \<Longrightarrow>
    kernel_wait_begin c cv timeout s = Inr (p, s') \<Longrightarrow>
    signal_step (pc, W, H, s) (pc(c := Sleeping cause), W(CURTHREAD c s \<mapsto> cv), H - {CURTHREAD c s}, s')"

definition wakes_in :: "cc_conf \<Rightarrow> cc_conf \<Rightarrow> tref \<Rightarrow> bool" where
  "wakes_in cf cf' t \<longleftrightarrow> signal_step cf cf' \<and> (case (cf, cf') of ((pc, W, H, s), (pc', W', H', s')) \<Rightarrow>
     asleep s t \<and> \<not> asleep s' t)"

text \<open>
  A run with its history: the number of steps so far, the step in which every thread began the
  wait it is in, and the threads that a signal or broadcast has woken from that wait.
\<close>

inductive cc_history :: "nat \<Rightarrow> (tref \<Rightarrow> nat) \<Rightarrow> (tref \<Rightarrow> bool) \<Rightarrow> cc_conf \<Rightarrow> bool" where
  history_start: "sched_reachable (pc, s) \<Longrightarrow> cc_history 0 (\<lambda>_. 0) (\<lambda>_. False) (pc, Map.empty, {}, s)"
| history_next: "cc_history n since woken cf \<Longrightarrow> cc_step cf cf' \<Longrightarrow>
    cc_history (Suc n) (\<lambda>t. if begins_wait cf cf' t then n else since t)
      (\<lambda>t. \<not> begins_wait cf cf' t \<and> (woken t \<or> wakes_in cf cf' t)) cf'"

lemma history_reachable: "cc_history n since woken cf \<Longrightarrow> cc_reachable cf"
  by (induction rule: cc_history.induct) (auto intro: cc_start cc_next)

lemma reachable_history: "cc_reachable cf \<Longrightarrow> \<exists>n since woken. cc_history n since woken cf"
proof (induction rule: cc_reachable.induct)
  case (cc_start pc s)
  from history_start [OF cc_start] show ?case by blast
next
  case (cc_next cf cf')
  then obtain n since woken where "cc_history n since woken cf" by blast
  from history_next [OF this cc_next.hyps(2)] show ?case by blast
qed

text \<open>
  What a step does to the wait sets: some waiters leave, the others keep their order, and a waiter
  whose wait begins in the step comes after them.
\<close>

definition queues_move :: "tref set \<Rightarrow> (cvref \<Rightarrow> tref list) \<Rightarrow> (cvref \<Rightarrow> tref list) \<Rightarrow> bool" where
  "queues_move B R R' \<longleftrightarrow> (\<forall>cv. \<exists>old new. R' cv = old @ new \<and> subseq old (R cv) \<and> set old \<inter> B = {} \<and>
     set new \<subseteq> B \<and> length new \<le> 1)"

lemma queues_move_refl: "queues_move {} R R"
  unfolding queues_move_def by (auto intro: exI [of _ "[]"])

lemma queues_move_leave:
  assumes "subseq ws (R cv)" shows "queues_move {} R (R(cv := ws))"
  unfolding queues_move_def using assms by (auto intro: exI [of _ "[]"])

lemma queues_move_begin:
  assumes m: "queues_move {} R R1" and t: "\<And>cv. t \<notin> set (R1 cv)"
  shows "queues_move {t} R (R1(cv := R1 cv @ [t]))"
  unfolding queues_move_def
proof
  fix cv'
  obtain old new where o: "R1 cv' = old @ new" "subseq old (R cv')" "set new \<subseteq> {}"
    using m unfolding queues_move_def by blast
  have "set old \<inter> {t} = {}" using o t [of cv'] by auto
  with o show "\<exists>old new. (R1(cv := R1 cv @ [t])) cv' = old @ new \<and> subseq old (R cv') \<and> set old \<inter> {t} = {} \<and>
      set new \<subseteq> {t} \<and> length new \<le> 1"
    by (intro exI [of _ old] exI [of _ "if cv' = cv then [t] else []"]) auto
qed

lemma remove1_subseq: "subseq (remove1 x xs) xs"
  by (induction xs) auto

lemma subseq_sorted_wrt: "subseq xs ys \<Longrightarrow> sorted_wrt P ys \<Longrightarrow> sorted_wrt P xs"
  by (induction rule: list_emb.induct) (auto dest: list_emb_set)

lemma queues_move_sorted:
  assumes m: "queues_move {t. B t} R R'" and s: "sorted_wrt (\<lambda>t u. since t < since u) (R cv)"
    and n: "\<forall>t \<in> set (R cv). since t < n"
  shows "sorted_wrt (\<lambda>t u. (if B t then n else since t) < (if B u then n else since u)) (R' cv) \<and>
    (\<forall>t \<in> set (R' cv). (if B t then n else since t) < Suc n)"
proof -
  obtain old new where o: "R' cv = old @ new" "subseq old (R cv)" "set old \<inter> {t. B t} = {}"
    "set new \<subseteq> {t. B t}" "length new \<le> 1" using m unfolding queues_move_def by blast
  have so: "set old \<subseteq> set (R cv)" using o(2) by (auto dest: list_emb_set)
  have b: "\<not> B t" if "t \<in> set old" for t using that o(3) by blast
  have "sorted_wrt (\<lambda>t u. since t < since u) old" by (rule subseq_sorted_wrt [OF o(2) s])
  then have "sorted_wrt (\<lambda>t u. (if B t then n else since t) < (if B u then n else since u)) old"
    by (rule sorted_wrt_mono_rel [rotated]) (simp add: b)
  moreover have "sorted_wrt Q new" for Q using o(5) by (cases new) auto
  ultimately show ?thesis using o(4) b n so by (auto simp: o(1) sorted_wrt_append less_Suc_eq)
qed

section \<open>The steps and the history\<close>

text \<open>Signals mark exactly the threads that they wake.\<close>

definition flags_move :: "kernel \<Rightarrow> kernel \<Rightarrow> (tref \<Rightarrow> bool) \<Rightarrow> tref \<Rightarrow> bool" where
  "flags_move s s' P t \<longleftrightarrow> (\<forall>x. waiters s t = Some x \<longrightarrow> waiters s' t \<noteq> None \<longrightarrow>
     (\<exists>y. waiters s' t = Some y \<and> (signalled y \<longleftrightarrow> signalled x \<or> P t)))"

lemma flags_same: "waiters s' t = waiters s t \<Longrightarrow> \<not> P t \<Longrightarrow> flags_move s s' P t"
  by (auto simp: flags_move_def)

lemma signal_moves:
  assumes ok: "cc_ok pc W R s" and g: "Cond_Signal c cv s = Inr s'"
  shows "\<exists>R'. cc_ok pc W R' s' \<and> queues_move {} R R'"
    and "flags_move s s' (\<lambda>t. asleep s t \<and> \<not> asleep s' t) t" and "waiters s' t = None \<longleftrightarrow> waiters s t = None"
proof -
  let ?ws = "wake_rest s (R cv)"
  obtain s'' where s'': "Cond_Signal c cv s = Inr s''" "cc_ok pc W (R(cv := tl ?ws)) s''"
    "tcbs s'' = woken_tcbs ?ws s" "signals_to s s'' (\<lambda>t. ?ws \<noteq> [] \<and> t = hd ?ws)" by (rule signal_ok [OF ok])
  then have e: "s'' = s'" using g by simp
  have "subseq (tl ?ws) (R cv)"
    unfolding wake_rest_def by (meson subseq_order.order_trans suffix_imp_subseq suffix_dropWhile suffix_tl)
  then show "\<exists>R'. cc_ok pc W R' s' \<and> queues_move {} R R'" using s''(2) queues_move_leave unfolding e by blast
  have h: "asleep s (hd ?ws)" if "?ws \<noteq> []" using that hd_dropWhile unfolding wake_rest_def by force
  have "?ws \<noteq> [] \<and> t = hd ?ws \<longleftrightarrow> asleep s t \<and> \<not> asleep s' t"
    using asleep_woken [OF s''(3), of t] h unfolding e by blast
  then show "flags_move s s' (\<lambda>t. asleep s t \<and> \<not> asleep s' t) t"
    using signals_toD(2) [OF s''(4), of t] unfolding flags_move_def e by auto
  show "waiters s' t = None \<longleftrightarrow> waiters s t = None" using signals_waiters [OF s''(4)] unfolding e .
qed

lemma broadcast_moves:
  assumes ok: "cc_ok pc W R s" and g: "Cond_Broadcast c cv s = Inr s'"
  shows "\<exists>R'. cc_ok pc W R' s' \<and> queues_move {} R R'"
    and "flags_move s s' (\<lambda>t. asleep s t \<and> \<not> asleep s' t) t"
proof -
  obtain s'' where s'': "Cond_Broadcast c cv s = Inr s''" "cc_ok pc W (R(cv := [])) s''"
    "signals_to s s'' (\<lambda>t. t \<in> set (R cv) \<and> asleep s t)"
    "\<forall>w. asleep s'' w \<longleftrightarrow> asleep s w \<and> w \<notin> set (R cv)" by (rule broadcast_ok [OF ok])
  then have e: "s'' = s'" using g by simp
  show "\<exists>R'. cc_ok pc W R' s' \<and> queues_move {} R R'" using s''(2) queues_move_leave [of "[]"] unfolding e by blast
  have "t \<in> set (R cv) \<and> asleep s t \<longleftrightarrow> asleep s t \<and> \<not> asleep s' t" using s''(4) unfolding e by blast
  then show "flags_move s s' (\<lambda>t. asleep s t \<and> \<not> asleep s' t) t"
    using signals_toD(2) [OF s''(3), of t] unfolding flags_move_def e by auto
qed

lemma unlock_moves:
  assumes ok: "cc_ok pc W R s" and g: "kernel_unlock c s = Inr s'"
  shows "\<exists>R'. cc_ok pc W R' s' \<and> queues_move {} R R'"
    and "flags_move s s' (\<lambda>t. asleep s t \<and> \<not> asleep s' t) t" and "waiters s' t = None \<longleftrightarrow> waiters s t = None"
proof -
  note m = signal_moves [OF cc_ok_sem [OF ok] g [unfolded kernel_unlock_def]]
  show "\<exists>R'. cc_ok pc W R' s' \<and> queues_move {} R R'" by (rule m(1))
  show "flags_move s s' (\<lambda>t. asleep s t \<and> \<not> asleep s' t) t" using m(2) [of t] by (simp add: flags_move_def asleep_def)
  show "waiters s' t = None \<longleftrightarrow> waiters s t = None" using m(3) [of t] by simp
qed

lemma wait_moves:
  assumes ok: "cc_ok pc W R s" and c: "c < ncores s" "pc c = Running" and m: "may_wait c timeout s"
    and b: "cv_wait_begin c cv timeout s = Inr (p, s')"
  shows "\<exists>R'. cc_ok (pc(c := Sleeping cause)) (W(CURTHREAD c s \<mapsto> cv)) R' s' \<and>
      (queues_move {} R0 R \<longrightarrow> queues_move {CURTHREAD c s} R0 R')"
    and "waiters s' = (waiters s)(CURTHREAD c s \<mapsto> \<lparr>wthread = CURTHREAD c s, signalled = False, removed = False\<rparr>)"
    and "\<forall>u. u \<noteq> CURTHREAD c s \<longrightarrow> tcbs s' u = tcbs s u"
proof -
  let ?t = "CURTHREAD c s"
  obtain x where x: "waiters s ?t = None" "tcbs s ?t = Some x" "ttype x = NORMAL_THREAD"
    "timeout \<noteq> NO_TIMEOUT \<longrightarrow> bios_clock s + timeout \<noteq> NO_TIMEOUT" by (rule may_waitD [OF m])
  obtain p' s'' where s'': "cv_wait_begin c cv timeout s = Inr (p', s'')"
    "cc_ok (pc(c := Sleeping cause)) (W(?t \<mapsto> cv)) (R(cv := R cv @ [?t])) s''" "\<forall>u. u \<noteq> ?t \<longrightarrow> tcbs s'' u = tcbs s u"
    by (rule wait_begin_ok [OF ok c refl x(1-3)]) (use x(4) in auto)
  then have e: "s'' = s'" using b by simp
  have "?t \<notin> set (R cv')" for cv' using cv_invD(5) [OF cc_okD(2) [OF ok], of ?t cv'] x(1) by auto
  then show "\<exists>R'. cc_ok (pc(c := Sleeping cause)) (W(CURTHREAD c s \<mapsto> cv)) R' s' \<and>
      (queues_move {} R0 R \<longrightarrow> queues_move {CURTHREAD c s} R0 R')"
    using s''(2) queues_move_begin [of R0 R ?t] unfolding e by blast
  show "\<forall>u. u \<noteq> CURTHREAD c s \<longrightarrow> tcbs s' u = tcbs s u" using s''(3) unfolding e .
  obtain L hs where sc: "sched_inv pc s L hs" using cc_okD(1) [OF ok] by blast
  obtain p2 s2 where "cv_wait_begin c cv timeout s = Inr (p2, s2)"
    "waiters s2 = (waiters s)(?t \<mapsto> \<lparr>wthread = ?t, signalled = False, removed = False\<rparr>)"
    by (rule wait_begin_inv [OF sc cc_okD(2) [OF ok] c refl x(1-3)]) (use x(4) in auto)
  with b show "waiters s' = (waiters s)(?t \<mapsto> \<lparr>wthread = ?t, signalled = False, removed = False\<rparr>)" by simp
qed


lemma kernel_wait_moves:
  assumes ok: "cc_ok pc W R s" and c: "awake c s" "pc c = Running" and m: "may_wait c timeout s"
    and b: "kernel_wait_begin c cv timeout s = Inr (p, s')"
  shows "\<exists>R'. cc_ok (pc(c := Sleeping cause)) (W(CURTHREAD c s \<mapsto> cv)) R' s' \<and> queues_move {CURTHREAD c s} R R'"
    and "t \<noteq> CURTHREAD c s \<Longrightarrow> flags_move s s' (\<lambda>t. asleep s t \<and> \<not> asleep s' t) t \<and>
      (waiters s' t = None \<longleftrightarrow> waiters s t = None)"
    and "waiters s' (CURTHREAD c s) = Some y \<Longrightarrow> \<not> signalled y"
proof -
  obtain s1 where u: "kernel_unlock c s = Inr s1" and b1: "cv_wait_begin c cv timeout s1 = Inr (p, s')"
    using b by (auto simp: kernel_wait_begin_def rbind_eq_Inr)
  have cn: "c < ncores s" using c(1) by (simp add: awake_def)
  note w = unlock_may_wait [OF ok cn c(2) m u] and um = unlock_moves [OF ok u]
  obtain R1 where R1: "cc_ok pc W R1 s1" "queues_move {} R R1" using um(1) by blast
  have cn1: "c < ncores s1" using cn w(3) by simp
  note wm = wait_moves [OF R1(1) cn1 c(2) w(1) b1, unfolded w(2)]
  show "\<exists>R'. cc_ok (pc(c := Sleeping cause)) (W(CURTHREAD c s \<mapsto> cv)) R' s' \<and> queues_move {CURTHREAD c s} R R'"
    using wm(1) [of cause R] R1(2) by blast
  show "flags_move s s' (\<lambda>t. asleep s t \<and> \<not> asleep s' t) t \<and> (waiters s' t = None \<longleftrightarrow> waiters s t = None)"
    if t: "t \<noteq> CURTHREAD c s"
    using um(2,3) [of t] wm(2,3) t by (simp add: flags_move_def asleep_def)
  show "\<not> signalled y" if "waiters s' (CURTHREAD c s) = Some y" using wm(2) that by auto
qed

lemma begins_wait_same: "\<not> begins_wait (pc, W, H, s) (pc, W', H', s') t"
  by (auto simp: begins_wait_def)

lemma begins_wait_sleep:
  assumes "pc c = Running" and "W' (CURTHREAD c s) \<noteq> None"
  shows "begins_wait (pc, W, H, s) (pc(c := Sleeping cause), W', H', s') t \<longleftrightarrow> t = CURTHREAD c s"
  using assms by (auto simp: begins_wait_def split: if_splits)

lemma begins_wait_sched:
  assumes ok: "cc_ok pc W R s" and st: "sched_step (pc, s) (pc', s')" and q: "cv_quiet s s'"
  shows "\<not> begins_wait (pc, W, H, s) (pc', W, H, s') t"
proof
  assume "begins_wait (pc, W, H, s) (pc', W, H, s') t"
  then obtain c cause where t: "t = CURTHREAD c s" "W t \<noteq> None" "pc c = Running" "pc' c = Sleeping cause"
    by (auto simp: begins_wait_def)
  obtain L hs where sc: "sched_inv pc s L hs" using cc_okD(1) [OF ok] by blast
  from st obtain x timeout st' p where x: "awake c s" "tcbs s t = Some x" "ttype x = NORMAL_THREAD"
    "timeout = NO_TIMEOUT \<or> bios_clock s + timeout \<noteq> NO_TIMEOUT" "sleep_mark c st' timeout s = Inr (p, s')"
    by (cases rule: sched_step.cases) (use t in \<open>auto split: if_splits\<close>)
  have cn: "c < ncores s" using x(1) by (simp add: awake_def)
  have st': "st' = STOPPED \<or> st' = EXITED" using x(5) by (auto simp: sleep_mark_def split: if_splits)
  obtain y where y: "tcbs s' t = Some y" "tstate y = st'"
    using sleep_mark_inv [OF sc cn t(3) x(2) [unfolded t(1) CURTHREAD_def] x(3) st', of timeout cause] x(4,5) t(1)
    by (auto simp: CURTHREAD_def)
  have w: "waiters s t \<noteq> None" using cv_invD(3) [OF cc_okD(2) [OF ok], of t] t(2) by simp
  obtain z where "tcbs s t = Some z" "tstate z = RUNNING" using current_running [OF sc cn t(3)] t(1) by auto
  then have "\<not> asleep s t" by (simp add: asleep_def)
  with q w y st' show False by (auto simp: cv_quiet_def asleep_def)
qed

lemma signal_step_flags:
  assumes "signal_step (pc, W, H, s) (pc', W', H', s')" and ok: "cc_ok pc W R s" and y: "waiters s' t = Some y"
    and b: "\<not> begins_wait (pc, W, H, s) (pc', W', H', s') t"
  shows "\<exists>x. waiters s t = Some x \<and> (signalled y \<longleftrightarrow> signalled x \<or> asleep s t \<and> \<not> asleep s' t)"
proof -
  have f: ?thesis if "flags_move s s' (\<lambda>t. asleep s t \<and> \<not> asleep s' t) t" "waiters s' t = None \<longleftrightarrow> waiters s t = None"
    using that y by (cases "waiters s t") (auto simp: flags_move_def)
  from assms(1) show ?thesis
  proof (cases rule: signal_step.cases)
    case (sg_signal c cv)
    from f [OF signal_moves(2,3) [OF ok sg_signal(4)]] show ?thesis .
  next
    case (sg_broadcast c cv)
    obtain s'' where s'': "Cond_Broadcast c cv s = Inr s''" "signals_to s s'' (\<lambda>t. t \<in> set (R cv) \<and> asleep s t)"
      by (rule broadcast_ok [OF ok])
    with sg_broadcast(4) signals_waiters [OF s''(2)] f [OF broadcast_moves(2) [OF ok sg_broadcast(4)]]
    show ?thesis by simp
  next
    case (sg_unlock c)
    from f [OF unlock_moves(2,3) [OF ok sg_unlock(4)]] show ?thesis .
  next
    case (sg_kernel_wait c timeout cv p cause)
    have "begins_wait (pc, W, H, s) (pc', W', H', s') (CURTHREAD c s)"
      unfolding sg_kernel_wait(1,2) by (rule iffD2 [OF begins_wait_sleep]) (simp_all add: sg_kernel_wait(5))
    with b have "t \<noteq> CURTHREAD c s" by auto
    from kernel_wait_moves(2) [OF ok sg_kernel_wait(4-7) this] have
      k: "flags_move s s' (\<lambda>t. asleep s t \<and> \<not> asleep s' t) t" "waiters s' t = None \<longleftrightarrow> waiters s t = None" by simp_all
    show ?thesis by (rule f [OF k])
  qed
qed

lemma cc_step_moves:
  assumes st: "cc_step (pc, W, H, s) (pc', W', H', s')" and ok: "cc_ok pc W R s"
    and inv: "cc_inv (pc, W, H, s)"
  shows "\<exists>R'. cc_ok pc' W' R' s' \<and> queues_move {t. begins_wait (pc, W, H, s) (pc', W', H', s') t} R R'"
    and "waiters s' t = Some y \<Longrightarrow> if begins_wait (pc, W, H, s) (pc', W', H', s') t then \<not> signalled y
      else \<exists>x. waiters s t = Some x \<and> (signalled y \<longleftrightarrow> signalled x \<or> wakes_in (pc, W, H, s) (pc', W', H', s') t)"
proof -
  let ?B = "begins_wait (pc, W, H, s) (pc', W', H', s')"
  have "(\<exists>R'. cc_ok pc' W' R' s' \<and> queues_move {t. ?B t} R R') \<and>
    (\<not> signal_step (pc, W, H, s) (pc', W', H', s') \<longrightarrow> (\<forall>t. waiters s' t \<noteq> None \<longrightarrow> \<not> ?B t \<longrightarrow> waiters s' t = waiters s t)) \<and>
    (\<forall>t y. ?B t \<longrightarrow> waiters s' t = Some y \<longrightarrow> \<not> signalled y)"
    using st
  proof (cases rule: cc_step.cases)
    case cc_sched
    have "{t. ?B t} = {}" using begins_wait_sched [OF ok] cc_sched by simp
    moreover obtain L hs where "sched_inv pc s L hs" using cc_okD(1) [OF ok] by blast
    then have "waiters s' = waiters s"
      using sched_step_frame [of pc s pc' s'] cc_sched by (auto simp: other_frame_def)
    moreover have "cc_ok pc' W' R s'" using sched_ok(1) [OF ok] cc_sched by simp
    ultimately show ?thesis using queues_move_refl [of R] by (intro conjI exI [of _ R]) auto
  next
    case (cc_wait c timeout cv p cause)
    note m = wait_moves [OF ok _ cc_wait(5,6,8)]
    have B: "?B t \<longleftrightarrow> t = CURTHREAD c s" for t using begins_wait_sleep cc_wait by simp
    have c: "c < ncores s" using cc_wait(4) by (simp add: awake_def)
    show ?thesis using m(1) [OF c, of cause R] m(2) [OF c] queues_move_refl [of R] unfolding B
      by (auto simp: cc_wait(1,2))
  next
    case (cc_wait_end c cv r)
    obtain x :: cv_waiter and s'' where s'': "cv_wait_end c cv s = Inr (signalled x, s'')"
      "cc_ok pc (W(CURTHREAD c s := None)) (R(cv := remove1 (CURTHREAD c s) (R cv))) s''"
      "waiters s'' = (waiters s)(CURTHREAD c s := None)" by (rule wait_end_ok [OF ok refl cc_wait_end(6)])
    have "queues_move {} R (R(cv := remove1 (CURTHREAD c s) (R cv)))" by (rule queues_move_leave [OF remove1_subseq])
    with s'' cc_wait_end show ?thesis by (auto simp: begins_wait_same split: if_splits)
  next
    case (cc_signal c cv)
    have "signal_step (pc, W, H, s) (pc', W', H', s')" using sg_signal [OF cc_signal(6)] cc_signal by simp
    with signal_moves [OF ok cc_signal(6)] cc_signal show ?thesis by (auto simp: begins_wait_same)
  next
    case (cc_broadcast c cv)
    have "signal_step (pc, W, H, s) (pc', W', H', s')" using sg_broadcast [OF cc_broadcast(6)] cc_broadcast by simp
    with broadcast_moves [OF ok cc_broadcast(6)] cc_broadcast show ?thesis by (auto simp: begins_wait_same)
  next
    case (cc_lock c)
    have "s' = s\<lparr>kernel_sem := kernel_sem s - 1\<rparr>" by (rule lock_step_take(2) [OF cc_lock(8)])
    with cc_ok_sem [OF ok] cc_lock queues_move_refl show ?thesis by (auto simp: begins_wait_same)
  next
    case (cc_lock_wait c)
    obtain p where p: "cv_wait_begin c KernelSemCv NO_TIMEOUT s = Inr (p, s')" using cc_lock_wait(8) by (rule lock_step_wait)
    note m = wait_moves [OF ok _ cc_lock_wait(5,7) p]
    have B: "?B t \<longleftrightarrow> t = CURTHREAD c s" for t using begins_wait_sleep cc_lock_wait by simp
    have c: "c < ncores s" using cc_lock_wait(4) by (simp add: awake_def)
    show ?thesis using m(1) [OF c, of SCHED_USER R] m(2) [OF c] queues_move_refl [of R] unfolding B
      by (auto simp: cc_lock_wait(1,2))
  next
    case (cc_resume c)
    then obtain q s1 where e: "cv_wait_end c KernelSemCv s = Inr (q, s1)" and b: "kernel_lock_step c s1 = Inr (True, s')"
      by (auto simp: kernel_lock_resume_def rbind_eq_Inr)
    obtain x :: cv_waiter and s'' where s'': "cv_wait_end c KernelSemCv s = Inr (signalled x, s'')"
      "cc_ok pc (W(CURTHREAD c s := None)) (R(KernelSemCv := remove1 (CURTHREAD c s) (R KernelSemCv))) s''"
      "waiters s'' = (waiters s)(CURTHREAD c s := None)" by (rule wait_end_ok [OF ok refl cc_resume(6)])
    have "queues_move {} R (R(KernelSemCv := remove1 (CURTHREAD c s) (R KernelSemCv)))"
      by (rule queues_move_leave [OF remove1_subseq])
    moreover have "s'' = s1" using e s''(1) by simp
    ultimately show ?thesis using s'' cc_ok_sem [OF s''(2)] cc_resume lock_step_take(2) [OF b]
      by (auto simp: begins_wait_same split: if_splits)
  next
    case (cc_resume_wait c x)
    then obtain q s1 where e: "cv_wait_end c KernelSemCv s = Inr (q, s1)" and b: "kernel_lock_step c s1 = Inr (False, s')"
      by (auto simp: kernel_lock_resume_def rbind_eq_Inr)
    let ?t = "CURTHREAD c s"
    obtain z :: cv_waiter and s'' where s'': "cv_wait_end c KernelSemCv s = Inr (signalled z, s'')"
      "cc_ok pc (W(?t := None)) (R(KernelSemCv := remove1 ?t (R KernelSemCv))) s''" "cv_frame s s''"
      "tcbs s'' = tcbs s" "waiters s'' = (waiters s)(?t := None)" "system_clock s'' = system_clock s"
      by (rule wait_end_ok [OF ok refl cc_resume_wait(6)])
    have s1: "s'' = s1" using e s''(1) by simp
    note f = frame_core [OF s''(3) [unfolded s1]]
    obtain p where p: "cv_wait_begin c KernelSemCv NO_TIMEOUT s1 = Inr (p, s')" using b by (rule lock_step_wait)
    have cn: "c < ncores s1" using cc_resume_wait f by (simp add: awake_def)
    have "may_wait c NO_TIMEOUT s1" using cc_resume_wait s''(4,5) s1 by (simp add: may_wait_def f)
    note m = wait_moves [OF s''(2) [unfolded s1] cn cc_resume_wait(5) this p, unfolded f]
    have q: "queues_move {} R (R(KernelSemCv := remove1 ?t (R KernelSemCv)))"
      by (rule queues_move_leave [OF remove1_subseq])
    have W: "(W(?t := None))(?t \<mapsto> KernelSemCv) = W" using cc_resume_wait(6) by (auto simp: fun_eq_iff)
    have B: "?B t \<longleftrightarrow> t = ?t" for t using begins_wait_sleep cc_resume_wait by simp
    show ?thesis using m(1) [of SCHED_USER R] m(2) q cc_resume_wait s''(5) s1 unfolding W B by auto
  next
    case (cc_unlock c)
    have "signal_step (pc, W, H, s) (pc', W', H', s')" using sg_unlock [OF cc_unlock(7)] cc_unlock by simp
    with unlock_moves [OF ok cc_unlock(7)] cc_unlock show ?thesis by (auto simp: begins_wait_same)
  next
    case (cc_kernel_wait c timeout cv p cause)
    note m = kernel_wait_moves [OF ok cc_kernel_wait(4,5,7,9)]
    have "signal_step (pc, W, H, s) (pc', W', H', s')"
      unfolding cc_kernel_wait(1-3) by (rule sg_kernel_wait) (rule cc_kernel_wait)+
    moreover have B: "?B t \<longleftrightarrow> t = CURTHREAD c s" for t using begins_wait_sleep cc_kernel_wait by simp
    ultimately show ?thesis using m cc_kernel_wait unfolding B by auto
  qed
  then show "\<exists>R'. cc_ok pc' W' R' s' \<and> queues_move {t. ?B t} R R'"
    and "waiters s' t = Some y \<Longrightarrow> if ?B t then \<not> signalled y
      else \<exists>x. waiters s t = Some x \<and> (signalled y \<longleftrightarrow> signalled x \<or> wakes_in (pc, W, H, s) (pc', W', H', s') t)"
    using signal_step_flags [OF _ ok, of H pc' W' H' s' t y] by (auto simp: wakes_in_def)
qed

text \<open>
  In every run the wait sets are in the order in which the waits began, and the flag \<open>signalled\<close>
  of a waiter says if a signal or broadcast woke its thread.
\<close>

definition history_ok :: "nat \<Rightarrow> (tref \<Rightarrow> nat) \<Rightarrow> (tref \<Rightarrow> bool) \<Rightarrow> cc_conf \<Rightarrow> bool" where
  "history_ok n since woken cf \<longleftrightarrow> (case cf of (pc, W, H, s) \<Rightarrow> \<exists>R. cc_ok pc W R s \<and>
     (\<forall>cv. sorted_wrt (\<lambda>t u. since t < since u) (R cv) \<and> (\<forall>t \<in> set (R cv). since t < n)) \<and>
     (\<forall>t x. waiters s t = Some x \<longrightarrow> (signalled x \<longleftrightarrow> woken t)))"

lemma cc_history_ok: "cc_history n since woken cf \<Longrightarrow> history_ok n since woken cf"
proof (induction rule: cc_history.induct)
  case (history_start pc s)
  obtain L hs where "sched_inv pc s L hs" by (rule reachable_inv [OF history_start])
  moreover have f: "condvars s = (\<lambda>_. None)" "waiters s = Map.empty"
    using cc_fresh_reachable [OF history_start] by (simp_all add: cc_fresh_def)
  moreover have "cv_inv Map.empty (\<lambda>_. []) s" using f by (simp add: cv_inv_def waitset_head_def cv_ring_def)
  ultimately have "cc_ok pc Map.empty (\<lambda>_. []) s" by (auto simp: cc_ok_def sleepers_listed_def)
  then show ?case using f(2) by (auto simp: history_ok_def)
next
  case (history_next n since woken cf cf')
  obtain pc W H s pc' W' H' s' where e: "cf = (pc, W, H, s)" "cf' = (pc', W', H', s')" by (cases cf, cases cf')
  have inv: "cc_inv (pc, W, H, s)" using cc_reachable_inv [OF history_reachable [OF history_next.hyps(1)]] e by simp
  obtain R where R: "cc_ok pc W R s" "\<And>cv. sorted_wrt (\<lambda>t u. since t < since u) (R cv)"
    "\<And>cv. \<forall>t \<in> set (R cv). since t < n" "\<forall>t x. waiters s t = Some x \<longrightarrow> (signalled x \<longleftrightarrow> woken t)"
    using history_next.IH unfolding e history_ok_def by auto
  note m = cc_step_moves [OF history_next.hyps(2) [unfolded e] R(1) inv]
  let ?B = "begins_wait (pc, W, H, s) (pc', W', H', s')"
  obtain R' where R': "cc_ok pc' W' R' s'" "queues_move {t. ?B t} R R'" using m(1) by blast
  note q = queues_move_sorted [OF R'(2) R(2,3)]
  have "signalled y \<longleftrightarrow> \<not> ?B t \<and> (woken t \<or> wakes_in (pc, W, H, s) (pc', W', H', s') t)"
    if "waiters s' t = Some y" for t y
    using m(2) [OF that] R(4) by (auto split: if_splits)
  with R'(1) q show ?case unfolding history_ok_def e prod.case by (intro exI [of _ R']) blast
qed

end
