(* ===== verification/Cond_Props.thy ===== *)
theory Cond_Props
  imports Cond_Safe Sched_Props
begin

text \<open>The properties of mutexes, condition variables and the kernel lock.\<close>

section \<open>The mutex\<close>

text \<open>Threads that lock and unlock one mutex; \<open>None\<close> is a thread that is elsewhere.\<close>

inductive mutex_step :: "(nat \<Rightarrow> mutex_pc option) \<times> bool \<Rightarrow> (nat \<Rightarrow> mutex_pc option) \<times> bool \<Rightarrow> bool" where
  mutex_enter: "ps t = None \<Longrightarrow> mutex_step (ps, l) (ps(t \<mapsto> TestAndSet), l)"
| mutex_run: "ps t = Some p \<Longrightarrow> Mutex_Lock_step preempt p l = (p', l', y) \<Longrightarrow>
    mutex_step (ps, l) (ps(t \<mapsto> p'), l')"
| mutex_release: "ps t = Some Locked \<Longrightarrow> mutex_step (ps, l) (ps(t := None), Mutex_Unlock l)"

inductive mutex_reachable :: "(nat \<Rightarrow> mutex_pc option) \<times> bool \<Rightarrow> bool" where
  mutex_start: "mutex_reachable (\<lambda>_. None, False)"
| mutex_next: "mutex_reachable cf \<Longrightarrow> mutex_step cf cf' \<Longrightarrow> mutex_reachable cf'"

definition mutex_ok :: "(nat \<Rightarrow> mutex_pc option) \<Rightarrow> bool \<Rightarrow> bool" where
  "mutex_ok ps l \<longleftrightarrow> (\<forall>t u. ps t = Some Locked \<longrightarrow> ps u = Some Locked \<longrightarrow> t = u) \<and>
     (l \<longleftrightarrow> (\<exists>t. ps t = Some Locked)) \<and>
     (\<forall>t n. ps t = Some (Spin n) \<longrightarrow> 0 \<le> n \<and> n \<le> MUTEX_SPINS)"

lemma mutex_ok_step: "mutex_step cf cf' \<Longrightarrow> mutex_ok (fst cf) (snd cf) \<Longrightarrow> mutex_ok (fst cf') (snd cf')"
proof (induction rule: mutex_step.induct)
  case (mutex_enter ps t l)
  then show ?case unfolding mutex_ok_def by (simp split: if_splits) (metis option.distinct(1))
next
  case (mutex_run ps t p preempt l p' l' y)
  have o: "mutex_ok ps l" using mutex_run.prems by simp
  show ?case
  proof (cases p)
    case TestAndSet
    with mutex_run.hyps o show ?thesis
      by (cases l) (auto simp: Mutex_Lock_step_def mutex_ok_def MUTEX_SPINS_def split: if_splits,
          (metis mutex_pc.distinct option.inject)+)
  next
    case (Spin n)
    have n: "0 \<le> n" "n \<le> MUTEX_SPINS" using Spin mutex_run.hyps(1) o by (auto simp: mutex_ok_def)
    from Spin mutex_run.hyps(2) have st: "l' = l" "p' = TestAndSet \<and> \<not> l \<or>
        (\<exists>m. p' = Spin m \<and> 0 \<le> m \<and> m \<le> MUTEX_SPINS)"
      using n by (auto simp: Mutex_Lock_step_def MUTEX_SPINS_def split: if_splits)
    have lk: "(ps(t \<mapsto> p')) u = Some Locked \<longleftrightarrow> ps u = Some Locked" for u
      using Spin mutex_run.hyps(1) st(2) by auto
    have "0 \<le> m \<and> m \<le> MUTEX_SPINS" if "(ps(t \<mapsto> p')) u = Some (Spin m)" for u m
      using that o st(2) by (auto simp: mutex_ok_def split: if_splits)
    then show ?thesis using o st(1) unfolding mutex_ok_def fst_conv snd_conv lk by blast
  next
    case Locked
    with mutex_run.hyps have "ps(t \<mapsto> p') = ps" "l' = l" by (auto simp: Mutex_Lock_step_def fun_eq_iff)
    with o show ?thesis by simp
  qed
next
  case (mutex_release ps t l)
  then show ?case by (auto simp: mutex_ok_def Mutex_Unlock_def split: if_splits)
qed

text \<open>
  A mutex is held by one thread at most, and its flag is set exactly while a thread holds it;
  a waiting thread never spins more than \<open>MUTEX_SPINS\<close> times between two yields.
\<close>

theorem mutex_exclusion:
  assumes "mutex_reachable (ps, l)"
  shows "(ps t = Some Locked \<longrightarrow> ps u = Some Locked \<longrightarrow> t = u) \<and> (l \<longleftrightarrow> (\<exists>t. ps t = Some Locked)) \<and>
    (ps t = Some (Spin n) \<longrightarrow> 0 \<le> n \<and> n \<le> 1000)"
proof -
  have "mutex_reachable cf \<Longrightarrow> mutex_ok (fst cf) (snd cf)" for cf
  proof (induction rule: mutex_reachable.induct)
    case (mutex_next cf cf')
    then show ?case using mutex_ok_step by blast
  qed (simp add: mutex_ok_def)
  from this [OF assms] have o: "mutex_ok ps l" by simp
  show ?thesis using o unfolding mutex_ok_def MUTEX_SPINS_def by blast
qed

theorem mutex_exclusion_witness:
  "\<exists>ps. ps (0::nat) = Some Locked \<and> ps 1 = Some (Spin 1000) \<and> ps 1 \<noteq> Some Locked"
proof -
  let ?n = "\<lambda>_. None :: mutex_pc option"
  have 1: "mutex_reachable (?n(0 \<mapsto> TestAndSet), False)"
    by (rule mutex_next [OF mutex_start mutex_enter]) simp
  have 2: "mutex_reachable ((?n(0 \<mapsto> TestAndSet))(0 \<mapsto> Locked), True)"
    by (rule mutex_next [OF 1 mutex_run [where p = TestAndSet and y = False]]) (simp_all add: Mutex_Lock_step_def)
  let ?p = "(?n(0 \<mapsto> TestAndSet))(0 \<mapsto> Locked)"
  have 3: "mutex_reachable (?p(1 \<mapsto> TestAndSet), True)" by (rule mutex_next [OF 2 mutex_enter]) simp
  have 4: "mutex_reachable ((?p(1 \<mapsto> TestAndSet))(1 \<mapsto> Spin 1000), True)"
    by (rule mutex_next [OF 3 mutex_run [where p = TestAndSet and y = False]])
      (simp_all add: Mutex_Lock_step_def MUTEX_SPINS_def)
  from mutex_exclusion [OF 4, of 0 1] show ?thesis
    by (intro exI [of _ "(?p(1 \<mapsto> TestAndSet))(1 \<mapsto> Spin 1000)"]) simp
qed

section \<open>The kernel lock\<close>

text \<open>
  At most one thread is inside the kernel: the semaphore is 0 while a thread holds the kernel
  lock and 1 otherwise, through any interleaving of system calls that lock, unlock and wait in
  the kernel, on any number of cores.
\<close>

theorem kernel_mutual_exclusion:
  assumes "cc_reachable (pc, W, H, s)"
  shows "(t \<in> H \<longrightarrow> u \<in> H \<longrightarrow> t = u) \<and> kernel_sem s = (if H = {} then 1 else 0)"
proof -
  have "lock_inv W H s" using cc_reachable_inv [OF assms] by (simp add: cc_inv_def)
  then have f: "finite H" "0 \<le> kernel_sem s" "kernel_sem s + int (card H) = 1" by (simp_all add: lock_inv_def)
  then have c: "card H \<le> 1" by simp
  then have "\<forall>t u. t \<in> H \<longrightarrow> u \<in> H \<longrightarrow> t = u" using card_le_Suc0_iff_eq [OF f(1)] by simp
  moreover have "kernel_sem s = (if H = {} then 1 else 0)"
  proof (cases "H = {}")
    case False
    then have "card H \<noteq> 0" using f(1) by simp
    with c f(3) False show ?thesis by simp
  qed (use f in simp)
  ultimately show ?thesis by blast
qed

text \<open>A created thread that runs on core 0 of a machine of \<open>k\<close> cores.\<close>

lemma raise_interrupt_fields:
  "ncores (raise_interrupt c i s) = ncores s" "tcbs (raise_interrupt c i s) = tcbs s"
  "cctx (raise_interrupt c i s) = cctx s" "c < ncores s \<Longrightarrow> awake c (raise_interrupt c i s)"
  by (simp_all add: raise_interrupt_def cpu_core_restart_def core_restart_def set_core_def awake_def Let_def)

lemma run_thread:
  assumes k: "0 < k" "k \<le> MAX_CORES"
  obtains s t x where "sched_reachable (\<lambda>_. Running, s)" and "ncores s = k" and "awake 0 s" and "CURTHREAD 0 s = t"
    and "tcbs s t = Some x" and "ttype x = NORMAL_THREAD"
proof -
  obtain s x where s: "sched_reachable (\<lambda>_. Running, s)" "ncores s = k" "tcbs s (HeapT 0) = Some x"
    "ttype x = NORMAL_THREAD" "tstate x = READY" "tphase x = CTX_CLEAN" by (rule run_ready_on [OF k])
  define s1 where "s1 = raise_interrupt 0 ICI s"
  have r1: "sched_reachable (\<lambda>_. Running, s1)" unfolding s1_def
    by (rule sched_reachable.step [OF s(1) step_interrupt]) (use s(2) k in simp)
  obtain L hs where i1: "sched_inv (\<lambda>_. Running) s1 L hs" by (rule reachable_inv [OF r1])
  have f1: "ncores s1 = k" "tcbs s1 = tcbs s" "awake 0 s1"
    using s(2) k by (simp_all add: s1_def raise_interrupt_fields)
  have noinc: "\<forall>d. \<not> incoming (\<lambda>_. Running) s1 d (HeapT 0)" by (simp add: incoming_def)
  obtain s2 L2 hs2 where s2: "yield_switch 0 SCHED_IDLE s1 = Inr s2"
    "sched_inv ((\<lambda>_. Running)(0 := Switching)) s2 L2 hs2" "sched_frame s1 s2"
    "\<exists>y. tcbs s2 (current_thread (cctx s2 0)) = Some y \<and> ttype y = NORMAL_THREAD"
  proof (rule yield_switch_inv [OF i1, of 0 SCHED_IDLE])
    fix s' L' hs'
    assume a: "yield_switch 0 SCHED_IDLE s1 = Inr s'" "sched_inv ((\<lambda>_. Running)(0 := Switching)) s' L' hs'"
      "sched_frame s1 s'"
      and w: "\<forall>t x. tcbs s1 t = Some x \<and> ttype x = NORMAL_THREAD \<and> tstate x = READY \<and>
        tphase x = CTX_CLEAN \<and> (\<forall>d. \<not> incoming (\<lambda>_. Running) s1 d t) \<longrightarrow>
        (\<exists>y. tcbs s' (current_thread (cctx s' 0)) = Some y \<and> ttype y = NORMAL_THREAD)"
    show thesis by (rule that [OF a w [rule_format, of "HeapT 0" x]]) (use s(3-6) f1(2) noinc in simp)
  qed (use f1 k in simp_all)
  have r2: "sched_reachable ((\<lambda>_. Running)(0 := Switching), s2)"
    by (rule sched_reachable.step [OF r1 step_yield [OF f1(3) _ s2(1)]]) simp
  define s3 where "s3 = raise_interrupt 0 ICI s2"
  have n2: "ncores s2 = k" using s2(3) f1(1) by (simp add: sched_frame_def)
  have r3: "sched_reachable ((\<lambda>_. Running)(0 := Switching), s3)" unfolding s3_def
    by (rule sched_reachable.step [OF r2 step_interrupt]) (use n2 k in simp)
  have f3: "ncores s3 = k" "tcbs s3 = tcbs s2" "cctx s3 = cctx s2" "awake 0 s3"
    using n2 k by (simp_all add: s3_def raise_interrupt_fields)
  obtain L3 hs3 where i3: "sched_inv ((\<lambda>_. Running)(0 := Switching)) s3 L3 hs3" by (rule reachable_inv [OF r3])
  obtain s4 L4 hs4 where s4: "gain 0 (saved_preempt s3 (CURTHREAD 0 s3)) s3 = Inr s4" "sched_frame s3 s4"
    "threads_kept s3 s4" "\<forall>d. current_thread (cctx s4 d) = current_thread (cctx s3 d)"
    by (rule gain_inv [OF i3, of 0]) (use f3 k in auto)
  have r4: "sched_reachable (\<lambda>_. Running, s4)"
    using sched_reachable.step [OF r3 step_gain [OF f3(4) _ s4(1)]] by (simp add: fun_upd_idem)
  define s5 where "s5 = raise_interrupt 0 ICI s4"
  have n4: "ncores s4 = k" using s4(2) f3(1) by (simp add: sched_frame_def)
  have r5: "sched_reachable (\<lambda>_. Running, s5)" unfolding s5_def
    by (rule sched_reachable.step [OF r4 step_interrupt]) (use n4 k in simp)
  have f5: "ncores s5 = k" "tcbs s5 = tcbs s4" "cctx s5 = cctx s4" "awake 0 s5"
    using n4 k by (simp_all add: s5_def raise_interrupt_fields)
  obtain y where y: "tcbs s3 (current_thread (cctx s3 0)) = Some y" "ttype y = NORMAL_THREAD" using s2(4) f3 by auto
  have "tstate y \<noteq> EXITED"
  proof -
    have "tstate y = READY" using thread_okD(3) [OF sched_inv_thread [OF i3 y(1)]] f3(1) k
      unfolding state_ok_def by auto
    then show ?thesis by simp
  qed
  then obtain z where z: "tcbs s4 (current_thread (cctx s3 0)) = Some z" "same_thread y z"
    by (rule threads_keptD [OF s4(3) y(1)])
  show ?thesis
    by (rule that [OF r5 f5(1,4) refl, of z]) (use z y(2) s4(4) f5 in \<open>simp_all add: CURTHREAD_def same_thread_def\<close>)
qed

text \<open>That thread waits on a condition variable of its program.\<close>

lemma run_waiting:
  assumes cv: "cv \<noteq> KernelSemCv" and k: "0 < k" "k \<le> MAX_CORES"
  obtains t s where "cc_reachable ((\<lambda>_. Running)(0 := Sleeping SCHED_USER), [t \<mapsto> cv], {}, s)"
    and "asleep s t" and "kernel_sem s = 1" and "CURTHREAD 0 s = t" and "ncores s = k"
proof -
  obtain s t x where s: "sched_reachable (\<lambda>_. Running, s)" "ncores s = k" "awake 0 s" "CURTHREAD 0 s = t"
    "tcbs s t = Some x" "ttype x = NORMAL_THREAD" by (rule run_thread [OF k])
  have r: "cc_reachable (\<lambda>_. Running, Map.empty, {}, s)" by (rule cc_start [OF s(1)])
  have f: "cc_fresh s" by (rule cc_fresh_reachable [OF s(1)])
  obtain L hs R where i: "sched_inv (\<lambda>_. Running) s L hs" and ci: "cv_inv Map.empty R s"
    using cc_reachable_inv [OF r] by (auto simp: cc_inv_def cc_ok_def)
  obtain p s' L' hs' where s': "cv_wait_begin 0 (cv) NO_TIMEOUT s = Inr (p, s')" "cv_frame s s'"
    "\<exists>y. tcbs s' t = Some y \<and> same_thread x y \<and> tstate y = STOPPED"
    by (rule wait_begin_inv [OF i ci, of 0 t x NO_TIMEOUT "cv" SCHED_USER])
      (use s f in \<open>auto simp: awake_def cc_fresh_def\<close>)
  have m: "may_wait 0 NO_TIMEOUT s" using s f by (simp add: may_wait_def cc_fresh_def)
  have "cc_reachable ((\<lambda>_. Running)(0 := Sleeping SCHED_USER), Map.empty(CURTHREAD 0 s \<mapsto> cv), {}, s')"
    by (rule cc_next [OF r cc_wait [OF s(3) _ m _ s'(1)]]) (use cv in simp_all)
  moreover have "asleep s' t" using s'(3) by (auto simp: asleep_def)
  moreover have "kernel_sem s' = 1" using f frame_sem [OF s'(2)] by (simp add: cc_fresh_def)
  moreover have "CURTHREAD 0 s' = t" using s(4) frame_core(2) [OF s'(2)] by simp
  moreover have "ncores s' = k" using s(2) frame_core(1) [OF s'(2)] by simp
  ultimately show ?thesis using that s(4) by simp
qed

text \<open>A thread that holds the kernel lock.\<close>

lemma run_locked:
  obtains t s where "cc_reachable (\<lambda>_. Running, Map.empty, {t}, s)"
proof -
  obtain s t x where s: "sched_reachable (\<lambda>_. Running, s)" "awake 0 s" "CURTHREAD 0 s = t"
    by (rule run_thread [of 1]) (simp_all add: MAX_CORES_def)
  have r: "cc_reachable (\<lambda>_. Running, Map.empty, {}, s)" by (rule cc_start [OF s(1)])
  have f: "cc_fresh s" by (rule cc_fresh_reachable [OF s(1)])
  then have "kernel_lock_step 0 s = Inr (True, s\<lparr>kernel_sem := 0\<rparr>)" by (simp add: kernel_lock_step_def cc_fresh_def)
  from cc_next [OF r cc_lock [OF s(2) _ _ _ this]] f have
    "cc_reachable (\<lambda>_. Running, Map.empty, {CURTHREAD 0 s}, s\<lparr>kernel_sem := 0\<rparr>)" by (simp add: cc_fresh_def)
  then show ?thesis by (rule that)
qed

theorem kernel_mutual_exclusion_witness:
  "\<exists>pc W H s. cc_reachable (pc, W, H, s) \<and> H \<noteq> {} \<and> kernel_sem s = 0"
proof -
  obtain t s where r: "cc_reachable (\<lambda>_. Running, Map.empty, {t}, s)" by (rule run_locked)
  from kernel_mutual_exclusion [OF r] r show ?thesis
    by (intro exI [of _ "\<lambda>_. Running"] exI [of _ Map.empty] exI [of _ "{t}"] exI [of _ s]) simp
qed

text \<open>
  C13: While the kernel is free and threads wait for it, at least one of them is awake and will
  try again: the signal of \<open>kernel_unlock\<close> is not lost, although a thread that was not waiting
  may take the kernel first, and although waiters may be woken for other reasons.
\<close>

theorem kernel_lock_progress:
  assumes "cc_reachable (pc, W, H, s)" and "kernel_sem s = 1"
  shows "(\<forall>t. W t \<noteq> Some KernelSemCv) \<or>
    (\<exists>t x. W t = Some KernelSemCv \<and> tcbs s t = Some x \<and> tstate x \<in> {READY, RUNNING})"
proof -
  have inv: "cc_inv (pc, W, H, s)" by (rule cc_reachable_inv [OF assms(1)])
  then obtain R where ok: "cc_ok pc W R s" and p: "sem_progress W s" by (auto simp: cc_inv_def)
  show ?thesis
  proof (cases "\<forall>t. W t \<noteq> Some KernelSemCv")
    case False
    with p assms(2) obtain t where t: "W t = Some KernelSemCv" "\<not> asleep s t" by (auto simp: sem_progress_def)
    obtain w where w: "waiters s t = Some w" using cv_invD(3) [OF cc_okD(2) [OF ok], of t] t(1) by auto
    obtain x where x: "tcbs s t = Some x" "tstate x \<noteq> EXITED"
      using waiter_okD(3) [OF cv_invD(4) [OF cc_okD(2) [OF ok] w]] by blast
    with t(2) have "tstate x \<in> {READY, RUNNING}" by (cases "tstate x") (auto simp: asleep_def)
    with t(1) x(1) show ?thesis by blast
  qed blast
qed

theorem kernel_lock_progress_witness:
  "\<exists>(W :: tref \<Rightarrow> cvref option) t s. kernel_sem s = 1 \<and> W t = Some (UserCv 0) \<and> asleep s t \<and>
     ((\<forall>t. W t \<noteq> Some KernelSemCv) \<or>
      (\<exists>t x. W t = Some KernelSemCv \<and> tcbs s t = Some x \<and> tstate x \<in> {READY, RUNNING}))"
proof -
  obtain t s where r: "cc_reachable ((\<lambda>_. Running)(0 := Sleeping SCHED_USER), [t \<mapsto> UserCv 0], {}, s)"
    and a: "asleep s t" and k: "kernel_sem s = 1" by (rule run_waiting [of "UserCv 0" 1]) (simp_all add: MAX_CORES_def)
  from kernel_lock_progress [OF r k] a k show ?thesis
    by (intro exI [of _ "[t \<mapsto> UserCv 0]"] exI [of _ t] exI [of _ s]) simp
qed

section \<open>Signals and broadcasts\<close>

text \<open>
  C14: A wait set is a queue in time: its ring holds the waiting threads in the order in which
  their waits began, and \<open>Cond_Signal\<close> makes ready the one that, among the threads that sleep in a
  wait on the variable, has waited longest, and marks its waiter as signalled; if none sleeps it
  changes no thread.  (\<open>since t\<close> is the number of the step of the run in which \<open>t\<close> began the wait
  it is in; \<open>reachable_history\<close> gives one for every reachable configuration.)
\<close>

theorem signal_wakes_longest_waiting:
  assumes "cc_history n since woken (pc, W, H, s)"
  shows "(\<exists>ws. condvars s cv = waitset_head ws \<and> cv_ring s ws \<and>
      sorted_wrt (\<lambda>t u. since t < since u) ws \<and>
      (\<forall>w. W w = Some cv \<and> asleep s w \<longrightarrow> w \<in> set ws) \<and> (\<forall>w \<in> set ws. W w = Some cv)) \<and>
    (\<exists>s'. Cond_Signal c cv s = Inr s' \<and>
      (if \<exists>w. W w = Some cv \<and> asleep s w
       then \<exists>w x. W w = Some cv \<and> asleep s w \<and>
         (\<forall>u. W u = Some cv \<longrightarrow> asleep s u \<longrightarrow> u \<noteq> w \<longrightarrow> since w < since u) \<and>
         tcbs s' = (tcbs s)(w := map_option mk_ready (tcbs s w)) \<and>
         waiters s' w = Some x \<and> signalled x \<and> removed x
       else tcbs s' = tcbs s))"
proof -
  obtain R where ok: "cc_ok pc W R s" and srt: "sorted_wrt (\<lambda>t u. since t < since u) (R cv)"
    using cc_history_ok [OF assms] by (auto simp: history_ok_def)
  note cv = cc_okD(2) [OF ok]
  let ?ws = "wake_rest s (R cv)"
  have W: "W w = Some cv" if "w \<in> set (R cv)" for w using that by (rule cv_inv_member [OF cv])
  have mem: "w \<in> set (R cv)" if w: "W w = Some cv" "asleep s w" for w
  proof -
    have "waiters s w \<noteq> None" using cv_invD(3) [OF cv, of w] w(1) by simp
    with cc_okD(3) [OF ok] obtain cv' where cv': "w \<in> set (R cv')" using w(2) by (rule sleepers_listedD)
    then obtain z where "W w = Some cv'" by (rule cv_inv_member [OF cv])
    with w(1) cv' show ?thesis by simp
  qed
  obtain s' where s': "Cond_Signal c cv s = Inr s'" "cc_ok pc W (R(cv := tl ?ws)) s'"
    "tcbs s' = woken_tcbs ?ws s" "signals_to s s' (\<lambda>t. ?ws \<noteq> [] \<and> t = hd ?ws)"
    by (rule signal_ok [OF ok, of c cv])
  have "if \<exists>w. W w = Some cv \<and> asleep s w
       then \<exists>w x. W w = Some cv \<and> asleep s w \<and>
         (\<forall>u. W u = Some cv \<longrightarrow> asleep s u \<longrightarrow> u \<noteq> w \<longrightarrow> since w < since u) \<and>
         tcbs s' = (tcbs s)(w := map_option mk_ready (tcbs s w)) \<and>
         waiters s' w = Some x \<and> signalled x \<and> removed x
       else tcbs s' = tcbs s"
  proof (cases ?ws)
    case Nil
    then have "\<not> (\<exists>w. W w = Some cv \<and> asleep s w)" using wake_rest_none [OF Nil] mem by blast
    moreover have "tcbs s' = tcbs s" using Nil s'(3) by (simp add: woken_tcbs_def)
    ultimately show ?thesis by (simp only: if_False)
  next
    case (Cons w us)
    obtain vs where vs: "R cv = vs @ w # us" "\<forall>v \<in> set vs. \<not> asleep s v"
      using Cons unfolding wake_rest_def by (metis takeWhile_dropWhile_id set_takeWhileD)
    have aw: "asleep s w" using Cons unfolding wake_rest_def by (metis dropWhile_eq_Cons_conv)
    have wR: "w \<in> set (R cv)" using vs(1) by simp
    obtain x where x: "waiters s w = Some x" using wR by (rule cv_inv_member [OF cv])
    from signals_toD(2) [OF s'(4) x] Cons obtain y where y: "waiters s' w = Some y" "signalled y" by auto
    with waiter_okD(5) [OF cv_invD(4) [OF cc_okD(2) [OF s'(2)] y(1)]] have "removed y" by blast
    moreover have "since w < since u" if u: "W u = Some cv" "asleep s u" "u \<noteq> w" for u
    proof -
      have "u \<in> set us" using mem [OF u(1,2)] vs u(2,3) by auto
      then show ?thesis using srt vs(1) by (simp add: sorted_wrt_append)
    qed
    moreover have "tcbs s' = (tcbs s)(w := map_option mk_ready (tcbs s w))" using s'(3) Cons by (simp add: woken_tcbs_def)
    ultimately show ?thesis using W [OF wR] aw y by auto
  qed
  moreover have "condvars s cv = waitset_head (R cv) \<and> cv_ring s (R cv)" using cv_invD(1,2) [OF cv, of cv] by simp
  ultimately show ?thesis using s'(1) srt W mem by blast
qed

theorem signal_wakes_longest_waiting_witness:
  "\<exists>t s s'. asleep s t \<and> Cond_Signal 0 (UserCv 0) s = Inr s' \<and> tcbs s' t = map_option mk_ready (tcbs s t)"
proof -
  obtain t s where r: "cc_reachable ((\<lambda>_. Running)(0 := Sleeping SCHED_USER), [t \<mapsto> UserCv 0], {}, s)"
    and a: "asleep s t" by (rule run_waiting [of "UserCv 0" 1]) (simp_all add: MAX_CORES_def)
  obtain n since woken where h: "cc_history n since woken ((\<lambda>_. Running)(0 := Sleeping SCHED_USER), [t \<mapsto> UserCv 0], {}, s)"
    using reachable_history [OF r] by blast
  have w: "\<exists>w. [t \<mapsto> UserCv 0] w = Some (UserCv 0) \<and> asleep s w" using a by (intro exI [of _ t]) simp
  obtain s' u where s': "Cond_Signal 0 (UserCv 0) s = Inr s'" "[t \<mapsto> UserCv 0] u = Some (UserCv 0)"
    "tcbs s' = (tcbs s)(u := map_option mk_ready (tcbs s u))"
    using conjunct2 [OF signal_wakes_longest_waiting [OF h, of "UserCv 0" 0]] unfolding if_P [OF w] by blast
  then have "u = t" by (simp split: if_splits)
  with s' a show ?thesis by (intro exI [of _ t] exI [of _ s] exI [of _ s']) simp
qed

text \<open>
  C15: No wake-up is lost: a thread that sleeps in a wait on a condition variable, whatever else
  was signalled, woken by a timeout or broadcast before, is made ready and marked as signalled
  by the next \<open>Cond_Broadcast\<close>, which no other thread's state can prevent.
\<close>

theorem broadcast_wakes_every_sleeper:
  assumes "cc_reachable (pc, W, H, s)"
  shows "\<exists>s'. Cond_Broadcast c cv s = Inr s' \<and> condvars s' cv = None \<and>
    (\<forall>w. if W w = Some cv \<and> asleep s w
         then \<exists>x. tcbs s' w = map_option mk_ready (tcbs s w) \<and> waiters s' w = Some x \<and> signalled x
         else tcbs s' w = tcbs s w)"
proof -
  obtain R where ok: "cc_ok pc W R s" using cc_reachable_inv [OF assms] by (auto simp: cc_inv_def)
  note cv = cc_okD(2) [OF ok]
  obtain s' where s': "Cond_Broadcast c cv s = Inr s'" "cc_ok pc W (R(cv := [])) s'"
    "tcbs s' = all_woken (R cv) s" "signals_to s s' (\<lambda>t. t \<in> set (R cv) \<and> asleep s t)"
    by (rule broadcast_ok [OF ok, of c cv])
  have m: "W w = Some cv \<and> asleep s w \<longleftrightarrow> w \<in> set (R cv) \<and> asleep s w" for w
  proof
    assume w: "W w = Some cv \<and> asleep s w"
    then have "waiters s w \<noteq> None" using cv_invD(3) [OF cv, of w] by simp
    with cc_okD(3) [OF ok] obtain cv' where cv': "w \<in> set (R cv')" using conjunct2 [OF w] by (rule sleepers_listedD)
    then obtain z where "W w = Some cv'" by (rule cv_inv_member [OF cv])
    with w cv' show "w \<in> set (R cv) \<and> asleep s w" by simp
  next
    assume w: "w \<in> set (R cv) \<and> asleep s w"
    then obtain z where "W w = Some cv" by (blast elim: cv_inv_member [OF cv])
    with w show "W w = Some cv \<and> asleep s w" by simp
  qed
  have "\<exists>x. tcbs s' w = map_option mk_ready (tcbs s w) \<and> waiters s' w = Some x \<and> signalled x"
    if "w \<in> set (R cv) \<and> asleep s w" for w
  proof -
    from that obtain x where x: "waiters s w = Some x" by (blast elim: cv_inv_member [OF cv])
    from signals_toD(2) [OF s'(4) x] that s'(3) show ?thesis by (auto simp: all_woken_def)
  qed
  moreover have "tcbs s' w = tcbs s w" if "\<not> (w \<in> set (R cv) \<and> asleep s w)" for w
    using that s'(3) by (auto simp: all_woken_def)
  moreover have "condvars s' cv = None" using cv_invD(1) [OF cc_okD(2) [OF s'(2)], of cv] by (simp add: waitset_head_def)
  ultimately show ?thesis using s'(1) unfolding m by auto
qed

theorem broadcast_wakes_every_sleeper_witness:
  "\<exists>t s s'. asleep s t \<and> Cond_Broadcast 0 (UserCv 0) s = Inr s' \<and> tcbs s' t = map_option mk_ready (tcbs s t) \<and>
     condvars s' (UserCv 0) = None"
proof -
  obtain t s where r: "cc_reachable ((\<lambda>_. Running)(0 := Sleeping SCHED_USER), [t \<mapsto> UserCv 0], {}, s)"
    and a: "asleep s t" by (rule run_waiting [of "UserCv 0" 1]) (simp_all add: MAX_CORES_def)
  obtain s' where s': "Cond_Broadcast 0 (UserCv 0) s = Inr s'" "condvars s' (UserCv 0) = None"
    "\<forall>w. if [t \<mapsto> UserCv 0] w = Some (UserCv 0) \<and> asleep s w
         then \<exists>x. tcbs s' w = map_option mk_ready (tcbs s w) \<and> waiters s' w = Some x \<and> signalled x
         else tcbs s' w = tcbs s w"
    using broadcast_wakes_every_sleeper [OF r, of 0 "UserCv 0"] by blast
  from s'(3) [rule_format, of t] a have "tcbs s' t = map_option mk_ready (tcbs s t)" by auto
  with a s'(1,2) show ?thesis by blast
qed

text \<open>
  C16: A thread that comes back from its sleep leaves its wait set without a fault, whether it was
  signalled, timed out or was woken otherwise; the assertion of \<open>cv_wait\<close> holds, and the result is
  \<open>woken t\<close>: true exactly if, since this wait began, a step that runs \<open>Cond_Signal\<close> or
  \<open>Cond_Broadcast\<close> (or the signal of \<open>kernel_unlock\<close>) has taken the thread from asleep to ready.
  A waiter that was signalled has been taken out of the wait set by then.
\<close>

theorem wait_returns_signalled:
  assumes "cc_history n since woken (pc, W, H, s)" and "W (CURTHREAD c s) = Some cv"
  shows "\<exists>x s'. waiters s (CURTHREAD c s) = Some x \<and> cv_wait_end c cv s = Inr (woken (CURTHREAD c s), s') \<and>
    (woken (CURTHREAD c s) \<longrightarrow> removed x) \<and> waiters s' (CURTHREAD c s) = None \<and>
    (\<exists>ws. condvars s' cv = waitset_head ws \<and> cv_ring s' ws \<and> CURTHREAD c s \<notin> set ws)"
proof -
  obtain R where ok: "cc_ok pc W R s" and fl: "\<forall>t x. waiters s t = Some x \<longrightarrow> (signalled x \<longleftrightarrow> woken t)"
    using cc_history_ok [OF assms(1)] by (auto simp: history_ok_def)
  note cv = cc_okD(2) [OF ok]
  obtain x s' where s': "waiters s (CURTHREAD c s) = Some x" "cv_wait_end c cv s = Inr (signalled x, s')"
    "cc_ok pc (W(CURTHREAD c s := None)) (R(cv := remove1 (CURTHREAD c s) (R cv))) s'"
    "waiters s' = (waiters s)(CURTHREAD c s := None)" by (rule wait_end_ok [OF ok refl assms(2)])
  have "signalled x \<longrightarrow> removed x" using waiter_okD(5) [OF cv_invD(4) [OF cv s'(1)]] by blast
  moreover have "signalled x = woken (CURTHREAD c s)" using fl s'(1) by blast
  moreover have "CURTHREAD c s \<notin> set (remove1 (CURTHREAD c s) (R cv))"
    using cv_ring_distinct [OF cv_invD(2) [OF cv, of cv]] by simp
  moreover note cv_invD(1,2) [OF cc_okD(2) [OF s'(3)], of cv]
  ultimately show ?thesis using s'(1,2,4)
    by (intro exI [of _ x] exI [of _ s'] conjI exI [of _ "remove1 (CURTHREAD c s) (R cv)"]) simp_all
qed

text \<open>A thread waits on core 0 of two, and the idle thread of core 1 signals.\<close>

lemma run_signalled:
  obtains t n since woken pc s where "cc_history n since woken (pc, [t \<mapsto> UserCv 0], {}, s)" and "CURTHREAD 0 s = t"
    and "woken t"
proof -
  obtain t s where r: "cc_reachable ((\<lambda>_. Running)(0 := Sleeping SCHED_USER), [t \<mapsto> UserCv 0], {}, s)"
    and a: "asleep s t" and t: "CURTHREAD 0 s = t" and nc: "ncores s = 2"
    by (rule run_waiting [of "UserCv 0" 2]) (simp_all add: MAX_CORES_def)
  let ?pc = "(\<lambda>_. Running)(0 := Sleeping SCHED_USER)" and ?W = "[t \<mapsto> UserCv 0]"
  obtain n since woken where h: "cc_history n since woken (?pc, ?W, {}, s)" using reachable_history [OF r] by blast
  define s1 where "s1 = raise_interrupt 1 ICI s"
  have f: "tcbs s1 = tcbs s" "cctx s1 = cctx s" "awake 1 s1" using nc by (simp_all add: s1_def raise_interrupt_fields)
  obtain R where "cv_inv ?W R s" using cc_reachable_inv [OF r] by (auto simp: cc_inv_def cc_ok_def)
  then have "cv_quiet s s1" using cv_inv_alive f(1) by (fastforce simp: cv_quiet_def waiting_alive_def asleep_def)
  moreover have "sched_step (?pc, s) (?pc, s1)" unfolding s1_def by (rule step_interrupt) (simp add: nc)
  ultimately have st: "cc_step (?pc, ?W, {}, s) (?pc, ?W, {}, s1)" by (intro cc_sched)
  note h1 = history_next [OF h st]
  have r1: "cc_reachable (?pc, ?W, {}, s1)" by (rule cc_next [OF r st])
  obtain R1 where ok: "cc_ok ?pc ?W R1 s1" using cc_reachable_inv [OF r1] by (auto simp: cc_inv_def)
  obtain s2 where s2: "Cond_Signal 1 (UserCv 0) s1 = Inr s2" "cv_frame s1 s2"
    "tcbs s2 = woken_tcbs (wake_rest s1 (R1 (UserCv 0))) s1" by (rule signal_ok [OF ok])
  have st2: "cc_step (?pc, ?W, {}, s1) (?pc, ?W, {}, s2)" by (rule cc_signal [OF f(3) _ s2(1)]) simp
  note h2 = history_next [OF h1 st2]
  have a1: "asleep s1 t" using a f(1) by (simp add: asleep_def)
  have "waiters s1 t \<noteq> None" using cv_invD(3) [OF cc_okD(2) [OF ok], of t] by simp
  with cc_okD(3) [OF ok] obtain cv where cv: "t \<in> set (R1 cv)" using a1 by (rule sleepers_listedD)
  then have "cv = UserCv 0" by (rule cv_inv_member [OF cc_okD(2) [OF ok]]) simp
  with cv a1 have ne: "wake_rest s1 (R1 (UserCv 0)) \<noteq> []" using wake_rest_none by blast
  have "hd (wake_rest s1 (R1 (UserCv 0))) \<in> set (R1 (UserCv 0))"
    using ne wake_rest_append [of s1 "R1 (UserCv 0)"] by (cases "wake_rest s1 (R1 (UserCv 0))") auto
  then have "hd (wake_rest s1 (R1 (UserCv 0))) = t"
    by (rule cv_inv_member [OF cc_okD(2) [OF ok]]) (simp split: if_splits)
  then have "\<not> asleep s2 t" using asleep_woken [OF s2(3), of t] ne by simp
  moreover have "signal_step (?pc, ?W, {}, s1) (?pc, ?W, {}, s2)" by (rule sg_signal [OF s2(1)])
  ultimately have "wakes_in (?pc, ?W, {}, s1) (?pc, ?W, {}, s2) t" using a1 by (simp add: wakes_in_def)
  moreover have "CURTHREAD 0 s2 = t" using frame_core(2) [OF s2(2), of 0] t f(2) by (simp add: CURTHREAD_def)
  ultimately show ?thesis by (intro that [OF h2]) (simp_all add: begins_wait_same)
qed

theorem wait_returns_signalled_witness:
  "\<exists>s s'. cv_wait_end 0 (UserCv 0) s = Inr (True, s') \<and> waiters s (CURTHREAD 0 s) \<noteq> None"
proof -
  obtain t n since woken pc s where h: "cc_history n since woken (pc, [t \<mapsto> UserCv 0], {}, s)"
    and t: "CURTHREAD 0 s = t" "woken t" by (rule run_signalled)
  have "[t \<mapsto> UserCv 0] (CURTHREAD 0 s) = Some (UserCv 0)" using t by simp
  from wait_returns_signalled [OF h this] t show ?thesis by fastforce
qed

end
