(* ===== verification/Dev.thy ===== *)
theory Dev
  imports Bios
begin

text \<open>
  The device drivers and the device table of src/kernel_dev.c.  A driver's \<open>Read\<close> returns
  its return code and the bytes it stored into the buffer.  What the host answers to the
  successive calls of \<open>bios_read_serial\<close> and \<open>bios_write_serial\<close> is an argument: a byte
  or nothing, and whether the byte was taken.  A blocked call sleeps in \<open>kernel_wait\<close> or
  yields, and goes on with the next answer; if there is none it is still blocked.
\<close>

type_synonym byte = "8 word"

section \<open>The null device\<close>

text \<open>The size is returned as an \<open>int\<close>.\<close>

definition nulldev_read :: "stream_obj \<Rightarrow> uint \<Rightarrow> int \<times> byte list" where
  "nulldev_read dev sz = (sint sz, replicate (unat sz) 0)"

definition nulldev_write :: "stream_obj \<Rightarrow> byte list \<Rightarrow> uint \<Rightarrow> int" where
  "nulldev_write dev buf sz = sint sz"

definition nulldev_close :: "stream_obj \<Rightarrow> int" where
  "nulldev_close dev = 0"

definition nulldev_open :: "uint \<Rightarrow> stream_obj" where
  "nulldev_open minor = NullObj"

section \<open>The serial device\<close>

text \<open>The loop of \<open>serial_read\<close>; \<open>got\<close> are the bytes read so far, \<open>rx\<close> the answers to come.\<close>

fun serial_read_loop ::
  "byte option list \<Rightarrow> nat \<Rightarrow> byte list \<Rightarrow> (byte list \<times> byte option list) option" where
  "serial_read_loop rx sz got =
     (if length got < sz
      then (case rx of
              [] \<Rightarrow> None
            | Some b # rx' \<Rightarrow> serial_read_loop rx' sz (got @ [b])
            | None # rx' \<Rightarrow> if got = [] then serial_read_loop rx' sz got else Some (got, rx'))
      else Some (got, rx))"

definition serial_read ::
  "stream_obj \<Rightarrow> uint \<Rightarrow> byte option list \<Rightarrow> (int \<times> byte list \<times> byte option list) option" where
  "serial_read dev sz rx =
     (case serial_read_loop rx (unat sz) [] of
        None \<Rightarrow> None
      | Some (got, rx') \<Rightarrow> Some (sint (of_nat (length got) :: uint), got, rx'))"

text \<open>The loop of \<open>serial_write\<close>; the result is the number of bytes written.\<close>

fun serial_write_loop :: "bool list \<Rightarrow> nat \<Rightarrow> nat \<Rightarrow> (nat \<times> bool list) option" where
  "serial_write_loop tx sz count =
     (if count < sz
      then (case tx of
              [] \<Rightarrow> None
            | success # tx' \<Rightarrow>
                if success then serial_write_loop tx' sz (count + 1)
                else if count = 0 then serial_write_loop tx' sz count
                else Some (count, tx'))
      else Some (count, tx))"

definition serial_write ::
  "stream_obj \<Rightarrow> byte list \<Rightarrow> uint \<Rightarrow> bool list \<Rightarrow> (int \<times> byte list \<times> bool list) option" where
  "serial_write dev buf sz tx =
     (case serial_write_loop tx (unat sz) 0 of
        None \<Rightarrow> None
      | Some (count, tx') \<Rightarrow> Some (sint (of_nat count :: uint), take count buf, tx'))"

definition serial_close :: "stream_obj \<Rightarrow> int" where
  "serial_close dev = 0"

definition serial_open :: "uint \<Rightarrow> kernel \<Rightarrow> stream_obj result" where
  "serial_open term s =
     (if term < bios_serial_ports s then Inr (SerialObj (unat term)) else Inl AssertFail)"

section \<open>The pseudo-console\<close>

text \<open>
  The methods of src/console.c.  Every entry of the list is one \<open>fread_unlocked\<close> on the saved
  standard input: the bytes it stored and whether the stream has an error then, which is cleared.
  A call with an error is repeated from the start of the buffer.
\<close>

fun stdio_read :: "uint \<Rightarrow> (byte list \<times> bool) list \<Rightarrow> (int \<times> byte list \<times> (byte list \<times> bool) list) option" where
  "stdio_read sz [] = None"
| "stdio_read sz ((bs, ferror) # rest) =
     (if ferror then stdio_read sz rest
      else Some (sint (of_nat (length (take (unat sz) bs)) :: uint), take (unat sz) bs, rest))"

text \<open>The list holds how many bytes each \<open>fwrite_unlocked\<close> takes.\<close>

fun stdio_write :: "byte list \<Rightarrow> uint \<Rightarrow> nat list \<Rightarrow> (int \<times> byte list \<times> nat list) option" where
  "stdio_write buf sz [] = None"
| "stdio_write buf sz (n # rest) =
     (let k = min n (unat sz) in Some (sint (of_nat k :: uint), take k buf, rest))"

definition stdio_close :: "stream_obj \<Rightarrow> int" where
  "stdio_close this = 0"

section \<open>The tables of methods\<close>

text \<open>Calls through a \<open>file_ops\<close> table; \<open>env\<close> holds the answers of the host.\<close>

record dev_env =
  rx :: "byte option list"
  tx :: "bool list"
  stdin_ops :: "(byte list \<times> bool) list"
  stdout_ops :: "nat list"

definition dev_answers :: "byte option list \<Rightarrow> bool list \<Rightarrow> dev_env" where
  "dev_answers r t = \<lparr>rx = r, tx = t, stdin_ops = [], stdout_ops = []\<rparr>"

fun dev_Open :: "file_ops \<Rightarrow> uint \<Rightarrow> kernel \<Rightarrow> stream_obj result" where
  "dev_Open nulldev_fops minor s = Inr (nulldev_open minor)"
| "dev_Open serial_fops minor s = serial_open minor s"
| "dev_Open stdio_ops minor s = Inl NullDeref"

fun dev_Read :: "file_ops \<Rightarrow> stream_obj \<Rightarrow> uint \<Rightarrow> dev_env \<Rightarrow> (int \<times> byte list \<times> dev_env) option" where
  "dev_Read nulldev_fops dev sz env =
     (let (rc, buf) = nulldev_read dev sz in Some (rc, buf, env))"
| "dev_Read serial_fops dev sz env =
     (case serial_read dev sz (rx env) of
        None \<Rightarrow> None | Some (rc, buf, r) \<Rightarrow> Some (rc, buf, env\<lparr>rx := r\<rparr>))"
| "dev_Read stdio_ops dev sz env =
     (case stdio_read sz (stdin_ops env) of
        None \<Rightarrow> None | Some (rc, buf, r) \<Rightarrow> Some (rc, buf, env\<lparr>stdin_ops := r\<rparr>))"

text \<open>\<open>Write\<close> returns the bytes that went out with the return code.\<close>

fun dev_Write ::
  "file_ops \<Rightarrow> stream_obj \<Rightarrow> byte list \<Rightarrow> uint \<Rightarrow> dev_env \<Rightarrow> (int \<times> byte list \<times> dev_env) option" where
  "dev_Write nulldev_fops dev buf sz env = Some (nulldev_write dev buf sz, [], env)"
| "dev_Write serial_fops dev buf sz env =
     (case serial_write dev buf sz (tx env) of
        None \<Rightarrow> None | Some (rc, out, t) \<Rightarrow> Some (rc, out, env\<lparr>tx := t\<rparr>))"
| "dev_Write stdio_ops dev buf sz env =
     (case stdio_write buf sz (stdout_ops env) of
        None \<Rightarrow> None | Some (rc, out, t) \<Rightarrow> Some (rc, out, env\<lparr>stdout_ops := t\<rparr>))"

fun dev_Close :: "file_ops \<Rightarrow> stream_obj \<Rightarrow> int" where
  "dev_Close nulldev_fops dev = nulldev_close dev"
| "dev_Close serial_fops dev = serial_close dev"
| "dev_Close stdio_ops dev = stdio_close dev"

section \<open>The device table\<close>

text \<open>The condition variables and locks of the serial devices are empty and open from the start.\<close>

definition initialize_devices :: "nat \<Rightarrow> kernel \<Rightarrow> kernel" where
  "initialize_devices c s =
     (let d1 = (devtable s)(DEV_NULL := \<lparr>devnum = 1, dev_fops = nulldev_fops\<rparr>);
          d2 = d1(DEV_SERIAL := \<lparr>devnum = bios_serial_ports s, dev_fops = serial_fops\<rparr>);
          s1 = s\<lparr>devtable := d2,
                 condvars := (\<lambda>v. case v of RxReady i \<Rightarrow>
                   if i < unat (bios_serial_ports s) then None else condvars s v | _ \<Rightarrow> condvars s v)\<rparr>;
          s2 = cpu_interrupt_handler c SERIAL_RX_READY (Some serial_rx_handler) s1
      in cpu_interrupt_handler c SERIAL_TX_READY (Some serial_tx_handler) s2)"

text \<open>The result \<open>None\<close> is the return code \<open>-1\<close>.\<close>

definition device_open ::
  "Device_type \<Rightarrow> uint \<Rightarrow> kernel \<Rightarrow> (stream_obj \<times> file_ops) option result" where
  "device_open major minor s =
     (if major = DEV_MAX then Inl AssertFail
      else if minor \<ge> devnum (devtable s major) then Inr None
      else rbind (dev_Open (dev_fops (devtable s major)) minor s) (\<lambda>obj.
        Inr (Some (obj, dev_fops (devtable s major)))))"

definition device_no :: "Device_type \<Rightarrow> kernel \<Rightarrow> uint" where
  "device_no major s = devnum (devtable s major)"

end
