(* ===== verification/Streams.thy ===== *)
theory Streams
  imports Dev
begin

text \<open>
  The file table and the stream system calls of src/kernel_streams.c.  A call that runs on core
  \<open>c\<close> works on the file table of \<open>CURPROC\<close>.  \<open>sys_Read\<close> and \<open>sys_Write\<close> may
  block inside the driver, with the kernel lock released, so they are cut there: the first part
  takes the reference, the last part gives it back.
\<close>

section \<open>The pool of FCBs\<close>

definition init_FCB :: "fref \<Rightarrow> kernel \<Rightarrow> kernel" where
  "init_FCB i s =
     (let s1 = set_FCB i ((FT s i)\<lparr>refcount := 0\<rparr>) s;
          h1 = rlnode_init (FcbNode i) (OFcb i) (rl s1)
      in s1\<lparr>rl := rlist_push_back FcbFreelist (FcbNode i) h1\<rparr>)"

definition initialize_files :: "kernel \<Rightarrow> kernel" where
  "initialize_files s =
     fold init_FCB [0..<MAX_FILES] (s\<lparr>rl := rlnode_init FcbFreelist ONull (rl s)\<rparr>)"

definition acquire_FCB :: "kernel \<Rightarrow> (fref option \<times> kernel) result" where
  "acquire_FCB s =
     (if \<not> is_rlist_empty FcbFreelist (rl s)
      then (let (n, h) = rlist_pop_front FcbFreelist (rl s)
            in case obj h n of
                 OFcb f \<Rightarrow> Inr (Some f, set_FCB f ((FT s f)\<lparr>refcount := 0\<rparr>) (s\<lparr>rl := h\<rparr>))
               | _ \<Rightarrow> Inl NullDeref)
      else Inr (None, s))"

definition release_FCB :: "fref \<Rightarrow> kernel \<Rightarrow> kernel" where
  "release_FCB f s = s\<lparr>rl := rlist_push_back FcbFreelist (FcbNode f) (rl s)\<rparr>"

definition FCB_incref :: "fref \<Rightarrow> kernel \<Rightarrow> kernel" where
  "FCB_incref f s = set_FCB f ((FT s f)\<lparr>refcount := refcount (FT s f) + 1\<rparr>) s"

definition FCB_decref :: "fref \<Rightarrow> kernel \<Rightarrow> (int \<times> kernel) result" where
  "FCB_decref f s =
     (let s1 = set_FCB f ((FT s f)\<lparr>refcount := refcount (FT s f) - 1\<rparr>) s
      in if refcount (FT s1 f) = 0
         then (case streamfunc (FT s1 f) of
                 None \<Rightarrow> Inl NullDeref
               | Some ops \<Rightarrow> Inr (dev_Close ops (streamobj (FT s1 f)), release_FCB f s1))
         else Inr (0, s1))"

section \<open>Reserving FCBs and file ids\<close>

text \<open>The inner loop: the first free file id from \<open>f\<close> on, or \<open>MAX_FILEID\<close>.\<close>

function skip_used :: "(nat \<Rightarrow> fref option) \<Rightarrow> nat \<Rightarrow> nat" where
  "skip_used fidt f = (if f < MAX_FILEID \<and> fidt f \<noteq> None then skip_used fidt (f + 1) else f)"
  by auto
termination by (relation "measure (\<lambda>(_, f). MAX_FILEID - f)") auto

declare skip_used.simps [simp del]

text \<open>\<open>num\<close> distinct free file ids, or \<open>None\<close> if there are not that many.\<close>

fun find_fids :: "nat \<Rightarrow> (nat \<Rightarrow> fref option) \<Rightarrow> nat \<Rightarrow> nat list option" where
  "find_fids 0 fidt f = Some []"
| "find_fids (Suc num) fidt f =
     (let f1 = skip_used fidt f
      in if f1 = MAX_FILEID then None
         else map_option (\<lambda>fs. f1 # fs) (find_fids num fidt (f1 + 1)))"

text \<open>The FCBs acquired until the pool is empty or there are \<open>num\<close>.\<close>

fun acquire_FCBs :: "nat \<Rightarrow> kernel \<Rightarrow> (fref list \<times> kernel) result" where
  "acquire_FCBs 0 s = Inr ([], s)"
| "acquire_FCBs (Suc num) s =
     rbind (acquire_FCB s) (\<lambda>(r, s1). case r of
       None \<Rightarrow> Inr ([], s1)
     | Some f \<Rightarrow> rbind (acquire_FCBs num s1) (\<lambda>(fs, s2). Inr (f # fs, s2)))"

definition set_fid :: "pref \<Rightarrow> nat \<Rightarrow> fref option \<Rightarrow> kernel \<Rightarrow> kernel" where
  "set_fid p i r s = set_PCB p ((PT s p)\<lparr>FIDT := (FIDT (PT s p))(i := r)\<rparr>) s"

definition FCB_reserve :: "nat \<Rightarrow> nat \<Rightarrow> kernel \<Rightarrow> ((nat list \<times> fref list) option \<times> kernel) result" where
  "FCB_reserve c num s =
     rbind (CURPROC c s) (\<lambda>cur.
       case find_fids num (FIDT (PT s cur)) 0 of
         None \<Rightarrow> Inr (None, s)
       | Some fids \<Rightarrow> rbind (acquire_FCBs num s) (\<lambda>(fcbs, s1).
           if length fcbs < num then Inr (None, fold release_FCB (rev fcbs) s1)
           else Inr (Some (fids, fcbs),
             fold (\<lambda>(i, f) s. FCB_incref f (set_fid cur i (Some f) s)) (zip fids fcbs) s1)))"

fun unreserve_loop :: "pref \<Rightarrow> (nat \<times> fref) list \<Rightarrow> kernel \<Rightarrow> kernel result" where
  "unreserve_loop cur [] s = Inr s"
| "unreserve_loop cur ((i, f) # ifs) s =
     (if FIDT (PT s cur) i \<noteq> Some f then Inl AssertFail
      else unreserve_loop cur ifs (release_FCB f (set_fid cur i None s)))"

definition FCB_unreserve :: "nat \<Rightarrow> nat list \<Rightarrow> fref list \<Rightarrow> kernel \<Rightarrow> kernel result" where
  "FCB_unreserve c fids fcbs s =
     rbind (CURPROC c s) (\<lambda>cur. unreserve_loop cur (zip fids fcbs) s)"

section \<open>The system calls\<close>

definition legal_fid :: "int \<Rightarrow> bool" where
  "legal_fid fid \<longleftrightarrow> 0 \<le> fid \<and> fid < int MAX_FILEID"

definition get_fcb :: "nat \<Rightarrow> int \<Rightarrow> kernel \<Rightarrow> fref option result" where
  "get_fcb c fid s =
     (if \<not> legal_fid fid then Inr None
      else rbind (CURPROC c s) (\<lambda>cur. Inr (FIDT (PT s cur) (nat fid))))"

text \<open>
  What \<open>sys_Read\<close> and \<open>sys_Write\<close> do before they call the driver: \<open>None\<close> is a call
  that fails, otherwise the FCB, its stream object and its methods.
\<close>

definition io_enter ::
  "nat \<Rightarrow> int \<Rightarrow> kernel \<Rightarrow> ((fref \<times> stream_obj \<times> file_ops) option \<times> kernel) result" where
  "io_enter c fd s =
     rbind (get_fcb c fd s) (\<lambda>r. case r of
       None \<Rightarrow> Inr (None, s)
     | Some f \<Rightarrow> (case streamfunc (FT s f) of
           None \<Rightarrow> Inl NullDeref
         | Some ops \<Rightarrow> Inr (Some (f, streamobj (FT s f), ops), FCB_incref f s)))"

definition io_leave :: "fref \<Rightarrow> kernel \<Rightarrow> kernel result" where
  "io_leave f s = rbind (FCB_decref f s) (\<lambda>(rc, s1). Inr s1)"

text \<open>
  The whole calls, when the driver returns: the answers of the host decide.  \<open>None\<close> is a call
  that stays blocked in the driver.
\<close>

definition sys_Read ::
  "nat \<Rightarrow> int \<Rightarrow> uint \<Rightarrow> dev_env \<Rightarrow> kernel \<Rightarrow> (int \<times> byte list \<times> kernel) option result" where
  "sys_Read c fd sz env s =
     rbind (io_enter c fd s) (\<lambda>(r, s1). case r of
       None \<Rightarrow> Inr (Some (-1, [], s1))
     | Some (f, sobj, ops) \<Rightarrow> (case dev_Read ops sobj sz env of
           None \<Rightarrow> Inr None
         | Some (rc, buf, env') \<Rightarrow> rbind (io_leave f s1) (\<lambda>s2. Inr (Some (rc, buf, s2)))))"

definition sys_Write ::
  "nat \<Rightarrow> int \<Rightarrow> byte list \<Rightarrow> uint \<Rightarrow> dev_env \<Rightarrow> kernel \<Rightarrow> (int \<times> byte list \<times> kernel) option result" where
  "sys_Write c fd buf sz env s =
     rbind (io_enter c fd s) (\<lambda>(r, s1). case r of
       None \<Rightarrow> Inr (Some (-1, [], s1))
     | Some (f, sobj, ops) \<Rightarrow> (case dev_Write ops sobj buf sz env of
           None \<Rightarrow> Inr None
         | Some (rc, out, env') \<Rightarrow> rbind (io_leave f s1) (\<lambda>s2. Inr (Some (rc, out, s2)))))"

definition sys_Close :: "nat \<Rightarrow> int \<Rightarrow> kernel \<Rightarrow> (int \<times> kernel) result" where
  "sys_Close c fd s =
     (let retcode = (if legal_fid fd then 0 else -1)
      in rbind (get_fcb c fd s) (\<lambda>r. case r of
           None \<Rightarrow> Inr (retcode, s)
         | Some f \<Rightarrow> rbind (CURPROC c s) (\<lambda>cur. FCB_decref f (set_fid cur (nat fd) None s))))"

definition sys_Dup2 :: "nat \<Rightarrow> int \<Rightarrow> int \<Rightarrow> kernel \<Rightarrow> (int \<times> kernel) result" where
  "sys_Dup2 c oldfd newfd s =
     (if \<not> legal_fid oldfd \<or> \<not> legal_fid newfd then Inr (-1, s)
      else rbind (get_fcb c oldfd s) (\<lambda>old. rbind (get_fcb c newfd s) (\<lambda>new.
        case old of
          None \<Rightarrow> Inr (-1, s)
        | Some f \<Rightarrow>
            if old \<noteq> new
            then rbind (case new of None \<Rightarrow> Inr s
                        | Some g \<Rightarrow> rbind (FCB_decref g s) (\<lambda>(rc, s1). Inr s1)) (\<lambda>s1.
                 rbind (CURPROC c (FCB_incref f s1)) (\<lambda>cur.
                 Inr (0, set_fid cur (nat newfd) (Some f) (FCB_incref f s1))))
            else Inr (0, s))))"

definition sys_GetTerminalDevices :: "kernel \<Rightarrow> uint" where
  "sys_GetTerminalDevices s = device_no DEV_SERIAL s"

text \<open>\<open>device_open\<close> stores through the pointers to the fields of the FCB it is given.\<close>

definition open_stream :: "nat \<Rightarrow> Device_type \<Rightarrow> uint \<Rightarrow> kernel \<Rightarrow> (int \<times> kernel) result" where
  "open_stream c major minor s =
     rbind (FCB_reserve c 1 s) (\<lambda>(r, s1). case r of
       None \<Rightarrow> Inr (NOFILE, s1)
     | Some (fids, fcbs) \<Rightarrow>
         rbind (device_open major minor s1) (\<lambda>d. case d of
           None \<Rightarrow> rbind (FCB_unreserve c fids fcbs s1) (\<lambda>s2. Inr (NOFILE, s2))
         | Some (dobj, ops) \<Rightarrow> Inr (int (hd fids), set_FCB (hd fcbs)
             ((FT s1 (hd fcbs))\<lparr>streamobj := dobj, streamfunc := Some ops\<rparr>) s1)))"

definition sys_OpenNull :: "nat \<Rightarrow> kernel \<Rightarrow> (int \<times> kernel) result" where
  "sys_OpenNull c s = open_stream c DEV_NULL 0 s"

definition sys_OpenTerminal :: "nat \<Rightarrow> uint \<Rightarrow> kernel \<Rightarrow> (int \<times> kernel) result" where
  "sys_OpenTerminal c termno s = open_stream c DEV_SERIAL termno s"

end
