(* ===== verification/Streams_Pool.thy ===== *)
theory Streams_Pool
  imports Streams
begin

text \<open>
  The pool of FCBs.  \<open>fcb_pool cnt s fl\<close> says that the free list holds the FCBs \<open>fl\<close> and
  that every other FCB \<open>f\<close> has the reference count \<open>cnt f\<close>.  The pools of FCBs and of PCBs
  have one interface, the locale \<open>resource_pool\<close>.
\<close>

section \<open>The interface of a pool\<close>

locale resource_pool =
  fixes pool :: "'s \<Rightarrow> 'r list \<Rightarrow> bool"       \<comment> \<open>the free resources, the next one first\<close>
    and held :: "'s \<Rightarrow> 'r \<Rightarrow> bool"            \<comment> \<open>the resource is out of the pool and may go back\<close>
    and acquire :: "'s \<Rightarrow> ('r option \<times> 's) result"
    and release :: "'r \<Rightarrow> 's \<Rightarrow> 's"
  assumes pool_distinct: "pool s rs \<Longrightarrow> distinct rs"
    and pool_held: "pool s rs \<Longrightarrow> held s r \<Longrightarrow> r \<notin> set rs"
    and acquire_empty: "pool s [] \<Longrightarrow> acquire s = Inr (None, s)"
    and acquire_next: "pool s (r # rs) \<Longrightarrow> \<exists>s'. acquire s = Inr (Some r, s') \<and> pool s' rs \<and> held s' r \<and>
      (\<forall>q. held s q \<longrightarrow> held s' q)"
    and release_law: "pool s rs \<Longrightarrow> held s r \<Longrightarrow> \<exists>rs'. pool (release r s) rs' \<and>
      set rs' = insert r (set rs) \<and> (\<forall>q. q \<noteq> r \<longrightarrow> held s q \<longrightarrow> held (release r s) q)"
begin

text \<open>Releasing a batch of held resources puts all of them back.\<close>

lemma release_all:
  "pool s rs \<Longrightarrow> distinct qs \<Longrightarrow> \<forall>q \<in> set qs. held s q \<Longrightarrow>
    \<exists>rs'. pool (fold release qs s) rs' \<and> set rs' = set rs \<union> set qs"
proof (induction qs arbitrary: s rs)
  case Nil
  then show ?case by auto
next
  case (Cons q qs)
  obtain rs1 where r1: "pool (release q s) rs1" "set rs1 = insert q (set rs)"
    "\<forall>p. p \<noteq> q \<longrightarrow> held s p \<longrightarrow> held (release q s) p"
    using release_law [OF Cons.prems(1), of q] Cons.prems(3) by auto
  have "\<forall>p \<in> set qs. held (release q s) p" using Cons.prems(2,3) r1(3) by auto
  from Cons.IH [OF r1(1) _ this] Cons.prems(2) r1(2) show ?case by auto
qed

text \<open>What was acquired and released again is free, and nothing else has changed hands.\<close>

lemma acquire_release:
  assumes "pool s (r # rs)"
  obtains s' rs' where "acquire s = Inr (Some r, s')" and "pool (release r s') rs'"
    and "set rs' = set (r # rs)"
proof -
  obtain s' where s': "acquire s = Inr (Some r, s')" "pool s' rs" "held s' r"
    using acquire_next [OF assms] by blast
  obtain rs' where "pool (release r s') rs'" "set rs' = insert r (set rs)"
    using release_law [OF s'(2,3)] by blast
  with s'(1) show ?thesis by (intro that) auto
qed

text \<open>The pool is never handed out twice: a resource that is held is not the next one.\<close>

lemma acquire_fresh:
  assumes "pool s rs" and "acquire s = Inr (Some r, s')"
  shows "\<not> held s r" and "r \<in> set rs"
proof -
  obtain q qs where "rs = q # qs" using assms acquire_empty by (cases rs) fastforce+
  moreover from this have "q = r" using acquire_next [of s q qs] assms by auto
  ultimately show "r \<in> set rs" by simp
  then show "\<not> held s r" using pool_held [OF assms(1)] by blast
qed

end

section \<open>The pool of FCBs\<close>

definition fcb_pool :: "(fref \<Rightarrow> nat option) \<Rightarrow> kernel \<Rightarrow> fref list \<Rightarrow> bool" where
  "fcb_pool cnt s fl \<longleftrightarrow>
     isring (rl s) FcbFreelist (map FcbNode fl) \<and>
     (\<forall>f. f \<in> set fl \<longleftrightarrow> f < MAX_FILES \<and> cnt f = None) \<and>
     (\<forall>f < MAX_FILES. obj (rl s) (FcbNode f) = OFcb f) \<and>
     (\<forall>f n. cnt f = Some n \<longrightarrow> f < MAX_FILES \<and> isring (rl s) (FcbNode f) [] \<and>
        refcount (FT s f) = of_nat n)"

lemma fcb_poolD:
  assumes "fcb_pool cnt s fl"
  shows "isring (rl s) FcbFreelist (map FcbNode fl)" and "f \<in> set fl \<longleftrightarrow> f < MAX_FILES \<and> cnt f = None"
    and "f < MAX_FILES \<Longrightarrow> obj (rl s) (FcbNode f) = OFcb f" and "cnt f = Some n \<Longrightarrow> f < MAX_FILES"
    and "cnt f = Some n \<Longrightarrow> isring (rl s) (FcbNode f) []"
    and "cnt f = Some n \<Longrightarrow> refcount (FT s f) = of_nat n" and "distinct fl"
proof -
  show "isring (rl s) FcbFreelist (map FcbNode fl)" using assms by (simp add: fcb_pool_def)
  from isring_distinct [OF this] show "distinct fl" by (simp add: distinct_map)
qed (use assms in \<open>auto simp: fcb_pool_def\<close>)

lemma fcb_pool_cong:
  "rl s' = rl s \<Longrightarrow> (\<And>f. refcount (FT s' f) = refcount (FT s f)) \<Longrightarrow> fcb_pool cnt s' fl = fcb_pool cnt s fl"
  by (simp add: fcb_pool_def)

lemma acquire_fcb_pool:
  assumes p: "fcb_pool cnt s (f # fs)"
  obtains s' where "acquire_FCB s = Inr (Some f, s')" and "fcb_pool (cnt(f \<mapsto> 0)) s' fs"
    and "PT s' = PT s" and "\<forall>g. streamfunc (FT s' g) = streamfunc (FT s g)" and "tcbs s' = tcbs s"
    and "cctx s' = cctx s" and "devtable s' = devtable s" and "nterm s' = nterm s"
proof -
  note d = fcb_poolD [OF p]
  have r: "isring (rl s) FcbFreelist (FcbNode f # map FcbNode fs)" using d(1) by simp
  let ?h = "snd (rlist_pop_front FcbFreelist (rl s))"
  let ?s' = "set_FCB f ((FT s f)\<lparr>refcount := 0\<rparr>) (s\<lparr>rl := ?h\<rparr>)"
  note pop = rl.pop_law [OF r]
  have f: "f < MAX_FILES" "cnt f = None" "f \<notin> set fs" using d(2) [of f] d(7) by auto
  have keep: "isring ?h (FcbNode g) []" if "cnt g = Some n" for g n
    by (rule rl.pop_keeps_law [OF d(5) [OF that] r]) simp
  have "acquire_FCB s = Inr (Some f, ?s')"
    using r pop d(3) [OF f(1)]
    by (simp add: acquire_FCB_def is_rlist_empty_iff prod.case_eq_if Let_def)
  moreover have "fcb_pool (cnt(f \<mapsto> 0)) ?s' fs"
    unfolding fcb_pool_def
  proof (intro conjI allI impI)
    show "isring (rl ?s') FcbFreelist (map FcbNode fs)" using pop by (simp add: set_FCB_def)
    show "g \<in> set fs \<longleftrightarrow> g < MAX_FILES \<and> (cnt(f \<mapsto> 0)) g = None" for g
      using d(2) [of g] f by auto
    show "obj (rl ?s') (FcbNode g) = OFcb g" if "g < MAX_FILES" for g
      using d(3) [OF that] by (simp add: set_FCB_def)
    fix g n assume g: "(cnt(f \<mapsto> 0)) g = Some n"
    show "g < MAX_FILES" using g f d(4) by (auto split: if_splits)
    show "isring (rl ?s') (FcbNode g) []" using g keep pop by (auto simp: set_FCB_def split: if_splits)
    show "refcount (FT ?s' g) = of_nat n" using g d(6) by (auto simp: set_FCB_def split: if_splits)
  qed
  ultimately show ?thesis by (rule that) (auto simp: set_FCB_def)
qed

lemma acquire_fcb_empty: "fcb_pool cnt s [] \<Longrightarrow> acquire_FCB s = Inr (None, s)"
  using fcb_poolD(1) [of cnt s "[]"] by (simp add: acquire_FCB_def is_rlist_empty_iff)

lemma release_fcb_pool:
  assumes p: "fcb_pool cnt s fl" and f: "cnt f = Some n"
  shows "fcb_pool (cnt(f := None)) (release_FCB f s) (fl @ [f])"
proof -
  note d = fcb_poolD [OF p]
  note lone = d(5) [OF f]
  have nf: "FcbNode f \<notin> set (FcbFreelist # map FcbNode fl)" using d(2) [of f] f by auto
  let ?h = "rlist_push_back FcbFreelist (FcbNode f) (rl s)"
  have keep: "isring ?h (FcbNode g) []" if "cnt g = Some m" "g \<noteq> f" for g m
    using rl.push_keeps_law [OF d(5) [OF that(1)] d(1) lone] that(2) by simp
  show ?thesis
    unfolding fcb_pool_def release_FCB_def
  proof (intro conjI allI impI, goal_cases)
    case 1
    show ?case using rl.push_back_law [OF d(1) lone nf] by simp
  next
    case (2 g)
    show ?case using d(2) [of g] d(4) [OF f] by auto
  next
    case (3 g)
    then show ?case using d(3) by simp
  qed (use d(4,6) keep in \<open>auto split: if_splits\<close>)
qed

lemma incref_fcb_pool:
  assumes "fcb_pool cnt s fl" and "cnt f = Some n"
  shows "fcb_pool (cnt(f \<mapsto> Suc n)) (FCB_incref f s) fl"
  using assms by (auto simp: fcb_pool_def FCB_incref_def set_FCB_def)

lemma decref_fcb_pool:
  assumes p: "fcb_pool cnt s fl" and f: "cnt f = Some (Suc n)" and n: "Suc n < 2 ^ 32"
    and ops: "streamfunc (FT s f) = Some ops"
  obtains s' where "FCB_decref f s = Inr (if n = 0 then dev_Close ops (streamobj (FT s f)) else 0, s')"
    and "fcb_pool (cnt(f := if n = 0 then None else Some n)) s' (if n = 0 then fl @ [f] else fl)"
    and "PT s' = PT s" and "\<forall>g. streamfunc (FT s' g) = streamfunc (FT s g)" and "tcbs s' = tcbs s"
    and "cctx s' = cctx s"
proof -
  let ?s1 = "set_FCB f ((FT s f)\<lparr>refcount := refcount (FT s f) - 1\<rparr>) s"
  have rc: "refcount (FT s f) = of_nat (Suc n)" using fcb_poolD(6) [OF p f] .
  have "(of_nat n :: uint) = 0 \<longleftrightarrow> n = 0"
    using n by (simp add: word_of_nat_eq_0_iff dvd_eq_mod_eq_0 mod_less)
  then have z: "refcount (FT ?s1 f) = 0 \<longleftrightarrow> n = 0" by (simp add: set_FCB_def rc)
  have p1: "fcb_pool (cnt(f \<mapsto> n)) ?s1 fl"
    using p f rc by (auto simp: fcb_pool_def set_FCB_def)
  show ?thesis
  proof (cases "n = 0")
    case True
    then have "FCB_decref f s = Inr (dev_Close ops (streamobj (FT s f)), release_FCB f ?s1)"
      using z ops by (simp add: FCB_decref_def set_FCB_def Let_def)
    moreover have "fcb_pool (cnt(f := None)) (release_FCB f ?s1) (fl @ [f])"
      using release_fcb_pool [OF p1, of f n] by simp
    ultimately show ?thesis using True
      by (intro that [of "release_FCB f ?s1"]) (auto simp: release_FCB_def set_FCB_def)
  next
    case False
    then have "FCB_decref f s = Inr (0, ?s1)" using z by (simp add: FCB_decref_def Let_def)
    with False p1 show ?thesis by (intro that [of ?s1]) (auto simp: set_FCB_def)
  qed
qed

section \<open>The FCBs are a pool\<close>

definition fcb_free :: "kernel \<Rightarrow> fref list \<Rightarrow> bool" where
  "fcb_free s fl \<longleftrightarrow> (\<exists>cnt. fcb_pool cnt s fl)"

definition fcb_held :: "kernel \<Rightarrow> fref \<Rightarrow> bool" where
  "fcb_held s f \<longleftrightarrow> f < MAX_FILES \<and> isring (rl s) (FcbNode f) []"

lemma fcb_held_iff:
  assumes "fcb_pool cnt s fl"
  shows "fcb_held s f \<longleftrightarrow> cnt f \<noteq> None"
proof
  note d = fcb_poolD [OF assms]
  assume h: "fcb_held s f"
  have "FcbFreelist \<notin> set [FcbNode f]" by simp
  from isring_disjoint [OF d(1) _ this] h have "f \<notin> set fl"
    by (auto simp: fcb_held_def)
  with d(2) [of f] h show "cnt f \<noteq> None" by (auto simp: fcb_held_def)
qed (use fcb_poolD(4,5) [OF assms] in \<open>auto simp: fcb_held_def\<close>)

interpretation fcbs: resource_pool fcb_free fcb_held acquire_FCB release_FCB
proof (unfold_locales, goal_cases)
  case (1 s rs)
  then show ?case using fcb_poolD(7) by (auto simp: fcb_free_def)
next
  case (2 s rs r)
  then show ?case using fcb_poolD(2) fcb_held_iff by (fastforce simp: fcb_free_def)
next
  case (3 s)
  then show ?case using acquire_fcb_empty by (auto simp: fcb_free_def)
next
  case (4 s r rs)
  then obtain cnt where p: "fcb_pool cnt s (r # rs)" by (auto simp: fcb_free_def)
  obtain s' where s': "acquire_FCB s = Inr (Some r, s')" "fcb_pool (cnt(r \<mapsto> 0)) s' rs"
    by (rule acquire_fcb_pool [OF p])
  have "fcb_held s' r \<and> (\<forall>q. fcb_held s q \<longrightarrow> fcb_held s' q)"
    using fcb_held_iff [OF p] fcb_held_iff [OF s'(2)] by simp
  with s' show ?case by (auto simp: fcb_free_def)
next
  case (5 s rs r)
  then obtain cnt where p: "fcb_pool cnt s rs" by (auto simp: fcb_free_def)
  with 5 obtain n where n: "cnt r = Some n" using fcb_held_iff by auto
  note q = release_fcb_pool [OF p n]
  have "\<forall>f. f \<noteq> r \<longrightarrow> fcb_held s f \<longrightarrow> fcb_held (release_FCB r s) f"
    using fcb_held_iff [OF p] fcb_held_iff [OF q] by simp
  with q show ?case by (intro exI [of _ "rs @ [r]"]) (auto simp: fcb_free_def)
qed

end
