(* ===== verification/Streams_Inv.thy ===== *)
theory Streams_Inv
  imports Streams_Pool
begin

text \<open>
  Reference counting of the streams.  The reference count of an FCB is the number of file ids,
  over all processes, that refer to it, plus the number of calls of \<open>sys_Read\<close> and
  \<open>sys_Write\<close> that are inside its driver.  An FCB is in the pool exactly when that number is
  zero.  Every system call keeps this and meets no fault.
\<close>

section \<open>Counting references\<close>

definition fid_slots :: "kernel \<Rightarrow> fref \<Rightarrow> (pref \<times> nat) set" where
  "fid_slots s f = {(p, i). p < MAX_PROC \<and> i < MAX_FILEID \<and> FIDT (PT s p) i = Some f}"

definition nrefs :: "kernel \<Rightarrow> fref \<Rightarrow> nat" where
  "nrefs s f = card (fid_slots s f)"

lemma finite_fid_slots [simp]: "finite (fid_slots s f)"
  by (rule finite_subset [of _ "{..<MAX_PROC} \<times> {..<MAX_FILEID}"]) (auto simp: fid_slots_def)

lemma nrefs_bound: "nrefs s f \<le> 2 ^ 20"
proof -
  have "fid_slots s f \<subseteq> {..<MAX_PROC} \<times> {..<MAX_FILEID}" by (auto simp: fid_slots_def)
  then have "nrefs s f \<le> card ({..<MAX_PROC} \<times> {..<MAX_FILEID})"
    unfolding nrefs_def by (intro card_mono) simp_all
  then show ?thesis by (simp add: MAX_PROC_def MAX_FILEID_def)
qed

lemma set_fid_simps [simp]:
  "rl (set_fid p i r s) = rl s" "FT (set_fid p i r s) = FT s" "tcbs (set_fid p i r s) = tcbs s"
  "cctx (set_fid p i r s) = cctx s" "devtable (set_fid p i r s) = devtable s"
  "nterm (set_fid p i r s) = nterm s"
  "FIDT (PT (set_fid p i r s) q) j = (if q = p \<and> j = i then r else FIDT (PT s q) j)"
  by (simp_all add: set_fid_def set_PCB_def)

lemma nrefs_set_fid:
  assumes "p < MAX_PROC" and "i < MAX_FILEID"
  shows "nrefs (set_fid p i r s) g + (if FIDT (PT s p) i = Some g then 1 else 0) =
    nrefs s g + (if r = Some g then 1 else 0)"
proof -
  have *: "fid_slots (set_fid p i r s) g =
      (fid_slots s g - {(p, i)}) \<union> (if r = Some g then {(p, i)} else {})"
    using assms by (auto simp: fid_slots_def split: if_splits)
  have m: "(p, i) \<in> fid_slots s g \<longleftrightarrow> FIDT (PT s p) i = Some g" using assms by (simp add: fid_slots_def)
  show ?thesis
  proof (cases "FIDT (PT s p) i = Some g")
    case True
    with m have "card (fid_slots s g) = Suc (card (fid_slots s g - {(p, i)}))"
      by (intro card.remove finite_fid_slots) blast
    moreover have "card (insert (p, i) (fid_slots s g - {(p, i)})) = Suc (card (fid_slots s g - {(p, i)}))"
      by (rule card_insert_disjoint) simp_all
    ultimately show ?thesis using True unfolding nrefs_def * by simp
  next
    case False
    with m have d: "fid_slots s g - {(p, i)} = fid_slots s g" "(p, i) \<notin> fid_slots s g" by blast+
    then show ?thesis using False unfolding nrefs_def * d by simp
  qed
qed

lemma nrefs_cong: "PT s' = PT s \<Longrightarrow> nrefs s' = nrefs s"
  by (simp add: fun_eq_iff nrefs_def fid_slots_def)

section \<open>The invariant\<close>

definition cnt_of :: "nat \<Rightarrow> nat option" where
  "cnt_of n = (if n = 0 then None else Some n)"

text \<open>The FCBs have the reference counts \<open>N\<close>.\<close>

definition fs_cnt :: "(fref \<Rightarrow> nat) \<Rightarrow> kernel \<Rightarrow> fref list \<Rightarrow> bool" where
  "fs_cnt N s fl \<longleftrightarrow> fcb_pool (\<lambda>f. cnt_of (N f)) s fl \<and>
     (\<forall>f. N f \<noteq> 0 \<longrightarrow> streamfunc (FT s f) \<noteq> None) \<and>
     (\<forall>p i. FIDT (PT s p) i \<noteq> None \<longrightarrow> p < MAX_PROC \<and> i < MAX_FILEID)"

definition fs_inv :: "(fref \<Rightarrow> nat) \<Rightarrow> kernel \<Rightarrow> fref list \<Rightarrow> bool" where
  "fs_inv pins s fl \<longleftrightarrow> fs_cnt (\<lambda>f. nrefs s f + pins f) s fl \<and> (\<forall>f. pins f < 2 ^ 31)"

lemma fs_invD:
  assumes "fs_inv pins s fl"
  shows "fs_cnt (\<lambda>f. nrefs s f + pins f) s fl" and "pins f < 2 ^ 31"
    and "nrefs s f + pins f < 2 ^ 32"
proof -
  show "fs_cnt (\<lambda>f. nrefs s f + pins f) s fl" and "pins f < 2 ^ 31"
    using assms by (simp_all add: fs_inv_def)
  then show "nrefs s f + pins f < 2 ^ 32" using nrefs_bound [of s f] by simp
qed

lemma fs_cntD:
  assumes "fs_cnt N s fl"
  shows "fcb_pool (\<lambda>f. cnt_of (N f)) s fl"
    and "N f \<noteq> 0 \<Longrightarrow> \<exists>ops. streamfunc (FT s f) = Some ops"
    and "FIDT (PT s p) i = Some f \<Longrightarrow> p < MAX_PROC \<and> i < MAX_FILEID"
    and "f \<in> set fl \<longleftrightarrow> f < MAX_FILES \<and> N f = 0"
  using assms fcb_poolD(2) [of "\<lambda>f. cnt_of (N f)" s fl f]
  by (auto simp: fs_cnt_def cnt_of_def split: if_splits)

lemma cnt_of_upd: "(\<lambda>g. cnt_of ((N(f := n)) g)) = (\<lambda>g. cnt_of (N g))(f := cnt_of n)"
  by auto

lemma incref_fs:
  assumes "fs_cnt N s fl" and "N f \<noteq> 0"
  shows "fs_cnt (N(f := Suc (N f))) (FCB_incref f s) fl"
proof -
  have "fcb_pool ((\<lambda>g. cnt_of (N g))(f \<mapsto> Suc (N f))) (FCB_incref f s) fl"
    by (rule incref_fcb_pool [OF fs_cntD(1) [OF assms(1)]]) (use assms(2) in \<open>simp add: cnt_of_def\<close>)
  then show ?thesis
    unfolding fs_cnt_def cnt_of_upd using assms
    by (auto simp: fs_cnt_def cnt_of_def FCB_incref_def set_FCB_def)
qed

lemma decref_fs:
  assumes "fs_cnt N s fl" and n: "N f = Suc n" "Suc n < 2 ^ 32"
  obtains s' fl' rc where "FCB_decref f s = Inr (rc, s')" and "fs_cnt (N(f := n)) s' fl'"
    and "PT s' = PT s" and "tcbs s' = tcbs s" and "cctx s' = cctx s"
    and "n \<noteq> 0 \<longrightarrow> rc = 0"
    and "n = 0 \<longrightarrow> (\<exists>ops. streamfunc (FT s f) = Some ops \<and> rc = dev_Close ops (streamobj (FT s f)))"
proof -
  obtain ops where ops: "streamfunc (FT s f) = Some ops" using fs_cntD(2) [OF assms(1)] n by fastforce
  have c: "cnt_of (N f) = Some (Suc n)" using n by (simp add: cnt_of_def)
  obtain s' where s': "FCB_decref f s = Inr (if n = 0 then dev_Close ops (streamobj (FT s f)) else 0, s')"
    "fcb_pool ((\<lambda>g. cnt_of (N g))(f := if n = 0 then None else Some n)) s' (if n = 0 then fl @ [f] else fl)"
    "PT s' = PT s" "\<forall>g. streamfunc (FT s' g) = streamfunc (FT s g)" "tcbs s' = tcbs s" "cctx s' = cctx s"
    by (rule decref_fcb_pool [OF fs_cntD(1) [OF assms(1)] c n(2) ops])
  have "fs_cnt (N(f := n)) s' (if n = 0 then fl @ [f] else fl)"
    unfolding fs_cnt_def cnt_of_upd using s'(2-4) assms(1) n by (auto simp: fs_cnt_def cnt_of_def)
  from that [OF s'(1) this s'(3,5,6)] ops show ?thesis by simp
qed

lemma set_fid_fs:
  assumes "fs_cnt N s fl" and "p < MAX_PROC" and "i < MAX_FILEID"
  shows "fs_cnt N (set_fid p i r s) fl"
proof -
  have "fcb_pool (\<lambda>f. cnt_of (N f)) (set_fid p i r s) fl = fcb_pool (\<lambda>f. cnt_of (N f)) s fl"
    by (rule fcb_pool_cong) simp_all
  with assms show ?thesis by (auto simp: fs_cnt_def)
qed

text \<open>A file id that is in use has a counted FCB.\<close>

lemma slot_counted:
  assumes "fs_inv pins s fl" and "FIDT (PT s p) i = Some f"
  shows "nrefs s f \<noteq> 0"
proof -
  have "(p, i) \<in> fid_slots s f"
    using fs_cntD(3) [OF fs_invD(1) [OF assms(1)] assms(2)] assms(2) by (simp add: fid_slots_def)
  then have "fid_slots s f \<noteq> {}" by blast
  then show ?thesis by (simp add: nrefs_def)
qed

section \<open>The system calls keep the counts\<close>

lemma CURPROC_cong: "tcbs s' = tcbs s \<Longrightarrow> cctx s' = cctx s \<Longrightarrow> CURPROC c s' = CURPROC c s"
  by (simp add: CURPROC_def CURTHREAD_def get_tcb_def)

lemma FCB_incref_simps [simp]:
  "PT (FCB_incref f s) = PT s" "tcbs (FCB_incref f s) = tcbs s" "cctx (FCB_incref f s) = cctx s"
  "rl (FCB_incref f s) = rl s"
  by (simp_all add: FCB_incref_def set_FCB_def)

lemma get_fcb_eq:
  assumes "CURPROC c s = Inr cur"
  shows "get_fcb c fd s = Inr (if legal_fid fd then FIDT (PT s cur) (nat fd) else None)"
  using assms by (simp add: get_fcb_def)

lemma legal_fid_nat: "legal_fid fd \<Longrightarrow> nat fd < MAX_FILEID"
  by (auto simp: legal_fid_def)

lemma io_enter_inv:
  assumes inv: "fs_inv pins s fl" and cur: "CURPROC c s = Inr cur"
    and f: "legal_fid fd" "FIDT (PT s cur) (nat fd) = Some f" and room: "pins f + 1 < 2 ^ 31"
  obtains ops where "io_enter c fd s = Inr (Some (f, streamobj (FT s f), ops), FCB_incref f s)"
    and "streamfunc (FT s f) = Some ops"
    and "fs_inv (pins(f := pins f + 1)) (FCB_incref f s) fl"
proof -
  note d = fs_invD [OF inv]
  have N: "nrefs s f + pins f \<noteq> 0" using slot_counted [OF inv f(2)] by simp
  obtain ops where ops: "streamfunc (FT s f) = Some ops" using fs_cntD(2) [OF d(1) N] by blast
  have "(\<lambda>g. nrefs (FCB_incref f s) g + (pins(f := pins f + 1)) g) =
      (\<lambda>g. nrefs s g + pins g)(f := Suc (nrefs s f + pins f))"
    using nrefs_cong [of "FCB_incref f s" s] by (auto simp: fun_eq_iff)
  then have "fs_inv (pins(f := pins f + 1)) (FCB_incref f s) fl"
    using incref_fs [OF d(1) N] d(2) room by (simp add: fs_inv_def)
  with ops show ?thesis
    using get_fcb_eq [OF cur, of fd] f by (intro that) (simp_all add: io_enter_def)
qed

lemma io_enter_none:
  assumes "CURPROC c s = Inr cur" and "\<not> (legal_fid fd \<and> FIDT (PT s cur) (nat fd) \<noteq> None)"
  shows "io_enter c fd s = Inr (None, s)"
  using get_fcb_eq [OF assms(1), of fd] assms(2) by (auto simp: io_enter_def)

lemma io_leave_inv:
  assumes inv: "fs_inv pins s fl" and p: "pins f = Suc k"
  obtains s' fl' where "io_leave f s = Inr s'" and "fs_inv (pins(f := k)) s' fl'" and "PT s' = PT s"
    and "tcbs s' = tcbs s" and "cctx s' = cctx s"
proof -
  note d = fs_invD [OF inv]
  have n: "nrefs s f + pins f = Suc (nrefs s f + k)" using p by simp
  obtain s' fl' rc where s': "FCB_decref f s = Inr (rc, s')"
    "fs_cnt ((\<lambda>g. nrefs s g + pins g)(f := nrefs s f + k)) s' fl'" "PT s' = PT s"
    "tcbs s' = tcbs s" "cctx s' = cctx s"
    by (rule decref_fs [OF d(1) n]) (use d(3) [of f] n in simp)
  have "(\<lambda>g. nrefs s' g + (pins(f := k)) g) = (\<lambda>g. nrefs s g + pins g)(f := nrefs s f + k)"
    using nrefs_cong [OF s'(3)] by (auto simp: fun_eq_iff)
  then have "fs_inv (pins(f := k)) s' fl'"
    using s'(2) d(2) d(2) [of f] p by (simp add: fs_inv_def)
  moreover have "io_leave f s = Inr s'" using s'(1) by (simp add: io_leave_def)
  ultimately show ?thesis using that s'(3-5) by blast
qed

text \<open>Taking the FCB \<open>f\<close> out of a file id and dropping its reference.\<close>

lemma drop_slot:
  assumes inv: "fs_inv pins s fl" and slot: "FIDT (PT s p) i = Some f"
  obtains s' fl' rc where "FCB_decref f (set_fid p i None s) = Inr (rc, s')" and "fs_inv pins s' fl'"
    and "PT s' = PT (set_fid p i None s)" and "tcbs s' = tcbs s" and "cctx s' = cctx s"
    and "nrefs s f + pins f \<noteq> 1 \<longrightarrow> rc = 0"
    and "nrefs s f + pins f = 1 \<longrightarrow>
      (\<exists>ops. streamfunc (FT s f) = Some ops \<and> rc = dev_Close ops (streamobj (FT s f)))"
proof -
  note d = fs_invD [OF inv]
  let ?s1 = "set_fid p i None s"
  have pi: "p < MAX_PROC" "i < MAX_FILEID" using fs_cntD(3) [OF d(1) slot] by simp_all
  note nr = nrefs_set_fid [OF pi, where r = None and s = s]
  obtain k where k: "nrefs s f = Suc k" using slot_counted [OF inv slot] by (cases "nrefs s f") auto
  have n: "nrefs s f + pins f = Suc (k + pins f)" using k by simp
  obtain s' fl' rc where s': "FCB_decref f ?s1 = Inr (rc, s')"
    "fs_cnt ((\<lambda>g. nrefs s g + pins g)(f := k + pins f)) s' fl'" "PT s' = PT ?s1"
    "tcbs s' = tcbs ?s1" "cctx s' = cctx ?s1" "k + pins f \<noteq> 0 \<longrightarrow> rc = 0"
    "k + pins f = 0 \<longrightarrow> (\<exists>ops. streamfunc (FT ?s1 f) = Some ops \<and> rc = dev_Close ops (streamobj (FT ?s1 f)))"
    by (rule decref_fs [OF set_fid_fs [OF d(1) pi] n, of None]) (use d(3) [of f] n in simp)
  have "nrefs ?s1 g + pins g = ((\<lambda>g. nrefs s g + pins g)(f := k + pins f)) g" for g
    using nr [of g] k slot by (cases "g = f") auto
  then have "(\<lambda>g. nrefs s' g + pins g) = (\<lambda>g. nrefs s g + pins g)(f := k + pins f)"
    using nrefs_cong [OF s'(3)] by (simp add: fun_eq_iff)
  then have "fs_inv pins s' fl'" using s'(2) d(2) by (simp add: fs_inv_def)
  from that [OF s'(1) this s'(3)] s'(4-7) k show ?thesis by simp
qed

lemma decref_set_fid:
  "FCB_decref g (set_fid p i r s) = map_sum id (map_prod id (set_fid p i r)) (FCB_decref g s)"
  by (auto simp: FCB_decref_def Let_def set_FCB_def set_fid_def set_PCB_def release_FCB_def
      split: option.split)

lemma dev_Close_0: "dev_Close ops d = 0"
  by (cases ops) (simp_all add: nulldev_close_def serial_close_def stdio_close_def)

lemma sys_Close_inv:
  assumes inv: "fs_inv pins s fl" and cur: "CURPROC c s = Inr cur"
  obtains rc s' fl' where "sys_Close c fd s = Inr (rc, s')" and "fs_inv pins s' fl'"
    and "\<forall>q j. FIDT (PT s' q) j = (if q = cur \<and> int j = fd \<and> legal_fid fd then None else FIDT (PT s q) j)"
    and "rc = (if legal_fid fd then 0 else -1)"
proof (cases "legal_fid fd \<and> FIDT (PT s cur) (nat fd) \<noteq> None")
  case False
  then have "sys_Close c fd s = Inr (if legal_fid fd then 0 else -1, s)"
    using get_fcb_eq [OF cur, of fd] by (auto simp: sys_Close_def)
  then show ?thesis by (rule that [OF _ inv]) (use False in \<open>auto simp: legal_fid_def\<close>)
next
  case True
  then obtain f where f: "FIDT (PT s cur) (nat fd) = Some f" by blast
  obtain s' fl' rc where s': "FCB_decref f (set_fid cur (nat fd) None s) = Inr (rc, s')"
    "fs_inv pins s' fl'" "PT s' = PT (set_fid cur (nat fd) None s)" "rc = 0"
    by (rule drop_slot [OF inv f]) (use dev_Close_0 in auto)
  have "sys_Close c fd s = Inr (rc, s')"
    using get_fcb_eq [OF cur, of fd] True f cur s'(1) by (simp add: sys_Close_def Let_def)
  then show ?thesis
    by (rule that [OF _ s'(2)]) (use True s'(3,4) in \<open>auto simp: legal_fid_def\<close>)
qed

text \<open>Pointing a free file id to an FCB that is in use takes one more reference.\<close>

lemma fill_slot:
  assumes inv: "fs_inv pins s fl" and pi: "p < MAX_PROC" "i < MAX_FILEID"
    and free: "FIDT (PT s p) i = None" and f: "nrefs s f + pins f \<noteq> 0"
  shows "fs_inv pins (set_fid p i (Some f) (FCB_incref f s)) fl"
proof -
  note d = fs_invD [OF inv]
  let ?s1 = "FCB_incref f s"
  let ?s2 = "set_fid p i (Some f) ?s1"
  have "nrefs ?s2 g = nrefs s g + (if g = f then 1 else 0)" for g
    using nrefs_set_fid [OF pi, where r = "Some f" and s = ?s1 and g = g] free
      nrefs_cong [of ?s1 s] by auto
  then have "(\<lambda>g. nrefs ?s2 g + pins g) = (\<lambda>g. nrefs s g + pins g)(f := Suc (nrefs s f + pins f))"
    by (auto simp: fun_eq_iff)
  then show ?thesis using set_fid_fs [OF incref_fs [OF d(1) f] pi] d(2) by (simp add: fs_inv_def)
qed

text \<open>The order of dropping and taking references does not matter, as the two FCBs differ.\<close>

lemma sys_Dup2_inv:
  assumes inv: "fs_inv pins s fl" and cur: "CURPROC c s = Inr cur" "cur < MAX_PROC"
  obtains rc s' fl' where "sys_Dup2 c oldfd newfd s = Inr (rc, s')" and "fs_inv pins s' fl'"
    and "rc = (if legal_fid oldfd \<and> legal_fid newfd \<and> FIDT (PT s cur) (nat oldfd) \<noteq> None then 0 else -1)"
    and "\<forall>q j. FIDT (PT s' q) j = (if rc = 0 \<and> q = cur \<and> j = nat newfd
          then FIDT (PT s cur) (nat oldfd) else FIDT (PT s q) j)"
proof (cases "legal_fid oldfd \<and> legal_fid newfd \<and> FIDT (PT s cur) (nat oldfd) \<noteq> None")
  case False
  then have "sys_Dup2 c oldfd newfd s = Inr (-1, s)"
    using get_fcb_eq [OF cur(1)] by (auto simp: sys_Dup2_def)
  then show ?thesis by (rule that [OF _ inv]) (use False in auto)
next
  case True
  then obtain f where f: "FIDT (PT s cur) (nat oldfd) = Some f" by blast
  have new: "nat newfd < MAX_FILEID" using True legal_fid_nat by blast
  have ne0: "nrefs s f + pins f \<noteq> 0" using slot_counted [OF inv f] by simp
  show ?thesis
  proof (cases "FIDT (PT s cur) (nat newfd) = Some f")
    case same: True
    then have "sys_Dup2 c oldfd newfd s = Inr (0, s)"
      using get_fcb_eq [OF cur(1)] True f by (simp add: sys_Dup2_def)
    then show ?thesis by (rule that [OF _ inv]) (use True f same in auto)
  next
    case diff: False
    show ?thesis
    proof (cases "FIDT (PT s cur) (nat newfd)")
      case None
      let ?s' = "set_fid cur (nat newfd) (Some f) (FCB_incref f s)"
      have "sys_Dup2 c oldfd newfd s = Inr (0, ?s')"
        using get_fcb_eq [OF cur(1)] True f None CURPROC_cong [of "FCB_incref f s" s c] cur(1)
        by (simp add: sys_Dup2_def)
      then show ?thesis
        by (rule that [OF _ fill_slot [OF inv cur(2) new None ne0]]) (use True f in auto)
    next
      case (Some g)
      obtain s1 fl1 rc where s1: "FCB_decref g (set_fid cur (nat newfd) None s) = Inr (rc, s1)"
        "fs_inv pins s1 fl1" "PT s1 = PT (set_fid cur (nat newfd) None s)" "tcbs s1 = tcbs s" "cctx s1 = cctx s"
        by (rule drop_slot [OF inv Some])
      obtain s2 where s2: "FCB_decref g s = Inr (rc, s2)" "s1 = set_fid cur (nat newfd) None s2"
        using s1(1) unfolding decref_set_fid by (cases "FCB_decref g s") auto
      have e: "set_fid cur (nat newfd) (Some f) (FCB_incref f s1) = set_fid cur (nat newfd) (Some f) (FCB_incref f s2)"
        unfolding s2(2) by (simp add: set_fid_def set_PCB_def FCB_incref_def set_FCB_def)
      have cp: "CURPROC c (FCB_incref f s2) = Inr cur"
        using cur(1) CURPROC_cong [of "FCB_incref f s2" s c] s1(4,5) s2(2) by simp
      have "sys_Dup2 c oldfd newfd s = Inr (0, set_fid cur (nat newfd) (Some f) (FCB_incref f s1))"
        unfolding e using get_fcb_eq [OF cur(1)] True f Some diff s2(1) cp by (simp add: sys_Dup2_def)
      moreover have "nat oldfd \<noteq> nat newfd" using f Some diff by auto
      then have "nrefs s1 f + pins f \<noteq> 0"
        using slot_counted [OF s1(2), of cur "nat oldfd" f] s1(3) f by auto
      then have "fs_inv pins (set_fid cur (nat newfd) (Some f) (FCB_incref f s1)) fl1"
        by (intro fill_slot [OF s1(2) cur(2) new]) (simp_all add: s1(3))
      ultimately show ?thesis by (rule that) (use True f s1(3) in auto)
    qed
  qed
qed

end
