(* ===== verification/Streams_Open.thy ===== *)
theory Streams_Open
  imports Streams_Inv
begin

text \<open>
  Opening streams: the choice of the file ids, the reservation of FCBs with its roll-back, and
  the system calls that open a device.
\<close>

section \<open>Choosing file ids\<close>

definition free_fids :: "(nat \<Rightarrow> fref option) \<Rightarrow> nat \<Rightarrow> nat list" where
  "free_fids fidt f = filter (\<lambda>i. fidt i = None) [f..<MAX_FILEID]"

lemma free_fids_skip:
  "f \<le> MAX_FILEID \<Longrightarrow> free_fids fidt f = (if skip_used fidt f = MAX_FILEID then []
     else skip_used fidt f # free_fids fidt (skip_used fidt f + 1)) \<and> skip_used fidt f \<le> MAX_FILEID"
proof (induction fidt f rule: skip_used.induct)
  case (1 fidt f)
  show ?case
  proof (cases "f < MAX_FILEID \<and> fidt f \<noteq> None")
    case True
    then have "free_fids fidt f = free_fids fidt (f + 1)" by (simp add: free_fids_def upt_conv_Cons)
    moreover have "skip_used fidt f = skip_used fidt (f + 1)"
      by (subst skip_used.simps) (simp add: True)
    ultimately show ?thesis using 1 True by simp
  next
    case False
    then have "skip_used fidt f = f" by (subst skip_used.simps) auto
    with False 1 show ?thesis by (auto simp: free_fids_def upt_conv_Cons)
  qed
qed

lemma find_fids_eq:
  "f \<le> MAX_FILEID \<Longrightarrow> find_fids num fidt f =
    (if num \<le> length (free_fids fidt f) then Some (take num (free_fids fidt f)) else None)"
proof (induction num fidt f rule: find_fids.induct)
  case (2 num fidt f)
  let ?g = "skip_used fidt f"
  note sk = free_fids_skip [OF 2(2), of fidt]
  show ?case
  proof (cases "?g = MAX_FILEID")
    case True
    with sk show ?thesis by simp
  next
    case False
    with sk have "?g + 1 \<le> MAX_FILEID" by simp
    with 2(1) [OF refl False] sk False show ?thesis by (auto simp: Let_def)
  qed
qed simp

lemma free_fids_lowest:
  assumes "free_fids fidt 0 = i # is"
  shows "i < MAX_FILEID \<and> fidt i = None \<and> (\<forall>j < i. fidt j \<noteq> None)"
proof -
  have "free_fids fidt 0 \<noteq> []" using assms by simp
  then have s: "skip_used fidt 0 = i" using free_fids_skip [of 0 fidt] assms by (auto split: if_splits)
  have "i \<in> set (free_fids fidt 0)" using assms by simp
  moreover have "\<forall>j < skip_used fidt f. f \<le> j \<longrightarrow> fidt j \<noteq> None" for f
  proof (induction fidt f rule: skip_used.induct)
    case (1 fidt f)
    show ?case
    proof (cases "f < MAX_FILEID \<and> fidt f \<noteq> None")
      case True
      then have "skip_used fidt f = skip_used fidt (f + 1)" by (subst skip_used.simps) simp
      with 1 True show ?thesis by (metis Suc_eq_plus1 Suc_leI le_neq_implies_less)
    next
      case False
      then show ?thesis by (subst skip_used.simps) auto
    qed
  qed
  ultimately show ?thesis using s by (auto simp: free_fids_def)
qed

section \<open>Acquiring several FCBs\<close>

definition same_rest :: "kernel \<Rightarrow> kernel \<Rightarrow> bool" where
  "same_rest s s' \<longleftrightarrow> tcbs s' = tcbs s \<and> cctx s' = cctx s \<and> devtable s' = devtable s \<and>
     nterm s' = nterm s \<and> (\<forall>g. streamfunc (FT s' g) = streamfunc (FT s g))"

lemma same_rest_refl [simp]: "same_rest s s"
  by (simp add: same_rest_def)

lemma same_rest_trans: "same_rest s s' \<Longrightarrow> same_rest s' s'' \<Longrightarrow> same_rest s s''"
  by (simp add: same_rest_def)

lemma acquire_FCBs_pool:
  "fcb_pool cnt s fl \<Longrightarrow> \<exists>s'. acquire_FCBs num s = Inr (take num fl, s') \<and>
    fcb_pool (\<lambda>f. if f \<in> set (take num fl) then Some 0 else cnt f) s' (drop num fl) \<and>
    PT s' = PT s \<and> same_rest s s'"
proof (induction num arbitrary: cnt s fl)
  case 0
  then show ?case by simp
next
  case (Suc num)
  show ?case
  proof (cases fl)
    case Nil
    with Suc.prems show ?thesis using acquire_fcb_empty by simp
  next
    case (Cons f fs)
    obtain s1 where s1: "acquire_FCB s = Inr (Some f, s1)" "fcb_pool (cnt(f \<mapsto> 0)) s1 fs"
      "PT s1 = PT s" "\<forall>g. streamfunc (FT s1 g) = streamfunc (FT s g)" "tcbs s1 = tcbs s"
      "cctx s1 = cctx s" "devtable s1 = devtable s" "nterm s1 = nterm s"
      by (rule acquire_fcb_pool [OF Suc.prems [unfolded Cons]])
    obtain s2 where s2: "acquire_FCBs num s1 = Inr (take num fs, s2)"
      "fcb_pool (\<lambda>g. if g \<in> set (take num fs) then Some 0 else (cnt(f \<mapsto> 0)) g) s2 (drop num fs)"
      "PT s2 = PT s1" "same_rest s1 s2" using Suc.IH [OF s1(2)] by blast
    have "(\<lambda>g. if g \<in> set (take num fs) then Some 0 else (cnt(f \<mapsto> 0)) g) =
        (\<lambda>g. if g \<in> set (take (Suc num) fl) then Some 0 else cnt g)" using Cons by (auto simp: fun_eq_iff)
    with s1 s2 Cons show ?thesis by (auto simp: same_rest_def)
  qed
qed

lemma release_FCBs_pool:
  "fcb_pool cnt s fl \<Longrightarrow> distinct gs \<Longrightarrow> \<forall>g \<in> set gs. cnt g \<noteq> None \<Longrightarrow>
    fcb_pool (\<lambda>g. if g \<in> set gs then None else cnt g) (fold release_FCB gs s) (fl @ gs) \<and>
    PT (fold release_FCB gs s) = PT s \<and> FT (fold release_FCB gs s) = FT s \<and>
    same_rest s (fold release_FCB gs s)"
proof (induction gs arbitrary: cnt s fl)
  case Nil
  then show ?case by simp
next
  case (Cons g gs)
  obtain n where n: "cnt g = Some n" using Cons.prems(3) by auto
  note r = release_fcb_pool [OF Cons.prems(1) n]
  have "\<forall>h \<in> set gs. (cnt(g := None)) h \<noteq> None" using Cons.prems(2,3) by auto
  note ih = Cons.IH [OF r _ this]
  have "(\<lambda>h. if h \<in> set gs then None else (cnt(g := None)) h) =
      (\<lambda>h. if h \<in> set (g # gs) then None else cnt h)" by auto
  moreover have "PT (release_FCB g s) = PT s" "FT (release_FCB g s) = FT s" "same_rest s (release_FCB g s)"
    by (simp_all add: release_FCB_def same_rest_def)
  ultimately show ?case using ih Cons.prems(2) same_rest_trans by auto
qed

text \<open>
  A reservation that fails leaves the file table of the process and the set of free FCBs as
  they were; the order of the free list may change.
\<close>

lemma FCB_reserve_fails:
  assumes p: "fcb_pool cnt s fl" and cur: "CURPROC c s = Inr cur"
    and few: "length (free_fids (FIDT (PT s cur)) 0) < num \<or> length fl < num"
  obtains s' fl' where "FCB_reserve c num s = Inr (None, s')" and "fcb_pool cnt s' fl'"
    and "set fl' = set fl" and "PT s' = PT s" and "same_rest s s'"
proof (cases "length (free_fids (FIDT (PT s cur)) 0) < num")
  case True
  then have "find_fids num (FIDT (PT s cur)) 0 = None" by (simp add: find_fids_eq)
  with cur p show ?thesis by (intro that [of s fl]) (simp_all add: FCB_reserve_def)
next
  case False
  with few have l: "length fl < num" by simp
  obtain s1 where s1: "acquire_FCBs num s = Inr (fl, s1)"
    "fcb_pool (\<lambda>f. if f \<in> set fl then Some 0 else cnt f) s1 []" "PT s1 = PT s" "same_rest s s1"
    using acquire_FCBs_pool [OF p, of num] l by auto
  have d: "distinct (rev fl)" using fcb_poolD(7) [OF p] by simp
  let ?s2 = "fold release_FCB (rev fl) s1"
  note r = release_FCBs_pool [OF s1(2) d]
  have "(\<lambda>g. if g \<in> set (rev fl) then None else if g \<in> set fl then Some 0 else cnt g) = cnt"
    using fcb_poolD(2) [OF p] by (auto simp: fun_eq_iff)
  then have "fcb_pool cnt ?s2 (rev fl)" "PT ?s2 = PT s" "same_rest s ?s2"
    using r s1(3,4) same_rest_trans by auto
  moreover have "FCB_reserve c num s = Inr (None, ?s2)"
    using cur False s1(1) l by (simp add: FCB_reserve_def find_fids_eq)
  ultimately show ?thesis by (intro that [of ?s2 "rev fl"]) simp_all
qed

section \<open>Opening a device\<close>

text \<open>A reservation of one FCB that succeeds; the FCB is referred to once.\<close>

lemma FCB_reserve_one:
  assumes p: "fcb_pool cnt s (f # fs)" and cur: "CURPROC c s = Inr cur"
    and i: "free_fids (FIDT (PT s cur)) 0 = i # is"
  obtains s1 where "FCB_reserve c 1 s = Inr (Some ([i], [f]), s1)" and "fcb_pool (cnt(f \<mapsto> 1)) s1 fs"
    and "PT s1 = PT (set_fid cur i (Some f) s)" and "same_rest s s1"
proof -
  obtain s0 where s0: "acquire_FCB s = Inr (Some f, s0)" "fcb_pool (cnt(f \<mapsto> 0)) s0 fs"
    "PT s0 = PT s" "\<forall>g. streamfunc (FT s0 g) = streamfunc (FT s g)" "tcbs s0 = tcbs s"
    "cctx s0 = cctx s" "devtable s0 = devtable s" "nterm s0 = nterm s"
    by (rule acquire_fcb_pool [OF p])
  let ?s1 = "FCB_incref f (set_fid cur i (Some f) s0)"
  have "FCB_reserve c 1 s = Inr (Some ([i], [f]), ?s1)"
  proof -
    have "find_fids 1 (FIDT (PT s cur)) 0 = Some [i]" using find_fids_eq [of 0 1] i by simp
    moreover have "acquire_FCBs 1 s = Inr ([f], s0)" using s0(1) by (simp add: One_nat_def)
    ultimately show ?thesis
      using cur by (simp add: FCB_reserve_def del: find_fids.simps acquire_FCBs.simps One_nat_def)
  qed
  moreover have "fcb_pool (cnt(f \<mapsto> 0)) (set_fid cur i (Some f) s0) fs"
    using s0(2) by (subst fcb_pool_cong) simp_all
  from incref_fcb_pool [OF this, of f 0] have "fcb_pool (cnt(f \<mapsto> 1)) ?s1 fs" by simp
  moreover have "PT ?s1 = PT (set_fid cur i (Some f) s)"
    by (simp add: set_fid_def set_PCB_def s0(3))
  moreover have "same_rest s ?s1"
    using s0 by (simp add: same_rest_def FCB_incref_def set_FCB_def set_fid_def set_PCB_def)
  ultimately show ?thesis by (rule that)
qed

definition devs_ok :: "kernel \<Rightarrow> bool" where
  "devs_ok s \<longleftrightarrow> devtable s DEV_NULL = \<lparr>devnum = 1, dev_fops = nulldev_fops\<rparr> \<and>
     devtable s DEV_SERIAL = \<lparr>devnum = bios_serial_ports s, dev_fops = serial_fops\<rparr>"

lemma device_open_eq:
  assumes "devs_ok s" and "major \<noteq> DEV_MAX"
  shows "device_open major minor s = Inr (if minor < device_no major s
    then Some (if major = DEV_NULL then NullObj else SerialObj (unat minor), dev_fops (devtable s major))
    else None)"
  using assms by (cases major) (auto simp: device_open_def devs_ok_def device_no_def nulldev_open_def
      serial_open_def not_le)

text \<open>
  Whether \<open>open_stream\<close> succeeds: the device exists, and the process has a free file id and
  the kernel a free FCB.
\<close>

lemma open_stream_fails:
  assumes inv: "fs_inv pins s fl" and cur: "CURPROC c s = Inr cur" "cur < MAX_PROC"
    and dev: "devs_ok s" "major \<noteq> DEV_MAX"
    and no: "free_fids (FIDT (PT s cur)) 0 = [] \<or> fl = [] \<or> \<not> minor < device_no major s"
  obtains s' fl' where "open_stream c major minor s = Inr (NOFILE, s')" and "fs_inv pins s' fl'"
    and "set fl' = set fl" and "\<forall>q j. FIDT (PT s' q) j = FIDT (PT s q) j"
proof (cases "free_fids (FIDT (PT s cur)) 0 = [] \<or> fl = []")
  case True
  note d = fs_invD [OF inv]
  obtain s' fl' where s': "FCB_reserve c 1 s = Inr (None, s')"
    "fcb_pool (\<lambda>f. cnt_of (nrefs s f + pins f)) s' fl'" "set fl' = set fl" "PT s' = PT s" "same_rest s s'"
    by (rule FCB_reserve_fails [OF fs_cntD(1) [OF d(1)] cur(1), of 1]) (use True in auto)
  have "fs_inv pins s' fl'"
    unfolding fs_inv_def fs_cnt_def nrefs_cong [OF s'(4)] s'(4)
    using s'(2,5) d(1,2) by (auto simp: fs_cnt_def same_rest_def)
  moreover have "open_stream c major minor s = Inr (NOFILE, s')" using s'(1) by (simp add: open_stream_def)
  ultimately show ?thesis using that [of s' fl'] s'(3,4) by simp
next
  case False
  then obtain i "is" f fs where i: "free_fids (FIDT (PT s cur)) 0 = i # is" and fl: "fl = f # fs"
    by (auto simp: neq_Nil_conv)
  have minor: "\<not> minor < device_no major s" using no False by simp
  note d = fs_invD [OF inv]
  let ?cnt = "\<lambda>f. cnt_of (nrefs s f + pins f)"
  obtain s1 where s1: "FCB_reserve c 1 s = Inr (Some ([i], [f]), s1)" "fcb_pool (?cnt(f \<mapsto> 1)) s1 fs"
    "PT s1 = PT (set_fid cur i (Some f) s)" "same_rest s s1"
    by (rule FCB_reserve_one [OF fs_cntD(1) [OF d(1), unfolded fl] cur(1) i])
  have "devs_ok s1" "device_no major s1 = device_no major s"
    using dev(1) s1(4) by (simp_all add: devs_ok_def same_rest_def device_no_def bios_serial_ports_def)
  then have dv: "device_open major minor s1 = Inr None" using device_open_eq [OF _ dev(2)] minor by simp
  let ?s2 = "release_FCB f (set_fid cur i None s1)"
  have "CURPROC c s1 = Inr cur" using cur CURPROC_cong [of s1 s c] s1(4) by (simp add: same_rest_def)
  moreover have "FIDT (PT s1 cur) i = Some f" by (simp add: s1(3))
  ultimately have "open_stream c major minor s = Inr (NOFILE, ?s2)"
    using s1(1) dv by (simp add: open_stream_def FCB_unreserve_def)
  moreover have "i \<in> set (free_fids (FIDT (PT s cur)) 0)" using i by simp
  then have ifree: "FIDT (PT s cur) i = None" "i < MAX_FILEID" by (auto simp: free_fids_def)
  then have F: "FIDT (PT ?s2 q) j = FIDT (PT s q) j" for q j by (simp add: release_FCB_def s1(3))
  then have nr: "nrefs ?s2 = nrefs s" by (simp add: fun_eq_iff nrefs_def fid_slots_def)
  moreover have "fcb_pool ?cnt ?s2 (fs @ [f])"
  proof -
    have "fcb_pool (?cnt(f \<mapsto> 1)) (set_fid cur i None s1) fs" using s1(2) by (subst fcb_pool_cong) simp_all
    from release_fcb_pool [OF this, of f 1]
    have "fcb_pool (?cnt(f := None)) ?s2 (fs @ [f])" by simp
    moreover have "?cnt f = None" using fs_cntD(4) [OF d(1), of f] fl by (simp add: cnt_of_def)
    then have "?cnt(f := None) = ?cnt" by (auto simp: fun_eq_iff)
    ultimately show ?thesis by simp
  qed
  then have "fs_inv pins ?s2 (fs @ [f])"
    unfolding fs_inv_def fs_cnt_def nr F using d(1,2) s1(4)
    by (auto simp: fs_cnt_def same_rest_def release_FCB_def)
  ultimately show ?thesis using fl F by (intro that [of ?s2 "fs @ [f]"]) auto
qed

lemma open_stream_opens:
  assumes inv: "fs_inv pins s fl" and cur: "CURPROC c s = Inr cur" "cur < MAX_PROC"
    and dev: "devs_ok s" "major \<noteq> DEV_MAX" and minor: "minor < device_no major s"
    and i: "free_fids (FIDT (PT s cur)) 0 = i # is" and fl: "fl = f # fs"
  obtains s' where "open_stream c major minor s = Inr (int i, s')" and "fs_inv pins s' fs"
    and "\<forall>q j. FIDT (PT s' q) j = (if q = cur \<and> j = i then Some f else FIDT (PT s q) j)"
    and "refcount (FT s' f) = 1" and "streamfunc (FT s' f) = Some (dev_fops (devtable s major))"
    and "tcbs s' = tcbs s" and "cctx s' = cctx s" and "devtable s' = devtable s" and "nterm s' = nterm s"
proof -
  note d = fs_invD [OF inv]
  let ?cnt = "\<lambda>f. cnt_of (nrefs s f + pins f)"
  obtain s1 where s1: "FCB_reserve c 1 s = Inr (Some ([i], [f]), s1)" "fcb_pool (?cnt(f \<mapsto> 1)) s1 fs"
    "PT s1 = PT (set_fid cur i (Some f) s)" "same_rest s s1"
    by (rule FCB_reserve_one [OF fs_cntD(1) [OF d(1), unfolded fl] cur(1) i])
  have "devs_ok s1" "device_no major s1 = device_no major s"
    using dev(1) s1(4) by (simp_all add: devs_ok_def same_rest_def device_no_def bios_serial_ports_def)
  then obtain sobj where dv: "device_open major minor s1 = Inr (Some (sobj, dev_fops (devtable s1 major)))"
    using device_open_eq [OF _ dev(2)] minor by auto
  let ?s2 = "set_FCB f ((FT s1 f)\<lparr>streamobj := sobj, streamfunc := Some (dev_fops (devtable s1 major))\<rparr>) s1"
  have o: "open_stream c major minor s = Inr (int i, ?s2)" using s1(1) dv by (simp add: open_stream_def)
  have "i \<in> set (free_fids (FIDT (PT s cur)) 0)" using i by simp
  then have ifree: "FIDT (PT s cur) i = None" "i < MAX_FILEID" by (auto simp: free_fids_def)
  have F: "FIDT (PT ?s2 q) j = (if q = cur \<and> j = i then Some f else FIDT (PT s q) j)" for q j
    by (simp add: set_FCB_def s1(3))
  have f0: "nrefs s f + pins f = 0" using fs_cntD(4) [OF d(1), of f] fl by simp
  have "nrefs ?s2 g = nrefs s g + (if g = f then 1 else 0)" for g
    using nrefs_set_fid [OF cur(2) ifree(2), where r = "Some f" and s = s and g = g] ifree(1)
      nrefs_cong [of ?s2 "set_fid cur i (Some f) s"] s1(3) by (auto simp: set_FCB_def)
  then have N: "(\<lambda>g. nrefs ?s2 g + pins g) = (\<lambda>g. nrefs s g + pins g)(f := 1)"
    using f0 by (auto simp: fun_eq_iff)
  have "fcb_pool (?cnt(f \<mapsto> 1)) ?s2 fs"
    using s1(2) by (subst fcb_pool_cong) (simp_all add: set_FCB_def)
  moreover have "(\<lambda>g. cnt_of (nrefs ?s2 g + pins g)) = ?cnt(f \<mapsto> 1)"
    using fun_cong [OF N] by (auto simp: cnt_of_def)
  ultimately have "fcb_pool (\<lambda>g. cnt_of (nrefs ?s2 g + pins g)) ?s2 fs" by simp
  then have "fs_inv pins ?s2 fs"
    unfolding fs_inv_def fs_cnt_def F using d(1,2) s1(4) ifree cur(2) N
    by (auto simp: fs_cnt_def same_rest_def set_FCB_def fun_eq_iff)
  moreover have "refcount (FT ?s2 f) = 1" using fcb_poolD(6) [OF s1(2), of f 1] by (simp add: set_FCB_def)
  moreover have "streamfunc (FT ?s2 f) = Some (dev_fops (devtable s major))"
    using s1(4) by (simp add: set_FCB_def same_rest_def)
  moreover have "tcbs ?s2 = tcbs s" "cctx ?s2 = cctx s" "devtable ?s2 = devtable s" "nterm ?s2 = nterm s"
    using s1(4) by (simp_all add: set_FCB_def same_rest_def)
  ultimately show ?thesis using F by (intro that [OF o]) simp_all
qed

end
