(* ===== verification/Console.thy ===== *)
theory Console
  imports Streams_Open
begin

text \<open>
  The pseudo-console of src/console.c: two streams on the standard files of the host, with which
  the system runs without terminals.  Their methods are in theory \<open>Dev\<close>.
\<close>

section \<open>Opening the console\<close>

definition set_console_FCB :: "fref \<Rightarrow> kernel \<Rightarrow> kernel" where
  "set_console_FCB f s = set_FCB f ((FT s f)\<lparr>streamobj := NullObj, streamfunc := Some stdio_ops\<rparr>) s"

text \<open>The call aborts unless it gets the file ids 0 and 1.\<close>

definition tinyos_pseudo_console :: "nat \<Rightarrow> kernel \<Rightarrow> kernel result" where
  "tinyos_pseudo_console c s =
     rbind (FCB_reserve c 2 s) (\<lambda>(r, s1).
       case r of
         None \<Rightarrow> Inl AssertFail
       | Some (fids, fcbs) \<Rightarrow>
           if fids ! 0 \<noteq> 0 \<or> fids ! 1 \<noteq> 1 then Inl AssertFail
           else Inr (set_console_FCB (fcbs ! 1) (set_console_FCB (fcbs ! 0) s1)))"

section \<open>What the console opens\<close>

lemma FCB_reserve_two:
  assumes p: "fcb_pool cnt s (f # g # fs)" and cur: "CURPROC c s = Inr cur"
    and i: "free_fids (FIDT (PT s cur)) 0 = i # j # is"
  obtains s1 where "FCB_reserve c 2 s = Inr (Some ([i, j], [f, g]), s1)"
    and "fcb_pool (cnt(f \<mapsto> 1, g \<mapsto> 1)) s1 fs"
    and "PT s1 = PT (set_fid cur j (Some g) (set_fid cur i (Some f) s))" and "same_rest s s1"
proof -
  obtain s0 where s0: "acquire_FCBs 2 s = Inr ([f, g], s0)"
    "fcb_pool (\<lambda>h. if h \<in> set [f, g] then Some 0 else cnt h) s0 fs" "PT s0 = PT s" "same_rest s s0"
    using acquire_FCBs_pool [OF p, of 2] by (auto simp: numeral_2_eq_2)
  have fg: "f \<noteq> g" using fcb_poolD(7) [OF p] by auto
  let ?s1 = "FCB_incref f (set_fid cur i (Some f) s0)"
  let ?s2 = "FCB_incref g (set_fid cur j (Some g) ?s1)"
  have "find_fids 2 (FIDT (PT s cur)) 0 = Some [i, j]" using find_fids_eq [of 0 2] i by simp
  then have r: "FCB_reserve c 2 s = Inr (Some ([i, j], [f, g]), ?s2)"
    using cur s0(1) by (simp add: FCB_reserve_def del: find_fids.simps acquire_FCBs.simps)
  let ?c0 = "cnt(f \<mapsto> 0, g \<mapsto> 0)"
  have "(\<lambda>h. if h \<in> set [f, g] then Some 0 else cnt h) = ?c0" by auto
  with s0(2) have "fcb_pool ?c0 s0 fs" by simp
  then have "fcb_pool ?c0 (set_fid cur i (Some f) s0) fs" by (subst fcb_pool_cong) simp_all
  from incref_fcb_pool [OF this, of f 0] fg have 1: "fcb_pool (?c0(f \<mapsto> 1)) ?s1 fs" by simp
  then have "fcb_pool (?c0(f \<mapsto> 1)) (set_fid cur j (Some g) ?s1) fs" by (subst fcb_pool_cong) simp_all
  from incref_fcb_pool [OF this, of g 0] fg have "fcb_pool (?c0(f \<mapsto> 1, g \<mapsto> 1)) ?s2 fs" by simp
  moreover have "?c0(f \<mapsto> 1, g \<mapsto> 1) = cnt(f \<mapsto> 1, g \<mapsto> 1)" by auto
  ultimately have "fcb_pool (cnt(f \<mapsto> 1, g \<mapsto> 1)) ?s2 fs" by simp
  moreover have "PT ?s2 = PT (set_fid cur j (Some g) (set_fid cur i (Some f) s))"
    by (simp add: set_fid_def set_PCB_def s0(3))
  moreover have "same_rest s ?s2"
    using s0(4) by (simp add: same_rest_def FCB_incref_def set_FCB_def set_fid_def set_PCB_def)
  ultimately show ?thesis by (rule that [OF r])
qed

text \<open>
  In a process whose file ids 0 and 1 are free, the pseudo-console opens two streams of its own
  there, if two FCBs are free, and no other file id of any process changes.
\<close>

theorem console_takes_standard_fids:
  assumes inv: "fs_inv pins s fl" and cur: "CURPROC c s = Inr cur" "cur < MAX_PROC"
    and free: "FIDT (PT s cur) 0 = None" "FIDT (PT s cur) 1 = None" and two: "2 \<le> length fl"
  shows "\<exists>s'. tinyos_pseudo_console c s = Inr s' \<and> fs_inv pins s' (drop 2 fl) \<and>
    (\<forall>q i. FIDT (PT s' q) i = (if q = cur \<and> i < 2 then Some (fl ! i) else FIDT (PT s q) i)) \<and>
    (\<forall>i < 2. streamfunc (FT s' (fl ! i)) = Some stdio_ops)"
proof -
  obtain f g fs where fl: "fl = f # g # fs" using two by (metis Suc_le_length_iff numeral_2_eq_2)
  have z: "0 < MAX_FILEID" "1 < MAX_FILEID" by (simp_all add: MAX_FILEID_def)
  have "[0..<MAX_FILEID] = 0 # 1 # [2..<MAX_FILEID]"
    unfolding upt_conv_Cons [OF z(1)] using upt_conv_Cons [OF z(2)] by (simp add: numeral_2_eq_2)
  then have ff: "free_fids (FIDT (PT s cur)) 0 = 0 # 1 # free_fids (FIDT (PT s cur)) 2"
    using free by (simp add: free_fids_def)
  note d = fs_invD [OF inv]
  let ?cnt = "\<lambda>f. cnt_of (nrefs s f + pins f)"
  obtain s1 where s1: "FCB_reserve c 2 s = Inr (Some ([0, 1], [f, g]), s1)" "fcb_pool (?cnt(f \<mapsto> 1, g \<mapsto> 1)) s1 fs"
    "PT s1 = PT (set_fid cur 1 (Some g) (set_fid cur 0 (Some f) s))" "same_rest s s1"
    by (rule FCB_reserve_two [OF fs_cntD(1) [OF d(1), unfolded fl] cur(1) ff])
  have fg: "f \<noteq> g" using fcb_poolD(7) [OF fs_cntD(1) [OF d(1), unfolded fl]] by auto
  let ?s2 = "set_console_FCB g (set_console_FCB f s1)"
  have o: "tinyos_pseudo_console c s = Inr ?s2" using s1(1) by (simp add: tinyos_pseudo_console_def)
  have p2: "PT ?s2 = PT s1" by (simp add: set_console_FCB_def set_FCB_def)
  have F: "FIDT (PT ?s2 q) j = (if q = cur \<and> j < 2 then Some (fl ! j) else FIDT (PT s q) j)" for q j
    unfolding p2 s1(3) using fl less_2_cases_iff [of j] by auto
  have f0: "nrefs s f + pins f = 0" "nrefs s g + pins g = 0"
    using fs_cntD(4) [OF d(1), of f] fs_cntD(4) [OF d(1), of g] fl by simp_all
  let ?t = "set_fid cur 0 (Some f) s"
  have "nrefs ?s2 h = nrefs s h + (if h = f then 1 else 0) + (if h = g then 1 else 0)" for h
  proof -
    have "nrefs ?t h = nrefs s h + (if h = f then 1 else 0)"
      using nrefs_set_fid [OF cur(2) z(1), where r = "Some f" and s = s and g = h] free by auto
    moreover have "nrefs (set_fid cur 1 (Some g) ?t) h = nrefs ?t h + (if h = g then 1 else 0)"
      using nrefs_set_fid [OF cur(2) z(2), where r = "Some g" and s = ?t and g = h] free by auto
    moreover have "nrefs ?s2 = nrefs (set_fid cur 1 (Some g) ?t)" by (rule nrefs_cong) (simp add: p2 s1(3))
    ultimately show ?thesis by simp
  qed
  then have N: "(\<lambda>h. nrefs ?s2 h + pins h) = (\<lambda>h. nrefs s h + pins h)(f := 1, g := 1)"
    using f0 fg by (auto simp: fun_eq_iff)
  have "fcb_pool (?cnt(f \<mapsto> 1, g \<mapsto> 1)) ?s2 fs"
    using s1(2) by (subst fcb_pool_cong) (simp_all add: set_console_FCB_def set_FCB_def)
  moreover have "(\<lambda>h. cnt_of (nrefs ?s2 h + pins h)) = ?cnt(f \<mapsto> 1, g \<mapsto> 1)"
    using fun_cong [OF N] by (auto simp: cnt_of_def)
  ultimately have "fcb_pool (\<lambda>h. cnt_of (nrefs ?s2 h + pins h)) ?s2 fs" by simp
  then have "fs_inv pins ?s2 fs"
    unfolding fs_inv_def fs_cnt_def F using d(1,2) s1(4) cur(2) N fl z
    by (auto simp: fs_cnt_def same_rest_def set_console_FCB_def set_FCB_def fun_eq_iff less_2_cases_iff)
  moreover have "streamfunc (FT ?s2 (fl ! i)) = Some stdio_ops" if "i < 2" for i
    using that fl less_2_cases_iff [of i] by (auto simp: set_console_FCB_def set_FCB_def)
  ultimately show ?thesis using o F fl by (intro exI [of _ ?s2]) simp
qed

lemma console_inv:
  assumes inv: "fs_inv pins s fl" and cur: "CURPROC c s = Inr cur" "cur < MAX_PROC"
    and s': "tinyos_pseudo_console c s = Inr s'"
  shows "\<exists>fl'. fs_inv pins s' fl'"
proof (cases "length (free_fids (FIDT (PT s cur)) 0) < 2 \<or> length fl < 2")
  case True
  obtain s1 where "FCB_reserve c 2 s = Inr (None, s1)"
    by (rule FCB_reserve_fails [OF fs_cntD(1) [OF fs_invD(1) [OF inv]] cur(1) True])
  with s' show ?thesis by (simp add: tinyos_pseudo_console_def)
next
  case False
  then obtain i j "is" f g fs where i: "free_fids (FIDT (PT s cur)) 0 = i # j # is" and fl: "fl = f # g # fs"
    by (metis Suc_le_length_iff not_le numeral_2_eq_2)
  obtain s1 where "FCB_reserve c 2 s = Inr (Some ([i, j], [f, g]), s1)"
    by (rule FCB_reserve_two [OF fs_cntD(1) [OF fs_invD(1) [OF inv], unfolded fl] cur(1) i])
  with s' have "i = 0" "j = 1" by (auto simp: tinyos_pseudo_console_def split: if_splits)
  with i have "0 \<in> set (free_fids (FIDT (PT s cur)) 0)" "1 \<in> set (free_fids (FIDT (PT s cur)) 0)" by simp_all
  then have "FIDT (PT s cur) 0 = None" "FIDT (PT s cur) 1 = None" by (simp_all add: free_fids_def)
  from console_takes_standard_fids [OF inv cur this] fl s' show ?thesis by auto
qed

end
