(* ===== verification/Streams_Reach.thy ===== *)
theory Streams_Reach
  imports Console
begin

text \<open>
  What a driver returns, the locale \<open>stream_reader\<close>, and the invariant of the
  reference counts in every state that the stream system calls can reach.
\<close>

section \<open>The interface of a driver\<close>

text \<open>What a client of \<open>Read\<close> relies on.\<close>

locale stream_reader =
  fixes rd :: "uint \<Rightarrow> dev_env \<Rightarrow> (int \<times> byte list \<times> dev_env) option"
  assumes rd_count: "rd n env = Some (rc, bs, env') \<Longrightarrow> length bs \<le> unat n \<and> rc = sint (of_nat (length bs) :: uint)"
begin

text \<open>For sizes an \<open>int\<close> can hold, the return code is the number of bytes.\<close>

lemma rd_int_count:
  assumes "rd n env = Some (rc, bs, env')" and "unat n < 2 ^ 31"
  shows "rc = int (length bs)" and "length bs \<le> unat n"
proof -
  have l: "length bs \<le> unat n" "rc = sint (of_nat (length bs) :: uint)" using rd_count [OF assms(1)] by auto
  then have "length bs < 2 ^ 31" using assms(2) by simp
  then show rc: "rc = int (length bs)"
    unfolding l(2) by (simp add: sint_uint signed_take_bit_int_eq_self_iff unsigned_of_nat take_bit_nat_eq_self take_bit_int_eq_self)
  show "length bs \<le> unat n" by (rule l(1))
qed

end

text \<open>A driver that waits for input has some to return.\<close>

locale waiting_reader = stream_reader +
  assumes rd_progress: "rd n env = Some (rc, bs, env') \<Longrightarrow> n \<noteq> 0 \<Longrightarrow> bs \<noteq> []"
begin

lemma rd_positive:
  assumes "rd n env = Some (rc, bs, env')" and "unat n < 2 ^ 31" and "n \<noteq> 0"
  shows "0 < rc"
  using rd_progress [OF assms(1,3)] rd_int_count(1) [OF assms(1,2)] by simp

end

lemma serial_read_loop_result:
  "serial_read_loop r sz got = Some (bs, r0) \<Longrightarrow> length got \<le> sz \<Longrightarrow>
    \<exists>new. bs = got @ new \<and> length bs \<le> sz \<and> (0 < sz \<longrightarrow> bs \<noteq> [])"
proof (induction r sz got rule: serial_read_loop.induct)
  case (1 r sz got)
  show ?case
  proof (cases "length got < sz")
    case False
    with 1(3,4) show ?thesis by auto
  next
    case True
    then show ?thesis
    proof (cases r)
      case Nil
      with 1(3) True show ?thesis by simp
    next
      case (Cons a r1)
      show ?thesis
      proof (cases a)
        case None
        show ?thesis
        proof (cases "got = []")
          case got: True
          with Cons None True 1(3) have "serial_read_loop r1 sz got = Some (bs, r0)" by simp
          from 1(1) [OF True Cons None got this 1(4)] show ?thesis .
        next
          case False
          with Cons None True 1(3) show ?thesis by auto
        qed
      next
        case (Some b)
        with Cons True 1(3) have "serial_read_loop r1 sz (got @ [b]) = Some (bs, r0)" by simp
        from 1(2) [OF True Cons Some this] True show ?thesis by auto
      qed
    qed
  qed
qed

lemma serial_read_result:
  assumes "serial_read dev n r = Some (rc, bs, r')"
  shows "length bs \<le> unat n" and "n \<noteq> 0 \<Longrightarrow> bs \<noteq> []" and "rc = sint (of_nat (length bs) :: uint)"
proof -
  have l: "serial_read_loop r (unat n) [] = Some (bs, r')" and rc: "rc = sint (of_nat (length bs) :: uint)"
    using assms by (auto simp: serial_read_def split: option.splits)
  from serial_read_loop_result [OF l] show "length bs \<le> unat n" and "n \<noteq> 0 \<Longrightarrow> bs \<noteq> []"
    by (auto simp: unat_gt_0)
  show "rc = sint (of_nat (length bs) :: uint)" by (rule rc)
qed

lemma stdio_read_result:
  "stdio_read n r = Some (rc, bs, r') \<Longrightarrow> length bs \<le> unat n \<and> rc = sint (of_nat (length bs) :: uint)"
  by (induction n r rule: stdio_read.induct) (auto split: if_splits)

interpretation console: stream_reader "dev_Read stdio_ops dev" for dev
  by unfold_locales (auto dest!: stdio_read_result split: option.splits)

interpretation serial: waiting_reader "dev_Read serial_fops dev" for dev
  by unfold_locales (auto dest: serial_read_result split: option.splits)

interpretation nulldev: waiting_reader "dev_Read nulldev_fops dev" for dev
  by unfold_locales (auto simp: nulldev_read_def unat_gt_0)

section \<open>The start\<close>

lemma init_FCB_list:
  "isring (rl s) FcbFreelist [] \<Longrightarrow> let s' = fold init_FCB [0..<n] s in
    isring (rl s') FcbFreelist (map FcbNode [0..<n]) \<and> (\<forall>f < n. obj (rl s') (FcbNode f) = OFcb f) \<and>
    PT s' = PT s \<and> same_rest s s'"
proof (induction n)
  case 0
  then show ?case by simp
next
  case (Suc n)
  define s1 where "s1 = fold init_FCB [0..<n] s"
  have 1: "isring (rl s1) FcbFreelist (map FcbNode [0..<n])" "\<forall>f < n. obj (rl s1) (FcbNode f) = OFcb f"
    "PT s1 = PT s" "same_rest s s1" using Suc unfolding s1_def Let_def by auto
  let ?h = "rlnode_init (FcbNode n) (OFcb n) (rl s1)"
  have r: "isring ?h FcbFreelist (map FcbNode [0..<n])" by (rule init_keeps [OF 1(1)]) auto
  have 2: "isring (rlist_push_back FcbFreelist (FcbNode n) ?h) FcbFreelist (map FcbNode [0..<n] @ [FcbNode n])"
    by (rule rl.push_back_law [OF r init_list]) auto
  have i: "rl (init_FCB n s1) = rlist_push_back FcbFreelist (FcbNode n) ?h" "PT (init_FCB n s1) = PT s1"
    by (simp_all add: init_FCB_def Let_def set_FCB_def)
  have "fold init_FCB [0..<Suc n] s = init_FCB n s1" by (simp add: s1_def)
  moreover have "same_rest s1 (init_FCB n s1)"
    by (simp add: same_rest_def init_FCB_def Let_def set_FCB_def)
  ultimately show ?case using 1(2-4) 2 same_rest_trans by (simp add: i less_Suc_eq all_conj_distrib)
qed

lemma initialize_files_keeps:
  "PT (initialize_files s) = PT s" "same_rest s (initialize_files s)"
proof -
  let ?s0 = "s\<lparr>rl := rlnode_init FcbFreelist ONull (rl s)\<rparr>"
  have "isring (rl ?s0) FcbFreelist []" by (simp add: init_list)
  from init_FCB_list [OF this, of MAX_FILES] show "PT (initialize_files s) = PT s" "same_rest s (initialize_files s)"
    unfolding initialize_files_def Let_def by (auto simp: same_rest_def)
qed

lemma initialize_files_inv:
  assumes "\<forall>p i. FIDT (PT s p) i = None"
  shows "fs_inv (\<lambda>_. 0) (initialize_files s) [0..<MAX_FILES]"
proof -
  let ?s0 = "s\<lparr>rl := rlnode_init FcbFreelist ONull (rl s)\<rparr>"
  have r: "isring (rl ?s0) FcbFreelist []" by (simp add: init_list)
  have i: "isring (rl (initialize_files s)) FcbFreelist (map FcbNode [0..<MAX_FILES])"
    "\<forall>f < MAX_FILES. obj (rl (initialize_files s)) (FcbNode f) = OFcb f" "PT (initialize_files s) = PT s"
    using init_FCB_list [OF r, of MAX_FILES] unfolding initialize_files_def Let_def by auto
  have "nrefs (initialize_files s) f = 0" for f
    using assms by (simp add: nrefs_def fid_slots_def i(3))
  then show ?thesis
    using i assms by (auto simp: fs_inv_def fs_cnt_def fcb_pool_def cnt_of_def)
qed

section \<open>Steps of the stream system calls\<close>

text \<open>
  What the rest of the kernel does between these calls: threads are created and switched, but
  the FCBs, their list and the file tables stay as they are.
\<close>

definition fs_same :: "kernel \<Rightarrow> kernel \<Rightarrow> bool" where
  "fs_same s s' \<longleftrightarrow> FT s' = FT s \<and> (\<forall>p. FIDT (PT s' p) = FIDT (PT s p)) \<and>
     (\<forall>f. obj (rl s') (FcbNode f) = obj (rl s) (FcbNode f)) \<and>
     (\<forall>z zs. set (z # zs) \<subseteq> insert FcbFreelist (range FcbNode) \<longrightarrow> isring (rl s) z zs \<longrightarrow> isring (rl s') z zs)"

type_synonym fs_conf = "(fref \<Rightarrow> nat) \<times> kernel"

text \<open>
  The first component counts the reads and writes that are in their drivers.  There are never
  2^31 of them, as each occupies a thread.
\<close>

inductive fs_step :: "fs_conf \<Rightarrow> fs_conf \<Rightarrow> bool" where
  fs_enter: "CURPROC c s = Inr cur \<Longrightarrow> io_enter c fd s = Inr (Some (f, sobj, ops), s') \<Longrightarrow>
    pins f + 1 < 2 ^ 31 \<Longrightarrow> fs_step (pins, s) (pins(f := pins f + 1), s')"
| fs_leave: "pins f = Suc k \<Longrightarrow> io_leave f s = Inr s' \<Longrightarrow> fs_step (pins, s) (pins(f := k), s')"
| fs_close: "CURPROC c s = Inr cur \<Longrightarrow> sys_Close c fd s = Inr (rc, s') \<Longrightarrow> fs_step (pins, s) (pins, s')"
| fs_dup2: "CURPROC c s = Inr cur \<Longrightarrow> cur < MAX_PROC \<Longrightarrow> sys_Dup2 c fd1 fd2 s = Inr (rc, s') \<Longrightarrow>
    fs_step (pins, s) (pins, s')"
| fs_open: "CURPROC c s = Inr cur \<Longrightarrow> cur < MAX_PROC \<Longrightarrow> devs_ok s \<Longrightarrow> major \<noteq> DEV_MAX \<Longrightarrow>
    open_stream c major minor s = Inr (rc, s') \<Longrightarrow> fs_step (pins, s) (pins, s')"
| fs_console: "CURPROC c s = Inr cur \<Longrightarrow> cur < MAX_PROC \<Longrightarrow> tinyos_pseudo_console c s = Inr s' \<Longrightarrow>
    fs_step (pins, s) (pins, s')"
| fs_other: "fs_same s s' \<Longrightarrow> fs_step (pins, s) (pins, s')"

inductive fs_reachable :: "fs_conf \<Rightarrow> bool" where
  fs_init: "\<forall>p i. FIDT (PT s p) i = None \<Longrightarrow> fs_reachable (\<lambda>_. 0, initialize_files s)"
| fs_next: "fs_reachable cf \<Longrightarrow> fs_step cf cf' \<Longrightarrow> fs_reachable cf'"

lemma fs_same_inv:
  assumes inv: "fs_inv pins s fl" and same: "fs_same s s'"
  shows "fs_inv pins s' fl"
proof -
  note p = fcb_poolD [OF fs_cntD(1) [OF fs_invD(1) [OF inv]]]
  have nr: "nrefs s' f = nrefs s f" for f using same by (simp add: fs_same_def nrefs_def fid_slots_def)
  have "set (FcbFreelist # map FcbNode fl) \<subseteq> insert FcbFreelist (range FcbNode)" by auto
  then have "isring (rl s') FcbFreelist (map FcbNode fl)" using same p(1) unfolding fs_same_def by blast
  moreover have "isring (rl s') (FcbNode f) []" if "cnt_of (nrefs s f + pins f) = Some n" for f n
    using same p(5) [OF that] by (auto simp: fs_same_def)
  ultimately have "fcb_pool (\<lambda>f. cnt_of (nrefs s f + pins f)) s' fl"
    unfolding fcb_pool_def using p(2,3,4,6) same by (auto simp: fs_same_def)
  then show ?thesis using inv same by (auto simp: fs_inv_def fs_cnt_def nr fs_same_def)
qed

lemma open_stream_inv:
  assumes inv: "fs_inv pins s fl" and cur: "CURPROC c s = Inr cur" "cur < MAX_PROC"
    and dev: "devs_ok s" "major \<noteq> DEV_MAX"
  shows "\<exists>rc s' fl'. open_stream c major minor s = Inr (rc, s') \<and> fs_inv pins s' fl'"
proof (cases "free_fids (FIDT (PT s cur)) 0 = [] \<or> fl = [] \<or> \<not> minor < device_no major s")
  case True
  show ?thesis by (rule open_stream_fails [OF inv cur dev True]) blast
next
  case False
  then obtain i "is" f fs where i: "free_fids (FIDT (PT s cur)) 0 = i # is" and fl: "fl = f # fs"
    and m: "minor < device_no major s" by (auto simp: neq_Nil_conv)
  show ?thesis by (rule open_stream_opens [OF inv cur dev m i fl]) blast
qed

lemma fs_step_inv:
  assumes "fs_step cf cf'" and "\<exists>fl. fs_inv (fst cf) (snd cf) fl"
  shows "\<exists>fl. fs_inv (fst cf') (snd cf') fl"
  using assms
proof (induction rule: fs_step.induct)
  case (fs_enter c s cur fd f sobj ops s' pins)
  then obtain fl where inv: "fs_inv pins s fl" by auto
  have fd: "legal_fid fd" "FIDT (PT s cur) (nat fd) = Some f"
    using fs_enter.hyps(1,2) get_fcb_eq [OF fs_enter.hyps(1), of fd]
    by (auto simp: io_enter_def split: if_splits option.splits)
  obtain ops' where "io_enter c fd s = Inr (Some (f, streamobj (FT s f), ops'), FCB_incref f s)"
    "fs_inv (pins(f := pins f + 1)) (FCB_incref f s) fl"
    by (rule io_enter_inv [OF inv fs_enter.hyps(1) fd fs_enter.hyps(3)])
  with fs_enter.hyps(2) show ?case by (intro exI [of _ fl]) (simp del: fun_upd_apply)
next
  case (fs_leave pins f k s s')
  then obtain fl where inv: "fs_inv pins s fl" by auto
  obtain s'' fl' where "io_leave f s = Inr s''" "fs_inv (pins(f := k)) s'' fl'"
    by (rule io_leave_inv [OF inv fs_leave.hyps(1)])
  with fs_leave.hyps(2) show ?case by (intro exI [of _ fl']) (simp del: fun_upd_apply)
next
  case (fs_close c s cur fd rc s' pins)
  then obtain fl where inv: "fs_inv pins s fl" by auto
  obtain rc' s'' fl' where "sys_Close c fd s = Inr (rc', s'')" "fs_inv pins s'' fl'"
    by (rule sys_Close_inv [OF inv fs_close.hyps(1)])
  with fs_close.hyps(2) show ?case by auto
next
  case (fs_dup2 c s cur fd1 fd2 rc s' pins)
  then obtain fl where inv: "fs_inv pins s fl" by auto
  obtain rc' s'' fl' where "sys_Dup2 c fd1 fd2 s = Inr (rc', s'')" "fs_inv pins s'' fl'"
    by (rule sys_Dup2_inv [OF inv fs_dup2.hyps(1,2)])
  with fs_dup2.hyps(3) show ?case by auto
next
  case (fs_open c s cur major minor rc s' pins)
  then obtain fl where inv: "fs_inv pins s fl" by auto
  from open_stream_inv [OF inv fs_open.hyps(1-4), of minor] fs_open.hyps(5) show ?case by auto
next
  case (fs_console c s cur s' pins)
  then obtain fl where inv: "fs_inv pins s fl" by auto
  from console_inv [OF inv fs_console.hyps] show ?case by simp
next
  case (fs_other s s' pins)
  then show ?case by (auto intro: fs_same_inv)
qed

lemma fs_reachable_inv:
  assumes "fs_reachable (pins, s)" obtains fl where "fs_inv pins s fl"
proof -
  have "fs_reachable cf \<Longrightarrow> \<exists>fl. fs_inv (fst cf) (snd cf) fl" for cf
  proof (induction rule: fs_reachable.induct)
    case (fs_init s)
    then show ?case using initialize_files_inv by auto
  qed (rule fs_step_inv)
  with assms that show ?thesis by fastforce
qed

text \<open>The calls return.\<close>

lemma stream_calls_return:
  assumes inv: "fs_inv pins s fl" and cur: "CURPROC c s = Inr cur" "cur < MAX_PROC" and dev: "devs_ok s"
    and room: "\<forall>f. pins f + 1 < 2 ^ 31"
  shows "(\<exists>r. sys_Close c fd s = Inr r) \<and> (\<exists>r. sys_Dup2 c fd fd' s = Inr r) \<and>
    (\<exists>r. sys_OpenNull c s = Inr r) \<and> (\<exists>r. sys_OpenTerminal c n s = Inr r) \<and>
    (\<exists>r. sys_Read c fd sz env s = Inr r) \<and> (\<exists>r. sys_Write c fd buf sz env s = Inr r)"
proof -
  have io: "\<exists>r s1. io_enter c fd s = Inr (r, s1) \<and> (\<forall>f x. r = Some (f, x) \<longrightarrow> (\<exists>s2. io_leave f s1 = Inr s2))"
  proof (cases "legal_fid fd \<and> FIDT (PT s cur) (nat fd) \<noteq> None")
    case False
    with io_enter_none [OF cur(1)] show ?thesis by auto
  next
    case True
    then obtain f where f: "legal_fid fd" "FIDT (PT s cur) (nat fd) = Some f" by blast
    obtain ops where e: "io_enter c fd s = Inr (Some (f, streamobj (FT s f), ops), FCB_incref f s)"
      "fs_inv (pins(f := pins f + 1)) (FCB_incref f s) fl"
      by (rule io_enter_inv [OF inv cur(1) f]) (use room in auto)
    obtain s2 where "io_leave f (FCB_incref f s) = Inr s2"
      by (rule io_leave_inv [OF e(2), of f "pins f"]) auto
    with e(1) show ?thesis by auto
  qed
  have "\<exists>r. sys_Close c fd s = Inr r" by (rule sys_Close_inv [OF inv cur(1)]) blast
  moreover have "\<exists>r. sys_Dup2 c fd fd' s = Inr r" by (rule sys_Dup2_inv [OF inv cur]) blast
  moreover have "\<exists>r. sys_OpenNull c s = Inr r" "\<exists>r. sys_OpenTerminal c n s = Inr r"
    using open_stream_inv [OF inv cur dev] unfolding sys_OpenNull_def sys_OpenTerminal_def by blast+
  moreover have "\<exists>r. sys_Read c fd sz env s = Inr r" "\<exists>r. sys_Write c fd buf sz env s = Inr r"
    using io by (auto simp: sys_Read_def sys_Write_def split: option.splits)
  ultimately show ?thesis by blast
qed

end
