(* ===== verification/Streams_Props.thy ===== *)
theory Streams_Props
  imports Streams_Reach
begin

text \<open>The properties of the stream system calls.\<close>

section \<open>A kernel with one open stream\<close>

text \<open>
  The stream system calls run here on core 0, in the idle thread of the process 0, after the
  devices and the file table have been initialised; the virtual machine has one terminal.
\<close>

definition idle_tcb :: tcb where
  "idle_tcb = \<lparr>owner_pcb = 0, tptcb = None, priority = 0, ttype = IDLE_THREAD, tstate = RUNNING,
     tphase = CTX_DIRTY, tfunc = start_main_thread_func, wakeup_time = NO_TIMEOUT, its = QUANTUM,
     rts = QUANTUM, curr_cause = SCHED_IDLE, last_cause = SCHED_IDLE\<rparr>"

definition file_kernel :: kernel where
  "file_kernel = initialize_files (initialize_devices 0 ((static_kernel (\<lparr>prv = id, nxt = id, obj = \<lambda>_. ONull\<rparr>))
     \<lparr>tcbs := [IdleT 0 \<mapsto> idle_tcb], nterm := 1\<rparr>))"

lemma initialize_devices_keeps:
  "PT (initialize_devices c s) = PT s" "tcbs (initialize_devices c s) = tcbs s"
  "cctx (initialize_devices c s) = cctx s" "nterm (initialize_devices c s) = nterm s"
  "devs_ok (initialize_devices c s)"
  by (simp_all add: initialize_devices_def Let_def cpu_interrupt_handler_def set_core_def devs_ok_def
      bios_serial_ports_def)

lemma file_kernel:
  "fs_reachable (\<lambda>_. 0, file_kernel)" "CURPROC 0 file_kernel = Inr 0" "devs_ok file_kernel"
  "FIDT (PT file_kernel p) i = None" "fs_inv (\<lambda>_. 0) file_kernel [0..<MAX_FILES]"
  "nterm file_kernel = 1"
proof -
  let ?s = "initialize_devices 0 ((static_kernel (\<lparr>prv = id, nxt = id, obj = \<lambda>_. ONull\<rparr>))
     \<lparr>tcbs := [IdleT 0 \<mapsto> idle_tcb], nterm := 1\<rparr>)"
  have n: "\<forall>p i. FIDT (PT ?s p) i = None" by (simp add: initialize_devices_keeps static_kernel_def)
  show "fs_reachable (\<lambda>_. 0, file_kernel)" unfolding file_kernel_def by (rule fs_init [OF n])
  show "fs_inv (\<lambda>_. 0) file_kernel [0..<MAX_FILES]"
    unfolding file_kernel_def by (rule initialize_files_inv [OF n])
  note k = initialize_files_keeps [of ?s, folded file_kernel_def]
  show "FIDT (PT file_kernel p) i = None" using n by (simp add: k(1))
  have "CURPROC 0 ?s = Inr 0"
    by (simp add: CURPROC_def CURTHREAD_def get_tcb_def initialize_devices_keeps static_kernel_def idle_tcb_def)
  with k(2) show "CURPROC 0 file_kernel = Inr 0"
    using CURPROC_cong [of file_kernel ?s 0] by (simp add: same_rest_def)
  show "nterm file_kernel = 1" using k(2) by (simp add: same_rest_def initialize_devices_keeps)
  show "devs_ok file_kernel"
    using k(2) initialize_devices_keeps(5) [of 0] by (simp add: devs_ok_def same_rest_def bios_serial_ports_def)
qed

text \<open>After the null device has been opened, the file id 0 refers to an FCB.\<close>

lemma run_open_null:
  obtains s fl where "sys_OpenNull 0 file_kernel = Inr (0, s)" and "fs_reachable (\<lambda>_. 0, s)"
    and "CURPROC 0 s = Inr 0" and "\<forall>q j. FIDT (PT s q) j = (if q = 0 \<and> j = 0 then Some 0 else None)"
    and "fs_inv (\<lambda>_. 0) s fl" and "nrefs s 0 = 1" and "streamfunc (FT s 0) = Some nulldev_fops"
    and "fl \<noteq> []" and "devs_ok s" and "device_no DEV_SERIAL s = 1" and "refcount (FT s 0) = 1"
proof -
  have pos: "0 < MAX_FILEID" "0 < MAX_FILES" "Suc 0 < MAX_FILES"
    by (simp_all add: MAX_FILEID_def MAX_FILES_def MAX_PROC_def)
  have free: "free_fids (FIDT (PT file_kernel 0)) 0 = 0 # [Suc 0..<MAX_FILEID]"
    using upt_conv_Cons [OF pos(1)] by (simp add: free_fids_def file_kernel)
  have fl: "[0..<MAX_FILES] = 0 # [Suc 0..<MAX_FILES]" by (rule upt_conv_Cons [OF pos(2)])
  have m: "0 < device_no DEV_NULL file_kernel" using file_kernel(3) by (simp add: device_no_def devs_ok_def)
  have p: "0 < MAX_PROC" by (simp add: MAX_PROC_def)
  obtain s where s: "open_stream 0 DEV_NULL 0 file_kernel = Inr (int 0, s)"
    "fs_inv (\<lambda>_. 0) s [Suc 0..<MAX_FILES]"
    "\<forall>q j. FIDT (PT s q) j = (if q = 0 \<and> j = 0 then Some 0 else FIDT (PT file_kernel q) j)"
    "streamfunc (FT s 0) = Some (dev_fops (devtable file_kernel DEV_NULL))"
    "refcount (FT s 0) = 1" "tcbs s = tcbs file_kernel" "cctx s = cctx file_kernel" "devtable s = devtable file_kernel"
    "nterm s = nterm file_kernel"
    by (rule open_stream_opens [OF file_kernel(5,2) p file_kernel(3) _ m free fl]) auto
  have r: "fs_reachable (\<lambda>_. 0, s)"
    by (rule fs_next [OF file_kernel(1)], rule fs_open [OF file_kernel(2) p file_kernel(3) _ s(1)]) simp
  have "fid_slots s 0 = {(0, 0)}"
    using p by (auto simp: fid_slots_def s(3) file_kernel MAX_FILEID_def split: if_splits)
  then have n: "nrefs s 0 = 1" by (simp add: nrefs_def)
  show ?thesis
  proof (rule that)
    show "sys_OpenNull 0 file_kernel = Inr (0, s)" using s(1) by (simp add: sys_OpenNull_def)
    show "CURPROC 0 s = Inr 0" using file_kernel(2) CURPROC_cong [OF s(6,7)] by simp
    show "streamfunc (FT s 0) = Some nulldev_fops" using s(4) file_kernel(3) by (simp add: devs_ok_def)
    show "devs_ok s" using file_kernel(3) s(8,9) by (simp add: devs_ok_def bios_serial_ports_def)
    show "device_no DEV_SERIAL s = 1" using file_kernel(3,6) s(8) by (simp add: device_no_def devs_ok_def bios_serial_ports_def)
    show "[Suc 0..<MAX_FILES] \<noteq> []" using pos(3) by simp
  qed (use s r n file_kernel in auto)
qed

section \<open>Reference counts\<close>

lemma unat_of_nat_small: "n < 2 ^ 32 \<Longrightarrow> unat (of_nat n :: uint) = n"
  by (simp add: unsigned_of_nat take_bit_nat_eq_self)

text \<open>
  C33: In every state the stream system calls reach, the reference count of an FCB is exactly the
  number of file ids of all processes that refer to it plus the number of reads and writes that
  are inside its driver; an FCB is in the pool exactly when that number is zero, so a stream
  that is closed during a read stays allocated until the read returns.
\<close>

theorem stream_refcounts_exact:
  assumes "fs_reachable (pins, s)"
  shows "\<exists>fl. isring (rl s) FcbFreelist (map FcbNode fl) \<and> distinct fl \<and>
    (\<forall>f < MAX_FILES. (f \<in> set fl \<longleftrightarrow> nrefs s f + pins f = 0) \<and>
       (nrefs s f + pins f = 0 \<or> (unat (refcount (FT s f)) = nrefs s f + pins f \<and> streamfunc (FT s f) \<noteq> None)))"
proof -
  obtain fl where inv: "fs_inv pins s fl" by (rule fs_reachable_inv [OF assms])
  note d = fs_invD [OF inv] and p = fcb_poolD [OF fs_cntD(1) [OF fs_invD(1) [OF inv]]]
  have "unat (refcount (FT s f)) = nrefs s f + pins f" if n: "nrefs s f + pins f \<noteq> 0" for f
  proof -
    have "refcount (FT s f) = of_nat (nrefs s f + pins f)" by (rule p(6)) (use n in \<open>simp add: cnt_of_def\<close>)
    then show ?thesis using unat_of_nat_small [OF d(3)] by (simp only:)
  qed
  moreover have "streamfunc (FT s f) \<noteq> None" if "nrefs s f + pins f \<noteq> 0" for f
    using fs_cntD(2) [OF d(1) that] by auto
  ultimately have "nrefs s f + pins f = 0 \<or> (unat (refcount (FT s f)) = nrefs s f + pins f \<and>
      streamfunc (FT s f) \<noteq> None)" for f by metis
  then show ?thesis by (intro exI [of _ fl] conjI allI impI p(1,7)) (use fs_cntD(4) [OF d(1)] in auto)
qed

theorem stream_refcounts_exact_witness:
  "\<exists>s. sys_OpenNull 0 file_kernel = Inr (0, s) \<and> unat (refcount (FT s 0)) = 1"
proof -
  obtain s fl where s: "sys_OpenNull 0 file_kernel = Inr (0, s)" "fs_reachable (\<lambda>_. 0, s)"
    "CURPROC 0 s = Inr 0" "\<forall>q j. FIDT (PT s q) j = (if q = 0 \<and> j = 0 then Some 0 else None)"
    "fs_inv (\<lambda>_. 0) s fl" "nrefs s 0 = 1"
    by (rule run_open_null)
  have "0 < MAX_FILES" by (simp add: MAX_FILES_def MAX_PROC_def)
  with stream_refcounts_exact [OF s(2)] s(1,6) show ?thesis by force
qed

text \<open>
  No stream system call that runs in a reachable state meets a fault: \<open>Close\<close>,
  \<open>Dup2\<close> and the calls that open a device return, and \<open>Read\<close> and \<open>Write\<close> reach their
  driver and return from it, whatever file id they are given.
\<close>

theorem stream_calls_never_fault:
  assumes "fs_reachable (pins, s)" and "CURPROC c s = Inr cur" and "cur < MAX_PROC" and "devs_ok s"
    and "\<forall>f. pins f + 1 < 2 ^ 31"
  shows "(\<exists>r. sys_Close c fd s = Inr r) \<and> (\<exists>r. sys_Dup2 c fd fd' s = Inr r) \<and>
    (\<exists>r. sys_OpenNull c s = Inr r) \<and> (\<exists>r. sys_OpenTerminal c n s = Inr r) \<and>
    (\<exists>r. sys_Read c fd sz env s = Inr r) \<and> (\<exists>r. sys_Write c fd buf sz env s = Inr r)"
proof -
  obtain fl where "fs_inv pins s fl" by (rule fs_reachable_inv [OF assms(1)])
  from stream_calls_return [OF this assms(2-5)] show ?thesis .
qed

theorem stream_calls_never_fault_witness:
  "\<exists>s r. sys_OpenNull 0 file_kernel = Inr (0, s) \<and> sys_Write 0 0 [1, 2] 2 (dev_answers [] []) s = Inr r"
proof -
  obtain s fl where s: "sys_OpenNull 0 file_kernel = Inr (0, s)" "fs_reachable (\<lambda>_. 0, s)"
    "CURPROC 0 s = Inr 0" "\<forall>q j. FIDT (PT s q) j = (if q = 0 \<and> j = 0 then Some 0 else None)"
    "fs_inv (\<lambda>_. 0) s fl" "nrefs s 0 = 1" "streamfunc (FT s 0) = Some nulldev_fops" "fl \<noteq> []" "devs_ok s"
    by (rule run_open_null)
  have "0 < MAX_PROC" by (simp add: MAX_PROC_def)
  from stream_calls_never_fault [OF s(2,3) this s(9)] s(1) show ?thesis by fastforce
qed

section \<open>What the calls do\<close>

text \<open>What \<open>open_stream\<close> writes of the file table is the FCB at the front of the free list.\<close>

lemma open_stream_keeps_FCBs:
  assumes inv: "fs_inv pins s fl" and cur: "CURPROC c s = Inr cur"
    and o: "open_stream c major minor s = Inr (rc, s')" and g: "g \<notin> set fl"
  shows "FT s' g = FT s g"
proof -
  note p = fs_cntD(1) [OF fs_invD(1) [OF inv]]
  show ?thesis
  proof (cases fl)
    case Nil
    then have "is_rlist_empty FcbFreelist (rl s)" using is_rlist_empty_iff [OF fcb_poolD(1) [OF p]] by simp
    then show ?thesis using o cur
      by (auto simp: open_stream_def FCB_reserve_def One_nat_def acquire_FCB_def split: option.splits)
  next
    case (Cons f fs)
    obtain s0 where s0: "acquire_FCB s = Inr (Some f, s0)" by (rule acquire_fcb_pool [OF p [unfolded Cons]])
    have "FT s0 g = FT s g" using s0 g Cons
      by (auto simp: acquire_FCB_def set_FCB_def Let_def split: if_splits key.splits prod.splits)
    then show ?thesis using o cur s0 g Cons
      by (auto simp: open_stream_def FCB_reserve_def FCB_unreserve_def One_nat_def FCB_incref_def set_FCB_def
          release_FCB_def rbind_eq_Inr Let_def split: option.splits if_splits)
  qed
qed

text \<open>
  C34: Opening a device succeeds exactly when the device exists, the process has a free file id
  and the kernel a free FCB.  Then it returns the smallest free file id, which refers to an
  FCB that nothing referred to, the first one of the free list, with one reference and the methods
  of the device; no other file id changes.  When it fails it returns \<open>NOFILE\<close>, no file id of any
  process changes, and the free list has the same FCBs as before, perhaps in another order.  In
  both cases no FCB that is in use changes: neither its reference count nor its stream.
\<close>

theorem open_stream_takes_lowest_fid:
  assumes "fs_reachable (pins, s)" and "CURPROC c s = Inr cur" and "cur < MAX_PROC" and "devs_ok s"
    and "major \<noteq> DEV_MAX"
  shows "\<exists>rc s' fl fl'. open_stream c major minor s = Inr (rc, s') \<and>
    isring (rl s) FcbFreelist (map FcbNode fl) \<and> isring (rl s') FcbFreelist (map FcbNode fl') \<and>
    (\<forall>g. nrefs s g + pins g \<noteq> 0 \<longrightarrow> FT s' g = FT s g) \<and>
    (if minor < device_no major s \<and> (\<exists>i < MAX_FILEID. FIDT (PT s cur) i = None) \<and>
        (\<exists>f < MAX_FILES. nrefs s f + pins f = 0)
     then \<exists>i f. rc = int i \<and> i < MAX_FILEID \<and> FIDT (PT s cur) i = None \<and>
        (\<forall>j < i. FIDT (PT s cur) j \<noteq> None) \<and> nrefs s f + pins f = 0 \<and> fl = f # fl' \<and>
        (\<forall>q j. FIDT (PT s' q) j = (if q = cur \<and> j = i then Some f else FIDT (PT s q) j)) \<and>
        refcount (FT s' f) = 1 \<and> streamfunc (FT s' f) = Some (dev_fops (devtable s major))
     else rc = NOFILE \<and> (\<forall>q j. FIDT (PT s' q) j = FIDT (PT s q) j) \<and> set fl' = set fl \<and> distinct fl')"
proof -
  obtain fl where inv: "fs_inv pins s fl" by (rule fs_reachable_inv [OF assms(1)])
  note mem = fs_cntD(4) [OF fs_invD(1) [OF inv]]
  note pool = fcb_poolD(1,7) [OF fs_cntD(1) [OF fs_invD(1)]]
  have ff: "free_fids (FIDT (PT s cur)) 0 \<noteq> [] \<longleftrightarrow> (\<exists>i < MAX_FILEID. FIDT (PT s cur) i = None)"
    by (auto simp: free_fids_def filter_empty_conv)
  have fr: "fl \<noteq> [] \<longleftrightarrow> (\<exists>f < MAX_FILES. nrefs s f + pins f = 0)"
    using mem by (auto simp: neq_Nil_conv) (metis list.set_cases list.set_intros(1))+
  have keep: "\<forall>g. nrefs s g + pins g \<noteq> 0 \<longrightarrow> FT s' g = FT s g" if "open_stream c major minor s = Inr (rc, s')" for rc s'
    by (intro allI impI open_stream_keeps_FCBs [OF inv assms(2) that]) (simp add: mem)
  show ?thesis
  proof (cases "free_fids (FIDT (PT s cur)) 0 = [] \<or> fl = [] \<or> \<not> minor < device_no major s")
    case True
    obtain s' fl' where s': "open_stream c major minor s = Inr (NOFILE, s')" "fs_inv pins s' fl'" "set fl' = set fl"
      "\<forall>q j. FIDT (PT s' q) j = FIDT (PT s q) j"
      by (rule open_stream_fails [OF inv assms(2-5) True])
    have n: "\<not> (minor < device_no major s \<and> (\<exists>i < MAX_FILEID. FIDT (PT s cur) i = None) \<and>
        (\<exists>f < MAX_FILES. nrefs s f + pins f = 0))" using True ff fr by blast
    show ?thesis unfolding if_not_P [OF n]
      by (intro exI [of _ NOFILE] exI [of _ s'] exI [of _ fl] exI [of _ fl'] conjI)
        (rule s' pool [OF inv] pool [OF s'(2)] keep [OF s'(1)] refl)+
  next
    case False
    then obtain i "is" f fs where i: "free_fids (FIDT (PT s cur)) 0 = i # is" and fl: "fl = f # fs"
      by (auto simp: neq_Nil_conv)
    obtain s' where s': "open_stream c major minor s = Inr (int i, s')" "fs_inv pins s' fs"
      "\<forall>q j. FIDT (PT s' q) j = (if q = cur \<and> j = i then Some f else FIDT (PT s q) j)"
      "refcount (FT s' f) = 1" "streamfunc (FT s' f) = Some (dev_fops (devtable s major))"
      by (rule open_stream_opens [OF inv assms(2-5) _ i fl]) (use False in auto)
    have "i < MAX_FILEID \<and> FIDT (PT s cur) i = None \<and> (\<forall>j < i. FIDT (PT s cur) j \<noteq> None)"
      by (rule free_fids_lowest [OF i])
    moreover have "nrefs s f + pins f = 0" using mem [of f] fl by simp
    moreover have y: "minor < device_no major s \<and> (\<exists>i < MAX_FILEID. FIDT (PT s cur) i = None) \<and>
        (\<exists>f < MAX_FILES. nrefs s f + pins f = 0)" using False ff fr by blast
    ultimately show ?thesis unfolding if_P [OF y]
      by (intro exI [of _ "int i"] exI [of _ s'] exI [of _ fl] exI [of _ fs] conjI exI [of _ i] exI [of _ f])
        (use s'(1,3-5) pool(1) [OF inv] pool(1) [OF s'(2)] keep [OF s'(1)] fl in \<open>simp_all\<close>)
  qed
qed

theorem open_stream_takes_lowest_fid_witness:
  "\<exists>s s'. sys_OpenNull 0 file_kernel = Inr (0, s) \<and> open_stream 0 DEV_SERIAL 0 s = Inr (1, s') \<and>
     open_stream 0 DEV_SERIAL 1 s \<noteq> open_stream 0 DEV_SERIAL 0 s"
proof -
  obtain s fl where s: "sys_OpenNull 0 file_kernel = Inr (0, s)" "fs_reachable (\<lambda>_. 0, s)"
    "CURPROC 0 s = Inr 0" "\<forall>q j. FIDT (PT s q) j = (if q = 0 \<and> j = 0 then Some 0 else None)"
    "fs_inv (\<lambda>_. 0) s fl" "fl \<noteq> []" "devs_ok s" "device_no DEV_SERIAL s = 1"
    by (rule run_open_null)
  have p: "0 < MAX_PROC" "1 < MAX_FILEID" by (simp_all add: MAX_PROC_def MAX_FILEID_def)
  note o = open_stream_takes_lowest_fid [OF s(2,3) p(1) s(7), of DEV_SERIAL]
  have f: "\<exists>f < MAX_FILES. nrefs s f + 0 = 0"
    using s(6) fs_cntD(4) [OF fs_invD(1) [OF s(5)]] by (metis hd_in_set)
  have g: "\<exists>i < MAX_FILEID. FIDT (PT s 0) i = None" using p s(4) by (intro exI [of _ 1]) simp
  obtain i s1 where 1: "open_stream 0 DEV_SERIAL 0 s = Inr (int i, s1)" "FIDT (PT s 0) i = None"
    "\<forall>j < i. FIDT (PT s 0) j \<noteq> None"
    using o [of 0] f g s(8) by auto
  have "i \<noteq> 0" "\<not> 1 < i" using 1(2,3) s(4) by (auto split: if_splits)
  then have "i = 1" by simp
  moreover have "\<exists>s2. open_stream 0 DEV_SERIAL 1 s = Inr (NOFILE, s2)" using o [of 1] s(8) by auto
  ultimately show ?thesis using 1(1) s(1) by (auto simp: NOFILE_def)
qed

text \<open>
  \<open>Close\<close> returns -1 exactly for an illegal file id, and it frees the file id, in the
  calling process only; closing a file id that is not open changes nothing.
\<close>

theorem sys_Close_frees_fid:
  assumes "fs_reachable (pins, s)" and "CURPROC c s = Inr cur"
  shows "\<exists>s'. sys_Close c fd s = Inr (if 0 \<le> fd \<and> fd < int MAX_FILEID then 0 else -1, s') \<and>
    fs_reachable (pins, s') \<and>
    (\<forall>q j. FIDT (PT s' q) j = (if q = cur \<and> int j = fd \<and> j < MAX_FILEID then None else FIDT (PT s q) j))"
proof -
  obtain fl where inv: "fs_inv pins s fl" by (rule fs_reachable_inv [OF assms(1)])
  obtain rc s' fl' where s': "sys_Close c fd s = Inr (rc, s')"
    "\<forall>q j. FIDT (PT s' q) j = (if q = cur \<and> int j = fd \<and> legal_fid fd then None else FIDT (PT s q) j)"
    "rc = (if legal_fid fd then 0 else -1)"
    by (rule sys_Close_inv [OF inv assms(2)])
  have "fs_reachable (pins, s')" by (rule fs_next [OF assms(1) fs_close [OF assms(2) s'(1)]])
  with s' show ?thesis by (auto simp: legal_fid_def)
qed

theorem sys_Close_frees_fid_witness:
  "\<exists>s s'. sys_OpenNull 0 file_kernel = Inr (0, s) \<and> sys_Close 0 0 s = Inr (0, s') \<and>
     FIDT (PT s' 0) 0 = None \<and> unat (refcount (FT s 0)) = 1"
proof -
  obtain s fl where s: "sys_OpenNull 0 file_kernel = Inr (0, s)" "fs_reachable (\<lambda>_. 0, s)"
    "CURPROC 0 s = Inr 0" "\<forall>q j. FIDT (PT s q) j = (if q = 0 \<and> j = 0 then Some 0 else None)"
    "refcount (FT s 0) = 1" by (rule run_open_null)
  have "0 < MAX_FILEID" by (simp add: MAX_FILEID_def)
  with sys_Close_frees_fid [OF s(2,3), of 0] s(1,5) show ?thesis by auto
qed

text \<open>
  \<open>Dup2\<close> fails, and changes nothing, exactly when a file id is illegal or the old one is not
  open; otherwise the new file id refers to the stream of the old one, whatever it referred to
  before, and every other file id is as it was.
\<close>

theorem sys_Dup2_copies_fid:
  assumes "fs_reachable (pins, s)" and "CURPROC c s = Inr cur" and "cur < MAX_PROC"
  shows "\<exists>rc s'. sys_Dup2 c oldfd newfd s = Inr (rc, s') \<and> fs_reachable (pins, s') \<and>
    (if legal_fid oldfd \<and> legal_fid newfd \<and> FIDT (PT s cur) (nat oldfd) \<noteq> None
     then rc = 0 \<and> (\<forall>q j. FIDT (PT s' q) j =
       (if q = cur \<and> j = nat newfd then FIDT (PT s cur) (nat oldfd) else FIDT (PT s q) j))
     else rc = -1 \<and> s' = s)"
proof -
  obtain fl where inv: "fs_inv pins s fl" by (rule fs_reachable_inv [OF assms(1)])
  obtain rc s' fl' where s': "sys_Dup2 c oldfd newfd s = Inr (rc, s')"
    "rc = (if legal_fid oldfd \<and> legal_fid newfd \<and> FIDT (PT s cur) (nat oldfd) \<noteq> None then 0 else -1)"
    "\<forall>q j. FIDT (PT s' q) j = (if rc = 0 \<and> q = cur \<and> j = nat newfd
          then FIDT (PT s cur) (nat oldfd) else FIDT (PT s q) j)"
    by (rule sys_Dup2_inv [OF inv assms(2,3)])
  have r: "fs_reachable (pins, s')" by (rule fs_next [OF assms(1) fs_dup2 [OF assms(2,3) s'(1)]])
  show ?thesis
  proof (cases "legal_fid oldfd \<and> legal_fid newfd \<and> FIDT (PT s cur) (nat oldfd) \<noteq> None")
    case True
    with s' r show ?thesis by (intro exI [of _ rc] exI [of _ s']) simp
  next
    case False
    then have "sys_Dup2 c oldfd newfd s = Inr (-1, s)"
      using get_fcb_eq [OF assms(2)] by (auto simp: sys_Dup2_def)
    with s'(1) r False show ?thesis by auto
  qed
qed

theorem sys_Dup2_copies_fid_witness:
  "\<exists>s s'. sys_OpenNull 0 file_kernel = Inr (0, s) \<and> sys_Dup2 0 0 5 s = Inr (0, s') \<and>
     FIDT (PT s' 0) 5 = Some 0 \<and> FIDT (PT s' 0) 0 = Some 0"
proof -
  obtain s fl where s: "sys_OpenNull 0 file_kernel = Inr (0, s)" "fs_reachable (\<lambda>_. 0, s)"
    "CURPROC 0 s = Inr 0" "\<forall>q j. FIDT (PT s q) j = (if q = 0 \<and> j = 0 then Some 0 else None)"
    by (rule run_open_null)
  have p: "0 < MAX_PROC" "legal_fid 0" "legal_fid 5"
    by (simp_all add: MAX_PROC_def MAX_FILEID_def legal_fid_def)
  from sys_Dup2_copies_fid [OF s(2,3) p(1), of 0 5] s(1,4) p(2,3) show ?thesis by auto
qed

section \<open>Reading\<close>

text \<open>
  A read of less than 2^31 bytes that returns, from any driver: for a file id that is not
  open it is -1 and nothing happens; otherwise it is the number of bytes stored into the buffer,
  at most the size asked for and, but for the pseudo-console, at least one unless the size is 0, and the reference the call
  took is given back.
\<close>

theorem sys_Read_returns_count:
  assumes "fs_reachable (pins, s)" and "CURPROC c s = Inr cur" and "\<forall>f. pins f + 1 < 2 ^ 31"
    and "unat sz < 2 ^ 31" and "sys_Read c fd sz env s = Inr (Some (rc, buf, s'))"
  shows "fs_reachable (pins, s') \<and> (\<forall>q. FIDT (PT s' q) = FIDT (PT s q)) \<and>
    (if legal_fid fd \<and> FIDT (PT s cur) (nat fd) \<noteq> None
     then rc = int (length buf) \<and> length buf \<le> unat sz \<and>
       (sz = 0 \<longrightarrow> rc = 0) \<and>
       (streamfunc (FT s (the (FIDT (PT s cur) (nat fd)))) \<noteq> Some stdio_ops \<longrightarrow> sz \<noteq> 0 \<longrightarrow> 0 < rc)
     else rc = -1 \<and> buf = [] \<and> s' = s)"
proof (cases "legal_fid fd \<and> FIDT (PT s cur) (nat fd) \<noteq> None")
  case False
  have "s' = s" "rc = -1" "buf = []"
    using io_enter_none [OF assms(2) False] assms(5) by (auto simp: sys_Read_def)
  with False assms(1) show ?thesis by simp
next
  case True
  obtain fl where inv: "fs_inv pins s fl" by (rule fs_reachable_inv [OF assms(1)])
  from True obtain f where f: "legal_fid fd" "FIDT (PT s cur) (nat fd) = Some f" by blast
  obtain ops where e: "io_enter c fd s = Inr (Some (f, streamobj (FT s f), ops), FCB_incref f s)"
    "fs_inv (pins(f := pins f + 1)) (FCB_incref f s) fl" and so: "streamfunc (FT s f) = Some ops"
    by (rule io_enter_inv [OF inv assms(2) f]) (use assms(3) in auto)
  obtain s2 where l: "io_leave f (FCB_incref f s) = Inr s2" "PT s2 = PT s"
    by (rule io_leave_inv [OF e(2), of f "pins f"]) auto
  obtain env' where d: "dev_Read ops (streamobj (FT s f)) sz env = Some (rc, buf, env')" and "s' = s2"
    using assms(5) e(1) l(1) by (auto simp: sys_Read_def split: option.splits)
  have r1: "fs_reachable (pins(f := pins f + 1), FCB_incref f s)"
    by (rule fs_next [OF assms(1) fs_enter [OF assms(2) e(1)]]) (use assms(3) in simp)
  have "fs_reachable ((pins(f := pins f + 1))(f := pins f), s2)"
    by (rule fs_next [OF r1 fs_leave [OF _ l(1)]]) simp
  then have r: "fs_reachable (pins, s')" using \<open>s' = s2\<close> by simp
  have "rc = int (length buf) \<and> length buf \<le> unat sz \<and> (ops \<noteq> stdio_ops \<longrightarrow> sz \<noteq> 0 \<longrightarrow> 0 < rc)"
  proof (cases ops)
    case nulldev_fops
    note d' = d [unfolded nulldev_fops]
    show ?thesis using nulldev.rd_int_count [OF d' assms(4)] nulldev.rd_positive [OF d' assms(4)] by simp
  next
    case serial_fops
    note d' = d [unfolded serial_fops]
    show ?thesis using serial.rd_int_count [OF d' assms(4)] serial.rd_positive [OF d' assms(4)] by simp
  next
    case stdio_ops
    show ?thesis using console.rd_int_count [OF d [unfolded stdio_ops] assms(4)] stdio_ops by simp
  qed
  then show ?thesis using r True l(2) f(2) so \<open>s' = s2\<close> by (auto simp: unat_eq_0)
qed

theorem sys_Read_returns_count_witness:
  "\<exists>s s'. sys_OpenNull 0 file_kernel = Inr (0, s) \<and>
     sys_Read 0 0 3 (dev_answers [] []) s = Inr (Some (3, [0, 0, 0], s')) \<and>
     FIDT (PT s' 0) 0 = Some 0 \<and> fs_reachable (\<lambda>_. 0, s')"
proof -
  obtain s fl where s: "sys_OpenNull 0 file_kernel = Inr (0, s)" "fs_reachable (\<lambda>_. 0, s)"
    "CURPROC 0 s = Inr 0" "\<forall>q j. FIDT (PT s q) j = (if q = 0 \<and> j = 0 then Some 0 else None)"
    "fs_inv (\<lambda>_. 0) s fl" "streamfunc (FT s 0) = Some nulldev_fops" by (rule run_open_null)
  have l: "legal_fid 0" "FIDT (PT s 0) (nat 0) = Some 0" using s(4) by (auto simp: legal_fid_def MAX_FILEID_def)
  obtain ops where e: "io_enter 0 0 s = Inr (Some (0, streamobj (FT s 0), ops), FCB_incref 0 s)"
    "streamfunc (FT s 0) = Some ops" "fs_inv ((\<lambda>_. 0)(0 := 0 + 1)) (FCB_incref 0 s) fl"
    by (rule io_enter_inv [OF s(5,3) l]) auto
  obtain s2 where "io_leave 0 (FCB_incref 0 s) = Inr s2" by (rule io_leave_inv [OF e(3), of 0 0]) auto
  moreover have "replicate 3 x = [x, x, x]" for x :: byte by (simp add: numeral_3_eq_3)
  ultimately have r: "sys_Read 0 0 3 (dev_answers [] []) s = Inr (Some (3, [0, 0, 0], s2))"
    using e(1,2) s(6) by (simp add: sys_Read_def nulldev_read_def)
  from sys_Read_returns_count [OF s(2,3) _ _ r] s(1,4) r show ?thesis by auto
qed

text \<open>
  A size of 2^31 or more does not fit the \<open>int\<close> that is returned: a read of the null device
  then stores all its bytes and returns a negative number, the error code -1 for the size 2^32 - 1.
\<close>

lemma nulldev_read_big:
  assumes "2 ^ 31 \<le> unat sz"
  shows "fst (nulldev_read d sz) < 0" and "fst (nulldev_read d (-1)) = -1"
proof -
  have "uint sz < 2 ^ 32" using uint_lt2p [of sz] by simp
  moreover have "2 ^ 31 \<le> uint sz" using assms by (metis of_nat_le_iff of_nat_numeral of_nat_power uint_nat)
  ultimately have "uint sz div 2 ^ 31 = 1" by simp
  then have "bit (uint sz) 31" by (simp add: bit_iff_odd)
  then have "sint sz < 0" by (simp add: sint_uint signed_take_bit_negative_iff)
  then show "fst (nulldev_read d sz) < 0" by (simp add: nulldev_read_def)
qed (simp add: nulldev_read_def)

end
