(* ===== verification/Proc.thy ===== *)
theory Proc
  imports Streams Cond
begin

text \<open>
  The process table and the system calls of src/kernel_proc.c.  The addresses that \<open>malloc\<close>
  returns are arguments.  A call that sleeps in \<open>kernel_wait\<close> is cut there: its result is
  \<open>Block cv\<close>, and the thread goes on with the loop of the call when it runs again.
\<close>

datatype 'a call = Return 'a | Block cvref

section \<open>The process table\<close>

definition get_pcb :: "pref \<Rightarrow> kernel \<Rightarrow> pref option" where
  "get_pcb pid s = (if pstate (PT s pid) = FREE then None else Some pid)"

definition get_pid :: "pref option \<Rightarrow> int" where
  "get_pid pcb = (case pcb of None \<Rightarrow> NOPROC | Some p \<Rightarrow> int p)"

definition initialize_PCB :: "pref \<Rightarrow> kernel \<Rightarrow> kernel" where
  "initialize_PCB p s =
     (let s1 = set_PCB p ((PT s p)\<lparr>pstate := FREE, argl := 0, args := None, thread_count := 0,
                 FIDT := fold (\<lambda>i F. F(i := None)) [0..<MAX_FILEID] (FIDT (PT s p))\<rparr>) s;
          h1 = rlnode_init (ThreadList p) ONull (rl s1);
          h2 = rlnode_init (ChildrenList p) ONull h1;
          h3 = rlnode_init (ExitedList p) ONull h2;
          h4 = rlnode_init (ChildrenNode p) (OPcb p) h3;
          h5 = rlnode_init (ExitedNode p) (OPcb p) h4
      in s1\<lparr>rl := h5, condvars := (condvars s1)(ChildExit p := None)\<rparr>)"

definition free_list_push :: "pref \<Rightarrow> kernel \<Rightarrow> kernel" where
  "free_list_push p s =
     (set_PCB p ((PT s p)\<lparr>parent := pcb_freelist s\<rparr>) s)\<lparr>pcb_freelist := Some p\<rparr>"

definition init_process_table :: "kernel \<Rightarrow> kernel" where
  "init_process_table s =
     (let s1 = fold initialize_PCB [0..<MAX_PROC] s;
          s2 = fold free_list_push (rev [0..<MAX_PROC]) (s1\<lparr>pcb_freelist := None\<rparr>)
      in s2\<lparr>process_count := 0\<rparr>)"

definition acquire_PCB :: "kernel \<Rightarrow> pref option \<times> kernel" where
  "acquire_PCB s =
     (case pcb_freelist s of
        None \<Rightarrow> (None, s)
      | Some pcb \<Rightarrow>
          (let s1 = set_PCB pcb ((PT s pcb)\<lparr>pstate := ALIVE, thread_count := 0\<rparr>) s
           in (Some pcb, s1\<lparr>pcb_freelist := parent (PT s1 pcb), process_count := process_count s1 + 1\<rparr>)))"

definition release_PCB :: "pref \<Rightarrow> kernel \<Rightarrow> kernel" where
  "release_PCB pcb s =
     (set_PCB pcb ((PT s pcb)\<lparr>pstate := FREE, parent := pcb_freelist s\<rparr>) s)
       \<lparr>pcb_freelist := Some pcb, process_count := process_count s - 1\<rparr>"

section \<open>Creating a process\<close>

text \<open>The call that \<open>start_main_thread\<close> makes; its value is the argument of \<open>Exit\<close>.\<close>

definition start_main_thread :: "nat \<Rightarrow> kernel \<Rightarrow> (task \<times> int \<times> ptr) result" where
  "start_main_thread c s =
     rbind (CURPROC c s) (\<lambda>p. Inr (main_task (PT s p), argl (PT s p), args (PT s p)))"

definition inherit_fid :: "pref \<Rightarrow> pref \<Rightarrow> nat \<Rightarrow> kernel \<Rightarrow> kernel" where
  "inherit_fid newproc curproc i s =
     (let s1 = set_fid newproc i (FIDT (PT s curproc) i) s
      in case FIDT (PT s1 newproc) i of None \<Rightarrow> s1 | Some f \<Rightarrow> FCB_incref f s1)"

definition inherit_parent :: "pref \<Rightarrow> pref \<Rightarrow> kernel \<Rightarrow> kernel" where
  "inherit_parent newproc curproc s =
     (let s1 = set_PCB newproc ((PT s newproc)\<lparr>parent := Some curproc\<rparr>) s;
          s2 = s1\<lparr>rl := rlist_push_front (ChildrenList curproc) (ChildrenNode newproc) (rl s1)\<rparr>
      in fold (inherit_fid newproc curproc) [0..<MAX_FILEID] s2)"

text \<open>
  The copy of the arguments into the block \<open>m\<close> that \<open>malloc(argl)\<close> returns.  A negative
  \<open>argl\<close> is a length no allocation can have, so the copy goes to the null pointer; a source
  block that is shorter is read out of its bounds.
\<close>

definition copy_args :: "nat \<Rightarrow> ptr \<Rightarrow> int \<Rightarrow> pref \<Rightarrow> kernel \<Rightarrow> kernel result" where
  "copy_args m src len newproc s =
     (case src of
        None \<Rightarrow> Inr (set_PCB newproc ((PT s newproc)\<lparr>args := None\<rparr>) s)
      | Some a \<Rightarrow>
          if len < 0 then Inl NullDeref
          else (case mem s a of
                  None \<Rightarrow> Inl DanglingPtr
                | Some bs \<Rightarrow>
                    if length bs < nat len then Inl BadIndex
                    else Inr ((set_PCB newproc ((PT s newproc)\<lparr>args := Some m\<rparr>) s)
                                \<lparr>mem := (mem s)(m \<mapsto> take (nat len) bs)\<rparr>)))"

text \<open>
  A thread of a process with its PTCB, in \<open>sys_Exec\<close> and in \<open>sys_CreateThread\<close>.  The field
  \<open>exitval\<close> of the PTCB keeps what the memory held (\<open>0\<close> here) until the thread exits.
\<close>

definition new_thread ::
  "nat \<Rightarrow> ptref \<Rightarrow> nat \<Rightarrow> pref \<Rightarrow> thread_func \<Rightarrow> task \<Rightarrow> int \<Rightarrow> ptr \<Rightarrow> kernel \<Rightarrow> kernel result" where
  "new_thread c pa ta p func call len a s =
     (let x = \<lparr>ptcb_tcb = None, detached = False, exited = False, ref_count = 0, texitval = 0,
               ttask = call, targl = len, targs = a\<rparr>;
          s1 = s\<lparr>rl := rlist_push_back (ThreadList p) (ThreadNode pa)
                        (rlnode_init (ThreadNode pa) (OPtcb pa) (rl s)),
                 condvars := (condvars s)(ExitCv pa := None)\<rparr>;
          s2 = set_PCB p ((PT s1 p)\<lparr>thread_count := thread_count (PT s1 p) + 1\<rparr>) s1;
          (t, s3) = spawn_thread ta p func s2;
          s4 = set_ptcb pa (x\<lparr>ptcb_tcb := Some t\<rparr>) s3
      in rbind (get_tcb t s4) (\<lambda>y.
         rbind (wakeup c t (set_tcb t (y\<lparr>tptcb := Some pa\<rparr>) s4)) (\<lambda>(r, s5). Inr s5)))"

text \<open>
  \<open>sys_Exec\<close>; \<open>m\<close>, \<open>pa\<close> and \<open>ta\<close> are the addresses of the copied arguments, of the PTCB
  and of the TCB of the new process.
\<close>

definition sys_Exec ::
  "nat \<Rightarrow> task \<Rightarrow> int \<Rightarrow> ptr \<Rightarrow> nat \<times> ptref \<times> nat \<Rightarrow> kernel \<Rightarrow> (int \<times> kernel) result" where
  "sys_Exec c call len a adr s =
     (case acquire_PCB s of
        (None, s1) \<Rightarrow> Inr (get_pid None, s1)
      | (Some newproc, s1) \<Rightarrow>
          rbind (if get_pid (Some newproc) \<le> 1
                 then Inr (set_PCB newproc ((PT s1 newproc)\<lparr>parent := None\<rparr>) s1)
                 else rbind (CURPROC c s1) (\<lambda>curproc. Inr (inherit_parent newproc curproc s1))) (\<lambda>s2.
          let s3 = set_PCB newproc ((PT s2 newproc)\<lparr>main_task := call, argl := len\<rparr>) s2
          in rbind (copy_args (fst adr) a len newproc s3) (\<lambda>s4.
             rbind (if call \<noteq> None
                    then new_thread c (fst (snd adr)) (snd (snd adr)) newproc start_main_thread_func call len a s4
                    else Inr s4) (\<lambda>s5.
             Inr (get_pid (Some newproc), s5)))))"

section \<open>Process ids\<close>

definition sys_GetPid :: "nat \<Rightarrow> kernel \<Rightarrow> int result" where
  "sys_GetPid c s = rbind (CURPROC c s) (\<lambda>p. Inr (get_pid (Some p)))"

definition sys_GetPPid :: "nat \<Rightarrow> kernel \<Rightarrow> int result" where
  "sys_GetPPid c s = rbind (CURPROC c s) (\<lambda>p. Inr (get_pid (parent (PT s p))))"

section \<open>Waiting for a child\<close>

text \<open>\<open>status\<close> says if the caller passes a pointer; what is stored there is in the result.\<close>

definition cleanup_zombie :: "pref \<Rightarrow> bool \<Rightarrow> kernel \<Rightarrow> int option \<times> kernel" where
  "cleanup_zombie pcb status s =
     (let st = (if status then Some (exitval (PT s pcb)) else None);
          h1 = rlist_remove (ChildrenNode pcb) (rl s);
          h2 = rlist_remove (ExitedNode pcb) h1
      in (st, release_PCB pcb (s\<lparr>rl := h2\<rparr>)))"

definition specific_child_loop ::
  "pref \<Rightarrow> pref \<Rightarrow> bool \<Rightarrow> kernel \<Rightarrow> (int \<times> int option) call \<times> kernel" where
  "specific_child_loop parnt child status s =
     (if pstate (PT s child) = ALIVE
      then (Block (ChildExit parnt), s)
      else (let (st, s1) = cleanup_zombie child status s in (Return (int child, st), s1)))"

definition wait_for_specific_child ::
  "nat \<Rightarrow> int \<Rightarrow> bool \<Rightarrow> kernel \<Rightarrow> ((int \<times> int option) call \<times> kernel) result" where
  "wait_for_specific_child c cpid status s =
     (if cpid < 0 \<or> cpid \<ge> int MAX_PROC then Inr (Return (NOPROC, None), s)
      else rbind (CURPROC c s) (\<lambda>parnt.
           case get_pcb (nat cpid) s of
             None \<Rightarrow> Inr (Return (NOPROC, None), s)
           | Some child \<Rightarrow>
               if parent (PT s child) \<noteq> Some parnt then Inr (Return (NOPROC, None), s)
               else Inr (specific_child_loop parnt child status s)))"

definition any_child_loop :: "pref \<Rightarrow> bool \<Rightarrow> kernel \<Rightarrow> ((int \<times> int option) call \<times> kernel) result" where
  "any_child_loop parnt status s =
     (if is_rlist_empty (ExitedList parnt) (rl s)
      then Inr (Block (ChildExit parnt), s)
      else (case obj (rl s) (nxt (rl s) (ExitedList parnt)) of
              OPcb child \<Rightarrow>
                if pstate (PT s child) \<noteq> ZOMBIE then Inl AssertFail
                else (let (st, s1) = cleanup_zombie child status s
                      in Inr (Return (get_pid (Some child), st), s1))
            | _ \<Rightarrow> Inl NullDeref))"

definition wait_for_any_child :: "nat \<Rightarrow> bool \<Rightarrow> kernel \<Rightarrow> ((int \<times> int option) call \<times> kernel) result" where
  "wait_for_any_child c status s =
     rbind (CURPROC c s) (\<lambda>parnt.
       if is_rlist_empty (ChildrenList parnt) (rl s) then Inr (Return (NOPROC, None), s)
       else any_child_loop parnt status s)"

definition sys_WaitChild :: "nat \<Rightarrow> int \<Rightarrow> bool \<Rightarrow> kernel \<Rightarrow> ((int \<times> int option) call \<times> kernel) result" where
  "sys_WaitChild c cpid status s =
     (if cpid \<noteq> NOPROC then wait_for_specific_child c cpid status s
      else wait_for_any_child c status s)"

definition sys_OpenInfo :: int where
  "sys_OpenInfo = NOFILE"

end
