(* ===== verification/Threads.thy ===== *)
theory Threads
  imports Proc
begin

text \<open>
  The thread system calls of src/kernel_threads.c, and \<open>sys_Exit\<close> of src/kernel_proc.c, which
  ends in \<open>sys_ThreadExit\<close>.  A \<open>Tid_t\<close> is the address of a PTCB cast to a number; an
  address of another object is given as the key of that object.
\<close>

section \<open>Creating a thread\<close>

text \<open>The call that \<open>start_thread\<close> makes; its value is the argument of \<open>ThreadExit\<close>.\<close>

definition start_thread :: "nat \<Rightarrow> kernel \<Rightarrow> (task \<times> int \<times> ptr) result" where
  "start_thread c s =
     rbind (get_tcb (CURTHREAD c s) s) (\<lambda>x.
       case tptcb x of
         None \<Rightarrow> Inl NullDeref
       | Some p \<Rightarrow> rbind (get_ptcb p s) (\<lambda>y. Inr (ttask y, targl y, targs y)))"

definition sys_CreateThread ::
  "nat \<Rightarrow> task \<Rightarrow> int \<Rightarrow> ptr \<Rightarrow> ptref \<times> nat \<Rightarrow> kernel \<Rightarrow> (key \<times> kernel) result" where
  "sys_CreateThread c call len a adr s =
     rbind (CURPROC c s) (\<lambda>curproc.
     rbind (new_thread c (fst adr) (snd adr) curproc start_thread_func call len a s) (\<lambda>s1.
     Inr (OPtcb (fst adr), s1)))"

definition sys_ThreadSelf :: "nat \<Rightarrow> kernel \<Rightarrow> key" where
  "sys_ThreadSelf c s = OTcb (CURTHREAD c s)"

section \<open>Joining and detaching\<close>

text \<open>
  The object behind a \<open>Tid_t\<close>.  The cast of an address that is not one of a PTCB reads another
  object as a PTCB.
\<close>

definition ptcb_of_tid :: "key \<Rightarrow> ptref result" where
  "ptcb_of_tid tid = (case tid of OPtcb p \<Rightarrow> Inr p | ONull \<Rightarrow> Inl NullDeref | _ \<Rightarrow> Inl DanglingPtr)"

text \<open>\<open>rlist_find(list, key, NULL) == & n\<close>.\<close>

definition list_has :: "node \<Rightarrow> key \<Rightarrow> node \<Rightarrow> kernel \<Rightarrow> bool result" where
  "list_has l k n s =
     (case rlist_find l k None (rl s) of None \<Rightarrow> Inl Diverges | Some r \<Rightarrow> Inr (r = Some n))"

text \<open>The loop of \<open>sys_ThreadJoin\<close> and what follows it.\<close>

definition join_release :: "nat \<Rightarrow> ptref \<Rightarrow> kernel \<Rightarrow> kernel result" where
  "join_release c p s =
     rbind (get_ptcb p s) (\<lambda>x.
     let x1 = (if ref_count x > 0 then x\<lparr>ref_count := ref_count x - 1\<rparr> else x);
         s1 = set_ptcb p x1 s
     in rbind (CURPROC c s1) (\<lambda>cur.
        rbind (if ref_count x1 = 0
               then rbind (list_has (ThreadList cur) (ONode (ThreadNode p)) (ThreadNode p) s1) (\<lambda>b.
                    Inr (b \<and> \<not> detached x1 \<or> detached x1))
               else Inr (detached x1)) (\<lambda>b.
        if b
        then (let s2 = s1\<lparr>rl := rlist_remove (ThreadNode p) (rl s1), ptcbs := (ptcbs s1)(p := None)\<rparr>
              in Inr (set_PCB cur ((PT s2 cur)\<lparr>thread_count := thread_count (PT s2 cur) - 1\<rparr>) s2))
        else Inr s1)))"

definition join_loop :: "nat \<Rightarrow> ptref \<Rightarrow> kernel \<Rightarrow> (int call \<times> kernel) result" where
  "join_loop c p s =
     rbind (get_ptcb p s) (\<lambda>x.
       if \<not> exited x \<and> \<not> detached x
       then Inr (Block (ExitCv p), s)
       else rbind (join_release c p s) (\<lambda>s1. Inr (Return 0, s1)))"

text \<open>
  \<open>sys_ThreadJoin\<close> up to its first sleep.  \<open>exitval\<close> is the caller's pointer: null, or the
  number it points to, which the call reads and never writes.
\<close>

definition sys_ThreadJoin :: "nat \<Rightarrow> key \<Rightarrow> int option \<Rightarrow> kernel \<Rightarrow> (int call \<times> kernel) result" where
  "sys_ThreadJoin c tid exitv s =
     (if tid = ONull then Inl AssertFail
      else rbind (ptcb_of_tid tid) (\<lambda>p.
           rbind (get_ptcb p s) (\<lambda>x.
           if detached x \<or> ptcb_tcb x = Some (CURTHREAD c s) then Inr (Return (-1), s)
           else rbind (CURPROC c s) (\<lambda>cur.
                rbind (list_has (ThreadList cur) (OPtcb p) (ThreadNode p) s) (\<lambda>b.
                if \<not> b then Inr (Return (-1), s)
                else if exited x
                     then (case exitv of None \<Rightarrow> Inl NullDeref | Some v \<Rightarrow> Inr (Return v, s))
                     else join_loop c p (set_ptcb p (x\<lparr>ref_count := ref_count x + 1\<rparr>) s))))))"

definition sys_ThreadDetach :: "nat \<Rightarrow> key \<Rightarrow> kernel \<Rightarrow> (int \<times> kernel) result" where
  "sys_ThreadDetach c tid s =
     rbind (ptcb_of_tid tid) (\<lambda>p.
     rbind (get_ptcb p s) (\<lambda>x.
       if \<not> detached x
       then rbind (kernel_broadcast c (ExitCv p) (set_ptcb p (x\<lparr>detached := True\<rparr>) s)) (\<lambda>s1.
            Inr (0, s1))
       else Inr (-1, s)))"

section \<open>Exit\<close>

text \<open>The thread's PTCB is updated, and freed if the thread is detached or nobody joins it.\<close>

definition exit_ptcb :: "nat \<Rightarrow> int \<Rightarrow> ptref \<Rightarrow> kernel \<Rightarrow> kernel result" where
  "exit_ptcb c exitv p s =
     rbind (get_ptcb p s) (\<lambda>x.
     rbind (kernel_broadcast c (ExitCv p)
              (set_ptcb p (x\<lparr>texitval := exitv, exited := True, targs := None\<rparr>) s)) (\<lambda>s1.
     rbind (get_ptcb p s1) (\<lambda>x1.
     let s2 = (if detached x1
               then s1\<lparr>rl := rlist_remove (ThreadNode p) (rl s1), ptcbs := (ptcbs s1)(p := None)\<rparr>
               else s1)
     in rbind (get_ptcb p s2) (\<lambda>x2.
        Inr (if ref_count x2 = 0 \<and> \<not> detached x2
             then s2\<lparr>rl := rlist_remove (ThreadNode p) (rl s2), ptcbs := (ptcbs s2)(p := None)\<rparr>
             else s2)))))"

fun close_fids :: "pref \<Rightarrow> nat list \<Rightarrow> kernel \<Rightarrow> kernel result" where
  "close_fids p [] s = Inr s"
| "close_fids p (i # is) s =
     (case FIDT (PT s p) i of
        None \<Rightarrow> close_fids p is s
      | Some f \<Rightarrow> rbind (FCB_decref f s) (\<lambda>(rc, s1). close_fids p is (set_fid p i None s1)))"

partial_function (option) reparent_loop :: "pref \<Rightarrow> pref option \<Rightarrow> kernel \<Rightarrow> kernel result option" where
  "reparent_loop p initpcb s =
     (if \<not> is_rlist_empty (ChildrenList p) (rl s)
      then (let (n, h) = rlist_pop_front (ChildrenList p) (rl s)
            in case obj h n of
                 OPcb child \<Rightarrow>
                   (let s1 = set_PCB child ((PT s child)\<lparr>parent := initpcb\<rparr>) (s\<lparr>rl := h\<rparr>)
                    in case initpcb of
                         None \<Rightarrow> Some (Inl NullDeref)
                       | Some i \<Rightarrow> reparent_loop p initpcb
                           (s1\<lparr>rl := rlist_push_front (ChildrenList i) n (rl s1)\<rparr>))
               | _ \<Rightarrow> Some (Inl NullDeref))
      else Some (Inr s))"

definition adopt_exited :: "nat \<Rightarrow> pref \<Rightarrow> pref option \<Rightarrow> kernel \<Rightarrow> kernel result" where
  "adopt_exited c p initpcb s =
     (if \<not> is_rlist_empty (ExitedList p) (rl s)
      then (case initpcb of
              None \<Rightarrow> Inl NullDeref
            | Some i \<Rightarrow> kernel_broadcast c (ChildExit i)
                (s\<lparr>rl := rlist_append (ExitedList i) (ExitedList p) (rl s)\<rparr>))
      else Inr s)"

definition tell_parent :: "nat \<Rightarrow> pref \<Rightarrow> kernel \<Rightarrow> kernel result" where
  "tell_parent c p s =
     (case parent (PT s p) of
        None \<Rightarrow> Inr s
      | Some q \<Rightarrow> kernel_broadcast c (ChildExit q)
          (s\<lparr>rl := rlist_push_front (ExitedList q) (ExitedNode p) (rl s)\<rparr>))"

text \<open>What the last thread of a process does.\<close>

definition exit_process :: "nat \<Rightarrow> pref \<Rightarrow> int \<Rightarrow> kernel \<Rightarrow> kernel result" where
  "exit_process c p exitv s =
     (let s1 = set_PCB p ((PT s p)\<lparr>exitval := exitv\<rparr>) s;
          s2 = (case args (PT s1 p) of
                  None \<Rightarrow> s1
                | Some a \<Rightarrow> (set_PCB p ((PT s1 p)\<lparr>args := None\<rparr>) s1)\<lparr>mem := (mem s1)(a := None)\<rparr>)
      in rbind (close_fids p [0..<MAX_FILEID] s2) (\<lambda>s3.
         let initpcb = get_pcb 1 s3
         in rbind (of_loop (reparent_loop p initpcb s3)) (\<lambda>s4.
            rbind (adopt_exited c p initpcb s4) (\<lambda>s5.
            rbind (tell_parent c p s5) (\<lambda>s6.
            Inr (set_PCB p ((PT s6 p)\<lparr>pstate := ZOMBIE\<rparr>) s6))))))"

text \<open>\<open>sys_ThreadExit\<close> up to the sleep from which an exited thread never comes back.\<close>

definition sys_ThreadExit :: "nat \<Rightarrow> int \<Rightarrow> kernel \<Rightarrow> (bool \<times> kernel) result" where
  "sys_ThreadExit c exitv s =
     rbind (get_tcb (CURTHREAD c s) s) (\<lambda>t.
     case tptcb t of
       None \<Rightarrow> Inl NullDeref
     | Some p \<Rightarrow>
         rbind (exit_ptcb c exitv p s) (\<lambda>s1.
         let cur = owner_pcb t;
             s2 = set_PCB cur ((PT s1 cur)\<lparr>thread_count := thread_count (PT s1 cur) - 1\<rparr>) s1
         in rbind (if thread_count (PT s2 cur) = 0 then exit_process c cur exitv s2 else Inr s2) (\<lambda>s3.
            kernel_sleep c EXITED s3)))"

text \<open>
  The loop of \<open>sys_Exit\<close>, in which the initial process waits for all its children; a call
  that has to wait goes on with \<open>exit_resume\<close>.  The assignment to \<open>curproc->exitval\<close> after
  the call of \<open>sys_ThreadExit\<close> is never reached.
\<close>

partial_function (option) exit_wait_loop :: "nat \<Rightarrow> kernel \<Rightarrow> (unit call \<times> kernel) result option" where
  "exit_wait_loop c s =
     (case sys_WaitChild c NOPROC False s of
        Inl e \<Rightarrow> Some (Inl e)
      | Inr (Block cv, s1) \<Rightarrow> Some (Inr (Block cv, s1))
      | Inr (Return (pid, st), s1) \<Rightarrow>
          if pid \<noteq> NOPROC then exit_wait_loop c s1 else Some (Inr (Return (), s1)))"

definition exit_after_wait :: "nat \<Rightarrow> int \<Rightarrow> unit call \<times> kernel \<Rightarrow> (bool call \<times> kernel) result" where
  "exit_after_wait c exitv r =
     (case r of
        (Block cv, s1) \<Rightarrow> Inr (Block cv, s1)
      | (Return _, s1) \<Rightarrow> rbind (sys_ThreadExit c exitv s1) (\<lambda>(p, s2). Inr (Return p, s2)))"

definition sys_Exit :: "nat \<Rightarrow> int \<Rightarrow> kernel \<Rightarrow> (bool call \<times> kernel) result" where
  "sys_Exit c exitv s =
     rbind (sys_GetPid c s) (\<lambda>pid.
     rbind (if pid = 1 then of_loop (exit_wait_loop c s) else Inr (Return (), s))
           (exit_after_wait c exitv))"

definition exit_resume :: "nat \<Rightarrow> int \<Rightarrow> kernel \<Rightarrow> (bool call \<times> kernel) result" where
  "exit_resume c exitv s =
     rbind (CURPROC c s) (\<lambda>cur.
     rbind (any_child_loop cur False s) (\<lambda>(r, s1).
     rbind (case r of
              Block cv \<Rightarrow> Inr (Block cv, s1)
            | Return _ \<Rightarrow> of_loop (exit_wait_loop c s1)) (exit_after_wait c exitv)))"

end
