(* ===== verification/Proc_Lists.thy ===== *)
theory Proc_Lists
  imports Threads
begin

text \<open>
  The lists of the processes.  Every process has three lists (children, exited children,
  threads); the lists of one kind are a family of disjoint rings, and the operations on a list
  of a family do to it what they do to a sequence and keep the rest of the family.
\<close>

section \<open>Families of lists\<close>

text \<open>
  \<open>family l n h F A\<close>: for every process \<open>p\<close> the ring of the sentinel \<open>l p\<close> has the nodes
  \<open>n a\<close> of the sequence \<open>F p\<close>; a node of a member of \<open>A\<close> that is in no list is alone.
\<close>

definition family ::
  "(pref \<Rightarrow> node) \<Rightarrow> (nat \<Rightarrow> node) \<Rightarrow> (node, key) rlheap \<Rightarrow> (pref \<Rightarrow> nat list) \<Rightarrow> nat set \<Rightarrow> bool" where
  "family l n h F A \<longleftrightarrow> (\<forall>p < MAX_PROC. isring h (l p) (map n (F p))) \<and> (\<forall>p. MAX_PROC \<le> p \<longrightarrow> F p = []) \<and>
     (\<forall>a \<in> A. (\<forall>p. a \<notin> set (F p)) \<longrightarrow> isring h (n a) [])"

lemma familyD:
  assumes "family l n h F A"
  shows "p < MAX_PROC \<Longrightarrow> isring h (l p) (map n (F p))" and "F p \<noteq> [] \<Longrightarrow> p < MAX_PROC"
    and "a \<in> A \<Longrightarrow> (\<And>p. a \<notin> set (F p)) \<Longrightarrow> isring h (n a) []"
  using assms by (auto simp: family_def not_le [symmetric])

lemma familyI:
  assumes "\<And>p. p < MAX_PROC \<Longrightarrow> isring h (l p) (map n (F p))" and "\<And>p. MAX_PROC \<le> p \<Longrightarrow> F p = []"
    and "\<And>a. a \<in> A \<Longrightarrow> \<forall>p. a \<notin> set (F p) \<Longrightarrow> isring h (n a) []"
  shows "family l n h F A"
  using assms by (simp add: family_def)

lemma family_keeps:
  assumes f: "family l n h F A" and k: "keeps_on (\<lambda>m. m \<in> range l \<union> range n) h h'"
  shows "family l n h' F A"
proof (rule familyI)
  show "isring h' (l p) (map n (F p))" if "p < MAX_PROC" for p
    by (rule keeps_onD(2) [OF k familyD(1) [OF f that]]) auto
  show "F p = []" if "MAX_PROC \<le> p" for p using f that by (simp add: family_def)
  show "isring h' (n a) []" if "a \<in> A" "\<forall>p. a \<notin> set (F p)" for a
    by (rule keeps_onD(2) [OF k familyD(3) [OF f that(1)]]) (use that in auto)
qed

locale ring_family =
  fixes l :: "pref \<Rightarrow> node" and n :: "nat \<Rightarrow> node"
  assumes lists_differ: "l p = l q \<Longrightarrow> p = q" and nodes_differ: "n a = n b \<Longrightarrow> a = b"
    and list_not_node: "l p \<noteq> n a"
begin

lemmas node_not_list = list_not_node [symmetric]

lemma map_remove1_node: "map n (remove1 a as) = remove1 (n a) (map n as)"
  by (induction as) (auto dest: nodes_differ)

lemma in_list: "n a \<in> set (map n as) \<longleftrightarrow> a \<in> set as"
  by (auto dest: nodes_differ)

lemma one_list:
  assumes "family l n h F A" and "a \<in> set (F p)" and "a \<in> set (F q)"
  shows "p = q"
proof (rule ccontr)
  assume ne: "p \<noteq> q"
  have pq: "p < MAX_PROC" "q < MAX_PROC" using familyD(2) [OF assms(1)] assms(2,3) by (metis list.set(1) empty_iff)+
  have "l p \<notin> set (l q # map n (F q))" using ne list_not_node by (auto dest: lists_differ)
  from isring_disjoint [OF familyD(1) [OF assms(1) pq(1)] familyD(1) [OF assms(1) pq(2)] this] assms(2,3)
  show False by auto
qed

lemma distinct_list:
  assumes "family l n h F A" shows "distinct (F p)"
proof (cases "F p = []")
  case False
  from isring_distinct [OF familyD(1) [OF assms familyD(2) [OF assms False]]] show ?thesis by (simp add: distinct_map)
qed simp

text \<open>An operation that changes the lists \<open>P\<close> only, and keeps what has none of their nodes.\<close>

lemma family_change:
  assumes f: "family l n h F A" and k: "keeps_on N h h'"
    and N: "\<And>p. p \<notin> P \<Longrightarrow> N (l p)" "\<And>p a. p \<notin> P \<Longrightarrow> a \<in> set (F p) \<Longrightarrow> N (n a)"
    and ring: "\<And>p. p \<in> P \<Longrightarrow> p < MAX_PROC \<Longrightarrow> isring h' (l p) (map n (G p))"
    and same: "\<And>p. p \<notin> P \<Longrightarrow> G p = F p" "\<And>p. p \<in> P \<Longrightarrow> p < MAX_PROC"
    and lone: "\<And>a. a \<in> A \<Longrightarrow> \<forall>p. a \<notin> set (G p) \<Longrightarrow> isring h' (n a) [] \<or> N (n a) \<and> (\<forall>p. a \<notin> set (F p))"
  shows "family l n h' G A"
proof (rule familyI)
  show "isring h' (l p) (map n (G p))" if p: "p < MAX_PROC" for p
  proof (cases "p \<in> P")
    case False
    have "isring h' (l p) (map n (F p))"
      by (rule keeps_onD(2) [OF k familyD(1) [OF f p]]) (use N False in auto)
    with same(1) [OF False] show ?thesis by simp
  qed (use ring p in simp)
  show "G p = []" if "MAX_PROC \<le> p" for p
  proof -
    have "p \<notin> P" using same(2) [of p] that by auto
    then show ?thesis using same(1) f that by (simp add: family_def)
  qed
  show "isring h' (n a) []" if "a \<in> A" "\<forall>p. a \<notin> set (G p)" for a
  proof -
    from lone [OF that] show ?thesis
    proof (elim disjE conjE)
      assume o: "N (n a)" "\<forall>p. a \<notin> set (F p)"
      show ?thesis by (rule keeps_onD(2) [OF k familyD(3) [OF f that(1)] o(1)]) (use o(2) in simp_all)
    qed
  qed
qed

lemma family_push_front:
  assumes f: "family l n h F A" and p: "p < MAX_PROC" and a: "isring h (n a) []" "\<And>q. a \<notin> set (F q)"
  shows "family l n (rlist_push_front (l p) (n a) h) (F(p := a # F p)) A"
proof -
  note r = familyD(1) [OF f p]
  have na: "n a \<notin> set (l p # map n (F p))" using a(2) list_not_node [of p a] in_list by auto
  have k: "keeps_on (\<lambda>m. m \<noteq> l p \<and> m \<noteq> n a) h (rlist_push_front (l p) (n a) h)"
    by (rule keeps_on_push_front [OF r a(1)]) simp_all
  show ?thesis
  proof (rule family_change [OF f k, where P = "{p}"])
    show "isring (rlist_push_front (l p) (n a) h) (l q) (map n ((F(p := a # F p)) q))"
      if "q \<in> {p}" for q using rl.push_front_law [OF r a(1) na] that by simp
  qed (use a(2) p list_not_node node_not_list in \<open>auto dest: lists_differ nodes_differ split: if_splits\<close>)
qed

lemma family_push_back:
  assumes f: "family l n h F A" and p: "p < MAX_PROC" and a: "isring h (n a) []" "\<And>q. a \<notin> set (F q)"
  shows "family l n (rlist_push_back (l p) (n a) h) (F(p := F p @ [a])) A"
proof -
  note r = familyD(1) [OF f p]
  have na: "n a \<notin> set (l p # map n (F p))" using a(2) list_not_node [of p a] in_list by auto
  have k: "keeps_on (\<lambda>m. m \<noteq> l p \<and> m \<noteq> n a) h (rlist_push_back (l p) (n a) h)"
    by (rule keeps_on_push_back [OF r a(1)]) simp_all
  show ?thesis
  proof (rule family_change [OF f k, where P = "{p}"])
    show "isring (rlist_push_back (l p) (n a) h) (l q) (map n ((F(p := F p @ [a])) q))"
      if "q \<in> {p}" for q using rl.push_back_law [OF r a(1) na] that by simp
  qed (use a(2) p list_not_node node_not_list in \<open>auto dest: lists_differ nodes_differ split: if_splits\<close>)
qed

lemma keeps_on_others:
  assumes "isring h z zs" and "x \<in> set (z # zs)"
  shows "keeps_on (\<lambda>m. m \<notin> set (z # zs)) h (rlist_remove x h)"
  by (rule keeps_on_remove_from [OF assms]) (use assms(2) in simp)

lemma family_remove:
  assumes f: "family l n h F A" and a: "a \<in> set (F p)"
  shows "family l n (rlist_remove (n a) h) (F(p := remove1 a (F p))) A"
    and "isring (rlist_remove (n a) h) (n a) []"
proof -
  have p: "p < MAX_PROC" using familyD(2) [OF f, of p] a by (cases "F p") auto
  note r = familyD(1) [OF f p] and d = distinct_list [OF f, of p]
  have m: "n a \<in> set (map n (F p))" using a by simp
  note law = rl.remove_law [OF r m]
  show alone: "isring (rlist_remove (n a) h) (n a) []" using law by simp
  have k: "keeps_on (\<lambda>x. x \<notin> set (l p # map n (F p))) h (rlist_remove (n a) h)"
    by (rule keeps_on_others [OF r]) (use m in simp)
  show "family l n (rlist_remove (n a) h) (F(p := remove1 a (F p))) A"
  proof (rule family_change [OF f k, where P = "{p}"])
    show "l q \<notin> set (l p # map n (F p))" if "q \<notin> {p}" for q
      using that list_not_node by (auto dest: lists_differ)
    show "n b \<notin> set (l p # map n (F p))" if "q \<notin> {p}" "b \<in> set (F q)" for q b
      using that one_list [OF f, of b q p] list_not_node [of p b] by (auto dest: nodes_differ)
    show "isring (rlist_remove (n a) h) (l q) (map n ((F(p := remove1 a (F p))) q))" if "q \<in> {p}" for q
      using law that by (simp add: map_remove1_node)
    show "isring (rlist_remove (n a) h) (n b) [] \<or> n b \<notin> set (l p # map n (F p)) \<and> (\<forall>q. b \<notin> set (F q))"
      if b: "\<forall>q. b \<notin> set ((F(p := remove1 a (F p))) q)" for b
    proof (cases "b = a")
      case False
      have "b \<notin> set (F q)" for q
        using b [rule_format, of q] False d by (cases "q = p") simp_all
      then show ?thesis using in_list [of b "F p"] list_not_node [of p b] by auto
    qed (use alone in simp)
  qed (use p in auto)
qed

lemma family_pop:
  assumes f: "family l n h F A" and a: "F p = a # as"
  shows "fst (rlist_pop_front (l p) h) = n a" and "family l n (snd (rlist_pop_front (l p) h)) (F(p := as)) A"
    and "isring (snd (rlist_pop_front (l p) h)) (n a) []"
proof -
  have p: "p < MAX_PROC" using familyD(2) [OF f, of p] a by auto
  have r: "isring h (l p) (n a # map n as)" using familyD(1) [OF f p] a by simp
  note law = rl.pop_law [OF r]
  show "fst (rlist_pop_front (l p) h) = n a" and alone: "isring (snd (rlist_pop_front (l p) h)) (n a) []"
    using law by simp_all
  have k: "keeps_on (\<lambda>x. x \<noteq> l p) h (snd (rlist_pop_front (l p) h))" by (rule keeps_on_pop [OF r]) simp
  show "family l n (snd (rlist_pop_front (l p) h)) (F(p := as)) A"
  proof (rule family_change [OF f k, where P = "{p}"])
    show "isring (snd (rlist_pop_front (l p) h)) (l q) (map n ((F(p := as)) q))" if "q \<in> {p}" for q
      using law that by simp
    show "isring (snd (rlist_pop_front (l p) h)) (n b) [] \<or> n b \<noteq> l p \<and> (\<forall>q. b \<notin> set (F q))"
      if b: "\<forall>q. b \<notin> set ((F(p := as)) q)" for b
    proof (cases "b = a")
      case False
      have "b \<notin> set (F q)" for q using b [rule_format, of q] False a by (cases "q = p") simp_all
      then show ?thesis using list_not_node [of p b] by auto
    qed (use alone in simp)
  qed (use p list_not_node node_not_list in \<open>auto dest: lists_differ\<close>)
qed

lemma family_append:
  assumes f: "family l n h F A" and pq: "p < MAX_PROC" "q < MAX_PROC" "p \<noteq> q"
  shows "family l n (rlist_append (l p) (l q) h) (F(p := F p @ F q, q := [])) A"
proof -
  note rp = familyD(1) [OF f pq(1)] and rq = familyD(1) [OF f pq(2)]
  have nq: "l q \<notin> set (l p # map n (F p))" using pq(3) list_not_node by (auto dest: lists_differ)
  note law = append_list [OF rp rq nq]
  have k: "keeps_on (\<lambda>x. x \<noteq> l p \<and> x \<noteq> l q) h (rlist_append (l p) (l q) h)"
    by (rule keeps_on_append [OF rp rq nq]) simp_all
  show ?thesis
  proof (rule family_change [OF f k, where P = "{p, q}"])
    show "isring (rlist_append (l p) (l q) h) (l r) (map n ((F(p := F p @ F q, q := [])) r))"
      if "r \<in> {p, q}" for r using law that pq(3) by auto
    show "isring (rlist_append (l p) (l q) h) (n b) [] \<or> (n b \<noteq> l p \<and> n b \<noteq> l q) \<and> (\<forall>r. b \<notin> set (F r))"
      if b: "\<forall>r. b \<notin> set ((F(p := F p @ F q, q := [])) r)" for b
    proof -
      have "b \<notin> set (F r)" for r
        using b [rule_format, of r] b [rule_format, of p] pq(3) by (cases "r = p"; cases "r = q") auto
      then show ?thesis using list_not_node [of p b] list_not_node [of q b] by auto
    qed
  qed (use pq list_not_node node_not_list in \<open>auto dest: lists_differ\<close>)
qed

end

text \<open>The three families.\<close>

interpretation kids: ring_family ChildrenList ChildrenNode by unfold_locales auto
interpretation dead: ring_family ExitedList ExitedNode by unfold_locales auto
interpretation thr: ring_family ThreadList ThreadNode by unfold_locales auto

end
