(* ===== verification/Proc_Inv.thy ===== *)
theory Proc_Inv
  imports Proc_Lists Cond_Reach Streams_Reach
begin

text \<open>
  The invariant of the process table: the free PCBs are a pool, the parent pointers form a tree
  under the processes 0 and 1, and the lists of children and of exited children of a process
  are its children and its zombie children.
\<close>

section \<open>The pool of PCBs\<close>

definition live :: "kernel \<Rightarrow> pref \<Rightarrow> bool" where
  "live s p \<longleftrightarrow> p < MAX_PROC \<and> pstate (PT s p) \<noteq> FREE"

fun pcb_chain :: "kernel \<Rightarrow> pref option \<Rightarrow> pref list \<Rightarrow> bool" where
  "pcb_chain s q [] \<longleftrightarrow> q = None"
| "pcb_chain s q (p # ps) \<longleftrightarrow> q = Some p \<and> pcb_chain s (parent (PT s p)) ps"

definition pcb_pool :: "kernel \<Rightarrow> pref list \<Rightarrow> bool" where
  "pcb_pool s fl \<longleftrightarrow> pcb_chain s (pcb_freelist s) fl \<and> distinct fl \<and>
     (\<forall>p. p \<in> set fl \<longleftrightarrow> p < MAX_PROC \<and> \<not> live s p) \<and>
     process_count s = of_nat (card {p. live s p})"

lemma pcb_chain_cong:
  "(\<And>p. p \<in> set fl \<Longrightarrow> parent (PT s' p) = parent (PT s p)) \<Longrightarrow> pcb_chain s' q fl = pcb_chain s q fl"
  by (induction fl arbitrary: q) auto

lemma finite_live [simp]: "finite {p. live s p}"
  by (rule finite_subset [of _ "{..<MAX_PROC}"]) (auto simp: live_def)

lemma pcb_poolD:
  assumes "pcb_pool s fl"
  shows "pcb_chain s (pcb_freelist s) fl" and "distinct fl"
    and "p \<in> set fl \<longleftrightarrow> p < MAX_PROC \<and> \<not> live s p" and "process_count s = of_nat (card {p. live s p})"
  using assms by (simp_all add: pcb_pool_def)

text \<open>The pool after some parent pointers and states of live processes have changed.\<close>

lemma pcb_pool_live:
  assumes "pcb_pool s fl" and "pcb_freelist s' = pcb_freelist s" and "process_count s' = process_count s"
    and "\<And>p. live s' p = live s p" and "\<And>p. \<not> live s p \<Longrightarrow> parent (PT s' p) = parent (PT s p)"
  shows "pcb_pool s' fl"
proof -
  note d = pcb_poolD [OF assms(1)]
  have "pcb_chain s' q fl = pcb_chain s q fl" for q
    by (rule pcb_chain_cong) (use d(3) assms(5) in blast)
  then show ?thesis using d assms(2-4) by (simp add: pcb_pool_def)
qed

lemma acquire_pool:
  assumes pool: "pcb_pool s (p # fl)"
  obtains s' where "acquire_PCB s = (Some p, s')" and "pcb_pool s' fl" and "\<not> live s p" and "p < MAX_PROC"
    and "s' = s\<lparr>PT := (PT s)(p := (PT s p)\<lparr>pstate := ALIVE, thread_count := 0\<rparr>),
      pcb_freelist := parent (PT s p), process_count := process_count s + 1\<rparr>"
proof -
  note d = pcb_poolD [OF pool]
  let ?s' = "s\<lparr>PT := (PT s)(p := (PT s p)\<lparr>pstate := ALIVE, thread_count := 0\<rparr>),
      pcb_freelist := parent (PT s p), process_count := process_count s + 1\<rparr>"
  have p: "\<not> live s p" "p < MAX_PROC" "p \<notin> set fl" using d(2) d(3) [of p] by simp_all
  have live: "live ?s' q \<longleftrightarrow> live s q \<or> q = p" for q using p(2) by (auto simp: live_def)
  then have "{q. live ?s' q} = insert p {q. live s q}" by auto
  then have "card {q. live ?s' q} = Suc (card {q. live s q})" using p(1) by simp
  moreover have "pcb_chain ?s' q fl = pcb_chain s q fl" for q
    by (rule pcb_chain_cong) (use p(3) in auto)
  moreover have "q \<in> set fl \<longleftrightarrow> q < MAX_PROC \<and> \<not> live ?s' q" for q
    using d(3) [of q] p(3) live by auto
  ultimately have "pcb_pool ?s' fl" using d(1,2,4) by (simp add: pcb_pool_def)
  moreover have "acquire_PCB s = (Some p, ?s')" using d(1) by (simp add: acquire_PCB_def set_PCB_def Let_def)
  ultimately show ?thesis using that p(1,2) by blast
qed

lemma release_pool:
  assumes pool: "pcb_pool s fl" and p: "live s p"
  shows "pcb_pool (release_PCB p s) (p # fl)"
proof -
  note d = pcb_poolD [OF pool]
  let ?s' = "release_PCB p s"
  have nf: "p \<notin> set fl" using d(3) p by simp
  have f: "PT ?s' = (PT s)(p := (PT s p)\<lparr>pstate := FREE, parent := pcb_freelist s\<rparr>)"
    "pcb_freelist ?s' = Some p" "process_count ?s' = process_count s - 1"
    by (simp_all add: release_PCB_def set_PCB_def)
  have live: "live ?s' q \<longleftrightarrow> live s q \<and> q \<noteq> p" for q by (auto simp: live_def f)
  then have "{q. live ?s' q} = {q. live s q} - {p}" by auto
  moreover have "card {q. live s q} = Suc (card ({q. live s q} - {p}))"
    by (rule card.remove) (use p in simp_all)
  moreover have "pcb_chain ?s' q fl = pcb_chain s q fl" for q
    by (rule pcb_chain_cong) (use nf in \<open>auto simp: f\<close>)
  moreover have "q \<in> set (p # fl) \<longleftrightarrow> q < MAX_PROC \<and> \<not> live ?s' q" for q
    using d(3) [of q] p live by (auto simp: live_def)
  ultimately show ?thesis using d(1,2,4) nf by (simp add: pcb_pool_def f)
qed

interpretation pcbs: resource_pool pcb_pool live "\<lambda>s. Inr (acquire_PCB s)" release_PCB
proof (unfold_locales, goal_cases)
  case (1 s rs)
  then show ?case by (rule pcb_poolD(2))
next
  case (2 s rs r)
  then show ?case using pcb_poolD(3) by blast
next
  case (3 s)
  then show ?case by (simp add: pcb_pool_def acquire_PCB_def)
next
  case (4 s r rs)
  obtain s' where s': "acquire_PCB s = (Some r, s')" "pcb_pool s' rs" "\<not> live s r" "r < MAX_PROC"
    "s' = s\<lparr>PT := (PT s)(r := (PT s r)\<lparr>pstate := ALIVE, thread_count := 0\<rparr>),
      pcb_freelist := parent (PT s r), process_count := process_count s + 1\<rparr>"
    by (rule acquire_pool [OF 4])
  have "live s' q \<longleftrightarrow> live s q \<or> q = r" for q using s'(4,5) by (auto simp: live_def)
  with s'(1,2) show ?case by auto
next
  case (5 s rs r)
  have "live (release_PCB r s) q" if "q \<noteq> r" "live s q" for q
    using that by (simp add: live_def release_PCB_def set_PCB_def)
  with release_pool [OF 5] show ?case by (intro exI [of _ "r # rs"]) simp
qed

section \<open>The tree of processes\<close>

inductive rooted :: "kernel \<Rightarrow> pref \<Rightarrow> bool" for s where
  rooted_root: "live s p \<Longrightarrow> p \<le> 1 \<Longrightarrow> rooted s p"
| rooted_child: "live s q \<Longrightarrow> parent (PT s q) = Some p \<Longrightarrow> rooted s p \<Longrightarrow> rooted s q"

definition tree_ok :: "(pref \<Rightarrow> pref list) \<Rightarrow> (pref \<Rightarrow> pref list) \<Rightarrow> kernel \<Rightarrow> bool" where
  "tree_ok K X s \<longleftrightarrow>
     (\<forall>p q. q \<in> set (K p) \<longleftrightarrow> live s q \<and> parent (PT s q) = Some p) \<and>
     (\<forall>p q. q \<in> set (X p) \<longleftrightarrow> live s q \<and> pstate (PT s q) = ZOMBIE \<and> parent (PT s q) = Some p) \<and>
     (\<forall>p q. live s q \<longrightarrow> parent (PT s q) = Some p \<longrightarrow> live s p \<and> (pstate (PT s p) = ALIVE \<or> p = 1)) \<and>
     (\<forall>q. live s q \<longrightarrow> (parent (PT s q) = None \<longleftrightarrow> q \<le> 1)) \<and>
     live s 0 \<and> live s 1 \<and> (\<forall>p. live s p \<longrightarrow> rooted s p) \<and>
     (\<forall>p. pstate (PT s p) \<noteq> ALIVE \<longrightarrow> FIDT (PT s p) = (\<lambda>_. None))"

lemma tree_okD:
  assumes "tree_ok K X s"
  shows "q \<in> set (K p) \<longleftrightarrow> live s q \<and> parent (PT s q) = Some p"
    and "q \<in> set (X p) \<longleftrightarrow> live s q \<and> pstate (PT s q) = ZOMBIE \<and> parent (PT s q) = Some p"
    and "live s q \<Longrightarrow> parent (PT s q) = Some p \<Longrightarrow> live s p \<and> (pstate (PT s p) = ALIVE \<or> p = 1)"
    and "live s q \<Longrightarrow> parent (PT s q) = None \<longleftrightarrow> q \<le> 1"
    and "live s 0" and "live s 1" and "live s p \<Longrightarrow> rooted s p"
    and "pstate (PT s p) \<noteq> ALIVE \<Longrightarrow> FIDT (PT s p) i = None"
  using assms by (simp_all add: tree_ok_def)

lemma tree_ok_cong:
  assumes "tree_ok K X s" and "\<And>p. pstate (PT s' p) = pstate (PT s p)"
    and "\<And>p. parent (PT s' p) = parent (PT s p)"
    and "\<And>p. pstate (PT s p) \<noteq> ALIVE \<Longrightarrow> FIDT (PT s' p) = FIDT (PT s p)"
  shows "tree_ok K X s'"
proof -
  have l: "live s' p = live s p" for p using assms(2) by (simp add: live_def)
  have "rooted s' p" if "rooted s p" for p using that
    by induction (auto simp: l assms(3) intro: rooted.intros)
  then show ?thesis using assms unfolding tree_ok_def l by simp
qed

definition proc_lists ::
  "(pref \<Rightarrow> pref list) \<Rightarrow> (pref \<Rightarrow> pref list) \<Rightarrow> (pref \<Rightarrow> ptref list) \<Rightarrow> kernel \<Rightarrow> bool" where
  "proc_lists K X T s \<longleftrightarrow>
     family ChildrenList ChildrenNode (rl s) K {..<MAX_PROC} \<and>
     family ExitedList ExitedNode (rl s) X {..<MAX_PROC} \<and>
     family ThreadList ThreadNode (rl s) T {} \<and>
     (\<forall>p < MAX_PROC. obj (rl s) (ChildrenNode p) = OPcb p \<and> obj (rl s) (ExitedNode p) = OPcb p) \<and>
     (\<forall>p a. a \<in> set (T p) \<longrightarrow> obj (rl s) (ThreadNode a) = OPtcb a \<and> ptcbs s a \<noteq> None)"

definition proc_inv ::
  "pref list \<Rightarrow> (pref \<Rightarrow> pref list) \<Rightarrow> (pref \<Rightarrow> pref list) \<Rightarrow> (pref \<Rightarrow> ptref list) \<Rightarrow> kernel \<Rightarrow> bool" where
  "proc_inv fl K X T s \<longleftrightarrow> pcb_pool s fl \<and> tree_ok K X s \<and> proc_lists K X T s"

lemma proc_listsD:
  assumes "proc_lists K X T s"
  shows "family ChildrenList ChildrenNode (rl s) K {..<MAX_PROC}"
    and "family ExitedList ExitedNode (rl s) X {..<MAX_PROC}"
    and "family ThreadList ThreadNode (rl s) T {}"
    and "p < MAX_PROC \<Longrightarrow> obj (rl s) (ChildrenNode p) = OPcb p"
    and "p < MAX_PROC \<Longrightarrow> obj (rl s) (ExitedNode p) = OPcb p"
    and "a \<in> set (T p) \<Longrightarrow> obj (rl s) (ThreadNode a) = OPtcb a"
    and "a \<in> set (T p) \<Longrightarrow> \<exists>x. ptcbs s a = Some x"
  using assms by (auto simp: proc_lists_def)

lemma proc_invD:
  assumes "proc_inv fl K X T s"
  shows "pcb_pool s fl" and "tree_ok K X s" and "proc_lists K X T s"
  using assms by (simp_all add: proc_inv_def)

section \<open>Steps of other components\<close>

fun proc_node :: "node \<Rightarrow> bool" where
  "proc_node (ChildrenList p) = True"
| "proc_node (ChildrenNode p) = True"
| "proc_node (ExitedList p) = True"
| "proc_node (ExitedNode p) = True"
| "proc_node (ThreadList p) = True"
| "proc_node (ThreadNode a) = True"
| "proc_node _ = False"

lemma proc_node_plain: "proc_node n \<Longrightarrow> plain_node n"
  by (cases n) (simp_all add: plain_node_def)

lemma proc_lists_keeps:
  assumes "proc_lists K X T s" and k: "keeps_on proc_node (rl s) (rl s')"
    and "\<And>p a. a \<in> set (T p) \<Longrightarrow> ptcbs s a \<noteq> None \<Longrightarrow> ptcbs s' a \<noteq> None"
  shows "proc_lists K X T s'"
proof -
  note d = proc_listsD [OF assms(1)]
  have "keeps_on (\<lambda>m. m \<in> range l \<union> range n) (rl s) (rl s')"
    if "\<And>p. proc_node (l p)" "\<And>p. proc_node (n p)" for l :: "nat \<Rightarrow> node" and n :: "nat \<Rightarrow> node"
    by (rule keeps_on_sub [OF k]) (use that in auto)
  from family_keeps [OF d(1) this] family_keeps [OF d(2) this] family_keeps [OF d(3) this]
  show ?thesis using assms(1,3) keeps_onD(1) [OF k] by (fastforce simp: proc_lists_def)
qed

text \<open>An operation on one family of lists keeps the other two.\<close>

lemma proc_lists_kids:
  assumes l: "proc_lists K X T s" and f: "family ChildrenList ChildrenNode (rl s') K' {..<MAX_PROC}"
    and k: "keeps_on (\<lambda>n. n \<notin> range ChildrenList \<union> range ChildrenNode) (rl s) (rl s')"
    and o: "obj (rl s') = obj (rl s)" "ptcbs s' = ptcbs s"
  shows "proc_lists K' X T s'"
proof -
  note d = proc_listsD [OF l]
  have "family ExitedList ExitedNode (rl s') X {..<MAX_PROC}" "family ThreadList ThreadNode (rl s') T {}"
    by (rule family_keeps [OF d(2) keeps_on_sub [OF k]] family_keeps [OF d(3) keeps_on_sub [OF k]]; auto)+
  then show ?thesis using l f unfolding proc_lists_def o by simp
qed

lemma proc_lists_dead:
  assumes l: "proc_lists K X T s" and f: "family ExitedList ExitedNode (rl s') X' {..<MAX_PROC}"
    and k: "keeps_on (\<lambda>n. n \<notin> range ExitedList \<union> range ExitedNode) (rl s) (rl s')"
    and o: "obj (rl s') = obj (rl s)" "ptcbs s' = ptcbs s"
  shows "proc_lists K X' T s'"
proof -
  note d = proc_listsD [OF l]
  have "family ChildrenList ChildrenNode (rl s') K {..<MAX_PROC}" "family ThreadList ThreadNode (rl s') T {}"
    by (rule family_keeps [OF d(1) keeps_on_sub [OF k]] family_keeps [OF d(3) keeps_on_sub [OF k]]; auto)+
  then show ?thesis using l f unfolding proc_lists_def o by simp
qed

lemma proc_lists_threads:
  assumes l: "proc_lists K X T s" and f: "family ThreadList ThreadNode (rl s') T' {}"
    and k: "keeps_on (\<lambda>n. n \<notin> range ThreadList \<union> range ThreadNode) (rl s) (rl s')"
    and t: "\<And>p a. a \<in> set (T' p) \<Longrightarrow> obj (rl s') (ThreadNode a) = OPtcb a \<and> ptcbs s' a \<noteq> None"
  shows "proc_lists K X T' s'"
proof -
  note d = proc_listsD [OF l]
  have "family ChildrenList ChildrenNode (rl s') K {..<MAX_PROC}" "family ExitedList ExitedNode (rl s') X {..<MAX_PROC}"
    by (rule family_keeps [OF d(1) keeps_on_sub [OF k]] family_keeps [OF d(2) keeps_on_sub [OF k]]; auto)+
  moreover have "obj (rl s') (ChildrenNode p) = obj (rl s) (ChildrenNode p)"
    "obj (rl s') (ExitedNode p) = obj (rl s) (ExitedNode p)" for p by (rule keeps_onD(1) [OF k]; auto)+
  ultimately show ?thesis using f t d(4,5) unfolding proc_lists_def by simp
qed

lemma proc_inv_keeps:
  assumes inv: "proc_inv fl K X T s" and k: "keeps_on proc_node (rl s) (rl s')"
    and "\<And>p a. a \<in> set (T p) \<Longrightarrow> ptcbs s a \<noteq> None \<Longrightarrow> ptcbs s' a \<noteq> None"
    and f: "pcb_freelist s' = pcb_freelist s" "process_count s' = process_count s"
    and p: "\<And>p. pstate (PT s' p) = pstate (PT s p)" "\<And>p. parent (PT s' p) = parent (PT s p)"
      "\<And>p. pstate (PT s p) \<noteq> ALIVE \<Longrightarrow> FIDT (PT s' p) = FIDT (PT s p)"
  shows "proc_inv fl K X T s'"
proof -
  note d = proc_invD [OF inv]
  have "pcb_pool s' fl" by (rule pcb_pool_live [OF d(1) f]) (simp_all add: live_def p)
  moreover have "tree_ok K X s'" by (rule tree_ok_cong [OF d(2) p])
  moreover have "proc_lists K X T s'" by (rule proc_lists_keeps [OF d(3) k assms(3)])
  ultimately show ?thesis by (simp add: proc_inv_def)
qed

lemma cv_frame_proc:
  assumes "proc_inv fl K X T s" and "cv_frame s s'"
  shows "proc_inv fl K X T s'"
proof (rule proc_inv_keeps [OF assms(1)])
  have "keeps_on plain_node (rl s) (rl s')" using assms(2) by (simp add: cv_frame_def)
  then show "keeps_on proc_node (rl s) (rl s')" by (rule keeps_on_sub) (rule proc_node_plain)
qed (use assms(2) in \<open>simp_all add: cv_frame_def\<close>)

lemma fs_frame:
  assumes inv: "fs_inv pins s fl" and k: "keeps_on N (rl s) (rl s')" "N FcbFreelist" "\<And>f. N (FcbNode f)"
    and f: "FT s' = FT s" "\<And>p. FIDT (PT s' p) = FIDT (PT s p)"
  shows "fs_inv pins s' fl"
proof (rule fs_same_inv [OF inv])
  have "isring (rl s') z zs" if zs: "set (z # zs) \<subseteq> insert FcbFreelist (range FcbNode)" "isring (rl s) z zs" for z zs
  proof (rule keeps_onD(2) [OF k(1) zs(2)])
    have "\<forall>m \<in> set (z # zs). N m" using zs(1) k(2,3) by blast
    then show "N z" "m \<in> set zs \<Longrightarrow> N m" for m by simp_all
  qed
  moreover have "obj (rl s') (FcbNode g) = obj (rl s) (FcbNode g)" for g by (rule keeps_onD(1) [OF k(1) k(3)])
  ultimately show "fs_same s s'" using f by (simp add: fs_same_def)
qed

lemma cv_frame_fs:
  assumes "fs_inv pins s fl" and "cv_frame s s'"
  shows "fs_inv pins s' fl"
  by (rule fs_frame [OF assms(1), where N = plain_node])
    (use assms(2) in \<open>simp_all add: cv_frame_def plain_node_def\<close>)

text \<open>A step that leaves threads, cores, condition variables and their nodes alone.\<close>

lemma cc_ok_frame:
  assumes ok: "cc_ok pc W R s" and k: "keeps_on N (rl s) (rl s')" "\<And>n. \<not> plain_node n \<Longrightarrow> N n"
    and f: "tcbs s' = tcbs s" "ncores s' = ncores s" "cctx s' = cctx s" "cores s' = cores s"
      "active_threads s' = active_threads s" "condvars s' = condvars s" "waiters s' = waiters s"
  shows "cc_ok pc W R s'"
proof -
  obtain L hs where "sched_inv pc s L hs" using cc_okD(1) [OF ok] by blast
  moreover have "keeps_on sched_node (rl s) (rl s')" "keeps_on cv_node (rl s) (rl s')"
    by (rule keeps_on_sub [OF k(1)]; rule k(2); simp add: plain_node_def)+
  ultimately have "sched_inv pc s' L hs" "cv_inv W R s'"
    using sched_inv_other f cv_inv_frame [OF cc_okD(2) [OF ok], of s'] cv_inv_alive [OF cc_okD(2) [OF ok]]
    by (auto simp: waiting_alive_def)
  then show ?thesis using cc_okD(3) [OF ok] f by (auto simp: cc_ok_def sleepers_listed_def asleep_def)
qed

end
