(* ===== verification/Proc_Exec.thy ===== *)
theory Proc_Exec
  imports Proc_Inv
begin

text \<open>
  Creating processes and threads keeps the invariants of the scheduler, of the condition
  variables, of the streams and of the process table, and does what the calls promise.
\<close>

section \<open>Threads\<close>

lemma cc_ok_spawn:
  assumes ok: "cc_ok pc W R s" and new: "tcbs s (HeapT a) = None"
  shows "cc_ok pc W R (snd (spawn_thread a p f s))"
proof -
  let ?s' = "snd (spawn_thread a p f s)"
  obtain L hs where "sched_inv pc s L hs" using cc_okD(1) [OF ok] by blast
  then have sched: "sched_inv pc ?s' L hs" using new by (rule spawn_inv)
  have f: "condvars ?s' = condvars s" "waiters ?s' = waiters s" "tcbs ?s' = (tcbs s)(HeapT a \<mapsto> new_tcb p f)"
    by (simp_all add: spawn_thread_eq)
  note al = cv_inv_alive [OF cc_okD(2) [OF ok]]
  have nw: "w \<noteq> HeapT a" if "waiters s w \<noteq> None" for w using al that new by (auto simp: waiting_alive_def)
  then have "waiting_alive ?s'" using al f by (simp add: waiting_alive_def)
  from cv_inv_frame [OF cc_okD(2) [OF ok] other_frame_cv [OF spawn_frame] f(1,2) this]
  have "cv_inv W R ?s'" .
  moreover have "sleepers_listed R ?s'"
    using cc_okD(3) [OF ok] nw f by (simp add: sleepers_listed_def asleep_def)
  ultimately show ?thesis using sched by (auto simp: cc_ok_def)
qed

lemma cc_ok_tptcb:
  assumes ok: "cc_ok pc W R s" and y: "tcbs s t = Some y"
  shows "cc_ok pc W R (set_tcb t (y\<lparr>tptcb := v\<rparr>) s)"
proof -
  obtain L hs where inv: "sched_inv pc s L hs" using cc_okD(1) [OF ok] by blast
  let ?y = "y\<lparr>tptcb := v\<rparr>"
  have "thread_ok pc s L t ?y = thread_ok pc s L t y"
    by (simp add: thread_ok_def idle_ok_def phase_ok_def state_ok_def queue_ok_def timeout_ok_def)
  then have ty: "thread_ok pc s L t ?y" using sched_inv_thread [OF inv y] by simp
  then have sched: "sched_inv pc (set_tcb t ?y s) L hs"
    using sched_inv_thread [OF inv] ty by (intro sched_inv_set_tcb [OF inv y]) simp_all
  have "waiting_alive (set_tcb t ?y s)"
    using cv_inv_alive [OF cc_okD(2) [OF ok]] y by (fastforce simp: waiting_alive_def set_tcb_def)
  then have "cv_inv W R (set_tcb t ?y s)"
    by (intro cv_inv_frame [OF cc_okD(2) [OF ok]]) (simp_all add: set_tcb_def)
  moreover have "sleepers_listed R (set_tcb t ?y s)"
    using cc_okD(3) [OF ok] y by (auto simp: sleepers_listed_def asleep_def set_tcb_def)
  ultimately show ?thesis using sched by (auto simp: cc_ok_def)
qed

lemma cc_ok_wakeup:
  assumes ok: "cc_ok pc W R s" and x: "tcbs s t = Some x"
  obtains r s' where "wakeup c t s = Inr (r, s')" and "cc_ok pc W R s'" and "cv_frame s s'"
    and "r \<longleftrightarrow> tstate x = STOPPED \<or> tstate x = INIT"
    and "tcbs s' = (tcbs s)(t \<mapsto> if r then mk_ready x else x)" and "condvars s' = condvars s"
    and "waiters s' = waiters s"
proof -
  obtain L hs where inv: "sched_inv pc s L hs" using cc_okD(1) [OF ok] by blast
  obtain r s' L' hs' where s': "wakeup c t s = Inr (r, s')" "sched_inv pc s' L' hs'" "sched_frame s s'"
    "r \<longleftrightarrow> tstate x = STOPPED \<or> tstate x = INIT" "tcbs s' = (tcbs s)(t \<mapsto> if r then mk_ready x else x)"
    "threads_kept s s'" "\<forall>d. current_thread (cctx s' d) = current_thread (cctx s d)"
    by (rule wakeup_inv [OF inv x])
  have f: "condvars s' = condvars s" "waiters s' = waiters s" using s'(3) by (simp_all add: sched_frame_def)
  have "waiting_alive s'"
    using cv_inv_alive [OF cc_okD(2) [OF ok]] s'(5) x f(2) by (fastforce simp: waiting_alive_def split: if_splits)
  then have cv: "cv_inv W R s'"
    by (intro cv_inv_frame [OF cc_okD(2) [OF ok] other_frame_cv [OF sched_frame_other [OF s'(3)]] f])
  have "asleep s w" if "asleep s' w" for w
    using that s'(5) x by (auto simp: asleep_def split: if_splits)
  then have "cc_ok pc W R s'" using s'(2) cv cc_okD(3) [OF ok] f(2) by (auto simp: cc_ok_def sleepers_listed_def)
  moreover have "cv_frame s s'" by (rule sched_frame_cv_frame [OF s'(3)]) (use s'(7) in simp)
  ultimately show ?thesis using that s' f by blast
qed

text \<open>The addresses that the allocator returns are those of no object.\<close>

definition fresh_thread :: "ptref \<Rightarrow> nat \<Rightarrow> kernel \<Rightarrow> bool" where
  "fresh_thread pa ta s \<longleftrightarrow> ptcbs s pa = None \<and> condvars s (ExitCv pa) = None \<and> tcbs s (HeapT ta) = None"

definition new_ptcb :: "tref \<Rightarrow> task \<Rightarrow> int \<Rightarrow> ptr \<Rightarrow> ptcb" where
  "new_ptcb t call len a = \<lparr>ptcb_tcb = Some t, detached = False, exited = False, ref_count = 0,
     texitval = 0, ttask = call, targl = len, targs = a\<rparr>"

definition started_tcb :: "pref \<Rightarrow> thread_func \<Rightarrow> ptref \<Rightarrow> tcb" where
  "started_tcb p func pa = mk_ready ((new_tcb p func)\<lparr>tptcb := Some pa\<rparr>)"

lemma thread_list_push:
  assumes l: "proc_lists K X T s" and p: "p < MAX_PROC" and new: "ptcbs s pa = None"
    and s': "rl s' = rlist_push_back (ThreadList p) (ThreadNode pa) (rlnode_init (ThreadNode pa) (OPtcb pa) (rl s))"
      "ptcbs s' = (ptcbs s)(pa \<mapsto> x)"
  shows "proc_lists K X (T(p := T p @ [pa])) s'"
    and "keeps_on (\<lambda>n. n \<notin> range ThreadList \<union> range ThreadNode) (rl s) (rl s')"
proof -
  note d = proc_listsD [OF l]
  let ?h = "rlnode_init (ThreadNode pa) (OPtcb pa) (rl s)"
  have nT: "pa \<notin> set (T q)" for q using d(7) [of pa q] new by auto
  have k: "keeps_on (\<lambda>n. n \<noteq> ThreadNode pa) (rl s) ?h" by (rule keeps_on_init) simp
  have "isring ?h (ThreadList q) (map ThreadNode (T q))" if "q < MAX_PROC" for q
    by (rule keeps_onD(2) [OF k familyD(1) [OF d(3) that]]) (use nT in auto)
  then have f: "family ThreadList ThreadNode ?h T {}"
    using d(3) by (simp add: family_def)
  note al = init_list [of "ThreadNode pa" "OPtcb pa" "rl s"]
  have f': "family ThreadList ThreadNode (rl s') (T(p := T p @ [pa])) {}"
    unfolding s'(1) by (rule thr.family_push_back [OF f p al nT])
  have "keeps_on (\<lambda>n. n \<notin> range ThreadList \<union> range ThreadNode) ?h (rl s')"
    unfolding s'(1) by (rule keeps_on_push_back [OF familyD(1) [OF f p] al]) simp_all
  moreover have "keeps_on (\<lambda>n. n \<notin> range ThreadList \<union> range ThreadNode) (rl s) ?h"
    by (rule keeps_on_init) simp
  ultimately show k2: "keeps_on (\<lambda>n. n \<notin> range ThreadList \<union> range ThreadNode) (rl s) (rl s')"
    by (rule keeps_on_trans [rotated])
  have "obj (rl s') (ThreadNode a) = OPtcb a \<and> ptcbs s' a \<noteq> None" if "a \<in> set ((T(p := T p @ [pa])) q)" for a q
    using that d(6,7) [of a q] d(6,7) [of a p] s' by (auto split: if_splits)
  then show "proc_lists K X (T(p := T p @ [pa])) s'" by (rule proc_lists_threads [OF l f' k2])
qed

text \<open>The tables of the devices, which are filled in at the start, stay as they are.\<close>

definition same_devs :: "kernel \<Rightarrow> kernel \<Rightarrow> bool" where
  "same_devs s s' \<longleftrightarrow> devtable s' = devtable s \<and> nterm s' = nterm s"

lemma same_devs_trans: "same_devs s s1 \<Longrightarrow> same_devs s1 s' \<Longrightarrow> same_devs s s'"
  by (simp add: same_devs_def)

lemma same_devs_refl [simp]: "same_devs s s"
  by (simp add: same_devs_def)

lemma same_devs_ok: "same_devs s s' \<Longrightarrow> devs_ok s' = devs_ok s"
  by (simp add: same_devs_def devs_ok_def bios_serial_ports_def)

lemma new_thread_ok:
  assumes ok: "cc_ok pc W R s" and fs: "fs_inv pins s fs" and pr: "proc_inv fl K X T s"
    and p: "p < MAX_PROC" and new: "fresh_thread pa ta s"
  obtains s' where "new_thread c pa ta p func call len a s = Inr s'" and "cc_ok pc W R s'"
    and "fs_inv pins s' fs" and "proc_inv fl K X (T(p := T p @ [pa])) s'"
    and "tcbs s' = (tcbs s)(HeapT ta \<mapsto> started_tcb p func pa)"
    and "ptcbs s' = (ptcbs s)(pa \<mapsto> new_ptcb (HeapT ta) call len a)"
    and "PT s' = (PT s)(p := (PT s p)\<lparr>thread_count := thread_count (PT s p) + 1\<rparr>)"
    and "\<forall>d. CURTHREAD d s' = CURTHREAD d s" and "mem s' = mem s" and "kernel_sem s' = kernel_sem s"
    and "condvars s' = condvars s" and "waiters s' = waiters s" and "FT s' = FT s" and "ncores s' = ncores s"
    and "same_devs s s'"
proof -
  note n = new [unfolded fresh_thread_def]
  let ?h = "rlist_push_back (ThreadList p) (ThreadNode pa) (rlnode_init (ThreadNode pa) (OPtcb pa) (rl s))"
  let ?PT = "(PT s)(p := (PT s p)\<lparr>thread_count := thread_count (PT s p) + 1\<rparr>)"
  let ?x = "new_ptcb (HeapT ta) call len a"
  define s2 where "s2 = s\<lparr>rl := ?h, PT := ?PT, ptcbs := (ptcbs s)(pa \<mapsto> ?x)\<rparr>"
  have lists: "proc_lists K X (T(p := T p @ [pa])) s2"
    and k: "keeps_on (\<lambda>n. n \<notin> range ThreadList \<union> range ThreadNode) (rl s) (rl s2)"
    by (rule thread_list_push [OF proc_invD(3) [OF pr] p conjunct1 [OF n]]; simp add: s2_def)+
  have ok2: "cc_ok pc W R s2"
    by (rule cc_ok_frame [OF ok k]) (auto simp: s2_def plain_node_def)
  have fs2: "fs_inv pins s2 fs" by (rule fs_frame [OF fs k]) (auto simp: s2_def)
  have "pcb_pool s2 fl"
    by (rule pcb_pool_live [OF proc_invD(1) [OF pr]]) (auto simp: s2_def live_def)
  moreover have "tree_ok K X s2" by (rule tree_ok_cong [OF proc_invD(2) [OF pr]]) (auto simp: s2_def)
  ultimately have pr2: "proc_inv fl K X (T(p := T p @ [pa])) s2" using lists by (simp add: proc_inv_def)
  define s3 where "s3 = snd (spawn_thread ta p func s2)"
  have ok3: "cc_ok pc W R s3" unfolding s3_def by (rule cc_ok_spawn [OF ok2]) (use n in \<open>simp add: s2_def\<close>)
  have t3: "tcbs s3 (HeapT ta) = Some (new_tcb p func)" by (simp add: s3_def spawn_thread_eq)
  define s4 where "s4 = set_tcb (HeapT ta) ((new_tcb p func)\<lparr>tptcb := Some pa\<rparr>) s3"
  have ok4: "cc_ok pc W R s4" unfolding s4_def by (rule cc_ok_tptcb [OF ok3 t3])
  have fr4: "other_frame s2 s4" and c4: "cctx s4 = cctx s2"
    using spawn_frame [of s2 ta p func] by (simp_all add: s4_def s3_def spawn_thread_eq other_frame_def set_tcb_def)
  have t4: "tcbs s4 = (tcbs s)(HeapT ta \<mapsto> (new_tcb p func)\<lparr>tptcb := Some pa\<rparr>)"
    by (simp add: s4_def s3_def s2_def spawn_thread_eq set_tcb_def)
  have pn: "keeps_on plain_node (rl s2) (rl s4)"
    using fr4 by (auto simp: other_frame_def plain_node_def intro: keeps_on_sub)
  have fs4: "fs_inv pins s4 fs"
    by (rule fs_frame [OF fs2 pn]) (use fr4 in \<open>simp_all add: other_frame_def plain_node_def\<close>)
  have pr4: "proc_inv fl K X (T(p := T p @ [pa])) s4"
    by (rule proc_inv_keeps [OF pr2 keeps_on_sub [OF pn proc_node_plain]])
      (use fr4 in \<open>simp_all add: other_frame_def\<close>)
  let ?y = "(new_tcb p func)\<lparr>tptcb := Some pa\<rparr>"
  have y4: "tcbs s4 (HeapT ta) = Some ?y" by (simp add: t4)
  obtain r s' where s': "wakeup c (HeapT ta) s4 = Inr (r, s')" "cc_ok pc W R s'" "cv_frame s4 s'"
    "r \<longleftrightarrow> tstate ?y = STOPPED \<or> tstate ?y = INIT"
    "tcbs s' = (tcbs s4)(HeapT ta \<mapsto> if r then mk_ready ?y else ?y)"
    "condvars s' = condvars s4" "waiters s' = waiters s4" by (rule cc_ok_wakeup [OF ok4 y4])
  have r: "r" using s'(4) by (simp add: new_tcb_def)
  have cvid: "(condvars s)(ExitCv pa := None) = condvars s" using n by (intro fun_upd_idem) simp
  have e: "set_tcb (HeapT ta) ?y (set_ptcb pa ?x (snd (spawn_thread ta p func (s\<lparr>rl := ?h, PT := ?PT\<rparr>)))) = s4"
    by (intro kernel.equality) (simp_all add: s4_def s3_def s2_def spawn_thread_eq set_tcb_def set_ptcb_def)
  have "new_thread c pa ta p func call len a s = Inr s'"
    using s'(1) e cvid
    by (simp add: new_thread_def Let_def spawn_thread_eq set_PCB_def set_ptcb_def new_ptcb_def get_tcb_def)
  moreover note s'(2) cv_frame_fs [OF fs4 s'(3)] cv_frame_proc [OF pr4 s'(3)]
  moreover have "tcbs s' = (tcbs s)(HeapT ta \<mapsto> started_tcb p func pa)"
    using s'(5) r t4 by (simp add: started_tcb_def)
  moreover have "ptcbs s' = (ptcbs s)(pa \<mapsto> ?x)" "PT s' = ?PT" "mem s' = mem s" "kernel_sem s' = kernel_sem s"
    "FT s' = FT s" "ncores s' = ncores s" using s'(3) fr4 by (simp_all add: cv_frame_def other_frame_def s2_def)
  moreover have "CURTHREAD d s' = CURTHREAD d s" for d
    using s'(3) c4 by (simp add: cv_frame_def CURTHREAD_def s2_def)
  moreover have "condvars s' = condvars s" "waiters s' = waiters s"
    using s'(6,7) fr4 by (simp_all add: other_frame_def s2_def)
  moreover have "same_devs s s'" using s'(3) fr4 by (simp add: same_devs_def cv_frame_def other_frame_def s2_def)
  ultimately show ?thesis using that by simp
qed

section \<open>Inheriting the file ids\<close>

lemma inherit_fid_ok:
  assumes fs: "fs_inv pins s fs" and p: "p < MAX_PROC" "p \<noteq> cur" and i: "i < MAX_FILEID"
    and free: "FIDT (PT s p) i = None"
  shows "fs_inv pins (inherit_fid p cur i s) fs"
    and "inherit_fid p cur i s = s\<lparr>PT := (PT s)(p := (PT s p)\<lparr>FIDT := (FIDT (PT s p))(i := FIDT (PT s cur) i)\<rparr>),
      FT := FT (inherit_fid p cur i s)\<rparr>"
proof -
  show "inherit_fid p cur i s = s\<lparr>PT := (PT s)(p := (PT s p)\<lparr>FIDT := (FIDT (PT s p))(i := FIDT (PT s cur) i)\<rparr>),
      FT := FT (inherit_fid p cur i s)\<rparr>"
    by (simp add: inherit_fid_def Let_def set_fid_def set_PCB_def FCB_incref_def set_FCB_def split: option.split)
  show "fs_inv pins (inherit_fid p cur i s) fs"
  proof (cases "FIDT (PT s cur) i")
    case None
    have "fs_inv pins (set_fid p i None s) fs"
      by (rule fs_frame [OF fs, where N = "\<lambda>_. True"]) (use free in \<open>simp_all add: fun_eq_iff\<close>)
    with None show ?thesis by (simp add: inherit_fid_def Let_def)
  next
    case (Some f)
    have "fs_inv pins (set_fid p i (Some f) (FCB_incref f s)) fs"
      by (rule fill_slot [OF fs p(1) i free]) (use slot_counted [OF fs Some] in simp)
    moreover have "set_fid p i (Some f) (FCB_incref f s) = FCB_incref f (set_fid p i (Some f) s)"
      by (simp add: set_fid_def FCB_incref_def set_FCB_def set_PCB_def)
    ultimately show ?thesis using Some by (simp add: inherit_fid_def Let_def)
  qed
qed

lemma inherit_fids_ok:
  assumes "fs_inv pins s fs" and "p < MAX_PROC" and "p \<noteq> cur" and "distinct is"
    and "\<forall>i \<in> set is. i < MAX_FILEID \<and> FIDT (PT s p) i = None"
  shows "fs_inv pins (fold (inherit_fid p cur) is s) fs \<and>
    fold (inherit_fid p cur) is s = s\<lparr>PT := (PT s)(p := (PT s p)\<lparr>FIDT :=
        (\<lambda>j. if j \<in> set is then FIDT (PT s cur) j else FIDT (PT s p) j)\<rparr>),
      FT := FT (fold (inherit_fid p cur) is s)\<rparr>"
  using assms(1,4,5)
proof (induction "is" arbitrary: s)
  case (Cons i "is")
  have i: "i < MAX_FILEID" "FIDT (PT s p) i = None" "i \<notin> set is" using Cons.prems by simp_all
  define s1 where "s1 = inherit_fid p cur i s"
  note e = inherit_fid_ok [OF Cons.prems(1) assms(2,3) i(1,2), folded s1_def]
  define x where "x = (PT s p)\<lparr>FIDT := (FIDT (PT s p))(i := FIDT (PT s cur) i)\<rparr>"
  have P: "PT s1 = (PT s)(p := x)" by (subst e(2)) (simp add: x_def)
  have "\<forall>j \<in> set is. j < MAX_FILEID \<and> FIDT (PT s1 p) j = None"
    using Cons.prems(3) i(3) by (auto simp: P x_def)
  note ih = Cons.IH [OF e(1) conjunct2 [OF Cons.prems(2) [unfolded distinct.simps]] this]
  note IH = conjunct1 [OF ih] conjunct2 [OF ih]
  have "(PT s1 p)\<lparr>FIDT := (\<lambda>j. if j \<in> set is then FIDT (PT s1 cur) j else FIDT (PT s1 p) j)\<rparr> =
      (PT s p)\<lparr>FIDT := (\<lambda>j. if j \<in> set (i # is) then FIDT (PT s cur) j else FIDT (PT s p) j)\<rparr>"
    using assms(3) by (auto simp: P x_def fun_eq_iff)
  then have "fold (inherit_fid p cur) is s1 = s\<lparr>PT := (PT s)(p := (PT s p)\<lparr>FIDT :=
        (\<lambda>j. if j \<in> set (i # is) then FIDT (PT s cur) j else FIDT (PT s p) j)\<rparr>),
      FT := FT (fold (inherit_fid p cur) is s1)\<rparr>"
    by (subst IH(2), subst e(2)) (simp add: P)
  with IH(1) show ?case by (simp add: s1_def del: fun_upd_apply)
qed simp

section \<open>The new process in the tree\<close>

lemma tree_add:
  assumes t: "tree_ok K X s" and p: "\<not> live s p" "p < MAX_PROC" and cur: "live s cur" "pstate (PT s cur) = ALIVE"
    and s': "PT s' = (PT s)(p := x)" "pstate x = ALIVE" "parent x = Some cur"
  shows "tree_ok (K(cur := p # K cur)) X s'"
proof -
  note d = tree_okD [OF t]
  have p1: "1 < p" using d(5,6) p(1) by (metis One_nat_def less_one linorder_neqE_nat not_less_eq)
  have l: "live s' q \<longleftrightarrow> live s q \<or> q = p" for q using s' p(2) by (auto simp: live_def)
  have "rooted s' q" if "rooted s q" for q using that
  proof induction
    case (rooted_root q)
    then show ?case by (auto simp: l intro: rooted.rooted_root)
  next
    case (rooted_child r q)
    then have "r \<noteq> p" using p(1) by auto
    with rooted_child show ?case by (intro rooted.rooted_child [of s' r q]) (simp_all add: l s')
  qed
  note keep = this
  have "rooted s' p"
    by (rule rooted.rooted_child [of s' p cur]) (use keep [OF d(7) [OF cur(1)]] s' in \<open>simp_all add: l\<close>)
  then have r: "rooted s' q" if "live s' q" for q using that keep d(7) l by blast
  have pc: "pstate (PT s' q) = (if q = p then ALIVE else pstate (PT s q))"
    "parent (PT s' q) = (if q = p then Some cur else parent (PT s q))" for q using s' by simp_all
  have ne: "cur \<noteq> p" using cur(1) p(1) by auto
  show ?thesis
    unfolding tree_ok_def l pc
  proof (intro conjI allI impI, goal_cases)
    case (1 r q)
    then show ?case using d(1) [of q r] d(1) [of q cur] p(1) by auto
  next
    case (2 r q)
    then show ?case using d(2) [of q r] p(1) by auto
  next
    case (3 r q)
    then show ?case using cur(1) d(3) [of q r] by (auto split: if_splits)
  next
    case (4 r q)
    then show ?case using cur(2) ne d(3) [of q r] p(1) by (auto split: if_splits)
  next
    case (5 q)
    then show ?case using d(4) [of q] p1 by auto
  next
    case (8 q)
    then show ?case using r by (simp add: l)
  next
    case (9 q)
    then have "q \<noteq> p" "pstate (PT s q) \<noteq> ALIVE" by (auto split: if_splits)
    then show ?case using d(8) s'(1) by auto
  qed (use d(5,6) in simp_all)
qed

section \<open>Exec\<close>

text \<open>The caller's arguments, when they can be copied.\<close>

definition args_ok :: "ptr \<Rightarrow> int \<Rightarrow> kernel \<Rightarrow> bool" where
  "args_ok a len s \<longleftrightarrow> (case a of None \<Rightarrow> True
     | Some b \<Rightarrow> (\<exists>bs. mem s b = Some bs \<and> 0 \<le> len \<and> nat len \<le> length bs))"

definition exec_pcb :: "pref \<Rightarrow> task \<Rightarrow> int \<Rightarrow> ptr \<Rightarrow> kernel \<Rightarrow> pref \<Rightarrow> PCB" where
  "exec_pcb cur call len a s p = (PT s p)\<lparr>pstate := ALIVE, thread_count := 0, parent := Some cur,
     FIDT := FIDT (PT s cur), main_task := call, argl := len, args := a\<rparr>"

text \<open>Everything \<open>sys_Exec\<close> does before it creates the thread.\<close>

definition exec_setup :: "pref \<Rightarrow> pref \<Rightarrow> task \<Rightarrow> int \<Rightarrow> ptr \<Rightarrow> nat \<Rightarrow> kernel \<Rightarrow> kernel" where
  "exec_setup p cur call len a m s =
     s\<lparr>PT := (PT s)(p := exec_pcb cur call len (map_option (\<lambda>_. m) a) s p),
       pcb_freelist := parent (PT s p), process_count := process_count s + 1,
       rl := rlist_push_front (ChildrenList cur) (ChildrenNode p) (rl s),
       FT := FT (fold (inherit_fid p cur) [0..<MAX_FILEID] s),
       mem := (case a of None \<Rightarrow> mem s | Some b \<Rightarrow> (mem s)(m \<mapsto> take (nat len) (the (mem s b))))\<rparr>"

lemma inherit_FT:
  assumes "FT s' = FT s" and "FIDT (PT s' cur) = FIDT (PT s cur)" and "p \<noteq> cur"
  shows "FT (fold (inherit_fid p cur) is s') = FT (fold (inherit_fid p cur) is s)"
  using assms
proof (induction "is" arbitrary: s s')
  case (Cons i "is")
  have o: "FIDT (PT (inherit_fid p cur i x) cur) = FIDT (PT x cur)" for x
    using Cons.prems(3) by (cases "FIDT (PT x cur) i") (simp_all add: inherit_fid_def Let_def fun_eq_iff)
  have "FT (inherit_fid p cur i s') = FT (inherit_fid p cur i s)"
    using Cons.prems(1,2) by (cases "FIDT (PT s cur) i") (simp_all add: inherit_fid_def Let_def FCB_incref_def set_FCB_def)
  moreover have "FIDT (PT (inherit_fid p cur i s') cur) = FIDT (PT (inherit_fid p cur i s) cur)"
    unfolding o by (rule Cons.prems(2))
  ultimately have "FT (fold (inherit_fid p cur) is (inherit_fid p cur i s')) =
      FT (fold (inherit_fid p cur) is (inherit_fid p cur i s))" by (rule Cons.IH [OF _ _ Cons.prems(3)])
  then show ?case by simp
qed simp

lemma setup_lists:
  assumes l: "proc_lists K X T s" and t: "tree_ok K X s" and p: "\<not> live s p" "p < MAX_PROC" and cur: "cur < MAX_PROC"
    and s': "rl s' = rlist_push_front (ChildrenList cur) (ChildrenNode p) (rl s)" "ptcbs s' = ptcbs s"
  shows "proc_lists (K(cur := p # K cur)) X T s'"
    and "keeps_on (\<lambda>n. n \<notin> range ChildrenList \<union> range ChildrenNode) (rl s) (rl s')"
proof -
  note d = proc_listsD [OF l]
  have nK: "p \<notin> set (K q)" for q using tree_okD(1) [OF t, of p q] p(1) by simp
  have al: "isring (rl s) (ChildrenNode p) []" by (rule familyD(3) [OF d(1)]) (use nK p(2) in auto)
  have f: "family ChildrenList ChildrenNode (rl s') (K(cur := p # K cur)) {..<MAX_PROC}"
    unfolding s'(1) by (rule kids.family_push_front [OF d(1) cur al nK])
  show k: "keeps_on (\<lambda>n. n \<notin> range ChildrenList \<union> range ChildrenNode) (rl s) (rl s')"
    unfolding s'(1) by (rule keeps_on_push_front [OF familyD(1) [OF d(1) cur] al]) simp_all
  show "proc_lists (K(cur := p # K cur)) X T s'"
    by (rule proc_lists_kids [OF l f k]) (simp_all add: s')
qed

lemma exec_setup_ok:
  assumes ok: "cc_ok pc W R s" and fs: "fs_inv pins s fs" and pr: "proc_inv (p # fl) K X T s"
    and cur: "live s cur" "pstate (PT s cur) = ALIVE"
  shows "cc_ok pc W R (exec_setup p cur call len a m s)" and "fs_inv pins (exec_setup p cur call len a m s) fs"
    and "proc_inv fl (K(cur := p # K cur)) X T (exec_setup p cur call len a m s)" and "1 < p" and "p \<noteq> cur"
proof -
  define s' where "s' = exec_setup p cur call len a m s"
  note d = proc_invD [OF pr]
  obtain s1 where s1: "acquire_PCB s = (Some p, s1)" "pcb_pool s1 fl" "\<not> live s p" "p < MAX_PROC"
    "s1 = s\<lparr>PT := (PT s)(p := (PT s p)\<lparr>pstate := ALIVE, thread_count := 0\<rparr>),
      pcb_freelist := parent (PT s p), process_count := process_count s + 1\<rparr>"
    by (rule acquire_pool [OF d(1)])
  show ne: "p \<noteq> cur" using s1(3) cur(1) by auto
  show "1 < p" using tree_okD(5,6) [OF d(2)] s1(3) by (metis One_nat_def less_one linorder_neqE_nat not_less_eq)
  have cm: "cur < MAX_PROC" using cur(1) by (simp add: live_def)
  have lists: "proc_lists (K(cur := p # K cur)) X T s'"
    and k: "keeps_on (\<lambda>n. n \<notin> range ChildrenList \<union> range ChildrenNode) (rl s) (rl s')"
    by (rule setup_lists [OF d(3,2) s1(3,4) cm]; simp add: s'_def exec_setup_def)+
  show "cc_ok pc W R (exec_setup p cur call len a m s)" unfolding s'_def [symmetric]
    by (rule cc_ok_frame [OF ok k]) (auto simp: s'_def exec_setup_def plain_node_def)
  have fid: "FIDT (PT s p) i = None" for i
    using tree_okD(8) [OF d(2), of p i] s1(3,4) by (auto simp: live_def)
  note inh = inherit_fids_ok [OF fs s1(4) ne distinct_upt [of 0 MAX_FILEID]]
  have inh: "fs_inv pins (fold (inherit_fid p cur) [0..<MAX_FILEID] s) fs"
    "fold (inherit_fid p cur) [0..<MAX_FILEID] s = s\<lparr>PT := (PT s)(p := (PT s p)\<lparr>FIDT :=
        (\<lambda>j. if j \<in> set [0..<MAX_FILEID] then FIDT (PT s cur) j else FIDT (PT s p) j)\<rparr>),
      FT := FT (fold (inherit_fid p cur) [0..<MAX_FILEID] s)\<rparr>"
    using inh fid by simp_all
  define si where "si = fold (inherit_fid p cur) [0..<MAX_FILEID] s"
  have pi: "PT si = (PT s)(p := (PT s p)\<lparr>FIDT :=
        (\<lambda>j. if j \<in> set [0..<MAX_FILEID] then FIDT (PT s cur) j else FIDT (PT s p) j)\<rparr>)" "rl si = rl s"
    unfolding si_def by (subst inh(2), simp)+
  have "FIDT (PT s cur) j = None" if "\<not> j < MAX_FILEID" for j
    using fs_cntD(3) [OF fs_invD(1) [OF fs], of cur j] that by (cases "FIDT (PT s cur) j") auto
  then have fe: "(\<lambda>j. if j \<in> set [0..<MAX_FILEID] then FIDT (PT s cur) j else FIDT (PT s p) j) = FIDT (PT s cur)"
    using fid by (auto simp: fun_eq_iff)
  show "fs_inv pins (exec_setup p cur call len a m s) fs" unfolding s'_def [symmetric]
  proof (rule fs_frame [OF inh(1) [folded si_def]])
    show "keeps_on (\<lambda>n. n \<notin> range ChildrenList \<union> range ChildrenNode) (rl si) (rl s')" using k pi(2) by simp
    show "FT s' = FT si" by (simp add: s'_def exec_setup_def si_def)
    show "FIDT (PT s' q) = FIDT (PT si q)" for q
      unfolding pi(1) fe by (simp add: s'_def exec_setup_def exec_pcb_def)
  qed auto
  have "pcb_pool s' fl"
    by (rule pcb_pool_live [OF s1(2)]) (use s1(4) in \<open>auto simp: s'_def exec_setup_def s1(5) live_def exec_pcb_def\<close>)
  moreover have "tree_ok (K(cur := p # K cur)) X s'"
    by (rule tree_add [OF d(2) s1(3,4) cur, where x = "exec_pcb cur call len (map_option (\<lambda>_. m) a) s p"])
      (simp_all add: s'_def exec_setup_def exec_pcb_def)
  ultimately show "proc_inv fl (K(cur := p # K cur)) X T (exec_setup p cur call len a m s)"
    using lists unfolding s'_def [symmetric] by (simp add: proc_inv_def)
qed

lemma sys_Exec_setup:
  assumes fs: "fs_inv pins s fs" and pr: "proc_inv (p # fl) K X T s"
    and cur: "live s cur" "CURPROC c s = Inr cur" and a: "args_ok a len s" and p1: "1 < p" "p \<noteq> cur"
  shows "sys_Exec c call len a (m, pa, ta) s =
    rbind (if call \<noteq> None
           then new_thread c pa ta p start_main_thread_func call len a (exec_setup p cur call len a m s)
           else Inr (exec_setup p cur call len a m s)) (\<lambda>s'. Inr (int p, s'))"
proof -
  note d = proc_invD [OF pr]
  obtain s1 where s1: "acquire_PCB s = (Some p, s1)" "pcb_pool s1 fl" "\<not> live s p" "p < MAX_PROC"
    "s1 = s\<lparr>PT := (PT s)(p := (PT s p)\<lparr>pstate := ALIVE, thread_count := 0\<rparr>),
      pcb_freelist := parent (PT s p), process_count := process_count s + 1\<rparr>"
    by (rule acquire_pool [OF d(1)])
  have cm: "cur < MAX_PROC" using cur(1) by (simp add: live_def)
  define s2 where "s2 = s1\<lparr>PT := (PT s1)(p := (PT s1 p)\<lparr>parent := Some cur\<rparr>),
    rl := rlist_push_front (ChildrenList cur) (ChildrenNode p) (rl s1)\<rparr>"
  have fid: "FIDT (PT s p) i = None" for i
    using tree_okD(8) [OF d(2), of p i] s1(3,4) by (auto simp: live_def)
  have fid2: "FIDT (PT s2 q) = FIDT (PT s q)" for q using p1(2) by (simp add: s2_def s1(5))
  have k: "keeps_on (\<lambda>n. n \<notin> range ChildrenList \<union> range ChildrenNode) (rl s) (rl s2)"
    by (rule setup_lists(2) [OF d(3,2) s1(3,4) cm]) (simp_all add: s2_def s1(5))
  have fs2: "fs_inv pins s2 fs" by (rule fs_frame [OF fs k]) (auto simp: fid2, simp add: s2_def s1(5))
  let ?si = "fold (inherit_fid p cur) [0..<MAX_FILEID] s2"
  note inh = inherit_fids_ok [OF fs2 s1(4) p1(2) distinct_upt [of 0 MAX_FILEID]]
  have si: "?si = s2\<lparr>PT := (PT s2)(p := (PT s2 p)\<lparr>FIDT :=
        (\<lambda>j. if j \<in> set [0..<MAX_FILEID] then FIDT (PT s2 cur) j else FIDT (PT s2 p) j)\<rparr>), FT := FT ?si\<rparr>"
    by (rule conjunct2 [OF inh]) (simp add: fid2 fid)
  have "FIDT (PT s cur) j = None" if "\<not> j < MAX_FILEID" for j
    using fs_cntD(3) [OF fs_invD(1) [OF fs], of cur j] that by (cases "FIDT (PT s cur) j") auto
  then have fe: "(\<lambda>j. if j \<in> set [0..<MAX_FILEID] then FIDT (PT s2 cur) j else FIDT (PT s2 p) j) = FIDT (PT s cur)"
    using fid by (auto simp: fun_eq_iff fid2)
  have FT: "FT ?si = FT (fold (inherit_fid p cur) [0..<MAX_FILEID] s)"
    by (rule inherit_FT) (use p1(2) in \<open>simp_all add: fid2, simp add: s2_def s1(5)\<close>)
  define F where "F = FT (fold (inherit_fid p cur) [0..<MAX_FILEID] s)"
  define t where "t = ?si"
  have Ft: "FT t = F" using FT by (simp add: t_def F_def)
  have t: "t = s2\<lparr>PT := (PT s2)(p := (PT s2 p)\<lparr>FIDT := FIDT (PT s cur)\<rparr>), FT := F\<rparr>"
    using si unfolding fe t_def [symmetric] Ft .
  define s3 where "s3 = set_PCB p ((PT t p)\<lparr>main_task := call, argl := len\<rparr>) t"
  have m3: "mem s3 = mem s" by (simp add: s3_def t set_PCB_def s2_def s1(5))
  have "\<exists>s4. copy_args m a len p s3 = Inr s4 \<and> s4 = exec_setup p cur call len a m s"
  proof (cases a)
    case None
    have "set_PCB p ((PT s3 p)\<lparr>args := None\<rparr>) s3 = exec_setup p cur call len a m s"
      by (intro kernel.equality; simp add: s3_def t None F_def exec_setup_def exec_pcb_def set_PCB_def s2_def s1(5))
    with None show ?thesis by (simp add: copy_args_def)
  next
    case (Some b)
    then obtain bs where bs: "mem s b = Some bs" "0 \<le> len" "nat len \<le> length bs"
      using a by (auto simp: args_ok_def)
    have "(set_PCB p ((PT s3 p)\<lparr>args := Some m\<rparr>) s3)\<lparr>mem := (mem s)(m \<mapsto> take (nat len) bs)\<rparr> =
        exec_setup p cur call len a m s"
      by (intro kernel.equality; simp add: s3_def t Some bs F_def exec_setup_def exec_pcb_def set_PCB_def s2_def s1(5))
    with Some bs show ?thesis by (simp add: copy_args_def m3)
  qed
  then have copy: "copy_args m a len p s3 = Inr (exec_setup p cur call len a m s)" by blast
  have "CURPROC c s1 = Inr cur" using cur(2) CURPROC_cong [of s1 s c] by (simp add: s1(5))
  moreover have "inherit_parent p cur s1 = t" by (simp add: inherit_parent_def s2_def set_PCB_def t_def)
  ultimately show ?thesis
    using s1(1) p1(1) copy by (simp add: sys_Exec_def get_pid_def s3_def Let_def)
qed

lemma sys_Exec_ok:
  assumes ok: "cc_ok pc W R s" and fs: "fs_inv pins s fs" and pr: "proc_inv (p # fl) K X T s"
    and cur: "live s cur" "pstate (PT s cur) = ALIVE" "CURPROC c s = Inr cur" and a: "args_ok a len s"
    and new: "fresh_thread pa ta s"
  obtains s' where "sys_Exec c (Some f) len a (m, pa, ta) s = Inr (int p, s')" and "cc_ok pc W R s'"
    and "fs_inv pins s' fs" and "proc_inv fl (K(cur := p # K cur)) X (T(p := T p @ [pa])) s'"
    and "PT s' = (PT s)(p := (exec_pcb cur (Some f) len (map_option (\<lambda>_. m) a) s p)\<lparr>thread_count := 1\<rparr>)"
    and "tcbs s' = (tcbs s)(HeapT ta \<mapsto> started_tcb p start_main_thread_func pa)"
    and "ptcbs s' = (ptcbs s)(pa \<mapsto> new_ptcb (HeapT ta) (Some f) len a)"
    and "mem s' = (case a of None \<Rightarrow> mem s | Some b \<Rightarrow> (mem s)(m \<mapsto> take (nat len) (the (mem s b))))"
    and "\<forall>d. CURTHREAD d s' = CURTHREAD d s" and "kernel_sem s' = kernel_sem s" and "waiters s' = waiters s"
    and "condvars s' = condvars s" and "ncores s' = ncores s" and "same_devs s s'"
proof -
  let ?s = "exec_setup p cur (Some f) len a m s"
  note e = exec_setup_ok(1-3) [OF ok fs pr cur(1,2), where call = "Some f" and len = len and a = a and m = m]
    exec_setup_ok(4,5) [OF ok fs pr cur(1,2)]
  have pm: "p < MAX_PROC" using pcb_poolD(3) [OF proc_invD(1) [OF pr], of p] by simp
  have new': "fresh_thread pa ta ?s" using new by (simp add: fresh_thread_def exec_setup_def)
  obtain s' where s': "new_thread c pa ta p start_main_thread_func (Some f) len a ?s = Inr s'"
    "cc_ok pc W R s'" "fs_inv pins s' fs" "proc_inv fl (K(cur := p # K cur)) X (T(p := T p @ [pa])) s'"
    "tcbs s' = (tcbs ?s)(HeapT ta \<mapsto> started_tcb p start_main_thread_func pa)"
    "ptcbs s' = (ptcbs ?s)(pa \<mapsto> new_ptcb (HeapT ta) (Some f) len a)"
    "PT s' = (PT ?s)(p := (PT ?s p)\<lparr>thread_count := thread_count (PT ?s p) + 1\<rparr>)"
    "\<forall>d. CURTHREAD d s' = CURTHREAD d ?s" "mem s' = mem ?s" "kernel_sem s' = kernel_sem ?s"
    "condvars s' = condvars ?s" "waiters s' = waiters ?s" "ncores s' = ncores ?s"
    "same_devs ?s s'"
    by (rule new_thread_ok [OF e(1-3) pm new'])
  have "sys_Exec c (Some f) len a (m, pa, ta) s = Inr (int p, s')"
    using sys_Exec_setup [OF fs pr cur(1,3) a e(4,5), of "Some f" m pa ta] s'(1) by simp
  from that [OF this s'(2-4)] s'(5-14) show ?thesis
    by (simp add: exec_setup_def exec_pcb_def CURTHREAD_def same_devs_def)
qed

text \<open>With no free PCB the call fails and changes nothing.\<close>

lemma sys_Exec_full:
  assumes "pcb_pool s []"
  shows "sys_Exec c call len a adr s = Inr (NOPROC, s)"
  using pcbs.acquire_empty [OF assms] by (simp add: sys_Exec_def get_pid_def)

end
