(* ===== verification/Proc_Wait.thy ===== *)
theory Proc_Wait
  imports Proc_Exec
begin

text \<open>Waiting for children: what \<open>cleanup_zombie\<close> and \<open>sys_WaitChild\<close> do.\<close>

section \<open>Cleaning up a zombie\<close>

lemma tree_remove:
  assumes t: "tree_ok K X s" and q: "live s q" "pstate (PT s q) = ZOMBIE" "parent (PT s q) = Some p"
    and s': "PT s' = (PT s)(q := x)" "pstate x = FREE" "FIDT x = FIDT (PT s q)"
    and dist: "distinct (K p)" "distinct (X p)"
  shows "tree_ok (K(p := remove1 q (K p))) (X(p := remove1 q (X p))) s'"
proof -
  note d = tree_okD [OF t]
  have q1: "q \<noteq> 1" "q \<noteq> 0" using d(4) [OF q(1)] q(3) by auto
  have no_kids: "parent (PT s r) \<noteq> Some q" if "live s r" for r using d(3) [OF that, of q] q(2) q1(1) by auto
  have l: "live s' r \<longleftrightarrow> live s r \<and> r \<noteq> q" for r using s' by (auto simp: live_def)
  have rt: "r \<noteq> q \<longrightarrow> rooted s' r" if "rooted s r" for r using that
  proof induction
    case (rooted_root r)
    then show ?case by (auto simp: l intro: rooted.rooted_root)
  next
    case (rooted_child r u)
    then have "u \<noteq> q" using no_kids by auto
    with rooted_child show ?case by (auto simp: l s' intro: rooted.rooted_child [of s' r u])
  qed
  have pc: "r \<noteq> q \<Longrightarrow> pstate (PT s' r) = pstate (PT s r)" "r \<noteq> q \<Longrightarrow> parent (PT s' r) = parent (PT s r)" for r
    using s' by simp_all
  show ?thesis
    unfolding tree_ok_def l
  proof (intro conjI allI impI, goal_cases)
    case (1 u r)
    then show ?case using d(1) [of r u] d(1) [of r p] q(3) dist(1) by (cases "r = q") (auto simp: pc)
  next
    case (2 u r)
    then show ?case using d(2) [of r u] d(2) [of r p] q(3) dist(2) by (cases "r = q") (auto simp: pc)
  next
    case (3 u r)
    then show ?case using d(3) [of r u] by (auto simp: pc)
  next
    case (4 u r)
    then show ?case using no_kids [of r] by (auto simp: pc)
  next
    case (5 u r)
    then have "u \<noteq> q" using no_kids [of r] by (auto simp: pc)
    with 5 show ?case using d(3) [of r u] by (auto simp: pc)
  next
    case (6 r)
    then show ?case using d(4) [of r] by (auto simp: pc)
  next
    case (12 r)
    then show ?case using d(8) [of r] s' q(2) by (cases "r = q") (auto simp: fun_eq_iff)
  qed (use d(5-7) rt q1 in auto)
qed

lemma zombie_lists:
  assumes l: "proc_lists K X T s" and q: "q \<in> set (K p)" "q \<in> set (X p)"
    and s': "rl s' = rlist_remove (ExitedNode q) (rlist_remove (ChildrenNode q) (rl s))" "ptcbs s' = ptcbs s"
  shows "proc_lists (K(p := remove1 q (K p))) (X(p := remove1 q (X p))) T s'"
    and "keeps_on (\<lambda>n. n \<notin> range ChildrenList \<union> range ChildrenNode \<union> range ExitedList \<union> range ExitedNode) (rl s) (rl s')"
proof -
  note d = proc_listsD [OF l]
  let ?h = "rlist_remove (ChildrenNode q) (rl s)"
  have pm: "p < MAX_PROC" using familyD(2) [OF d(1), of p] q(1) by (cases "K p") auto
  have k1: "keeps_on (\<lambda>n. n \<notin> range ChildrenList \<union> range ChildrenNode) (rl s) ?h"
    by (rule keeps_on_remove_from [OF familyD(1) [OF d(1) pm]]) (use q(1) in auto)
  have fK: "family ChildrenList ChildrenNode ?h (K(p := remove1 q (K p))) {..<MAX_PROC}"
    by (rule kids.family_remove(1) [OF d(1) q(1)])
  have fX: "family ExitedList ExitedNode ?h X {..<MAX_PROC}"
    by (rule family_keeps [OF d(2) keeps_on_sub [OF k1]]) auto
  have k2: "keeps_on (\<lambda>n. n \<notin> range ExitedList \<union> range ExitedNode) ?h (rl s')"
    unfolding s'(1) by (rule keeps_on_remove_from [OF familyD(1) [OF fX pm]]) (use q(2) in auto)
  have "family ExitedList ExitedNode (rl s') (X(p := remove1 q (X p))) {..<MAX_PROC}"
    unfolding s'(1) by (rule dead.family_remove(1) [OF fX q(2)])
  moreover have "family ChildrenList ChildrenNode (rl s') (K(p := remove1 q (K p))) {..<MAX_PROC}"
    by (rule family_keeps [OF fK keeps_on_sub [OF k2]]) auto
  moreover show k: "keeps_on (\<lambda>n. n \<notin> range ChildrenList \<union> range ChildrenNode \<union> range ExitedList \<union> range ExitedNode) (rl s) (rl s')"
    by (rule keeps_on_trans [OF keeps_on_sub [OF k1] keeps_on_sub [OF k2]]) auto
  moreover have "family ThreadList ThreadNode (rl s') T {}"
    by (rule family_keeps [OF d(3) keeps_on_sub [OF k]]) auto
  ultimately show "proc_lists (K(p := remove1 q (K p))) (X(p := remove1 q (X p))) T s'"
    using l unfolding proc_lists_def s' by simp
qed

definition reaped :: "pref \<Rightarrow> kernel \<Rightarrow> kernel" where
  "reaped q s = snd (cleanup_zombie q False s)"

lemma cleanup_zombie_eq:
  "cleanup_zombie q status s = (if status then Some (exitval (PT s q)) else None, reaped q s)"
  by (simp add: reaped_def cleanup_zombie_def Let_def)

lemma cleanup_zombie_ok:
  assumes ok: "cc_ok pc W R s" and fs: "fs_inv pins s fs" and pr: "proc_inv fl K X T s"
    and q: "live s q" "pstate (PT s q) = ZOMBIE" "parent (PT s q) = Some p"
  shows "cc_ok pc W R (reaped q s)" and "fs_inv pins (reaped q s) fs"
    and "proc_inv (q # fl) (K(p := remove1 q (K p))) (X(p := remove1 q (X p))) T (reaped q s)"
    and "PT (reaped q s) = (PT s)(q := (PT s q)\<lparr>pstate := FREE, parent := pcb_freelist s\<rparr>)"
    and "tcbs (reaped q s) = tcbs s" and "cctx (reaped q s) = cctx s" and "kernel_sem (reaped q s) = kernel_sem s"
proof -
  note d = proc_invD [OF pr] and td = tree_okD [OF proc_invD(2) [OF pr]]
  let ?h = "rlist_remove (ExitedNode q) (rlist_remove (ChildrenNode q) (rl s))"
  let ?s = "reaped q s"
  have e: "?s = release_PCB q (s\<lparr>rl := ?h\<rparr>)" by (simp add: reaped_def cleanup_zombie_def Let_def)
  show P: "PT ?s = (PT s)(q := (PT s q)\<lparr>pstate := FREE, parent := pcb_freelist s\<rparr>)"
    and "tcbs ?s = tcbs s" and "cctx ?s = cctx s" and "kernel_sem ?s = kernel_sem s"
    by (simp_all add: e release_PCB_def set_PCB_def)
  have f: "rl ?s = ?h" "ptcbs ?s = ptcbs s" by (simp_all add: e release_PCB_def set_PCB_def)
  have m: "q \<in> set (K p)" "q \<in> set (X p)" using td(1,2) q by simp_all
  note z = zombie_lists [OF d(3) m f]
  show "cc_ok pc W R ?s"
    by (rule cc_ok_frame [OF ok z(2)]) (auto simp: e release_PCB_def set_PCB_def plain_node_def)
  show "fs_inv pins ?s fs"
    by (rule fs_frame [OF fs z(2)]) (auto simp: e release_PCB_def set_PCB_def)
  have "pcb_pool (s\<lparr>rl := ?h\<rparr>) fl" by (rule pcb_pool_live [OF d(1)]) (simp_all add: live_def)
  then have "pcb_pool ?s (q # fl)" unfolding e by (rule release_pool) (use q(1) in \<open>simp add: live_def\<close>)
  moreover have "tree_ok (K(p := remove1 q (K p))) (X(p := remove1 q (X p))) ?s"
    by (rule tree_remove [OF d(2) q P])
      (simp_all add: kids.distinct_list [OF proc_listsD(1) [OF d(3)]] dead.distinct_list [OF proc_listsD(2) [OF d(3)]])
  ultimately show "proc_inv (q # fl) (K(p := remove1 q (K p))) (X(p := remove1 q (X p))) T ?s"
    using z(1) by (simp add: proc_inv_def)
qed

section \<open>WaitChild\<close>

text \<open>The values of a call that waits for one child, and for any child.\<close>

lemma wait_specific_eq:
  assumes cur: "CURPROC c s = Inr cur" and pr: "proc_inv fl K X T s" and n: "cpid \<noteq> NOPROC"
  shows "sys_WaitChild c cpid status s =
    (if 0 \<le> cpid \<and> nat cpid \<in> set (K cur)
     then if pstate (PT s (nat cpid)) = ALIVE then Inr (Block (ChildExit cur), s)
          else Inr (Return (cpid, if status then Some (exitval (PT s (nat cpid))) else None), reaped (nat cpid) s)
     else Inr (Return (NOPROC, None), s))"
proof -
  note td = tree_okD [OF proc_invD(2) [OF pr]]
  have "cpid < int MAX_PROC \<longleftrightarrow> nat cpid < MAX_PROC" if "0 \<le> cpid" using that by linarith
  moreover have "nat cpid \<in> set (K cur) \<longleftrightarrow> nat cpid < MAX_PROC \<and> get_pcb (nat cpid) s = Some (nat cpid) \<and>
      parent (PT s (nat cpid)) = Some cur"
    using td(1) [of "nat cpid" cur] by (auto simp: live_def get_pcb_def)
  ultimately show ?thesis using n cur
    by (auto simp: sys_WaitChild_def wait_for_specific_child_def specific_child_loop_def cleanup_zombie_eq
        get_pcb_def Let_def split: option.split)
qed

lemma any_child_eq:
  assumes pr: "proc_inv fl K X T s" and cur: "cur < MAX_PROC"
  shows "any_child_loop cur status s =
    (case X cur of [] \<Rightarrow> Inr (Block (ChildExit cur), s)
     | q # qs \<Rightarrow> Inr (Return (int q, if status then Some (exitval (PT s q)) else None), reaped q s))"
proof (cases "X cur")
  case Nil
  then have "is_rlist_empty (ExitedList cur) (rl s)"
    using familyD(1) [OF proc_listsD(2) [OF proc_invD(3) [OF pr]] cur] by (simp add: is_rlist_empty_iff)
  with Nil show ?thesis by (simp add: any_child_loop_def)
next
  case (Cons q qs)
  note l = proc_invD(3) [OF pr]
  have r: "isring (rl s) (ExitedList cur) (ExitedNode q # map ExitedNode qs)"
    using familyD(1) [OF proc_listsD(2) [OF l] cur] Cons by simp
  then have ne: "\<not> is_rlist_empty (ExitedList cur) (rl s)" by (simp add: is_rlist_empty_iff)
  have q: "live s q" "pstate (PT s q) = ZOMBIE" using tree_okD(2) [OF proc_invD(2) [OF pr], of q cur] Cons by simp_all
  have "nxt (rl s) (ExitedList cur) = ExitedNode q" using isring_nxt [OF r] by simp
  moreover have "obj (rl s) (ExitedNode q) = OPcb q" using proc_listsD(5) [OF l, of q] q(1) by (simp add: live_def)
  ultimately show ?thesis using ne q Cons
    by (simp add: any_child_loop_def cleanup_zombie_eq get_pid_def Let_def)
qed

lemma wait_any_eq:
  assumes cur: "CURPROC c s = Inr cur" "cur < MAX_PROC" and pr: "proc_inv fl K X T s"
  shows "sys_WaitChild c NOPROC status s =
    (if K cur = [] then Inr (Return (NOPROC, None), s)
     else case X cur of [] \<Rightarrow> Inr (Block (ChildExit cur), s)
     | q # qs \<Rightarrow> Inr (Return (int q, if status then Some (exitval (PT s q)) else None), reaped q s))"
proof -
  have "is_rlist_empty (ChildrenList cur) (rl s) \<longleftrightarrow> K cur = []"
    using is_rlist_empty_iff [OF familyD(1) [OF proc_listsD(1) [OF proc_invD(3) [OF pr]] cur(2)]] by simp
  then show ?thesis using cur(1) any_child_eq [OF pr cur(2)]
    by (simp add: sys_WaitChild_def wait_for_any_child_def)
qed

end
