(* ===== verification/Proc_Exit.thy ===== *)
theory Proc_Exit
  imports Proc_Wait
begin

text \<open>
  The end of a process: its file ids are closed, its children go to the initial process, its
  parent is told, and it is a zombie.
\<close>

section \<open>Closing the file ids\<close>

lemma decref_frame:
  assumes p: "fcb_pool cnt s fl" and c: "cnt f = Some n" and r: "FCB_decref f s = Inr (rc, s')"
  shows "s' = s\<lparr>FT := FT s', rl := rl s'\<rparr>" and "keeps_on (\<lambda>m. m \<noteq> FcbFreelist \<and> m \<notin> range FcbNode) (rl s) (rl s')"
proof -
  let ?s1 = "set_FCB f ((FT s f)\<lparr>refcount := refcount (FT s f) - 1\<rparr>) s"
  have "s' = ?s1 \<or> s' = release_FCB f ?s1"
    using r by (auto simp: FCB_decref_def Let_def split: if_splits option.splits)
  moreover have "keeps_on (\<lambda>m. m \<noteq> FcbFreelist \<and> m \<notin> range FcbNode) (rl s) (rl (release_FCB f ?s1))"
    using keeps_on_push_back [OF fcb_poolD(1) [OF p] fcb_poolD(5) [OF p c]] by (simp add: release_FCB_def set_FCB_def)
  ultimately show "s' = s\<lparr>FT := FT s', rl := rl s'\<rparr>"
    and "keeps_on (\<lambda>m. m \<noteq> FcbFreelist \<and> m \<notin> range FcbNode) (rl s) (rl s')"
    by (auto simp: release_FCB_def set_FCB_def)
qed

lemma close_fids_ok:
  assumes "fs_inv pins s fs"
  shows "\<exists>s' fs'. close_fids p is s = Inr s' \<and> fs_inv pins s' fs' \<and>
    s' = s\<lparr>PT := (PT s)(p := (PT s p)\<lparr>FIDT := (\<lambda>j. if j \<in> set is then None else FIDT (PT s p) j)\<rparr>),
      FT := FT s', rl := rl s'\<rparr> \<and>
    keeps_on (\<lambda>m. m \<noteq> FcbFreelist \<and> m \<notin> range FcbNode) (rl s) (rl s')"
  using assms
proof (induction "is" arbitrary: s fs)
  case Nil
  then show ?case by (intro exI [of _ s] exI [of _ fs]) simp
next
  case (Cons i "is")
  let ?N = "\<lambda>m. m \<noteq> FcbFreelist \<and> m \<notin> range FcbNode"
  have "\<exists>s1 fs1. (\<forall>k :: kernel \<Rightarrow> kernel result. (case FIDT (PT s p) i of None \<Rightarrow> k s
        | Some f \<Rightarrow> rbind (FCB_decref f s) (\<lambda>(rc, s1). k (set_fid p i None s1))) = k s1) \<and> fs_inv pins s1 fs1 \<and>
      s1 = s\<lparr>PT := (PT s)(p := (PT s p)\<lparr>FIDT := (FIDT (PT s p))(i := None)\<rparr>), FT := FT s1, rl := rl s1\<rparr> \<and>
      keeps_on ?N (rl s) (rl s1)"
  proof (cases "FIDT (PT s p) i")
    case None
    then have "(PT s)(p := (PT s p)\<lparr>FIDT := (FIDT (PT s p))(i := None)\<rparr>) = PT s" by (simp add: fun_upd_idem)
    with None Cons.prems show ?thesis by (intro exI [of _ s] exI [of _ fs]) (simp del: fun_upd_apply)
  next
    case (Some f)
    obtain s1 fs1 rc where s1: "FCB_decref f (set_fid p i None s) = Inr (rc, s1)" "fs_inv pins s1 fs1"
      by (rule drop_slot [OF Cons.prems Some])
    obtain s0 where s0: "FCB_decref f s = Inr (rc, s0)" "s1 = set_fid p i None s0"
      using s1(1) unfolding decref_set_fid by (cases "FCB_decref f s") auto
    have n: "cnt_of (nrefs s f + pins f) = Some (nrefs s f + pins f)"
      using slot_counted [OF Cons.prems Some] by (simp add: cnt_of_def)
    note fr = decref_frame [OF fs_cntD(1) [OF fs_invD(1) [OF Cons.prems]] n s0(1)]
    have "PT s0 = PT s" using arg_cong [OF fr(1), of PT] by simp
    then have "s1 = s\<lparr>PT := (PT s)(p := (PT s p)\<lparr>FIDT := (FIDT (PT s p))(i := None)\<rparr>), FT := FT s1, rl := rl s1\<rparr>"
      unfolding s0(2) by (subst fr(1)) (simp add: set_fid_def set_PCB_def)
    moreover have "rl s1 = rl s0" by (simp add: s0(2))
    ultimately show ?thesis using Some s0 s1(2) fr(2) by (intro exI [of _ s1] exI [of _ fs1]) simp
  qed
  then obtain s1 fs1 where s1: "\<And>k :: kernel \<Rightarrow> kernel result. (case FIDT (PT s p) i of None \<Rightarrow> k s
        | Some f \<Rightarrow> rbind (FCB_decref f s) (\<lambda>(rc, s1). k (set_fid p i None s1))) = k s1" and fs1: "fs_inv pins s1 fs1"
    and e1: "s1 = s\<lparr>PT := (PT s)(p := (PT s p)\<lparr>FIDT := (FIDT (PT s p))(i := None)\<rparr>), FT := FT s1, rl := rl s1\<rparr>"
    and k1: "keeps_on ?N (rl s) (rl s1)" by blast
  obtain s' fs' where s': "close_fids p is s1 = Inr s'" "fs_inv pins s' fs'" and k': "keeps_on ?N (rl s1) (rl s')"
    and e': "s' = s1\<lparr>PT := (PT s1)(p := (PT s1 p)\<lparr>FIDT := (\<lambda>j. if j \<in> set is then None else FIDT (PT s1 p) j)\<rparr>),
      FT := FT s', rl := rl s'\<rparr>" using Cons.IH [OF fs1] by blast
  have P: "PT s1 = (PT s)(p := (PT s p)\<lparr>FIDT := (FIDT (PT s p))(i := None)\<rparr>)" by (subst e1) simp
  have "(\<lambda>j. if j \<in> set is then None else ((FIDT (PT s p))(i := None)) j) =
      (\<lambda>j. if j \<in> set (i # is) then None else FIDT (PT s p) j)" by (auto simp: fun_eq_iff)
  note F = this
  define a b a' b' where ab: "a = FT s1" "b = rl s1" "a' = FT s'" "b' = rl s'"
  note e1 = e1 [folded ab] and e' = e' [folded ab]
  have "(PT s1)(p := (PT s1 p)\<lparr>FIDT := (\<lambda>j. if j \<in> set is then None else FIDT (PT s1 p) j)\<rparr>) =
      (PT s)(p := (PT s p)\<lparr>FIDT := (\<lambda>j. if j \<in> set (i # is) then None else FIDT (PT s p) j)\<rparr>)"
    unfolding P fun_upd_same F [symmetric] by (simp cong: if_cong)
  then have "s' = s\<lparr>PT := (PT s)(p := (PT s p)\<lparr>FIDT := (\<lambda>j. if j \<in> set (i # is) then None else FIDT (PT s p) j)\<rparr>),
      FT := FT s', rl := rl s'\<rparr>"
    unfolding ab(3,4) [symmetric] by (subst e', subst (2) e1) (simp del: set_simps)
  moreover have "close_fids p (i # is) s = Inr s'" using s1 [of "close_fids p is"] s'(1) by simp
  moreover note s'(2) keeps_on_trans [OF k1 k']
  ultimately show ?case by blast
qed

section \<open>Reparenting\<close>

text \<open>The children of \<open>p\<close> move to the front of the list of process 1, the last of them first.\<close>

lemma reparent_loop_ok:
  assumes "proc_lists K X T s" and "p \<noteq> 1" and "p < MAX_PROC" and "\<forall>q \<in> set (K p). q < MAX_PROC"
  shows "\<exists>s'. reparent_loop p (Some 1) s = Some (Inr s') \<and>
    proc_lists (K(1 := rev (K p) @ K 1, p := [])) X T s' \<and>
    s' = s\<lparr>PT := (\<lambda>q. if q \<in> set (K p) then (PT s q)\<lparr>parent := Some 1\<rparr> else PT s q), rl := rl s'\<rparr> \<and>
    keeps_on (\<lambda>n. n \<notin> range ChildrenList \<union> range ChildrenNode) (rl s) (rl s')"
  using assms(1,4)
proof (induction "K p" arbitrary: K s)
  case Nil
  have "is_rlist_empty (ChildrenList p) (rl s)"
    using familyD(1) [OF proc_listsD(1) [OF Nil.prems(1)] assms(3)] Nil.hyps by (simp add: is_rlist_empty_iff)
  then have "reparent_loop p (Some 1) s = Some (Inr s)" by (simp add: reparent_loop.simps)
  moreover have "K(1 := rev (K p) @ K 1, p := []) = K" using Nil.hyps by (auto simp: fun_eq_iff)
  ultimately show ?case using Nil.prems(1) Nil.hyps [symmetric] by (intro exI [of _ s]) simp
next
  case (Cons q qs)
  note d = proc_listsD [OF Cons.prems(1)] and Kp = Cons.hyps(2) [symmetric]
  have m1: "(1::nat) < MAX_PROC" by (simp add: MAX_PROC_def)
  let ?h = "snd (rlist_pop_front (ChildrenList p) (rl s))"
  note pop = kids.family_pop [OF d(1) Kp]
  have nq: "q \<notin> set ((K(p := qs)) r)" for r
    using kids.one_list [OF d(1), of q r p] kids.distinct_list [OF d(1), of p] Kp by (cases "r = p") auto
  note push = kids.family_push_front [OF pop(2) m1 pop(3) nq]
  define s1 where "s1 = s\<lparr>PT := (PT s)(q := (PT s q)\<lparr>parent := Some 1\<rparr>),
    rl := rlist_push_front (ChildrenList 1) (ChildrenNode q) ?h\<rparr>"
  have rl1: "rl s1 = rlist_push_front (ChildrenList 1) (ChildrenNode q) ?h" by (simp add: s1_def set_PCB_def)
  let ?K = "(K(p := qs))(1 := q # (K(p := qs)) 1)"
  have k1: "keeps_on (\<lambda>n. n \<notin> range ChildrenList \<union> range ChildrenNode) (rl s) ?h"
    by (rule keeps_on_pop [OF familyD(1) [OF d(1) assms(3)]]) simp
  have k2: "keeps_on (\<lambda>n. n \<notin> range ChildrenList \<union> range ChildrenNode) ?h (rl s1)"
    unfolding rl1 by (rule keeps_on_push_front [OF familyD(1) [OF pop(2) m1] pop(3)]) simp_all
  note k = keeps_on_trans [OF k1 k2]
  have l1: "proc_lists ?K X T s1"
    by (rule proc_lists_kids [OF Cons.prems(1) push [folded rl1] k]) (simp add: rl1, simp add: s1_def set_PCB_def)
  have Kp1: "?K p = qs" using assms(2) by simp
  have lt: "\<forall>r \<in> set (?K p). r < MAX_PROC" using Cons.prems(2) Kp Kp1 by simp
  obtain s' where s': "reparent_loop p (Some 1) s1 = Some (Inr s')"
    "proc_lists (?K(1 := rev (?K p) @ ?K 1, p := [])) X T s'"
    "s' = s1\<lparr>PT := (\<lambda>r. if r \<in> set (?K p) then (PT s1 r)\<lparr>parent := Some 1\<rparr> else PT s1 r), rl := rl s'\<rparr>"
    "keeps_on (\<lambda>n. n \<notin> range ChildrenList \<union> range ChildrenNode) (rl s1) (rl s')"
    using Cons.hyps(1) [OF Kp1 [symmetric] l1 lt] by blast
  have ne: "\<not> is_rlist_empty (ChildrenList p) (rl s)"
    using is_rlist_empty_iff [OF familyD(1) [OF d(1) assms(3)]] Kp by simp
  obtain n h where nh: "rlist_pop_front (ChildrenList p) (rl s) = (n, h)" by fastforce
  have qm: "q < MAX_PROC" using Cons.prems(2) Kp by simp
  have "obj h n = OPcb q" using nh pop(1) d(4) [OF qm] obj_ops(3) [of "ChildrenList p" "rl s"] by simp
  then have "reparent_loop p (Some 1) s = reparent_loop p (Some 1) s1"
    using ne nh pop(1) by (subst reparent_loop.simps) (simp add: s1_def Let_def set_PCB_def)
  moreover have "?K(1 := rev (?K p) @ ?K 1, p := []) = K(1 := rev (K p) @ K 1, p := [])"
    using Kp assms(2) by (auto simp: fun_eq_iff)
  moreover have "s' = s\<lparr>PT := (\<lambda>r. if r \<in> set (K p) then (PT s r)\<lparr>parent := Some 1\<rparr> else PT s r), rl := rl s'\<rparr>"
    by (subst s'(3)) (intro kernel.equality; simp add: s1_def set_PCB_def Kp Kp1 assms(2) fun_eq_iff)
  moreover note s'(1,2) keeps_on_trans [OF k s'(4)]
  ultimately show ?case by (intro exI [of _ s']) simp
qed

section \<open>The tree after the end of a process\<close>

text \<open>The children and the exited children of the processes when \<open>p\<close> has ended.\<close>

definition exit_kids :: "pref \<Rightarrow> (pref \<Rightarrow> pref list) \<Rightarrow> pref \<Rightarrow> pref list" where
  "exit_kids p K = (if p = 1 then K else K(1 := rev (K p) @ K 1, p := []))"

definition adopted_dead :: "pref \<Rightarrow> (pref \<Rightarrow> pref list) \<Rightarrow> pref \<Rightarrow> pref list" where
  "adopted_dead p X = (if p = 1 then X else X(1 := X 1 @ X p, p := []))"

definition exit_dead :: "pref \<Rightarrow> pref option \<Rightarrow> (pref \<Rightarrow> pref list) \<Rightarrow> pref \<Rightarrow> pref list" where
  "exit_dead p r X = (case r of None \<Rightarrow> adopted_dead p X
     | Some q \<Rightarrow> (adopted_dead p X)(q := p # adopted_dead p X q))"

text \<open>What becomes of the PCB of a process \<open>q\<close>.\<close>

definition exit_pcb :: "pref \<Rightarrow> int \<Rightarrow> (pref \<Rightarrow> pref list) \<Rightarrow> kernel \<Rightarrow> pref \<Rightarrow> PCB" where
  "exit_pcb p v K s q =
     (if q = p then (PT s p)\<lparr>exitval := v, args := None, FIDT := (\<lambda>_. None), pstate := ZOMBIE\<rparr>
      else if q \<in> set (K p) then (PT s q)\<lparr>parent := Some 1\<rparr> else PT s q)"

lemma tree_exit:
  assumes t: "tree_ok K X s" and p: "live s p" "pstate (PT s p) = ALIVE" and p1: "p = 1 \<Longrightarrow> K p = []"
    and s': "PT s' = exit_pcb p v K s"
  shows "tree_ok (exit_kids p K) (exit_dead p (parent (PT s p)) X) s'"
proof -
  note d = tree_okD [OF t]
  have pK: "p \<notin> set (K p)"
  proof
    assume "p \<in> set (K p)"
    then have pp: "parent (PT s p) = Some p" using d(1) by simp
    have "rooted s r \<Longrightarrow> r \<noteq> p" for r
    proof (induction rule: rooted.induct)
      case (rooted_root r)
      then show ?case using d(4) [of r] pp by auto
    next
      case (rooted_child r u)
      then show ?case using pp by auto
    qed
    with d(7) [OF p(1)] show False by blast
  qed
  have l: "live s' q \<longleftrightarrow> live s q" for q using p by (auto simp: live_def s' exit_pcb_def)
  have ps: "pstate (PT s' q) = (if q = p then ZOMBIE else pstate (PT s q))"
    and pa: "parent (PT s' q) = (if q \<in> set (K p) then Some 1 else parent (PT s q))"
    and fi: "FIDT (PT s' q) = (if q = p then (\<lambda>_. None) else FIDT (PT s q))" for q
    using pK by (auto simp: s' exit_pcb_def)
  have Kp: "q \<in> set (K p) \<longleftrightarrow> live s q \<and> parent (PT s q) = Some p" for q by (rule d(1))
  have one: "rooted s' 1" by (rule rooted.rooted_root) (use d(6) l in simp_all)
  have rt: "rooted s' q" if "rooted s q" for q using that
  proof induction
    case (rooted_root q)
    then show ?case by (intro rooted.rooted_root) (simp_all add: l)
  next
    case (rooted_child q r)
    show ?case
    proof (cases "q \<in> set (K p)")
      case True
      with one rooted_child show ?thesis by (intro rooted.rooted_child [of s' q 1]) (simp_all add: l pa)
    next
      case False
      with rooted_child show ?thesis by (intro rooted.rooted_child [of s' q r]) (simp_all add: l pa)
    qed
  qed
  have Xp: "q \<in> set (X p) \<Longrightarrow> q \<in> set (K p)" for q using d(2) Kp by simp
  show ?thesis
    unfolding tree_ok_def l
  proof (intro conjI allI impI, goal_cases)
    case (1 r q)
    then show ?case using d(1) [of q r] d(1) [of q 1] Kp [of q] p1 by (auto simp: exit_kids_def pa split: if_splits)
  next
    case (2 r q)
    have np: "p \<notin> set (X r)" for r using d(2) [of p r] p(2) by simp
    have a: "q \<in> set (adopted_dead p X r) \<longleftrightarrow> live s q \<and> q \<noteq> p \<and> pstate (PT s q) = ZOMBIE \<and> parent (PT s' q) = Some r"
      using d(2) [of q r] d(2) [of q 1] d(2) [of q p] Kp [of q] p1 p(2)
      by (auto simp: adopted_dead_def pa split: if_splits)
    show ?case
    proof (cases "q = p")
      case True
      have "p \<notin> set (adopted_dead p X r)" using a True by blast
      then show ?thesis using True p(1) pK by (auto simp: exit_dead_def ps pa split: option.split)
    next
      case False
      with a show ?thesis by (auto simp: exit_dead_def ps split: option.split)
    qed
  next
    case (3 r q)
    then show ?case using d(3) [of q r] d(6) by (auto simp: pa split: if_splits)
  next
    case (4 r q)
    have "r = p \<longrightarrow> q \<in> set (K p) \<or> p = 1" using 4 Kp [of q] by (auto simp: pa split: if_splits)
    then show ?case using 4 d(3) [of q r] p1 by (auto simp: pa ps split: if_splits)
  next
    case (5 q)
    then show ?case using d(4) [of q] Kp [of q] by (auto simp: pa)
  next
    case (8 q)
    then show ?case using rt d(7) by blast
  next
    case (9 q)
    then show ?case using d(8) [of q] by (auto simp: ps fi fun_eq_iff split: if_splits)
  qed (use d(5,6) in simp_all)
qed

section \<open>The end of a process\<close>

text \<open>What holds between the steps, when the lists and the parent pointers may differ.\<close>

definition mid_ok ::
  "(nat \<Rightarrow> cpc) \<Rightarrow> (tref \<Rightarrow> cvref option) \<Rightarrow> (cvref \<Rightarrow> tref list) \<Rightarrow> (fref \<Rightarrow> nat) \<Rightarrow> fref list \<Rightarrow>
    (pref \<Rightarrow> pref list) \<Rightarrow> (pref \<Rightarrow> pref list) \<Rightarrow> (pref \<Rightarrow> ptref list) \<Rightarrow> kernel \<Rightarrow> bool" where
  "mid_ok pc W R pins fs K X T s \<longleftrightarrow> cc_ok pc W R s \<and> fs_inv pins s fs \<and> proc_lists K X T s"

text \<open>Steps that at most wake sleeping threads.\<close>

definition wakes_only :: "kernel \<Rightarrow> kernel \<Rightarrow> bool" where
  "wakes_only s s' \<longleftrightarrow> kernel_sem s' = kernel_sem s \<and> ncores s' = ncores s \<and>
     pcb_freelist s' = pcb_freelist s \<and> process_count s' = process_count s \<and>
     (\<forall>d. CURTHREAD d s' = CURTHREAD d s) \<and> (\<forall>w. asleep s' w \<longrightarrow> asleep s w) \<and>
     (\<forall>w. \<not> asleep s w \<longrightarrow> tcbs s' w = tcbs s w) \<and> (\<forall>w. waiters s' w = None \<longleftrightarrow> waiters s w = None) \<and>
     threads_kept s s' \<and> same_devs s s'"

lemma wakes_only_trans: "wakes_only s s' \<Longrightarrow> wakes_only s' s'' \<Longrightarrow> wakes_only s s''"
  unfolding wakes_only_def using threads_kept_trans same_devs_trans by (metis (no_types, lifting))

lemma wakes_onlyI:
  assumes "tcbs s' = tcbs s" and "cctx s' = cctx s" and "waiters s' = waiters s" and "kernel_sem s' = kernel_sem s"
    and "ncores s' = ncores s" and "pcb_freelist s' = pcb_freelist s" and "process_count s' = process_count s"
    and "devtable s' = devtable s" and "nterm s' = nterm s"
  shows "wakes_only s s'"
  using assms by (simp add: wakes_only_def asleep_def CURTHREAD_def threads_kept_refl same_devs_def)

lemma broadcast_mid:
  assumes m: "mid_ok pc W R pins fs K X T s"
  obtains s' where "kernel_broadcast c cv s = Inr s'" and "mid_ok pc W (R(cv := [])) pins fs K X T s'"
    and "wakes_only s s'" and "PT s' = PT s" and "ptcbs s' = ptcbs s" and "\<forall>w. W w = Some cv \<longrightarrow> \<not> asleep s' w"
proof -
  note d = m [unfolded mid_ok_def]
  obtain s' where s': "Cond_Broadcast c cv s = Inr s'" "cc_ok pc W (R(cv := [])) s'" "cv_frame s s'"
    "tcbs s' = all_woken (R cv) s" "threads_kept s s'" "signals_to s s' (\<lambda>t. t \<in> set (R cv) \<and> asleep s t)"
    "\<forall>w. asleep s' w \<longleftrightarrow> asleep s w \<and> w \<notin> set (R cv)" "\<forall>w. \<not> asleep s w \<longrightarrow> tcbs s' w = tcbs s w"
    by (rule broadcast_ok [OF conjunct1 [OF d]])
  note cv = cc_okD(2) [OF conjunct1 [OF d]]
  have "\<not> asleep s' w" if w: "W w = Some cv" for w
  proof
    assume a: "asleep s' w"
    then have sw: "asleep s w" "w \<notin> set (R cv)" using s'(7) by blast+
    have "waiters s w \<noteq> None" using cv_invD(3) [OF cv, of w] w by simp
    with cc_okD(3) [OF conjunct1 [OF d]] obtain cv' where cv': "w \<in> set (R cv')" using sw(1) by (rule sleepers_listedD)
    then obtain z where "W w = Some cv'" by (rule cv_inv_member [OF cv])
    with w cv' sw(2) show False by simp
  qed
  moreover have "keeps_on proc_node (rl s) (rl s')"
    using s'(3) by (auto simp: cv_frame_def intro: keeps_on_sub proc_node_plain)
  then have "proc_lists K X T s'"
    by (rule proc_lists_keeps [OF conjunct2 [OF conjunct2 [OF d]]]) (use s'(3) in \<open>simp add: cv_frame_def\<close>)
  then have "mid_ok pc W (R(cv := [])) pins fs K X T s'"
    using s'(2) cv_frame_fs [OF conjunct1 [OF conjunct2 [OF d]] s'(3)] by (simp add: mid_ok_def)
  moreover have "wakes_only s s'"
    using s'(3,5,7,8) signals_waiters [OF s'(6)] by (simp add: wakes_only_def cv_frame_def CURTHREAD_def same_devs_def)
  ultimately show ?thesis using that [of s'] s'(1,3) by (simp add: kernel_broadcast_def cv_frame_def)
qed

lemma cleared_args_mid:
  assumes m: "mid_ok pc W R pins fs K X T s"
    and s': "s' = s\<lparr>PT := (PT s)(p := (PT s p)\<lparr>exitval := v, args := None\<rparr>), mem := M\<rparr>"
  shows "mid_ok pc W R pins fs K X T s'" and "wakes_only s s'"
proof -
  note d = m [unfolded mid_ok_def]
  have "cc_ok pc W R s'" by (rule cc_ok_frame [OF conjunct1 [OF d], where N = "\<lambda>_. True"]) (simp_all add: s')
  moreover have "fs_inv pins s' fs"
    by (rule fs_frame [OF conjunct1 [OF conjunct2 [OF d]], where N = "\<lambda>_. True"]) (simp_all add: s')
  moreover have "proc_lists K X T s'"
    by (rule proc_lists_keeps [OF conjunct2 [OF conjunct2 [OF d]]]) (simp_all add: s')
  ultimately show "mid_ok pc W R pins fs K X T s'" by (simp add: mid_ok_def)
  show "wakes_only s s'" by (rule wakes_onlyI) (simp_all add: s')
qed

lemma close_mid:
  assumes m: "mid_ok pc W R pins fs K X T s"
  obtains s' fs' where "close_fids p [0..<MAX_FILEID] s = Inr s'" and "mid_ok pc W R pins fs' K X T s'"
    and "wakes_only s s'" and "PT s' = (PT s)(p := (PT s p)\<lparr>FIDT := (\<lambda>_. None)\<rparr>)" and "ptcbs s' = ptcbs s"
proof -
  note d = m [unfolded mid_ok_def]
  note fs = conjunct1 [OF conjunct2 [OF d]]
  obtain s' fs' where s': "close_fids p [0..<MAX_FILEID] s = Inr s'" "fs_inv pins s' fs'"
    and e: "s' = s\<lparr>PT := (PT s)(p := (PT s p)\<lparr>FIDT := (\<lambda>j. if j \<in> set [0..<MAX_FILEID] then None else FIDT (PT s p) j)\<rparr>),
      FT := FT s', rl := rl s'\<rparr>"
    and k: "keeps_on (\<lambda>m. m \<noteq> FcbFreelist \<and> m \<notin> range FcbNode) (rl s) (rl s')"
    using close_fids_ok [OF fs, of p "[0..<MAX_FILEID]"] by blast
  have "FIDT (PT s p) j = None" if "\<not> j < MAX_FILEID" for j
    using fs_cntD(3) [OF fs_invD(1) [OF fs], of p j] that by (cases "FIDT (PT s p) j") auto
  then have fe: "(\<lambda>j. if j \<in> set [0..<MAX_FILEID] then None else FIDT (PT s p) j) = (\<lambda>_. None)"
    by (auto simp: fun_eq_iff)
  define a b where ab: "a = FT s'" "b = rl s'"
  note e = e [unfolded fe, folded ab]
  have f: "tcbs s' = tcbs s" "ncores s' = ncores s" "cctx s' = cctx s" "cores s' = cores s"
    "active_threads s' = active_threads s" "condvars s' = condvars s" "waiters s' = waiters s"
    "ptcbs s' = ptcbs s" "kernel_sem s' = kernel_sem s" "pcb_freelist s' = pcb_freelist s"
    "process_count s' = process_count s" "PT s' = (PT s)(p := (PT s p)\<lparr>FIDT := (\<lambda>_. None)\<rparr>)"
    "devtable s' = devtable s" "nterm s' = nterm s"
    by (simp_all add: e)
  have "cc_ok pc W R s'" by (rule cc_ok_frame [OF conjunct1 [OF d] k]) (use f in \<open>auto simp: plain_node_def\<close>)
  moreover have "proc_lists K X T s'"
    by (rule proc_lists_keeps [OF conjunct2 [OF conjunct2 [OF d]] keeps_on_sub [OF k]]) (use f in auto)
  ultimately have "mid_ok pc W R pins fs' K X T s'" using s'(2) by (simp add: mid_ok_def)
  moreover have "wakes_only s s'" by (rule wakes_onlyI) (simp_all add: f)
  ultimately show ?thesis using that s'(1) f by blast
qed

lemma mid_lists:
  assumes m: "mid_ok pc W R pins fs K X T s" and k: "keeps_on N (rl s) (rl s')"
    and N: "\<And>n. \<not> proc_node n \<Longrightarrow> N n" and l: "proc_lists K' X' T' s'"
    and s': "s' = s\<lparr>PT := P, rl := rl s', ptcbs := Q\<rparr>" and fid: "\<And>q. FIDT (P q) = FIDT (PT s q)"
  shows "mid_ok pc W R pins fs K' X' T' s'" and "wakes_only s s'"
proof -
  define h where "h = rl s'"
  note s' = s' [folded h_def]
  note d = m [unfolded mid_ok_def]
  have "N n" if "\<not> plain_node n" for n using that N proc_node_plain by blast
  from cc_ok_frame [OF conjunct1 [OF d] k this] have "cc_ok pc W R s'" by (simp add: s')
  moreover have "fs_inv pins s' fs"
    by (rule fs_frame [OF conjunct1 [OF conjunct2 [OF d]] k]) (use N fid in \<open>simp_all add: s'\<close>)
  ultimately show "mid_ok pc W R pins fs K' X' T' s'" using l by (simp add: mid_ok_def)
  show "wakes_only s s'" by (rule wakes_onlyI) (simp_all add: s')
qed

lemma reparent_mid:
  assumes m: "mid_ok pc W R pins fs K X T s" and p: "p < MAX_PROC" and K: "\<forall>q \<in> set (K p). q < MAX_PROC"
    and p1: "p = 1 \<Longrightarrow> K p = []"
  obtains s' where "of_loop (reparent_loop p (Some 1) s) = Inr s'"
    and "mid_ok pc W R pins fs (exit_kids p K) X T s'" and "wakes_only s s'" and "ptcbs s' = ptcbs s"
    and "PT s' = (\<lambda>q. if q \<in> set (K p) then (PT s q)\<lparr>parent := Some 1\<rparr> else PT s q)"
proof (cases "p = 1")
  case True
  note d = m [unfolded mid_ok_def]
  have "is_rlist_empty (ChildrenList p) (rl s)"
    using is_rlist_empty_iff [OF familyD(1) [OF proc_listsD(1) [OF conjunct2 [OF conjunct2 [OF d]]] p]] p1 [OF True] by simp
  then have "reparent_loop p (Some 1) s = Some (Inr s)" by (simp add: reparent_loop.simps)
  with True m p1 show ?thesis
    by (intro that [of s]) (simp_all add: of_loop_def exit_kids_def wakes_onlyI)
next
  case False
  note d = m [unfolded mid_ok_def]
  obtain s' where s': "reparent_loop p (Some 1) s = Some (Inr s')"
    "proc_lists (K(1 := rev (K p) @ K 1, p := [])) X T s'"
    and e: "s' = s\<lparr>PT := (\<lambda>q. if q \<in> set (K p) then (PT s q)\<lparr>parent := Some 1\<rparr> else PT s q), rl := rl s'\<rparr>"
    and k: "keeps_on (\<lambda>n. n \<notin> range ChildrenList \<union> range ChildrenNode) (rl s) (rl s')"
    using reparent_loop_ok [OF conjunct2 [OF conjunct2 [OF d]] False p K] by blast
  let ?P = "\<lambda>q. if q \<in> set (K p) then (PT s q)\<lparr>parent := Some 1\<rparr> else PT s q"
  have l: "proc_lists (exit_kids p K) X T s'" using s'(2) False by (simp add: exit_kids_def)
  have P: "PT s' = ?P" "ptcbs s' = ptcbs s" by (subst e, simp)+
  define h where "h = rl s'"
  have e': "s' = s\<lparr>PT := ?P, rl := rl s', ptcbs := ptcbs s\<rparr>"
    unfolding h_def [symmetric] by (subst e [folded h_def]) simp
  have "mid_ok pc W R pins fs (exit_kids p K) X T s'" "wakes_only s s'"
    by (rule mid_lists [OF m k _ l e']; auto)+
  with that [of s'] s'(1) P show ?thesis by (simp add: of_loop_def)
qed

lemma adopt_mid:
  assumes m: "mid_ok pc W R pins fs K X T s" and p: "p < MAX_PROC" and p1: "p = 1 \<Longrightarrow> X p = []"
  obtains s' R' where "adopt_exited c p (Some 1) s = Inr s'" and "mid_ok pc W R' pins fs K (adopted_dead p X) T s'"
    and "wakes_only s s'" and "ptcbs s' = ptcbs s" and "PT s' = PT s"
    and "X p \<noteq> [] \<Longrightarrow> \<forall>w. W w = Some (ChildExit 1) \<longrightarrow> \<not> asleep s' w"
proof (cases "X p = []")
  case True
  note d = m [unfolded mid_ok_def]
  have "is_rlist_empty (ExitedList p) (rl s)"
    using is_rlist_empty_iff [OF familyD(1) [OF proc_listsD(2) [OF conjunct2 [OF conjunct2 [OF d]]] p]] True by simp
  then have "adopt_exited c p (Some 1) s = Inr s" by (simp add: adopt_exited_def)
  moreover have "adopted_dead p X = X" using True by (auto simp: adopted_dead_def fun_eq_iff)
  ultimately show ?thesis using m True by (intro that [of s R]) (simp_all add: wakes_onlyI)
next
  case False
  note d = m [unfolded mid_ok_def] and l = conjunct2 [OF conjunct2 [OF m [unfolded mid_ok_def]]]
  have np: "p \<noteq> 1" using False p1 by blast
  have m1: "(1::nat) < MAX_PROC" by (simp add: MAX_PROC_def)
  have ne: "\<not> is_rlist_empty (ExitedList p) (rl s)"
    using is_rlist_empty_iff [OF familyD(1) [OF proc_listsD(2) [OF l] p]] False by simp
  let ?h = "rlist_append (ExitedList 1) (ExitedList p) (rl s)"
  let ?s = "s\<lparr>rl := ?h\<rparr>"
  note f = dead.family_append [OF proc_listsD(2) [OF l] m1 p np [symmetric]]
  have nl: "ExitedList p \<notin> set (ExitedList 1 # map ExitedNode (X 1))" using np by auto
  have k: "keeps_on (\<lambda>n. n \<notin> range ExitedList \<union> range ExitedNode) (rl s) (rl ?s)"
    using keeps_on_append [OF familyD(1) [OF proc_listsD(2) [OF l] m1] familyD(1) [OF proc_listsD(2) [OF l] p] nl,
        of "\<lambda>n. n \<notin> range ExitedList \<union> range ExitedNode"] by simp
  have l': "proc_lists K (adopted_dead p X) T ?s"
    by (rule proc_lists_dead [OF l _ k]) (use f np in \<open>simp_all add: adopted_dead_def\<close>)
  have e: "?s = s\<lparr>PT := PT s, rl := rl ?s, ptcbs := ptcbs s\<rparr>" by simp
  have m': "mid_ok pc W R pins fs K (adopted_dead p X) T ?s" "wakes_only s ?s"
    by (rule mid_lists [OF m k _ l' e]; auto)+
  obtain s' where s': "kernel_broadcast c (ChildExit 1) ?s = Inr s'"
    "mid_ok pc W (R(ChildExit 1 := [])) pins fs K (adopted_dead p X) T s'" "wakes_only ?s s'"
    "PT s' = PT ?s" "ptcbs s' = ptcbs ?s" "\<forall>w. W w = Some (ChildExit 1) \<longrightarrow> \<not> asleep s' w"
    by (rule broadcast_mid [OF m'(1)])
  show ?thesis
    by (rule that [OF _ s'(2) wakes_only_trans [OF m'(2) s'(3)]]) (use ne s' in \<open>simp_all add: adopt_exited_def\<close>)
qed

lemma tell_mid:
  assumes m: "mid_ok pc W R pins fs K X T s" and p: "p < MAX_PROC" "\<And>q. p \<notin> set (X q)"
    and q: "\<And>q. parent (PT s p) = Some q \<Longrightarrow> q < MAX_PROC"
  obtains s' R' where "tell_parent c p s = Inr s'"
    and "mid_ok pc W R' pins fs K (case parent (PT s p) of None \<Rightarrow> X | Some q \<Rightarrow> X(q := p # X q)) T s'"
    and "wakes_only s s'" and "ptcbs s' = ptcbs s" and "PT s' = PT s"
    and "\<forall>q w. parent (PT s p) = Some q \<longrightarrow> W w = Some (ChildExit q) \<longrightarrow> \<not> asleep s' w"
proof (cases "parent (PT s p)")
  case None
  with m show ?thesis by (intro that [of s R]) (simp_all add: tell_parent_def wakes_onlyI)
next
  case (Some q)
  note l = conjunct2 [OF conjunct2 [OF m [unfolded mid_ok_def]]]
  note f0 = proc_listsD(2) [OF l]
  let ?s = "s\<lparr>rl := rlist_push_front (ExitedList q) (ExitedNode p) (rl s)\<rparr>"
  have al: "isring (rl s) (ExitedNode p) []" by (rule familyD(3) [OF f0]) (use p in auto)
  note f = dead.family_push_front [OF f0 q [OF Some] al p(2)]
  have k: "keeps_on (\<lambda>n. n \<notin> range ExitedList \<union> range ExitedNode) (rl s) (rl ?s)"
    using keeps_on_push_front [OF familyD(1) [OF f0 q [OF Some]] al,
        of "\<lambda>n. n \<notin> range ExitedList \<union> range ExitedNode"] by simp
  have l': "proc_lists K (X(q := p # X q)) T ?s"
    by (rule proc_lists_dead [OF l _ k]) (use f in simp_all)
  have e: "?s = s\<lparr>PT := PT s, rl := rl ?s, ptcbs := ptcbs s\<rparr>" by simp
  have m': "mid_ok pc W R pins fs K (X(q := p # X q)) T ?s" "wakes_only s ?s"
    by (rule mid_lists [OF m k _ l' e]; auto)+
  obtain s' where s': "kernel_broadcast c (ChildExit q) ?s = Inr s'"
    "mid_ok pc W (R(ChildExit q := [])) pins fs K (X(q := p # X q)) T s'" "wakes_only ?s s'"
    "PT s' = PT ?s" "ptcbs s' = ptcbs ?s" "\<forall>w. W w = Some (ChildExit q) \<longrightarrow> \<not> asleep s' w"
    by (rule broadcast_mid [OF m'(1)])
  show ?thesis
    by (rule that [OF _ _ wakes_only_trans [OF m'(2) s'(3)]]) (use Some s' in \<open>simp_all add: tell_parent_def\<close>)
qed

lemma exit_process_ok:
  assumes ok: "cc_ok pc W R s" and fs: "fs_inv pins s fs" and pr: "proc_inv fl K X T s"
    and p: "live s p" "pstate (PT s p) = ALIVE" and p1: "p = 1 \<Longrightarrow> K p = []"
  obtains s' R' fs' where "exit_process c p v s = Inr s'" and "cc_ok pc W R' s'" and "fs_inv pins s' fs'"
    and "proc_inv fl (exit_kids p K) (exit_dead p (parent (PT s p)) X) T s'" and "wakes_only s s'"
    and "PT s' = exit_pcb p v K s" and "ptcbs s' = ptcbs s"
    and "\<forall>q w. parent (PT s p) = Some q \<longrightarrow> W w = Some (ChildExit q) \<longrightarrow> \<not> asleep s' w"
proof -
  note d = proc_invD [OF pr] and td = tree_okD [OF proc_invD(2) [OF pr]]
  have m0: "mid_ok pc W R pins fs K X T s" using ok fs d(3) by (simp add: mid_ok_def)
  have pm: "p < MAX_PROC" using p(1) by (simp add: live_def)
  have te: "tree_ok (exit_kids p K) (exit_dead p (parent (PT s p)) X) s'" if "PT s' = exit_pcb p v K s" for s'
    by (rule tree_exit [OF d(2) p p1 that])
  define M where "M = (case args (PT s p) of None \<Rightarrow> mem s | Some a \<Rightarrow> (mem s)(a := None))"
  define s2 where "s2 = s\<lparr>PT := (PT s)(p := (PT s p)\<lparr>exitval := v, args := None\<rparr>), mem := M\<rparr>"
  note m2 = cleared_args_mid [OF m0 s2_def]
  obtain s3 fs' where s3: "close_fids p [0..<MAX_FILEID] s2 = Inr s3" "mid_ok pc W R pins fs' K X T s3"
    "wakes_only s2 s3" "PT s3 = (PT s2)(p := (PT s2 p)\<lparr>FIDT := (\<lambda>_. None)\<rparr>)" "ptcbs s3 = ptcbs s2"
    by (rule close_mid [OF m2(1)])
  have init: "get_pcb 1 s3 = Some 1" using td(6) by (auto simp: get_pcb_def live_def s3(4) s2_def)
  have lt: "\<forall>q \<in> set (K p). q < MAX_PROC" using td(1) by (simp add: live_def)
  obtain s4 where s4: "of_loop (reparent_loop p (Some 1) s3) = Inr s4"
    "mid_ok pc W R pins fs' (exit_kids p K) X T s4" "wakes_only s3 s4" "ptcbs s4 = ptcbs s3"
    "PT s4 = (\<lambda>q. if q \<in> set (K p) then (PT s3 q)\<lparr>parent := Some 1\<rparr> else PT s3 q)"
    by (rule reparent_mid [OF s3(2) pm lt p1])
  have X1: "p = 1 \<Longrightarrow> X p = []"
  proof -
    assume "p = 1"
    then have "set (X p) \<subseteq> set (K p)" using td(1,2) by auto
    with p1 \<open>p = 1\<close> show "X p = []" by simp
  qed
  obtain s5 R5 where s5: "adopt_exited c p (Some 1) s4 = Inr s5"
    "mid_ok pc W R5 pins fs' (exit_kids p K) (adopted_dead p X) T s5" "wakes_only s4 s5"
    "ptcbs s5 = ptcbs s4" "PT s5 = PT s4" by (rule adopt_mid [OF s4(2) pm X1])
  have pK: "p \<notin> set (K p)"
  proof
    assume "p \<in> set (K p)"
    moreover from this have "p \<noteq> 1" using p1 by auto
    ultimately have "p \<in> set (exit_kids p K 1)" "p \<notin> set (exit_kids p K p)" by (simp_all add: exit_kids_def)
    then show False using tree_okD(1) [OF te, of "s\<lparr>PT := exit_pcb p v K s\<rparr>" p] td(1) [of p p]
        tree_okD(1) [OF d(2), of p p] \<open>p \<in> set (K p)\<close> by (simp add: exit_pcb_def)
  qed
  have par: "parent (PT s5 p) = parent (PT s p)" using pK by (simp add: s5(5) s4(5) s3(4) s2_def)
  have nX: "p \<notin> set (adopted_dead p X q)" for q
    using td(2) [of p] p(2) by (auto simp: adopted_dead_def)
  have qm: "q < MAX_PROC" if "parent (PT s5 p) = Some q" for q
    using td(3) [OF p(1), of q] that par by (simp add: live_def)
  obtain s6 R6 where s6: "tell_parent c p s5 = Inr s6"
    "mid_ok pc W R6 pins fs' (exit_kids p K) (case parent (PT s5 p) of None \<Rightarrow> adopted_dead p X
       | Some q \<Rightarrow> (adopted_dead p X)(q := p # adopted_dead p X q)) T s6"
    "wakes_only s5 s6" "ptcbs s6 = ptcbs s5" "PT s6 = PT s5"
    "\<forall>q w. parent (PT s5 p) = Some q \<longrightarrow> W w = Some (ChildExit q) \<longrightarrow> \<not> asleep s6 w"
    by (rule tell_mid [OF s5(2) pm nX qm])
  define s7 where "s7 = set_PCB p ((PT s6 p)\<lparr>pstate := ZOMBIE\<rparr>) s6"
  have P: "PT s7 = exit_pcb p v K s"
    by (rule ext) (simp add: s7_def set_PCB_def s6(5) s5(5) s4(5) s3(4) s2_def exit_pcb_def pK)
  have m6: "mid_ok pc W R6 pins fs' (exit_kids p K) (exit_dead p (parent (PT s p)) X) T s6"
    using s6(2) unfolding par exit_dead_def .
  have e7: "s7 = s6\<lparr>PT := (PT s6)(p := (PT s6 p)\<lparr>pstate := ZOMBIE\<rparr>), rl := rl s7, ptcbs := ptcbs s6\<rparr>"
    by (simp add: s7_def set_PCB_def)
  have l7: "proc_lists (exit_kids p K) (exit_dead p (parent (PT s p)) X) T s7"
    by (rule proc_lists_keeps [OF conjunct2 [OF conjunct2 [OF m6 [unfolded mid_ok_def]]]]) (simp_all add: s7_def set_PCB_def)
  have m7: "mid_ok pc W R6 pins fs' (exit_kids p K) (exit_dead p (parent (PT s p)) X) T s7" "wakes_only s6 s7"
    by (rule mid_lists [OF m6 _ _ l7 e7, where N = "\<lambda>_. True"]; simp add: s7_def set_PCB_def)+
  note w = wakes_only_trans [OF wakes_only_trans [OF wakes_only_trans [OF wakes_only_trans
      [OF wakes_only_trans [OF m2(2) s3(3)] s4(3)] s5(3)] s6(3)] m7(2)]
  have "exit_process c p v s = Inr s7"
  proof -
    have "(case args (PT s p) of None \<Rightarrow> set_PCB p ((PT s p)\<lparr>exitval := v\<rparr>) s
        | Some a \<Rightarrow> (set_PCB p ((PT s p)\<lparr>exitval := v, args := None\<rparr>) (set_PCB p ((PT s p)\<lparr>exitval := v\<rparr>) s))
            \<lparr>mem := (mem s)(a := None)\<rparr>) = s2"
      by (cases "args (PT s p)") (simp_all add: s2_def M_def set_PCB_def, intro kernel.equality PCB.equality ext, auto)
    then show ?thesis using s3(1) init s4(1) s5(1) s6(1)
      by (simp add: exit_process_def Let_def s7_def) (simp add: set_PCB_def cong: option.case_cong)
  qed
  moreover have "proc_inv fl (exit_kids p K) (exit_dead p (parent (PT s p)) X) T s7"
  proof -
    have lv: "live s7 q = live s q" for q using p by (auto simp: live_def P exit_pcb_def)
    have "pcb_pool s7 fl"
    proof (rule pcb_pool_live [OF d(1) _ _ lv])
      show "parent (PT s7 q) = parent (PT s q)" if "\<not> live s q" for q
        using that td(1) p(1) by (auto simp: P exit_pcb_def)
    qed (use w in \<open>simp_all add: wakes_only_def\<close>)
    then show ?thesis using te [OF P] l7 by (simp add: proc_inv_def)
  qed
  moreover have "ptcbs s7 = ptcbs s" by (simp add: s7_def set_PCB_def s6(4) s5(4) s4(4) s3(5) s2_def)
  moreover have "\<not> asleep s7 u" if "parent (PT s p) = Some q" "W u = Some (ChildExit q)" for q u
    using s6(6) that par m7(2) by (auto simp: wakes_only_def)
  moreover have "cc_ok pc W R6 s7" "fs_inv pins s7 fs'" using m7(1) by (simp_all add: mid_ok_def)
  ultimately show ?thesis using w P by (intro that [of s7 R6 fs']) blast+
qed

end
