(* ===== verification/Thread_Ops.thy ===== *)
theory Thread_Ops
  imports Proc_Exit
begin

text \<open>The thread system calls: what they do on the invariants, and what they return.\<close>

section \<open>Creating threads\<close>

lemma sys_CreateThread_ok:
  assumes ok: "cc_ok pc W R s" and fs: "fs_inv pins s fs" and pr: "proc_inv fl K X T s"
    and cur: "CURPROC c s = Inr cur" "cur < MAX_PROC" and new: "fresh_thread pa ta s"
  obtains s' where "sys_CreateThread c call len a (pa, ta) s = Inr (OPtcb pa, s')" and "cc_ok pc W R s'"
    and "fs_inv pins s' fs" and "proc_inv fl K X (T(cur := T cur @ [pa])) s'"
    and "tcbs s' = (tcbs s)(HeapT ta \<mapsto> started_tcb cur start_thread_func pa)"
    and "ptcbs s' = (ptcbs s)(pa \<mapsto> new_ptcb (HeapT ta) call len a)"
    and "PT s' = (PT s)(cur := (PT s cur)\<lparr>thread_count := thread_count (PT s cur) + 1\<rparr>)"
    and "kernel_sem s' = kernel_sem s" and "same_devs s s'"
proof -
  obtain s' where s': "new_thread c pa ta cur start_thread_func call len a s = Inr s'" "cc_ok pc W R s'"
    "fs_inv pins s' fs" "proc_inv fl K X (T(cur := T cur @ [pa])) s'"
    "tcbs s' = (tcbs s)(HeapT ta \<mapsto> started_tcb cur start_thread_func pa)"
    "ptcbs s' = (ptcbs s)(pa \<mapsto> new_ptcb (HeapT ta) call len a)"
    "PT s' = (PT s)(cur := (PT s cur)\<lparr>thread_count := thread_count (PT s cur) + 1\<rparr>)"
    "kernel_sem s' = kernel_sem s" "same_devs s s'"
    by (rule new_thread_ok [OF ok fs pr cur(2) new])
  with cur(1) show ?thesis by (intro that [of s']) (simp_all add: sys_CreateThread_def)
qed

section \<open>Lists of threads\<close>

lemma list_has_threads:
  assumes l: "proc_lists K X T s" and p: "p < MAX_PROC"
  shows "list_has (ThreadList p) (OPtcb a) (ThreadNode a) s = Inr (a \<in> set (T p))"
    and "list_has (ThreadList p) (ONode n) (ThreadNode a) s = Inr False"
proof -
  note d = proc_listsD [OF l]
  note find = rlist_find_ring [OF familyD(1) [OF d(3) p]]
  have o: "obj (rl s) (ThreadNode b) = OPtcb b" if "b \<in> set (T p)" for b by (rule d(6) [OF that])
  have f: "List.find (\<lambda>m. obj (rl s) m = k) (map ThreadNode as) =
      (case k of OPtcb b \<Rightarrow> if b \<in> set as then Some (ThreadNode b) else None | _ \<Rightarrow> None)"
    if "\<forall>b \<in> set as. obj (rl s) (ThreadNode b) = OPtcb b" for as k
    using that by (induction as) (auto split: key.split)
  have o: "\<forall>b \<in> set (T p). obj (rl s) (ThreadNode b) = OPtcb b" using d(6) by blast
  show "list_has (ThreadList p) (OPtcb a) (ThreadNode a) s = Inr (a \<in> set (T p))"
    and "list_has (ThreadList p) (ONode n) (ThreadNode a) s = Inr False"
    by (simp_all add: list_has_def find f [OF o])
qed

section \<open>Joining and detaching\<close>

text \<open>A join is refused for a detached thread, the caller itself and a thread of another process.\<close>

lemma sys_ThreadJoin_eq:
  assumes pr: "proc_inv fl K X T s" and cur: "CURPROC c s = Inr cur" "cur < MAX_PROC"
    and x: "ptcbs s a = Some x"
  shows "sys_ThreadJoin c (OPtcb a) ev s =
    (if detached x \<or> ptcb_tcb x = Some (CURTHREAD c s) \<or> a \<notin> set (T cur) then Inr (Return (-1), s)
     else if exited x then (case ev of None \<Rightarrow> Inl NullDeref | Some v \<Rightarrow> Inr (Return v, s))
     else Inr (Block (ExitCv a), set_ptcb a (x\<lparr>ref_count := ref_count x + 1\<rparr>) s))"
proof -
  note lh = list_has_threads [OF proc_invD(3) [OF pr] cur(2)]
  have "join_loop c a (set_ptcb a (x\<lparr>ref_count := ref_count x + 1\<rparr>) s) =
      Inr (Block (ExitCv a), set_ptcb a (x\<lparr>ref_count := ref_count x + 1\<rparr>) s)" if "\<not> exited x" "\<not> detached x"
    using that by (simp add: join_loop_def get_ptcb_def set_ptcb_def)
  then show ?thesis using x cur(1) lh(1) [of a]
    by (auto simp: sys_ThreadJoin_def ptcb_of_tid_def get_ptcb_def split: option.split)
qed

text \<open>
  When the joined thread has exited, the search for it has the wrong key and never finds it, so
  the last joiner keeps the PTCB; the caller's \<open>exitval\<close> is not written in any branch.
\<close>

lemma join_exited_eq:
  assumes pr: "proc_inv fl K X T s" and cur: "CURPROC c s = Inr cur" "cur < MAX_PROC"
    and x: "ptcbs s a = Some x" "exited x" "\<not> detached x" "ref_count x > 0"
  shows "join_loop c a s = Inr (Return 0, set_ptcb a (x\<lparr>ref_count := ref_count x - 1\<rparr>) s)"
proof -
  let ?s = "set_ptcb a (x\<lparr>ref_count := ref_count x - 1\<rparr>) s"
  have "list_has (ThreadList cur) (ONode (ThreadNode a)) (ThreadNode a) (set_ptcb a y s) = Inr False" for y
    using list_has_threads(2) [OF proc_invD(3) [OF pr] cur(2)] by (simp add: list_has_def set_ptcb_def)
  moreover have "CURPROC c ?s = Inr cur" using cur(1) CURPROC_cong [of ?s s c] by (simp add: set_ptcb_def)
  ultimately show ?thesis using x
    by (simp add: join_loop_def join_release_def get_ptcb_def Let_def)
qed

lemma ptcb_upd_mid:
  assumes m: "mid_ok pc W R pins fs K X T s" and x: "ptcbs s a = Some x"
  shows "mid_ok pc W R pins fs K X T (set_ptcb a y s)" and "wakes_only s (set_ptcb a y s)"
proof -
  have l: "proc_lists K X T (set_ptcb a y s)"
    by (rule proc_lists_keeps [OF conjunct2 [OF conjunct2 [OF m [unfolded mid_ok_def]]]]) (simp_all add: set_ptcb_def)
  have e: "set_ptcb a y s = s\<lparr>PT := PT s, rl := rl (set_ptcb a y s), ptcbs := (ptcbs s)(a \<mapsto> y)\<rparr>"
    by (simp add: set_ptcb_def)
  show "mid_ok pc W R pins fs K X T (set_ptcb a y s)" and "wakes_only s (set_ptcb a y s)"
    by (rule mid_lists [OF m _ _ l e, where N = "\<lambda>_. True"]; simp add: set_ptcb_def)+
qed

lemma mid_proc:
  assumes m: "mid_ok pc W R pins fs K X T s'" and pr: "proc_inv fl K0 X0 T0 s" and w: "wakes_only s s'"
    and P: "\<And>p. pstate (PT s' p) = pstate (PT s p)" "\<And>p. parent (PT s' p) = parent (PT s p)"
      "\<And>p. FIDT (PT s' p) = FIDT (PT s p)" and K: "K = K0" "X = X0"
  shows "proc_inv fl K X T s'"
proof -
  have "pcb_pool s' fl"
    by (rule pcb_pool_live [OF proc_invD(1) [OF pr]]) (use w P in \<open>simp_all add: wakes_only_def live_def\<close>)
  moreover have "tree_ok K X s'" unfolding K by (rule tree_ok_cong [OF proc_invD(2) [OF pr] P])
  ultimately show ?thesis using m by (simp add: proc_inv_def mid_ok_def)
qed

text \<open>Detaching wakes the threads that wait in a join.\<close>

lemma sys_ThreadDetach_ok:
  assumes ok: "cc_ok pc W R s" and fs: "fs_inv pins s fs" and pr: "proc_inv fl K X T s"
    and x: "ptcbs s a = Some x" "\<not> detached x"
  obtains s' where "sys_ThreadDetach c (OPtcb a) s = Inr (0, s')" and "cc_ok pc W (R(ExitCv a := [])) s'"
    and "fs_inv pins s' fs" and "proc_inv fl K X T s'" and "ptcbs s' = (ptcbs s)(a \<mapsto> x\<lparr>detached := True\<rparr>)"
    and "PT s' = PT s" and "\<forall>w. W w = Some (ExitCv a) \<longrightarrow> \<not> asleep s' w" and "wakes_only s s'"
proof -
  have m0: "mid_ok pc W R pins fs K X T s" using ok fs proc_invD(3) [OF pr] by (simp add: mid_ok_def)
  let ?s = "set_ptcb a (x\<lparr>detached := True\<rparr>) s"
  note m1 = ptcb_upd_mid [OF m0 x(1), of "x\<lparr>detached := True\<rparr>"]
  obtain s' where s': "kernel_broadcast c (ExitCv a) ?s = Inr s'"
    "mid_ok pc W (R(ExitCv a := [])) pins fs K X T s'" "wakes_only ?s s'" "PT s' = PT ?s"
    "ptcbs s' = ptcbs ?s" "\<forall>w. W w = Some (ExitCv a) \<longrightarrow> \<not> asleep s' w"
    by (rule broadcast_mid [OF m1(1)])
  note w = wakes_only_trans [OF m1(2) s'(3)]
  have P: "PT s' = PT s" using s'(4) by (simp add: set_ptcb_def)
  have "proc_inv fl K X T s'" by (rule mid_proc [OF s'(2) pr w]) (simp_all add: P)
  moreover have "sys_ThreadDetach c (OPtcb a) s = Inr (0, s')"
    using x s'(1) by (simp add: sys_ThreadDetach_def ptcb_of_tid_def get_ptcb_def)
  moreover have "ptcbs s' = (ptcbs s)(a \<mapsto> x\<lparr>detached := True\<rparr>)" using s'(5) by (simp add: set_ptcb_def)
  ultimately show ?thesis using that s'(2,6) P w unfolding mid_ok_def by blast
qed

section \<open>The end of a thread\<close>

lemma exit_ptcb_detached:
  assumes m: "mid_ok pc W R pins fs K X T s" and x: "ptcbs s a = Some x" "detached x"
  shows "exit_ptcb c v a s = Inl DanglingPtr"
proof -
  let ?s = "set_ptcb a (x\<lparr>texitval := v, exited := True, targs := None\<rparr>) s"
  note m1 = ptcb_upd_mid [OF m x(1), of "x\<lparr>texitval := v, exited := True, targs := None\<rparr>"]
  obtain s' where s': "kernel_broadcast c (ExitCv a) ?s = Inr s'" "ptcbs s' = ptcbs ?s"
    by (rule broadcast_mid [OF m1(1)])
  then show ?thesis using x by (simp add: exit_ptcb_def get_ptcb_def Let_def) (simp add: set_ptcb_def)
qed

text \<open>The threads in the lists when the thread \<open>a\<close> of \<open>p\<close> has exited: a joined one stays.\<close>

definition left_threads :: "pref \<Rightarrow> ptref \<Rightarrow> ptcb \<Rightarrow> (pref \<Rightarrow> ptref list) \<Rightarrow> pref \<Rightarrow> ptref list" where
  "left_threads p a x T = (if ref_count x = 0 then T(p := remove1 a (T p)) else T)"

definition left_ptcbs :: "ptref \<Rightarrow> int \<Rightarrow> ptcb \<Rightarrow> (ptref \<rightharpoonup> ptcb) \<Rightarrow> ptref \<rightharpoonup> ptcb" where
  "left_ptcbs a v x P =
     P(a := if ref_count x = 0 then None else Some (x\<lparr>texitval := v, exited := True, targs := None\<rparr>))"

lemma exit_ptcb_ok:
  assumes m: "mid_ok pc W R pins fs K X T s" and x: "ptcbs s a = Some x" "\<not> detached x" and a: "a \<in> set (T p)"
  obtains s' where "exit_ptcb c v a s = Inr s'"
    and "mid_ok pc W (R(ExitCv a := [])) pins fs K X (left_threads p a x T) s'" and "wakes_only s s'"
    and "PT s' = PT s" and "ptcbs s' = left_ptcbs a v x (ptcbs s)"
    and "\<forall>w. W w = Some (ExitCv a) \<longrightarrow> \<not> asleep s' w"
proof -
  let ?x = "x\<lparr>texitval := v, exited := True, targs := None\<rparr>"
  let ?s = "set_ptcb a ?x s"
  note m1 = ptcb_upd_mid [OF m x(1), of ?x]
  obtain s1 where s1: "kernel_broadcast c (ExitCv a) ?s = Inr s1"
    "mid_ok pc W (R(ExitCv a := [])) pins fs K X T s1" "wakes_only ?s s1" "PT s1 = PT ?s"
    "ptcbs s1 = ptcbs ?s" "\<forall>w. W w = Some (ExitCv a) \<longrightarrow> \<not> asleep s1 w"
    by (rule broadcast_mid [OF m1(1)])
  note w = wakes_only_trans [OF m1(2) s1(3)]
  have P: "PT s1 = PT s" "ptcbs s1 = (ptcbs s)(a \<mapsto> ?x)" using s1(4,5) by (simp_all add: set_ptcb_def)
  show ?thesis
  proof (cases "ref_count x = 0")
    case False
    then have "exit_ptcb c v a s = Inr s1"
      using x s1(1) by (simp add: exit_ptcb_def get_ptcb_def Let_def P(2))
    with that [of s1] s1(2,6) w P False show ?thesis by (simp add: left_threads_def left_ptcbs_def)
  next
    case True
    let ?s2 = "s1\<lparr>rl := rlist_remove (ThreadNode a) (rl s1), ptcbs := (ptcbs s1)(a := None)\<rparr>"
    note l = conjunct2 [OF conjunct2 [OF s1(2) [unfolded mid_ok_def]]]
    note f0 = proc_listsD(3) [OF l]
    note f = thr.family_remove [OF f0 a]
    have pm: "p < MAX_PROC" using familyD(2) [OF f0, of p] a by (cases "T p") auto
    have k: "keeps_on (\<lambda>n. n \<notin> range ThreadList \<union> range ThreadNode) (rl s1) (rl ?s2)"
      using keeps_on_remove_from [OF familyD(1) [OF f0 pm], of "ThreadNode a"
          "\<lambda>n. n \<notin> range ThreadList \<union> range ThreadNode"] a by simp
    have b: "obj (rl ?s2) (ThreadNode b) = OPtcb b \<and> ptcbs ?s2 b \<noteq> None"
      if "b \<in> set ((T(p := remove1 a (T p))) q)" for b q
    proof -
      have "b \<in> set (T q) \<and> b \<noteq> a"
      proof (cases "q = p")
        case True
        with that thr.distinct_list [OF f0, of p] show ?thesis by simp
      next
        case False
        with that thr.one_list [OF f0 a, of q] show ?thesis by auto
      qed
      then show ?thesis using proc_listsD(6,7) [OF l, of b q] by simp
    qed
    have l2: "proc_lists K X (T(p := remove1 a (T p))) ?s2"
      by (rule proc_lists_threads [OF l _ k b]) (use f in simp_all)
    have e: "?s2 = s1\<lparr>PT := PT s1, rl := rl ?s2, ptcbs := (ptcbs s1)(a := None)\<rparr>" by simp
    have m2: "mid_ok pc W (R(ExitCv a := [])) pins fs K X (T(p := remove1 a (T p))) ?s2" "wakes_only s1 ?s2"
      by (rule mid_lists [OF s1(2) k _ l2 e]; auto)+
    have "exit_ptcb c v a s = Inr ?s2"
      using x s1(1) True by (simp add: exit_ptcb_def get_ptcb_def Let_def P(2))
    moreover have "\<forall>u. W u = Some (ExitCv a) \<longrightarrow> \<not> asleep ?s2 u" using s1(6) by (simp add: asleep_def)
    moreover note wakes_only_trans [OF w m2(2)]
    ultimately show ?thesis using that [of ?s2] m2(1) P True by (simp add: left_threads_def left_ptcbs_def)
  qed
qed

end
