(* ===== verification/Thread_Exit.thy ===== *)
theory Thread_Exit
  imports Thread_Ops
begin

text \<open>The end of a thread, and with the last thread of a process the end of the process.\<close>

text \<open>A step in which the thread \<open>t\<close> exits and every other thread is kept.\<close>

definition thread_left :: "tref \<Rightarrow> kernel \<Rightarrow> kernel \<Rightarrow> bool" where
  "thread_left t s s' \<longleftrightarrow>
     (\<forall>u. u \<noteq> t \<longrightarrow> (case tcbs s u of None \<Rightarrow> tcbs s' u = None | Some x \<Rightarrow> thread_kept x (tcbs s' u))) \<and>
     (\<forall>x. tcbs s t = Some x \<longrightarrow> (\<exists>y. tcbs s' t = Some y \<and> same_thread x y \<and> tstate y = EXITED))"

lemma thread_left_trans:
  assumes 1: "threads_kept s s1" and 2: "thread_left t s1 s'" and t: "tcbs s1 t = tcbs s t"
  shows "thread_left t s s'"
proof -
  have "case tcbs s u of None \<Rightarrow> tcbs s' u = None | Some x \<Rightarrow> thread_kept x (tcbs s' u)" if "u \<noteq> t" for u
    using 1 [unfolded threads_kept_def, rule_format, of u] that
      conjunct1 [OF 2 [unfolded thread_left_def], rule_format, of u]
    by (cases "tcbs s1 u") (auto simp: thread_kept_def same_thread_def split: option.splits)
  with 2 t show ?thesis by (simp add: thread_left_def)
qed

lemma kernel_sleep_exit_ok:
  assumes ok: "cc_ok pc W R s" and c: "c < ncores s" "pc c = Running"
    and x: "tcbs s (CURTHREAD c s) = Some x" "ttype x = NORMAL_THREAD" and n: "waiters s (CURTHREAD c s) = None"
  obtains p s' R' where "kernel_sleep c EXITED s = Inr (p, s')" and "cc_ok (pc(c := Sleeping cause)) W R' s'"
    and "cv_frame (s\<lparr>kernel_sem := kernel_sem s + 1\<rparr>) s'" and "kernel_sem s' = kernel_sem s + 1"
    and "\<exists>y. tcbs s' (CURTHREAD c s) = Some y \<and> tstate y = EXITED"
    and "\<forall>w. w \<noteq> CURTHREAD c s \<longrightarrow> asleep s' w \<longrightarrow> asleep s w" and "sem_progress W s'"
    and "thread_left (CURTHREAD c s) s s'"
proof -
  let ?t = "CURTHREAD c s"
  obtain s1 R1 where s1: "kernel_unlock c s = Inr s1" "cc_ok pc W R1 s1" "sem_progress W s1"
    "cv_frame (s\<lparr>kernel_sem := kernel_sem s + 1\<rparr>) s1" "kernel_sem s1 = kernel_sem s + 1"
    "\<forall>w. asleep s1 w \<longrightarrow> asleep s w" "\<forall>w. \<not> asleep s w \<longrightarrow> tcbs s1 w = tcbs s w"
    "\<forall>w. waiters s1 w = None \<longleftrightarrow> waiters s w = None" "threads_kept s s1" by (rule unlock_ok [OF ok])
  have c1: "c < ncores s1" "current_thread (cctx s1 c) = ?t"
    using s1(4) c(1) by (simp_all add: cv_frame_def CURTHREAD_def)
  obtain L0 hs0 where sc: "sched_inv pc s L0 hs0" using cc_okD(1) [OF ok] by blast
  obtain y where "tcbs s ?t = Some y" "tstate y = RUNNING" by (rule current_running [OF sc c])
  then have "\<not> asleep s ?t" by (simp add: asleep_def)
  then have x1: "tcbs s1 (current_thread (cctx s1 c)) = Some x" using s1(7) x(1) c1(2) by simp
  obtain L hs where sched: "sched_inv pc s1 L hs" using cc_okD(1) [OF s1(2)] by blast
  obtain p s' L' hs' where s': "sleep_mark c EXITED NO_TIMEOUT s1 = Inr (p, s')"
    "sched_inv (pc(c := Sleeping cause)) s' L' hs'" "sched_frame s1 s'"
    "\<forall>u. u \<noteq> current_thread (cctx s1 c) \<longrightarrow> tcbs s' u = tcbs s1 u"
    "\<exists>y. tcbs s' (current_thread (cctx s1 c)) = Some y \<and> same_thread x y \<and> tstate y = EXITED"
    "\<forall>d. current_thread (cctx s' d) = current_thread (cctx s1 d)"
    by (rule sleep_mark_inv [OF sched c1(1) c(2) x1 x(2), of EXITED NO_TIMEOUT cause]) simp_all
  have f: "condvars s' = condvars s1" "waiters s' = waiters s1" using s'(3) by (simp_all add: sched_frame_def)
  have nt: "w \<noteq> ?t" if "waiters s1 w \<noteq> None" for w using that s1(8) n by auto
  have "waiting_alive s'"
    using cv_inv_alive [OF cc_okD(2) [OF s1(2)]] nt s'(4) c1(2) f(2) by (simp add: waiting_alive_def)
  then have "cv_inv W R1 s'"
    by (rule cv_inv_frame [OF cc_okD(2) [OF s1(2)] other_frame_cv [OF sched_frame_other [OF s'(3)]] f])
  moreover have a: "asleep s1 w" if "w \<noteq> ?t" "asleep s' w" for w
    using that s'(4) c1(2) by (simp add: asleep_def)
  then have "sleepers_listed R1 s'" using cc_okD(3) [OF s1(2)] nt f(2) by (simp add: sleepers_listed_def)
  ultimately have "cc_ok (pc(c := Sleeping cause)) W R1 s'" using s'(2) by (auto simp: cc_ok_def)
  moreover have "cv_frame (s\<lparr>kernel_sem := kernel_sem s + 1\<rparr>) s'"
    by (rule cv_frame_trans [OF s1(4) sched_frame_cv_frame [OF s'(3)]]) (use s'(6) in simp)
  moreover have "kernel_sleep c EXITED s = Inr (p, s')" using s1(1) s'(1) by (simp add: kernel_sleep_def)
  moreover have "kernel_sem s' = kernel_sem s + 1" using s'(3) s1(5) by (simp add: sched_frame_def)
  moreover have ne: "\<not> asleep s' ?t" using s'(5) c1(2) by (auto simp: asleep_def)
  have "kernel_sem s' = kernel_sem s1" using s'(3) by (simp add: sched_frame_def)
  then have "sem_progress W s'"
    by (rule sem_progress_mono [OF s1(3)]) (use a ne in metis)
  moreover have "thread_left ?t s1 s'"
    using s'(4,5) c1(2) x1 by (auto simp: thread_left_def thread_kept_def split: option.split)
  then have "thread_left ?t s s'"
    by (rule thread_left_trans [OF s1(9)]) (use x1 x(1) c1(2) in simp)
  ultimately show ?thesis using that s'(5) c1(2) a s1(6) by auto
qed

text \<open>The processes after the thread has counted itself out.\<close>

definition left_PT :: "pref \<Rightarrow> kernel \<Rightarrow> pref \<Rightarrow> PCB" where
  "left_PT p s = (PT s)(p := (PT s p)\<lparr>thread_count := thread_count (PT s p) - 1\<rparr>)"

definition last_thread :: "pref \<Rightarrow> kernel \<Rightarrow> bool" where
  "last_thread p s \<longleftrightarrow> thread_count (PT s p) = 1"

lemma sys_ThreadExit_ok:
  assumes ok: "cc_ok pc W R s" and fs: "fs_inv pins s fs" and pr: "proc_inv fl K X T s"
    and c: "c < ncores s" "pc c = Running" and t: "tcbs s (CURTHREAD c s) = Some t" "ttype t = NORMAL_THREAD"
    and n: "waiters s (CURTHREAD c s) = None" and p: "owner_pcb t = p" "live s p" "pstate (PT s p) = ALIVE"
    and a: "tptcb t = Some a" "a \<in> set (T p)" "ptcbs s a = Some x" "\<not> detached x"
    and init: "last_thread p s \<Longrightarrow> p = 1 \<Longrightarrow> K p = []"
  obtains b s' R' fs' where "sys_ThreadExit c v s = Inr (b, s')" and "cc_ok (pc(c := Sleeping cause)) W R' s'"
    and "fs_inv pins s' fs'"
    and "proc_inv fl (if last_thread p s then exit_kids p K else K)
      (if last_thread p s then exit_dead p (parent (PT s p)) X else X) (left_threads p a x T) s'"
    and "PT s' = (if last_thread p s then exit_pcb p v K (s\<lparr>PT := left_PT p s\<rparr>) else left_PT p s)"
    and "ptcbs s' = left_ptcbs a v x (ptcbs s)" and "kernel_sem s' = kernel_sem s + 1"
    and "\<exists>y. tcbs s' (CURTHREAD c s) = Some y \<and> tstate y = EXITED"
    and "\<forall>w. W w = Some (ExitCv a) \<longrightarrow> \<not> asleep s' w"
    and "\<forall>q w. last_thread p s \<longrightarrow> parent (PT s p) = Some q \<longrightarrow> W w = Some (ChildExit q) \<longrightarrow> \<not> asleep s' w"
    and "sem_progress W s'" and "thread_left (CURTHREAD c s) s s'" and "same_devs s s'"
proof -
  let ?t = "CURTHREAD c s"
  have m0: "mid_ok pc W R pins fs K X T s" using ok fs proc_invD(3) [OF pr] by (simp add: mid_ok_def)
  obtain s1 where s1: "exit_ptcb c v a s = Inr s1"
    "mid_ok pc W (R(ExitCv a := [])) pins fs K X (left_threads p a x T) s1" "wakes_only s s1" "PT s1 = PT s"
    "ptcbs s1 = left_ptcbs a v x (ptcbs s)" "\<forall>w. W w = Some (ExitCv a) \<longrightarrow> \<not> asleep s1 w"
    by (rule exit_ptcb_ok [OF m0 a(3,4,2)])
  define s2 where "s2 = set_PCB p ((PT s1 p)\<lparr>thread_count := thread_count (PT s1 p) - 1\<rparr>) s1"
  have P2: "PT s2 = left_PT p s" by (simp add: s2_def set_PCB_def left_PT_def s1(4))
  have l2: "proc_lists K X (left_threads p a x T) s2"
    by (rule proc_lists_keeps [OF conjunct2 [OF conjunct2 [OF s1(2) [unfolded mid_ok_def]]]]) (simp_all add: s2_def set_PCB_def)
  have e2: "s2 = s1\<lparr>PT := left_PT p s, rl := rl s2, ptcbs := ptcbs s1\<rparr>"
    by (simp add: s2_def set_PCB_def left_PT_def s1(4))
  have m2: "mid_ok pc W (R(ExitCv a := [])) pins fs K X (left_threads p a x T) s2" "wakes_only s1 s2"
    by (rule mid_lists [OF s1(2) _ _ l2 e2, where N = "\<lambda>_. True"]; simp add: s2_def set_PCB_def left_PT_def s1(4))+
  note w2 = wakes_only_trans [OF s1(3) m2(2)]
  have pr2: "proc_inv fl K X (left_threads p a x T) s2"
    by (rule mid_proc [OF m2(1) pr w2]) (simp_all add: P2 left_PT_def)
  have zero: "thread_count (PT s2 p) = 0 \<longleftrightarrow> last_thread p s" by (simp add: P2 left_PT_def last_thread_def)
  have lv: "live s2 p" "pstate (PT s2 p) = ALIVE" using p by (simp_all add: live_def P2 left_PT_def)
  have par: "parent (PT s2 p) = parent (PT s p)" by (simp add: P2 left_PT_def)
  let ?K = "if last_thread p s then exit_kids p K else K"
  let ?X = "if last_thread p s then exit_dead p (parent (PT s p)) X else X"
  have "\<exists>s3 R3 fs3. (if thread_count (PT s2 p) = 0 then exit_process c p v s2 else Inr s2) = Inr s3 \<and>
    cc_ok pc W R3 s3 \<and> fs_inv pins s3 fs3 \<and> proc_inv fl ?K ?X (left_threads p a x T) s3 \<and> wakes_only s2 s3 \<and>
    PT s3 = (if last_thread p s then exit_pcb p v K (s\<lparr>PT := left_PT p s\<rparr>) else left_PT p s) \<and> ptcbs s3 = ptcbs s2 \<and>
    (\<forall>q w. last_thread p s \<longrightarrow> parent (PT s p) = Some q \<longrightarrow> W w = Some (ChildExit q) \<longrightarrow> \<not> asleep s3 w)"
  proof (cases "last_thread p s")
    case True
    have ok2: "cc_ok pc W (R(ExitCv a := [])) s2" "fs_inv pins s2 fs" using m2(1) by (simp_all add: mid_ok_def)
    obtain s3 R3 fs3 where s3: "exit_process c p v s2 = Inr s3" "cc_ok pc W R3 s3" "fs_inv pins s3 fs3"
      "proc_inv fl (exit_kids p K) (exit_dead p (parent (PT s2 p)) X) (left_threads p a x T) s3" "wakes_only s2 s3"
      "PT s3 = exit_pcb p v K s2" "ptcbs s3 = ptcbs s2"
      "\<forall>q w. parent (PT s2 p) = Some q \<longrightarrow> W w = Some (ChildExit q) \<longrightarrow> \<not> asleep s3 w"
      by (rule exit_process_ok [OF ok2 pr2 lv init [OF True]])
    have "exit_pcb p v K s2 = exit_pcb p v K (s\<lparr>PT := left_PT p s\<rparr>)" by (rule ext) (simp add: exit_pcb_def P2)
    with s3 True show ?thesis unfolding zero par by (intro exI [of _ s3] exI [of _ R3] exI [of _ fs3]) simp
  next
    case False
    have "wakes_only s2 s2" by (rule wakes_onlyI) simp_all
    with False m2(1) pr2 P2 show ?thesis unfolding zero
      by (intro exI [of _ s2] exI [of _ "R(ExitCv a := [])"] exI [of _ fs]) (simp add: mid_ok_def)
  qed
  then obtain s3 R3 fs3 where s3: "(if thread_count (PT s2 p) = 0 then exit_process c p v s2 else Inr s2) = Inr s3"
    "cc_ok pc W R3 s3" "fs_inv pins s3 fs3" "proc_inv fl ?K ?X (left_threads p a x T) s3" "wakes_only s2 s3"
    "PT s3 = (if last_thread p s then exit_pcb p v K (s\<lparr>PT := left_PT p s\<rparr>) else left_PT p s)" "ptcbs s3 = ptcbs s2"
    "\<forall>q w. last_thread p s \<longrightarrow> parent (PT s p) = Some q \<longrightarrow> W w = Some (ChildExit q) \<longrightarrow> \<not> asleep s3 w" by blast
  note w3 = wakes_only_trans [OF w2 s3(5)]
  obtain L0 hs0 where sc: "sched_inv pc s L0 hs0" using cc_okD(1) [OF ok] by blast
  obtain y where y: "tcbs s ?t = Some y" "tstate y = RUNNING" by (rule current_running [OF sc c])
  have "\<not> asleep s ?t" using y by (simp add: asleep_def)
  then have c3: "c < ncores s3" "CURTHREAD c s3 = ?t" "tcbs s3 ?t = Some t" "waiters s3 ?t = None"
    using w3 c(1) t(1) n by (simp_all add: wakes_only_def)
  obtain b s' R' where s': "kernel_sleep c EXITED s3 = Inr (b, s')" "cc_ok (pc(c := Sleeping cause)) W R' s'"
    "cv_frame (s3\<lparr>kernel_sem := kernel_sem s3 + 1\<rparr>) s'" "kernel_sem s' = kernel_sem s3 + 1"
    "\<exists>y. tcbs s' (CURTHREAD c s3) = Some y \<and> tstate y = EXITED"
    "\<forall>w. w \<noteq> CURTHREAD c s3 \<longrightarrow> asleep s' w \<longrightarrow> asleep s3 w" "sem_progress W s'"
    "thread_left (CURTHREAD c s3) s3 s'"
    by (rule kernel_sleep_exit_ok [OF s3(2) c3(1) c(2), where cause = cause]) (use c3 t in simp_all)
  let ?s3 = "s3\<lparr>kernel_sem := kernel_sem s3 + 1\<rparr>"
  have "fs_inv pins ?s3 fs3" by (rule fs_frame [OF s3(3), where N = "\<lambda>_. True"]) simp_all
  then have F: "fs_inv pins s' fs3" by (rule cv_frame_fs [OF _ s'(3)])
  have "proc_inv fl ?K ?X (left_threads p a x T) ?s3" by (rule proc_inv_keeps [OF s3(4)]) simp_all
  then have G: "proc_inv fl ?K ?X (left_threads p a x T) s'" by (rule cv_frame_proc [OF _ s'(3)])
  have E: "sys_ThreadExit c v s = Inr (b, s')"
    using t(1) a(1) p(1) s1(1) s3(1) s'(1) by (simp add: sys_ThreadExit_def s2_def [symmetric])
  have ne: "\<not> asleep s' ?t" using s'(5) c3(2) by (auto simp: asleep_def)
  have J: "\<not> asleep s' u" if "\<not> asleep s3 u" for u using that s'(6) c3(2) ne by (cases "u = ?t") auto
  have "\<not> asleep s3 u" if "\<not> asleep s1 u" for u
    using that m2(2) s3(5) by (auto simp: wakes_only_def)
  then have H: "\<forall>u. W u = Some (ExitCv a) \<longrightarrow> \<not> asleep s' u" using s1(6) J by blast
  have I: "\<forall>q w. last_thread p s \<longrightarrow> parent (PT s p) = Some q \<longrightarrow> W w = Some (ChildExit q) \<longrightarrow> \<not> asleep s' w"
    using s3(8) J by blast
  have P: "PT s' = PT s3" "ptcbs s' = ptcbs s3" using s'(3) by (simp_all add: cv_frame_def)
  have Q: "ptcbs s' = left_ptcbs a v x (ptcbs s)" using s3(7) s1(5) by (simp add: P s2_def set_PCB_def)
  have S: "kernel_sem s' = kernel_sem s + 1" using s'(4) w3 by (simp add: wakes_only_def)
  have "threads_kept s s3" using w3 by (simp add: wakes_only_def)
  then have V: "thread_left ?t s s'"
    by (rule thread_left_trans) (use s'(8) c3(2,3) t(1) in simp_all)
  have D: "same_devs s s'"
    using w3 s'(3) by (simp add: wakes_only_def same_devs_def cv_frame_def)
  show ?thesis
    by (rule that [OF E s'(2) F G _ Q S _ H I s'(7) V D]) (use s3(6) P s'(5) c3(2) in simp_all)
qed

text \<open>The exit of a detached thread reads its PTCB after the PTCB was freed.\<close>

lemma sys_ThreadExit_detached:
  assumes ok: "cc_ok pc W R s" and fs: "fs_inv pins s fs" and pr: "proc_inv fl K X T s"
    and t: "tcbs s (CURTHREAD c s) = Some t" "tptcb t = Some a" "ptcbs s a = Some x" "detached x"
  shows "sys_ThreadExit c v s = Inl DanglingPtr"
proof -
  have "mid_ok pc W R pins fs K X T s" using ok fs proc_invD(3) [OF pr] by (simp add: mid_ok_def)
  from exit_ptcb_detached [OF this t(3,4)] t(1,2) show ?thesis by (simp add: sys_ThreadExit_def)
qed

end
