(* ===== verification/Syscalls.thy ===== *)
theory Syscalls
  imports Thread_Exit
begin

text \<open>
  The system calls as programs see them (src/kernel_sys.c, src/kernel_sys.h), the calls that
  src/kernel_pipe.c and src/kernel_socket.c leave unimplemented, and the start of the system
  (src/kernel_init.c, \<open>initialize_processes\<close> of src/kernel_proc.c).
\<close>

section \<open>The wrappers\<close>

text \<open>
  The macro \<open>SYSCALL\<close>: the caller takes the kernel lock, runs the call and releases the lock.
  A caller that finds the kernel taken sleeps and goes on with \<open>syscall_resume\<close>.
\<close>

definition post_call :: "nat \<Rightarrow> 'a \<times> kernel \<Rightarrow> ('a call \<times> kernel) result" where
  "post_call c r = rbind (kernel_unlock c (snd r)) (\<lambda>s1. Inr (Return (fst r), s1))"

definition pre_call ::
  "(kernel \<Rightarrow> ('a call \<times> kernel) result) \<Rightarrow> bool \<times> kernel \<Rightarrow> ('a call \<times> kernel) result" where
  "pre_call f r = (if fst r then f (snd r) else Inr (Block KernelSemCv, snd r))"

definition syscall :: "nat \<Rightarrow> (kernel \<Rightarrow> ('a \<times> kernel) result) \<Rightarrow> kernel \<Rightarrow> ('a call \<times> kernel) result" where
  "syscall c f s = rbind (kernel_lock_step c s) (pre_call (\<lambda>s1. rbind (f s1) (post_call c)))"

definition syscall_resume ::
  "nat \<Rightarrow> (kernel \<Rightarrow> ('a \<times> kernel) result) \<Rightarrow> kernel \<Rightarrow> ('a call \<times> kernel) result" where
  "syscall_resume c f s = rbind (kernel_lock_resume c s) (pre_call (\<lambda>s1. rbind (f s1) (post_call c)))"

text \<open>
  A call that waits inside the kernel: it gives the kernel up and sleeps on \<open>cv\<close>.  When it
  runs again it takes the kernel, as every caller does, and goes on with \<open>loop\<close>.
\<close>

definition wait_or_post :: "nat \<Rightarrow> 'a call \<times> kernel \<Rightarrow> ('a call \<times> kernel) result" where
  "wait_or_post c r =
     (case fst r of
        Return v \<Rightarrow> post_call c (v, snd r)
      | Block cv \<Rightarrow> rbind (kernel_wait_begin c cv NO_TIMEOUT (snd r)) (\<lambda>(p, s1). Inr (Block cv, s1)))"

definition syscall_waiting ::
  "nat \<Rightarrow> (kernel \<Rightarrow> ('a call \<times> kernel) result) \<Rightarrow> kernel \<Rightarrow> ('a call \<times> kernel) result" where
  "syscall_waiting c f s = rbind (kernel_lock_step c s) (pre_call (\<lambda>s1. rbind (f s1) (wait_or_post c)))"

definition waiting_resume ::
  "nat \<Rightarrow> cvref \<Rightarrow> (kernel \<Rightarrow> ('a call \<times> kernel) result) \<Rightarrow> kernel \<Rightarrow> ('a call \<times> kernel) result" where
  "waiting_resume c cv loop s =
     rbind (cv_wait_end c cv s) (\<lambda>(r, s1). syscall_waiting c loop s1)"

section \<open>Pipes and sockets\<close>

definition sys_Pipe :: int where "sys_Pipe = -1"
definition sys_Socket :: "int \<Rightarrow> int" where "sys_Socket port = NOFILE"
definition sys_Listen :: "int \<Rightarrow> int" where "sys_Listen sock = -1"
definition sys_Accept :: "int \<Rightarrow> int" where "sys_Accept lsock = NOFILE"
definition sys_Connect :: "int \<Rightarrow> int \<Rightarrow> 64 word \<Rightarrow> int" where "sys_Connect sock port timeout = -1"
definition sys_ShutDown :: "int \<Rightarrow> int \<Rightarrow> int" where "sys_ShutDown sock how = -1"

section \<open>The calls\<close>

definition Exec ::
  "nat \<Rightarrow> task \<Rightarrow> int \<Rightarrow> ptr \<Rightarrow> nat \<times> ptref \<times> nat \<Rightarrow> kernel \<Rightarrow> (int call \<times> kernel) result" where
  "Exec c task len a adr = syscall c (sys_Exec c task len a adr)"

definition GetPid :: "nat \<Rightarrow> kernel \<Rightarrow> (int call \<times> kernel) result" where
  "GetPid c = syscall c (\<lambda>s. rbind (sys_GetPid c s) (\<lambda>r. Inr (r, s)))"

definition GetPPid :: "nat \<Rightarrow> kernel \<Rightarrow> (int call \<times> kernel) result" where
  "GetPPid c = syscall c (\<lambda>s. rbind (sys_GetPPid c s) (\<lambda>r. Inr (r, s)))"

definition WaitChild :: "nat \<Rightarrow> int \<Rightarrow> bool \<Rightarrow> kernel \<Rightarrow> ((int \<times> int option) call \<times> kernel) result" where
  "WaitChild c cpid status = syscall_waiting c (sys_WaitChild c cpid status)"

definition CreateThread ::
  "nat \<Rightarrow> task \<Rightarrow> int \<Rightarrow> ptr \<Rightarrow> ptref \<times> nat \<Rightarrow> kernel \<Rightarrow> (key call \<times> kernel) result" where
  "CreateThread c task len a adr = syscall c (sys_CreateThread c task len a adr)"

definition ThreadSelf :: "nat \<Rightarrow> kernel \<Rightarrow> (key call \<times> kernel) result" where
  "ThreadSelf c = syscall c (\<lambda>s. Inr (sys_ThreadSelf c s, s))"

definition ThreadJoin :: "nat \<Rightarrow> key \<Rightarrow> int option \<Rightarrow> kernel \<Rightarrow> (int call \<times> kernel) result" where
  "ThreadJoin c tid v = syscall_waiting c (sys_ThreadJoin c tid v)"

definition ThreadDetach :: "nat \<Rightarrow> key \<Rightarrow> kernel \<Rightarrow> (int call \<times> kernel) result" where
  "ThreadDetach c tid = syscall c (sys_ThreadDetach c tid)"

text \<open>
  The calls that end a thread give the kernel up when they put it to sleep for the last time,
  so the macro's release of the lock is never reached.
\<close>

definition ThreadExit :: "nat \<Rightarrow> int \<Rightarrow> kernel \<Rightarrow> (bool call \<times> kernel) result" where
  "ThreadExit c v s = rbind (kernel_lock_step c s)
     (pre_call (\<lambda>s1. rbind (sys_ThreadExit c v s1) (\<lambda>(p, s2). Inr (Return p, s2))))"

definition wait_or_exited :: "nat \<Rightarrow> bool call \<times> kernel \<Rightarrow> (bool call \<times> kernel) result" where
  "wait_or_exited c r =
     (case fst r of
        Return v \<Rightarrow> Inr r
      | Block cv \<Rightarrow> rbind (kernel_wait_begin c cv NO_TIMEOUT (snd r)) (\<lambda>(p, s1). Inr (Block cv, s1)))"

definition Exit :: "nat \<Rightarrow> int \<Rightarrow> kernel \<Rightarrow> (bool call \<times> kernel) result" where
  "Exit c v s = rbind (kernel_lock_step c s) (pre_call (\<lambda>s1. rbind (sys_Exit c v s1) (wait_or_exited c)))"

definition GetTerminalDevices :: "nat \<Rightarrow> kernel \<Rightarrow> (uint call \<times> kernel) result" where
  "GetTerminalDevices c = syscall c (\<lambda>s. Inr (sys_GetTerminalDevices s, s))"

definition OpenTerminal :: "nat \<Rightarrow> uint \<Rightarrow> kernel \<Rightarrow> (int call \<times> kernel) result" where
  "OpenTerminal c termno = syscall c (sys_OpenTerminal c termno)"

definition OpenNull :: "nat \<Rightarrow> kernel \<Rightarrow> (int call \<times> kernel) result" where
  "OpenNull c = syscall c (sys_OpenNull c)"

definition Close :: "nat \<Rightarrow> int \<Rightarrow> kernel \<Rightarrow> (int call \<times> kernel) result" where
  "Close c fd = syscall c (sys_Close c fd)"

definition Dup2 :: "nat \<Rightarrow> int \<Rightarrow> int \<Rightarrow> kernel \<Rightarrow> (int call \<times> kernel) result" where
  "Dup2 c oldfd newfd = syscall c (sys_Dup2 c oldfd newfd)"

text \<open>
  \<open>Read\<close> and \<open>Write\<close> return \<open>None\<close> when the device delivers nothing and the caller waits for
  ever.
\<close>

definition syscall_io ::
  "nat \<Rightarrow> (kernel \<Rightarrow> (int \<times> byte list \<times> kernel) option result) \<Rightarrow> kernel \<Rightarrow>
   ((int \<times> byte list) call \<times> kernel) option result" where
  "syscall_io c f s = rbind (kernel_lock_step c s) (\<lambda>(got, s1).
     if \<not> got then Inr (Some (Block KernelSemCv, s1))
     else rbind (f s1) (\<lambda>r. case r of
            None \<Rightarrow> Inr None
          | Some (rc, buf, s2) \<Rightarrow> rbind (post_call c ((rc, buf), s2)) (\<lambda>x. Inr (Some x))))"

definition Read ::
  "nat \<Rightarrow> int \<Rightarrow> uint \<Rightarrow> dev_env \<Rightarrow> kernel \<Rightarrow> ((int \<times> byte list) call \<times> kernel) option result" where
  "Read c fd sz env = syscall_io c (sys_Read c fd sz env)"

definition Write ::
  "nat \<Rightarrow> int \<Rightarrow> byte list \<Rightarrow> uint \<Rightarrow> dev_env \<Rightarrow> kernel \<Rightarrow> ((int \<times> byte list) call \<times> kernel) option result" where
  "Write c fd buf sz env = syscall_io c (sys_Write c fd buf sz env)"

definition Pipe :: "nat \<Rightarrow> kernel \<Rightarrow> (int call \<times> kernel) result" where
  "Pipe c = syscall c (\<lambda>s. Inr (sys_Pipe, s))"

definition Socket :: "nat \<Rightarrow> int \<Rightarrow> kernel \<Rightarrow> (int call \<times> kernel) result" where
  "Socket c port = syscall c (\<lambda>s. Inr (sys_Socket port, s))"

definition Listen :: "nat \<Rightarrow> int \<Rightarrow> kernel \<Rightarrow> (int call \<times> kernel) result" where
  "Listen c sock = syscall c (\<lambda>s. Inr (sys_Listen sock, s))"

definition Accept :: "nat \<Rightarrow> int \<Rightarrow> kernel \<Rightarrow> (int call \<times> kernel) result" where
  "Accept c lsock = syscall c (\<lambda>s. Inr (sys_Accept lsock, s))"

definition Connect :: "nat \<Rightarrow> int \<Rightarrow> int \<Rightarrow> 64 word \<Rightarrow> kernel \<Rightarrow> (int call \<times> kernel) result" where
  "Connect c sock port timeout = syscall c (\<lambda>s. Inr (sys_Connect sock port timeout, s))"

definition ShutDown :: "nat \<Rightarrow> int \<Rightarrow> int \<Rightarrow> kernel \<Rightarrow> (int call \<times> kernel) result" where
  "ShutDown c sock how = syscall c (\<lambda>s. Inr (sys_ShutDown sock how, s))"

definition OpenInfo :: "nat \<Rightarrow> kernel \<Rightarrow> (int call \<times> kernel) result" where
  "OpenInfo c = syscall c (\<lambda>s. Inr (sys_OpenInfo, s))"

section \<open>Starting the system\<close>

text \<open>\<open>FATAL\<close> prints a message and aborts the program.\<close>

definition initialize_processes :: "nat \<Rightarrow> nat \<times> ptref \<times> nat \<Rightarrow> kernel \<Rightarrow> kernel result" where
  "initialize_processes c adr s =
     rbind (Exec c None 0 None adr (init_process_table s)) (\<lambda>(r, s1).
       if r \<noteq> Return 0 then Inl AssertFail else Inr s1)"

text \<open>
  What core 0 does in \<open>boot_tinyos_kernel\<close> before the barrier.  The initialisation of the
  scheduler is a parameter.
\<close>

definition boot_core_0 ::
  "(kernel \<Rightarrow> kernel result) \<Rightarrow> task \<Rightarrow> int \<Rightarrow> ptr \<Rightarrow> nat \<times> ptref \<times> nat \<Rightarrow> kernel \<Rightarrow> kernel result" where
  "boot_core_0 init_scheduler init_task len a adr s =
     rbind (initialize_processes 0 adr s) (\<lambda>s1.
     rbind (init_scheduler (initialize_files (initialize_devices 0 s1))) (\<lambda>s2.
     rbind (Exec 0 init_task len a adr s2) (\<lambda>(r, s3).
       if r \<noteq> Return 1 then Inl AssertFail else Inr s3)))"

text \<open>
  \<open>boot\<close> up to the point where every core is in its idle thread: the virtual machine starts
  the threads of the cores and sets up its terminals, core 0 initialises the kernel while the
  other cores wait at the barrier, and all of them enter the scheduler.
\<close>

definition boot_with ::
  "(kernel \<Rightarrow> kernel result) \<Rightarrow> nat \<Rightarrow> uint \<Rightarrow> usec \<Rightarrow> task \<Rightarrow> int \<Rightarrow> ptr \<Rightarrow> nat \<times> ptref \<times> nat \<Rightarrow>
   kernel \<Rightarrow> kernel result" where
  "boot_with init_scheduler n serialno clk boot_task len a adr s =
     rbind (vm_boot n serialno clk s) (\<lambda>s1.
     rbind (boot_core_0 init_scheduler boot_task len a adr
              (fold bootfunc_init [0..<n] (s1\<lparr>nterm := serialno\<rparr>))) (\<lambda>s2.
     Inr (fold run_scheduler_init [0..<n] s2)))"

definition boot ::
  "nat \<Rightarrow> uint \<Rightarrow> usec \<Rightarrow> task \<Rightarrow> int \<Rightarrow> ptr \<Rightarrow> nat \<times> ptref \<times> nat \<Rightarrow> kernel \<Rightarrow> kernel result" where
  "boot = boot_with initialize_scheduler"

text \<open>
  The store \<open>SCHED[SCHED_MAX_LEVEL]\<close> in \<open>initialize_scheduler\<close> is out of bounds, so in C the start
  has no meaning, and in the model it is a fault.  What it does on a machine where the variable
  declared next, \<open>TIMEOUT_LIST\<close>, lies in memory right behind \<open>SCHED\<close>: the stray iteration
  initialises \<open>TIMEOUT_LIST\<close>, which the function then does once more.  The runs of the system
  start from this layout.
\<close>

definition init_sched_lists :: "kernel \<Rightarrow> kernel result" where
  "init_sched_lists s =
     (let h = fold (\<lambda>i. rlnode_init (if i < SCHED_MAX_LEVEL then SchedQ i else TimeoutList) ONull)
                [0..SCHED_MAX_LEVEL] (rl s)
      in Inr (s\<lparr>rl := rlnode_init TimeoutList ONull h\<rparr>))"

end
