(* ===== verification/Boot.thy ===== *)
theory Boot
  imports Syscalls
begin

text \<open>
  The start of the system.  Every initialisation is shown to set up its own lists and tables
  and to keep those of the others, up to the state in which every core is in its idle thread
  and the thread of the first process is ready.
\<close>

section \<open>The process table\<close>

text \<open>What the initialisation of the process table leaves alone.\<close>

definition boot_frame :: "kernel \<Rightarrow> kernel \<Rightarrow> bool" where
  "boot_frame s s' \<longleftrightarrow> keeps_on (\<lambda>n. \<not> proc_node n) (rl s) (rl s') \<and> tcbs s' = tcbs s \<and>
     ptcbs s' = ptcbs s \<and> cctx s' = cctx s \<and> active_threads s' = active_threads s \<and>
     waiters s' = waiters s \<and> kernel_sem s' = kernel_sem s \<and> FT s' = FT s \<and> mem s' = mem s \<and>
     cores s' = cores s \<and> ncores s' = ncores s \<and> nterm s' = nterm s"

lemma boot_frame_refl [simp]: "boot_frame s s"
  by (simp add: boot_frame_def)

lemma boot_frame_trans: "boot_frame s s' \<Longrightarrow> boot_frame s' s'' \<Longrightarrow> boot_frame s s''"
  unfolding boot_frame_def using keeps_on_trans by metis

definition fresh_pcb :: "kernel \<Rightarrow> pref \<Rightarrow> bool" where
  "fresh_pcb s p \<longleftrightarrow> pstate (PT s p) = FREE \<and> FIDT (PT s p) = (\<lambda>_. None)"

definition pcb_nodes :: "kernel \<Rightarrow> pref \<Rightarrow> bool" where
  "pcb_nodes s p \<longleftrightarrow> isring (rl s) (ThreadList p) [] \<and> isring (rl s) (ChildrenList p) [] \<and>
     isring (rl s) (ExitedList p) [] \<and> isring (rl s) (ChildrenNode p) [] \<and> isring (rl s) (ExitedNode p) [] \<and>
     obj (rl s) (ChildrenNode p) = OPcb p \<and> obj (rl s) (ExitedNode p) = OPcb p"

lemma clear_fids: "fold (\<lambda>i F. F(i := None)) is (\<lambda>_. None) = (\<lambda>_. None)"
proof (induction "is")
  case (Cons i "is")
  have "(\<lambda>_. None)(i := None) = (\<lambda>_. None)" by (simp add: fun_eq_iff)
  with Cons show ?case by simp
qed simp

lemma initialize_PCB_step:
  assumes "\<forall>q. fresh_pcb s q" and "condvars s = (\<lambda>_. None)"
  shows "\<forall>q. fresh_pcb (initialize_PCB p s) q" and "condvars (initialize_PCB p s) = (\<lambda>_. None)"
    and "pcb_nodes (initialize_PCB p s) p" and "pcb_nodes s q \<Longrightarrow> pcb_nodes (initialize_PCB p s) q"
    and "boot_frame s (initialize_PCB p s)"
proof -
  show "\<forall>q. fresh_pcb (initialize_PCB p s) q"
    using assms(1) by (auto simp: initialize_PCB_def Let_def set_PCB_def fresh_pcb_def clear_fids)
  show "condvars (initialize_PCB p s) = (\<lambda>_. None)"
    using assms(2) by (simp add: initialize_PCB_def Let_def set_PCB_def fun_eq_iff)
  show new: "pcb_nodes (initialize_PCB p s) p"
    by (simp add: initialize_PCB_def Let_def set_PCB_def pcb_nodes_def init_list init_keeps)
  show "pcb_nodes (initialize_PCB p s) q" if "pcb_nodes s q"
  proof (cases "q = p")
    case False
    with that show ?thesis
      by (simp add: initialize_PCB_def Let_def set_PCB_def pcb_nodes_def init_keeps)
  qed (use new in simp)
  have "keeps_on (\<lambda>n. \<not> proc_node n) (rl s) (rl (initialize_PCB p s))"
    unfolding initialize_PCB_def Let_def set_PCB_def
    by (simp, intro keeps_on_trans [OF _ keeps_on_init]) simp_all
  then show "boot_frame s (initialize_PCB p s)"
    by (simp add: boot_frame_def initialize_PCB_def Let_def set_PCB_def)
qed

lemma initialize_PCBs:
  assumes "\<forall>q. fresh_pcb s q" and "condvars s = (\<lambda>_. None)"
  shows "let s' = fold initialize_PCB [0..<n] s in (\<forall>q. fresh_pcb s' q) \<and> condvars s' = (\<lambda>_. None) \<and>
    (\<forall>p < n. pcb_nodes s' p) \<and> boot_frame s s'"
proof (induction n)
  case 0
  then show ?case using assms by simp
next
  case (Suc n)
  define s1 where "s1 = fold initialize_PCB [0..<n] s"
  have 1: "\<forall>q. fresh_pcb s1 q" "condvars s1 = (\<lambda>_. None)" "\<forall>p < n. pcb_nodes s1 p" "boot_frame s s1"
    using Suc unfolding s1_def Let_def by simp_all
  note i = initialize_PCB_step [OF 1(1,2)]
  have k: "\<forall>p < n. pcb_nodes (initialize_PCB n s1) p" using 1(3) i(4) by blast
  have "fold initialize_PCB [0..<Suc n] s = initialize_PCB n s1" by (simp add: s1_def)
  then show ?case
    using k i(1-3) [of n] boot_frame_trans [OF 1(4) i(5)] by (auto simp: Let_def less_Suc_eq)
qed

lemma free_list_chain:
  assumes "distinct ps" and "pcb_freelist s = None"
  shows "let s' = foldr free_list_push ps s in pcb_chain s' (pcb_freelist s') ps \<and>
    (\<forall>p. \<exists>q. PT s' p = (PT s p)\<lparr>parent := q\<rparr>) \<and> rl s' = rl s \<and> condvars s' = condvars s \<and> boot_frame s s'"
  using assms(1)
proof (induction ps)
  case Nil
  have "\<exists>q. PT s p = (PT s p)\<lparr>parent := q\<rparr>" for p by (intro exI [of _ "parent (PT s p)"]) simp
  then show ?case using assms(2) by simp
next
  case (Cons p ps)
  define s1 where "s1 = foldr free_list_push ps s"
  have 1: "pcb_chain s1 (pcb_freelist s1) ps" "\<forall>p. \<exists>q. PT s1 p = (PT s p)\<lparr>parent := q\<rparr>" "rl s1 = rl s"
    "condvars s1 = condvars s" "boot_frame s s1"
    using Cons by (simp_all add: s1_def Let_def)
  let ?s' = "free_list_push p s1"
  have f: "PT ?s' = (PT s1)(p := (PT s1 p)\<lparr>parent := pcb_freelist s1\<rparr>)" "pcb_freelist ?s' = Some p"
    "rl ?s' = rl s1" "condvars ?s' = condvars s1"
    by (simp_all add: free_list_push_def set_PCB_def)
  have "pcb_chain ?s' (pcb_freelist s1) ps = pcb_chain s1 (pcb_freelist s1) ps"
    by (rule pcb_chain_cong) (use Cons.prems in \<open>auto simp: f\<close>)
  then have "pcb_chain ?s' (pcb_freelist ?s') (p # ps)" using 1(1) by (simp add: f)
  moreover have "\<exists>q'. PT ?s' q = (PT s q)\<lparr>parent := q'\<rparr>" for q
  proof -
    obtain q' where "PT s1 q = (PT s q)\<lparr>parent := q'\<rparr>" using 1(2) by blast
    then show ?thesis by (cases "q = p") (auto simp: f)
  qed
  moreover have "boot_frame s ?s'"
    by (rule boot_frame_trans [OF 1(5)]) (simp add: boot_frame_def free_list_push_def set_PCB_def)
  moreover have "foldr free_list_push (p # ps) s = ?s'" by (simp add: s1_def)
  ultimately show ?case using 1(3,4) f(3,4) unfolding Let_def by metis
qed

lemma init_process_table_ok:
  assumes "\<forall>q. fresh_pcb s q" and "condvars s = (\<lambda>_. None)"
  obtains s' where "init_process_table s = s'" and "pcb_pool s' [0..<MAX_PROC]" and "\<forall>q. fresh_pcb s' q"
    and "condvars s' = (\<lambda>_. None)" and "\<forall>p < MAX_PROC. pcb_nodes s' p" and "boot_frame s s'"
proof -
  define s1 where "s1 = fold initialize_PCB [0..<MAX_PROC] s"
  have 1: "\<forall>q. fresh_pcb s1 q" "condvars s1 = (\<lambda>_. None)" "\<forall>p < MAX_PROC. pcb_nodes s1 p" "boot_frame s s1"
    using initialize_PCBs [OF assms, of MAX_PROC] unfolding s1_def Let_def by simp_all
  define s2 where "s2 = foldr free_list_push [0..<MAX_PROC] (s1\<lparr>pcb_freelist := None\<rparr>)"
  have 2: "pcb_chain s2 (pcb_freelist s2) [0..<MAX_PROC]" "\<forall>p. \<exists>q. PT s2 p = (PT s1 p)\<lparr>parent := q\<rparr>"
    "rl s2 = rl s1" "condvars s2 = condvars s1" "boot_frame (s1\<lparr>pcb_freelist := None\<rparr>) s2"
    using free_list_chain [of "[0..<MAX_PROC]" "s1\<lparr>pcb_freelist := None\<rparr>"] by (simp_all add: s2_def Let_def)
  let ?s' = "s2\<lparr>process_count := 0\<rparr>"
  have e: "init_process_table s = ?s'"
    by (simp add: init_process_table_def Let_def s1_def [symmetric] s2_def foldr_conv_fold)
  have fr: "fresh_pcb ?s' q" for q
  proof -
    obtain x where "PT s2 q = (PT s1 q)\<lparr>parent := x\<rparr>" using 2(2) by blast
    then show ?thesis using 1(1) by (simp add: fresh_pcb_def)
  qed
  then have nl: "\<not> live ?s' q" for q by (simp add: live_def fresh_pcb_def)
  have "pcb_chain ?s' q ps = pcb_chain s2 q ps" for q ps by (rule pcb_chain_cong) simp
  then have "pcb_pool ?s' [0..<MAX_PROC]" using 2(1) nl by (auto simp: pcb_pool_def)
  moreover have "pcb_nodes ?s' p" if "p < MAX_PROC" for p using 1(3) that by (simp add: pcb_nodes_def 2(3))
  moreover have "boot_frame s ?s'" using 1(4) 2(5) by (simp add: boot_frame_def 2(3))
  ultimately show ?thesis using that [OF e] fr 1(2) 2(4) by simp
qed

section \<open>The processes without a parent\<close>

definition root_setup :: "pref \<Rightarrow> task \<Rightarrow> int \<Rightarrow> ptr \<Rightarrow> nat \<Rightarrow> kernel \<Rightarrow> kernel" where
  "root_setup p call len a m s =
     s\<lparr>PT := (PT s)(p := (PT s p)\<lparr>pstate := ALIVE, thread_count := 0, parent := None,
         main_task := call, argl := len, args := map_option (\<lambda>_. m) a\<rparr>),
       pcb_freelist := parent (PT s p), process_count := process_count s + 1,
       mem := (case a of None \<Rightarrow> mem s | Some b \<Rightarrow> (mem s)(m \<mapsto> take (nat len) (the (mem s b))))\<rparr>"

lemma sys_Exec_root:
  assumes pool: "pcb_pool s (p # fl)" and p: "p \<le> 1" and a: "args_ok a len s"
  shows "sys_Exec c call len a (m, pa, ta) s =
    rbind (if call \<noteq> None
           then new_thread c pa ta p start_main_thread_func call len a (root_setup p call len a m s)
           else Inr (root_setup p call len a m s)) (\<lambda>s'. Inr (int p, s'))"
    and "pcb_pool (root_setup p call len a m s) fl" and "\<not> live s p" and "p < MAX_PROC"
proof -
  obtain s1 where s1: "acquire_PCB s = (Some p, s1)" "pcb_pool s1 fl" "\<not> live s p" "p < MAX_PROC"
    "s1 = s\<lparr>PT := (PT s)(p := (PT s p)\<lparr>pstate := ALIVE, thread_count := 0\<rparr>),
      pcb_freelist := parent (PT s p), process_count := process_count s + 1\<rparr>"
    by (rule acquire_pool [OF pool])
  show "\<not> live s p" and "p < MAX_PROC" by (fact s1(3,4))+
  let ?s3 = "set_PCB p ((PT (set_PCB p ((PT s1 p)\<lparr>parent := None\<rparr>) s1) p)\<lparr>main_task := call, argl := len\<rparr>)
    (set_PCB p ((PT s1 p)\<lparr>parent := None\<rparr>) s1)"
  have "copy_args m a len p ?s3 = Inr (root_setup p call len a m s)"
  proof (cases a)
    case None
    then show ?thesis
      by (simp add: copy_args_def) (intro kernel.equality; simp add: set_PCB_def s1(5) root_setup_def)
  next
    case (Some b)
    then obtain bs where bs: "mem s b = Some bs" "0 \<le> len" "nat len \<le> length bs"
      using a by (auto simp: args_ok_def)
    have "mem ?s3 = mem s" by (simp add: set_PCB_def s1(5))
    then show ?thesis using Some bs
      by (simp add: copy_args_def) (intro kernel.equality; simp add: set_PCB_def s1(5) root_setup_def)
  qed
  then show "sys_Exec c call len a (m, pa, ta) s =
    rbind (if call \<noteq> None
           then new_thread c pa ta p start_main_thread_func call len a (root_setup p call len a m s)
           else Inr (root_setup p call len a m s)) (\<lambda>s'. Inr (int p, s'))"
    using s1(1) p by (simp add: sys_Exec_def get_pid_def Let_def)
  have nf: "p \<notin> set fl" using pcb_poolD(2) [OF pool] by simp
  have "live (root_setup p call len a m s) q = live s1 q" for q
    by (simp add: live_def root_setup_def s1(5))
  moreover have "parent (PT (root_setup p call len a m s) q) = parent (PT s1 q)" if "\<not> live s1 q" for q
    using that s1(4) by (auto simp: root_setup_def s1(5) live_def)
  ultimately show "pcb_pool (root_setup p call len a m s) fl"
    by (intro pcb_pool_live [OF s1(2)]) (simp_all add: root_setup_def s1(5))
qed

text \<open>A call when nobody waits for the kernel.\<close>

lemma syscall_alone:
  assumes "kernel_sem s = 1" and "f (s\<lparr>kernel_sem := 0\<rparr>) = Inr (r, s')" and "condvars s' KernelSemCv = None"
  shows "syscall c f s = Inr (Return r, s'\<lparr>kernel_sem := kernel_sem s' + 1\<rparr>)"
  using assms
  by (simp add: syscall_def kernel_lock_step_def pre_call_def post_call_def kernel_unlock_def Cond_Signal_def
      of_loop_def cv_signal.simps)

end
