(* ===== verification/Boot_Run.thy ===== *)
theory Boot_Run
  imports Boot
begin

text \<open>
  The kernel after the initialisations of core 0, after its call of \<open>Exec\<close>, and when every
  core has entered its idle thread.
\<close>

section \<open>The machine\<close>

definition machine_up :: "nat \<Rightarrow> kernel \<Rightarrow> bool" where
  "machine_up n s \<longleftrightarrow> isring (rl s) HaltedList [] \<and> (\<forall>c. \<not> halted (cores s c)) \<and>
     (\<forall>c < n. isring (rl s) (HaltedNode c) [] \<and> obj (rl s) (HaltedNode c) = OCore c) \<and> ncores s = n"

fun machine_node :: "node \<Rightarrow> bool" where
  "machine_node HaltedList = True"
| "machine_node (HaltedNode c) = True"
| "machine_node _ = False"

lemma machine_up_keeps:
  assumes m: "machine_up n s" and k: "keeps_on machine_node (rl s) (rl s')"
    and "\<And>c. halted (cores s' c) = halted (cores s c)" and "ncores s' = ncores s"
  shows "machine_up n s'"
proof -
  have "isring (rl s') z []" if "machine_node z" "isring (rl s) z []" for z
    by (rule keeps_onD(2) [OF k that(2,1)]) simp
  then show ?thesis using assms keeps_onD(1) [OF k] by (simp add: machine_up_def)
qed

text \<open>No thread and no stream exists yet.\<close>

definition no_threads :: "kernel \<Rightarrow> bool" where
  "no_threads s \<longleftrightarrow> tcbs s = Map.empty \<and> ptcbs s = Map.empty \<and> waiters s = Map.empty \<and>
     condvars s = (\<lambda>_. None) \<and> kernel_sem s = 1 \<and> active_threads s = 0"

definition no_fids :: "kernel \<Rightarrow> bool" where
  "no_fids s \<longleftrightarrow> (\<forall>p i. FIDT (PT s p) i = None)"

lemma machine_boot:
  assumes n: "0 < n" "n \<le> MAX_CORES" "unat serialno \<le> MAX_TERMINALS"
  obtains s1 where "vm_boot n serialno clk ((static_kernel h)\<lparr>mem := M\<rparr>) = Inr s1"
    and "machine_up n (fold bootfunc_init [0..<n] (s1\<lparr>nterm := serialno\<rparr>))"
    and "no_threads (fold bootfunc_init [0..<n] (s1\<lparr>nterm := serialno\<rparr>))"
    and "\<forall>q. fresh_pcb (fold bootfunc_init [0..<n] (s1\<lparr>nterm := serialno\<rparr>)) q"
    and "mem (fold bootfunc_init [0..<n] (s1\<lparr>nterm := serialno\<rparr>)) = M"
    and "nterm (fold bootfunc_init [0..<n] (s1\<lparr>nterm := serialno\<rparr>)) = serialno"
proof -
  let ?s = "(static_kernel h)\<lparr>mem := M\<rparr>"
  let ?t = "?s\<lparr>system_clock := clk, rl := rlnode_init HaltedList ONull (rl ?s), ncores := n\<rparr>"
  define s1 where "s1 = fold vm_boot_core [0..<n] ?t"
  have nc: "ncores ?s = 0" by (simp add: static_kernel_def)
  have v: "vm_boot n serialno clk ?s = Inr s1"
    using n nc unfolding s1_def vm_boot_def by simp
  have boot: "condvars (fold vm_boot_core cs s) = condvars s \<and> waiters (fold vm_boot_core cs s) = waiters s \<and>
      kernel_sem (fold vm_boot_core cs s) = kernel_sem s \<and> ptcbs (fold vm_boot_core cs s) = ptcbs s \<and>
      PT (fold vm_boot_core cs s) = PT s \<and> mem (fold vm_boot_core cs s) = mem s" for cs s
    by (induction cs arbitrary: s) (simp_all add: vm_boot_core_def set_core_def)
  have func: "condvars (fold bootfunc_init cs s) = condvars s \<and> waiters (fold bootfunc_init cs s) = waiters s \<and>
      kernel_sem (fold bootfunc_init cs s) = kernel_sem s \<and> ptcbs (fold bootfunc_init cs s) = ptcbs s \<and>
      PT (fold bootfunc_init cs s) = PT s \<and> mem (fold bootfunc_init cs s) = mem s \<and>
      nterm (fold bootfunc_init cs s) = nterm s" for cs s
    by (induction cs arbitrary: s) (simp_all add: bootfunc_init_def set_core_def)
  define s2 where "s2 = fold bootfunc_init [0..<n] (s1\<lparr>nterm := serialno\<rparr>)"
  have 1: "isring (rl s1) HaltedList [] \<and> (\<forall>c < n. isring (rl s1) (HaltedNode c) [] \<and>
      obj (rl s1) (HaltedNode c) = OCore c) \<and> (\<forall>c. \<not> halted (cores s1 c)) \<and> ncores s1 = n \<and>
    active_threads s1 = 0 \<and> tcbs s1 = Map.empty"
    using fold_vm_boot_core [of ?t n] unfolding s1_def [symmetric] Let_def
    by (simp add: init_list static_kernel_def)
  have 2: "rl s2 = rl s1" "tcbs s2 = tcbs s1" "ncores s2 = ncores s1" "active_threads s2 = active_threads s1"
    "halted (cores s2 c) = halted (cores s1 c)" for c
    using fold_bootfunc_init [of "[0..<n]" "s1\<lparr>nterm := serialno\<rparr>"] by (simp_all add: s2_def Let_def)
  show ?thesis
    by (rule that [OF v, folded s2_def])
      (use 1 2 in \<open>auto simp: machine_up_def no_threads_def fresh_pcb_def s2_def func s1_def boot static_kernel_def\<close>)
qed

section \<open>The initialisations\<close>

fun fcb_node :: "node \<Rightarrow> bool" where
  "fcb_node FcbFreelist = True"
| "fcb_node (FcbNode f) = True"
| "fcb_node _ = False"

lemma initialize_files_frame:
  "keeps_on (\<lambda>n. \<not> fcb_node n) (rl s) (rl (initialize_files s)) \<and>
   initialize_files s = s\<lparr>rl := rl (initialize_files s), FT := FT (initialize_files s)\<rparr>"
proof -
  let ?N = "\<lambda>n. \<not> fcb_node n"
  let ?s0 = "s\<lparr>rl := rlnode_init FcbFreelist ONull (rl s)\<rparr>"
  have r: "isring (rl ?s0) FcbFreelist []" by (simp add: init_list)
  have "keeps_on ?N (rl ?s0) (rl (fold init_FCB [0..<n] ?s0)) \<and>
     fold init_FCB [0..<n] ?s0 = ?s0\<lparr>rl := rl (fold init_FCB [0..<n] ?s0), FT := FT (fold init_FCB [0..<n] ?s0)\<rparr>" for n
  proof (induction n)
    case (Suc n)
    define s1 where "s1 = fold init_FCB [0..<n] ?s0"
    have 1: "isring (rl s1) FcbFreelist (map FcbNode [0..<n])"
      using init_FCB_list [OF r, of n] by (simp add: s1_def Let_def)
    let ?h = "rlnode_init (FcbNode n) (OFcb n) (rl s1)"
    have rh: "isring ?h FcbFreelist (map FcbNode [0..<n])" by (rule init_keeps [OF 1]) auto
    have "keeps_on ?N (rl s1) ?h" by (rule keeps_on_init) simp
    moreover have "keeps_on ?N ?h (rlist_push_back FcbFreelist (FcbNode n) ?h)"
      by (rule keeps_on_push_back [OF rh init_list]) simp_all
    ultimately have k: "keeps_on ?N (rl s1) (rlist_push_back FcbFreelist (FcbNode n) ?h)"
      by (rule keeps_on_trans)
    let ?h' = "rlist_push_back FcbFreelist (FcbNode n) ?h" and ?F = "(FT s1)(n := (FT s1 n)\<lparr>refcount := 0\<rparr>)"
    define A B where "A = rl s1" and "B = FT s1"
    have e: "init_FCB n s1 = s1\<lparr>rl := ?h', FT := ?F\<rparr>"
      by (intro kernel.equality) (simp_all add: init_FCB_def Let_def set_FCB_def)
    have s1: "s1 = ?s0\<lparr>rl := A, FT := B\<rparr>" using Suc unfolding s1_def [symmetric] A_def B_def by blast
    have "keeps_on ?N (rl ?s0) (rl (init_FCB n s1))"
      using keeps_on_trans [OF _ k] Suc unfolding s1_def [symmetric] e by simp
    moreover have "init_FCB n s1 = ?s0\<lparr>rl := rl (init_FCB n s1), FT := FT (init_FCB n s1)\<rparr>"
      unfolding e by (subst s1) (intro kernel.equality; simp)
    ultimately show ?case by (simp add: s1_def)
  qed simp
  from this [of MAX_FILES] have "keeps_on ?N (rl ?s0) (rl (initialize_files s))"
    and "initialize_files s = ?s0\<lparr>rl := rl (initialize_files s), FT := FT (initialize_files s)\<rparr>"
    by (simp_all add: initialize_files_def)
  moreover have "keeps_on ?N (rl s) (rl ?s0)" by (simp add: keeps_on_init)
  ultimately show ?thesis using keeps_on_trans by simp
qed

definition core0_ready :: "nat \<Rightarrow> (nat \<rightharpoonup> 8 word list) \<Rightarrow> kernel \<Rightarrow> bool" where
  "core0_ready n M s \<longleftrightarrow> machine_up n s \<and> no_threads s \<and>
     (\<forall>l \<in> sched_sentinels. isring (rl s) l []) \<and>
     (\<forall>i. SchedQ i \<in> sched_sentinels \<longrightarrow> obj (rl s) (SchedQ i) = ONull) \<and>
     fs_inv (\<lambda>_. 0) s [0..<MAX_FILES] \<and> devs_ok s \<and> pcb_pool s [1..<MAX_PROC] \<and>
     pstate (PT s 0) = ALIVE \<and> thread_count (PT s 0) = 0 \<and> parent (PT s 0) = None \<and> (\<forall>q. q \<noteq> 0 \<longrightarrow> pstate (PT s q) = FREE) \<and>
     no_fids s \<and> (\<forall>p < MAX_PROC. pcb_nodes s p) \<and> mem s = M"

lemma pcb_nodes_keeps:
  assumes n: "pcb_nodes s p" and k: "keeps_on proc_node (rl s) (rl s')"
  shows "pcb_nodes s' p"
proof -
  have "isring (rl s') z []" if "proc_node z" "isring (rl s) z []" for z
    by (rule keeps_onD(2) [OF k that(2,1)]) simp
  then show ?thesis using n keeps_onD(1) [OF k] by (simp add: pcb_nodes_def)
qed

text \<open>The null process.\<close>

lemma initialize_processes_ok:
  assumes m: "machine_up n s" and t: "no_threads s" and f: "\<forall>q. fresh_pcb s q"
  obtains s' where "initialize_processes c adr s = Inr s'" and "machine_up n s'" and "no_threads s'"
    and "pcb_pool s' [1..<MAX_PROC]" and "pstate (PT s' 0) = ALIVE" and "parent (PT s' 0) = None"
    and "\<forall>q. q \<noteq> 0 \<longrightarrow> pstate (PT s' q) = FREE" and "no_fids s'" and "\<forall>p < MAX_PROC. pcb_nodes s' p"
    and "mem s' = mem s" and "nterm s' = nterm s" and "thread_count (PT s' 0) = 0"
proof -
  have "condvars s = (\<lambda>_. None)" using t by (simp add: no_threads_def)
  from init_process_table_ok [OF f this] obtain s1 where s1: "init_process_table s = s1"
    "pcb_pool s1 [0..<MAX_PROC]" "\<forall>q. fresh_pcb s1 q" "condvars s1 = (\<lambda>_. None)"
    "\<forall>p < MAX_PROC. pcb_nodes s1 p" "boot_frame s s1" by blast
  have t1: "no_threads s1" using t s1(4,6) by (simp add: no_threads_def boot_frame_def)
  have m1: "machine_up n s1"
    by (rule machine_up_keeps [OF m]) (use s1(6) in \<open>auto simp: boot_frame_def elim!: keeps_on_sub elim: machine_node.elims\<close>)
  have up: "[0..<MAX_PROC] = 0 # [1..<MAX_PROC]"
    by (subst upt_conv_Cons) (simp_all add: MAX_PROC_def)
  have pool: "pcb_pool (s1\<lparr>kernel_sem := 0\<rparr>) (0 # [1..<MAX_PROC])"
    using s1(2) unfolding up by (rule pcb_pool_live) (simp_all add: live_def)
  obtain m0 pa ta where adr: "adr = (m0, pa, ta)" by (cases adr)
  let ?s2 = "root_setup 0 None 0 None m0 (s1\<lparr>kernel_sem := 0\<rparr>)"
  have a: "args_ok None 0 (s1\<lparr>kernel_sem := 0\<rparr>)" by (simp add: args_ok_def)
  note e = sys_Exec_root(1) [OF pool _ a, where c = c and call = None and m = m0 and pa = pa and ta = ta]
    sys_Exec_root(2) [OF pool _ a, where call = None and m = m0]
  let ?s' = "?s2\<lparr>kernel_sem := kernel_sem ?s2 + 1\<rparr>"
  have "Exec c None 0 None adr s1 = Inr (Return 0, ?s')"
    unfolding Exec_def adr
    by (rule syscall_alone) (use t1 e(1) in \<open>simp_all add: no_threads_def root_setup_def\<close>)
  then have "initialize_processes c adr s = Inr ?s'" by (simp add: initialize_processes_def s1(1))
  moreover have "machine_up n ?s'"
    by (rule machine_up_keeps [OF m1]) (simp_all add: root_setup_def)
  moreover have "no_threads ?s'" using t1 by (simp add: no_threads_def root_setup_def)
  moreover have "pcb_pool ?s' [1..<MAX_PROC]"
    by (rule pcb_pool_live [OF e(2)]) (simp_all add: live_def)
  moreover have "pstate (PT ?s' 0) = ALIVE" "parent (PT ?s' 0) = None"
    "\<forall>q. q \<noteq> 0 \<longrightarrow> pstate (PT ?s' q) = FREE" "no_fids ?s'"
    using s1(3) by (simp_all add: root_setup_def fresh_pcb_def no_fids_def)
  moreover have "pcb_nodes ?s' p" if "p < MAX_PROC" for p
    by (rule pcb_nodes_keeps [where s = s1]) (use s1(5) that in \<open>simp_all add: root_setup_def\<close>)
  moreover have "mem ?s' = mem s" "nterm ?s' = nterm s" "thread_count (PT ?s' 0) = 0"
    using s1(6) by (simp_all add: root_setup_def boot_frame_def)
  ultimately show ?thesis using that by blast
qed

text \<open>The devices, the streams and the lists of the scheduler.\<close>

lemma initialize_devices_frame:
  "rl (initialize_devices c s) = rl s" "PT (initialize_devices c s) = PT s"
  "tcbs (initialize_devices c s) = tcbs s" "ptcbs (initialize_devices c s) = ptcbs s"
  "waiters (initialize_devices c s) = waiters s" "kernel_sem (initialize_devices c s) = kernel_sem s"
  "active_threads (initialize_devices c s) = active_threads s" "mem (initialize_devices c s) = mem s"
  "ncores (initialize_devices c s) = ncores s" "nterm (initialize_devices c s) = nterm s"
  "pcb_freelist (initialize_devices c s) = pcb_freelist s" "process_count (initialize_devices c s) = process_count s"
  "halted (cores (initialize_devices c s) d) = halted (cores s d)" "devs_ok (initialize_devices c s)"
  "condvars s = (\<lambda>_. None) \<Longrightarrow> condvars (initialize_devices c s) = (\<lambda>_. None)"
  by (simp_all add: initialize_devices_def Let_def cpu_interrupt_handler_def set_core_def devs_ok_def
      bios_serial_ports_def fun_eq_iff split: cvref.splits)

lemma init_sched_lists_ok:
  obtains s' where "init_sched_lists s = Inr s'" and "s' = s\<lparr>rl := rl s'\<rparr>"
    and "keeps_on (\<lambda>n. n \<notin> sched_sentinels) (rl s) (rl s')"
    and "\<forall>l \<in> sched_sentinels. isring (rl s') l []"
    and "\<forall>i. SchedQ i \<in> sched_sentinels \<longrightarrow> obj (rl s') (SchedQ i) = ONull"
proof -
  let ?h0 = "rlnode_init (SchedQ 0) ONull (rl s)"
  let ?h1 = "rlnode_init (SchedQ 1) ONull ?h0"
  let ?h2 = "rlnode_init (SchedQ 2) ONull ?h1"
  let ?h3 = "rlnode_init TimeoutList ONull ?h2"
  have "init_sched_lists s = Inr (s\<lparr>rl := ?h3\<rparr>)"
  proof -
    have "[0..SCHED_MAX_LEVEL] = [0, 1, 2, 3]" by (simp add: SCHED_MAX_LEVEL_def upto.simps)
    moreover have "rlnode_init TimeoutList ONull ?h3 = ?h3" by (simp add: rlnode_init_def rlnode_new_def Let_def)
    ultimately show ?thesis by (simp add: init_sched_lists_def SCHED_MAX_LEVEL_def Let_def)
  qed
  moreover have "keeps_on (\<lambda>n. n \<notin> sched_sentinels) (rl s) ?h3"
    by (rule keeps_on_trans [OF keeps_on_trans [OF keeps_on_trans [OF keeps_on_init keeps_on_init] keeps_on_init] keeps_on_init])
      (simp_all add: sched_sentinels_def)
  moreover have "\<forall>l \<in> sched_sentinels. isring ?h3 l []"
    by (simp add: sched_sentinels_def init_list init_keeps)
  moreover have "\<forall>i. SchedQ i \<in> sched_sentinels \<longrightarrow> obj ?h3 (SchedQ i) = ONull"
    by (auto simp: sched_sentinels_def)
  ultimately show ?thesis using that [of "s\<lparr>rl := ?h3\<rparr>"] by simp
qed

lemma core0_ready_init:
  assumes m: "machine_up n s" and t: "no_threads s" and f: "\<forall>q. fresh_pcb s q"
  obtains s1 s2 where "initialize_processes 0 adr s = Inr s1"
    and "init_sched_lists (initialize_files (initialize_devices 0 s1)) = Inr s2"
    and "core0_ready n (mem s) s2" and "nterm s2 = nterm s"
proof -
  obtain s1 where s1: "initialize_processes 0 adr s = Inr s1" "machine_up n s1" "no_threads s1"
    "pcb_pool s1 [1..<MAX_PROC]" "pstate (PT s1 0) = ALIVE" "parent (PT s1 0) = None"
    "\<forall>q. q \<noteq> 0 \<longrightarrow> pstate (PT s1 q) = FREE" "no_fids s1" "\<forall>p < MAX_PROC. pcb_nodes s1 p"
    "mem s1 = mem s" "nterm s1 = nterm s" "thread_count (PT s1 0) = 0" by (rule initialize_processes_ok [OF m t f])
  let ?d = "initialize_devices 0 s1"
  note d = initialize_devices_frame [where c = 0 and s = s1]
  have cd: "condvars ?d = (\<lambda>_. None)" by (rule d(15)) (use s1(3) in \<open>simp add: no_threads_def\<close>)
  define e where "e = initialize_files ?d"
  define h F where "h = rl e" and "F = FT e"
  have e: "e = ?d\<lparr>rl := h, FT := F\<rparr>" and ke: "keeps_on (\<lambda>n. \<not> fcb_node n) (rl s1) h"
    using initialize_files_frame [of ?d] unfolding e_def [symmetric] h_def [symmetric] F_def [symmetric] d(1) by blast+
  have fs: "fs_inv (\<lambda>_. 0) e [0..<MAX_FILES]"
    unfolding e_def by (rule initialize_files_inv) (use s1(8) in \<open>simp add: d no_fids_def\<close>)
  obtain s2 where s2: "init_sched_lists e = Inr s2" "s2 = e\<lparr>rl := rl s2\<rparr>"
    "keeps_on (\<lambda>n. n \<notin> sched_sentinels) (rl e) (rl s2)" "\<forall>l \<in> sched_sentinels. isring (rl s2) l []"
    "\<forall>i. SchedQ i \<in> sched_sentinels \<longrightarrow> obj (rl s2) (SchedQ i) = ONull"
    by (rule init_sched_lists_ok)
  define h2 where "h2 = rl s2"
  have s2e: "s2 = ?d\<lparr>rl := h2, FT := F\<rparr>"
    unfolding s2(2) [folded h2_def] by (subst e) (intro kernel.equality; simp)
  have k2: "keeps_on (\<lambda>n. n \<notin> sched_sentinels) h h2" using s2(3) by (simp add: h_def h2_def)
  have k: "keeps_on M (rl s1) h2" if "\<And>n. M n \<Longrightarrow> \<not> fcb_node n \<and> n \<notin> sched_sentinels" for M
    by (rule keeps_on_trans [OF keeps_on_sub [OF ke] keeps_on_sub [OF k2]]) (use that in blast)+
  have "machine_up n s2"
    by (rule machine_up_keeps [OF s1(2)])
      (auto simp: s2e d sched_sentinels_def intro!: k elim: machine_node.elims)
  moreover have "no_threads s2" using s1(3) cd by (simp add: s2e d no_threads_def)
  moreover have "fs_inv (\<lambda>_. 0) s2 [0..<MAX_FILES]"
    by (rule fs_frame [OF fs s2(3)]) (auto simp: sched_sentinels_def s2e e)
  moreover have "pcb_pool s2 [1..<MAX_PROC]"
    by (rule pcb_pool_live [OF s1(4)]) (simp_all add: s2e d live_def)
  moreover have "devs_ok s2" using d(14) by (simp add: s2e devs_ok_def bios_serial_ports_def)
  moreover have "pcb_nodes s2 p" if "p < MAX_PROC" for p
    by (rule pcb_nodes_keeps [where s = s1])
      (use s1(9) that in \<open>auto simp: s2e sched_sentinels_def intro!: k elim: proc_node.elims\<close>)
  moreover have "no_fids s2" "mem s2 = mem s" "nterm s2 = nterm s" "pstate (PT s2 0) = ALIVE"
    "parent (PT s2 0) = None" "\<forall>q. q \<noteq> 0 \<longrightarrow> pstate (PT s2 q) = FREE" "thread_count (PT s2 0) = 0"
    using s1(5-12) by (simp_all add: s2e d no_fids_def)
  ultimately have "core0_ready n (mem s) s2" using s2(4,5) by (simp add: core0_ready_def)
  then show ?thesis using that s1(1) s2(1) \<open>nterm s2 = nterm s\<close> unfolding e_def by blast
qed

end
