(* ===== verification/Boot_System.thy ===== *)
theory Boot_System
  imports Boot_Run
begin

text \<open>
  The first process and the idle threads: the state of the system when the start is over
  satisfies every invariant of the kernel.
\<close>

section \<open>Creating a thread before the cores are up\<close>

definition new_thread_heap :: "ptref \<Rightarrow> nat \<Rightarrow> pref \<Rightarrow> kernel \<Rightarrow> (node, key) rlheap" where
  "new_thread_heap pa ta p s =
     rlist_push_back (SchedQ 0) (SchedNode (HeapT ta)) (rlnode_init (SchedNode (HeapT ta)) (OTcb (HeapT ta))
       (rlist_push_back (ThreadList p) (ThreadNode pa) (rlnode_init (ThreadNode pa) (OPtcb pa) (rl s))))"

lemma new_thread_heap_keeps:
  assumes "isring (rl s) (ThreadList p) ts" and "ThreadNode pa \<notin> set ts" and "isring (rl s) (SchedQ 0) qs"
    and "SchedNode (HeapT ta) \<notin> set qs" and "set qs \<subseteq> range SchedNode"
  shows "keeps_on machine_node (rl s) (new_thread_heap pa ta p s)"
proof -
  let ?h1 = "rlnode_init (ThreadNode pa) (OPtcb pa) (rl s)"
  let ?h2 = "rlist_push_back (ThreadList p) (ThreadNode pa) ?h1"
  let ?h3 = "rlnode_init (SchedNode (HeapT ta)) (OTcb (HeapT ta)) ?h2"
  have t1: "isring ?h1 (ThreadList p) ts" by (rule init_keeps [OF assms(1)]) (use assms(2) in simp)
  have q1: "isring ?h1 (SchedQ 0) qs" by (rule init_keeps [OF assms(3)]) (use assms(5) in auto)
  let ?N = "\<lambda>n. machine_node n \<or> n \<in> range SchedQ \<or> n \<in> range SchedNode"
  have k2: "keeps_on ?N ?h1 ?h2" by (rule keeps_on_push_back [OF t1 init_list]) auto
  have q2: "isring ?h2 (SchedQ 0) qs" by (rule keeps_onD(2) [OF k2 q1]) (use assms(5) in auto)
  have q3: "isring ?h3 (SchedQ 0) qs" by (rule init_keeps [OF q2]) (use assms(4) in simp)
  have "keeps_on machine_node ?h3 (new_thread_heap pa ta p s)"
    unfolding new_thread_heap_def by (rule keeps_on_push_back [OF q3 init_list]) simp_all
  moreover have "keeps_on machine_node ?h2 ?h3" and "keeps_on machine_node (rl s) ?h1"
    by (rule keeps_on_init; simp)+
  moreover have "keeps_on machine_node ?h1 ?h2" by (rule keeps_on_sub [OF k2]) simp
  ultimately show ?thesis by (metis keeps_on_trans)
qed

definition woken_new :: "nat \<Rightarrow> tref \<Rightarrow> tcb \<Rightarrow> kernel \<Rightarrow> kernel" where
  "woken_new c t x s =
     (let s1 = (set_tcb t (x\<lparr>tstate := READY\<rparr>) (snd (preempt_off c s)))
                 \<lparr>rl := rlist_push_back (SchedQ (priority x)) (SchedNode t) (rl s)\<rparr>
      in if preemption (cctx s c) then preempt_on c s1 else s1)"

lemma wakeup_new:
  assumes x: "tcbs s t = Some x" "tstate x = INIT" "wakeup_time x = NO_TIMEOUT" "tphase x = CTX_CLEAN"
    and e: "is_rlist_empty HaltedList (rlist_push_back (SchedQ (priority x)) (SchedNode t) (rl s))"
  shows "wakeup c t s = Inr (True, woken_new c t x s)"
proof -
  have p: "fst (preempt_off c s) = preemption (cctx s c)"
    by (simp add: preempt_off_def cpu_disable_interrupts_def Let_def set_core_def)
  have "sched_make_ready t (snd (preempt_off c s)) =
      Inr ((set_tcb t (x\<lparr>tstate := READY\<rparr>) (snd (preempt_off c s)))
                 \<lparr>rl := rlist_push_back (SchedQ (priority x)) (SchedNode t) (rl s)\<rparr>)"
    using x e by (simp add: sched_make_ready_def sched_queue_add_def cpu_core_restart_one_def set_tcb_def)
  then show ?thesis using x p by (simp add: wakeup_def prod.case_eq_if Let_def woken_new_def)
qed

lemma woken_new_ncores: "woken_new c t x (s\<lparr>ncores := k\<rparr>) = (woken_new c t x s)\<lparr>ncores := k\<rparr>"
  by (intro kernel.equality)
    (simp_all add: woken_new_def preempt_off_def preempt_on_def cpu_disable_interrupts_def set_core_def
      set_ccb_def set_tcb_def Let_def)

lemma woken_new_fields:
  "rl (woken_new c t x s) = rlist_push_back (SchedQ (priority x)) (SchedNode t) (rl s)"
  "halted (cores (woken_new c t x s) d) = halted (cores s d)" "devtable (woken_new c t x s) = devtable s"
  "nterm (woken_new c t x s) = nterm s"
  by (simp_all add: woken_new_def preempt_off_def preempt_on_def cpu_disable_interrupts_def set_core_def
      set_ccb_def set_tcb_def Let_def)

definition unborn :: "ptref \<Rightarrow> nat \<Rightarrow> pref \<Rightarrow> thread_func \<Rightarrow> task \<Rightarrow> int \<Rightarrow> ptr \<Rightarrow> kernel \<Rightarrow> kernel" where
  "unborn pa ta p func call len a s =
     s\<lparr>rl := rlnode_init (SchedNode (HeapT ta)) (OTcb (HeapT ta))
         (rlist_push_back (ThreadList p) (ThreadNode pa) (rlnode_init (ThreadNode pa) (OPtcb pa) (rl s))),
       condvars := (condvars s)(ExitCv pa := None),
       PT := (PT s)(p := (PT s p)\<lparr>thread_count := thread_count (PT s p) + 1\<rparr>),
       tcbs := (tcbs s)(HeapT ta \<mapsto> (new_tcb p func)\<lparr>tptcb := Some pa\<rparr>),
       ptcbs := (ptcbs s)(pa \<mapsto> new_ptcb (HeapT ta) call len a),
       saved_preempt := (saved_preempt s)(HeapT ta := True),
       active_threads := active_threads s + 1\<rparr>"

lemma new_thread_unborn:
  "new_thread c pa ta p func call len a s =
     rbind (wakeup c (HeapT ta) (unborn pa ta p func call len a s)) (\<lambda>(r, s5). Inr s5)"
proof -
  let ?h = "rlist_push_back (ThreadList p) (ThreadNode pa) (rlnode_init (ThreadNode pa) (OPtcb pa) (rl s))"
  let ?s2 = "set_PCB p ((PT s p)\<lparr>thread_count := thread_count (PT s p) + 1\<rparr>)
    (s\<lparr>rl := ?h, condvars := (condvars s)(ExitCv pa := None)\<rparr>)"
  let ?s4 = "set_ptcb pa (new_ptcb (HeapT ta) call len a) (snd (spawn_thread ta p func ?s2))"
  have "set_tcb (HeapT ta) ((new_tcb p func)\<lparr>tptcb := Some pa\<rparr>) ?s4 = unborn pa ta p func call len a s"
    by (intro kernel.equality; simp add: unborn_def set_tcb_def set_ptcb_def set_PCB_def spawn_thread_eq)
  moreover have "get_tcb (HeapT ta) ?s4 = Inr (new_tcb p func)"
    by (simp add: get_tcb_def set_ptcb_def spawn_thread_eq)
  moreover have "new_thread c pa ta p func call len a s = rbind (get_tcb (HeapT ta) ?s4) (\<lambda>y.
         rbind (wakeup c (HeapT ta) (set_tcb (HeapT ta) (y\<lparr>tptcb := Some pa\<rparr>) ?s4)) (\<lambda>(r, s5). Inr s5))"
    by (simp add: new_thread_def Let_def spawn_thread_eq new_ptcb_def set_PCB_def)
  ultimately show ?thesis by simp
qed

lemma new_thread_ncores:
  assumes h: "isring (new_thread_heap pa ta p s) HaltedList []"
    and n: "new_thread c pa ta p func call len a (s\<lparr>ncores := k\<rparr>) = Inr s'"
  shows "new_thread c pa ta p func call len a s = Inr (s'\<lparr>ncores := ncores s\<rparr>)"
    and "rl s' = new_thread_heap pa ta p s" and "halted (cores s' d) = halted (cores s d)"
    and "devtable s' = devtable s" and "nterm s' = nterm s" and "ncores s' = k"
proof -
  let ?x = "(new_tcb p func)\<lparr>tptcb := Some pa\<rparr>"
  let ?u = "unborn pa ta p func call len a"
  have rl: "rlist_push_back (SchedQ (priority ?x)) (SchedNode (HeapT ta)) (rl (?u t)) = new_thread_heap pa ta p t"
    for t by (simp add: unborn_def new_thread_heap_def new_tcb_def)
  have hk: "new_thread_heap pa ta p (s\<lparr>ncores := k\<rparr>) = new_thread_heap pa ta p s"
    by (simp add: new_thread_heap_def)
  have e: "is_rlist_empty HaltedList (new_thread_heap pa ta p s)" using is_rlist_empty_iff [OF h] by simp
  have w: "wakeup c (HeapT ta) (?u t) = Inr (True, woken_new c (HeapT ta) ?x (?u t))"
    if "is_rlist_empty HaltedList (new_thread_heap pa ta p t)" for t
    by (rule wakeup_new) (use that rl [of t] in \<open>simp_all add: unborn_def new_tcb_def\<close>)
  have uk: "?u (s\<lparr>ncores := k\<rparr>) = (?u s)\<lparr>ncores := k\<rparr>" by (intro kernel.equality; simp add: unborn_def)
  have s': "s' = (woken_new c (HeapT ta) ?x (?u s))\<lparr>ncores := k\<rparr>"
    using n w [of "s\<lparr>ncores := k\<rparr>"] e unfolding new_thread_unborn hk by (simp add: uk woken_new_ncores)
  have "ncores (?u s) = ncores s" by (simp add: unborn_def)
  then have nc: "ncores (woken_new c (HeapT ta) ?x (?u s)) = ncores s"
    by (simp add: woken_new_def Let_def set_tcb_def)
  show "new_thread c pa ta p func call len a s = Inr (s'\<lparr>ncores := ncores s\<rparr>)"
    using w [OF e] unfolding new_thread_unborn s' by (simp add: nc [symmetric])
  show "ncores s' = k" by (simp add: s')
  show "rl s' = new_thread_heap pa ta p s" using rl [of s] by (simp add: s' woken_new_fields)
  show "halted (cores s' d) = halted (cores s d)" and "devtable s' = devtable s" and "nterm s' = nterm s"
    by (simp_all add: s' woken_new_fields, simp_all add: unborn_def)
qed

section \<open>The first process\<close>

definition init_pcb :: "task \<Rightarrow> int \<Rightarrow> ptr \<Rightarrow> nat \<Rightarrow> PCB \<Rightarrow> PCB" where
  "init_pcb call len a m x = x\<lparr>pstate := ALIVE, thread_count := 1, parent := None,
     main_task := call, argl := len, args := map_option (\<lambda>_. m) a\<rparr>"

lemma root_tree:
  assumes r: "core0_ready n M s" and s': "PT s' = (PT s)(1 := x)" and x: "pstate x = ALIVE" "parent x = None"
    "FIDT x = (\<lambda>_. None)"
  shows "tree_ok (\<lambda>_. []) (\<lambda>_. []) s'"
proof -
  have l: "live s' p \<longleftrightarrow> p \<le> 1" for p
    using r x by (auto simp: live_def core0_ready_def s' MAX_PROC_def le_Suc_eq)
  have p: "parent (PT s' p) = None" if "p \<le> 1" for p
    using r x that by (auto simp: core0_ready_def s' le_Suc_eq)
  have "rooted s' p" if "live s' p" for p using that l by (intro rooted_root) simp_all
  moreover have "FIDT (PT s' p) = (\<lambda>_. None)" for p
    using r x(3) by (simp add: core0_ready_def no_fids_def s' fun_eq_iff)
  ultimately show ?thesis using l p by (simp add: tree_ok_def)
qed

lemma cc_ok_fresh:
  assumes "sched_inv pc s L hs" and "condvars s = (\<lambda>_. None)" and "waiters s = Map.empty"
  shows "cc_ok pc Map.empty (\<lambda>_. []) s"
proof -
  have "cv_inv Map.empty (\<lambda>_. []) s" using assms by (simp add: cv_inv_def waitset_head_def cv_ring_def)
  then show ?thesis using assms(1,3) by (auto simp: cc_ok_def sleepers_listed_def)
qed

definition first_process :: "nat \<Rightarrow> task \<Rightarrow> int \<Rightarrow> ptr \<Rightarrow> nat \<times> ptref \<times> nat \<Rightarrow> kernel \<Rightarrow> bool" where
  "first_process n call len a adr s \<longleftrightarrow> (case adr of (m, pa, ta) \<Rightarrow>
     machine_up n s \<and> fs_inv (\<lambda>_. 0) s [0..<MAX_FILES] \<and> devs_ok s \<and> kernel_sem s = 1 \<and>
     proc_inv [2..<MAX_PROC] (\<lambda>_. []) (\<lambda>_. []) ((\<lambda>_. [])(1 := [pa])) s \<and>
     condvars s = (\<lambda>_. None) \<and> waiters s = Map.empty \<and>
     ptcbs s = [pa \<mapsto> new_ptcb (HeapT ta) call len a] \<and>
     (\<forall>q. pstate (PT s q) = (if q \<le> 1 then ALIVE else FREE)) \<and>
     main_task (PT s 1) = call \<and> argl (PT s 1) = len \<and> args (PT s 1) = map_option (\<lambda>_. m) a \<and>
     thread_count (PT s 0) = 0 \<and> thread_count (PT s 1) = 1 \<and> no_fids s)"

lemma exec_init:
  assumes r: "core0_ready n M s" and a: "args_ok a len s"
  obtains s' where "Exec 0 (Some f) len a (m, pa, ta) s = Inr (Return 1, s')"
    and "first_process n (Some f) len a (m, pa, ta) s'"
    and "cc_ok (\<lambda>_. Running) Map.empty (\<lambda>_. []) (s'\<lparr>ncores := 0\<rparr>)"
    and "tcbs s' = [HeapT ta \<mapsto> started_tcb 1 start_main_thread_func pa]"
    and "mem s' = (case a of None \<Rightarrow> mem s | Some b \<Rightarrow> (mem s)(m \<mapsto> take (nat len) (the (mem s b))))"
    and "nterm s' = nterm s"
proof -
  note rd = r [unfolded core0_ready_def]
  define w where "w = s\<lparr>kernel_sem := 0\<rparr>"
  have "1 < MAX_PROC" by (simp add: MAX_PROC_def)
  then have up: "[1..<MAX_PROC] = 1 # [2..<MAX_PROC]"
    using upt_conv_Cons [of 1 MAX_PROC] by (simp only: Suc_1)
  have "pcb_pool s [1..<MAX_PROC]" using rd by blast
  then have pool: "pcb_pool w (1 # [2..<MAX_PROC])"
    unfolding up by (rule pcb_pool_live) (simp_all add: live_def w_def)
  have aw: "args_ok a len w" using a by (cases a) (simp_all add: args_ok_def w_def)
  note e = sys_Exec_root(1) [OF pool _ aw, where c = 0 and call = "Some f" and m = m and pa = pa and ta = ta]
    sys_Exec_root(2) [OF pool _ aw, where call = "Some f" and m = m]
  define u where "u = root_setup 1 (Some f) len a m w"
  have u: "rl u = rl s" "tcbs u = Map.empty" "ptcbs u = Map.empty" "condvars u = (\<lambda>_. None)"
    "waiters u = Map.empty" "kernel_sem u = 0" "FT u = FT s" "cores u = cores s" "ncores u = n"
    "active_threads u = 0" "devtable u = devtable s" "nterm u = nterm s" "cctx u = cctx s"
    "PT u = (PT s)(1 := (PT s 1)\<lparr>pstate := ALIVE, thread_count := 0, parent := None,
         main_task := Some f, argl := len, args := map_option (\<lambda>_. m) a\<rparr>)"
    "mem u = (case a of None \<Rightarrow> mem s | Some b \<Rightarrow> (mem s)(m \<mapsto> take (nat len) (the (mem s b))))"
    using rd by (auto simp: u_def root_setup_def w_def no_threads_def machine_up_def cong: option.case_cong)
  let ?v = "u\<lparr>ncores := 0\<rparr>"
  have "booted 0 0 ?v"
    using rd by (auto simp: booted_def u machine_up_def)
  then have ok: "cc_ok (\<lambda>_. Running) Map.empty (\<lambda>_. []) ?v"
    by (intro cc_ok_fresh [OF booted_inv]) (simp_all add: u)
  have fids: "FIDT (PT s q) = (\<lambda>_. None)" for q using rd by (auto simp: no_fids_def)
  have fs: "fs_inv (\<lambda>_. 0) ?v [0..<MAX_FILES]"
    by (rule fs_frame [of _ s _ "\<lambda>_. True"]) (use rd in \<open>simp_all add: u keeps_on_def\<close>)
  have tree: "tree_ok (\<lambda>_. []) (\<lambda>_. []) ?v"
    by (rule root_tree [OF r, of _ "PT u 1"]) (simp_all add: u fids)
  have "proc_lists (\<lambda>_. []) (\<lambda>_. []) (\<lambda>_. []) ?v"
    using rd by (simp add: proc_lists_def family_def pcb_nodes_def u)
  moreover have "pcb_pool ?v [2..<MAX_PROC]"
    by (rule pcb_pool_live [OF e(2)]) (simp_all add: live_def u_def)
  ultimately have pr: "proc_inv [2..<MAX_PROC] (\<lambda>_. []) (\<lambda>_. []) (\<lambda>_. []) ?v"
    using tree by (simp add: proc_inv_def)
  have "1 < MAX_PROC" "fresh_thread pa ta ?v" by (simp_all add: MAX_PROC_def fresh_thread_def u)
  from new_thread_ok [OF ok fs pr this, of 0 start_main_thread_func "Some f" len a] obtain x where
    x: "new_thread 0 pa ta 1 start_main_thread_func (Some f) len a ?v = Inr x"
    "cc_ok (\<lambda>_. Running) Map.empty (\<lambda>_. []) x" "fs_inv (\<lambda>_. 0) x [0..<MAX_FILES]"
    "proc_inv [2..<MAX_PROC] (\<lambda>_. []) (\<lambda>_. []) ((\<lambda>_. [])(1 := [] @ [pa])) x"
    "tcbs x = (tcbs ?v)(HeapT ta \<mapsto> started_tcb 1 start_main_thread_func pa)"
    "ptcbs x = (ptcbs ?v)(pa \<mapsto> new_ptcb (HeapT ta) (Some f) len a)"
    "PT x = (PT ?v)(1 := (PT ?v 1)\<lparr>thread_count := thread_count (PT ?v 1) + 1\<rparr>)" "mem x = mem ?v"
    "kernel_sem x = kernel_sem ?v" "condvars x = condvars ?v" "waiters x = waiters ?v" by metis
  have k: "keeps_on machine_node (rl u) (new_thread_heap pa ta 1 u)"
    by (rule new_thread_heap_keeps [where ts = "[]" and qs = "[]"])
      (use rd in \<open>auto simp: u pcb_nodes_def MAX_PROC_def sched_sentinels_def\<close>)
  have hal: "isring (new_thread_heap pa ta 1 u) HaltedList []"
    by (rule keeps_onD(2) [OF k]) (use rd in \<open>simp_all add: u machine_up_def\<close>)
  note nc = new_thread_ncores [OF hal x(1)]
  let ?z = "x\<lparr>ncores := n\<rparr>"
  let ?s' = "?z\<lparr>kernel_sem := kernel_sem ?z + 1\<rparr>"
  have "Exec 0 (Some f) len a (m, pa, ta) s = Inr (Return 1, ?s')"
    unfolding Exec_def
  proof (rule syscall_alone)
    show "kernel_sem s = 1" using rd by (simp add: no_threads_def)
    show "sys_Exec 0 (Some f) len a (m, pa, ta) (s\<lparr>kernel_sem := 0\<rparr>) = Inr (1, ?z)"
      using e(1) nc(1) unfolding w_def [symmetric] u_def [symmetric] u(9) by simp
    show "condvars ?z KernelSemCv = None" using x(10) by (simp add: u)
  qed
  moreover have "machine_up n ?s'"
    by (rule machine_up_keeps [of n s])
      (use rd k nc(2,3) in \<open>simp_all add: u machine_up_def\<close>)
  moreover have "fs_inv (\<lambda>_. 0) ?s' [0..<MAX_FILES]"
    by (rule fs_frame [OF x(3), of "\<lambda>_. True"]) (simp_all add: keeps_on_def)
  moreover have "devs_ok ?s'" using rd nc(4,5) by (simp add: devs_ok_def bios_serial_ports_def u)
  moreover have "proc_inv [2..<MAX_PROC] (\<lambda>_. []) (\<lambda>_. []) ((\<lambda>_. [])(1 := [pa])) ?s'"
    by (rule proc_inv_keeps [where s = x]) (use x(4) in \<open>simp_all add: keeps_on_def\<close>)
  moreover have "\<forall>q. pstate (PT ?s' q) = (if q \<le> 1 then ALIVE else FREE)"
    using rd by (auto simp: x(7) u le_Suc_eq)
  moreover have "no_fids ?s'" using fids by (simp add: no_fids_def x(7) u)
  moreover have "thread_count (PT ?s' 0) = 0" using rd by (simp add: x(7) u)
  ultimately have e': "Exec 0 (Some f) len a (m, pa, ta) s = Inr (Return 1, ?s')"
    and fp: "first_process n (Some f) len a (m, pa, ta) ?s'"
    by (simp_all add: first_process_def x u)
  have "?s'\<lparr>ncores := 0\<rparr> = x\<lparr>kernel_sem := 1\<rparr>" using nc(6) x(9) u(6) by (intro kernel.equality) simp_all
  then have "cc_ok (\<lambda>_. Running) Map.empty (\<lambda>_. []) (?s'\<lparr>ncores := 0\<rparr>)"
    using cc_ok_sem [OF x(2), of 1] by simp
  then show ?thesis using that [OF e' fp] by (simp add: x u nc(5))
qed

section \<open>The idle threads\<close>

lemma core_up_inv:
  assumes inv: "sched_inv (\<lambda>_. Running) (s\<lparr>ncores := k\<rparr>) L hs"
    and h: "isring (rl s) (HaltedNode k) []" "obj (rl s) (HaltedNode k) = OCore k"
  shows "sched_inv (\<lambda>_. Running) ((run_scheduler_init k s)\<lparr>ncores := Suc k\<rparr>) L hs"
proof -
  let ?R = "\<lambda>_. Running" and ?n = "SchedNode (IdleT k)"
  define w w' where "w = s\<lparr>ncores := k\<rparr>" and "w' = (run_scheduler_init k s)\<lparr>ncores := Suc k\<rparr>"
  note inv = inv [folded w_def]
  note a = sched_inv_abs [OF inv]
  have f: "rl w' = rlnode_init ?n (OTcb (IdleT k)) (rl w)" "tcbs w' = (tcbs w)(IdleT k \<mapsto> idle_tcb)"
    "active_threads w' = active_threads w" "ncores w' = Suc k" "ncores w = k"
    "halted (cores w' d) = halted (cores w d)"
    "current_thread (cctx w' d) = (if d = k then IdleT k else current_thread (cctx w d))" for d
    by (simp_all add: w_def w'_def run_scheduler_init_fields)
  have nk: "tcbs w (IdleT k) = None"
  proof (rule ccontr)
    assume "tcbs w (IdleT k) \<noteq> None"
    then obtain x where "tcbs w (IdleT k) = Some x" by blast
    from sched_inv_thread [OF inv this] show False by (simp add: thread_ok_def idle_ok_def f)
  qed
  have nL: "IdleT k \<notin> set (L l)" if "l \<in> sched_sentinels" for l
    using a that nk unfolding sched_abs_def by auto
  have d: "dirty_on ?R w' c t \<longleftrightarrow> dirty_on ?R w c t \<or> c = k \<and> t = IdleT k"
    and i: "\<not> incoming ?R w' c t" "\<not> incoming ?R w c t" for c t
    by (auto simp: dirty_on_def incoming_def f less_Suc_eq)
  have on: "on_core ?R w' c t \<longleftrightarrow> on_core ?R w c t \<or> c = k \<and> t = IdleT k" for c t
    by (simp add: on_core_def d i)
  have nd: "\<not> on_core ?R w c (IdleT k)" for c using nk sched_inv_live [OF inv] by fastforce
  have no: "\<not> on_core ?R w k t" for t by (simp add: on_core_def dirty_on_def i f)
  have rk: "isring (rl w') z zs" if "isring (rl w) z zs" "?n \<notin> set (z # zs)" for z zs
    unfolding f(1) by (rule init_keeps [OF that])
  have "isring (rl w') l (map SchedNode (L l))" if "l \<in> sched_sentinels" for l
    by (rule rk) (use a nL [OF that] that in \<open>auto simp: sched_abs_def sched_sentinels_def\<close>)
  moreover have "isring (rl w') (SchedNode t) []" if "t \<in> dom (tcbs w')" "\<not> queued L t" for t
  proof (cases "t = IdleT k")
    case False
    then have "isring (rl w) (SchedNode t) []" using that a by (auto simp: sched_abs_def f)
    with False show ?thesis by (intro rk) simp_all
  qed (simp add: f init_list)
  moreover have "isring (rl w') HaltedList (map HaltedNode hs)"
    by (rule rk) (use a in \<open>auto simp: sched_abs_def\<close>)
  moreover have "isring (rl w') (HaltedNode c) []" if "c < Suc k" "c \<notin> set hs" for c
  proof (rule rk)
    show "isring (rl w) (HaltedNode c) []"
      using that a h(1) by (auto simp: sched_abs_def f less_Suc_eq, simp add: w_def)
  qed simp
  moreover have "obj (rl w') (HaltedNode c) = OCore c" if "c < Suc k" for c
    using that a h(2) by (auto simp: sched_abs_def f less_Suc_eq, simp add: w_def)
  moreover have "set hs \<subseteq> {..<Suc k}" using a by (auto simp: sched_abs_def f)
  moreover have "\<forall>c. halted (cores w' c) \<longleftrightarrow> c \<in> set hs"
    "\<forall>i. SchedQ i \<in> sched_sentinels \<longrightarrow> obj (rl w') (SchedQ i) = ONull"
    "\<forall>t \<in> dom (tcbs w'). obj (rl w') (SchedNode t) = OTcb t" "\<forall>l \<in> sched_sentinels. set (L l) \<subseteq> dom (tcbs w')"
    using a by (auto simp: sched_abs_def f)
  ultimately have abs: "sched_abs w' L hs"
    unfolding sched_abs_def f(4) by blast
  have "thread_ok ?R w' L t x" if x: "tcbs w' t = Some x" for t x
  proof (cases "t = IdleT k")
    case True
    have "\<not> (\<exists>c. dirty_on ?R w c (IdleT k))" using nd by (simp add: on_core_def)
    then show ?thesis
      using True x nd nL sched_inv_thread [OF inv] unfolding thread_ok_def idle_ok_def phase_ok_def state_ok_def
        queue_ok_def timeout_ok_def on
      by (auto simp: d i f idle_tcb_def SCHED_MAX_LEVEL_def sched_sentinels_def)
  next
    case False
    then have "tcbs w t = Some x" using x by (simp add: f)
    from sched_inv_thread [OF inv this] False show ?thesis
      unfolding thread_ok_def idle_ok_def phase_ok_def state_ok_def queue_ok_def on
      by (auto simp: d i f)
  qed
  moreover have "wakeup_times w' L = wakeup_times w L"
    using nL [of TimeoutList] by (auto simp: wakeup_times_def f sched_sentinels_def)
  moreover have "{a. tcbs w' (HeapT a) \<noteq> None} = {a. tcbs w (HeapT a) \<noteq> None}" by (simp add: f)
  moreover have "on_core ?R w' c t \<Longrightarrow> on_core ?R w' d t \<Longrightarrow> c = d" for c d t
    using inv nd no unfolding sched_inv_def on by metis
  ultimately show ?thesis
    using inv abs unfolding w'_def [symmetric] sched_inv_def on
    by (auto simp: f less_Suc_eq)
qed

lemma run_scheduler_init_other:
  "PT (run_scheduler_init c s) = PT s" "FT (run_scheduler_init c s) = FT s" "mem (run_scheduler_init c s) = mem s"
  "ptcbs (run_scheduler_init c s) = ptcbs s" "condvars (run_scheduler_init c s) = condvars s"
  "waiters (run_scheduler_init c s) = waiters s" "kernel_sem (run_scheduler_init c s) = kernel_sem s"
  "pcb_freelist (run_scheduler_init c s) = pcb_freelist s" "process_count (run_scheduler_init c s) = process_count s"
  "devtable (run_scheduler_init c s) = devtable s" "nterm (run_scheduler_init c s) = nterm s"
  by (simp_all add: run_scheduler_init_def Let_def set_ccb_def set_tcb_def cpu_interrupt_handler_def
      set_core_def preempt_on_def)

lemma first_process_idle:
  assumes "first_process n call len a adr s"
  shows "first_process n call len a adr (run_scheduler_init c s)"
proof -
  have k: "keeps_on (\<lambda>n. n \<noteq> SchedNode (IdleT c)) (rl s) (rl (run_scheduler_init c s))"
    unfolding run_scheduler_init_fields by (rule keeps_on_init) simp
  obtain m pa ta where adr: "adr = (m, pa, ta)" by (cases adr)
  note p = assms [unfolded first_process_def adr prod.case]
  have "machine_up n (run_scheduler_init c s)"
    by (rule machine_up_keeps [OF conjunct1 [OF p] keeps_on_sub [OF k]]) (auto simp: run_scheduler_init_fields)
  moreover have "fs_inv (\<lambda>_. 0) (run_scheduler_init c s) [0..<MAX_FILES]"
    by (rule fs_frame [OF _ k]) (use p in \<open>auto simp: run_scheduler_init_other\<close>)
  moreover have "proc_inv [2..<MAX_PROC] (\<lambda>_. []) (\<lambda>_. []) ((\<lambda>_. [])(1 := [pa])) (run_scheduler_init c s)"
    by (rule proc_inv_keeps [OF _ keeps_on_sub [OF k]]) (use p in \<open>auto simp: run_scheduler_init_other\<close>)
  ultimately show ?thesis using p
    by (simp add: first_process_def adr run_scheduler_init_other devs_ok_def bios_serial_ports_def no_fids_def)
qed

lemma idle_threads:
  assumes p: "first_process n call len a adr s" and inv: "sched_inv (\<lambda>_. Running) (s\<lparr>ncores := 0\<rparr>) L hs"
    and k: "k \<le> n"
  shows "let s' = fold run_scheduler_init [0..<k] s in first_process n call len a adr s' \<and>
    sched_inv (\<lambda>_. Running) (s'\<lparr>ncores := k\<rparr>) L hs \<and> mem s' = mem s \<and> nterm s' = nterm s \<and> PT s' = PT s \<and>
    (\<forall>c < k. CURTHREAD c s' = IdleT c) \<and> (\<forall>c < k. tcbs s' (IdleT c) = Some idle_tcb) \<and>
    (\<forall>t. t \<notin> IdleT ` {..<k} \<longrightarrow> tcbs s' t = tcbs s t)"
  using k
proof (induction k)
  case 0
  then show ?case using p inv by simp
next
  case (Suc k)
  define s1 where "s1 = fold run_scheduler_init [0..<k] s"
  have 1: "first_process n call len a adr s1" "sched_inv (\<lambda>_. Running) (s1\<lparr>ncores := k\<rparr>) L hs"
    "mem s1 = mem s" "nterm s1 = nterm s" "PT s1 = PT s" "\<forall>c < k. CURTHREAD c s1 = IdleT c"
    "\<forall>c < k. tcbs s1 (IdleT c) = Some idle_tcb" "\<forall>t. t \<notin> IdleT ` {..<k} \<longrightarrow> tcbs s1 t = tcbs s t"
    using Suc by (simp_all add: s1_def Let_def)
  have h: "isring (rl s1) (HaltedNode k) []" "obj (rl s1) (HaltedNode k) = OCore k"
    using 1(1) Suc.prems by (auto simp: first_process_def machine_up_def split: prod.splits)
  have "IdleT ` {..<Suc k} = insert (IdleT k) (IdleT ` {..<k})" by (auto simp: less_Suc_eq)
  moreover have "fold run_scheduler_init [0..<Suc k] s = run_scheduler_init k s1" by (simp add: s1_def)
  moreover note first_process_idle [OF 1(1)] core_up_inv [OF 1(2) h] 1(3-8)
  ultimately show ?case
    by (auto simp: Let_def run_scheduler_init_other run_scheduler_init_fields CURTHREAD_def less_Suc_eq)
qed

text \<open>The state after the start.\<close>

definition started :: "nat \<Rightarrow> uint \<Rightarrow> task \<Rightarrow> int \<Rightarrow> ptr \<Rightarrow> nat \<times> ptref \<times> nat \<Rightarrow> kernel \<Rightarrow> bool" where
  "started n serialno call len a adr s \<longleftrightarrow>
     first_process n call len a adr s \<and> cc_ok (\<lambda>_. Running) Map.empty (\<lambda>_. []) s \<and> nterm s = serialno \<and>
     (\<forall>c < n. CURTHREAD c s = IdleT c \<and> tcbs s (IdleT c) = Some idle_tcb) \<and>
     (\<forall>t. t \<notin> IdleT ` {..<n} \<longrightarrow> tcbs s t =
        (if t = HeapT (snd (snd adr)) then Some (started_tcb 1 start_main_thread_func (fst (snd adr))) else None))"

lemma boot_started:
  assumes n: "0 < n" "n \<le> MAX_CORES" "unat serialno \<le> MAX_TERMINALS"
    and a: "args_ok a len ((static_kernel h)\<lparr>mem := M\<rparr>)"
  obtains s where "boot_with init_sched_lists n serialno clk (Some f) len a adr ((static_kernel h)\<lparr>mem := M\<rparr>) = Inr s"
    and "started n serialno (Some f) len a adr s"
    and "mem s = (case a of None \<Rightarrow> M | Some b \<Rightarrow> M(fst adr \<mapsto> take (nat len) (the (M b))))"
proof -
  obtain m pa ta where adr: "adr = (m, pa, ta)" by (cases adr)
  obtain s1 where s1: "vm_boot n serialno clk ((static_kernel h)\<lparr>mem := M\<rparr>) = Inr s1"
    "machine_up n (fold bootfunc_init [0..<n] (s1\<lparr>nterm := serialno\<rparr>))"
    "no_threads (fold bootfunc_init [0..<n] (s1\<lparr>nterm := serialno\<rparr>))"
    "\<forall>q. fresh_pcb (fold bootfunc_init [0..<n] (s1\<lparr>nterm := serialno\<rparr>)) q"
    "mem (fold bootfunc_init [0..<n] (s1\<lparr>nterm := serialno\<rparr>)) = M"
    "nterm (fold bootfunc_init [0..<n] (s1\<lparr>nterm := serialno\<rparr>)) = serialno" by (rule machine_boot [OF n])
  define b where "b = fold bootfunc_init [0..<n] (s1\<lparr>nterm := serialno\<rparr>)"
  note s1b = s1(2-6) [folded b_def]
  obtain s2 s3 where s3: "initialize_processes 0 adr b = Inr s2"
    "init_sched_lists (initialize_files (initialize_devices 0 s2)) = Inr s3"
    "core0_ready n (mem b) s3" "nterm s3 = nterm b" by (rule core0_ready_init [OF s1b(1-3)])
  have ms: "mem s3 = M" using s3(3) s1b(4) by (simp add: core0_ready_def)
  have a3: "args_ok a len s3" using a by (cases a) (simp_all add: args_ok_def ms)
  obtain s4 where s4: "Exec 0 (Some f) len a (m, pa, ta) s3 = Inr (Return 1, s4)"
    "first_process n (Some f) len a (m, pa, ta) s4"
    "cc_ok (\<lambda>_. Running) Map.empty (\<lambda>_. []) (s4\<lparr>ncores := 0\<rparr>)"
    "tcbs s4 = [HeapT ta \<mapsto> started_tcb 1 start_main_thread_func pa]"
    "mem s4 = (case a of None \<Rightarrow> mem s3 | Some b \<Rightarrow> (mem s3)(m \<mapsto> take (nat len) (the (mem s3 b))))"
    "nterm s4 = nterm s3" by (rule exec_init [OF s3(3) a3])
  obtain L hs where inv: "sched_inv (\<lambda>_. Running) (s4\<lparr>ncores := 0\<rparr>) L hs" using cc_okD(1) [OF s4(3)] by blast
  define s where "s = fold run_scheduler_init [0..<n] s4"
  have up: "first_process n (Some f) len a (m, pa, ta) s" "sched_inv (\<lambda>_. Running) (s\<lparr>ncores := n\<rparr>) L hs"
    "mem s = mem s4" "nterm s = nterm s4" "\<forall>c < n. CURTHREAD c s = IdleT c"
    "\<forall>c < n. tcbs s (IdleT c) = Some idle_tcb" "\<forall>t. t \<notin> IdleT ` {..<n} \<longrightarrow> tcbs s t = tcbs s4 t"
    using idle_threads [OF s4(2) inv order.refl] unfolding s_def Let_def by blast+
  have "ncores s = n" using up(1) by (simp add: first_process_def machine_up_def)
  then have "s\<lparr>ncores := n\<rparr> = s" by (intro kernel.equality) simp_all
  with up(2) have "cc_ok (\<lambda>_. Running) Map.empty (\<lambda>_. []) s"
    using up(1) by (intro cc_ok_fresh) (simp_all add: first_process_def)
  then have "started n serialno (Some f) len a adr s"
    using up s4(4,6) s3(4) s1b(5) by (simp add: started_def adr)
  moreover have "boot_with init_sched_lists n serialno clk (Some f) len a adr ((static_kernel h)\<lparr>mem := M\<rparr>) = Inr s"
    using s1(1) s3(1,2) s4(1) by (simp add: boot_with_def boot_core_0_def b_def [symmetric] adr s_def)
  moreover have "mem s = (case a of None \<Rightarrow> M | Some b \<Rightarrow> M(fst adr \<mapsto> take (nat len) (the (M b))))"
    unfolding up(3) s4(5) ms adr fst_conv by (rule refl)
  ultimately show ?thesis using that by blast
qed

end
