(* ===== verification/Proc_Run.thy ===== *)
theory Proc_Run
  imports Boot_System
begin

text \<open>
  A run of the started system on one core, in which the thread of the first process gets the
  core, and calls made there; the theorems about processes are applied to it.  Then, the two ways
  in which the end of a thread goes wrong.
\<close>

definition kernel_ok ::
  "(nat \<Rightarrow> cpc) \<Rightarrow> (tref \<Rightarrow> cvref option) \<Rightarrow> (fref \<Rightarrow> nat) \<Rightarrow> fref list \<Rightarrow> pref list \<Rightarrow>
   (pref \<Rightarrow> pref list) \<Rightarrow> (pref \<Rightarrow> pref list) \<Rightarrow> (pref \<Rightarrow> ptref list) \<Rightarrow> kernel \<Rightarrow> bool" where
  "kernel_ok pc W pins fs fl K X T s \<longleftrightarrow>
     (\<exists>R. cc_ok pc W R s) \<and> fs_inv pins s fs \<and> proc_inv fl K X T s"

lemma kernel_okE:
  assumes "kernel_ok pc W pins fs fl K X T s"
  obtains R where "cc_ok pc W R s" and "fs_inv pins s fs" and "proc_inv fl K X T s"
  using assms by (auto simp: kernel_ok_def)

text \<open>Core \<open>c\<close> runs the thread of the process \<open>p\<close> whose PTCB is \<open>a\<close>.\<close>

definition runs_thread :: "nat \<Rightarrow> pref \<Rightarrow> ptref \<Rightarrow> kernel \<Rightarrow> bool" where
  "runs_thread c p a s \<longleftrightarrow> (\<exists>t. tcbs s (CURTHREAD c s) = Some t \<and> ttype t = NORMAL_THREAD \<and>
     owner_pcb t = p \<and> tptcb t = Some a)"

lemma runs_thread_CURPROC: "runs_thread c p a s \<Longrightarrow> CURPROC c s = Inr p"
  by (auto simp: runs_thread_def CURPROC_def)

lemma switch_frames:
  assumes inv: "fs_inv pins s fs" "proc_inv fl K X T s" and f: "sched_frame s s'"
  shows "fs_inv pins s' fs" and "proc_inv fl K X T s'"
proof -
  note o = sched_frame_other [OF f, unfolded other_frame_def]
  show "fs_inv pins s' fs"
    by (rule fs_frame [OF inv(1), where N = "\<lambda>n. \<not> sched_node n"]) (use o in simp_all)
  have "\<not> sched_node n" if "proc_node n" for n using that by (cases n) simp_all
  then have "keeps_on proc_node (rl s) (rl s')" using o by (auto elim: keeps_on_sub)
  then show "proc_inv fl K X T s'"
    by (rule proc_inv_keeps [OF inv(2)]) (use f in \<open>simp_all add: sched_frame_def\<close>)
qed

definition boot_args :: "nat \<times> ptref \<times> nat" where
  "boot_args = (0, 0, 0)"

definition booted_kernel :: kernel where
  "booted_kernel = (case boot_with init_sched_lists 1 0 0 (Some 0) 0 None boot_args
     (static_kernel \<lparr>prv = id, nxt = id, obj = \<lambda>_. ONull\<rparr>) of Inr s \<Rightarrow> s | Inl _ \<Rightarrow> undefined)"

lemma booted_kernel:
  "boot_with init_sched_lists 1 0 0 (Some 0) 0 None boot_args
     (static_kernel \<lparr>prv = id, nxt = id, obj = \<lambda>_. ONull\<rparr>) = Inr booted_kernel"
  "started 1 0 (Some 0) 0 None boot_args booted_kernel" "mem booted_kernel = Map.empty"
proof -
  let ?h = "\<lparr>prv = id, nxt = id, obj = \<lambda>_. ONull\<rparr> :: (node, key) rlheap"
  have n: "0 < (1::nat)" "1 \<le> MAX_CORES" "unat (0::uint) \<le> MAX_TERMINALS"
    "args_ok None 0 ((static_kernel ?h)\<lparr>mem := Map.empty\<rparr>)"
    by (simp_all add: MAX_CORES_def args_ok_def)
  have e: "(static_kernel ?h)\<lparr>mem := Map.empty\<rparr> = static_kernel ?h" by (simp add: static_kernel_def)
  obtain s where s: "boot_with init_sched_lists 1 0 0 (Some 0) 0 None boot_args (static_kernel ?h) = Inr s"
    "started 1 0 (Some 0) 0 None boot_args s" "mem s = Map.empty"
    by (rule boot_started [OF n, unfolded e]) auto
  then have "booted_kernel = s" by (simp add: booted_kernel_def)
  with s show "boot_with init_sched_lists 1 0 0 (Some 0) 0 None boot_args (static_kernel ?h) = Inr booted_kernel"
    "started 1 0 (Some 0) 0 None boot_args booted_kernel" "mem booted_kernel = Map.empty" by simp_all
qed

text \<open>The core switches from its idle thread to the thread of the first process.\<close>

lemma first_process_runs:
  obtains s1 s where "yield_switch 0 SCHED_USER booted_kernel = Inr s1" and "gain 0 True s1 = Inr s"
    and "cc_ok (\<lambda>_. Running) Map.empty (\<lambda>_. []) s" and "fs_inv (\<lambda>_. 0) s [0..<MAX_FILES]"
    and "proc_inv [2..<MAX_PROC] (\<lambda>_. []) (\<lambda>_. []) ((\<lambda>_. [])(1 := [0])) s"
    and "PT s = PT booted_kernel" and "ncores s = 1" and "CURTHREAD 0 s = HeapT 0"
    and "\<exists>x. tcbs s (HeapT 0) = Some x \<and> ttype x = NORMAL_THREAD \<and> owner_pcb x = 1 \<and> tptcb x = Some 0"
    and "ptcbs s = [0 \<mapsto> new_ptcb (HeapT 0) (Some 0) 0 None]" and "waiters s = Map.empty"
    and "condvars s = (\<lambda>_. None)" and "\<forall>a. tcbs s (HeapT a) \<noteq> None \<longrightarrow> a = 0" and "mem s = Map.empty"
    and "kernel_sem s = 1"
proof -
  let ?b = booted_kernel and ?R = "\<lambda>_ :: nat. Running"
  note st = booted_kernel(2) [unfolded started_def boot_args_def snd_conv fst_conv]
  note fp = conjunct1 [OF st, unfolded first_process_def prod.case]
  have ok: "cc_ok ?R Map.empty (\<lambda>_. []) ?b" using st by blast
  obtain L hs where inv: "sched_inv ?R ?b L hs" using cc_okD(1) [OF ok] by blast
  have nc: "ncores ?b = 1" using fp by (simp add: machine_up_def)
  have c0: "0 < ncores ?b" "?R 0 \<noteq> Switching" by (simp_all add: nc)
  have tc: "tcbs ?b t = (if t = HeapT 0 then Some (started_tcb 1 start_main_thread_func 0) else None)"
    if "t \<noteq> IdleT 0" for t
  proof -
    have "t \<notin> IdleT ` {..<1}" using that by auto
    with st show ?thesis by blast
  qed
  have t0: "tcbs ?b (HeapT 0) = Some (started_tcb 1 start_main_thread_func 0)" using tc by simp
  have td: "t = HeapT 0 \<or> t = IdleT 0" if "tcbs ?b t \<noteq> None" for t
    using tc [of t] that by (auto split: if_splits)
  obtain s1 L1 hs1 where s1: "yield_switch 0 SCHED_USER ?b = Inr s1" "sched_inv (?R(0 := Switching)) s1 L1 hs1"
    "sched_frame ?b s1" "previous_thread (cctx s1 0) = current_thread (cctx ?b 0)" "threads_kept ?b s1"
    "\<forall>t x. tcbs ?b t = Some x \<and> ttype x = NORMAL_THREAD \<and> tstate x = READY \<and> tphase x = CTX_CLEAN \<and>
      (\<forall>d. \<not> incoming ?R ?b d t) \<longrightarrow>
      (\<exists>y. tcbs s1 (current_thread (cctx s1 0)) = Some y \<and> ttype y = NORMAL_THREAD)"
    by (rule yield_switch_inv [OF inv c0]) blast
  have "\<exists>y. tcbs s1 (current_thread (cctx s1 0)) = Some y \<and> ttype y = NORMAL_THREAD"
    using s1(6) [rule_format, of "HeapT 0"] t0
    by (simp add: started_tcb_def new_tcb_def incoming_def)
  then obtain y where y: "tcbs s1 (current_thread (cctx s1 0)) = Some y" "ttype y = NORMAL_THREAD" by blast
  have c1: "0 < ncores s1" "(?R(0 := Switching)) 0 = Switching" using s1(3) nc by (simp_all add: sched_frame_def)
  obtain s L2 hs2 where s2: "gain 0 True s1 = Inr s" "sched_inv ((?R(0 := Switching))(0 := Running)) s L2 hs2"
    "sched_frame s1 s" "threads_kept s1 s" "\<forall>d. current_thread (cctx s d) = current_thread (cctx s1 d)"
    by (rule gain_inv [OF s1(2) c1]) blast
  have R: "(?R(0 := Switching))(0 := Running) = ?R" by auto
  note f = sched_frame_trans [OF s1(3) s2(3)] and k = threads_kept_trans [OF s1(5) s2(4)]
  have cur: "current_thread (cctx s1 0) = HeapT 0"
  proof -
    have "tcbs ?b (current_thread (cctx s1 0)) \<noteq> None"
      using s1(5) [unfolded threads_kept_def, rule_format, of "current_thread (cctx s1 0)"] y(1)
      by (auto split: option.splits)
    moreover have "current_thread (cctx s1 0) \<noteq> IdleT 0"
      using sched_inv_thread [OF s1(2) y(1)] y(2) by (auto simp: thread_ok_def idle_ok_def)
    ultimately show ?thesis using td by blast
  qed
  have "tstate (started_tcb 1 start_main_thread_func 0) \<noteq> EXITED"
    by (simp add: started_tcb_def new_tcb_def)
  from threads_keptD [OF k t0 this] obtain x where x: "tcbs s (HeapT 0) = Some x"
    "same_thread (started_tcb 1 start_main_thread_func 0) x" by blast
  have ft: "fs_inv (\<lambda>_. 0) s [0..<MAX_FILES]" "proc_inv [2..<MAX_PROC] (\<lambda>_. []) (\<lambda>_. []) ((\<lambda>_. [])(1 := [0])) s"
    by (rule switch_frames [OF _ _ f]; use fp in blast)+
  have "cc_ok ?R Map.empty (\<lambda>_. []) s"
    by (rule cc_ok_fresh [OF s2(2) [unfolded R]]) (use f fp in \<open>simp_all add: sched_frame_def\<close>)
  moreover have "\<forall>a. tcbs s (HeapT a) \<noteq> None \<longrightarrow> a = 0"
  proof (intro allI impI)
    fix a assume "tcbs s (HeapT a) \<noteq> None"
    then have "tcbs ?b (HeapT a) \<noteq> None"
      using k [unfolded threads_kept_def, rule_format, of "HeapT a"] by (auto split: option.splits)
    then show "a = 0" using td by blast
  qed
  moreover have "\<exists>x. tcbs s (HeapT 0) = Some x \<and> ttype x = NORMAL_THREAD \<and> owner_pcb x = 1 \<and> tptcb x = Some 0"
    using x by (simp add: same_thread_def started_tcb_def new_tcb_def)
  moreover have "CURTHREAD 0 s = HeapT 0" using s2(5) cur by (simp add: CURTHREAD_def)
  ultimately show ?thesis
    using that s1(1) s2(1) ft f fp nc booted_kernel(3) by (simp add: sched_frame_def)
qed

section \<open>The two ways in which the end of a thread goes wrong\<close>

text \<open>
  A detached thread cannot exit cleanly: \<open>sys_ThreadExit\<close> frees its PTCB and then reads
  the PTCB's fields.
\<close>

lemma detached_exit_reads_freed:
  assumes "kernel_ok pc W pins fs fl K X T s" and "runs_thread c p a s" and "ptcbs s a = Some x" and "detached x"
  shows "sys_ThreadExit c v s = Inl DanglingPtr"
proof -
  obtain R where k: "cc_ok pc W R s" "fs_inv pins s fs" "proc_inv fl K X T s"
    using assms(1) by (rule kernel_okE)
  obtain t where t: "tcbs s (CURTHREAD c s) = Some t" "tptcb t = Some a" using assms(2) by (auto simp: runs_thread_def)
  show ?thesis by (rule sys_ThreadExit_detached [OF k t assms(3,4)])
qed

text \<open>Moving the children of the first process to the first process never ends.\<close>

lemma reparent_spins:
  assumes "reparent_loop p i s = Some r"
  shows "p = 1 \<longrightarrow> i = Some 1 \<longrightarrow> (\<forall>K. proc_lists K X T s \<longrightarrow> K 1 \<noteq> [] \<longrightarrow> (\<forall>q \<in> set (K 1). q < MAX_PROC) \<longrightarrow> False)"
proof (rule reparent_loop.raw_induct [OF _ assms], goal_cases)
  case (1 rec p i s r)
  have False if e: "p = 1" "i = Some 1" and l: "proc_lists K X T s" and ne: "K 1 \<noteq> []" and lt: "\<forall>q \<in> set (K 1). q < MAX_PROC" for K
  proof -
    obtain q qs where K1: "K 1 = q # qs" using ne by (cases "K 1") auto
    note d = proc_listsD [OF l]
    have m1: "(1::nat) < MAX_PROC" by (simp add: MAX_PROC_def)
    obtain n h where nh: "rlist_pop_front (ChildrenList 1) (rl s) = (n, h)" by fastforce
    note pop = kids.family_pop [OF d(1) K1]
    have n: "n = ChildrenNode q" "h = snd (rlist_pop_front (ChildrenList 1) (rl s))" using pop(1) nh by simp_all
    have nq: "q \<notin> set ((K(1 := qs)) u)" for u
      using kids.one_list [OF d(1), of q u 1] kids.distinct_list [OF d(1), of 1] K1 by (cases "u = 1") auto
    note push = kids.family_push_front [OF pop(2) m1 pop(3) nq]
    define s1 where "s1 = (set_PCB q ((PT s q)\<lparr>parent := Some 1\<rparr>) (s\<lparr>rl := h\<rparr>))
      \<lparr>rl := rlist_push_front (ChildrenList 1) (ChildrenNode q) h\<rparr>"
    have rl1: "rl s1 = rlist_push_front (ChildrenList 1) (ChildrenNode q) (snd (rlist_pop_front (ChildrenList 1) (rl s)))"
      by (simp add: s1_def n(2))
    have same: "(K(1 := qs))(1 := q # (K(1 := qs)) 1) = K" using K1 by (auto simp: fun_eq_iff)
    have k1: "keeps_on (\<lambda>n. n \<notin> range ChildrenList \<union> range ChildrenNode) (rl s) h"
      unfolding n(2) by (rule keeps_on_pop [OF familyD(1) [OF d(1) m1]]) simp
    have k2: "keeps_on (\<lambda>n. n \<notin> range ChildrenList \<union> range ChildrenNode) h (rl s1)"
      unfolding rl1 n(2) by (rule keeps_on_push_front [OF familyD(1) [OF pop(2) m1] pop(3)]) simp_all
    have l1: "proc_lists K X T s1"
      by (rule proc_lists_kids [OF l push [folded rl1, unfolded same] keeps_on_trans [OF k1 k2]])
        (simp add: rl1, simp add: s1_def set_PCB_def)
    have "obj h = obj (rl s)" unfolding n(2) by (simp add: obj_ops)
    then have o: "obj h n = OPcb q" using d(4) [of q] lt K1 n(1) by simp
    have "\<not> is_rlist_empty (ChildrenList 1) (rl s)"
      using is_rlist_empty_iff [OF familyD(1) [OF d(1) m1]] K1 by simp
    then have "rec 1 (Some 1) s1 = Some r"
      using 1(2) nh o unfolding e by (simp add: Let_def s1_def n(1) set_PCB_def)
    from 1(1) [OF this] have "\<forall>K. proc_lists K X T s1 \<longrightarrow> K 1 \<noteq> [] \<longrightarrow> \<not> (\<forall>q \<in> set (K 1). q < MAX_PROC)"
      by simp
    with l1 ne lt show False by metis
  qed
  then show ?case by blast
qed

text \<open>
  The first process must not end while it has children: its last thread, which calls
  \<open>ThreadExit\<close> directly (\<open>Exit\<close> waits for the children first), moves each child from its own
  list of children to the front of the same list, for ever, with the kernel lock held.
\<close>

lemma init_exit_with_children_diverges:
  assumes "kernel_ok pc W pins fs fl K X T s" and "runs_thread c 1 a s" and "ptcbs s a = Some x"
    and "\<not> detached x" and "a \<in> set (T 1)" and "thread_count (PT s 1) = 1" and "live s q" and "parent (PT s q) = Some 1"
  shows "sys_ThreadExit c v s = Inl Diverges"
proof -
  obtain R where k: "cc_ok pc W R s" "fs_inv pins s fs" "proc_inv fl K X T s"
    using assms(1) by (rule kernel_okE)
  obtain t where t: "tcbs s (CURTHREAD c s) = Some t" "tptcb t = Some a" "owner_pcb t = 1"
    using assms(2) by (auto simp: runs_thread_def)
  have td: "q \<in> set (K p) \<longleftrightarrow> live s q \<and> parent (PT s q) = Some p" for p q
    by (rule tree_okD(1) [OF proc_invD(2) [OF k(3)]])
  have m0: "mid_ok pc W R pins fs K X T s" using k proc_invD(3) [OF k(3)] by (simp add: mid_ok_def)
  obtain s1 where s1: "exit_ptcb c v a s = Inr s1"
    "mid_ok pc W (R(ExitCv a := [])) pins fs K X (left_threads 1 a x T) s1" "PT s1 = PT s"
    by (rule exit_ptcb_ok [OF m0 assms(3,4,5)])
  let ?s2 = "set_PCB 1 ((PT s1 1)\<lparr>thread_count := thread_count (PT s1 1) - 1\<rparr>) s1"
  have m2: "mid_ok pc W (R(ExitCv a := [])) pins fs K X (left_threads 1 a x T) ?s2"
    by (rule mid_lists(1) [OF s1(2), where N = "\<lambda>_. True" and P = "PT ?s2" and Q = "ptcbs s1"])
      (use s1(2) in \<open>simp_all add: set_PCB_def mid_ok_def proc_lists_def\<close>)
  have z: "thread_count (PT ?s2 1) = 0" using assms(6) s1(3) by (simp add: set_PCB_def)
  define M where "M = (case args (PT ?s2 1) of None \<Rightarrow> mem ?s2 | Some b \<Rightarrow> (mem ?s2)(b := None))"
  define s3 where "s3 = ?s2\<lparr>PT := (PT ?s2)(1 := (PT ?s2 1)\<lparr>exitval := v, args := None\<rparr>), mem := M\<rparr>"
  have m3: "mid_ok pc W (R(ExitCv a := [])) pins fs K X (left_threads 1 a x T) s3"
    by (rule cleared_args_mid(1) [OF m2 s3_def])
  obtain s4 fs' where s4: "close_fids 1 [0..<MAX_FILEID] s3 = Inr s4"
    "mid_ok pc W (R(ExitCv a := [])) pins fs' K X (left_threads 1 a x T) s4"
    "PT s4 = (PT s3)(1 := (PT s3 1)\<lparr>FIDT := (\<lambda>_. None)\<rparr>)" by (rule close_mid [OF m3])
  have "pstate (PT s 1) \<noteq> FREE" using tree_okD(6) [OF proc_invD(2) [OF k(3)]] by (simp add: live_def)
  then have init: "get_pcb 1 s4 = Some 1" by (simp add: get_pcb_def s4(3) s3_def set_PCB_def s1(3))
  have ne: "K 1 \<noteq> []" using td [of q 1] assms(7,8) by auto
  have lt: "\<forall>q \<in> set (K 1). q < MAX_PROC" using td by (simp add: live_def)
  have "reparent_loop 1 (Some 1) s4 = None"
  proof (cases "reparent_loop 1 (Some 1) s4")
    case (Some r)
    from reparent_spins [OF this, of X "left_threads 1 a x T"] s4(2) ne lt show ?thesis unfolding mid_ok_def by blast
  qed
  then have d: "of_loop (reparent_loop 1 (Some 1) s4) = Inl Diverges" by (simp add: of_loop_def)
  have s3': "(case args (PT (set_PCB 1 ((PT ?s2 1)\<lparr>exitval := v\<rparr>) ?s2) 1) of
      None \<Rightarrow> set_PCB 1 ((PT ?s2 1)\<lparr>exitval := v\<rparr>) ?s2
    | Some a \<Rightarrow> (set_PCB 1 ((PT (set_PCB 1 ((PT ?s2 1)\<lparr>exitval := v\<rparr>) ?s2) 1)\<lparr>args := None\<rparr>)
        (set_PCB 1 ((PT ?s2 1)\<lparr>exitval := v\<rparr>) ?s2))\<lparr>mem := (mem (set_PCB 1 ((PT ?s2 1)\<lparr>exitval := v\<rparr>) ?s2))(a := None)\<rparr>) = s3"
    by (cases "args (PT s1 1)") (simp_all add: s3_def M_def set_PCB_def, intro kernel.equality PCB.equality ext, auto)
  have "exit_process c 1 v ?s2 = Inl Diverges"
    unfolding exit_process_def Let_def s3' s4(1) rbind_Inr init d by simp
  then show ?thesis using t s1(1) z by (simp add: sys_ThreadExit_def Let_def)
qed

end
