(* ===== verification/Proc_Props.thy ===== *)
theory Proc_Props
  imports Proc_Run
begin

text \<open>
  The properties of processes and threads: the start of the system, creating processes, waiting
  for children, joining and detaching threads, and the end of threads and processes.
\<close>

section \<open>The start\<close>

text \<open>
  On a machine where \<open>TIMEOUT_LIST\<close> follows \<open>SCHED\<close> in memory (\<open>init_sched_lists\<close>), the start
  brings the system up on any number of cores: the null process has pid 0 and the first process, the one that the
  caller of \<open>boot\<close> names, has pid 1, exactly these two exist, every core is in its idle thread, the
  only other thread is the first process's and it is ready to run, no file id is open, and the
  invariants of the scheduler, of the condition variables, of the streams and of the process
  table hold.
\<close>

theorem boot_starts_first_process:
  assumes "0 < n" and "n \<le> MAX_CORES" and "unat serialno \<le> MAX_TERMINALS"
    and "args_ok a len ((static_kernel h)\<lparr>mem := M\<rparr>)"
  shows "\<exists>s. boot_with init_sched_lists n serialno clk (Some f) len a (m, pa, ta) ((static_kernel h)\<lparr>mem := M\<rparr>) = Inr s \<and>
    kernel_ok (\<lambda>_. Running) Map.empty (\<lambda>_. 0) [0..<MAX_FILES] [2..<MAX_PROC] (\<lambda>_. []) (\<lambda>_. []) ((\<lambda>_. [])(1 := [pa])) s \<and>
    (\<forall>q. pstate (PT s q) = (if q \<le> 1 then ALIVE else FREE)) \<and>
    main_task (PT s 1) = Some f \<and> argl (PT s 1) = len \<and> thread_count (PT s 1) = 1 \<and>
    (\<forall>c < n. CURTHREAD c s = IdleT c) \<and>
    (\<forall>t. t \<notin> IdleT ` {..<n} \<longrightarrow> tcbs s t =
      (if t = HeapT ta then Some (started_tcb 1 start_main_thread_func pa) else None)) \<and>
    tstate (started_tcb 1 start_main_thread_func pa) = READY \<and> (\<forall>p i. FIDT (PT s p) i = None)"
proof -
  obtain s where s: "boot_with init_sched_lists n serialno clk (Some f) len a (m, pa, ta) ((static_kernel h)\<lparr>mem := M\<rparr>) = Inr s"
    "started n serialno (Some f) len a (m, pa, ta) s" by (rule boot_started [OF assms])
  note st = s(2) [unfolded started_def snd_conv fst_conv]
  note fp = conjunct1 [OF st, unfolded first_process_def prod.case]
  have "kernel_ok (\<lambda>_. Running) Map.empty (\<lambda>_. 0) [0..<MAX_FILES] [2..<MAX_PROC] (\<lambda>_. []) (\<lambda>_. []) ((\<lambda>_. [])(1 := [pa])) s"
    using st fp by (auto simp: kernel_ok_def)
  moreover have "tstate (started_tcb 1 start_main_thread_func pa) = READY" by (simp add: started_tcb_def)
  ultimately show ?thesis using s(1) st fp unfolding no_fids_def by (intro exI [of _ s] conjI) blast+
qed

theorem boot_starts_first_process_witness:
  "\<forall>h. \<exists>s. boot_with init_sched_lists 2 1 5 (Some 7) 0 None (0, 3, 4) ((static_kernel h)\<lparr>mem := Map.empty\<rparr>) = Inr s \<and>
     pstate (PT s 1) = ALIVE \<and> pstate (PT s 2) = FREE"
proof
  fix h
  have "0 < (2::nat)" "2 \<le> MAX_CORES" "unat (1::uint) \<le> MAX_TERMINALS"
    "args_ok None 0 ((static_kernel h)\<lparr>mem := Map.empty\<rparr>)"
    by (simp_all add: MAX_CORES_def MAX_TERMINALS_def args_ok_def)
  from boot_starts_first_process [OF this, where clk = 5 and f = 7 and m = 0 and pa = 3 and ta = 4]
  show "\<exists>s. boot_with init_sched_lists 2 1 5 (Some 7) 0 None (0, 3, 4) ((static_kernel h)\<lparr>mem := Map.empty\<rparr>) = Inr s \<and>
     pstate (PT s 1) = ALIVE \<and> pstate (PT s 2) = FREE" by auto
qed

text \<open>
  C11: The code's own \<open>initialize_scheduler\<close> stores out of the bounds of \<open>SCHED\<close>, so \<open>boot\<close>
  reaches that fault on every machine, before the first process is created.
\<close>

theorem boot_out_of_bounds:
  assumes "0 < n" and "n \<le> MAX_CORES" and "unat serialno \<le> MAX_TERMINALS"
  shows "boot n serialno clk task len a adr (static_kernel h) = Inl BadIndex"
proof -
  have e: "(static_kernel h)\<lparr>mem := Map.empty\<rparr> = static_kernel h" by (simp add: static_kernel_def)
  obtain s1 where s1: "vm_boot n serialno clk (static_kernel h) = Inr s1"
    "machine_up n (fold bootfunc_init [0..<n] (s1\<lparr>nterm := serialno\<rparr>))"
    "no_threads (fold bootfunc_init [0..<n] (s1\<lparr>nterm := serialno\<rparr>))"
    "\<forall>q. fresh_pcb (fold bootfunc_init [0..<n] (s1\<lparr>nterm := serialno\<rparr>)) q"
    by (rule machine_boot [OF assms, where clk = clk and h = h and M = Map.empty, unfolded e])
  obtain s2 where s2: "initialize_processes 0 adr (fold bootfunc_init [0..<n] (s1\<lparr>nterm := serialno\<rparr>)) = Inr s2"
    by (rule initialize_processes_ok [OF s1(2-4)])
  have "[0..SCHED_MAX_LEVEL] = [0, 1, 2, 3]" by (simp add: SCHED_MAX_LEVEL_def upto.simps)
  then have "initialize_scheduler s = Inl BadIndex" for s
    by (simp add: initialize_scheduler_def SCHED_MAX_LEVEL_def)
  then show ?thesis using s1(1) s2 by (simp add: boot_def boot_with_def boot_core_0_def)
qed

theorem boot_out_of_bounds_witness:
  "\<forall>h. boot 1 0 0 (Some 0) 0 None (0, 0, 0) (static_kernel h) = Inl BadIndex"
  by (rule allI, rule boot_out_of_bounds) (simp_all add: MAX_CORES_def MAX_TERMINALS_def)

section \<open>Creating processes\<close>

text \<open>
  C4: \<open>Exec\<close> takes the first free PCB for the new process, makes it a child of the caller with
  the caller's open file ids, a copy of the first \<open>argl\<close> bytes of the arguments and one thread,
  which is ready to run \<open>start_main_thread\<close>; it returns the new pid.  The new process is the
  only one that changes, the counts of the streams match again, and the kernel's invariants hold.
  With no PCB left \<open>Exec\<close> returns \<open>NOPROC\<close> and changes nothing.
\<close>

theorem Exec_adds_child:
  assumes "kernel_ok pc W pins fs fl K X T s" and "live s cur" and "pstate (PT s cur) = ALIVE"
    and "CURPROC c s = Inr cur" and "args_ok a len s" and "fresh_thread pa ta s"
  shows "case fl of
      [] \<Rightarrow> sys_Exec c (Some f) len a (m, pa, ta) s = Inr (NOPROC, s)
    | p # fl' \<Rightarrow> (\<exists>s'. sys_Exec c (Some f) len a (m, pa, ta) s = Inr (int p, s') \<and> \<not> live s p \<and>
        kernel_ok pc W pins fs fl' (K(cur := p # K cur)) X (T(p := T p @ [pa])) s' \<and>
        PT s' = (PT s)(p := (PT s p)\<lparr>pstate := ALIVE, parent := Some cur, thread_count := 1,
          FIDT := FIDT (PT s cur), main_task := Some f, argl := len, args := map_option (\<lambda>_. m) a\<rparr>) \<and>
        tcbs s' = (tcbs s)(HeapT ta \<mapsto> started_tcb p start_main_thread_func pa) \<and>
        (\<forall>b bs. a = Some b \<longrightarrow> mem s b = Some bs \<longrightarrow> mem s' m = Some (take (nat len) bs)))"
proof (cases fl)
  case Nil
  have "pcb_pool s []" using assms(1) unfolding Nil kernel_ok_def proc_inv_def by blast
  from sys_Exec_full [OF this] Nil show ?thesis by simp
next
  case (Cons p fl')
  obtain R where k: "cc_ok pc W R s" "fs_inv pins s fs" "proc_inv (p # fl') K X T s"
    using assms(1) unfolding Cons by (rule kernel_okE)
  obtain s' where s': "sys_Exec c (Some f) len a (m, pa, ta) s = Inr (int p, s')" "cc_ok pc W R s'"
    "fs_inv pins s' fs" "proc_inv fl' (K(cur := p # K cur)) X (T(p := T p @ [pa])) s'"
    "PT s' = (PT s)(p := (exec_pcb cur (Some f) len (map_option (\<lambda>_. m) a) s p)\<lparr>thread_count := 1\<rparr>)"
    "tcbs s' = (tcbs s)(HeapT ta \<mapsto> started_tcb p start_main_thread_func pa)"
    "mem s' = (case a of None \<Rightarrow> mem s | Some b \<Rightarrow> (mem s)(m \<mapsto> take (nat len) (the (mem s b))))"
    by (rule sys_Exec_ok [OF k assms(2-6)])
  have "\<not> live s p" using pcb_poolD(3) [OF proc_invD(1) [OF k(3)], of p] by simp
  moreover have "kernel_ok pc W pins fs fl' (K(cur := p # K cur)) X (T(p := T p @ [pa])) s'"
    using s'(2-4) unfolding kernel_ok_def by blast
  moreover have "(exec_pcb cur (Some f) len (map_option (\<lambda>_. m) a) s p)\<lparr>thread_count := 1\<rparr> =
      (PT s p)\<lparr>pstate := ALIVE, parent := Some cur, thread_count := 1, FIDT := FIDT (PT s cur),
        main_task := Some f, argl := len, args := map_option (\<lambda>_. m) a\<rparr>"
    by (simp add: exec_pcb_def)
  moreover have "\<forall>b bs. a = Some b \<longrightarrow> mem s b = Some bs \<longrightarrow> mem s' m = Some (take (nat len) bs)"
    by (auto simp: s'(7))
  ultimately show ?thesis unfolding Cons list.case using s'(1,5,6) by metis
qed

text \<open>The first process, running on the core, creates a child.\<close>

lemma run_exec:
  obtains s0 s where "sys_Exec 0 (Some 9) 0 None (1, 1, 1) s0 = Inr (2, s)" and "CURPROC 0 s0 = Inr 1"
    and "kernel_ok (\<lambda>_. Running) Map.empty (\<lambda>_. 0) [0..<MAX_FILES] [2..<MAX_PROC] (\<lambda>_. []) (\<lambda>_. []) ((\<lambda>_. [])(1 := [0])) s0"
    and "live s0 1" and "pstate (PT s0 1) = ALIVE" and "fresh_thread 1 1 s0"
    and "cc_ok (\<lambda>_. Running) Map.empty (\<lambda>_. []) s" and "fs_inv (\<lambda>_. 0) s [0..<MAX_FILES]"
    and "proc_inv [3..<MAX_PROC] ((\<lambda>_. [])(1 := [2])) (\<lambda>_. []) ((\<lambda>_. [])(1 := [0], 2 := [1])) s"
    and "CURPROC 0 s = Inr 1" and "pstate (PT s 2) = ALIVE" and "parent (PT s 2) = Some 1"
    and "\<exists>x. tcbs s (CURTHREAD 0 s) = Some x \<and> owner_pcb x = 1 \<and> tstate x = RUNNING \<and>
      ttype x = NORMAL_THREAD \<and> tptcb x = Some 0"
    and "ptcbs s 0 = Some (new_ptcb (HeapT 0) (Some 0) 0 None)" and "thread_count (PT s 1) = 1"
proof -
  obtain s0 where s0: "cc_ok (\<lambda>_. Running) Map.empty (\<lambda>_. []) s0" "fs_inv (\<lambda>_. 0) s0 [0..<MAX_FILES]"
    "proc_inv [2..<MAX_PROC] (\<lambda>_. []) (\<lambda>_. []) ((\<lambda>_. [])(1 := [0])) s0" "PT s0 = PT booted_kernel"
    "CURTHREAD 0 s0 = HeapT 0" "\<exists>x. tcbs s0 (HeapT 0) = Some x \<and> ttype x = NORMAL_THREAD \<and> owner_pcb x = 1 \<and> tptcb x = Some 0"
    "ptcbs s0 = [0 \<mapsto> new_ptcb (HeapT 0) (Some 0) 0 None]" "condvars s0 = (\<lambda>_. None)"
    "\<forall>a. tcbs s0 (HeapT a) \<noteq> None \<longrightarrow> a = 0" "ncores s0 = 1" by (rule first_process_runs)
  obtain L hs where "sched_inv (\<lambda>_. Running) s0 L hs" using cc_okD(1) [OF s0(1)] by blast
  then obtain x where x: "tcbs s0 (CURTHREAD 0 s0) = Some x" "tstate x = RUNNING"
    by (rule current_running [of _ _ _ _ 0]) (use s0(10) in simp_all)
  have "1 < MAX_PROC" "2 < MAX_PROC" by (simp_all add: MAX_PROC_def)
  then have up: "[2..<MAX_PROC] = 2 # [3..<MAX_PROC]" using upt_conv_Cons [of 2 MAX_PROC] by (simp only: eval_nat_numeral)
  have al: "live s0 1" "pstate (PT s0 1) = ALIVE"
    using booted_kernel(2) \<open>1 < MAX_PROC\<close> by (auto simp: live_def s0(4) started_def first_process_def boot_args_def)
  have cur: "CURPROC 0 s0 = Inr 1" using s0(5,6) by (auto simp: CURPROC_def)
  have fresh: "fresh_thread 1 1 s0" using s0(7-9) by (auto simp: fresh_thread_def)
  have a: "args_ok None 0 s0" by (simp add: args_ok_def)
  let ?T = "(\<lambda>_. [])(1 := [0]) :: pref \<Rightarrow> ptref list"
  obtain s where s: "sys_Exec 0 (Some 9) 0 None (1, 1, 1) s0 = Inr (int 2, s)" "cc_ok (\<lambda>_. Running) Map.empty (\<lambda>_. []) s"
    "fs_inv (\<lambda>_. 0) s [0..<MAX_FILES]"
    "proc_inv [3..<MAX_PROC] ((\<lambda>_. [])(1 := 2 # [])) (\<lambda>_. []) (?T(2 := ?T 2 @ [1])) s"
    "PT s = (PT s0)(2 := (exec_pcb 1 (Some 9) 0 (map_option (\<lambda>_. 1) (None :: ptr)) s0 2)\<lparr>thread_count := 1\<rparr>)"
    "tcbs s = (tcbs s0)(HeapT 1 \<mapsto> started_tcb 2 start_main_thread_func 1)"
    "\<forall>d. CURTHREAD d s = CURTHREAD d s0" "ptcbs s = (ptcbs s0)(1 \<mapsto> new_ptcb (HeapT 1) (Some 9) 0 None)"
    by (rule sys_Exec_ok [OF s0(1,2) s0(3) [unfolded up] al cur a fresh])
  have "CURPROC 0 s = Inr 1" using s0(5,6) by (auto simp: CURPROC_def s)
  moreover have "\<exists>x. tcbs s (CURTHREAD 0 s) = Some x \<and> owner_pcb x = 1 \<and> tstate x = RUNNING \<and>
      ttype x = NORMAL_THREAD \<and> tptcb x = Some 0"
    using x s0(5,6) by (auto simp: s)
  moreover have "thread_count (PT s0 1) = 1"
    using booted_kernel(2) by (auto simp: s0(4) started_def first_process_def boot_args_def)
  ultimately show ?thesis
    using that [OF _ cur _ al fresh s(2,3)] s s0(1-3,7) by (auto simp: kernel_ok_def exec_pcb_def)
qed

theorem Exec_adds_child_witness:
  "\<exists>s s'. sys_Exec 0 (Some 9) 0 None (1, 1, 1) s = Inr (2, s') \<and> parent (PT s' 2) = Some 1 \<and> \<not> live s 2"
proof -
  obtain s0 where s0: "CURPROC 0 s0 = Inr 1"
    "kernel_ok (\<lambda>_. Running) Map.empty (\<lambda>_. 0) [0..<MAX_FILES] [2..<MAX_PROC] (\<lambda>_. []) (\<lambda>_. []) ((\<lambda>_. [])(1 := [0])) s0"
    "live s0 1" "pstate (PT s0 1) = ALIVE" "fresh_thread 1 1 s0" by (rule run_exec)
  have "2 < MAX_PROC" by (simp add: MAX_PROC_def)
  then have up: "[2..<MAX_PROC] = 2 # [3..<MAX_PROC]" using upt_conv_Cons [of 2 MAX_PROC] by (simp only: eval_nat_numeral)
  have "args_ok None 0 s0" by (simp add: args_ok_def)
  from Exec_adds_child [OF s0(2-4,1) this s0(5), of 9 1] obtain s' where
    "sys_Exec 0 (Some 9) 0 None (1, 1, 1) s0 = Inr (int 2, s')" "\<not> live s0 2" "parent (PT s' 2) = Some 1"
    unfolding up list.case by auto
  then show ?thesis by (intro exI [of _ s0] exI [of _ s']) simp
qed

section \<open>Waiting for children\<close>

text \<open>
  C6: \<open>WaitChild\<close> on a given pid fails with \<open>NOPROC\<close> exactly when no child of the caller has
  that pid; on a child that is alive it waits on the caller's condition variable and changes
  nothing; a child that has exited is reaped: the call returns its pid and its exit status, and
  its PCB is free and first on the free list, while every other process stays as it is.
\<close>

theorem WaitChild_one_child:
  assumes "kernel_ok pc W pins fs fl K X T s" and "CURPROC c s = Inr cur" and "cpid \<noteq> NOPROC"
  shows "if 0 \<le> cpid \<and> live s (nat cpid) \<and> parent (PT s (nat cpid)) = Some cur
    then if pstate (PT s (nat cpid)) = ALIVE then sys_WaitChild c cpid status s = Inr (Block (ChildExit cur), s)
      else (\<exists>s'. sys_WaitChild c cpid status s =
          Inr (Return (cpid, if status then Some (exitval (PT s (nat cpid))) else None), s') \<and>
        kernel_ok pc W pins fs (nat cpid # fl) (K(cur := remove1 (nat cpid) (K cur)))
          (X(cur := remove1 (nat cpid) (X cur))) T s' \<and>
        \<not> live s' (nat cpid) \<and> (\<forall>q. q \<noteq> nat cpid \<longrightarrow> PT s' q = PT s q))
    else sys_WaitChild c cpid status s = Inr (Return (NOPROC, None), s)"
proof -
  obtain R where k: "cc_ok pc W R s" "fs_inv pins s fs" "proc_inv fl K X T s"
    using assms(1) by (rule kernel_okE)
  note e = wait_specific_eq [OF assms(2) k(3) assms(3), of status]
  have m: "nat cpid \<in> set (K cur) \<longleftrightarrow> live s (nat cpid) \<and> parent (PT s (nat cpid)) = Some cur"
    by (rule tree_okD(1) [OF proc_invD(2) [OF k(3)]])
  show ?thesis
  proof (cases "0 \<le> cpid \<and> live s (nat cpid) \<and> parent (PT s (nat cpid)) = Some cur \<and> pstate (PT s (nat cpid)) \<noteq> ALIVE")
    case True
    then have q: "live s (nat cpid)" "pstate (PT s (nat cpid)) = ZOMBIE" "parent (PT s (nat cpid)) = Some cur"
      by (cases "pstate (PT s (nat cpid))"; simp add: live_def)+
    note z = cleanup_zombie_ok [OF k q]
    have "\<not> live (reaped (nat cpid) s) (nat cpid)" by (simp add: live_def z(4))
    moreover have "\<forall>q. q \<noteq> nat cpid \<longrightarrow> PT (reaped (nat cpid) s) q = PT s q" by (simp add: z(4))
    moreover have "kernel_ok pc W pins fs (nat cpid # fl) (K(cur := remove1 (nat cpid) (K cur)))
          (X(cur := remove1 (nat cpid) (X cur))) T (reaped (nat cpid) s)"
      using z(1-3) unfolding kernel_ok_def by blast
    ultimately show ?thesis using True e m by auto
  qed (use e m in auto)
qed

text \<open>
  C7: \<open>WaitChild(NOPROC)\<close> fails exactly when the caller has no child; with children but none
  that has exited it waits; otherwise it reaps the child that is first on the caller's list of
  exited children, one of the zombie children.
\<close>

theorem WaitChild_any_child:
  assumes "kernel_ok pc W pins fs fl K X T s" and "CURPROC c s = Inr cur" and "cur < MAX_PROC"
  shows "case X cur of
      [] \<Rightarrow> sys_WaitChild c NOPROC status s =
        Inr (if \<exists>q. live s q \<and> parent (PT s q) = Some cur then Block (ChildExit cur) else Return (NOPROC, None), s)
    | q # qs \<Rightarrow> live s q \<and> pstate (PT s q) = ZOMBIE \<and> parent (PT s q) = Some cur \<and>
        (\<exists>s'. sys_WaitChild c NOPROC status s =
          Inr (Return (int q, if status then Some (exitval (PT s q)) else None), s') \<and>
        kernel_ok pc W pins fs (q # fl) (K(cur := remove1 q (K cur))) (X(cur := qs)) T s' \<and>
        \<not> live s' q \<and> (\<forall>p. p \<noteq> q \<longrightarrow> PT s' p = PT s p))"
proof -
  obtain R where k: "cc_ok pc W R s" "fs_inv pins s fs" "proc_inv fl K X T s"
    using assms(1) by (rule kernel_okE)
  note e = wait_any_eq [OF assms(2,3) k(3), of status]
  have m: "K cur = [] \<longleftrightarrow> \<not> (\<exists>q. live s q \<and> parent (PT s q) = Some cur)"
    using tree_okD(1) [OF proc_invD(2) [OF k(3)], of _ cur] by (metis empty_iff empty_set list.set_sel(1))
  show ?thesis
  proof (cases "X cur")
    case Nil
    then show ?thesis using e m by auto
  next
    case (Cons q qs)
    then have q: "live s q" "pstate (PT s q) = ZOMBIE" "parent (PT s q) = Some cur"
      using tree_okD(2) [OF proc_invD(2) [OF k(3)], of q cur] by simp_all
    then have "q \<in> set (K cur)" using tree_okD(1) [OF proc_invD(2) [OF k(3)]] by simp
    then have "K cur \<noteq> []" by auto
    note z = cleanup_zombie_ok [OF k q]
    have "X(cur := remove1 q (X cur)) = X(cur := qs)" using Cons by simp
    then have "kernel_ok pc W pins fs (q # fl) (K(cur := remove1 q (K cur))) (X(cur := qs)) T (reaped q s)"
      using z(1-3) unfolding kernel_ok_def by auto
    moreover have "\<not> live (reaped q s) q" "\<forall>p. p \<noteq> q \<longrightarrow> PT (reaped q s) p = PT s p"
      by (simp_all add: live_def z(4))
    ultimately show ?thesis using Cons e \<open>K cur \<noteq> []\<close> q by auto
  qed
qed

text \<open>The child of the first process exits with the value 42.\<close>

lemma run_child_exit:
  obtains s fs where "kernel_ok (\<lambda>_. Running) Map.empty (\<lambda>_. 0) fs [3..<MAX_PROC]
      ((\<lambda>_. [])(1 := [2])) ((\<lambda>_. [])(1 := [2])) ((\<lambda>_. [])(1 := [0], 2 := [1])) s"
    and "CURPROC 0 s = Inr 1" and "pstate (PT s 2) = ZOMBIE" and "exitval (PT s 2) = 42"
    and "parent (PT s 2) = Some 1"
proof -
  let ?K = "(\<lambda>_. [])(1 := [2]) :: pref \<Rightarrow> pref list" and ?X = "(\<lambda>_. []) :: pref \<Rightarrow> pref list"
  obtain s where s: "cc_ok (\<lambda>_. Running) Map.empty (\<lambda>_. []) s" "fs_inv (\<lambda>_. 0) s [0..<MAX_FILES]"
    "proc_inv [3..<MAX_PROC] ?K ?X ((\<lambda>_. [])(1 := [0], 2 := [1])) s"
    "CURPROC 0 s = Inr 1" "pstate (PT s 2) = ALIVE" "parent (PT s 2) = Some 1"
    "\<exists>x. tcbs s (CURTHREAD 0 s) = Some x \<and> owner_pcb x = 1 \<and> tstate x = RUNNING \<and>
      ttype x = NORMAL_THREAD \<and> tptcb x = Some 0" by (rule run_exec)
  have live: "live s 2" using s(5) by (simp add: live_def MAX_PROC_def)
  obtain s' R' fs' where s': "exit_process 0 2 42 s = Inr s'" "cc_ok (\<lambda>_. Running) Map.empty R' s'"
    "fs_inv (\<lambda>_. 0) s' fs'"
    "proc_inv [3..<MAX_PROC] (exit_kids 2 ?K) (exit_dead 2 (parent (PT s 2)) ?X) ((\<lambda>_. [])(1 := [0], 2 := [1])) s'"
    "wakes_only s s'" "PT s' = exit_pcb 2 42 ?K s"
    by (rule exit_process_ok [OF s(1-3) live s(5), where c = 0 and v = 42]) simp_all
  have K: "exit_kids 2 ?K = ?K" by (auto simp: exit_kids_def)
  have X: "exit_dead 2 (parent (PT s 2)) ?X = (\<lambda>_. [])(1 := [2])"
    by (auto simp: exit_dead_def adopted_dead_def s(6))
  have "CURPROC 0 s' = Inr 1" using s(7) s'(5) by (auto simp: wakes_only_def CURPROC_def asleep_def)
  moreover have "kernel_ok (\<lambda>_. Running) Map.empty (\<lambda>_. 0) fs' [3..<MAX_PROC]
      ((\<lambda>_. [])(1 := [2])) ((\<lambda>_. [])(1 := [2])) ((\<lambda>_. [])(1 := [0], 2 := [1])) s'"
    using s'(2,3) s'(4) [unfolded K X] unfolding kernel_ok_def by blast
  ultimately show ?thesis using s(6) s'(6) by (intro that [of fs' s']) (auto simp: exit_pcb_def)
qed

theorem WaitChild_one_child_witness:
  "\<exists>s s'. pstate (PT s 2) = ZOMBIE \<and> sys_WaitChild 0 2 True s = Inr (Return (2, Some 42), s') \<and> \<not> live s' 2"
proof -
  obtain s fs where s: "kernel_ok (\<lambda>_. Running) Map.empty (\<lambda>_. 0) fs [3..<MAX_PROC]
      ((\<lambda>_. [])(1 := [2])) ((\<lambda>_. [])(1 := [2])) ((\<lambda>_. [])(1 := [0], 2 := [1])) s"
    "CURPROC 0 s = Inr 1" "pstate (PT s 2) = ZOMBIE" "exitval (PT s 2) = 42" "parent (PT s 2) = Some 1"
    by (rule run_child_exit)
  have "live s 2" using s(3) by (simp add: live_def MAX_PROC_def)
  moreover have "(2::int) \<noteq> NOPROC" by (simp add: NOPROC_def)
  ultimately show ?thesis using WaitChild_one_child [OF s(1,2), of 2 True] s(3-5) by auto
qed

theorem WaitChild_any_child_witness:
  "\<exists>s s'. pstate (PT s 2) = ZOMBIE \<and> sys_WaitChild 0 NOPROC False s = Inr (Return (2, None), s') \<and> \<not> live s' 2"
proof -
  obtain s fs where s: "kernel_ok (\<lambda>_. Running) Map.empty (\<lambda>_. 0) fs [3..<MAX_PROC]
      ((\<lambda>_. [])(1 := [2])) ((\<lambda>_. [])(1 := [2])) ((\<lambda>_. [])(1 := [0], 2 := [1])) s"
    "CURPROC 0 s = Inr 1" "pstate (PT s 2) = ZOMBIE" "exitval (PT s 2) = 42" "parent (PT s 2) = Some 1"
    by (rule run_child_exit)
  have "1 < MAX_PROC" by (simp add: MAX_PROC_def)
  from WaitChild_any_child [OF s(1,2) this, of False] s(3-5) show ?thesis by auto
qed

section \<open>Threads\<close>

text \<open>
  C9: \<open>CreateThread\<close> gives the caller's process one more thread, last on its thread list,
  counted, not detached, not exited and joined by nobody, whose TCB is ready to run the task;
  the returned id is the address of its PTCB.  Nothing else of any process changes.
\<close>

theorem CreateThread_adds_thread:
  assumes "kernel_ok pc W pins fs fl K X T s" and "CURPROC c s = Inr cur" and "cur < MAX_PROC"
    and "fresh_thread pa ta s"
  shows "\<exists>s'. sys_CreateThread c task len a (pa, ta) s = Inr (OPtcb pa, s') \<and>
    kernel_ok pc W pins fs fl K X (T(cur := T cur @ [pa])) s' \<and>
    ptcbs s' = (ptcbs s)(pa \<mapsto> \<lparr>ptcb_tcb = Some (HeapT ta), detached = False, exited = False, ref_count = 0,
      texitval = 0, ttask = task, targl = len, targs = a\<rparr>) \<and>
    tcbs s' = (tcbs s)(HeapT ta \<mapsto> started_tcb cur start_thread_func pa) \<and>
    PT s' = (PT s)(cur := (PT s cur)\<lparr>thread_count := thread_count (PT s cur) + 1\<rparr>)"
proof -
  obtain R where k: "cc_ok pc W R s" "fs_inv pins s fs" "proc_inv fl K X T s"
    using assms(1) by (rule kernel_okE)
  obtain s' where s': "sys_CreateThread c task len a (pa, ta) s = Inr (OPtcb pa, s')" "cc_ok pc W R s'"
    "fs_inv pins s' fs" "proc_inv fl K X (T(cur := T cur @ [pa])) s'"
    "tcbs s' = (tcbs s)(HeapT ta \<mapsto> started_tcb cur start_thread_func pa)"
    "ptcbs s' = (ptcbs s)(pa \<mapsto> new_ptcb (HeapT ta) task len a)"
    "PT s' = (PT s)(cur := (PT s cur)\<lparr>thread_count := thread_count (PT s cur) + 1\<rparr>)"
    by (rule sys_CreateThread_ok [OF k assms(2-4)])
  have "kernel_ok pc W pins fs fl K X (T(cur := T cur @ [pa])) s'"
    using s'(2-4) unfolding kernel_ok_def by blast
  with s'(1,5-7) show ?thesis unfolding new_ptcb_def by blast
qed

lemma run_create:
  obtains s0 s where "sys_CreateThread 0 (Some 9) 0 None (1, 1) s0 = Inr (OPtcb 1, s)"
    and "kernel_ok (\<lambda>_. Running) Map.empty (\<lambda>_. 0) [0..<MAX_FILES] [2..<MAX_PROC] (\<lambda>_. []) (\<lambda>_. []) ((\<lambda>_. [])(1 := [0])) s0"
    and "CURPROC 0 s0 = Inr 1" and "fresh_thread 1 1 s0"
    and "kernel_ok (\<lambda>_. Running) Map.empty (\<lambda>_. 0) [0..<MAX_FILES] [2..<MAX_PROC] (\<lambda>_. []) (\<lambda>_. []) ((\<lambda>_. [])(1 := [0, 1])) s"
    and "runs_thread 0 1 0 s0" and "runs_thread 0 1 0 s" and "ptcbs s0 0 = Some (new_ptcb (HeapT 0) (Some 0) 0 None)"
    and "ptcbs s 0 = Some (new_ptcb (HeapT 0) (Some 0) 0 None)"
    and "ptcbs s 1 = Some (new_ptcb (HeapT 1) (Some 9) 0 None)" and "CURTHREAD 0 s = HeapT 0"
    and "thread_count (PT s0 1) = 1" and "thread_count (PT s 1) = 2" and "pstate (PT s0 1) = ALIVE"
    and "pstate (PT s 1) = ALIVE" and "ncores s0 = 1" and "ncores s = 1" and "waiters s0 = Map.empty"
    and "waiters s = Map.empty"
proof -
  obtain s0 where s0: "cc_ok (\<lambda>_. Running) Map.empty (\<lambda>_. []) s0" "fs_inv (\<lambda>_. 0) s0 [0..<MAX_FILES]"
    "proc_inv [2..<MAX_PROC] (\<lambda>_. []) (\<lambda>_. []) ((\<lambda>_. [])(1 := [0])) s0" "PT s0 = PT booted_kernel"
    "CURTHREAD 0 s0 = HeapT 0" "\<exists>x. tcbs s0 (HeapT 0) = Some x \<and> ttype x = NORMAL_THREAD \<and> owner_pcb x = 1 \<and> tptcb x = Some 0"
    "ptcbs s0 = [0 \<mapsto> new_ptcb (HeapT 0) (Some 0) 0 None]" "condvars s0 = (\<lambda>_. None)"
    "\<forall>a. tcbs s0 (HeapT a) \<noteq> None \<longrightarrow> a = 0" "ncores s0 = 1" "waiters s0 = Map.empty"
    by (rule first_process_runs)
  have fresh: "fresh_thread 1 1 s0" using s0(7-9) by (auto simp: fresh_thread_def)
  have r: "runs_thread 0 1 0 s0" using s0(5,6) by (simp add: runs_thread_def)
  note cur = runs_thread_CURPROC [OF r]
  have 1: "1 < MAX_PROC" by (simp add: MAX_PROC_def)
  let ?T = "(\<lambda>_. [])(1 := [0]) :: pref \<Rightarrow> ptref list"
  obtain s where s: "new_thread 0 1 1 1 start_thread_func (Some 9) 0 None s0 = Inr s"
    "cc_ok (\<lambda>_. Running) Map.empty (\<lambda>_. []) s" "fs_inv (\<lambda>_. 0) s [0..<MAX_FILES]"
    "proc_inv [2..<MAX_PROC] (\<lambda>_. []) (\<lambda>_. []) (?T(1 := ?T 1 @ [1])) s"
    "tcbs s = (tcbs s0)(HeapT 1 \<mapsto> started_tcb 1 start_thread_func 1)"
    "ptcbs s = (ptcbs s0)(1 \<mapsto> new_ptcb (HeapT 1) (Some 9) 0 None)"
    "PT s = (PT s0)(1 := (PT s0 1)\<lparr>thread_count := thread_count (PT s0 1) + 1\<rparr>)"
    "\<forall>d. CURTHREAD d s = CURTHREAD d s0" "waiters s = waiters s0" "ncores s = ncores s0"
    by (rule new_thread_ok [OF s0(1-3) 1 fresh])
  have p1: "pstate (PT s0 1) = ALIVE" "thread_count (PT s0 1) = 1"
    using booted_kernel(2) by (auto simp: s0(4) started_def first_process_def boot_args_def)
  obtain L hs where inv: "sched_inv (\<lambda>_. Running) s L hs" using cc_okD(1) [OF s(2)] by blast
  have "sys_CreateThread 0 (Some 9) 0 None (1, 1) s0 = Inr (OPtcb 1, s)"
    using s(1) cur by (simp add: sys_CreateThread_def)
  moreover have "runs_thread 0 1 0 s" using s0(5,6) s(5,8) by (simp add: runs_thread_def)
  moreover have "kernel_ok (\<lambda>_. Running) Map.empty (\<lambda>_. 0) [0..<MAX_FILES] [2..<MAX_PROC] (\<lambda>_. []) (\<lambda>_. []) ((\<lambda>_. [])(1 := [0, 1])) s"
    using s(2-4) by (auto simp: kernel_ok_def)
  moreover have "kernel_ok (\<lambda>_. Running) Map.empty (\<lambda>_. 0) [0..<MAX_FILES] [2..<MAX_PROC] (\<lambda>_. []) (\<lambda>_. []) ((\<lambda>_. [])(1 := [0])) s0"
    using s0(1-3) by (auto simp: kernel_ok_def)
  ultimately show ?thesis
    by (intro that [of s0 s]) (use cur fresh r s0 s p1 in simp_all)
qed

theorem CreateThread_adds_thread_witness:
  "\<exists>s s'. sys_CreateThread 0 (Some 9) 0 None (1, 1) s = Inr (OPtcb 1, s') \<and> thread_count (PT s 1) = 1 \<and>
     thread_count (PT s' 1) = 2"
proof -
  obtain s0 where s0: "kernel_ok (\<lambda>_. Running) Map.empty (\<lambda>_. 0) [0..<MAX_FILES] [2..<MAX_PROC] (\<lambda>_. []) (\<lambda>_. []) ((\<lambda>_. [])(1 := [0])) s0"
    "CURPROC 0 s0 = Inr 1" "fresh_thread 1 1 s0" "thread_count (PT s0 1) = 1" by (rule run_create)
  have "1 < MAX_PROC" by (simp add: MAX_PROC_def)
  from CreateThread_adds_thread [OF s0(1,2) this s0(3), of "Some 9" 0 None] obtain s' where
    "sys_CreateThread 0 (Some 9) 0 None (1, 1) s0 = Inr (OPtcb 1, s')"
    "PT s' = (PT s0)(1 := (PT s0 1)\<lparr>thread_count := thread_count (PT s0 1) + 1\<rparr>)" by auto
  with s0(4) show ?thesis by (intro exI [of _ s0] exI [of _ s']) simp
qed

text \<open>
  C10: \<open>ThreadJoin\<close> on a live PTCB: it fails for a detached thread, for the caller itself and
  for a thread of another process; for a running thread the caller is counted as a joiner and
  waits for the exit; for a thread that has exited already it returns the number that the
  caller's own pointer points to, and dereferences that pointer even when it is null, and never
  the exit value of the thread.
\<close>

theorem ThreadJoin_results:
  assumes "kernel_ok pc W pins fs fl K X T s" and "CURPROC c s = Inr cur" and "cur < MAX_PROC"
    and "ptcbs s a = Some x"
  shows "sys_ThreadJoin c (OPtcb a) ev s =
    (if detached x \<or> ptcb_tcb x = Some (CURTHREAD c s) \<or> a \<notin> set (T cur) then Inr (Return (-1), s)
     else if exited x then (case ev of None \<Rightarrow> Inl NullDeref | Some v \<Rightarrow> Inr (Return v, s))
     else Inr (Block (ExitCv a), set_ptcb a (x\<lparr>ref_count := ref_count x + 1\<rparr>) s))"
  using assms(1) by (rule kernel_okE) (rule sys_ThreadJoin_eq [OF _ assms(2-4)])

theorem ThreadJoin_results_witness:
  "\<exists>s s'. sys_ThreadJoin 0 (OPtcb 0) None s = Inr (Return (-1), s) \<and>
     sys_ThreadJoin 0 (OPtcb 1) None s = Inr (Block (ExitCv 1), s') \<and>
     (\<exists>x. ptcbs s' 1 = Some x \<and> ref_count x = 1)"
proof -
  obtain s where s: "kernel_ok (\<lambda>_. Running) Map.empty (\<lambda>_. 0) [0..<MAX_FILES] [2..<MAX_PROC] (\<lambda>_. []) (\<lambda>_. []) ((\<lambda>_. [])(1 := [0, 1])) s"
    "runs_thread 0 1 0 s" "ptcbs s 0 = Some (new_ptcb (HeapT 0) (Some 0) 0 None)"
    "ptcbs s 1 = Some (new_ptcb (HeapT 1) (Some 9) 0 None)" "CURTHREAD 0 s = HeapT 0" by (rule run_create)
  have m: "1 < MAX_PROC" by (simp add: MAX_PROC_def)
  note j = ThreadJoin_results [OF s(1) runs_thread_CURPROC [OF s(2)] m]
  from j [OF s(3), of None] j [OF s(4), of None] s(5) show ?thesis
    by (auto simp: new_ptcb_def set_ptcb_def)
qed

text \<open>
  The joiners of a thread that has exited never free its PTCB.  The last one, which finds
  itself the only one counted, searches the thread list for the address of the list node where
  the list's keys are the PTCBs, so it never finds it: it returns 0 and leaves the PTCB, with
  nobody joined to it, in the memory and in the thread list of the process.
\<close>

theorem joined_ptcb_never_freed:
  assumes "kernel_ok pc W pins fs fl K X T s" and "CURPROC c s = Inr cur" and "cur < MAX_PROC"
    and "ptcbs s a = Some x" and "exited x" and "\<not> detached x" and "ref_count x = 1" and "a \<in> set (T cur)"
  shows "\<exists>s'. join_loop c a s = Inr (Return 0, s') \<and> ptcbs s' a = Some (x\<lparr>ref_count := 0\<rparr>) \<and>
    rl s' = rl s \<and> (\<exists>xs. isring (rl s') (ThreadList cur) xs \<and> ThreadNode a \<in> set xs)"
proof -
  obtain R where k: "cc_ok pc W R s" "fs_inv pins s fs" "proc_inv fl K X T s"
    using assms(1) by (rule kernel_okE)
  let ?s = "set_ptcb a (x\<lparr>ref_count := ref_count x - 1\<rparr>) s"
  have "0 < ref_count x" using assms(7) by simp
  from join_exited_eq [OF k(3) assms(2-6) this] have "join_loop c a s = Inr (Return 0, ?s)" .
  moreover have "isring (rl ?s) (ThreadList cur) (map ThreadNode (T cur))"
    using familyD(1) [OF proc_listsD(3) [OF proc_invD(3) [OF k(3)]] assms(3)] by (simp add: set_ptcb_def)
  ultimately show ?thesis using assms(7,8)
    by (intro exI [of _ ?s]) (auto simp: set_ptcb_def intro!: exI [of _ "map ThreadNode (T cur)"])
qed

theorem joined_ptcb_never_freed_witness:
  "\<exists>s s'. join_loop 0 1 s = Inr (Return 0, s') \<and> ptcbs s' 1 \<noteq> None"
proof -
  obtain s where s: "kernel_ok (\<lambda>_. Running) Map.empty (\<lambda>_. 0) [0..<MAX_FILES] [2..<MAX_PROC] (\<lambda>_. []) (\<lambda>_. []) ((\<lambda>_. [])(1 := [0, 1])) s"
    "runs_thread 0 1 0 s" "ptcbs s 1 = Some (new_ptcb (HeapT 1) (Some 9) 0 None)" by (rule run_create)
  obtain R where k: "cc_ok (\<lambda>_. Running) Map.empty R s" "fs_inv (\<lambda>_. 0) s [0..<MAX_FILES]"
    "proc_inv [2..<MAX_PROC] (\<lambda>_. []) (\<lambda>_. []) ((\<lambda>_. [])(1 := [0, 1])) s" using s(1) by (rule kernel_okE)
  let ?x = "(new_ptcb (HeapT 1) (Some 9) 0 None)\<lparr>ref_count := 1, exited := True\<rparr>"
  have m0: "mid_ok (\<lambda>_. Running) Map.empty R (\<lambda>_. 0) [0..<MAX_FILES] (\<lambda>_. []) (\<lambda>_. []) ((\<lambda>_. [])(1 := [0, 1])) s"
    using k(1,2) proc_invD(3) [OF k(3)] by (simp add: mid_ok_def)
  note m = ptcb_upd_mid [OF m0 s(3), of ?x]
  have p: "proc_inv [2..<MAX_PROC] (\<lambda>_. []) (\<lambda>_. []) ((\<lambda>_. [])(1 := [0, 1])) (set_ptcb 1 ?x s)"
    by (rule mid_proc [OF m(1) k(3) m(2)]) (simp_all add: set_ptcb_def)
  have ok: "kernel_ok (\<lambda>_. Running) Map.empty (\<lambda>_. 0) [0..<MAX_FILES] [2..<MAX_PROC] (\<lambda>_. []) (\<lambda>_. []) ((\<lambda>_. [])(1 := [0, 1])) (set_ptcb 1 ?x s)"
    using m(1) p unfolding kernel_ok_def mid_ok_def by blast
  have c: "CURPROC 0 (set_ptcb 1 ?x s) = Inr 1"
    using runs_thread_CURPROC [OF s(2)] CURPROC_cong [of "set_ptcb 1 ?x s" s 0] by (simp add: set_ptcb_def)
  have "1 < MAX_PROC" by (simp add: MAX_PROC_def)
  from joined_ptcb_never_freed [OF ok c this, of 1 ?x] show ?thesis by (auto simp: set_ptcb_def new_ptcb_def)
qed

section \<open>The end of threads and processes\<close>

text \<open>
  C8: \<open>ThreadExit\<close> of a thread that is not detached and not the last of its process: its PTCB
  is freed and leaves the thread list if nobody joins it, else it keeps the exit value for the
  joiners, all of whom are awake; the process counts one thread less and is otherwise
  unchanged; the kernel is released and the thread is marked as exited, about to give up its
  core for good.
\<close>

theorem ThreadExit_leaves_process:
  assumes "kernel_ok pc W pins fs fl K X T s" and "c < ncores s" and "pc c = Running"
    and "runs_thread c p a s" and "waiters s (CURTHREAD c s) = None" and "live s p" and "pstate (PT s p) = ALIVE"
    and "a \<in> set (T p)" and "ptcbs s a = Some x" and "\<not> detached x" and "thread_count (PT s p) \<noteq> 1"
  shows "\<exists>b s' fs'. sys_ThreadExit c v s = Inr (b, s') \<and>
    kernel_ok (pc(c := Sleeping SCHED_USER)) W pins fs' fl K X
      (if ref_count x = 0 then T(p := remove1 a (T p)) else T) s' \<and>
    PT s' = (PT s)(p := (PT s p)\<lparr>thread_count := thread_count (PT s p) - 1\<rparr>) \<and>
    ptcbs s' = (ptcbs s)(a := if ref_count x = 0 then None
      else Some (x\<lparr>texitval := v, exited := True, targs := None\<rparr>)) \<and>
    kernel_sem s' = kernel_sem s + 1 \<and> (\<exists>y. tcbs s' (CURTHREAD c s) = Some y \<and> tstate y = EXITED) \<and>
    (\<forall>w. W w = Some (ExitCv a) \<longrightarrow> \<not> asleep s' w)"
proof -
  obtain R where k: "cc_ok pc W R s" "fs_inv pins s fs" "proc_inv fl K X T s"
    using assms(1) by (rule kernel_okE)
  obtain t where t: "tcbs s (CURTHREAD c s) = Some t" "ttype t = NORMAL_THREAD" "owner_pcb t = p" "tptcb t = Some a"
    using assms(4) by (auto simp: runs_thread_def)
  have l: "\<not> last_thread p s" using assms(11) by (simp add: last_thread_def)
  obtain b s' R' fs' where s': "sys_ThreadExit c v s = Inr (b, s')"
    "cc_ok (pc(c := Sleeping SCHED_USER)) W R' s'" "fs_inv pins s' fs'"
    "proc_inv fl (if last_thread p s then exit_kids p K else K)
      (if last_thread p s then exit_dead p (parent (PT s p)) X else X) (left_threads p a x T) s'"
    "PT s' = (if last_thread p s then exit_pcb p v K (s\<lparr>PT := left_PT p s\<rparr>) else left_PT p s)"
    "ptcbs s' = left_ptcbs a v x (ptcbs s)" "kernel_sem s' = kernel_sem s + 1"
    "\<exists>y. tcbs s' (CURTHREAD c s) = Some y \<and> tstate y = EXITED"
    "\<forall>w. W w = Some (ExitCv a) \<longrightarrow> \<not> asleep s' w"
    by (rule sys_ThreadExit_ok [OF k assms(2,3) t(1,2) assms(5) t(3) assms(6,7) t(4) assms(8-10)]) (use l in simp_all)
  have "kernel_ok (pc(c := Sleeping SCHED_USER)) W pins fs' fl K X
      (if ref_count x = 0 then T(p := remove1 a (T p)) else T) s'"
    using s'(2-4) l unfolding kernel_ok_def left_threads_def by auto
  then show ?thesis using s'(1,5-9) l unfolding left_PT_def left_ptcbs_def by auto
qed

theorem ThreadExit_leaves_process_witness:
  "\<exists>s s' b. sys_ThreadExit 0 5 s = Inr (b, s') \<and> ptcbs s 0 \<noteq> None \<and> ptcbs s' 0 = None \<and>
     thread_count (PT s' 1) = 1 \<and> pstate (PT s' 1) = ALIVE"
proof -
  obtain s where s: "kernel_ok (\<lambda>_. Running) Map.empty (\<lambda>_. 0) [0..<MAX_FILES] [2..<MAX_PROC] (\<lambda>_. []) (\<lambda>_. []) ((\<lambda>_. [])(1 := [0, 1])) s"
    "runs_thread 0 1 0 s" "ptcbs s 0 = Some (new_ptcb (HeapT 0) (Some 0) 0 None)"
    "thread_count (PT s 1) = 2" "pstate (PT s 1) = ALIVE" "ncores s = 1" "waiters s = Map.empty" by (rule run_create)
  have l: "live s 1" using s(5) by (simp add: live_def MAX_PROC_def)
  from ThreadExit_leaves_process [OF s(1) _ _ s(2) _ l s(5) _ s(3), where v = 5] s(3-7)
  obtain b s' where "sys_ThreadExit 0 5 s = Inr (b, s')" "ptcbs s' = (ptcbs s)(0 := None)"
    "PT s' = (PT s)(1 := (PT s 1)\<lparr>thread_count := thread_count (PT s 1) - 1\<rparr>)"
    by (auto simp: new_ptcb_def)
  with s(3-5) show ?thesis by (intro exI [of _ s] exI [of _ s'] exI [of _ b]) simp
qed

text \<open>
  C5: When the last thread of a process exits and was not detached, the process ends: it is a
  zombie with the exit value, without open file ids, its children are children of the first
  process, zombies among them included, it is on its parent's list of exited children and every
  thread that waits for a child there is awake; the kernel's invariants hold.  When it was
  detached, \<open>sys_ThreadExit\<close> faults instead, for it reads the PTCB it has just freed.  (A
  thread of the first process is covered when that process has no child.)
\<close>

theorem last_thread_ends_process:
  assumes "kernel_ok pc W pins fs fl K X T s" and "c < ncores s" and "pc c = Running"
    and "runs_thread c p a s" and "waiters s (CURTHREAD c s) = None" and "live s p" and "pstate (PT s p) = ALIVE"
    and "a \<in> set (T p)" and "ptcbs s a = Some x" and "thread_count (PT s p) = 1"
    and "p = 1 \<Longrightarrow> K p = []"
  shows "if detached x then sys_ThreadExit c v s = Inl DanglingPtr
    else \<exists>b s' fs' K' X' T'. sys_ThreadExit c v s = Inr (b, s') \<and>
    kernel_ok (pc(c := Sleeping SCHED_USER)) W pins fs' fl K' X' T' s' \<and>
    pstate (PT s' p) = ZOMBIE \<and> exitval (PT s' p) = v \<and> (\<forall>i. FIDT (PT s' p) i = None) \<and>
    (\<forall>q. live s q \<and> parent (PT s q) = Some p \<longrightarrow> parent (PT s' q) = Some 1 \<and> pstate (PT s' q) = pstate (PT s q)) \<and>
    (\<forall>q. q \<noteq> p \<and> \<not> (live s q \<and> parent (PT s q) = Some p) \<longrightarrow> PT s' q = PT s q) \<and>
    (\<forall>q. parent (PT s p) = Some q \<longrightarrow> p \<in> set (X' q) \<and> (\<forall>w. W w = Some (ChildExit q) \<longrightarrow> \<not> asleep s' w))"
proof (cases "detached x")
  case True
  then show ?thesis using detached_exit_reads_freed [OF assms(1,4,9)] by simp
next
  case False
  obtain R where k: "cc_ok pc W R s" "fs_inv pins s fs" "proc_inv fl K X T s"
    using assms(1) by (rule kernel_okE)
  obtain t where t: "tcbs s (CURTHREAD c s) = Some t" "ttype t = NORMAL_THREAD" "owner_pcb t = p" "tptcb t = Some a"
    using assms(4) by (auto simp: runs_thread_def)
  have l: "last_thread p s" using assms(10) by (simp add: last_thread_def)
  obtain b s' R' fs' where s': "sys_ThreadExit c v s = Inr (b, s')"
    "cc_ok (pc(c := Sleeping SCHED_USER)) W R' s'" "fs_inv pins s' fs'"
    "proc_inv fl (if last_thread p s then exit_kids p K else K)
      (if last_thread p s then exit_dead p (parent (PT s p)) X else X) (left_threads p a x T) s'"
    "PT s' = (if last_thread p s then exit_pcb p v K (s\<lparr>PT := left_PT p s\<rparr>) else left_PT p s)"
    "\<forall>q w. last_thread p s \<longrightarrow> parent (PT s p) = Some q \<longrightarrow> W w = Some (ChildExit q) \<longrightarrow> \<not> asleep s' w"
    by (rule sys_ThreadExit_ok [OF k assms(2,3) t(1,2) assms(5) t(3) assms(6,7) t(4) assms(8,9) False assms(11)]) auto
  have ok: "kernel_ok (pc(c := Sleeping SCHED_USER)) W pins fs' fl (exit_kids p K)
      (exit_dead p (parent (PT s p)) X) (left_threads p a x T) s'"
    using s'(2-4) l unfolding kernel_ok_def by auto
  have m: "q \<in> set (K p) \<longleftrightarrow> live s q \<and> parent (PT s q) = Some p" for q
    by (rule tree_okD(1) [OF proc_invD(2) [OF k(3)]])
  have P: "PT s' = exit_pcb p v K (s\<lparr>PT := left_PT p s\<rparr>)" using s'(5) l by simp
  have own: "\<not> parent (PT s p) = Some p"
  proof
    assume "parent (PT s p) = Some p"
    then have "p \<in> set (K p)" using m assms(6) by simp
    then have "p \<noteq> 1" using assms(11) by auto
    have "tree_ok (exit_kids p K) (exit_dead p (parent (PT s p)) X) s'"
      using ok proc_invD(2) unfolding kernel_ok_def by blast
    from tree_okD(1) [OF this, of p p] \<open>p \<in> set (K p)\<close> \<open>p \<noteq> 1\<close> assms(6) \<open>parent (PT s p) = Some p\<close>
    show False by (auto simp: exit_kids_def P exit_pcb_def left_PT_def live_def)
  qed
  have "\<forall>q. live s q \<and> parent (PT s q) = Some p \<longrightarrow> parent (PT s' q) = Some 1 \<and> pstate (PT s' q) = pstate (PT s q)"
    using m own by (auto simp: P exit_pcb_def left_PT_def)
  moreover have "\<forall>q. q \<noteq> p \<and> \<not> (live s q \<and> parent (PT s q) = Some p) \<longrightarrow> PT s' q = PT s q"
    using m by (auto simp: P exit_pcb_def left_PT_def)
  moreover have "\<forall>q. parent (PT s p) = Some q \<longrightarrow> p \<in> set (exit_dead p (parent (PT s p)) X q)"
    by (auto simp: exit_dead_def)
  moreover have "pstate (PT s' p) = ZOMBIE" "exitval (PT s' p) = v" "\<forall>i. FIDT (PT s' p) i = None"
    by (simp_all add: P exit_pcb_def)
  moreover have "\<forall>q w. parent (PT s p) = Some q \<longrightarrow> W w = Some (ChildExit q) \<longrightarrow> \<not> asleep s' w" using s'(6) l by blast
  ultimately show ?thesis using s'(1) ok unfolding if_not_P [OF False] by blast
qed

theorem last_thread_ends_process_witness:
  "\<exists>s s' b. sys_ThreadExit 0 7 s = Inr (b, s') \<and> pstate (PT s 1) = ALIVE \<and> pstate (PT s' 1) = ZOMBIE \<and>
     exitval (PT s' 1) = 7"
proof -
  obtain s where s: "kernel_ok (\<lambda>_. Running) Map.empty (\<lambda>_. 0) [0..<MAX_FILES] [2..<MAX_PROC] (\<lambda>_. []) (\<lambda>_. []) ((\<lambda>_. [])(1 := [0])) s"
    "runs_thread 0 1 0 s" "ptcbs s 0 = Some (new_ptcb (HeapT 0) (Some 0) 0 None)"
    "thread_count (PT s 1) = 1" "pstate (PT s 1) = ALIVE" "ncores s = 1" "waiters s = Map.empty" by (rule run_create)
  have l: "live s 1" using s(5) by (simp add: live_def MAX_PROC_def)
  from last_thread_ends_process [OF s(1) _ _ s(2) _ l s(5) _ s(3) s(4), where v = 7] s(3-7)
  show ?thesis by (auto simp: new_ptcb_def)
qed

text \<open>
  Two threads of a process that wait for the same child both reap it: the second one, whose
  loop finds the child no longer alive, releases the PCB again.  Afterwards the PCB is its own
  successor on the free list, and from then on every \<open>acquire_PCB\<close> returns the same PCB.
\<close>

theorem second_reap_corrupts_free_list:
  assumes "kernel_ok pc W pins fs fl K X T s" and "live s q" and "pstate (PT s q) = ZOMBIE" and "parent (PT s q) = Some p"
  shows "\<exists>s1 s2 s3. specific_child_loop p q False s = (Return (int q, None), s1) \<and>
    specific_child_loop p q False s1 = (Return (int q, None), s2) \<and>
    process_count s2 = process_count s - 2 \<and> acquire_PCB s2 = (Some q, s3) \<and> fst (acquire_PCB s3) = Some q"
proof -
  obtain R where k: "cc_ok pc W R s" "fs_inv pins s fs" "proc_inv fl K X T s"
    using assms(1) by (rule kernel_okE)
  have r: "reaped u t = release_PCB u (t\<lparr>rl := rlist_remove (ExitedNode u) (rlist_remove (ChildrenNode u) (rl t))\<rparr>)" for u t
    by (simp add: reaped_def cleanup_zombie_def Let_def)
  have f: "pcb_freelist (reaped u t) = Some u" "PT (reaped u t) u = (PT t u)\<lparr>pstate := FREE, parent := pcb_freelist t\<rparr>"
    "process_count (reaped u t) = process_count t - 1" for u t
    by (simp_all add: r release_PCB_def set_PCB_def)
  have "specific_child_loop p q False t = (Return (int q, None), reaped q t)" if "pstate (PT t q) \<noteq> ALIVE" for t
    using that by (simp add: specific_child_loop_def cleanup_zombie_eq Let_def)
  moreover have "pstate (PT s q) \<noteq> ALIVE" "pstate (PT (reaped q s) q) \<noteq> ALIVE" using assms(3) f(2) by simp_all
  moreover have "fst (acquire_PCB (snd (acquire_PCB (reaped q (reaped q s))))) = Some q"
    "acquire_PCB (reaped q (reaped q s)) = (Some q, snd (acquire_PCB (reaped q (reaped q s))))"
    by (simp_all add: acquire_PCB_def f set_PCB_def Let_def)
  moreover have "process_count (reaped q (reaped q s)) = process_count s - 2" by (simp add: f)
  ultimately show ?thesis by blast
qed

theorem second_reap_corrupts_free_list_witness:
  "\<exists>s s1 s2 s3. specific_child_loop 1 2 False s = (Return (2, None), s1) \<and>
     specific_child_loop 1 2 False s1 = (Return (2, None), s2) \<and> acquire_PCB s2 = (Some 2, s3) \<and>
     fst (acquire_PCB s3) = Some 2"
proof -
  obtain s fs where s: "kernel_ok (\<lambda>_. Running) Map.empty (\<lambda>_. 0) fs [3..<MAX_PROC]
      ((\<lambda>_. [])(1 := [2])) ((\<lambda>_. [])(1 := [2])) ((\<lambda>_. [])(1 := [0], 2 := [1])) s"
    "pstate (PT s 2) = ZOMBIE" "parent (PT s 2) = Some 1" by (rule run_child_exit)
  have "live s 2" using s(2) by (simp add: live_def MAX_PROC_def)
  from second_reap_corrupts_free_list [OF s(1) this s(2,3)] show ?thesis by (simp, blast)
qed

end
