(* ===== verification/Exceptions.thy ===== *)
theory Exceptions
  imports Prelude "HOL-Library.Multiset"
begin

text \<open>
  The exception library of src/util.h and src/util.c.  \<open>setjmp\<close> and \<open>longjmp\<close> move the control
  of the thread, so the model is a machine whose configuration holds the code that is left to run
  and the exception stack, each of whose frames remembers the code after its \<open>TRY\<close> block.  The
  state of the program is a parameter.
\<close>

section \<open>Programs\<close>

text \<open>
  The statements of a program that uses the library.  A handler is a nested function; its
  parameter \<open>e\<close> is the argument of the actions in it.  An action that fails an \<open>ASSERT\<close> has the
  result \<open>None\<close>.  The handlers carry a number.
\<close>

datatype 's stmt =
    Do "int \<Rightarrow> 's \<Rightarrow> 's option"
  | CONTEXT "bool \<Rightarrow> bool"        \<comment> \<open>\<open>ASSERT\<close> on whether the context is not null\<close>
  | RAISE                         \<comment> \<open>\<open>raise_exception(context)\<close>\<close>
  | TRY "'s stmt list"
  | ON_ERROR nat "'s stmt list"
  | FINALLY nat "'s stmt list"

type_synonym 's handler_frame = "nat \<times> 's stmt list"

text \<open>
  How far the \<open>TRY\<close> block of a frame is: its body runs, or \<open>exception_unwind\<close> runs on it, with the
  error code and whether a catcher has been executed.
\<close>

datatype phase = Body | Unwinding int bool

record 's stack_frame =
  catchers :: "'s handler_frame list"
  finalizers :: "'s handler_frame list"
  phase :: phase
  after :: "'s stmt list"         \<comment> \<open>the code after the block\<close>
  after_e :: int                  \<comment> \<open>the \<open>e\<close> of the handler that holds the block\<close>

text \<open>
  A configuration: the code to run, the \<open>e\<close> it sees, the exception stack (the top first), the
  program's state, and the handlers registered by \<open>FINALLY\<close> and \<open>ON_ERROR\<close> and executed so far.
\<close>

record 's conf =
  code :: "'s stmt list"
  cur_e :: int
  frames :: "'s stack_frame list"
  prog_state :: 's
  registered :: "nat multiset"
  registered_on :: "nat multiset"
  executed :: "nat multiset"
  executed_on :: "nat multiset"

section \<open>The operations of the library\<close>

definition exc_push_frame :: "'s stack_frame \<Rightarrow> 's conf \<Rightarrow> 's conf" where
  "exc_push_frame frame c = c\<lparr>frames := frame # frames c\<rparr>"

text \<open>\<open>TRY_WITH\<close> pushes a frame without handlers, which \<open>longjmp\<close> comes back to, and runs the body.\<close>

definition TRY_WITH :: "'s stmt list \<Rightarrow> 's stmt list \<Rightarrow> 's conf \<Rightarrow> 's conf" where
  "TRY_WITH body rest c =
     (exc_push_frame \<lparr>catchers = [], finalizers = [], phase = Body, after = rest, after_e = cur_e c\<rparr> c)\<lparr>code := body\<rparr>"

text \<open>
  \<open>FINALLY\<close> and \<open>ON_ERROR\<close> put a handler that lives in the block's stack frame in front of the
  lists of the block.  Outside a block they do not compile.  In a handler, outside a block of its
  own, the handler they would register is a local of the handler's frame, which dies before it can
  run: registering it is the fault \<open>DanglingPtr\<close>.  A \<open>return\<close> or a jump out of the body of a block,
  which would leave its frame on the exception stack, is not among the statements.
\<close>

definition add_finalizer :: "nat \<Rightarrow> 's stmt list \<Rightarrow> 's conf \<Rightarrow> 's conf result" where
  "add_finalizer n h c =
     (case frames c of
        [] \<Rightarrow> Inl NullDeref
      | f # fs \<Rightarrow> if phase f \<noteq> Body then Inl DanglingPtr
          else Inr (c\<lparr>frames := f\<lparr>finalizers := (n, h) # finalizers f\<rparr> # fs,
                      registered := add_mset n (registered c)\<rparr>))"

definition add_catcher :: "nat \<Rightarrow> 's stmt list \<Rightarrow> 's conf \<Rightarrow> 's conf result" where
  "add_catcher n h c =
     (case frames c of
        [] \<Rightarrow> Inl NullDeref
      | f # fs \<Rightarrow> if phase f \<noteq> Body then Inl DanglingPtr
          else Inr (c\<lparr>frames := f\<lparr>catchers := (n, h) # catchers f\<rparr> # fs,
                      registered_on := add_mset n (registered_on c)\<rparr>))"

text \<open>
  \<open>longjmp\<close> to the top frame, where \<open>exc_try\<close> calls \<open>exception_unwind\<close> with the error code 1;
  with an empty exception stack \<open>raise_exception\<close> returns.
\<close>

definition exc_try :: "int \<Rightarrow> 's conf \<Rightarrow> 's conf" where
  "exc_try errcode c =
     (if errcode = 0 then c
      else case frames c of
             [] \<Rightarrow> c
           | f # fs \<Rightarrow> c\<lparr>code := [], frames := f\<lparr>phase := Unwinding errcode False\<rparr> # fs\<rparr>)"

definition raise_exception :: "'s conf \<Rightarrow> 's conf" where
  "raise_exception c = (if frames c \<noteq> [] then exc_try 1 c else c)"

text \<open>The end of the body: the catchers are dropped and the frame is unwound without an error.\<close>

definition exc_exit_try :: "'s conf \<Rightarrow> 's conf" where
  "exc_exit_try c =
     (case frames c of
        [] \<Rightarrow> c
      | f # fs \<Rightarrow> c\<lparr>frames := f\<lparr>catchers := [], phase := Unwinding 0 False\<rparr> # fs\<rparr>)"

text \<open>
  The next thing that \<open>exception_unwind\<close> does with the top frame: the next catcher, then the next
  finalizer, each taken off its list before it runs; then the frame is popped, and an error that no
  catcher captured is raised again.
\<close>

definition exception_unwind :: "int \<Rightarrow> bool \<Rightarrow> 's stack_frame \<Rightarrow> 's stack_frame list \<Rightarrow> 's conf \<Rightarrow> 's conf" where
  "exception_unwind errcode captured f fs c =
     (case catchers f of
        (n, h) # cs \<Rightarrow>
          c\<lparr>code := h, cur_e := errcode, executed_on := add_mset n (executed_on c),
            frames := f\<lparr>catchers := cs, phase := Unwinding errcode True\<rparr> # fs\<rparr>
      | [] \<Rightarrow>
          (case finalizers f of
             (n, h) # hs \<Rightarrow>
               c\<lparr>code := h, cur_e := errcode, executed := add_mset n (executed c),
                 frames := f\<lparr>finalizers := hs\<rparr> # fs\<rparr>
           | [] \<Rightarrow>
               (let c1 = c\<lparr>code := after f, cur_e := after_e f, frames := fs\<rparr>
                in if errcode \<noteq> 0 \<and> \<not> captured then raise_exception c1 else c1)))"

section \<open>Running a program\<close>

text \<open>One step; \<open>None\<close> at the end of the program.\<close>

definition step :: "'s conf \<Rightarrow> 's conf result option" where
  "step c =
     (case code c of
        [] \<Rightarrow>
          (case frames c of
             [] \<Rightarrow> None
           | f # fs \<Rightarrow>
               (case phase f of
                  Body \<Rightarrow> Some (Inr (exc_exit_try c))
                | Unwinding errcode captured \<Rightarrow> Some (Inr (exception_unwind errcode captured f fs c))))
      | st # rest \<Rightarrow>
          (let c1 = c\<lparr>code := rest\<rparr>
           in case st of
                Do act \<Rightarrow>
                  (case act (cur_e c) (prog_state c) of
                     None \<Rightarrow> Some (Inl AssertFail)
                   | Some s \<Rightarrow> Some (Inr (c1\<lparr>prog_state := s\<rparr>)))
              | CONTEXT p \<Rightarrow> Some (if p (frames c \<noteq> []) then Inr c1 else Inl AssertFail)
              | RAISE \<Rightarrow> Some (Inr (raise_exception c1))
              | TRY body \<Rightarrow> Some (Inr (TRY_WITH body rest c1))
              | ON_ERROR n h \<Rightarrow> Some (add_catcher n h c1)
              | FINALLY n h \<Rightarrow> Some (add_finalizer n h c1)))"

text \<open>The amount of code that is left, which every step lowers.\<close>

fun weight :: "'s stmt \<Rightarrow> nat" where
  "weight (Do act) = 1"
| "weight (CONTEXT p) = 1"
| "weight RAISE = 1"
| "weight (TRY b) = 4 + sum_list (map weight b)"
| "weight (ON_ERROR n h) = 2 + sum_list (map weight h)"
| "weight (FINALLY n h) = 2 + sum_list (map weight h)"

definition weights :: "'s stmt list \<Rightarrow> nat" where
  "weights b = sum_list (map weight b)"

definition phase_weight :: "phase \<Rightarrow> nat" where
  "phase_weight p = (case p of Body \<Rightarrow> 2 | Unwinding e b \<Rightarrow> 1)"

definition frame_weight :: "'s stack_frame \<Rightarrow> nat" where
  "frame_weight f = sum_list (map (\<lambda>h. 1 + weights (snd h)) (catchers f)) +
     sum_list (map (\<lambda>h. 1 + weights (snd h)) (finalizers f)) + phase_weight (phase f) + weights (after f)"

definition conf_weight :: "'s conf \<Rightarrow> nat" where
  "conf_weight c = weights (code c) + sum_list (map frame_weight (frames c))"

lemma weights_simps [simp]: "weights [] = 0" "weights (st # b) = weight st + weights b"
  by (simp_all add: weights_def)

lemma weight_TRY [simp]: "weight (TRY b) = 4 + weights b" "weight (ON_ERROR n h) = 2 + weights h"
  "weight (FINALLY n h) = 2 + weights h"
  by (simp_all add: weights_def)

declare weight.simps(4-6) [simp del]

lemma raise_weight: "conf_weight (raise_exception c) \<le> conf_weight c"
  by (cases "frames c")
    (auto simp: raise_exception_def exc_try_def conf_weight_def frame_weight_def phase_weight_def split: phase.splits)

lemma unwind_weight:
  assumes "code c = []" and "frames c = f # fs" and "phase f = Unwinding e b"
  shows "conf_weight (exception_unwind e b f fs c) < conf_weight c"
proof (cases "catchers f")
  case (Cons h cs)
  then show ?thesis using assms
    by (cases h) (simp add: exception_unwind_def conf_weight_def frame_weight_def phase_weight_def)
next
  case Nil
  show ?thesis
  proof (cases "finalizers f")
    case (Cons h hs)
    then show ?thesis using assms Nil
      by (cases h) (simp add: exception_unwind_def conf_weight_def frame_weight_def phase_weight_def)
  next
    case Nil': Nil
    let ?c = "c\<lparr>code := after f, cur_e := after_e f, frames := fs\<rparr>"
    have "conf_weight ?c < conf_weight c" using assms by (simp add: conf_weight_def frame_weight_def phase_weight_def)
    then show ?thesis using raise_weight [of ?c] Nil Nil' by (simp add: exception_unwind_def Let_def)
  qed
qed

lemma step_weight: "step c = Some (Inr c') \<Longrightarrow> conf_weight c' < conf_weight c"
proof (cases "code c")
  case Nil
  assume "step c = Some (Inr c')"
  with Nil show ?thesis
    by (cases "frames c") (auto simp: step_def unwind_weight split: phase.splits,
        auto simp: exc_exit_try_def conf_weight_def frame_weight_def phase_weight_def)
next
  case (Cons st rest)
  assume s: "step c = Some (Inr c')"
  note d = step_def Let_def TRY_WITH_def exc_push_frame_def add_catcher_def add_finalizer_def conf_weight_def frame_weight_def
    phase_weight_def
  show ?thesis
  proof (cases st)
    case RAISE
    then have "conf_weight (c\<lparr>code := rest\<rparr>) < conf_weight c" using Cons by (simp add: conf_weight_def)
    then show ?thesis using s Cons RAISE raise_weight [of "c\<lparr>code := rest\<rparr>"] by (auto simp: step_def Let_def)
  qed (use s Cons in \<open>cases "frames c"; auto simp: d split: option.splits if_splits phase.splits\<close>)+
qed

text \<open>The run of a program: the final configuration, or the fault that ends it.\<close>

function run :: "'s conf \<Rightarrow> 's conf result" where
  "run c = (case step c of None \<Rightarrow> Inr c | Some (Inl e) \<Rightarrow> Inl e | Some (Inr c') \<Rightarrow> run c')"
  by auto
termination by (relation "measure conf_weight") (auto intro: step_weight)

declare run.simps [simp del]

text \<open>A program started with no exception stack of its own.\<close>

definition start :: "'s stmt list \<Rightarrow> 's \<Rightarrow> 's conf" where
  "start b s = \<lparr>code = b, cur_e = 0, frames = [], prog_state = s, registered = {#}, registered_on = {#},
     executed = {#}, executed_on = {#}\<rparr>"

end
