(* ===== verification/Exceptions_Props.thy ===== *)
theory Exceptions_Props
  imports Exceptions
begin

text \<open>
  Properties of the exception library: every program ends with an empty exception stack, no
  finalizer is lost or runs twice, even when handlers raise, and a raise runs the handlers of the
  block in the reverse of their order and goes on at the right place.
\<close>

section \<open>Every handler at most once\<close>

definition pending :: "('s stack_frame \<Rightarrow> 's handler_frame list) \<Rightarrow> 's conf \<Rightarrow> nat multiset" where
  "pending sel c = sum_list (map (\<lambda>f. mset (map fst (sel f))) (frames c))"

lemma pending_simps [simp]:
  "frames c = [] \<Longrightarrow> pending sel c = {#}"
  "frames c = f # fs \<Longrightarrow> pending sel c = mset (map fst (sel f)) + sum_list (map (\<lambda>f. mset (map fst (sel f))) fs)"
  by (simp_all add: pending_def)

definition once :: "'s conf \<Rightarrow> bool" where
  "once c \<longleftrightarrow> registered c = executed c + pending finalizers c \<and>
     executed_on c + pending catchers c \<subseteq># registered_on c"

lemma once_cong:
  assumes "once c" and "registered c' = registered c" and "executed c' = executed c"
    and "registered_on c' = registered_on c" and "executed_on c' = executed_on c"
    and "pending finalizers c' = pending finalizers c" and "pending catchers c' = pending catchers c"
  shows "once c'"
  using assms by (simp add: once_def)

lemma once_raise: "once c \<Longrightarrow> once (raise_exception c)"
  by (rule once_cong [of c]) (auto simp: raise_exception_def exc_try_def pending_def split: list.splits)

lemma once_unwind:
  assumes "once c" and "frames c = f # fs"
  shows "once (exception_unwind e b f fs c)"
proof (cases "catchers f")
  case (Cons h cs)
  then show ?thesis using assms by (cases h) (simp add: exception_unwind_def once_def ac_simps)
next
  case Nil
  show ?thesis
  proof (cases "finalizers f")
    case (Cons h hs)
    then show ?thesis using assms Nil by (cases h) (simp add: exception_unwind_def once_def ac_simps)
  next
    case Nil': Nil
    have o: "once (c\<lparr>code := after f, cur_e := after_e f, frames := fs\<rparr>)"
      by (rule once_cong [OF assms(1)]) (simp_all add: assms(2) Nil Nil' pending_def)
    show ?thesis using o Nil Nil' once_raise [OF o] by (simp add: exception_unwind_def Let_def)
  qed
qed

lemma once_step:
  assumes "once c" and "step c = Some (Inr c')"
  shows "once c'"
proof (cases "code c")
  case Nil
  show ?thesis
  proof (cases "frames c")
    case Nil': Nil
    then show ?thesis using Nil assms(2) by (simp add: step_def)
  next
    case (Cons f fs)
    show ?thesis
    proof (cases "phase f")
      case Body
      then have "c' = exc_exit_try c" using assms(2) Nil Cons by (simp add: step_def)
      moreover have "executed_on c \<subseteq># executed_on c + pending catchers c" by simp
      ultimately show ?thesis using assms(1) Cons
        by (auto simp: exc_exit_try_def once_def subset_mset.le_iff_add ac_simps)
    next
      case (Unwinding e b)
      then show ?thesis using assms Nil Cons once_unwind by (auto simp: step_def)
    qed
  qed
next
  case (Cons st rest)
  have r: "once (c\<lparr>code := rest\<rparr>)" by (rule once_cong [OF assms(1)]) (simp_all add: pending_def)
  show ?thesis
  proof (cases st)
    case RAISE
    then show ?thesis using assms(2) Cons once_raise [OF r] by (auto simp: step_def Let_def)
  next
    case (Do a)
    then obtain s where "c' = c\<lparr>code := rest, prog_state := s\<rparr>" using assms(2) Cons by (auto simp: step_def Let_def split: option.splits)
    then show ?thesis using assms(1) by (auto intro: once_cong simp: pending_def)
  next
    case (CONTEXT p)
    then have "c' = c\<lparr>code := rest\<rparr>" using assms(2) Cons by (simp add: step_def Let_def split: if_splits)
    then show ?thesis using r by simp
  next
    case (TRY b)
    then have "c' = TRY_WITH b rest (c\<lparr>code := rest\<rparr>)" using assms(2) Cons by (simp add: step_def Let_def)
    then show ?thesis using assms(1) by (auto intro: once_cong simp: pending_def TRY_WITH_def exc_push_frame_def)
  next
    case (ON_ERROR n h)
    then show ?thesis using assms Cons
      by (auto simp: step_def Let_def add_catcher_def once_def split: list.splits if_splits)
  next
    case (FINALLY n h)
    then show ?thesis using assms Cons
      by (auto simp: step_def Let_def add_finalizer_def once_def split: list.splits if_splits)
  qed
qed

lemma step_end: "step c = None \<longleftrightarrow> code c = [] \<and> frames c = []"
  by (auto simp: step_def Let_def split: list.splits phase.splits stmt.splits option.splits)

lemma run_once: "run c = Inr c' \<Longrightarrow> once c \<Longrightarrow> once c' \<and> code c' = [] \<and> frames c' = []"
proof (induction c rule: run.induct)
  case (1 c)
  show ?case
  proof (cases "step c")
    case None
    then show ?thesis using 1 step_end [of c] by (simp add: run.simps [of c])
  next
    case (Some r)
    then show ?thesis using 1 once_step [of c]
      by (cases r) (simp_all add: run.simps [of c])
  qed
qed

text \<open>
  C25: A program that uses the library, fails no assertion and registers its handlers in the bodies
  of blocks (not in handlers, which would die with the handler's frame) ends with the exception stack empty,
  whatever is raised, in blocks or in their handlers; each finalizer that was registered has run
  exactly once, and no catcher has run more often than it was registered.
\<close>

theorem every_finalizer_runs_once:
  assumes "run (start b s) = Inr c"
  shows "frames c = [] \<and> code c = [] \<and> executed c = registered c \<and> executed_on c \<subseteq># registered_on c"
proof -
  have "once (start b s)" by (simp add: once_def start_def)
  from run_once [OF assms this] show ?thesis by (auto simp: once_def)
qed

lemmas exc_eval = run.simps start_def step_def TRY_WITH_def exc_push_frame_def add_finalizer_def add_catcher_def exc_try_def
  raise_exception_def exc_exit_try_def exception_unwind_def Let_def

theorem every_finalizer_runs_once_witness:
  "\<exists>c. run (start [TRY [FINALLY 7 [RAISE], TRY [FINALLY 8 [Do (\<lambda>e s. Some (s + e))], RAISE]]] (5::int)) = Inr c \<and>
     executed c = {#7, 8#} \<and> prog_state c = 6"
proof -
  let ?b = "[TRY [FINALLY 7 [RAISE], TRY [FINALLY 8 [Do (\<lambda>e s. Some (s + e))], RAISE]]] :: int stmt list"
  obtain c where c: "run (start ?b 5) = Inr c" "registered c = {#7, 8#}" "prog_state c = 6" by (simp add: exc_eval)
  from every_finalizer_runs_once [OF c(1)] c show ?thesis by auto
qed

section \<open>Running one block\<close>

lemma run_step: "step c = Some (Inr c') \<Longrightarrow> run c = run c'"
  by (simp add: run.simps [of c])

text \<open>A handler that is one action, and the effect of a list of them.\<close>

definition handlers :: "(nat \<times> (int \<Rightarrow> 's \<Rightarrow> 's)) list \<Rightarrow> 's handler_frame list" where
  "handlers hs = map (\<lambda>(n, a). (n, [Do (\<lambda>e s. Some (a e s))])) hs"

definition run_handlers :: "int \<Rightarrow> (nat \<times> (int \<Rightarrow> 's \<Rightarrow> 's)) list \<Rightarrow> 's \<Rightarrow> 's" where
  "run_handlers e hs s = fold (\<lambda>(n, a). a e) hs s"

definition ids :: "(nat \<times> (int \<Rightarrow> 's \<Rightarrow> 's)) list \<Rightarrow> nat multiset" where
  "ids hs = mset (map fst hs)"

lemma unwind_finalizers:
  assumes "code c = []" and "frames c = f # fs" and "phase f = Unwinding e b" and "catchers f = []"
    and "finalizers f = handlers hs" and "hs = [] \<Longrightarrow> True"
  shows "run c = run (exception_unwind e b (f\<lparr>finalizers := []\<rparr>) fs
    (c\<lparr>frames := f\<lparr>finalizers := []\<rparr> # fs, prog_state := run_handlers e hs (prog_state c),
       cur_e := (if hs = [] then cur_e c else e), executed := executed c + ids hs\<rparr>))"
  using assms
proof (induction hs arbitrary: c f)
  case Nil
  have f: "f\<lparr>finalizers := []\<rparr> = f" using Nil.prems(5) by (simp add: handlers_def)
  have "step c = Some (Inr (exception_unwind e b f fs c))" using Nil.prems by (simp add: step_def)
  moreover have "c\<lparr>frames := f # fs\<rparr> = c" using Nil.prems(2) by (cases c) simp
  ultimately show ?case using run_step by (simp add: f run_handlers_def ids_def)
next
  case (Cons h hs)
  obtain n a where h: "h = (n, a)" by (cases h)
  let ?f = "f\<lparr>finalizers := handlers hs\<rparr>"
  let ?c1 = "c\<lparr>code := [Do (\<lambda>e s. Some (a e s))], cur_e := e, executed := add_mset n (executed c), frames := ?f # fs\<rparr>"
  let ?c2 = "?c1\<lparr>code := [], prog_state := a e (prog_state c)\<rparr>"
  have "step c = Some (Inr ?c1)" using Cons.prems h by (simp add: step_def exception_unwind_def handlers_def)
  moreover have "step ?c1 = Some (Inr ?c2)" by (simp add: step_def Let_def)
  ultimately have "run c = run ?c2" by (metis run_step)
  also have "\<dots> = run (exception_unwind e b (?f\<lparr>finalizers := []\<rparr>) fs
    (?c2\<lparr>frames := ?f\<lparr>finalizers := []\<rparr> # fs, prog_state := run_handlers e hs (prog_state ?c2),
       cur_e := (if hs = [] then cur_e ?c2 else e), executed := executed ?c2 + ids hs\<rparr>))"
    by (rule Cons.IH) (use Cons.prems in simp_all)
  finally show ?case using Cons.prems(1) h by (cases c) (simp add: run_handlers_def ids_def)
qed

lemma unwind_catchers:
  assumes "code c = []" and "frames c = f # fs" and "phase f = Unwinding e b" and "catchers f = handlers cs"
  shows "run c = run (c\<lparr>frames := f\<lparr>catchers := [], phase := Unwinding e (b \<or> cs \<noteq> [])\<rparr> # fs,
       prog_state := run_handlers e cs (prog_state c),
       cur_e := (if cs = [] then cur_e c else e), executed_on := executed_on c + ids cs\<rparr>)"
  using assms
proof (induction cs arbitrary: c f b)
  case Nil
  have "f\<lparr>catchers := [], phase := Unwinding e b\<rparr> = f" using Nil.prems by (simp add: handlers_def)
  moreover have "c\<lparr>frames := f # fs\<rparr> = c" using Nil.prems(2) by (cases c) simp
  ultimately show ?case by (simp add: run_handlers_def ids_def)
next
  case (Cons h cs)
  obtain n a where h: "h = (n, a)" by (cases h)
  let ?f = "f\<lparr>catchers := handlers cs, phase := Unwinding e True\<rparr>"
  let ?c1 = "c\<lparr>code := [Do (\<lambda>e s. Some (a e s))], cur_e := e, executed_on := add_mset n (executed_on c), frames := ?f # fs\<rparr>"
  let ?c2 = "?c1\<lparr>code := [], prog_state := a e (prog_state c)\<rparr>"
  have "step c = Some (Inr ?c1)" using Cons.prems h by (simp add: step_def exception_unwind_def handlers_def)
  moreover have "step ?c1 = Some (Inr ?c2)" by (simp add: step_def Let_def)
  ultimately have "run c = run ?c2" by (metis run_step)
  also have "\<dots> = run (?c2\<lparr>frames := ?f\<lparr>catchers := [], phase := Unwinding e (True \<or> cs \<noteq> [])\<rparr> # fs,
       prog_state := run_handlers e cs (prog_state ?c2),
       cur_e := (if cs = [] then cur_e ?c2 else e), executed_on := executed_on ?c2 + ids cs\<rparr>)"
    by (rule Cons.IH) simp_all
  finally show ?case using Cons.prems(1) h by (cases c) (simp add: run_handlers_def ids_def)
qed

text \<open>
  Raising in the body of a block whose handlers are plain actions executes its catchers and
  then its finalizers, the last registered first, with the error code 1, and pops the frame;
  if there was a catcher the program goes on after the block, and otherwise the exception is
  raised again in the enclosing block, or, outside of all blocks, the program goes on after the
  block all the same.  A body that ends drops its catchers and executes the finalizers with
  the error code 0.
\<close>

theorem block_outcome:
  assumes "frames c = \<lparr>catchers = handlers cs, finalizers = handlers hs, phase = Body, after = k, after_e = e\<rparr> # fs"
  shows "run (c\<lparr>code := RAISE # rest\<rparr>) =
      run ((if cs = [] then raise_exception else id)
        (c\<lparr>code := k, cur_e := e, frames := fs, prog_state := run_handlers 1 hs (run_handlers 1 cs (prog_state c)),
           executed := executed c + ids hs, executed_on := executed_on c + ids cs\<rparr>)) \<and>
    run (c\<lparr>code := []\<rparr>) =
      run (c\<lparr>code := k, cur_e := e, frames := fs, prog_state := run_handlers 0 hs (prog_state c),
           executed := executed c + ids hs\<rparr>)"
proof
  let ?f = "\<lparr>catchers = handlers cs, finalizers = handlers hs, phase = Unwinding 1 False, after = k, after_e = e\<rparr>"
  let ?c1 = "c\<lparr>code := [], frames := ?f # fs\<rparr>"
  have "step (c\<lparr>code := RAISE # rest\<rparr>) = Some (Inr ?c1)"
    using assms by (simp add: step_def raise_exception_def exc_try_def Let_def)
  from run_step [OF this] have "run (c\<lparr>code := RAISE # rest\<rparr>) = run ?c1" .
  also have "\<dots> = run (?c1\<lparr>frames := ?f\<lparr>catchers := [], phase := Unwinding 1 (cs \<noteq> [])\<rparr> # fs,
       prog_state := run_handlers 1 cs (prog_state c),
       cur_e := (if cs = [] then cur_e c else 1), executed_on := executed_on c + ids cs\<rparr>)"
    by (subst unwind_catchers [where f = ?f and fs = fs and e = 1 and b = False and cs = cs]) simp_all
  also have "\<dots> = run ((if cs = [] then raise_exception else id)
        (c\<lparr>code := k, cur_e := e, frames := fs, prog_state := run_handlers 1 hs (run_handlers 1 cs (prog_state c)),
           executed := executed c + ids hs, executed_on := executed_on c + ids cs\<rparr>))"
    by (subst unwind_finalizers [where f = "?f\<lparr>catchers := [], phase := Unwinding 1 (cs \<noteq> [])\<rparr>" and fs = fs and e = 1
        and b = "cs \<noteq> []" and hs = hs]) (auto simp: exception_unwind_def Let_def intro!: arg_cong [where f = run] arg_cong [where f = raise_exception])
  finally show "run (c\<lparr>code := RAISE # rest\<rparr>) = \<dots>" .
next
  let ?f = "\<lparr>catchers = [], finalizers = handlers hs, phase = Unwinding 0 False, after = k, after_e = e\<rparr>"
  let ?c1 = "c\<lparr>code := [], frames := ?f # fs\<rparr>"
  have "step (c\<lparr>code := []\<rparr>) = Some (Inr ?c1)" using assms by (simp add: step_def exc_exit_try_def)
  from run_step [OF this] have "run (c\<lparr>code := []\<rparr>) = run ?c1" .
  also have "\<dots> = run (c\<lparr>code := k, cur_e := e, frames := fs, prog_state := run_handlers 0 hs (prog_state c),
           executed := executed c + ids hs\<rparr>)"
    by (subst unwind_finalizers [where f = ?f and fs = fs and e = 0 and b = False and hs = hs])
      (auto simp: exception_unwind_def Let_def intro!: arg_cong [where f = run] arg_cong [where f = raise_exception])
  finally show "run (c\<lparr>code := []\<rparr>) = \<dots>" .
qed

theorem block_outcome_witness:
  "\<exists>c. run (start [TRY [ON_ERROR 0 [Do (\<lambda>e s. Some (s * 2))], FINALLY 1 [Do (\<lambda>e s. Some (s + e))], RAISE]] (5::int)) = Inr c \<and>
     prog_state c = 11"
proof -
  let ?b = "[TRY [ON_ERROR 0 [Do (\<lambda>e s. Some (s * 2))], FINALLY 1 [Do (\<lambda>e s. Some (s + e))], RAISE]] :: int stmt list"
  let ?c = "(start ?b 5)\<lparr>frames := [\<lparr>catchers = handlers [(0, \<lambda>e s. s * 2)], finalizers = handlers [(1, \<lambda>e s. s + e)],
    phase = Body, after = [], after_e = 0\<rparr>], registered := {#1#}, registered_on := {#0#}\<rparr>"
  have s: "run (start ?b 5) = run (?c\<lparr>code := [RAISE]\<rparr>)"
    by (simp add: run.simps [of "start ?b 5"] run.simps [of "_\<lparr>code := [ON_ERROR _ _, FINALLY _ _, RAISE]\<rparr>"] exc_eval handlers_def)
  have "frames ?c = \<lparr>catchers = handlers [(0, \<lambda>e s. s * 2)], finalizers = handlers [(1, \<lambda>e s. s + e)],
    phase = Body, after = [], after_e = 0\<rparr> # []" by simp
  from conjunct1 [OF block_outcome [OF this, of "[]"]] s show ?thesis
    by (simp add: run_handlers_def run.simps step_def start_def)
qed

end
