(* ===== verification/Args.thy ===== *)
theory Args
  imports Prelude
begin

text \<open>
  Packing a vector of strings into an argument buffer and unpacking it (src/util.h).  A string is
  the list of its bytes without the final zero; the buffer is a list of bytes, and an access
  beyond its end is a fault.  \<open>size_t\<close> has 64 bits and the counters of type \<open>int\<close> have 32.
\<close>

type_synonym cstr = "8 word list"

section \<open>The operations\<close>

definition argvlen :: "cstr list \<Rightarrow> 64 word" where
  "argvlen argv = fold (\<lambda>a l. l + (of_nat (length a) + 1)) argv 0"

text \<open>The inner loop of \<open>argvpack\<close> copies a string with its final zero, which \<open>argl\<close> does not count.\<close>

fun pack_string :: "8 word list \<Rightarrow> nat \<Rightarrow> cint \<Rightarrow> cstr \<Rightarrow> (8 word list \<times> nat \<times> cint) result" where
  "pack_string buf pos argl [] = (if pos < length buf then Inr (buf[pos := 0], pos + 1, argl) else Inl BadIndex)"
| "pack_string buf pos argl (b # s) =
     (if pos < length buf then pack_string (buf[pos := b]) (pos + 1) (argl + 1) s else Inl BadIndex)"

fun pack_strings :: "8 word list \<Rightarrow> nat \<Rightarrow> cint \<Rightarrow> cstr list \<Rightarrow> (8 word list \<times> nat \<times> cint) result" where
  "pack_strings buf pos argl [] = Inr (buf, pos, argl)"
| "pack_strings buf pos argl (a # argv) =
     rbind (pack_string buf pos argl a) (\<lambda>(buf1, pos1, argl1). pack_strings buf1 pos1 argl1 argv)"

text \<open>The result is \<open>argl + argc\<close>, with \<open>argl\<close> widened to \<open>size_t\<close>.\<close>

definition argvpack :: "8 word list \<Rightarrow> nat \<Rightarrow> cstr list \<Rightarrow> (64 word \<times> 8 word list) result" where
  "argvpack buf ofs argv = rbind (pack_strings buf ofs 0 argv) (\<lambda>(buf1, pos, argl).
     Inr (scast argl + of_nat (length argv), buf1))"

definition argscount :: "int \<Rightarrow> 8 word list \<Rightarrow> 64 word result" where
  "argscount argl a =
     (if argl \<le> int (length a)
      then Inr (scast (fold (\<lambda>i n. if a ! i = 0 then n + 1 else n) [0..<nat argl] (0 :: cint)))
      else Inl BadIndex)"

text \<open>The location after the next zero.\<close>

function skip_string :: "8 word list \<Rightarrow> nat \<Rightarrow> nat result" where
  "skip_string a pos =
     (if pos < length a then if a ! pos \<noteq> 0 then skip_string a (pos + 1) else Inr (pos + 1) else Inl BadIndex)"
  by auto
termination by (relation "measure (\<lambda>(a, pos). length a - pos)") auto

declare skip_string.simps [simp del]

text \<open>The pointers are offsets into the buffer; the last component is the value returned.\<close>

fun argvunpack :: "nat \<Rightarrow> 8 word list \<Rightarrow> nat \<Rightarrow> (nat list \<times> nat) result" where
  "argvunpack 0 a pos = Inr ([], pos)"
| "argvunpack (Suc argc) a pos =
     rbind (skip_string a pos) (\<lambda>pos1.
     rbind (argvunpack argc a pos1) (\<lambda>(argv, last). Inr (pos # argv, last)))"

text \<open>The string that a pointer into the buffer points to.\<close>

definition c_string :: "8 word list \<Rightarrow> nat \<Rightarrow> cstr" where
  "c_string a pos = takeWhile (\<lambda>b. b \<noteq> 0) (drop pos a)"

section \<open>Words as bytes\<close>

text \<open>The bytes of a word, the lowest first, put together again are the word.\<close>

lemma bit_fold_or:
  "bit (fold (\<lambda>i w. or w (f i)) is (v :: 'a :: len word)) n \<longleftrightarrow> bit v n \<or> (\<exists>i \<in> set is. bit (f i) n)"
  by (induction "is" arbitrary: v) (auto simp: bit_or_iff)

lemma word_of_its_bytes:
  fixes w :: "'a :: len word" and k :: nat
  assumes "LENGTH('a) = 8 * k"
  defines "bs \<equiv> map (\<lambda>i. ucast (drop_bit (8 * i) w) :: 8 word) [0..<k]"
  shows "fold (\<lambda>i v. or v (push_bit (8 * i) (ucast (bs ! i)))) [0..<k] 0 = w" (is "?l = w")
proof -
  have p: "bit (push_bit (8 * i) (ucast (bs ! i)) :: 'a word) n \<longleftrightarrow> 8 * i \<le> n \<and> n - 8 * i < 8 \<and> bit w n"
    if "i < k" "n < LENGTH('a)" for i n
    using that by (auto simp: bs_def bit_push_bit_iff bit_ucast_iff bit_drop_bit_eq)
  have "bit ?l n = bit w n" if n: "n < LENGTH('a)" for n
  proof -
    have "bit ?l n \<longleftrightarrow> (\<exists>i \<in> set [0..<k]. bit (push_bit (8 * i) (ucast (bs ! i)) :: 'a word) n)"
      by (simp add: bit_fold_or)
    also have "\<dots> \<longleftrightarrow> (\<exists>i \<in> {..<k}. 8 * i \<le> n \<and> n - 8 * i < 8 \<and> bit w n)"
      by (intro bex_cong) (use p n in auto)
    also have "\<dots> \<longleftrightarrow> bit w n"
    proof
      assume "bit w n"
      then show "\<exists>i \<in> {..<k}. 8 * i \<le> n \<and> n - 8 * i < 8 \<and> bit w n"
        using n assms(1) by (intro bexI [of _ "n div 8"]) (simp_all add: less_mult_imp_div_less minus_mult_div_eq_mod)
    qed auto
    finally show ?thesis .
  qed
  then show ?thesis by (intro bit_word_eqI) simp
qed

section \<open>What packing stores\<close>

definition packed :: "cstr list \<Rightarrow> 8 word list" where
  "packed argv = concat (map (\<lambda>a. a @ [0]) argv)"

lemma packed_simps [simp]: "packed [] = []" "packed (a # argv) = a @ 0 # packed argv"
  by (simp_all add: packed_def)

lemma fold_argvlen: "fold (\<lambda>a l. l + (of_nat (length a) + 1)) argv n = n + (of_nat (length (packed argv)) :: 64 word)"
  by (induction argv arbitrary: n) (simp_all add: algebra_simps)

lemma argvlen_packed: "argvlen argv = of_nat (length (packed argv))"
  by (simp add: argvlen_def fold_argvlen)

lemma pack_string_eq:
  "pos + length a < length buf \<Longrightarrow>
   pack_string buf pos n a = Inr (take pos buf @ a @ 0 # drop (pos + length a + 1) buf, pos + length a + 1, n + of_nat (length a))"
proof (induction a arbitrary: buf pos n)
  case Nil
  then show ?case by (simp add: upd_conv_take_nth_drop)
next
  case (Cons b a)
  then have "take (Suc pos) (buf[pos := b]) = take pos buf @ [b]" by (simp add: take_Suc_conv_app_nth)
  then show ?case using Cons.prems by (simp add: Cons.IH algebra_simps)
qed

lemma pack_strings_eq:
  "pos + length (packed argv) \<le> length buf \<Longrightarrow>
   pack_strings buf pos n argv = Inr (take pos buf @ packed argv @ drop (pos + length (packed argv)) buf,
     pos + length (packed argv), n + of_nat (sum_list (map length argv)))"
proof (induction argv arbitrary: buf pos n)
  case Nil
  then show ?case by simp
next
  case (Cons a argv)
  let ?b = "take pos buf @ a @ 0 # drop (pos + length a + 1) buf"
  have l: "length ?b = length buf" using Cons.prems by simp
  have "pack_string buf pos n a = Inr (?b, pos + length a + 1, n + of_nat (length a))"
    using Cons.prems by (intro pack_string_eq) simp
  moreover have "pack_strings ?b (pos + length a + 1) (n + of_nat (length a)) argv =
    Inr (take (pos + length a + 1) ?b @ packed argv @ drop (pos + length a + 1 + length (packed argv)) ?b,
     pos + length a + 1 + length (packed argv), n + of_nat (length a) + of_nat (sum_list (map length argv)))"
    by (rule Cons.IH) (use Cons.prems l in simp)
  moreover have "take (pos + length a + 1) ?b = take pos buf @ a @ [0]" using Cons.prems by simp
  moreover have "drop (pos + length a + 1 + length (packed argv)) ?b = drop (pos + length (packed (a # argv))) buf"
    using Cons.prems by (simp add: add_ac)
  ultimately show ?case by (simp add: add_ac)
qed

lemma length_packed: "length (packed argv) = sum_list (map length argv) + length argv"
  by (induction argv) simp_all

lemma scast_small:
  assumes "n < 2 ^ 31"
  shows "(scast (of_nat n :: cint) :: 64 word) = of_nat n"
proof -
  have "signed_take_bit 31 (int n) = int n" using assms by (simp add: signed_take_bit_int_eq_self)
  then have "sint (of_nat n :: cint) = int n" by (simp add: signed_of_nat)
  then show ?thesis by (simp add: scast_eq)
qed

lemma argvpack_eq:
  assumes "ofs + length (packed argv) \<le> length buf" and "length (packed argv) < 2 ^ 31"
  shows "argvpack buf ofs argv =
    Inr (of_nat (length (packed argv)), take ofs buf @ packed argv @ drop (ofs + length (packed argv)) buf)"
proof -
  have "sum_list (map length argv) < 2 ^ 31" using assms(2) by (simp add: length_packed)
  then show ?thesis using assms(1)
    by (simp add: argvpack_def pack_strings_eq scast_small length_packed)
qed

section \<open>What unpacking finds\<close>

definition c_strings :: "cstr list \<Rightarrow> bool" where
  "c_strings argv \<longleftrightarrow> (\<forall>a \<in> set argv. 0 \<notin> set a)"

lemma skip_string_eq:
  "0 \<notin> set a \<Longrightarrow> skip_string (pre @ a @ 0 # post) (length pre) = Inr (length pre + length a + 1)"
proof (induction a arbitrary: pre)
  case Nil
  then show ?case by (simp add: skip_string.simps)
next
  case (Cons b a)
  have "skip_string (pre @ (b # a) @ 0 # post) (length pre) = skip_string ((pre @ [b]) @ a @ 0 # post) (length (pre @ [b]))"
    using Cons.prems by (subst skip_string.simps) (auto simp: nth_append)
  also have "\<dots> = Inr (length (pre @ [b]) + length a + 1)" by (rule Cons.IH) (use Cons.prems in auto)
  finally show ?case by simp
qed

lemma takeWhile_string: "0 \<notin> set a \<Longrightarrow> takeWhile (\<lambda>b. b \<noteq> 0) (a @ 0 # post) = a"
  by (induction a) auto

lemma argvunpack_eq:
  assumes "c_strings argv"
  shows "\<exists>ps. argvunpack (length argv) (pre @ packed argv @ post) (length pre) = Inr (ps, length pre + length (packed argv)) \<and>
    map (c_string (pre @ packed argv @ post)) ps = argv"
  using assms
proof (induction argv arbitrary: pre)
  case Nil
  then show ?case by simp
next
  case (Cons a argv)
  let ?b = "pre @ packed (a # argv) @ post" and ?pre = "pre @ a @ [0]"
  have a: "0 \<notin> set a" using Cons.prems by (simp add: c_strings_def)
  have b: "?b = ?pre @ packed argv @ post" by simp
  obtain ps where ps: "argvunpack (length argv) ?b (length ?pre) = Inr (ps, length ?pre + length (packed argv))"
    "map (c_string ?b) ps = argv"
    using Cons.IH [of ?pre] Cons.prems unfolding b by (auto simp: c_strings_def)
  have "skip_string ?b (length pre) = Inr (length ?pre)"
    using skip_string_eq [OF a, of pre "packed argv @ post"] by simp
  then have "argvunpack (length (a # argv)) ?b (length pre) =
      Inr (length pre # ps, length ?pre + length (packed argv))"
    using ps(1) by simp
  moreover have "c_string ?b (length pre) = a"
    using a by (simp add: c_string_def takeWhile_string)
  ultimately show ?case using ps(2) by (intro exI [of _ "length pre # ps"]) simp
qed

lemma fold_count:
  "fold (\<lambda>i n. if a ! i = 0 then n + 1 else n) [0..<k] m = (m :: cint) + of_nat (length (filter (\<lambda>i. a ! i = 0) [0..<k]))"
  by (induction k arbitrary: m) simp_all

lemma filter_nth: "length (filter (\<lambda>i. P (a ! i)) [0..<length a]) = length (filter P a)"
proof -
  have "filter P a = filter P (map ((!) a) [0..<length a])" by (simp add: map_nth)
  also have "\<dots> = map ((!) a) (filter (\<lambda>i. P (a ! i)) [0..<length a])" by (simp add: filter_map o_def)
  finally show ?thesis by simp
qed

lemma zeros_packed: "c_strings argv \<Longrightarrow> length (filter (\<lambda>b. b = 0) (packed argv)) = length argv"
  by (induction argv) (auto simp: c_strings_def filter_empty_conv)

lemma argscount_eq:
  assumes "c_strings argv" and "length (packed argv) < 2 ^ 31"
  shows "argscount (int (length (packed argv))) (packed argv) = Inr (of_nat (length argv))"
proof -
  have "length argv < 2 ^ 31" using assms(2) by (simp add: length_packed)
  then show ?thesis
    by (simp add: argscount_def fold_count filter_nth [where P = "\<lambda>b. b = 0"] zeros_packed assms(1) scast_small)
qed

text \<open>
  Packing and unpacking is a round trip: with a buffer of \<open>argvlen\<close> bytes, whatever it holds,
  \<open>argvpack\<close> fills it exactly and returns its length, \<open>argscount\<close> counts the strings in it, and
  \<open>argvunpack\<close> gives pointers to the strings that were packed, for all strings whose length in all
  fits into an \<open>int\<close>.
\<close>

theorem pack_unpack_round_trip:
  assumes "c_strings argv" and "length (packed argv) < 2 ^ 31" and "length buf = unat (argvlen argv)"
  shows "\<exists>args ps. argvpack buf 0 argv = Inr (argvlen argv, args) \<and> length args = length buf \<and>
    argscount (int (length args)) args = Inr (of_nat (length argv)) \<and>
    argvunpack (length argv) args 0 = Inr (ps, length args) \<and> map (c_string args) ps = argv"
proof -
  have l: "length buf = length (packed argv)"
    using assms(2,3) by (simp add: argvlen_packed unat_of_nat)
  from argvunpack_eq [OF assms(1), of "[]" "[]"] obtain ps where
    "argvunpack (length argv) (packed argv) 0 = Inr (ps, length (packed argv))" "map (c_string (packed argv)) ps = argv"
    by auto
  then show ?thesis using argvpack_eq [of 0 argv buf] argscount_eq [OF assms(1,2)] assms(2) l
    by (intro exI [of _ "packed argv"] exI [of _ ps]) (simp add: argvlen_packed)
qed

theorem pack_unpack_round_trip_witness:
  "\<exists>args ps. argvpack (replicate 14 9) 0 [[72, 101, 108, 108, 111], [71, 111, 111, 100, 98, 121, 101]] = Inr (14, args) \<and>
     argvunpack 2 args 0 = Inr (ps, 14) \<and>
     map (c_string args) ps = [[72, 101, 108, 108, 111], [71, 111, 111, 100, 98, 121, 101]]"
proof -
  let ?v = "[[72, 101, 108, 108, 111], [71, 111, 111, 100, 98, 121, 101]] :: cstr list"
  have h: "c_strings ?v" "length (packed ?v) < 2 ^ 31" "argvlen ?v = 14"
    by (simp_all add: c_strings_def argvlen_def)
  then have "length (replicate 14 (9 :: 8 word)) = unat (argvlen ?v)" by simp
  from pack_unpack_round_trip [OF h(1,2) this] h(3) show ?thesis by (auto simp: numeral_2_eq_2)
qed

end
