(* ===== verification/Tinyoslib.thy ===== *)
theory Tinyoslib
  imports Syscalls Args
begin

text \<open>
  The library of programs, src/tinyoslib.c: a program is started through \<open>exec_wrapper\<close> with its
  address and its vector of strings packed into the argument of the process, and a file id can be
  read and written as a C stream.
\<close>

section \<open>Pointers in the argument buffer\<close>

text \<open>\<open>memcpy\<close> of a pointer to the bytes of a buffer and back, the lowest byte first.\<close>

definition pointer_bytes :: "64 word \<Rightarrow> 8 word list" where
  "pointer_bytes w = map (\<lambda>i. ucast (drop_bit (8 * i) w)) [0..<8]"

definition bytes_pointer :: "8 word list \<Rightarrow> 64 word" where
  "bytes_pointer bs = fold (\<lambda>i w. or w (push_bit (8 * i) (ucast (bs ! i)))) [0..<8] 0"

definition sizeof_pointer :: nat where "sizeof_pointer = 8"

section \<open>Starting a program\<close>

text \<open>
  \<open>exec_wrapper\<close>: \<open>prog\<close> is what the program at an address does with its vector of strings.
\<close>

definition exec_wrapper :: "(64 word \<Rightarrow> cstr list \<Rightarrow> 'r) \<Rightarrow> int \<Rightarrow> 8 word list \<Rightarrow> 'r result" where
  "exec_wrapper prog len buf =
     (if length buf < sizeof_pointer then Inl BadIndex
      else let p = bytes_pointer (take sizeof_pointer buf);
               len1 = len - int sizeof_pointer; buf1 = drop sizeof_pointer buf
           in rbind (argscount len1 buf1) (\<lambda>argc.
              rbind (argvunpack (unat argc) buf1 0) (\<lambda>(argv, last).
              Inr (prog p (map (c_string buf1) argv)))))"

text \<open>
  The argument buffer that \<open>Execute\<close> makes on its stack, and its length; \<open>junk\<close> is what the
  array holds before.
\<close>

definition execute_args :: "64 word \<Rightarrow> cstr list \<Rightarrow> (nat \<Rightarrow> 8 word) \<Rightarrow> (64 word \<times> 8 word list) result" where
  "execute_args prog argv junk =
     (let len = argvlen argv + of_nat sizeof_pointer;
          buf = map junk [0..<unat len]
      in if length buf < sizeof_pointer then Inl BadIndex
         else let buf1 = pointer_bytes prog @ drop sizeof_pointer buf
              in rbind (argvpack buf1 sizeof_pointer argv) (\<lambda>(n, buf2). Inr (len, buf2)))"

text \<open>
  The address of \<open>exec_wrapper\<close> as a \<open>Task\<close>.  \<open>Execute\<close> passes the length as an \<open>int\<close>; the
  array is at the address \<open>b\<close> of the caller's stack.
\<close>

definition exec_wrapper_task :: nat where "exec_wrapper_task = 1"

definition Execute ::
  "nat \<Rightarrow> 64 word \<Rightarrow> cstr list \<Rightarrow> (nat \<Rightarrow> 8 word) \<Rightarrow> nat \<Rightarrow> nat \<times> ptref \<times> nat \<Rightarrow> kernel \<Rightarrow>
   (int call \<times> kernel) result" where
  "Execute c prog argv junk b adr s =
     rbind (execute_args prog argv junk) (\<lambda>(len, buf).
       Exec c (Some exec_wrapper_task) (sint (ucast len :: cint)) (Some b) adr (s\<lparr>mem := (mem s)(b \<mapsto> buf)\<rparr>))"

section \<open>Information about processes\<close>

definition PROCINFO_MAX_ARGS_SIZE :: nat where "PROCINFO_MAX_ARGS_SIZE = 128"

record procinfo =
  pi_pid :: int
  pi_ppid :: int
  pi_alive :: int
  pi_thread_count :: "64 word"
  pi_main_task :: task
  pi_argl :: int
  pi_args :: "8 word list"    \<comment> \<open>the array of \<open>PROCINFO_MAX_ARGS_SIZE\<close> bytes\<close>

text \<open>
  The number of strings, and the first \<open>argc\<close> of them if the caller gave an array \<open>argv\<close> for
  them.  The caller's program pointer is not set: the bytes are copied over the parameter itself.
\<close>

definition ParseProcInfo :: "procinfo \<Rightarrow> int option \<Rightarrow> (int \<times> cstr list) result" where
  "ParseProcInfo info argv_size =
     (if pi_main_task info \<noteq> Some exec_wrapper_task then Inr (-1, [])
      else if pi_argl info > int PROCINFO_MAX_ARGS_SIZE then Inr (-1, [])
      else let len = pi_argl info - int sizeof_pointer; buf = drop sizeof_pointer (pi_args info)
           in rbind (argscount len buf) (\<lambda>n.
              case argv_size of
                None \<Rightarrow> Inr (sint (ucast n :: cint), [])
              | Some argc \<Rightarrow>
                  let argc1 = (if (word_of_int argc :: 64 word) > n then sint (ucast n :: cint) else argc)
                  in rbind (argvunpack (nat argc1) buf 0) (\<lambda>(argv, last).
                     Inr (sint (ucast n :: cint), map (c_string buf) argv))))"

section \<open>Streams of the C library on file ids\<close>

text \<open>
  The C library's streams: each has a cookie, the address of a heap object that holds the file
  id.  \<open>saved_in\<close> and \<open>saved_out\<close> are the static variables of the library.
\<close>

record stdio =
  cookies :: "nat \<rightharpoonup> int"
  files :: "nat \<rightharpoonup> nat"        \<comment> \<open>the open streams, with their cookies\<close>
  c_stdin :: "nat option"
  c_stdout :: "nat option"
  saved_in :: "nat option"
  saved_out :: "nat option"

definition tinyos_fid_read ::
  "nat \<Rightarrow> nat \<Rightarrow> 64 word \<Rightarrow> dev_env \<Rightarrow> stdio \<Rightarrow> kernel \<Rightarrow>
   ((int \<times> byte list) call \<times> kernel) option result" where
  "tinyos_fid_read c cookie sz env io s =
     (case cookies io cookie of
        None \<Rightarrow> Inl DanglingPtr
      | Some fid \<Rightarrow> Read c fid (ucast sz) env s)"

definition tinyos_fid_write ::
  "nat \<Rightarrow> nat \<Rightarrow> byte list \<Rightarrow> 64 word \<Rightarrow> dev_env \<Rightarrow> stdio \<Rightarrow> kernel \<Rightarrow>
   ((int \<times> byte list) call \<times> kernel) option result" where
  "tinyos_fid_write c cookie buf sz env io s =
     (case cookies io cookie of
        None \<Rightarrow> Inl DanglingPtr
      | Some fid \<Rightarrow>
          rbind (Write c fid buf (ucast sz) env s) (\<lambda>r.
          Inr (case r of
                 Some (Return (ret, out), s1) \<Rightarrow> Some (Return (if ret < 0 then 0 else ret, out), s1)
               | _ \<Rightarrow> r)))"

definition tinyos_fid_close :: "nat \<Rightarrow> stdio \<Rightarrow> (int \<times> stdio) result" where
  "tinyos_fid_close cookie io =
     (if cookies io cookie = None then Inl DanglingPtr
      else Inr (0, io\<lparr>cookies := (cookies io)(cookie := None)\<rparr>))"

text \<open>\<open>fidopen\<close> gets the addresses of the new cookie and of the new stream.\<close>

definition fidopen :: "int \<Rightarrow> nat \<Rightarrow> nat \<Rightarrow> stdio \<Rightarrow> nat \<times> stdio" where
  "fidopen fid cookie f io = (f, io\<lparr>cookies := (cookies io)(cookie \<mapsto> fid), files := (files io)(f \<mapsto> cookie)\<rparr>)"

definition get_std_stream :: "int \<Rightarrow> nat \<Rightarrow> nat \<Rightarrow> stdio \<Rightarrow> nat \<times> stdio" where
  "get_std_stream fid cookie f io = fidopen fid cookie f io"

text \<open>\<open>fclose\<close> of the C library calls the close function of the stream.\<close>

definition fclose :: "nat option \<Rightarrow> stdio \<Rightarrow> stdio result" where
  "fclose stream io =
     (case stream of
        None \<Rightarrow> Inl NullDeref
      | Some f \<Rightarrow>
          (case files io f of
             None \<Rightarrow> Inl DanglingPtr
           | Some cookie \<Rightarrow>
               rbind (tinyos_fid_close cookie io) (\<lambda>(r, io1). Inr (io1\<lparr>files := (files io1)(f := None)\<rparr>))))"

definition tinyos_replace_stdio :: "nat \<times> nat \<Rightarrow> nat \<times> nat \<Rightarrow> stdio \<Rightarrow> stdio result" where
  "tinyos_replace_stdio adr_in adr_out io =
     (if saved_in io \<noteq> None then Inl AssertFail
      else if saved_out io \<noteq> None then Inl AssertFail
      else let (termin, io1) = get_std_stream 0 (fst adr_in) (snd adr_in) io;
               (termout, io2) = get_std_stream 1 (fst adr_out) (snd adr_out) io1
           in Inr (io2\<lparr>saved_in := c_stdin io2, saved_out := c_stdout io2,
                     c_stdin := Some termin, c_stdout := Some termout\<rparr>))"

definition tinyos_restore_stdio :: "stdio \<Rightarrow> stdio result" where
  "tinyos_restore_stdio io =
     (if saved_out io = None then Inr io
      else rbind (fclose (c_stdin io) io) (\<lambda>io1.
           rbind (fclose (c_stdout io1) io1) (\<lambda>io2.
           Inr (io2\<lparr>c_stdin := saved_in io2, c_stdout := saved_out io2, saved_in := None, saved_out := None\<rparr>))))"

end
