(* ===== verification/Tinyoslib_Props.thy ===== *)
theory Tinyoslib_Props
  imports Tinyoslib Proc_Props
begin

text \<open>
  Properties of the library of programs: what \<open>Execute\<close> packs, the new process unpacks.
\<close>

section \<open>Pointers as bytes\<close>

lemma length_pointer_bytes [simp]: "length (pointer_bytes w) = 8"
  by (simp add: pointer_bytes_def)

lemma bytes_pointer_bytes: "bytes_pointer (pointer_bytes w) = w"
  using word_of_its_bytes [of 8 w] by (simp add: bytes_pointer_def pointer_bytes_def)

section \<open>The arguments of a program\<close>

lemma execute_args_eq:
  assumes "length (packed argv) + 8 < 2 ^ 31"
  shows "execute_args prog argv junk = Inr (of_nat (length (packed argv) + 8), pointer_bytes prog @ packed argv)"
proof -
  have n: "unat (argvlen argv + of_nat sizeof_pointer) = length (packed argv) + 8"
  proof -
    have "argvlen argv + of_nat sizeof_pointer = of_nat (length (packed argv) + 8)"
      by (simp add: argvlen_packed sizeof_pointer_def)
    moreover have "unat (of_nat (length (packed argv) + 8) :: 64 word) = length (packed argv) + 8"
      using assms unfolding unat_of_nat by (intro mod_less) simp
    ultimately show ?thesis by simp
  qed
  let ?j = "drop 8 (map junk [0..<length (packed argv) + 8])"
  have "argvpack (pointer_bytes prog @ ?j) 8 argv =
      Inr (of_nat (length (packed argv)), pointer_bytes prog @ packed argv)"
    by (subst argvpack_eq) (use assms in simp_all)
  then show ?thesis unfolding execute_args_def Let_def n
    by (simp add: sizeof_pointer_def argvlen_packed)
qed

lemma exec_wrapper_eq:
  assumes "c_strings argv" and "length (packed argv) < 2 ^ 31"
  shows "exec_wrapper run (int (length (packed argv) + 8)) (pointer_bytes prog @ packed argv) = Inr (run prog argv)"
proof -
  have n: "length argv < 2 ^ 64" using assms(2) by (simp add: length_packed)
  obtain ps where "argvunpack (length argv) (packed argv) 0 = Inr (ps, length (packed argv))"
    "map (c_string (packed argv)) ps = argv"
    using argvunpack_eq [OF assms(1), of "[]" "[]"] by auto
  then show ?thesis using argscount_eq [OF assms] n
    by (simp add: exec_wrapper_def sizeof_pointer_def Let_def bytes_pointer_bytes unat_of_nat)
qed

lemma sint_small: "n < 2 ^ 31 \<Longrightarrow> sint (ucast (of_nat n :: 64 word) :: cint) = int n"
  by (simp add: unsigned_of_nat take_bit_nat_eq_self signed_of_nat signed_take_bit_int_eq_self ucast_eq uint_nat)

lemma kernel_ok_mem:
  assumes "kernel_ok pc W pins fs fl K X T s"
  shows "kernel_ok pc W pins fs fl K X T (s\<lparr>mem := M\<rparr>)"
proof -
  obtain R where k: "cc_ok pc W R s" "fs_inv pins s fs" "proc_inv fl K X T s"
    using assms by (auto simp: kernel_ok_def)
  have "cc_ok pc W R (s\<lparr>mem := M\<rparr>)" by (rule cc_ok_frame [OF k(1), where N = "\<lambda>_. True"]) simp_all
  moreover have "fs_inv pins (s\<lparr>mem := M\<rparr>) fs" by (rule fs_frame [OF k(2), where N = "\<lambda>_. True"]) simp_all
  moreover have "proc_inv fl K X T (s\<lparr>mem := M\<rparr>)"
    by (rule proc_inv_keeps [OF k(3)]) simp_all
  ultimately show ?thesis by (auto simp: kernel_ok_def)
qed

text \<open>
  C24: \<open>Execute\<close> passes a program its arguments: the argument that \<open>Execute\<close> makes on the caller's
  stack goes through the kernel's \<open>Exec\<close> to the new process, whose \<open>exec_wrapper\<close> then calls the
  same program with the same vector of strings, for every program address and all strings that
  take less than \<open>2 ^ 31\<close> bytes together.
\<close>

theorem Execute_passes_arguments:
  assumes "kernel_ok pc W pins fs (p # fl) K X T s" and "live s cur" and "pstate (PT s cur) = ALIVE"
    and "CURPROC c s = Inr cur" and "fresh_thread pa ta s"
    and "c_strings argv" and "length (packed argv) + 8 < 2 ^ 31"
  shows "\<exists>len buf s' bs. execute_args prog argv junk = Inr (len, buf) \<and>
    sys_Exec c (Some exec_wrapper_task) (sint (ucast len :: cint)) (Some b) (m, pa, ta) (s\<lparr>mem := (mem s)(b \<mapsto> buf)\<rparr>) =
      Inr (int p, s') \<and>
    main_task (PT s' p) = Some exec_wrapper_task \<and> args (PT s' p) = Some m \<and> mem s' m = Some bs \<and>
    exec_wrapper run (argl (PT s' p)) bs = Inr (run prog argv)"
proof -
  let ?n = "length (packed argv) + 8" and ?buf = "pointer_bytes prog @ packed argv"
  let ?s = "s\<lparr>mem := (mem s)(b \<mapsto> ?buf)\<rparr>"
  note e = execute_args_eq [OF assms(7), of prog junk]
  have l: "sint (ucast (of_nat ?n :: 64 word) :: cint) = int ?n" by (rule sint_small [OF assms(7)])
  obtain R where k: "cc_ok pc W R ?s" "fs_inv pins ?s fs" "proc_inv (p # fl) K X T ?s"
    using kernel_ok_mem [OF assms(1)] by (auto simp: kernel_ok_def)
  have "live ?s cur" "pstate (PT ?s cur) = ALIVE" "CURPROC c ?s = Inr cur" "fresh_thread pa ta ?s"
    "args_ok (Some b) (int ?n) ?s"
    using assms(2-5) by (simp_all add: live_def CURPROC_def CURTHREAD_def get_tcb_def fresh_thread_def args_ok_def)
  note t = this
  obtain s' where s': "sys_Exec c (Some exec_wrapper_task) (int ?n) (Some b) (m, pa, ta) ?s = Inr (int p, s')"
    "PT s' = (PT ?s)(p := (exec_pcb cur (Some exec_wrapper_task) (int ?n) (map_option (\<lambda>_. m) (Some b)) ?s p)\<lparr>thread_count := 1\<rparr>)"
    "mem s' = (case Some b of None \<Rightarrow> mem ?s | Some b \<Rightarrow> (mem ?s)(m \<mapsto> take (nat (int ?n)) (the (mem ?s b))))"
    by (rule sys_Exec_ok [OF k t(1-3) t(5,4), where f = exec_wrapper_task and m = m])
  have "exec_wrapper run (int ?n) ?buf = Inr (run prog argv)"
    by (rule exec_wrapper_eq) (use assms(6,7) in simp_all)
  moreover have "main_task (PT s' p) = Some exec_wrapper_task" "args (PT s' p) = Some m" "argl (PT s' p) = int ?n"
    unfolding s'(2) by (simp_all add: exec_pcb_def)
  moreover have "mem s' m = Some ?buf" unfolding s'(3) by simp
  ultimately show ?thesis using e s'(1) unfolding l [symmetric]
    by (intro exI [of _ "of_nat ?n"] exI [of _ ?buf] exI [of _ s'] conjI) (simp_all only: l)
qed

theorem Execute_passes_arguments_witness:
  "\<exists>s len buf s' bs. execute_args 4096 [[101, 99, 104, 111], [104, 105]] (\<lambda>_. 7) = Inr (len, buf) \<and>
     sys_Exec 0 (Some exec_wrapper_task) (sint (ucast len :: cint)) (Some 50) (1, 1, 1) (s\<lparr>mem := (mem s)(50 \<mapsto> buf)\<rparr>) =
       Inr (2, s') \<and> mem s' 1 = Some bs \<and>
     exec_wrapper Pair (argl (PT s' 2)) bs = Inr (4096, [[101, 99, 104, 111], [104, 105]])"
proof -
  let ?v = "[[101, 99, 104, 111], [104, 105]] :: cstr list"
  obtain s where s: "CURPROC 0 s = Inr 1"
    "kernel_ok (\<lambda>_. Running) Map.empty (\<lambda>_. 0) [0..<MAX_FILES] [2..<MAX_PROC] (\<lambda>_. []) (\<lambda>_. []) ((\<lambda>_. [])(1 := [0])) s"
    "live s 1" "pstate (PT s 1) = ALIVE" "fresh_thread 1 1 s" by (rule run_exec)
  have "2 < MAX_PROC" by (simp add: MAX_PROC_def)
  then have up: "[2..<MAX_PROC] = 2 # [3..<MAX_PROC]" using upt_conv_Cons [of 2 MAX_PROC] by (simp only: eval_nat_numeral)
  have v: "c_strings ?v" "length (packed ?v) + 8 < 2 ^ 31" by (simp_all add: c_strings_def)
  from Execute_passes_arguments [OF s(2) [unfolded up] s(3,4,1,5) v, of 4096 "\<lambda>_. 7" 50 1 Pair]
  show ?thesis by (simp only: of_nat_numeral) blast
qed

section \<open>The standard streams\<close>

text \<open>
  A program that replaces its standard streams and restores them has the same streams again, and
  the streams and cookies that were made for it are gone.
\<close>

lemma stdio_round_trip:
  assumes "saved_in io = None" and "saved_out io = None" and "c_stdout io \<noteq> None"
    and "f1 \<noteq> f2" and "k1 \<noteq> k2" and "files io f1 = None" "files io f2 = None" "cookies io k1 = None" "cookies io k2 = None"
  shows "\<exists>io1. tinyos_replace_stdio (k1, f1) (k2, f2) io = Inr io1 \<and> tinyos_restore_stdio io1 = Inr io"
  using assms
  by (cases io) (auto simp: tinyos_replace_stdio_def tinyos_restore_stdio_def get_std_stream_def fidopen_def fclose_def
      tinyos_fid_close_def fun_eq_iff)

end
