(* ===== verification/Symposium.thy ===== *)
theory Symposium
  imports Prelude
begin

text \<open>
  The dining philosophers of src/symposium.c, a monitor that the programs of the system share.
  A section between \<open>Mutex_Lock\<close> and \<open>Mutex_Unlock\<close> or \<open>Cond_Wait\<close> is one step of its
  philosopher; the mutex and the condition variables are the ones of src/kernel_cc.c, and a
  philosopher is the only one that waits on its own condition variable.
\<close>

section \<open>The monitor\<close>

datatype PHIL = NOTHERE | THINKING | HUNGRY | EATING

record symposium_t =
  N :: nat
  bites :: nat
  fmin :: int
  fmax :: int

text \<open>A condition variable with its one waiter: none, asleep, or signalled and about to return.\<close>

datatype cond = NoWaiter | Sleeper | Signalled

record SymposiumTable =
  symp :: symposium_t
  state :: "nat \<Rightarrow> PHIL"
  hungry :: "nat \<Rightarrow> cond"

definition SymposiumTable_init :: "symposium_t \<Rightarrow> SymposiumTable" where
  "SymposiumTable_init sp = \<lparr>symp = sp, state = (\<lambda>_. NOTHERE), hungry = (\<lambda>_. NoWaiter)\<rparr>"

definition LEFT :: "nat \<Rightarrow> nat \<Rightarrow> nat" where "LEFT i n = (i + 1) mod n"
definition RIGHT :: "nat \<Rightarrow> nat \<Rightarrow> nat" where "RIGHT i n = (i + n - 1) mod n"

text \<open>The recursive Fibonacci numbers of \<open>think\<close> and \<open>eat\<close>, in unsigned integers.\<close>

function fibo :: "uint \<Rightarrow> uint" where
  "fibo n = (if n < 2 then n else fibo (n - 1) + fibo (n - 2))"
  by auto
termination
proof (relation "measure unat")
  fix n :: uint
  assume "\<not> n < 2"
  then have n: "2 \<le> unat n" "2 \<le> n" "1 \<le> n" by (auto simp: word_less_nat_alt word_le_nat_alt)
  have "unat (n - 1) = unat n - 1" "unat (n - 2) = unat n - 2" by (simp_all add: unat_sub n)
  then show "(n - 1, n) \<in> measure unat" "(n - 2, n) \<in> measure unat" using n by auto
qed simp

declare fibo.simps [simp del]

text \<open>\<open>Cond_Signal\<close> and the first part of \<open>Cond_Wait\<close> on the condition variable of a philosopher.\<close>

definition cond_signal :: "nat \<Rightarrow> SymposiumTable \<Rightarrow> SymposiumTable" where
  "cond_signal i S = (if hungry S i = Sleeper then S\<lparr>hungry := (hungry S)(i := Signalled)\<rparr> else S)"

definition cond_sleep :: "nat \<Rightarrow> SymposiumTable \<Rightarrow> SymposiumTable" where
  "cond_sleep i S = S\<lparr>hungry := (hungry S)(i := Sleeper)\<rparr>"

definition set_state :: "nat \<Rightarrow> PHIL \<Rightarrow> SymposiumTable \<Rightarrow> SymposiumTable" where
  "set_state i x S = S\<lparr>state := (state S)(i := x)\<rparr>"

definition trytoeat :: "nat \<Rightarrow> SymposiumTable \<Rightarrow> SymposiumTable" where
  "trytoeat i S =
     (let n = N (symp S)
      in if state S i = HUNGRY \<and> state S (LEFT i n) \<noteq> EATING \<and> state S (RIGHT i n) \<noteq> EATING
         then cond_signal i (set_state i EATING S)
         else S)"

section \<open>A philosopher\<close>

text \<open>Where \<open>SymposiumTable_philosopher\<close> is, with the number of bites taken.\<close>

datatype place = Arriving | Thinking nat | Waiting nat | Eating nat | Leaving | Gone

text \<open>The head of the loop over the bites.\<close>

definition next_bite :: "symposium_t \<Rightarrow> nat \<Rightarrow> place" where
  "next_bite sp j = (if j < bites sp then Thinking j else Leaving)"

text \<open>
  The loop that waits while the philosopher is hungry, from its test to the next wait or to the end
  of the section.
\<close>

definition test_hungry :: "nat \<Rightarrow> nat \<Rightarrow> SymposiumTable \<Rightarrow> (place \<times> SymposiumTable) result" where
  "test_hungry i j S =
     (if state S i = HUNGRY then Inr (Waiting j, cond_sleep i S)
      else if state S i = EATING then Inr (Eating j, S)
      else Inl AssertFail)"

text \<open>The next step of philosopher \<open>i\<close>; \<open>None\<close> if it sleeps or has left.\<close>

fun philosopher_step :: "nat \<Rightarrow> place \<Rightarrow> SymposiumTable \<Rightarrow> (place \<times> SymposiumTable) result option" where
  "philosopher_step i Arriving S = Some (Inr (next_bite (symp S) 0, set_state i THINKING S))"
| "philosopher_step i (Thinking j) S = Some (test_hungry i j (trytoeat i (set_state i HUNGRY S)))"
| "philosopher_step i (Waiting j) S =
     (if hungry S i = Signalled then Some (test_hungry i j (S\<lparr>hungry := (hungry S)(i := NoWaiter)\<rparr>)) else None)"
| "philosopher_step i (Eating j) S =
     (let n = N (symp S)
      in Some (Inr (next_bite (symp S) (j + 1),
                    trytoeat (RIGHT i n) (trytoeat (LEFT i n) (set_state i THINKING S)))))"
| "philosopher_step i Leaving S = Some (Inr (Gone, set_state i NOTHERE S))"
| "philosopher_step i Gone S = None"

text \<open>The table with all its philosophers, each a process or a thread.\<close>

type_synonym symposium = "(nat \<Rightarrow> place) \<times> SymposiumTable"

definition symposium_start :: "symposium_t \<Rightarrow> symposium" where
  "symposium_start sp = ((\<lambda>_. Arriving), SymposiumTable_init sp)"

inductive symp_step :: "symposium \<Rightarrow> symposium \<Rightarrow> bool" where
  "i < N (symp S) \<Longrightarrow> philosopher_step i (at i) S = Some (Inr (p, S')) \<Longrightarrow> symp_step (at, S) (at(i := p), S')"

inductive_cases symp_stepE: "symp_step (at, S) y"

inductive symp_reach :: "symposium_t \<Rightarrow> nat \<Rightarrow> symposium \<Rightarrow> bool" for sp where
  start: "symp_reach sp 0 (symposium_start sp)"
| more: "symp_reach sp k x \<Longrightarrow> symp_step x y \<Longrightarrow> symp_reach sp (Suc k) y"

section \<open>Neighbours\<close>

lemma LEFT_less: "0 < n \<Longrightarrow> LEFT i n < n" and RIGHT_less: "0 < n \<Longrightarrow> RIGHT i n < n"
  by (simp_all add: LEFT_def RIGHT_def)

lemma LEFT_RIGHT: "i < n \<Longrightarrow> LEFT (RIGHT i n) n = i"
  by (cases i) (auto simp: LEFT_def RIGHT_def mod_Suc mod_if)

lemma RIGHT_LEFT: "i < n \<Longrightarrow> RIGHT (LEFT i n) n = i"
  by (auto simp: LEFT_def RIGHT_def mod_Suc mod_if)

definition adjacent :: "nat \<Rightarrow> nat \<Rightarrow> nat \<Rightarrow> bool" where
  "adjacent n i k \<longleftrightarrow> k = LEFT i n \<or> k = RIGHT i n"

lemma adjacent_sym: "i < n \<Longrightarrow> k < n \<Longrightarrow> adjacent n i k \<longleftrightarrow> adjacent n k i"
  by (metis adjacent_def LEFT_RIGHT RIGHT_LEFT)

lemma adjacent_less: "adjacent n i k \<Longrightarrow> 0 < n \<Longrightarrow> k < n"
  by (auto simp: adjacent_def LEFT_less RIGHT_less)

section \<open>The invariant\<close>

fun agrees :: "place \<Rightarrow> PHIL \<Rightarrow> cond \<Rightarrow> bool" where
  "agrees Arriving x h \<longleftrightarrow> x = NOTHERE \<and> h = NoWaiter"
| "agrees (Thinking j) x h \<longleftrightarrow> x = THINKING \<and> h = NoWaiter"
| "agrees (Waiting j) x h \<longleftrightarrow> x = HUNGRY \<and> h = Sleeper \<or> x = EATING \<and> h = Signalled"
| "agrees (Eating j) x h \<longleftrightarrow> x = EATING \<and> h = NoWaiter"
| "agrees Leaving x h \<longleftrightarrow> x = THINKING \<and> h = NoWaiter"
| "agrees Gone x h \<longleftrightarrow> x = NOTHERE \<and> h = NoWaiter"

text \<open>
  Every philosopher is where its state says; one that is hungry has a neighbour that eats, except
  those of \<open>X\<close>; and no two neighbours eat.
\<close>

definition symp_ok :: "nat set \<Rightarrow> symposium \<Rightarrow> bool" where
  "symp_ok X x \<longleftrightarrow> (let (at, S) = x; n = N (symp S) in
     (\<forall>i < n. agrees (at i) (state S i) (hungry S i)) \<and>
     (\<forall>i < n. i \<notin> X \<longrightarrow> state S i = HUNGRY \<longrightarrow> (\<exists>k. adjacent n i k \<and> state S k = EATING)) \<and>
     (\<forall>i < n. \<forall>k < n. adjacent n i k \<longrightarrow> i \<noteq> k \<longrightarrow> \<not> (state S i = EATING \<and> state S k = EATING)))"

lemma symp_okI:
  assumes "N (symp S) = n" and "state S = x" and "hungry S = h"
    and "\<And>i. i < n \<Longrightarrow> agrees (at i) (x i) (h i)"
    and "\<And>i. i < n \<Longrightarrow> i \<notin> X \<Longrightarrow> x i = HUNGRY \<Longrightarrow> \<exists>k. adjacent n i k \<and> x k = EATING"
    and "\<And>i k. i < n \<Longrightarrow> k < n \<Longrightarrow> adjacent n i k \<Longrightarrow> i \<noteq> k \<Longrightarrow> x i = EATING \<Longrightarrow> x k = EATING \<Longrightarrow> False"
  shows "symp_ok X (at, S)"
  using assms(4-6) unfolding assms(1-3) [symmetric] symp_ok_def Let_def prod.case by blast

lemma keeps_eater:
  "\<exists>k. P k \<and> f k = EATING \<Longrightarrow> f i \<noteq> EATING \<or> x = EATING \<Longrightarrow> \<exists>k. P k \<and> (f(i := x)) k = EATING"
  by (metis fun_upd_apply)

lemma symp_okD:
  assumes "symp_ok X (at, S)"
  shows "i < N (symp S) \<Longrightarrow> agrees (at i) (state S i) (hungry S i)"
    and "i < N (symp S) \<Longrightarrow> i \<notin> X \<Longrightarrow> state S i = HUNGRY \<Longrightarrow> \<exists>k. adjacent (N (symp S)) i k \<and> state S k = EATING"
    and "i < N (symp S) \<Longrightarrow> k < N (symp S) \<Longrightarrow> adjacent (N (symp S)) i k \<Longrightarrow> i \<noteq> k \<Longrightarrow>
      state S i = EATING \<Longrightarrow> state S k = EATING \<Longrightarrow> False"
  using assms unfolding symp_ok_def Let_def prod.case by blast+

lemma trytoeat_simps [simp]: "symp (trytoeat i S) = symp S"
  by (simp add: trytoeat_def cond_signal_def set_state_def Let_def)

lemma trytoeat_ok:
  assumes ok: "symp_ok X (at, S)" and k: "k < N (symp S)"
  shows "symp_ok (X - {k}) (at, trytoeat k S)"
proof -
  let ?n = "N (symp S)"
  note d = symp_okD [OF ok]
  show ?thesis
  proof (cases "state S k = HUNGRY \<and> state S (LEFT k ?n) \<noteq> EATING \<and> state S (RIGHT k ?n) \<noteq> EATING")
    case False
    then have t: "trytoeat k S = S" by (auto simp: trytoeat_def Let_def)
    show ?thesis unfolding t
    proof (rule symp_okI, simp, simp, simp)
      fix i
      assume "i < ?n" "i \<notin> X - {k}" "state S i = HUNGRY"
      then show "\<exists>j. adjacent ?n i j \<and> state S j = EATING"
        using d(2) [of i] False by (cases "i = k") (auto simp: adjacent_def)
    qed (use d in blast)+
  next
    case True
    then have w: "\<exists>j. at k = Waiting j" "hungry S k = Sleeper"
      using d(1) [OF k] by (cases "at k"; simp)+
    have t: "trytoeat k S = S\<lparr>state := (state S)(k := EATING), hungry := (hungry S)(k := Signalled)\<rparr>"
      using True w by (simp add: trytoeat_def cond_signal_def set_state_def Let_def)
    show ?thesis unfolding t
    proof (rule symp_okI, simp, simp, simp)
      fix i
      assume "i < ?n"
      then show "agrees (at i) (((state S)(k := EATING)) i) (((hungry S)(k := Signalled)) i)"
        using d(1) [of i] w by auto
    next
      fix i
      assume "i < ?n" "i \<notin> X - {k}" "((state S)(k := EATING)) i = HUNGRY"
      then show "\<exists>j. adjacent ?n i j \<and> ((state S)(k := EATING)) j = EATING"
        using d(2) [of i] by (auto split: if_splits)
    next
      fix i j
      assume ij: "i < ?n" "j < ?n" "adjacent ?n i j" "i \<noteq> j"
        and e: "((state S)(k := EATING)) i = EATING" "((state S)(k := EATING)) j = EATING"
      have "\<not> (adjacent ?n k u \<and> state S u = EATING)" for u using True by (auto simp: adjacent_def)
      then show False using d(3) [OF ij] ij e adjacent_sym [OF ij(1,2)] by (auto split: if_splits)
    qed
  qed
qed

lemma symp_ok_mono: "symp_ok X x \<Longrightarrow> X \<subseteq> Y \<Longrightarrow> symp_ok Y x"
  by (cases x) (auto simp: symp_ok_def Let_def)

text \<open>A philosopher that neither eats nor is hungry, before and after its section, disturbs nobody.\<close>

lemma set_quiet:
  assumes ok: "symp_ok {} (at, S)" and i: "i < N (symp S)" and h: "hungry S i = NoWaiter"
    and x: "agrees p x NoWaiter" "x \<noteq> EATING" "x \<noteq> HUNGRY" and q: "state S i \<noteq> EATING"
  shows "symp_ok {} (at(i := p), set_state i x S)"
proof -
  note d = symp_okD [OF ok]
  show ?thesis unfolding set_state_def
  proof (rule symp_okI, simp, simp, simp)
    fix k
    assume "k < N (symp S)"
    then show "agrees ((at(i := p)) k) (((state S)(i := x)) k) (hungry S k)" using d(1) [of k] h x(1) by auto
  next
    fix k
    assume k: "k < N (symp S)" "((state S)(i := x)) k = HUNGRY"
    then have "state S k = HUNGRY" using x(3) by (simp split: if_splits)
    from d(2) [OF k(1) _ this] q show "\<exists>j. adjacent (N (symp S)) k j \<and> ((state S)(i := x)) j = EATING"
      by (intro keeps_eater) simp_all
  next
    fix j k
    assume "j < N (symp S)" "k < N (symp S)" "adjacent (N (symp S)) j k" "j \<noteq> k"
      "((state S)(i := x)) j = EATING" "((state S)(i := x)) k = EATING"
    then show False using d(3) [of j k] x(2) by (auto split: if_splits)
  qed
qed

lemma arrives:
  assumes ok: "symp_ok {} (at, S)" and i: "i < N (symp S)" and "at i = Arriving"
  shows "symp_ok {} (at(i := next_bite (symp S) 0), set_state i THINKING S)"
  by (rule set_quiet [OF ok i]) (use symp_okD(1) [OF ok i] assms(3) in \<open>auto simp: next_bite_def\<close>)

lemma leaves:
  assumes ok: "symp_ok {} (at, S)" and i: "i < N (symp S)" and "at i = Leaving"
  shows "symp_ok {} (at(i := Gone), set_state i NOTHERE S)"
  by (rule set_quiet [OF ok i]) (use symp_okD(1) [OF ok i] assms(3) in auto)

lemma gets_hungry:
  assumes ok: "symp_ok {} (at, S)" and i: "i < N (symp S)" and t: "at i = Thinking j"
  shows "\<exists>p S'. test_hungry i j (trytoeat i (set_state i HUNGRY S)) = Inr (p, S') \<and> symp S' = symp S \<and>
    symp_ok {} (at(i := p), S') \<and> (p = Waiting j \<or> p = Eating j)"
proof -
  let ?n = "N (symp S)"
  note d = symp_okD [OF ok]
  have s: "state S i = THINKING" "hungry S i = NoWaiter" using d(1) [OF i] t by simp_all
  show ?thesis
  proof (cases "\<exists>k. adjacent ?n i k \<and> state S k = EATING")
    case True
    then have n: "\<not> (state (set_state i HUNGRY S) (LEFT i ?n) \<noteq> EATING \<and> state (set_state i HUNGRY S) (RIGHT i ?n) \<noteq> EATING)"
      using s by (auto simp: set_state_def adjacent_def)
    then have r: "test_hungry i j (trytoeat i (set_state i HUNGRY S)) = Inr (Waiting j, cond_sleep i (set_state i HUNGRY S))"
      by (auto simp: trytoeat_def Let_def test_hungry_def set_state_def)
    have "symp_ok {} (at(i := Waiting j), cond_sleep i (set_state i HUNGRY S))"
      unfolding cond_sleep_def set_state_def
    proof (rule symp_okI, simp, simp, simp)
      fix k
      assume "k < ?n"
      then show "agrees ((at(i := Waiting j)) k) (((state S)(i := HUNGRY)) k) (((hungry S)(i := Sleeper)) k)"
        using d(1) [of k] by auto
    next
      fix k
      assume k: "k < ?n" "((state S)(i := HUNGRY)) k = HUNGRY"
      then have "\<exists>l. adjacent ?n k l \<and> state S l = EATING" using True d(2) [OF k(1)] by (cases "k = i") simp_all
      then show "\<exists>l. adjacent ?n k l \<and> ((state S)(i := HUNGRY)) l = EATING"
        by (rule keeps_eater) (simp add: s)
    next
      fix l k
      assume "l < ?n" "k < ?n" "adjacent ?n l k" "l \<noteq> k"
        "((state S)(i := HUNGRY)) l = EATING" "((state S)(i := HUNGRY)) k = EATING"
      then show False using d(3) [of l k] by (auto split: if_splits)
    qed
    with r show ?thesis by (simp add: cond_sleep_def set_state_def)
  next
    case False
    then have n: "state (set_state i HUNGRY S) (LEFT i ?n) \<noteq> EATING" "state (set_state i HUNGRY S) (RIGHT i ?n) \<noteq> EATING"
      using s by (auto simp: set_state_def adjacent_def)
    have t: "trytoeat i (set_state i HUNGRY S) = set_state i EATING S"
      using n s by (simp add: trytoeat_def cond_signal_def set_state_def Let_def)
    have r: "test_hungry i j (trytoeat i (set_state i HUNGRY S)) = Inr (Eating j, set_state i EATING S)"
      unfolding t by (simp add: test_hungry_def set_state_def)
    have "symp_ok {} (at(i := Eating j), set_state i EATING S)"
      unfolding set_state_def
    proof (rule symp_okI, simp, simp, simp)
      fix k
      assume "k < ?n"
      then show "agrees ((at(i := Eating j)) k) (((state S)(i := EATING)) k) (hungry S k)"
        using d(1) [of k] s by auto
    next
      fix k
      assume k: "k < ?n" "((state S)(i := EATING)) k = HUNGRY"
      then have "state S k = HUNGRY" by (simp split: if_splits)
      from d(2) [OF k(1) _ this] show "\<exists>l. adjacent ?n k l \<and> ((state S)(i := EATING)) l = EATING"
        by (intro keeps_eater) simp_all
    next
      fix l k
      assume lk: "l < ?n" "k < ?n" "adjacent ?n l k" "l \<noteq> k"
        and e: "((state S)(i := EATING)) l = EATING" "((state S)(i := EATING)) k = EATING"
      then show False using d(3) [OF lk] False adjacent_sym [OF lk(1,2)] by (auto split: if_splits)
    qed
    with r show ?thesis by (simp add: set_state_def)
  qed
qed

lemma wakes:
  assumes ok: "symp_ok {} (at, S)" and i: "i < N (symp S)" and w: "at i = Waiting j" and sg: "hungry S i = Signalled"
  shows "test_hungry i j (S\<lparr>hungry := (hungry S)(i := NoWaiter)\<rparr>) = Inr (Eating j, S\<lparr>hungry := (hungry S)(i := NoWaiter)\<rparr>) \<and>
    symp_ok {} (at(i := Eating j), S\<lparr>hungry := (hungry S)(i := NoWaiter)\<rparr>)"
proof -
  note d = symp_okD [OF ok]
  have s: "state S i = EATING" using d(1) [OF i] w sg by auto
  have "symp_ok {} (at(i := Eating j), S\<lparr>hungry := (hungry S)(i := NoWaiter)\<rparr>)"
  proof (rule symp_okI, simp, simp, simp)
    fix k
    assume "k < N (symp S)"
    then show "agrees ((at(i := Eating j)) k) (state S k) (((hungry S)(i := NoWaiter)) k)" using d(1) [of k] s by auto
  qed (use d in blast)+
  then show ?thesis using s by (simp add: test_hungry_def)
qed

lemma finishes:
  assumes ok: "symp_ok {} (at, S)" and i: "i < N (symp S)" and e: "at i = Eating j"
  shows "symp_ok {} (at(i := next_bite (symp S) (j + 1)),
    trytoeat (RIGHT i (N (symp S))) (trytoeat (LEFT i (N (symp S))) (set_state i THINKING S)))"
proof -
  let ?n = "N (symp S)" and ?S = "set_state i THINKING S" and ?at = "at(i := next_bite (symp S) (j + 1))"
  note d = symp_okD [OF ok]
  have s: "state S i = EATING" "hungry S i = NoWaiter" using d(1) [OF i] e by simp_all
  have n: "N (symp ?S) = ?n" by (simp add: set_state_def)
  have "symp_ok {LEFT i ?n, RIGHT i ?n} (?at, ?S)"
    unfolding set_state_def
  proof (rule symp_okI, simp, simp, simp)
    fix k
    assume "k < ?n"
    then show "agrees (?at k) (((state S)(i := THINKING)) k) (hungry S k)" using d(1) [of k] s by (auto simp: next_bite_def)
  next
    fix k
    assume k: "k < ?n" "k \<notin> {LEFT i ?n, RIGHT i ?n}" "((state S)(i := THINKING)) k = HUNGRY"
    then have a: "\<not> adjacent ?n k i" using adjacent_sym [OF k(1) i] by (simp add: adjacent_def)
    from k(3) have "state S k = HUNGRY" by (simp split: if_splits)
    then obtain l where "adjacent ?n k l" "state S l = EATING" using d(2) [OF k(1)] by blast
    with a show "\<exists>l. adjacent ?n k l \<and> ((state S)(i := THINKING)) l = EATING" by (intro exI [of _ l]) auto
  next
    fix l k
    assume "l < ?n" "k < ?n" "adjacent ?n l k" "l \<noteq> k"
      "((state S)(i := THINKING)) l = EATING" "((state S)(i := THINKING)) k = EATING"
    then show False using d(3) [of l k] by (auto split: if_splits)
  qed
  from trytoeat_ok [OF trytoeat_ok [OF this, of "LEFT i ?n"], of "RIGHT i ?n"]
  have "symp_ok ({LEFT i ?n, RIGHT i ?n} - {LEFT i ?n} - {RIGHT i ?n})
      (?at, trytoeat (RIGHT i ?n) (trytoeat (LEFT i ?n) ?S))"
    using i LEFT_less [of ?n i] RIGHT_less [of ?n i] by (simp add: set_state_def)
  then show ?thesis by (rule symp_ok_mono) auto
qed

text \<open>What is left to do for a philosopher.\<close>

fun left_to_do :: "nat \<Rightarrow> place \<Rightarrow> nat" where
  "left_to_do b Arriving = 3 * b + 2"
| "left_to_do b (Thinking j) = 3 * (b - j) + 1"
| "left_to_do b (Waiting j) = 3 * (b - j)"
| "left_to_do b (Eating j) = 3 * (b - j) - 1"
| "left_to_do b Leaving = 1"
| "left_to_do b Gone = 0"

text \<open>The bites that a philosopher has taken, and the place where it may be.\<close>

fun place_ok :: "nat \<Rightarrow> place \<Rightarrow> bool" where
  "place_ok b (Thinking j) \<longleftrightarrow> j < b"
| "place_ok b (Waiting j) \<longleftrightarrow> j < b"
| "place_ok b (Eating j) \<longleftrightarrow> j < b"
| "place_ok b p \<longleftrightarrow> True"

lemma next_bite_left: "place_ok (bites sp) (next_bite sp j) \<and> left_to_do (bites sp) (next_bite sp j) \<le> 3 * (bites sp - j) + 1"
  by (simp add: next_bite_def)

text \<open>A step of a philosopher that is not asleep never faults, keeps the invariant and leaves less to do.\<close>

lemma philosopher_step_ok:
  assumes ok: "symp_ok {} (at, S)" and i: "i < N (symp S)" and b: "place_ok (bites (symp S)) (at i)"
    and st: "philosopher_step i (at i) S = Some r"
  shows "\<exists>p S'. r = Inr (p, S') \<and> symp_ok {} (at(i := p), S') \<and> symp S' = symp S \<and> place_ok (bites (symp S)) p \<and>
    left_to_do (bites (symp S)) p < left_to_do (bites (symp S)) (at i)"
proof (cases "at i")
  case Arriving
  then show ?thesis using st arrives [OF ok i] next_bite_left [of "symp S" 0] by (auto simp: set_state_def)
next
  case (Thinking j)
  then show ?thesis using st gets_hungry [OF ok i Thinking] b by auto
next
  case (Waiting j)
  then show ?thesis using st wakes [OF ok i Waiting] b by (auto split: if_splits)
next
  case (Eating j)
  then show ?thesis using st finishes [OF ok i Eating] b next_bite_left [of "symp S" "j + 1"] by (auto simp: Let_def set_state_def)
next
  case Leaving
  then show ?thesis using st leaves [OF ok i] by (auto simp: set_state_def)
next
  case Gone
  then show ?thesis using st by simp
qed

definition work_left :: "symposium \<Rightarrow> nat" where
  "work_left x = (\<Sum>i < N (symp (snd x)). left_to_do (bites (symp (snd x))) (fst x i))"

lemma work_left_step:
  assumes "i < N sp" and "left_to_do b p < left_to_do b (at i)"
  shows "(\<Sum>k < N sp. left_to_do b ((at(i := p)) k)) < (\<Sum>k < N sp. left_to_do b (at k))"
  by (rule sum_strict_mono_ex1) (use assms in auto)

lemma symp_reach_ok:
  assumes "symp_reach sp k (at, S)"
  shows "symp S = sp \<and> symp_ok {} (at, S) \<and> (\<forall>i < N sp. place_ok (bites sp) (at i)) \<and>
    k + work_left (at, S) \<le> N sp * (3 * bites sp + 2)"
  using assms
proof (induction k "(at, S)" arbitrary: at S)
  case start
  then have x: "at = (\<lambda>_. Arriving)" "S = SymposiumTable_init sp" by (simp_all add: symposium_start_def)
  have "symp_ok {} (at, S)" unfolding x by (rule symp_okI) (auto simp: SymposiumTable_init_def)
  then show ?case unfolding x by (simp add: SymposiumTable_init_def work_left_def)
next
  case (more k x)
  obtain at0 S0 where x: "x = (at0, S0)" by fastforce
  have IH: "symp S0 = sp" "symp_ok {} (at0, S0)" "\<forall>i < N sp. place_ok (bites sp) (at0 i)"
    "k + work_left (at0, S0) \<le> N sp * (3 * bites sp + 2)" using more(2) [OF x] by blast+
  obtain i p where i: "i < N (symp S0)" "philosopher_step i (at0 i) S0 = Some (Inr (p, S))" "at = at0(i := p)"
    using more(3) unfolding x by (auto elim: symp_stepE)
  have pl: "place_ok (bites (symp S0)) (at0 i)" using IH(1,3) i(1) by simp
  obtain q S1 where "Inr (p, S) = (Inr (q, S1) :: (place \<times> SymposiumTable) result)" and
    s: "symp_ok {} (at0(i := q), S1)" "symp S1 = symp S0" "place_ok (bites (symp S0)) q"
    "left_to_do (bites (symp S0)) q < left_to_do (bites (symp S0)) (at0 i)"
    using philosopher_step_ok [OF IH(2) i(1) pl i(2)] by blast
  then have e: "q = p" "S1 = S" by simp_all
  have "work_left (at, S) < work_left (at0, S0)"
    using work_left_step [where sp = "symp S0" and b = "bites (symp S0)" and at = at0 and p = q, OF i(1) s(4)] s(2) unfolding work_left_def fst_conv snd_conv i(3) e by simp
  then show ?case using IH s unfolding e i(3) by auto
qed

end
