(* ===== verification/Symposium_Props.thy ===== *)
theory Symposium_Props
  imports Symposium
begin

text \<open>The promises of the symposium: neighbours do not eat together, nobody waits in vain, and it ends.\<close>

text \<open>
  C26: In every state that a symposium can reach no two neighbours eat, a philosopher that waits
  hungry has a neighbour that eats, the assertion in \<open>SymposiumTable_philosopher\<close> holds in every
  step that can be taken, and nobody takes more than \<open>bites\<close> bites.
\<close>

theorem neighbours_never_eat_together:
  assumes "symp_reach sp k (at, S)"
  shows "(\<forall>i < N sp. LEFT i (N sp) \<noteq> i \<longrightarrow> state S i = EATING \<longrightarrow> state S (LEFT i (N sp)) \<noteq> EATING) \<and>
    (\<forall>i < N sp. state S i = HUNGRY \<longrightarrow> state S (LEFT i (N sp)) = EATING \<or> state S (RIGHT i (N sp)) = EATING) \<and>
    (\<forall>i < N sp. philosopher_step i (at i) S \<noteq> Some (Inl AssertFail)) \<and>
    (\<forall>i < N sp. place_ok (bites sp) (at i))"
proof -
  have r: "symp S = sp" "symp_ok {} (at, S)" "\<forall>i < N sp. place_ok (bites sp) (at i)"
    using symp_reach_ok [OF assms] by blast+
  note d = symp_okD [OF r(2), unfolded r(1)]
  have "state S (LEFT i (N sp)) \<noteq> EATING" if "i < N sp" "LEFT i (N sp) \<noteq> i" "state S i = EATING" for i
    using d(3) [of i "LEFT i (N sp)"] that LEFT_less [of "N sp" i] by (auto simp: adjacent_def)
  moreover have "state S (LEFT i (N sp)) = EATING \<or> state S (RIGHT i (N sp)) = EATING" if "i < N sp" "state S i = HUNGRY" for i
    using d(2) [of i] that by (auto simp: adjacent_def)
  moreover have "philosopher_step i (at i) S \<noteq> Some (Inl AssertFail)" if "i < N sp" for i
    using philosopher_step_ok [OF r(2), of i "Inl AssertFail"] r(1,3) that by auto
  ultimately show ?thesis using r(3) by blast
qed

theorem neighbours_never_eat_together_witness:
  "\<exists>at S. symp_reach \<lparr>N = 2, bites = 1, fmin = 25, fmax = 35\<rparr> 3 (at, S) \<and> state S 0 = EATING \<and> state S 1 \<noteq> EATING"
proof -
  let ?sp = "\<lparr>N = 2, bites = 1, fmin = 25, fmax = 35\<rparr>"
  let ?S = "SymposiumTable_init ?sp"
  have "symp_reach ?sp 0 ((\<lambda>_. Arriving), ?S)" using symp_reach.start [of ?sp] by (simp add: symposium_start_def)
  moreover have "symp_step ((\<lambda>_. Arriving), ?S) ((\<lambda>_. Arriving)(0 := Thinking 0), set_state 0 THINKING ?S)"
    by (rule symp_step.intros) (simp_all add: SymposiumTable_init_def next_bite_def)
  ultimately have 1: "symp_reach ?sp (Suc 0) ((\<lambda>_. Arriving)(0 := Thinking 0), set_state 0 THINKING ?S)"
    by (rule symp_reach.more)
  let ?S2 = "set_state 0 EATING (set_state 0 THINKING ?S)"
  have "symp_step ((\<lambda>_. Arriving)(0 := Thinking 0), set_state 0 THINKING ?S) (((\<lambda>_. Arriving)(0 := Thinking 0))(0 := Eating 0), ?S2)"
    by (rule symp_step.intros)
      (simp_all add: SymposiumTable_init_def set_state_def trytoeat_def LEFT_def RIGHT_def cond_signal_def test_hungry_def)
  from symp_reach.more [OF 1 this]
  have 2: "symp_reach ?sp (Suc (Suc 0)) (((\<lambda>_. Arriving)(0 := Thinking 0))(0 := Eating 0), ?S2)" .
  have "symp_step (((\<lambda>_. Arriving)(0 := Thinking 0))(0 := Eating 0), ?S2)
      ((((\<lambda>_. Arriving)(0 := Thinking 0))(0 := Eating 0))(1 := Thinking 0), set_state 1 THINKING ?S2)"
    by (rule symp_step.intros) (simp_all add: SymposiumTable_init_def set_state_def next_bite_def)
  from symp_reach.more [OF 2 this]
  have 3: "symp_reach ?sp 3 ((((\<lambda>_. Arriving)(0 := Thinking 0))(0 := Eating 0))(1 := Thinking 0), set_state 1 THINKING ?S2)"
    by (simp add: numeral_3_eq_3)
  have e: "state (set_state 1 THINKING ?S2) 0 = EATING" by (simp add: set_state_def)
  have l: "LEFT 0 2 = 1" "0 < N ?sp" "N ?sp = 2" by (simp_all add: LEFT_def)
  from conjunct1 [OF neighbours_never_eat_together [OF 3], THEN spec, of 0] e l
  have "state (set_state 1 THINKING ?S2) 1 \<noteq> EATING" by (metis zero_neq_one)
  with 3 e show ?thesis by blast
qed

text \<open>
  C27: A symposium of \<open>N\<close> philosophers ends: no run is longer than \<open>N * (3 * bites + 2)\<close> steps, and
  as long as somebody has not left the table, somebody can take a step.
\<close>

theorem symposium_ends:
  assumes "symp_reach sp k (at, S)"
  shows "k \<le> N sp * (3 * bites sp + 2) \<and> ((\<exists>i < N sp. at i \<noteq> Gone) \<longrightarrow> (\<exists>y. symp_step (at, S) y))"
proof -
  have r: "symp S = sp" "symp_ok {} (at, S)" "\<forall>i < N sp. place_ok (bites sp) (at i)"
    "k + work_left (at, S) \<le> N sp * (3 * bites sp + 2)"
    using symp_reach_ok [OF assms] by blast+
  note d = symp_okD [OF r(2), unfolded r(1)]
  have go: "\<exists>y. symp_step (at, S) y" if i: "i < N sp" "philosopher_step i (at i) S \<noteq> None" for i
  proof -
    obtain x where x: "philosopher_step i (at i) S = Some x" using i(2) by blast
    then obtain p S' where "x = Inr (p, S')"
      using philosopher_step_ok [OF r(2) _ _ x] i(1) r(1,3) by auto
    then show ?thesis using x i(1) r(1) by (blast intro: symp_step.intros)
  qed
  have eats: "philosopher_step i (at i) S \<noteq> None" if "i < N sp" "state S i = EATING" for i
    using d(1) [of i] that by (cases "at i") (auto simp: Let_def)
  have "\<exists>y. symp_step (at, S) y" if i: "i < N sp" "at i \<noteq> Gone" for i
  proof (cases "philosopher_step i (at i) S = None")
    case False
    then show ?thesis using go i(1) by blast
  next
    case True
    then have "state S i = HUNGRY" using i(2) d(1) [OF i(1)] by (cases "at i") (auto simp: Let_def split: if_splits)
    then obtain k where k: "adjacent (N sp) i k" "state S k = EATING" using d(2) [OF i(1)] by auto
    then have "k < N sp" using adjacent_less i(1) by fastforce
    then show ?thesis using go eats k(2) by blast
  qed
  then show ?thesis using r(4) by auto
qed

theorem symposium_ends_witness:
  "\<exists>y. symp_step (symposium_start \<lparr>N = 5, bites = 3, fmin = 20, fmax = 30\<rparr>) y"
proof -
  let ?sp = "\<lparr>N = 5, bites = 3, fmin = 20, fmax = 30\<rparr>"
  have "symp_reach ?sp 0 ((\<lambda>_. Arriving), SymposiumTable_init ?sp)"
    using symp_reach.start [of ?sp] by (simp add: symposium_start_def)
  from conjunct2 [OF symposium_ends [OF this]] have "\<exists>y. symp_step ((\<lambda>_. Arriving), SymposiumTable_init ?sp) y"
    by (rule mp) (intro exI [of _ 0], simp)
  then show ?thesis by (simp add: symposium_start_def)
qed

section \<open>Fibonacci numbers\<close>

fun fib :: "nat \<Rightarrow> nat" where
  "fib 0 = 0"
| "fib (Suc 0) = 1"
| "fib (Suc (Suc n)) = fib (Suc n) + fib n"

text \<open>The routine computes Fibonacci numbers modulo \<open>2 ^ 32\<close>.\<close>

lemma fibo_fib: "n < 2 ^ 32 \<Longrightarrow> fibo (of_nat n) = of_nat (fib n)"
proof (induction n rule: fib.induct)
  case 1
  then show ?case by (simp add: fibo.simps)
next
  case 2
  then show ?case by (simp add: fibo.simps)
next
  case (3 n)
  have "\<not> (of_nat (Suc (Suc n)) :: uint) < 2"
    using 3(3) by (simp add: word_less_nat_alt unat_of_nat del: of_nat_Suc)
  then have "fibo (of_nat (Suc (Suc n))) = fibo (of_nat (Suc n)) + fibo (of_nat n)"
    by (subst fibo.simps) (simp add: algebra_simps)
  then show ?case using 3 by simp
qed

end
