(* ===== verification/Shell_Programs.thy ===== *)
theory Shell_Programs
  imports Symposium
begin

text \<open>
  The programs of src/tinyos_shell.c that only read their standard input and write their standard
  output.  The input is the list of characters that \<open>fgetc\<close> returns until the end of the file; a
  program gives its output and its exit status.  The programs keep the result of \<open>fgetc\<close> in a
  \<open>char\<close>, so the character 255, which is \<open>-1\<close> there, ends their input as well.
\<close>

section \<open>The C library's part\<close>

definition newline :: char where "newline = CHR 0x0A"

fun digits :: "nat \<Rightarrow> string" where
  "digits n = (if n < 10 then [char_of (48 + n)] else digits (n div 10) @ [char_of (48 + n mod 10)])"

declare digits.simps [simp del]

text \<open>A decimal number, and a string, padded on the left; and a string padded on the right.\<close>

definition decimal :: "int \<Rightarrow> string" where
  "decimal i = (if i < 0 then ''-'' @ digits (nat (- i)) else digits (nat i))"

definition pad_left :: "nat \<Rightarrow> string \<Rightarrow> string" where
  "pad_left w s = replicate (w - length s) CHR '' '' @ s"

definition pad_right :: "nat \<Rightarrow> string \<Rightarrow> string" where
  "pad_right w s = s @ replicate (w - length s) CHR '' ''"

definition isspace :: "char \<Rightarrow> bool" where
  "isspace c = (c = CHR '' '' \<or> 9 \<le> (of_char c :: nat) \<and> (of_char c :: nat) \<le> 13)"

definition isblank :: "char \<Rightarrow> bool" where
  "isblank c = (c = CHR '' '' \<or> c = CHR 0x09)"

definition toupper :: "char \<Rightarrow> char" where
  "toupper c = (let n = of_char c :: nat in if 97 \<le> n \<and> n \<le> 122 then char_of (n - 32) else c)"

definition tolower :: "char \<Rightarrow> char" where
  "tolower c = (let n = of_char c :: nat in if 65 \<le> n \<and> n \<le> 90 then char_of (n + 32) else c)"

definition isdigit :: "char \<Rightarrow> bool" where
  "isdigit c = (48 \<le> (of_char c :: nat) \<and> (of_char c :: nat) \<le> 57)"

definition atoi :: "string \<Rightarrow> int" where
  "atoi s =
     (let t = dropWhile isspace s;
          (sign, u) = (case t of
             [] \<Rightarrow> (1, t)
           | c # r \<Rightarrow> if c = CHR ''-'' then (-1, r) else if c = CHR ''+'' then (1, r) else (1, t))
      in sign * fold (\<lambda>c n. 10 * n + int (of_char c - 48)) (takeWhile isdigit u) 0)"

text \<open>The test that ends the loops over the input.\<close>

definition is_EOF :: "char \<Rightarrow> bool" where "is_EOF c = ((of_char c :: nat) = 255)"

section \<open>Arguments\<close>

text \<open>
  \<open>checkargs\<close>: with too few arguments a program prints a message and returns -1.
\<close>

definition checkargs :: "nat \<Rightarrow> string list \<Rightarrow> (string \<times> int) \<Rightarrow> (string \<times> int)" where
  "checkargs argno argv body =
     (if length argv \<le> argno
      then (''Insufficient arguments. '' @ decimal (int argno) @ '' expected, '' @
              decimal (int (length argv) - 1) @ '' given.'' @ [newline], -1)
      else body)"

definition getint :: "nat \<Rightarrow> string list \<Rightarrow> int" where
  "getint n argv = atoi (argv ! n)"

section \<open>Filters\<close>

fun Capitalize_loop :: "string \<Rightarrow> string" where
  "Capitalize_loop [] = []"
| "Capitalize_loop (c # fin) = (if is_EOF c then [] else toupper c # Capitalize_loop fin)"

definition Capitalize :: "string list \<Rightarrow> string \<Rightarrow> string \<times> int" where
  "Capitalize argv fin = (Capitalize_loop fin, 0)"

fun LowerCase_loop :: "string \<Rightarrow> string" where
  "LowerCase_loop [] = []"
| "LowerCase_loop (c # fin) = (if is_EOF c then [] else tolower c # LowerCase_loop fin)"

definition LowerCase :: "string list \<Rightarrow> string \<Rightarrow> string \<times> int" where
  "LowerCase argv fin = (LowerCase_loop fin, 0)"

fun Echo_loop :: "nat \<Rightarrow> string list \<Rightarrow> string" where
  "Echo_loop i [] = []"
| "Echo_loop i (a # args) = (if i > 1 then '' '' else []) @ a @ Echo_loop (i + 1) args"

definition Echo :: "string list \<Rightarrow> string \<times> int" where
  "Echo argv = (Echo_loop 1 (tl argv) @ [newline], 0)"

fun LineEnum_loop :: "bool \<Rightarrow> nat \<Rightarrow> string \<Rightarrow> string" where
  "LineEnum_loop atend count [] = []"
| "LineEnum_loop atend count (c # fin) =
     (if is_EOF c then []
      else let count1 = (if atend then count + 1 else count)
           in (if atend then pad_left 6 (digits count1) @ '': '' else []) @ c # LineEnum_loop (c = newline) count1 fin)"

definition LineEnum :: "string list \<Rightarrow> string \<Rightarrow> string \<times> int" where
  "LineEnum argv fin = (LineEnum_loop True 0 fin, 0)"

text \<open>
  The number of lines of a page is an \<open>int\<close> that is converted to \<open>size_t\<close>; at each page the
  program prompts and waits for a line of the keyboard.
\<close>

fun More_loop :: "int \<Rightarrow> bool \<Rightarrow> nat \<Rightarrow> string \<Rightarrow> string result" where
  "More_loop page atend count [] = Inr []"
| "More_loop page atend count (c # fin) =
     (if is_EOF c then Inr []
      else let count1 = (if atend then count + 1 else count)
           in if atend \<and> page = 0 then Inl DivByZero
              else rbind (More_loop page (c = newline) count1 fin) (\<lambda>out.
                Inr ((if atend \<and> (of_nat count1 :: 64 word) mod of_int page = 0 then ''press enter to continue:'' else []) @
                     c # out)))"

definition More :: "string list \<Rightarrow> string \<Rightarrow> (string \<times> int) result" where
  "More argv fin =
     (let page = (if length argv \<ge> 2 then getint 1 argv else 25)
      in rbind (More_loop page True 0 fin) (\<lambda>out. Inr (out, 0)))"

text \<open>The counters of \<open>WordCount\<close> are characters, words and lines.\<close>

fun WordCount_loop :: "bool \<Rightarrow> nat \<times> nat \<times> nat \<Rightarrow> string \<Rightarrow> nat \<times> nat \<times> nat" where
  "WordCount_loop wspace k [] = k"
| "WordCount_loop wspace (nchar, nword, nline) (c # fin) =
     (if is_EOF c then (nchar, nword, nline)
      else let starts = wspace \<and> \<not> isblank c;
               nword1 = (if starts then nword + 1 else nword);
               wspace1 = (if starts then False else wspace);
               nline1 = (if c = newline then nline + 1 else nline);
               wspace2 = (if c = newline then True else wspace1);
               wspace3 = (if isblank c then True else wspace2)
           in WordCount_loop wspace3 (nchar + 1, nword1, nline1) fin)"

definition WordCount :: "string list \<Rightarrow> string \<Rightarrow> string \<times> int" where
  "WordCount argv fin =
     (let (nchar, nword, nline) = WordCount_loop True (0, 0, 0) fin
      in (pad_left 8 (digits nline) @ '' '' @ pad_left 8 (digits nword) @ '' '' @ pad_left 8 (digits nchar) @ [newline], 0))"

section \<open>Towers of Hanoi and Fibonacci numbers\<close>

text \<open>The moves, each from a tile to a tile.\<close>

fun hanoi_moves :: "nat \<Rightarrow> nat \<Rightarrow> nat \<Rightarrow> nat \<Rightarrow> (nat \<times> nat) list" where
  "hanoi_moves 0 a b c = []"
| "hanoi_moves (Suc n) a b c = hanoi_moves n a c b @ [(a, b)] @ hanoi_moves n c b a"

definition hanoi_line :: "nat \<times> nat \<Rightarrow> string" where
  "hanoi_line m = ''Move the top disk from tile '' @ pad_left 2 (digits (fst m)) @ '' to tile '' @
     pad_left 2 (digits (snd m)) @ [newline]"

definition Hanoi :: "string list \<Rightarrow> string \<times> int" where
  "Hanoi argv = checkargs 1 argv
     (let n = getint 1 argv; MAXN = 15
      in if n < 1 \<or> n > MAXN
         then (''The argument must be between 1 and '' @ decimal MAXN @ ''.'' @ [newline], n)
         else (''We shall move '' @ decimal n @ '' disks from tile 1 to tile 2 via tile 3.'' @ [newline] @
                 concat (map hanoi_line (hanoi_moves (nat n) 1 2 3)), 0))"

definition Fibonacci :: "string list \<Rightarrow> string \<times> int" where
  "Fibonacci argv = checkargs 1 argv
     (let n = getint 1 argv
      in (''Fibonacci('' @ decimal n @ '')='' @ decimal (sint (fibo (word_of_int n))) @ [newline], 0))"

end
