(* ===== verification/Shell.thy ===== *)
theory Shell
  imports Shell_Programs
begin

text \<open>
  The shell and the programs of src/tinyos_shell.c that make system calls.  A program is a tree of
  its calls: at each call it goes on with what the system answers, so the trees can be run on any
  system.  The order of the calls and what the program does with the answers are the code's.
\<close>

section \<open>Programs as trees of system calls\<close>

datatype program = P_Shell | P_RunTerm | P_ListPrograms | P_Fibonacci | P_Repeat | P_Hanoi | P_HelpMessage
  | P_SystemInfo | P_Capitalize | P_LowerCase | P_LineEnum | P_More | P_WordCount | P_Symposium_proc
  | P_Symposium_thr | P_RemoteServer | P_RemoteClient | P_Echo

text \<open>The tasks that are started with \<open>Exec\<close>: a philosopher of the caller's symposium, and a symposium.\<close>

datatype task_ref = PhilosopherProcess nat | SymposiumOfProcesses symposium_t

datatype sys_call =
    OpenNull
  | OpenTerminal int
  | Dup2 int int
  | Close int
  | Pipe
  | Execute program "string list"
  | WaitChild int
  | GetTerminalDevices
  | Read int "64 word"
  | Write int "8 word list"
  | Print string                  \<comment> \<open>\<open>printf\<close> to the standard output\<close>
  | PseudoConsole                 \<comment> \<open>\<open>tinyos_pseudo_console\<close>\<close>
  | ReplaceStdio
  | RestoreStdio
  | Exec task_ref
  | CreateThread nat              \<comment> \<open>a philosopher of the caller's symposium\<close>
  | ThreadJoin int
  | Socket int
  | Connect int int int
  | ShutDown int
  | OpenInfo
  | Cores                         \<comment> \<open>\<open>cpu_cores\<close>\<close>
  | SerialPorts                   \<comment> \<open>\<open>bios_serial_ports\<close>\<close>

text \<open>
  An answer: the value returned, the two members of the \<open>pipe_t\<close> after \<open>Pipe\<close>, the exit status
  that \<open>WaitChild\<close> stored (or left alone), and the bytes that were read.
\<close>

record answer =
  ret :: int
  pipe_read :: int
  pipe_write :: int
  status :: int
  bytes :: "8 word list"

datatype 'a prog = Done 'a | Abort fault | Call sys_call "answer \<Rightarrow> 'a prog"

primrec bind :: "'a prog \<Rightarrow> ('a \<Rightarrow> 'b prog) \<Rightarrow> 'b prog" where
  "bind (Done a) f = f a"
| "bind (Abort e) f = Abort e"
| "bind (Call c k) f = Call c (\<lambda>r. bind (k r) f)"

text \<open>A call whose answer is its return value, and one whose answer is ignored.\<close>

definition call :: "sys_call \<Rightarrow> int prog" where
  "call c = Call c (\<lambda>r. Done (ret r))"

definition seq :: "'a prog \<Rightarrow> 'b prog \<Rightarrow> 'b prog" where
  "seq p q = bind p (\<lambda>_. q)"

text \<open>The run of a program on a system that answers each call and changes its state.\<close>

primrec run_prog :: "(sys_call \<Rightarrow> 's \<Rightarrow> answer \<times> 's) \<Rightarrow> 'a prog \<Rightarrow> 's \<Rightarrow> ('a \<times> 's) result" where
  "run_prog sys (Done a) s = Inr (a, s)"
| "run_prog sys (Abort e) s = Inl e"
| "run_prog sys (Call c k) s = (let (r, s1) = sys c s in run_prog sys (k r) s1)"

lemma run_bind: "run_prog sys (bind p f) s = rbind (run_prog sys p s) (\<lambda>(a, s1). run_prog sys (f a) s1)"
  by (induction p arbitrary: s) (simp_all add: Let_def prod.case_eq_if)

lemma run_call: "run_prog sys (call c) s = Inr (ret (fst (sys c s)), snd (sys c s))"
  by (simp add: call_def Let_def prod.case_eq_if)

lemma run_seq: "run_prog sys (seq p q) s = rbind (run_prog sys p s) (\<lambda>(a, s1). run_prog sys q s1)"
  by (simp add: seq_def run_bind)

section \<open>The table of commands\<close>

definition COMMANDS :: "(string \<times> program \<times> nat \<times> string) list" where
  "COMMANDS =
    [(''help'', P_HelpMessage, 0, ''A help message.''),
     (''ls'', P_ListPrograms, 0, ''List available programs programs.''),
     (''sysinfo'', P_SystemInfo, 0, ''Print some basic info about the current system.''),
     (''runterm'', P_RunTerm, 2, ''runterm <term> <prog>  <args...> : execute '' @ [CHR 0x27] @ ''<prog> <args...>'' @ [CHR 0x27] @ '' on terminal <term>.''),
     (''sh'', P_Shell, 0, ''Run a shell.''),
     (''repeat'', P_Repeat, 2, ''repeat <n> <prog> <args...>: execute '' @ [CHR 0x27] @ ''<prog> <args...>'' @ [CHR 0x27] @ '' <n> times.''),
     (''fibo'', P_Fibonacci, 1, ''Compute a fibonacci number.''),
     (''cap'', P_Capitalize, 0, ''Copy stdin to stdout, capitalizing all letters''),
     (''lcase'', P_LowerCase, 0, ''Copy stdin to stdout, lower-casing all letters''),
     (''wc'', P_WordCount, 0, ''Count and print lines, words and chars of stdin''),
     (''lenum'', P_LineEnum, 0, ''Copy stdin to stdout, adding line numbers''),
     (''more'', P_More, 0, ''more [<n>] (default: <n>=20). Read the input <n> lines at a time.''),
     (''symposium'', P_Symposium_proc, 2, ''Dining Philosophers(processes): symposium  <philosophers> <bites>''),
     (''symp_thr'', P_Symposium_thr, 2, ''Dining Philosophers(threads): symp_thr  <philosophers> <bites>''),
     (''hanoi'', P_Hanoi, 1, ''The towers of Hanoi.''),
     (''rserver'', P_RemoteServer, 0, ''A server for remote execution.''),
     (''rcli'', P_RemoteClient, 1, ''Remote client: rcli <cmd> [<args...>].''),
     (''echo'', P_Echo, 0, ''echo [<args...>], send the <args...> to stdout'')]"

definition command_name :: "nat \<Rightarrow> string" where "command_name c = fst (COMMANDS ! c)"
definition command_prog :: "nat \<Rightarrow> program" where "command_prog c = fst (snd (COMMANDS ! c))"

text \<open>\<open>programs\<close> counts the final entry, whose name is the null pointer, as well.\<close>

definition programs :: nat where "programs = length COMMANDS + 1"

text \<open>The first command of that name.\<close>

fun find_name :: "string \<Rightarrow> nat \<Rightarrow> (string \<times> 'a) list \<Rightarrow> nat option" where
  "find_name name c [] = None"
| "find_name name c (e # es) = (if fst e = name then Some c else find_name name (c + 1) es)"

definition getprog_byname :: "string \<Rightarrow> int" where
  "getprog_byname name = (case find_name name 0 COMMANDS of None \<Rightarrow> -1 | Some c \<Rightarrow> int c)"

definition getprog :: "nat \<Rightarrow> string list \<Rightarrow> int" where
  "getprog n argv = getprog_byname (argv ! n)"

fun list_lines :: "nat \<Rightarrow> (string \<times> program \<times> nat \<times> string) list \<Rightarrow> string" where
  "list_lines c [] = []"
| "list_lines c ((name, prog, nargs, help) # es) =
     pad_left 3 (digits c) @ ''  '' @ pad_right 20 name @ '' '' @ pad_left 2 (digits nargs) @ ''   '' @ help @ [newline] @
     list_lines (c + 1) es"

definition ListPrograms :: "int prog" where
  "ListPrograms =
     seq (call (Print (''no.  '' @ pad_right 15 ''Command'' @ '' no.of.args   help '' @ [newline])))
    (seq (call (Print (''---------------------------------------------------'' @ [newline])))
    (seq (call (Print (list_lines 0 COMMANDS))) (Done 0)))"

section \<open>Programs that start programs\<close>

text \<open>
  \<open>checkargs\<close> in a program with calls.
\<close>

definition check_args :: "nat \<Rightarrow> string list \<Rightarrow> int prog \<Rightarrow> int prog" where
  "check_args argno argv body =
     (if length argv \<le> argno
      then seq (call (Print (''Insufficient arguments. '' @ decimal (int argno) @ '' expected, '' @
                       decimal (int (length argv) - 1) @ '' given.'' @ [newline]))) (Done (-1))
      else body)"

text \<open>
  The loop of \<open>Repeat\<close>.  Its counter is an \<open>int\<close> that is tested against zero and then decremented,
  so a negative one runs down through the negative numbers and wraps around.
\<close>

fun repeat_loop :: "nat \<Rightarrow> program \<Rightarrow> string list \<Rightarrow> unit prog" where
  "repeat_loop 0 prog av = Done ()"
| "repeat_loop (Suc n) prog av =
     seq (call (Execute prog av)) (seq (call (WaitChild (-1))) (repeat_loop n prog av))"

definition Repeat :: "string list \<Rightarrow> int prog" where
  "Repeat argv = check_args 2 argv
     (let n = getint 1 argv; prog = getprog 2 argv; av = drop 2 argv
      in if prog < 0
         then seq (call (Print (''Program not found. See '' @ [CHR 0x27] @ ''ls'' @ [CHR 0x27] @ '' for program names.'' @ [newline])))
                (Done prog)
         else seq (if n < 0
                   then seq (call (Print (''Cannot execute a negative number of times!'' @ [newline]))) (Done ())
                   else Done ())
             (seq (repeat_loop (unat (word_of_int n :: cint)) (command_prog (nat prog)) av) (Done 0)))"

definition RunTerm :: "string list \<Rightarrow> int prog" where
  "RunTerm argv = check_args 2 argv
     (let term = getint 1 argv; prog = getprog 2 argv
      in bind (if term < 0 then Done True else Call GetTerminalDevices (\<lambda>r. Done (term \<ge> ret r))) (\<lambda>invalid.
         if invalid
         then seq (call (Print (''The terminal provided is not valid: '' @ decimal term @ [newline]))) (Done 1)
         else if prog < 0
         then seq (call (Print (''The program provided is not valid: '' @ argv ! 2 @ [newline]))) (Done 2)
         else bind (call (OpenTerminal term)) (\<lambda>termfid.
              seq (if termfid \<noteq> 0 then seq (call (Dup2 termfid 0)) (call (Close termfid)) else Done 0)
             (seq (call (Dup2 0 1))
                  (call (Execute (command_prog (nat prog)) (drop 2 argv)))))))"

section \<open>Pipelines\<close>

text \<open>
  The loop that splits a command line at its bars.  \<open>Vargc\<close> has as many elements as there are words;
  the result of the loop is the list of fragments.  It starts with one empty fragment: the store
  \<open>Vargc[0] = 0\<close> before it is the first thing that \<open>process_line\<close> does.
\<close>

fun split_line :: "nat \<Rightarrow> string list \<Rightarrow> string list list \<Rightarrow> string list list result" where
  "split_line argc [] frags = Inr frags"
| "split_line argc (a # argv) frags =
     (if a \<noteq> ''|''
      then split_line argc argv (butlast frags @ [last frags @ [a]])
      else if length frags < argc then split_line argc argv (frags @ [[]]) else Inl BadIndex)"

text \<open>
  The check of the fragments, in order; the commands they name, or what is printed.
\<close>

fun check_frags :: "string list list \<Rightarrow> string + nat list" where
  "check_frags [] = Inr []"
| "check_frags (f # fs) =
     (case f of
        [] \<Rightarrow> Inl (''Error: a pipeline fragment was empty.'' @ [newline])
      | name # args \<Rightarrow>
          (case find_name name 0 COMMANDS of
             None \<Rightarrow> Inl (''Command not found: '' @ [CHR 0x27] @ name @ [CHR 0x27] @ [newline])
           | Some c \<Rightarrow> (case check_frags fs of Inl e \<Rightarrow> Inl e | Inr cs \<Rightarrow> Inr (c # cs))))"

definition savefid :: "int \<Rightarrow> int prog" where
  "savefid fsaved =
     bind (call OpenNull) (\<lambda>savior.
       if savior = -1 then Abort AssertFail else seq (call (Dup2 fsaved savior)) (Done savior))"

text \<open>
  One turn of the loop that makes the pipeline; \<open>final\<close> says that the fragment is the last one.
\<close>

definition make_stage :: "int \<Rightarrow> int \<Rightarrow> bool \<Rightarrow> program \<Rightarrow> string list \<Rightarrow> int prog" where
  "make_stage savein saveout final prog argv =
     bind (if \<not> final
           then Call Pipe (\<lambda>r. seq (call (Dup2 (pipe_write r) 1)) (seq (call (Close (pipe_write r))) (Done (pipe_read r))))
           else seq (call (Dup2 saveout 1)) (seq (call (Close saveout)) (Done 0))) (\<lambda>rd.
     bind (call (Execute prog argv)) (\<lambda>child.
     seq (if \<not> final
          then seq (call (Dup2 rd 0)) (call (Close rd))
          else seq (call (Dup2 savein 0)) (call (Close savein)))
         (Done child)))"

fun make_pipeline :: "int \<Rightarrow> int \<Rightarrow> (program \<times> string list) list \<Rightarrow> int list prog" where
  "make_pipeline savein saveout [] = Done []"
| "make_pipeline savein saveout (f # fs) =
     bind (make_stage savein saveout (fs = []) (fst f) (snd f)) (\<lambda>child.
     bind (make_pipeline savein saveout fs) (\<lambda>children. Done (child # children)))"

text \<open>The children are waited for in the order of the pipeline; a status other than 0 is printed.\<close>

fun wait_children :: "(int \<times> string) list \<Rightarrow> unit prog" where
  "wait_children [] = Done ()"
| "wait_children ((child, name) # cs) =
     Call (WaitChild child) (\<lambda>r.
       seq (if status r \<noteq> 0
            then call (Print (name @ '' exited with status '' @ decimal (status r) @ [newline])) else Done 0)
           (wait_children cs))"

text \<open>A line without words has no element \<open>Vargc[0]\<close>; \<open>Shell\<close> passes no such line on.\<close>

definition process_line :: "string list \<Rightarrow> int prog" where
  "process_line argv =
     (case if argv = [] then Inl BadIndex else split_line (length argv) argv [[]] of
        Inl e \<Rightarrow> Abort e
      | Inr frags \<Rightarrow>
          (case check_frags frags of
             Inl message \<Rightarrow> seq (call (Print message)) (Done 0)
           | Inr comd \<Rightarrow>
               bind (savefid 0) (\<lambda>savein.
               bind (savefid 1) (\<lambda>saveout.
               bind (make_pipeline savein saveout (zip (map command_prog comd) frags)) (\<lambda>child.
               seq (wait_children (zip child (map hd frags))) (Done 1))))))"

section \<open>The shell\<close>

definition process_builtin :: "string list \<Rightarrow> int prog" where
  "process_builtin argv =
     (if hd argv = ''?''
      then seq (call (Print (''Type '' @ [CHR 0x27] @ ''help'' @ [CHR 0x27] @ '' for help, '' @ [CHR 0x27] @ ''exit'' @
                [CHR 0x27] @ '' to quit.'' @ [newline]))) (Done 1)
      else Done 0)"

text \<open>The words of a line as \<open>strtok_r\<close> finds them, at most \<open>n\<close> of them.\<close>

definition is_delim :: "char \<Rightarrow> bool" where
  "is_delim c = (c = CHR '' '' \<or> c = newline \<or> c = CHR 0x09)"

fun tokens :: "nat \<Rightarrow> string \<Rightarrow> string list" where
  "tokens 0 line = []"
| "tokens (Suc n) line =
     (case dropWhile is_delim line of
        [] \<Rightarrow> []
      | c # cs \<Rightarrow> takeWhile (\<lambda>x. \<not> is_delim x) (c # cs) # tokens n (dropWhile (\<lambda>x. \<not> is_delim x) cs))"

definition ARGN :: nat where "ARGN = 128"

text \<open>
  The loop over the command lines; the list is what \<open>getline\<close> returns until the end of the input.
  \<open>fout\<close> is the shell's own stream on its standard output.
\<close>

fun shell_loop :: "(string \<Rightarrow> unit prog) \<Rightarrow> int \<Rightarrow> string list \<Rightarrow> int prog" where
  "shell_loop fout exitval [] = seq (fout ''% '') (seq (fout (''Exiting'' @ [newline])) (Done exitval))"
| "shell_loop fout exitval (cmdline # lines) =
     seq (fout ''% '')
       (let argv = tokens (ARGN - 1) cmdline
        in if argv = [] then shell_loop fout exitval lines
           else if hd argv = ''exit''
           then Done (if length argv \<ge> 2 then atoi (argv ! 1) else exitval)
           else bind (process_builtin argv) (\<lambda>b.
                if b \<noteq> 0 then shell_loop fout exitval lines
                else seq (process_line argv) (shell_loop fout exitval lines)))"

definition to_stdout :: "string \<Rightarrow> unit prog" where
  "to_stdout s = seq (call (Write 1 (map of_char s))) (Done ())"

definition Shell :: "string list \<Rightarrow> string list \<Rightarrow> int prog" where
  "Shell argv lines =
     seq (to_stdout (''Starting tinyos shell'' @ [newline] @ ''Type '' @ [CHR 0x27] @ ''help'' @ [CHR 0x27] @ '' for help, '' @
            [CHR 0x27] @ ''exit'' @ [CHR 0x27] @ '' to quit.'' @ [newline]))
       (shell_loop to_stdout 0 lines)"

section \<open>The first process\<close>

definition open_std :: "int \<Rightarrow> int \<Rightarrow> int prog" where
  "open_std i std =
     bind (call (OpenTerminal i)) (\<lambda>f.
       if f \<noteq> std then seq (call (Dup2 f std)) (call (Close f)) else Done 0)"

fun start_shells :: "program \<Rightarrow> int list \<Rightarrow> unit prog" where
  "start_shells sh [] = Done ()"
| "start_shells sh (i # is) =
     seq (open_std i 0) (seq (open_std i 1) (seq (call (Execute sh [''sh''])) (seq (call (Close 0)) (start_shells sh is))))"

fun start_console_shells :: "program \<Rightarrow> nat \<Rightarrow> unit prog" where
  "start_console_shells sh 0 = Done ()"
| "start_console_shells sh (Suc n) =
     seq (call (Close 0)) (seq (call (Close 1)) (seq (call PseudoConsole) (seq (call (Execute sh [''sh'']))
       (start_console_shells sh n))))"

text \<open>\<open>fuel\<close> bounds the number of children that are waited for.\<close>

fun wait_all :: "nat \<Rightarrow> unit prog" where
  "wait_all 0 = Abort Diverges"
| "wait_all (Suc fuel) = Call (WaitChild (-1)) (\<lambda>r. if ret r \<noteq> -1 then wait_all fuel else Done ())"

definition boot_shell :: "nat \<Rightarrow> int prog" where
  "boot_shell fuel =
     bind (call GetTerminalDevices) (\<lambda>n.
     bind (if n > 0 then call GetTerminalDevices else Done 1) (\<lambda>nshells.
     bind (call GetTerminalDevices) (\<lambda>terminals.
     let sh = command_prog (nat (getprog_byname ''sh''))
     in seq (call ReplaceStdio)
       (seq (if terminals \<noteq> 0
             then start_shells sh [0..nshells - 1]
             else start_console_shells sh (nat nshells))
       (seq (wait_all fuel) (seq (call RestoreStdio) (Done 0)))))))"

section \<open>Messages over a stream\<close>

text \<open>
  \<open>recv_message\<close> reads until \<open>len\<close> bytes have come; its result says whether they have.  Each
  round reads at least one byte, so \<open>len\<close> rounds are enough.
\<close>

fun recv_loop :: "nat \<Rightarrow> int \<Rightarrow> 8 word list \<Rightarrow> nat \<Rightarrow> (8 word list) prog" where
  "recv_loop 0 sock buf len = Done buf"
| "recv_loop (Suc fuel) sock buf len =
     (if length buf < len
      then Call (Read sock (of_nat (len - length buf))) (\<lambda>r.
             if ret r < 1 then Done buf else recv_loop fuel sock (buf @ take (nat (ret r)) (bytes r)) len)
      else Done buf)"

definition recv_message :: "int \<Rightarrow> nat \<Rightarrow> (bool \<times> 8 word list) prog" where
  "recv_message sock len = bind (recv_loop len sock [] len) (\<lambda>buf. Done (length buf = len, buf))"

fun send_loop :: "nat \<Rightarrow> int \<Rightarrow> 8 word list \<Rightarrow> nat \<Rightarrow> nat prog" where
  "send_loop 0 sock buf count = Done count"
| "send_loop (Suc fuel) sock buf count =
     (if count < length buf
      then Call (Write sock (drop count buf)) (\<lambda>r.
             if ret r < 1 then Done count else send_loop fuel sock buf (count + nat (ret r)))
      else Done count)"

text \<open>\<open>send_message\<close> exits the program with status 1 on failure; the result says so.\<close>

definition send_message :: "int \<Rightarrow> 8 word list \<Rightarrow> int option prog" where
  "send_message sock buf =
     bind (send_loop (length buf) sock buf 0) (\<lambda>count.
       if count \<noteq> length buf
       then seq (call (Print (''In client: I/O error writing '' @ digits (length buf) @ '' bytes ('' @ digits count @
              '' written)'' @ [newline]))) (Done (Some 1))
       else Done None)"

end
