(* ===== verification/Shell_Props.thy ===== *)
theory Shell_Props
  imports Shell
begin

text \<open>
  Properties of the shell: how a command line is split at its bars; and of some of the programs:
  the towers of Hanoi, the word count, and the wait for all children.
\<close>

section \<open>Splitting a line\<close>

fun join_line :: "string list list \<Rightarrow> string list" where
  "join_line [] = []"
| "join_line [f] = f"
| "join_line (f # fs) = f @ ''|'' # join_line fs"

lemma join_snoc: "frags \<noteq> [] \<Longrightarrow> join_line (frags @ [[]]) = join_line frags @ [''|'']"
  by (induction frags rule: join_line.induct) auto

lemma join_add: "frags \<noteq> [] \<Longrightarrow> join_line (butlast frags @ [last frags @ [a]]) = join_line frags @ [a]"
proof (induction frags rule: join_line.induct)
  case (3 f g fs)
  then have "join_line (butlast (g # fs) @ [last (g # fs) @ [a]]) = join_line (g # fs) @ [a]" by simp
  moreover obtain x xs where "butlast (g # fs) @ [last (g # fs) @ [a]] = x # xs" by (cases "butlast (g # fs)") auto
  ultimately show ?case by simp
qed auto

lemma split_line_Inr:
  "split_line n argv frags = Inr r \<Longrightarrow> frags \<noteq> [] \<Longrightarrow> (\<forall>f \<in> set frags. ''|'' \<notin> set f) \<Longrightarrow>
   join_line r = join_line frags @ argv \<and> (\<forall>f \<in> set r. ''|'' \<notin> set f)"
proof (induction n argv frags rule: split_line.induct)
  case (1 n frags)
  then show ?case by simp
next
  case (2 n a argv frags)
  show ?case
  proof (cases "a = ''|''")
    case True
    then show ?thesis using 2 by (auto simp: join_snoc split: if_splits)
  next
    case False
    have "\<forall>f \<in> set (butlast frags @ [last frags @ [a]]). ''|'' \<notin> set f"
      using 2(4,5) False by (auto dest: in_set_butlastD)
    then show ?thesis using 2 False by (simp add: join_add)
  qed
qed

lemma split_line_Inl:
  "frags \<noteq> [] \<Longrightarrow> length frags \<le> n \<Longrightarrow> split_line n argv frags = Inl e \<longleftrightarrow>
     e = BadIndex \<and> length frags + length (filter (\<lambda>a. a = ''|'') argv) > n"
proof (induction n argv frags rule: split_line.induct)
  case (2 n a argv frags)
  show ?case
  proof (cases "a = ''|''")
    case True
    then show ?thesis using 2 by (cases "length frags < n") auto
  next
    case False
    have "length (butlast frags @ [last frags @ [a]]) = length frags" using 2(3) by (cases frags) auto
    then show ?thesis using 2 False by auto
  qed
qed simp

text \<open>
  C29: \<open>process_line\<close> splits a command line at its bars: the fragments hold no bar, and joined with
  bars they are the line.  A line of nothing but bars makes it write past the end of \<open>Vargc\<close>,
  and no other line does.
\<close>

theorem split_line_at_bars:
  assumes "argv \<noteq> []"
  shows "if set argv = {''|''} then split_line (length argv) argv [[]] = Inl BadIndex
    else \<exists>frags. split_line (length argv) argv [[]] = Inr frags \<and> join_line frags = argv \<and>
      (\<forall>f \<in> set frags. ''|'' \<notin> set f)"
proof (cases "set argv = {''|''}")
  case True
  then have "filter (\<lambda>a. a = ''|'') argv = argv" by (auto simp: filter_id_conv)
  then show ?thesis using True assms split_line_Inl [of "[[]]" "length argv" argv BadIndex] by (simp add: Suc_le_eq)
next
  case False
  then obtain a where "a \<in> set argv" "a \<noteq> ''|''" using assms by (metis insert_absorb list.set_sel(1) singletonI subset_singletonD subsetI)
  then have "length (filter (\<lambda>a. a = ''|'') argv) < length argv" by (meson length_filter_less)
  then have "split_line (length argv) argv [[]] \<noteq> Inl e" for e
    using split_line_Inl [of "[[]]" "length argv" argv e] assms by (simp add: Suc_le_eq)
  then obtain frags where "split_line (length argv) argv [[]] = Inr frags"
    by (cases "split_line (length argv) argv [[]]") auto
  moreover from split_line_Inr [OF this] have "join_line frags = argv" "\<forall>f \<in> set frags. ''|'' \<notin> set f" by auto
  ultimately show ?thesis using False by auto
qed

theorem split_line_at_bars_witness:
  "split_line 2 [''|'', ''|''] [[]] = Inl BadIndex \<and> (\<exists>e. run_prog undefined (process_line [''|'']) () = Inl e)"
proof -
  have "[''|'', ''|''] \<noteq> []" "set [''|'', ''|''] = {''|''}" "length [''|'', ''|''] = 2" by simp_all
  then have "split_line 2 [''|'', ''|''] [[]] = Inl BadIndex" using split_line_at_bars by metis
  moreover have "process_line [''|''] = Abort BadIndex" by (simp add: process_line_def)
  ultimately show ?thesis by simp
qed

section \<open>Towers of Hanoi\<close>

text \<open>
  The tiles with their stacks of disks, the top one first, and a move; a move is legal if there is a
  disk to move and the tile it goes to is empty or has a larger disk on top.
\<close>

definition move_disk :: "nat \<times> nat \<Rightarrow> (nat \<Rightarrow> nat list) \<Rightarrow> (nat \<Rightarrow> nat list) option" where
  "move_disk m t = (case t (fst m) of
     [] \<Rightarrow> None
   | d # ds \<Rightarrow> if t (snd m) = [] \<or> d < hd (t (snd m)) then Some (t(fst m := ds, snd m := d # t (snd m))) else None)"

fun move_disks :: "(nat \<times> nat) list \<Rightarrow> (nat \<Rightarrow> nat list) \<Rightarrow> (nat \<Rightarrow> nat list) option" where
  "move_disks [] t = Some t"
| "move_disks (m # ms) t = (case move_disk m t of None \<Rightarrow> None | Some t1 \<Rightarrow> move_disks ms t1)"

lemma move_disks_append: "move_disks (ms @ ns) t = (case move_disks ms t of None \<Rightarrow> None | Some t1 \<Rightarrow> move_disks ns t1)"
  by (induction ms arbitrary: t) (auto split: option.splits)

lemma hanoi_ok:
  "a \<noteq> b \<Longrightarrow> a \<noteq> c \<Longrightarrow> b \<noteq> c \<Longrightarrow> t a = [0..<n] @ A \<Longrightarrow> (\<forall>x \<in> set A \<union> set (t b) \<union> set (t c). n \<le> x) \<Longrightarrow>
   move_disks (hanoi_moves n a b c) t = Some (t(a := A, b := [0..<n] @ t b))"
proof (induction n a b c arbitrary: t A rule: hanoi_moves.induct)
  case (1 a b c)
  then show ?case by auto
next
  case (2 n a b c)
  let ?t1 = "t(a := n # A, c := [0..<n] @ t c)"
  let ?t2 = "t(a := A, b := n # t b, c := [0..<n] @ t c)"
  have lt: "\<forall>x \<in> set A \<union> set (t b) \<union> set (t c). n < x" using 2(7) by (simp add: Suc_le_eq)
  then have le: "\<forall>x \<in> set A \<union> set (t b) \<union> set (t c). n \<le> x" by (blast intro: less_imp_le)
  have 1: "move_disks (hanoi_moves n a c b) t = Some ?t1"
    by (rule 2(1)) (use 2(3-6) le in auto)
  have "t b = [] \<or> n < hd (t b)" using lt by (cases "t b") auto
  then have mv: "move_disk (a, b) ?t1 = Some ?t2" using 2(3-5) by (auto simp: move_disk_def fun_eq_iff)
  have "move_disks (hanoi_moves n c b a) ?t2 = Some (?t2(c := t c, b := [0..<n] @ ?t2 b))"
    by (rule 2(2)) (use 2(3-6) le in auto)
  moreover have "?t2(c := t c, b := [0..<n] @ ?t2 b) = t(a := A, b := [0..<Suc n] @ t b)"
    using 2(3-5) by (auto simp: fun_eq_iff)
  ultimately show ?case using 1 mv
    by (simp add: move_disks_append del: fun_upd_apply)
qed

lemma hanoi_length: "length (hanoi_moves n a b c) + 1 = 2 ^ n"
  by (induction n a b c rule: hanoi_moves.induct) auto

section \<open>Counting words\<close>

text \<open>A word starts at a character that is not blank, at the start of the text or after a blank or a newline.\<close>

fun word_starts :: "bool \<Rightarrow> string \<Rightarrow> nat" where
  "word_starts b [] = 0"
| "word_starts b (c # cs) = (if b \<and> \<not> isblank c then 1 else 0) + word_starts (isblank c \<or> c = newline) cs"

lemma WordCount_loop_eq:
  "(\<forall>c \<in> set s. \<not> is_EOF c) \<Longrightarrow> WordCount_loop b (k, w, l) s =
     (k + length s, w + word_starts b s, l + length (filter (\<lambda>c. c = newline) s))"
proof (induction s arbitrary: b k w l)
  case Nil
  then show ?case by simp
next
  case (Cons c s)
  have n: "\<not> isblank newline" by (simp add: isblank_def newline_def)
  have "(if isblank c then True else if c = newline then True else if b \<and> \<not> isblank c then False else b) =
      (isblank c \<or> c = newline)" by auto
  then show ?case using Cons n by (simp add: Let_def)
qed

text \<open>
  On a text without the character 255, which the program takes for the end of the file,
  \<open>wc\<close> counts the characters and the newlines of its input, and a word at each character that is
  not blank and follows a blank, a newline or nothing; a newline that follows another one counts
  as a word, so an empty line has one.
\<close>

theorem WordCount_counts:
  assumes "\<forall>c \<in> set fin. \<not> is_EOF c"
  shows "WordCount_loop True (0, 0, 0) fin =
      (length fin, word_starts True fin, length (filter (\<lambda>c. c = newline) fin)) \<and>
    word_starts True (fin @ [newline, newline]) = word_starts True (fin @ [newline]) + 1"
proof -
  have "word_starts b (fin @ [newline, newline]) = word_starts b (fin @ [newline]) + 1" for b
    by (induction fin arbitrary: b) (simp_all add: isblank_def newline_def)
  then show ?thesis using WordCount_loop_eq [OF assms, of True 0 0 0] by simp
qed

theorem WordCount_counts_witness:
  "WordCount_loop True (0, 0, 0) [newline] = (1, 1, 1) \<and> fst (WordCount [] [newline]) = ''       1        1        1'' @ [newline]"
proof -
  have "\<forall>c \<in> set [newline]. \<not> is_EOF c" by (simp add: newline_def is_EOF_def)
  from WordCount_counts [OF this] have "WordCount_loop True (0, 0, 0) [newline] = (1, 1, 1)"
    by (simp add: isblank_def newline_def)
  moreover have "digits 1 = ''1''" by code_simp
  moreover have "pad_left 8 ''1'' = ''       1''" by code_simp
  ultimately show ?thesis by (simp add: WordCount_def)
qed

section \<open>Waiting for all children\<close>

text \<open>
  On a system on which \<open>WaitChild(NOPROC)\<close> takes one of the caller's children as long as there is
  one, and fails when there is none, waiting for all children ends with any fuel above their number.
\<close>

lemma wait_all_ends:
  assumes "\<And>s. children s = 0 \<Longrightarrow> ret (fst (sys (WaitChild (-1)) s)) = -1"
    and "\<And>s n. children s = Suc n \<Longrightarrow>
      ret (fst (sys (WaitChild (-1)) s)) \<noteq> -1 \<and> children (snd (sys (WaitChild (-1)) s)) = n"
  shows "children s < fuel \<Longrightarrow> \<exists>s'. run_prog sys (wait_all fuel) s = Inr ((), s')"
proof (induction fuel arbitrary: s)
  case (Suc fuel)
  show ?case
  proof (cases "children s")
    case 0
    then show ?thesis using assms(1) by (simp add: Let_def prod.case_eq_if)
  next
    case (Suc n)
    then have "children (snd (sys (WaitChild (-1)) s)) < fuel" using assms(2) Suc.prems by simp
    then show ?thesis using Suc.IH assms(2) [OF Suc] by (simp add: Let_def prod.case_eq_if)
  qed
qed simp

end
