(* ===== verification/Drivers.thy ===== *)
theory Drivers
  imports Bios_Pic Cond
begin

text \<open>
  What runs on a core beside the threads: the interrupt handlers, the halting of a core, the
  loop of the idle thread and the end of the scheduler (src/kernel_sched.c, src/bios.c), and the
  driver of a serial device against the machine, with the wait of a reader
  (src/kernel_dev.c).
\<close>

section \<open>Interrupt handlers\<close>

text \<open>The handler of \<open>ALARM\<close>, up to the switch to the thread that \<open>yield\<close> selects.\<close>

definition yield_handler_body :: "nat \<Rightarrow> kernel \<Rightarrow> kernel result" where
  "yield_handler_body c s = yield_switch c SCHED_QUANTUM s"

definition ici_handler_body :: "nat \<Rightarrow> kernel \<Rightarrow> kernel result" where
  "ici_handler_body c s = Inr s"

definition serial_tx_handler_body :: "nat \<Rightarrow> kernel \<Rightarrow> kernel result" where
  "serial_tx_handler_body c s = Inr s"

fun run_handler :: "nat \<Rightarrow> handler \<Rightarrow> kernel \<Rightarrow> kernel result" where
  "run_handler c yield_handler s = yield_handler_body c s"
| "run_handler c ici_handler s = ici_handler_body c s"
| "run_handler c serial_rx_handler s = serial_rx_handler_body c s"
| "run_handler c serial_tx_handler s = serial_tx_handler_body c s"

definition cpu_cores :: "kernel \<Rightarrow> nat" where
  "cpu_cores s = ncores s"

definition cpu_ici :: "nat \<Rightarrow> kernel \<Rightarrow> kernel result" where
  "cpu_ici core s = (if core < ncores s then Inr (raise_interrupt core ICI s) else Inl AssertFail)"

text \<open>
  \<open>cpu_core_halt\<close> of src/bios.c up to the wait of the core's thread is in theory \<open>Bios\<close>; this is
  what follows when another core has restarted it.
\<close>

definition cpu_core_halt_end :: "nat \<Rightarrow> kernel \<Rightarrow> kernel result" where
  "cpu_core_halt_end c s =
     (if halted (cores s c) then Inl AssertFail else dispatch_interrupts (run_handler c) c s)"

section \<open>The idle thread and the end of the scheduler\<close>

text \<open>
  One evaluation of the loop condition of \<open>idle_thread\<close> and what follows: the core halts (and
  yields when it is restarted), or the idle thread leaves the loop and restarts all cores.
\<close>

definition idle_loop :: "nat \<Rightarrow> kernel \<Rightarrow> (bool \<times> kernel) result" where
  "idle_loop c s =
     (if active_threads s > 0
      then rbind (cpu_core_halt c s) (\<lambda>s1. Inr (True, s1))
      else Inr (False, cpu_core_restart_all (snd (bios_cancel_timer c s))))"

text \<open>What \<open>run_scheduler\<close> does on a core after the idle thread has returned.\<close>

definition run_scheduler_end :: "nat \<Rightarrow> kernel \<Rightarrow> kernel result" where
  "run_scheduler_end c s =
     (if CURTHREAD c s \<noteq> IdleT c then Inl AssertFail
      else Inr (cpu_interrupt_handler c ICI None (cpu_interrupt_handler c ALARM None s)))"

section \<open>The serial driver\<close>

text \<open>
  One iteration of \<open>serial_read\<close> on core \<open>c\<close> for the device \<open>dno\<close>: a byte is stored, the call
  returns, or the reader waits in \<open>kernel_wait\<close> on the device's condition variable.  Preemption is
  off between the iterations.  \<open>answers\<close> is what the host answers to the read of the descriptor.
\<close>

datatype driver_call = Reading "8 word list" | Waiting | Returned "8 word list"

definition serial_read_step ::
  "nat \<Rightarrow> nat \<Rightarrow> nat \<Rightarrow> host_answer list \<Rightarrow> 8 word list \<Rightarrow> machine \<Rightarrow> (driver_call \<times> machine) result" where
  "serial_read_step c dno sz answers got m =
     (if length got < sz
      then rbind (bios_read_serial dno answers m) (\<lambda>(valid, m1).
        case valid of
          Some b \<Rightarrow> Inr (Reading (got @ [b]), m1)
        | None \<Rightarrow>
            if got = []
            then rbind (kernel_wait_begin c (RxReady dno) NO_TIMEOUT (kern m1)) (\<lambda>(p, s).
                 Inr (Waiting, m1\<lparr>kern := s\<rparr>))
            else Inr (Returned got, m1))
      else Inr (Returned got, m))"

text \<open>
  The whole call.  Every entry of the list is one iteration: what the rest of the machine does
  before it, among this the end of the reader's wait, and the answers of the host.  The reader
  goes on, on the core it is on then, with what it has read so far; the result is \<open>None\<close> if it is
  still in the call at the end of the list.
\<close>

fun serial_read_run ::
  "nat \<Rightarrow> nat \<Rightarrow> ((machine \<Rightarrow> machine) \<times> nat \<times> host_answer list) list \<Rightarrow> 8 word list \<Rightarrow> machine \<Rightarrow>
   (8 word list \<times> machine) option result" where
  "serial_read_run dno sz [] got m = Inr None"
| "serial_read_run dno sz ((act, c, answers) # run) got m =
     rbind (serial_read_step c dno sz answers got (act m)) (\<lambda>(r, m1).
       case r of
         Reading got1 \<Rightarrow> serial_read_run dno sz run got1 m1
       | Waiting \<Rightarrow> serial_read_run dno sz run got m1
       | Returned bs \<Rightarrow> Inr (Some (bs, m1)))"

text \<open>
  One iteration of \<open>serial_write\<close>: the bytes written so far, and whether the call ends with them.
  When no byte could be written yet the writer yields and tries again.
\<close>

definition serial_write_step ::
  "nat \<Rightarrow> 8 word list \<Rightarrow> nat \<Rightarrow> host_answer list \<Rightarrow> 8 word list \<Rightarrow> machine \<Rightarrow>
   ((bool \<times> 8 word list) \<times> machine) result" where
  "serial_write_step dno buf sz answers out m =
     (if length out < sz
      then rbind (bios_write_serial dno answers m) (\<lambda>(success, m1).
        Inr (if success then (False, out @ [buf ! length out]) else (out \<noteq> [], out), m1))
      else Inr ((True, out), m))"

fun serial_write_run ::
  "nat \<Rightarrow> 8 word list \<Rightarrow> nat \<Rightarrow> ((machine \<Rightarrow> machine) \<times> host_answer list) list \<Rightarrow> 8 word list \<Rightarrow>
   machine \<Rightarrow> (8 word list \<times> machine) option result" where
  "serial_write_run dno buf sz [] out m = Inr None"
| "serial_write_run dno buf sz ((act, answers) # run) out m =
     rbind (serial_write_step dno buf sz answers out (act m)) (\<lambda>((finished, out1), m1).
       if finished then Inr (Some (out1, m1)) else serial_write_run dno buf sz run out1 m1)"

end
