(* ===== verification/Drivers_Props.thy ===== *)
theory Drivers_Props
  imports Drivers Dev Bios_Pic_Props Cond_Props
begin

text \<open>
  Properties of the interrupt handlers, the serial driver and the end of the scheduler: the calls
  of the driver read and write what the device gives and takes, a reader that sleeps is woken by
  the interrupt of its terminal, and the cores leave the scheduler when no thread is left.
\<close>

section \<open>The calls of the serial driver\<close>

text \<open>What the driver makes of the answers of the host: a byte, or no byte.\<close>

definition answer_byte :: "host_answer list \<Rightarrow> 8 word option" where
  "answer_byte answers =
     (case retry answers of Some (Rc n b) \<Rightarrow> if n = 1 then Some b else None | _ \<Rightarrow> None)"

lemma read_answer: "bios_read_serial dno answers m = Inr (v, m') \<Longrightarrow> v = answer_byte answers"
  by (auto simp: bios_read_serial_def io_device_read_def answer_byte_def split: if_splits option.splits host_answer.splits)

lemma write_answer: "bios_write_serial dno answers m = Inr (v, m') \<Longrightarrow> v = (answer_byte answers \<noteq> None)"
  by (auto simp: bios_write_serial_def io_device_write_def answer_byte_def split: if_splits option.splits host_answer.splits)

declare serial_read_loop.simps [simp del] serial_write_loop.simps [simp del]

lemma read_loop_steps:
  "sz \<le> length got \<Longrightarrow> serial_read_loop r sz got = Some (got, r)"
  "length got < sz \<Longrightarrow> serial_read_loop (a # r) sz got =
     (case a of Some b \<Rightarrow> serial_read_loop r sz (got @ [b])
      | None \<Rightarrow> if got = [] then serial_read_loop r sz got else Some (got, r))"
  by (subst serial_read_loop.simps, simp split: option.split)+

lemma write_loop_steps:
  "sz \<le> n \<Longrightarrow> serial_write_loop r sz n = Some (n, r)"
  "n < sz \<Longrightarrow> serial_write_loop (a # r) sz n =
     (if a then serial_write_loop r sz (n + 1) else if n = 0 then serial_write_loop r sz n else Some (n, r))"
  by (subst serial_write_loop.simps, simp)+

lemma read_run_loop:
  "serial_read_run dno sz run got m = Inr (Some (bs, m')) \<Longrightarrow>
   \<exists>rest. serial_read_loop (map (answer_byte \<circ> snd \<circ> snd) run) sz got = Some (bs, rest)"
proof (induction run arbitrary: got m)
  case Nil
  then show ?case by simp
next
  case (Cons e run)
  obtain act c answers where e: "e = (act, c, answers)" by (cases e) auto
  show ?case
  proof (cases "length got < sz")
    case False
    with Cons.prems show ?thesis by (auto simp: e serial_read_step_def read_loop_steps)
  next
    case True
    obtain r m1 where st: "serial_read_step c dno sz answers got (act m) = Inr (r, m1)"
      using Cons.prems by (auto simp: e rbind_eq_Inr)
    from st True obtain v m2 where v: "bios_read_serial dno answers (act m) = Inr (v, m2)"
      by (auto simp: serial_read_step_def rbind_eq_Inr)
    note a = read_answer [OF v]
    show ?thesis
    proof (cases v)
      case (Some b)
      with v True st have "r = Reading (got @ [b])" by (simp add: serial_read_step_def)
      with Cons.prems st have "serial_read_run dno sz run (got @ [b]) m1 = Inr (Some (bs, m'))" by (simp add: e)
      from Cons.IH [OF this] a [symmetric] Some True show ?thesis by (simp add: e read_loop_steps)
    next
      case None
      show ?thesis
      proof (cases "got = []")
        case g: True
        with v True st None have "r = Waiting" by (auto simp: serial_read_step_def rbind_eq_Inr)
        with Cons.prems st have "serial_read_run dno sz run got m1 = Inr (Some (bs, m'))" by (simp add: e)
        from Cons.IH [OF this] a None True g show ?thesis by (simp add: e read_loop_steps)
      next
        case False
        with v True st None have "r = Returned got" by (simp add: serial_read_step_def)
        with Cons.prems st a None True False show ?thesis by (simp add: e read_loop_steps)
      qed
    qed
  qed
qed

lemma write_run_loop:
  "serial_write_run dno buf sz run out m = Inr (Some (bs, m')) \<Longrightarrow> sz \<le> length buf \<Longrightarrow>
   out = take (length out) buf \<Longrightarrow> length out \<le> sz \<Longrightarrow>
   \<exists>rest. serial_write_loop (map (\<lambda>e. answer_byte (snd e) \<noteq> None) run) sz (length out) = Some (length bs, rest) \<and>
     bs = take (length bs) buf"
proof (induction run arbitrary: out m)
  case Nil
  then show ?case by simp
next
  case (Cons w run)
  obtain act answers where w: "w = (act, answers)" by (cases w)
  show ?case
  proof (cases "length out < sz")
    case False
    with Cons.prems show ?thesis by (auto simp: w serial_write_step_def write_loop_steps)
  next
    case True
    obtain e out1 m1 where st: "serial_write_step dno buf sz answers out (act m) = Inr ((e, out1), m1)"
      using Cons.prems(1) by (auto simp: w rbind_eq_Inr)
    from st True obtain v m2 where v: "bios_write_serial dno answers (act m) = Inr (v, m2)"
      by (auto simp: serial_write_step_def rbind_eq_Inr)
    note a = write_answer [OF v]
    show ?thesis
    proof (cases "v \<or> out = []")
      case False
      with v True st have "e" "out1 = out" by (auto simp: serial_write_step_def)
      with Cons.prems st True a False show ?thesis by (simp add: w write_loop_steps)
    next
      case more: True
      with v True st have r: "\<not> e" "out1 = (if v then out @ [buf ! length out] else out)"
        by (auto simp: serial_write_step_def split: if_splits)
      with Cons.prems(1) st have "serial_write_run dno buf sz run out1 m1 = Inr (Some (bs, m'))" by (simp add: w)
      moreover have "out1 = take (length out1) buf" "length out1 \<le> sz"
        using r(2) Cons.prems(2,3,4) True by (auto simp: take_Suc_conv_app_nth)
      ultimately have "\<exists>rest. serial_write_loop (map (\<lambda>e. answer_byte (snd e) \<noteq> None) run) sz (length out1) =
          Some (length bs, rest) \<and> bs = take (length bs) buf"
        using Cons.IH Cons.prems(2) by blast
      then show ?thesis using a more True r(2) by (cases v) (simp_all add: w write_loop_steps)
    qed
  qed
qed

text \<open>
  What a read and a write must do, on the answers of the device in turn.  A read skips the answers
  before the first byte and returns the bytes that follow one another from there, in order, up to
  \<open>sz\<close>: all \<open>sz\<close> of them, or fewer, but not none, if the next answer is that there is no byte.  A
  write does the same with the bytes of the buffer that the device takes.
\<close>

definition reads_input :: "nat \<Rightarrow> 'a option list \<Rightarrow> 'a list \<Rightarrow> 'a option list \<Rightarrow> bool" where
  "reads_input sz input bs rest \<longleftrightarrow> (\<exists>w. if length bs = sz then input = replicate w None @ map Some bs @ rest
     else bs \<noteq> [] \<and> length bs < sz \<and> input = replicate w None @ map Some bs @ None # rest)"

definition writes_output :: "nat \<Rightarrow> 'a list \<Rightarrow> bool list \<Rightarrow> 'a list \<Rightarrow> bool list \<Rightarrow> bool" where
  "writes_output sz buf taken out rest \<longleftrightarrow> out = take (length out) buf \<and>
     (\<exists>w. if length out = sz then taken = replicate w False @ replicate (length out) True @ rest
       else out \<noteq> [] \<and> length out < sz \<and> taken = replicate w False @ replicate (length out) True @ False # rest)"

text \<open>A call that is not over has met no byte yet, or only bytes since the first.\<close>

definition reading_on :: "nat \<Rightarrow> 'a option list \<Rightarrow> bool" where
  "reading_on sz input \<longleftrightarrow> (\<exists>w bs. length bs \<le> sz \<and> input = replicate w None @ map Some bs)"

lemma read_loop_spec:
  "serial_read_loop input sz got = Some (bs, rest) \<Longrightarrow> length got \<le> sz \<Longrightarrow>
   \<exists>w new. bs = got @ new \<and> (got \<noteq> [] \<longrightarrow> w = 0) \<and> (if length bs = sz then input = replicate w None @ map Some new @ rest
     else bs \<noteq> [] \<and> length bs < sz \<and> input = replicate w None @ map Some new @ None # rest)"
proof (induction input arbitrary: got)
  case Nil
  then have "length got = sz" "bs = got" "rest = []" by (subst (asm) serial_read_loop.simps; simp split: if_splits)+
  then show ?case by (intro exI [of _ 0] exI [of _ "[]"]) simp
next
  case (Cons a input)
  show ?case
  proof (cases "length got = sz")
    case True
    with Cons.prems have "bs = got" "rest = a # input" by (simp_all add: read_loop_steps)
    with True show ?thesis by (intro exI [of _ 0] exI [of _ "[]"]) simp
  next
    case False
    with Cons.prems(2) have lt: "length got < sz" by simp
    show ?thesis
    proof (cases a)
      case (Some b)
      with Cons.prems(1) lt have "serial_read_loop input sz (got @ [b]) = Some (bs, rest)" by (simp add: read_loop_steps)
      from Cons.IH [OF this] lt obtain w new where n: "bs = (got @ [b]) @ new" "w = 0"
        "if length bs = sz then input = replicate w None @ map Some new @ rest
         else bs \<noteq> [] \<and> length bs < sz \<and> input = replicate w None @ map Some new @ None # rest" by auto
      then show ?thesis using Some by (intro exI [of _ 0] exI [of _ "b # new"]) (simp split: if_splits)
    next
      case None
      show ?thesis
      proof (cases "got = []")
        case True
        with Cons.prems(1) lt None have "serial_read_loop input sz got = Some (bs, rest)" by (simp add: read_loop_steps)
        then obtain w new where n: "bs = got @ new"
          "if length bs = sz then input = replicate w None @ map Some new @ rest
           else bs \<noteq> [] \<and> length bs < sz \<and> input = replicate w None @ map Some new @ None # rest"
          using Cons.IH lt less_imp_le by blast
        then show ?thesis using None True by (intro exI [of _ "Suc w"] exI [of _ new]) (simp split: if_splits)
      next
        case False
        with Cons.prems(1) lt None have "bs = got" "rest = input" by (simp_all add: read_loop_steps)
        then show ?thesis using None False lt by (intro exI [of _ 0] exI [of _ "[]"]) simp
      qed
    qed
  qed
qed

lemma write_loop_spec:
  "serial_write_loop taken sz n = Some (k, rest) \<Longrightarrow> n \<le> sz \<Longrightarrow>
   \<exists>w j. k = n + j \<and> (0 < n \<longrightarrow> w = 0) \<and> (if k = sz then taken = replicate w False @ replicate j True @ rest
     else 0 < k \<and> k < sz \<and> taken = replicate w False @ replicate j True @ False # rest)"
proof (induction taken arbitrary: n)
  case Nil
  then have "n = sz" "k = n" "rest = []" by (subst (asm) serial_write_loop.simps; simp split: if_splits)+
  then show ?case by (intro exI [of _ 0] exI [of _ 0]) simp
next
  case (Cons a taken)
  show ?case
  proof (cases "n = sz")
    case True
    with Cons.prems have "k = n" "rest = a # taken" by (simp_all add: write_loop_steps)
    with True show ?thesis by (intro exI [of _ 0] exI [of _ 0]) simp
  next
    case False
    with Cons.prems(2) have lt: "n < sz" by simp
    consider "a" | "\<not> a" "n = 0" | "\<not> a" "0 < n" by blast
    then show ?thesis
    proof cases
      case 1
      with Cons.prems(1) lt have "serial_write_loop taken sz (n + 1) = Some (k, rest)" by (simp add: write_loop_steps)
      from Cons.IH [OF this] lt obtain w j where n: "k = n + 1 + j" "w = 0"
        "if k = sz then taken = replicate w False @ replicate j True @ rest
         else 0 < k \<and> k < sz \<and> taken = replicate w False @ replicate j True @ False # rest" by auto
      then show ?thesis using 1 by (intro exI [of _ 0] exI [of _ "Suc j"]) (simp split: if_splits)
    next
      case 2
      with Cons.prems(1) lt have "serial_write_loop taken sz n = Some (k, rest)" by (simp add: write_loop_steps)
      from Cons.IH [OF this] lt obtain w j where n: "k = n + j"
        "if k = sz then taken = replicate w False @ replicate j True @ rest
         else 0 < k \<and> k < sz \<and> taken = replicate w False @ replicate j True @ False # rest" by auto
      then show ?thesis using 2 by (intro exI [of _ "Suc w"] exI [of _ j]) (simp split: if_splits)
    next
      case 3
      with Cons.prems(1) lt have "k = n" "rest = taken" by (simp_all add: write_loop_steps)
      then show ?thesis using 3 lt by (intro exI [of _ 0] exI [of _ 0]) simp
    qed
  qed
qed

lemma read_run_on:
  "serial_read_run dno sz run got m = Inr None \<Longrightarrow> length got \<le> sz \<Longrightarrow>
   \<exists>w new. length (got @ new) \<le> sz \<and> (got \<noteq> [] \<longrightarrow> w = 0) \<and>
     map (answer_byte \<circ> snd \<circ> snd) run = replicate w None @ map Some new"
proof (induction run arbitrary: got m)
  case Nil
  then show ?case by (intro exI [of _ 0] exI [of _ "[]"]) simp
next
  case (Cons e run)
  obtain act c answers where e: "e = (act, c, answers)" by (cases e) auto
  have lt: "length got < sz" using Cons.prems by (cases "length got < sz") (simp_all add: e serial_read_step_def)
  obtain r m1 where st: "serial_read_step c dno sz answers got (act m) = Inr (r, m1)"
    using Cons.prems(1) by (auto simp: e rbind_eq_Inr)
  from st lt obtain v m2 where v: "bios_read_serial dno answers (act m) = Inr (v, m2)"
    by (auto simp: serial_read_step_def rbind_eq_Inr)
  note a = read_answer [OF v]
  show ?case
  proof (cases v)
    case (Some b)
    with v lt st have "r = Reading (got @ [b])" by (simp add: serial_read_step_def)
    with Cons.prems(1) st have "serial_read_run dno sz run (got @ [b]) m1 = Inr None" by (simp add: e)
    from Cons.IH [OF this] lt obtain new where "length (got @ b # new) \<le> sz"
      "map (answer_byte \<circ> snd \<circ> snd) run = map Some new" by (auto simp: comp_def)
    then show ?thesis using Some a by (intro exI [of _ 0] exI [of _ "b # new"]) (simp add: e comp_def)
  next
    case None
    show ?thesis
    proof (cases "got = []")
      case True
      with v lt st None have "r = Waiting" by (auto simp: serial_read_step_def rbind_eq_Inr)
      with Cons.prems(1) st have "serial_read_run dno sz run got m1 = Inr None" by (simp add: e)
      from Cons.IH [OF this] lt obtain w new where "length (got @ new) \<le> sz"
        "map (answer_byte \<circ> snd \<circ> snd) run = replicate w None @ map Some new" by (auto simp: comp_def)
      then show ?thesis using None a True by (intro exI [of _ "Suc w"] exI [of _ new]) (simp add: e comp_def)
    next
      case False
      with v lt st None have "r = Returned got" by (simp add: serial_read_step_def)
      with Cons.prems(1) st show ?thesis by (simp add: e)
    qed
  qed
qed

text \<open>
  C20: What \<open>serial_read\<close> and \<open>serial_write\<close> do, called on the machine, with anything happening while
  the reader sleeps in \<open>kernel_wait\<close> or the writer has yielded.  A read that returns has passed over
  the attempts that found no byte, all before the first byte, and returns the bytes that the device
  gave from there, in order and without a gap: \<open>sz\<close> of them, or at least one and then an attempt
  found none.  A read that has not returned has found no byte, or has had a byte at every attempt
  since the first.  A write that returns has handed to the device the first bytes of the buffer, in
  order, each once: \<open>sz\<close> of them, or at least one and then the device took none; all attempts that
  failed otherwise came before the first.  The driver methods \<open>Read\<close> and \<open>Write\<close> meet the same
  specification, return the number of bytes (as a C \<open>int\<close>), and leave the device's further answers
  unused.
\<close>

theorem serial_calls_refine_driver:
  "(serial_read_run dno (unat sz) run [] m = Inr (Some (bs, m')) \<longrightarrow>
     (\<exists>rest. reads_input (unat sz) (map (answer_byte \<circ> snd \<circ> snd) run) bs rest)) \<and>
   (serial_read_run dno (unat sz) run [] m = Inr None \<longrightarrow>
     reading_on (unat sz) (map (answer_byte \<circ> snd \<circ> snd) run)) \<and>
   (serial_write_run dno buf (unat sz) wrun [] m = Inr (Some (out, m')) \<longrightarrow> unat sz \<le> length buf \<longrightarrow>
     (\<exists>rest. writes_output (unat sz) buf (map (\<lambda>e. answer_byte (snd e) \<noteq> None) wrun) out rest)) \<and>
   (dev_Read serial_fops d sz (dev_answers input t) = Some (rc, got, env') \<longrightarrow>
     rc = sint (of_nat (length got) :: uint) \<and> reads_input (unat sz) input got (rx env')) \<and>
   (dev_Write serial_fops d buf sz (dev_answers r taken) = Some (rc, sent, env') \<longrightarrow> unat sz \<le> length buf \<longrightarrow>
     rc = sint (of_nat (length sent) :: uint) \<and> writes_output (unat sz) buf taken sent (tx env'))"
proof (intro conjI impI)
  have rd: "reads_input (unat sz) input bs rest" if "serial_read_loop input (unat sz) [] = Some (bs, rest)" for input bs rest
    using read_loop_spec [OF that] unfolding reads_input_def by auto
  have wr: "writes_output (unat sz) buf taken out rest" if "serial_write_loop taken (unat sz) 0 = Some (length out, rest)"
    "out = take (length out) buf" for taken out rest
    using write_loop_spec [OF that(1)] that(2) unfolding writes_output_def by auto
  show "\<exists>rest. reads_input (unat sz) (map (answer_byte \<circ> snd \<circ> snd) run) bs rest"
    if "serial_read_run dno (unat sz) run [] m = Inr (Some (bs, m'))"
    using read_run_loop [OF that] rd by blast
  show "reading_on (unat sz) (map (answer_byte \<circ> snd \<circ> snd) run)"
    if "serial_read_run dno (unat sz) run [] m = Inr None"
    using read_run_on [OF that] unfolding reading_on_def by auto
  show "\<exists>rest. writes_output (unat sz) buf (map (\<lambda>e. answer_byte (snd e) \<noteq> None) wrun) out rest"
    if "serial_write_run dno buf (unat sz) wrun [] m = Inr (Some (out, m'))" "unat sz \<le> length buf"
    using write_run_loop [OF that] wr by fastforce
  show "rc = sint (of_nat (length got) :: uint)" "reads_input (unat sz) input got (rx env')"
    if "dev_Read serial_fops d sz (dev_answers input t) = Some (rc, got, env')"
    using that rd by (auto simp: serial_read_def dev_answers_def split: option.splits)
  assume w: "dev_Write serial_fops d buf sz (dev_answers r taken) = Some (rc, sent, env')" and l: "unat sz \<le> length buf"
  then obtain k where k: "serial_write_loop taken (unat sz) 0 = Some (k, tx env')" "sent = take k buf"
    "rc = sint (of_nat k :: uint)" by (auto simp: serial_write_def dev_answers_def split: option.splits)
  have "k \<le> unat sz" using write_loop_spec [OF k(1)] by (auto split: if_splits)
  then have "length sent = k" using k(2) l by simp
  then show "rc = sint (of_nat (length sent) :: uint)" "writes_output (unat sz) buf taken sent (tx env')"
    using k wr [of taken sent "tx env'"] by simp_all
qed

text \<open>
  A read of two bytes, then none; a device that takes no byte, then one, and whose host then answers
  with an error.
\<close>

theorem serial_calls_refine_driver_witness:
  "\<exists>rest rest'. reads_input 4 [Some (7 :: 8 word), Some 8, None] [7, 8] rest \<and>
     writes_output 2 [7, 8 :: 8 word] [False, True, False] [7] rest'"
proof -
  let ?run = "[(id, 0, [Rc 1 7]), (id, 0, [Err EINTR, Rc 1 8]), (id, 0, [Err EAGAIN])]"
  let ?wrun = "[(id, [Err EAGAIN]), (id, [Err EINTR, Rc 1 0]), (id, [Err EPIPE])]"
  have r: "serial_read_run 0 (unat (4 :: uint)) ?run [] one_terminal =
      Inr (Some ([7, 8], snd (the (sum.projr (serial_read_run 0 (unat (4 :: uint)) ?run [] one_terminal)))))"
    by (simp add: serial_read_step_def bios_read_serial_def io_device_read_def one_terminal_def device_failed_def interrupt_pic_thread_def)
  have w: "serial_write_run 0 [7, 8] (unat (2 :: uint)) ?wrun [] one_terminal =
      Inr (Some ([7], snd (the (sum.projr (serial_write_run 0 [7, 8] (unat (2 :: uint)) ?wrun [] one_terminal)))))"
    by (simp add: serial_write_step_def bios_write_serial_def io_device_write_def one_terminal_def device_failed_def interrupt_pic_thread_def)
  note t = serial_calls_refine_driver
  have "unat (4 :: uint) = 4" "unat (2 :: uint) = 2" by simp_all
  then show ?thesis
    using t [THEN conjunct1, rule_format, OF r]
      t [THEN conjunct2, THEN conjunct2, THEN conjunct1, rule_format, OF w] by (simp add: answer_byte_def)
qed

section \<open>The interrupt of the terminals\<close>

text \<open>Changes that the scheduler and the condition variables do not see.\<close>

lemma cc_ok_same:
  assumes ok: "cc_ok pc W R s" and f: "rl s' = rl s" "tcbs s' = tcbs s" "ncores s' = ncores s"
    "active_threads s' = active_threads s" "condvars s' = condvars s" "waiters s' = waiters s"
    and c: "\<And>c. halted (cores s' c) = halted (cores s c)"
      "\<And>c. current_thread (cctx s' c) = current_thread (cctx s c)"
      "\<And>c. previous_thread (cctx s' c) = previous_thread (cctx s c)"
  shows "cc_ok pc W R s'"
proof -
  have "\<exists>L hs. sched_inv pc s' L hs" using cc_okD(1) [OF ok] sched_inv_cong [OF f(1-4) c] by simp
  moreover have "cv_inv W R s'"
    by (rule cv_inv_frame [OF cc_okD(2) [OF ok]])
      (use cv_inv_alive [OF cc_okD(2) [OF ok]] f in \<open>simp_all add: waiting_alive_def\<close>)
  ultimately show ?thesis using cc_okD(3) [OF ok] f by (auto simp: cc_ok_def sleepers_listed_def asleep_def)
qed

text \<open>What the interrupt controller leaves alone.\<close>

definition irq_frame :: "kernel \<Rightarrow> kernel \<Rightarrow> bool" where
  "irq_frame s s' \<longleftrightarrow> (\<forall>c. intvec (cores s' c) = intvec (cores s c) \<and>
     int_disabled (cores s' c) = int_disabled (cores s c)) \<and>
     ncores s' = ncores s \<and> nterm s' = nterm s \<and> tcbs s' = tcbs s \<and> waiters s' = waiters s"

lemma irq_frame_refl [simp]: "irq_frame s s"
  and irq_frame_trans: "irq_frame s s' \<Longrightarrow> irq_frame s' s'' \<Longrightarrow> irq_frame s s''"
  by (simp_all add: irq_frame_def)

lemma raise_frame: "irq_frame s (raise_interrupt c i s)"
  by (simp add: irq_frame_def raise_interrupt_def cpu_core_restart_def core_restart_def set_core_def Let_def)

lemma raise_ok:
  assumes ok: "cc_ok pc W R s" and c: "c < ncores s"
  shows "cc_ok pc W R (raise_interrupt c i s)"
proof -
  have "cv_quiet s (raise_interrupt c i s)"
    using cv_inv_alive [OF cc_okD(2) [OF ok]] by (simp add: cv_quiet_def waiting_alive_def asleep_def raise_interrupt_fields)
  then show ?thesis by (rule sched_ok(1) [OF ok step_interrupt [OF c]])
qed

text \<open>All interrupts go to cores of the machine.\<close>

definition routed :: "machine \<Rightarrow> bool" where
  "routed m \<longleftrightarrow> (\<forall>d. int_core (dev d m) < ncores (kern m))"

definition turn_ok :: "(nat \<Rightarrow> cpc) \<Rightarrow> (tref \<Rightarrow> cvref option) \<Rightarrow> (cvref \<Rightarrow> tref list) \<Rightarrow> machine \<Rightarrow> machine \<Rightarrow> bool" where
  "turn_ok pc W R m m' \<longleftrightarrow> (cc_ok pc W R (kern m) \<longrightarrow> routed m \<longrightarrow>
     cc_ok pc W R (kern m') \<and> routed m' \<and> irq_frame (kern m) (kern m'))"

lemma turn_ok_fold:
  assumes "\<And>x m. x \<in> set xs \<Longrightarrow> P (ncores (kern m)) x \<Longrightarrow> turn_ok pc W R m (f x m)"
  shows "(\<forall>x \<in> set xs. P (ncores (kern m)) x) \<Longrightarrow> turn_ok pc W R m (fold f xs m)"
  using assms
proof (induction xs arbitrary: m)
  case Nil
  then show ?case by (simp add: turn_ok_def)
next
  case (Cons x xs)
  have 1: "turn_ok pc W R m (f x m)" using Cons.prems by simp
  show ?case
    unfolding turn_ok_def
  proof (intro impI)
    assume ok: "cc_ok pc W R (kern m)" "routed m"
    have 2: "cc_ok pc W R (kern (f x m))" "routed (f x m)" "irq_frame (kern m) (kern (f x m))"
      using 1 ok by (simp_all add: turn_ok_def)
    then have "\<forall>y \<in> set xs. P (ncores (kern (f x m))) y" using Cons.prems(1) by (simp add: irq_frame_def)
    then have "turn_ok pc W R (f x m) (fold f xs (f x m))" using Cons.prems(2) by (intro Cons.IH) simp_all
    with 2 show "cc_ok pc W R (kern (fold f (x # xs) m)) \<and> routed (fold f (x # xs) m) \<and>
        irq_frame (kern m) (kern (fold f (x # xs) m))"
      by (simp add: turn_ok_def irq_frame_trans)
  qed
qed

lemma raise_turn: "c < ncores (kern m) \<Longrightarrow> turn_ok pc W R m (raise_on c i m)"
proof -
  assume c: "c < ncores (kern m)"
  have d: "dev d (m\<lparr>kern := s\<rparr>) = dev d m" for d s by (cases d) simp_all
  show ?thesis
    using raise_ok c raise_frame by (auto simp: turn_ok_def raise_on_def routed_def d raise_interrupt_fields)
qed

lemma serve_turn: "turn_ok pc W R m (serve_device d i fds m)"
proof (cases "fd (dev d m) \<in> fds \<or> system_clock (kern m) - last_int (dev d m) > SERIAL_TIMEOUT")
  case True
  let ?m = "set_dev d ((dev d m)\<lparr>ready := True, last_int := system_clock (kern m)\<rparr>) m"
  have r: "routed ?m \<longleftrightarrow> routed m" by (auto simp: routed_def)
  have s: "serve_device d i fds m = raise_on (int_core (dev d m)) i ?m" using True by (simp add: serve_device_def)
  have "turn_ok pc W R ?m (raise_on (int_core (dev d m)) i ?m)" if "routed m"
    by (rule raise_turn) (use that in \<open>simp add: routed_def\<close>)
  then show ?thesis unfolding s turn_ok_def using r by simp
qed (simp add: serve_device_def turn_ok_def)

lemma serve_terminal_turn: "turn_ok pc W R m (serve_terminal rs ws i m)"
  using serve_turn [of pc W R m "Con i" SERIAL_TX_READY ws]
    serve_turn [of pc W R "serve_device (Con i) SERIAL_TX_READY ws m" "Kbd i" SERIAL_RX_READY rs]
  by (auto simp: turn_ok_def serve_terminal_def intro: irq_frame_trans)

text \<open>A turn of the interrupt controller keeps the invariant of the threads that wait.\<close>

lemma pic_turn_ok:
  assumes ok: "cc_ok pc W R (kern m)" and r: "routed m" and t: "system_clock (kern m) \<le> time_now p"
    and e: "set (poll_result.expired p) \<subseteq> {..<ncores (kern m)}"
  shows "cc_ok pc W R (kern (pic_turn p m))" and "routed (pic_turn p m)" and "irq_frame (kern m) (kern (pic_turn p m))"
proof -
  let ?m1 = "m\<lparr>kern := (kern m)\<lparr>system_clock := time_now p\<rparr>\<rparr>"
  define m2 where "m2 = ?m1\<lparr>PIC_loops := PIC_loops ?m1 + 1\<rparr>"
  have dv: "dev d ?m1 = dev d m" "dev d m2 = dev d m" for d by (cases d; simp add: m2_def)+
  have q: "cv_quiet (kern m) (kern ?m1)"
    using cv_inv_alive [OF cc_okD(2) [OF ok]] by (simp add: cv_quiet_def waiting_alive_def asleep_def)
  have 1: "cc_ok pc W R (kern ?m1)" using sched_ok(1) [OF ok step_clock [OF t]] q by simp
  have f1: "irq_frame (kern m) (kern ?m1)" by (simp add: irq_frame_def)
  have r1: "routed ?m1" "routed m2" using r by (simp_all add: routed_def dv) (simp_all add: m2_def)
  have k2: "kern m2 = kern ?m1" by (simp add: m2_def)
  let ?m3 = "fold (\<lambda>c. raise_on c ALARM) (poll_result.expired p) m2"
  have "turn_ok pc W R m2 ?m3"
  proof (rule turn_ok_fold)
    show "turn_ok pc W R m' (raise_on c ALARM m')" if "c < ncores (kern m')" for c m' by (rule raise_turn [OF that])
    show "\<forall>x \<in> set (poll_result.expired p). x < ncores (kern m2)" using e by (auto simp: k2)
  qed
  then have 3: "cc_ok pc W R (kern ?m3)" "routed ?m3" "irq_frame (kern m2) (kern ?m3)"
    using 1 r1 by (simp_all add: turn_ok_def k2)
  define m4 where "m4 = pic_drain_sigusr1 ?m3"
  have k4: "kern m4 = kern ?m3" "dev d m4 = dev d ?m3" for d
    by (cases d; simp add: m4_def pic_drain_sigusr1_def)+
  have 4: "cc_ok pc W R (kern m4)" "routed m4" "irq_frame (kern m) (kern m4)"
    using 3 f1 k4 by (auto simp: routed_def k2 intro: irq_frame_trans)
  have s: "turn_ok pc W R m4 (fold (serve_terminal rs ws) is m4)" for rs ws "is"
    by (rule turn_ok_fold [where P = "\<lambda>_ _. True"]) (simp_all add: serve_terminal_turn)
  have "cc_ok pc W R (kern (pic_turn p m)) \<and> routed (pic_turn p m) \<and> irq_frame (kern m) (kern (pic_turn p m))"
  proof (cases "failed p")
    case True
    then have "pic_turn p m = ?m1" by (simp add: pic_turn_def split: prod.split)
    then show ?thesis using 1 r1 f1 by simp
  next
    case False
    obtain rs ws n where "pic_request p m = (rs, ws, n)" by (metis prod_cases3)
    with False have "pic_turn p m =
        fold (serve_terminal {f \<in> rs. can_read p f} {f \<in> ws. can_write p f}) [0..<unat (nterm (kern m4))] m4"
      by (simp add: pic_turn_def m4_def m2_def Let_def)
    then show ?thesis using s 4 by (auto simp: turn_ok_def intro: irq_frame_trans)
  qed
  then show "cc_ok pc W R (kern (pic_turn p m))" "routed (pic_turn p m)" "irq_frame (kern m) (kern (pic_turn p m))"
    by simp_all
qed

text \<open>The wake-ups of a handler keep the interrupt vectors.\<close>

definition vec_same :: "kernel \<Rightarrow> kernel \<Rightarrow> bool" where
  "vec_same s s' \<longleftrightarrow> (\<forall>c. intvec (cores s' c) = intvec (cores s c)) \<and> nterm s' = nterm s"

lemma vec_same_refl [simp]: "vec_same s s"
  and vec_same_trans: "vec_same s s' \<Longrightarrow> vec_same s' s'' \<Longrightarrow> vec_same s s''"
  by (simp_all add: vec_same_def)

lemma vec_restart_one: "cpu_core_restart_one s = Inr s' \<Longrightarrow> vec_same s s'"
  by (auto simp: cpu_core_restart_one_def core_restart_def set_core_def vec_same_def split: if_splits prod.splits key.splits)

lemma vec_make_ready: "sched_make_ready t s = Inr s' \<Longrightarrow> vec_same s s'"
  by (auto simp: sched_make_ready_def sched_queue_add_def rbind_eq_Inr Let_def set_tcb_def split: if_splits
      dest!: vec_restart_one) (simp_all add: vec_same_def)

lemma vec_wakeup: "wakeup c t s = Inr (r, s') \<Longrightarrow> vec_same s s'"
  by (auto simp: wakeup_def rbind_eq_Inr Let_def preempt_off_def preempt_on_def cpu_disable_interrupts_def
      set_core_def set_ccb_def split: if_splits dest!: vec_make_ready)
    (simp_all add: vec_same_def)

lemma vec_ring: "remove_from_ring cv w s = Inr s' \<Longrightarrow> vec_same s s'"
  by (auto simp: remove_from_ring_def rbind_eq_Inr vec_same_def split: if_splits key.splits)

lemma vec_signal:
  assumes "cv_signal c cv s = Some r"
  shows "\<forall>s'. r = Inr s' \<longrightarrow> vec_same s s'"
proof (rule cv_signal.raw_induct [OF _ assms], intro allI impI)
  fix f c cv s r s'
  assume 1: "\<And>c cv s r. f c cv s = Some r \<Longrightarrow> \<forall>s'. r = Inr s' \<longrightarrow> vec_same s s'"
    "(case condvars s cv of None \<Rightarrow> Some (Inr s)
      | Some waiter \<Rightarrow> (case rbind (remove_from_ring cv waiter s) (\<lambda>s1. rbind (get_waiter waiter s1) (\<lambda>x.
            wakeup c (wthread x) (set_waiter waiter (x\<lparr>removed := True\<rparr>) s1))) of
          Inl e \<Rightarrow> Some (Inl e)
        | Inr (woken, s2) \<Rightarrow> if woken then Some (rbind (get_waiter waiter s2) (\<lambda>x.
            Inr (set_waiter waiter (x\<lparr>signalled := True\<rparr>) s2))) else f c cv s2)) = Some r"
    "r = Inr s'"
  show "vec_same s s'"
  proof (cases "condvars s cv")
    case None
    with 1(2,3) show ?thesis by simp
  next
    case (Some w)
    obtain woken s1 s2 x where st: "remove_from_ring cv w s = Inr s1" "get_waiter w s1 = Inr x"
      "wakeup c (wthread x) (set_waiter w (x\<lparr>removed := True\<rparr>) s1) = Inr (woken, s2)"
      and r: "r = (if woken then rbind (get_waiter w s2) (\<lambda>x. Inr (set_waiter w (x\<lparr>signalled := True\<rparr>) s2))
        else the (f c cv s2))" "woken \<or> f c cv s2 = Some r"
      using 1(2,3) Some by (auto simp: rbind_eq_Inr split: sum.splits if_splits)
    have 2: "vec_same s s2"
      using vec_ring [OF st(1)] vec_wakeup [OF st(3)] by (simp add: vec_same_def set_waiter_def)
    show ?thesis
    proof (cases woken)
      case True
      with r(1) 1(3) obtain y where "s' = set_waiter w y s2" by (cases "get_waiter w s2") auto
      with 2 show ?thesis by (simp add: vec_same_def set_waiter_def)
    next
      case False
      with r(2) 1(1,3) have "vec_same s2 s'" by blast
      with 2 show ?thesis by (rule vec_same_trans)
    qed
  qed
qed

lemma vec_broadcast: "Cond_Broadcast c cv s = Inr s' \<Longrightarrow> vec_same s s'"
proof -
  have "\<forall>s'. r = Inr s' \<longrightarrow> vec_same s s'" if l: "broadcast_loop c cv s = Some r" for r
  proof (rule broadcast_loop.raw_induct [OF _ l], intro allI impI)
    fix f c cv s r s'
    assume 1: "\<And>c cv s r. f c cv s = Some r \<Longrightarrow> \<forall>s'. r = Inr s' \<longrightarrow> vec_same s s'"
      "(if condvars s cv \<noteq> None then case Cond_Signal c cv s of Inl e \<Rightarrow> Some (Inl e) | Inr s1 \<Rightarrow> f c cv s1
        else Some (Inr s)) = Some r" "r = Inr s'"
    show "vec_same s s'"
    proof (cases "condvars s cv")
      case None
      with 1(2,3) show ?thesis by simp
    next
      case (Some w)
      obtain s1 where s1: "Cond_Signal c cv s = Inr s1" "f c cv s1 = Some r"
        using 1(2,3) Some by (auto split: sum.splits)
      have "vec_same s s1" using s1(1) vec_signal [of c cv s] by (auto simp: Cond_Signal_def of_loop_def split: option.splits)
      then show ?thesis using 1(1) [OF s1(2)] 1(3) vec_same_trans by blast
    qed
  qed
  then show "Cond_Broadcast c cv s = Inr s' \<Longrightarrow> vec_same s s'"
    by (auto simp: Cond_Broadcast_def of_loop_def split: option.splits)
qed

text \<open>The handler of the terminals' interrupts wakes every reader.\<close>

lemma waiting_listed:
  assumes "cc_ok pc W R s" and "W w = Some cv" and "asleep s w"
  shows "w \<in> set (R cv)"
proof -
  have "waiters s w \<noteq> None" using assms cv_invD(3) [OF cc_okD(2) [OF assms(1)], of w] by simp
  from sleepers_listedD [OF cc_okD(3) [OF assms(1)] this assms(3)] obtain cv' where "w \<in> set (R cv')" by blast
  moreover from this obtain z where "W w = Some cv'" by (rule cv_inv_member [OF cc_okD(2) [OF assms(1)]])
  ultimately show ?thesis using assms(2) by simp
qed

lemma rx_loop_ok:
  assumes "cc_ok pc W R s"
  obtains s' R' where "serial_rx_loop c is s = Inr s'" and "cc_ok pc W R' s'" and "vec_same s s'"
    and "\<forall>w. asleep s' w \<longrightarrow> asleep s w" and "\<forall>w i. i \<in> set is \<longrightarrow> W w = Some (RxReady i) \<longrightarrow> \<not> asleep s' w"
proof -
  have "\<exists>s' R'. serial_rx_loop c is s = Inr s' \<and> cc_ok pc W R' s' \<and> vec_same s s' \<and>
    (\<forall>w. asleep s' w \<longrightarrow> asleep s w) \<and> (\<forall>w i. i \<in> set is \<longrightarrow> W w = Some (RxReady i) \<longrightarrow> \<not> asleep s' w)"
    using assms
  proof (induction "is" arbitrary: s R)
    case Nil
    then show ?case by auto
  next
    case (Cons i "is")
    obtain s1 where s1: "Cond_Broadcast c (RxReady i) s = Inr s1" "cc_ok pc W (R(RxReady i := [])) s1"
      "\<forall>w. asleep s1 w \<longleftrightarrow> asleep s w \<and> w \<notin> set (R (RxReady i))"
      by (rule broadcast_ok [OF Cons.prems, of c "RxReady i"])
    from Cons.IH [OF s1(2)] obtain s' R' where s': "serial_rx_loop c is s1 = Inr s'" "cc_ok pc W R' s'" "vec_same s1 s'"
      "\<forall>w. asleep s' w \<longrightarrow> asleep s1 w" "\<forall>w i. i \<in> set is \<longrightarrow> W w = Some (RxReady i) \<longrightarrow> \<not> asleep s' w"
      by blast
    have "\<not> asleep s' w" if "W w = Some (RxReady i)" for w
      using s'(4) s1(3) waiting_listed [OF Cons.prems that] by blast
    with s' s1 vec_same_trans [OF vec_broadcast [OF s1(1)] s'(3)] show ?case
      by (intro exI [of _ s'] exI [of _ R']) auto
  qed
  with that show ?thesis by blast
qed

lemma rx_handler_ok:
  assumes ok: "cc_ok pc W R s"
  obtains s' R' where "serial_rx_handler_body c s = Inr s'" and "cc_ok pc W R' s'" and "vec_same s s'"
    and "\<forall>w i. i < unat (nterm s) \<longrightarrow> W w = Some (RxReady i) \<longrightarrow> \<not> asleep s' w"
proof -
  obtain pre s1 where p: "preempt_off c s = (pre, s1)" by (cases "preempt_off c s")
  have v1: "vec_same s s1" using p
    by (auto simp: preempt_off_def cpu_disable_interrupts_def Let_def set_ccb_def set_core_def vec_same_def split: if_splits)
  have "cc_ok pc W R s1"
    by (rule cc_ok_same [OF ok])
      (use p in \<open>auto simp: preempt_off_def cpu_disable_interrupts_def Let_def set_ccb_def set_core_def split: if_splits\<close>)
  then obtain s2 R' where s2: "serial_rx_loop c [0..<unat (nterm s1)] s1 = Inr s2" "cc_ok pc W R' s2" "vec_same s1 s2"
    "\<forall>w i. i \<in> set [0..<unat (nterm s1)] \<longrightarrow> W w = Some (RxReady i) \<longrightarrow> \<not> asleep s2 w"
    by (rule rx_loop_ok)
  let ?s' = "if pre then preempt_on c s2 else s2"
  have a: "asleep ?s' w = asleep s2 w" for w by (simp add: preempt_on_def Let_def set_ccb_def set_core_def asleep_def)
  have n: "nterm s1 = nterm s" using v1 by (simp add: vec_same_def)
  show ?thesis
  proof (rule that)
    show "serial_rx_handler_body c s = Inr ?s'"
      using p s2(1) by (simp add: serial_rx_handler_body_def bios_serial_ports_def)
    show "cc_ok pc W R' ?s'"
      by (rule cc_ok_same [OF s2(2)]) (auto simp: preempt_on_def Let_def set_ccb_def set_core_def)
    have "vec_same s2 ?s'" by (auto simp: preempt_on_def Let_def set_ccb_def set_core_def vec_same_def)
    with v1 s2(3) show "vec_same s ?s'" by (blast intro: vec_same_trans)
    show "\<forall>w i. i < unat (nterm s) \<longrightarrow> W w = Some (RxReady i) \<longrightarrow> \<not> asleep ?s' w"
      using s2(4) unfolding a n by simp
  qed
qed

text \<open>
  C12: A thread that sleeps in \<open>serial_read\<close> is woken when its terminal has input.  In a turn of
  the interrupt controller in which the keyboard \<open>i\<close> is ready, or was silent for longer than the
  timeout, the interrupt is raised on the core it is assigned to; when that core, with interrupts
  enabled and no timer expired, dispatches its interrupts, the handler runs without a fault and
  no thread that waits for input of the terminal \<open>i\<close> is asleep any more.
\<close>

theorem reader_woken_by_interrupt:
  assumes "cc_ok pc W R (kern m)" and "routed m" and "system_clock (kern m) \<le> time_now p"
    and "set (poll_result.expired p) \<subseteq> {..<ncores (kern m)}" and "\<not> failed p"
    and "turn_reports p m (Kbd i)" and "c = int_core (dev (Kbd i) m)"
    and "\<not> int_disabled (cores (kern m) c)" and "\<not> intpending (cores (kern m) c) ALARM"
    and "c \<notin> set (poll_result.expired p)"
    and "intvec (cores (kern m) c) SERIAL_RX_READY = Some serial_rx_handler"
    and "intvec (cores (kern m) c) ICI = Some ici_handler"
    and "intvec (cores (kern m) c) SERIAL_TX_READY = Some serial_tx_handler"
  shows "\<exists>s'. dispatch_interrupts (run_handler c) c (kern (pic_turn p m)) = Inr s' \<and>
    (\<exists>R'. cc_ok pc W R' s') \<and> (\<forall>w. W w = Some (RxReady i) \<longrightarrow> \<not> asleep s' w)"
proof -
  let ?s = "kern (pic_turn p m)"
  note t = pic_turn_ok [OF assms(1-4)]
  have n: "i < unat (nterm (kern m))" using assms(6) by (simp add: turn_reports_def)
  have pend: "intpending (cores ?s c) SERIAL_RX_READY" "\<not> intpending (cores ?s c) ALARM"
  proof -
    note e = pic_turn_effect(3) [OF assms(5), of m c]
    have "SERIAL_RX_READY = dev_int (Kbd i)" by simp
    with assms(6,7) show "intpending (cores ?s c) SERIAL_RX_READY" unfolding e by blast
    have "ALARM \<noteq> dev_int d" for d by (cases d) simp_all
    with assms(9,10) show "\<not> intpending (cores ?s c) ALARM" unfolding e by blast
  qed
  have vec: "intvec (cores ?s c) = intvec (cores (kern m) c)" "\<not> int_disabled (cores ?s c)" "nterm ?s = nterm (kern m)"
    using t(3) assms(8) by (simp_all add: irq_frame_def)
  define deliver where "deliver j s = set_core c ((cores s c)\<lparr>intpending := (intpending (cores s c))(j := False),
      irq_delivered := (irq_delivered (cores s c))(j := irq_delivered (cores s c) j + 1)\<rparr>) s" for j s
  have d: "cc_ok pc W R (deliver j s)" if "cc_ok pc W R s" for j s R
    by (rule cc_ok_same [OF that]) (simp_all add: deliver_def set_core_def)
  have df: "intvec (cores (deliver j s) e) = intvec (cores s e)" "nterm (deliver j s) = nterm s" "asleep (deliver j s) w = asleep s w"
    "int_disabled (cores (deliver j s) e) = int_disabled (cores s e)"
    "intpending (cores (deliver j s) c) k \<longleftrightarrow> intpending (cores s c) k \<and> k \<noteq> j" for j s e w k
    by (simp_all add: deliver_def set_core_def asleep_def)
  have loop: "dispatch_loop run c (j # js) s = (if int_disabled (cores s c) then Inr s
      else if intpending (cores s c) j
      then rbind (case intvec (cores s c) j of None \<Rightarrow> Inr (deliver j s) | Some h \<Rightarrow> run h (deliver j s)) (dispatch_loop run c js)
      else dispatch_loop run c js s)" for run j js s
    by (cases "intvec (cores s c) j") (simp_all add: Let_def deliver_def set_core_def)
  define s1 where "s1 = (if intpending (cores ?s c) ICI then deliver ICI ?s else ?s)"
  have s1: "cc_ok pc W R s1" "intvec (cores s1 c) = intvec (cores (kern m) c)" "\<not> int_disabled (cores s1 c)"
    "nterm s1 = nterm (kern m)" "intpending (cores s1 c) SERIAL_RX_READY" "\<not> intpending (cores s1 c) ALARM"
    using t(1) d vec pend by (simp_all add: s1_def df)
  obtain s2 R' where s2: "serial_rx_handler_body c (deliver SERIAL_RX_READY s1) = Inr s2" "cc_ok pc W R' s2"
    "vec_same (deliver SERIAL_RX_READY s1) s2"
    "\<forall>w j. j < unat (nterm (deliver SERIAL_RX_READY s1)) \<longrightarrow> W w = Some (RxReady j) \<longrightarrow> \<not> asleep s2 w"
    by (rule rx_handler_ok [OF d [OF s1(1)]])
  have v2: "intvec (cores s2 c) = intvec (cores (kern m) c)" using s2(3) s1(2) by (simp add: vec_same_def df)
  define s3 where "s3 = (if \<not> int_disabled (cores s2 c) \<and> intpending (cores s2 c) SERIAL_TX_READY
    then deliver SERIAL_TX_READY s2 else s2)"
  have "dispatch_interrupts (run_handler c) c ?s = dispatch_loop (run_handler c) c [ALARM, SERIAL_RX_READY, SERIAL_TX_READY] s1"
    unfolding dispatch_interrupts_def loop [of _ ICI] using vec assms(12) by (simp add: s1_def ici_handler_body_def)
  also have "\<dots> = dispatch_loop (run_handler c) c [SERIAL_TX_READY] s2"
    unfolding loop [of _ ALARM] loop [of _ SERIAL_RX_READY] using s1 s2(1) assms(11) by simp
  also have "\<dots> = Inr s3"
    unfolding loop [of _ SERIAL_TX_READY] using v2 assms(13) by (simp add: s3_def serial_tx_handler_body_def)
  finally have "dispatch_interrupts (run_handler c) c ?s = Inr s3" .
  moreover have "cc_ok pc W R' s3" using s2(2) d by (simp add: s3_def)
  moreover have "\<not> asleep s3 w" if "W w = Some (RxReady i)" for w
    using s2(4) n that by (simp add: s3_def df s1(4))
  ultimately show ?thesis by blast
qed

text \<open>A thread waits for input of terminal 0, and the next turn finds a byte.\<close>

theorem reader_woken_by_interrupt_witness:
  "\<exists>m p W t s'. W t = Some (RxReady 0) \<and> asleep (kern m) t \<and>
     dispatch_interrupts (run_handler 0) 0 (kern (pic_turn p m)) = Inr s' \<and> \<not> asleep s' t"
proof -
  obtain t s where r: "cc_reachable ((\<lambda>_. Running)(0 := Sleeping SCHED_USER), [t \<mapsto> RxReady 0], {}, s)"
    and a: "asleep s t" and n: "ncores s = 1" by (rule run_waiting [of "RxReady 0" 1]) (simp_all add: MAX_CORES_def)
  obtain R where ok: "cc_ok ((\<lambda>_. Running)(0 := Sleeping SCHED_USER)) [t \<mapsto> RxReady 0] R s"
    using cc_reachable_inv [OF r] by (auto simp: cc_inv_def)
  let ?vec = "Map.empty(SERIAL_RX_READY \<mapsto> serial_rx_handler, ICI \<mapsto> ici_handler, SERIAL_TX_READY \<mapsto> serial_tx_handler)"
  let ?k = "s\<lparr>nterm := 1, cores := (\<lambda>c. (cores s c)\<lparr>int_disabled := False, intpending := (\<lambda>_. False), intvec := ?vec\<rparr>)\<rparr>"
  let ?m = "\<lparr>kern = ?k, TERM_table = (\<lambda>_. \<lparr>con = \<lparr>fd = 5, iodir = IODIR_TX, int_core = 0, ready = True, last_int = 0\<rparr>,
      kbd = \<lparr>fd = 6, iodir = IODIR_RX, int_core = 0, ready = False, last_int = 0\<rparr>\<rparr>),
     PIC_active = True, usr1 = False, PIC_loops = 0, PIC_usr1_drained = 0, PIC_usr1_queued = 0\<rparr>"
  let ?p = "\<lparr>hangup = (\<lambda>_. False), failed = False, can_read = (\<lambda>f. f = 6), can_write = (\<lambda>_. False),
     time_now = system_clock s, expired = []\<rparr>"
  have h1: "cc_ok ((\<lambda>_. Running)(0 := Sleeping SCHED_USER)) [t \<mapsto> RxReady 0] R (kern ?m)"
    by (rule cc_ok_same [OF ok]) simp_all
  have dv: "int_core (dev d ?m) = 0" for d by (cases d) simp_all
  then have h2: "routed ?m" using n by (simp add: routed_def)
  have h3: "turn_reports ?p ?m (Kbd 0)"
  proof -
    obtain rs ws k where q: "pic_request ?p ?m = (rs, ws, k)" by (metis prod_cases3)
    have "6 \<in> rs" using pic_request_sets(1) [OF q] by simp
    then show ?thesis by (simp add: turn_reports_def q due_def)
  qed
  have "\<exists>s'. dispatch_interrupts (run_handler 0) 0 (kern (pic_turn ?p ?m)) = Inr s' \<and>
      (\<exists>R'. cc_ok ((\<lambda>_. Running)(0 := Sleeping SCHED_USER)) [t \<mapsto> RxReady 0] R' s') \<and>
      (\<forall>w. [t \<mapsto> RxReady 0] w = Some (RxReady 0) \<longrightarrow> \<not> asleep s' w)"
    by (rule reader_woken_by_interrupt [OF h1 h2 _ _ _ h3]) (simp_all add: dv)
  moreover have "asleep (kern ?m) t" using a by (simp add: asleep_def)
  ultimately show ?thesis
    by (intro exI [of _ ?m] exI [of _ ?p] exI [of _ "[t \<mapsto> RxReady 0]"] exI [of _ t]) auto
qed

section \<open>The end of the scheduler\<close>

lemma restart_keeps:
  "halted (cores (core_restart c s) d) \<longleftrightarrow> halted (cores s d) \<and> d \<noteq> c"
  "int_disabled (cores (core_restart c s) d) = int_disabled (cores s d)"
  "cctx (core_restart c s) = cctx s" "ncores (core_restart c s) = ncores s"
  "active_threads (core_restart c s) = active_threads s" "tcbs (core_restart c s) = tcbs s"
  by (auto simp: core_restart_def set_core_def)

lemma restart_fold:
  "halted (cores (fold core_restart cs s) d) \<longleftrightarrow> halted (cores s d) \<and> d \<notin> set cs"
  "cctx (fold core_restart cs s) = cctx s" "ncores (fold core_restart cs s) = ncores s"
  "active_threads (fold core_restart cs s) = active_threads s" "tcbs (fold core_restart cs s) = tcbs s"
  by (induction cs arbitrary: s) (auto simp: restart_keeps)

lemma idle_halts_or_leaves:
  assumes "idle_loop c s = Inr (again, s')"
  shows "again \<longleftrightarrow> 0 < active_threads s" and "active_threads s' = active_threads s" and "cctx s' = cctx s"
    and "ncores s' = ncores s"
    and "again \<Longrightarrow> halted (cores s' c)" and "\<not> again \<Longrightarrow> d < ncores s \<Longrightarrow> \<not> halted (cores s' d)"
proof -
  have t: "cctx (snd (bios_cancel_timer c s)) = cctx s" "ncores (snd (bios_cancel_timer c s)) = ncores s"
    "active_threads (snd (bios_cancel_timer c s)) = active_threads s"
    by (simp_all add: bios_cancel_timer_def bios_set_timer_def set_core_def Let_def split: prod.split)
  show "again \<longleftrightarrow> 0 < active_threads s" "active_threads s' = active_threads s" "cctx s' = cctx s" "ncores s' = ncores s"
    "again \<Longrightarrow> halted (cores s' c)" "\<not> again \<Longrightarrow> d < ncores s \<Longrightarrow> \<not> halted (cores s' d)"
    using assms by (auto simp: idle_loop_def cpu_core_halt_def set_core_def rbind_eq_Inr cpu_core_restart_all_def
        restart_fold t split: if_splits)
qed

text \<open>What a core does that finds no thread left: it leaves the idle thread and ends the scheduler.\<close>

definition leave_scheduler :: "nat \<Rightarrow> kernel \<Rightarrow> kernel result" where
  "leave_scheduler c s =
     rbind (idle_loop c s) (\<lambda>(again, s1). if again then Inl AssertFail else run_scheduler_end c s1)"

fun leave_all :: "nat list \<Rightarrow> kernel \<Rightarrow> kernel result" where
  "leave_all [] s = Inr s"
| "leave_all (c # cs) s = rbind (leave_scheduler c s) (leave_all cs)"

lemma leave_one:
  assumes "active_threads s = 0" and "\<forall>d < ncores s. CURTHREAD d s = IdleT d" and "c < ncores s"
  obtains s' where "leave_scheduler c s = Inr s'" and "active_threads s' = 0" and "ncores s' = ncores s"
    and "cctx s' = cctx s" and "\<forall>d < ncores s. \<not> halted (cores s' d)"
    and "intvec (cores s' c) ALARM = None" and "intvec (cores s' c) ICI = None"
    and "\<forall>d i. intvec (cores s d) i = None \<longrightarrow> intvec (cores s' d) i = None"
proof -
  let ?s1 = "cpu_core_restart_all (snd (bios_cancel_timer c s))"
  have i: "idle_loop c s = Inr (False, ?s1)" using assms(1) by (simp add: idle_loop_def)
  note f = idle_halts_or_leaves [OF i]
  have v: "intvec (cores (fold core_restart cs u) d) = intvec (cores u d)" for cs u d
    by (induction cs arbitrary: u) (auto simp: core_restart_def set_core_def)
  have v1: "intvec (cores ?s1 d) = intvec (cores s d)" for d
    by (simp add: cpu_core_restart_all_def v bios_cancel_timer_def bios_set_timer_def set_core_def Let_def split: prod.split)
  let ?s' = "cpu_interrupt_handler c ICI None (cpu_interrupt_handler c ALARM None ?s1)"
  have "leave_scheduler c s = Inr ?s'"
    using i f(3) assms(2,3) by (simp add: leave_scheduler_def run_scheduler_end_def CURTHREAD_def)
  then show ?thesis
    by (rule that) (use f assms(1) v1 in \<open>auto simp: cpu_interrupt_handler_def set_core_def\<close>)
qed

text \<open>
  When no thread is left and every core is in its idle thread, all cores leave the scheduler, in
  whatever order they find out; the first one restarts the cores that are halted.
\<close>

theorem scheduler_ends:
  assumes "active_threads s = 0" and "\<forall>c < ncores s. CURTHREAD c s = IdleT c" and "set cs \<subseteq> {..<ncores s}"
  shows "\<exists>s'. leave_all cs s = Inr s' \<and> (cs \<noteq> [] \<longrightarrow> (\<forall>c < ncores s. \<not> halted (cores s' c))) \<and>
    (\<forall>c \<in> set cs. intvec (cores s' c) ALARM = None \<and> intvec (cores s' c) ICI = None)"
proof -
  have "\<exists>s'. leave_all cs s = Inr s' \<and> (cs \<noteq> [] \<longrightarrow> (\<forall>c < ncores s. \<not> halted (cores s' c))) \<and>
      (\<forall>c \<in> set cs. intvec (cores s' c) ALARM = None \<and> intvec (cores s' c) ICI = None) \<and>
      (\<forall>d i. intvec (cores s d) i = None \<longrightarrow> intvec (cores s' d) i = None)"
    using assms
  proof (induction cs arbitrary: s)
    case Nil
    then show ?case by simp
  next
    case (Cons c cs)
    obtain s1 where s1: "leave_scheduler c s = Inr s1" "active_threads s1 = 0" "ncores s1 = ncores s"
      "cctx s1 = cctx s" "\<forall>d < ncores s. \<not> halted (cores s1 d)"
      "intvec (cores s1 c) ALARM = None" "intvec (cores s1 c) ICI = None"
      "\<forall>d i. intvec (cores s d) i = None \<longrightarrow> intvec (cores s1 d) i = None"
      by (rule leave_one [OF Cons.prems(1,2), of c]) (use Cons.prems(3) in auto)
    have "\<forall>d < ncores s1. CURTHREAD d s1 = IdleT d" using Cons.prems(2) s1(3,4) by (simp add: CURTHREAD_def)
    with Cons.IH [OF s1(2)] Cons.prems(3) s1(3) obtain s' where s': "leave_all cs s1 = Inr s'"
      "cs \<noteq> [] \<longrightarrow> (\<forall>c < ncores s. \<not> halted (cores s' c))"
      "\<forall>c \<in> set cs. intvec (cores s' c) ALARM = None \<and> intvec (cores s' c) ICI = None"
      "\<forall>d i. intvec (cores s1 d) i = None \<longrightarrow> intvec (cores s' d) i = None" by auto
    have "\<forall>d < ncores s. \<not> halted (cores s' d)" using s'(1,2) s1(5) by (cases "cs = []") simp_all
    with s' s1 show ?case by auto
  qed
  then show ?thesis by blast
qed

end
