(* ===== verification/Terminal.thy ===== *)
theory Terminal
  imports Prelude
begin

text \<open>
  The terminal emulator of src/terminal.c, a program of the host that relays bytes between its
  standard files and the two pipes of a terminal of the virtual machine.  What the host answers
  (\<open>poll\<close>, \<open>read\<close>, \<open>write\<close>) is an argument.  \<open>EXIT_ON_STDIN_CLOSE\<close> is not defined in the
  build, so that \<open>INPUT_OPEN\<close> stays 1.
\<close>

section \<open>The polling array\<close>

text \<open>
  The entries are 0 for the input, 1 for the output, 2 for the keyboard pipe and 3 for the
  console pipe.  A descriptor that is not polled has its field complemented.
\<close>

record term_poll =
  pfd :: "nat \<Rightarrow> int"       \<comment> \<open>\<open>fds[i].fd\<close>\<close>
  pready :: "nat \<Rightarrow> bool"   \<comment> \<open>\<open>state[i]\<close>: the last result of the poll\<close>
  perror :: "nat \<Rightarrow> bool"   \<comment> \<open>\<open>errst[i]\<close>\<close>

definition flip :: "nat \<Rightarrow> term_poll \<Rightarrow> term_poll" where
  "flip i s = s\<lparr>pfd := (pfd s)(i := - pfd s i - 1)\<rparr>"

definition polled :: "nat \<Rightarrow> term_poll \<Rightarrow> bool" where
  "polled i s \<longleftrightarrow> 0 \<le> pfd s i"

text \<open>
  What the host answers in one turn: the events and errors that \<open>poll\<close> reports, and the
  byte that a read of the input or of the console pipe gives, if any.
\<close>

record host_turn =
  ready_now :: "nat \<Rightarrow> bool"
  error_now :: "nat \<Rightarrow> bool"
  input_byte :: "8 word option"
  console_byte :: "8 word option"
  kbd_takes :: bool
  output_takes :: bool

text \<open>The bytes written to the pipe of the keyboard and to the output in one turn.\<close>

record relayed =
  to_kbd :: "8 word list"
  to_output :: "8 word list"

definition update_indicator :: "host_turn \<Rightarrow> nat \<Rightarrow> term_poll \<Rightarrow> term_poll" where
  "update_indicator h i s =
     (if polled i s
      then let s1 = s\<lparr>pready := (pready s)(i := ready_now h i)\<rparr>;
               s2 = (if pready s1 i then flip i s1 else s1)
           in s2\<lparr>perror := (perror s2)(i := error_now h i)\<rparr>
      else s)"

definition transfer_byte :: "nat \<Rightarrow> nat \<Rightarrow> 8 word option \<Rightarrow> bool \<Rightarrow> term_poll \<Rightarrow> 8 word list \<times> term_poll" where
  "transfer_byte from to r takes s =
     ((case r of Some b \<Rightarrow> if takes then [b] else [] | None \<Rightarrow> []), flip to (flip from s))"

text \<open>One turn of \<open>io_loop\<close>; \<open>None\<close> is its end.\<close>

definition io_turn :: "host_turn \<Rightarrow> term_poll \<Rightarrow> (relayed \<times> term_poll) option" where
  "io_turn h s =
     (let s1 = fold (update_indicator h) [0..<4] s;
          xkbd = (pready s1 0 \<and> pready s1 2);
          xcon = (pready s1 1 \<and> pready s1 3)
      in if \<not> xkbd \<and> \<not> xcon \<and> (perror s1 2 \<or> perror s1 3) then None
         else let (k, s2) = (if xkbd then transfer_byte 0 2 (input_byte h) (kbd_takes h) s1 else ([], s1));
                  (o1, s3) = (if xcon then transfer_byte 3 1 (console_byte h) (output_takes h) s2 else ([], s2))
              in Some (\<lparr>to_kbd = k, to_output = o1\<rparr>, s3))"

definition poll_init :: "int \<Rightarrow> int \<Rightarrow> term_poll \<Rightarrow> term_poll" where
  "poll_init kbdfd confd s = s\<lparr>pfd := (pfd s)(2 := kbdfd, 3 := confd)\<rparr>"

text \<open>
  The loop over the turns of the host: what was relayed, and whether the loop has ended.  The
  state is kept in static variables, so that the next connection starts from it.
\<close>

fun io_turns :: "host_turn list \<Rightarrow> term_poll \<Rightarrow> relayed list \<times> bool \<times> term_poll" where
  "io_turns [] s = ([], False, s)"
| "io_turns (h # hs) s =
     (case io_turn h s of
        None \<Rightarrow> ([], True, fold (update_indicator h) [0..<4] s)
      | Some (r, s1) \<Rightarrow> (let (rs, e, s2) = io_turns hs s1 in (r # rs, e, s2)))"

definition io_loop :: "int \<Rightarrow> int \<Rightarrow> host_turn list \<Rightarrow> term_poll \<Rightarrow> relayed list \<times> bool \<times> term_poll" where
  "io_loop kbdfd confd hs s = io_turns hs (poll_init kbdfd confd s)"

definition term_start :: term_poll where
  "term_start = \<lparr>pfd = (\<lambda>i. if i = 1 then 1 else 0), pready = (\<lambda>_. False), perror = (\<lambda>_. False)\<rparr>"

text \<open>The names of the pipes, and the check of the program's arguments.\<close>

definition confname :: "string \<Rightarrow> string" where "confname arg = ''con'' @ arg"

definition kbdfname :: "string \<Rightarrow> string" where "kbdfname arg = ''kbd'' @ arg"

definition terminal_args_ok :: "string list \<Rightarrow> bool" where
  "terminal_args_ok argv \<longleftrightarrow> \<not> (length argv \<noteq> 2 \<or> length (argv ! 1) \<noteq> 1 \<or>
     (of_char (argv ! 1 ! 0) :: nat) < of_char CHR ''0'' \<or> (of_char (argv ! 1 ! 0) :: nat) > of_char CHR ''3'')"

text \<open>
  The loop of \<open>mainloop\<close>: each entry is a connection, with the descriptors of the pipes and the
  turns until it ends; a connection that does not end is the last.
\<close>

fun mainloop :: "(int \<times> int \<times> host_turn list) list \<Rightarrow> term_poll \<Rightarrow> relayed list list \<times> term_poll" where
  "mainloop [] s = ([], s)"
| "mainloop ((confd, kbdfd, hs) # cs) s =
     (let (rs, e, s1) = io_loop kbdfd confd hs s
      in if e then let (rss, s2) = mainloop cs s1 in (rs # rss, s2) else ([rs], s1))"

section \<open>The relay as two meetings\<close>

text \<open>
  The specification of one direction: the source and the destination each wait until they are
  ready, and when both are, one byte goes over and both are polled again.
\<close>

fun rendezvous :: "bool \<Rightarrow> bool \<Rightarrow> (bool \<times> bool \<times> 'a list) list \<Rightarrow> 'a list list" where
  "rendezvous src dst [] = []"
| "rendezvous src dst ((x, y, b) # turns) =
     (if (src \<or> x) \<and> (dst \<or> y) then b # rendezvous False False turns
      else [] # rendezvous (src \<or> x) (dst \<or> y) turns)"

definition armed :: "nat \<Rightarrow> term_poll \<Rightarrow> bool" where
  "armed i s \<longleftrightarrow> \<not> polled i s"

text \<open>
  The invariant at the head of the loop: a field holds its descriptor or the complement of it, a
  descriptor that is not polled was ready, and of the two ends of a direction one is polled.
\<close>

definition relay_inv :: "int \<Rightarrow> int \<Rightarrow> term_poll \<Rightarrow> bool" where
  "relay_inv k c s \<longleftrightarrow> pfd s 0 \<in> {0, -1} \<and> pfd s 1 \<in> {1, -2} \<and> pfd s 2 \<in> {k, - k - 1} \<and>
     pfd s 3 \<in> {c, - c - 1} \<and> (\<forall>i < 4. armed i s \<longrightarrow> pready s i) \<and>
     \<not> (armed 0 s \<and> armed 2 s) \<and> \<not> (armed 1 s \<and> armed 3 s)"

lemma all_less_4: "(\<forall>i < 4. P i) \<longleftrightarrow> P 0 \<and> P 1 \<and> P 2 \<and> P (3 :: nat)"
  by (auto simp: less_Suc_eq numeral_nat)

definition written :: "8 word option \<Rightarrow> bool \<Rightarrow> 8 word list" where
  "written r takes = (case r of Some b \<Rightarrow> if takes then [b] else [] | None \<Rightarrow> [])"

text \<open>After the poll: an end is armed if it was or is ready now, and its indicator says so.\<close>

lemma update_fold:
  "distinct is \<Longrightarrow>
   pfd (fold (update_indicator h) is s) j =
     (if j \<in> set is \<and> polled j s \<and> ready_now h j then - pfd s j - 1 else pfd s j) \<and>
   pready (fold (update_indicator h) is s) j = (if j \<in> set is \<and> polled j s then ready_now h j else pready s j) \<and>
   perror (fold (update_indicator h) is s) j = (if j \<in> set is \<and> polled j s then error_now h j else perror s j)"
proof (induction "is" arbitrary: s)
  case Nil
  then show ?case by simp
next
  case (Cons i "is")
  have "pfd (update_indicator h i s) j = (if j = i \<and> polled i s \<and> ready_now h i then - pfd s i - 1 else pfd s j)"
    "pready (update_indicator h i s) j = (if j = i \<and> polled i s then ready_now h i else pready s j)"
    "perror (update_indicator h i s) j = (if j = i \<and> polled i s then error_now h i else perror s j)"
    "j \<noteq> i \<Longrightarrow> polled j (update_indicator h i s) = polled j s"
    by (auto simp: update_indicator_def flip_def Let_def polled_def)
  note u = this
  show ?case
  proof (cases "j = i")
    case True
    with Cons.IH [of "update_indicator h i s"] Cons.prems u(1-3) show ?thesis by simp
  next
    case False
    with Cons.IH [of "update_indicator h i s"] Cons.prems u show ?thesis by simp
  qed
qed

lemma update_all:
  fixes h :: host_turn
  assumes "relay_inv k c s" and "0 \<le> k" and "0 \<le> c"
  defines "s1 \<equiv> fold (update_indicator h) [0..<4] s"
  shows "i < 4 \<Longrightarrow> armed i s1 \<longleftrightarrow> armed i s \<or> ready_now h i"
    and "i < 4 \<Longrightarrow> pready s1 i \<longleftrightarrow> armed i s1"
    and "i < 4 \<Longrightarrow> perror s1 i = (if armed i s then perror s i else error_now h i)"
    and "pfd s1 0 \<in> {0, -1} \<and> pfd s1 1 \<in> {1, -2} \<and> pfd s1 2 \<in> {k, - k - 1} \<and> pfd s1 3 \<in> {c, - c - 1}"
proof -
  have f: "pfd s1 j = (if j < 4 \<and> polled j s \<and> ready_now h j then - pfd s j - 1 else pfd s j)"
    "pready s1 j = (if j < 4 \<and> polled j s then ready_now h j else pready s j)"
    "perror s1 j = (if j < 4 \<and> polled j s then error_now h j else perror s j)" for j
    using update_fold [of "[0..<4]" h s j] by (simp_all add: s1_def)
  show "armed i s1 \<longleftrightarrow> armed i s \<or> ready_now h i" if "i < 4" using that by (auto simp: armed_def polled_def f)
  have r: "armed j s \<longrightarrow> pready s j" if "j < 4" for j using assms(1) that by (simp add: relay_inv_def)
  show "pready s1 i \<longleftrightarrow> armed i s1" if "i < 4"
    using r [OF that] that by (auto simp: f armed_def polled_def)
  show "perror s1 i = (if armed i s then perror s i else error_now h i)" if "i < 4"
    using that by (simp add: f armed_def)
  show "pfd s1 0 \<in> {0, -1} \<and> pfd s1 1 \<in> {1, -2} \<and> pfd s1 2 \<in> {k, - k - 1} \<and> pfd s1 3 \<in> {c, - c - 1}"
  proof -
    have "pfd s1 j \<in> {v, - v - 1}" if "pfd s j \<in> {v, - v - 1}" for j v using that by (simp add: f) linarith
    from this [of 0 0] this [of 1 1] this [of 2 k] this [of 3 c] show ?thesis
      using assms(1) by (simp add: relay_inv_def)
  qed
qed

text \<open>
  The turn \<open>h\<close> from the state \<open>s\<close> has nothing to transfer, and a pipe has an error; the error of a
  pipe that waits for the other end of its direction, and so is not polled, is the one it had when
  it became ready.
\<close>

definition stuck_with_error :: "host_turn \<Rightarrow> term_poll \<Rightarrow> bool" where
  "stuck_with_error h s \<longleftrightarrow>
     \<not> ((armed 0 s \<or> ready_now h 0) \<and> (armed 2 s \<or> ready_now h 2)) \<and>
     \<not> ((armed 3 s \<or> ready_now h 3) \<and> (armed 1 s \<or> ready_now h 1)) \<and>
     (\<exists>i \<in> {2, 3}. if armed i s then perror s i else error_now h i)"

lemma io_turn_relay:
  fixes h :: host_turn
  assumes inv: "relay_inv k c s" and kc: "0 \<le> k" "0 \<le> c"
  defines "a i \<equiv> armed i s \<or> ready_now h i"
  shows "case io_turn h s of
      None \<Rightarrow> stuck_with_error h s
    | Some (r, s') \<Rightarrow> \<not> stuck_with_error h s \<and> relay_inv k c s' \<and>
        (\<forall>i < 4. armed i s' \<longleftrightarrow> a i \<and> \<not> (if i = 0 \<or> i = 2 then a 0 \<and> a 2 else a 1 \<and> a 3)) \<and>
        to_kbd r = (if a 0 \<and> a 2 then written (input_byte h) (kbd_takes h) else []) \<and>
        to_output r = (if a 1 \<and> a 3 then written (console_byte h) (output_takes h) else [])"
proof -
  define s1 where "s1 = fold (update_indicator h) [0..<4] s"
  note u = update_all [OF inv kc, where h = h, folded s1_def]
  have p: "pready s1 i \<longleftrightarrow> a i" "armed i s1 \<longleftrightarrow> a i" if "i < 4" for i using u(1,2) [OF that] by (simp_all add: a_def)
  have fl: "armed j (flip i t) \<longleftrightarrow> (if j = i then \<not> armed j t else armed j t)" for i j t
    by (auto simp: armed_def polled_def flip_def)
  have fp: "pready (flip i t) = pready t" "perror (flip i t) = perror t" for i t by (simp_all add: flip_def)
  have st: "stuck_with_error h s \<longleftrightarrow> \<not> (a 0 \<and> a 2) \<and> \<not> (a 1 \<and> a 3) \<and> (perror s1 2 \<or> perror s1 3)"
    using u(3) [of 2] u(3) [of 3] by (auto simp: stuck_with_error_def a_def)
  show ?thesis
  proof (cases "\<not> (a 0 \<and> a 2) \<and> \<not> (a 1 \<and> a 3) \<and> (perror s1 2 \<or> perror s1 3)")
    case True
    then have "io_turn h s = None" by (simp add: io_turn_def Let_def p flip: s1_def)
    with True st show ?thesis by simp
  next
    case False
    define s2 where "s2 = (if a 0 \<and> a 2 then flip 2 (flip 0 s1) else s1)"
    define s3 where "s3 = (if a 1 \<and> a 3 then flip 1 (flip 3 s2) else s2)"
    have t: "io_turn h s = Some (\<lparr>to_kbd = (if a 0 \<and> a 2 then written (input_byte h) (kbd_takes h) else []),
        to_output = (if a 1 \<and> a 3 then written (console_byte h) (output_takes h) else [])\<rparr>, s3)"
      using False by (auto simp: io_turn_def Let_def p transfer_byte_def written_def s2_def s3_def simp flip: s1_def)
    have ar: "armed i s3 \<longleftrightarrow> a i \<and> \<not> (if i = 0 \<or> i = 2 then a 0 \<and> a 2 else a 1 \<and> a 3)" if "i < 4" for i
      using that p(2) by (auto simp: s3_def s2_def fl less_Suc_eq numeral_nat)
    have pr: "pready s3 i \<longleftrightarrow> a i" if "i < 4" for i using p(1) [OF that] by (simp add: s3_def s2_def fp)
    have "pfd s3 0 \<in> {0, -1} \<and> pfd s3 1 \<in> {1, -2} \<and> pfd s3 2 \<in> {k, - k - 1} \<and> pfd s3 3 \<in> {c, - c - 1}"
      using u(4) by (auto simp: s3_def s2_def flip_def)
    then have "relay_inv k c s3" using ar pr by (auto simp: relay_inv_def)
    moreover have "\<not> stuck_with_error h s" using False st by simp
    ultimately show ?thesis using ar by (simp add: t)
  qed
qed

lemma io_turns_end:
  assumes "relay_inv k c s" and "0 \<le> k" and "0 \<le> c" and "io_turns hs s = (rs, e, s')"
  shows "length rs \<le> length hs" and "e \<longleftrightarrow> length rs < length hs"
    and "n \<le> length rs \<Longrightarrow> n < length hs \<Longrightarrow>
      stuck_with_error (hs ! n) (snd (snd (io_turns (take n hs) s))) \<longleftrightarrow> n = length rs"
proof -
  have "length rs \<le> length hs \<and> (e \<longleftrightarrow> length rs < length hs) \<and>
    (\<forall>n. n \<le> length rs \<longrightarrow> n < length hs \<longrightarrow>
      (stuck_with_error (hs ! n) (snd (snd (io_turns (take n hs) s))) \<longleftrightarrow> n = length rs))"
    using assms(1,4)
  proof (induction hs arbitrary: s rs e s')
    case Nil
    then show ?case by simp
  next
    case (Cons h hs)
    note t = io_turn_relay [OF Cons.prems(1) assms(2,3), of h]
    show ?case
    proof (cases "io_turn h s")
      case None
      then show ?thesis using t Cons.prems(2) by auto
    next
      case (Some q)
      obtain r s1 where q: "q = (r, s1)" by (cases q)
      obtain rs1 e1 s2 where n: "io_turns hs s1 = (rs1, e1, s2)" by (cases "io_turns hs s1") auto
      then have rs: "rs = r # rs1" "e = e1" using Cons.prems(2) Some q by auto
      have i: "relay_inv k c s1" "\<not> stuck_with_error h s" using t Some q by simp_all
      have tk: "snd (snd (io_turns (take (Suc m) (h # hs)) s)) = snd (snd (io_turns (take m hs) s1))" for m
        by (simp add: Some q split: prod.split)
      show ?thesis
      proof (intro conjI allI impI)
        fix m assume m: "m \<le> length rs" "m < length (h # hs)"
        show "stuck_with_error ((h # hs) ! m) (snd (snd (io_turns (take m (h # hs)) s))) \<longleftrightarrow> m = length rs"
          using m i(2) Cons.IH [OF i(1) n] rs by (cases m) (simp_all only: tk nth_Cons_Suc nth_Cons_0, simp_all)
      qed (use Cons.IH [OF i(1) n] rs in simp_all)
    qed
  qed
  then show "length rs \<le> length hs" "e \<longleftrightarrow> length rs < length hs"
    "n \<le> length rs \<Longrightarrow> n < length hs \<Longrightarrow>
      stuck_with_error (hs ! n) (snd (snd (io_turns (take n hs) s))) \<longleftrightarrow> n = length rs"
    by blast+
qed

text \<open>What the turns transfer.\<close>

lemma io_turns_meet:
  "relay_inv k c s \<longrightarrow> 0 \<le> k \<longrightarrow> 0 \<le> c \<longrightarrow> io_turns hs s = (rs, e, s') \<longrightarrow>
   map to_kbd rs = take (length rs) (rendezvous (armed 0 s) (armed 2 s)
     (map (\<lambda>h. (ready_now h 0, ready_now h 2, written (input_byte h) (kbd_takes h))) hs)) \<and>
   map to_output rs = take (length rs) (rendezvous (armed 3 s) (armed 1 s)
     (map (\<lambda>h. (ready_now h 3, ready_now h 1, written (console_byte h) (output_takes h))) hs)) \<and>
   (if e then length rs < length hs else length rs = length hs \<and> relay_inv k c s')"
proof (induction hs arbitrary: s rs e s')
  case Nil
  then show ?case by auto
next
  case (Cons h hs)
  show ?case
  proof (intro impI)
    assume p: "relay_inv k c s" "0 \<le> k" "0 \<le> c" "io_turns (h # hs) s = (rs, e, s')"
    note t = io_turn_relay [OF p(1-3), of h]
    show "map to_kbd rs = take (length rs) (rendezvous (armed 0 s) (armed 2 s)
         (map (\<lambda>h. (ready_now h 0, ready_now h 2, written (input_byte h) (kbd_takes h))) (h # hs))) \<and>
       map to_output rs = take (length rs) (rendezvous (armed 3 s) (armed 1 s)
         (map (\<lambda>h. (ready_now h 3, ready_now h 1, written (console_byte h) (output_takes h))) (h # hs))) \<and>
       (if e then length rs < length (h # hs) else length rs = length (h # hs) \<and> relay_inv k c s')"
    proof (cases "io_turn h s")
      case None
      with p(4) show ?thesis by auto
    next
      case (Some q)
      obtain r s1 where q: "q = (r, s1)" by (cases q)
      obtain rs1 e1 s2 where n: "io_turns hs s1 = (rs1, e1, s2)" by (cases "io_turns hs s1") auto
      then have r: "rs = r # rs1" "e = e1" "s' = s2" using p(4) Some q by auto
      have i: "relay_inv k c s1" and
        a: "\<And>i. i < 4 \<Longrightarrow> armed i s1 \<longleftrightarrow> (armed i s \<or> ready_now h i) \<and> \<not> (if i = 0 \<or> i = 2
          then (armed 0 s \<or> ready_now h 0) \<and> (armed 2 s \<or> ready_now h 2)
          else (armed 1 s \<or> ready_now h 1) \<and> (armed 3 s \<or> ready_now h 3))"
        and b: "to_kbd r = (if (armed 0 s \<or> ready_now h 0) \<and> (armed 2 s \<or> ready_now h 2)
            then written (input_byte h) (kbd_takes h) else [])"
          "to_output r = (if (armed 1 s \<or> ready_now h 1) \<and> (armed 3 s \<or> ready_now h 3)
            then written (console_byte h) (output_takes h) else [])"
        using t Some q by simp_all
      have m: "armed 0 s1 \<longleftrightarrow> (armed 0 s \<or> ready_now h 0) \<and> \<not> ((armed 0 s \<or> ready_now h 0) \<and> (armed 2 s \<or> ready_now h 2))"
        "armed 2 s1 \<longleftrightarrow> (armed 2 s \<or> ready_now h 2) \<and> \<not> ((armed 0 s \<or> ready_now h 0) \<and> (armed 2 s \<or> ready_now h 2))"
        "armed 1 s1 \<longleftrightarrow> (armed 1 s \<or> ready_now h 1) \<and> \<not> ((armed 1 s \<or> ready_now h 1) \<and> (armed 3 s \<or> ready_now h 3))"
        "armed 3 s1 \<longleftrightarrow> (armed 3 s \<or> ready_now h 3) \<and> \<not> ((armed 1 s \<or> ready_now h 1) \<and> (armed 3 s \<or> ready_now h 3))"
        using a [of 0] a [of 1] a [of 2] a [of 3] by simp_all
      note ih = Cons.IH [of s1 rs1 e1 s2, rule_format, OF i p(2,3) n]
      have "map to_kbd rs = take (length rs) (rendezvous (armed 0 s) (armed 2 s)
         (map (\<lambda>h. (ready_now h 0, ready_now h 2, written (input_byte h) (kbd_takes h))) (h # hs)))"
        using conjunct1 [OF ih] m(1,2) by (cases "(armed 0 s \<or> ready_now h 0) \<and> (armed 2 s \<or> ready_now h 2)", simp_all add: r(1) b(1) del: One_nat_def, blast)
      moreover have "map to_output rs = take (length rs) (rendezvous (armed 3 s) (armed 1 s)
         (map (\<lambda>h. (ready_now h 3, ready_now h 1, written (console_byte h) (output_takes h))) (h # hs)))"
        using conjunct1 [OF conjunct2 [OF ih]] m(3,4) by (cases "(armed 1 s \<or> ready_now h 1) \<and> (armed 3 s \<or> ready_now h 3)", simp_all add: r(1) b(2) del: One_nat_def, blast)
      ultimately show ?thesis using conjunct2 [OF conjunct2 [OF ih]] r by auto
    qed
  qed
qed

text \<open>
  C36: The relay of a terminal works as two independent meetings, one per direction: whatever the
  order in which the four descriptors become ready and however long they wait for each other, a
  byte goes over exactly when both ends of its direction have been ready since the last one, and
  never twice.  The loop ends in the first turn in which no direction can transfer and one of the
  pipes has an error, and in no other turn.
\<close>

theorem io_turns_are_rendezvous:
  "relay_inv k c s \<longrightarrow> 0 \<le> k \<longrightarrow> 0 \<le> c \<longrightarrow> io_turns hs s = (rs, e, s') \<longrightarrow>
   map to_kbd rs = take (length rs) (rendezvous (armed 0 s) (armed 2 s)
     (map (\<lambda>h. (ready_now h 0, ready_now h 2, written (input_byte h) (kbd_takes h))) hs)) \<and>
   map to_output rs = take (length rs) (rendezvous (armed 3 s) (armed 1 s)
     (map (\<lambda>h. (ready_now h 3, ready_now h 1, written (console_byte h) (output_takes h))) hs)) \<and>
   (if e then length rs < length hs else length rs = length hs \<and> relay_inv k c s') \<and>
   (\<forall>n. n \<le> length rs \<longrightarrow> n < length hs \<longrightarrow>
     (n = length rs \<longleftrightarrow> stuck_with_error (hs ! n) (snd (snd (io_turns (take n hs) s)))))"
  using io_turns_meet [of k c s hs rs e s'] io_turns_end(3) [of k c s hs rs e s'] by blast

text \<open>
  The input gets ready, then the keyboard's pipe, with an error: the byte goes over all the same, and
  the loop ends in the next turn.
\<close>

theorem io_turns_are_rendezvous_witness:
  "\<exists>s'. io_loop 5 6 [\<lparr>ready_now = (\<lambda>i. i = 0), error_now = (\<lambda>_. False), input_byte = None, console_byte = None,
       kbd_takes = True, output_takes = True\<rparr>,
     \<lparr>ready_now = (\<lambda>i. i = 2), error_now = (\<lambda>i. i = 2), input_byte = Some 7, console_byte = None,
       kbd_takes = True, output_takes = True\<rparr>,
     \<lparr>ready_now = (\<lambda>_. False), error_now = (\<lambda>i. i = 2), input_byte = None, console_byte = None,
       kbd_takes = True, output_takes = True\<rparr>] term_start =
     ([\<lparr>to_kbd = [], to_output = []\<rparr>, \<lparr>to_kbd = [7], to_output = []\<rparr>], True, s')"
proof -
  let ?s = "poll_init 5 6 term_start"
  let ?hs = "[\<lparr>ready_now = (\<lambda>i. i = 0), error_now = (\<lambda>_. False), input_byte = None, console_byte = None,
       kbd_takes = True, output_takes = True\<rparr>,
     \<lparr>ready_now = (\<lambda>i. i = 2), error_now = (\<lambda>i. i = 2), input_byte = Some 7, console_byte = None,
       kbd_takes = True, output_takes = True\<rparr>,
     \<lparr>ready_now = (\<lambda>_. False), error_now = (\<lambda>i. i = 2), input_byte = None, console_byte = None,
       kbd_takes = True, output_takes = True\<rparr>]"
  have a: "armed i ?s = False" for i by (simp add: armed_def polled_def poll_init_def term_start_def)
  have i: "relay_inv 5 6 ?s" using a by (simp add: relay_inv_def poll_init_def term_start_def)
  obtain rs e s' where l: "io_turns ?hs ?s = (rs, e, s')" by (cases "io_turns ?hs ?s") auto
  obtain r1 s1 where 1: "io_turn (?hs ! 0) ?s = Some (r1, s1)" "relay_inv 5 6 s1" "armed 0 s1" "\<not> armed 1 s1" "\<not> armed 3 s1"
    using io_turn_relay [OF i, of "?hs ! 0"] a by (auto simp: stuck_with_error_def split: option.splits)
  obtain r2 s2 where 2: "io_turn (?hs ! 1) s1 = Some (r2, s2)" "\<not> armed 0 s2" "\<not> armed 1 s2" "\<not> armed 2 s2" "\<not> armed 3 s2"
    using io_turn_relay [OF 1(2), of "?hs ! 1"] 1(3-5) by (auto simp: stuck_with_error_def split: option.splits)
  have n: "length rs \<noteq> 0" "length rs \<noteq> 1" using l 1(1) 2(1) by (auto split: prod.splits)
  have "stuck_with_error (?hs ! 2) s2" using 2(2-5) by (simp add: stuck_with_error_def)
  moreover have "snd (snd (io_turns (take 2 ?hs) ?s)) = s2" using 1(1) 2(1) by (simp add: numeral_2_eq_2)
  ultimately have "length rs = 2" "e"
    using io_turns_are_rendezvous [of 5 6 ?s ?hs rs e s', rule_format, OF i _ _ l] n
      io_turns_end(1) [OF i _ _ l] by (auto simp: numeral_3_eq_3 numeral_2_eq_2 le_Suc_eq split: if_splits)
  then have "map to_kbd rs = [[], [7]]" "map to_output rs = [[], []]"
    using io_turns_are_rendezvous [of 5 6 ?s ?hs rs e s'] i l a by (simp_all add: written_def numeral_2_eq_2)
  then have "rs = [\<lparr>to_kbd = [], to_output = []\<rparr>, \<lparr>to_kbd = [7], to_output = []\<rparr>]"
    by (auto simp: map_eq_Cons_conv)
  with l \<open>e\<close> show ?thesis by (simp add: io_loop_def)
qed

end
