(* ===== verification/Apps.thy ===== *)
theory Apps
  imports Shell Tinyoslib
begin

text \<open>
  The launchers of the symposium (src/symposium.c, src/mtask.c, src/tinyos_shell.c), the programs
  \<open>sysinfo\<close> and \<open>rcli\<close>, the process of the remote server that runs a command, and the
  arguments of the two executables.
\<close>

section \<open>The size of a symposium\<close>

definition FBASE :: int where "FBASE = 35"
definition FGAP :: int where "FGAP = 10"

text \<open>
  \<open>work\<close> is the integer part of \<open>log(2*N*bites)/log((1+sqrt(5))/2)\<close> as the C library's
  floating-point functions give it.
\<close>

definition adjust_symposium :: "int \<Rightarrow> symposium_t \<Rightarrow> int \<Rightarrow> int \<Rightarrow> symposium_t" where
  "adjust_symposium work sp dBASE dGAP =
     (let sp1 = sp\<lparr>fmin := FBASE + dBASE - work\<rparr> in sp1\<lparr>fmax := fmin sp1 + FGAP + dGAP\<rparr>)"

text \<open>\<open>r\<close> is the number that \<open>lrand48\<close> gives.\<close>

definition fiborand :: "nat \<Rightarrow> int \<Rightarrow> int \<Rightarrow> int result" where
  "fiborand r lo hi =
     (let m = hi - lo + 1
      in if m = 0 then Inl DivByZero else Inr (int r mod \<bar>m\<bar> + lo))"

text \<open>A philosopher thinks and eats by computing a Fibonacci number; the index is converted to \<open>unsigned\<close>.\<close>

definition think :: "nat \<Rightarrow> int \<Rightarrow> int \<Rightarrow> uint result" where
  "think r lo hi = rbind (fiborand r lo hi) (\<lambda>n. Inr (fibo (word_of_int n)))"

definition eat :: "nat \<Rightarrow> int \<Rightarrow> int \<Rightarrow> uint result" where "eat r lo hi = think r lo hi"

section \<open>What a symposium prints\<close>

fun state_char :: "PHIL \<Rightarrow> char" where
  "state_char NOTHERE = CHR ''.''"
| "state_char THINKING = CHR ''T''"
| "state_char HUNGRY = CHR ''H''"
| "state_char EATING = CHR ''E''"

text \<open>\<open>fmt\<close> is the format of the message, as the string it gives for a number.\<close>

definition print_state_line :: "nat \<Rightarrow> (nat \<Rightarrow> PHIL) \<Rightarrow> (nat \<Rightarrow> string) \<Rightarrow> nat \<Rightarrow> string" where
  "print_state_line n st fmt ph =
     (if n < 100
      then concat (map (\<lambda>i. if i = ph then ''['' @ [state_char (st i)] @ '']''
                            else '' '' @ [state_char (st i)] @ '' '') [0..<n])
      else []) @ fmt ph"

text \<open>What is printed of fewer than 100 philosophers determines the states of all of them.\<close>

lemma printed_states_determined:
  assumes "print_state_line n st fmt ph = print_state_line n st' fmt ph'" and "n < 100" and "fmt ph = fmt ph'"
  shows "\<forall>i < n. st i = st' i \<and> (i = ph \<longleftrightarrow> i = ph')"
proof -
  let ?c = "\<lambda>st ph i. if i = ph then ''['' @ [state_char (st i)] @ '']'' else '' '' @ [state_char (st i)] @ '' ''"
  have inj: "state_char x = state_char y \<Longrightarrow> x = y" for x y by (cases x; cases y) simp_all
  have "concat (map (?c st ph) [0..<n]) = concat (map (?c st' ph') [0..<n])"
    using assms by (simp add: print_state_line_def)
  then have "map (?c st ph) [0..<n] = map (?c st' ph') [0..<n]"
    by (subst (asm) concat_eq_concat_iff) (auto simp: in_set_zip)
  then have c: "?c st ph i = ?c st' ph' i" if "i < n" for i using that by simp
  have "st i = st' i \<and> (i = ph \<longleftrightarrow> i = ph')" if "i < n" for i
    using c [OF that] inj [of "st i" "st' i"] by (cases "i = ph"; cases "i = ph'") simp_all
  then show ?thesis by blast
qed

section \<open>The launchers\<close>

fun exec_philosophers :: "nat list \<Rightarrow> unit prog" where
  "exec_philosophers [] = Done ()"
| "exec_philosophers (i # is) = seq (call (sys_call.Exec (PhilosopherProcess i))) (exec_philosophers is)"

fun wait_philosophers :: "nat \<Rightarrow> unit prog" where
  "wait_philosophers 0 = Done ()"
| "wait_philosophers (Suc n) = seq (call (sys_call.WaitChild (-1))) (wait_philosophers n)"

definition SymposiumOfProcesses_main :: "symposium_t \<Rightarrow> int prog" where
  "SymposiumOfProcesses_main sp =
     seq (exec_philosophers [0..<N sp]) (seq (wait_philosophers (N sp)) (Done 0))"

fun create_philosophers :: "nat list \<Rightarrow> int list prog" where
  "create_philosophers [] = Done []"
| "create_philosophers (i # is) =
     bind (call (sys_call.CreateThread i)) (\<lambda>t. bind (create_philosophers is) (\<lambda>ts. Done (t # ts)))"

fun join_philosophers :: "int list \<Rightarrow> unit prog" where
  "join_philosophers [] = Done ()"
| "join_philosophers (t # ts) = seq (call (sys_call.ThreadJoin t)) (join_philosophers ts)"

definition SymposiumOfThreads :: "symposium_t \<Rightarrow> int prog" where
  "SymposiumOfThreads sp =
     bind (create_philosophers [0..<N sp]) (\<lambda>ts. seq (join_philosophers ts) (Done 0))"

definition symp_argproc :: "int \<Rightarrow> string list \<Rightarrow> symposium_t" where
  "symp_argproc work argv =
     (let sp = \<lparr>N = nat (getint 1 argv), bites = nat (getint 2 argv), fmin = 0, fmax = 0\<rparr>;
          dBASE = (if length argv \<ge> 4 then getint 3 argv else 0);
          dGAP = (if length argv \<ge> 5 then getint 4 argv else 0)
      in adjust_symposium work sp dBASE dGAP)"

definition Symposium_thr :: "int \<Rightarrow> string list \<Rightarrow> int prog" where
  "Symposium_thr work argv = check_args 2 argv (SymposiumOfThreads (symp_argproc work argv))"

definition Symposium_proc :: "int \<Rightarrow> string list \<Rightarrow> int prog" where
  "Symposium_proc work argv = check_args 2 argv (SymposiumOfProcesses_main (symp_argproc work argv))"

text \<open>The first process of the executable \<open>mtask\<close>.\<close>

definition open_std_checked :: "int \<Rightarrow> int prog" where
  "open_std_checked std =
     bind (call (sys_call.OpenTerminal 0)) (\<lambda>fid.
       if fid \<noteq> NOFILE \<and> fid \<noteq> std then seq (call (sys_call.Dup2 fid std)) (call (sys_call.Close fid)) else Done 0)"

definition boot_symposium :: "nat \<Rightarrow> symposium_t \<Rightarrow> int prog" where
  "boot_symposium fuel sp =
     seq (call ReplaceStdio)
    (bind (call sys_call.GetTerminalDevices) (\<lambda>n.
     seq (if n > 0 then seq (open_std_checked 0) (open_std_checked 1) else call PseudoConsole)
    (seq (call (sys_call.Exec (SymposiumOfProcesses sp)))
    (seq (call (sys_call.Close 0)) (seq (call (sys_call.Close 1))
    (seq (wait_all fuel) (seq (call RestoreStdio) (Done 0))))))))"

section \<open>The two executables\<close>

text \<open>What \<open>main\<close> boots: the cores, the terminals and the symposium, or nothing but the usage.\<close>

definition mtask_main :: "int \<Rightarrow> string list \<Rightarrow> (uint \<times> uint \<times> symposium_t) option" where
  "mtask_main work argv =
     (if length argv \<noteq> 5 then None
      else let ncores = word_of_int (getint 1 argv); nterm = word_of_int (getint 2 argv);
               nphil = getint 3 argv; bs = getint 4 argv
           in if nphil \<le> 0 \<or> nphil > int MAX_PROC then None
              else if bs \<le> 0 then None
              else Some (ncores, nterm, adjust_symposium work \<lparr>N = nat nphil, bites = nat bs, fmin = 0, fmax = 0\<rparr> 0 0))"

definition shell_main :: "string list \<Rightarrow> (uint \<times> uint) option" where
  "shell_main argv =
     (if length argv \<noteq> 3 then None
      else Some (word_of_int (getint 1 argv), word_of_int (getint 2 argv)))"

section \<open>Programs of the shell\<close>

definition help_text :: string where
  "help_text =
     ''This is a simple shell for tinyos.'' @ [newline, newline] @
     ''You can run some simple commands. Every command takes a'' @ [newline] @
     ''only **integer** arguments. The list of commands and the'' @ [newline] @
     ''number of arguments for each command is shown by'' @ [newline] @
     ''typing '' @ [CHR 0x27] @ ''ls'' @ [CHR 0x27] @ ''. '' @ [newline, newline] @
     ''When you are tired of playing, type '' @ [CHR 0x27] @ ''exit'' @ [CHR 0x27] @ '' to quit.'' @ [newline]"

definition HelpMessage :: "string list \<Rightarrow> string \<times> int" where
  "HelpMessage argv = (help_text, 0)"

text \<open>
  \<open>sysinfo\<close>.  \<open>decode\<close> reads the bytes of a \<open>procinfo\<close>, and \<open>c_str\<close> the characters of a string;
  each process takes one read, so that \<open>fuel\<close> bounds the number of processes.
\<close>

definition info_line :: "(cstr \<Rightarrow> string) \<Rightarrow> procinfo \<Rightarrow> string result" where
  "info_line c_str info =
     rbind (ParseProcInfo info (Some 10)) (\<lambda>(argc, argv).
       let pname = (if argc \<ge> 1 then c_str (hd argv)
                    else if argc = -1 \<and> pi_pid info = 1 then ''init'' else ''-'')
       in Inr (pad_left 5 (decimal (pi_pid info)) @ '' '' @ pad_left 5 (decimal (pi_ppid info)) @ '' '' @
               pad_left 6 (if pi_alive info \<noteq> 0 then ''ALIVE'' else ''ZOMBIE'') @ '' '' @
               pad_left 8 (digits (unat (ucast (pi_thread_count info) :: uint))) @ '' '' @ pad_left 20 pname @ [newline]))"

fun info_loop :: "nat \<Rightarrow> (8 word list \<Rightarrow> procinfo) \<Rightarrow> (cstr \<Rightarrow> string) \<Rightarrow> nat \<Rightarrow> int \<Rightarrow> unit prog" where
  "info_loop 0 decode c_str sz finfo = Abort Diverges"
| "info_loop (Suc fuel) decode c_str sz finfo =
     Call (sys_call.Read finfo (of_nat sz)) (\<lambda>r.
       if ret r > 0
       then (case info_line c_str (decode (bytes r)) of
               Inl e \<Rightarrow> Abort e
             | Inr line \<Rightarrow> seq (call (Print line)) (info_loop fuel decode c_str sz finfo))
       else Done ())"

definition SystemInfo :: "nat \<Rightarrow> (8 word list \<Rightarrow> procinfo) \<Rightarrow> (cstr \<Rightarrow> string) \<Rightarrow> nat \<Rightarrow> int prog" where
  "SystemInfo fuel decode c_str sz =
     bind (call Cores) (\<lambda>n. seq (call (Print (''Number of cores         = '' @ decimal n @ [newline])))
    (bind (call SerialPorts) (\<lambda>d. seq (call (Print (''Number of serial devices= '' @ decimal d @ [newline])))
    (bind (call sys_call.OpenInfo) (\<lambda>finfo.
     seq (if finfo \<noteq> NOFILE
          then seq (call (Print (pad_left 5 ''PID'' @ '' '' @ pad_left 5 ''PPID'' @ '' '' @ pad_left 6 ''State'' @ '' '' @
                      pad_left 8 ''Threads'' @ '' '' @ pad_left 20 ''Main program'' @ [newline])))
                   (info_loop fuel decode c_str sz finfo)
          else Done ())
    (seq (call (Print [newline])) (Done 0)))))))"

section \<open>The remote client and the remote process\<close>

definition REMOTE_SERVER_DEFAULT_PORT :: int where "REMOTE_SERVER_DEFAULT_PORT = 20"

text \<open>
  \<open>rcli\<close>.  \<open>argv\<close> are the program's arguments as bytes; \<open>le32\<close> are the bytes of an \<open>int\<close>, and
  \<open>input\<close> is what \<open>fgetc\<close> reads from the socket.  The exit of \<open>send_message\<close> ends the program.
\<close>

definition send_or_exit :: "int \<Rightarrow> 8 word list \<Rightarrow> int prog \<Rightarrow> int prog" where
  "send_or_exit sock buf rest =
     bind (send_message sock buf) (\<lambda>e. case e of Some code \<Rightarrow> Done code | None \<Rightarrow> rest)"

definition RemoteClient :: "string \<Rightarrow> (cint \<Rightarrow> 8 word list) \<Rightarrow> cstr list \<Rightarrow> int prog" where
  "RemoteClient input le32 argv =
     (if length argv \<le> 1
      then seq (call (Print (''Insufficient arguments. 1 expected, '' @ decimal (int (length argv) - 1) @ '' given.'' @ [newline])))
               (Done (-1))
      else bind (call (sys_call.Socket 0)) (\<lambda>sock.
           bind (call (sys_call.Connect sock REMOTE_SERVER_DEFAULT_PORT 1000)) (\<lambda>rc.
           if rc = -1
           then seq (call (Print (''Could not connect to the server'' @ [newline]))) (Done (-1))
           else if sock = NOFILE then Abort AssertFail
           else let argl = (ucast (argvlen (tl argv)) :: cint)
                in case argvpack (replicate (nat (sint argl)) 0) 0 (tl argv) of
                     Inl e \<Rightarrow> Abort e
                   | Inr (l, abuf) \<Rightarrow>
                       send_or_exit sock (le32 argl)
                      (send_or_exit sock abuf
                      (seq (call (sys_call.ShutDown sock))
                      (seq (call (Print (takeWhile (\<lambda>c. \<not> is_EOF c) input))) (Done 0)))))))"

text \<open>The status of a child that was not waited for is that of an uninitialised variable.\<close>

definition rsrv_process :: "string list \<Rightarrow> int prog" where
  "rsrv_process argv = check_args 2 argv
     (let sock = atoi (argv ! 1)
      in if sock = 0 \<or> sock = 1 then Abort AssertFail
         else seq (call (sys_call.Dup2 sock 0)) (seq (call (sys_call.Dup2 sock 1)) (seq (call (sys_call.Close sock))
             (let c = getprog 2 argv
              in if c = -1
                 then seq (call (Print (''Error in remote process: Command '' @ argv ! 2 @ '' is not found'' @ [newline])))
                          (Done (-1))
                 else bind (call (sys_call.Execute (command_prog (nat c)) (drop 2 argv))) (\<lambda>pid.
                      Call (sys_call.WaitChild pid) (\<lambda>r. Done (answer.status r)))))))"

section \<open>The calls of the launchers\<close>

text \<open>A system that records the calls and answers each as it likes.\<close>

definition recording :: "(sys_call list \<Rightarrow> sys_call \<Rightarrow> answer) \<Rightarrow> sys_call \<Rightarrow> sys_call list \<Rightarrow> answer \<times> sys_call list" where
  "recording ans c tr = (ans tr c, tr @ [c])"

lemma run_call_recording [simp]: "run_prog (recording ans) (call c) tr = Inr (ret (ans tr c), tr @ [c])"
  by (simp add: run_call recording_def)

lemma exec_calls:
  "run_prog (recording ans) (exec_philosophers is) tr =
     Inr ((), tr @ map (\<lambda>i. sys_call.Exec (PhilosopherProcess i)) is)"
  by (induction "is" arbitrary: tr) (simp_all add: run_seq)

lemma wait_calls:
  "run_prog (recording ans) (wait_philosophers n) tr = Inr ((), tr @ replicate n (sys_call.WaitChild (-1)))"
  by (induction n arbitrary: tr) (simp_all add: run_seq)

lemma join_calls:
  "run_prog (recording ans) (join_philosophers ts) tr = Inr ((), tr @ map sys_call.ThreadJoin ts)"
  by (induction ts arbitrary: tr) (simp_all add: run_seq)

lemma create_calls:
  "run_prog (recording ans) (create_philosophers is) tr =
     Inr (map (\<lambda>k. ret (ans (tr @ map sys_call.CreateThread (take k is)) (sys_call.CreateThread (is ! k)))) [0..<length is],
          tr @ map sys_call.CreateThread is)"
proof (induction "is" arbitrary: tr)
  case Nil
  then show ?case by simp
next
  case (Cons i "is")
  have "map f [0..<Suc n] = f 0 # map (\<lambda>k. f (Suc k)) [0..<n]" for f :: "nat \<Rightarrow> int" and n
    by (simp add: upt_conv_Cons map_Suc_upt [symmetric] del: upt_Suc)
  then show ?case by (simp add: run_bind Cons.IH del: upt_Suc)
qed

text \<open>
  Whatever the system answers, a symposium of processes starts every philosopher once, in
  order, and then waits for as many children; a symposium of threads starts every philosopher
  once and then joins the threads that it was given, each once and in that order.
\<close>

theorem symposium_launchers:
  "run_prog (recording ans) (SymposiumOfProcesses_main sp) [] =
     Inr (0, map (\<lambda>i. sys_call.Exec (PhilosopherProcess i)) [0..<N sp] @ replicate (N sp) (sys_call.WaitChild (-1))) \<and>
   run_prog (recording ans) (SymposiumOfThreads sp) [] =
     Inr (0, map sys_call.CreateThread [0..<N sp] @
       map (\<lambda>i. sys_call.ThreadJoin (ret (ans (map sys_call.CreateThread [0..<i]) (sys_call.CreateThread i)))) [0..<N sp])"
proof -
  have "map (\<lambda>k. ret (ans ([] @ map sys_call.CreateThread (take k [0..<n])) (sys_call.CreateThread ([0..<n] ! k)))) [0..<length [0..<n]] =
      map (\<lambda>i. ret (ans (map sys_call.CreateThread [0..<i]) (sys_call.CreateThread i))) [0..<n]" for n
    by (simp add: take_upt)
  then show ?thesis
    by (simp add: SymposiumOfProcesses_main_def SymposiumOfThreads_def run_seq run_bind exec_calls wait_calls
        create_calls join_calls)
qed

text \<open>On a system whose sockets do not connect, the remote client says so and ends with -1.\<close>

lemma RemoteClient_not_connected:
  assumes "\<And>tr sock. ret (ans tr (sys_call.Connect sock REMOTE_SERVER_DEFAULT_PORT 1000)) = -1" and "1 < length argv"
  shows "\<exists>sock. run_prog (recording ans) (RemoteClient input le32 argv) [] =
    Inr (-1, [sys_call.Socket 0, sys_call.Connect sock REMOTE_SERVER_DEFAULT_PORT 1000,
      Print (''Could not connect to the server'' @ [newline])])"
  using assms by (simp add: RemoteClient_def run_bind run_seq)

end
