(* ===== verification/Remote_Log.thy ===== *)
theory Remote_Log
  imports RList_Loops Shell_Programs
begin

text \<open>
  The log and the console of the remote server (src/tinyos_shell.c).  The log is a resource list
  of records on the heap, each a list node followed by the message; the server's threads share
  it.  \<open>a\<close> is the address that the C library gives a new record.
\<close>

section \<open>The log\<close>

datatype log_node = Log | TmpList | Logrec nat

text \<open>The members of \<open>struct __rs_globals\<close> that the operations below use.\<close>

record rs_globals =
  quit :: bool
  active_conn :: "64 word"
  total_conn :: "64 word"
  conn_id_counter :: "64 word"
  log_heap :: "(log_node, 64 word) rlheap"
  messages :: "nat \<rightharpoonup> string"        \<comment> \<open>the records that are allocated\<close>
  logcount :: "64 word"

definition log_init :: "rs_globals \<Rightarrow> rs_globals" where
  "log_init g = g\<lparr>log_heap := rlnode_init Log 0 (log_heap g), logcount := 0\<rparr>"

definition log_message :: "nat \<Rightarrow> string \<Rightarrow> rs_globals \<Rightarrow> rs_globals" where
  "log_message a msg g =
     (let g1 = g\<lparr>messages := (messages g)(a \<mapsto> msg), logcount := logcount g + 1\<rparr>;
          h = rlnode_new (Logrec a) (log_heap g1);
          h1 = h\<lparr>obj := (obj h)(Logrec a := logcount g1)\<rparr>
      in g1\<lparr>log_heap := rlist_push_back Log (Logrec a) h1\<rparr>)"

text \<open>The number is printed as an \<open>int\<close>.\<close>

definition log_line :: "64 word \<Rightarrow> string \<Rightarrow> string" where
  "log_line num msg = pad_left 6 (decimal (sint (ucast num :: cint))) @ '': '' @ msg @ [newline]"

partial_function (option) log_print_loop :: "rs_globals \<Rightarrow> log_node \<Rightarrow> string result option" where
  "log_print_loop g ptr =
     (if ptr \<noteq> Log
      then (case ptr of
              Logrec a \<Rightarrow> (case messages g a of
                  None \<Rightarrow> Some (Inl DanglingPtr)
                | Some msg \<Rightarrow>
                    Option.bind (log_print_loop g (nxt (log_heap g) ptr)) (\<lambda>r.
                      Some (rbind r (\<lambda>rest. Inr (log_line (obj (log_heap g) ptr) msg @ rest)))))
            | _ \<Rightarrow> Some (Inl NullDeref))
      else Some (Inr []))"

definition log_print :: "rs_globals \<Rightarrow> string result option" where
  "log_print g = log_print_loop g (nxt (log_heap g) Log)"

text \<open>The loop of \<open>log_truncate\<close> that frees the records; a record that is freed twice is a fault.\<close>

partial_function (option) truncate_loop :: "rs_globals \<Rightarrow> rs_globals result option" where
  "truncate_loop g =
     (if nxt (log_heap g) TmpList \<noteq> TmpList
      then (let (r, h) = rlist_pop_front TmpList (log_heap g)
            in case r of
                 Logrec a \<Rightarrow>
                   if messages g a = None then Some (Inl DanglingPtr)
                   else truncate_loop (g\<lparr>log_heap := h, messages := (messages g)(a := None)\<rparr>)
               | _ \<Rightarrow> Some (Inl NullDeref))
      else Some (Inr g))"

definition log_truncate :: "rs_globals \<Rightarrow> rs_globals result option" where
  "log_truncate g =
     truncate_loop (g\<lparr>log_heap := rlist_append TmpList Log (rlnode_init TmpList 0 (log_heap g))\<rparr>)"

section \<open>The console and the connections\<close>

definition init_globals :: "rs_globals \<Rightarrow> rs_globals" where
  "init_globals g = log_init (g\<lparr>quit := False, active_conn := 0, total_conn := 0, conn_id_counter := 0\<rparr>)"

text \<open>
  What a line typed at the server's console does: the output and the new state, or the end of
  the server, which then closes its socket, joins its listener and waits for the connections.
\<close>

datatype console = Output string | Quit

definition server_command :: "string \<Rightarrow> rs_globals \<Rightarrow> (console \<times> rs_globals) result option" where
  "server_command line g =
     (if line = ''q'' @ [newline] then Some (Inr (Quit, g\<lparr>quit := True\<rparr>))
      else if line = ''s'' @ [newline]
      then Some (Inr (Output (''Connections: active='' @ pad_left 4 (decimal (sint (active_conn g))) @ '' total='' @
                      pad_left 4 (decimal (sint (total_conn g))) @ [newline]), g))
      else if line = ''h'' @ [newline]
      then Some (Inr (Output (''Commands: '' @ [newline] @ ''q: quit the server'' @ [newline] @ ''h: print this help'' @ [newline] @
                      ''s: show statistics'' @ [newline] @ ''l: show the log'' @ [newline]), g))
      else if line = ''l'' @ [newline]
      then (case log_print g of None \<Rightarrow> None | Some r \<Rightarrow> Some (rbind r (\<lambda>out. Inr (Output out, g))))
      else if line = [newline] then Some (Inr (Output [], g))
      else Some (Inr (Output (''Unknown command: '' @ [CHR 0x27] @ line @ [CHR 0x27] @ [newline]), g)))"

text \<open>A connection takes the next number.\<close>

definition client_started :: "rs_globals \<Rightarrow> 64 word \<times> rs_globals" where
  "client_started g = (let n = conn_id_counter g + 1 in (n, g\<lparr>conn_id_counter := n\<rparr>))"

section \<open>The log is a list of numbered messages\<close>

definition log_ok :: "rs_globals \<Rightarrow> (nat \<times> 64 word \<times> string) list \<Rightarrow> bool" where
  "log_ok g rs \<longleftrightarrow> isring (log_heap g) Log (map (\<lambda>r. Logrec (fst r)) rs) \<and>
     (\<forall>(a, n, msg) \<in> set rs. messages g a = Some msg \<and> obj (log_heap g) (Logrec a) = n)"

lemma log_okD:
  assumes "log_ok g rs"
  shows "isring (log_heap g) Log (map (\<lambda>r. Logrec (fst r)) rs)"
    and "(a, n, msg) \<in> set rs \<Longrightarrow> messages g a = Some msg \<and> obj (log_heap g) (Logrec a) = n"
  using assms by (auto simp: log_ok_def)

lemma log_init_ok: "log_ok (log_init g) []"
  by (simp add: log_ok_def log_init_def init_list)

lemma log_message_ok:
  assumes ok: "log_ok g rs" and new: "messages g a = None"
  shows "log_ok (log_message a msg g) (rs @ [(a, logcount g + 1, msg)])"
    and "messages (log_message a msg g) = (messages g)(a \<mapsto> msg)"
    and "logcount (log_message a msg g) = logcount g + 1"
proof -
  let ?ns = "map (\<lambda>r. Logrec (fst r)) rs" and ?k = "logcount g + 1"
  have h: "log_heap (log_message a msg g) = rlist_push_back Log (Logrec a) (rlnode_init (Logrec a) ?k (log_heap g))"
    by (simp add: log_message_def Let_def rlnode_init_def)
  note d = log_okD [OF ok]
  have fresh: "b \<noteq> a" if "(b, n, m) \<in> set rs" for b n m using d(2) [OF that] new by auto
  then have n: "Logrec a \<notin> set (Log # ?ns)" by auto (use fresh in blast)
  have "isring (rlnode_init (Logrec a) ?k (log_heap g)) Log ?ns" by (rule init_keeps [OF d(1) n])
  from push_back_list [OF this init_list n] have "isring (log_heap (log_message a msg g)) Log (?ns @ [Logrec a])"
    by (simp add: h)
  moreover show m: "messages (log_message a msg g) = (messages g)(a \<mapsto> msg)"
    by (simp add: log_message_def Let_def)
  moreover have "obj (log_heap (log_message a msg g)) = (obj (log_heap g))(Logrec a := ?k)"
    by (simp add: h rlnode_init_def Let_def rlnode_new_def)
  ultimately show "log_ok (log_message a msg g) (rs @ [(a, ?k, msg)])"
    using d(2) fresh by (auto simp: log_ok_def)
  show "logcount (log_message a msg g) = logcount g + 1" by (simp add: log_message_def Let_def)
qed

lemma print_loop:
  "dseg (log_heap g) x (map (\<lambda>r. Logrec (fst r)) rs) Log \<Longrightarrow>
   (\<And>a n msg. (a, n, msg) \<in> set rs \<Longrightarrow> messages g a = Some msg \<and> obj (log_heap g) (Logrec a) = n) \<Longrightarrow>
   log_print_loop g (nxt (log_heap g) x) = Some (Inr (concat (map (\<lambda>(a, n, msg). log_line n msg) rs)))"
proof (induction rs arbitrary: x)
  case Nil
  then show ?case by (simp add: log_print_loop.simps)
next
  case (Cons r rs)
  obtain a n msg where r: "r = (a, n, msg)" by (cases r) auto
  have x: "nxt (log_heap g) x = Logrec a" "dseg (log_heap g) (Logrec a) (map (\<lambda>r. Logrec (fst r)) rs) Log"
    using Cons.prems(1) r by simp_all
  have "log_print_loop g (nxt (log_heap g) (Logrec a)) = Some (Inr (concat (map (\<lambda>(a, n, msg). log_line n msg) rs)))"
    by (rule Cons.IH [OF x(2)]) (rule Cons.prems(2), simp)
  moreover have "messages g a = Some msg" "obj (log_heap g) (Logrec a) = n" using Cons.prems(2) r by auto
  ultimately show ?case using x(1) r by (simp add: log_print_loop.simps [of g "Logrec a"])
qed

lemma truncate_ok:
  "isring (log_heap g) TmpList (map (\<lambda>r. Logrec (fst r)) rs) \<Longrightarrow> isring (log_heap g) Log [] \<Longrightarrow>
   (\<And>a n msg. (a, n, msg) \<in> set rs \<Longrightarrow> messages g a \<noteq> None) \<Longrightarrow>
   \<exists>g'. truncate_loop g = Some (Inr g') \<and> log_ok g' [] \<and> logcount g' = logcount g \<and>
     messages g' = (messages g) |` (- (fst ` set rs))"
proof (induction rs arbitrary: g)
  case Nil
  then have "nxt (log_heap g) TmpList = TmpList" by (simp add: isring_Nil)
  then show ?case using Nil.prems(2) by (auto simp: truncate_loop.simps [of g] log_ok_def)
next
  case (Cons r rs)
  obtain a n msg where r: "r = (a, n, msg)" by (cases r) auto
  have ring: "isring (log_heap g) TmpList (Logrec a # map (\<lambda>r. Logrec (fst r)) rs)" using Cons.prems(1) r by simp
  note p = pop_front_list [OF ring]
  have nx: "nxt (log_heap g) TmpList = Logrec a" using isring_nxt [OF ring] by simp
  then obtain h where pop: "rlist_pop_front TmpList (log_heap g) = (Logrec a, h)" by (simp add: rlist_pop_front_def)
  let ?g = "g\<lparr>log_heap := h, messages := (messages g)(a := None)\<rparr>"
  have t: "isring h TmpList (map (\<lambda>r. Logrec (fst r)) rs)" using p(2) pop by simp
  have l: "isring h Log []" using pop_front_keeps [OF Cons.prems(2) ring] pop by simp
  have k: "messages ?g b \<noteq> None" if b: "(b, m, u) \<in> set rs" for b m u
  proof -
    have "distinct (Logrec a # map (\<lambda>r. Logrec (fst r)) rs)" using isring_distinct [OF ring] by simp
    with b have "b \<noteq> a" by force
    with Cons.prems(3) [of b m u] b show ?thesis by simp
  qed
  have "\<exists>g'. truncate_loop ?g = Some (Inr g') \<and> log_ok g' [] \<and> logcount g' = logcount ?g \<and>
      messages g' = messages ?g |` (- (fst ` set rs))"
    by (rule Cons.IH) (use t l k in simp_all)
  then obtain g' where g': "truncate_loop ?g = Some (Inr g')" "log_ok g' []" "logcount g' = logcount g"
    "messages g' = messages ?g |` (- (fst ` set rs))" by (elim exE conjE) simp
  have "messages g a \<noteq> None" using Cons.prems(3) r by auto
  then have "truncate_loop g = Some (Inr g')" using nx pop g'(1) by (auto simp: truncate_loop.simps [of g])
  moreover have "messages g' = messages g |` (- (fst ` set (r # rs)))"
    using g'(4) r by (auto simp: restrict_map_def fun_eq_iff)
  ultimately show ?case using g'(2,3) by blast
qed

lemma log_print_ok:
  assumes "log_ok g rs" shows "log_print g = Some (Inr (concat (map (\<lambda>(a, n, msg). log_line n msg) rs)))"
  unfolding log_print_def by (rule print_loop) (use log_okD [OF assms] in \<open>simp_all add: isring_def\<close>)

lemma log_truncate_ok:
  assumes "log_ok g rs"
  shows "\<exists>g'. log_truncate g = Some (Inr g') \<and> log_ok g' [] \<and> messages g' = messages g |` (- (fst ` set rs))"
proof -
  note d = log_okD [OF assms]
  let ?ns = "map (\<lambda>r. Logrec (fst r)) rs" and ?h = "rlnode_init TmpList 0 (log_heap g)"
  have l: "isring ?h Log ?ns" by (rule init_keeps [OF d(1)]) auto
  have t: "isring ?h TmpList []" by (rule init_list)
  have "isring (rlist_append TmpList Log ?h) TmpList ?ns" "isring (rlist_append TmpList Log ?h) Log []"
    using append_list [OF t l] by simp_all
  then show ?thesis
    using truncate_ok [of "g\<lparr>log_heap := rlist_append TmpList Log ?h\<rparr>" rs] d(2)
    unfolding log_truncate_def by fastforce
qed

text \<open>
  The log of the remote server is the list of the messages, numbered in the order in which they
  came, whoever wrote them: \<open>log_print\<close> prints them all and ends, and \<open>log_truncate\<close> frees every
  record once, leaves other memory alone and leaves an empty log, to which messages can be added
  again.
\<close>

theorem log_keeps_messages:
  assumes "log_ok g rs" and "messages g a = None"
  shows "log_ok (log_message a msg g) (rs @ [(a, logcount g + 1, msg)]) \<and>
    log_print g = Some (Inr (concat (map (\<lambda>(a, n, msg). log_line n msg) rs))) \<and>
    (\<exists>g'. log_truncate g = Some (Inr g') \<and> log_ok g' [] \<and> messages g' = messages g |` (- (fst ` set rs)))"
  using log_message_ok(1) [OF assms] log_print_ok [OF assms(1)] log_truncate_ok [OF assms(1)] by blast

text \<open>Two messages are written, printed and freed.\<close>

theorem log_keeps_messages_witness:
  "\<forall>g. \<exists>g1 g2. log_print (log_message 6 ''b'' (log_message 5 ''a'' (log_init (g\<lparr>messages := Map.empty\<rparr>)))) =
       Some (Inr (log_line 1 ''a'' @ log_line 2 ''b'')) \<and>
     log_truncate (log_message 5 ''a'' (log_init (g\<lparr>messages := Map.empty\<rparr>))) = Some (Inr g1) \<and> log_ok g1 [] \<and>
     messages g1 = Map.empty \<and> log_ok (log_message 7 ''c'' g1) g2"
proof
  fix g
  let ?g0 = "log_init (g\<lparr>messages := Map.empty\<rparr>)"
  have m0: "messages ?g0 = Map.empty" "logcount ?g0 = 0" by (simp_all add: log_init_def)
  note k0 = log_keeps_messages [OF log_init_ok, of "g\<lparr>messages := Map.empty\<rparr>" 5 "''a''", simplified m0, OF refl]
  let ?g1 = "log_message 5 ''a'' ?g0"
  have o1: "log_ok ?g1 [(5, 1, ''a'')]" using k0 by simp
  have m1: "messages ?g1 = [5 \<mapsto> ''a'']" "logcount ?g1 = 1"
    using log_message_ok(2,3) [OF log_init_ok, of "g\<lparr>messages := Map.empty\<rparr>" 5 "''a''"] m0 by simp_all
  have f: "messages ?g1 6 = None" by (simp add: m1)
  note k1 = log_keeps_messages [OF o1 f, of "''b''"]
  then obtain g' where g': "log_truncate ?g1 = Some (Inr g')" "log_ok g' []" "messages g' = messages ?g1 |` (- {5})" by auto
  have o2: "log_ok (log_message 6 ''b'' ?g1) [(5, 1, ''a''), (6, 2, ''b'')]" using k1 by (simp add: m1)
  have "messages (log_message 6 ''b'' ?g1) 8 = None" using log_message_ok(2) [OF o1 f] by (simp add: m1)
  from log_keeps_messages [OF o2 this] have p: "log_print (log_message 6 ''b'' ?g1) = Some (Inr (log_line 1 ''a'' @ log_line 2 ''b''))"
    by simp
  have e: "messages g' = Map.empty" using g'(3) m1 by (auto simp: fun_eq_iff restrict_map_def)
  then have "log_ok (log_message 7 ''c'' g') ([] @ [(7, logcount g' + 1, ''c'')])" by (intro log_message_ok(1) [OF g'(2)]) simp
  with p g'(1,2) e show "\<exists>g1 g2. log_print (log_message 6 ''b'' ?g1) = Some (Inr (log_line 1 ''a'' @ log_line 2 ''b'')) \<and>
     log_truncate ?g1 = Some (Inr g1) \<and> log_ok g1 [] \<and> messages g1 = Map.empty \<and> log_ok (log_message 7 ''c'' g1) g2" by blast
qed

end
