(* ===== verification/Remote_Server.thy ===== *)
theory Remote_Server
  imports Remote_Log Apps
begin

text \<open>
  The remote server of src/tinyos_shell.c with its threads: the console, which is the main thread
  of the server's process, the listener, and a thread for every connection.  They share the
  members of \<open>struct __rs_globals\<close>, a local variable of \<open>RemoteServer\<close>.  A section between
  \<open>Mutex_Lock(&GS(mx))\<close> and its end is one step of its thread, except where another thread changes
  the same members without the mutex: the listener counts a connection in two steps, a load and a
  store, and so does a connection that ends.  What the system answers to a call is an argument.
\<close>

section \<open>Messages\<close>

text \<open>The bytes of an \<open>int\<close>, the lowest first.\<close>

definition int_bytes :: "cint \<Rightarrow> 8 word list" where
  "int_bytes w = map (\<lambda>i. ucast (drop_bit (8 * i) w)) [0..<4]"

definition bytes_int :: "8 word list \<Rightarrow> cint" where
  "bytes_int bs = fold (\<lambda>i w. or w (push_bit (8 * i) (ucast (bs ! i)))) [0..<4] 0"

text \<open>The arguments for the process that runs the command of a request.\<close>

definition request_argv :: "int \<Rightarrow> 8 word list \<Rightarrow> string list result" where
  "request_argv sock buf =
     rbind (argscount (int (length buf)) buf) (\<lambda>argc.
     rbind (argvunpack (unat argc) buf 0) (\<lambda>(argv, last).
       Inr (''rsrv_process'' # decimal sock # map (\<lambda>p. map (\<lambda>b. char_of (unat b)) (c_string buf p)) argv)))"

definition client_msg :: "string \<Rightarrow> 64 word \<Rightarrow> string \<Rightarrow> string" where
  "client_msg name n msg = name @ ''['' @ pad_left 6 (digits (unat n)) @ '']: '' @ msg"

definition refused_msg :: string where
  "refused_msg = ''listener(port='' @ decimal REMOTE_SERVER_DEFAULT_PORT @ ''): failed to accept!'' @ [newline]"

section \<open>The threads\<close>

text \<open>
  Where the console is: it reads a command; after \<open>q\<close> it closes the listener's socket, calls
  \<open>ThreadJoin\<close> on the listener (\<open>M_Join\<close>) and sleeps there until the listener exits (\<open>M_Joining\<close>),
  waits for the connections (\<open>M_Asleep\<close> is the sleep in \<open>Cond_Wait\<close>) and frees the log.
\<close>

datatype main_pc = M_Read | M_Close | M_Join | M_Joining | M_Drain | M_Asleep | M_Truncate | M_Returned

text \<open>
  The listener: after an accepted connection (its socket is the number) it has to load
  \<open>active_conn\<close>, to store it, to count \<open>total_conn\<close>, and to start the thread.  With the step to
  \<open>L_Done\<close> the function returns and \<open>start_thread\<close> has made the thread exit.
\<close>

datatype listener_pc =
    L_Start | L_Accept | L_Refused | L_Load int | L_Store int "64 word" | L_Total int | L_Create int | L_Done int

text \<open>A connection; the first number is its ID, and \<open>C_Store\<close> is between the load and the store of \<open>active_conn\<close>.\<close>

datatype client_pc =
    C_Start | C_Started "64 word" | C_Length "64 word" | C_Args "64 word" nat | C_Error "64 word"
  | C_Execute "64 word" "string list" | C_Finished "64 word" int | C_Load "64 word" | C_Store "64 word" "64 word"
  | C_Done "64 word"

record server =
  globals :: rs_globals
  held :: bool                 \<comment> \<open>a connection is between the load and the store, and holds \<open>mx\<close>\<close>
  listener_socket :: int
  closed :: "int list"         \<comment> \<open>the file ids that the console has closed\<close>
  main_at :: main_pc
  listener_at :: listener_pc
  clients :: "(int \<times> client_pc) list"

text \<open>The variable that holds the globals does not exist any more when \<open>RemoteServer\<close> has returned.\<close>

definition on_globals :: "server \<Rightarrow> 'a result option \<Rightarrow> 'a result option" where
  "on_globals S r = (if main_at S = M_Returned then Some (Inl DanglingPtr) else r)"

text \<open>A section under \<open>mx\<close>: it waits while another thread holds the mutex.\<close>

definition under_mx :: "server \<Rightarrow> 'a result option \<Rightarrow> 'a result option" where
  "under_mx S r = on_globals S (if held S then None else r)"

subsection \<open>A connection\<close>

text \<open>
  What a connection gets: the address of its next log record, the bytes that \<open>recv_message\<close> puts
  into the buffer, and the value of \<open>exitstatus\<close> after \<open>WaitChild\<close>.
\<close>

record client_env =
  rec_addr :: nat
  got :: "8 word list"
  exit_status :: int

definition log_step :: "nat \<Rightarrow> string \<Rightarrow> client_pc \<Rightarrow> server \<Rightarrow> (client_pc \<times> server) result option" where
  "log_step a msg pc S = under_mx S (Some (Inr (pc, S\<lparr>globals := log_message a msg (globals S)\<rparr>)))"

fun client_step :: "client_env \<Rightarrow> int \<Rightarrow> client_pc \<Rightarrow> server \<Rightarrow> (client_pc \<times> server) result option" where
  "client_step e sock C_Start S =
     under_mx S (let (n, g) = client_started (globals S) in Some (Inr (C_Started n, S\<lparr>globals := g\<rparr>)))"
| "client_step e sock (C_Started n) S = log_step (rec_addr e) (client_msg ''Client'' n ''started'') (C_Length n) S"
| "client_step e sock (C_Length n) S =
     (if length (got e) \<noteq> 4 then Some (Inr (C_Error n, S))
      else let len = sint (bytes_int (got e))
           in if len > 0 \<and> len \<le> 2048 then Some (Inr (C_Args n (nat len), S)) else Some (Inl AssertFail))"
| "client_step e sock (C_Args n len) S =
     (if length (got e) \<noteq> len then Some (Inr (C_Error n, S))
      else Some (rbind (request_argv sock (got e)) (\<lambda>argv. Inr (C_Execute n argv, S))))"
| "client_step e sock (C_Error n) S =
     log_step (rec_addr e) (client_msg ''Cliend'' n ''error in receiving request, aborting'') (C_Load n) S"
| "client_step e sock (C_Execute n argv) S = Some (Inr (C_Finished n (exit_status e), S))"
| "client_step e sock (C_Finished n st) S =
     log_step (rec_addr e) (client_msg ''Client'' n (''finished with status '' @ decimal st)) (C_Load n) S"
| "client_step e sock (C_Load n) S =
     under_mx S (Some (Inr (C_Store n (active_conn (globals S)), S\<lparr>held := True\<rparr>)))"
| "client_step e sock (C_Store n v) S =
     on_globals S (Some (Inr (C_Done n,
       S\<lparr>globals := (globals S)\<lparr>active_conn := v - 1\<rparr>, held := False,
         main_at := (if main_at S = M_Asleep then M_Drain else main_at S)\<rparr>)))"
| "client_step e sock (C_Done n) S = None"

subsection \<open>The listener\<close>

text \<open>
  What the listener gets: the file id that \<open>Socket\<close> or \<open>Accept\<close> returns, the result of \<open>Listen\<close>,
  the address of a log record, and whether \<open>CreateThread\<close> succeeds.
\<close>

record listener_env =
  sock_fid :: int
  listen_rc :: int
  log_addr :: nat
  created :: bool

fun listen_at :: "listener_env \<Rightarrow> listener_pc \<Rightarrow> server \<Rightarrow> server result option" where
  "listen_at e L_Start S =
     (if listen_rc e = -1 then Some (Inr (S\<lparr>listener_at := L_Done (-1)\<rparr>))
      else on_globals S (Some (Inr (S\<lparr>listener_socket := sock_fid e, listener_at := L_Accept\<rparr>))))"
| "listen_at e L_Accept S =
     Some (Inr (S\<lparr>listener_at := (if sock_fid e = NOFILE then L_Refused else L_Load (sock_fid e))\<rparr>))"
| "listen_at e L_Refused S =
     on_globals S
       (if quit (globals S) then Some (Inr (S\<lparr>listener_at := L_Done 0\<rparr>))
        else under_mx S (Some (Inr (S\<lparr>globals := log_message (log_addr e) refused_msg (globals S), listener_at := L_Accept\<rparr>))))"
| "listen_at e (L_Load sock) S = on_globals S (Some (Inr (S\<lparr>listener_at := L_Store sock (active_conn (globals S))\<rparr>)))"
| "listen_at e (L_Store sock v) S =
     on_globals S (Some (Inr (S\<lparr>globals := (globals S)\<lparr>active_conn := v + 1\<rparr>, listener_at := L_Total sock\<rparr>)))"
| "listen_at e (L_Total sock) S =
     on_globals S (Some (Inr (S\<lparr>globals := (globals S)\<lparr>total_conn := total_conn (globals S) + 1\<rparr>, listener_at := L_Create sock\<rparr>)))"
| "listen_at e (L_Create sock) S =
     Some (Inr (S\<lparr>clients := (if created e then clients S @ [(sock, C_Start)] else clients S), listener_at := L_Accept\<rparr>))"
| "listen_at e (L_Done v) S = None"

definition listener_step :: "listener_env \<Rightarrow> server \<Rightarrow> server result option" where
  "listener_step e S = listen_at e (listener_at S) S"

subsection \<open>The console\<close>

text \<open>The prompt; a command that prints the log waits for the mutex.\<close>

definition prompt :: string where "prompt = ''Type h for help, or a command: ''"

definition waiting_msg :: "64 word \<Rightarrow> string" where
  "waiting_msg n = ''Waiting '' @ digits (unat n) @ '' connections ...'' @ [newline]"

text \<open>
  A step of the console with what it prints; \<open>line\<close> is the line that was typed, or \<open>None\<close> at the
  end of the input, where the server returns at once.  \<open>ThreadJoin(listener, NULL)\<close> reads the
  listener's PTCB: a thread that nobody has joined frees its PTCB when it exits
  (\<open>exit_ptcb\<close> in the theory \<open>Threads\<close>), and only the console joins the listener, so the call on a
  listener that has ended is a use of freed memory.  Otherwise the console is counted as a joiner
  and sleeps until the exit, which keeps the PTCB.
\<close>

fun console_at :: "string option \<Rightarrow> main_pc \<Rightarrow> server \<Rightarrow> (string \<times> server) result option" where
  "console_at None M_Read S = Some (Inr (prompt, S\<lparr>main_at := M_Returned\<rparr>))"
| "console_at (Some line) M_Read S =
     (if line = ''l'' @ [newline] \<and> held S then None
      else case server_command line (globals S) of
             None \<Rightarrow> Some (Inl Diverges)
           | Some r \<Rightarrow> Some (rbind r (\<lambda>(c, g). case c of
               Output out \<Rightarrow> Inr (prompt @ out, S\<lparr>globals := g\<rparr>)
             | Quit \<Rightarrow> Inr (prompt @ ''Quitting'' @ [newline], S\<lparr>globals := g, main_at := M_Close\<rparr>))))"
| "console_at _ M_Close S = Some (Inr ([], S\<lparr>closed := closed S @ [listener_socket S], main_at := M_Join\<rparr>))"
| "console_at _ M_Join S =
     (case listener_at S of L_Done v \<Rightarrow> Some (Inl DanglingPtr) | _ \<Rightarrow> Some (Inr ([], S\<lparr>main_at := M_Joining\<rparr>)))"
| "console_at _ M_Joining S =
     (case listener_at S of L_Done v \<Rightarrow> Some (Inr ([], S\<lparr>main_at := M_Drain\<rparr>)) | _ \<Rightarrow> None)"
| "console_at _ M_Drain S =
     (if held S then None
      else if active_conn (globals S) > 0
      then Some (Inr (waiting_msg (active_conn (globals S)), S\<lparr>main_at := M_Asleep\<rparr>))
      else Some (Inr ([], S\<lparr>main_at := M_Truncate\<rparr>)))"
| "console_at _ M_Asleep S = None"
| "console_at _ M_Truncate S =
     (if held S then None
      else case log_truncate (globals S) of
             None \<Rightarrow> Some (Inl Diverges)
           | Some r \<Rightarrow> Some (rbind r (\<lambda>g. Inr ([], S\<lparr>globals := g, main_at := M_Returned\<rparr>))))"
| "console_at _ M_Returned S = None"

definition console_step :: "string option \<Rightarrow> server \<Rightarrow> (string \<times> server) result option" where
  "console_step line S = console_at line (main_at S) S"

section \<open>The steps of the server\<close>

text \<open>The server when the listener has been started; \<open>fid\<close> is what the variable holds before it is set.\<close>

definition server_start :: "int \<Rightarrow> rs_globals \<Rightarrow> server" where
  "server_start fid g =
     \<lparr>globals = init_globals g, held = False, listener_socket = fid, closed = [], main_at = M_Read, listener_at = L_Start, clients = []\<rparr>"

datatype action = Console "string option" | Listener listener_env | Client nat client_env

fun act :: "action \<Rightarrow> server \<Rightarrow> server result option" where
  "act (Console line) S = (case console_step line S of None \<Rightarrow> None | Some r \<Rightarrow> Some (rbind r (\<lambda>(out, S1). Inr S1)))"
| "act (Listener e) S =
     (if messages (globals S) (log_addr e) = None then listener_step e S else None)"
| "act (Client k e) S =
     (if k < length (clients S) \<and> messages (globals S) (rec_addr e) = None
      then (case client_step e (fst (clients S ! k)) (snd (clients S ! k)) S of
              None \<Rightarrow> None
            | Some r \<Rightarrow> Some (rbind r (\<lambda>(pc, S1). Inr (S1\<lparr>clients := (clients S)[k := (fst (clients S ! k), pc)]\<rparr>))))
      else None)"

text \<open>
  The listener is between the load and the store of the counter.  A step is orderly if it does
  not start to change the counter while another thread changes it, is not the end of the
  console's input, and is not a failing \<open>CreateThread\<close>.
\<close>

definition counting :: "server \<Rightarrow> bool" where
  "counting S \<longleftrightarrow> (case listener_at S of L_Store sock v \<Rightarrow> True | _ \<Rightarrow> False)"

fun orderly :: "action \<Rightarrow> server \<Rightarrow> bool" where
  "orderly (Console line) S \<longleftrightarrow> line \<noteq> None"
| "orderly (Listener e) S \<longleftrightarrow> created e \<and> (case listener_at S of L_Load sock \<Rightarrow> \<not> held S | _ \<Rightarrow> True)"
| "orderly (Client k e) S \<longleftrightarrow> (case snd (clients S ! k) of C_Load n \<Rightarrow> \<not> counting S | _ \<Rightarrow> True)"

inductive server_reach :: "bool \<Rightarrow> server \<Rightarrow> bool" for ord where
  server_begin: "messages g = Map.empty \<Longrightarrow> server_reach ord (server_start fid g)"
| server_next: "server_reach ord S \<Longrightarrow> act a S = Some (Inr S') \<Longrightarrow> (ord \<Longrightarrow> orderly a S) \<Longrightarrow> server_reach ord S'"

end
