(* ===== verification/Remote_Server_Props.thy ===== *)
theory Remote_Server_Props
  imports Remote_Server "HOL-Library.Multiset"
begin

text \<open>
  Properties of the remote server: its log and the IDs of its connections in every interleaving of
  its threads, when its threads fault, when it returns, and what becomes of a client's request.
\<close>

section \<open>Requests\<close>

definition zeros :: "8 word list \<Rightarrow> nat" where "zeros bs = length (filter (\<lambda>b. b = 0) bs)"

lemma zeros_simps [simp]:
  "zeros [] = 0" "zeros (b # bs) = (if b = 0 then 1 else 0) + zeros bs" "zeros (as @ bs) = zeros as + zeros bs"
  by (simp_all add: zeros_def)






section \<open>The log and the connections\<close>

lemma log_message_simps [simp]:
  "quit (log_message a msg g) = quit g"
  "active_conn (log_message a msg g) = active_conn g"
  "total_conn (log_message a msg g) = total_conn g"
  "conn_id_counter (log_message a msg g) = conn_id_counter g"
  "messages (log_message a msg g) = (messages g)(a \<mapsto> msg)"
  "logcount (log_message a msg g) = logcount g + 1"
  by (simp_all add: log_message_def Let_def)

text \<open>The records of the log are numbered in their order from 1.\<close>

definition numbered :: "rs_globals \<Rightarrow> bool" where
  "numbered g \<longleftrightarrow> (\<exists>rs. log_ok g rs \<and> map (fst \<circ> snd) rs = map of_nat [1..<Suc (length rs)] \<and> logcount g = of_nat (length rs))"

lemma numbered_log_message:
  assumes "numbered g" and "messages g a = None"
  shows "numbered (log_message a msg g)"
proof -
  obtain rs where rs: "log_ok g rs" "map (fst \<circ> snd) rs = map of_nat [1..<Suc (length rs)]" "logcount g = of_nat (length rs)"
    using assms(1) by (auto simp: numbered_def)
  show ?thesis unfolding numbered_def
    by (rule exI [of _ "rs @ [(a, logcount g + 1, msg)]"])
      (use log_message_ok(1) [OF rs(1) assms(2)] rs(2,3) in \<open>simp add: add.commute\<close>)
qed

lemma log_ok_cong: "log_heap g' = log_heap g \<Longrightarrow> messages g' = messages g \<Longrightarrow> log_ok g' rs = log_ok g rs"
  by (simp add: log_ok_def)

lemma numbered_cong:
  "log_heap g' = log_heap g \<Longrightarrow> messages g' = messages g \<Longrightarrow> logcount g' = logcount g \<Longrightarrow> numbered g' = numbered g"
  by (simp add: numbered_def log_ok_cong [of g' g])

lemma numbered_simps [simp]:
  "numbered (g\<lparr>quit := q\<rparr>) = numbered g"
  "numbered (g\<lparr>active_conn := v\<rparr>) = numbered g"
  "numbered (g\<lparr>total_conn := v\<rparr>) = numbered g"
  "numbered (g\<lparr>conn_id_counter := v\<rparr>) = numbered g"
  by (rule numbered_cong; simp)+

fun client_id :: "client_pc \<Rightarrow> 64 word list" where
  "client_id C_Start = []"
| "client_id (C_Started n) = [n]"
| "client_id (C_Length n) = [n]"
| "client_id (C_Args n len) = [n]"
| "client_id (C_Error n) = [n]"
| "client_id (C_Execute n argv) = [n]"
| "client_id (C_Finished n st) = [n]"
| "client_id (C_Load n) = [n]"
| "client_id (C_Store n v) = [n]"
| "client_id (C_Done n) = [n]"

definition ids :: "(int \<times> client_pc) list \<Rightarrow> 64 word list" where
  "ids cs = concat (map (client_id \<circ> snd) cs)"

lemma ids_simps [simp]:
  "ids [] = []" "ids (c # cs) = client_id (snd c) @ ids cs" "ids (cs @ ds) = ids cs @ ids ds"
  by (simp_all add: ids_def)

text \<open>The numbers that have been given to connections are 1 to the counter, each to one connection.\<close>

definition ids_unique :: "server \<Rightarrow> bool" where
  "ids_unique S \<longleftrightarrow> (\<exists>m. mset (ids (clients S)) = mset (map of_nat [1..<Suc m]) \<and> conn_id_counter (globals S) = of_nat m)"

fun pc_ok :: "client_pc \<Rightarrow> bool" where
  "pc_ok (C_Args n len) \<longleftrightarrow> len \<le> 2048"
| "pc_ok _ \<longleftrightarrow> True"

definition server_inv :: "server \<Rightarrow> bool" where
  "server_inv S \<longleftrightarrow> (main_at S \<noteq> M_Returned \<longrightarrow>
     numbered (globals S) \<and> ids_unique S \<and> (\<forall>c \<in> set (clients S). pc_ok (snd c)))"

text \<open>A step of a connection, with the other connections before and after it.\<close>

lemma client_act:
  assumes "act (Client k e) S = Some r"
  obtains us sock pc vs r1 where "clients S = us @ (sock, pc) # vs" and "messages (globals S) (rec_addr e) = None"
    and "client_step e sock pc S = Some r1" and "r = rbind r1 (\<lambda>(pc', S1). Inr (S1\<lparr>clients := us @ (sock, pc') # vs\<rparr>))"
    and "clients S ! k = (sock, pc)"
proof -
  have k: "k < length (clients S)" "messages (globals S) (rec_addr e) = None" using assms by (simp_all split: if_splits)
  obtain sock pc where c: "clients S ! k = (sock, pc)" by (cases "clients S ! k")
  let ?us = "take k (clients S)" and ?vs = "drop (Suc k) (clients S)"
  have e: "clients S = ?us @ (sock, pc) # ?vs" using id_take_nth_drop [OF k(1)] c by simp
  have u: "(clients S)[k := x] = ?us @ x # ?vs" for x using k(1) by (simp add: upd_conv_take_nth_drop)
  obtain r1 where r1: "client_step e sock pc S = Some r1" using assms k c by (auto split: option.splits)
  have "r = rbind r1 (\<lambda>(pc', S1). Inr (S1\<lparr>clients := ?us @ (sock, pc') # ?vs\<rparr>))"
    using assms k c r1 by (simp add: u)
  then show thesis using that [OF e k(2) r1 _ c] by blast
qed

lemma client_act_ok:
  assumes "act (Client k e) S = Some (Inr S')"
  obtains us sock pc vs pc' S1 where "clients S = us @ (sock, pc) # vs" and "messages (globals S) (rec_addr e) = None"
    and "client_step e sock pc S = Some (Inr (pc', S1))" and "S' = S1\<lparr>clients := us @ (sock, pc') # vs\<rparr>"
    and "clients S ! k = (sock, pc)"
proof (rule client_act [OF assms])
  fix us sock pc vs r1
  assume c: "clients S = us @ (sock, pc) # vs" "messages (globals S) (rec_addr e) = None" "client_step e sock pc S = Some r1"
    "Inr S' = rbind r1 (\<lambda>(pc', S1). Inr (S1\<lparr>clients := us @ (sock, pc') # vs\<rparr>))" "clients S ! k = (sock, pc)"
  from c(4) [symmetric] obtain pc' S1 where "r1 = Inr (pc', S1)" "S' = S1\<lparr>clients := us @ (sock, pc') # vs\<rparr>"
    by (auto simp: rbind_eq_Inr)
  with c(1,2,3,5) show thesis by (intro that [of us sock pc vs pc' S1]) simp_all
qed

lemma client_step_effect:
  assumes "client_step e sock pc S = Some (Inr (pc', S'))" and "messages (globals S) (rec_addr e) = None" and "numbered (globals S)"
  shows "clients S' = clients S" and "numbered (globals S')" and "pc_ok pc'"
    and "main_at S' = M_Returned \<longleftrightarrow> main_at S = M_Returned"
    and "client_id pc' = client_id pc \<and> conn_id_counter (globals S') = conn_id_counter (globals S) \<or>
      client_id pc = [] \<and> client_id pc' = [conn_id_counter (globals S) + 1] \<and> conn_id_counter (globals S') = conn_id_counter (globals S) + 1"
  using assms numbered_log_message [of "globals S" "rec_addr e"]
  by (cases pc; auto simp: under_mx_def on_globals_def log_step_def client_started_def Let_def rbind_eq_Inr split: if_splits)+

lemma client_step_main:
  assumes "client_step e sock pc S = Some (Inr (pc', S'))"
  shows "clients S' = clients S" and "main_at S' = M_Returned \<longleftrightarrow> main_at S = M_Returned"
  using assms
  by (cases pc; auto simp: under_mx_def on_globals_def log_step_def client_started_def Let_def rbind_eq_Inr split: if_splits)+

lemma listener_step_effect:
  assumes "listener_step e S = Some (Inr S')"
  shows "ids (clients S') = ids (clients S)" and "\<forall>c \<in> set (clients S'). pc_ok (snd c) \<or> c \<in> set (clients S)"
    and "numbered (globals S) \<Longrightarrow> messages (globals S) (log_addr e) = None \<Longrightarrow> numbered (globals S')"
    and "conn_id_counter (globals S') = conn_id_counter (globals S)"
    and "main_at S' = main_at S"
  using assms numbered_log_message [of "globals S" "log_addr e"]
  unfolding listener_step_def
  by (cases "listener_at S"; auto simp: under_mx_def on_globals_def split: if_splits)+

lemma server_command_ok:
  assumes "numbered g"
  obtains out where "server_command line g = Some (Inr (Output out, g))"
  | "server_command line g = Some (Inr (Quit, g\<lparr>quit := True\<rparr>))"
proof -
  obtain rs where "log_ok g rs" using assms by (auto simp: numbered_def)
  then obtain out where "log_print g = Some (Inr out)" using log_print_ok by blast
  then have "(\<exists>out. server_command line g = Some (Inr (Output out, g))) \<or> server_command line g = Some (Inr (Quit, g\<lparr>quit := True\<rparr>))"
    unfolding server_command_def by (simp del: rbind_def)
  then show thesis using that by blast
qed

lemma console_step_ok:
  assumes "numbered (globals S)" and "main_at S \<noteq> M_Returned"
  shows "console_step line S = None \<or>
    main_at S = M_Join \<and> (\<exists>v. listener_at S = L_Done v) \<and> console_step line S = Some (Inl DanglingPtr) \<or>
    (\<exists>out S'. console_step line S = Some (Inr (out, S')) \<and> clients S' = clients S \<and>
    listener_at S' = listener_at S \<and> held S' = held S \<and>
    (main_at S' \<noteq> M_Returned \<longrightarrow> globals S' = globals S \<or> globals S' = (globals S)\<lparr>quit := True\<rparr>))"
proof -
  obtain rs where rs: "log_ok (globals S) rs" using assms(1) by (auto simp: numbered_def)
  then obtain g where g: "log_truncate (globals S) = Some (Inr g)" using log_truncate_ok by blast
  show ?thesis
  proof (cases "main_at S")
    case M_Read
    show ?thesis
    proof (cases line)
      case (Some l)
      show ?thesis
        by (rule server_command_ok [OF assms(1), of l]) (auto simp: console_step_def M_Read Some)
    qed (auto simp: console_step_def M_Read)
  next
    case M_Join
    then show ?thesis by (cases "listener_at S") (auto simp: console_step_def)
  next
    case M_Joining
    then show ?thesis by (cases "listener_at S") (auto simp: console_step_def)
  qed (use assms(2) g in \<open>auto simp: console_step_def\<close>)
qed

section \<open>The invariant of all interleavings\<close>

lemma act_console:
  assumes "act (Console line) S = Some (Inr S')"
  obtains out where "console_step line S = Some (Inr (out, S'))"
  using assms by (auto simp: rbind_eq_Inr split: option.splits)

lemma act_main_returned:
  assumes "act a S = Some (Inr S')" and "main_at S = M_Returned" shows "main_at S' = M_Returned"
proof (cases a)
  case (Console line)
  then show ?thesis using assms by (cases line) (auto simp: console_step_def)
next
  case (Listener e)
  then show ?thesis using assms listener_step_effect(5) by (auto split: if_splits)
next
  case (Client k e)
  show ?thesis
    by (rule client_act_ok [OF assms(1) [unfolded Client]]) (use client_step_main(2) assms(2) in auto)
qed

lemma server_inv_start: "server_inv (server_start fid g)"
proof -
  have "numbered (init_globals g)"
    unfolding numbered_def init_globals_def
    by (rule exI [of _ "[]"]) (use log_init_ok [of "g\<lparr>quit := False, active_conn := 0, total_conn := 0, conn_id_counter := 0\<rparr>"] in \<open>simp add: log_init_def\<close>)
  moreover have "conn_id_counter (init_globals g) = 0" by (simp add: init_globals_def log_init_def)
  ultimately show ?thesis by (simp add: server_inv_def server_start_def ids_unique_def exI [of _ 0])
qed

lemma server_inv_step:
  assumes "server_inv S" and "act a S = Some (Inr S')"
  shows "server_inv S'"
proof (cases "main_at S' = M_Returned")
  case False
  then have m: "main_at S \<noteq> M_Returned" using act_main_returned [OF assms(2)] by blast
  then have inv: "numbered (globals S)" "ids_unique S" "\<forall>c \<in> set (clients S). pc_ok (snd c)"
    using assms(1) by (simp_all add: server_inv_def)
  show ?thesis
  proof (cases a)
    case (Console line)
    then obtain out where "console_step line S = Some (Inr (out, S'))" using assms(2) act_console by blast
    then have c: "clients S' = clients S" "globals S' = globals S \<or> globals S' = (globals S)\<lparr>quit := True\<rparr>"
      using console_step_ok [OF inv(1) m, of line] False by auto
    from c(2) show ?thesis using inv by (elim disjE) (simp_all add: server_inv_def ids_unique_def c(1))
  next
    case (Listener e)
    then have "listener_step e S = Some (Inr S')" "messages (globals S) (log_addr e) = None"
      using assms(2) by (auto split: if_splits)
    note eff = listener_step_effect [OF this(1)] this(2)
    have "ids_unique S'" using inv(2) by (simp add: ids_unique_def eff)
    moreover have "\<forall>c \<in> set (clients S'). pc_ok (snd c)" using eff(2) inv(3) by blast
    ultimately show ?thesis using eff(3,6) inv(1) by (simp add: server_inv_def)
  next
    case (Client k e)
    obtain us sock pc vs pc' S1 where c: "clients S = us @ (sock, pc) # vs" "messages (globals S) (rec_addr e) = None"
      and r: "client_step e sock pc S = Some (Inr (pc', S1))" "S' = S1\<lparr>clients := us @ (sock, pc') # vs\<rparr>"
      by (rule client_act_ok [OF assms(2) [unfolded Client]])
    note eff = client_step_effect [OF r(1) c(2) inv(1)]
    obtain n where n: "mset (ids (clients S)) = mset (map of_nat [1..<Suc n])" "conn_id_counter (globals S) = of_nat n"
      using inv(2) by (auto simp: ids_unique_def)
    have "ids_unique S'"
      using eff(5)
    proof (elim disjE conjE)
      assume "client_id pc' = client_id pc" "conn_id_counter (globals S1) = conn_id_counter (globals S)"
      then show ?thesis using n c(1) r(2) by (auto simp: ids_unique_def intro: exI [of _ n])
    next
      assume i: "client_id pc = []" "client_id pc' = [conn_id_counter (globals S) + 1]"
        "conn_id_counter (globals S1) = conn_id_counter (globals S) + 1"
      have u: "[1..<Suc (Suc n)] = [1..<Suc n] @ [Suc n]" by simp
      have "mset (ids (clients S')) = add_mset (of_nat (Suc n)) (mset (ids (clients S)))"
        using i n(2) c(1) r(2) by (simp add: add.commute)
      also have "\<dots> = mset (map of_nat [1..<Suc (Suc n)])" unfolding n(1) u by simp
      finally show ?thesis using i(3) n(2) r(2) unfolding ids_unique_def
        by (intro exI [of _ "Suc n"]) (simp add: add.commute)
    qed
    then show ?thesis using eff inv(3) c(1) r(2) by (auto simp: server_inv_def)
  qed
qed (simp add: server_inv_def)

lemma server_reach_inv: "server_reach ord S \<Longrightarrow> server_inv S"
  by (induction rule: server_reach.induct) (auto intro: server_inv_start server_inv_step)

section \<open>The end of the server\<close>

fun finished :: "client_pc \<Rightarrow> bool" where
  "finished (C_Done n) \<longleftrightarrow> True"
| "finished _ \<longleftrightarrow> False"

fun stored_count :: "client_pc \<Rightarrow> 64 word option" where
  "stored_count (C_Store n v) = Some v"
| "stored_count _ = None"

text \<open>Connections that have not ended, and a connection that is counted and has no thread yet.\<close>

definition unfinished :: "(int \<times> client_pc) list \<Rightarrow> nat" where
  "unfinished cs = length (filter (\<lambda>c. \<not> finished (snd c)) cs)"

fun about_to_start :: "listener_pc \<Rightarrow> nat" where
  "about_to_start (L_Total sock) = 1"
| "about_to_start (L_Create sock) = 1"
| "about_to_start _ = 0"

lemma unfinished_simps [simp]:
  "unfinished [] = 0" "unfinished (c # cs) = (if finished (snd c) then 0 else 1) + unfinished cs"
  "unfinished (cs @ ds) = unfinished cs + unfinished ds"
  by (simp_all add: unfinished_def)

lemma unfinished_le: "unfinished cs \<le> length cs"
  by (simp add: unfinished_def)

lemma unfinished_0: "unfinished cs = 0 \<longleftrightarrow> (\<forall>c \<in> set cs. finished (snd c))"
  by (auto simp: unfinished_def filter_empty_conv)

text \<open>The connections that are between the load and the store of the counter.\<close>

definition storing :: "(int \<times> client_pc) list \<Rightarrow> 64 word list" where
  "storing cs = concat (map (\<lambda>c. case stored_count (snd c) of None \<Rightarrow> [] | Some v \<Rightarrow> [v]) cs)"

lemma storing_simps [simp]:
  "storing [] = []" "storing (c # cs) = (case stored_count (snd c) of None \<Rightarrow> [] | Some v \<Rightarrow> [v]) @ storing cs"
  "storing (cs @ ds) = storing cs @ storing ds"
  by (simp_all add: storing_def)

text \<open>
  In orderly runs the counter is the number of connections that have not ended.  Once the listener
  is joined no connection starts any more, and the log is freed when all of them have ended.
\<close>

definition count_inv :: "server \<Rightarrow> bool" where
  "count_inv S \<longleftrightarrow>
     active_conn (globals S) = of_nat (unfinished (clients S) + about_to_start (listener_at S)) \<and>
     storing (clients S) = (if held S then [active_conn (globals S)] else []) \<and>
     (\<forall>sock v. listener_at S = L_Store sock v \<longrightarrow> v = active_conn (globals S) \<and> \<not> held S)"

definition end_inv :: "server \<Rightarrow> bool" where
  "end_inv S \<longleftrightarrow>
     (main_at S \<in> {M_Drain, M_Asleep, M_Truncate, M_Returned} \<longrightarrow> (\<exists>v. listener_at S = L_Done v)) \<and>
     (main_at S \<in> {M_Truncate, M_Returned} \<longrightarrow> length (clients S) < 2 ^ 64 \<longrightarrow> unfinished (clients S) = 0)"

definition ord_inv :: "server \<Rightarrow> bool" where
  "ord_inv S \<longleftrightarrow> (main_at S \<noteq> M_Returned \<longrightarrow> count_inv S) \<and> end_inv S"

lemma count_inv_cong:
  "active_conn (globals S') = active_conn (globals S) \<Longrightarrow> held S' = held S \<Longrightarrow> listener_at S' = listener_at S \<Longrightarrow>
   unfinished (clients S') = unfinished (clients S) \<Longrightarrow> storing (clients S') = storing (clients S) \<Longrightarrow>
   count_inv S' = count_inv S"
  by (simp only: count_inv_def)

text \<open>A step of a connection that does not touch the counter.\<close>

lemma client_step_quiet:
  assumes "client_step e sock pc S = Some (Inr (pc', S1))" and "main_at S \<noteq> M_Returned"
    and "\<And>n. pc \<noteq> C_Load n" and "\<And>n v. pc \<noteq> C_Store n v"
  shows "active_conn (globals S1) = active_conn (globals S)" and "held S1 = held S" and "listener_at S1 = listener_at S"
    and "main_at S1 = main_at S"
    and "stored_count pc = None" and "stored_count pc' = None" and "\<not> finished pc" and "\<not> finished pc'"
  using assms
  by (cases pc; auto simp: under_mx_def on_globals_def log_step_def client_started_def Let_def rbind_eq_Inr split: if_splits)+

lemma client_counts:
  assumes step: "client_step e sock pc S = Some (Inr (pc', S1))" and cs: "clients S = us @ (sock, pc) # vs" and "count_inv S"
    and m: "main_at S \<noteq> M_Returned" and o: "case pc of C_Load n \<Rightarrow> \<not> counting S | _ \<Rightarrow> True"
  shows "count_inv (S1\<lparr>clients := us @ (sock, pc') # vs\<rparr>)"
proof -
  note c = assms(3) [unfolded count_inv_def cs]
  consider (load) n where "pc = C_Load n" | (store) n v where "pc = C_Store n v"
    | (quiet) "\<And>n. pc \<noteq> C_Load n" "\<And>n v. pc \<noteq> C_Store n v" by (cases pc) auto
  then show ?thesis
  proof cases
    case load
    then have "\<not> held S" "pc' = C_Store n (active_conn (globals S))" "S1 = S\<lparr>held := True\<rparr>"
      using step m by (auto simp: under_mx_def on_globals_def split: if_splits)
    then show ?thesis using c o load by (simp add: count_inv_def counting_def split: listener_pc.splits)
  next
    case store
    then have h: "held S" "v = active_conn (globals S)" "storing us = []" "storing vs = []"
      using c by (auto simp: append_eq_Cons_conv split: if_splits)
    have r: "pc' = C_Done n" "active_conn (globals S1) = v - 1" "\<not> held S1" "listener_at S1 = listener_at S"
      using step m store by (auto simp: on_globals_def)
    have "active_conn (globals S) = of_nat (unfinished (us @ (sock, pc) # vs) + about_to_start (listener_at S))"
      using c by blast
    then have "v - 1 = of_nat (unfinished us + unfinished vs + about_to_start (listener_at S))"
      unfolding h(2) store by simp
    moreover have "listener_at S \<noteq> L_Store fd u" for fd u using c h(1) by blast
    ultimately show ?thesis by (simp add: count_inv_def r h(3,4))
  next
    case quiet
    note q = client_step_quiet [OF step m quiet]
    have "count_inv (S1\<lparr>clients := us @ (sock, pc') # vs\<rparr>) = count_inv S"
      by (rule count_inv_cong) (simp_all add: q cs)
    then show ?thesis using assms(3) by blast
  qed
qed

lemma listener_counts:
  assumes "listener_step e S = Some (Inr S1)" and "count_inv S" and "orderly (Listener e) S" and "main_at S \<noteq> M_Returned"
  shows "count_inv S1"
  using assms unfolding listener_step_def
  by (cases "listener_at S") (auto simp: count_inv_def under_mx_def on_globals_def split: if_splits)

text \<open>What the steps do to the place of the console, to the listener and to the connections.\<close>

lemma console_step_end:
  assumes "console_step line S = Some (Inr (out, S1))" and "line \<noteq> None" and "numbered (globals S)"
  shows "clients S1 = clients S" and "listener_at S1 = listener_at S"
    and "main_at S1 \<in> {M_Drain, M_Asleep, M_Truncate, M_Returned} \<Longrightarrow>
      main_at S \<in> {M_Drain, M_Asleep, M_Truncate, M_Returned} \<or> (\<exists>v. listener_at S = L_Done v)"
    and "main_at S1 \<in> {M_Truncate, M_Returned} \<Longrightarrow>
      main_at S = M_Truncate \<or> main_at S = M_Drain \<and> active_conn (globals S) = 0"
proof -
  obtain l where l: "line = Some l" using assms(2) by auto
  have m: "main_at S \<noteq> M_Returned" using assms(1) by (auto simp: console_step_def)
  then show "clients S1 = clients S" "listener_at S1 = listener_at S" using console_step_ok [OF assms(3) m, of line] assms(1) by auto
  have rd: "main_at S1 = M_Read \<or> main_at S1 = M_Close" if "main_at S = M_Read"
  proof (rule server_command_ok [OF assms(3), of l])
    fix out' assume "server_command l (globals S) = Some (Inr (Output out', globals S))"
    then show ?thesis using assms(1) l that by (auto simp: console_step_def split: if_splits)
  next
    assume "server_command l (globals S) = Some (Inr (Quit, (globals S)\<lparr>quit := True\<rparr>))"
    then show ?thesis using assms(1) l that by (auto simp: console_step_def split: if_splits)
  qed
  have cl: "main_at S1 = M_Join" if "main_at S = M_Close" using assms(1) that by (auto simp: console_step_def)
  have jn: "main_at S1 = M_Joining" if "main_at S = M_Join"
    using assms(1) that by (auto simp: console_step_def split: listener_pc.splits)
  have jd: "main_at S1 = M_Drain \<and> (\<exists>v. listener_at S = L_Done v)" if "main_at S = M_Joining"
    using assms(1) that by (auto simp: console_step_def split: listener_pc.splits)
  have dr: "main_at S1 = M_Asleep \<or> main_at S1 = M_Truncate \<and> active_conn (globals S) = 0" if "main_at S = M_Drain"
    using assms(1) that by (auto simp: console_step_def word_gt_0 split: if_splits)
  have as: "main_at S \<noteq> M_Asleep" using assms(1) by (auto simp: console_step_def)
  show "main_at S1 \<in> {M_Drain, M_Asleep, M_Truncate, M_Returned} \<Longrightarrow>
      main_at S \<in> {M_Drain, M_Asleep, M_Truncate, M_Returned} \<or> (\<exists>v. listener_at S = L_Done v)"
    using rd cl jn jd by (cases "main_at S") auto
  show "main_at S1 \<in> {M_Truncate, M_Returned} \<Longrightarrow>
      main_at S = M_Truncate \<or> main_at S = M_Drain \<and> active_conn (globals S) = 0"
    using rd cl jn jd dr m as by (cases "main_at S") auto
qed

lemma client_step_end:
  assumes "client_step e sock pc S = Some (Inr (pc', S1))"
  shows "listener_at S1 = listener_at S" and "finished pc \<Longrightarrow> False"
    and "main_at S1 = main_at S \<or> main_at S = M_Asleep \<and> main_at S1 = M_Drain"
  using assms
  by (cases pc; auto simp: under_mx_def on_globals_def log_step_def client_started_def Let_def rbind_eq_Inr split: if_splits)+

lemma ord_inv_step:
  assumes inv: "ord_inv S" "server_inv S" and a: "act a S = Some (Inr S')" and o: "orderly a S"
  shows "ord_inv S'"
proof (cases a)
  case (Console line)
  obtain out where c: "console_step line S = Some (Inr (out, S'))" using act_console a Console by blast
  then have m: "main_at S \<noteq> M_Returned" by (auto simp: console_step_def)
  then have n: "numbered (globals S)" "count_inv S" "end_inv S" using inv by (simp_all add: ord_inv_def server_inv_def)
  have l: "line \<noteq> None" using o Console by simp
  note e = console_step_end [OF c l n(1)]
  have g: "main_at S' \<noteq> M_Returned \<Longrightarrow> active_conn (globals S') = active_conn (globals S)" "held S' = held S"
    using console_step_ok [OF n(1) m, of line] c by auto
  have "main_at S' \<noteq> M_Returned \<Longrightarrow> count_inv S'" using n(2) count_inv_cong [of S' S] g e(1,2) by simp
  moreover have "end_inv S'"
    unfolding end_inv_def
  proof (intro conjI impI)
    assume "main_at S' \<in> {M_Drain, M_Asleep, M_Truncate, M_Returned}"
    then show "\<exists>v. listener_at S' = L_Done v" using e(2,3) n(3) by (auto simp: end_inv_def)
  next
    assume p: "main_at S' \<in> {M_Truncate, M_Returned}" "length (clients S') < 2 ^ 64"
    from e(4) [OF p(1)] show "unfinished (clients S') = 0"
    proof (elim disjE conjE)
      assume "main_at S = M_Truncate"
      then show ?thesis using n(3) p(2) e(1) by (simp add: end_inv_def)
    next
      assume z: "main_at S = M_Drain" "active_conn (globals S) = 0"
      then obtain v where "listener_at S = L_Done v" using n(3) by (auto simp: end_inv_def)
      then have "(of_nat (unfinished (clients S)) :: 64 word) = 0" using n(2) z(2) by (simp add: count_inv_def)
      moreover have "unfinished (clients S) < 2 ^ 64" using p(2) e(1) unfinished_le [of "clients S"] by simp
      ultimately show ?thesis using e(1) nat_dvd_not_less [of "unfinished (clients S)" "2 ^ 64"]
        by (auto simp: word_of_nat_eq_0_iff)
    qed
  qed
  ultimately show ?thesis by (simp add: ord_inv_def)
next
  case (Listener e)
  then have s: "listener_step e S = Some (Inr S')" using a by (auto split: if_splits)
  note eff = listener_step_effect [OF s]
  have m: "main_at S \<notin> {M_Drain, M_Asleep, M_Truncate, M_Returned}"
    using s inv(1) by (auto simp: ord_inv_def end_inv_def listener_step_def)
  then have "count_inv S" using inv(1) by (simp add: ord_inv_def)
  then have "count_inv S'" using listener_counts [OF s] o Listener m by simp
  then show ?thesis using m eff(5) by (auto simp: ord_inv_def end_inv_def)
next
  case (Client k e)
  obtain us sock pc vs pc' S1 where c: "clients S = us @ (sock, pc) # vs"
    and r: "client_step e sock pc S = Some (Inr (pc', S1))" "S' = S1\<lparr>clients := us @ (sock, pc') # vs\<rparr>"
    and k: "clients S ! k = (sock, pc)"
    by (rule client_act_ok [OF a [unfolded Client]])
  note e = client_step_end [OF r(1)]
  have "count_inv S'" if "main_at S' \<noteq> M_Returned"
  proof -
    have m: "main_at S \<noteq> M_Returned" using that r(2) client_step_main(2) [OF r(1)] by simp
    then have "count_inv S" using inv(1) by (simp add: ord_inv_def)
    moreover have "case pc of C_Load n \<Rightarrow> \<not> counting S | _ \<Rightarrow> True" using o Client k by simp
    ultimately show ?thesis unfolding r(2) by (rule client_counts [OF r(1) c _ m])
  qed
  moreover have "end_inv S'"
  proof -
    have nf: "unfinished (clients S) \<noteq> 0" unfolding c using e(2) by auto
    have es: "main_at S \<in> {M_Drain, M_Asleep, M_Truncate, M_Returned} \<Longrightarrow> \<exists>v. listener_at S = L_Done v"
      "main_at S \<in> {M_Truncate, M_Returned} \<Longrightarrow> \<not> length (clients S) < 2 ^ 64"
      using inv(1) nf by (simp_all only: ord_inv_def end_inv_def) blast+
    have len: "length (clients S') = length (clients S)" and l: "listener_at S' = listener_at S" using c r(2) e(1) by simp_all
    have m: "main_at S' = main_at S \<or> main_at S = M_Asleep \<and> main_at S' = M_Drain" using e(3) r(2) by simp
    show ?thesis unfolding end_inv_def len l using m es by auto
  qed
  ultimately show ?thesis by (simp add: ord_inv_def)
qed

lemma ord_inv_reach: "server_reach True S \<Longrightarrow> ord_inv S"
proof (induction rule: server_reach.induct)
  case (server_begin g fid)
  then show ?case
    by (simp add: ord_inv_def count_inv_def end_inv_def server_start_def init_globals_def log_init_def)
next
  case (server_next S a S')
  then show ?case using ord_inv_step [OF server_next.IH server_reach_inv [OF server_next.hyps(1)] server_next.hyps(2)] by simp
qed

section \<open>A run in which the server ends too early\<close>

fun exec_actions :: "bool \<Rightarrow> action list \<Rightarrow> server \<Rightarrow> server option" where
  "exec_actions ord [] S = Some S"
| "exec_actions ord (a # as) S =
     (if ord \<and> \<not> orderly a S then None
      else case act a S of Some (Inr S1) \<Rightarrow> exec_actions ord as S1 | _ \<Rightarrow> None)"

lemma exec_actions_reach:
  "exec_actions ord as S = Some S' \<Longrightarrow> server_reach ord S \<Longrightarrow> server_reach ord S'"
proof (induction "as" arbitrary: S)
  case (Cons a "as")
  then obtain S1 where "act a S = Some (Inr S1)" "ord \<Longrightarrow> orderly a S" "exec_actions ord as S1 = Some S'"
    by (auto split: option.splits sum.splits if_splits)
  then show ?case using Cons.IH server_next [OF Cons.prems(2)] by blast
qed simp

text \<open>The console frees the log and returns.\<close>

lemma truncate_returns:
  assumes "server_reach ord S" and "main_at S = M_Truncate" and "\<not> held S"
  obtains S' where "server_reach ord S'" and "main_at S' = M_Returned" and "clients S' = clients S"
proof -
  obtain rs where "log_ok (globals S) rs"
    using server_reach_inv [OF assms(1)] assms(2) by (auto simp: server_inv_def numbered_def)
  then obtain g where "log_truncate (globals S) = Some (Inr g)" using log_truncate_ok by blast
  then have "act (Console (Some [])) S = Some (Inr (S\<lparr>globals := g, main_at := M_Returned\<rparr>))"
    using assms(2,3) by (simp add: console_step_def)
  then have "server_reach ord (S\<lparr>globals := g, main_at := M_Returned\<rparr>)" by (rule server_next [OF assms(1)]) simp
  then show thesis by (rule that) simp_all
qed

lemma empty_globals: "\<exists>g :: rs_globals. messages g = Map.empty"
  by (metis rs_globals.select_convs(6))

text \<open>
  A connection ends while the listener counts the next one: both load the value 1 of the counter,
  the listener stores 2, and then the connection stores 0.  At the command \<open>q\<close> the console finds no
  active connection.
\<close>

definition accept_fid :: "int \<Rightarrow> action" where
  "accept_fid fid = Listener \<lparr>sock_fid = fid, listen_rc = 0, log_addr = 9, created = True\<rparr>"

definition hang_up :: "nat \<Rightarrow> action" where
  "hang_up a = Client 0 \<lparr>rec_addr = a, got = [], exit_status = 0\<rparr>"

definition too_early :: "action list" where
  "too_early =
     [accept_fid 3, accept_fid 5, accept_fid 5, accept_fid 5, accept_fid 5, accept_fid 5,
      hang_up 1, hang_up 1, hang_up 2, hang_up 2,
      accept_fid 6, accept_fid 6, hang_up 3, accept_fid 6, accept_fid 6, accept_fid 6, hang_up 3,
      Console (Some (''q'' @ [newline])), Console (Some []), Console (Some []), accept_fid NOFILE, accept_fid NOFILE,
      Console (Some []), Console (Some [])]"

lemma too_early_run:
  assumes "messages g = Map.empty"
  shows "\<exists>S. exec_actions False too_early (server_start fid g) = Some S \<and> main_at S = M_Truncate \<and> \<not> held S \<and>
    clients S = [(5, C_Done 1), (6, C_Start)]"
  using assms
  by (simp add: too_early_def accept_fid_def hang_up_def server_start_def init_globals_def log_init_def listener_step_def
      console_step_def on_globals_def under_mx_def log_step_def client_started_def server_command_def Let_def NOFILE_def)



text \<open>
  C31: When the server ends by the command \<open>q\<close> in a run whose steps are orderly, with fewer than
  \<open>2 ^ 64\<close> connections, its listener has ended and so have all connections, and nobody uses the
  globals any more.  In other runs the server can end while a connection is being served, whose next
  step then uses the variable of a function that has returned.
\<close>

theorem remote_server_ends_last:
  assumes "server_reach True S" and "main_at S = M_Returned" and "length (clients S) < 2 ^ 64"
  shows "(\<exists>v. listener_at S = L_Done v) \<and> (\<forall>c \<in> set (clients S). finished (snd c)) \<and> (\<forall>a. act a S = None) \<and>
    (\<exists>S'. server_reach False S' \<and> main_at S' = M_Returned \<and> (6, C_Start) \<in> set (clients S') \<and>
      (\<forall>e. client_step e 6 C_Start S' = Some (Inl DanglingPtr)))"
proof -
  have e: "end_inv S" using ord_inv_reach [OF assms(1)] by (simp add: ord_inv_def)
  then obtain v where v: "listener_at S = L_Done v" using assms(2) by (auto simp: end_inv_def)
  have f: "\<forall>c \<in> set (clients S). finished (snd c)" using e assms(2,3) unfinished_0 by (auto simp: end_inv_def)
  have "act a S = None" for a
  proof (cases a)
    case (Client k c)
    have "client_step c (fst x) (snd x) S = None" if "x \<in> set (clients S)" for x
      using f that by (cases "snd x") force+
    then show ?thesis by (simp add: Client)
  qed (use assms(2) v in \<open>simp_all add: console_step_def listener_step_def\<close>)
  moreover have "\<exists>S'. server_reach False S' \<and> main_at S' = M_Returned \<and> (6, C_Start) \<in> set (clients S') \<and>
      (\<forall>e. client_step e 6 C_Start S' = Some (Inl DanglingPtr))"
  proof -
    obtain g :: rs_globals where g: "messages g = Map.empty" using empty_globals by blast
    obtain S1 where S1: "exec_actions False too_early (server_start 0 g) = Some S1" "main_at S1 = M_Truncate" "\<not> held S1"
      "clients S1 = [(5, C_Done 1), (6, C_Start)]" using too_early_run [OF g] by blast
    obtain S' where "server_reach False S'" "main_at S' = M_Returned" "clients S' = clients S1"
      by (rule truncate_returns [OF exec_actions_reach [OF S1(1) server_begin [OF g]] S1(2,3)])
    then show ?thesis using S1(4) by (intro exI [of _ S']) (simp add: under_mx_def on_globals_def)
  qed
  ultimately show ?thesis using v f by blast
qed

text \<open>A connection is served and ends, and then the console ends the server.\<close>

definition one_connection :: "action list" where
  "one_connection =
     [accept_fid 3, accept_fid 5, accept_fid 5, accept_fid 5, accept_fid 5, accept_fid 5,
      hang_up 1, hang_up 1, hang_up 2, hang_up 2, hang_up 3, hang_up 3,
      Console (Some (''q'' @ [newline])), Console (Some []), Console (Some []), accept_fid NOFILE, accept_fid NOFILE,
      Console (Some []), Console (Some [])]"

theorem remote_server_ends_last_witness:
  "\<exists>S. server_reach True S \<and> main_at S = M_Returned \<and> clients S = [(5, C_Done 1)] \<and> (\<forall>a. act a S = None)"
proof -
  obtain g :: rs_globals where g: "messages g = Map.empty" using empty_globals by blast
  have "\<exists>S. exec_actions True one_connection (server_start 0 g) = Some S \<and> main_at S = M_Truncate \<and> \<not> held S \<and>
      clients S = [(5, C_Done 1)]"
    using g
    by (simp add: one_connection_def accept_fid_def hang_up_def server_start_def init_globals_def log_init_def
        listener_step_def console_step_def on_globals_def under_mx_def log_step_def client_started_def server_command_def
        counting_def Let_def NOFILE_def)
  then obtain S1 where S1: "exec_actions True one_connection (server_start 0 g) = Some S1" "main_at S1 = M_Truncate"
    "\<not> held S1" "clients S1 = [(5, C_Done 1)]" by blast
  obtain S where S: "server_reach True S" "main_at S = M_Returned" "clients S = clients S1"
    by (rule truncate_returns [OF exec_actions_reach [OF S1(1) server_begin [OF g]] S1(2,3)])
  show ?thesis using remote_server_ends_last [OF S(1,2)] S S1(4) by auto
qed

section \<open>The command of a client\<close>

lemma bytes_int_bytes: "bytes_int (int_bytes w) = w"
  using word_of_its_bytes [of 4 w] by (simp add: bytes_int_def int_bytes_def)

lemma length_int_bytes [simp]: "length (int_bytes w) = 4"
  by (simp add: int_bytes_def)

text \<open>
  A system on which a client connects to the server through the socket \<open>sock\<close>.  A \<open>Write\<close> takes at
  least one byte and at most all; how many of them depends on what has been written before.  The
  state is what has been written.
\<close>

definition connected :: "int \<Rightarrow> (8 word list \<Rightarrow> nat) \<Rightarrow> sys_call \<Rightarrow> 8 word list \<Rightarrow> answer \<times> 8 word list" where
  "connected sock chunk c s =
     (let ans = (\<lambda>v. \<lparr>ret = v, pipe_read = 0, pipe_write = 0, status = 0, bytes = []\<rparr>)
      in case c of
           sys_call.Socket port \<Rightarrow> (ans sock, s)
         | sys_call.Write f buf \<Rightarrow>
             if f = sock then let n = min (length buf) (Suc (chunk s)) in (ans (int n), s @ take n buf) else (ans (-1), s)
         | _ \<Rightarrow> (ans 0, s))"

lemma connected_simps [simp]:
  "fst (connected sock chunk (sys_call.Socket port) s) = \<lparr>ret = sock, pipe_read = 0, pipe_write = 0, status = 0, bytes = []\<rparr>"
  "snd (connected sock chunk (sys_call.Socket port) s) = s"
  "connected sock chunk (sys_call.Connect f port t) s = (\<lparr>ret = 0, pipe_read = 0, pipe_write = 0, status = 0, bytes = []\<rparr>, s)"
  "snd (connected sock chunk (sys_call.ShutDown f) s) = s"
  "snd (connected sock chunk (Print out) s) = s"
  by (simp_all add: connected_def Let_def)

lemma send_loop_connected:
  "length buf \<le> fuel + k \<Longrightarrow> k \<le> length buf \<Longrightarrow>
   run_prog (connected sock chunk) (send_loop fuel sock buf k) s = Inr (length buf, s @ drop k buf)"
proof (induction fuel arbitrary: k s)
  case 0
  then show ?case by simp
next
  case (Suc fuel)
  let ?n = "min (length buf - k) (Suc (chunk s))"
  have "take ?n (drop k buf) @ drop (k + ?n) buf = drop k buf"
    by (metis append_take_drop_id drop_drop add.commute)
  then show ?case using Suc.IH [of "k + ?n" "s @ take ?n (drop k buf)"] Suc.prems
    by (auto simp: connected_def Let_def)
qed

lemma send_or_exit_connected:
  "run_prog (connected sock chunk) (send_or_exit sock buf rest) s = run_prog (connected sock chunk) rest (s @ buf)"
  by (simp add: send_or_exit_def send_message_def run_bind send_loop_connected)

text \<open>
  C32: A command that a client sends arrives: the bytes that \<open>rcli\<close> writes to its socket, in however many
  pieces the system takes them, are a request from which the thread of the connection makes the
  command with its arguments, for a command of at least one and at most 2048 bytes in all.
\<close>

theorem remote_command_arrives:
  assumes "c_strings argv" and "argv \<noteq> []" and "length (packed argv) \<le> 2048" and "sock \<noteq> NOFILE"
    and "got e1 = int_bytes (of_nat (length (packed argv)))" and "got e2 = packed argv"
  shows "run_prog (connected sock chunk) (RemoteClient input int_bytes (cmd # argv)) [] = Inr (0, got e1 @ got e2) \<and>
    client_step e1 csock (C_Length n) S = Some (Inr (C_Args n (length (got e2)), S)) \<and>
    client_step e2 csock (C_Args n (length (got e2))) S = Some (Inr (C_Execute n
      (''rsrv_process'' # decimal csock # map (map (\<lambda>b. char_of (unat b))) argv), S))"
proof -
  let ?n = "length (packed argv)"
  have n: "?n < 2 ^ 31" using assms(3) by simp
  have pos: "0 < ?n" using assms(2) by (cases argv) simp_all
  have w: "(ucast (argvlen argv) :: cint) = of_nat ?n"
    using n by (simp add: argvlen_packed unsigned_of_nat take_bit_nat_eq_self)
  have i: "sint (of_nat ?n :: cint) = int ?n" using n by (simp add: signed_of_nat signed_take_bit_int_eq_self)
  have p: "argvpack (replicate ?n 0) 0 argv = Inr (of_nat ?n, packed argv)"
    using argvpack_eq [of 0 argv "replicate ?n 0"] n by simp
  have "run_prog (connected sock chunk) (RemoteClient input int_bytes (cmd # argv)) [] =
      Inr (0, int_bytes (of_nat ?n) @ packed argv)"
    using assms(2,4)
    by (simp add: RemoteClient_def run_bind run_seq run_call send_or_exit_connected w i p)
  moreover have "client_step e1 csock (C_Length n) S = Some (Inr (C_Args n ?n, S))"
    using assms(3,5) pos by (simp add: bytes_int_bytes i)
  moreover have "request_argv csock (packed argv) =
      Inr (''rsrv_process'' # decimal csock # map (map (\<lambda>b. char_of (unat b))) argv)"
  proof -
    have l: "length argv < 2 ^ 64" using n by (simp add: length_packed)
    obtain ps where ps: "argvunpack (length argv) (packed argv) 0 = Inr (ps, ?n)" "map (c_string (packed argv)) ps = argv"
      using argvunpack_eq [OF assms(1), of "[]" "[]"] by auto
    have "map (\<lambda>p. map (\<lambda>b. char_of (unat b)) (c_string (packed argv) p)) ps = map (map (\<lambda>b. char_of (unat b))) argv"
      using ps(2) by (metis (no_types, lifting) map_map comp_apply map_eq_conv)
    then show ?thesis using ps(1) l by (simp add: request_argv_def argscount_eq [OF assms(1) n] unat_of_nat)
  qed
  ultimately show ?thesis using assms(5,6) by simp
qed

text \<open>The client sends \<open>ls\<close> in pieces of at most three bytes; the server runs it.\<close>

theorem remote_command_arrives_witness:
  "run_prog (connected 4 (\<lambda>_. 2)) (RemoteClient [] int_bytes [[114], [108, 115]]) [] = Inr (0, [3, 0, 0, 0, 108, 115, 0]) \<and>
   client_step \<lparr>rec_addr = 0, got = [108, 115, 0], exit_status = 0\<rparr> 7 (C_Args 1 3) (server_start 0 undefined) =
     Some (Inr (C_Execute 1 [''rsrv_process'', ''7'', ''ls''], server_start 0 undefined))"
proof -
  let ?e = "\<lambda>bs. \<lparr>rec_addr = 0, got = bs, exit_status = 0\<rparr>"
  have b: "int_bytes (of_nat (length (packed [[108, 115]]))) = [3, 0, 0, 0]" by code_simp
  have p: "packed [[108, 115]] = [108, 115, 0]" by simp
  have d: "decimal 7 = ''7''" by code_simp
  have c: "char_of (108 :: nat) = CHR ''l''" "char_of (115 :: nat) = CHR ''s''" by code_simp+
  have h: "c_strings [[108, 115]]" "[[108, 115 :: 8 word]] \<noteq> []" "length (packed [[108, 115]]) \<le> 2048" "(4 :: int) \<noteq> NOFILE"
    by (simp_all add: c_strings_def NOFILE_def)
  note r = remote_command_arrives [OF h, of "?e [3, 0, 0, 0]" "?e [108, 115, 0]" "\<lambda>_. 2" "[]" "[114]" 7 1 "server_start 0 undefined"]
  show ?thesis using r b p by (simp add: d c numeral_3_eq_3 del: client_step.simps)
qed


end
