(* ===== verification/Streams_Frames.thy ===== *)
theory Streams_Frames
  imports Proc_Exit
begin

text \<open>
  What the stream calls leave alone: the nodes of the other components, and of the process table
  everything but the file ids of the process that calls.
\<close>

section \<open>Steps that change the files only\<close>

abbreviation not_fcb :: "node \<Rightarrow> bool" where
  "not_fcb m \<equiv> m \<noteq> FcbFreelist \<and> m \<notin> range FcbNode"

definition files_only :: "pref \<Rightarrow> kernel \<Rightarrow> kernel \<Rightarrow> bool" where
  "files_only p s s' \<longleftrightarrow>
     (\<forall>P F h. s'\<lparr>PT := P, FT := F, rl := h\<rparr> = s\<lparr>PT := P, FT := F, rl := h\<rparr>) \<and>
     (\<forall>q. q \<noteq> p \<longrightarrow> PT s' q = PT s q) \<and> (\<forall>F. (PT s' p)\<lparr>FIDT := F\<rparr> = (PT s p)\<lparr>FIDT := F\<rparr>) \<and>
     keeps_on not_fcb (rl s) (rl s')"

lemma files_only_refl [simp]: "files_only p s s"
  by (simp add: files_only_def)

lemma files_only_trans:
  assumes 1: "files_only p s s1" and 2: "files_only p s1 s'"
  shows "files_only p s s'"
proof -
  note a = 1 [unfolded files_only_def] and b = 2 [unfolded files_only_def]
  have "keeps_on not_fcb (rl s) (rl s')" using a b by (blast intro: keeps_on_trans)
  then show ?thesis using a b unfolding files_only_def by simp
qed

lemma files_only_simple [simp]:
  "files_only p s (FCB_incref f s)" "files_only p s (set_FCB f x s)" "files_only p s (set_fid p i r s)"
  by (simp_all add: files_only_def FCB_incref_def set_FCB_def set_fid_def set_PCB_def)

lemma files_only_fields:
  assumes "files_only p s s'"
  shows "tcbs s' = tcbs s" and "ptcbs s' = ptcbs s" and "cctx s' = cctx s" and "active_threads s' = active_threads s"
    and "condvars s' = condvars s" and "waiters s' = waiters s" and "kernel_sem s' = kernel_sem s"
    and "pcb_freelist s' = pcb_freelist s" and "process_count s' = process_count s" and "cores s' = cores s"
    and "ncores s' = ncores s" and "devtable s' = devtable s" and "nterm s' = nterm s" and "mem s' = mem s"
    and "pstate (PT s' q) = pstate (PT s q)" and "parent (PT s' q) = parent (PT s q)"
    and "thread_count (PT s' q) = thread_count (PT s q)" and "q \<noteq> p \<Longrightarrow> PT s' q = PT s q"
    and "keeps_on not_fcb (rl s) (rl s')"
proof -
  note d = assms [unfolded files_only_def]
  have e: "s'\<lparr>PT := P, FT := F, rl := h\<rparr> = s\<lparr>PT := P, FT := F, rl := h\<rparr>" for P F h using d by blast
  show "tcbs s' = tcbs s" using arg_cong [OF e, of tcbs] by simp
  show "ptcbs s' = ptcbs s" using arg_cong [OF e, of ptcbs] by simp
  show "cctx s' = cctx s" using arg_cong [OF e, of cctx] by simp
  show "active_threads s' = active_threads s" using arg_cong [OF e, of active_threads] by simp
  show "condvars s' = condvars s" using arg_cong [OF e, of condvars] by simp
  show "waiters s' = waiters s" using arg_cong [OF e, of waiters] by simp
  show "kernel_sem s' = kernel_sem s" using arg_cong [OF e, of kernel_sem] by simp
  show "pcb_freelist s' = pcb_freelist s" using arg_cong [OF e, of pcb_freelist] by simp
  show "process_count s' = process_count s" using arg_cong [OF e, of process_count] by simp
  show "cores s' = cores s" using arg_cong [OF e, of cores] by simp
  show "ncores s' = ncores s" using arg_cong [OF e, of ncores] by simp
  show "devtable s' = devtable s" using arg_cong [OF e, of devtable] by simp
  show "nterm s' = nterm s" using arg_cong [OF e, of nterm] by simp
  show "mem s' = mem s" using arg_cong [OF e, of mem] by simp
  have x: "(PT s' q)\<lparr>FIDT := F\<rparr> = (PT s q)\<lparr>FIDT := F\<rparr>" for F q using d by (cases "q = p") auto
  show "pstate (PT s' q) = pstate (PT s q)" using arg_cong [OF x, of pstate] by simp
  show "parent (PT s' q) = parent (PT s q)" using arg_cong [OF x, of parent] by simp
  show "thread_count (PT s' q) = thread_count (PT s q)" using arg_cong [OF x, of thread_count] by simp
  show "q \<noteq> p \<Longrightarrow> PT s' q = PT s q" and "keeps_on not_fcb (rl s) (rl s')" using d by blast+
qed

section \<open>The operations on the pool\<close>

lemma release_files:
  assumes "fcb_pool cnt s fl" and "cnt f = Some n"
  shows "files_only p s (release_FCB f s)"
  using keeps_on_push_back [OF fcb_poolD(1) [OF assms(1)] fcb_poolD(5) [OF assms], of not_fcb]
  by (simp add: files_only_def release_FCB_def)

lemma releases_files:
  "fcb_pool cnt s fl \<Longrightarrow> distinct gs \<Longrightarrow> \<forall>g \<in> set gs. cnt g \<noteq> None \<Longrightarrow> files_only p s (fold release_FCB gs s)"
proof (induction gs arbitrary: cnt s fl)
  case (Cons g gs)
  obtain n where n: "cnt g = Some n" using Cons.prems(3) by auto
  have "\<forall>h \<in> set gs. (cnt(g := None)) h \<noteq> None" using Cons.prems(2,3) by auto
  then have "files_only p (release_FCB g s) (fold release_FCB gs (release_FCB g s))"
    using Cons.prems(2) by (intro Cons.IH [OF release_fcb_pool [OF Cons.prems(1) n]]) simp_all
  with release_files [OF Cons.prems(1) n, of p] show ?case by (simp add: files_only_trans)
qed simp

lemma acquire_files:
  assumes p: "fcb_pool cnt s fl" and a: "acquire_FCB s = Inr (r, s')"
  shows "files_only p s s'"
proof (cases fl)
  case Nil
  with p a show ?thesis by (simp add: acquire_fcb_empty)
next
  case (Cons f fs)
  let ?h = "snd (rlist_pop_front FcbFreelist (rl s))"
  have "keeps_on not_fcb (rl s) ?h" by (rule keeps_on_pop [OF fcb_poolD(1) [OF p]]) simp
  then have "files_only p s (s\<lparr>rl := ?h\<rparr>)" by (simp add: files_only_def)
  moreover have "s' = s \<or> (\<exists>f. s' = set_FCB f ((FT s f)\<lparr>refcount := 0\<rparr>) (s\<lparr>rl := ?h\<rparr>))"
    using a by (auto simp: acquire_FCB_def split: prod.splits key.splits if_splits)
  moreover have "files_only p (s\<lparr>rl := ?h\<rparr>) (set_FCB f x (s\<lparr>rl := ?h\<rparr>))" for f x by simp
  ultimately show ?thesis using files_only_trans by fastforce
qed

lemma acquires_files:
  "fcb_pool cnt s fl \<Longrightarrow> acquire_FCBs num s = Inr (r, s') \<Longrightarrow> files_only p s s'"
proof (induction num arbitrary: cnt s fl r)
  case (Suc num)
  show ?case
  proof (cases fl)
    case Nil
    with Suc.prems show ?thesis by (simp add: acquire_fcb_empty)
  next
    case (Cons f fs)
    obtain s1 where s1: "acquire_FCB s = Inr (Some f, s1)" "fcb_pool (cnt(f \<mapsto> 0)) s1 fs"
      by (rule acquire_fcb_pool [OF Suc.prems(1) [unfolded Cons]])
    then obtain r2 where "acquire_FCBs num s1 = Inr (r2, s')"
      using Suc.prems(2) by (auto simp: rbind_eq_Inr)
    from Suc.IH [OF s1(2) this] acquire_files [OF Suc.prems(1) s1(1)] show ?thesis by (rule files_only_trans [rotated])
  qed
qed simp

lemma decref_files:
  assumes p: "fcb_pool cnt s fl" and c: "cnt f = Some n" and r: "FCB_decref f s = Inr (rc, s')"
  shows "files_only p s s'"
proof -
  obtain a b where "s' = s\<lparr>FT := a, rl := b\<rparr>" using decref_frame(1) [OF p c r] by blast
  with decref_frame(2) [OF p c r] show ?thesis by (simp add: files_only_def)
qed

lemma incref_fold_files:
  "files_only p s (fold (\<lambda>(i, f) s. FCB_incref f (set_fid p i (Some f) s)) ifs s)"
proof (induction ifs arbitrary: s)
  case (Cons x xs)
  obtain i f where x: "x = (i, f)" by fastforce
  have "files_only p s (FCB_incref f (set_fid p i (Some f) s))"
    by (rule files_only_trans [of _ _ "set_fid p i (Some f) s"]) simp_all
  with Cons.IH x show ?case by (auto intro: files_only_trans)
qed simp

lemma reserve_files:
  assumes p: "fcb_pool cnt s fl" and cur: "CURPROC c s = Inr cur" and r: "FCB_reserve c num s = Inr (r, s')"
  shows "files_only cur s s'"
proof (cases "find_fids num (FIDT (PT s cur)) 0")
  case None
  with cur r show ?thesis by (simp add: FCB_reserve_def)
next
  case (Some fids)
  obtain s1 where s1: "acquire_FCBs num s = Inr (take num fl, s1)"
    "fcb_pool (\<lambda>f. if f \<in> set (take num fl) then Some 0 else cnt f) s1 (drop num fl)"
    using acquire_FCBs_pool [OF p, of num] by blast
  note a = acquires_files [OF p s1(1), of cur]
  show ?thesis
  proof (cases "length (take num fl) < num")
    case True
    have "distinct (rev (take num fl))" using fcb_poolD(7) [OF p] by simp
    from releases_files [OF s1(2) this, of cur]
    have "files_only cur s1 (fold release_FCB (rev (take num fl)) s1)" by simp
    with a have "files_only cur s (fold release_FCB (rev (take num fl)) s1)" by (rule files_only_trans)
    moreover have "s' = fold release_FCB (rev (take num fl)) s1"
      using True cur r Some s1(1) by (simp add: FCB_reserve_def min_def split: if_splits)
    ultimately show ?thesis by simp
  next
    case False
    then show ?thesis using cur r Some s1(1) files_only_trans [OF a incref_fold_files]
      by (auto simp: FCB_reserve_def)
  qed
qed

section \<open>The calls\<close>

lemma enter_files:
  assumes "io_enter c fd s = Inr (r, s')"
  shows "files_only p s s'"
proof -
  have "s' = s \<or> (\<exists>f. s' = FCB_incref f s)"
    using assms by (cases "get_fcb c fd s") (auto simp: io_enter_def split: option.splits)
  then show ?thesis by auto
qed

lemma held_count: "fs_inv pins s fl \<Longrightarrow> nrefs s f + pins f \<noteq> 0 \<Longrightarrow> cnt_of (nrefs s f + pins f) = Some (nrefs s f + pins f)"
  by (simp add: cnt_of_def)

lemma leave_files:
  assumes inv: "fs_inv pins s fl" and k: "pins f \<noteq> 0" and l: "io_leave f s = Inr s'"
  shows "files_only p s s'"
proof -
  obtain rc where "FCB_decref f s = Inr (rc, s')" using l by (auto simp: io_leave_def rbind_eq_Inr)
  moreover have "nrefs s f + pins f \<noteq> 0" using k by simp
  ultimately show ?thesis by (intro decref_files [OF fs_cntD(1) [OF fs_invD(1) [OF inv]] held_count [OF inv]])
qed

lemma decref_slot_files:
  assumes inv: "fs_inv pins s fl" and f: "FIDT (PT s q) i = Some f" and d: "FCB_decref f s = Inr (rc, s')"
  shows "files_only p s s'"
  by (rule decref_files [OF fs_cntD(1) [OF fs_invD(1) [OF inv]] held_count [OF inv] d])
    (use slot_counted [OF inv f] in simp)

lemma close_files:
  assumes inv: "fs_inv pins s fl" and cur: "CURPROC c s = Inr cur" and r: "sys_Close c fd s = Inr (rc, s')"
  shows "files_only cur s s'"
proof (cases "legal_fid fd \<and> FIDT (PT s cur) (nat fd) \<noteq> None")
  case False
  then show ?thesis using r cur by (auto simp: sys_Close_def get_fcb_eq [OF cur] split: if_splits)
next
  case True
  then obtain f where f: "FIDT (PT s cur) (nat fd) = Some f" by auto
  then have "FCB_decref f (set_fid cur (nat fd) None s) = Inr (rc, s')"
    using r cur True by (simp add: sys_Close_def get_fcb_eq [OF cur])
  then obtain s0 where s0: "FCB_decref f s = Inr (rc, s0)" "s' = set_fid cur (nat fd) None s0"
    unfolding decref_set_fid by (cases "FCB_decref f s") auto
  show ?thesis unfolding s0(2) by (rule files_only_trans [OF decref_slot_files [OF inv f s0(1)]]) simp
qed

lemma dup2_files:
  assumes inv: "fs_inv pins s fl" and cur: "CURPROC c s = Inr cur" and r: "sys_Dup2 c fd1 fd2 s = Inr (rc, s')"
  shows "files_only cur s s'"
proof (cases "legal_fid fd1 \<and> legal_fid fd2 \<and> FIDT (PT s cur) (nat fd1) \<noteq> None \<and>
    FIDT (PT s cur) (nat fd1) \<noteq> FIDT (PT s cur) (nat fd2)")
  case False
  then show ?thesis using r by (auto simp: sys_Dup2_def get_fcb_eq [OF cur] split: if_splits option.splits)
next
  case True
  then obtain f where f: "FIDT (PT s cur) (nat fd1) = Some f" by auto
  obtain s1 where s1: "(case FIDT (PT s cur) (nat fd2) of None \<Rightarrow> Inr s
      | Some g \<Rightarrow> rbind (FCB_decref g s) (\<lambda>(rc, s1). Inr s1)) = Inr s1"
    "rbind (CURPROC c (FCB_incref f s1)) (\<lambda>cur. Inr (0, set_fid cur (nat fd2) (Some f) (FCB_incref f s1))) = Inr (rc, s')"
    using r True f by (auto simp: sys_Dup2_def get_fcb_eq [OF cur] rbind_eq_Inr)
  have 1: "files_only cur s s1"
    using s1(1) decref_slot_files [OF inv] by (auto simp: rbind_eq_Inr split: option.splits)
  note k = files_only_fields(1,3) [OF 1]
  have "CURPROC c (FCB_incref f s1) = Inr cur" using cur CURPROC_cong [of "FCB_incref f s1" s c] k by simp
  then have "s' = set_fid cur (nat fd2) (Some f) (FCB_incref f s1)" using s1(2) by simp
  moreover have "files_only cur (FCB_incref f s1) (set_fid cur (nat fd2) (Some f) (FCB_incref f s1))" by simp
  ultimately show ?thesis using 1 files_only_trans files_only_simple(1) by metis
qed

lemma unreserve_files:
  assumes p: "fcb_pool cnt s fl" and f: "cnt f = Some n" and cur: "CURPROC c s = Inr cur"
    and u: "FCB_unreserve c [i] [f] s = Inr s'"
  shows "files_only cur s s'"
proof -
  have s': "s' = release_FCB f (set_fid cur i None s)"
    using u cur by (auto simp: FCB_unreserve_def split: if_splits)
  have "fcb_pool cnt (set_fid cur i None s) fl" using p by (subst fcb_pool_cong) simp_all
  from release_files [OF this f, of cur] show ?thesis
    unfolding s' by (rule files_only_trans [rotated]) simp
qed

lemma reserve_one:
  assumes p: "fcb_pool cnt s fl" and r: "FCB_reserve c 1 s = Inr (Some (fids, fcbs), s1)"
  obtains i f fl' n where "fids = [i]" and "fcbs = [f]" and "fcb_pool (cnt(f \<mapsto> n)) s1 fl'"
    and "same_rest s s1"
proof -
  obtain cur where cur: "CURPROC c s = Inr cur" using r by (auto simp: FCB_reserve_def rbind_eq_Inr)
  have "\<not> (length (free_fids (FIDT (PT s cur)) 0) < 1 \<or> length fl < 1)"
  proof
    assume "length (free_fids (FIDT (PT s cur)) 0) < 1 \<or> length fl < 1"
    from FCB_reserve_fails [OF p cur this] r show False by auto
  qed
  then obtain i "is" f fs where i: "free_fids (FIDT (PT s cur)) 0 = i # is" and fl: "fl = f # fs"
    by (cases fl; cases "free_fids (FIDT (PT s cur)) 0") auto
  obtain s2 where s2: "FCB_reserve c 1 s = Inr (Some ([i], [f]), s2)" "fcb_pool (cnt(f \<mapsto> 1)) s2 fs" "same_rest s s2"
    by (rule FCB_reserve_one [OF p [unfolded fl] cur i])
  have e: "s1 = s2" "fids = [i]" "fcbs = [f]" using r unfolding s2(1) by simp_all
  show ?thesis by (rule that [OF e(2,3) s2(2,3) [folded e(1)]])
qed

lemma open_files:
  assumes inv: "fs_inv pins s fl" and cur: "CURPROC c s = Inr cur" and r: "open_stream c major minor s = Inr (rc, s')"
  shows "files_only cur s s'"
proof -
  note p = fs_cntD(1) [OF fs_invD(1) [OF inv]]
  obtain rv s1 where s1: "FCB_reserve c 1 s = Inr (rv, s1)" using r by (auto simp: open_stream_def rbind_eq_Inr)
  note a = reserve_files [OF p cur s1]
  show ?thesis
  proof (cases rv)
    case None
    with r s1 a show ?thesis by (simp add: open_stream_def)
  next
    case (Some ff)
    obtain fids fcbs where ff: "ff = (fids, fcbs)" by fastforce
    obtain i f fl' n where e: "fids = [i]" "fcbs = [f]" and p1: "fcb_pool ((\<lambda>f. cnt_of (nrefs s f + pins f))(f \<mapsto> n)) s1 fl'"
      and same: "same_rest s s1" by (rule reserve_one [OF p s1 [unfolded Some ff]])
    have cur1: "CURPROC c s1 = Inr cur" using cur CURPROC_cong [of s1 s c] same by (simp add: same_rest_def)
    have "FCB_unreserve c [i] [f] s1 = Inr s' \<or> (\<exists>x. s' = set_FCB f x s1)"
      using r s1 Some ff e by (auto simp: open_stream_def rbind_eq_Inr split: option.splits)
    moreover have "files_only cur s1 s'" if "FCB_unreserve c [i] [f] s1 = Inr s'"
      by (rule unreserve_files [OF p1 _ cur1 that]) simp
    ultimately have "files_only cur s1 s'" by auto
    with a show ?thesis by (rule files_only_trans)
  qed
qed

lemma console_files:
  assumes inv: "fs_inv pins s fl" and cur: "CURPROC c s = Inr cur" and r: "tinyos_pseudo_console c s = Inr s'"
  shows "files_only cur s s'"
proof -
  note p = fs_cntD(1) [OF fs_invD(1) [OF inv]]
  obtain rv s1 where q: "FCB_reserve c 2 s = Inr (rv, s1)" using r by (auto simp: tinyos_pseudo_console_def rbind_eq_Inr)
  with r obtain fids fcbs where "rv = Some (fids, fcbs)" by (cases rv) (auto simp: tinyos_pseudo_console_def)
  with q r have s1: "FCB_reserve c 2 s = Inr (Some (fids, fcbs), s1)"
    "s' = set_console_FCB (fcbs ! 1) (set_console_FCB (fcbs ! 0) s1)"
    by (simp_all add: tinyos_pseudo_console_def split: if_splits)
  have "files_only cur s1 (set_console_FCB (fcbs ! 0) s1)"
    "files_only cur (set_console_FCB (fcbs ! 0) s1) s'" unfolding s1(2) by (simp_all add: set_console_FCB_def)
  then show ?thesis using reserve_files [OF p cur s1(1)] files_only_trans by blast
qed

section \<open>The other components\<close>

lemma files_only_cc:
  assumes "cc_ok pc W R s" and "files_only p s s'"
  shows "cc_ok pc W R s'"
  by (rule cc_ok_frame [OF assms(1) files_only_fields(19) [OF assms(2)]])
    (use files_only_fields [OF assms(2)] in \<open>auto simp: plain_node_def\<close>)

lemma files_only_proc:
  assumes "proc_inv fl K X T s" and "files_only p s s'" and "pstate (PT s p) = ALIVE"
  shows "proc_inv fl K X T s'"
proof -
  note f = files_only_fields [OF assms(2)]
  have k: "keeps_on proc_node (rl s) (rl s')" by (rule keeps_on_sub [OF f(19)]) auto
  have F: "FIDT (PT s' q) = FIDT (PT s q)" if "pstate (PT s q) \<noteq> ALIVE" for q
    using that assms(3) f(18) [of q] by (cases "q = p") auto
  show ?thesis by (rule proc_inv_keeps [OF assms(1) k]) (use f F in auto)
qed

end
