(* ===== verification/System.thy ===== *)
theory System
  imports Streams_Frames Proc_Run Thread_Exit
begin

text \<open>
  The kernel as a whole: the steps of the scheduler, of the condition variables and of the kernel
  lock on all cores, interleaved with the system calls of the threads that hold the kernel, and
  the invariant that ties threads, their PTCBs and their processes together.
\<close>

section \<open>Threads and processes\<close>

text \<open>The threads of a process that have not exited.\<close>

definition threads_of :: "kernel \<Rightarrow> pref \<Rightarrow> tref set" where
  "threads_of s p = {t. \<exists>x. tcbs s t = Some x \<and> ttype x = NORMAL_THREAD \<and> tstate x \<noteq> EXITED \<and> owner_pcb x = p}"

text \<open>
  A thread that has not exited has a PTCB of its own, which is in the list of its process; the
  process is alive, and it counts its threads.  A process that is alive has threads, except for
  process 0, to which the idle threads belong.
\<close>

definition has_ptcb :: "(pref \<Rightarrow> ptref list) \<Rightarrow> kernel \<Rightarrow> tref \<Rightarrow> tcb \<Rightarrow> bool" where
  "has_ptcb T s t x \<longleftrightarrow> owner_pcb x < MAX_PROC \<and> pstate (PT s (owner_pcb x)) = ALIVE \<and>
     (\<exists>a y. tptcb x = Some a \<and> a \<in> set (T (owner_pcb x)) \<and> ptcbs s a = Some y \<and> ptcb_tcb y = Some t \<and> \<not> exited y)"

definition thr_inv :: "(pref \<Rightarrow> ptref list) \<Rightarrow> kernel \<Rightarrow> bool" where
  "thr_inv T s \<longleftrightarrow>
     (\<forall>t x. tcbs s t = Some x \<longrightarrow> ttype x = NORMAL_THREAD \<longrightarrow> tstate x \<noteq> EXITED \<longrightarrow> has_ptcb T s t x) \<and>
     (\<forall>p. live s p \<longrightarrow> thread_count (PT s p) = of_nat (card (threads_of s p))) \<and>
     (\<forall>p. live s p \<longrightarrow> p \<noteq> 0 \<longrightarrow> pstate (PT s p) = ALIVE \<longrightarrow> threads_of s p \<noteq> {}) \<and>
     finite (dom (tcbs s)) \<and> card (dom (tcbs s)) < 2 ^ 32"

lemma thr_invD:
  assumes "thr_inv T s"
  shows "tcbs s t = Some x \<Longrightarrow> ttype x = NORMAL_THREAD \<Longrightarrow> tstate x \<noteq> EXITED \<Longrightarrow> has_ptcb T s t x"
    and "live s p \<Longrightarrow> thread_count (PT s p) = of_nat (card (threads_of s p))"
    and "finite (dom (tcbs s))" and "card (dom (tcbs s)) < 2 ^ 32"
    and "live s p \<Longrightarrow> p \<noteq> 0 \<Longrightarrow> pstate (PT s p) = ALIVE \<Longrightarrow> threads_of s p \<noteq> {}"
  using assms by (simp_all add: thr_inv_def)

lemma threads_of_dom: "threads_of s p \<subseteq> dom (tcbs s)"
  by (auto simp: threads_of_def)

lemma threads_of_owner:
  assumes "thr_inv T s" and "t \<in> threads_of s p"
  shows "p < MAX_PROC" and "pstate (PT s p) = ALIVE"
  using assms thr_invD(1) [OF assms(1), of t] by (auto simp: threads_of_def has_ptcb_def)

lemma threads_of_small: "thr_inv T s \<Longrightarrow> finite (threads_of s p) \<and> card (threads_of s p) < 2 ^ 32"
  using thr_invD(3,4) [of T s] card_mono [OF thr_invD(3) threads_of_dom, of T s p]
    finite_subset [OF threads_of_dom] by fastforce

lemma count_eq:
  assumes "thr_inv T s" and "live s p" and "n < 2 ^ 32"
  shows "thread_count (PT s p) = of_nat n \<longleftrightarrow> card (threads_of s p) = n"
proof -
  have "unat (of_nat k :: uint) = k" if "k < 2 ^ 32" for k using that by (simp add: unat_of_nat)
  then show ?thesis using thr_invD(2) [OF assms(1,2)] threads_of_small [OF assms(1), of p] assms(3) by metis
qed

section \<open>Steps that keep the threads\<close>

lemma kept_back:
  assumes "threads_kept s s'" and "tcbs s' t = Some y"
  obtains x where "tcbs s t = Some x" and "same_thread x y" and "tstate y = EXITED \<longleftrightarrow> tstate x = EXITED"
proof -
  note k = assms(1) [unfolded threads_kept_def, rule_format, of t]
  then obtain x where "tcbs s t = Some x" using assms(2) by (cases "tcbs s t") auto
  with k assms(2) that show ?thesis by (auto simp: thread_kept_def)
qed

lemma kept_threads_of:
  assumes "threads_kept s s'" shows "threads_of s' p = threads_of s p"
proof (rule set_eqI)
  fix t
  show "t \<in> threads_of s' p \<longleftrightarrow> t \<in> threads_of s p"
  proof
    assume "t \<in> threads_of s' p"
    then obtain y where y: "tcbs s' t = Some y" "ttype y = NORMAL_THREAD" "tstate y \<noteq> EXITED" "owner_pcb y = p"
      by (auto simp: threads_of_def)
    from kept_back [OF assms y(1)] obtain x where "tcbs s t = Some x" "same_thread x y" "tstate x \<noteq> EXITED"
      using y(3) by metis
    with y show "t \<in> threads_of s p" by (auto simp: threads_of_def same_thread_def)
  next
    assume "t \<in> threads_of s p"
    then obtain x where x: "tcbs s t = Some x" "ttype x = NORMAL_THREAD" "tstate x \<noteq> EXITED" "owner_pcb x = p"
      by (auto simp: threads_of_def)
    obtain y where "tcbs s' t = Some y" "same_thread x y" "tstate y \<noteq> EXITED"
      by (rule threads_keptD [OF assms x(1,3)])
    with x show "t \<in> threads_of s' p" by (auto simp: threads_of_def same_thread_def)
  qed
qed

text \<open>What is needed of the PTCBs and of the process table.\<close>

definition ptcbs_kept :: "kernel \<Rightarrow> kernel \<Rightarrow> bool" where
  "ptcbs_kept s s' \<longleftrightarrow> (\<forall>a y. ptcbs s a = Some y \<longrightarrow> (\<exists>y'. ptcbs s' a = Some y' \<and> ptcb_tcb y' = ptcb_tcb y \<and> exited y' = exited y))"

lemma ptcbs_kept_same [simp]: "ptcbs s' = ptcbs s \<Longrightarrow> ptcbs_kept s s'"
  by (simp add: ptcbs_kept_def)

lemma ptcbs_kept_upd:
  "ptcbs s' = (ptcbs s)(a \<mapsto> y') \<Longrightarrow> ptcbs s a = Some y \<Longrightarrow> ptcb_tcb y' = ptcb_tcb y \<Longrightarrow> exited y' = exited y \<Longrightarrow>
   ptcbs_kept s s'"
  by (simp add: ptcbs_kept_def)

lemma thr_inv_kept:
  assumes inv: "thr_inv T s" and k: "threads_kept s s'" and p: "ptcbs_kept s s'"
    and a: "\<And>p. pstate (PT s' p) = ALIVE \<longleftrightarrow> pstate (PT s p) = ALIVE"
    and l: "\<And>p. live s' p \<Longrightarrow> live s p \<and> thread_count (PT s' p) = thread_count (PT s p)"
  shows "thr_inv T s'"
proof -
  have "has_ptcb T s' t y" if y: "tcbs s' t = Some y" "ttype y = NORMAL_THREAD" "tstate y \<noteq> EXITED" for t y
  proof -
    obtain x where x: "tcbs s t = Some x" "same_thread x y" "tstate y = EXITED \<longleftrightarrow> tstate x = EXITED"
      by (rule kept_back [OF k y(1)])
    then have "has_ptcb T s t x" using thr_invD(1) [OF inv x(1)] y by (simp add: same_thread_def)
    then show ?thesis using x(2) a p by (fastforce simp: has_ptcb_def same_thread_def ptcbs_kept_def)
  qed
  moreover have "dom (tcbs s') \<subseteq> dom (tcbs s)"
    using kept_back [OF k] by (metis domI domD subsetI)
  then have "finite (dom (tcbs s')) \<and> card (dom (tcbs s')) < 2 ^ 32"
    using thr_invD(3,4) [OF inv] by (meson card_mono finite_subset le_less_trans)
  ultimately show ?thesis
    using l a thr_invD(2,5) [OF inv] unfolding thr_inv_def kept_threads_of [OF k] by auto
qed

section \<open>A new thread\<close>

lemma thr_inv_new:
  assumes inv: "thr_inv T s" and new: "tcbs s (HeapT ta) = None" "ptcbs s pa = None"
    and tc: "tcbs s' = (tcbs s)(HeapT ta \<mapsto> started_tcb p func pa)"
    and pt: "ptcbs s' = (ptcbs s)(pa \<mapsto> new_ptcb (HeapT ta) call len a)"
    and p: "p < MAX_PROC" "pstate (PT s' p) = ALIVE"
    and cnt: "thread_count (PT s' p) = of_nat (card (threads_of s p)) + 1"
    and q: "\<And>q. q \<noteq> p \<Longrightarrow> pstate (PT s' q) = pstate (PT s q) \<and> thread_count (PT s' q) = thread_count (PT s q)"
    and room: "card (dom (tcbs s)) + 1 < 2 ^ 32"
  shows "thr_inv (T(p := T p @ [pa])) s'"
proof -
  let ?t = "HeapT ta" and ?x = "started_tcb p func pa"
  have x: "ttype ?x = NORMAL_THREAD" "tstate ?x = READY" "owner_pcb ?x = p" "tptcb ?x = Some pa"
    by (simp_all add: started_tcb_def new_tcb_def)
  have "has_ptcb (T(p := T p @ [pa])) s' t y" if y: "tcbs s' t = Some y" "ttype y = NORMAL_THREAD" "tstate y \<noteq> EXITED" for t y
  proof (cases "t = ?t")
    case True
    with y(1) tc have "y = ?x" by simp
    with True x p pt show ?thesis by (simp add: has_ptcb_def new_ptcb_def)
  next
    case False
    then have ty: "tcbs s t = Some y" using y(1) tc by simp
    obtain b z where b: "owner_pcb y < MAX_PROC" "pstate (PT s (owner_pcb y)) = ALIVE" "tptcb y = Some b"
      "b \<in> set (T (owner_pcb y))" "ptcbs s b = Some z" "ptcb_tcb z = Some t" "\<not> exited z"
      using thr_invD(1) [OF inv ty y(2,3)] by (auto simp: has_ptcb_def)
    have "b \<noteq> pa" using b(5) new(2) by auto
    moreover have "pstate (PT s' (owner_pcb y)) = ALIVE" using b(2) p(2) q by (cases "owner_pcb y = p") auto
    ultimately show ?thesis using b pt by (auto simp: has_ptcb_def)
  qed
  moreover have "threads_of s' r = (if r = p then insert ?t (threads_of s p) else threads_of s r)" for r
    using new(1) x by (auto simp: threads_of_def tc)
  note th = this
  have "?t \<notin> threads_of s p" using new(1) by (simp add: threads_of_def)
  then have "card (threads_of s' p) = Suc (card (threads_of s p))"
    using threads_of_small [OF inv, of p] by (simp add: th)
  then have "thread_count (PT s' r) = of_nat (card (threads_of s' r))" if r: "live s' r" for r
  proof (cases "r = p")
    case False
    then have "live s r" using r q by (simp add: live_def)
    with False show ?thesis using thr_invD(2) [OF inv] q th by simp
  qed (simp add: cnt)
  moreover have "dom (tcbs s') = insert ?t (dom (tcbs s))" by (simp add: tc)
  then have "finite (dom (tcbs s')) \<and> card (dom (tcbs s')) < 2 ^ 32"
    using thr_invD(3) [OF inv] room new(1) by (simp add: domIff)
  moreover have "threads_of s' r \<noteq> {}" if "live s' r" "r \<noteq> 0" "pstate (PT s' r) = ALIVE" for r
    using that q [of r] thr_invD(5) [OF inv, of r] by (simp add: th live_def)
  ultimately show ?thesis by (simp add: thr_inv_def)
qed

section \<open>The end of a thread\<close>

lemma thr_inv_left:
  assumes inv: "thr_inv T s" and left: "thread_left t s s'" and t: "tcbs s t = Some x" "ttype x = NORMAL_THREAD"
      "tstate x \<noteq> EXITED" "owner_pcb x = p" "tptcb x = Some a" "ptcbs s a = Some y"
    and pt: "ptcbs s' = left_ptcbs a v y (ptcbs s)"
    and al: "\<And>q. pstate (PT s' q) = ALIVE \<longleftrightarrow> pstate (PT s q) = ALIVE \<and> (q \<noteq> p \<or> thread_count (PT s p) \<noteq> 1)"
    and lv: "\<And>q. live s' q \<Longrightarrow> live s q"
    and cnt: "\<And>q. thread_count (PT s' q) = (if q = p then thread_count (PT s p) - 1 else thread_count (PT s q))"
  shows "thr_inv (left_threads p a y T) s'"
proof -
  note l = left [unfolded thread_left_def]
  have me: "has_ptcb T s t x" by (rule thr_invD(1) [OF inv t(1-3)])
  then have lvp: "live s p" using t(4) by (simp add: live_def has_ptcb_def)
  have ex: "\<exists>z. tcbs s' t = Some z \<and> tstate z = EXITED" using l t(1) by blast
  have bk: "\<exists>z. tcbs s u = Some z \<and> same_thread z w \<and> (tstate w = EXITED \<longleftrightarrow> tstate z = EXITED)"
    if "u \<noteq> t" "tcbs s' u = Some w" for u w
    using l that by (cases "tcbs s u") (fastforce simp: thread_kept_def)+
  have th: "threads_of s' q = threads_of s q - {t}" for q
  proof (rule set_eqI)
    fix u
    have fwd: "\<exists>z. tcbs s' u = Some z \<and> same_thread w z \<and> tstate z \<noteq> EXITED"
      if "u \<noteq> t" "tcbs s u = Some w" "tstate w \<noteq> EXITED" for w
      using l that by (fastforce simp: thread_kept_def split: option.splits)
    then show "u \<in> threads_of s' q \<longleftrightarrow> u \<in> threads_of s q - {t}"
      using ex bk by (cases "u = t") (fastforce simp: threads_of_def same_thread_def)+
  qed
  have "has_ptcb (left_threads p a y T) s' u w" if w: "tcbs s' u = Some w" "ttype w = NORMAL_THREAD" "tstate w \<noteq> EXITED" for u w
  proof -
    have ut: "u \<noteq> t" using ex w by auto
    obtain z where z: "tcbs s u = Some z" "same_thread z w" "tstate z \<noteq> EXITED" using bk [OF ut w(1)] w(3) by auto
    then have zn: "ttype z = NORMAL_THREAD" "owner_pcb w = owner_pcb z" "tptcb w = tptcb z"
      using w(2) by (simp_all add: same_thread_def)
    obtain b k where b: "owner_pcb z < MAX_PROC" "pstate (PT s (owner_pcb z)) = ALIVE" "tptcb z = Some b"
      "b \<in> set (T (owner_pcb z))" "ptcbs s b = Some k" "ptcb_tcb k = Some u" "\<not> exited k"
      using thr_invD(1) [OF inv z(1) zn(1) z(3)] by (auto simp: has_ptcb_def)
    have "ptcb_tcb y = Some t" using me t(5,6) by (auto simp: has_ptcb_def)
    then have ba: "b \<noteq> a" using b(5,6) t(6) ut by auto
    have "thread_count (PT s p) \<noteq> 1" if o: "owner_pcb z = p"
    proof
      assume "thread_count (PT s p) = 1"
      then have "card (threads_of s p) = 1" using count_eq [OF inv lvp, of 1] by simp
      moreover have "{t, u} \<subseteq> threads_of s p" using t z zn o by (auto simp: threads_of_def)
      ultimately show False using card_mono [of "threads_of s p" "{t, u}"] threads_of_small [OF inv, of p] ut by simp
    qed
    then have "pstate (PT s' (owner_pcb z)) = ALIVE" using al b(2) by blast
    moreover have "b \<in> set (left_threads p a y T (owner_pcb z))" using b(4) ba by (auto simp: left_threads_def)
    moreover have "ptcbs s' b = Some k" using b(5) ba by (simp add: pt left_ptcbs_def)
    ultimately show ?thesis using b zn by (auto simp: has_ptcb_def)
  qed
  moreover have "thread_count (PT s' q) = of_nat (card (threads_of s' q))" if "live s' q" for q
  proof (cases "q = p")
    case True
    have "t \<in> threads_of s p" using t by (auto simp: threads_of_def)
    then have "card (threads_of s p) = Suc (card (threads_of s' p))"
      using threads_of_small [OF inv, of p] card.remove [of "threads_of s p" t] by (simp only: th)
    then show ?thesis using True cnt [of p] thr_invD(2) [OF inv lvp] by simp
  next
    case False
    have "t \<notin> threads_of s q" using False t by (auto simp: threads_of_def)
    then show ?thesis using False cnt [of q] thr_invD(2) [OF inv lv [OF that]] by (simp add: th)
  qed
  moreover have "dom (tcbs s') \<subseteq> dom (tcbs s)"
  proof
    fix u assume "u \<in> dom (tcbs s')"
    then obtain w where "tcbs s' u = Some w" by blast
    with bk t(1) show "u \<in> dom (tcbs s)" by (cases "u = t") auto
  qed
  then have "finite (dom (tcbs s')) \<and> card (dom (tcbs s')) < 2 ^ 32"
    using thr_invD(3,4) [OF inv] by (meson card_mono finite_subset le_less_trans)
  moreover have "threads_of s' q \<noteq> {}" if "live s' q" "q \<noteq> 0" "pstate (PT s' q) = ALIVE" for q
  proof (cases "q = p")
    case True
    have "threads_of s p \<noteq> {t}"
      using that(3) al [of q] True count_eq [OF inv lvp, of 1] by auto
    moreover have "t \<in> threads_of s p" using t by (auto simp: threads_of_def)
    ultimately show ?thesis using True by (auto simp: th)
  next
    case False
    then have "t \<notin> threads_of s q" using t by (auto simp: threads_of_def)
    with thr_invD(5) [OF inv lv [OF that(1)] that(2)] al [of q] that(3) show ?thesis by (auto simp: th)
  qed
  ultimately show ?thesis by (simp add: thr_inv_def)
qed

end
