(* ===== verification/System_Calls.thy ===== *)
theory System_Calls
  imports System Proc_Run Cond_Safe
begin

text \<open>
  The steps of a thread that holds the kernel: every system call keeps the invariants of all
  components, and what the scheduler and the condition variables leave alone.
\<close>

section \<open>What the scheduler and the condition variables leave alone\<close>

definition core_frame :: "kernel \<Rightarrow> kernel \<Rightarrow> bool" where
  "core_frame s s' \<longleftrightarrow> keeps_on plain_node (rl s) (rl s') \<and> ptcbs s' = ptcbs s \<and> PT s' = PT s \<and>
     pcb_freelist s' = pcb_freelist s \<and> process_count s' = process_count s \<and> FT s' = FT s \<and> same_devs s s'"

lemma core_frame_trans: "core_frame s s1 \<Longrightarrow> core_frame s1 s' \<Longrightarrow> core_frame s s'"
  by (auto simp: core_frame_def intro: keeps_on_trans same_devs_trans)

lemma core_frames:
  "cv_frame s s' \<Longrightarrow> core_frame s s'" "other_frame s s' \<Longrightarrow> core_frame s s'"
  "core_frame s (s\<lparr>kernel_sem := k\<rparr>)"
  by (auto simp: core_frame_def cv_frame_def other_frame_def plain_node_def same_devs_def elim: keeps_on_sub)

lemma core_frame_kept:
  assumes f: "core_frame s s'" and fs: "fs_inv pins s fs" and pr: "proc_inv fl K X T s"
  shows "fs_inv pins s' fs" and "proc_inv fl K X T s'"
proof -
  note c = f [unfolded core_frame_def]
  show "fs_inv pins s' fs"
    by (rule fs_frame [OF fs, where N = plain_node]) (use c in \<open>simp_all add: plain_node_def\<close>)
  have "keeps_on proc_node (rl s) (rl s')" using c by (auto elim: keeps_on_sub intro: proc_node_plain)
  then show "proc_inv fl K X T s'" by (rule proc_inv_keeps [OF pr]) (use c in simp_all)
qed

lemma unlock_frame:
  assumes "cc_ok pc W R s" and "kernel_unlock c s = Inr s'"
  shows "core_frame s s'"
proof -
  obtain s'' R' where "kernel_unlock c s = Inr s''" "cv_frame (s\<lparr>kernel_sem := kernel_sem s + 1\<rparr>) s''"
    by (rule unlock_ok [OF assms(1)])
  with assms(2) show ?thesis using core_frame_trans core_frames by fastforce
qed

lemma lock_step_frame:
  assumes ok: "cc_ok pc W R s" and c: "c < ncores s" "pc c = Running" and l: "kernel_lock_step c s = Inr (b, s')"
    and m: "b \<or> may_wait c NO_TIMEOUT s"
  shows "core_frame s s'"
proof (cases b)
  case True
  then show ?thesis using lock_step_take(2) [of c s s'] l core_frames(3) by auto
next
  case False
  then obtain p where "cv_wait_begin c KernelSemCv NO_TIMEOUT s = Inr (p, s')" using l by (auto elim: lock_step_wait)
  with wait_step_inv(2) [OF ok c, of NO_TIMEOUT KernelSemCv p s'] m False show ?thesis by (simp add: core_frames)
qed

lemma cc_step_frame:
  assumes "cc_step (pc, W, H, s) (pc', W', H', s')" and inv: "cc_inv (pc, W, H, s)"
  shows "core_frame s s'"
  using assms(1)
proof (cases rule: cc_step.cases)
  case cc_sched
  obtain R L hs where "sched_inv pc s L hs" using inv by (auto simp: cc_inv_def cc_ok_def)
  with cc_sched sched_step_frame show ?thesis by (auto intro: core_frames)
next
  case (cc_wait c timeout cv p cause)
  obtain R where "cc_ok pc W R s" using inv by (auto simp: cc_inv_def)
  with cc_wait wait_step_inv(2) [of pc W R s c timeout cv p s'] show ?thesis by (auto simp: awake_def intro: core_frames)
next
  case (cc_wait_end c cv r)
  with cc_wait_end_case(2) [OF inv] show ?thesis by (auto intro: core_frames)
next
  case (cc_signal c cv)
  obtain R where ok: "cc_ok pc W R s" using inv by (auto simp: cc_inv_def)
  obtain s'' where "Cond_Signal c cv s = Inr s''" "cv_frame s s''" by (rule signal_ok [OF ok])
  with cc_signal show ?thesis by (auto intro: core_frames)
next
  case (cc_broadcast c cv)
  obtain R where ok: "cc_ok pc W R s" using inv by (auto simp: cc_inv_def)
  obtain s'' where "Cond_Broadcast c cv s = Inr s''" "cv_frame s s''" by (rule broadcast_ok [OF ok])
  with cc_broadcast show ?thesis by (auto intro: core_frames)
next
  case (cc_lock c)
  then show ?thesis using lock_step_take(2) [of c s s'] core_frames(3) by auto
next
  case (cc_lock_wait c)
  obtain R where ok: "cc_ok pc W R s" using inv by (auto simp: cc_inv_def)
  show ?thesis by (rule lock_step_frame [OF ok]) (use cc_lock_wait in \<open>auto simp: awake_def\<close>)
next
  case (cc_resume c)
  then obtain q s1 where e: "cv_wait_end c KernelSemCv s = Inr (q, s1)" and b: "kernel_lock_step c s1 = Inr (True, s')"
    by (auto simp: kernel_lock_resume_def rbind_eq_Inr)
  from cc_wait_end_case(2) [OF inv _ e] cc_resume have "core_frame s s1" by (auto intro: core_frames)
  moreover have "core_frame s1 s'" using lock_step_take(2) [OF b] core_frames(3) by auto
  ultimately show ?thesis by (rule core_frame_trans)
next
  case (cc_resume_wait c x)
  then obtain q s1 where e: "cv_wait_end c KernelSemCv s = Inr (q, s1)" and b: "kernel_lock_step c s1 = Inr (False, s')"
    by (auto simp: kernel_lock_resume_def rbind_eq_Inr)
  have w: "W (CURTHREAD c s) = Some KernelSemCv" using cc_resume_wait by simp
  note d = cc_wait_end_case [OF inv w e]
  obtain R1 where ok1: "cc_ok pc (W(CURTHREAD c s := None)) R1 s1" using d(1) by blast
  note f = frame_core [OF d(2)]
  have "may_wait c NO_TIMEOUT s1" using cc_resume_wait d(3,5) by (simp add: may_wait_def f)
  with lock_step_frame [OF ok1 _ _ b] cc_resume_wait have "core_frame s1 s'" by (simp add: awake_def f)
  moreover have "core_frame s s1" using d(2) by (rule core_frames)
  ultimately show ?thesis by (rule core_frame_trans [rotated])
next
  case (cc_unlock c)
  obtain R where "cc_ok pc W R s" using inv by (auto simp: cc_inv_def)
  with cc_unlock unlock_frame show ?thesis by blast
next
  case (cc_kernel_wait c timeout cv p cause)
  obtain R where ok: "cc_ok pc W R s" using inv by (auto simp: cc_inv_def)
  obtain s1 where u: "kernel_unlock c s = Inr s1" and b: "cv_wait_begin c cv timeout s1 = Inr (p, s')"
    using cc_kernel_wait by (auto simp: kernel_wait_begin_def rbind_eq_Inr)
  have c: "c < ncores s" "pc c = Running" using cc_kernel_wait by (simp_all add: awake_def)
  obtain s'' R' where s'': "kernel_unlock c s = Inr s''" "cc_ok pc W R' s''" by (rule unlock_ok [OF ok])
  note m = unlock_may_wait [OF ok c _ u]
  have "cv_frame s1 s'"
    using wait_step_inv(2) [of pc W R' s1 c timeout cv p s'] s'' u m cc_kernel_wait c b by simp
  then show ?thesis using core_frame_trans [OF unlock_frame [OF ok u]] core_frames(1) by blast
qed

section \<open>Calls of a thread that holds the kernel\<close>

text \<open>
  Every system call of src/kernel_proc.c, src/kernel_threads.c and src/kernel_streams.c that changes
  the state, on every path of the code that returns or goes to sleep.  A thread that was woken in
  \<open>ThreadJoin\<close> or \<open>WaitChild\<close> goes on with the loop of the call.  The addresses of new records are
  fresh, the arguments of a program are in the memory, which has no room for 2^32 threads, and
  fewer than 2^31 - 1 reads and writes are in the drivers of one stream at a time.

  Three paths of the code break the tables of threads and processes, which the theorems on
  disorder show: a thread that goes on with \<open>ThreadJoin\<close> after the thread it joins was detached, a
  thread that goes on with \<open>WaitChild\<close> for a child that another thread of its process has already
  reaped, and \<open>Exec\<close> without a function to run.  The relation has them; with \<open>ord\<close>, for orderly
  programs, it leaves them out.
\<close>

definition has_room :: "kernel \<Rightarrow> bool" where
  "has_room s \<longleftrightarrow> card (dom (tcbs s)) + 1 < 2 ^ 32"

inductive kcall :: "bool \<Rightarrow> nat \<Rightarrow> fs_conf \<Rightarrow> fs_conf \<Rightarrow> bool" for ord c where
  kc_exec: "(ord \<longrightarrow> call \<noteq> None) \<Longrightarrow> args_ok a len s \<Longrightarrow> fresh_thread pa ta s \<Longrightarrow> has_room s \<Longrightarrow>
    sys_Exec c call len a (m, pa, ta) s = Inr (pid, s') \<Longrightarrow> kcall ord c (pins, s) (pins, s')"
| kc_create: "fresh_thread pa ta s \<Longrightarrow> has_room s \<Longrightarrow>
    sys_CreateThread c task len a (pa, ta) s = Inr (tid, s') \<Longrightarrow> kcall ord c (pins, s) (pins, s')"
| kc_join: "sys_ThreadJoin c (OPtcb a) ev s = Inr (r, s') \<Longrightarrow> kcall ord c (pins, s) (pins, s')"
| kc_rejoin: "(ord \<longrightarrow> (\<exists>x. ptcbs s a = Some x \<and> \<not> detached x)) \<Longrightarrow> join_loop c a s = Inr (r, s') \<Longrightarrow>
    kcall ord c (pins, s) (pins, s')"
| kc_detach: "sys_ThreadDetach c (OPtcb a) s = Inr (rc, s') \<Longrightarrow> kcall ord c (pins, s) (pins, s')"
| kc_wait: "sys_WaitChild c cpid st s = Inr (w, s') \<Longrightarrow> kcall ord c (pins, s) (pins, s')"
| kc_rewait: "(ord \<longrightarrow> live s q \<and> parent (PT s q) = Some p) \<Longrightarrow> CURPROC c s = Inr p \<Longrightarrow>
    specific_child_loop p q st s = (w, s') \<Longrightarrow> kcall ord c (pins, s) (pins, s')"
| kc_rewait_any: "CURPROC c s = Inr p \<Longrightarrow> any_child_loop p st s = Inr (w, s') \<Longrightarrow> kcall ord c (pins, s) (pins, s')"
| kc_enter: "io_enter c fd s = Inr (Some (f, sobj, ops), s') \<Longrightarrow> pins f + 1 < 2 ^ 31 \<Longrightarrow>
    kcall ord c (pins, s) (pins(f := pins f + 1), s')"
| kc_leave: "pins f = Suc k \<Longrightarrow> io_leave f s = Inr s' \<Longrightarrow> kcall ord c (pins, s) (pins(f := k), s')"
| kc_close: "sys_Close c fd s = Inr (rc, s') \<Longrightarrow> kcall ord c (pins, s) (pins, s')"
| kc_dup2: "sys_Dup2 c fd1 fd2 s = Inr (rc, s') \<Longrightarrow> kcall ord c (pins, s) (pins, s')"
| kc_open: "major \<noteq> DEV_MAX \<Longrightarrow> open_stream c major minor s = Inr (rc, s') \<Longrightarrow>
    kcall ord c (pins, s) (pins, s')"

text \<open>All the invariants but those of the kernel lock.\<close>

definition sys_ok :: "(nat \<Rightarrow> cpc) \<Rightarrow> (tref \<Rightarrow> cvref option) \<Rightarrow> (fref \<Rightarrow> nat) \<Rightarrow> kernel \<Rightarrow> bool" where
  "sys_ok pc W pins s \<longleftrightarrow> (\<exists>fs fl K X T. kernel_ok pc W pins fs fl K X T s \<and> thr_inv T s)"

lemma sys_okI:
  "cc_ok pc W R s \<Longrightarrow> fs_inv pins s fs \<Longrightarrow> proc_inv fl K X T s \<Longrightarrow> thr_inv T s \<Longrightarrow> sys_ok pc W pins s"
  unfolding sys_ok_def kernel_ok_def by blast

lemma sys_okE:
  assumes "sys_ok pc W pins s"
  obtains R fs fl K X T where "cc_ok pc W R s" and "fs_inv pins s fs" and "proc_inv fl K X T s" and "thr_inv T s"
  using assms unfolding sys_ok_def kernel_ok_def by blast

text \<open>The call neither touches the kernel lock nor puts a thread to sleep that waits.\<close>

definition quiet_call :: "(tref \<Rightarrow> cvref option) \<Rightarrow> kernel \<Rightarrow> kernel \<Rightarrow> bool" where
  "quiet_call W s s' \<longleftrightarrow> kernel_sem s' = kernel_sem s \<and> same_devs s s' \<and> (\<forall>w. asleep s' w \<longrightarrow> W w \<noteq> None \<longrightarrow> asleep s w)"

lemma quiet_same [simp]: "kernel_sem s' = kernel_sem s \<Longrightarrow> tcbs s' = tcbs s \<Longrightarrow> same_devs s s' \<Longrightarrow> quiet_call W s s'"
  by (simp add: quiet_call_def asleep_def)

lemma quiet_wakes: "wakes_only s s' \<Longrightarrow> quiet_call W s s'"
  by (simp add: quiet_call_def wakes_only_def)

lemma files_call:
  assumes ok: "cc_ok pc W R s" and pr: "proc_inv fl K X T s" and th: "thr_inv T s"
    and f: "files_only p s s'" "pstate (PT s p) = ALIVE" and fs: "fs_inv pins s' fs"
  shows "sys_ok pc W pins s' \<and> quiet_call W s s'"
proof -
  note g = files_only_fields [OF f(1)]
  have "thr_inv T s'"
    by (rule thr_inv_kept [OF th threads_kept_refl [OF g(1)]]) (use g in \<open>simp_all add: live_def\<close>)
  moreover have "same_devs s s'" by (simp add: same_devs_def g)
  ultimately show ?thesis using files_only_cc [OF ok f(1)] files_only_proc [OF pr f] fs g(1,7) by (auto intro: sys_okI)
qed

text \<open>A child that has ended is taken off the process table.\<close>

lemma reap_call:
  assumes ok: "cc_ok pc W R s" and fs: "fs_inv pins s fs" and pr: "proc_inv fl K X T s" and th: "thr_inv T s"
    and q: "live s q" "pstate (PT s q) = ZOMBIE" "parent (PT s q) = Some p"
  shows "sys_ok pc W pins (reaped q s) \<and> quiet_call W s (reaped q s)"
proof -
  note r = cleanup_zombie_ok [OF ok fs pr q]
  have "ptcbs (reaped q s) = ptcbs s" "same_devs s (reaped q s)"
    by (simp_all add: reaped_def cleanup_zombie_def release_PCB_def set_PCB_def Let_def same_devs_def)
  then have "thr_inv T (reaped q s)"
    by (intro thr_inv_kept [OF th threads_kept_refl [OF r(5)]]) (use q r(4) in \<open>auto simp: live_def split: if_splits\<close>)
  with r \<open>same_devs s (reaped q s)\<close> show ?thesis by (auto intro: sys_okI)
qed

text \<open>A thread of a process runs on core \<open>c\<close>; when it holds the kernel, it may call.\<close>

definition runner :: "nat \<Rightarrow> (nat \<Rightarrow> cpc) \<Rightarrow> kernel \<Rightarrow> bool" where
  "runner c pc s \<longleftrightarrow> awake c s \<and> pc c = Running \<and>
     (\<exists>x. tcbs s (CURTHREAD c s) = Some x \<and> ttype x = NORMAL_THREAD)"

definition caller :: "nat \<Rightarrow> (nat \<Rightarrow> cpc) \<Rightarrow> tref set \<Rightarrow> kernel \<Rightarrow> bool" where
  "caller c pc H s \<longleftrightarrow> runner c pc s \<and> CURTHREAD c s \<in> H \<and> waiters s (CURTHREAD c s) = None"

lemma caller_runs: "caller c pc H s \<Longrightarrow> runner c pc s"
  by (simp add: caller_def)

lemma runner_thread:
  assumes cl: "runner c pc s" and ok: "cc_ok pc W R s" and th: "thr_inv T s"
  obtains x p a y where "tcbs s (CURTHREAD c s) = Some x" and "ttype x = NORMAL_THREAD" and "tstate x \<noteq> EXITED"
    and "owner_pcb x = p" and "tptcb x = Some a" and "p < MAX_PROC" and "pstate (PT s p) = ALIVE"
    and "a \<in> set (T p)" and "ptcbs s a = Some y" and "ptcb_tcb y = Some (CURTHREAD c s)" and "\<not> exited y"
    and "CURPROC c s = Inr p" and "live s p"
proof -
  obtain L hs where i: "sched_inv pc s L hs" using cc_okD(1) [OF ok] by blast
  have c: "c < ncores s" "pc c = Running" using cl by (simp_all add: runner_def awake_def)
  obtain x where x: "tcbs s (CURTHREAD c s) = Some x" "tstate x = RUNNING" by (rule current_running [OF i c])
  have n: "ttype x = NORMAL_THREAD" "tstate x \<noteq> EXITED" using cl x by (auto simp: runner_def)
  have "has_ptcb T s (CURTHREAD c s) x" by (rule thr_invD(1) [OF th x(1) n])
  then show ?thesis using that x(1) n by (auto simp: has_ptcb_def CURPROC_def live_def)
qed

lemma wakes_call:
  assumes ok: "cc_ok pc W R s'" and fs: "fs_inv pins s' fs" and pr: "proc_inv fl K X T s'" and th: "thr_inv T s"
    and w: "wakes_only s s'" and p: "ptcbs_kept s s'" and P: "PT s' = PT s"
  shows "sys_ok pc W pins s' \<and> quiet_call W s s'"
proof -
  have "threads_kept s s'" using w by (simp add: wakes_only_def)
  then have "thr_inv T s'" by (rule thr_inv_kept [OF th _ p]) (simp_all add: P live_def)
  with assms show ?thesis by (auto intro: sys_okI quiet_wakes)
qed

text \<open>Changing the number of joiners of a PTCB.\<close>

lemma ptcb_call:
  assumes ok: "cc_ok pc W R s" and fs: "fs_inv pins s fs" and pr: "proc_inv fl K X T s" and th: "thr_inv T s"
    and x: "ptcbs s a = Some x" and y: "ptcb_tcb y = ptcb_tcb x" "exited y = exited x"
  shows "sys_ok pc W pins (set_ptcb a y s) \<and> quiet_call W s (set_ptcb a y s)"
proof -
  have m: "mid_ok pc W R pins fs K X T s" using ok fs proc_invD(3) [OF pr] by (simp add: mid_ok_def)
  note u = ptcb_upd_mid [OF m x, of y]
  have P: "PT (set_ptcb a y s) = PT s" by (simp add: set_ptcb_def)
  have "proc_inv fl K X T (set_ptcb a y s)" by (rule mid_proc [OF u(1) pr u(2)]) (simp_all add: P)
  moreover have "ptcbs_kept s (set_ptcb a y s)" by (rule ptcbs_kept_upd [OF _ x y]) (simp add: set_ptcb_def)
  ultimately show ?thesis using wakes_call [OF _ _ _ th u(2) _ P] u(1) unfolding mid_ok_def by blast
qed

lemma join_loop_kept:
  assumes x: "ptcbs s a = Some x" "\<not> detached x" and pr: "proc_inv fl K X T s"
    and cur: "CURPROC c s = Inr p" "p < MAX_PROC" and j: "join_loop c a s = Inr (r, s')"
  shows "s' = s \<or> (\<exists>y. s' = set_ptcb a y s \<and> ptcb_tcb y = ptcb_tcb x \<and> exited y = exited x)"
proof (cases "exited x")
  case False
  with x j show ?thesis by (simp add: join_loop_def get_ptcb_def)
next
  case True
  have "list_has (ThreadList p) (ONode (ThreadNode a)) (ThreadNode a) (set_ptcb a y s) = Inr False" for y
    using list_has_threads(2) [OF proc_invD(3) [OF pr] cur(2)] by (simp add: list_has_def set_ptcb_def)
  moreover have "CURPROC c (set_ptcb a y s) = Inr p" for y
    using cur(1) CURPROC_cong [of "set_ptcb a y s" s c] by (simp add: set_ptcb_def)
  ultimately have "s' = set_ptcb a (if ref_count x > 0 then x\<lparr>ref_count := ref_count x - 1\<rparr> else x) s"
    using x j True by (auto simp: join_loop_def join_release_def get_ptcb_def Let_def rbind_eq_Inr split: if_splits)
  then show ?thesis by (cases "ref_count x > 0") (simp_all, fastforce+)
qed

lemma exec_call:
  assumes ok: "cc_ok pc W R s" and fs: "fs_inv pins s fs" and pr: "proc_inv fl K X T s" and th: "thr_inv T s"
    and cur: "live s cur" "pstate (PT s cur) = ALIVE" "CURPROC c s = Inr cur" and a: "args_ok a len s"
    and new: "fresh_thread pa ta s" and room: "has_room s"
    and e: "sys_Exec c (Some f) len a (m, pa, ta) s = Inr (pid, s')"
  shows "sys_ok pc W pins s' \<and> quiet_call W s s'"
proof (cases fl)
  case Nil
  then have "s' = s" using e sys_Exec_full [of s] proc_invD(1) [OF pr] by simp
  then show ?thesis using sys_okI [OF ok fs pr th] by simp
next
  case (Cons p fl')
  obtain s1 where s1: "sys_Exec c (Some f) len a (m, pa, ta) s = Inr (int p, s1)" "cc_ok pc W R s1"
    "fs_inv pins s1 fs" "proc_inv fl' (K(cur := p # K cur)) X (T(p := T p @ [pa])) s1"
    "PT s1 = (PT s)(p := (exec_pcb cur (Some f) len (map_option (\<lambda>_. m) a) s p)\<lparr>thread_count := 1\<rparr>)"
    "tcbs s1 = (tcbs s)(HeapT ta \<mapsto> started_tcb p start_main_thread_func pa)"
    "ptcbs s1 = (ptcbs s)(pa \<mapsto> new_ptcb (HeapT ta) (Some f) len a)" "kernel_sem s1 = kernel_sem s" "same_devs s s1"
    by (rule sys_Exec_ok [OF ok fs pr [unfolded Cons] cur a new])
  have s': "s' = s1" using e s1(1) by simp
  have p: "p < MAX_PROC" "\<not> live s p" using pcb_poolD(3) [OF proc_invD(1) [OF pr], of p] Cons by simp_all
  then have "threads_of s p = {}" using threads_of_owner [OF th] by (fastforce simp: live_def)
  moreover have "tcbs s (HeapT ta) = None" "ptcbs s pa = None" using new by (simp_all add: fresh_thread_def)
  moreover have "card (dom (tcbs s)) + 1 < 2 ^ 32" using room by (simp add: has_room_def)
  ultimately have "thr_inv (T(p := T p @ [pa])) s1"
    by (intro thr_inv_new [OF th _ _ s1(6,7) p(1)]) (simp_all add: s1(5) exec_pcb_def)
  moreover have "quiet_call W s s1"
    using s1(9) by (auto simp: quiet_call_def s1(6,8) asleep_def started_tcb_def new_tcb_def)
  ultimately show ?thesis unfolding s' using sys_okI [OF s1(2-4)] by blast
qed

lemma create_call:
  assumes ok: "cc_ok pc W R s" and fs: "fs_inv pins s fs" and pr: "proc_inv fl K X T s" and th: "thr_inv T s"
    and cur: "live s cur" "pstate (PT s cur) = ALIVE" "CURPROC c s = Inr cur"
    and new: "fresh_thread pa ta s" and room: "has_room s"
    and e: "sys_CreateThread c task len a (pa, ta) s = Inr (tid, s')"
  shows "sys_ok pc W pins s' \<and> quiet_call W s s'"
proof -
  have cm: "cur < MAX_PROC" using cur(1) by (simp add: live_def)
  obtain s1 where s1: "sys_CreateThread c task len a (pa, ta) s = Inr (OPtcb pa, s1)" "cc_ok pc W R s1"
    "fs_inv pins s1 fs" "proc_inv fl K X (T(cur := T cur @ [pa])) s1"
    "tcbs s1 = (tcbs s)(HeapT ta \<mapsto> started_tcb cur start_thread_func pa)"
    "ptcbs s1 = (ptcbs s)(pa \<mapsto> new_ptcb (HeapT ta) task len a)"
    "PT s1 = (PT s)(cur := (PT s cur)\<lparr>thread_count := thread_count (PT s cur) + 1\<rparr>)" "kernel_sem s1 = kernel_sem s" "same_devs s s1"
    by (rule sys_CreateThread_ok [OF ok fs pr cur(3) cm new])
  have s': "s' = s1" using e s1(1) by simp
  have "tcbs s (HeapT ta) = None" "ptcbs s pa = None" using new by (simp_all add: fresh_thread_def)
  moreover have "card (dom (tcbs s)) + 1 < 2 ^ 32" using room by (simp add: has_room_def)
  ultimately have "thr_inv (T(cur := T cur @ [pa])) s1"
    by (intro thr_inv_new [OF th _ _ s1(5,6) cm]) (use cur(2) thr_invD(2) [OF th cur(1)] in \<open>simp_all add: s1(7)\<close>)
  moreover have "quiet_call W s s1"
    using s1(9) by (auto simp: quiet_call_def s1(5,8) asleep_def started_tcb_def new_tcb_def)
  ultimately show ?thesis unfolding s' using sys_okI [OF s1(2-4)] by blast
qed


lemma join_call:
  assumes ok: "cc_ok pc W R s" and fs: "fs_inv pins s fs" and pr: "proc_inv fl K X T s" and th: "thr_inv T s"
    and cur: "CURPROC c s = Inr p" "p < MAX_PROC" and j: "sys_ThreadJoin c (OPtcb a) ev s = Inr (r, s')"
  shows "sys_ok pc W pins s' \<and> quiet_call W s s'"
proof (cases "ptcbs s a")
  case None
  with j show ?thesis by (simp add: sys_ThreadJoin_def ptcb_of_tid_def get_ptcb_def)
next
  case (Some x)
  with sys_ThreadJoin_eq [OF pr cur Some, of ev] j
  have "s' = s \<or> s' = set_ptcb a (x\<lparr>ref_count := ref_count x + 1\<rparr>) s"
    by (auto split: if_splits option.splits)
  with ptcb_call [OF ok fs pr th Some, of "x\<lparr>ref_count := ref_count x + 1\<rparr>"] sys_okI [OF ok fs pr th]
  show ?thesis by auto
qed

lemma detach_call:
  assumes ok: "cc_ok pc W R s" and fs: "fs_inv pins s fs" and pr: "proc_inv fl K X T s" and th: "thr_inv T s"
    and d: "sys_ThreadDetach c (OPtcb a) s = Inr (rc, s')"
  shows "sys_ok pc W pins s' \<and> quiet_call W s s'"
proof (cases "\<exists>x. ptcbs s a = Some x \<and> \<not> detached x")
  case False
  with d have "s' = s" by (cases "ptcbs s a") (auto simp: sys_ThreadDetach_def ptcb_of_tid_def get_ptcb_def)
  with sys_okI [OF ok fs pr th] show ?thesis by simp
next
  case True
  then obtain x where x: "ptcbs s a = Some x" "\<not> detached x" by blast
  obtain s1 where s1: "sys_ThreadDetach c (OPtcb a) s = Inr (0, s1)" "cc_ok pc W (R(ExitCv a := [])) s1"
    "fs_inv pins s1 fs" "proc_inv fl K X T s1" "ptcbs s1 = (ptcbs s)(a \<mapsto> x\<lparr>detached := True\<rparr>)"
    "PT s1 = PT s" "wakes_only s s1" by (rule sys_ThreadDetach_ok [OF ok fs pr x])
  have s': "s' = s1" using d s1(1) by simp
  have "ptcbs_kept s s1" by (rule ptcbs_kept_upd [OF s1(5) x(1)]) simp_all
  from wakes_call [OF s1(2-4) th s1(7) this s1(6)] show ?thesis unfolding s' .
qed

lemma wait_call:
  assumes ok: "cc_ok pc W R s" and fs: "fs_inv pins s fs" and pr: "proc_inv fl K X T s" and th: "thr_inv T s"
    and cur: "CURPROC c s = Inr p" "p < MAX_PROC" and w: "sys_WaitChild c cpid st s = Inr (r, s')"
  shows "sys_ok pc W pins s' \<and> quiet_call W s s'"
proof -
  note td = tree_okD [OF proc_invD(2) [OF pr]]
  have "s' = s \<or> (\<exists>q. s' = reaped q s \<and> live s q \<and> pstate (PT s q) = ZOMBIE \<and> parent (PT s q) = Some p)"
  proof (cases "cpid = NOPROC")
    case True
    with w wait_any_eq [OF cur pr] td(2) [of _ p] show ?thesis by (auto split: if_splits list.splits)
  next
    case False
    have "pstate (PT s q) = ZOMBIE" if "live s q" "pstate (PT s q) \<noteq> ALIVE" for q
      using that by (cases "pstate (PT s q)") (simp_all add: live_def)
    with False w wait_specific_eq [OF cur(1) pr False] td(1) [of _ p] show ?thesis by (auto split: if_splits)
  qed
  with reap_call [OF ok fs pr th] sys_okI [OF ok fs pr th] show ?thesis by auto
qed

lemma rewait_call:
  assumes ok: "cc_ok pc W R s" and fs: "fs_inv pins s fs" and pr: "proc_inv fl K X T s" and th: "thr_inv T s"
    and q: "live s q" "parent (PT s q) = Some p" and w: "specific_child_loop p q st s = (r, s')"
  shows "sys_ok pc W pins s' \<and> quiet_call W s s'"
proof (cases "pstate (PT s q) = ALIVE")
  case True
  with w sys_okI [OF ok fs pr th] show ?thesis by (simp add: specific_child_loop_def)
next
  case False
  then have z: "pstate (PT s q) = ZOMBIE" using q(1) by (cases "pstate (PT s q)") (simp_all add: live_def)
  then have "s' = reaped q s" using w by (simp add: specific_child_loop_def cleanup_zombie_eq split: if_splits)
  with reap_call [OF ok fs pr th q(1) z q(2)] show ?thesis by simp
qed

lemma rewait_any_call:
  assumes ok: "cc_ok pc W R s" and fs: "fs_inv pins s fs" and pr: "proc_inv fl K X T s" and th: "thr_inv T s"
    and p: "p < MAX_PROC" and w: "any_child_loop p st s = Inr (r, s')"
  shows "sys_ok pc W pins s' \<and> quiet_call W s s'"
proof (cases "X p")
  case Nil
  with w any_child_eq [OF pr p] sys_okI [OF ok fs pr th] show ?thesis by simp
next
  case (Cons q qs)
  then have "s' = reaped q s" using w any_child_eq [OF pr p] by simp
  moreover have "live s q \<and> pstate (PT s q) = ZOMBIE \<and> parent (PT s q) = Some p"
    using tree_okD(2) [OF proc_invD(2) [OF pr], of q p] Cons by simp
  ultimately show ?thesis using reap_call [OF ok fs pr th] by blast
qed

text \<open>An orderly call is a call.\<close>

lemma kcall_orderly: "kcall ord c cf cf' \<Longrightarrow> kcall False c cf cf'"
  by (induction rule: kcall.induct) (blast intro: kcall.intros)+

lemma kcall_ok:
  assumes k: "kcall True c cf cf'" and cf: "cf = (pins, s)" "cf' = (pins', s')" and inv: "sys_ok pc W pins s"
    and cl: "caller c pc H s" and dv: "devs_ok s"
  shows "sys_ok pc W pins' s' \<and> quiet_call W s s'"
proof -
  obtain R fs fl K X T where ok: "cc_ok pc W R s" and fs: "fs_inv pins s fs" and pr: "proc_inv fl K X T s"
    and th: "thr_inv T s" using inv by (rule sys_okE)
  obtain x p a y where p: "p < MAX_PROC" "pstate (PT s p) = ALIVE" "CURPROC c s = Inr p" "live s p"
    by (rule runner_thread [OF caller_runs [OF cl] ok th])
  note call = ok fs pr th
  have step: "sys_ok pc W pins' s' \<and> quiet_call W s s'" if "fs_step (pins, s) (pins', s')" "files_only p s s'"
  proof -
    have "\<exists>fs'. fs_inv pins' s' fs'" using fs_step_inv [OF that(1)] fs by auto
    then obtain fs1 where "fs_inv pins' s' fs1" ..
    from files_call [OF ok pr th that(2) p(2) this] show ?thesis .
  qed
  from k show ?thesis unfolding cf
  proof (cases rule: kcall.cases)
    case (kc_exec f a len pa ta m pid)
    then obtain g where "f = Some g" by auto
    with exec_call [OF call p(4,2,3)] kc_exec show ?thesis by blast
  next
    case kc_create
    with create_call [OF call p(4,2,3)] show ?thesis by blast
  next
    case kc_join
    with join_call [OF call p(3,1)] show ?thesis by blast
  next
    case (kc_rejoin b r)
    then obtain z where z: "ptcbs s b = Some z" "\<not> detached z" by blast
    from join_loop_kept [OF z pr p(3,1) kc_rejoin(3)] ptcb_call [OF call z(1)]
    show ?thesis using sys_okI [OF call] kc_rejoin(1) by auto
  next
    case kc_detach
    with detach_call [OF call] show ?thesis by blast
  next
    case kc_wait
    with wait_call [OF call p(3,1)] show ?thesis by blast
  next
    case (kc_rewait q u)
    with rewait_call [OF call, of q p] p(3) show ?thesis by simp
  next
    case (kc_rewait_any u)
    with rewait_any_call [OF call p(1)] p(3) show ?thesis by simp
  next
    case (kc_enter fd f sobj ops)
    then have "fs_step (pins, s) (pins', s')" using p(3) fs_enter by blast
    moreover have "files_only p s s'" by (rule enter_files [OF kc_enter(2)])
    ultimately show ?thesis by (rule step)
  next
    case (kc_leave f k)
    then have "fs_step (pins, s) (pins', s')" using fs_leave by blast
    moreover have "files_only p s s'" by (rule leave_files [OF fs _ kc_leave(3)]) (use kc_leave(2) in simp)
    ultimately show ?thesis by (rule step)
  next
    case (kc_close fd rc)
    then have "fs_step (pins, s) (pins', s')" using p(3) fs_close by blast
    moreover have "files_only p s s'" by (rule close_files [OF fs p(3) kc_close(2)])
    ultimately show ?thesis by (rule step)
  next
    case (kc_dup2 fd1 fd2 rc)
    then have "fs_step (pins, s) (pins', s')" using p(1,3) fs_dup2 by blast
    moreover have "files_only p s s'" by (rule dup2_files [OF fs p(3) kc_dup2(2)])
    ultimately show ?thesis by (rule step)
  next
    case (kc_open major minor rc)
    then have "fs_step (pins, s) (pins', s')" using p(1,3) dv fs_open by blast
    moreover have "files_only p s s'" by (rule open_files [OF fs p(3) kc_open(3)])
    ultimately show ?thesis by (rule step)
  qed
qed

end
