(* ===== verification/System_Reach.thy ===== *)
theory System_Reach
  imports System_Calls
begin

text \<open>
  The relation of the steps of the kernel, on all cores, and the invariant of every configuration
  that orderly programs can reach from the start on a machine where the store of
  \<open>initialize_scheduler\<close> past the end of its array hits the variable declared next.
\<close>

section \<open>The steps of the kernel\<close>

text \<open>
  A configuration has the points of the cores, the condition variable every thread inside
  \<open>cv_wait\<close> waits on, the threads that hold the kernel lock, the reads and writes that are in
  their drivers, and the state.
\<close>

type_synonym os_conf = "(nat \<Rightarrow> cpc) \<times> (tref \<Rightarrow> cvref option) \<times> tref set \<times> (fref \<Rightarrow> nat) \<times> kernel"

inductive os_step :: "bool \<Rightarrow> os_conf \<Rightarrow> os_conf \<Rightarrow> bool" for ord where
  os_cc: "cc_step (pc, W, H, s) (pc', W', H', s') \<Longrightarrow> threads_kept s s' \<Longrightarrow>
    os_step ord (pc, W, H, pins, s) (pc', W', H', pins, s')"
| os_call: "caller c pc H s \<Longrightarrow> kcall ord c (pins, s) (pins', s') \<Longrightarrow>
    os_step ord (pc, W, H, pins, s) (pc, W, H, pins', s')"
| os_exit: "caller c pc H s \<Longrightarrow> sys_ThreadExit c v s = Inr (b, s') \<Longrightarrow>
    os_step ord (pc, W, H, pins, s) (pc(c := Sleeping SCHED_USER), W, H - {CURTHREAD c s}, pins, s')"
| os_console: "runner c pc s \<Longrightarrow> tinyos_pseudo_console c s = Inr s' \<Longrightarrow>
    os_step ord (pc, W, H, pins, s) (pc, W, H, pins, s')"

text \<open>
  The first rule has the steps of the scheduler, the condition variables and the kernel lock, of
  which those that make or end a thread occur inside system calls only; the second the system calls,
  orderly ones or all (\<open>kcall\<close>).  A call that faults has no step.  The last rule is the opening of
  the console, which the first process does before it runs the shell, without taking the kernel.

  The steps do not record in which call a thread sleeps: any caller may go on with \<open>ThreadJoin\<close> or
  \<open>WaitChild\<close> (\<open>kc_rejoin\<close>, \<open>kc_rewait\<close>), so that the runs include all those of the code.

  The machine starts with the first process, whatever is in its memory before.  The start is
  \<open>boot_with init_sched_lists\<close>: \<open>initialize_scheduler\<close> stores out of the bounds of \<open>SCHED\<close> on every
  machine, and the start goes on as if \<open>TIMEOUT_LIST\<close>, which is declared next, lay there.
\<close>

inductive os_reachable :: "bool \<Rightarrow> os_conf \<Rightarrow> bool" for ord where
  os_start: "0 < n \<Longrightarrow> n \<le> MAX_CORES \<Longrightarrow> unat serialno \<le> MAX_TERMINALS \<Longrightarrow>
    args_ok a len ((static_kernel h)\<lparr>mem := M\<rparr>) \<Longrightarrow>
    boot_with init_sched_lists n serialno clk (Some f) len a adr ((static_kernel h)\<lparr>mem := M\<rparr>) = Inr s \<Longrightarrow>
    os_reachable ord (\<lambda>_. Running, Map.empty, {}, \<lambda>_. 0, s)"
| os_next: "os_reachable ord cf \<Longrightarrow> os_step ord cf cf' \<Longrightarrow> os_reachable ord cf'"

text \<open>An orderly run is a run.\<close>

lemma os_orderly: "os_reachable ord cf \<Longrightarrow> os_reachable False cf"
proof (induction rule: os_reachable.induct)
  case (os_next cf cf')
  from os_next.hyps(2) have "os_step False cf cf'"
    by (induction rule: os_step.induct) (blast intro: os_step.intros kcall_orderly)+
  with os_next.IH show ?case by (rule os_reachable.os_next)
qed (rule os_reachable.os_start)

definition os_inv :: "os_conf \<Rightarrow> bool" where
  "os_inv cf \<longleftrightarrow> (case cf of (pc, W, H, pins, s) \<Rightarrow> cc_inv (pc, W, H, s) \<and> sys_ok pc W pins s \<and> devs_ok s)"

section \<open>The end of a thread\<close>

text \<open>The first process still has children when its last thread ends.\<close>

definition orphaned_init :: "pref \<Rightarrow> kernel \<Rightarrow> bool" where
  "orphaned_init p s \<longleftrightarrow> p = 1 \<and> thread_count (PT s 1) = 1 \<and> (\<exists>q. live s q \<and> parent (PT s q) = Some 1)"

lemma exit_result:
  assumes inv: "sys_ok pc W pins s" and cl: "caller c pc H s"
  shows "\<exists>x a y. tcbs s (CURTHREAD c s) = Some x \<and> tptcb x = Some a \<and> ptcbs s a = Some y \<and>
    (if detached y then sys_ThreadExit c v s = Inl DanglingPtr
     else if orphaned_init (owner_pcb x) s then sys_ThreadExit c v s = Inl Diverges
     else \<exists>b s'. sys_ThreadExit c v s = Inr (b, s') \<and> sys_ok (pc(c := Sleeping SCHED_USER)) W pins s' \<and>
       kernel_sem s' = kernel_sem s + 1 \<and> sem_progress W s' \<and> same_devs s s' \<and>
       (\<exists>z. tcbs s' (CURTHREAD c s) = Some z \<and> tstate z = EXITED))"
proof -
  obtain R fs fl K X T where ok: "cc_ok pc W R s" and fs: "fs_inv pins s fs" and pr: "proc_inv fl K X T s"
    and th: "thr_inv T s" using inv by (rule sys_okE)
  obtain x p a y where x: "tcbs s (CURTHREAD c s) = Some x" "ttype x = NORMAL_THREAD" "tstate x \<noteq> EXITED"
    "owner_pcb x = p" "tptcb x = Some a" and p: "p < MAX_PROC" "pstate (PT s p) = ALIVE" "live s p"
    and a: "a \<in> set (T p)" "ptcbs s a = Some y" by (rule runner_thread [OF caller_runs [OF cl] ok th])
  have k: "kernel_ok pc W pins fs fl K X T s" using ok fs pr by (auto simp: kernel_ok_def)
  have r: "runs_thread c p a s" using x by (simp add: runs_thread_def)
  show ?thesis
  proof (cases "detached y")
    case True
    from detached_exit_reads_freed [OF k r a(2) True] x(1,5) a(2) True show ?thesis by simp
  next
    case nd: False
    show ?thesis
    proof (cases "orphaned_init p s")
      case True
      then obtain q where q: "thread_count (PT s 1) = 1" "live s q" "parent (PT s q) = Some 1" and p1: "p = 1"
        by (auto simp: orphaned_init_def)
      have "sys_ThreadExit c v s = Inl Diverges"
        by (rule init_exit_with_children_diverges [OF k r [unfolded p1] a(2) nd a(1) [unfolded p1] q])
      with x(1,4,5) a(2) nd True show ?thesis by simp
    next
      case False
      then have "K p = []" if "last_thread p s" "p = 1"
        using that tree_okD(1) [OF proc_invD(2) [OF pr], of _ 1]
        by (cases "K 1") (auto simp: orphaned_init_def last_thread_def)
      note init = this
      have c: "c < ncores s" "pc c = Running" "waiters s (CURTHREAD c s) = None"
        using cl by (simp_all add: caller_def runner_def awake_def)
      obtain b s' R' fs' where s': "sys_ThreadExit c v s = Inr (b, s')" "cc_ok (pc(c := Sleeping SCHED_USER)) W R' s'"
        "fs_inv pins s' fs'" "proc_inv fl (if last_thread p s then exit_kids p K else K)
          (if last_thread p s then exit_dead p (parent (PT s p)) X else X) (left_threads p a y T) s'"
        "PT s' = (if last_thread p s then exit_pcb p v K (s\<lparr>PT := left_PT p s\<rparr>) else left_PT p s)"
        "ptcbs s' = left_ptcbs a v y (ptcbs s)" "kernel_sem s' = kernel_sem s + 1"
        "\<exists>y. tcbs s' (CURTHREAD c s) = Some y \<and> tstate y = EXITED" "sem_progress W s'"
        "thread_left (CURTHREAD c s) s s'" "same_devs s s'"
        by (rule sys_ThreadExit_ok [OF ok fs pr c(1,2) x(1,2) c(3) x(4) p(3,2) x(5) a nd init]) blast
      have P: "pstate (PT s' q) = (if q = p \<and> last_thread p s then ZOMBIE else pstate (PT s q))"
        "thread_count (PT s' q) = (if q = p then thread_count (PT s p) - 1 else thread_count (PT s q))" for q
        by (auto simp: s'(5) exit_pcb_def left_PT_def)
      have "thr_inv (left_threads p a y T) s'"
        by (rule thr_inv_left [OF th s'(10) x(1-5) a(2) s'(6)])
          (use p in \<open>auto simp: P live_def last_thread_def split: if_splits\<close>)
      then have "sys_ok (pc(c := Sleeping SCHED_USER)) W pins s'" using sys_okI s'(2-4) by blast
      with s'(1,7-9,11) x(1,4,5) a(2) nd False show ?thesis by simp
    qed
  qed
qed


section \<open>The invariant is kept\<close>

lemma os_cc_inv:
  assumes st: "cc_step (pc, W, H, s) (pc', W', H', s')" and k: "threads_kept s s'"
    and inv: "os_inv (pc, W, H, pins, s)"
  shows "os_inv (pc', W', H', pins, s')"
proof -
  have ci: "cc_inv (pc, W, H, s)" and so: "sys_ok pc W pins s" using inv by (simp_all add: os_inv_def)
  obtain R fs fl K X T where fs: "fs_inv pins s fs" and pr: "proc_inv fl K X T s" and th: "thr_inv T s"
    using so by (rule sys_okE)
  have f: "core_frame s s'" by (rule cc_step_frame [OF st ci])
  have ci': "cc_inv (pc', W', H', s')" by (rule cc_step_inv [OF st ci])
  then obtain R' where R': "cc_ok pc' W' R' s'" by (auto simp: cc_inv_def)
  have "thr_inv T s'" by (rule thr_inv_kept [OF th k]) (use f in \<open>simp_all add: core_frame_def live_def\<close>)
  moreover have "devs_ok s'" using inv same_devs_ok [of s s'] f by (simp add: core_frame_def os_inv_def)
  ultimately show ?thesis
    using sys_okI [OF R' core_frame_kept [OF f fs pr]] ci' by (simp add: os_inv_def)
qed

lemma quiet_inv:
  assumes so: "sys_ok pc W pins' s'" and q: "quiet_call W s s'" and inv: "os_inv (pc, W, H, pins, s)"
  shows "os_inv (pc, W, H, pins', s')"
proof -
  have ci: "sem_progress W s" "lock_inv W H s" using inv by (simp_all add: os_inv_def cc_inv_def)
  have e: "kernel_sem s' = kernel_sem s" using q by (simp add: quiet_call_def)
  have dv: "devs_ok s'" using inv same_devs_ok [of s s'] q by (simp add: quiet_call_def os_inv_def)
  have "sem_progress W s'" by (rule sem_progress_mono [OF ci(1) e]) (use q in \<open>auto simp: quiet_call_def\<close>)
  moreover have "\<exists>R. cc_ok pc W R s'" using so by (auto elim: sys_okE)
  ultimately show ?thesis using lock_inv_cong [OF ci(2) e] so dv by (simp add: os_inv_def cc_inv_def)
qed

lemma os_call_inv:
  assumes cl: "caller c pc H s" and k: "kcall True c (pins, s) (pins', s')" and inv: "os_inv (pc, W, H, pins, s)"
  shows "os_inv (pc, W, H, pins', s')"
proof -
  have so: "sys_ok pc W pins s" "devs_ok s" using inv by (simp_all add: os_inv_def)
  from kcall_ok [OF k refl refl so(1) cl so(2)] quiet_inv [OF _ _ inv] show ?thesis by blast
qed

lemma os_console_inv:
  assumes r: "runner c pc s" and co: "tinyos_pseudo_console c s = Inr s'" and inv: "os_inv (pc, W, H, pins, s)"
  shows "os_inv (pc, W, H, pins, s')"
proof -
  have so: "sys_ok pc W pins s" using inv by (simp add: os_inv_def)
  then obtain R fs fl K X T where ok: "cc_ok pc W R s" and fs: "fs_inv pins s fs" and pr: "proc_inv fl K X T s"
    and th: "thr_inv T s" by (rule sys_okE)
  obtain x p a y where p: "p < MAX_PROC" "pstate (PT s p) = ALIVE" "CURPROC c s = Inr p" "live s p"
    by (rule runner_thread [OF r ok th])
  have f: "files_only p s s'" by (rule console_files [OF fs p(3) co])
  obtain fs1 where "fs_inv pins s' fs1" using console_inv [OF fs p(3,1) co] by blast
  from files_call [OF ok pr th f p(2) this] quiet_inv [OF _ _ inv] show ?thesis by blast
qed

lemma os_exit_inv:
  assumes cl: "caller c pc H s" and e: "sys_ThreadExit c v s = Inr (b, s')" and inv: "os_inv (pc, W, H, pins, s)"
  shows "os_inv (pc(c := Sleeping SCHED_USER), W, H - {CURTHREAD c s}, pins, s')"
proof -
  have l: "lock_inv W H s" and so: "sys_ok pc W pins s" using inv by (simp_all add: os_inv_def cc_inv_def)
  have so': "sys_ok (pc(c := Sleeping SCHED_USER)) W pins s'" and k: "kernel_sem s' = kernel_sem s + 1"
    and p: "sem_progress W s'" and dv: "devs_ok s'"
    using exit_result [OF so cl, of v] e inv same_devs_ok [of s s'] by (auto simp: os_inv_def split: if_splits)
  have "lock_inv W (H - {CURTHREAD c s}) s'"
    by (rule lock_inv_drop [OF l _ k]) (use cl in \<open>simp_all add: caller_def\<close>)
  moreover have "\<exists>R. cc_ok (pc(c := Sleeping SCHED_USER)) W R s'" using so' by (auto elim: sys_okE)
  ultimately show ?thesis using so' p dv by (simp add: os_inv_def cc_inv_def)
qed

lemma os_step_inv: "os_step True cf cf' \<Longrightarrow> os_inv cf \<Longrightarrow> os_inv cf'"
  by (induction rule: os_step.induct) (blast intro: os_cc_inv os_call_inv os_exit_inv os_console_inv)+

lemma os_start_inv:
  assumes n: "n \<le> MAX_CORES" and st: "started n serialno call len a adr s"
  shows "os_inv (\<lambda>_. Running, Map.empty, {}, \<lambda>_. 0, s)"
proof -
  obtain m pa ta where adr: "adr = (m, pa, ta)" by (cases adr)
  note st = st [unfolded started_def adr snd_conv fst_conv]
  note fp = conjunct1 [OF st, unfolded first_process_def prod.case]
  let ?x = "started_tcb 1 start_main_thread_func pa" and ?T = "(\<lambda>_. [])(1 := [pa])"
  have ok: "cc_ok (\<lambda>_. Running) Map.empty (\<lambda>_. []) s" using st by blast
  have idle: "tcbs s t = Some idle_tcb" if "t \<in> IdleT ` {..<n}" for t using st that by auto
  have other: "tcbs s t = (if t = HeapT ta then Some ?x else None)" if "t \<notin> IdleT ` {..<n}" for t
    using st that by blast
  have nrm: "t = HeapT ta \<and> x = ?x" if "tcbs s t = Some x" "ttype x = NORMAL_THREAD" for t x
    using that idle [of t] other [of t] by (cases "t \<in> IdleT ` {..<n}") (auto simp: idle_tcb_def split: if_splits)
  have t0: "tcbs s (HeapT ta) = Some ?x" using other [of "HeapT ta"] by auto
  have x: "ttype ?x = NORMAL_THREAD" "tstate ?x \<noteq> EXITED" "owner_pcb ?x = 1" "tptcb ?x = Some pa"
    by (simp_all add: started_tcb_def new_tcb_def)
  have "t \<in> threads_of s p \<longleftrightarrow> t = HeapT ta \<and> p = 1" for t p
  proof
    assume "t \<in> threads_of s p"
    then obtain y where "tcbs s t = Some y" "ttype y = NORMAL_THREAD" "owner_pcb y = p" by (auto simp: threads_of_def)
    with nrm [of t y] x(3) show "t = HeapT ta \<and> p = 1" by simp
  qed (use t0 x in \<open>simp add: threads_of_def\<close>)
  then have th: "threads_of s p = (if p = 1 then {HeapT ta} else {})" for p by auto
  have d: "dom (tcbs s) \<subseteq> insert (HeapT ta) (IdleT ` {..<n})"
    using other by (auto split: if_splits)
  have fin: "finite (insert (HeapT ta) (IdleT ` {..<n}))" by simp
  have "card (insert (HeapT ta) (IdleT ` {..<n})) \<le> Suc n"
    using card_image_le [of "{..<n}" IdleT] card_insert_le_m1 [of "Suc n" "IdleT ` {..<n}" "HeapT ta"] by simp
  then have "card (dom (tcbs s)) \<le> Suc n" using card_mono [OF fin d] by simp
  then have c: "card (dom (tcbs s)) < 2 ^ 32" using n by (simp add: MAX_CORES_def)
  have P: "ptcbs s = [pa \<mapsto> new_ptcb (HeapT ta) call len a]" "thread_count (PT s 0) = 0" "thread_count (PT s 1) = 1"
    "\<forall>q. pstate (PT s q) = (if q \<le> 1 then ALIVE else FREE)" and k: "kernel_sem s = 1" using fp by blast+
  have lv: "live s p \<longleftrightarrow> p \<le> 1" for p using P(4) by (auto simp: live_def MAX_PROC_def)
  have "has_ptcb ?T s t x" if "tcbs s t = Some x" "ttype x = NORMAL_THREAD" for t x
    using nrm [OF that] P(1,4) x by (simp add: has_ptcb_def new_ptcb_def MAX_PROC_def)
  moreover have "thread_count (PT s p) = of_nat (card (threads_of s p))" if "live s p" for p
    using that P(2,3) by (cases p) (simp_all add: lv th)
  moreover have "threads_of s p \<noteq> {}" if "live s p" "p \<noteq> 0" for p
    using that by (simp add: lv th)
  ultimately have "thr_inv ?T s" using c finite_subset [OF d fin] by (simp add: thr_inv_def)
  then have "sys_ok (\<lambda>_. Running) Map.empty (\<lambda>_. 0) s" using ok fp by (blast intro: sys_okI)
  moreover have "sem_progress Map.empty s" "lock_inv Map.empty {} s" using k by (simp_all add: sem_progress_def lock_inv_def)
  moreover have "devs_ok s" using fp by blast
  ultimately show ?thesis using ok by (auto simp: os_inv_def cc_inv_def)
qed

lemma os_reachable_inv: "os_reachable True cf \<Longrightarrow> os_inv cf"
proof (induction rule: os_reachable.induct)
  case (os_start n serialno a len M h clk f adr s)
  obtain s' where "boot_with init_sched_lists n serialno clk (Some f) len a adr ((static_kernel h)\<lparr>mem := M\<rparr>) = Inr s'"
    "started n serialno (Some f) len a adr s'" by (rule boot_started [OF os_start(1-4)])
  with os_start(5) os_start_inv [OF os_start(2)] show ?case by simp
qed (rule os_step_inv)

lemma os_reachableE:
  assumes "os_reachable True (pc, W, H, pins, s)"
  obtains R fs fl K X T where "cc_ok pc W R s" and "fs_inv pins s fs" and "proc_inv fl K X T s" and "thr_inv T s"
    and "sem_progress W s" and "lock_inv W H s" and "devs_ok s"
  using os_reachable_inv [OF assms] sys_okE unfolding os_inv_def cc_inv_def prod.case by metis

end
