(* ===== verification/System_Props.thy ===== *)
theory System_Props
  imports System_Reach Cond_Props
begin

text \<open>
  The theorems about the system as a whole, in every configuration that orderly programs can reach
  on the started machine; a run in which the thread of the first process holds the kernel; and what
  the disorderly calls do.
\<close>

section \<open>A run to the first system call\<close>

lemma cc_next_os:
  assumes "os_reachable True (pc, W, H, pins, s)" and "sched_step (pc, s) (pc', s')" and "threads_kept s s'"
    and "waiters s = Map.empty"
  shows "os_reachable True (pc', W, H, pins, s')"
  by (rule os_next [OF assms(1) os_cc [OF cc_sched [OF assms(2)] assms(3)]]) (simp add: cv_quiet_def assms(4))

lemma os_sched:
  assumes "os_reachable True (pc, W, H, pins, s)" obtains L hs where "sched_inv pc s L hs"
proof -
  obtain R where "cc_ok pc W R s" using assms by (rule os_reachableE)
  with that cc_okD(1) show ?thesis by blast
qed

text \<open>The thread of the first process gets the only core and takes the kernel.\<close>

lemma first_call:
  obtains s where "os_reachable True (\<lambda>_. Running, Map.empty, {HeapT 0}, \<lambda>_. 0, s)"
    and "caller 0 (\<lambda>_. Running) {HeapT 0} s" and "CURTHREAD 0 s = HeapT 0" and "PT s = PT booted_kernel"
    and "ptcbs s = [0 \<mapsto> new_ptcb (HeapT 0) (Some 0) 0 None]" and "devs_ok s" and "mem s = Map.empty"
    and "condvars s = (\<lambda>_. None)" and "\<forall>a. tcbs s (HeapT a) \<noteq> None \<longrightarrow> a = 0"
    and "dom (tcbs s) \<subseteq> {HeapT 0, IdleT 0}"
    and "\<exists>x. tcbs s (HeapT 0) = Some x \<and> ttype x = NORMAL_THREAD \<and> owner_pcb x = 1 \<and> tptcb x = Some 0"
proof -
  let ?b = booted_kernel and ?R = "\<lambda>_ :: nat. Running"
  note st = booted_kernel(2) [unfolded started_def boot_args_def snd_conv fst_conv]
  note fp = conjunct1 [OF st, unfolded first_process_def prod.case]
  have up: "machine_up 1 ?b" "waiters ?b = Map.empty" "kernel_sem ?b = 1" "devs_ok ?b" "condvars ?b = (\<lambda>_. None)"
    "ptcbs ?b = [0 \<mapsto> new_ptcb (HeapT 0) (Some 0) 0 None]" using fp by blast+
  have b: "os_reachable True (?R, Map.empty, {}, \<lambda>_. 0, ?b)"
  proof (rule os_start [of 1 0 None 0 Map.empty _ 0 0 boot_args])
    have "(static_kernel h)\<lparr>mem := Map.empty\<rparr> = static_kernel h" for h by (simp add: static_kernel_def)
    then show "boot_with init_sched_lists 1 0 0 (Some 0) 0 None boot_args
      ((static_kernel \<lparr>prv = id, nxt = id, obj = \<lambda>_. ONull\<rparr>)\<lparr>mem := Map.empty\<rparr>) = Inr ?b"
      using booted_kernel(1) by simp
  qed (simp_all add: MAX_CORES_def args_ok_def)
  have n0: "awake 0 ?b" "ncores ?b = 1" using up(1) by (simp_all add: awake_def machine_up_def)
  have ok0: "cc_ok ?R Map.empty (\<lambda>_. []) ?b" using st by blast
  obtain L hs where i0: "sched_inv ?R ?b L hs" using cc_okD(1) [OF ok0] by blast
  have tc: "tcbs ?b t = (if t = HeapT 0 then Some (started_tcb 1 start_main_thread_func 0) else None)"
    if "t \<noteq> IdleT 0" for t
  proof -
    have "t \<notin> IdleT ` {..<1}" using that by auto
    with st show ?thesis by blast
  qed
  have t0: "tcbs ?b (HeapT 0) = Some (started_tcb 1 start_main_thread_func 0)" using tc by simp
  have td: "t = HeapT 0 \<or> t = IdleT 0" if "tcbs ?b t \<noteq> None" for t
    using tc [of t] that by (auto split: if_splits)
  have r0: "tstate (started_tcb 1 start_main_thread_func 0) = READY"
    "tphase (started_tcb 1 start_main_thread_func 0) = CTX_CLEAN"
    "ttype (started_tcb 1 start_main_thread_func 0) = NORMAL_THREAD"
    "owner_pcb (started_tcb 1 start_main_thread_func 0) = 1" "tptcb (started_tcb 1 start_main_thread_func 0) = Some 0"
    by (simp_all add: started_tcb_def new_tcb_def)
  obtain s1 L1 hs1 where s1: "yield_switch 0 SCHED_USER ?b = Inr s1" "sched_inv (?R(0 := Switching)) s1 L1 hs1"
    "sched_frame ?b s1" "threads_kept ?b s1"
    "\<exists>y. tcbs s1 (current_thread (cctx s1 0)) = Some y \<and> ttype y = NORMAL_THREAD"
  proof (rule yield_switch_inv [OF i0, of 0 SCHED_USER])
    fix s' L' hs'
    assume a: "yield_switch 0 SCHED_USER ?b = Inr s'" "sched_inv (?R(0 := Switching)) s' L' hs'" "sched_frame ?b s'"
      "threads_kept ?b s'"
      and w: "\<forall>t x. tcbs ?b t = Some x \<and> ttype x = NORMAL_THREAD \<and> tstate x = READY \<and>
        tphase x = CTX_CLEAN \<and> (\<forall>d. \<not> incoming ?R ?b d t) \<longrightarrow>
        (\<exists>y. tcbs s' (current_thread (cctx s' 0)) = Some y \<and> ttype y = NORMAL_THREAD)"
    show thesis by (rule that [OF a w [rule_format, of "HeapT 0"]]) (use t0 r0 in \<open>simp add: incoming_def\<close>)
  qed (use n0 in simp_all)
  have R1: "os_reachable True (?R(0 := Switching), Map.empty, {}, \<lambda>_. 0, s1)"
    by (rule cc_next_os [OF b step_yield [OF n0(1) refl s1(1)] s1(4) up(2)])
  define s2 where "s2 = raise_interrupt 0 ICI s1"
  have n1: "ncores s1 = 1" "waiters s1 = Map.empty" using s1(3) n0(2) up(2) by (simp_all add: sched_frame_def)
  have f2: "ncores s2 = 1" "tcbs s2 = tcbs s1" "cctx s2 = cctx s1" "awake 0 s2"
    using n1 by (simp_all add: s2_def raise_interrupt_fields)
  have o2: "other_frame s1 s2" unfolding s2_def using raise_interrupt_frame [OF s1(2), of 0] n1 by simp
  have R2: "os_reachable True (?R(0 := Switching), Map.empty, {}, \<lambda>_. 0, s2)" unfolding s2_def
    by (rule cc_next_os [OF R1 step_interrupt _ n1(2)])
      (use n1(1) in \<open>simp_all add: threads_kept_refl raise_interrupt_fields\<close>)
  obtain L2 hs2 where i2: "sched_inv (?R(0 := Switching)) s2 L2 hs2" by (rule os_sched [OF R2])
  obtain s3 where s3: "gain 0 (saved_preempt s2 (CURTHREAD 0 s2)) s2 = Inr s3" "sched_frame s2 s3" "threads_kept s2 s3"
    "\<forall>d. current_thread (cctx s3 d) = current_thread (cctx s2 d)"
    by (rule gain_inv [OF i2, of 0]) (use f2 in auto)
  have n2: "waiters s2 = Map.empty" using o2 n1(2) by (simp add: other_frame_def)
  have "os_reachable True ((?R(0 := Switching))(0 := Running), Map.empty, {}, \<lambda>_. 0, s3)"
    by (rule cc_next_os [OF R2 step_gain [OF f2(4) _ s3(1)] s3(3) n2]) simp
  then have R3: "os_reachable True (?R, Map.empty, {}, \<lambda>_. 0, s3)" by (simp add: fun_upd_idem)
  define s4 where "s4 = raise_interrupt 0 ICI s3"
  have n3: "ncores s3 = 1" "waiters s3 = Map.empty" using s3(2) f2(1) n2 by (simp_all add: sched_frame_def)
  have R4: "os_reachable True (?R, Map.empty, {}, \<lambda>_. 0, s4)" unfolding s4_def
    by (rule cc_next_os [OF R3 step_interrupt _ n3(2)])
      (use n3(1) in \<open>simp_all add: threads_kept_refl raise_interrupt_fields\<close>)
  obtain L3 hs3 where i3: "sched_inv ?R s3 L3 hs3" by (rule os_sched [OF R3])
  have f4: "tcbs s4 = tcbs s3" "cctx s4 = cctx s3" "awake 0 s4"
    using n3 by (simp_all add: s4_def raise_interrupt_fields)
  have "other_frame s3 s4" unfolding s4_def using raise_interrupt_frame [OF i3, of 0] n3 by simp
  then have o: "other_frame ?b s4"
    using other_frame_trans o2 sched_frame_other [OF s1(3)] sched_frame_other [OF s3(2)] by blast
  have k: "threads_kept ?b s4"
    by (rule threads_kept_trans [OF threads_kept_trans [OF s1(4) threads_kept_trans [OF threads_kept_refl [OF f2(2)] s3(3)]]
          threads_kept_refl [OF f4(1)]])
  have cur: "CURTHREAD 0 s4 = HeapT 0"
  proof -
    obtain y where y: "tcbs s1 (current_thread (cctx s1 0)) = Some y" "ttype y = NORMAL_THREAD" using s1(5) by blast
    have "tcbs ?b (current_thread (cctx s1 0)) \<noteq> None"
      using s1(4) [unfolded threads_kept_def, rule_format, of "current_thread (cctx s1 0)"] y(1)
      by (auto split: option.splits)
    moreover have "current_thread (cctx s1 0) \<noteq> IdleT 0"
      using sched_inv_thread [OF s1(2) y(1)] y(2) by (auto simp: thread_ok_def idle_ok_def)
    ultimately have "current_thread (cctx s1 0) = HeapT 0" using td by blast
    then show ?thesis using s3(4) f2(3) f4(2) by (simp add: CURTHREAD_def)
  qed
  obtain x where x: "tcbs s4 (HeapT 0) = Some x" "same_thread (started_tcb 1 start_main_thread_func 0) x"
    by (rule threads_keptD [OF k t0]) (use r0 in simp)
  have only: "\<forall>a. tcbs s4 (HeapT a) \<noteq> None \<longrightarrow> a = 0"
  proof (intro allI impI)
    fix a assume "tcbs s4 (HeapT a) \<noteq> None"
    then have "tcbs ?b (HeapT a) \<noteq> None"
      using k [unfolded threads_kept_def, rule_format, of "HeapT a"] by (auto split: option.splits)
    then show "a = 0" using td by blast
  qed
  have dom4: "dom (tcbs s4) \<subseteq> {HeapT 0, IdleT 0}"
  proof
    fix t assume "t \<in> dom (tcbs s4)"
    then have "tcbs ?b t \<noteq> None" using k [unfolded threads_kept_def, rule_format, of t] by (auto split: option.splits)
    then show "t \<in> {HeapT 0, IdleT 0}" using td by blast
  qed
  have o4: "waiters s4 = Map.empty" "kernel_sem s4 = 1" "PT s4 = PT ?b" "ptcbs s4 = ptcbs ?b" "mem s4 = Map.empty"
    "devs_ok s4" "condvars s4 = (\<lambda>_. None)" using o up booted_kernel(3) by (simp_all add: other_frame_def devs_ok_def bios_serial_ports_def)
  let ?s = "s4\<lparr>kernel_sem := 0\<rparr>"
  have l: "kernel_lock_step 0 s4 = Inr (True, ?s)" using o4(2) by (simp add: kernel_lock_step_def)
  have "cc_step (?R, Map.empty, {}, s4) (?R, Map.empty, insert (CURTHREAD 0 s4) {}, ?s)"
    by (rule cc_lock [OF f4(3) refl _ _ l]) (simp_all add: o4(1))
  then have R5: "os_reachable True (?R, Map.empty, {HeapT 0}, \<lambda>_. 0, ?s)"
    unfolding cur by (rule os_next [OF R4 os_cc]) (simp add: threads_kept_refl)
  have c5: "CURTHREAD 0 ?s = HeapT 0" using cur by (simp add: CURTHREAD_def)
  have "caller 0 ?R {HeapT 0} ?s"
    using f4(3) x r0 o4(1) unfolding caller_def runner_def c5 by (auto simp: awake_def same_thread_def)
  then show ?thesis
    by (rule that [OF R5 _ c5]) (use o4 up(6) only dom4 x r0 in \<open>simp_all add: devs_ok_def bios_serial_ports_def same_thread_def\<close>)
qed

lemma one_holder:
  assumes "os_reachable True (pc, W, H, pins, s)"
  shows "H = {} \<and> kernel_sem s = 1 \<or> (\<exists>t. H = {t}) \<and> kernel_sem s = 0"
proof -
  obtain R where l: "lock_inv W H s" using assms by (rule os_reachableE)
  have "finite H" "0 \<le> kernel_sem s" "kernel_sem s + int (card H) = 1" using l by (simp_all add: lock_inv_def)
  then have "card H = 0 \<and> kernel_sem s = 1 \<or> card H = 1 \<and> kernel_sem s = 0" by linarith
  then show ?thesis using \<open>finite H\<close> by (auto simp: card_1_singleton_iff)
qed

section \<open>Calls on every path\<close>

text \<open>\<open>Exec\<close> without a function makes a process that has no thread.\<close>

lemma exec_null:
  assumes ok: "cc_ok pc W R s" and fs: "fs_inv pins s fs" and pr: "proc_inv (q # fl) K X T s"
    and cur: "live s cur" "pstate (PT s cur) = ALIVE" "CURPROC c s = Inr cur" and a: "args_ok a len s"
  shows "sys_Exec c None len a (m, pa, ta) s = Inr (int q, exec_setup q cur None len a m s)"
  using sys_Exec_setup [OF fs pr cur(1,3) a exec_setup_ok(4,5) [OF ok fs pr cur(1,2)], of None m pa ta] by simp


text \<open>
  What a thread does when it goes on with \<open>ThreadJoin\<close>.  If the joined thread was detached it frees
  the PTCB and takes a thread off the count of its own process.
\<close>

lemma join_detached:
  assumes x: "ptcbs s a = Some x" "detached x" and pr: "proc_inv fl K X T s" and cur: "CURPROC c s = Inr p" "p < MAX_PROC"
  obtains s' where "join_loop c a s = Inr (Return 0, s')" and "ptcbs s' = (ptcbs s)(a := None)"
    and "PT s' = (PT s)(p := (PT s p)\<lparr>thread_count := thread_count (PT s p) - 1\<rparr>)" and "tcbs s' = tcbs s"
proof -
  let ?x = "if ref_count x > 0 then x\<lparr>ref_count := ref_count x - 1\<rparr> else x"
  let ?s = "set_ptcb a ?x s"
  have l: "list_has (ThreadList p) (ONode (ThreadNode a)) (ThreadNode a) ?s = Inr False"
    using list_has_threads(2) [OF proc_invD(3) [OF pr] cur(2)] by (simp add: list_has_def set_ptcb_def)
  have c: "CURPROC c ?s = Inr p" using cur(1) CURPROC_cong [of ?s s c] by (simp add: set_ptcb_def)
  let ?s' = "set_PCB p ((PT s p)\<lparr>thread_count := thread_count (PT s p) - 1\<rparr>)
    (?s\<lparr>rl := rlist_remove (ThreadNode a) (rl ?s), ptcbs := (ptcbs ?s)(a := None)\<rparr>)"
  have d: "detached ?x" using x(2) by simp
  have "join_release c a s = Inr ?s'"
    unfolding join_release_def get_ptcb_def x(1) option.case rbind_Inr Let_def c l
    by (simp add: x(2) set_ptcb_def)
  then have "join_loop c a s = Inr (Return 0, ?s')" using x by (simp add: join_loop_def get_ptcb_def)
  then show ?thesis by (rule that) (simp_all add: set_PCB_def set_ptcb_def)
qed


section \<open>Threads and processes\<close>

text \<open>
  C1: In every configuration that orderly programs can reach, threads and processes match, whatever
  the threads do on all cores.  At most one thread holds the kernel.  A thread that has not exited
  belongs to a process that is alive, and has a PTCB of its own that says it has not exited.  A
  process counts its threads exactly, and is alive exactly as long as it has one (process 0, to
  which the idle threads belong, apart): none is left over without a thread, and no thread outlives
  its process.  Every process descends from process 0 or 1, and the processes are counted exactly.
  Orderly (\<open>os_reachable True\<close>) leaves out the steps after which this is false of the code, shown by
  \<open>disorderly_calls_break_tables\<close>: no thread goes on with \<open>ThreadJoin\<close> after the thread it joins was
  detached, or with \<open>WaitChild\<close> for a child that was reaped meanwhile, and \<open>Exec\<close> is given a function.
  The start is \<open>boot_with init_sched_lists\<close>, that of a machine where \<open>TIMEOUT_LIST\<close> follows \<open>SCHED\<close>
  in memory: by the rules of C the start faults (\<open>boot_out_of_bounds\<close>).
\<close>

theorem threads_match_processes:
  assumes "os_reachable True (pc, W, H, pins, s)"
  shows "(H = {} \<and> kernel_sem s = 1 \<or> (\<exists>t. H = {t}) \<and> kernel_sem s = 0) \<and>
    (\<forall>t x. tcbs s t = Some x \<longrightarrow> ttype x = NORMAL_THREAD \<longrightarrow> tstate x \<noteq> EXITED \<longrightarrow>
       live s (owner_pcb x) \<and> pstate (PT s (owner_pcb x)) = ALIVE \<and>
       (\<exists>a y. tptcb x = Some a \<and> ptcbs s a = Some y \<and> ptcb_tcb y = Some t \<and> \<not> exited y)) \<and>
    (\<forall>p. live s p \<longrightarrow> unat (thread_count (PT s p)) = card (threads_of s p) \<and> rooted s p \<and>
       (p \<noteq> 0 \<longrightarrow> (pstate (PT s p) = ALIVE \<longleftrightarrow> threads_of s p \<noteq> {}))) \<and>
    process_count s = of_nat (card {p. live s p})"
proof -
  obtain R fs fl K X T where pr: "proc_inv fl K X T s" and th: "thr_inv T s"
    using assms by (rule os_reachableE)
  have t: "live s (owner_pcb x) \<and> pstate (PT s (owner_pcb x)) = ALIVE \<and>
      (\<exists>a y. tptcb x = Some a \<and> ptcbs s a = Some y \<and> ptcb_tcb y = Some t \<and> \<not> exited y)"
    if "tcbs s t = Some x" "ttype x = NORMAL_THREAD" "tstate x \<noteq> EXITED" for t x
    using thr_invD(1) [OF th that] by (auto simp: has_ptcb_def live_def)
  have n: "unat (thread_count (PT s p)) = card (threads_of s p)" if "live s p" for p
    using thr_invD(2) [OF th that] threads_of_small [OF th, of p] by (simp add: unat_of_nat)
  have a: "pstate (PT s p) = ALIVE \<longleftrightarrow> threads_of s p \<noteq> {}" if "live s p" "p \<noteq> 0" for p
    using thr_invD(5) [OF th that] threads_of_owner(2) [OF th] by blast
  have "rooted s p" if "live s p" for p using that tree_okD(7) [OF proc_invD(2) [OF pr]] by blast
  then show ?thesis using one_holder [OF assms] t n a pcb_poolD(4) [OF proc_invD(1) [OF pr]] by blast
qed

theorem threads_match_processes_witness:
  "\<exists>s. os_reachable True (\<lambda>_. Running, Map.empty, {HeapT 0}, \<lambda>_. 0, s) \<and> kernel_sem s = 0 \<and>
     pstate (PT s 1) = ALIVE \<and> unat (thread_count (PT s 1)) = 1"
proof -
  obtain s where s: "os_reachable True (\<lambda>_. Running, Map.empty, {HeapT 0}, \<lambda>_. 0, s)" "PT s = PT booted_kernel"
    by (rule first_call)
  have p: "\<forall>q. pstate (PT s q) = (if q \<le> 1 then ALIVE else FREE)" "thread_count (PT s 1) = 1"
    using booted_kernel(2) unfolding s(2) started_def first_process_def boot_args_def prod.case by blast+
  show ?thesis using threads_match_processes [OF s(1)] s(1) p by (intro exI [of _ s]) auto
qed

section \<open>System calls\<close>



text \<open>
  C3: What \<open>ThreadExit\<close> does to a thread of any process, in every configuration that orderly
  programs can reach (with the start of C1; in a disorderly run a joiner may have freed
  the PTCB and miscounted the threads before).  The thread exits, the kernel is free again and the
  machine goes on, except in two cases: a detached thread reads its own PTCB after having freed it,
  and the last thread of the first process, if that has children, moves them from its list of
  children to the same list, for ever, with the kernel locked.
\<close>

theorem ThreadExit_leaves_or_faults:
  assumes "os_reachable True (pc, W, H, pins, s)" and "caller c pc H s"
  shows "\<exists>x a y. tcbs s (CURTHREAD c s) = Some x \<and> tptcb x = Some a \<and> ptcbs s a = Some y \<and>
    (if detached y then sys_ThreadExit c v s = Inl DanglingPtr
     else if owner_pcb x = 1 \<and> thread_count (PT s 1) = 1 \<and> (\<exists>q. live s q \<and> parent (PT s q) = Some 1)
     then sys_ThreadExit c v s = Inl Diverges
     else \<exists>b s'. sys_ThreadExit c v s = Inr (b, s') \<and> kernel_sem s' = 1 \<and>
       (\<exists>z. tcbs s' (CURTHREAD c s) = Some z \<and> tstate z = EXITED) \<and>
       os_reachable True (pc(c := Sleeping SCHED_USER), W, {}, pins, s'))"
proof -
  have so: "sys_ok pc W pins s" using os_reachable_inv [OF assms(1)] by (simp add: os_inv_def)
  have t: "CURTHREAD c s \<in> H" using assms(2) by (simp add: caller_def)
  then have h: "H - {CURTHREAD c s} = {}" "kernel_sem s = 0"
    using one_holder [OF assms(1)] by auto
  have r: "os_reachable True (pc(c := Sleeping SCHED_USER), W, {}, pins, s')" if "sys_ThreadExit c v s = Inr (b, s')" for b s'
    using os_next [OF assms(1) os_exit [OF assms(2) that]] unfolding h(1) .
  obtain x a y where x: "tcbs s (CURTHREAD c s) = Some x" "tptcb x = Some a" "ptcbs s a = Some y"
    and e: "if detached y then sys_ThreadExit c v s = Inl DanglingPtr
     else if orphaned_init (owner_pcb x) s then sys_ThreadExit c v s = Inl Diverges
     else \<exists>b s'. sys_ThreadExit c v s = Inr (b, s') \<and> kernel_sem s' = 1 \<and>
       (\<exists>z. tcbs s' (CURTHREAD c s) = Some z \<and> tstate z = EXITED)"
    using exit_result [OF so assms(2), of v] h(2) by (auto split: if_splits)
  then show ?thesis using r unfolding orphaned_init_def [symmetric]
    by (intro exI [of _ x] exI [of _ a] exI [of _ y]) (auto split: if_splits)
qed

theorem ThreadExit_leaves_or_faults_witness:
  "\<exists>s b s'. os_reachable True (\<lambda>_. Running, Map.empty, {HeapT 0}, \<lambda>_. 0, s) \<and> CURTHREAD 0 s = HeapT 0 \<and>
     sys_ThreadExit 0 5 s = Inr (b, s') \<and> kernel_sem s' = 1"
proof -
  obtain s where s: "os_reachable True (\<lambda>_. Running, Map.empty, {HeapT 0}, \<lambda>_. 0, s)"
    "caller 0 (\<lambda>_. Running) {HeapT 0} s" "CURTHREAD 0 s = HeapT 0"
    "ptcbs s = [0 \<mapsto> new_ptcb (HeapT 0) (Some 0) 0 None]" "PT s = PT booted_kernel"
    "\<exists>x. tcbs s (HeapT 0) = Some x \<and> ttype x = NORMAL_THREAD \<and> owner_pcb x = 1 \<and> tptcb x = Some 0"
    by (rule first_call) blast
  have "proc_inv [2..<MAX_PROC] (\<lambda>_. []) (\<lambda>_. []) ((\<lambda>_. [])(1 := [0])) booted_kernel"
    using booted_kernel(2) unfolding started_def first_process_def boot_args_def prod.case by blast
  note td = tree_okD(1) [OF proc_invD(2) [OF this]]
  have "\<not> (\<exists>q. live s q \<and> parent (PT s q) = Some 1)"
    using td [of _ 1] s(5) by (simp add: live_def)
  then have no: "\<not> (owner_pcb x = 1 \<and> thread_count (PT s 1) = 1 \<and> (\<exists>q. live s q \<and> parent (PT s q) = Some 1))" for x
    by blast
  obtain x a y where x: "tcbs s (HeapT 0) = Some x" "tptcb x = Some a" "ptcbs s a = Some y"
    and e: "if detached y then sys_ThreadExit 0 5 s = Inl DanglingPtr
     else if owner_pcb x = 1 \<and> thread_count (PT s 1) = 1 \<and> (\<exists>q. live s q \<and> parent (PT s q) = Some 1)
     then sys_ThreadExit 0 5 s = Inl Diverges
     else \<exists>b s'. sys_ThreadExit 0 5 s = Inr (b, s') \<and> kernel_sem s' = 1 \<and>
       (\<exists>z. tcbs s' (HeapT 0) = Some z \<and> tstate z = EXITED) \<and>
       os_reachable True ((\<lambda>_. Running)(0 := Sleeping SCHED_USER), Map.empty, {}, \<lambda>_. 0, s')"
    using ThreadExit_leaves_or_faults [OF s(1,2), of 5] unfolding s(3) by blast
  have "\<not> detached y" using x s(4,6) by (auto simp: new_ptcb_def)
  with e no show ?thesis using s(1,3) unfolding if_not_P [OF no] by auto
qed

section \<open>Disorder\<close>

lemma caller_reaped: "caller c pc H s \<Longrightarrow> caller c pc H (reaped q s)"
  by (simp add: caller_def runner_def awake_def CURTHREAD_def reaped_def cleanup_zombie_def release_PCB_def set_PCB_def Let_def)

text \<open>
  C28: The three disorderly calls, made by a thread that holds the kernel in a configuration that
  orderly programs can reach, lead where C1 is false.  \<open>Exec\<close> without a function, when there is a
  free PCB, returns the pid of a process that is alive and has no thread.  A thread that goes on with
  the loop of \<open>ThreadJoin\<close> for a PTCB that has been detached frees that PTCB and takes one off the
  count of threads of its own process, although no thread has changed.  Two threads that both go on
  with the loop of \<open>WaitChild\<close> for one ended child both succeed; the PCB becomes its own successor
  on the free list, and the processes are counted down twice.  (The steps let any caller go on with
  the loops; in the code those are the threads that slept in the calls.)
\<close>

theorem disorderly_calls_break_tables:
  assumes "os_reachable True (pc, W, H, pins, s)" and "caller c pc H s" and "CURPROC c s = Inr p"
  shows "(args_ok a len s \<longrightarrow> fresh_thread pa ta s \<longrightarrow> has_room s \<longrightarrow> (\<exists>q < MAX_PROC. \<not> live s q) \<longrightarrow>
      (\<exists>q s'. sys_Exec c None len a (m, pa, ta) s = Inr (int q, s') \<and> os_reachable False (pc, W, H, pins, s') \<and>
         q \<noteq> 0 \<and> live s' q \<and> pstate (PT s' q) = ALIVE \<and> threads_of s' q = {})) \<and>
    (\<forall>b x. ptcbs s b = Some x \<longrightarrow> detached x \<longrightarrow>
      (\<exists>s'. join_loop c b s = Inr (Return 0, s') \<and> os_reachable False (pc, W, H, pins, s') \<and> ptcbs s' b = None \<and>
         tcbs s' = tcbs s \<and> threads_of s' p = threads_of s p \<and> unat (thread_count (PT s' p)) = card (threads_of s' p) - 1 \<and>
         threads_of s' p \<noteq> {})) \<and>
    (\<forall>q. live s q \<longrightarrow> pstate (PT s q) = ZOMBIE \<longrightarrow> parent (PT s q) = Some p \<longrightarrow>
      (\<exists>r1 s1 r2 s2. specific_child_loop p q st s = (Return (int q, r1), s1) \<and>
         specific_child_loop p q st s1 = (Return (int q, r2), s2) \<and> os_reachable False (pc, W, H, pins, s2) \<and>
         pcb_freelist s2 = Some q \<and> parent (PT s2 q) = Some q \<and> process_count s2 = process_count s - 2))"
proof (intro conjI allI impI)
  obtain R fs fl K X T where ok: "cc_ok pc W R s" and fs: "fs_inv pins s fs" and pr: "proc_inv fl K X T s"
    and th: "thr_inv T s" using assms(1) by (rule os_reachableE)
  obtain x p' a' y where p': "p' < MAX_PROC" "pstate (PT s p') = ALIVE" "CURPROC c s = Inr p'" "live s p'"
    and x: "tcbs s (CURTHREAD c s) = Some x" "ttype x = NORMAL_THREAD" "tstate x \<noteq> EXITED" "owner_pcb x = p'"
    by (rule runner_thread [OF caller_runs [OF assms(2)] ok th])
  then have p: "p' = p" using assms(3) by simp
  note p' = p' [unfolded p]
  note run = os_next [OF os_orderly [OF assms(1)] os_call [OF assms(2)]]
  {
    assume ar: "args_ok a len s" and new: "fresh_thread pa ta s" and room: "has_room s" and ex: "\<exists>q < MAX_PROC. \<not> live s q"
    obtain u where "u < MAX_PROC" "\<not> live s u" using ex by blast
    then have "u \<in> set fl" using pcb_poolD(3) [OF proc_invD(1) [OF pr], of u] by simp
    then have fl: "fl \<noteq> []" by auto
    then obtain q qs where q: "fl = q # qs" by (cases fl) auto
    let ?s = "exec_setup q p None len a m s"
    note e = exec_null [OF ok fs pr [unfolded q] p'(4,2,3) ar, where m = m and pa = pa and ta = ta]
    have nl: "q < MAX_PROC" "\<not> live s q" using pcb_poolD(3) [OF proc_invD(1) [OF pr], of q] q by simp_all
    have "threads_of s q = {}" using threads_of_owner [OF th, of _ q] nl by (auto simp: live_def)
    then have "threads_of ?s q = {}" by (simp add: threads_of_def exec_setup_def)
    moreover have "pstate (PT ?s q) = ALIVE" by (simp add: exec_setup_def exec_pcb_def)
    moreover have "os_reachable False (pc, W, H, pins, ?s)"
      by (rule run [OF kc_exec [OF _ ar new room e]]) simp
    moreover have "q \<noteq> 0" using exec_setup_ok(4) [OF ok fs pr [unfolded q] p'(4,2)] by simp
    ultimately show "\<exists>q s'. sys_Exec c None len a (m, pa, ta) s = Inr (int q, s') \<and> os_reachable False (pc, W, H, pins, s') \<and>
         q \<noteq> 0 \<and> live s' q \<and> pstate (PT s' q) = ALIVE \<and> threads_of s' q = {}"
      using e nl(1) by (intro exI [of _ q] exI [of _ ?s]) (simp add: live_def)
  }
  {
    fix b z assume z: "ptcbs s b = Some z" "detached z"
    obtain s' where s': "join_loop c b s = Inr (Return 0, s')" "ptcbs s' = (ptcbs s)(b := None)"
      "PT s' = (PT s)(p := (PT s p)\<lparr>thread_count := thread_count (PT s p) - 1\<rparr>)" "tcbs s' = tcbs s"
      by (rule join_detached [OF z pr p'(3,1)])
    have t: "threads_of s' p = threads_of s p" by (simp add: threads_of_def s'(4))
    have "CURTHREAD c s \<in> threads_of s p" using x p by (auto simp: threads_of_def)
    then have ne: "threads_of s p \<noteq> {}" by blast
    have "card (threads_of s p) \<noteq> 0" "card (threads_of s p) < 2 ^ 32" using ne threads_of_small [OF th, of p] by auto
    moreover have "unat (of_nat n - 1 :: uint) = n - 1" if "n \<noteq> 0" "n < 2 ^ 32" for n
    proof -
      have "(of_nat n - 1 :: uint) = of_nat (n - 1)" using that(1) by (cases n) simp_all
      then show ?thesis using that(2) by (simp add: unat_of_nat)
    qed
    ultimately have "unat (thread_count (PT s' p)) = card (threads_of s' p) - 1"
      using thr_invD(2) [OF th p'(4)] by (simp add: s'(3) t)
    moreover have "os_reachable False (pc, W, H, pins, s')" by (rule run [OF kc_rejoin [OF _ s'(1)]]) simp
    ultimately show "\<exists>s'. join_loop c b s = Inr (Return 0, s') \<and> os_reachable False (pc, W, H, pins, s') \<and> ptcbs s' b = None \<and>
         tcbs s' = tcbs s \<and> threads_of s' p = threads_of s p \<and> unat (thread_count (PT s' p)) = card (threads_of s' p) - 1 \<and>
         threads_of s' p \<noteq> {}"
      using s'(1,2,4) t ne by auto
  }
  fix q assume q: "live s q" "pstate (PT s q) = ZOMBIE" "parent (PT s q) = Some p"
  have f: "pcb_freelist (reaped q u) = Some q" "PT (reaped q u) q = (PT u q)\<lparr>pstate := FREE, parent := pcb_freelist u\<rparr>"
    "process_count (reaped q u) = process_count u - 1" "CURPROC c (reaped q u) = CURPROC c u" for u
    by (simp_all add: reaped_def cleanup_zombie_def release_PCB_def set_PCB_def Let_def CURPROC_def CURTHREAD_def get_tcb_def)
  have l: "\<exists>r. specific_child_loop p q st u = (Return (int q, r), reaped q u)" if "pstate (PT u q) \<noteq> ALIVE" for u
    using that by (simp add: specific_child_loop_def cleanup_zombie_eq Let_def)
  let ?s1 = "reaped q s"
  obtain r1 r2 where r: "specific_child_loop p q st s = (Return (int q, r1), ?s1)"
    "specific_child_loop p q st ?s1 = (Return (int q, r2), reaped q ?s1)"
    using l [of s] l [of ?s1] q(2) f(2) by auto
  have R1: "os_reachable False (pc, W, H, pins, ?s1)" by (rule run [OF kc_rewait [OF _ assms(3) r(1)]]) simp
  have "CURPROC c ?s1 = Inr p" using f(4) assms(3) by simp
  then have "os_reachable False (pc, W, H, pins, reaped q ?s1)"
    by (intro os_next [OF R1 os_call [OF caller_reaped [OF assms(2)] kc_rewait [OF _ _ r(2)]]]) simp_all
  then show "\<exists>r1 s1 r2 s2. specific_child_loop p q st s = (Return (int q, r1), s1) \<and>
         specific_child_loop p q st s1 = (Return (int q, r2), s2) \<and> os_reachable False (pc, W, H, pins, s2) \<and>
         pcb_freelist s2 = Some q \<and> parent (PT s2 q) = Some q \<and> process_count s2 = process_count s - 2"
    using r f by (intro exI [of _ r1] exI [of _ ?s1] exI [of _ r2] exI [of _ "reaped q ?s1"]) simp
qed

text \<open>The first process calls \<open>Exec\<close> without a function.\<close>

theorem disorderly_calls_break_tables_witness:
  "\<exists>q s s'. sys_Exec 0 None 0 None (0, 1, 1) s = Inr (int q, s') \<and>
     os_reachable False (\<lambda>_. Running, Map.empty, {HeapT 0}, \<lambda>_. 0, s') \<and> q \<noteq> 0 \<and>
     pstate (PT s' q) = ALIVE \<and> threads_of s' q = {}"
proof -
  obtain s where s: "os_reachable True (\<lambda>_. Running, Map.empty, {HeapT 0}, \<lambda>_. 0, s)"
    "caller 0 (\<lambda>_. Running) {HeapT 0} s" "CURTHREAD 0 s = HeapT 0" "PT s = PT booted_kernel"
    "ptcbs s = [0 \<mapsto> new_ptcb (HeapT 0) (Some 0) 0 None]" "condvars s = (\<lambda>_. None)"
    "\<forall>a. tcbs s (HeapT a) \<noteq> None \<longrightarrow> a = 0" "dom (tcbs s) \<subseteq> {HeapT 0, IdleT 0}"
    "\<exists>x. tcbs s (HeapT 0) = Some x \<and> ttype x = NORMAL_THREAD \<and> owner_pcb x = 1 \<and> tptcb x = Some 0"
    by (rule first_call) blast
  have n: "tcbs s (HeapT 1) = None" using s(7) [rule_format, of 1] by (cases "tcbs s (HeapT 1)") auto
  then have a: "fresh_thread 1 1 s" "args_ok None 0 s" using s(5,6) by (simp_all add: fresh_thread_def args_ok_def)
  have "card (dom (tcbs s)) \<le> card {HeapT 0, IdleT 0}" by (rule card_mono [OF _ s(8)]) simp
  then have r: "has_room s" by (simp add: has_room_def)
  have "\<forall>q. pstate (PT s q) = (if q \<le> 1 then ALIVE else FREE)"
    using booted_kernel(2) unfolding s(4) started_def first_process_def boot_args_def prod.case by blast
  then have f: "\<exists>q < MAX_PROC. \<not> live s q" by (intro exI [of _ 2]) (simp add: live_def MAX_PROC_def)
  have c: "CURPROC 0 s = Inr 1" using s(3,9) by (auto simp: CURPROC_def)
  from conjunct1 [OF disorderly_calls_break_tables [OF s(1,2) c, of None 0 1 1 0]] a r f show ?thesis by blast
qed

end
