(* ===== verification/Util_Tests.thy ===== *)
theory Util_Tests
  imports RList_Loops Args "HOL-Library.Monad_Syntax"
begin

text \<open>
  The unit tests of src/test_util.c for the resource lists and the argument vectors, as programs
  on the models of these libraries.  The local variables of a test are nodes at fixed addresses,
  and \<open>malloc\<close> returns the addresses that follow.  A test gets the memory as it is and has
  the value \<open>None\<close> when an \<open>ASSERT\<close> fails or the test does not end.
\<close>

section \<open>Memory and assertions\<close>

text \<open>The key of a node: null, a number, the address of a node, or that of an array element.\<close>

datatype tkey = KNull | KNum int | KNode nat | KElem nat

type_synonym theap = "(nat, tkey) rlheap"

definition ASSERT :: "bool \<Rightarrow> unit option" where
  "ASSERT b = (if b then Some () else None)"

fun for_each :: "('i \<Rightarrow> 's \<Rightarrow> 's option) \<Rightarrow> 'i list \<Rightarrow> 's \<Rightarrow> 's option" where
  "for_each f [] s = Some s"
| "for_each f (i # is) s = Option.bind (f i s) (for_each f is)"

text \<open>\<open>rlnode_new(p)->num = n\<close>.\<close>

definition new_num :: "nat \<Rightarrow> int \<Rightarrow> theap \<Rightarrow> theap" where
  "new_num p n h = (let h1 = rlnode_new p h in h1\<lparr>obj := (obj h1)(p := KNum n)\<rparr>)"

definition add_char :: "nat \<Rightarrow> char \<Rightarrow> nat \<times> theap \<Rightarrow> (nat \<times> theap) option" where
  "add_char L d s = (case s of (a, h) \<Rightarrow> Some (a + 1, rlist_push_back L a (new_num a (of_char d) h)))"

definition make_list :: "nat \<Rightarrow> string \<Rightarrow> nat \<times> theap \<Rightarrow> (nat \<times> theap) option" where
  "make_list L data s = do {
     (a, h) \<leftarrow> for_each (add_char L) data (fst s, rlnode_init L KNull (snd s));
     l \<leftarrow> rlist_len L h;
     ASSERT (unat l = length data);
     Some (a, h)
   }"

definition Data :: "string list" where
  "Data = ['''', ''H'', ''Ha'', ''a'', ''asdas'']"

text \<open>\<open>build_list\<close>: the key of every node is the address of its element of an array.\<close>

definition build_node :: "nat \<Rightarrow> nat \<times> nat \<Rightarrow> theap \<Rightarrow> theap option" where
  "build_node L ne h = (case ne of (n, e) \<Rightarrow> Some (rlist_push_back L n (rlnode_init n (KElem e) h)))"

definition build_list :: "nat \<Rightarrow> nat \<Rightarrow> nat \<Rightarrow> nat \<Rightarrow> theap \<Rightarrow> theap option" where
  "build_list L from to key h = for_each (build_node L) (zip [from..<to] [key..<key + (to - from)]) h"

section \<open>The tests of the lists\<close>

definition test_list_init :: "theap \<Rightarrow> theap option" where
  "test_list_init h = (let L = 0; n1 = 1; n2 = 2; R = 3; h = rlnode_init L KNull h in do {
     ASSERT (obj h L = KNull);
     ASSERT (prv h L = nxt h L);
     ASSERT (prv h L = L);
     let h = new_num n2 5 (rlnode_init n1 (KNode L) h);
     ASSERT (obj h n2 = KNum 5);
     let h = h\<lparr>obj := (obj h)(R := KNull), prv := (prv h)(R := R), nxt := (nxt h)(R := R)\<rparr>;
     ASSERT (is_rlist_empty R h);
     ASSERT (is_rlist_empty L h);
     ASSERT (is_rlist_empty n1 h);
     ASSERT (is_rlist_empty n2 h);
     let h = rl_splice n1 n2 h;
     ASSERT (\<not> is_rlist_empty n1 h);
     ASSERT (\<not> is_rlist_empty n2 h);
     ASSERT (nxt h n1 = n2);
     ASSERT (nxt h n2 = n1);
     ASSERT (prv h n1 = n2);
     ASSERT (prv h n2 = n1);
     l \<leftarrow> rlist_len n1 h;
     ASSERT (l = 1);
     let h = rl_splice n1 n2 h;
     ASSERT (is_rlist_empty n1 h);
     ASSERT (is_rlist_empty n2 h);
     l \<leftarrow> rlist_len n1 h;
     ASSERT (l = 0);
     Some h
   })"

text \<open>In the next tests the list is at \<open>0\<close> and \<open>n+i\<close> is at \<open>1 + i\<close>.\<close>

definition push_counted :: "nat \<Rightarrow> theap \<Rightarrow> theap option" where
  "push_counted i h = do {
     l \<leftarrow> rlist_len 0 h;
     ASSERT (l = of_nat i);
     let h = rlist_push_back 0 (1 + i) (new_num (1 + i) (int i) h);
     l \<leftarrow> rlist_len 0 h;
     ASSERT (l = of_nat (i + 1));
     Some h
   }"

definition remove_counted :: "nat \<Rightarrow> theap \<Rightarrow> theap option" where
  "remove_counted i h = do {
     l \<leftarrow> rlist_len 0 h;
     let h = rlist_remove (1 + i) h;
     l1 \<leftarrow> rlist_len 0 h;
     ASSERT (l1 = l - 1);
     Some h
   }"

definition make_counted :: "string \<Rightarrow> nat \<times> theap \<Rightarrow> (nat \<times> theap) option" where
  "make_counted d s = do {
     (a, h) \<leftarrow> make_list 0 d s;
     l \<leftarrow> rlist_len 0 h;
     ASSERT (unat l = length d);
     Some (a, h)
   }"

definition test_list_len :: "theap \<Rightarrow> theap option" where
  "test_list_len h = do {
     h \<leftarrow> for_each push_counted [0..<10] (rlnode_new 0 h);
     l \<leftarrow> rlist_len 0 h;
     ASSERT (l = 10);
     h \<leftarrow> for_each remove_counted [0, 2, 4, 6, 8] h;
     h \<leftarrow> for_each remove_counted [1, 3, 5, 7, 9] h;
     s \<leftarrow> for_each make_counted Data (11, h);
     Some (snd s)
   }"

definition push_new_front :: "nat \<Rightarrow> theap \<Rightarrow> theap option" where
  "push_new_front i h = Some (rlist_push_front 0 (1 + i) (rlnode_new (1 + i) h))"

definition check_prev :: "theap \<Rightarrow> nat \<Rightarrow> nat \<Rightarrow> nat option" where
  "check_prev h i I = do { ASSERT (I = 1 + i); Some (prv h I) }"

partial_function (option) drain_queue :: "nat \<Rightarrow> theap \<Rightarrow> theap option" where
  "drain_queue I h =
     (if \<not> is_rlist_empty 0 h
      then (let (p, h1) = rlist_pop_back 0 h in if I = p then drain_queue (I + 1) h1 else None)
      else Some h)"

definition test_list_queue :: "theap \<Rightarrow> theap option" where
  "test_list_queue h = do {
     h \<leftarrow> for_each push_new_front [0..<10] (rlnode_new 0 h);
     I \<leftarrow> for_each (check_prev h) [0..<10] (prv h 0);
     h \<leftarrow> drain_queue 1 h;
     ASSERT (is_rlist_empty 0 h);
     let (I, h) = rlist_pop_back 0 h;
     ASSERT (I = 0);
     ASSERT (is_rlist_empty 0 h);
     Some h
   }"

partial_function (option) check_elems :: "nat \<Rightarrow> nat \<Rightarrow> theap \<Rightarrow> unit option" where
  "check_elems p i h =
     (if p \<noteq> 0 then (if obj h p = KElem i then check_elems (nxt h p) (i + 1) h else None) else Some ())"

definition short_data :: "int list" where
  "short_data = [4, 2, 5, 7, 8, 3, 2, 9, 3]"

definition gt5 :: "theap \<Rightarrow> nat \<Rightarrow> bool" where
  "gt5 h p = (case obj h p of KElem e \<Rightarrow> short_data ! e \<ge> 5 | _ \<Rightarrow> False)"

definition test_list_select :: "theap \<Rightarrow> theap option" where
  "test_list_select h = (let L = 0; Q = 10 in do {
     let h = rlnode_new L h;
     l \<leftarrow> rlist_len L h;
     ASSERT (l = 0);
     h \<leftarrow> build_list L 1 10 0 h;
     l \<leftarrow> rlist_len L h;
     ASSERT (l = 9);
     check_elems (nxt h L) 0 h;
     let h = rlnode_new Q h;
     h \<leftarrow> rlist_select L Q (gt5 h) h;
     l \<leftarrow> rlist_len Q h;
     ASSERT (l = 4);
     l \<leftarrow> rlist_len L h;
     ASSERT (l = 5);
     Some h
   })"

definition equal_pair :: "nat \<times> nat \<Rightarrow> nat \<times> theap \<Rightarrow> (nat \<times> theap) option" where
  "equal_pair ij s = (case ij of (i, j) \<Rightarrow> do {
     s \<leftarrow> make_list 0 (Data ! i) s;
     (a, h) \<leftarrow> make_list 1 (Data ! j) s;
     r \<leftarrow> rlist_equal 0 1 h;
     ASSERT (r \<longleftrightarrow> i = j);
     Some (a, h)
   })"

definition test_list_equal :: "theap \<Rightarrow> theap option" where
  "test_list_equal h = do {
     s \<leftarrow> for_each equal_pair (List.product [0..<5] [0..<5]) (2, h);
     Some (snd s)
   }"

definition test_list_prepend :: "theap \<Rightarrow> theap option" where
  "test_list_prepend h = (let Ld = 0; Ls = 1; Le = 2; La = 3; nodes = 4 in do {
     let h = rlnode_init La KNull (rlnode_init Le KNull (rlnode_init Ls KNull (rlnode_init Ld KNull h)));
     h \<leftarrow> build_list Ld nodes (nodes + 5) 0 h;
     h \<leftarrow> build_list Ls (nodes + 5) (nodes + 9) 5 h;
     h \<leftarrow> build_list La (nodes + 9) (nodes + 18) 0 h;
     let h = rlist_prepend Ls Le h;
     ASSERT (is_rlist_empty Le h);
     let h = rlist_prepend Le Ls h;
     ASSERT (is_rlist_empty Ls h);
     let h = rlist_prepend Le Ld h;
     ASSERT (is_rlist_empty Ld h);
     l \<leftarrow> rlist_len Le h;
     ASSERT (l = 9);
     r \<leftarrow> rlist_equal Le La h;
     ASSERT r;
     Some h
   })"

definition test_list_append :: "theap \<Rightarrow> theap option" where
  "test_list_append h = (let L1 = 0; L2 = 1; L3 = 2 in do {
     s \<leftarrow> make_list L1 ''Hello '' (3, h);
     (a, h) \<leftarrow> make_list L2 ''world'' s;
     let h = rlnode_init L3 KNull h;
     let h = rlist_append L3 L1 h;
     let h = rlist_append L3 L2 h;
     (a, h) \<leftarrow> make_list L1 ''Hello world'' (a, h);
     r \<leftarrow> rlist_equal L3 L1 h;
     ASSERT r;
     Some h
   })"

section \<open>The test of the argument vectors\<close>

text \<open>The buffer \<open>args\<close> is uninitialised: \<open>fill\<close> says what is in it.\<close>

definition of_result :: "'a result \<Rightarrow> 'a option" where
  "of_result r = (case r of Inl e \<Rightarrow> None | Inr x \<Rightarrow> Some x)"

definition test_argv :: "(nat \<Rightarrow> 8 word) \<Rightarrow> cstr list \<Rightarrow> unit option" where
  "test_argv fill argv = do {
     let l = sint (ucast (argvlen argv) :: cint);
     (argl, args) \<leftarrow> of_result (argvpack (map fill [0..<nat l]) 0 argv);
     let argl = sint (ucast argl :: cint);
     ASSERT (argl = l);
     n \<leftarrow> of_result (argscount argl args);
     ASSERT (n = of_nat (length argv));
     (uargv, last) \<leftarrow> of_result (argvunpack (length argv) args 0);
     ASSERT (\<forall>i < length argv. argv ! i = c_string args (uargv ! i));
     Some ()
   }"

definition ascii :: "string \<Rightarrow> cstr" where
  "ascii s = map of_char s"

definition test_pack_unpack :: "(nat \<Rightarrow> 8 word) \<Rightarrow> unit option" where
  "test_pack_unpack fill = do {
     ASSERT (argvlen [ascii ''Hello'', ascii ''Goodbye''] = 14);
     test_argv fill [ascii ''Hello'', ascii ''Goodbye''];
     ASSERT (argvlen [] = 0);
     test_argv fill [];
     ASSERT (argvlen [ascii ''Goodbye''] = 8);
     test_argv fill [ascii ''Goodbye''];
     ASSERT (argvlen [ascii '''', ascii ''''] = 2);
     test_argv fill [ascii '''', ascii ''''];
     ASSERT (argvlen [ascii ''''] = 1);
     test_argv fill [ascii '''']
   }"

section \<open>Building lists\<close>

text \<open>\<open>listed h L ns ks\<close>: the list \<open>L\<close> has the nodes \<open>ns\<close> with the keys \<open>ks\<close>.\<close>

definition listed :: "theap \<Rightarrow> nat \<Rightarrow> nat list \<Rightarrow> tkey list \<Rightarrow> bool" where
  "listed h L ns ks \<longleftrightarrow> isring h L ns \<and> map (obj h) ns = ks"

lemma listed_len: "listed h L ns ks \<Longrightarrow> rlist_len L h = Some (of_nat (length ns))"
  by (simp add: listed_def rlist_len_ring)

lemma listed_equal: "listed h z zs ks \<Longrightarrow> listed h y ys js \<Longrightarrow> rlist_equal z y h = Some (ks = js)"
  using rlist_equal_ring by (auto simp: listed_def)

lemma ASSERT_simps [simp]: "ASSERT True = Some ()" "ASSERT False = None"
  by (simp_all add: ASSERT_def)

lemma new_num_init: "new_num p n h = rlnode_init p (KNum n) h"
  by (simp add: new_num_def rlnode_init_def rlnode_new_def Let_def)

lemma rlnode_new_init: "rlnode_new p h = rlnode_init p (obj h p) h"
  by (simp add: rlnode_init_def rlnode_new_def Let_def)

text \<open>A fresh node with a key goes to either end of a list.\<close>

lemma push_listed:
  assumes l: "listed h L ns ks" and n: "n \<notin> set (L # ns)"
  shows "listed (rlist_push_back L n (rlnode_init n k h)) L (ns @ [n]) (ks @ [k])"
    and "listed (rlist_push_front L n (rlnode_init n k h)) L (n # ns) (k # ks)"
proof -
  have 1: "isring (rlnode_init n k h) L ns" "isring (rlnode_init n k h) n []"
    using l n by (simp_all add: listed_def init_keeps init_list)
  show "listed (rlist_push_back L n (rlnode_init n k h)) L (ns @ [n]) (ks @ [k])"
    "listed (rlist_push_front L n (rlnode_init n k h)) L (n # ns) (k # ks)"
    using rl.push_back_law [OF 1 n] rl.push_front_law [OF 1 n] l n by (auto simp: listed_def)
qed

lemma push_listed_keeps:
  assumes z: "listed h z zs js" and l: "listed h L ns ks" and n: "n \<notin> set (L # ns)" "n \<notin> set (z # zs)"
    and L: "L \<notin> set (z # zs)"
  shows "listed (rlist_push_back L n (rlnode_init n k h)) z zs js"
proof -
  have 1: "isring (rlnode_init n k h) L ns" "isring (rlnode_init n k h) n []" "isring (rlnode_init n k h) z zs"
    using z l n by (simp_all add: listed_def init_keeps init_list)
  from rl.push_keeps_law [OF 1(3,1,2) L n(2)] z n(2) show ?thesis by (auto simp: listed_def)
qed

lemma init_listed: "listed (rlnode_init L k h) L [] []"
  by (simp add: listed_def init_list)

lemma init_listed_keeps: "listed h z zs js \<Longrightarrow> L \<notin> set (z # zs) \<Longrightarrow> listed (rlnode_init L k h) z zs js"
  by (auto simp: listed_def init_keeps)

lemma for_each_append: "for_each f (xs @ ys) s = Option.bind (for_each f xs s) (for_each f ys)"
  by (induction xs arbitrary: s) (simp_all split: bind_split)

text \<open>The lists that \<open>make_list\<close> and \<open>build_list\<close> leave alone have older nodes.\<close>

lemma add_chars:
  assumes "listed h L ns ks" and "\<forall>b \<in> set (L # ns). b < a"
  shows "\<exists>h'. for_each (add_char L) d (a, h) = Some (a + length d, h') \<and>
    listed h' L (ns @ [a..<a + length d]) (ks @ map (\<lambda>c. KNum (of_char c)) d) \<and>
    (\<forall>z zs js. listed h z zs js \<longrightarrow> L \<notin> set (z # zs) \<longrightarrow> (\<forall>b \<in> set (z # zs). b < a) \<longrightarrow> listed h' z zs js)"
  using assms
proof (induction d arbitrary: a h ns ks)
  case Nil
  then show ?case by simp
next
  case (Cons c d)
  let ?h = "rlist_push_back L a (rlnode_init a (KNum (of_char c)) h)"
  have a: "a \<notin> set (L # ns)" using Cons.prems(2) by auto
  have l: "listed ?h L (ns @ [a]) (ks @ [KNum (of_char c)])" by (rule push_listed(1) [OF Cons.prems(1) a])
  have o: "\<forall>b \<in> set (L # ns @ [a]). b < a + 1" using Cons.prems(2) by auto
  obtain h' where h': "for_each (add_char L) d (a + 1, ?h) = Some (a + 1 + length d, h')"
    "listed h' L ((ns @ [a]) @ [a + 1..<a + 1 + length d]) ((ks @ [KNum (of_char c)]) @ map (\<lambda>c. KNum (of_char c)) d)"
    "\<forall>z zs js. listed ?h z zs js \<longrightarrow> L \<notin> set (z # zs) \<longrightarrow> (\<forall>b \<in> set (z # zs). b < a + 1) \<longrightarrow> listed h' z zs js"
    using Cons.IH [OF l o] by blast
  have e: "[a..<a + length (c # d)] = a # [a + 1..<a + 1 + length d]" by (subst upt_conv_Cons) simp_all
  have keep: "listed h' z zs js" if z: "listed h z zs js" "L \<notin> set (z # zs)" "\<forall>b \<in> set (z # zs). b < a" for z zs js
  proof -
    have "a \<notin> set (z # zs)" using z(3) by auto
    note k = push_listed_keeps [OF z(1) Cons.prems(1) a this z(2)]
    have "\<forall>b \<in> set (z # zs). b < a + 1" using z(3) by auto
    with h'(3) k z(2) show ?thesis by blast
  qed
  have "add_char L c (a, h) = Some (a + 1, ?h)" by (simp add: add_char_def new_num_init)
  then have "for_each (add_char L) (c # d) (a, h) = Some (a + length (c # d), h')" using h'(1) by simp
  moreover have "listed h' L (ns @ [a..<a + length (c # d)]) (ks @ map (\<lambda>c. KNum (of_char c)) (c # d))"
    unfolding e using h'(2) by (simp del: upt_Suc)
  ultimately show ?case using keep by blast
qed

lemma make_list_listed:
  assumes "L < a" and "length d < 2 ^ 32"
  obtains h' where "make_list L d (a, h) = Some (a + length d, h')"
    and "listed h' L [a..<a + length d] (map (\<lambda>c. KNum (of_char c)) d)"
    and "\<And>z zs js. listed h z zs js \<Longrightarrow> L \<notin> set (z # zs) \<Longrightarrow> \<forall>b \<in> set (z # zs). b < a \<Longrightarrow> listed h' z zs js"
proof -
  have b: "\<forall>b \<in> set [L]. b < a" using assms(1) by simp
  obtain h' where h': "for_each (add_char L) d (a, rlnode_init L KNull h) = Some (a + length d, h')"
    "listed h' L [a..<a + length d] (map (\<lambda>c. KNum (of_char c)) d)"
    "\<forall>z zs js. listed (rlnode_init L KNull h) z zs js \<longrightarrow> L \<notin> set (z # zs) \<longrightarrow> (\<forall>b \<in> set (z # zs). b < a) \<longrightarrow>
      listed h' z zs js"
    using add_chars [OF init_listed b, of d KNull h] by auto
  have "unat (of_nat (length d) :: uint) = length d" using assms(2) by (simp add: unat_of_nat)
  then have "make_list L d (a, h) = Some (a + length d, h')"
    using h'(1) listed_len [OF h'(2)] by (simp add: make_list_def)
  then show ?thesis using that [OF _ h'(2)] h'(3) init_listed_keeps by blast
qed

lemma build_list_listed:
  assumes "listed h L ns ks" and "\<forall>b \<in> set (L # ns). b < n"
  shows "\<exists>h'. build_list L n (n + m) e h = Some h' \<and> listed h' L (ns @ [n..<n + m]) (ks @ map KElem [e..<e + m]) \<and>
    (\<forall>z zs js. listed h z zs js \<longrightarrow> L \<notin> set (z # zs) \<longrightarrow> (\<forall>b \<in> set (z # zs). b < n \<or> n + m \<le> b) \<longrightarrow> listed h' z zs js)"
  using assms
proof (induction m arbitrary: n e h ns ks)
  case 0
  then show ?case by (simp add: build_list_def)
next
  case (Suc m)
  let ?h = "rlist_push_back L n (rlnode_init n (KElem e) h)"
  have n: "n \<notin> set (L # ns)" using Suc.prems(2) by auto
  have l: "listed ?h L (ns @ [n]) (ks @ [KElem e])" by (rule push_listed(1) [OF Suc.prems(1) n])
  have o: "\<forall>b \<in> set (L # ns @ [n]). b < n + 1" using Suc.prems(2) by auto
  obtain h' where h': "build_list L (n + 1) (n + 1 + m) (e + 1) ?h = Some h'"
    "listed h' L ((ns @ [n]) @ [n + 1..<n + 1 + m]) ((ks @ [KElem e]) @ map KElem [e + 1..<e + 1 + m])"
    "\<forall>z zs js. listed ?h z zs js \<longrightarrow> L \<notin> set (z # zs) \<longrightarrow> (\<forall>b \<in> set (z # zs). b < n + 1 \<or> n + 1 + m \<le> b) \<longrightarrow> listed h' z zs js"
    using Suc.IH [OF l o] by blast
  have e: "[n..<n + Suc m] = n # [n + 1..<n + 1 + m]" "[e..<e + Suc m] = e # [e + 1..<e + 1 + m]"
    by (subst upt_conv_Cons; simp)+
  have keep: "listed h' z zs js"
    if z: "listed h z zs js" "L \<notin> set (z # zs)" "\<forall>b \<in> set (z # zs). b < n \<or> n + Suc m \<le> b" for z zs js
  proof -
    have "n \<notin> set (z # zs)" using z(3) by fastforce
    note k = push_listed_keeps [OF z(1) Suc.prems(1) n this z(2)]
    have "\<forall>b \<in> set (z # zs). b < n + 1 \<or> n + 1 + m \<le> b" using z(3) by auto
    with h'(3) k z(2) show ?thesis by blast
  qed
  have "build_node L (n, e) h = Some ?h" by (simp add: build_node_def)
  moreover have "n + Suc m - n = Suc m" "n + 1 + m - (n + 1) = m" by simp_all
  ultimately have "build_list L n (n + Suc m) e h = Some h'"
    using h'(1) unfolding build_list_def by (simp only: e zip_Cons_Cons for_each.simps Option.bind.simps)
  moreover have "listed h' L (ns @ [n..<n + Suc m]) (ks @ map KElem [e..<e + Suc m])"
    unfolding e using h'(2) by (simp del: upt_Suc)
  ultimately show ?case using keep by blast
qed


section \<open>The tests pass\<close>

lemma push_counts: "\<exists>h'. for_each push_counted [0..<n] (rlnode_new 0 h) = Some h' \<and> isring h' 0 [1..<1 + n]"
proof (induction n)
  case 0
  then show ?case by (simp add: rlnode_new_init init_list)
next
  case (Suc n)
  then obtain h1 where h1: "for_each push_counted [0..<n] (rlnode_new 0 h) = Some h1" "isring h1 0 [1..<1 + n]" by blast
  let ?h = "rlist_push_back 0 (1 + n) (new_num (1 + n) (int n) h1)"
  have "listed h1 0 [1..<1 + n] (map (obj h1) [1..<1 + n])" using h1(2) by (simp only: listed_def)
  from push_listed(1) [OF this, of "1 + n" "KNum (int n)"]
  have "isring ?h 0 ([1..<1 + n] @ [1 + n])" by (simp del: upt_Suc add: listed_def new_num_init)
  moreover have "[1..<1 + n] @ [1 + n] = [1..<1 + Suc n]" by simp
  ultimately have r: "isring ?h 0 [1..<1 + Suc n]" by simp
  have "push_counted n h1 = Some ?h"
    using rlist_len_ring [OF h1(2)] rlist_len_ring [OF r] by (simp del: upt_Suc add: push_counted_def Let_def)
  then show ?case using h1(1) r by (simp del: upt_Suc add: upt_Suc_append for_each_append)
qed

lemma remove_counts:
  assumes "isring h 0 xs" and "1 + i \<in> set xs"
  shows "\<exists>h'. remove_counted i h = Some h' \<and> isring h' 0 (remove1 (1 + i) xs)"
proof -
  have r: "isring (rlist_remove (1 + i) h) 0 (remove1 (1 + i) xs)" using rl.remove_law [OF assms] by simp
  have "length (remove1 (1 + i) xs) = length xs - 1" "1 \<le> length xs"
    using assms(2) by (auto simp: length_remove1 Suc_le_eq length_pos_if_in_set)
  then have "(of_nat (length (remove1 (1 + i) xs)) :: uint) = of_nat (length xs) - 1" by (simp add: of_nat_diff)
  with r rlist_len_ring [OF assms(1)] rlist_len_ring [OF r] show ?thesis
    by (simp add: remove_counted_def Let_def)
qed

lemma remove_each:
  "isring h 0 xs \<Longrightarrow> distinct is \<Longrightarrow> \<forall>i \<in> set is. 1 + i \<in> set xs \<Longrightarrow>
   \<exists>h'. for_each remove_counted is h = Some h' \<and> isring h' 0 (fold (\<lambda>i. remove1 (1 + i)) is xs)"
proof (induction "is" arbitrary: h xs)
  case (Cons i js)
  obtain h1 where h1: "remove_counted i h = Some h1" "isring h1 0 (remove1 (1 + i) xs)"
    using remove_counts [OF Cons.prems(1)] Cons.prems(3) by auto
  have "\<forall>j \<in> set js. 1 + j \<in> set (remove1 (1 + i) xs)" using Cons.prems(2,3) by (simp, metis in_set_remove1 nat.inject)
  from Cons.IH [OF h1(2) _ this] Cons.prems(2) h1(1) show ?case by simp
qed simp

lemma make_each:
  "\<forall>d \<in> set ds. length d < 2 ^ 32 \<Longrightarrow> 0 < a \<Longrightarrow> \<exists>s. for_each make_counted ds (a, h) = Some s"
proof (induction ds arbitrary: a h)
  case (Cons d ds)
  have l: "length d < 2 ^ 32" using Cons.prems by simp
  obtain h' where h': "make_list 0 d (a, h) = Some (a + length d, h')"
    "listed h' 0 [a..<a + length d] (map (\<lambda>c. KNum (of_char c)) d)"
    by (rule make_list_listed [OF Cons.prems(2) l])
  have "make_counted d (a, h) = Some (a + length d, h')"
    using l listed_len [OF h'(2)] by (simp add: make_counted_def h'(1) unat_of_nat)
  with Cons show ?case by simp
qed simp

lemma len_passes: "test_list_len h \<noteq> None"
proof -
  obtain h1 where h1: "for_each push_counted [0..<10] (rlnode_new 0 h) = Some h1" "isring h1 0 [1..<1 + 10]"
    using push_counts by blast
  obtain h2 where h2: "for_each remove_counted [0, 2, 4, 6, 8] h1 = Some h2"
    "isring h2 0 (fold (\<lambda>i. remove1 (1 + i)) [0, 2, 4, 6, 8] [1..<1 + 10])"
    using remove_each [OF h1(2), of "[0, 2, 4, 6, 8]"] by (auto simp del: fold_simps)
  have e: "fold (\<lambda>i. remove1 (1 + i)) [0, 2, 4, 6, 8] [1..<1 + 10] = [2, 4, 6, 8, 10]" by code_simp
  obtain h3 where h3: "for_each remove_counted [1, 3, 5, 7, 9] h2 = Some h3"
    using remove_each [OF h2(2) [unfolded e], of "[1, 3, 5, 7, 9]"] by auto
  obtain s where "for_each make_counted Data (11, h3) = Some s"
    using make_each [of Data 11 h3] by (auto simp: Data_def)
  moreover have "rlist_len 0 h1 = Some 10" using rlist_len_ring [OF h1(2)] by simp
  ultimately show ?thesis unfolding test_list_len_def using h1(1) h2(1) h3 by (simp del: for_each.simps)
qed


lemma init_passes: "test_list_init h \<noteq> None"
proof -
  let ?h1 = "rlnode_init 0 KNull h"
  let ?h2 = "new_num 2 5 (rlnode_init 1 (KNode 0) ?h1)"
  let ?h3 = "?h2\<lparr>obj := (obj ?h2)(3 := KNull), prv := (prv ?h2)(3 := 3), nxt := (nxt ?h2)(3 := 3)\<rparr>"
  let ?h4 = "rl_splice 1 2 ?h3" and ?h5 = "rl_splice 1 2 (rl_splice 1 2 ?h3)"
  note f = rlnode_init_def rlnode_new_def new_num_def Let_def
  have 1: "obj ?h1 0 = KNull" "prv ?h1 0 = 0" "nxt ?h1 0 = 0" "obj ?h2 2 = KNum 5" by (simp_all add: f)
  have 3: "isring ?h3 0 []" "isring ?h3 1 []" "isring ?h3 2 []" "isring ?h3 3 []" by (simp_all add: isring_Nil f)
  have 4: "isring ?h4 1 [2]" "isring ?h4 2 [1]"
    using splice_join [OF 3(2,3)] isring_rotate [of ?h4 1 "[]" 2 "[]"] by simp_all
  have 5: "isring ?h5 1 []" "isring ?h5 2 []" using splice_split [of ?h4 1 "[]" 2 "[]"] 4 by simp_all
  have "nxt ?h4 1 = 2" "nxt ?h4 2 = 1" "prv ?h4 1 = 2" "prv ?h4 2 = 1"
    using 4 isring_nxt isring_prv by fastforce+
  then show ?thesis
    unfolding test_list_init_def Let_def using 1 is_rlist_empty_iff [OF 3(1)] is_rlist_empty_iff [OF 3(2)]
      is_rlist_empty_iff [OF 3(3)] is_rlist_empty_iff [OF 3(4)] is_rlist_empty_iff [OF 4(1)] is_rlist_empty_iff [OF 4(2)]
      is_rlist_empty_iff [OF 5(1)] is_rlist_empty_iff [OF 5(2)] rlist_len_ring [OF 4(1)] rlist_len_ring [OF 5(1)] by simp
qed

lemma push_fronts: "\<exists>h'. for_each push_new_front [0..<n] (rlnode_new 0 h) = Some h' \<and> isring h' 0 (rev [1..<1 + n])"
proof (induction n)
  case 0
  then show ?case by (simp add: rlnode_new_init init_list)
next
  case (Suc n)
  then obtain h1 where h1: "for_each push_new_front [0..<n] (rlnode_new 0 h) = Some h1" "isring h1 0 (rev [1..<1 + n])" by blast
  let ?h = "rlist_push_front 0 (1 + n) (rlnode_new (1 + n) h1)"
  have "listed h1 0 (rev [1..<1 + n]) (map (obj h1) (rev [1..<1 + n]))" using h1(2) by (simp only: listed_def)
  from push_listed(2) [OF this, of "1 + n" "obj h1 (1 + n)"]
  have "isring ?h 0 ((1 + n) # rev [1..<1 + n])" by (simp del: upt_Suc add: listed_def rlnode_new_init)
  moreover have "(1 + n) # rev [1..<1 + n] = rev [1..<1 + Suc n]" by simp
  ultimately have r: "isring ?h 0 (rev [1..<1 + Suc n])" by simp
  have "push_new_front n h1 = Some ?h" by (simp add: push_new_front_def)
  then show ?case using h1(1) r by (simp del: upt_Suc add: upt_Suc_append for_each_append)
qed

text \<open>The test of the queue does not notice that \<open>rlist_pop_back\<close> empties the list.\<close>

lemma queue_passes: "test_list_queue h \<noteq> None"
proof -
  obtain h1 where h1: "for_each push_new_front [0..<10] (rlnode_new 0 h) = Some h1" "isring h1 0 (rev [1..<1 + 10])"
    using push_fronts by blast
  have e: "rev [1..<1 + 10] = [10, 9, 8, 7, 6, 5, 4, 3, 2, 1 :: nat]" "[0..<10] = [0, 1, 2, 3, 4, 5, 6, 7, 8, 9 :: nat]"
    by code_simp+
  have r: "isring h1 0 ([10, 9, 8, 7, 6, 5, 4, 3, 2] @ [1])" using h1(2) unfolding e by simp
  have p: "for_each (check_prev h1) [0, 1, 2, 3, 4, 5, 6, 7, 8, 9] (prv h1 0) = Some 0"
    using r by (simp add: isring_def check_prev_def)
  define h2 where "h2 = snd (rlist_pop_back 0 h1)"
  have pop: "rlist_pop_back 0 h1 = (1, h2)" "isring h2 0 []"
    using pop_back_list(1,2) [OF r] by (simp_all add: h2_def prod_eq_iff)
  have ne: "\<not> is_rlist_empty 0 h1" using is_rlist_empty_iff [OF r] by simp
  have em: "is_rlist_empty 0 h2" using is_rlist_empty_iff [OF pop(2)] by simp
  have "drain_queue 1 h1 = Some h2"
    using ne pop(1) em by (simp add: drain_queue.simps)
  moreover have "rlist_pop_back 0 h2 = (0, h2)"
    using isring_prv [OF pop(2)] by (simp add: rlist_pop_back_def splice_same)
  ultimately show ?thesis using h1(1) p em unfolding test_list_queue_def e(2) by (simp del: for_each.simps)
qed


lemma check_elems_ring:
  "dseg h x xs 0 \<Longrightarrow> 0 \<notin> set xs \<Longrightarrow> map (obj h) xs = map KElem [i..<i + length xs] \<Longrightarrow>
   check_elems (nxt h x) i h = Some ()"
proof (induction xs arbitrary: x i)
  case Nil
  then show ?case by (simp add: check_elems.simps)
next
  case (Cons y ys)
  have "[i..<i + length (y # ys)] = i # [i + 1..<i + 1 + length ys]" by (subst upt_conv_Cons) simp_all
  then have k: "obj h y = KElem i" "map (obj h) ys = map KElem [i + 1..<i + 1 + length ys]"
    using Cons.prems(3) by (simp_all del: upt_Suc)
  have "check_elems (nxt h y) (i + 1) h = Some ()"
    by (rule Cons.IH) (use Cons.prems(1,2) k(2) in \<open>simp_all del: upt_Suc\<close>)
  then show ?case using Cons.prems(1,2) k(1) by (subst check_elems.simps) simp
qed

lemma length_filter_map: "length (filter P xs) = length (filter (\<lambda>b. b) (map P xs))"
  by (induction xs) simp_all

lemma select_passes: "test_list_select h \<noteq> None"
proof -
  let ?h0 = "rlnode_new 0 h"
  have 0: "listed ?h0 0 [] []" by (simp add: rlnode_new_init init_listed)
  obtain h1 where h1: "build_list 0 1 (1 + 9) 0 ?h0 = Some h1" "listed h1 0 [1..<1 + 9] (map KElem [0..<0 + 9])"
    using build_list_listed [OF 0, of 1 9 0] by auto
  let ?h2 = "rlnode_new 10 h1"
  have r1: "isring h1 0 [1..<1 + 9]" and k1: "map (obj h1) [1..<1 + 9] = map KElem [0..<0 + 9]"
    using h1(2) by (simp_all only: listed_def)
  have "dseg h1 0 [1..<1 + 9] 0" using r1 by (simp only: isring_def)
  then have c: "check_elems (nxt h1 0) 0 h1 = Some ()"
    by (rule check_elems_ring) (use k1 in \<open>simp_all del: upt_Suc\<close>)
  have r2: "isring ?h2 0 [1..<1 + 9]" "isring ?h2 10 []" "(10 :: nat) \<notin> set (0 # [1..<1 + 9])"
    using init_keeps [OF r1] by (simp_all add: rlnode_new_init init_list)
  obtain h3 where h3: "rlist_select 0 10 (gt5 ?h2) ?h2 = Some h3"
    "isring h3 0 (filter (\<lambda>n. \<not> gt5 ?h2 n) [1..<1 + 9])" "isring h3 10 (filter (gt5 ?h2) [1..<1 + 9])"
    by (rule rlist_select_ring [OF r2]) simp
  have o: "obj ?h2 = obj h1" by (simp add: rlnode_new_init)
  have "[1..<1 + 9] = [1, 2, 3, 4, 5, 6, 7, 8, 9 :: nat]" "[0..<0 + 9] = [0, 1, 2, 3, 4, 5, 6, 7, 8 :: nat]" by code_simp+
  then have "map (gt5 ?h2) [1..<1 + 9] = [False, False, True, True, True, False, False, True, False]"
    using k1 by (simp add: gt5_def o short_data_def)
  then have n: "length (filter (gt5 ?h2) [1..<1 + 9]) = 4" by (simp add: length_filter_map)
  then have m: "length (filter (\<lambda>n. \<not> gt5 ?h2 n) [1..<1 + 9]) = 5"
    using sum_length_filter_compl [of "gt5 ?h2" "[1..<1 + 9]"] by simp
  have "rlist_len 10 h3 = Some 4" "rlist_len 0 h3 = Some 5"
    using rlist_len_ring [OF h3(3)] rlist_len_ring [OF h3(2)] by (simp_all only: n m of_nat_numeral)
  moreover have "rlist_len 0 ?h0 = Some 0" using listed_len [OF 0] by simp
  moreover have "rlist_len 0 h1 = Some 9" using listed_len [OF h1(2)] by simp
  ultimately show ?thesis unfolding test_list_select_def Let_def using h1(1) c h3(1) by simp
qed

lemma keys_eq: "map (\<lambda>c. KNum (of_char c)) xs = map (\<lambda>c. KNum (of_char c)) ys \<longleftrightarrow> xs = ys"
  by (rule inj_map_eq_map) (simp add: inj_on_def)

lemma Data_length: "length d < 2 ^ 32" if "d \<in> set Data"
  using that by (auto simp: Data_def)

lemma equal_pair_passes:
  assumes "i < 5" and "j < 5" and "1 < a"
  shows "\<exists>a' h'. equal_pair (i, j) (a, h) = Some (a', h') \<and> 1 < a'"
proof -
  have n: "length Data = 5" "distinct Data" by (simp_all add: Data_def)
  have l: "length (Data ! i) < 2 ^ 32" "length (Data ! j) < 2 ^ 32"
    using Data_length [OF nth_mem] assms(1,2) n(1) by simp_all
  have a: "0 < a" "1 < a + length (Data ! i)" using assms(3) by simp_all
  obtain h1 where h1: "make_list 0 (Data ! i) (a, h) = Some (a + length (Data ! i), h1)"
    "listed h1 0 [a..<a + length (Data ! i)] (map (\<lambda>c. KNum (of_char c)) (Data ! i))"
    by (rule make_list_listed [OF a(1) l(1)])
  obtain h2 where h2: "make_list 1 (Data ! j) (a + length (Data ! i), h1) = Some (a + length (Data ! i) + length (Data ! j), h2)"
    "listed h2 1 [a + length (Data ! i)..<a + length (Data ! i) + length (Data ! j)] (map (\<lambda>c. KNum (of_char c)) (Data ! j))"
    "\<And>z zs js. listed h1 z zs js \<Longrightarrow> 1 \<notin> set (z # zs) \<Longrightarrow> \<forall>b \<in> set (z # zs). b < a + length (Data ! i) \<Longrightarrow> listed h2 z zs js"
    by (rule make_list_listed [OF a(2) l(2)]) blast
  have "listed h2 0 [a..<a + length (Data ! i)] (map (\<lambda>c. KNum (of_char c)) (Data ! i))"
    by (rule h2(3) [OF h1(2)]) (use assms(3) in auto)
  from listed_equal [OF this h2(2)] have "rlist_equal 0 1 h2 = Some (Data ! i = Data ! j)" by (simp only: keys_eq)
  moreover have "Data ! i = Data ! j \<longleftrightarrow> i = j" by (rule nth_eq_iff_index_eq [OF n(2)]) (use assms n in simp_all)
  ultimately show ?thesis using h1(1) h2(1) assms(3) by (simp add: equal_pair_def)
qed

lemma equal_passes: "test_list_equal h \<noteq> None"
proof -
  have "\<exists>s. for_each equal_pair ijs (a, h) = Some s" if "\<forall>(i, j) \<in> set ijs. i < 5 \<and> j < 5" "1 < a" for ijs a h
    using that
  proof (induction ijs arbitrary: a h)
    case (Cons ij ijs)
    obtain i j where ij: "ij = (i, j)" by fastforce
    obtain a' h' where "equal_pair (i, j) (a, h) = Some (a', h')" "1 < a'"
      using equal_pair_passes [of i j a h] Cons.prems ij by auto
    with Cons ij show ?case by simp
  qed simp
  moreover have "\<forall>(i, j) \<in> set (List.product [0..<5] [0..<5]). i < (5::nat) \<and> j < (5::nat)" by auto
  ultimately obtain s where "for_each equal_pair (List.product [0..<5] [0..<5]) (2, h) = Some s"
    by (metis one_less_numeral_iff semiring_norm(76))
  then show ?thesis by (simp add: test_list_equal_def del: for_each.simps)
qed

lemma append_keeps:
  assumes z: "isring h z zs" and d: "isring h ld xs" and s: "isring h ls ys" and ne: "ls \<notin> set (ld # xs)"
    and n: "ld \<notin> set (z # zs)" "ls \<notin> set (z # zs)"
  shows "isring (rlist_append ld ls h) z zs" and "isring (rlist_prepend ld ls h) z zs"
proof -
  have 1: "isring (rlist_push_back ld ls h) ls (ld # xs @ ys)"
    using push_back_list [OF d s ne] isring_rotate [of "rlist_push_back ld ls h" ld "xs @ ys" ls "[]"] by simp
  show "isring (rlist_append ld ls h) z zs" unfolding rlist_append_def
    by (rule remove_keeps [OF push_keeps(2) [OF z d s n] 1 n(2)])
  have 2: "isring (rlist_push_front ld ls h) ls (xs @ ld # ys)"
    using push_front_list [OF d s ne] isring_rotate [of "rlist_push_front ld ls h" ld ys ls xs] by simp
  show "isring (rlist_prepend ld ls h) z zs" unfolding rlist_prepend_def
    by (rule remove_keeps [OF push_keeps(1) [OF z d s n] 2 n(2)])
qed


text \<open>The same for lists with their keys.\<close>

lemma append_listed:
  assumes d: "listed h ld xs js" and s: "listed h ls ys ks" and ne: "ls \<notin> set (ld # xs)"
  shows "listed (rlist_append ld ls h) ld (xs @ ys) (js @ ks)" and "listed (rlist_append ld ls h) ls [] []"
    and "listed (rlist_prepend ld ls h) ld (ys @ xs) (ks @ js)" and "listed (rlist_prepend ld ls h) ls [] []"
    and "listed h z zs is \<Longrightarrow> ld \<notin> set (z # zs) \<Longrightarrow> ls \<notin> set (z # zs) \<Longrightarrow>
      listed (rlist_append ld ls h) z zs is \<and> listed (rlist_prepend ld ls h) z zs is"
proof -
  have r: "isring h ld xs" "isring h ls ys" using d s by (simp_all add: listed_def)
  have o: "obj (rlist_prepend ld ls h) = obj h" by (simp add: rlist_prepend_def)
  show "listed (rlist_append ld ls h) ld (xs @ ys) (js @ ks)" and "listed (rlist_append ld ls h) ls [] []"
    "listed (rlist_prepend ld ls h) ld (ys @ xs) (ks @ js)" "listed (rlist_prepend ld ls h) ls [] []"
    using append_list [OF r ne] prepend_list [OF r ne] d s by (auto simp: listed_def o)
  show "listed (rlist_append ld ls h) z zs is \<and> listed (rlist_prepend ld ls h) z zs is"
    if "listed h z zs is" "ld \<notin> set (z # zs)" "ls \<notin> set (z # zs)"
    using append_keeps [OF _ r ne that(2,3)] that(1) by (simp add: listed_def o)
qed

lemma empty_listed: "listed h z zs ks \<Longrightarrow> is_rlist_empty z h \<longleftrightarrow> zs = []"
  by (simp add: listed_def is_rlist_empty_iff)

lemma append_passes: "test_list_append h \<noteq> None"
proof -
  obtain h1 where h1: "make_list 0 ''Hello '' (3, h) = Some (3 + length ''Hello '', h1)"
    "listed h1 0 [3..<3 + length ''Hello ''] (map (\<lambda>c. KNum (of_char c)) ''Hello '')"
    by (rule make_list_listed [of 0 3 "''Hello ''" h]) simp_all
  obtain h2 where h2: "make_list 1 ''world'' (9, h1) = Some (9 + length ''world'', h2)"
    "listed h2 1 [9..<9 + length ''world''] (map (\<lambda>c. KNum (of_char c)) ''world'')"
    "\<And>z zs js. listed h1 z zs js \<Longrightarrow> 1 \<notin> set (z # zs) \<Longrightarrow> \<forall>b \<in> set (z # zs). b < 9 \<Longrightarrow> listed h2 z zs js"
    by (rule make_list_listed [of 1 9 "''world''" h1]) (simp, simp, blast)
  have 2: "listed h2 0 [3..<9] (map (\<lambda>c. KNum (of_char c)) ''Hello '')" by (rule h2(3)) (use h1(2) in auto)
  let ?h3 = "rlnode_init 2 KNull h2"
  have 3: "listed ?h3 2 [] []" "listed ?h3 0 [3..<9] (map (\<lambda>c. KNum (of_char c)) ''Hello '')"
    "listed ?h3 1 [9..<14] (map (\<lambda>c. KNum (of_char c)) ''world'')"
    using init_listed init_listed_keeps [OF 2] init_listed_keeps [OF h2(2)] by (simp_all del: upt_Suc)
  let ?h4 = "rlist_append 2 0 ?h3"
  have 4: "listed ?h4 2 [3..<9] (map (\<lambda>c. KNum (of_char c)) ''Hello '')"
    "listed ?h4 1 [9..<14] (map (\<lambda>c. KNum (of_char c)) ''world'')"
    using append_listed(1) [OF 3(1,2)] append_listed(5) [OF 3(1,2) _ 3(3)] by (simp_all del: upt_Suc)
  let ?h5 = "rlist_append 2 1 ?h4"
  have 5: "listed ?h5 2 ([3..<9] @ [9..<14]) (map (\<lambda>c. KNum (of_char c)) ''Hello world'')"
    using append_listed(1) [OF 4] by (simp del: upt_Suc)
  obtain h6 where h6: "make_list 0 ''Hello world'' (14, ?h5) = Some (14 + length ''Hello world'', h6)"
    "listed h6 0 [14..<14 + length ''Hello world''] (map (\<lambda>c. KNum (of_char c)) ''Hello world'')"
    "\<And>z zs js. listed ?h5 z zs js \<Longrightarrow> 0 \<notin> set (z # zs) \<Longrightarrow> \<forall>b \<in> set (z # zs). b < 14 \<Longrightarrow> listed h6 z zs js"
    by (rule make_list_listed [of 0 14 "''Hello world''" ?h5]) (simp, simp, blast)
  have "listed h6 2 ([3..<9] @ [9..<14]) (map (\<lambda>c. KNum (of_char c)) ''Hello world'')" by (rule h6(3) [OF 5]) auto
  from listed_equal [OF this h6(2)] have "rlist_equal 2 0 h6 = Some True" by simp
  then show ?thesis using h1(1) h2(1) h6(1) by (simp add: test_list_append_def)
qed

text \<open>The three calls of \<open>rlist_prepend\<close> put the lists together.\<close>

lemma prepend_three:
  assumes d: "listed h 0 A ks" and s: "listed h 1 B js" and e: "listed h 2 [] []" and a: "listed h 3 C is"
    and n: "{0, 1, 2, 3} \<inter> (set A \<union> set B \<union> set C) = {}"
  defines "h1 \<equiv> rlist_prepend 1 2 h" and "h2 \<equiv> rlist_prepend 2 1 (rlist_prepend 1 2 h)"
    and "h3 \<equiv> rlist_prepend 2 0 (rlist_prepend 2 1 (rlist_prepend 1 2 h))"
  shows "is_rlist_empty 2 h1" and "is_rlist_empty 1 h2" and "is_rlist_empty 0 h3"
    and "listed h3 2 (A @ B) (ks @ js)" and "listed h3 3 C is"
proof -
  have 1: "listed h1 1 B js" "listed h1 2 [] []" "listed h1 0 A ks" "listed h1 3 C is"
    using append_listed(3,4) [OF s e] append_listed(5) [OF s e _ d] append_listed(5) [OF s e _ a] n by (auto simp: h1_def)
  have h2: "h2 = rlist_prepend 2 1 h1" "h3 = rlist_prepend 2 0 h2" by (simp_all add: h1_def h2_def h3_def)
  have 2: "listed h2 2 B js" "listed h2 1 [] []" "listed h2 0 A ks" "listed h2 3 C is"
    using append_listed(3,4) [OF 1(2,1)] append_listed(5) [OF 1(2,1) _ 1(3)] append_listed(5) [OF 1(2,1) _ 1(4)] n
    by (auto simp: h2(1))
  have 3: "listed h3 2 (A @ B) (ks @ js)" "listed h3 0 [] []" "listed h3 3 C is"
    using append_listed(3,4) [OF 2(1,3)] append_listed(5) [OF 2(1,3) _ 2(4)] n by (auto simp: h2(2))
  show "is_rlist_empty 2 h1" "is_rlist_empty 1 h2" "is_rlist_empty 0 h3"
    using empty_listed [OF 1(2)] empty_listed [OF 2(2)] empty_listed [OF 3(2)] by simp_all
  show "listed h3 2 (A @ B) (ks @ js)" "listed h3 3 C is" using 3 by simp_all
qed

lemma prepend_passes: "test_list_prepend h \<noteq> None"
proof -
  let ?h0 = "rlnode_init 3 KNull (rlnode_init 2 KNull (rlnode_init 1 KNull (rlnode_init 0 KNull h)))"
  have 0: "listed ?h0 0 [] []" "listed ?h0 1 [] []" "listed ?h0 2 [] []" "listed ?h0 3 [] []"
    by (simp_all add: init_listed init_listed_keeps)
  obtain h1 where h1: "build_list 0 4 (4 + 5) 0 ?h0 = Some h1" "listed h1 0 ([] @ [4..<4 + 5]) ([] @ map KElem [0..<0 + 5])"
    "\<forall>z zs js. listed ?h0 z zs js \<longrightarrow> 0 \<notin> set (z # zs) \<longrightarrow> (\<forall>b \<in> set (z # zs). b < 4 \<or> 4 + 5 \<le> b) \<longrightarrow> listed h1 z zs js"
    using build_list_listed [OF 0(1), of 4 5 0] by force
  have 1: "listed h1 1 [] []" "listed h1 2 [] []" "listed h1 3 [] []" using h1(3) 0 by simp_all
  obtain h2 where h2: "build_list 1 9 (9 + 4) 5 h1 = Some h2" "listed h2 1 ([] @ [9..<9 + 4]) ([] @ map KElem [5..<5 + 4])"
    "\<forall>z zs js. listed h1 z zs js \<longrightarrow> 1 \<notin> set (z # zs) \<longrightarrow> (\<forall>b \<in> set (z # zs). b < 9 \<or> 9 + 4 \<le> b) \<longrightarrow> listed h2 z zs js"
    using build_list_listed [OF 1(1), of 9 4 5] by force
  have 2: "listed h2 2 [] []" "listed h2 3 [] []" "listed h2 0 ([] @ [4..<4 + 5]) ([] @ map KElem [0..<0 + 5])"
    using h2(3) 1 h1(2) by (simp_all del: upt_Suc)
  obtain h3 where h3: "build_list 3 13 (13 + 9) 0 h2 = Some h3" "listed h3 3 ([] @ [13..<13 + 9]) ([] @ map KElem [0..<0 + 9])"
    "\<forall>z zs js. listed h2 z zs js \<longrightarrow> 3 \<notin> set (z # zs) \<longrightarrow> (\<forall>b \<in> set (z # zs). b < 13 \<or> 13 + 9 \<le> b) \<longrightarrow> listed h3 z zs js"
    using build_list_listed [OF 2(2), of 13 9 0] by force
  have 3: "listed h3 0 ([] @ [4..<4 + 5]) ([] @ map KElem [0..<0 + 5])" "listed h3 1 ([] @ [9..<9 + 4]) ([] @ map KElem [5..<5 + 4])"
    "listed h3 2 [] []" using h3(3) 2 h2(2) by (simp_all del: upt_Suc)
  note p = prepend_three [OF 3 h3(2)]
  have d: "{0, 1, 2, 3} \<inter> (set ([] @ [4..<4 + 5]) \<union> set ([] @ [9..<9 + 4]) \<union> set ([] @ [13..<13 + 9])) = {}" by auto
  note p = p [OF d]
  have "rlist_len 2 (rlist_prepend 2 0 (rlist_prepend 2 1 (rlist_prepend 1 2 h3))) = Some 9" using listed_len [OF p(4)] by simp
  moreover have "map KElem [0..<0 + 5] @ map KElem [5..<5 + 4] = map KElem [0..<0 + 9]" by code_simp
  then have "rlist_equal 2 3 (rlist_prepend 2 0 (rlist_prepend 2 1 (rlist_prepend 1 2 h3))) = Some True"
    using listed_equal [OF p(4,5)] by (simp del: upt_Suc)
  ultimately show ?thesis
    unfolding test_list_prepend_def Let_def using h1(1) h2(1) h3(1) p(1-3) by simp
qed

lemma argv_passes:
  assumes "c_strings argv" and "length (packed argv) < 2 ^ 31"
  shows "test_argv fill argv = Some ()"
proof -
  have n: "sint (ucast (argvlen argv) :: cint) = int (length (packed argv))"
  proof -
    have "take_bit 64 (length (packed argv)) = length (packed argv)" using assms(2) by (intro take_bit_nat_eq_self) simp
    then have "(ucast (argvlen argv) :: cint) = of_nat (length (packed argv))"
      by (simp add: argvlen_packed unsigned_of_nat)
    moreover have "signed_take_bit 31 (int (length (packed argv))) = int (length (packed argv))"
      using assms(2) by (simp add: signed_take_bit_int_eq_self)
    ultimately show ?thesis by (simp add: signed_of_nat)
  qed
  have l: "length (map fill [0..<length (packed argv)]) = unat (argvlen argv)"
    using assms(2) by (simp add: argvlen_packed unat_of_nat)
  obtain args ps where p: "argvpack (map fill [0..<length (packed argv)]) 0 argv = Inr (argvlen argv, args)"
    "length args = length (packed argv)" "argscount (int (length args)) args = Inr (of_nat (length argv))"
    "argvunpack (length argv) args 0 = Inr (ps, length args)" "map (c_string args) ps = argv"
    using pack_unpack_round_trip [OF assms l] by auto
  have "argv ! i = c_string args (ps ! i)" if "i < length argv" for i
    using p(5) that by (metis length_map nth_map)
  then show ?thesis using p by (simp add: test_argv_def n of_result_def)
qed

lemma pack_unpack_passes: "test_pack_unpack fill = Some ()"
proof -
  have "test_argv fill argv = Some ()"
    if "argv \<in> {[ascii ''Hello'', ascii ''Goodbye''], [], [ascii ''Goodbye''], [ascii '''', ascii ''''], [ascii '''']}" for argv
    by (rule argv_passes) (use that in \<open>auto simp: c_strings_def ascii_def\<close>)
  moreover have "argvlen [ascii ''Hello'', ascii ''Goodbye''] = 14" "argvlen [] = 0" "argvlen [ascii ''Goodbye''] = 8"
    "argvlen [ascii '''', ascii ''''] = 2" "argvlen [ascii ''''] = 1" by (simp_all add: argvlen_def ascii_def)
  ultimately show ?thesis by (simp add: test_pack_unpack_def)
qed

text \<open>
  The unit tests of the repository for the resource lists and for the argument vectors pass,
  whatever is in the memory that they use before: no \<open>ASSERT\<close> of them fails and every loop in
  them ends.
\<close>

theorem list_and_argv_tests_pass:
  "test_list_init h \<noteq> None \<and> test_list_len h \<noteq> None \<and> test_list_queue h \<noteq> None \<and> test_list_select h \<noteq> None \<and>
   test_list_equal h \<noteq> None \<and> test_list_prepend h \<noteq> None \<and> test_list_append h \<noteq> None \<and> test_pack_unpack fill = Some ()"
  by (simp only: init_passes len_passes queue_passes select_passes equal_passes prepend_passes append_passes
      pack_unpack_passes not_False_eq_True simp_thms)

end
