(* ===== verification/Exc_Tests.thy ===== *)
theory Exc_Tests
  imports Exceptions_Props
begin

text \<open>
  The unit tests of src/test_util.c for the exception library, as programs of the model.  A
  test passes when it runs to its end without failing an \<open>ASSERT\<close>.  The state of a program is
  made of the variables of the test.
\<close>

section \<open>Bodies and catchers\<close>

text \<open>These tests have one variable, \<open>count\<close>.\<close>

definition set_count :: "int \<Rightarrow> int stmt" where
  "set_count n = Do (\<lambda>e count. Some n)"

definition inc_count :: "int stmt" where
  "inc_count = Do (\<lambda>e count. Some (count + 1))"

definition check :: "(int \<Rightarrow> int \<Rightarrow> bool) \<Rightarrow> int stmt" where
  "check p = Do (\<lambda>e count. if p e count then Some count else None)"

definition test_exc_empty_body :: "int stmt list" where
  "test_exc_empty_body =
    [set_count 0,
     TRY [],
     TRY [FINALLY 0 [check (\<lambda>e count. e = 0), check (\<lambda>e count. count = 0), inc_count],
          ON_ERROR 1 [check (\<lambda>e count. False)]],
     check (\<lambda>e count. count = 1),
     set_count 0,
     TRY [FINALLY 2 [inc_count, check (\<lambda>e count. count = 2)],
          FINALLY 3 [inc_count, check (\<lambda>e count. count = 1)]],
     check (\<lambda>e count. count = 2),
     set_count 10,
     TRY [FINALLY 4 [TRY [FINALLY 5 [inc_count]], inc_count],
          check (\<lambda>e count. count = 10)],
     check (\<lambda>e count. count = 12)]"

definition test_exc_catcher_match :: "int stmt list" where
  "test_exc_catcher_match =
    [set_count 0,
     TRY [ON_ERROR 0 [inc_count], ON_ERROR 1 [inc_count], RAISE],
     check (\<lambda>e count. count = 2),
     set_count 0,
     TRY [RAISE, ON_ERROR 2 [check (\<lambda>e count. False)], ON_ERROR 3 [check (\<lambda>e count. False)]],
     check (\<lambda>e count. count = 0),
     set_count 0,
     TRY [ON_ERROR 4 [inc_count], RAISE, ON_ERROR 5 [check (\<lambda>e count. False)]],
     check (\<lambda>e count. count = 1)]"

section \<open>Unwinding through functions\<close>

text \<open>\<open>count\<close> is the variable of \<open>__bar\<close>, which returns it.\<close>

definition foo2 :: "int stmt list" where
  "foo2 = [RAISE]"

definition foo :: "int stmt list" where
  "foo = [TRY ([FINALLY 0 [inc_count]] @ foo2 @ [check (\<lambda>e count. False)])]"

definition bar :: "int stmt list" where
  "bar =
    [set_count 0,
     CONTEXT (\<lambda>active. active),
     TRY ([ON_ERROR 1 [check (\<lambda>e count. count = 1), inc_count]] @ foo),
     check (\<lambda>e count. count = 2)]"

definition test_exc_unwind :: "int stmt list" where
  "test_exc_unwind =
    [TRY ([ON_ERROR 2 [check (\<lambda>e count. False)]] @ bar @ [check (\<lambda>e ret. ret = 2)]),
     CONTEXT (\<lambda>active. \<not> active)]"

section \<open>Exceptions in a loop\<close>

text \<open>The variables are \<open>sum\<close> and \<open>sum2\<close>; what the tests print, the time it took, is left out.\<close>

type_synonym sums = "int \<times> int"

definition compute_func :: "int \<Rightarrow> sums stmt list" where
  "compute_func m = [RAISE]"

definition inloop_turn :: "int \<Rightarrow> sums stmt" where
  "inloop_turn i = TRY ([FINALLY (nat i) [Do (\<lambda>e (sum, sum2). Some (sum + i, sum2))],
     Do (\<lambda>e (sum, sum2). Some (sum, sum2 + i))] @ compute_func i)"

definition test_exc_inloop :: "int \<Rightarrow> sums stmt list" where
  "test_exc_inloop n = [Do (\<lambda>e s. Some (0, 0))] @ map inloop_turn [1..n] @
     [Do (\<lambda>e (sum, sum2). if sum2 = n * (n + 1) div 2 then Some (sum, sum2) else None)]"

definition compute_func2 :: "int \<Rightarrow> int" where
  "compute_func2 m = m * 3"

definition inloop2_turn :: "int \<Rightarrow> sums stmt" where
  "inloop2_turn i = TRY [Do (\<lambda>e (sum, sum2). Some (sum, sum2 + 3 * i)),
     Do (\<lambda>e (sum, sum2). Some (sum + compute_func2 i, sum2))]"

definition test_exc_inloop2 :: "int \<Rightarrow> sums stmt list" where
  "test_exc_inloop2 n = [Do (\<lambda>e s. Some (0, 0))] @ map inloop2_turn [1..n] @
     [Do (\<lambda>e (sum, sum2). if sum = sum2 then Some (sum, sum2) else None),
      Do (\<lambda>e (sum, sum2). if sum = 3 * n * (n + 1) div 2 then Some (sum, sum2) else None)]"

section \<open>The tests pass\<close>

definition passes :: "'s stmt list \<Rightarrow> 's \<Rightarrow> bool" where
  "passes b s \<longleftrightarrow> (\<exists>c. run (start b s) = Inr c)"

lemmas test_eval = passes_def set_count_def inc_count_def check_def exc_eval

lemma empty_body_passes: "passes test_exc_empty_body s"
  by (simp add: test_exc_empty_body_def test_eval)

lemma catcher_match_passes: "passes test_exc_catcher_match s"
  by (simp add: test_exc_catcher_match_def test_eval)

lemma unwind_passes: "passes test_exc_unwind s"
  by (simp add: test_exc_unwind_def bar_def foo_def foo2_def test_eval)


text \<open>One turn of a loop, in a number of steps.\<close>

fun steps :: "nat \<Rightarrow> 's conf \<Rightarrow> 's conf option" where
  "steps 0 c = Some c"
| "steps (Suc k) c = (case step c of Some (Inr c1) \<Rightarrow> steps k c1 | _ \<Rightarrow> None)"

lemma run_steps: "steps k c = Some c' \<Longrightarrow> run c = run c'"
  by (induction k arbitrary: c) (auto split: option.splits sum.splits dest: run_step)

lemma inloop_run:
  assumes "code c = inloop_turn i # rest" and "frames c = []"
  shows "\<exists>c'. run c = run c' \<and> code c' = rest \<and> frames c' = [] \<and>
    prog_state c' = (fst (prog_state c) + i, snd (prog_state c) + i)"
proof -
  have "\<exists>c'. steps 7 c = Some c' \<and> code c' = rest \<and> frames c' = [] \<and>
    prog_state c' = (fst (prog_state c) + i, snd (prog_state c) + i)"
    using assms by (cases c) (simp add: eval_nat_numeral inloop_turn_def compute_func_def exc_eval split: prod.split)
  then show ?thesis using run_steps by blast
qed

lemma inloop2_run:
  assumes "code c = inloop2_turn i # rest" and "frames c = []"
  shows "\<exists>c'. run c = run c' \<and> code c' = rest \<and> frames c' = [] \<and>
    prog_state c' = (fst (prog_state c) + 3 * i, snd (prog_state c) + 3 * i)"
proof -
  have "\<exists>c'. steps 5 c = Some c' \<and> code c' = rest \<and> frames c' = [] \<and>
    prog_state c' = (fst (prog_state c) + 3 * i, snd (prog_state c) + 3 * i)"
    using assms by (cases c) (simp add: eval_nat_numeral inloop2_turn_def compute_func2_def exc_eval split: prod.split)
  then show ?thesis using run_steps by blast
qed

lemma loop_run:
  assumes turn: "\<And>c i rest. code c = f i # rest \<Longrightarrow> frames c = [] \<Longrightarrow> \<exists>c'. run c = run c' \<and> code c' = rest \<and>
      frames c' = [] \<and> prog_state c' = (fst (prog_state c) + g i, snd (prog_state c) + (g i :: int))"
    and c: "code c = map f is @ rest" "frames c = []"
  shows "\<exists>c'. run c = run c' \<and> code c' = rest \<and> frames c' = [] \<and>
    prog_state c' = (fst (prog_state c) + sum_list (map g is), snd (prog_state c) + sum_list (map g is))"
  using c
proof (induction "is" arbitrary: c)
  case (Cons i js)
  obtain c1 where c1: "run c = run c1" "code c1 = map f js @ rest" "frames c1 = []"
    "prog_state c1 = (fst (prog_state c) + g i, snd (prog_state c) + g i)"
    using turn [of c i "map f js @ rest"] Cons.prems by auto
  from Cons.IH [OF c1(2,3)] c1(1,4) show ?case by (auto simp: add.assoc)
qed auto

lemma sum_upto: "0 \<le> n \<Longrightarrow> 2 * sum_list [1..n] = n * (n + 1)"
proof (induction n rule: int_ge_induct)
  case (step i)
  have "[1..i + 1] = [1..i] @ [i + 1]" using step.hyps by (simp add: upto_rec2)
  then show ?case using step.IH by (simp add: algebra_simps)
qed simp

lemma inloop_passes:
  assumes "0 \<le> n" shows "passes (test_exc_inloop n) s"
proof -
  let ?last = "[Do (\<lambda>e (sum, sum2). if sum2 = n * (n + 1) div 2 then Some (sum, sum2) else None)] :: sums stmt list"
  let ?c = "(start (map inloop_turn [1..n] @ ?last) (0, 0)) :: sums conf"
  have "sum_list [1..n] = n * (n + 1) div 2" using sum_upto [OF assms] by simp
  then obtain c' where c': "run ?c = run c'" "code c' = ?last" "frames c' = []"
    "prog_state c' = (n * (n + 1) div 2, n * (n + 1) div 2)"
    using loop_run [of inloop_turn "\<lambda>i. i" ?c "[1..n]" ?last, OF inloop_run] by (auto simp: start_def)
  have "run (start (test_exc_inloop n) s) = run ?c"
    by (rule run_step) (simp add: test_exc_inloop_def step_def start_def Let_def)
  moreover have "\<exists>d. run c' = Inr d" using c'(2-4) by (simp add: run.simps step_def Let_def)
  ultimately show ?thesis using c'(1) by (simp add: passes_def)
qed

lemma inloop2_passes:
  assumes "0 \<le> n" shows "passes (test_exc_inloop2 n) s"
proof -
  let ?last = "[Do (\<lambda>e (sum, sum2). if sum = sum2 then Some (sum, sum2) else None),
      Do (\<lambda>e (sum, sum2). if sum = 3 * n * (n + 1) div 2 then Some (sum, sum2) else None)] :: sums stmt list"
  let ?c = "(start (map inloop2_turn [1..n] @ ?last) (0, 0)) :: sums conf"
  have "2 * sum_list (map (\<lambda>i. 3 * i) [1..n]) = 3 * n * (n + 1)"
    using sum_upto [OF assms] sum_list_const_mult [of 3 "\<lambda>i. i" "[1..n]"] by simp
  then have "sum_list (map (\<lambda>i. 3 * i) [1..n]) = 3 * n * (n + 1) div 2" by presburger
  then obtain c' where c': "run ?c = run c'" "code c' = ?last" "frames c' = []"
    "prog_state c' = (3 * n * (n + 1) div 2, 3 * n * (n + 1) div 2)"
    using loop_run [of inloop2_turn "\<lambda>i. 3 * i" ?c "[1..n]" ?last, OF inloop2_run] by (auto simp: start_def)
  have "run (start (test_exc_inloop2 n) s) = run ?c"
    by (rule run_step) (simp add: test_exc_inloop2_def step_def start_def Let_def)
  moreover have "\<exists>d. run c' = Inr d" using c'(2-4) by (simp add: run.simps step_def Let_def)
  ultimately show ?thesis using c'(1) by (simp add: passes_def)
qed

text \<open>
  The unit tests of the repository for the exception library pass: the handlers run in the
  order and with the error code that the tests expect, a raise unwinds through the functions that
  are left, and the ten million turns of the loops, of which each raises an exception in its own
  block or none, leave nothing on the exception stack.
\<close>

theorem exception_tests_pass:
  "passes test_exc_empty_body s \<and> passes test_exc_catcher_match s \<and> passes test_exc_unwind s \<and>
   passes (test_exc_inloop 10000000) t \<and> passes (test_exc_inloop2 10000000) t"
  using empty_body_passes catcher_match_passes unwind_passes inloop_passes inloop2_passes by simp

end
