(* ===== verification/Api_Tests.thy ===== *)
theory Api_Tests
  imports Syscalls
begin

text \<open>
  Tests of src/validate_api.c, as programs that make system calls on core \<open>c\<close>: those that run
  in the thread of the first process alone, with the calls on streams and the calls that the
  kernel does not implement.  The state of a test is whether every \<open>ASSERT\<close> so far was true
  (src/unit_testing.h: a false one marks the test as failed and goes on) and the kernel.  There
  is no other thread that could end a wait, so a call that blocks never returns.
\<close>

section \<open>Running a test\<close>

type_synonym run = "bool \<times> kernel"

definition assert_that :: "bool \<Rightarrow> run \<Rightarrow> run" where
  "assert_that b r = (fst r \<and> b, snd r)"

text \<open>The standard \<open>assert\<close>.\<close>

definition require :: "bool \<Rightarrow> (run \<Rightarrow> run result) \<Rightarrow> run \<Rightarrow> run result" where
  "require b k r = (if b then k r else Inl AssertFail)"

definition invoke :: "(kernel \<Rightarrow> ('a call \<times> kernel) result) \<Rightarrow> ('a \<Rightarrow> run \<Rightarrow> run result) \<Rightarrow> run \<Rightarrow> run result" where
  "invoke f k r = rbind (f (snd r)) (\<lambda>(v, s). case v of Return x \<Rightarrow> k x (fst r, s) | Block cv \<Rightarrow> Inl Diverges)"

text \<open>\<open>ASSERT\<close> of what a call returns.\<close>

definition check :: "(kernel \<Rightarrow> ('a call \<times> kernel) result) \<Rightarrow> ('a \<Rightarrow> bool) \<Rightarrow> run \<Rightarrow> run result" where
  "check f P = invoke f (\<lambda>x r. Inr (assert_that (P x) r))"

definition ignore :: "(kernel \<Rightarrow> ('a call \<times> kernel) result) \<Rightarrow> run \<Rightarrow> run result" where
  "ignore f = invoke f (\<lambda>x r. Inr r)"

text \<open>A read or a write that the device never answers blocks.\<close>

definition io :: "(kernel \<Rightarrow> ((int \<times> byte list) call \<times> kernel) option result) \<Rightarrow> kernel \<Rightarrow> ((int \<times> byte list) call \<times> kernel) result" where
  "io f s = rbind (f s) (\<lambda>r. case r of None \<Rightarrow> Inl Diverges | Some x \<Rightarrow> Inr x)"

fun in_order :: "(run \<Rightarrow> run result) list \<Rightarrow> run \<Rightarrow> run result" where
  "in_order [] r = Inr r"
| "in_order (f # fs) r = rbind (f r) (in_order fs)"

text \<open>What is in a buffer after a call stored bytes into it.\<close>

definition stored :: "byte list \<Rightarrow> byte list \<Rightarrow> byte list" where
  "stored bytes buf = bytes @ drop (length bytes) buf"

definition chars :: "string \<Rightarrow> byte list" where
  "chars s = map of_char s"

section \<open>Processes\<close>

definition test_pid_of_init_is_one :: "nat \<Rightarrow> run \<Rightarrow> run result" where
  "test_pid_of_init_is_one c = check (GetPid c) (\<lambda>p. p = 1)"

text \<open>The local function of \<open>test_waitchild_error_on_invalid_pid\<close>.\<close>

definition waitchild_error :: "nat \<Rightarrow> run \<Rightarrow> run result" where
  "waitchild_error c = in_order
     [invoke (GetPid c) (\<lambda>p. check (WaitChild c p False) (\<lambda>r. fst r = NOPROC)),
      check (WaitChild c (int MAX_PROC) False) (\<lambda>r. fst r = NOPROC),
      invoke (GetPid c) (\<lambda>p. check (WaitChild c (p + 1) False) (\<lambda>r. fst r = NOPROC))]"

section \<open>Streams\<close>

definition test_get_terminals :: "nat \<Rightarrow> run \<Rightarrow> run result" where
  "test_get_terminals c r = check (GetTerminalDevices c) (\<lambda>n. bios_serial_ports (snd r) = n) r"

definition test_dup2_error_on_nonfile :: "nat \<Rightarrow> run \<Rightarrow> run result" where
  "test_dup2_error_on_nonfile c =
     in_order (map (\<lambda>fid. check (Dup2 c (int fid) (int MAX_FILEID - 1 - int fid)) (\<lambda>rc. rc = -1)) [0..<MAX_FILEID])"

definition test_dup2_error_on_invalid_fid :: "nat \<Rightarrow> run \<Rightarrow> run result" where
  "test_dup2_error_on_invalid_fid c = in_order
     [check (Dup2 c NOFILE 3) (\<lambda>rc. rc = -1),
      check (Dup2 c (int MAX_FILEID) 3) (\<lambda>rc. rc = -1),
      invoke (OpenNull c) (\<lambda>fid. require (fid \<noteq> NOFILE) (in_order
        [check (Dup2 c fid NOFILE) (\<lambda>rc. rc = -1),
         check (Dup2 c fid (int MAX_FILEID)) (\<lambda>rc. rc = -1)]))]"

text \<open>
  The loops over the terminals.  \<open>left\<close> is the number of elements of the array that are not
  filled yet, \<open>term\<close> those that are.
\<close>

fun open_terms :: "nat \<Rightarrow> nat \<Rightarrow> uint \<Rightarrow> int list \<Rightarrow> (int list \<Rightarrow> run \<Rightarrow> run result) \<Rightarrow> run \<Rightarrow> run result" where
  "open_terms c left i term k = invoke (GetTerminalDevices c) (\<lambda>n.
     if i < n
     then (case left of
             0 \<Rightarrow> (\<lambda>r. Inl BadIndex)
           | Suc l \<Rightarrow> invoke (OpenTerminal c i) (\<lambda>fid r.
               open_terms c l (i + 1) (term @ [fid]) k (assert_that (fid \<noteq> NOFILE) r)))
     else k term)"

fun close_terms :: "nat \<Rightarrow> uint \<Rightarrow> int list \<Rightarrow> run \<Rightarrow> run result" where
  "close_terms c i term = invoke (GetTerminalDevices c) (\<lambda>n.
     if i < n
     then (case term of
             [] \<Rightarrow> (\<lambda>r. Inl BadIndex)
           | fid # rest \<Rightarrow> in_order [check (Close c fid) (\<lambda>rc. rc = 0), close_terms c (i + 1) rest])
     else Inr)"

declare open_terms.simps [simp del] close_terms.simps [simp del]

definition test_open_terminals :: "nat \<Rightarrow> run \<Rightarrow> run result" where
  "test_open_terminals c = open_terms c MAX_TERMINALS 0 [] (\<lambda>term r. Inr r)"

definition test_close_terminals :: "nat \<Rightarrow> run \<Rightarrow> run result" where
  "test_close_terminals c = open_terms c MAX_TERMINALS 0 [] (close_terms c 0)"

definition test_close_error_on_invalid_fid :: "nat \<Rightarrow> run \<Rightarrow> run result" where
  "test_close_error_on_invalid_fid c =
     in_order [check (Close c NOFILE) (\<lambda>rc. rc = -1), check (Close c (int MAX_FILEID)) (\<lambda>rc. rc = -1)]"

definition test_close_success_on_valid_nonfile_fid :: "nat \<Rightarrow> run \<Rightarrow> run result" where
  "test_close_success_on_valid_nonfile_fid c =
     in_order (map (\<lambda>i. check (Close c (int i)) (\<lambda>rc. rc = 0)) [0..<MAX_FILEID])"

text \<open>\<open>env\<close> is what a device would answer, and \<open>buf\<close> what is in an uninitialised buffer.\<close>

definition test_read_error_on_bad_fid :: "dev_env \<Rightarrow> nat \<Rightarrow> run \<Rightarrow> run result" where
  "test_read_error_on_bad_fid env c = check (io (Read c 0 10 env)) (\<lambda>r. fst r = -1)"

definition test_write_error_on_bad_fid :: "byte list \<Rightarrow> dev_env \<Rightarrow> nat \<Rightarrow> run \<Rightarrow> run result" where
  "test_write_error_on_bad_fid buf env c = check (io (Write c 0 buf 10 env)) (\<lambda>r. fst r = -1)"

definition test_null_device :: "dev_env \<Rightarrow> nat \<Rightarrow> run \<Rightarrow> run result" where
  "test_null_device env c =
     (let z = chars ''zavarakatranemia'' @ [0]; z1 = replicate 10 0 @ chars ''anemia'' @ [0]
      in invoke (OpenNull c) (\<lambda>fn r. in_order
           [invoke (io (Read c fn 10 env)) (\<lambda>(rc, bytes) r.
              Inr (assert_that (take 17 (stored bytes z) = take 17 z1) (assert_that (rc = 10) r))),
            check (io (Write c fn [] 123456 env)) (\<lambda>r. fst r = 123456),
            check (Close c fn) (\<lambda>rc. rc = 0)]
           (assert_that (fn \<noteq> -1) r)))"

section \<open>Pipes\<close>

text \<open>
  \<open>Pipe\<close> does not touch its argument, so \<open>rd\<close> and \<open>wr\<close>, the two fields of an
  uninitialised \<open>pipe_t\<close>, are what they were.
\<close>

definition hello :: "byte list" where
  "hello = chars ''Hello world'' @ [0]"

definition write_hello :: "nat \<Rightarrow> int \<Rightarrow> dev_env \<Rightarrow> int \<Rightarrow> run \<Rightarrow> run result" where
  "write_hello c wr env n = check (io (Write c wr hello 12 env)) (\<lambda>r. fst r = n)"

fun read_hello :: "nat \<Rightarrow> nat \<Rightarrow> int \<Rightarrow> dev_env \<Rightarrow> byte list \<Rightarrow> (byte list \<Rightarrow> run \<Rightarrow> run result) \<Rightarrow> run \<Rightarrow> run result" where
  "read_hello 0 c rd env buffer k = k buffer"
| "read_hello (Suc n) c rd env buffer k = invoke (io (Read c rd 12 env)) (\<lambda>(rc, bytes) r.
     let buffer' = stored bytes buffer
     in read_hello n c rd env buffer' k (assert_that (takeWhile (\<lambda>b. b \<noteq> 0) buffer' = chars ''Hello world'')
          (assert_that (rc = 12) r)))"

definition test_pipe_open :: "int \<Rightarrow> int \<Rightarrow> dev_env \<Rightarrow> nat \<Rightarrow> run \<Rightarrow> run result" where
  "test_pipe_open rd wr env c = in_order
     ([check (Pipe c) (\<lambda>rc. rc = 0)] @ replicate 3 (write_hello c wr env 12) @
      [read_hello 3 c rd env (replicate 12 0) (\<lambda>buffer r. Inr r)])"

definition test_pipe_fails_on_exhausted_fid :: "nat \<Rightarrow> run \<Rightarrow> run result" where
  "test_pipe_fails_on_exhausted_fid c = in_order
     (replicate (MAX_FILEID div 2) (check (Pipe c) (\<lambda>rc. rc = 0)) @
      replicate (MAX_FILEID div 2) (check (Pipe c) (\<lambda>rc. rc = -1)))"

definition test_pipe_close_reader :: "int \<Rightarrow> int \<Rightarrow> dev_env \<Rightarrow> nat \<Rightarrow> run \<Rightarrow> run result" where
  "test_pipe_close_reader rd wr env c = in_order
     ([check (Pipe c) (\<lambda>rc. rc = 0)] @ replicate 3 (write_hello c wr env 12) @ [ignore (Close c rd)] @
      replicate 3 (write_hello c wr env (-1)))"

definition test_pipe_close_writer :: "int \<Rightarrow> int \<Rightarrow> dev_env \<Rightarrow> nat \<Rightarrow> run \<Rightarrow> run result" where
  "test_pipe_close_writer rd wr env c = in_order
     ([check (Pipe c) (\<lambda>rc. rc = 0)] @ replicate 3 (write_hello c wr env 12) @
      [read_hello 3 c rd env (replicate 12 0) (\<lambda>buffer. in_order
         ([ignore (Close c wr)] @ replicate 3 (check (io (Read c rd 12 env)) (\<lambda>r. fst r = 0))))])"

section \<open>Sockets\<close>

definition MAX_PORT :: int where "MAX_PORT = 1023"
definition NOPORT :: int where "NOPORT = 0"

definition test_socket_constructor_many_per_port :: "nat \<Rightarrow> run \<Rightarrow> run result" where
  "test_socket_constructor_many_per_port c =
     in_order (replicate MAX_FILEID (check (Socket c 100) (\<lambda>f. f \<noteq> NOFILE)))"

definition test_socket_constructor_out_of_fids :: "nat \<Rightarrow> run \<Rightarrow> run result" where
  "test_socket_constructor_out_of_fids c = in_order
     (replicate MAX_FILEID (check (Socket c 100) (\<lambda>f. f \<noteq> NOFILE)) @
      replicate MAX_FILEID (check (Socket c 100) (\<lambda>f. f = NOFILE)))"

definition test_socket_constructor_illegal_port :: "nat \<Rightarrow> run \<Rightarrow> run result" where
  "test_socket_constructor_illegal_port c = in_order
     [check (Socket c NOPORT) (\<lambda>f. f \<noteq> NOFILE),
      check (Socket c 1) (\<lambda>f. f \<noteq> NOFILE),
      check (Socket c MAX_PORT) (\<lambda>f. f \<noteq> NOFILE),
      check (Socket c (NOPORT - 1)) (\<lambda>f. f = NOFILE),
      check (Socket c (MAX_PORT + 1)) (\<lambda>f. f = NOFILE),
      check (Socket c (MAX_PORT + 10)) (\<lambda>f. f = NOFILE)]"

definition test_listen_success :: "nat \<Rightarrow> run \<Rightarrow> run result" where
  "test_listen_success c = invoke (Socket c 100) (\<lambda>f. check (Listen c f) (\<lambda>rc. rc = 0))"

definition test_listen_fails_on_bad_fid :: "nat \<Rightarrow> run \<Rightarrow> run result" where
  "test_listen_fails_on_bad_fid c = in_order
     [check (Listen c 7) (\<lambda>rc. rc = -1),
      invoke (OpenNull c) (\<lambda>f. check (Listen c f) (\<lambda>rc. rc = -1)),
      check (Listen c NOFILE) (\<lambda>rc. rc = -1),
      check (Listen c (int MAX_FILEID)) (\<lambda>rc. rc = -1)]"

definition test_listen_fails_on_NOPORT :: "nat \<Rightarrow> run \<Rightarrow> run result" where
  "test_listen_fails_on_NOPORT c = invoke (Socket c NOPORT) (\<lambda>f. check (Listen c f) (\<lambda>rc. rc = -1))"

definition test_listen_fails_on_occupied_port :: "nat \<Rightarrow> run \<Rightarrow> run result" where
  "test_listen_fails_on_occupied_port c = invoke (Socket c 100) (\<lambda>f. in_order
     [check (Listen c f) (\<lambda>rc. rc = 0),
      invoke (Socket c 100) (\<lambda>g. check (Listen c g) (\<lambda>rc. rc = -1)),
      ignore (Close c f),
      invoke (Socket c 100) (\<lambda>g. check (Listen c g) (\<lambda>rc. rc = 0))])"

definition test_accept_fails_on_bad_fid :: "nat \<Rightarrow> run \<Rightarrow> run result" where
  "test_accept_fails_on_bad_fid c = in_order
     [check (Accept c 7) (\<lambda>f. f = -1),
      invoke (OpenNull c) (\<lambda>g. check (Accept c g) (\<lambda>f. f = -1)),
      check (Accept c NOFILE) (\<lambda>f. f = -1),
      check (Accept c (int MAX_FILEID)) (\<lambda>f. f = -1)]"

definition test_accept_fails_on_unbound_socket :: "nat \<Rightarrow> run \<Rightarrow> run result" where
  "test_accept_fails_on_unbound_socket c = invoke (Socket c 100) (\<lambda>g. check (Accept c g) (\<lambda>f. f = -1))"

text \<open>The test of \<open>Connect\<close> on bad file ids calls \<open>Accept\<close>, as the one before it does.\<close>

definition test_connect_fails_on_bad_fid :: "nat \<Rightarrow> run \<Rightarrow> run result" where
  "test_connect_fails_on_bad_fid c = in_order
     [check (Accept c 7) (\<lambda>f. f = -1),
      invoke (OpenNull c) (\<lambda>g. check (Accept c g) (\<lambda>f. f = -1)),
      check (Accept c NOFILE) (\<lambda>f. f = -1),
      check (Accept c (int MAX_FILEID)) (\<lambda>f. f = -1)]"

definition test_connect_fails_on_illegal_port :: "nat \<Rightarrow> run \<Rightarrow> run result" where
  "test_connect_fails_on_illegal_port c = invoke (Socket c 10) (\<lambda>cli. in_order
     [check (Connect c cli NOPORT 100) (\<lambda>rc. rc = -1),
      check (Connect c cli (MAX_PORT + 1) 100) (\<lambda>rc. rc = -1)])"

definition test_connect_fails_on_non_listened_port :: "nat \<Rightarrow> run \<Rightarrow> run result" where
  "test_connect_fails_on_non_listened_port c =
     invoke (Socket c 10) (\<lambda>cli. check (Connect c cli 100 100) (\<lambda>rc. rc = -1))"

definition test_connect_fails_on_timeout :: "nat \<Rightarrow> run \<Rightarrow> run result" where
  "test_connect_fails_on_timeout c = invoke (Socket c 100) (\<lambda>lsock r. in_order
     [check (Listen c lsock) (\<lambda>rc. rc = 0),
      invoke (Socket c 10) (\<lambda>cli. check (Connect c cli 100 100) (\<lambda>rc. rc = -1))]
     (assert_that (lsock \<noteq> NOFILE) r))"

section \<open>Suites\<close>

text \<open>The tests of \<open>basic_tests\<close> above, and of \<open>pipe_tests\<close> and \<open>socket_tests\<close> those that expect an error.\<close>

definition basic_tests :: "dev_env \<Rightarrow> byte list \<Rightarrow> nat \<Rightarrow> (run \<Rightarrow> run result) list" where
  "basic_tests env buf c =
     [test_pid_of_init_is_one c, waitchild_error c, test_null_device env c, test_get_terminals c, test_open_terminals c,
      test_dup2_error_on_nonfile c, test_dup2_error_on_invalid_fid c, test_close_error_on_invalid_fid c,
      test_close_success_on_valid_nonfile_fid c, test_close_terminals c, test_read_error_on_bad_fid env c,
      test_write_error_on_bad_fid buf env c]"

definition error_tests :: "nat \<Rightarrow> (run \<Rightarrow> run result) list" where
  "error_tests c =
     [test_listen_fails_on_bad_fid c, test_listen_fails_on_NOPORT c, test_accept_fails_on_bad_fid c,
      test_accept_fails_on_unbound_socket c, test_connect_fails_on_bad_fid c, test_connect_fails_on_illegal_port c,
      test_connect_fails_on_non_listened_port c]"

text \<open>The others need a pipe or a socket.\<close>

definition stream_pair_tests :: "int \<Rightarrow> int \<Rightarrow> dev_env \<Rightarrow> nat \<Rightarrow> (run \<Rightarrow> run result) list" where
  "stream_pair_tests rd wr env c =
     [test_pipe_open rd wr env c, test_pipe_fails_on_exhausted_fid c, test_pipe_close_reader rd wr env c,
      test_pipe_close_writer rd wr env c, test_socket_constructor_many_per_port c, test_socket_constructor_out_of_fids c,
      test_socket_constructor_illegal_port c, test_listen_success c, test_listen_fails_on_occupied_port c,
      test_connect_fails_on_timeout c]"

end
