(* ===== verification/Api_Tests_Props.thy ===== *)
theory Api_Tests_Props
  imports Api_Tests Streams_Frames Proc_Run
begin

text \<open>
  The tests in the thread of the first process: those of the calls that the kernel has pass, on
  any number of cores and terminals; those that need a pipe or a socket fail.
\<close>

section \<open>The thread of the first process\<close>

text \<open>
  \<open>main_run c F s\<close>: core \<open>c\<close> runs a thread of process 1, alone; the process has the file ids
  \<open>F\<close>, and no other process has any.
\<close>

definition main_run :: "nat \<Rightarrow> (nat \<Rightarrow> fref option) \<Rightarrow> kernel \<Rightarrow> bool" where
  "main_run c F s \<longleftrightarrow> kernel_sem s = 1 \<and> condvars s = (\<lambda>_. None) \<and> CURPROC c s = Inr 1 \<and> devs_ok s \<and>
     (\<exists>fl. fs_inv (\<lambda>_. 0) s fl) \<and> FIDT (PT s 1) = F \<and> (\<forall>q j. q \<noteq> 1 \<longrightarrow> FIDT (PT s q) j = None) \<and>
     (\<forall>q. pstate (PT s q) = (if q \<le> 1 then ALIVE else FREE)) \<and> parent (PT s 1) \<noteq> Some 1"

lemma main_runD:
  assumes "main_run c F s"
  shows "kernel_sem s = 1" and "condvars s = (\<lambda>_. None)" and "CURPROC c s = Inr 1" and "devs_ok s"
    and "\<exists>fl. fs_inv (\<lambda>_. 0) s fl" and "FIDT (PT s 1) = F" and "\<forall>q j. q \<noteq> 1 \<longrightarrow> FIDT (PT s q) j = None"
    and "\<forall>q. pstate (PT s q) = (if q \<le> 1 then ALIVE else FREE)" and "parent (PT s 1) \<noteq> Some 1"
  using assms unfolding main_run_def by blast+

lemma main_sem: "fs_inv pins (s\<lparr>kernel_sem := n\<rparr>) fl = fs_inv pins s fl"
  using fs_frame [of pins s fl "\<lambda>_. True" "s\<lparr>kernel_sem := n\<rparr>"] fs_frame [of pins "s\<lparr>kernel_sem := n\<rparr>" fl "\<lambda>_. True" s]
  by (auto simp: keeps_on_def)

lemma main_call:
  assumes r: "main_run c F s" and f: "f (s\<lparr>kernel_sem := 0\<rparr>) = Inr (v, s1)" and o: "files_only 1 (s\<lparr>kernel_sem := 0\<rparr>) s1"
    and fs: "fs_inv (\<lambda>_. 0) s1 fl"
  shows "syscall c f s = Inr (Return v, s1\<lparr>kernel_sem := 1\<rparr>)" and "main_run c (FIDT (PT s1 1)) (s1\<lparr>kernel_sem := 1\<rparr>)"
proof -
  note g = files_only_fields [OF o, simplified] and d = main_runD [OF r]
  show "syscall c f s = Inr (Return v, s1\<lparr>kernel_sem := 1\<rparr>)"
    using syscall_alone [where f = f, OF d(1) f, of c] g(5,7) d(2) by simp
  have "CURPROC c (s1\<lparr>kernel_sem := 1\<rparr>) = Inr 1" using d(3) g(1,3) by (subst CURPROC_cong [of _ s]) simp_all
  then show "main_run c (FIDT (PT s1 1)) (s1\<lparr>kernel_sem := 1\<rparr>)"
    using d g fs by (auto simp: main_run_def main_sem devs_ok_def bios_serial_ports_def)
qed

lemma main_pure:
  assumes r: "main_run c F s" and f: "f (s\<lparr>kernel_sem := 0\<rparr>) = Inr (v, s\<lparr>kernel_sem := 0\<rparr>)"
  shows "syscall c f s = Inr (Return v, s)"
proof -
  obtain fl where "fs_inv (\<lambda>_. 0) (s\<lparr>kernel_sem := 0\<rparr>) fl" using main_runD(5) [OF r] main_sem by blast
  from main_call(1) [where f = f, OF r f _ this] main_runD(1) [OF r] show ?thesis by simp
qed

lemma main_enter:
  assumes "main_run c F s"
  obtains fl where "CURPROC c (s\<lparr>kernel_sem := 0\<rparr>) = Inr 1" and "fs_inv (\<lambda>_. 0) (s\<lparr>kernel_sem := 0\<rparr>) fl"
    and "devs_ok (s\<lparr>kernel_sem := 0\<rparr>)"
proof -
  note d = main_runD [OF assms]
  obtain fl where "fs_inv (\<lambda>_. 0) s fl" using d(5) by blast
  moreover have "CURPROC c (s\<lparr>kernel_sem := 0\<rparr>) = Inr 1" using d(3) by (subst CURPROC_cong [of _ s]) simp_all
  ultimately show ?thesis using that [of fl] d(4) by (simp add: main_sem devs_ok_def bios_serial_ports_def)
qed

lemma main_Close:
  assumes r: "main_run c F s"
  obtains s' where "Close c fd s = Inr (Return (if legal_fid fd then 0 else -1), s')"
    and "main_run c (if legal_fid fd then F(nat fd := None) else F) s'" and "nterm s' = nterm s"
proof -
  note d = main_runD [OF r]
  obtain fl where m: "CURPROC c (s\<lparr>kernel_sem := 0\<rparr>) = Inr 1" "fs_inv (\<lambda>_. 0) (s\<lparr>kernel_sem := 0\<rparr>) fl" by (rule main_enter [OF r])
  obtain rc s1 fl1 where s1: "sys_Close c fd (s\<lparr>kernel_sem := 0\<rparr>) = Inr (rc, s1)" "fs_inv (\<lambda>_. 0) s1 fl1"
    "\<forall>q j. FIDT (PT s1 q) j = (if q = 1 \<and> int j = fd \<and> legal_fid fd then None else FIDT (PT (s\<lparr>kernel_sem := 0\<rparr>) q) j)"
    "rc = (if legal_fid fd then 0 else -1)" by (rule sys_Close_inv [OF m(2,1)])
  note o = close_files [OF m(2,1) s1(1)]
  have "FIDT (PT s1 1) = (if legal_fid fd then F(nat fd := None) else F)"
    using s1(3) d(6) by (auto simp: fun_eq_iff legal_fid_def)
  with main_call [where f = "sys_Close c fd", OF r s1(1) o s1(2)] s1(4) files_only_fields(13) [OF o] show ?thesis
    by (intro that [of "s1\<lparr>kernel_sem := 1\<rparr>"]) (simp_all add: Close_def)
qed

lemma main_Dup2_fails:
  assumes r: "main_run c F s" and f: "\<not> (legal_fid fd \<and> legal_fid fd' \<and> F (nat fd) \<noteq> None)"
  shows "Dup2 c fd fd' s = Inr (Return (-1), s)"
proof -
  obtain fl where m: "CURPROC c (s\<lparr>kernel_sem := 0\<rparr>) = Inr 1" by (rule main_enter [OF r])
  show ?thesis unfolding Dup2_def
    by (rule main_pure [OF r]) (use get_fcb_eq [OF m] f main_runD(6) [OF r] in \<open>auto simp: sys_Dup2_def\<close>)
qed

lemma free_FCB:
  assumes r: "main_run c F s" and fs: "fs_inv (\<lambda>_. 0) s fl"
  shows "fl \<noteq> []"
proof
  assume "fl = []"
  then have n: "nrefs s f \<noteq> 0" if "f < MAX_FILES" for f
    using fs_cntD(4) [OF fs_invD(1) [OF fs], of f] that by auto
  have "f \<in> (\<lambda>i. the (F i)) ` {..<MAX_FILEID}" if "f < MAX_FILES" for f
  proof -
    have "fid_slots s f \<noteq> {}" using n [OF that] by (auto simp: nrefs_def)
    then obtain p i where pi: "i < MAX_FILEID" "FIDT (PT s p) i = Some f" by (auto simp: fid_slots_def)
    then have "F i = Some f" using main_runD(6,7) [OF r] by (cases "p = 1") auto
    then show ?thesis using pi(1) by (intro image_eqI [of _ _ i]) simp_all
  qed
  then have "{..<MAX_FILES} \<subseteq> (\<lambda>i. the (F i)) ` {..<MAX_FILEID}" by blast
  then have "card {..<MAX_FILES} \<le> card ((\<lambda>i. the (F i)) ` {..<MAX_FILEID})" by (intro card_mono) simp_all
  also have "\<dots> \<le> MAX_FILEID" using card_image_le [of "{..<MAX_FILEID}"] by simp
  finally show False by (simp add: MAX_FILES_def MAX_PROC_def MAX_FILEID_def)
qed

lemma main_open:
  assumes r: "main_run c F s" and m: "major \<noteq> DEV_MAX" "minor < device_no major s"
    and i: "free_fids F 0 = i # is"
  obtains f s' where "syscall c (open_stream c major minor) s = Inr (Return (int i), s')"
    and "main_run c (F(i := Some f)) s'" and "streamfunc (FT s' f) = Some (dev_fops (devtable s major))"
    and "nterm s' = nterm s"
proof -
  note d = main_runD [OF r]
  obtain fl where e: "CURPROC c (s\<lparr>kernel_sem := 0\<rparr>) = Inr 1" "fs_inv (\<lambda>_. 0) (s\<lparr>kernel_sem := 0\<rparr>) fl"
    "devs_ok (s\<lparr>kernel_sem := 0\<rparr>)" by (rule main_enter [OF r])
  have "fl \<noteq> []" using free_FCB [OF r] e(2) main_sem by blast
  then obtain f fs where fl: "fl = f # fs" by (cases fl) auto
  have p: "1 < MAX_PROC" by (simp add: MAX_PROC_def)
  obtain s1 where s1: "open_stream c major minor (s\<lparr>kernel_sem := 0\<rparr>) = Inr (int i, s1)" "fs_inv (\<lambda>_. 0) s1 fs"
    "\<forall>q j. FIDT (PT s1 q) j = (if q = 1 \<and> j = i then Some f else FIDT (PT (s\<lparr>kernel_sem := 0\<rparr>) q) j)"
    "streamfunc (FT s1 f) = Some (dev_fops (devtable (s\<lparr>kernel_sem := 0\<rparr>) major))" "nterm s1 = nterm (s\<lparr>kernel_sem := 0\<rparr>)"
    by (rule open_stream_opens [OF e(2,1) p e(3) m(1) _ _ fl]) (use m(2) i d(6) in \<open>simp_all add: device_no_def\<close>)
  note o = open_files [OF e(2,1) s1(1)]
  have "FIDT (PT s1 1) = F(i := Some f)" using s1(3) d(6) by (auto simp: fun_eq_iff)
  with main_call [where f = "open_stream c major minor", OF r s1(1) o s1(2)] s1(4,5) show ?thesis
    by (intro that [of "s1\<lparr>kernel_sem := 1\<rparr>"]) simp_all
qed

section \<open>What calls return\<close>

definition returns :: "nat \<Rightarrow> (kernel \<Rightarrow> ('a call \<times> kernel) result) \<Rightarrow> ('a \<Rightarrow> bool) \<Rightarrow> bool" where
  "returns c f P \<longleftrightarrow>
     (\<forall>F s. main_run c F s \<longrightarrow> (\<exists>x F' s'. f s = Inr (Return x, s') \<and> P x \<and> main_run c F' s'))"

definition good :: "nat \<Rightarrow> (run \<Rightarrow> run result) \<Rightarrow> bool" where
  "good c t \<longleftrightarrow> (\<forall>F s. main_run c F s \<longrightarrow> (\<exists>F' s'. t (True, s) = Inr (True, s') \<and> main_run c F' s'))"

lemma invoke_eq: "f s = Inr (Return x, s') \<Longrightarrow> invoke f k (b, s) = k x (b, s')"
  by (simp add: invoke_def)

lemma check_eq: "f s = Inr (Return x, s') \<Longrightarrow> P x \<Longrightarrow> check f P (True, s) = Inr (True, s')"
  by (simp add: check_def invoke_def assert_that_def)

lemma good_check:
  assumes "returns c f P" shows "good c (check f P)"
  unfolding good_def
proof (intro allI impI)
  fix F s assume "main_run c F s"
  then obtain x F' s' where x: "f s = Inr (Return x, s')" "P x" "main_run c F' s'"
    using assms unfolding returns_def by blast
  from check_eq [where f = f and P = P, OF x(1,2)] x(3) show "\<exists>F' s'. check f P (True, s) = Inr (True, s') \<and> main_run c F' s'" by blast
qed

lemma good_invoke:
  assumes "returns c f P" and k: "\<And>x. P x \<Longrightarrow> good c (k x)" shows "good c (invoke f k)"
  unfolding good_def
proof (intro allI impI)
  fix F s assume "main_run c F s"
  then obtain x F' s' where x: "f s = Inr (Return x, s')" "P x" "main_run c F' s'"
    using assms(1) unfolding returns_def by blast
  from k [OF x(2)] x(3) show "\<exists>F' s'. invoke f k (True, s) = Inr (True, s') \<and> main_run c F' s'"
    unfolding good_def invoke_eq [where f = f, OF x(1)] by blast
qed

lemma good_in_order: "(\<And>t. t \<in> set ts \<Longrightarrow> good c t) \<Longrightarrow> good c (in_order ts)"
proof (induction ts)
  case Nil
  show ?case by (auto simp: good_def)
next
  case (Cons t ts)
  have g: "good c t" "good c (in_order ts)" using Cons by simp_all
  show ?case
    unfolding good_def
  proof (intro allI impI)
    fix F s assume "main_run c F s"
    then obtain F1 s1 where s1: "t (True, s) = Inr (True, s1)" "main_run c F1 s1" using g(1) unfolding good_def by blast
    then obtain F2 s2 where "in_order ts (True, s1) = Inr (True, s2)" "main_run c F2 s2" using g(2) unfolding good_def by blast
    with s1(1) show "\<exists>F' s'. in_order (t # ts) (True, s) = Inr (True, s') \<and> main_run c F' s'" by auto
  qed
qed

text \<open>Calls that change nothing.\<close>

lemma returns_pure:
  assumes "\<And>s. f s = syscall c g s" and "\<And>F s. main_run c F s \<Longrightarrow> g (s\<lparr>kernel_sem := 0\<rparr>) = Inr (v, s\<lparr>kernel_sem := 0\<rparr>)"
    and "P v"
  shows "returns c f P"
  unfolding returns_def
proof (intro allI impI)
  fix F s assume r: "main_run c F s"
  from main_pure [where f = g, OF r assms(2) [OF r]] assms(1,3) r
  show "\<exists>x F' s'. f s = Inr (Return x, s') \<and> P x \<and> main_run c F' s'" by (intro exI [of _ v] exI [of _ F] exI [of _ s]) simp
qed

lemma returns_const: "P v \<Longrightarrow> returns c (syscall c (\<lambda>s. Inr (v, s))) P"
  by (rule returns_pure [where g = "\<lambda>s. Inr (v, s)"]) simp_all

lemma missing_calls:
  "P (-1) \<Longrightarrow> returns c (Pipe c) P" "P NOFILE \<Longrightarrow> returns c (Socket c port) P" "P (-1) \<Longrightarrow> returns c (Listen c sock) P"
  "P NOFILE \<Longrightarrow> returns c (Accept c sock) P" "P (-1) \<Longrightarrow> returns c (Connect c sock port t) P"
  by (simp_all add: Pipe_def Socket_def Listen_def Accept_def Connect_def sys_Pipe_def sys_Socket_def sys_Listen_def
      sys_Accept_def sys_Connect_def returns_const)

lemma returns_Close: "returns c (Close c fd) (\<lambda>rc. rc = (if legal_fid fd then 0 else -1))"
  unfolding returns_def by (intro allI impI) (erule main_Close [where fd = fd], blast)

lemma returns_GetPid: "returns c (GetPid c) (\<lambda>p. p = 1)"
proof (rule returns_pure)
  show "GetPid c s = syscall c (\<lambda>s. rbind (sys_GetPid c s) (\<lambda>r. Inr (r, s))) s" for s by (simp add: GetPid_def)
  show "rbind (sys_GetPid c (s\<lparr>kernel_sem := 0\<rparr>)) (\<lambda>r. Inr (r, s\<lparr>kernel_sem := 0\<rparr>)) = Inr (1, s\<lparr>kernel_sem := 0\<rparr>)"
    if "main_run c F s" for F s
    by (rule main_enter [OF that]) (simp add: sys_GetPid_def get_pid_def)
qed simp

lemma returns_WaitChild:
  assumes "p = 1 \<or> p = 2 \<or> p = int MAX_PROC"
  shows "returns c (WaitChild c p False) (\<lambda>r. fst r = NOPROC)"
  unfolding returns_def
proof (intro allI impI)
  fix F s assume r: "main_run c F s"
  note d = main_runD [OF r]
  obtain fl where m: "CURPROC c (s\<lparr>kernel_sem := 0\<rparr>) = Inr 1" by (rule main_enter [OF r])
  have "sys_WaitChild c p False (s\<lparr>kernel_sem := 0\<rparr>) = Inr (Return (NOPROC, None), s\<lparr>kernel_sem := 0\<rparr>)"
    using assms m d(8,9) by (auto simp: sys_WaitChild_def wait_for_specific_child_def NOPROC_def get_pcb_def MAX_PROC_def)
  then have "WaitChild c p False s = Inr (Return (NOPROC, None), s\<lparr>kernel_sem := 1\<rparr>)"
    using d(1,2) by (simp add: WaitChild_def syscall_waiting_def kernel_lock_step_def pre_call_def wait_or_post_def
        post_call_def kernel_unlock_def Cond_Signal_def of_loop_def cv_signal.simps)
  then have "WaitChild c p False s = Inr (Return (NOPROC, None), s)" using d(1) by simp
  with r show "\<exists>x F' s'. WaitChild c p False s = Inr (Return x, s') \<and> fst x = NOPROC \<and> main_run c F' s'" by auto
qed

lemma returns_OpenNull: "returns c (OpenNull c) (\<lambda>_. True)"
  unfolding returns_def
proof (intro allI impI)
  fix F s assume r: "main_run c F s"
  obtain fl where m: "CURPROC c (s\<lparr>kernel_sem := 0\<rparr>) = Inr 1" "fs_inv (\<lambda>_. 0) (s\<lparr>kernel_sem := 0\<rparr>) fl"
    "devs_ok (s\<lparr>kernel_sem := 0\<rparr>)" by (rule main_enter [OF r])
  have p: "1 < MAX_PROC" by (simp add: MAX_PROC_def)
  obtain rc s1 fl1 where s1: "open_stream c DEV_NULL 0 (s\<lparr>kernel_sem := 0\<rparr>) = Inr (rc, s1)" "fs_inv (\<lambda>_. 0) s1 fl1"
    using open_stream_inv [OF m(2,1) p m(3), of DEV_NULL 0] by blast
  note o = open_files [OF m(2,1) s1(1)]
  have "sys_OpenNull c (s\<lparr>kernel_sem := 0\<rparr>) = Inr (rc, s1)" using s1(1) by (simp add: sys_OpenNull_def)
  from main_call [where f = "sys_OpenNull c", OF r this o s1(2)]
  show "\<exists>x F' s'. OpenNull c s = Inr (Return x, s') \<and> True \<and> main_run c F' s'" unfolding OpenNull_def by blast
qed

section \<open>Tests of errors\<close>

lemma pid_good: "good c (test_pid_of_init_is_one c)"
  unfolding test_pid_of_init_is_one_def by (rule good_check [OF returns_GetPid])

lemma waitchild_good: "good c (waitchild_error c)"
  unfolding waitchild_error_def
  by (rule good_in_order) (auto intro!: good_invoke [OF returns_GetPid] good_check returns_WaitChild)


lemma listen_good:
  "good c (test_listen_fails_on_bad_fid c)" "good c (test_listen_fails_on_NOPORT c)"
  unfolding test_listen_fails_on_bad_fid_def test_listen_fails_on_NOPORT_def
  by (auto intro!: good_in_order good_invoke [OF returns_OpenNull] good_invoke [OF missing_calls(2)] good_check
      missing_calls)

lemma accept_good:
  "good c (test_accept_fails_on_bad_fid c)" "good c (test_accept_fails_on_unbound_socket c)"
  "good c (test_connect_fails_on_bad_fid c)"
  unfolding test_accept_fails_on_bad_fid_def test_accept_fails_on_unbound_socket_def test_connect_fails_on_bad_fid_def
  by (auto intro!: good_in_order good_invoke [OF returns_OpenNull] good_invoke [OF missing_calls(2)] good_check
      missing_calls simp: NOFILE_def)

lemma connect_good:
  "good c (test_connect_fails_on_illegal_port c)" "good c (test_connect_fails_on_non_listened_port c)"
  unfolding test_connect_fails_on_illegal_port_def test_connect_fails_on_non_listened_port_def
  by (auto intro!: good_in_order good_invoke [OF missing_calls(2)] good_check missing_calls)

lemma returns_mono: "returns c f P \<Longrightarrow> (\<And>x. P x \<Longrightarrow> Q x) \<Longrightarrow> returns c f Q"
  unfolding returns_def by meson

lemma close_error_good: "good c (test_close_error_on_invalid_fid c)"
  unfolding test_close_error_on_invalid_fid_def
  by (auto intro!: good_in_order good_check returns_mono [OF returns_Close] simp: legal_fid_def NOFILE_def)

lemma close_success_good: "good c (test_close_success_on_valid_nonfile_fid c)"
  unfolding test_close_success_on_valid_nonfile_fid_def
  by (auto intro!: good_in_order good_check returns_mono [OF returns_Close] simp: legal_fid_def)

section \<open>Tests of files\<close>

text \<open>The first process has no file ids at the start.\<close>

lemma in_order_same: "(\<And>t. t \<in> set ts \<Longrightarrow> t r = Inr r) \<Longrightarrow> in_order ts r = Inr r"
proof (induction ts)
  case (Cons t ts)
  have "t r = Inr r" "in_order ts r = Inr r" using Cons by simp_all
  then show ?case by simp
qed simp

lemma get_terminals_passes:
  assumes r: "main_run c F s"
  shows "test_get_terminals c (True, s) = Inr (True, s)"
proof -
  have "GetTerminalDevices c s = Inr (Return (nterm s), s)" unfolding GetTerminalDevices_def
    by (rule main_pure [OF r])
      (use main_runD(4) [OF r] in \<open>simp add: sys_GetTerminalDevices_def device_no_def devs_ok_def bios_serial_ports_def\<close>)
  from check_eq [where f = "GetTerminalDevices c", OF this] show ?thesis
    by (simp add: test_get_terminals_def bios_serial_ports_def)
qed

lemma dup2_nonfile_passes:
  assumes "main_run c Map.empty s"
  shows "test_dup2_error_on_nonfile c (True, s) = Inr (True, s)"
proof -
  have "check (Dup2 c fd fd') (\<lambda>rc. rc = -1) (True, s) = Inr (True, s)" for fd fd'
    by (rule check_eq [where f = "Dup2 c fd fd'", OF main_Dup2_fails [OF assms]]) simp_all
  then show ?thesis unfolding test_dup2_error_on_nonfile_def by (intro in_order_same) auto
qed

lemma free_fids_filled: "free_fids F 0 = m # drop 1 (free_fids F 0)" if "\<forall>j. F j \<noteq> None \<longleftrightarrow> j < m" "m < MAX_FILEID"
proof -
  have "[0..<MAX_FILEID] = [0..<m] @ m # [Suc m..<MAX_FILEID]"
    using that(2) upt_add_eq_append [of 0 m "MAX_FILEID - m"] upt_conv_Cons [of m MAX_FILEID] by simp
  then have "free_fids F 0 = m # filter (\<lambda>i. F i = None) [Suc m..<MAX_FILEID]"
    using that(1) by (simp add: free_fids_def)
  then show ?thesis by simp
qed

lemma open_filled:
  assumes r: "main_run c F s" and F: "\<forall>j. F j \<noteq> None \<longleftrightarrow> j < m" and m: "m < MAX_FILEID"
    and d: "major \<noteq> DEV_MAX" "minor < device_no major s"
  obtains f s' where "syscall c (open_stream c major minor) s = Inr (Return (int m), s')"
    and "main_run c (F(m := Some f)) s'" and "streamfunc (FT s' f) = Some (dev_fops (devtable s major))"
    and "nterm s' = nterm s"
  by (rule main_open [OF r d free_fids_filled [OF F m]])

lemma open_null:
  assumes "main_run c Map.empty s"
  obtains f s' where "OpenNull c s = Inr (Return 0, s')" and "main_run c [0 \<mapsto> f] s'"
    and "streamfunc (FT s' f) = Some nulldev_fops"
proof -
  have d: "0 < device_no DEV_NULL s" "dev_fops (devtable s DEV_NULL) = nulldev_fops"
    using main_runD(4) [OF assms] by (simp_all add: devs_ok_def device_no_def)
  have e: "sys_OpenNull c = open_stream c DEV_NULL 0" by (simp add: fun_eq_iff sys_OpenNull_def)
  show ?thesis
    by (rule open_filled [OF assms, of 0 DEV_NULL 0])
      (use that d in \<open>auto simp: OpenNull_def e MAX_FILEID_def\<close>)
qed

lemma dup2_invalid_passes:
  assumes "main_run c Map.empty s"
  shows "\<exists>s'. test_dup2_error_on_invalid_fid c (True, s) = Inr (True, s')"
proof -
  have e: "check (Dup2 c fd fd') (\<lambda>rc. rc = -1) (True, t) = Inr (True, t)"
    if "main_run c F t" "\<not> (legal_fid fd \<and> legal_fid fd')" for F t fd fd'
    by (rule check_eq [where f = "Dup2 c fd fd'", OF main_Dup2_fails [OF that(1)]]) (use that(2) in auto)
  have l: "\<not> legal_fid NOFILE" "\<not> legal_fid (int MAX_FILEID)" "0 \<noteq> NOFILE"
    by (simp_all add: legal_fid_def NOFILE_def)
  obtain f s1 where s1: "OpenNull c s = Inr (Return 0, s1)" "main_run c [0 \<mapsto> f] s1" by (rule open_null [OF assms])
  show ?thesis
    by (simp add: test_dup2_error_on_invalid_fid_def e [OF assms] e [OF s1(2)] l require_def
        invoke_eq [where f = "OpenNull c", OF s1(1)])
qed

text \<open>Reading and writing.\<close>

lemma io_none:
  assumes r: "main_run c F s" and fd: "\<not> (legal_fid fd \<and> F (nat fd) \<noteq> None)"
  shows "io (Read c fd sz env) s = Inr (Return (-1, []), s)" "io (Write c fd buf sz env) s = Inr (Return (-1, []), s)"
proof -
  note d = main_runD [OF r]
  obtain fl where m: "CURPROC c (s\<lparr>kernel_sem := 0\<rparr>) = Inr 1" by (rule main_enter [OF r])
  have "io_enter c fd (s\<lparr>kernel_sem := 0\<rparr>) = Inr (None, s\<lparr>kernel_sem := 0\<rparr>)"
    by (rule io_enter_none [OF m]) (use fd d(6) in simp)
  then show "io (Read c fd sz env) s = Inr (Return (-1, []), s)" "io (Write c fd buf sz env) s = Inr (Return (-1, []), s)"
    using d(1,2) by (simp_all add: io_def Read_def Write_def syscall_io_def kernel_lock_step_def sys_Read_def sys_Write_def
        post_call_def kernel_unlock_def Cond_Signal_def of_loop_def cv_signal.simps)
qed

lemma bad_fid_passes:
  assumes "main_run c Map.empty s"
  shows "test_read_error_on_bad_fid env c (True, s) = Inr (True, s)"
    and "test_write_error_on_bad_fid buf env c (True, s) = Inr (True, s)"
  unfolding test_read_error_on_bad_fid_def test_write_error_on_bad_fid_def
  by (rule check_eq, rule io_none [OF assms]; simp)+

lemma null_io:
  assumes r: "main_run c F s" and f: "legal_fid fd" "F (nat fd) = Some f" "streamfunc (FT s f) = Some nulldev_fops"
  obtains s1 where "io (Read c fd sz env) s = Inr (Return (nulldev_read (streamobj (FT s f)) sz), s1)"
    and "io (Write c fd buf sz env) s = Inr (Return (sint sz, []), s1)" and "main_run c F s1"
    and "streamfunc (FT s1 f) = Some nulldev_fops"
proof -
  note d = main_runD [OF r]
  let ?s = "s\<lparr>kernel_sem := 0\<rparr>"
  obtain fl where m: "CURPROC c ?s = Inr 1" "fs_inv (\<lambda>_. 0) ?s fl" by (rule main_enter [OF r])
  have F: "FIDT (PT ?s 1) (nat fd) = Some f" using f(2) d(6) by simp
  obtain ops where o: "io_enter c fd ?s = Inr (Some (f, streamobj (FT ?s f), ops), FCB_incref f ?s)"
    "streamfunc (FT ?s f) = Some ops" "fs_inv ((\<lambda>_. 0)(f := 0 + 1)) (FCB_incref f ?s) fl"
    by (rule io_enter_inv [OF m(2,1) f(1) F]) auto
  obtain s2 fl2 where s2: "io_leave f (FCB_incref f ?s) = Inr s2" "fs_inv ((\<lambda>_. 0)(f := 0 + 1, f := 0)) s2 fl2" "PT s2 = PT (FCB_incref f ?s)"
    by (rule io_leave_inv [OF o(3), of f 0]) auto
  have fl: "files_only 1 ?s s2"
    by (rule files_only_trans [OF enter_files [OF o(1)] leave_files [OF o(3) _ s2(1)]]) simp
  have ops: "ops = nulldev_fops" using o(2) f(3) by simp
  have g: "kernel_sem s2 = 0" "condvars s2 KernelSemCv = None" using files_only_fields(5,7) [OF fl] d(2) by simp_all
  have e: "sys_Read c fd sz env ?s = Inr (Some (fst (nulldev_read (streamobj (FT s f)) sz),
        snd (nulldev_read (streamobj (FT s f)) sz), s2))"
    "sys_Write c fd buf sz env ?s = Inr (Some (sint sz, [], s2))"
    using o(1) s2(1) by (simp_all add: sys_Read_def sys_Write_def ops nulldev_write_def split: prod.split)
  have "io (Read c fd sz env) s = Inr (Return (nulldev_read (streamobj (FT s f)) sz), s2\<lparr>kernel_sem := 1\<rparr>)"
    "io (Write c fd buf sz env) s = Inr (Return (sint sz, []), s2\<lparr>kernel_sem := 1\<rparr>)"
    using d(1) g e by (simp_all add: io_def Read_def Write_def syscall_io_def kernel_lock_step_def
        post_call_def kernel_unlock_def Cond_Signal_def of_loop_def cv_signal.simps)
  moreover have "fs_inv (\<lambda>_. 0) s2 fl2" using s2(2) by (simp add: fun_upd_idem)
  from main_call(2) [where f = "\<lambda>_. Inr ((), s2)", OF r refl fl this] have "main_run c F (s2\<lparr>kernel_sem := 1\<rparr>)"
    using s2(3) d(6) by (simp add: FCB_incref_def set_FCB_def)
  moreover have "streamfunc (FT s2 f) = Some nulldev_fops"
  proof -
    obtain rc where rc: "FCB_decref f (FCB_incref f ?s) = Inr (rc, s2)"
      using s2(1) by (auto simp: io_leave_def rbind_eq_Inr)
    then have "streamfunc (FT s2 f) = streamfunc (FT (FCB_incref f ?s) f)"
      by (auto simp: FCB_decref_def Let_def set_FCB_def release_FCB_def split: if_splits option.splits)
    then show ?thesis using f(3) by (simp add: FCB_incref_def set_FCB_def)
  qed
  ultimately show ?thesis using that by simp
qed

lemma null_device_passes:
  assumes "main_run c Map.empty s"
  shows "\<exists>s'. test_null_device env c (True, s) = Inr (True, s')"
proof -
  have l: "legal_fid 0" by (simp add: legal_fid_def MAX_FILEID_def)
  obtain f s1 where s1: "OpenNull c s = Inr (Return 0, s1)" "main_run c [0 \<mapsto> f] s1" "streamfunc (FT s1 f) = Some nulldev_fops"
    by (rule open_null [OF assms])
  obtain s2 where s2: "io (Read c 0 10 env) s1 = Inr (Return (nulldev_read (streamobj (FT s1 f)) 10), s2)"
    "main_run c [0 \<mapsto> f] s2" "streamfunc (FT s2 f) = Some nulldev_fops"
    by (rule null_io [OF s1(2) l _ s1(3), of 10]) simp_all
  obtain s3 where s3: "io (Write c 0 [] 123456 env) s2 = Inr (Return (sint (123456 :: uint), []), s3)" "main_run c [0 \<mapsto> f] s3"
    by (rule null_io [OF s2(2) l _ s2(3), of 123456 env "[]"]) simp_all
  obtain s4 where s4: "Close c 0 s3 = Inr (Return (if legal_fid 0 then 0 else -1), s4)" by (rule main_Close [OF s3(2), of 0])
  have n: "nulldev_read d 10 = (10, replicate 10 0)" for d by (simp add: nulldev_read_def)
  have z: "take 17 (stored (replicate 10 0) (chars ''zavarakatranemia'' @ [0])) = take 17 (replicate 10 0 @ chars ''anemia'' @ [0])"
    by (simp add: stored_def chars_def numeral_eq_Suc)
  show ?thesis
    using z by (simp add: test_null_device_def Let_def invoke_eq [where f = "OpenNull c", OF s1(1)]
        invoke_eq [where f = "io (Read c 0 10 env)", OF s2(1)] n assert_that_def check_def
        invoke_eq [where f = "io (Write c 0 [] 123456 env)", OF s3(1)] invoke_eq [where f = "Close c 0", OF s4] l)
qed

text \<open>The loops over the terminals.\<close>

lemma terminals: "main_run c F s \<Longrightarrow> GetTerminalDevices c s = Inr (Return (nterm s), s)"
  unfolding GetTerminalDevices_def
  by (rule main_pure)
    (simp_all add: main_run_def sys_GetTerminalDevices_def device_no_def devs_ok_def bios_serial_ports_def)

lemma of_nat_below: "m < unat n \<Longrightarrow> (of_nat m :: uint) < n"
  using mod_less_eq_dividend [of m "2 ^ 32"] by (simp add: word_less_nat_alt unat_of_nat)

lemma open_terms_opens:
  assumes "main_run c F s" and "\<forall>j. F j \<noteq> None \<longleftrightarrow> j < m" and "m \<le> unat (nterm s)" and "unat (nterm s) \<le> MAX_TERMINALS"
  shows "\<exists>F' s'. open_terms c (MAX_TERMINALS - m) (of_nat m) (map int [0..<m]) k (True, s) =
      k (map int [0..<unat (nterm s)]) (True, s') \<and> main_run c F' s' \<and> nterm s' = nterm s"
  using assms
proof (induction "unat (nterm s) - m" arbitrary: m F s)
  case 0
  have e: "m = unat (nterm s)" using 0(1,4) by simp
  show ?case
    by (subst open_terms.simps)
      (use 0(2) in \<open>auto simp: invoke_eq [where f = "GetTerminalDevices c", OF terminals [OF 0(2)]] e\<close>)
next
  case (Suc x)
  have m: "m < unat (nterm s)" using Suc.hyps(2) by simp
  have lt: "(of_nat m :: uint) < nterm s"
    by (rule of_nat_below [OF m])
  have mm: "m < MAX_FILEID" using m Suc.prems(4) by (simp add: MAX_TERMINALS_def MAX_FILEID_def)
  have d: "of_nat m < device_no DEV_SERIAL s"
    using main_runD(4) [OF Suc.prems(1)] lt by (simp add: devs_ok_def device_no_def bios_serial_ports_def)
  obtain f s1 where s1: "syscall c (open_stream c DEV_SERIAL (of_nat m)) s = Inr (Return (int m), s1)"
    "main_run c (F(m := Some f)) s1" "nterm s1 = nterm s"
    by (rule open_filled [OF Suc.prems(1,2) mm _ d]) simp
  have o: "OpenTerminal c (of_nat m) s = Inr (Return (int m), s1)"
    using s1(1) by (simp add: OpenTerminal_def sys_OpenTerminal_def [abs_def])
  have fill: "\<forall>j. (F(m := Some f)) j \<noteq> None \<longleftrightarrow> j < Suc m" using Suc.prems(2) by auto
  obtain F' s' where s': "open_terms c (MAX_TERMINALS - Suc m) (of_nat (Suc m)) (map int [0..<Suc m]) k (True, s1) =
      k (map int [0..<unat (nterm s1)]) (True, s')" "main_run c F' s'" "nterm s' = nterm s1"
    using Suc.hyps(1) [OF _ s1(2) fill] s1(3) Suc.hyps(2) m Suc.prems(4) by force
  obtain l where l: "MAX_TERMINALS - m = Suc l" "MAX_TERMINALS - Suc m = l"
    using m Suc.prems(4) by (metis Suc_diff_Suc less_le_trans)
  have "open_terms c (MAX_TERMINALS - m) (of_nat m) (map int [0..<m]) k (True, s) =
      open_terms c l (of_nat m + 1) (map int [0..<m] @ [int m]) k (True, s1)"
    by (subst open_terms.simps) (simp add: invoke_eq [where f = "GetTerminalDevices c", OF terminals [OF Suc.prems(1)]] lt l
        invoke_eq [where f = "OpenTerminal c (of_nat m)", OF o] assert_that_def NOFILE_def)
  also have "\<dots> = k (map int [0..<unat (nterm s)]) (True, s')"
    using s'(1) s1(3) l(2) by (simp add: add.commute)
  finally show ?case using s'(2,3) s1(3) by auto
qed

lemma close_terms_closes:
  assumes "main_run c F s" and "m \<le> unat (nterm s)" and "unat (nterm s) \<le> MAX_TERMINALS"
  shows "\<exists>s'. close_terms c (of_nat m) (map int [m..<unat (nterm s)]) (True, s) = Inr (True, s')"
  using assms
proof (induction "unat (nterm s) - m" arbitrary: m F s)
  case 0
  then have e: "m = unat (nterm s)" by simp
  show ?case
    by (subst close_terms.simps) (simp add: invoke_eq [where f = "GetTerminalDevices c", OF terminals [OF 0(2)]] e)
next
  case (Suc x)
  have m: "m < unat (nterm s)" using Suc.hyps(2) by simp
  have lt: "(of_nat m :: uint) < nterm s"
    by (rule of_nat_below [OF m])
  have l: "legal_fid (int m)" using m Suc.prems(3) by (simp add: legal_fid_def MAX_TERMINALS_def MAX_FILEID_def)
  obtain s1 where s1: "Close c (int m) s = Inr (Return 0, s1)" "main_run c (F(nat (int m) := None)) s1" "nterm s1 = nterm s"
    by (rule main_Close [OF Suc.prems(1), of "int m"]) (use l in auto)
  obtain s' where s': "close_terms c (of_nat (Suc m)) (map int [Suc m..<unat (nterm s1)]) (True, s1) = Inr (True, s')"
    using Suc.hyps(1) [OF _ s1(2), of "Suc m"] s1(3) Suc.hyps(2) m Suc.prems(3) by force
  have "[m..<unat (nterm s)] = m # [Suc m..<unat (nterm s)]" using m by (simp add: upt_conv_Cons)
  then show ?case using s' s1(3)
    by (subst close_terms.simps) (simp add: invoke_eq [where f = "GetTerminalDevices c", OF terminals [OF Suc.prems(1)]] lt
        check_eq [where f = "Close c (int m)", OF s1(1)] add.commute)
qed

lemma terminals_pass:
  assumes "main_run c Map.empty s" and "unat (nterm s) \<le> MAX_TERMINALS"
  shows "\<exists>s'. test_open_terminals c (True, s) = Inr (True, s')" and "\<exists>s'. test_close_terminals c (True, s) = Inr (True, s')"
proof -
  note o = open_terms_opens [OF assms(1), of 0, simplified, OF assms(2)]
  show "\<exists>s'. test_open_terminals c (True, s) = Inr (True, s')"
    using o [of "\<lambda>term r. Inr r"] unfolding test_open_terminals_def by auto
  obtain F' s1 where s1: "test_close_terminals c (True, s) = close_terms c 0 (map int [0..<unat (nterm s)]) (True, s1)"
    "main_run c F' s1" "nterm s1 = nterm s"
    using o [of "close_terms c 0"] unfolding test_close_terminals_def by auto
  from close_terms_closes [OF s1(2), of 0] show "\<exists>s'. test_close_terminals c (True, s) = Inr (True, s')"
    using s1 assms(2) by simp
qed

section \<open>The start\<close>

text \<open>Any core may take the thread of the first process, when it leaves its idle thread.\<close>

lemma first_thread_runs:
  assumes st: "started n k (Some f) len a (m, pa, ta) b" and c: "c < n"
  obtains s1 s where "yield_switch c SCHED_USER b = Inr s1" and "gain c True s1 = Inr s"
    and "CURTHREAD c s = HeapT ta" and "main_run c Map.empty s" and "nterm s = k"
proof -
  let ?R = "\<lambda>_ :: nat. Running"
  note std = st [unfolded started_def snd_conv fst_conv]
  note fp = conjunct1 [OF std, unfolded first_process_def prod.case]
  have ok: "cc_ok ?R Map.empty (\<lambda>_. []) b" and tm: "nterm b = k" using std by blast+
  obtain L hs where inv: "sched_inv ?R b L hs" using cc_okD(1) [OF ok] by blast
  have "ncores b = n" using fp by (simp add: machine_up_def)
  then have c0: "c < ncores b" "?R c \<noteq> Switching" using c by simp_all
  have tc: "tcbs b t = (if t = HeapT ta then Some (started_tcb 1 start_main_thread_func pa) else None)"
    if "t \<notin> IdleT ` {..<n}" for t using std that by blast
  have t0: "tcbs b (HeapT ta) = Some (started_tcb 1 start_main_thread_func pa)" using tc [of "HeapT ta"] by auto
  have td: "t = HeapT ta \<or> t \<in> IdleT ` {..<n}" if "tcbs b t \<noteq> None" for t
    using tc [of t] that by (auto split: if_splits)
  have x0: "tstate (started_tcb 1 start_main_thread_func pa) = READY" "tphase (started_tcb 1 start_main_thread_func pa) = CTX_CLEAN"
    "ttype (started_tcb 1 start_main_thread_func pa) = NORMAL_THREAD" "owner_pcb (started_tcb 1 start_main_thread_func pa) = 1"
    by (simp_all add: started_tcb_def new_tcb_def)
  obtain s1 L1 hs1 where s1: "yield_switch c SCHED_USER b = Inr s1" "sched_inv (?R(c := Switching)) s1 L1 hs1"
    "sched_frame b s1" "threads_kept b s1"
    "\<forall>t x. tcbs b t = Some x \<and> ttype x = NORMAL_THREAD \<and> tstate x = READY \<and> tphase x = CTX_CLEAN \<and>
      (\<forall>d. \<not> incoming ?R b d t) \<longrightarrow>
      (\<exists>y. tcbs s1 (current_thread (cctx s1 c)) = Some y \<and> ttype y = NORMAL_THREAD)"
    by (rule yield_switch_inv [OF inv c0]) blast
  obtain y where y: "tcbs s1 (current_thread (cctx s1 c)) = Some y" "ttype y = NORMAL_THREAD"
    using s1(5) [rule_format, of "HeapT ta"] t0 x0 by (auto simp: incoming_def)
  have c1: "c < ncores s1" "(?R(c := Switching)) c = Switching" using s1(3) c0(1) by (simp_all add: sched_frame_def)
  obtain s where s2: "gain c True s1 = Inr s" "sched_frame s1 s" "threads_kept s1 s"
    "\<forall>d. current_thread (cctx s d) = current_thread (cctx s1 d)"
    by (rule gain_inv [OF s1(2) c1]) blast
  note f = sched_frame_trans [OF s1(3) s2(2)] and k = threads_kept_trans [OF s1(4) s2(3)]
  have cur: "current_thread (cctx s1 c) = HeapT ta"
  proof -
    have "tcbs b (current_thread (cctx s1 c)) \<noteq> None"
      using s1(4) [unfolded threads_kept_def, rule_format, of "current_thread (cctx s1 c)"] y(1)
      by (auto split: option.splits)
    moreover have "current_thread (cctx s1 c) \<noteq> IdleT d" for d
      using sched_inv_thread [OF s1(2) y(1)] y(2) by (auto simp: thread_ok_def idle_ok_def)
    ultimately show ?thesis using td by blast
  qed
  have "tstate (started_tcb 1 start_main_thread_func pa) \<noteq> EXITED" using x0 by simp
  from threads_keptD [OF k t0 this] obtain x where x: "tcbs s (HeapT ta) = Some x"
    "same_thread (started_tcb 1 start_main_thread_func pa) x" by blast
  have curs: "CURTHREAD c s = HeapT ta" using s2(4) cur by (simp add: CURTHREAD_def)
  have pr: "CURPROC c s = Inr 1" using x x0(4) curs by (simp add: CURPROC_def same_thread_def)
  have fs: "fs_inv (\<lambda>_. 0) b [0..<MAX_FILES]" "proc_inv [2..<MAX_PROC] (\<lambda>_. []) (\<lambda>_. []) ((\<lambda>_. [])(1 := [pa])) b"
    using fp by blast+
  note fs' = switch_frames(1) [OF fs f]
  have root: "parent (PT b 1) \<noteq> Some 1" using tree_okD(6) [OF proc_invD(2) [OF fs(2)]] tree_okD(1) [OF proc_invD(2) [OF fs(2)], of 1 1]
    fp by (auto simp: live_def)
  have o: "PT s = PT b" "kernel_sem s = kernel_sem b" "condvars s = condvars b" "devtable s = devtable b" "nterm s = nterm b"
    using f by (simp_all add: sched_frame_def)
  have "main_run c Map.empty s"
    using fp fs' pr root unfolding main_run_def devs_ok_def bios_serial_ports_def o no_fids_def by blast
  then show ?thesis by (rule that [OF s1(1) s2(1) curs]) (simp add: o(5) tm)
qed

section \<open>Tests that fail\<close>

text \<open>An assertion that is false stays noted; a test fails when it never ends with none.\<close>

definition keeps_failure :: "(run \<Rightarrow> run result) \<Rightarrow> bool" where
  "keeps_failure t \<longleftrightarrow> (\<forall>s s'. t (False, s) \<noteq> Inr (True, s'))"

definition fails :: "(run \<Rightarrow> run result) \<Rightarrow> bool" where
  "fails t \<longleftrightarrow> (\<forall>b s s'. t (b, s) \<noteq> Inr (True, s'))"

definition answers :: "(kernel \<Rightarrow> ('a call \<times> kernel) result) \<Rightarrow> 'a \<Rightarrow> bool" where
  "answers f v \<longleftrightarrow> (\<forall>s x s'. f s = Inr (Return x, s') \<longrightarrow> x = v)"

named_theorems fail_intro \<open>tests that keep a failure, and tests that fail\<close>

lemma answers_const: "answers (syscall c (\<lambda>s. Inr (v, s))) v"
  by (auto simp: answers_def syscall_def pre_call_def post_call_def rbind_eq_Inr split: if_splits)

lemma answers_missing:
  "answers (Pipe c) (-1)" "answers (Socket c port) NOFILE" "answers (Listen c sock) (-1)"
  unfolding Pipe_def Socket_def Listen_def sys_Pipe_def sys_Socket_def sys_Listen_def by (rule answers_const)+

lemma keeps_invoke [fail_intro]:
  assumes "\<And>x. keeps_failure (k x)" shows "keeps_failure (invoke f k)"
  using assms by (auto simp: keeps_failure_def invoke_def rbind_eq_Inr split: call.splits)

lemma fails_invoke [fail_intro]:
  assumes "\<And>x. fails (k x)" shows "fails (invoke f k)"
  using assms by (auto simp: fails_def invoke_def rbind_eq_Inr split: call.splits)

lemma keeps_check [fail_intro]: "keeps_failure (check f P)"
  unfolding check_def by (rule keeps_invoke) (simp add: keeps_failure_def assert_that_def)

lemma keeps_ignore [fail_intro]: "keeps_failure (ignore f)"
  unfolding ignore_def by (rule keeps_invoke) (simp add: keeps_failure_def)

lemma fails_check: "answers f v \<Longrightarrow> \<not> P v \<Longrightarrow> fails (check f P)"
  by (auto simp: fails_def check_def invoke_def answers_def assert_that_def rbind_eq_Inr split: call.splits)

lemma keeps_in_order [fail_intro]: "list_all keeps_failure ts \<Longrightarrow> keeps_failure (in_order ts)"
proof (induction ts)
  case (Cons t ts)
  then have t: "keeps_failure t" "keeps_failure (in_order ts)" by simp_all
  show ?case unfolding keeps_failure_def
  proof (intro allI notI)
    fix s s' assume "in_order (t # ts) (False, s) = Inr (True, s')"
    then obtain b s1 where s1: "t (False, s) = Inr (b, s1)" "in_order ts (b, s1) = Inr (True, s')"
      by (auto simp: rbind_eq_Inr)
    then show False using t unfolding keeps_failure_def by (cases b) auto
  qed
qed (simp add: keeps_failure_def)

lemma fails_in_order:
  assumes "fails t" and "list_all keeps_failure ts"
  shows "fails (in_order (t # ts))"
  unfolding fails_def
proof (intro allI notI)
  fix b s s' assume "in_order (t # ts) (b, s) = Inr (True, s')"
  then obtain b1 s1 where s1: "t (b, s) = Inr (b1, s1)" "in_order ts (b1, s1) = Inr (True, s')"
    by (auto simp: rbind_eq_Inr)
  then have "\<not> b1" using assms(1) by (auto simp: fails_def)
  then show False using s1(2) keeps_in_order [OF assms(2)] by (auto simp: keeps_failure_def)
qed

lemma keeps_read_hello [fail_intro]: "(\<And>buffer. keeps_failure (k buffer)) \<Longrightarrow> keeps_failure (read_hello n c rd env buf k)"
proof (induction n arbitrary: buf)
  case (Suc n)
  then have "keeps_failure (read_hello n c rd env b k)" for b by blast
  then have "keeps_failure (case x of (rc, bytes) \<Rightarrow> \<lambda>r. read_hello n c rd env (stored bytes buf) k (assert_that (P rc bytes) (assert_that (Q rc) r)))"
    for x P Q by (cases x) (simp add: keeps_failure_def assert_that_def)
  then show ?case unfolding read_hello.simps Let_def by (rule keeps_invoke)
qed simp

lemma keeps_write_hello [fail_intro]: "keeps_failure (write_hello c wr env n)"
  unfolding write_hello_def by (rule keeps_check)

lemma no_pipe: "list_all keeps_failure ts \<Longrightarrow> fails (in_order (check (Pipe c) (\<lambda>rc. rc = 0) # ts))"
  by (rule fails_in_order [OF fails_check [OF answers_missing(1)]]) simp_all

lemma no_socket: "list_all keeps_failure ts \<Longrightarrow> fails (in_order (check (Socket c p) (\<lambda>f. f \<noteq> NOFILE) # ts))"
  by (rule fails_in_order [OF fails_check [OF answers_missing(2)]]) simp_all

lemma no_listen: "list_all keeps_failure ts \<Longrightarrow> fails (in_order (check (Listen c p) (\<lambda>rc. rc = 0) # ts))"
  by (rule fails_in_order [OF fails_check [OF answers_missing(3)]]) simp_all

lemma keeps_done: "keeps_failure Inr"
  by (simp add: keeps_failure_def)

lemma pipe_tests_fail:
  "fails (test_pipe_open rd wr env c)" "fails (test_pipe_fails_on_exhausted_fid c)"
  "fails (test_pipe_close_reader rd wr env c)" "fails (test_pipe_close_writer rd wr env c)"
proof -
  have n: "MAX_FILEID div 2 = Suc 7" by (simp add: MAX_FILEID_def)
  show "fails (test_pipe_fails_on_exhausted_fid c)"
    unfolding test_pipe_fails_on_exhausted_fid_def n replicate_Suc append_Cons
    by (rule no_pipe) (simp add: list_all_iff keeps_check)
  show "fails (test_pipe_open rd wr env c)" "fails (test_pipe_close_reader rd wr env c)"
    "fails (test_pipe_close_writer rd wr env c)"
    unfolding test_pipe_open_def test_pipe_close_reader_def test_pipe_close_writer_def append_Cons append_Nil
    by (rule no_pipe, simp add: list_all_iff fail_intro keeps_done)+
qed

lemma socket_tests_fail:
  "fails (test_socket_constructor_many_per_port c)" "fails (test_socket_constructor_out_of_fids c)"
  "fails (test_socket_constructor_illegal_port c)" "fails (test_listen_success c)"
  "fails (test_listen_fails_on_occupied_port c)" "fails (test_connect_fails_on_timeout c)"
proof -
  have n: "MAX_FILEID = Suc 15" by (simp add: MAX_FILEID_def)
  show "fails (test_socket_constructor_many_per_port c)" "fails (test_socket_constructor_out_of_fids c)"
    unfolding test_socket_constructor_many_per_port_def test_socket_constructor_out_of_fids_def n replicate_Suc append_Cons
    by (rule no_socket, simp add: list_all_iff keeps_check)+
  show "fails (test_socket_constructor_illegal_port c)" unfolding test_socket_constructor_illegal_port_def
    by (rule no_socket) (simp add: keeps_check)
  show "fails (test_listen_success c)" unfolding test_listen_success_def
    by (rule fails_invoke) (rule fails_check [OF answers_missing(3)], simp)
  show "fails (test_listen_fails_on_occupied_port c)" unfolding test_listen_fails_on_occupied_port_def
    by (rule fails_invoke, rule no_listen) (simp add: fail_intro)
  have "fails (in_order [check (Listen c l) (\<lambda>rc. rc = 0), invoke (Socket c 10) (\<lambda>cli. check (Connect c cli 100 100) (\<lambda>rc. rc = -1))])"
    for l by (rule no_listen) (simp add: fail_intro)
  then show "fails (test_connect_fails_on_timeout c)" unfolding test_connect_fails_on_timeout_def
    by (intro fails_invoke) (simp add: fails_def assert_that_def del: in_order.simps)
qed

section \<open>The tests\<close>

text \<open>
  C38: On a machine with any number of cores and terminals where \<open>TIMEOUT_LIST\<close> follows \<open>SCHED\<close> in
  memory (\<open>boot_with init_sched_lists\<close>; by the rules of C the start faults, see
  \<open>boot_out_of_bounds\<close>), whichever core first takes the thread of the first process after the
  start, the tests of the repository on processes, streams
  and errors that need no other thread pass there: the system calls that they make return what
  the tests expect, none blocks, and the loops over the terminals stay inside their arrays.  The
  tests that expect a call on sockets to fail pass too, since these calls are not implemented.
\<close>

theorem api_tests_pass:
  assumes "0 < n" and "n \<le> MAX_CORES" and "unat k \<le> MAX_TERMINALS"
    and "args_ok a len ((static_kernel h)\<lparr>mem := M\<rparr>)" and "c < n"
  shows "\<exists>s0 s1 s. boot_with init_sched_lists n k clk (Some f) len a adr ((static_kernel h)\<lparr>mem := M\<rparr>) = Inr s0 \<and>
    yield_switch c SCHED_USER s0 = Inr s1 \<and> gain c True s1 = Inr s \<and> CURPROC c s = Inr 1 \<and> nterm s = k \<and>
    list_all (\<lambda>t. \<exists>s'. t (True, s) = Inr (True, s')) (basic_tests env buf c @ error_tests c)"
proof -
  obtain m pa ta where adr: "adr = (m, pa, ta)" by (cases adr)
  obtain s0 where s0: "boot_with init_sched_lists n k clk (Some f) len a adr ((static_kernel h)\<lparr>mem := M\<rparr>) = Inr s0"
    "started n k (Some f) len a (m, pa, ta) s0" unfolding adr by (rule boot_started [OF assms(1-4)])
  obtain s1 s where s: "yield_switch c SCHED_USER s0 = Inr s1" "gain c True s1 = Inr s" "main_run c Map.empty s" "nterm s = k"
    by (rule first_thread_runs [OF s0(2) assms(5)])
  have g: "good c t \<Longrightarrow> \<exists>s'. t (True, s) = Inr (True, s')" for t using s(3) unfolding good_def by blast
  have "list_all (\<lambda>t. \<exists>s'. t (True, s) = Inr (True, s')) (basic_tests env buf c)"
    using null_device_passes [OF s(3)] get_terminals_passes [OF s(3)] terminals_pass [OF s(3)] assms(3) s(4)
      dup2_nonfile_passes [OF s(3)] dup2_invalid_passes [OF s(3)] bad_fid_passes [OF s(3)]
    by (auto simp: basic_tests_def intro!: g pid_good waitchild_good close_error_good close_success_good)
  moreover have "list_all (\<lambda>t. \<exists>s'. t (True, s) = Inr (True, s')) (error_tests c)"
    using listen_good accept_good connect_good by (auto simp: error_tests_def intro!: g)
  ultimately show ?thesis using s0(1) s main_runD(3) [OF s(3)] by auto
qed

theorem api_tests_pass_witness:
  "\<exists>s0 s1 s. boot_with init_sched_lists 2 3 0 (Some 0) 0 None boot_args
       ((static_kernel \<lparr>prv = id, nxt = id, obj = \<lambda>_. ONull\<rparr>)\<lparr>mem := Map.empty\<rparr>) = Inr s0 \<and>
     yield_switch 1 SCHED_USER s0 = Inr s1 \<and> gain 1 True s1 = Inr s \<and> CURPROC 1 s = Inr 1 \<and> nterm s = 3 \<and>
     list_all (\<lambda>t. \<exists>s'. t (True, s) = Inr (True, s')) (basic_tests (dev_answers [] []) [] 1 @ error_tests 1)"
  by (rule api_tests_pass) (simp_all add: MAX_CORES_def MAX_TERMINALS_def args_ok_def)

text \<open>
  The tests of pipes and sockets that need one fail, in every state of the kernel and
  whatever is in their uninitialised variables: they never come to their end without a failed
  assertion, since the kernel refuses every pipe and every socket.
\<close>

theorem pipe_and_socket_tests_fail:
  "list_all (\<lambda>t. \<forall>s s'. t (True, s) \<noteq> Inr (True, s')) (stream_pair_tests rd wr env c)"
  by (simp add: stream_pair_tests_def pipe_tests_fail [unfolded fails_def, rule_format]
      socket_tests_fail [unfolded fails_def, rule_format])

end
