(* ===== verification/Unit_Testing.thy ===== *)
theory Unit_Testing
  imports Shell_Programs RList_Loops
begin

text \<open>
  The test runner of src/unit_testing.c: its messages, the relays that play the user of a terminal,
  the tree of tests and its run, and the options of the program.  What the host answers (\<open>poll\<close>,
  \<open>read\<close>, \<open>write\<close>, how the process of a test ended) is an argument.
\<close>

section \<open>Messages\<close>

record msg_state =
  out :: string
  INDENT_STACK :: "nat list"
  INDENT_POS :: nat
  CURRENT_POS :: nat
  EMIT_INDENT :: bool

definition INDENT_STACK_MAX :: nat where "INDENT_STACK_MAX = 128"
definition INDENT_STEP :: nat where "INDENT_STEP = 8"

text \<open>The last position that was saved is the head of the list.\<close>

definition INDENT :: "msg_state \<Rightarrow> msg_state result" where
  "INDENT m = (if length (INDENT_STACK m) < INDENT_STACK_MAX
     then Inr (m\<lparr>INDENT_STACK := INDENT_POS m # INDENT_STACK m, INDENT_POS := INDENT_POS m + INDENT_STEP\<rparr>)
     else Inl AssertFail)"

definition UNINDENT :: "msg_state \<Rightarrow> msg_state result" where
  "UNINDENT m = (case INDENT_STACK m of
     [] \<Rightarrow> Inl AssertFail
   | p # ps \<Rightarrow> Inr (m\<lparr>INDENT_STACK := ps, INDENT_POS := p\<rparr>))"

definition TAB :: "msg_state \<Rightarrow> msg_state result" where
  "TAB m = (if length (INDENT_STACK m) < INDENT_STACK_MAX
     then Inr (m\<lparr>INDENT_STACK := INDENT_POS m # INDENT_STACK m, INDENT_POS := INDENT_POS m + CURRENT_POS m\<rparr>)
     else Inl AssertFail)"

definition esc :: "string \<Rightarrow> string" where "esc s = CHR 0x1B # s"
definition RED :: string where "RED = esc ''[31;1m''"
definition GREEN :: string where "GREEN = esc ''[32;1m''"
definition YELLOW :: string where "YELLOW = esc ''[33;1m''"
definition CYAN :: string where "CYAN = esc ''[36;1m''"
definition WHITE :: string where "WHITE = esc ''[37;1m''"

text \<open>\<open>snprintf\<close> keeps 255 characters.\<close>

definition COLOR :: "bool \<Rightarrow> string \<Rightarrow> string \<Rightarrow> string" where
  "COLOR tty msg color = take 255 ((if tty then color else '''') @ msg @ (if tty then esc ''[0m'' else ''''))"

text \<open>\<open>MSG\<close> of the text that \<open>vfprintf\<close> makes.\<close>

fun MSG :: "string \<Rightarrow> msg_state \<Rightarrow> msg_state" where
  "MSG [] m = m"
| "MSG (ch # text) m =
     (let m1 = (if EMIT_INDENT m
                then m\<lparr>out := out m @ replicate (INDENT_POS m) CHR '' '', EMIT_INDENT := False\<rparr> else m);
          m2 = (if ch = newline then m1\<lparr>EMIT_INDENT := True, CURRENT_POS := 0\<rparr>
                else m1\<lparr>CURRENT_POS := CURRENT_POS m1 + 1\<rparr>)
      in MSG text (m2\<lparr>out := out m2 @ [ch]\<rparr>))"

section \<open>The patterns of a terminal\<close>

text \<open>
  The list of a daemon, a monitor: each section between the lock and the unlock of its mutex is
  one step.  A node is on the heap and holds a string.  \<open>term_proxy_daemon_get\<close> waits when there
  is neither a pattern nor the end.
\<close>

datatype pat_key = NoPattern | Pattern string

record proxy_daemon =
  complete :: bool
  pattern :: "(nat, pat_key) rlheap"

definition daemon_init :: "(nat, pat_key) rlheap \<Rightarrow> proxy_daemon" where
  "daemon_init h = \<lparr>complete = False, pattern = rlnode_init 0 NoPattern h\<rparr>"

definition term_proxy_daemon_add :: "nat \<Rightarrow> string \<Rightarrow> proxy_daemon \<Rightarrow> proxy_daemon result" where
  "term_proxy_daemon_add newnode pat this =
     (if complete this then Inl AssertFail
      else Inr (this\<lparr>pattern := rlist_push_back 0 newnode (rlnode_init newnode (Pattern pat) (pattern this))\<rparr>))"

datatype got = Waits | Ends | Gets string

definition term_proxy_daemon_get :: "proxy_daemon \<Rightarrow> got \<times> proxy_daemon" where
  "term_proxy_daemon_get this =
     (if \<not> complete this \<and> is_rlist_empty 0 (pattern this) then (Waits, this)
      else if \<not> is_rlist_empty 0 (pattern this)
      then (let (n, h) = rlist_pop_front 0 (pattern this)
            in (case obj h n of Pattern p \<Rightarrow> Gets p | NoPattern \<Rightarrow> Ends, this\<lparr>pattern := h\<rparr>))
      else (Ends, this))"

definition term_proxy_daemon_close :: "proxy_daemon \<Rightarrow> proxy_daemon" where
  "term_proxy_daemon_close this = this\<lparr>complete := True\<rparr>"

section \<open>The screen of a terminal\<close>

text \<open>
  What \<open>con_proc\<close> is answered: a turn of its polling loop, with what \<open>term_proxy_daemon_complete\<close>
  says before and after the poll (when it is asked) and whether there is input; or what \<open>read\<close>
  returns.  The result is what is left of the pattern when it stops and the answers not used;
  the test fails if something is left.
\<close>

datatype con_answer = Polled bool bool bool | Read_EINTR | Read_EAGAIN | Read_error | Read_bytes string

fun con_poll :: "string \<Rightarrow> bool \<Rightarrow> con_answer list \<Rightarrow> (string \<times> con_answer list) result option"
and con_read :: "string \<Rightarrow> bool \<Rightarrow> con_answer list \<Rightarrow> (string \<times> con_answer list) result option" where
  "con_poll pat cmpl (Polled before data after # as) =
     (if data then con_read pat (cmpl \<or> before) as
      else if cmpl \<or> before \<or> after then Some (Inr (pat, as))
      else con_poll pat False as)"
| "con_poll pat cmpl _ = None"
| "con_read pat cmpl (Read_EINTR # as) = con_read pat cmpl as"
| "con_read pat cmpl (Read_EAGAIN # as) = con_poll pat cmpl as"
| "con_read pat cmpl (Read_error # as) = Some (Inl AssertFail)"
| "con_read pat cmpl (Read_bytes coninput # as) =
     (if coninput = [] \<or> length coninput > 1024 then Some (Inl AssertFail)
      else if take (length coninput) pat \<noteq> coninput then Some (Inr (pat, as))
      else if drop (length coninput) pat = [] then Some (Inr ([], as))
      else con_poll (drop (length coninput) pat) cmpl as)"
| "con_read pat cmpl _ = None"

definition con_proc :: "string \<Rightarrow> con_answer list \<Rightarrow> (string \<times> con_answer list) result option" where
  "con_proc pat as = (if pat = [] then Some (Inr ([], as)) else con_poll pat False as)"

section \<open>The keyboard of a terminal\<close>

text \<open>
  A turn of the polling loop of \<open>kbd_proc\<close>: what \<open>term_proxy_daemon_complete\<close> says, and, if it
  says no, whether the pipe takes output; what it says when it is asked again; and what
  \<open>write\<close> returns.  The result is what was written and what was not.
\<close>

datatype kbd_answer = Kbd_polled bool bool | Complete bool | Written nat | Write_EINTR | Write_EAGAIN | Write_EPIPE

fun kbd_poll :: "string \<Rightarrow> string \<Rightarrow> kbd_answer list \<Rightarrow> (string \<times> string) result option"
and kbd_write :: "bool \<Rightarrow> string \<Rightarrow> string \<Rightarrow> kbd_answer list \<Rightarrow> (string \<times> string) result option" where
  "kbd_poll sent pat (Kbd_polled cmpl ready # as) =
     (if cmpl \<or> ready then (case as of Complete oldcomplete # as' \<Rightarrow> kbd_write oldcomplete sent pat as' | _ \<Rightarrow> None)
      else kbd_poll sent pat as)"
| "kbd_poll sent pat _ = None"
| "kbd_write oldcomplete sent pat (Write_EINTR # as) = kbd_write oldcomplete sent pat as"
| "kbd_write oldcomplete sent pat (Written n # as) =
     (if n = 0 then Some (Inl AssertFail)
      else if drop n pat = [] then Some (Inr (sent @ take n pat, []))
      else kbd_write oldcomplete (sent @ take n pat) (drop n pat) as)"
| "kbd_write oldcomplete sent pat (Write_EAGAIN # as) =
     (if oldcomplete then Some (Inr (sent, pat)) else kbd_poll sent pat as)"
| "kbd_write oldcomplete sent pat (Write_EPIPE # as) = Some (Inl AssertFail)"
| "kbd_write oldcomplete sent pat _ = None"

definition kbd_proc :: "string \<Rightarrow> kbd_answer list \<Rightarrow> (string \<times> string) result option" where
  "kbd_proc pat as = (if pat = [] then Some (Inr ([], [])) else kbd_poll [] pat as)"

section \<open>Executing a test\<close>

text \<open>
  What the function of a test does when it is executed in a process of its own: it returns, with
  or without a failed assertion, it ends by a signal, it exits, or it runs past its timeout and
  is killed.
\<close>

datatype outcome = Returned bool | Signal nat | Exits nat | Timeout

datatype wait_status = Exited nat | Signaled nat

definition SIGABRT :: nat where "SIGABRT = 6"
definition SIGTERM :: nat where "SIGTERM = 15"

definition execute_fork :: "outcome \<Rightarrow> wait_status" where
  "execute_fork r = (case r of
     Returned failure \<Rightarrow> if failure then Signaled SIGABRT else Exited 129
   | Signal sig \<Rightarrow> Signaled sig
   | Exits n \<Rightarrow> Exited (n mod 256)
   | Timeout \<Rightarrow> Signaled SIGTERM)"

definition passed :: "wait_status \<Rightarrow> bool" where
  "passed st = (case st of Exited n \<Rightarrow> n = 129 | Signaled sig \<Rightarrow> False)"

section \<open>The tree of tests\<close>

record test_info =
  test_name :: string
  description :: string
  timeout :: nat
  minimum_terminals :: nat
  minimum_cores :: nat

datatype 'f test =
    NO_FUNC test_info
  | BARE_FUNC test_info 'f
  | BOOT_FUNC test_info 'f
  | SUITE_FUNC test_info "'f test list"

fun info :: "'f test \<Rightarrow> test_info" where
  "info (NO_FUNC i) = i"
| "info (BARE_FUNC i f) = i"
| "info (BOOT_FUNC i f) = i"
| "info (SUITE_FUNC i ts) = i"

text \<open>
  The program's arguments that the run reads, and the host: whether standard error is a terminal,
  the names of the signals, and how a test function behaves on a machine or alone.
\<close>

record 'f program_arguments =
  show_tests :: bool
  verbose :: nat
  use_color :: bool
  fork :: bool
  ncore_list :: nat
  core_list :: "int list"
  nterm_list :: nat
  term_list :: "int list"
  tests :: "'f test list"

record 'f host =
  isatty :: bool
  strsignal :: "nat \<Rightarrow> string"
  boot_outcome :: "'f \<Rightarrow> int \<Rightarrow> int \<Rightarrow> outcome"
  bare_outcome :: "'f \<Rightarrow> outcome"

definition ARGS_INIT :: "'f program_arguments" where
  "ARGS_INIT = \<lparr>show_tests = False, verbose = 0, use_color = True, fork = True,
     ncore_list = 1, core_list = 1 # replicate 31 0, nterm_list = 1, term_list = replicate 5 0, tests = []\<rparr>"

definition paint :: "'f program_arguments \<Rightarrow> 'f host \<Rightarrow> string \<Rightarrow> string \<Rightarrow> string" where
  "paint A H = COLOR (use_color A \<and> isatty H)"

definition crash_msg :: "'f host \<Rightarrow> wait_status \<Rightarrow> msg_state \<Rightarrow> msg_state" where
  "crash_msg H st = (case st of
     Exited n \<Rightarrow> id
   | Signaled sig \<Rightarrow> MSG (''Test crashed, signal='' @ decimal (int sig) @ '' ('' @ strsignal H sig @ '')'' @ [newline]))"

definition verdict :: "'f program_arguments \<Rightarrow> 'f host \<Rightarrow> bool \<Rightarrow> string" where
  "verdict A H result = (if result then paint A H ''ok'' GREEN else paint A H ''*** FAILED ***'' RED)"

text \<open>
  Without a process of its own (\<open>--nofork\<close>) a test that does not return, or fails, ends the
  program, which is a fault here, or never ends.
\<close>

definition execute :: "'f program_arguments \<Rightarrow> outcome \<Rightarrow> wait_status result" where
  "execute A r =
     (if fork A then Inr (execute_fork r)
      else case r of
        Returned failure \<Rightarrow> if failure then Inl AssertFail else Inr (Exited 129)
      | Timeout \<Rightarrow> Inl Diverges
      | _ \<Rightarrow> Inl AssertFail)"

text \<open>A test on a machine.  A test that is skipped counts as a success.\<close>

definition run_boot_test ::
  "'f program_arguments \<Rightarrow> 'f host \<Rightarrow> test_info \<Rightarrow> 'f \<Rightarrow> int \<Rightarrow> int \<Rightarrow> msg_state \<Rightarrow> (bool \<times> msg_state) result" where
  "run_boot_test A H i f ncores nterm m =
     (let skipped = \<not> (ncores \<ge> int (minimum_cores i) \<and> nterm \<ge> int (minimum_terminals i))
      in rbind (if skipped then Inr (True, m)
                else rbind (execute A (boot_outcome H f ncores nterm)) (\<lambda>st. Inr (passed st, crash_msg H st m))) (\<lambda>(result, m1).
         Inr (result, MSG ('' '' @ (if skipped then paint A H ''skipped'' CYAN else verdict A H result) @ [newline])
           (MSG (pad_right 52 (paint A H (test_name i) WHITE) @ '' [cores='' @ pad_left 2 (decimal ncores) @
              '',term='' @ pad_left 1 (decimal nterm) @ '']:'') m1))))"

fun run_boot_tests ::
  "'f program_arguments \<Rightarrow> 'f host \<Rightarrow> test_info \<Rightarrow> 'f \<Rightarrow> (int \<times> int) list \<Rightarrow> bool \<times> msg_state \<Rightarrow> (bool \<times> msg_state) result" where
  "run_boot_tests A H i f [] r = Inr r"
| "run_boot_tests A H i f ((ncores, nterm) # vms) (result, m) =
     rbind (run_boot_test A H i f ncores nterm m) (\<lambda>(r, m1). run_boot_tests A H i f vms (result \<and> r, m1))"

text \<open>The machines: every number of cores with every number of terminals.\<close>

definition machines :: "'f program_arguments \<Rightarrow> (int \<times> int) list" where
  "machines A = List.product (take (ncore_list A) (core_list A)) (take (nterm_list A) (term_list A))"

definition result_line :: "'f program_arguments \<Rightarrow> 'f host \<Rightarrow> test_info \<Rightarrow> bool \<Rightarrow> msg_state \<Rightarrow> msg_state" where
  "result_line A H i result m =
     MSG ('' '' @ verdict A H result @ [newline]) (MSG (pad_right 70 (paint A H (test_name i) WHITE) @ '':'') m)"

text \<open>The end of \<open>run_test\<close>: the description of a test that failed.\<close>

definition describe :: "'f program_arguments \<Rightarrow> test_info \<Rightarrow> bool \<times> msg_state \<Rightarrow> (bool \<times> msg_state) result" where
  "describe A i r = (case r of (result, m) \<Rightarrow>
     if \<not> result \<and> verbose A > 0
     then rbind (INDENT m) (\<lambda>m1.
       rbind (TAB (MSG ''description: '' m1)) (\<lambda>m2.
       rbind (UNINDENT (MSG (description i @ [newline]) m2)) (\<lambda>m3.
       rbind (UNINDENT m3) (\<lambda>m4. Inr (result, m4)))))
     else Inr (result, m))"

text \<open>\<open>run_suite\<close> counts the tests and those that succeed.\<close>

definition suite_start :: "'f program_arguments \<Rightarrow> 'f host \<Rightarrow> string \<Rightarrow> msg_state \<Rightarrow> msg_state result" where
  "suite_start A H name m = INDENT (MSG (''running suite: '' @ paint A H name YELLOW @ [newline]) m)"

definition suite_end :: "'f program_arguments \<Rightarrow> 'f host \<Rightarrow> string \<Rightarrow> nat \<times> nat \<times> msg_state \<Rightarrow> (bool \<times> msg_state) result" where
  "suite_end A H name r = (case r of (number, successful, m) \<Rightarrow>
     rbind (UNINDENT (MSG (''suite '' @ paint A H name YELLOW @ '' completed [tests='' @ decimal (int number) @
       '', failed='' @ decimal (int number - int successful) @ '']'' @ [newline]) m)) (\<lambda>m1.
     Inr (number = successful, m1)))"

fun run_test :: "'f program_arguments \<Rightarrow> 'f host \<Rightarrow> 'f test \<Rightarrow> msg_state \<Rightarrow> (bool \<times> msg_state) result"
and run_tests :: "'f program_arguments \<Rightarrow> 'f host \<Rightarrow> 'f test list \<Rightarrow> nat \<times> nat \<times> msg_state \<Rightarrow> (nat \<times> nat \<times> msg_state) result" where
  "run_test A H (NO_FUNC i) m = Inr (True, m)"
| "run_test A H (BOOT_FUNC i f) m = rbind (run_boot_tests A H i f (machines A) (True, m)) (describe A i)"
| "run_test A H (BARE_FUNC i f) m =
     rbind (execute A (bare_outcome H f)) (\<lambda>st.
       describe A i (passed st, result_line A H i (passed st) (crash_msg H st m)))"
| "run_test A H (SUITE_FUNC i ts) m =
     rbind (suite_start A H (test_name i) m) (\<lambda>m1.
     rbind (run_tests A H ts (0, 0, m1)) (\<lambda>r.
     rbind (suite_end A H (test_name i) r) (\<lambda>(result, m2).
     describe A i (result, result_line A H i result m2))))"
| "run_tests A H [] r = Inr r"
| "run_tests A H (t # ts) (number, successful, m) =
     rbind (run_test A H t m) (\<lambda>(testres, m1).
       run_tests A H ts (number + 1, if testres then successful + 1 else successful, m1))"

section \<open>Choosing tests\<close>

definition MAX_TESTS_AVAILABLE :: nat where "MAX_TESTS_AVAILABLE = 64"

definition register_test :: "'f test \<Rightarrow> 'f test list \<Rightarrow> int \<times> 'f test list" where
  "register_test t available =
     (if length available < MAX_TESTS_AVAILABLE then (0, available @ [t]) else (-1, available))"

definition all_tests_available :: "'f test list \<Rightarrow> 'f test" where
  "all_tests_available available = SUITE_FUNC \<lparr>test_name = ''all_tests_available'',
     description = ''Used by find_test()'', timeout = 10, minimum_terminals = 0, minimum_cores = 1\<rparr> available"

fun find_test :: "string \<Rightarrow> 'f test \<Rightarrow> 'f test option" and find_tests :: "string \<Rightarrow> 'f test list \<Rightarrow> 'f test option" where
  "find_test name t =
     (if name = test_name (info t) then Some t
      else case t of SUITE_FUNC i ts \<Rightarrow> find_tests name ts | _ \<Rightarrow> None)"
| "find_tests name [] = None"
| "find_tests name (t # ts) = (case find_test name t of Some u \<Rightarrow> Some u | None \<Rightarrow> find_tests name ts)"

fun show_test :: "'f program_arguments \<Rightarrow> 'f host \<Rightarrow> 'f test \<Rightarrow> msg_state \<Rightarrow> msg_state result"
and show_suite :: "'f program_arguments \<Rightarrow> 'f host \<Rightarrow> test_info \<Rightarrow> 'f test list \<Rightarrow> msg_state \<Rightarrow> msg_state result"
and show_each :: "'f program_arguments \<Rightarrow> 'f host \<Rightarrow> 'f test list \<Rightarrow> msg_state \<Rightarrow> msg_state result" where
  "show_test A H t m =
     (case t of
        SUITE_FUNC i ts \<Rightarrow> show_suite A H i ts m
      | _ \<Rightarrow> (let i = info t; m1 = MSG (pad_right 40 (paint A H (test_name i) WHITE) @ [newline]) m
             in if verbose A > 0
                then rbind (INDENT m1) (\<lambda>m2.
                  (let m3 = MSG (description i @ [newline]) m2;
                       m4 = (if verbose A > 1
                             then MSG (''.minimum cores = '' @ decimal (int (minimum_cores i)) @ [newline] @
                                    ''.minimum terminals = '' @ decimal (int (minimum_terminals i)) @ [newline])
                                    (MSG (''.timeout = '' @ decimal (int (timeout i)) @ '' sec'' @ [newline]) m3)
                             else m3)
                   in UNINDENT m4))
                else Inr m1))"
| "show_suite A H i ts m =
     rbind (INDENT (MSG (pad_right 40 (paint A H (test_name i) YELLOW) @ [newline]) m)) (\<lambda>m1.
     rbind (show_each A H ts (if verbose A > 0 then MSG (description i @ [newline]) m1 else m1)) UNINDENT)"
| "show_each A H [] m = Inr m"
| "show_each A H (t # ts) m = rbind (show_test A H t m) (show_each A H ts)"

section \<open>The options\<close>

text \<open>The tokens that \<open>strtok\<close> finds between commas; \<open>cur\<close> is the token that is being read.\<close>

fun comma_tokens :: "string \<Rightarrow> string \<Rightarrow> string list" where
  "comma_tokens cur [] = (if cur = [] then [] else [cur])"
| "comma_tokens cur (c # cs) =
     (if c = CHR '','' then (if cur = [] then comma_tokens [] cs else cur # comma_tokens [] cs)
      else comma_tokens (cur @ [c]) cs)"

text \<open>\<open>strtol\<close> of a 64-bit \<open>long\<close>: the number and what follows it, or \<open>None\<close> if there is none.\<close>

definition strtol :: "string \<Rightarrow> (int \<times> string) option" where
  "strtol s =
     (let t = dropWhile isspace s;
          u = (case t of [] \<Rightarrow> t | c # r \<Rightarrow> if c = CHR ''-'' \<or> c = CHR ''+'' then r else t)
      in if takeWhile isdigit u = [] then None
         else Some (max (- (2 ^ 63)) (min (2 ^ 63 - 1) (atoi s)), dropWhile isdigit u))"

text \<open>
  The loop of \<open>parse_int_list\<close>: \<open>nlist\<close> is the array for the result with what is in it before,
  \<open>args\<close> the elements stored so far in the local array.  \<open>None\<close> is the return of 0.
\<close>

fun parse_tokens :: "int \<Rightarrow> int \<Rightarrow> int list \<Rightarrow> string list \<Rightarrow> int list \<Rightarrow> int list option result" where
  "parse_tokens from to nlist [] args = Inr (Some args)"
| "parse_tokens from to nlist (token # ts) args =
     (case strtol token of
        None \<Rightarrow> Inr None
      | Some (v, rest) \<Rightarrow>
          (let num = sint (word_of_int v :: cint)
           in if rest \<noteq> [] \<or> num < from \<or> num > to then Inr None
              else if num \<in> set (take (length args) nlist) then parse_tokens from to nlist ts args
              else if length args < nat (to - from + 1) then parse_tokens from to nlist ts (args @ [num])
              else Inl BadIndex))"

definition parse_int_list :: "string \<Rightarrow> nat \<Rightarrow> int list \<Rightarrow> int \<Rightarrow> int \<Rightarrow> (bool \<times> nat \<times> int list) result" where
  "parse_int_list arg nlen nlist from to =
     rbind (parse_tokens from to nlist (comma_tokens [] arg) []) (\<lambda>r. case r of
       None \<Rightarrow> Inr (False, nlen, nlist)
     | Some args \<Rightarrow> Inr (args \<noteq> [], length args, sort args @ drop (length args) nlist))"

datatype opt_key = OPT char | KEY_ARG | KEY_NO_ARGS

text \<open>\<open>argp_error\<close> prints its message and ends the program: the result is \<open>None\<close>.\<close>

definition MAX_TESTS :: nat where "MAX_TESTS = 1024"

definition parse_options ::
  "'f test \<Rightarrow> 'f test list \<Rightarrow> opt_key \<times> string \<Rightarrow> 'f program_arguments \<Rightarrow> 'f program_arguments option result" where
  "parse_options default_test available opt A = (case opt of (key, arg) \<Rightarrow> (case key of
     OPT k \<Rightarrow>
       if k = CHR ''l'' then Inr (Some (A\<lparr>show_tests := True\<rparr>))
       else if k = CHR ''v'' then Inr (Some (A\<lparr>verbose := verbose A + 1\<rparr>))
       else if k = CHR ''n'' then Inr (Some (A\<lparr>use_color := False\<rparr>))
       else if k = CHR ''F'' then Inr (Some (A\<lparr>fork := True\<rparr>))
       else if k = CHR ''f'' then Inr (Some (A\<lparr>fork := False\<rparr>))
       else if k = CHR ''c'' then rbind (parse_int_list arg (ncore_list A) (core_list A) 1 32) (\<lambda>(ok, n, l).
         Inr (if ok then Some (A\<lparr>ncore_list := n, core_list := l\<rparr>) else None))
       else if k = CHR ''t'' then rbind (parse_int_list arg (nterm_list A) (term_list A) 0 4) (\<lambda>(ok, n, l).
         Inr (if ok then Some (A\<lparr>nterm_list := n, term_list := l\<rparr>) else None))
       else Inr (Some A)
   | KEY_ARG \<Rightarrow>
       if length (tests A) \<ge> MAX_TESTS then Inr None
       else (case find_test arg (all_tests_available available) of
               None \<Rightarrow> Inr None
             | Some t \<Rightarrow> Inr (Some (A\<lparr>tests := tests A @ [t]\<rparr>)))
   | KEY_NO_ARGS \<Rightarrow> Inr (Some (A\<lparr>tests := tests A @ [default_test]\<rparr>))))"

fun parse_all ::
  "'f test \<Rightarrow> 'f test list \<Rightarrow> (opt_key \<times> string) list \<Rightarrow> 'f program_arguments \<Rightarrow> 'f program_arguments option result" where
  "parse_all dflt available [] A = Inr (Some A)"
| "parse_all dflt available (opt # opts) A =
     rbind (parse_options dflt available opt A) (\<lambda>r. case r of None \<Rightarrow> Inr None | Some B \<Rightarrow> parse_all dflt available opts B)"

fun run_each :: "'f program_arguments \<Rightarrow> 'f host \<Rightarrow> 'f test list \<Rightarrow> msg_state \<Rightarrow> msg_state result" where
  "run_each A H [] m = Inr m"
| "run_each A H (t # ts) m = rbind (run_test A H t m) (\<lambda>(result, m1). run_each A H ts m1)"

text \<open>
  The options in the order in which \<open>argp_parse\<close> hands them over are an argument.  The exit
  status is that of the program; \<open>argp_error\<close> ends it with 64.
\<close>

definition run_program ::
  "bool \<Rightarrow> 'f test \<Rightarrow> 'f test list \<Rightarrow> 'f host \<Rightarrow> (opt_key \<times> string) list \<Rightarrow> msg_state \<Rightarrow> (int \<times> msg_state) result" where
  "run_program debugger default_test available H opts m =
     rbind (parse_all default_test available opts (ARGS_INIT\<lparr>fork := \<not> debugger\<rparr>)) (\<lambda>r. case r of
       None \<Rightarrow> Inr (64, m)
     | Some A \<Rightarrow> rbind (if show_tests A
           then show_test A H (all_tests_available available) m
           else run_each A H (tests A) m) (\<lambda>m1. Inr (0, m1)))"

text \<open>\<open>buf\<close> is what was read of the file \<open>status\<close>, without the final zero.\<close>

fun find_string :: "string \<Rightarrow> string \<Rightarrow> string option" where
  "find_string pat s =
     (if take (length pat) s = pat then Some s else case s of [] \<Rightarrow> None | c # cs \<Rightarrow> find_string pat cs)"

declare find_string.simps [simp del]

definition isDebuggerAttached :: "string \<Rightarrow> bool" where
  "isDebuggerAttached buf =
     (case find_string ''TracerPid:'' buf of
        None \<Rightarrow> False
      | Some s \<Rightarrow> (case dropWhile isspace (drop 10 s) of
            [] \<Rightarrow> False
          | c # cs \<Rightarrow> isdigit c \<and> c \<noteq> CHR ''0''))"

end
