(* ===== verification/Unit_Testing_Props.thy ===== *)
theory Unit_Testing_Props
  imports Unit_Testing
begin

text \<open>
  Properties of the test runner: what the run of a tree of tests reports, the relays of the
  terminals, the choice of tests by name and the lists of numbers in its options.
\<close>

section \<open>Messages\<close>

lemma MSG_keeps [simp]:
  "INDENT_STACK (MSG cs m) = INDENT_STACK m" "INDENT_POS (MSG cs m) = INDENT_POS m"
  by (induction cs m rule: MSG.induct) (simp_all add: Let_def)

text \<open>A line is printed after the current indent.\<close>

lemma MSG_line:
  assumes "newline \<notin> set line" and "EMIT_INDENT m"
  shows "out (MSG (line @ [newline]) m) = out m @ replicate (INDENT_POS m) CHR '' '' @ line @ [newline] \<and>
    EMIT_INDENT (MSG (line @ [newline]) m)"
proof -
  have go: "out (MSG (line @ [newline]) m) = out m @ line @ [newline] \<and> EMIT_INDENT (MSG (line @ [newline]) m)"
    if "newline \<notin> set line" "\<not> EMIT_INDENT m" for line m
    using that by (induction line arbitrary: m) (auto simp: Let_def)
  show ?thesis
  proof (cases line)
    case (Cons c cs)
    with assms go [of cs "m\<lparr>EMIT_INDENT := False, CURRENT_POS := Suc (CURRENT_POS m),
        out := out m @ replicate (INDENT_POS m) CHR '' '' @ [c]\<rparr>"] show ?thesis by (auto simp: Let_def)
  qed (use assms in \<open>simp add: Let_def\<close>)
qed

declare MSG.simps [simp del]

section \<open>The run of the tests\<close>

fun depth :: "'f test \<Rightarrow> nat" where
  "depth (SUITE_FUNC i ts) = Suc (fold max (map depth ts) 0)"
| "depth _ = 0"

lemma depth_member: "t \<in> set ts \<Longrightarrow> depth t < depth (SUITE_FUNC i ts)"
proof -
  have "x \<in> set xs \<Longrightarrow> x \<le> fold max xs a \<and> a \<le> fold max xs (a :: nat)" and "a \<le> fold max xs a" for x xs and a :: nat
    by (induction xs arbitrary: a) (auto intro: order.trans [OF max.cobounded1] order.trans [OF max.cobounded2])
  then have "x \<in> set xs \<Longrightarrow> x \<le> fold max xs (0 :: nat)" for x xs by blast
  then show "t \<in> set ts \<Longrightarrow> ?thesis" by (simp add: less_Suc_eq_le)
qed

text \<open>A test succeeds when its function does on every machine that has what it needs.\<close>

fun succeeds :: "'f program_arguments \<Rightarrow> 'f host \<Rightarrow> 'f test \<Rightarrow> bool" where
  "succeeds A H (NO_FUNC i) = True"
| "succeeds A H (BARE_FUNC i f) = passed (execute_fork (bare_outcome H f))"
| "succeeds A H (BOOT_FUNC i f) = list_all (\<lambda>(n, k). n \<ge> int (minimum_cores i) \<and> k \<ge> int (minimum_terminals i) \<longrightarrow>
     passed (execute_fork (boot_outcome H f n k))) (machines A)"
| "succeeds A H (SUITE_FUNC i ts) = list_all (succeeds A H) ts"

definition same_indent :: "msg_state \<Rightarrow> msg_state \<Rightarrow> bool" where
  "same_indent m m' \<longleftrightarrow> INDENT_STACK m' = INDENT_STACK m \<and> INDENT_POS m' = INDENT_POS m"

lemma same_indent_MSG [simp]: "same_indent m (MSG text m') = same_indent m m'" "same_indent m m"
  by (simp_all add: same_indent_def)

lemma same_indent_lines [simp]:
  "same_indent m (result_line A H i r m') = same_indent m m'" "same_indent m (crash_msg H st m') = same_indent m m'"
  by (simp_all add: result_line_def crash_msg_def split: wait_status.split)

lemma describe_eq:
  assumes "length (INDENT_STACK m) + 2 \<le> INDENT_STACK_MAX"
  shows "\<exists>m'. describe A i (r, m) = Inr (r, m') \<and> same_indent m m'"
  using assms by (simp add: describe_def INDENT_def TAB_def UNINDENT_def same_indent_def)

lemma run_boot_test_eq:
  assumes "fork A"
  shows "\<exists>m'. run_boot_test A H i f n k m = Inr (n \<ge> int (minimum_cores i) \<and> k \<ge> int (minimum_terminals i) \<longrightarrow>
     passed (execute_fork (boot_outcome H f n k)), m') \<and> same_indent m m'"
  using assms by (auto simp: run_boot_test_def execute_def Let_def)

lemma run_boot_tests_eq:
  assumes "fork A"
  shows "\<exists>m'. run_boot_tests A H i f vms (r, m) = Inr (r \<and> list_all (\<lambda>(n, k). n \<ge> int (minimum_cores i) \<and>
     k \<ge> int (minimum_terminals i) \<longrightarrow> passed (execute_fork (boot_outcome H f n k))) vms, m') \<and> same_indent m m'"
proof (induction vms arbitrary: r m)
  case (Cons vm vms)
  obtain n k where vm: "vm = (n, k)" by fastforce
  obtain m1 where m1: "run_boot_test A H i f n k m = Inr (n \<ge> int (minimum_cores i) \<and> k \<ge> int (minimum_terminals i) \<longrightarrow>
     passed (execute_fork (boot_outcome H f n k)), m1)" "same_indent m m1"
    using run_boot_test_eq [OF assms] by blast
  show ?case using Cons.IH [of "r \<and> _" m1] m1
    by (auto simp: vm same_indent_def)
qed simp

lemma run_test_eq:
  assumes "fork A" and "length (INDENT_STACK m) + depth t + 2 \<le> INDENT_STACK_MAX"
  shows "\<exists>m'. run_test A H t m = Inr (succeeds A H t, m') \<and> same_indent m m'"
  using assms(2)
proof (induction t arbitrary: m)
  case (SUITE_FUNC i ts)
  have each: "\<exists>m'. run_tests A H us (a, b, m) = Inr (a + length us, b + length (filter (succeeds A H) us), m') \<and> same_indent m m'"
    if "set us \<subseteq> set ts" "length (INDENT_STACK m) + depth (SUITE_FUNC i ts) + 1 \<le> INDENT_STACK_MAX" for us a b m
    using that
  proof (induction us arbitrary: a b m)
    case (Cons u us)
    have "length (INDENT_STACK m) + depth u + 2 \<le> INDENT_STACK_MAX"
      using Cons.prems depth_member [of u ts i] by simp
    then obtain m1 where m1: "run_test A H u m = Inr (succeeds A H u, m1)" "same_indent m m1"
      using SUITE_FUNC.IH [of u m] Cons.prems(1) by auto
    have st: "INDENT_STACK m1 = INDENT_STACK m" using m1(2) by (simp add: same_indent_def)
    obtain m2 where "run_tests A H us (a + 1, if succeeds A H u then b + 1 else b, m1) =
        Inr (a + 1 + length us, (if succeeds A H u then b + 1 else b) + length (filter (succeeds A H) us), m2)" "same_indent m1 m2"
      using Cons.IH [of m1] Cons.prems st by fastforce
    with m1 show ?case by (auto simp: same_indent_def)
  qed simp
  define m1 where "m1 = MSG (''running suite: '' @ paint A H (test_name i) YELLOW @ [newline]) m"
  define m2 where "m2 = m1\<lparr>INDENT_STACK := INDENT_POS m1 # INDENT_STACK m1, INDENT_POS := INDENT_POS m1 + INDENT_STEP\<rparr>"
  have s: "suite_start A H (test_name i) m = Inr m2"
    using SUITE_FUNC.prems by (simp add: suite_start_def INDENT_def m1_def m2_def)
  have l: "length (INDENT_STACK m2) + depth (SUITE_FUNC i ts) + 1 \<le> INDENT_STACK_MAX"
    using SUITE_FUNC.prems by (simp add: m2_def m1_def)
  obtain m3 where m3: "run_tests A H ts (0, 0, m2) = Inr (length ts, length (filter (succeeds A H) ts), m3)" "same_indent m2 m3"
    using each [OF order.refl l, of 0 0] by auto
  have all: "(length ts = length (filter (succeeds A H) ts)) = list_all (succeeds A H) ts"
    using filter_id_conv [of "succeeds A H" ts] by (auto simp: list_all_iff length_filter_less intro: filter_True [symmetric])
      (metis length_filter_less less_irrefl)
  obtain m4 where m4: "suite_end A H (test_name i) (length ts, length (filter (succeeds A H) ts), m3) =
      Inr (list_all (succeeds A H) ts, m4)" "same_indent m m4"
    using m3(2) all by (auto simp: suite_end_def UNINDENT_def same_indent_def m2_def m1_def)
  let ?m5 = "result_line A H i (list_all (succeeds A H) ts) m4"
  have si: "same_indent m ?m5" using m4(2) by simp
  then have "length (INDENT_STACK ?m5) + 2 \<le> INDENT_STACK_MAX" using SUITE_FUNC.prems by (simp add: same_indent_def)
  then obtain m6 where "describe A i (list_all (succeeds A H) ts, ?m5) = Inr (list_all (succeeds A H) ts, m6)" "same_indent ?m5 m6"
    using describe_eq by blast
  with s m3(1) m4(1) si show ?case by (auto simp: same_indent_def)
next
  case (BOOT_FUNC i f)
  obtain m1 where m1: "run_boot_tests A H i f (machines A) (True, m) = Inr (succeeds A H (BOOT_FUNC i f), m1)" "same_indent m m1"
    using run_boot_tests_eq [OF assms(1), of H i f "machines A" True m] by auto
  have "length (INDENT_STACK m1) + 2 \<le> INDENT_STACK_MAX" using m1(2) BOOT_FUNC by (simp add: same_indent_def)
  from describe_eq [OF this] m1 show ?case by (fastforce simp: same_indent_def simp del: succeeds.simps)
next
  case (BARE_FUNC i f)
  let ?st = "execute_fork (bare_outcome H f)"
  let ?m1 = "result_line A H i (passed ?st) (crash_msg H ?st m)"
  have "same_indent m ?m1" by simp
  then have s: "INDENT_STACK ?m1 = INDENT_STACK m" "INDENT_POS ?m1 = INDENT_POS m" unfolding same_indent_def by blast+
  have "length (INDENT_STACK ?m1) + 2 \<le> INDENT_STACK_MAX" using s BARE_FUNC by simp
  from describe_eq [OF this, of A i "passed ?st"] s assms(1) show ?case by (auto simp: execute_def same_indent_def)
qed simp

section \<open>Finding a test\<close>

text \<open>The tests of a tree, each before those inside it.\<close>

fun all_of :: "'f test \<Rightarrow> 'f test list" where
  "all_of (SUITE_FUNC i ts) = SUITE_FUNC i ts # concat (map all_of ts)"
| "all_of t = [t]"

lemma find_append: "List.find P (xs @ ys) = (case List.find P xs of None \<Rightarrow> List.find P ys | Some x \<Rightarrow> Some x)"
  by (induction xs) auto

lemma find_test_first:
  fixes t :: "'f test" and ts :: "'f test list"
  shows "find_test name t = List.find (\<lambda>u. test_name (info u) = name) (all_of t)"
    "find_tests name ts = List.find (\<lambda>u. test_name (info u) = name) (concat (map all_of ts))"
proof (induction name t and name ts rule: find_test_find_tests.induct)
  case (1 name t)
  show ?case
  proof (cases t)
    case (SUITE_FUNC i ts)
    show ?thesis
    proof (cases "name = test_name i")
      case False
      with 1 [of i ts] SUITE_FUNC show ?thesis by simp
    qed (simp add: SUITE_FUNC)
  qed auto
next
  case (3 name t ts)
  then show ?case by (simp add: find_append split: option.split)
qed simp

section \<open>Lists of numbers\<close>

fun commas :: "string list \<Rightarrow> string" where
  "commas [] = []"
| "commas [x] = x"
| "commas (x # xs) = x @ CHR '','' # commas xs"

lemma comma_tokens_token: "CHR '','' \<notin> set x \<Longrightarrow> comma_tokens cur (x @ rest) = comma_tokens (cur @ x) rest"
  by (induction x arbitrary: cur) auto

lemma comma_tokens_commas:
  "(\<And>x. x \<in> set xs \<Longrightarrow> x \<noteq> [] \<and> CHR '','' \<notin> set x) \<Longrightarrow> comma_tokens [] (commas xs) = xs"
proof (induction xs rule: commas.induct)
  case (2 x)
  then show ?case using comma_tokens_token [of x "[]" "[]"] by simp
next
  case (3 x y ys)
  then show ?case using comma_tokens_token [of x "[]" "CHR '','' # commas (y # ys)"] by simp
qed simp

lemma digit_char: "n < 10 \<Longrightarrow> isdigit (char_of (48 + n)) \<and> (of_char (char_of (48 + n)) :: nat) = 48 + n"
  by (simp add: isdigit_def)

lemma digits_props: "digits n \<noteq> [] \<and> (\<forall>c \<in> set (digits n). isdigit c) \<and>
  fold (\<lambda>c n. 10 * n + int (of_char c - 48)) (digits n) 0 = int n"
proof (induction n rule: digits.induct)
  case (1 n)
  show ?case
  proof (cases "n < 10")
    case True
    then show ?thesis using digit_char [of n] by (subst (1 2 3) digits.simps) simp
  next
    case False
    have "n mod 10 < 10" by simp
    note d = digit_char [OF this]
    have "10 * int (n div 10) + int (n mod 10) = int n"
      by (metis (no_types) mult_div_mod_eq of_nat_add of_nat_mult of_nat_numeral)
    with False 1 d show ?thesis by (subst (1 2 3) digits.simps) simp
  qed
qed

lemma digit_not: "isdigit c \<Longrightarrow> \<not> isspace c \<and> c \<noteq> CHR ''-'' \<and> c \<noteq> CHR ''+'' \<and> c \<noteq> CHR '',''"
  by (auto simp: isdigit_def isspace_def)

lemma strtol_digits:
  assumes "n < 2 ^ 63"
  shows "strtol (digits n) = Some (int n, [])"
proof -
  obtain c cs where c: "digits n = c # cs" using digits_props [of n] by (cases "digits n") auto
  have d: "\<forall>x \<in> set (digits n). isdigit x" "isdigit c" using digits_props [of n] c by auto
  have t: "dropWhile isspace (digits n) = digits n" using d digit_not [of c] c by simp
  have w: "takeWhile isdigit (digits n) = digits n" "dropWhile isdigit (digits n) = []"
    using d(1) by (simp_all add: takeWhile_eq_all_conv)
  have cs: "takeWhile isdigit cs = cs" using d(1) c by (simp add: takeWhile_eq_all_conv)
  have a: "atoi (digits n) = int n"
    using digits_props [of n] digit_not [OF d(2)] t w(1) unfolding atoi_def Let_def by (simp add: c cs del: takeWhile_eq_all_conv)
  have u: "(case digits n of [] \<Rightarrow> digits n | c # r \<Rightarrow> if c = CHR ''-'' \<or> c = CHR ''+'' then r else digits n) = digits n"
    using digit_not [OF d(2)] c by simp
  have "int n < int (2 ^ 63)" using assms by (simp only: of_nat_less_iff)
  then have "int n \<le> 2 ^ 63 - 1" by simp
  moreover have "- (2 ^ 63) \<le> int n" by simp
  ultimately have "max (- (2 ^ 63)) (min (2 ^ 63 - 1) (int n)) = int n" by linarith
  then show ?thesis unfolding strtol_def Let_def t u w a using conjunct1 [OF digits_props [of n]] by (simp only: if_False)
qed

lemma sint_small_int: "0 \<le> i \<Longrightarrow> i < 2 ^ 31 \<Longrightarrow> sint (word_of_int i :: cint) = i"
  by (simp add: signed_of_int signed_take_bit_int_eq_self)

lemma parse_ascending:
  assumes v: "sorted_wrt (<) vals" "set vals \<subseteq> {from..to}" and r: "0 \<le> from" "to < 2 ^ 31"
    and n: "nlist = from # replicate (nat (to - from)) 0"
  shows "vals = args @ xs \<Longrightarrow> parse_tokens from to nlist (map decimal xs) args = Inr (Some vals)"
proof (induction xs arbitrary: args)
  case (Cons x xs)
  have x: "from \<le> x" "x \<le> to" "0 \<le> x" "x < 2 ^ 31" using Cons.prems v(2) r by auto
  have d: "decimal x = digits (nat x)" using x(3) by (simp add: decimal_def)
  have "strtol (decimal x) = Some (x, [])" unfolding d using strtol_digits [of "nat x"] x by simp
  moreover have "x \<notin> set (take (length args) nlist)"
  proof (cases args)
    case (Cons a as)
    then have "from \<le> a" "a < x" using Cons.prems v by (auto simp: sorted_wrt_append)
    moreover have "y = from \<or> y = 0" if "y \<in> set (take (length args) nlist)" for y
      using in_set_takeD [OF that] n by auto
    ultimately show ?thesis using r(1) by fastforce
  qed simp
  moreover have "length args < nat (to - from + 1)"
  proof -
    have "card (set vals) \<le> card {from..to}" using v(2) by (intro card_mono) simp_all
    moreover have "distinct vals" using v(1) strict_sorted_iff by blast
    then have "card (set vals) = length vals" by (rule distinct_card)
    moreover have "length args < length vals" using Cons.prems by simp
    ultimately show ?thesis by simp
  qed
  moreover have "parse_tokens from to nlist (map decimal xs) (args @ [x]) = Inr (Some vals)"
    using Cons by simp
  ultimately show ?case using x sint_small_int [OF x(3,4)] by simp
qed simp

section \<open>The relays\<close>

definition bytes_of :: "con_answer list \<Rightarrow> string" where
  "bytes_of as = concat (map (\<lambda>a. case a of Read_bytes x \<Rightarrow> x | _ \<Rightarrow> []) as)"

lemma bytes_of_simps [simp]:
  "bytes_of [] = []" "bytes_of (Read_bytes x # as) = x @ bytes_of as" "bytes_of (Polled b d a # as) = bytes_of as"
  "bytes_of (Read_EINTR # as) = bytes_of as" "bytes_of (Read_EAGAIN # as) = bytes_of as"
  by (simp_all add: bytes_of_def)

definition says_complete :: "con_answer \<Rightarrow> bool" where
  "says_complete a = (case a of Polled before data after \<Rightarrow> before \<or> after | _ \<Rightarrow> False)"

text \<open>The relay has read \<open>bytes_of used\<close> when it stops with \<open>rest\<close>.\<close>

definition con_result :: "string \<Rightarrow> bool \<Rightarrow> con_answer list \<Rightarrow> string \<Rightarrow> bool" where
  "con_result pat cmpl used rest \<longleftrightarrow> (\<exists>front x. pat = front @ rest \<and> bytes_of used = front @ x \<and>
     (rest = [] \<longrightarrow> x = []) \<and>
     (rest \<noteq> [] \<longrightarrow> (if x = [] then cmpl \<or> (\<exists>a \<in> set used. says_complete a) else take (length x) rest \<noteq> x)))"

lemma con_result_skip:
  assumes "con_result pat c used rest" and "bytes_of (a # used) = bytes_of used"
  shows "con_result pat c (a # used) rest"
  using assms unfolding con_result_def by fastforce

lemma con_run_result:
  "con_poll pat cmpl as = Some (Inr (rest, as')) \<Longrightarrow> pat \<noteq> [] \<Longrightarrow> \<exists>used. as = used @ as' \<and> con_result pat cmpl used rest"
  "con_read pat cmpl as = Some (Inr (rest, as')) \<Longrightarrow> pat \<noteq> [] \<Longrightarrow> \<exists>used. as = used @ as' \<and> con_result pat cmpl used rest"
proof (induction pat cmpl as and pat cmpl as rule: con_poll_con_read.induct)
  case (1 pat cmpl before data after as)
  have step: "con_result pat cmpl (Polled before data after # used) rest"
    if "con_result pat c used rest" "c \<longrightarrow> cmpl \<or> before" for used c
    using that unfolding con_result_def by (fastforce simp: says_complete_def)
  show ?case
  proof (cases data)
    case True
    then obtain used where "as = used @ as'" "con_result pat (cmpl \<or> before) used rest"
      using 1 by auto
    with step [of "cmpl \<or> before" used] show ?thesis by (intro exI [of _ "Polled before data after # used"]) simp
  next
    case False
    show ?thesis
    proof (cases "cmpl \<or> before \<or> after")
      case True
      then have "rest = pat" "as' = as" using 1(3) False by auto
      moreover have "con_result pat cmpl [Polled before data after] pat"
        using True by (auto simp: con_result_def says_complete_def)
      ultimately show ?thesis by (intro exI [of _ "[Polled before data after]"]) simp
    next
      case no: False
      then obtain used where "as = used @ as'" "con_result pat False used rest" using 1 False by auto
      with step [of False used] show ?thesis by (intro exI [of _ "Polled before data after # used"]) simp
    qed
  qed
next
  case (3 pat cmpl as)
  then obtain used where "as = used @ as'" "con_result pat cmpl used rest" by auto
  then show ?case by (intro exI [of _ "Read_EINTR # used"]) (simp add: con_result_skip)
next
  case (4 pat cmpl as)
  then obtain used where "as = used @ as'" "con_result pat cmpl used rest" by auto
  then show ?case by (intro exI [of _ "Read_EAGAIN # used"]) (simp add: con_result_skip)
next
  case (6 pat cmpl coninput as)
  have ok: "coninput \<noteq> []" using 6(2,3) by (auto split: if_splits)
  show ?case
  proof (cases "take (length coninput) pat = coninput")
    case False
    then have "rest = pat" "as' = as" using 6(2,3) by (auto split: if_splits)
    moreover have "con_result pat cmpl [Read_bytes coninput] pat" unfolding con_result_def
      by (rule exI [of _ "[]"], rule exI [of _ coninput]) (use ok False 6(3) in auto)
    ultimately show ?thesis by (intro exI [of _ "[Read_bytes coninput]"]) simp
  next
    case True
    then have split: "pat = coninput @ drop (length coninput) pat" by (metis append_take_drop_id)
    show ?thesis
    proof (cases "drop (length coninput) pat = []")
      case True
      then have "rest = []" "as' = as" using 6(2,3) \<open>take (length coninput) pat = coninput\<close> by (auto split: if_splits)
      moreover have "con_result pat cmpl [Read_bytes coninput] []" unfolding con_result_def
        using split True by (intro exI [of _ pat] exI [of _ "[]"]) auto
      ultimately show ?thesis by (intro exI [of _ "[Read_bytes coninput]"]) simp
    next
      case False
      then obtain used where u: "as = used @ as'" "con_result (drop (length coninput) pat) cmpl used rest"
        using 6 \<open>take (length coninput) pat = coninput\<close> by (auto split: if_splits)
      then obtain front x where f: "drop (length coninput) pat = front @ rest" "bytes_of used = front @ x" "rest = [] \<longrightarrow> x = []"
        "rest \<noteq> [] \<longrightarrow> (if x = [] then cmpl \<or> (\<exists>a \<in> set used. says_complete a) else take (length x) rest \<noteq> x)"
        unfolding con_result_def by blast
      have "con_result pat cmpl (Read_bytes coninput # used) rest" unfolding con_result_def
        by (rule exI [of _ "coninput @ front"], rule exI [of _ x]) (use split f in \<open>auto split: if_splits\<close>)
      with u(1) show ?thesis by (intro exI [of _ "Read_bytes coninput # used"]) simp
    qed
  qed
qed simp_all

lemma kbd_run_result:
  "kbd_poll sent pat as = Some (Inr (w, rest)) \<Longrightarrow> w @ rest = sent @ pat \<and> (rest \<noteq> [] \<longrightarrow> Complete True \<in> set as)"
  "kbd_write old sent pat as = Some (Inr (w, rest)) \<Longrightarrow>
     w @ rest = sent @ pat \<and> (rest \<noteq> [] \<longrightarrow> old \<or> Complete True \<in> set as)"
proof (induction sent pat as and old sent pat as rule: kbd_poll_kbd_write.induct)
  case (1 sent pat cmpl ready as)
  then show ?case by (auto split: if_splits list.splits kbd_answer.splits)
next
  case (4 old sent pat n as)
  have e: "sent @ take n pat @ drop n pat = sent @ pat" by simp
  from 4 show ?case by (auto split: if_splits simp: e)
qed (auto split: if_splits)

section \<open>Properties\<close>

text \<open>
  Running a test, or a suite of suites of tests, in processes of their own: when the
  indentation has room for the nesting of the suites, the run meets no fault, its result says
  exactly whether every test in the tree succeeds, on every machine of the options that has the
  cores and terminals it needs (the others skip it), and the indentation is what it was before.
\<close>

theorem run_test_reports_success:
  assumes "fork A" and "length (INDENT_STACK m) + depth t + 2 \<le> INDENT_STACK_MAX"
  shows "\<exists>m'. run_test A H t m = Inr (succeeds A H t, m') \<and> INDENT_STACK m' = INDENT_STACK m \<and> INDENT_POS m' = INDENT_POS m"
  using run_test_eq [OF assms] by (auto simp: same_indent_def)

definition start_msgs :: msg_state where
  "start_msgs = \<lparr>out = [], INDENT_STACK = [], INDENT_POS = 0, CURRENT_POS = 0, EMIT_INDENT = True\<rparr>"

definition example_suite :: "nat test" where
  "example_suite = (let i = \<lparr>test_name = ''t'', description = ''d'', timeout = 10, minimum_terminals = 1, minimum_cores = 1\<rparr>
     in SUITE_FUNC i [BOOT_FUNC i 0, SUITE_FUNC i [BARE_FUNC i 0, BARE_FUNC i 1]])"

definition example_host :: "nat host" where
  "example_host = \<lparr>isatty = False, strsignal = (\<lambda>n. ''Killed''), boot_outcome = (\<lambda>f n k. Timeout),
     bare_outcome = (\<lambda>f. if f = 0 then Returned False else Signal 9)\<rparr>"

text \<open>The test that would time out needs a terminal and is skipped; the one that is killed fails the suite.\<close>

theorem run_test_reports_success_witness:
  "\<exists>m'. run_test ARGS_INIT example_host example_suite start_msgs = Inr (False, m') \<and> INDENT_STACK m' = []"
proof -
  have "\<not> succeeds ARGS_INIT example_host example_suite" "fork (ARGS_INIT :: nat program_arguments)"
    by (simp_all add: example_suite_def example_host_def Let_def execute_fork_def passed_def ARGS_INIT_def)
  moreover have "length (INDENT_STACK start_msgs) + depth example_suite + 2 \<le> INDENT_STACK_MAX"
    by (simp add: example_suite_def Let_def start_msgs_def INDENT_STACK_MAX_def)
  ultimately show ?thesis using run_test_reports_success [of ARGS_INIT start_msgs example_suite example_host]
    by (auto simp: start_msgs_def)
qed

text \<open>
  C39: The lists of cores and terminals of the options: an increasing list of numbers in range,
  written in decimal with commas, is read back as it is, into an array that holds the smallest
  number and then zeros, as at the start of the program.
\<close>

theorem parse_int_list_ascending:
  assumes "sorted_wrt (<) vals" and "set vals \<subseteq> {from..to}" and "vals \<noteq> []" and "0 \<le> from" and "to < 2 ^ 31"
    and "nlist = from # replicate (nat (to - from)) 0"
  shows "parse_int_list (commas (map decimal vals)) nlen nlist from to =
    Inr (True, length vals, vals @ drop (length vals) nlist)"
proof -
  have "x \<noteq> [] \<and> CHR '','' \<notin> set x" if x: "x \<in> set (map decimal vals)" for x
  proof -
    obtain v where v: "v \<in> set vals" "x = decimal v" using x by auto
    have "0 \<le> v" using v(1) assms(2,4) by auto
    then have "x = digits (nat v)" using v(2) by (simp add: decimal_def)
    with digits_props [of "nat v"] digit_not show ?thesis by auto
  qed
  then have t: "comma_tokens [] (commas (map decimal vals)) = map decimal vals" by (rule comma_tokens_commas)
  have p: "parse_tokens from to nlist (map decimal vals) [] = Inr (Some vals)"
    by (rule parse_ascending [OF assms(1,2,4,5,6)]) simp
  have s: "sort vals = vals" using assms(1) strict_sorted_iff sorted_sort_id by blast
  show ?thesis using assms(3) by (simp add: parse_int_list_def t p s)
qed

theorem parse_int_list_ascending_witness:
  "parse_int_list (commas (map decimal [1, 2, 32])) 1 (core_list ARGS_INIT) 1 32 =
     Inr (True, 3, [1, 2, 32] @ drop 3 (core_list ARGS_INIT))"
  using parse_int_list_ascending [of "[1, 2, 32]" 1 32 "core_list ARGS_INIT" 1] by (simp add: ARGS_INIT_def)

text \<open>
  Other lists are not read: the test for duplicates looks into the old array, so a number that is
  there is dropped, and a number that is repeated is stored again and again, beyond the end of the
  array in the end.
\<close>

lemma parse_int_list_bugs:
  "parse_int_list ''2,1'' 1 (core_list ARGS_INIT) 1 32 = Inr (True, 1, 2 # replicate 31 0)"
  "parse_int_list ''2,2'' 1 (core_list ARGS_INIT) 1 32 = Inr (True, 2, [2, 2] @ replicate 30 0)"
  "parse_int_list ''3,3,3,3,3,3'' 1 (term_list ARGS_INIT) 0 4 = Inl BadIndex"
proof -
  have t: "strtol ''1'' = Some (1, [])" "strtol ''2'' = Some (2, [])" "strtol ''3'' = Some (3, [])"
    by (simp_all add: strtol_def atoi_def isspace_def isdigit_def)
  show "parse_int_list ''2,1'' 1 (core_list ARGS_INIT) 1 32 = Inr (True, 1, 2 # replicate 31 0)"
    "parse_int_list ''2,2'' 1 (core_list ARGS_INIT) 1 32 = Inr (True, 2, [2, 2] @ replicate 30 0)"
    "parse_int_list ''3,3,3,3,3,3'' 1 (term_list ARGS_INIT) 0 4 = Inl BadIndex"
    by (simp_all add: parse_int_list_def ARGS_INIT_def t numeral_eq_Suc)
qed

text \<open>
  C40: The relays that play the user of a terminal.  The one of the screen passes a pattern exactly
  when the bytes that it read are the pattern; when it stops with a rest of the pattern, it has
  read what goes before, and then either bytes that do not match or nothing although the machine
  had said that it is done.  The one of the keyboard writes the pattern in order and without a gap,
  and stops before its end only if the machine is done.
\<close>

theorem relays_follow_the_pattern:
  assumes "con_proc pat as = Some (Inr (rest, unread))" and "kbd_proc pat' bs = Some (Inr (w, unsent))"
  shows "(\<exists>used front x. as = used @ unread \<and> pat = front @ rest \<and> bytes_of used = front @ x \<and>
      (if rest = [] then x = [] else if x = [] then \<exists>a \<in> set used. says_complete a else take (length x) rest \<noteq> x)) \<and>
    w @ unsent = pat' \<and> (unsent \<noteq> [] \<longrightarrow> Complete True \<in> set bs)"
proof -
  have "\<exists>used front x. as = used @ unread \<and> pat = front @ rest \<and> bytes_of used = front @ x \<and>
    (if rest = [] then x = [] else if x = [] then \<exists>a \<in> set used. says_complete a else take (length x) rest \<noteq> x)"
  proof (cases "pat = []")
    case True
    with assms(1) show ?thesis by (auto simp: con_proc_def intro!: exI [of _ "[]"])
  next
    case False
    with assms(1) have "con_poll pat False as = Some (Inr (rest, unread))" by (simp add: con_proc_def)
    from con_run_result(1) [OF this False] show ?thesis unfolding con_result_def by fastforce
  qed
  then show ?thesis using assms(2) kbd_run_result(1) [of "[]" pat' bs w unsent] by (auto simp: kbd_proc_def split: if_splits)
qed

text \<open>\<open>ab\<close> is expected, \<open>ax\<close> comes; \<open>cd\<close> is sent in two parts.\<close>

theorem relays_follow_the_pattern_witness:
  "\<exists>used front x. [Polled False True False, Read_EINTR, Read_bytes ''a'', Polled False True False, Read_bytes ''x''] = used @ [] \<and>
    ''ab'' = front @ ''b'' \<and> bytes_of used = front @ x \<and> x \<noteq> []"
proof -
  have c: "con_proc ''ab'' [Polled False True False, Read_EINTR, Read_bytes ''a'', Polled False True False, Read_bytes ''x''] =
      Some (Inr (''b'', []))" by (simp add: con_proc_def)
  have k: "kbd_proc ''cd'' [Kbd_polled False True, Complete False, Written 1, Write_EAGAIN, Kbd_polled False True,
      Complete False, Written 1] = Some (Inr (''cd'', []))" by (simp add: kbd_proc_def)
  from relays_follow_the_pattern [OF c k] show ?thesis by (fastforce simp: says_complete_def split: if_splits)
qed

end
