(* ===== verification/Term_Proxy.thy ===== *)
theory Term_Proxy
  imports Unit_Testing_Props Kernel_State "HOL-Library.Sublist"
begin

text \<open>
  The users of the terminals in a test (src/unit_testing.c): the threads of the host that relay
  patterns, with the queue that they share with the test; the machine that a test runs on; and
  the suite in which the runner tests itself.
\<close>

section \<open>The pipes of a terminal\<close>

text \<open>Opening a pipe empties it; what \<open>read\<close> answers is an argument.\<close>

datatype fifo_answer = Fifo_bytes nat | Fifo_EAGAIN | Fifo_EINTR | Fifo_error

fun drain_fifo :: "fifo_answer list \<Rightarrow> unit result option" where
  "drain_fifo [] = None"
| "drain_fifo (a # as) = (case a of
     Fifo_EAGAIN \<Rightarrow> Some (Inr ())
   | Fifo_error \<Rightarrow> Some (Inl AssertFail)
   | _ \<Rightarrow> drain_fifo as)"

definition open_fifo :: "int \<Rightarrow> fifo_answer list \<Rightarrow> int result option" where
  "open_fifo fd as =
     (if fd = -1 then Some (Inl AssertFail)
      else case drain_fifo as of None \<Rightarrow> None | Some r \<Rightarrow> Some (rbind r (\<lambda>_. Inr fd)))"

section \<open>The thread of a relay and its queue\<close>

text \<open>
  A relay with its thread: the nodes of the heap that are allocated, the patterns that its
  procedure was given, and whether the thread has ended.  A test adds patterns and closes the
  relay, while the thread takes them.
\<close>

record relay =
  daemon :: proxy_daemon
  nodes :: "nat set"
  given :: "string list"
  ended :: bool

definition term_proxy_daemon_init :: "(nat, pat_key) rlheap \<Rightarrow> relay" where
  "term_proxy_daemon_init h = \<lparr>daemon = daemon_init h, nodes = {}, given = [], ended = False\<rparr>"

definition relay_add :: "nat \<Rightarrow> string \<Rightarrow> relay \<Rightarrow> relay result" where
  "relay_add newnode pat r =
     rbind (term_proxy_daemon_add newnode pat (daemon r)) (\<lambda>d. Inr (r\<lparr>daemon := d, nodes := insert newnode (nodes r)\<rparr>))"

text \<open>
  A turn of the thread's loop.  The node that is taken is freed; following a node that is not
  allocated is a fault.  The thread waits in \<open>term_proxy_daemon_get\<close> when the result is \<open>None\<close>.
\<close>

definition term_proxy_daemon :: "relay \<Rightarrow> relay result option" where
  "term_proxy_daemon r =
     (if ended r then None
      else case term_proxy_daemon_get (daemon r) of
             (Waits, d) \<Rightarrow> None
           | (Ends, d) \<Rightarrow> Some (Inr (r\<lparr>daemon := d, ended := True\<rparr>))
           | (Gets pat, d) \<Rightarrow>
               let node = nxt (pattern (daemon r)) 0
               in if node \<notin> nodes r then Some (Inl DanglingPtr)
                  else Some (Inr (r\<lparr>daemon := d, nodes := nodes r - {node}, given := given r @ [pat]\<rparr>)))"

definition relay_close :: "relay \<Rightarrow> relay" where
  "relay_close r = r\<lparr>daemon := term_proxy_daemon_close (daemon r)\<rparr>"

definition term_proxy_daemon_complete :: "relay \<Rightarrow> bool" where
  "term_proxy_daemon_complete r = complete (daemon r)"

text \<open>The steps, with the patterns that were added.\<close>

inductive relay_reach :: "string list \<Rightarrow> relay \<Rightarrow> bool" where
  relay_init: "relay_reach [] (term_proxy_daemon_init h)"
| relay_adds: "relay_reach ps r \<Longrightarrow> newnode \<notin> nodes r \<Longrightarrow> newnode \<noteq> 0 \<Longrightarrow> relay_add newnode pat r = Inr r' \<Longrightarrow>
    relay_reach (ps @ [pat]) r'"
| relay_takes: "relay_reach ps r \<Longrightarrow> term_proxy_daemon r = Some (Inr r') \<Longrightarrow> relay_reach ps r'"
| relay_closes: "relay_reach ps r \<Longrightarrow> relay_reach ps (relay_close r)"

subsection \<open>The queue is first in, first out\<close>

definition queued :: "relay \<Rightarrow> (nat \<times> string) list \<Rightarrow> bool" where
  "queued r q \<longleftrightarrow> isring (pattern (daemon r)) 0 (map fst q) \<and> set (map fst q) = nodes r \<and>
     (\<forall>(n, p) \<in> set q. obj (pattern (daemon r)) n = Pattern p)"

text \<open>The state after the thread has taken the node \<open>n\<close> with the pattern \<open>p\<close>.\<close>

definition taken :: "relay \<Rightarrow> nat \<Rightarrow> string \<Rightarrow> relay" where
  "taken r n p = r\<lparr>daemon := (daemon r)\<lparr>pattern := snd (rlist_pop_front 0 (pattern (daemon r)))\<rparr>,
     nodes := nodes r - {n}, given := given r @ [p]\<rparr>"

lemma relay_turn:
  assumes "queued r q"
  shows "term_proxy_daemon r = (if ended r then None else case q of
      [] \<Rightarrow> if complete (daemon r) then Some (Inr (r\<lparr>ended := True\<rparr>)) else None
    | (n, p) # q' \<Rightarrow> Some (Inr (taken r n p)))"
    and "q = (n, p) # q' \<Longrightarrow> queued (taken r n p) q'"
proof -
  have ring: "isring (pattern (daemon r)) 0 (map fst q)" using assms by (simp add: queued_def)
  have step: "term_proxy_daemon r = (if ended r then None else Some (Inr (taken r n p))) \<and> queued (taken r n p) q'"
    if c: "q = (n, p) # q'" for n p q'
  proof -
    have ring': "isring (pattern (daemon r)) 0 (n # map fst q')" using ring c by simp
    have nx: "nxt (pattern (daemon r)) 0 = n" "n \<noteq> 0" using isring_nxt [OF ring'] isring_distinct [OF ring'] by auto
    obtain h where h: "rlist_pop_front 0 (pattern (daemon r)) = (n, h)" using nx by (simp add: rlist_pop_front_def)
    have ob: "obj h = obj (pattern (daemon r))" using h by (auto simp: rlist_pop_front_def rl_splice_def Let_def)
    have t: "isring h 0 (map fst q')" using pop_front_list [OF ring'] h by simp
    have n: "obj (pattern (daemon r)) n = Pattern p" "n \<in> nodes r" using assms c by (auto simp: queued_def)
    have d: "n \<notin> fst ` set q'" using isring_distinct [OF ring'] by simp
    have "queued (taken r n p) q'" using assms t d h unfolding queued_def by (auto simp: c ob taken_def)
    moreover have "term_proxy_daemon r = (if ended r then None else Some (Inr (taken r n p)))"
      using nx h ob n by (simp add: taken_def term_proxy_daemon_def term_proxy_daemon_get_def is_rlist_empty_def)
    ultimately show ?thesis by blast
  qed
  show "q = (n, p) # q' \<Longrightarrow> queued (taken r n p) q'" using step by blast
  show "term_proxy_daemon r = (if ended r then None else case q of
      [] \<Rightarrow> if complete (daemon r) then Some (Inr (r\<lparr>ended := True\<rparr>)) else None
    | (n, p) # q' \<Rightarrow> Some (Inr (taken r n p)))"
  proof (cases q)
    case Nil
    then have "is_rlist_empty 0 (pattern (daemon r))" using ring by (simp add: isring_Nil is_rlist_empty_def)
    then show ?thesis by (simp add: Nil term_proxy_daemon_def term_proxy_daemon_get_def)
  next
    case (Cons a q')
    then show ?thesis using step by (cases a) simp
  qed
qed

lemma relay_inv:
  "relay_reach ps r \<Longrightarrow> \<exists>q. queued r q \<and> ps = given r @ map snd q \<and> (ended r \<longrightarrow> complete (daemon r) \<and> q = [])"
proof (induction rule: relay_reach.induct)
  case (relay_init h)
  have "queued (term_proxy_daemon_init h) []"
    by (simp add: queued_def term_proxy_daemon_init_def daemon_init_def init_list)
  then show ?case by (intro exI [of _ "[]"]) (simp add: term_proxy_daemon_init_def)
next
  case (relay_adds ps r newnode pat r')
  obtain q where q: "queued r q" "ps = given r @ map snd q" "ended r \<longrightarrow> complete (daemon r) \<and> q = []"
    using relay_adds.IH by blast
  let ?h = "rlnode_init newnode (Pattern pat) (pattern (daemon r))"
  have r': "\<not> complete (daemon r)" "r' = r\<lparr>daemon := (daemon r)\<lparr>pattern := rlist_push_back 0 newnode ?h\<rparr>, nodes := insert newnode (nodes r)\<rparr>"
    using relay_adds.hyps(4) by (auto simp: relay_add_def term_proxy_daemon_add_def split: if_splits)
  have n: "newnode \<notin> set (0 # map fst q)" using q(1) relay_adds.hyps(2,3) by (simp add: queued_def)
  have ring: "isring (pattern (daemon r)) 0 (map fst q)" using q(1) by (simp add: queued_def)
  have i: "isring ?h 0 (map fst q)" by (rule init_keeps [OF ring n])
  have "isring (rlist_push_back 0 newnode ?h) 0 (map fst q @ [newnode])" using push_back_list [OF i init_list n] by simp
  moreover have "obj (rlist_push_back 0 newnode ?h) = (obj (pattern (daemon r)))(newnode := Pattern pat)"
    by (simp add: rlist_push_back_def rl_splice_def rlnode_init_def rlnode_new_def Let_def)
  moreover have "\<forall>x \<in> set q. fst x \<noteq> newnode \<and> obj (pattern (daemon r)) (fst x) = Pattern (snd x)"
    using q(1) n by (force simp: queued_def)
  ultimately have "queued r' (q @ [(newnode, pat)])"
    using q(1) unfolding r'(2) queued_def by (simp add: prod.case_eq_if)
  then show ?case using q(2,3) r' by (intro exI [of _ "q @ [(newnode, pat)]"]) auto
next
  case (relay_takes ps r r')
  obtain q where q: "queued r q" "ps = given r @ map snd q" "ended r \<longrightarrow> complete (daemon r) \<and> q = []"
    using relay_takes.IH by blast
  note t = relay_turn [OF q(1)]
  show ?case
  proof (cases q)
    case Nil
    then have "complete (daemon r)" "r' = r\<lparr>ended := True\<rparr>" using relay_takes.hyps(2) t(1) by (auto split: if_splits)
    then show ?thesis using q Nil by (intro exI [of _ "[]"]) (simp add: queued_def)
  next
    case (Cons a q')
    obtain n p where a: "a = (n, p)" by (cases a)
    then have "r' = taken r n p" "\<not> ended r" using relay_takes.hyps(2) t(1) Cons by (auto split: if_splits)
    then show ?thesis using q(2) t(2) Cons a by (intro exI [of _ q']) (simp add: taken_def)
  qed
next
  case (relay_closes ps r)
  then show ?case by (auto simp: queued_def relay_close_def term_proxy_daemon_close_def)
qed

text \<open>
  Whatever the order in which a test adds patterns and closes the relay and the thread takes them:
  the thread is given the patterns in the order in which they were added, each once; it ends only
  after the relay was closed and it was given all of them; it follows no dangling node; and once
  the relay is closed the thread never waits, so that the \<open>pthread_join\<close> of the test returns after
  as many turns as there are patterns left, and one more.
\<close>

theorem relay_queue:
  assumes "relay_reach ps r"
  shows "prefix (given r) ps" and "ended r \<Longrightarrow> complete (daemon r) \<and> given r = ps"
    and "term_proxy_daemon r \<noteq> Some (Inl f)"
    and "complete (daemon r) \<Longrightarrow> \<not> ended r \<Longrightarrow> \<exists>r'. term_proxy_daemon r = Some (Inr r') \<and>
      (if given r = ps then ended r' else length (given r') = Suc (length (given r)) \<and> \<not> ended r')"
proof -
  obtain q where q: "queued r q" "ps = given r @ map snd q" "ended r \<longrightarrow> complete (daemon r) \<and> q = []"
    using relay_inv [OF assms] by blast
  show "prefix (given r) ps" using q(2) by simp
  show "ended r \<Longrightarrow> complete (daemon r) \<and> given r = ps" using q(2,3) by simp
  note turn = relay_turn(1) [OF q(1)]
  show "term_proxy_daemon r \<noteq> Some (Inl f)" unfolding turn by (simp split: list.split)
  show "complete (daemon r) \<Longrightarrow> \<not> ended r \<Longrightarrow> \<exists>r'. term_proxy_daemon r = Some (Inr r') \<and>
      (if given r = ps then ended r' else length (given r') = Suc (length (given r)) \<and> \<not> ended r')"
    unfolding turn q(2) by (auto simp: taken_def split: list.split)
qed

section \<open>The terminals of a test\<close>

record term_proxy =
  term_no :: nat
  con_relay :: relay
  kbd_relay :: relay

definition term_proxy_init :: "nat \<Rightarrow> (nat, pat_key) rlheap \<Rightarrow> (nat, pat_key) rlheap \<Rightarrow> term_proxy result" where
  "term_proxy_init t hc hk =
     (if t < MAX_TERMINALS
      then Inr \<lparr>term_no = t, con_relay = term_proxy_daemon_init hc, kbd_relay = term_proxy_daemon_init hk\<rparr>
      else Inl AssertFail)"

definition term_proxy_close :: "term_proxy \<Rightarrow> term_proxy" where
  "term_proxy_close p = p\<lparr>con_relay := relay_close (con_relay p), kbd_relay := relay_close (kbd_relay p)\<rparr>"

text \<open>\<open>ports\<close> is the number of serial ports of the machine; \<open>newnode\<close> is the address of the new node.\<close>

definition expect :: "nat \<Rightarrow> nat \<Rightarrow> nat \<Rightarrow> string \<Rightarrow> (nat \<Rightarrow> term_proxy) \<Rightarrow> (nat \<Rightarrow> term_proxy) result" where
  "expect ports newnode t pat PROXY =
     (if t < ports
      then rbind (relay_add newnode pat (con_relay (PROXY t))) (\<lambda>r. Inr (PROXY(t := (PROXY t)\<lparr>con_relay := r\<rparr>)))
      else Inl AssertFail)"

definition sendme :: "nat \<Rightarrow> nat \<Rightarrow> nat \<Rightarrow> string \<Rightarrow> (nat \<Rightarrow> term_proxy) \<Rightarrow> (nat \<Rightarrow> term_proxy) result" where
  "sendme ports newnode t pat PROXY =
     (if t < ports
      then rbind (relay_add newnode pat (kbd_relay (PROXY t))) (\<lambda>r. Inr (PROXY(t := (PROXY t)\<lparr>kbd_relay := r\<rparr>)))
      else Inl AssertFail)"

text \<open>
  What the process of a test on a machine does: it makes the relays of the terminals, boots, and
  closes the relays.  \<open>boot\<close> is the run of the machine with what the test did to the relays.
\<close>

fun init_proxies :: "nat list \<Rightarrow> (nat \<Rightarrow> (nat, pat_key) rlheap) \<Rightarrow> (nat \<Rightarrow> term_proxy) \<Rightarrow> (nat \<Rightarrow> term_proxy) result" where
  "init_proxies [] h PROXY = Inr PROXY"
| "init_proxies (i # is) h PROXY =
     rbind (term_proxy_init i (h i) (h i)) (\<lambda>p. init_proxies is h (PROXY(i := p)))"

definition run_boot ::
  "nat \<Rightarrow> (nat \<Rightarrow> (nat, pat_key) rlheap) \<Rightarrow> ((nat \<Rightarrow> term_proxy) \<Rightarrow> (nat \<Rightarrow> term_proxy) result) \<Rightarrow>
   (nat \<Rightarrow> term_proxy) \<Rightarrow> (nat \<Rightarrow> term_proxy) result" where
  "run_boot k h boot PROXY =
     rbind (init_proxies [0..<k] h PROXY) (\<lambda>P.
     rbind (boot P) (\<lambda>P1. Inr (\<lambda>i. if i < k then term_proxy_close (P1 i) else P1 i)))"

text \<open>The numbers of terminals that the options allow are those for which there are relays.\<close>

lemma init_proxies_ok:
  "\<forall>i \<in> set is. i < MAX_TERMINALS \<Longrightarrow> \<exists>P. init_proxies is h PROXY = Inr P"
  by (induction "is" arbitrary: PROXY) (simp_all add: term_proxy_init_def)

lemma run_boot_total:
  assumes "k \<le> MAX_TERMINALS" and "\<And>P. \<exists>P1. boot P = Inr P1"
  shows "\<exists>P. run_boot k h boot PROXY = Inr P \<and>
    (\<forall>i < k. term_proxy_daemon_complete (con_relay (P i)) \<and> term_proxy_daemon_complete (kbd_relay (P i)))"
proof -
  obtain P where P: "init_proxies [0..<k] h PROXY = Inr P" using init_proxies_ok [of "[0..<k]" h PROXY] assms(1) by auto
  obtain P1 where "boot P = Inr P1" using assms(2) by blast
  then show ?thesis
    by (simp add: run_boot_def P term_proxy_close_def relay_close_def term_proxy_daemon_close_def term_proxy_daemon_complete_def)
qed

section \<open>The tests of the runner\<close>

datatype internal_test = Internal_success | Internal_failure | Internal_timeout | Internal_skip

text \<open>A test that is declared without fields of its own.\<close>

definition DEFAULT_TIMEOUT :: nat where "DEFAULT_TIMEOUT = 10"

definition declared :: "string \<Rightarrow> string \<Rightarrow> test_info" where
  "declared name descr = \<lparr>test_name = name, description = descr, timeout = DEFAULT_TIMEOUT, minimum_terminals = 0, minimum_cores = 1\<rparr>"

definition internal :: "internal_test test" where
  "internal = SUITE_FUNC (declared ''internal'' ''A suite of internal tests, testing the test framework itself.'')
    [BARE_FUNC (declared ''internal_success'' ''A test that succeeds.'') Internal_success,
     BARE_FUNC (declared ''internal_failure'' ''A test that fails by assertion.'') Internal_failure,
     BARE_FUNC ((declared ''internal_timeout'' ''A test that fails by timeout.'')\<lparr>timeout := 1\<rparr>) Internal_timeout,
     BARE_FUNC ((declared ''internal_skip'' ''A test that is skipped'')\<lparr>minimum_terminals := 2 ^ 32 - 1\<rparr>) Internal_skip]"

text \<open>
  What the functions of the tests do: an \<open>ASSERT\<close> fails, and a sleep of 5 seconds outlasts the
  timeout of one.
\<close>

fun internal_outcome :: "internal_test \<Rightarrow> outcome" where
  "internal_outcome Internal_success = Returned False"
| "internal_outcome Internal_failure = Returned True"
| "internal_outcome Internal_timeout = Timeout"
| "internal_outcome Internal_skip = Returned False"

text \<open>
  The runner fails the test that fails and the one that runs past its timeout, and passes the one
  that succeeds.  The one that is meant to be skipped is run and passes, since the number of
  terminals is looked at for tests on a machine only.
\<close>

lemma internal_suite:
  assumes "fork A" and "bare_outcome H = internal_outcome" and "length (INDENT_STACK m) + 4 \<le> INDENT_STACK_MAX"
  shows "\<exists>m'. run_test A H internal m = Inr (False, m')"
    and "succeeds A H (BARE_FUNC i Internal_skip)"
    and "succeeds A H (BARE_FUNC i f) \<longleftrightarrow> f \<in> {Internal_success, Internal_skip}"
proof -
  have "length (INDENT_STACK m) + depth internal + 2 \<le> INDENT_STACK_MAX" using assms(3) by (simp add: internal_def)
  then obtain m' where "run_test A H internal m = Inr (succeeds A H internal, m')"
    using run_test_reports_success [OF assms(1)] by blast
  moreover have "\<not> succeeds A H internal" by (simp add: internal_def assms(2) execute_fork_def passed_def)
  ultimately show "\<exists>m'. run_test A H internal m = Inr (False, m')" by auto
  show "succeeds A H (BARE_FUNC i Internal_skip)" by (simp add: assms(2) execute_fork_def passed_def)
  show "succeeds A H (BARE_FUNC i f) \<longleftrightarrow> f \<in> {Internal_success, Internal_skip}"
    by (cases f) (simp_all add: assms(2) execute_fork_def passed_def)
qed

end
