(* ===== verification/Spec2Isabelle.thy ===== *)
theory Spec2Isabelle
  imports RList_Props Bios_Props Bios_Pic_Props Sched_Props Cond_Props Streams_Props Proc_Props
    Exceptions_Props Tinyoslib_Props Symposium_Props Shell_Props Drivers_Props Terminal Apps Remote_Server_Props System_Props Util_Tests Exc_Tests
    Api_Tests_Props Term_Proxy
begin

text \<open>
  TinyOS 3: a kernel with processes, threads, condition variables and streams, on a virtual
  machine that is itself a program of the host, with a library, a shell, two demonstration programs
  and its tests, in C under src/.  These theories model it, and prove what the parts promise to each
  other and to the programs; what is left out is listed at the end.

  \<^bold>\<open>The program.\<close>  src/bios.c is the machine: cores (threads of the host), interrupts,
  a timer for every core and serial devices.  src/kernel_sched.c runs threads on the cores: run
  queues by priority, a list of timeouts, the idle threads.  src/kernel_cc.c makes mutexes and
  condition variables of \<open>sleep_releasing\<close> and \<open>wakeup\<close>, and from them the kernel lock, which
  every system call takes (src/kernel_sys.c).  Under the lock run the process table
  (src/kernel_proc.c), the threads of a process (src/kernel_threads.c), the file table
  (src/kernel_streams.c) and the drivers (src/kernel_dev.c), whose interrupt handlers wake the
  readers.  src/kernel_init.c starts everything.  Above the system calls are src/tinyoslib.c, the
  shell src/tinyos_shell.c, src/symposium.c and src/mtask.c; src/terminal.c is the other end of
  a serial device.  All parts share the lists, the exceptions and the argument vectors of src/util.h.

  \<^bold>\<open>Conventions.\<close>  A C function is one definition that returns the new state, or
  \<open>Inl\<close> of a fault (theory \<open>Prelude\<close>): a failed \<open>assert\<close>, a null or dangling pointer, an
  index out of bounds, or \<open>Diverges\<close>.  A fault is an outcome like any other, and theorems
  say where it happens and where it cannot.  A loop whose end depends on the data is a
  \<open>partial_function (option)\<close>; \<open>of_loop\<close> turns \<open>None\<close> into \<open>Diverges\<close>.  A loop
  that ends is proved to end (on every ring for the lists, under the invariants for the kernel),
  and where it does not that is a theorem (\<open>ThreadExit_leaves_or_faults\<close>).  Fuel occurs only in
  programs that loop on the answers of the system, see Bounds below.  Machine integers that can wrap are words of the width
  of the C type, or \<open>int\<close> with the bounds written out; counters that the invariants
  bound are \<open>nat\<close>.  What the host answers (the clock, \<open>poll\<close>, \<open>read\<close>, \<open>write\<close>, an address
  from \<open>malloc\<close>, whether a spinlock was taken) is an argument; a theorem holds for all answers or
  names the documented behaviour that it needs.

  A system call that sleeps is cut where the thread sleeps: what it does up to \<open>yield\<close> and
  what it does when it comes back are two definitions, and everything between them is the steps
  of other threads and cores.  Under the kernel lock, or under \<open>sched_spinlock\<close>, a thread
  runs alone on the data that the lock guards, so a section is one step.

  \<^bold>\<open>Lists\<close> (src/util.h).  \<open>RList\<close> has the nodes on a heap of \<open>prev\<close> and \<open>next\<close> pointers and every
  operation; \<open>RList_Loops\<close> the loops, and the locale \<open>resource_list\<close> by which the kernel uses
  the lists, interpreted as \<open>rl\<close> on the code's operations; \<open>RList_Props\<close> shows that the operations
  implement those on sequences.

  \<^bold>\<open>Kernel state\<close> (the headers).  \<open>Kernel_State\<close> has a \<open>record\<close> for every structure and one,
  \<open>kernel\<close>, for the global variables.  \<open>Frames\<close> has the disjointness of the components' nodes and
  what a component leaves alone.

  \<^bold>\<open>Machine\<close> (src/bios.c).  \<open>Bios\<close> has cores, interrupts, timers and clock; \<open>Bios_Pic\<close> the
  serial devices, a turn of \<open>PIC_daemon\<close> and the run of the machine.  \<open>Bios_Props\<close> and
  \<open>Bios_Pic_Props\<close> show that interrupts are not lost while they are disabled, and that a
  failed transfer is answered by an interrupt.

  \<^bold>\<open>Scheduler\<close> (src/kernel_sched.c).  \<open>Sched\<close> has its operations.  \<open>Sched_Lists\<close> and
  \<open>Sched_Ops\<close> say what they do to the run queues and the timeout list as sequences;
  \<open>Sched_Inv\<close> has the configurations of many cores, with the point that each has reached, and the
  invariant; \<open>Sched_Switch\<close>, \<open>Sched_Gain\<close>, \<open>Sched_Steps\<close> and \<open>Sched_System\<close> show that every step
  keeps it and meets no fault; \<open>Sched_Reach\<close> has the step relation and the reachable
  configurations, \<open>Sched_Props\<close> the theorems.

  \<^bold>\<open>Mutexes and condition variables\<close> (src/kernel_cc.c).  \<open>Cond\<close> has the operations, \<open>Cond_Inv\<close>
  the invariant of the wait sets, \<open>Cond_Signal\<close> and \<open>Cond_System\<close> what each operation does,
  \<open>Cond_Reach\<close> and \<open>Cond_Safe\<close> their interleaving with the scheduler, \<open>Cond_Props\<close> the theorems:
  mutual exclusion, no lost wake-up, progress of the kernel lock.  \<open>Cond_Safe\<close> also has
  \<open>cc_history\<close>, the same runs with two records that no operation reads: when each thread began to
  wait, and whether a signal has woken it.  With them the theorems say that a signal wakes the thread
  that has waited longest and that a wait returns exactly what happened.

  \<^bold>\<open>Devices and streams\<close> (src/kernel_dev.c, src/kernel_streams.c, src/console.c).  \<open>Dev\<close> has
  the drivers over the answers of a device; \<open>Drivers\<close> has them against the machine, with the
  wait of a reader, and the handlers, the idle thread and the end of the scheduler;
  \<open>Drivers_Props\<close> what a read and a write give and take, on both, and the wake-up of a reader.  \<open>Streams\<close> has the file table and its system
  calls, \<open>Console\<close> the pseudo-console.  \<open>Streams_Pool\<close> has the locale \<open>resource_pool\<close>, an object
  pool with a free list, interpreted as \<open>fcbs\<close> here and as \<open>pcbs\<close> in \<open>Proc_Inv\<close>;
  \<open>Streams_Inv\<close> the reference counts; \<open>Streams_Open\<close> and \<open>Streams_Frames\<close> the calls;
  \<open>Streams_Reach\<close> the locales \<open>stream_reader\<close> and \<open>waiting_reader\<close>, interpreted on the three
  drivers, and the reachable configurations; \<open>Streams_Props\<close> the theorems.

  \<^bold>\<open>Processes and threads\<close> (src/kernel_proc.c, src/kernel_threads.c).  \<open>Proc\<close> and \<open>Threads\<close> have
  the calls.  \<open>Proc_Lists\<close> has the locale \<open>ring_family\<close>, interpreted on the lists of
  children, of exited children and of threads; \<open>Proc_Inv\<close> the tree of processes and its
  invariant; \<open>Proc_Exec\<close>, \<open>Proc_Wait\<close>, \<open>Proc_Exit\<close>, \<open>Thread_Ops\<close> and \<open>Thread_Exit\<close> a call or
  two each; \<open>Proc_Run\<close> a run in which the thread of the first process gets the core, and the two
  ways in which the end of a thread goes wrong; \<open>Proc_Props\<close> the theorems.

  \<^bold>\<open>System\<close> (src/kernel_sys.c, src/kernel_init.c, src/kernel_pipe.c, src/kernel_socket.c).
  \<open>Syscalls\<close> has the wrappers and the start; \<open>Boot\<close>, \<open>Boot_Run\<close> and \<open>Boot_System\<close> show that the
  start establishes every invariant.  \<open>System\<close>, \<open>System_Calls\<close> and \<open>System_Reach\<close> put the steps of the
  scheduler, the condition variables and the system calls on all cores together, in the relation
  \<open>os_step\<close>; calls that fault have no step.  \<open>os_reachable False\<close> has all system calls, and
  \<open>os_reachable True\<close>, the orderly runs, leaves out three: to go on with \<open>ThreadJoin\<close> when the
  thread that was joined has been detached (src/kernel_threads.c, where the PTCB is freed under
  its running thread), to go on with \<open>WaitChild\<close> when the child has been reaped already
  (src/kernel_proc.c, where its PCB is released again), and \<open>Exec\<close> of no function (a process without
  a thread).  \<open>System_Props\<close> has the theorems about orderly runs: threads and processes match, no
  system call faults, apart from the two ends of a thread and a \<open>ThreadJoin\<close> of an exited thread
  without an address for its exit value; and \<open>disorderly_calls_break_tables\<close>, by
  which each of the three calls, made after an orderly run, makes them false.

  The code's own \<open>initialize_scheduler\<close> stores one element past the end of its array; the model says
  so, and \<open>boot_out_of_bounds\<close> shows that every start reaches that fault.  The reachable
  configurations therefore start from \<open>boot_with init_sched_lists\<close>, which says what the store does
  where the variable declared next, \<open>TIMEOUT_LIST\<close>, lies behind the array: it initialises
  \<open>TIMEOUT_LIST\<close>, which \<open>initialize_scheduler\<close> then does again.  Everything that is proved of the
  started system (\<open>os_reachable\<close>, the runs that witnesses use, the tests) is proved from this start.

  \<^bold>\<open>Library and programs.\<close>  \<open>Args\<close> (argument vectors), \<open>Exceptions\<close> with \<open>Exceptions_Props\<close> (the
  exception stack as a machine over the code left to run; every finalizer runs once; to register a
  handler in a handler is the fault \<open>DanglingPtr\<close>, and to leave a block by \<open>return\<close> is not
  expressible), \<open>Tinyoslib\<close>
  with \<open>Tinyoslib_Props\<close> (programs get their arguments); \<open>Symposium\<close> with \<open>Symposium_Props\<close>
  (the philosophers exclude their neighbours, wake them and end); \<open>Shell_Programs\<close>, \<open>Shell\<close> and
  \<open>Shell_Props\<close> (programs as trees of their calls, so that they can be run on any system;
  splitting of the line); \<open>Apps\<close> (launchers, remote client), \<open>Remote_Log\<close>,
  \<open>Remote_Server\<close> and \<open>Remote_Server_Props\<close> (the threads of the remote server, interleaved: its log, its
  faults, among them the join of a listener that has ended, its end, and the command of a client, which
  arrives), \<open>Terminal\<close> (the relay of src/terminal.c refines two independent meetings, and when it
  ends).

  \<^bold>\<open>Tests.\<close>  \<open>Util_Tests\<close> and \<open>Exc_Tests\<close> (src/test_util.c) are the unit tests as programs on
  the models of their libraries, and pass.  \<open>Api_Tests\<close> and \<open>Api_Tests_Props\<close> (src/validate_api.c)
  are the tests of system calls that a single thread runs, made by the first process of the
  started machine: those of calls that exist pass on any number of cores, those of pipes and sockets
  fail.  \<open>Unit_Testing\<close> and \<open>Unit_Testing_Props\<close> (src/unit_testing.c) are the runner: messages,
  the relays that play a user at a terminal, the tree of tests, the options; \<open>Term_Proxy\<close> has the
  threads of the relays with their queues, which are first in, first out.

  \<^bold>\<open>Bounds.\<close>  The sizes of the static tables are those of the code (\<open>MAX_PROC\<close>, \<open>MAX_FILES\<close>,
  \<open>MAX_FILEID\<close>, \<open>MAX_CORES\<close>, \<open>MAX_TERMINALS\<close>, the levels of the run queue) and no theorem makes
  them smaller; the number of cores, terminals, threads and steps is arbitrary.  The loops of
  \<open>recv_message\<close> and \<open>send_message\<close> move at least a byte in each round, so that the length of the
  buffer is enough fuel (\<open>send_loop_connected\<close>); \<open>wait_all\<close> needs more than the number of
  children (\<open>wait_all_ends\<close>) and \<open>info_loop\<close> more than the number of processes, and running out
  of fuel is the fault \<open>Diverges\<close>.  The search for a free file id recurses over the \<open>MAX_FILEID\<close>
  slots of the array and the opening of the terminals in a test over those of its array, and so
  they end.

  \<^bold>\<open>Not modelled.\<close>  The machine contexts and stacks of the threads and
  the calls of the host that make and switch them (a switch changes the current thread), host threads,
  signal masks, barriers and file descriptors (their effect on the kernel is a step); floating
  point and random numbers of the symposium (arguments); the tests that need several threads,
  a terminal or a clock, whose steps are those of \<open>os_reachable\<close>; the threads and processes of the
  host that the test runner makes; the example programs and the documentation.
\<close>

end
